(* ===== verification/Prelude.thy ===== *)
theory Prelude
  imports Complex_Main "HOL-Library.Multiset"
begin

text \<open>
  Shared vocabulary of the development: the parts of the JavaScript run-time library the
  modelled TypeScript uses, as executable HOL functions, with the lemmas the component
  theories build on.

  \<^item> Strings are HOL strings; a character stands for one UTF-16 code unit. The code units the
    modelled code tests for are all below 256, and a code unit above that range which the code
    writes is given a free 8-bit stand-in where it occurs.
  \<^item> Numbers are \<open>int\<close> or \<open>nat\<close> where the code only ever computes with integers below
    \<open>2 ^ 53\<close>, exact rationals where it computes with fractions (rounding of binary64 is not
    modelled), and \<open>jnum\<close> where the code itself tests for \<open>NaN\<close>, infinities or fractions.
  \<^item> A \<open>Map\<close> is an association list in insertion order, a \<open>Set\<close> a list without
    duplicates in insertion order.
  \<^item> A run of a single-threaded component is a list of events, each handled to completion.
\<close>

named_theorems js_string \<open>facts on the string functions\<close>
named_theorems js_map \<open>facts on insertion-ordered maps\<close>

section \<open>Numbers\<close>

datatype jnum = Num rat | NaN | PosInf | NegInf

fun isFinite :: "jnum \<Rightarrow> bool" where
  "isFinite (Num r) = True"
| "isFinite _ = False"

fun isInteger :: "jnum \<Rightarrow> bool" where
  "isInteger (Num r) = (of_int \<lfloor>r\<rfloor> = r)"
| "isInteger _ = False"

definition jint :: "int \<Rightarrow> jnum" where
  "jint i = Num (of_int i)"

fun jnum_less :: "jnum \<Rightarrow> jnum \<Rightarrow> bool" where
  "jnum_less (Num a) (Num b) = (a < b)"
| "jnum_less NaN _ = False"
| "jnum_less _ NaN = False"
| "jnum_less NegInf NegInf = False"
| "jnum_less NegInf _ = True"
| "jnum_less PosInf _ = False"
| "jnum_less (Num a) PosInf = True"
| "jnum_less (Num a) NegInf = False"

lemma isInteger_jint [simp]: "isInteger (jint i)"
  by (simp add: jint_def)

lemma isInteger_finite: "isInteger x \<Longrightarrow> isFinite x"
  by (cases x) auto

text \<open>\<open>Math.round\<close>: halves go up.\<close>

definition js_round :: "rat \<Rightarrow> rat" where
  "js_round x = of_int \<lfloor>x + 1 / 2\<rfloor>"

lemma js_round_mono: "x \<le> y \<Longrightarrow> js_round x \<le> js_round y"
  unfolding js_round_def by (simp add: floor_mono)

lemma js_round_of_int: "js_round (of_int k) = of_int k"
  unfolding js_round_def by (simp add: floor_eq_iff)

lemma js_round_between:
  assumes "of_int a \<le> x" and "x \<le> of_int b"
  shows "of_int a \<le> js_round x" and "js_round x \<le> of_int b"
  using js_round_mono [OF assms(1)] js_round_mono [OF assms(2)] by (simp_all add: js_round_of_int)

definition MAX_SAFE_INTEGER :: int where
  "MAX_SAFE_INTEGER = 9007199254740991"

section \<open>Insertion-ordered maps\<close>

type_synonym ('k, 'v) jmap = "('k \<times> 'v) list"

definition jm_get :: "('k, 'v) jmap \<Rightarrow> 'k \<Rightarrow> 'v option" where
  "jm_get m k = map_of m k"

definition jm_has :: "('k, 'v) jmap \<Rightarrow> 'k \<Rightarrow> bool" where
  "jm_has m k = (map_of m k \<noteq> None)"

definition jm_delete :: "'k \<Rightarrow> ('k, 'v) jmap \<Rightarrow> ('k, 'v) jmap" where
  "jm_delete k m = filter (\<lambda>(k', _). k' \<noteq> k) m"

text \<open>\<open>Map.prototype.set\<close> keeps the position of a present key and appends a new one.\<close>

fun jm_set :: "'k \<Rightarrow> 'v \<Rightarrow> ('k, 'v) jmap \<Rightarrow> ('k, 'v) jmap" where
  "jm_set k v [] = [(k, v)]"
| "jm_set k v ((k', v') # m) = (if k' = k then (k, v) # m else (k', v') # jm_set k v m)"

abbreviation jm_keys :: "('k, 'v) jmap \<Rightarrow> 'k list" where
  "jm_keys m \<equiv> map fst m"

abbreviation jm_values :: "('k, 'v) jmap \<Rightarrow> 'v list" where
  "jm_values m \<equiv> map snd m"

abbreviation jm_wf :: "('k, 'v) jmap \<Rightarrow> bool" where
  "jm_wf m \<equiv> distinct (jm_keys m)"

lemma jm_get_Nil [simp]: "jm_get [] k = None"
  by (simp add: jm_get_def)

lemma jm_get_Cons [simp]:
  "jm_get ((k', v) # m) k = (if k' = k then Some v else jm_get m k)"
  by (simp add: jm_get_def)

lemma jm_has_iff [simp]: "jm_has m k \<longleftrightarrow> k \<in> set (jm_keys m)"
  by (simp add: jm_has_def map_of_eq_None_iff)

lemma jm_get_set [simp, js_map]: "jm_get (jm_set k v m) k' = (if k' = k then Some v else jm_get m k')"
  by (induction m) auto

lemma jm_delete_Cons:
  "jm_delete k ((k', v) # m) = (if k' = k then jm_delete k m else (k', v) # jm_delete k m)"
  by (simp add: jm_delete_def)

lemma jm_get_None_iff [js_map]: "jm_get m k = None \<longleftrightarrow> k \<notin> set (jm_keys m)"
  by (simp add: jm_get_def map_of_eq_None_iff)

lemma jm_get_delete [simp, js_map]:
  "jm_get (jm_delete k m) k' = (if k' = k then None else jm_get m k')"
  by (induction m) (auto simp: jm_delete_def)

lemma jm_keys_set:
  "jm_keys (jm_set k v m) = (if k \<in> set (jm_keys m) then jm_keys m else jm_keys m @ [k])"
  by (induction m) (force simp: image_iff)+

lemma jm_keys_delete: "jm_keys (jm_delete k m) = filter (\<lambda>k'. k' \<noteq> k) (jm_keys m)"
  by (induction m) (auto simp: jm_delete_def)

lemma jm_wf_set [simp, intro]: "jm_wf m \<Longrightarrow> jm_wf (jm_set k v m)"
  by (simp add: jm_keys_set)

lemma jm_wf_delete [simp, intro]: "jm_wf m \<Longrightarrow> jm_wf (jm_delete k m)"
  by (simp add: jm_keys_delete)

lemma jm_delete_absent [simp]: "k \<notin> set (jm_keys m) \<Longrightarrow> jm_delete k m = m"
  by (induction m) (auto simp: jm_delete_def)

lemma jm_set_absent: "k \<notin> set (jm_keys m) \<Longrightarrow> jm_set k v m = m @ [(k, v)]"
  by (induction m) auto

lemma jm_set_twice: "jm_set k v (jm_set k w m) = jm_set k v m"
  by (induction m) auto

lemma jm_get_append: "jm_get (m @ n) k = (case jm_get m k of None \<Rightarrow> jm_get n k | Some v \<Rightarrow> Some v)"
  by (induction m) auto

lemma jm_get_in_set: "jm_get m k = Some v \<Longrightarrow> (k, v) \<in> set m"
  by (simp add: jm_get_def map_of_SomeD)

lemma jm_get_SomeI: "jm_wf m \<Longrightarrow> (k, v) \<in> set m \<Longrightarrow> jm_get m k = Some v"
  by (simp add: jm_get_def)

lemma jm_length_set:
  "length (jm_set k v m) = (if k \<in> set (jm_keys m) then length m else Suc (length m))"
  by (induction m) (force simp: image_iff)+

lemma jm_delete_length_le: "length (jm_delete k m) \<le> length m"
  by (simp add: jm_delete_def)

lemma jm_delete_hd_length [simp]: "length (jm_delete k ((k, v) # m)) < Suc (length m)"
  by (simp add: jm_delete_def less_Suc_eq_le)

lemma jm_delete_length:
  "jm_wf m \<Longrightarrow> length (jm_delete k m) = (if k \<in> set (jm_keys m) then length m - 1 else length m)"
proof (induction m)
  case Nil
  then show ?case by (simp add: jm_delete_def)
next
  case (Cons a m)
  obtain k' v where a: "a = (k', v)" by (cases a)
  show ?case
  proof (cases "k' = k")
    case True
    with Cons.prems a have "k \<notin> set (jm_keys m)" by auto
    then have "jm_delete k m = m" by simp
    with True a show ?thesis by (simp add: jm_delete_def)
  next
    case False
    moreover from Cons a False have "k \<in> set (jm_keys m) \<Longrightarrow> 0 < length m"
      by (cases m) auto
    ultimately show ?thesis using Cons a by (auto simp: jm_delete_def)
  qed
qed

lemma in_set_jm_delete [js_map]: "x \<in> set (jm_delete k m) \<longleftrightarrow> x \<in> set m \<and> fst x \<noteq> k"
  by (auto simp: jm_delete_def)

lemma in_set_jm_setD: "x \<in> set (jm_set k v m) \<Longrightarrow> x = (k, v) \<or> x \<in> set m"
  by (induction m) (auto split: if_splits)

section \<open>Strings\<close>

text \<open>The white space of \<open>trim\<close> and \<open>\s\<close> among the code units below 256.\<close>

definition is_ws :: "char \<Rightarrow> bool" where
  "is_ws c = (of_char c \<in> {9, 10, 11, 12, 13, 32, 160 :: nat})"

definition trimStart :: "string \<Rightarrow> string" where
  "trimStart s = dropWhile is_ws s"

definition trimEnd :: "string \<Rightarrow> string" where
  "trimEnd s = rev (dropWhile is_ws (rev s))"

definition trim :: "string \<Rightarrow> string" where
  "trim s = trimEnd (trimStart s)"

definition startsWith :: "string \<Rightarrow> string \<Rightarrow> bool" where
  "startsWith s p = (take (length p) s = p)"

definition endsWith :: "string \<Rightarrow> string \<Rightarrow> bool" where
  "endsWith s p = (length p \<le> length s \<and> drop (length s - length p) s = p)"

text \<open>\<open>split\<close> with a one-character separator: the empty string gives one empty piece.\<close>

fun split_char :: "char \<Rightarrow> string \<Rightarrow> string list" where
  "split_char c [] = [[]]"
| "split_char c (x # xs) =
     (if x = c then [] # split_char c xs
      else (case split_char c xs of [] \<Rightarrow> [[x]] | p # ps \<Rightarrow> (x # p) # ps))"

fun join_with :: "string \<Rightarrow> string list \<Rightarrow> string" where
  "join_with sep [] = []"
| "join_with sep [x] = x"
| "join_with sep (x # y # ys) = x @ sep @ join_with sep (y # ys)"

definition is_digit :: "char \<Rightarrow> bool" where
  "is_digit c = (48 \<le> (of_char c :: nat) \<and> (of_char c :: nat) \<le> 57)"

definition digit_val :: "char \<Rightarrow> nat" where
  "digit_val c = of_char c - 48"

definition nat_of_digits :: "string \<Rightarrow> nat" where
  "nat_of_digits s = foldl (\<lambda>n c. 10 * n + digit_val c) 0 s"

text \<open>Maximal runs of non-white-space: \<open>split(/\s+/u)\<close> without its empty pieces.\<close>

fun ws_words_acc :: "string \<Rightarrow> string \<Rightarrow> string list" where
  "ws_words_acc w [] = (if w = [] then [] else [rev w])"
| "ws_words_acc w (c # s) =
     (if is_ws c then (if w = [] then ws_words_acc [] s else rev w # ws_words_acc [] s)
      else ws_words_acc (c # w) s)"

definition ws_words :: "string \<Rightarrow> string list" where
  "ws_words s = ws_words_acc [] s"

definition digit_char :: "nat \<Rightarrow> char" where
  "digit_char d = char_of (48 + d)"

text \<open>\<open>String(n)\<close> for a natural number below \<open>10 ^ 21\<close>.\<close>

fun digits_of_nat :: "nat \<Rightarrow> string" where
  "digits_of_nat n =
     (if n < 10 then [digit_char n] else digits_of_nat (n div 10) @ [digit_char (n mod 10)])"

declare digits_of_nat.simps [simp del]

lemma digit_char_props [simp]:
  assumes "d < 10"
  shows "is_digit (digit_char d)" "digit_val (digit_char d) = d"
  using assms by (simp_all add: is_digit_def digit_val_def digit_char_def)

lemma char_of_48: "char_of (48 :: nat) = CHR ''0''"
  by code_simp

lemma digit_char_zero: "d < 10 \<Longrightarrow> digit_char d = CHR ''0'' \<longleftrightarrow> d = 0"
  using digit_char_props(2) [of d] by (auto simp: digit_val_def) (simp add: digit_char_def char_of_48)

lemma nat_of_digits_snoc [simp]: "nat_of_digits (s @ [c]) = 10 * nat_of_digits s + digit_val c"
  by (simp add: nat_of_digits_def)

lemma nat_of_digits_of_nat [simp, js_string]: "nat_of_digits (digits_of_nat n) = n"
proof (induction n rule: digits_of_nat.induct)
  case (1 n)
  then show ?case
    by (cases "n < 10") (auto simp: digits_of_nat.simps [of n], simp add: nat_of_digits_def)
qed

lemma digits_of_nat_digits [simp, js_string]: "c \<in> set (digits_of_nat n) \<Longrightarrow> is_digit c"
proof (induction n rule: digits_of_nat.induct)
  case (1 n)
  then show ?case
    by (cases "n < 10") (auto simp: digits_of_nat.simps [of n])
qed

lemma digits_of_nat_not_Nil [simp]: "digits_of_nat n \<noteq> []"
  by (subst digits_of_nat.simps) simp

lemma hd_digits_of_nat_zero: "hd (digits_of_nat n) = CHR ''0'' \<longleftrightarrow> n = 0"
proof (induction n rule: digits_of_nat.induct)
  case (1 n)
  then show ?case
    by (cases "n < 10") (auto simp: digits_of_nat.simps [of n] digit_char_zero)
qed

lemma length_digits_of_nat_zero: "n = 0 \<Longrightarrow> length (digits_of_nat n) = 1"
  by (subst digits_of_nat.simps) simp

lemma split_char_not_Nil [simp]: "split_char c s \<noteq> []"
  by (induction s) (auto split: list.splits)

lemma join_split_char [js_string]: "join_with [c] (split_char c s) = s"
proof (induction s)
  case Nil
  then show ?case by simp
next
  case (Cons x s)
  obtain p ps where ps: "split_char c s = p # ps"
    by (cases "split_char c s") auto
  with Cons show ?case by (cases ps) auto
qed

lemma split_char_pieces [js_string]: "p \<in> set (split_char c s) \<Longrightarrow> c \<notin> set p"
proof (induction s arbitrary: p)
  case Nil
  then show ?case by simp
next
  case (Cons x s)
  then show ?case
    by (cases "split_char c s") (auto split: if_splits)
qed

lemma trimEnd_Nil [simp]: "trimEnd [] = []"
  by (simp add: trimEnd_def)

lemma trim_Nil [simp]: "trim [] = []"
  by (simp add: trim_def trimStart_def)

section \<open>\<open>Number(string)\<close>\<close>

text \<open>
  The string-to-number conversion of ECMAScript: white space is trimmed, the empty string is 0,
  the prefixes \<open>0x\<close>, \<open>0o\<close>, \<open>0b\<close> select a radix, otherwise a decimal literal
  with optional sign, fraction and exponent, or \<open>Infinity\<close>. A value at or above the rounding
  bound of binary64 is infinite; below it the exact value is kept.
\<close>

definition MAX_DOUBLE_BOUND :: rat where
  "MAX_DOUBLE_BOUND = of_int (2 ^ 1024 - 2 ^ 970)"

definition jnum_of_rat :: "rat \<Rightarrow> jnum" where
  "jnum_of_rat r =
     (if r \<ge> MAX_DOUBLE_BOUND then PosInf else if r \<le> - MAX_DOUBLE_BOUND then NegInf else Num r)"

definition radix_digit :: "char \<Rightarrow> nat option" where
  "radix_digit c =
     (let n = of_char c :: nat in
      if 48 \<le> n \<and> n \<le> 57 then Some (n - 48)
      else if 97 \<le> n \<and> n \<le> 102 then Some (n - 87)
      else if 65 \<le> n \<and> n \<le> 70 then Some (n - 55) else None)"

fun radix_value :: "nat \<Rightarrow> int \<Rightarrow> string \<Rightarrow> int option" where
  "radix_value radix acc [] = Some acc"
| "radix_value radix acc (c # s) =
     (case radix_digit c of None \<Rightarrow> None
      | Some d \<Rightarrow> if d < radix then radix_value radix (int radix * acc + int d) s else None)"

definition dec_value :: "string \<Rightarrow> int" where
  "dec_value ds = foldl (\<lambda>n c. 10 * n + int (digit_val c)) 0 ds"

definition exponent_part :: "string \<Rightarrow> int option" where
  "exponent_part s =
     (case s of [] \<Rightarrow> Some 0
      | e # r \<Rightarrow>
          if e = CHR ''e'' \<or> e = CHR ''E'' then
            (let (neg, ds) = (case r of [] \<Rightarrow> (False, r)
                 | c # r' \<Rightarrow> if c = CHR ''-'' then (True, r') else if c = CHR ''+'' then (False, r')
                            else (False, r))
             in if ds = [] \<or> \<not> list_all is_digit ds then None
                else Some (if neg then - dec_value ds else dec_value ds))
          else None)"

definition scale10 :: "rat \<Rightarrow> int \<Rightarrow> rat" where
  "scale10 r e = (if 0 \<le> e then r * 10 ^ nat e else r / 10 ^ nat (- e))"

definition unsigned_decimal :: "string \<Rightarrow> jnum" where
  "unsigned_decimal s =
     (if s = ''Infinity'' then PosInf
      else let ds = takeWhile is_digit s; r = dropWhile is_digit s;
               (fs, r') = (case r of [] \<Rightarrow> ([], r)
                 | c # q \<Rightarrow> if c = CHR ''.'' then (takeWhile is_digit q, dropWhile is_digit q)
                          else ([], r))
           in if ds = [] \<and> fs = [] then NaN
              else (case exponent_part r' of None \<Rightarrow> NaN
                    | Some e \<Rightarrow> jnum_of_rat
                        (scale10 (of_int (dec_value (ds @ fs))) (e - int (length fs)))))"

fun neg_jnum :: "jnum \<Rightarrow> jnum" where
  "neg_jnum (Num r) = Num (- r)"
| "neg_jnum NaN = NaN"
| "neg_jnum PosInf = NegInf"
| "neg_jnum NegInf = PosInf"

definition js_Number :: "string \<Rightarrow> jnum" where
  "js_Number s =
     (let t = trim s in
      case t of [] \<Rightarrow> Num 0
      | c # r \<Rightarrow>
          (let radix = (case r of [] \<Rightarrow> None
                 | x # _ \<Rightarrow> if c \<noteq> CHR ''0'' then None
                     else if x \<in> {CHR ''x'', CHR ''X''} then Some 16
                     else if x \<in> {CHR ''o'', CHR ''O''} then Some 8
                     else if x \<in> {CHR ''b'', CHR ''B''} then Some 2 else None)
           in case radix of
                Some b \<Rightarrow> (if tl r = [] then NaN
                  else (case radix_value b 0 (tl r) of None \<Rightarrow> NaN
                        | Some v \<Rightarrow> jnum_of_rat (of_int v)))
              | None \<Rightarrow>
                  (if c = CHR ''-'' then neg_jnum (unsigned_decimal r)
                   else if c = CHR ''+'' then unsigned_decimal r
                   else unsigned_decimal t)))"

section \<open>Comparators\<close>

text \<open>
  A comparator in the sense of \<open>Array.prototype.sort\<close>: negative, zero or positive. The loop
  that keeps the best element so far and replaces it by a strictly greater one returns the
  first of the greatest elements.
\<close>

fun pick_max :: "('a \<Rightarrow> 'a \<Rightarrow> int) \<Rightarrow> 'a option \<Rightarrow> 'a list \<Rightarrow> 'a option" where
  "pick_max cmp best [] = best"
| "pick_max cmp best (x # xs) =
     (case best of None \<Rightarrow> pick_max cmp (Some x) xs
      | Some b \<Rightarrow> if cmp x b > 0 then pick_max cmp (Some x) xs else pick_max cmp (Some b) xs)"

locale js_comparator =
  fixes cmp :: "'a \<Rightarrow> 'a \<Rightarrow> int"
  assumes cmp_refl: "cmp x x = 0"
    and cmp_antisym: "cmp x y > 0 \<longleftrightarrow> cmp y x < 0"
    and cmp_trans: "cmp x y \<le> 0 \<Longrightarrow> cmp y z \<le> 0 \<Longrightarrow> cmp x z \<le> 0"
begin

lemma cmp_total: "cmp x y \<le> 0 \<or> cmp y x \<le> 0"
  using cmp_antisym [of x y] by linarith

lemma pick_max_Some_upper:
  "pick_max cmp (Some b) xs = Some m
    \<Longrightarrow> (m = b \<or> m \<in> set xs) \<and> (\<forall>x \<in> insert b (set xs). cmp x m \<le> 0)"
proof (induction xs arbitrary: b)
  case Nil
  then show ?case by (simp add: cmp_refl)
next
  case (Cons x xs)
  show ?case
  proof (cases "cmp x b > 0")
    case True
    with Cons have IH: "(m = x \<or> m \<in> set xs) \<and> (\<forall>y \<in> insert x (set xs). cmp y m \<le> 0)" by simp
    from True have "cmp b x \<le> 0" using cmp_antisym [of x b] by linarith
    with IH cmp_trans [of b x m] show ?thesis by auto
  next
    case False
    with Cons have IH: "(m = b \<or> m \<in> set xs) \<and> (\<forall>y \<in> insert b (set xs). cmp y m \<le> 0)" by simp
    from False IH cmp_trans [of x b m] show ?thesis by auto
  qed
qed

lemma pick_max_Some_total: "\<exists>m. pick_max cmp (Some b) xs = Some m"
  by (induction xs arbitrary: b) auto

lemma pick_max_None_iff: "pick_max cmp None xs = None \<longleftrightarrow> xs = []"
  using pick_max_Some_total by (cases xs) auto

lemma pick_max_upper:
  "pick_max cmp None xs = Some m \<Longrightarrow> m \<in> set xs \<and> (\<forall>x \<in> set xs. cmp x m \<le> 0)"
  by (cases xs) (auto dest: pick_max_Some_upper)

end

section \<open>Arrays\<close>

text \<open>\<open>xs[i]\<close> for an integer index: \<open>undefined\<close> out of range, also below zero.\<close>

definition js_at :: "'a list \<Rightarrow> int \<Rightarrow> 'a option" where
  "js_at xs i = (if 0 \<le> i \<and> i < int (length xs) then Some (xs ! nat i) else None)"

fun find_index :: "('a \<Rightarrow> bool) \<Rightarrow> 'a list \<Rightarrow> nat option" where
  "find_index P [] = None"
| "find_index P (x # xs) = (if P x then Some 0 else map_option Suc (find_index P xs))"

text \<open>\<open>indexOf\<close> and \<open>findIndex\<close>, with -1 for no match.\<close>

definition js_findIndex :: "('a \<Rightarrow> bool) \<Rightarrow> 'a list \<Rightarrow> int" where
  "js_findIndex P xs = (case find_index P xs of None \<Rightarrow> -1 | Some i \<Rightarrow> int i)"

definition splice_in :: "nat \<Rightarrow> 'a list \<Rightarrow> 'a list \<Rightarrow> 'a list" where
  "splice_in i ys xs = take i xs @ ys @ drop i xs"

lemma js_at_in_set: "js_at xs i = Some x \<Longrightarrow> x \<in> set xs"
  by (auto simp: js_at_def split: if_splits)

lemma set_splice_in [simp]: "set (splice_in i ys xs) = set ys \<union> set xs"
  unfolding splice_in_def set_append
  by (metis append_take_drop_id set_append sup_left_commute)

lemma find_index_Some:
  "find_index P xs = Some i \<Longrightarrow> i < length xs \<and> P (xs ! i) \<and> (\<forall>j < i. \<not> P (xs ! j))"
proof (induction xs arbitrary: i)
  case Nil
  then show ?case by simp
next
  case (Cons x xs)
  then show ?case
    by (cases i) (auto split: if_splits simp: nth_Cons split: nat.splits)
qed

lemma find_index_None: "find_index P xs = None \<longleftrightarrow> (\<forall>x \<in> set xs. \<not> P x)"
  by (induction xs) auto

section \<open>Values of unknown shape\<close>

text \<open>What a field of type \<open>unknown\<close> can hold after \<open>JSON.parse\<close>.\<close>

datatype json =
  JNull | JBool bool | JNum rat | JString string | JArray "json list"
  | JObject "(string \<times> json) list"

text \<open>\<open>value[key]\<close> for a value that may be anything: \<open>undefined\<close> unless it is an object that
  has the key. (The keys the modelled code reads are not names of \<open>Object.prototype\<close>.)\<close>

fun json_field :: "json \<Rightarrow> string \<Rightarrow> json option" where
  "json_field (JObject fs) k = map_of fs k"
| "json_field _ k = None"

section \<open>Registries with cleanup\<close>

text \<open>
  The registration contract of the plugin surfaces: registering a value returns a cleanup that
  takes exactly this registration back. A client that registers several values and runs the
  cleanups in the opposite order leaves the registry as it was.
\<close>

locale cleanup_registry =
  fixes register :: "'x \<Rightarrow> 'r \<Rightarrow> 'r"
    and cleanup :: "'x \<Rightarrow> 'r \<Rightarrow> 'r"
    and fresh :: "'x \<Rightarrow> 'r \<Rightarrow> bool"
    and inv :: "'r \<Rightarrow> bool"
  assumes inv_register: "inv r \<Longrightarrow> fresh x r \<Longrightarrow> inv (register x r)"
    and cleanup_register: "inv r \<Longrightarrow> fresh x r \<Longrightarrow> cleanup x (register x r) = r"
begin

fun all_fresh :: "'x list \<Rightarrow> 'r \<Rightarrow> bool" where
  "all_fresh [] r = True"
| "all_fresh (x # xs) r = (fresh x r \<and> all_fresh xs (register x r))"

lemma nested_cleanup:
  "inv r \<Longrightarrow> all_fresh xs r \<Longrightarrow> fold cleanup (rev xs) (fold register xs r) = r"
proof (induction xs arbitrary: r)
  case Nil
  then show ?case by simp
next
  case (Cons x xs)
  then have "fold cleanup (rev xs) (fold register xs (register x r)) = register x r"
    by (auto intro: inv_register)
  with Cons.prems show ?case by (simp add: cleanup_register)
qed

lemma inv_registers: "inv r \<Longrightarrow> all_fresh xs r \<Longrightarrow> inv (fold register xs r)"
  by (induction xs arbitrary: r) (auto intro: inv_register)

end

text \<open>Appending an element to a list kept sorted by a stable sort, and removing it again.\<close>

lemma insort_key_le_hd: "\<forall>y \<in> set ys. f x \<le> f y \<Longrightarrow> insort_key f x ys = x # ys"
  by (cases ys) auto

lemma sort_key_snoc:
  "sorted (map f xs) \<Longrightarrow>
    sort_key f (xs @ [x]) = takeWhile (\<lambda>y. f y \<le> f x) xs @ x # dropWhile (\<lambda>y. f y \<le> f x) xs"
proof (induction xs)
  case Nil
  then show ?case by simp
next
  case (Cons y ys)
  then have IH: "sort_key f (ys @ [x])
      = takeWhile (\<lambda>y. f y \<le> f x) ys @ x # dropWhile (\<lambda>y. f y \<le> f x) ys"
    and ge: "\<forall>z \<in> set ys. f y \<le> f z" by auto
  show ?case
  proof (cases "f y \<le> f x")
    case True
    have "\<forall>z \<in> set (sort_key f (ys @ [x])). f y \<le> f z" using ge True by auto
    then have "insort_key f y (sort_key f (ys @ [x])) = y # sort_key f (ys @ [x])"
      by (rule insort_key_le_hd)
    with True IH show ?thesis by simp
  next
    case False
    with ge have "takeWhile (\<lambda>y. f y \<le> f x) ys = []" and "dropWhile (\<lambda>y. f y \<le> f x) ys = ys"
      by (cases ys; force)+
    with False IH insort_key_le_hd [OF ge] show ?thesis by simp
  qed
qed

lemma remove1_sort_key_snoc:
  assumes "sorted (map f xs)" and "x \<notin> set xs"
  shows "remove1 x (sort_key f (xs @ [x])) = xs"
proof -
  have "x \<notin> set (takeWhile (\<lambda>y. f y \<le> f x) xs)" using assms(2) set_takeWhileD by fast
  then show ?thesis by (simp add: sort_key_snoc [OF assms(1)] remove1_append)
qed

section \<open>Runs of event handlers\<close>

text \<open>
  A component whose handlers run to completion is a step function from an event and a state
  to the next state; a schedule of the event loop is a list of events. An invariant that every
  handler keeps holds after every schedule.
\<close>

definition run_events :: "('e \<Rightarrow> 's \<Rightarrow> 's) \<Rightarrow> 'e list \<Rightarrow> 's \<Rightarrow> 's" where
  "run_events step es s = fold step es s"

lemma run_events_Nil [simp]: "run_events step [] s = s"
  by (simp add: run_events_def)

lemma run_events_Cons [simp]: "run_events step (e # es) s = run_events step es (step e s)"
  by (simp add: run_events_def)

lemma run_events_append [simp]:
  "run_events step (es @ fs) s = run_events step fs (run_events step es s)"
  by (simp add: run_events_def)

locale event_system =
  fixes step :: "'e \<Rightarrow> 's \<Rightarrow> 's"
    and inv :: "'s \<Rightarrow> bool"
  assumes inv_step: "inv s \<Longrightarrow> inv (step e s)"
begin

lemma inv_run: "inv s \<Longrightarrow> inv (run_events step es s)"
  by (induction es arbitrary: s) (auto intro: inv_step)

lemma inv_prefix: "inv s \<Longrightarrow> inv (run_events step (take n es) s)"
  by (rule inv_run)

end

text \<open>
  A second contract on top of it: a relation between the state before and the state after
  that every handler satisfies and that composes, such as ``this counter never goes down''.
\<close>

locale monotone_event_system = event_system +
  fixes le :: "'s \<Rightarrow> 's \<Rightarrow> bool"
  assumes le_refl: "le s s"
    and le_trans: "le s t \<Longrightarrow> le t u \<Longrightarrow> le s u"
    and le_step: "inv s \<Longrightarrow> le s (step e s)"
begin

lemma le_run: "inv s \<Longrightarrow> le s (run_events step es s)"
proof (induction es arbitrary: s)
  case Nil
  then show ?case by (simp add: le_refl)
next
  case (Cons e es)
  then have "le (step e s) (run_events step es (step e s))"
    by (blast intro: inv_step)
  with Cons.prems show ?case
    by (auto intro: le_trans [OF le_step])
qed

end

end
