(* ===== verification/Lru_Cache.thy ===== *)
theory Lru_Cache
  imports Prelude
begin

text \<open>
  The bounded LRU cache of \<^verbatim>\<open>packages/shared/src/cache.ts\<close>: the record \<open>lru\<close> holds the
  private fields of the class, one definition per method. \<open>Date.now()\<close> is the argument
  \<open>now\<close>. The asynchronous \<open>getOrComputeAsync\<close> is split at its suspension points: the
  synchronous part of the call, the \<open>then\<close> callback and the \<open>finally\<close> callback of the
  pending computation, which the event loop may interleave with any other method.

  Shown: the invariant (size bound, distinct keys) under every method and every schedule, the
  cache laws the locale \<open>bounded_cache\<close> states, that \<open>set\<close> evicts exactly the
  least-recently-used entry, that concurrent misses share one computation as long as the cache
  is not cleared, and that \<open>clear\<close> breaks the sharing.
\<close>

section \<open>State\<close>

record 'v lru_entry =
  entry_value :: 'v
  expiresAt :: "rat option"

record 'v lru =
  lmap :: "(string, 'v lru_entry) jmap"
  maxSize :: nat
  ttlMs :: "rat option"
  hits :: nat
  misses :: nat
  evictions :: nat
  inFlight :: "(string, nat) jmap"
  \<comment> \<open>computations whose \<open>then\<close>, respectively \<open>finally\<close>, callback has not run yet\<close>
  computing :: "(nat, string) jmap"
  finalizing :: "(nat, string) jmap"
  nextPromise :: nat

datatype lru_error = MaxSizeNotPositive | TtlNotPositive

fun rat_of_num :: "jnum \<Rightarrow> rat" where
  "rat_of_num (Num r) = r"
| "rat_of_num _ = 0"

definition new_LruCache :: "jnum \<Rightarrow> jnum option \<Rightarrow> lru_error + 'v lru" where
  "new_LruCache opt_maxSize opt_ttlMs =
     (if \<not> isInteger opt_maxSize \<or> jnum_less opt_maxSize (jint 1) then Inl MaxSizeNotPositive
      else if (case opt_ttlMs of None \<Rightarrow> False
               | Some t \<Rightarrow> \<not> isFinite t \<or> \<not> jnum_less (jint 0) t) then Inl TtlNotPositive
      else Inr \<lparr>lmap = [], maxSize = nat \<lfloor>rat_of_num opt_maxSize\<rfloor>,
                ttlMs = map_option rat_of_num opt_ttlMs, hits = 0, misses = 0, evictions = 0,
                inFlight = [], computing = [], finalizing = [], nextPromise = 0\<rparr>)"

section \<open>Methods\<close>

definition isExpired :: "rat \<Rightarrow> 'v lru_entry \<Rightarrow> bool" where
  "isExpired now e = (case expiresAt e of None \<Rightarrow> False | Some t \<Rightarrow> t \<le> now)"

definition lru_get :: "string \<Rightarrow> rat \<Rightarrow> 'v lru \<Rightarrow> 'v option \<times> 'v lru" where
  "lru_get key now s =
     (case jm_get (lmap s) key of
        None \<Rightarrow> (None, s\<lparr>misses := Suc (misses s)\<rparr>)
      | Some entry \<Rightarrow>
          (if isExpired now entry
           then (None, s\<lparr>lmap := jm_delete key (lmap s), evictions := Suc (evictions s),
                         misses := Suc (misses s)\<rparr>)
           else (Some (entry_value entry),
                 s\<lparr>lmap := jm_set key entry (jm_delete key (lmap s)), hits := Suc (hits s)\<rparr>)))"

text \<open>The loop of \<open>set\<close> that drops the oldest entries while the map is over the limit.\<close>

fun evict_oldest :: "nat \<Rightarrow> (string, 'v lru_entry) jmap \<times> nat
    \<Rightarrow> (string, 'v lru_entry) jmap \<times> nat" where
  "evict_oldest limit (m, n) =
     (if limit < length m
      then (case m of [] \<Rightarrow> (m, n)
            | (oldest, _) # _ \<Rightarrow> evict_oldest limit (jm_delete oldest m, Suc n))
      else (m, n))"

declare evict_oldest.simps [simp del]

definition lru_set :: "string \<Rightarrow> 'v \<Rightarrow> rat \<Rightarrow> 'v lru \<Rightarrow> 'v lru" where
  "lru_set key value now s =
     (let m1 = (if jm_has (lmap s) key then jm_delete key (lmap s) else lmap s);
          m2 = jm_set key \<lparr>entry_value = value,
                           expiresAt = map_option (\<lambda>t. now + t) (ttlMs s)\<rparr> m1;
          (m3, ev) = evict_oldest (maxSize s) (m2, evictions s)
      in s\<lparr>lmap := m3, evictions := ev\<rparr>)"

text \<open>The factory is a closure that may throw and may itself use the cache; the clock may
  advance while it runs.\<close>

definition lru_getOrCompute :: "string \<Rightarrow> ('v lru \<Rightarrow> ('x + 'v) \<times> 'v lru) \<Rightarrow> rat \<Rightarrow> rat \<Rightarrow> 'v lru
    \<Rightarrow> ('x + 'v) \<times> 'v lru" where
  "lru_getOrCompute key factory now now' s =
     (case lru_get key now s of
        (Some v, s1) \<Rightarrow> (Inr v, s1)
      | (None, s1) \<Rightarrow>
          (case factory s1 of
             (Inl x, s2) \<Rightarrow> (Inl x, s2)
           | (Inr v, s2) \<Rightarrow> (Inr v, lru_set key v now' s2)))"

datatype 'v async_result = Cached 'v | Joined nat | Started nat | FactoryThrew

definition lru_getOrComputeAsync :: "string \<Rightarrow> bool \<Rightarrow> rat \<Rightarrow> 'v lru \<Rightarrow> 'v async_result \<times> 'v lru" where
  "lru_getOrComputeAsync key factory_returns now s =
     (case lru_get key now s of
        (Some v, s1) \<Rightarrow> (Cached v, s1)
      | (None, s1) \<Rightarrow>
          (case jm_get (inFlight s1) key of
             Some p \<Rightarrow> (Joined p, s1)
           | None \<Rightarrow>
               (if \<not> factory_returns then (FactoryThrew, s1)
                else (Started (nextPromise s1),
                      s1\<lparr>inFlight := jm_set key (nextPromise s1) (inFlight s1),
                         computing := jm_set (nextPromise s1) key (computing s1),
                         nextPromise := Suc (nextPromise s1)\<rparr>))))"

text \<open>The \<open>then\<close> callback runs on fulfilment only (\<open>Some v\<close>); a rejection passes it by.\<close>

definition computation_then :: "nat \<Rightarrow> 'v option \<Rightarrow> rat \<Rightarrow> 'v lru \<Rightarrow> 'v lru" where
  "computation_then p outcome now s =
     (case jm_get (computing s) p of
        None \<Rightarrow> s
      | Some key \<Rightarrow>
          (let s1 = (case outcome of Some v \<Rightarrow> lru_set key v now s | None \<Rightarrow> s)
           in s1\<lparr>computing := jm_delete p (computing s1),
                 finalizing := jm_set p key (finalizing s1)\<rparr>))"

definition computation_finally :: "nat \<Rightarrow> 'v lru \<Rightarrow> 'v lru" where
  "computation_finally p s =
     (case jm_get (finalizing s) p of
        None \<Rightarrow> s
      | Some key \<Rightarrow> s\<lparr>inFlight := jm_delete key (inFlight s),
                       finalizing := jm_delete p (finalizing s)\<rparr>)"

definition lru_delete :: "string \<Rightarrow> 'v lru \<Rightarrow> bool \<times> 'v lru" where
  "lru_delete key s = (jm_has (lmap s) key, s\<lparr>lmap := jm_delete key (lmap s)\<rparr>)"

definition lru_clear :: "'v lru \<Rightarrow> 'v lru" where
  "lru_clear s = s\<lparr>lmap := [], inFlight := []\<rparr>"

definition lru_size :: "'v lru \<Rightarrow> nat" where
  "lru_size s = length (lmap s)"

definition liveSize :: "rat \<Rightarrow> 'v lru \<Rightarrow> nat" where
  "liveSize now s =
     (case ttlMs s of
        None \<Rightarrow> length (lmap s)
      | Some _ \<Rightarrow> length (filter (\<lambda>e. case expiresAt e of None \<Rightarrow> True | Some t \<Rightarrow> now < t)
                            (jm_values (lmap s))))"

record cache_metrics =
  m_hits :: nat
  m_misses :: nat
  m_evictions :: nat
  m_size :: nat

definition lru_metrics :: "rat \<Rightarrow> 'v lru \<Rightarrow> cache_metrics" where
  "lru_metrics now s =
     \<lparr>m_hits = hits s, m_misses = misses s, m_evictions = evictions s, m_size = liveSize now s\<rparr>"

section \<open>Schedules\<close>

datatype 'v lru_op =
    Get string rat
  | Set string 'v rat
  | GetAsync string bool rat
  | Then nat "'v option" rat
  | Finally nat
  | Delete string

fun lru_op_step :: "'v lru_op \<Rightarrow> 'v lru \<Rightarrow> 'v lru" where
  "lru_op_step (Get k now) s = snd (lru_get k now s)"
| "lru_op_step (Set k v now) s = lru_set k v now s"
| "lru_op_step (GetAsync k ok now) s = snd (lru_getOrComputeAsync k ok now s)"
| "lru_op_step (Then p out now) s = computation_then p out now s"
| "lru_op_step (Finally p) s = computation_finally p s"
| "lru_op_step (Delete k) s = snd (lru_delete k s)"

datatype 'v lru_event = Op "'v lru_op" | Clear

fun lru_step :: "'v lru_event \<Rightarrow> 'v lru \<Rightarrow> 'v lru" where
  "lru_step (Op e) s = lru_op_step e s"
| "lru_step Clear s = lru_clear s"

definition lru_inv :: "'v lru \<Rightarrow> bool" where
  "lru_inv s \<longleftrightarrow> jm_wf (lmap s) \<and> 1 \<le> maxSize s \<and> length (lmap s) \<le> maxSize s"

section \<open>The eviction loop\<close>

lemma evict_oldest_eq:
  "jm_wf m \<Longrightarrow> evict_oldest limit (m, n) = (drop (length m - limit) m, n + (length m - limit))"
proof (induction limit "(m, n)" arbitrary: m n rule: evict_oldest.induct)
  case (1 limit m n)
  show ?case
  proof (cases "limit < length m")
    case True
    then obtain k e m' where m: "m = (k, e) # m'" by (cases m) auto
    with "1.prems" have del: "jm_delete k m = m'" "jm_wf m'"
      by (simp_all add: jm_delete_Cons)
    from m True del "1.hyps" [OF True m refl]
    show ?thesis by (simp add: evict_oldest.simps [of limit "(k, e) # m'" n] Suc_diff_le)
  next
    case False
    then show ?thesis by (simp add: evict_oldest.simps)
  qed
qed

lemma jm_set_delete_append: "jm_set k v (jm_delete k m) = jm_delete k m @ [(k, v)]"
  by (rule jm_set_absent) (auto simp: jm_keys_delete)

definition set_entry :: "'v \<Rightarrow> rat \<Rightarrow> 'v lru \<Rightarrow> 'v lru_entry" where
  "set_entry v now s = \<lparr>entry_value = v, expiresAt = map_option (\<lambda>t. now + t) (ttlMs s)\<rparr>"

lemma lru_set_lmap:
  assumes "lru_inv s"
  shows "lmap (lru_set k v now s) =
    (let m = jm_delete k (lmap s) @ [(k, set_entry v now s)]
     in drop (length m - maxSize s) m)"
proof -
  let ?m = "jm_delete k (lmap s) @ [(k, set_entry v now s)]"
  have eq: "jm_set k (set_entry v now s)
      (if jm_has (lmap s) k then jm_delete k (lmap s) else lmap s) = ?m"
    by (auto simp: jm_set_delete_append jm_set_absent)
  have "jm_wf ?m" using assms by (auto simp: lru_inv_def jm_keys_delete)
  then show ?thesis
    unfolding lru_set_def Let_def set_entry_def [symmetric]
    by (simp only: eq) (simp add: evict_oldest_eq)
qed

lemma lru_set_frame [simp]:
  "maxSize (lru_set k v now s) = maxSize s" "ttlMs (lru_set k v now s) = ttlMs s"
  "hits (lru_set k v now s) = hits s" "misses (lru_set k v now s) = misses s"
  "inFlight (lru_set k v now s) = inFlight s" "computing (lru_set k v now s) = computing s"
  "finalizing (lru_set k v now s) = finalizing s" "nextPromise (lru_set k v now s) = nextPromise s"
  by (simp_all add: lru_set_def Let_def split: prod.splits)

lemma lru_get_frame [simp]:
  "maxSize (snd (lru_get k now s)) = maxSize s" "ttlMs (snd (lru_get k now s)) = ttlMs s"
  "inFlight (snd (lru_get k now s)) = inFlight s" "computing (snd (lru_get k now s)) = computing s"
  "finalizing (snd (lru_get k now s)) = finalizing s"
  "nextPromise (snd (lru_get k now s)) = nextPromise s"
  by (simp_all add: lru_get_def split: option.splits)

section \<open>The invariant\<close>

lemma lru_inv_get: "lru_inv s \<Longrightarrow> lru_inv (snd (lru_get k now s))"
proof -
  assume inv: "lru_inv s"
  have "\<And>e. jm_get (lmap s) k = Some e \<Longrightarrow> Suc (length (jm_delete k (lmap s))) = length (lmap s)"
    using inv by (auto simp: lru_inv_def jm_delete_length jm_get_def dest!: map_of_SomeD
        intro!: Suc_pred) force
  then show ?thesis using inv
    by (auto simp: lru_get_def lru_inv_def jm_set_delete_append jm_keys_delete
        split: option.splits intro: order.trans [OF jm_delete_length_le])
qed

lemma lru_inv_set: "lru_inv s \<Longrightarrow> lru_inv (lru_set k v now s)"
  unfolding lru_inv_def [of "lru_set k v now s"]
  by (auto simp: lru_set_lmap Let_def lru_inv_def jm_keys_delete drop_map [symmetric]
      dest: in_set_dropD intro!: distinct_drop)

lemma lru_inv_async: "lru_inv s \<Longrightarrow> lru_inv (snd (lru_getOrComputeAsync k ok now s))"
  using lru_inv_get [of s k now]
  by (cases "lru_get k now s")
     (auto simp: lru_getOrComputeAsync_def lru_inv_def split: option.split)

lemma lru_inv_then: "lru_inv s \<Longrightarrow> lru_inv (computation_then p out now s)"
  using lru_inv_set [of s _ _ now]
  by (auto simp: computation_then_def lru_inv_def Let_def split: option.splits)

lemma lru_inv_op: "lru_inv s \<Longrightarrow> lru_inv (lru_op_step e s)"
proof (cases e)
  case (Finally p)
  assume "lru_inv s"
  with Finally show ?thesis
    by (auto simp: computation_finally_def lru_inv_def split: option.splits)
next
  case (Delete k)
  assume "lru_inv s"
  with Delete show ?thesis
    by (auto simp: lru_delete_def lru_inv_def intro: order.trans [OF jm_delete_length_le])
qed (auto intro: lru_inv_get lru_inv_set lru_inv_async lru_inv_then)

lemma lru_inv_clear: "lru_inv s \<Longrightarrow> lru_inv (lru_clear s)"
  by (simp add: lru_inv_def lru_clear_def)

interpretation lru_events: event_system lru_step lru_inv
proof
  fix s :: "'a lru" and e
  show "lru_inv s \<Longrightarrow> lru_inv (lru_step e s)"
    by (cases e) (auto intro: lru_inv_op lru_inv_clear)
qed

section \<open>The cache contract\<close>

text \<open>
  What a client of a cache relies on, whatever the eviction policy: the bound, and that a value
  that was stored or found is found again at a time the entry is still fresh.
\<close>

locale bounded_cache =
  fixes get :: "'k \<Rightarrow> 't \<Rightarrow> 's \<Rightarrow> 'v option \<times> 's"
    and set :: "'k \<Rightarrow> 'v \<Rightarrow> 't \<Rightarrow> 's \<Rightarrow> 's"
    and size :: "'s \<Rightarrow> nat"
    and capacity :: "'s \<Rightarrow> nat"
    and fresh :: "'s \<Rightarrow> 't \<Rightarrow> 't \<Rightarrow> bool"
    and inv :: "'s \<Rightarrow> bool"
  assumes inv_get: "inv s \<Longrightarrow> inv (snd (get k now s))"
    and inv_set: "inv s \<Longrightarrow> inv (set k v now s)"
    and bound: "inv s \<Longrightarrow> size s \<le> capacity s"
    and fresh_get: "fresh (snd (get k now s)) = fresh s"
    and get_set: "inv s \<Longrightarrow> fresh s now now' \<Longrightarrow> fst (get k now' (set k v now s)) = Some v"
    and get_get: "inv s \<Longrightarrow> fst (get k now s) = Some v
      \<Longrightarrow> fst (get k now (snd (get k now s))) = Some v"
begin

definition get_or_compute :: "'k \<Rightarrow> 'v \<Rightarrow> 't \<Rightarrow> 's \<Rightarrow> 'v \<times> 's" where
  "get_or_compute k v now s =
     (case get k now s of (Some w, s1) \<Rightarrow> (w, s1) | (None, s1) \<Rightarrow> (v, set k v now s1))"

lemma inv_get_or_compute: "inv s \<Longrightarrow> inv (snd (get_or_compute k v now s))"
  using inv_get [of s k now]
  by (auto simp: get_or_compute_def split: prod.splits option.splits intro: inv_set)

lemma get_or_compute_bound: "inv s \<Longrightarrow> size (snd (get_or_compute k v now s)) \<le> capacity (snd (get_or_compute k v now s))"
  by (intro bound inv_get_or_compute)

lemma get_or_compute_memoizes:
  assumes "inv s" and "fresh s now now"
  shows "fst (get_or_compute k w now (snd (get_or_compute k v now s)))
    = fst (get_or_compute k v now s)"
proof (cases "fst (get k now s)")
  case None
  then obtain s1 where g: "get k now s = (None, s1)" by (cases "get k now s") auto
  with assms inv_get [of s k now] fresh_get [of k now s]
  have "fst (get k now (set k v now s1)) = Some v" by (auto intro: get_set)
  with g show ?thesis
    by (auto simp: get_or_compute_def split: prod.splits option.splits)
next
  case (Some u)
  then obtain s1 where g: "get k now s = (Some u, s1)" by (cases "get k now s") auto
  with assms get_get [of s k now u] have "fst (get k now s1) = Some u" by simp
  with g show ?thesis
    by (auto simp: get_or_compute_def split: prod.splits option.splits)
qed

end

definition lru_fresh :: "'v lru \<Rightarrow> rat \<Rightarrow> rat \<Rightarrow> bool" where
  "lru_fresh s now now' = (case ttlMs s of None \<Rightarrow> True | Some t \<Rightarrow> now' < now + t)"

lemma lru_get_fst:
  "fst (lru_get k now s) =
     (case jm_get (lmap s) k of None \<Rightarrow> None
      | Some e \<Rightarrow> if isExpired now e then None else Some (entry_value e))"
  by (simp add: lru_get_def split: option.splits)

lemma isExpired_set_entry [simp]: "isExpired now' (set_entry v now s) \<longleftrightarrow> \<not> lru_fresh s now now'"
  by (auto simp: isExpired_def set_entry_def lru_fresh_def split: option.splits)

lemma lru_set_stores:
  assumes "lru_inv s"
  shows "jm_get (lmap (lru_set k v now s)) k = Some (set_entry v now s)"
proof -
  let ?m = "jm_delete k (lmap s)"
  have "Suc (length ?m) - maxSize s \<le> length ?m" using assms by (auto simp: lru_inv_def)
  then have "lmap (lru_set k v now s) = drop (Suc (length ?m) - maxSize s) ?m @ [(k, set_entry v now s)]"
    using assms by (simp add: lru_set_lmap Let_def)
  moreover have "k \<notin> set (jm_keys (drop (Suc (length ?m) - maxSize s) ?m))"
    by (auto dest!: in_set_dropD simp: in_set_jm_delete)
  ultimately show ?thesis by (simp add: jm_get_append jm_get_None_iff [THEN iffD2])
qed

interpretation lru: bounded_cache lru_get lru_set lru_size maxSize lru_fresh lru_inv
proof
  fix s :: "'a lru" and k now now' v
  show "lru_inv s \<Longrightarrow> lru_inv (snd (lru_get k now s))" by (rule lru_inv_get)
  show "lru_inv s \<Longrightarrow> lru_inv (lru_set k v now s)" by (rule lru_inv_set)
  show "lru_inv s \<Longrightarrow> lru_size s \<le> maxSize s" by (simp add: lru_inv_def lru_size_def)
  show "lru_fresh (snd (lru_get k now s)) = lru_fresh s" by (simp add: lru_fresh_def fun_eq_iff)
  show "lru_inv s \<Longrightarrow> lru_fresh s now now' \<Longrightarrow> fst (lru_get k now' (lru_set k v now s)) = Some v"
    by (simp add: lru_get_fst lru_set_stores) (simp add: set_entry_def)
  show "lru_inv s \<Longrightarrow> fst (lru_get k now s) = Some v
      \<Longrightarrow> fst (lru_get k now (snd (lru_get k now s))) = Some v"
    by (auto simp: lru_get_def split: option.splits if_splits)
qed

section \<open>Sharing of concurrent computations\<close>

text \<open>
  Every pending computation owns the in-flight slot of its key, so two pending computations
  of one key are the same computation.
\<close>

definition flight_inv :: "'v lru \<Rightarrow> bool" where
  "flight_inv s \<longleftrightarrow>
     jm_wf (computing s) \<and> jm_wf (finalizing s)
     \<and> set (jm_keys (computing s)) \<inter> set (jm_keys (finalizing s)) = {}
     \<and> (\<forall>p k. (p, k) \<in> set (computing s) \<union> set (finalizing s)
            \<longrightarrow> jm_get (inFlight s) k = Some p \<and> p < nextPromise s)"

lemma flight_inv_frame:
  assumes "flight_inv s" "inFlight t = inFlight s" "computing t = computing s"
    "finalizing t = finalizing s" "nextPromise t = nextPromise s"
  shows "flight_inv t"
  using assms by (simp add: flight_inv_def)

lemma flight_inv_async: "flight_inv s \<Longrightarrow> flight_inv (snd (lru_getOrComputeAsync k ok now s))"
proof -
  assume inv: "flight_inv s"
  obtain r s1 where g: "lru_get k now s = (r, s1)" by (cases "lru_get k now s")
  then have s1: "s1 = snd (lru_get k now s)" by simp
  from inv have inv1: "flight_inv s1" by (rule flight_inv_frame) (simp_all add: s1)
  then have fresh: "nextPromise s1 \<notin> set (jm_keys (computing s1))"
    "nextPromise s1 \<notin> set (jm_keys (finalizing s1))"
    unfolding flight_inv_def by fastforce+
  show ?thesis
    using inv1 fresh g
    by (auto simp: lru_getOrComputeAsync_def flight_inv_def jm_set_absent less_Suc_eq
        split: option.splits)
qed

lemma flight_inv_then: "flight_inv s \<Longrightarrow> flight_inv (computation_then p out now s)"
proof -
  assume inv: "flight_inv s"
  show ?thesis
  proof (cases "jm_get (computing s) p")
    case None
    with inv show ?thesis by (simp add: computation_then_def)
  next
    case (Some k)
    define s1 where "s1 = (case out of Some v \<Rightarrow> lru_set k v now s | None \<Rightarrow> s)"
    have inv1: "flight_inv s1" "computing s1 = computing s"
      using inv by (auto simp: s1_def split: option.splits intro: flight_inv_frame)
    from Some inv1 have pk: "(p, k) \<in> set (computing s1)" by (simp add: jm_get_in_set)
    with inv1 have "p \<notin> set (jm_keys (finalizing s1))" by (force simp: flight_inv_def)
    with inv1(1) pk show ?thesis
      unfolding computation_then_def Some option.case Let_def s1_def [symmetric]
      by (auto simp: flight_inv_def jm_set_absent in_set_jm_delete jm_keys_delete)
  qed
qed

lemma flight_inv_finally: "flight_inv s \<Longrightarrow> flight_inv (computation_finally p s)"
proof -
  assume inv: "flight_inv s"
  show ?thesis
  proof (cases "jm_get (finalizing s) p")
    case None
    with inv show ?thesis by (simp add: computation_finally_def)
  next
    case (Some k)
    then have pk: "(p, k) \<in> set (finalizing s)" by (rule jm_get_in_set)
    with inv have slot: "jm_get (inFlight s) k = Some p" by (simp add: flight_inv_def)
    have "p \<notin> set (jm_keys (computing s))" using inv pk by (force simp: flight_inv_def)
    then have other: "q \<noteq> p" if "(q, k') \<in> set (computing s)" for q k' using that by force
    from inv Some slot other show ?thesis
      by (auto simp: computation_finally_def flight_inv_def in_set_jm_delete jm_keys_delete)
  qed
qed

interpretation lru_flight: event_system lru_op_step flight_inv
proof
  fix s :: "'a lru" and e
  show "flight_inv s \<Longrightarrow> flight_inv (lru_op_step e s)"
    by (cases e) (auto intro: flight_inv_async flight_inv_then flight_inv_finally
        flight_inv_frame simp: lru_delete_def)
qed

section \<open>Counters and configuration\<close>

definition lru_le :: "'v lru \<Rightarrow> 'v lru \<Rightarrow> bool" where
  "lru_le s t \<longleftrightarrow> maxSize t = maxSize s \<and> ttlMs t = ttlMs s \<and> hits s \<le> hits t
     \<and> misses s \<le> misses t \<and> evictions s \<le> evictions t"

lemma lru_le_set: "lru_inv s \<Longrightarrow> lru_le s (lru_set k v now s)"
proof -
  assume inv: "lru_inv s"
  let ?m = "jm_set k (set_entry v now s)
      (if jm_has (lmap s) k then jm_delete k (lmap s) else lmap s)"
  have "jm_wf ?m" using inv by (auto simp: lru_inv_def)
  then have "evictions s \<le> evictions (lru_set k v now s)"
    unfolding lru_set_def Let_def set_entry_def [symmetric] by (simp add: evict_oldest_eq)
  then show ?thesis by (simp add: lru_le_def)
qed

lemma lru_le_get: "lru_le s (snd (lru_get k now s))"
  by (auto simp: lru_le_def lru_get_def split: option.splits)

lemma lru_le_op: "lru_inv s \<Longrightarrow> lru_le s (lru_op_step e s)"
proof (cases e)
  case (GetAsync k ok now)
  then show ?thesis using lru_le_get [of s k now]
    by (cases "lru_get k now s")
       (auto simp: lru_getOrComputeAsync_def lru_le_def split: option.split)
next
  case (Then p out now)
  assume "lru_inv s"
  then show ?thesis using Then lru_le_set [of s _ _ now]
    by (auto simp: computation_then_def lru_le_def Let_def split: option.split)
next
  case (Get k now)
  then show ?thesis by (simp add: lru_le_get)
next
  case (Set k v now)
  assume "lru_inv s"
  with Set show ?thesis by (simp add: lru_le_set)
qed (auto simp: lru_le_def computation_finally_def lru_delete_def split: option.split)

lemma lru_le_clear: "lru_le s (lru_clear s)"
  by (simp add: lru_le_def lru_clear_def)

interpretation lru_counters: monotone_event_system lru_step lru_inv lru_le
proof
  fix s t u :: "'a lru" and e
  show "lru_le s s" by (simp add: lru_le_def)
  show "lru_le s t \<Longrightarrow> lru_le t u \<Longrightarrow> lru_le s u" by (auto simp: lru_le_def)
  show "lru_inv s \<Longrightarrow> lru_le s (lru_step e s)"
    by (cases e) (auto intro: lru_le_op lru_le_clear)
qed

lemma new_LruCache_inv:
  assumes "new_LruCache m t = Inr s"
  shows "lru_inv s" and "flight_inv s"
proof -
  from assms obtain r where r: "m = Num r" "of_int \<lfloor>r\<rfloor> = r" "\<not> r < 1" "maxSize s = nat \<lfloor>r\<rfloor>"
    "lmap s = []" "computing s = []" "finalizing s = []"
    by (cases m) (auto simp: new_LruCache_def jint_def split: if_splits)
  then have "1 \<le> \<lfloor>r\<rfloor>" by linarith
  with r show "lru_inv s" "flight_inv s" by (auto simp: lru_inv_def flight_inv_def)
qed

section \<open>Properties\<close>

text \<open>C23: whatever the schedule of reads, writes, pending computations, deletions and clears, a
  cache that was constructed never holds more than the configured number of entries, nor two
  entries of one key.\<close>

theorem lru_never_over_limit:
  assumes "new_LruCache m t = Inr s"
  shows "lru_size (run_events lru_step es s) \<le> maxSize s
    \<and> jm_wf (lmap (run_events lru_step es s))"
proof -
  have "lru_inv (run_events lru_step es s)" and "lru_le s (run_events lru_step es s)"
    using new_LruCache_inv [OF assms] by (auto intro: lru_events.inv_run lru_counters.le_run)
  then show ?thesis by (simp add: lru_inv_def lru_size_def lru_le_def)
qed

definition example_lru :: "nat lru" where
  "example_lru = \<lparr>lmap = [], maxSize = 2, ttlMs = Some 10, hits = 0, misses = 0, evictions = 0,
     inFlight = [], computing = [], finalizing = [], nextPromise = 0\<rparr>"

lemma example_lru_new: "new_LruCache (jint 2) (Some (jint 10)) = Inr example_lru"
  by (simp add: new_LruCache_def jint_def example_lru_def)

lemma example_lru_inv: "lru_inv example_lru"
  by (rule new_LruCache_inv [OF example_lru_new])

theorem lru_never_over_limit_witness:
  "lru_size (run_events lru_step
      [Op (Set ''a'' 1 0), Op (Set ''b'' 2 0), Op (Get ''a'' 1), Op (Set ''c'' 3 1), Clear]
      example_lru) \<le> maxSize example_lru"
  by (rule lru_never_over_limit [OF example_lru_new, THEN conjunct1])

text \<open>Storing a key that is not in a full cache drops exactly the entry at the front of the
  recency order (the least recently used one), keeps every other entry in its order, puts the
  new entry last and counts one eviction.\<close>

theorem lru_set_evicts_least_recent:
  assumes "lru_inv s" and "lmap s = (k0, e0) # rest" and "length (lmap s) = maxSize s"
    and "k \<notin> set (jm_keys (lmap s))"
  shows "lmap (lru_set k v now s) = rest @ [(k, set_entry v now s)]
    \<and> evictions (lru_set k v now s) = Suc (evictions s)"
proof -
  have m: "jm_delete k (lmap s) = lmap s" "\<not> jm_has (lmap s) k" using assms(4) by auto
  have wf: "jm_wf (jm_set k (set_entry v now s) (lmap s))" using assms(1) by (auto simp: lru_inv_def)
  have len: "length (jm_set k (set_entry v now s) (lmap s)) - maxSize s = 1"
    using assms(3,4) by (simp add: jm_length_set)
  have "lmap (lru_set k v now s) = rest @ [(k, set_entry v now s)]"
    unfolding lru_set_lmap [OF assms(1)] Let_def m using assms(2,3) by simp
  moreover have "evictions (lru_set k v now s) = Suc (evictions s)"
    unfolding lru_set_def Let_def set_entry_def [symmetric] using m(2) wf len
    by (simp add: evict_oldest_eq)
  ultimately show ?thesis by simp
qed

definition example_full :: "nat lru" where
  "example_full = example_lru\<lparr>lmap :=
     [(''a'', \<lparr>entry_value = 1, expiresAt = Some 10\<rparr>), (''b'', \<lparr>entry_value = 2, expiresAt = Some 10\<rparr>)]\<rparr>"

theorem lru_set_evicts_least_recent_witness:
  "lmap (lru_set ''c'' 3 1 example_full)
     = [(''b'', \<lparr>entry_value = 2, expiresAt = Some 10\<rparr>), (''c'', \<lparr>entry_value = 3, expiresAt = Some 11\<rparr>)]"
proof -
  have "lru_inv example_full" by (simp add: lru_inv_def example_full_def example_lru_def)
  then show ?thesis
    using lru_set_evicts_least_recent [of example_full "''a''" _ _ "''c''" 3 1]
    by (simp add: example_full_def example_lru_def set_entry_def)
qed

text \<open>As long as the cache is not cleared, two computations of \<open>getOrComputeAsync\<close> that
  are pending for the same key are one and the same: a concurrent miss joins the running one.\<close>

theorem lru_single_flight:
  assumes "new_LruCache m t = Inr s0" and "s = run_events lru_op_step es s0"
    and "(p, k) \<in> set (computing s) \<union> set (finalizing s)"
    and "(q, k) \<in> set (computing s) \<union> set (finalizing s)"
  shows "p = q \<and> (fst (lru_get k now s) = None
      \<longrightarrow> fst (lru_getOrComputeAsync k ok now s) = Joined p)"
proof -
  have inv: "flight_inv s"
    unfolding assms(2) by (intro lru_flight.inv_run new_LruCache_inv [OF assms(1)])
  with assms(3,4) have slot: "jm_get (inFlight s) k = Some p" "jm_get (inFlight s) k = Some q"
    unfolding flight_inv_def by blast+
  moreover from slot have "fst (lru_getOrComputeAsync k ok now s) = Joined p"
    if "fst (lru_get k now s) = None"
    using that lru_get_frame(3) [of k now s]
    by (cases "lru_get k now s") (simp add: lru_getOrComputeAsync_def)
  ultimately show ?thesis by simp
qed

theorem lru_single_flight_witness:
  "fst (lru_getOrComputeAsync ''a'' True 2
      (run_events lru_op_step [GetAsync ''a'' True 0, GetAsync ''b'' True 1] example_lru)) = Joined 0"
  using lru_single_flight [OF example_lru_new refl,
      of 0 "''a''" "[GetAsync ''a'' True 0, GetAsync ''b'' True 1]" 0 2 True]
  by (simp add: example_lru_def lru_getOrComputeAsync_def lru_get_def)

text \<open>\<open>clear\<close> does not invalidate a computation that is still pending: when it finishes,
  its value, computed before the clear, is stored and served again.\<close>

theorem lru_clear_keeps_pending_result:
  assumes "lru_inv s" and "jm_get (computing s) p = Some k" and "lru_fresh s now now'"
  shows "fst (lru_get k now' (computation_then p (Some v) now (lru_clear s))) = Some v"
proof -
  have inv: "lru_inv (lru_clear s)" using assms(1) by (rule lru_inv_clear)
  have fresh: "lru_fresh (lru_clear s) now now'" using assms(3)
    by (simp add: lru_fresh_def lru_clear_def)
  have "jm_get (computing (lru_clear s)) p = Some k" using assms(2) by (simp add: lru_clear_def)
  then have "lmap (computation_then p (Some v) now (lru_clear s)) = lmap (lru_set k v now (lru_clear s))"
    by (simp add: computation_then_def)
  then have "fst (lru_get k now' (computation_then p (Some v) now (lru_clear s)))
      = fst (lru_get k now' (lru_set k v now (lru_clear s)))"
    by (simp add: lru_get_fst)
  then show ?thesis using lru.get_set [OF inv fresh] by simp
qed

theorem lru_clear_keeps_pending_result_witness:
  "fst (lru_get ''a'' 5 (computation_then 0 (Some 7) 4
      (lru_clear (snd (lru_getOrComputeAsync ''a'' True 0 example_lru))))) = Some 7"
proof -
  let ?s = "snd (lru_getOrComputeAsync ''a'' True 0 example_lru)"
  have s: "jm_get (computing ?s) 0 = Some ''a''" "lru_fresh ?s 4 5"
    by (simp_all add: lru_getOrComputeAsync_def lru_get_def example_lru_def lru_fresh_def)
  show ?thesis
    using lru_clear_keeps_pending_result [OF lru_inv_async [OF example_lru_inv] s] .
qed

end
