(* ===== verification/Semver.thy ===== *)
theory Semver
  imports Prelude "HOL-Library.List_Lexorder" "HOL-Library.Char_ord"
begin

text \<open>
  The version engine of \<^verbatim>\<open>apps/server/src/plugin/semver.ts\<close> that resolves plugin dependencies:
  the parser of full versions, the precedence order, the compiler of range expressions into
  comparator sets and the matcher. The regular expressions of the source are recognised by the
  functions below, character by character; \<open>Number(digits)\<close> is exact up to the bound the code
  checks, and any larger numeral is above it.

  Shown: precedence is a linear order (an instance of \<open>linorder\<close>), what the caret and tilde
  ranges accept, that a pre-release is only accepted on a tuple the range names, that
  \<open>maxSatisfying\<close> returns a greatest satisfying candidate, and that printed versions parse back.
\<close>

section \<open>Versions\<close>

datatype ident = NumId nat | StrId string

datatype version = Version (major: nat) (minor: nat) (patch: nat) (prerelease: "ident list")

datatype partial_version =
  Partial (p_major: "nat option") (p_minor: "nat option") (p_patch: "nat option")
    (p_prerelease: "ident list")

datatype operator = OpLt | OpLe | OpEq | OpGe | OpGt

datatype comparator = Comparator (operator_of: operator) (version_of: version)

datatype comparator_set = ComparatorSet (any: bool) (comparators: "comparator list")

definition MAX_SAFE_COMPONENT :: int where
  "MAX_SAFE_COMPONENT = MAX_SAFE_INTEGER"

definition is_ident_char :: "char \<Rightarrow> bool" where
  "is_ident_char c =
     (let n = of_char c :: nat in
      (48 \<le> n \<and> n \<le> 57) \<or> (65 \<le> n \<and> n \<le> 90) \<or> (97 \<le> n \<and> n \<le> 122))"

definition is_tag_char :: "char \<Rightarrow> bool" where
  "is_tag_char c = (is_ident_char c \<or> c = CHR ''.'' \<or> c = CHR ''-'')"

text \<open>\<open>0|[1-9]\d*\<close> at the front; what is left must not start with a digit, since no
  pattern of the source lets a digit follow.\<close>

definition take_numeral :: "string \<Rightarrow> (nat \<times> string) option" where
  "take_numeral s =
     (let ds = takeWhile is_digit s in
      if ds = [] \<or> (hd ds = CHR ''0'' \<and> length ds > 1) then None
      else Some (nat_of_digits ds, dropWhile is_digit s))"

fun parse_identifiers :: "string list \<Rightarrow> ident list option" where
  "parse_identifiers [] = Some []"
| "parse_identifiers (i # is) =
     (if i = [] then None
      else if list_all is_digit i then
        (if length i > 1 \<and> hd i = CHR ''0'' then None
         else if int (nat_of_digits i) > MAX_SAFE_COMPONENT then None
         else map_option (Cons (NumId (nat_of_digits i))) (parse_identifiers is))
      else map_option (Cons (StrId i)) (parse_identifiers is))"

definition parsePrerelease :: "string option \<Rightarrow> ident list" where
  "parsePrerelease raw =
     (case raw of None \<Rightarrow> []
      | Some r \<Rightarrow> (if r = [] then []
          else (case parse_identifiers (split_char (CHR ''.'') r) of None \<Rightarrow> [] | Some is \<Rightarrow> is)))"

text \<open>The optional \<open>-tag\<close> and \<open>+build\<close> at the end of the full pattern.\<close>

definition match_build :: "string \<Rightarrow> bool" where
  "match_build s =
     (case s of [] \<Rightarrow> True
      | c # b \<Rightarrow> c = CHR ''+'' \<and> b \<noteq> [] \<and> list_all is_tag_char b)"

definition match_tail :: "string \<Rightarrow> string option option" where
  "match_tail s =
     (case s of
        [] \<Rightarrow> Some None
      | c # r \<Rightarrow>
          (if c = CHR ''-'' then
             (let tag = takeWhile is_tag_char r; rest = dropWhile is_tag_char r
              in if tag \<noteq> [] \<and> is_ident_char (hd tag) \<and> match_build rest then Some (Some tag)
                 else None)
           else if match_build s then Some None else None))"

definition take_char :: "char \<Rightarrow> string \<Rightarrow> string option" where
  "take_char c s = (case s of [] \<Rightarrow> None | x # xs \<Rightarrow> if x = c then Some xs else None)"

definition strip_v :: "string \<Rightarrow> string" where
  "strip_v s = (case s of [] \<Rightarrow> s | c # r \<Rightarrow> if c = CHR ''v'' then r else s)"

definition match_full_version :: "string \<Rightarrow> (nat \<times> nat \<times> nat \<times> string option) option" where
  "match_full_version s =
     Option.bind (take_numeral (strip_v s)) (\<lambda>(ma, s1).
     Option.bind (take_char (CHR ''.'') s1) (\<lambda>s2.
     Option.bind (take_numeral s2) (\<lambda>(mi, s3).
     Option.bind (take_char (CHR ''.'') s3) (\<lambda>s4.
     Option.bind (take_numeral s4) (\<lambda>(pa, s5).
     map_option (\<lambda>tag. (ma, mi, pa, tag)) (match_tail s5))))))"

definition parseVersion :: "string \<Rightarrow> version option" where
  "parseVersion input =
     (case match_full_version (trim input) of
        None \<Rightarrow> None
      | Some (ma, mi, pa, tag) \<Rightarrow>
          (if int ma > MAX_SAFE_COMPONENT \<or> int mi > MAX_SAFE_COMPONENT \<or> int pa > MAX_SAFE_COMPONENT then None
           else let pre = parsePrerelease tag
                in if tag \<noteq> None \<and> pre = [] then None else Some (Version ma mi pa pre)))"

section \<open>Precedence\<close>

fun compareIdentifier :: "ident \<Rightarrow> ident \<Rightarrow> int" where
  "compareIdentifier (NumId a) (NumId b) = (if a = b then 0 else if a < b then -1 else 1)"
| "compareIdentifier (NumId a) (StrId b) = -1"
| "compareIdentifier (StrId a) (NumId b) = 1"
| "compareIdentifier (StrId a) (StrId b) = (if a = b then 0 else if a < b then -1 else 1)"

text \<open>The loop over the common prefix, then the comparison of the lengths.\<close>

fun compare_idents :: "ident list \<Rightarrow> ident list \<Rightarrow> int" where
  "compare_idents [] [] = 0"
| "compare_idents [] (b # bs) = -1"
| "compare_idents (a # as) [] = 1"
| "compare_idents (a # as) (b # bs) =
     (let r = compareIdentifier a b in if r \<noteq> 0 then r else compare_idents as bs)"

definition comparePrerelease :: "ident list \<Rightarrow> ident list \<Rightarrow> int" where
  "comparePrerelease a b =
     (if a = [] \<and> b = [] then 0 else if a = [] then 1 else if b = [] then -1
      else compare_idents a b)"

definition compareVersions :: "version \<Rightarrow> version \<Rightarrow> int" where
  "compareVersions a b =
     (if major a \<noteq> major b then (if major a < major b then -1 else 1)
      else if minor a \<noteq> minor b then (if minor a < minor b then -1 else 1)
      else if patch a \<noteq> patch b then (if patch a < patch b then -1 else 1)
      else comparePrerelease (prerelease a) (prerelease b))"

section \<open>Ranges\<close>

definition splitPrerelease :: "string \<Rightarrow> string \<times> string option" where
  "splitPrerelease s =
     (if CHR ''-'' \<in> set s
      then (takeWhile (\<lambda>c. c \<noteq> CHR ''-'') s, Some (tl (dropWhile (\<lambda>c. c \<noteq> CHR ''-'') s)))
      else (s, None))"

definition is_wild :: "string \<Rightarrow> bool" where
  "is_wild s = (s \<in> {''x'', ''X'', ''*''})"

fun parse_components :: "string list \<Rightarrow> nat option list option" where
  "parse_components [] = Some []"
| "parse_components (c # cs) =
     (if is_wild c then map_option (Cons None) (parse_components cs)
      else (case take_numeral c of
              Some (n, []) \<Rightarrow>
                (if int n > MAX_SAFE_COMPONENT then None
                 else map_option (Cons (Some n)) (parse_components cs))
            | _ \<Rightarrow> None))"

fun wildcards_last :: "bool \<Rightarrow> nat option list \<Rightarrow> bool" where
  "wildcards_last seen [] = True"
| "wildcards_last seen (None # vs) = wildcards_last True vs"
| "wildcards_last seen (Some n # vs) = (\<not> seen \<and> wildcards_last seen vs)"

definition nth_or_null :: "nat option list \<Rightarrow> nat \<Rightarrow> nat option" where
  "nth_or_null vs i = (if i < length vs then vs ! i else None)"

definition strip_v_nocase :: "string \<Rightarrow> string" where
  "strip_v_nocase s =
     (case s of [] \<Rightarrow> s | c # r \<Rightarrow> if c = CHR ''v'' \<or> c = CHR ''V'' then r else s)"

definition parsePartialVersion :: "string \<Rightarrow> partial_version option" where
  "parsePartialVersion input =
     (let trimmed = strip_v_nocase (trim input) in
      if trimmed = [] \<or> is_wild trimmed then Some (Partial None None None [])
      else let (core, raw) = splitPrerelease trimmed;
               comps = split_char (CHR ''.'') core
           in if length comps > 3 then None
              else (case parse_components comps of
                      None \<Rightarrow> None
                    | Some values \<Rightarrow>
                        (if \<not> wildcards_last False values then None
                         else let pre = parsePrerelease raw
                              in if raw \<noteq> None \<and> pre = [] then None
                                 else Some (Partial (nth_or_null values 0) (nth_or_null values 1)
                                              (nth_or_null values 2) pre))))"

definition or_zero :: "nat option \<Rightarrow> nat" where
  "or_zero x = (case x of None \<Rightarrow> 0 | Some n \<Rightarrow> n)"

definition complete :: "partial_version \<Rightarrow> version" where
  "complete p = Version (or_zero (p_major p)) (or_zero (p_minor p)) (or_zero (p_patch p))
     (p_prerelease p)"

datatype level = LMajor | LMinor | LPatch

text \<open>The pre-release tag \<open>'0'\<close> of the bound is a string identifier, as in the source.\<close>

fun increment :: "partial_version \<Rightarrow> level \<Rightarrow> version" where
  "increment p LMajor = Version (or_zero (p_major p) + 1) 0 0 [StrId ''0'']"
| "increment p LMinor = Version (or_zero (p_major p)) (or_zero (p_minor p) + 1) 0 [StrId ''0'']"
| "increment p LPatch =
     Version (or_zero (p_major p)) (or_zero (p_minor p)) (or_zero (p_patch p) + 1) [StrId ''0'']"

definition upperBound :: "partial_version \<Rightarrow> comparator list" where
  "upperBound p =
     (if p_major p = None then []
      else if p_minor p = None then [Comparator OpLt (increment p LMajor)]
      else if p_patch p = None then [Comparator OpLt (increment p LMinor)]
      else [Comparator OpLe (complete p)])"

definition caretRange :: "partial_version \<Rightarrow> comparator list" where
  "caretRange p =
     (case p_major p of None \<Rightarrow> []
      | Some ma \<Rightarrow>
          let lower = Comparator OpGe (complete p) in
          if ma > 0 \<or> p_minor p = None then [lower, Comparator OpLt (increment p LMajor)]
          else if or_zero (p_minor p) > 0 \<or> p_patch p = None
            then [lower, Comparator OpLt (increment p LMinor)]
          else [lower, Comparator OpLt (increment p LPatch)])"

definition tildeRange :: "partial_version \<Rightarrow> comparator list" where
  "tildeRange p =
     (if p_major p = None then []
      else let lower = Comparator OpGe (complete p) in
        if p_minor p = None then [lower, Comparator OpLt (increment p LMajor)]
        else [lower, Comparator OpLt (increment p LMinor)])"

datatype prefix_op = NoOp | Cmp operator | Caret | Tilde

definition split_operator :: "string \<Rightarrow> prefix_op \<times> string" where
  "split_operator s =
     (if startsWith s ''>='' then (Cmp OpGe, drop 2 s)
      else if startsWith s ''<='' then (Cmp OpLe, drop 2 s)
      else if startsWith s ''>'' then (Cmp OpGt, drop 1 s)
      else if startsWith s ''<'' then (Cmp OpLt, drop 1 s)
      else if startsWith s ''='' then (Cmp OpEq, drop 1 s)
      else if startsWith s ''^'' then (Caret, drop 1 s)
      else if startsWith s ''~'' then (Tilde, drop 1 s)
      else (NoOp, s))"

definition compileToken :: "string \<Rightarrow> comparator list option" where
  "compileToken token =
     (let (op, raw) = split_operator token in
      case parsePartialVersion raw of
        None \<Rightarrow> None
      | Some p \<Rightarrow>
          (if trim raw = [] \<and> op \<noteq> NoOp then None
           else if op = NoOp \<and> p_major p = None then Some []
           else let wild = (p_major p = None \<or> p_minor p = None \<or> p_patch p = None) in
             case op of
               Caret \<Rightarrow> Some (caretRange p)
             | Tilde \<Rightarrow> Some (tildeRange p)
             | Cmp OpEq \<Rightarrow>
                 Some (if \<not> wild then [Comparator OpEq (complete p)]
                       else Comparator OpGe (complete p) # upperBound p)
             | NoOp \<Rightarrow>
                 Some (if \<not> wild then [Comparator OpEq (complete p)]
                       else Comparator OpGe (complete p) # upperBound p)
             | Cmp cop \<Rightarrow> (if wild then None else Some [Comparator cop (complete p)])))"

fun compile_tokens :: "string list \<Rightarrow> comparator list option" where
  "compile_tokens [] = Some []"
| "compile_tokens (t # ts) =
     (case compileToken t of None \<Rightarrow> None
      | Some cs \<Rightarrow> map_option (append cs) (compile_tokens ts))"

fun index_of :: "'a \<Rightarrow> 'a list \<Rightarrow> nat option" where
  "index_of x [] = None"
| "index_of x (y # ys) = (if y = x then Some 0 else map_option Suc (index_of x ys))"

definition compileComparatorSet :: "string \<Rightarrow> comparator_set option" where
  "compileComparatorSet branch =
     (if branch = [] \<or> is_wild branch then Some (ComparatorSet True [])
      else let tokens = ws_words branch in
        case index_of ''-'' tokens of
          Some (Suc i) \<Rightarrow>
            (if i \<noteq> 0 \<or> length tokens \<noteq> 3 then None
             else (case (parsePartialVersion (tokens ! 0), parsePartialVersion (tokens ! 2)) of
                     (Some lower, Some upper) \<Rightarrow>
                       Some (ComparatorSet False
                               (Comparator OpGe (complete lower) # upperBound upper))
                   | _ \<Rightarrow> None))
        | _ \<Rightarrow>
            (case compile_tokens tokens of
               None \<Rightarrow> None
             | Some cs \<Rightarrow> Some (if cs \<noteq> [] then ComparatorSet False cs else ComparatorSet True [])))"

fun split_bars :: "string \<Rightarrow> string list" where
  "split_bars [] = [[]]"
| "split_bars [c] = [[c]]"
| "split_bars (c # d # s) =
     (if c = CHR ''|'' \<and> d = CHR ''|'' then [] # split_bars s
      else (case split_bars (d # s) of [] \<Rightarrow> [[c]] | p # ps \<Rightarrow> (c # p) # ps))"

fun compile_branches :: "string list \<Rightarrow> comparator_set list option" where
  "compile_branches [] = Some []"
| "compile_branches (b # bs) =
     (case compileComparatorSet (trim b) of None \<Rightarrow> None
      | Some cs \<Rightarrow> map_option (Cons cs) (compile_branches bs))"

definition compileRange :: "string \<Rightarrow> comparator_set list option" where
  "compileRange input =
     (let trimmed = trim input in
      if trimmed = [] then None
      else (case compile_branches (split_bars trimmed) of
              None \<Rightarrow> None | Some sets \<Rightarrow> if sets \<noteq> [] then Some sets else None))"

section \<open>Matching\<close>

fun matchesComparator :: "version \<Rightarrow> comparator \<Rightarrow> bool" where
  "matchesComparator v (Comparator OpEq w) = (compareVersions v w = 0)"
| "matchesComparator v (Comparator OpGt w) = (compareVersions v w > 0)"
| "matchesComparator v (Comparator OpGe w) = (compareVersions v w \<ge> 0)"
| "matchesComparator v (Comparator OpLt w) = (compareVersions v w < 0)"
| "matchesComparator v (Comparator OpLe w) = (compareVersions v w \<le> 0)"

definition setAllowsPrerelease :: "version \<Rightarrow> comparator_set \<Rightarrow> bool" where
  "setAllowsPrerelease v cs =
     list_ex (\<lambda>c. prerelease (version_of c) \<noteq> [] \<and> major (version_of c) = major v
        \<and> minor (version_of c) = minor v \<and> patch (version_of c) = patch v) (comparators cs)"

definition matchesSet :: "version \<Rightarrow> comparator_set \<Rightarrow> bool" where
  "matchesSet v cs =
     (if prerelease v \<noteq> [] \<and> \<not> setAllowsPrerelease v cs then False
      else if any cs then prerelease v = []
      else list_all (matchesComparator v) (comparators cs))"

definition satisfiesRange :: "string \<Rightarrow> string \<Rightarrow> bool" where
  "satisfiesRange versionInput rangeInput =
     (case (parseVersion versionInput, compileRange rangeInput) of
        (Some v, Some sets) \<Rightarrow> list_ex (matchesSet v) sets
      | _ \<Rightarrow> False)"

fun max_loop :: "string \<Rightarrow> (version \<times> string) option \<Rightarrow> string list \<Rightarrow> (version \<times> string) option" where
  "max_loop rng best [] = best"
| "max_loop rng best (c # cs) =
     (case parseVersion c of
        None \<Rightarrow> max_loop rng best cs
      | Some v \<Rightarrow>
          (if \<not> satisfiesRange c rng then max_loop rng best cs
           else (case best of
                   None \<Rightarrow> max_loop rng (Some (v, c)) cs
                 | Some (b, raw) \<Rightarrow>
                     (if compareVersions v b > 0 then max_loop rng (Some (v, c)) cs
                      else max_loop rng best cs))))"

definition maxSatisfying :: "string list \<Rightarrow> string \<Rightarrow> string option" where
  "maxSatisfying candidates rangeInput = map_option snd (max_loop rangeInput None candidates)"

definition isValidRange :: "string \<Rightarrow> bool" where
  "isValidRange rangeInput = (compileRange rangeInput \<noteq> None)"

section \<open>Precedence is a linear order\<close>

instantiation ident :: linorder
begin

definition less_eq_ident :: "ident \<Rightarrow> ident \<Rightarrow> bool" where
  "less_eq_ident a b = (compareIdentifier a b \<le> 0)"

definition less_ident :: "ident \<Rightarrow> ident \<Rightarrow> bool" where
  "less_ident a b = (compareIdentifier a b < 0)"

instance
proof
  fix a b c :: ident
  show "a < b \<longleftrightarrow> a \<le> b \<and> \<not> b \<le> a"
    by (cases a; cases b) (auto simp: less_eq_ident_def less_ident_def)
  show "a \<le> a" by (cases a) (auto simp: less_eq_ident_def)
  show "a \<le> b \<Longrightarrow> b \<le> c \<Longrightarrow> a \<le> c"
    by (cases a; cases b; cases c) (auto simp: less_eq_ident_def split: if_splits)
  show "a \<le> b \<Longrightarrow> b \<le> a \<Longrightarrow> a = b"
    by (cases a; cases b) (auto simp: less_eq_ident_def split: if_splits)
  show "a \<le> b \<or> b \<le> a"
    by (cases a; cases b) (auto simp: less_eq_ident_def)
qed

end

lemma compareIdentifier_eq:
  "compareIdentifier a b = (if a = b then 0 else if a < b then -1 else 1)"
  by (cases a; cases b) (auto simp: less_ident_def)

lemma compare_idents_eq:
  "compare_idents as bs = (if as = bs then 0 else if as < bs then -1 else 1)"
  by (induction as bs rule: compare_idents.induct) (auto simp: compareIdentifier_eq Let_def)

lemma comparePrerelease_eq:
  "comparePrerelease a b = (if a = b then 0 else if b = [] \<or> (a \<noteq> [] \<and> a < b) then -1 else 1)"
  by (auto simp: comparePrerelease_def compare_idents_eq)

instantiation version :: linorder
begin

definition less_eq_version :: "version \<Rightarrow> version \<Rightarrow> bool" where
  "less_eq_version a b = (compareVersions a b \<le> 0)"

definition less_version :: "version \<Rightarrow> version \<Rightarrow> bool" where
  "less_version a b = (compareVersions a b < 0)"

instance
proof
  fix a b c :: version
  show "a < b \<longleftrightarrow> a \<le> b \<and> \<not> b \<le> a"
    by (cases a; cases b)
       (auto simp: less_eq_version_def less_version_def compareVersions_def comparePrerelease_eq)
  show "a \<le> a" by (simp add: less_eq_version_def compareVersions_def comparePrerelease_eq)
  show "a \<le> b \<Longrightarrow> b \<le> c \<Longrightarrow> a \<le> c"
    by (cases a; cases b; cases c)
       (auto simp: less_eq_version_def compareVersions_def comparePrerelease_eq split: if_splits)
  show "a \<le> b \<Longrightarrow> b \<le> a \<Longrightarrow> a = b"
    by (cases a; cases b)
       (auto simp: less_eq_version_def compareVersions_def comparePrerelease_eq split: if_splits)
  show "a \<le> b \<or> b \<le> a"
    by (cases a; cases b)
       (auto simp: less_eq_version_def compareVersions_def comparePrerelease_eq)
qed

end

lemma compareVersions_less: "compareVersions a b < 0 \<longleftrightarrow> a < b"
  by (simp add: less_version_def)

lemma compareVersions_le: "compareVersions a b \<le> 0 \<longleftrightarrow> a \<le> b"
  by (simp add: less_eq_version_def)

lemma compareVersions_swap: "compareVersions a b > 0 \<longleftrightarrow> b < a"
  by (cases a; cases b) (auto simp: less_version_def compareVersions_def comparePrerelease_eq)

lemma compareVersions_zero: "compareVersions a b = 0 \<longleftrightarrow> a = b"
  using compareVersions_less [of a b] compareVersions_swap [of a b] by auto

lemma compareVersions_ge: "compareVersions a b \<ge> 0 \<longleftrightarrow> b \<le> a"
  using compareVersions_less [of a b] by auto

lemmas version_order =
  compareVersions_less compareVersions_le compareVersions_swap compareVersions_zero
  compareVersions_ge

interpretation precedence: js_comparator compareVersions
  by unfold_locales (auto simp: version_order less_eq_version_def [symmetric])

text \<open>The whole choice loop keeps the pair of a version and its source string.\<close>

interpretation candidate_precedence:
  js_comparator "\<lambda>(v, raw :: string) (w, raw' :: string). compareVersions v w"
  by unfold_locales (auto simp: version_order)

section \<open>Choosing the best candidate\<close>

definition usable :: "string \<Rightarrow> string \<Rightarrow> (version \<times> string) option" where
  "usable rng c =
     (case parseVersion c of None \<Rightarrow> None
      | Some v \<Rightarrow> if satisfiesRange c rng then Some (v, c) else None)"

lemma max_loop_pick:
  "max_loop rng best cs =
    pick_max (\<lambda>(v, raw) (w, raw'). compareVersions v w) best (List.map_filter (usable rng) cs)"
  by (induction rng best cs rule: max_loop.induct)
     (auto simp: map_filter_simps usable_def split: option.splits)

lemma in_usable:
  "x \<in> set (List.map_filter (usable rng) cs)
    \<longleftrightarrow> snd x \<in> set cs \<and> parseVersion (snd x) = Some (fst x) \<and> satisfiesRange (snd x) rng"
  by (cases x) (force simp: List.map_filter_def usable_def split: option.splits if_splits)

lemma satisfiesRange_parses: "satisfiesRange c rng \<Longrightarrow> parseVersion c \<noteq> None"
  by (auto simp: satisfiesRange_def split: option.splits)

section \<open>Printing and parsing\<close>

definition print_release :: "version \<Rightarrow> string" where
  "print_release v = digits_of_nat (major v) @ ''.'' @ digits_of_nat (minor v) @ ''.''
     @ digits_of_nat (patch v)"

lemma take_numeral_digits:
  assumes "\<And>c r. s = c # r \<Longrightarrow> \<not> is_digit c"
  shows "take_numeral (digits_of_nat n @ s) = Some (n, s)"
proof -
  have tw: "takeWhile is_digit s = []" and dw: "dropWhile is_digit s = s"
    using assms by (cases s; auto)+
  have "takeWhile is_digit (digits_of_nat n @ s) = digits_of_nat n"
    and "dropWhile is_digit (digits_of_nat n @ s) = s"
    using digits_of_nat_digits tw dw
    by (auto simp: takeWhile_append dropWhile_append)
  moreover have "\<not> (hd (digits_of_nat n) = CHR ''0'' \<and> length (digits_of_nat n) > 1)"
    using hd_digits_of_nat_zero [of n] length_digits_of_nat_zero [of n] by auto
  ultimately show ?thesis by (simp add: take_numeral_def Let_def)
qed

lemma digit_not_ws: "is_digit c \<Longrightarrow> \<not> is_ws c"
  by (auto simp: is_digit_def is_ws_def)

lemma dropWhile_id: "(\<And>c. c \<in> set s \<Longrightarrow> \<not> P c) \<Longrightarrow> dropWhile P s = s"
  by (cases s) auto

lemma trim_id:
  assumes "\<And>c. c \<in> set s \<Longrightarrow> \<not> is_ws c"
  shows "trim s = s"
proof -
  have "dropWhile is_ws s = s" and "dropWhile is_ws (rev s) = rev s"
    using assms by (auto intro: dropWhile_id)
  then show ?thesis by (simp add: trim_def trimStart_def trimEnd_def)
qed

lemma trim_print_release: "trim (print_release v) = print_release v"
proof (rule trim_id)
  fix c assume "c \<in> set (print_release v)"
  then have "is_digit c \<or> c = CHR ''.''" by (auto simp: print_release_def)
  then show "\<not> is_ws c" by (auto simp: digit_not_ws) (simp add: is_ws_def)
qed

lemma strip_v_digits: "strip_v (digits_of_nat n @ s) = digits_of_nat n @ s"
proof -
  obtain c r where cr: "digits_of_nat n = c # r" by (cases "digits_of_nat n") auto
  then have "is_digit c" using digits_of_nat_digits [of c n] by simp
  then have "c \<noteq> CHR ''v''" by (auto simp: is_digit_def)
  with cr show ?thesis by (simp add: strip_v_def)
qed

lemma match_print_release:
  "match_full_version (print_release v) = Some (major v, minor v, patch v, None)"
proof -
  have dot: "take_numeral (digits_of_nat n @ CHR ''.'' # s) = Some (n, CHR ''.'' # s)" for n s
    by (rule take_numeral_digits) (auto simp: is_digit_def)
  have fin: "take_numeral (digits_of_nat n) = Some (n, [])" for n
    using take_numeral_digits [of "[]" n] by simp
  show ?thesis
    by (simp add: match_full_version_def print_release_def strip_v_digits dot fin take_char_def
        match_tail_def)
qed

section \<open>Properties\<close>

text \<open>\<open>compareVersions\<close> is a comparator of a linear order: swapping the arguments swaps
  the sign, it is zero exactly on equal versions, and it is transitive.\<close>

theorem precedence_linear:
  "(compareVersions a b > 0 \<longleftrightarrow> compareVersions b a < 0)
   \<and> (compareVersions a b = 0 \<longleftrightarrow> a = b)
   \<and> (compareVersions a b \<le> 0 \<longrightarrow> compareVersions b c \<le> 0 \<longrightarrow> compareVersions a c \<le> 0)"
  using precedence.cmp_antisym [of a b] precedence.cmp_trans [of a b c]
  by (simp add: compareVersions_zero)

theorem precedence_linear_witness:
  "compareVersions (Version 1 0 0 [StrId ''alpha'']) (Version 1 0 0 []) \<le> 0"
  using precedence_linear [of "Version 1 0 0 [StrId ''alpha'']" "Version 1 0 0 [StrId ''beta'']"
      "Version 1 0 0 []"]
  by (simp add: compareVersions_def comparePrerelease_def)

text \<open>\<open>maxSatisfying\<close> returns a candidate that satisfies the range and that no other
  satisfying candidate outranks, and \<open>null\<close> exactly when no candidate satisfies the range.\<close>

theorem maxSatisfying_greatest:
  "case maxSatisfying cs rng of
     None \<Rightarrow> \<forall>d \<in> set cs. \<not> satisfiesRange d rng
   | Some c \<Rightarrow> c \<in> set cs \<and> satisfiesRange c rng
       \<and> (\<forall>d \<in> set cs. \<forall>v w. satisfiesRange d rng \<and> parseVersion d = Some v \<and> parseVersion c = Some w
            \<longrightarrow> compareVersions v w \<le> 0)"
proof -
  let ?cmp = "\<lambda>(v, raw :: string) (w, raw' :: string). compareVersions v w"
  let ?xs = "List.map_filter (usable rng) cs"
  have loop: "max_loop rng None cs = pick_max ?cmp None ?xs" by (rule max_loop_pick)
  show ?thesis
  proof (cases "pick_max ?cmp None ?xs")
    case None
    then have "?xs = []" by (simp add: candidate_precedence.pick_max_None_iff)
    then have "\<not> satisfiesRange d rng" if "d \<in> set cs" for d
      using that satisfiesRange_parses [of d rng] in_usable [of "(_, d)" rng cs] by force
    with None loop show ?thesis by (simp add: maxSatisfying_def)
  next
    case (Some m)
    then have m: "m \<in> set ?xs" "\<forall>x \<in> set ?xs. ?cmp x m \<le> 0"
      using candidate_precedence.pick_max_upper by blast+
    obtain w c where wc: "m = (w, c)" by (cases m)
    have "compareVersions v w \<le> 0"
      if "d \<in> set cs" "satisfiesRange d rng" "parseVersion d = Some v" for d v
      using that m(2) in_usable [of "(v, d)" rng cs] wc by fastforce
    with m(1) wc Some loop show ?thesis by (auto simp: maxSatisfying_def in_usable)
  qed
qed

theorem maxSatisfying_greatest_witness:
  "maxSatisfying [''1.0.0'', ''1.9.0'', ''2.0.0''] ''^1.0.0'' = Some ''1.9.0''
   \<and> compareVersions (Version 1 0 0 []) (Version 1 9 0 []) \<le> 0"
proof -
  have m: "maxSatisfying [''1.0.0'', ''1.9.0'', ''2.0.0''] ''^1.0.0'' = Some ''1.9.0''" by code_simp
  have sat: "satisfiesRange ''1.0.0'' ''^1.0.0''" by code_simp
  have parsed: "parseVersion ''1.0.0'' = Some (Version 1 0 0 [])"
    "parseVersion ''1.9.0'' = Some (Version 1 9 0 [])" by code_simp+
  show ?thesis
    using maxSatisfying_greatest [of "[''1.0.0'', ''1.9.0'', ''2.0.0'']" "''^1.0.0''"] sat parsed m
    by simp
qed

text \<open>A release satisfies \<open>^a.b.c\<close> exactly when it is not below \<open>a.b.c\<close> and keeps the
  left-most component of \<open>a.b.c\<close> that is not zero, and everything left of it.\<close>

theorem caret_accepts_compatible:
  assumes "prerelease v = []"
  shows "matchesSet v (ComparatorSet False (caretRange (Partial (Some a) (Some b) (Some c) [])))
    \<longleftrightarrow> compareVersions v (Version a b c []) \<ge> 0 \<and> major v = a
        \<and> (a \<noteq> 0 \<or> (minor v = b \<and> (b \<noteq> 0 \<or> patch v = c)))"
  using assms
  by (cases v) (auto simp: matchesSet_def caretRange_def complete_def or_zero_def Let_def
      compareVersions_def comparePrerelease_def split: if_splits)

theorem caret_accepts_compatible_witness:
  "\<not> matchesSet (Version 0 3 0 []) (ComparatorSet False (caretRange (Partial (Some 0) (Some 2) (Some 3) [])))"
  using caret_accepts_compatible [of "Version 0 3 0 []" 0 2 3] by simp

text \<open>The upper bound of a caret range carries the pre-release tag \<open>'0'\<close> as a string, and
  numeric identifiers rank below strings: every pre-release of the next major version whose
  first identifier is a number satisfies the range of the current one.\<close>

theorem caret_accepts_next_major_prerelease:
  assumes "0 < a"
  shows "matchesSet (Version (Suc a) 0 0 (NumId n # ids))
    (ComparatorSet False (caretRange (Partial (Some a) (Some b) (Some c) [])))"
  using assms
  by (simp add: matchesSet_def setAllowsPrerelease_def caretRange_def complete_def or_zero_def
      Let_def compareVersions_def comparePrerelease_def)

theorem caret_accepts_next_major_prerelease_witness:
  "satisfiesRange ''2.0.0-1'' ''^1.2.0'' \<and> matchesSet (Version 2 0 0 [NumId 1])
     (ComparatorSet False (caretRange (Partial (Some 1) (Some 2) (Some 0) [])))"
proof -
  have "satisfiesRange ''2.0.0-1'' ''^1.2.0''" by code_simp
  then show ?thesis
    using caret_accepts_next_major_prerelease [of 1 1 "[]" 2 0] by (simp add: numeral_2_eq_2)
qed

text \<open>The printed form of a release whose components are safe integers parses back to it.\<close>

theorem parse_print_release:
  assumes "prerelease v = []" and "int (major v) \<le> MAX_SAFE_COMPONENT"
    and "int (minor v) \<le> MAX_SAFE_COMPONENT" and "int (patch v) \<le> MAX_SAFE_COMPONENT"
  shows "parseVersion (print_release v) = Some v"
  using assms
  by (cases v) (simp add: parseVersion_def trim_print_release match_print_release
      parsePrerelease_def)

theorem parse_print_release_witness:
  "parseVersion (print_release (Version 1 20 3 [])) = Some (Version 1 20 3 [])"
  by (rule parse_print_release) (simp_all add: MAX_SAFE_COMPONENT_def MAX_SAFE_INTEGER_def)

end
