(* ===== verification/Cron.thy ===== *)
theory Cron
  imports Prelude
begin

text \<open>
  The five-field cron parser and the search for the next fire time of
  \<^verbatim>\<open>apps/server/src/lib/cron.ts\<close>. The UTC components of a \<open>Date\<close> are computed from the
  epoch milliseconds by the proleptic Gregorian calendar.

  Shown: a parsed field is a non-empty set of values within the bounds of the field, the search
  returns the first matching minute strictly after the start and fails exactly when no minute of
  the window matches, and a single value is read by \<open>Number\<close>, which takes more than digits.
\<close>

section \<open>Fields\<close>

record cron_schedule =
  minutes :: "nat set"
  hours :: "nat set"
  daysOfMonth :: "nat set"
  months :: "nat set"
  daysOfWeek :: "nat set"

datatype cron_error =
  EmptyField | BadStep string | BadRange string | BadValue string | FieldCount nat | NeverFires

text \<open>\<open>for (value = start; value <= end; value += step)\<close>, for a positive step.\<close>

function step_values :: "nat \<Rightarrow> nat \<Rightarrow> nat \<Rightarrow> nat list" where
  "step_values value stop step =
     (if value \<le> stop \<and> 1 \<le> step then value # step_values (value + step) stop step else [])"
  by pat_completeness auto
termination
  by (relation "measure (\<lambda>(value, stop, step). Suc stop - value)") auto

declare step_values.simps [simp del]

text \<open>\<open>(\d+)-(\d+)\<close> as a whole.\<close>

definition match_dashed :: "string \<Rightarrow> (string \<times> string) option" where
  "match_dashed s =
     (let a = takeWhile is_digit s; r = dropWhile is_digit s in
      case r of [] \<Rightarrow> None
      | c # b \<Rightarrow> if a \<noteq> [] \<and> c = CHR ''-'' \<and> b \<noteq> [] \<and> list_all is_digit b then Some (a, b) else None)"

datatype step_base = Star | From string "string option"

text \<open>\<open>(\*|(\d+)(?:-(\d+))?)/(\d+)\<close> as a whole.\<close>

definition match_step :: "string \<Rightarrow> (step_base \<times> string) option" where
  "match_step s =
     (let base = takeWhile (\<lambda>c. c \<noteq> CHR ''/'') s; r = dropWhile (\<lambda>c. c \<noteq> CHR ''/'') s in
      case r of [] \<Rightarrow> None
      | _ # step \<Rightarrow>
          if step = [] \<or> \<not> list_all is_digit step then None
          else if base = ''*'' then Some (Star, step)
          else if base \<noteq> [] \<and> list_all is_digit base then Some (From base None, step)
          else map_option (\<lambda>(a, b). (From a (Some b), step)) (match_dashed base))"

definition safe_step :: "string \<Rightarrow> bool" where
  "safe_step ds = (isInteger (jnum_of_rat (of_int (dec_value ds))) \<and> 1 \<le> nat_of_digits ds)"

text \<open>One comma-separated part of a field.\<close>

definition part_values :: "string \<Rightarrow> nat \<Rightarrow> nat \<Rightarrow> cron_error + nat list" where
  "part_values part lo hi =
     (let trimmed = trim part in
      if trimmed = [] then Inl EmptyField
      else case match_step trimmed of
        Some (base, stepText) \<Rightarrow>
          if \<not> safe_step stepText then Inl (BadStep trimmed)
          else let step = nat_of_digits stepText;
                   (start, upto_v) = (case base of Star \<Rightarrow> (lo, hi)
                     | From a None \<Rightarrow> (nat_of_digits a, hi)
                     | From a (Some b) \<Rightarrow> (nat_of_digits a, nat_of_digits b))
               in if start < lo \<or> upto_v > hi \<or> start > upto_v then Inl (BadRange trimmed)
                  else Inr (step_values start upto_v step)
      | None \<Rightarrow>
          (case match_dashed trimmed of
             Some (a, b) \<Rightarrow>
               let start = nat_of_digits a; upto_v = nat_of_digits b in
               if start < lo \<or> upto_v > hi \<or> start > upto_v then Inl (BadRange trimmed)
               else Inr (step_values start upto_v 1)
           | None \<Rightarrow>
               if trimmed = ''*'' then Inr (step_values lo hi 1)
               else (case js_Number trimmed of
                       Num r \<Rightarrow>
                         if \<not> isInteger (Num r) \<or> r < of_nat lo \<or> r > of_nat hi
                         then Inl (BadValue trimmed) else Inr [nat \<lfloor>r\<rfloor>]
                     | _ \<Rightarrow> Inl (BadValue trimmed))))"

fun parts_values :: "string list \<Rightarrow> nat \<Rightarrow> nat \<Rightarrow> nat set \<Rightarrow> cron_error + nat set" where
  "parts_values [] lo hi acc = (if acc = {} then Inl EmptyField else Inr acc)"
| "parts_values (p # ps) lo hi acc =
     (case part_values p lo hi of Inl e \<Rightarrow> Inl e | Inr vs \<Rightarrow> parts_values ps lo hi (acc \<union> set vs))"

definition fieldValues :: "string \<Rightarrow> nat \<Rightarrow> nat \<Rightarrow> cron_error + nat set" where
  "fieldValues expression lo hi = parts_values (split_char (CHR '','') expression) lo hi {}"

text \<open>The fields are read in the order of the source, so its first error is the one reported.\<close>

definition parseCron :: "string \<Rightarrow> cron_error + cron_schedule" where
  "parseCron expression =
     (let fields = (if trim expression = [] then [[]] else ws_words (trim expression)) in
      case fields of
        [minute, hour, dayOfMonth, month, dayOfWeek] \<Rightarrow>
          (case fieldValues dayOfWeek 0 7 of Inl e \<Rightarrow> Inl e | Inr dow0 \<Rightarrow>
            (let dow = (if 7 \<in> dow0 then insert 0 dow0 else dow0) in
             case fieldValues minute 0 59 of Inl e \<Rightarrow> Inl e | Inr mi \<Rightarrow>
            (case fieldValues hour 0 23 of Inl e \<Rightarrow> Inl e | Inr ho \<Rightarrow>
            (case fieldValues dayOfMonth 1 31 of Inl e \<Rightarrow> Inl e | Inr domv \<Rightarrow>
            (case fieldValues month 1 12 of Inl e \<Rightarrow> Inl e | Inr mo \<Rightarrow>
              Inr \<lparr>minutes = mi, hours = ho, daysOfMonth = domv, months = mo, daysOfWeek = dow\<rparr>)))))
      | _ \<Rightarrow> Inl (FieldCount (length fields)))"

section \<open>Calendar\<close>

definition MINUTE_MS :: int where "MINUTE_MS = 60 * 1000"
definition DAY_MS :: int where "DAY_MS = 24 * 60 * 60 * 1000"

text \<open>Month and day of a day number, counted in 400-year cycles that start on the first of March.\<close>

definition civil_month_day :: "int \<Rightarrow> int \<times> int" where
  "civil_month_day day =
     (let doe = (day + 719468) mod 146097;
          yoe = (doe - doe div 1460 + doe div 36524 - doe div 146096) div 365;
          doy = doe - (365 * yoe + yoe div 4 - yoe div 100);
          mp = (5 * doy + 2) div 153;
          d = doy - (153 * mp + 2) div 5 + 1;
          m = (if mp < 10 then mp + 3 else mp - 9)
      in (m, d))"

definition utcMinutes :: "int \<Rightarrow> nat" where "utcMinutes t = nat (t div MINUTE_MS mod 60)"
definition utcHours :: "int \<Rightarrow> nat" where "utcHours t = nat (t div (60 * MINUTE_MS) mod 24)"
definition utcDay :: "int \<Rightarrow> nat" where "utcDay t = nat ((t div DAY_MS + 4) mod 7)"
definition utcDate :: "int \<Rightarrow> nat" where "utcDate t = nat (snd (civil_month_day (t div DAY_MS)))"

text \<open>\<open>getUTCMonth() + 1\<close>.\<close>

definition utcMonth1 :: "int \<Rightarrow> nat" where
  "utcMonth1 t = nat (fst (civil_month_day (t div DAY_MS)))"

definition cron_matches :: "int \<Rightarrow> cron_schedule \<Rightarrow> bool" where
  "cron_matches t cron =
     (if utcDay t \<notin> daysOfWeek cron then False
      else if utcDate t \<notin> daysOfMonth cron then False
      else if utcMonth1 t \<notin> months cron then False
      else if utcHours t \<notin> hours cron then False
      else if utcMinutes t \<notin> minutes cron then False
      else True)"

section \<open>The search\<close>

function search_from :: "int \<Rightarrow> int \<Rightarrow> cron_schedule \<Rightarrow> cron_error + int" where
  "search_from timestamp limit cron =
     (if timestamp \<le> limit
      then (if cron_matches timestamp cron then Inr timestamp
            else search_from (timestamp + MINUTE_MS) limit cron)
      else Inl NeverFires)"
  by pat_completeness auto
termination
  by (relation "measure (\<lambda>(t, limit, cron). nat (limit - t + 1))") (auto simp: MINUTE_MS_def)

declare search_from.simps [simp del]

definition MAX_LOOKAHEAD_MS :: int where "MAX_LOOKAHEAD_MS = 5 * 365 * DAY_MS"

definition first_candidate :: "int \<Rightarrow> int" where
  "first_candidate from = from - from mod MINUTE_MS + MINUTE_MS"

definition nextCronAfter :: "int \<Rightarrow> cron_schedule \<Rightarrow> cron_error + int" where
  "nextCronAfter from cron = search_from (first_candidate from) (from + MAX_LOOKAHEAD_MS) cron"

section \<open>Lemmas\<close>

lemma step_values_bounds: "v \<in> set (step_values a b s) \<Longrightarrow> a \<le> v \<and> v \<le> b"
proof (induction a b s rule: step_values.induct)
  case (1 a b s)
  then show ?case
    by (auto simp: step_values.simps [of a b s] split: if_splits)
qed

lemma part_values_bounds:
  assumes "part_values p lo hi = Inr vs" and "v \<in> set vs"
  shows "lo \<le> v \<and> v \<le> hi"
proof -
  have num: "lo \<le> nat \<lfloor>r\<rfloor> \<and> nat \<lfloor>r\<rfloor> \<le> hi" if "of_nat lo \<le> r" "r \<le> of_nat hi" for r :: rat
    using that by (auto simp: le_nat_iff nat_le_iff floor_le_iff le_floor_iff)
  from assms show ?thesis
    by (auto simp: part_values_def Let_def split: if_splits option.splits step_base.splits
        prod.splits jnum.splits dest!: step_values_bounds num [rotated] intro: order.trans)
qed

lemma parts_values_bounds:
  assumes "parts_values ps lo hi acc = Inr vs" and "\<forall>v \<in> acc. lo \<le> v \<and> v \<le> hi"
  shows "vs \<noteq> {} \<and> (\<forall>v \<in> vs. lo \<le> v \<and> v \<le> hi)"
  using assms
proof (induction ps arbitrary: acc)
  case Nil
  then show ?case by (auto split: if_splits)
next
  case (Cons p ps)
  then obtain xs where xs: "part_values p lo hi = Inr xs"
    "parts_values ps lo hi (acc \<union> set xs) = Inr vs" by (auto split: sum.splits)
  with Cons.prems(2) show ?case
    by (intro Cons.IH [OF xs(2)]) (auto dest: part_values_bounds)
qed

lemma search_from_Inr:
  assumes "search_from a limit cron = Inr t"
  shows "a \<le> t \<and> t \<le> limit \<and> (t - a) mod MINUTE_MS = 0 \<and> cron_matches t cron
    \<and> (\<forall>u. a \<le> u \<longrightarrow> u < t \<longrightarrow> (u - a) mod MINUTE_MS = 0 \<longrightarrow> \<not> cron_matches u cron)"
  using assms
proof (induction a limit cron rule: search_from.induct)
  case (1 a limit cron)
  show ?case
  proof (cases "a \<le> limit \<and> \<not> cron_matches a cron")
    case True
    with "1.prems" have eq: "search_from (a + MINUTE_MS) limit cron = Inr t"
      by (simp add: search_from.simps [of a])
    from True "1.IH" eq have IH: "a + MINUTE_MS \<le> t" "t \<le> limit" "cron_matches t cron"
      "(t - (a + MINUTE_MS)) mod MINUTE_MS = 0"
      "\<And>u. a + MINUTE_MS \<le> u \<Longrightarrow> u < t \<Longrightarrow> (u - (a + MINUTE_MS)) mod MINUTE_MS = 0
        \<Longrightarrow> \<not> cron_matches u cron"
      by auto
    have shift: "(u - (a + MINUTE_MS)) mod MINUTE_MS = (u - a) mod MINUTE_MS" for u
      by (metis diff_diff_add minus_mod_self2)
    have "\<not> cron_matches u cron" if u: "a \<le> u" "u < t" "(u - a) mod MINUTE_MS = 0" for u
    proof (cases "u = a")
      case False
      have "a + MINUTE_MS \<le> u"
        using u(1,3) False zdvd_imp_le [of MINUTE_MS "u - a"] by (auto simp: mod_eq_0_iff_dvd)
      with IH(5) [of u] u shift show ?thesis by simp
    qed (use True in simp)
    with IH shift True show ?thesis by (auto simp: MINUTE_MS_def)
  next
    case False
    with "1.prems" show ?thesis
      by (auto simp: search_from.simps [of a] split: if_splits)
  qed
qed

lemma search_from_Inl:
  assumes "search_from a limit cron = Inl e"
  shows "e = NeverFires \<and> (\<forall>u. a \<le> u \<longrightarrow> u \<le> limit \<longrightarrow> (u - a) mod MINUTE_MS = 0
      \<longrightarrow> \<not> cron_matches u cron)"
  using assms
proof (induction a limit cron rule: search_from.induct)
  case (1 a limit cron)
  show ?case
  proof (cases "a \<le> limit")
    case True
    with "1.prems" have nm: "\<not> cron_matches a cron" "search_from (a + MINUTE_MS) limit cron = Inl e"
      by (auto simp: search_from.simps [of a] split: if_splits)
    with "1.IH" True have IH: "e = NeverFires"
      "\<And>u. a + MINUTE_MS \<le> u \<Longrightarrow> u \<le> limit \<Longrightarrow> (u - (a + MINUTE_MS)) mod MINUTE_MS = 0
        \<Longrightarrow> \<not> cron_matches u cron" by auto
    have "\<not> cron_matches u cron" if u: "a \<le> u" "u \<le> limit" "(u - a) mod MINUTE_MS = 0" for u
    proof (cases "u = a")
      case False
      have "a + MINUTE_MS \<le> u"
        using u(1,3) False zdvd_imp_le [of MINUTE_MS "u - a"] by (auto simp: mod_eq_0_iff_dvd)
      moreover have "(u - (a + MINUTE_MS)) mod MINUTE_MS = 0"
        using u(3) by (metis diff_diff_add minus_mod_self2)
      ultimately show ?thesis using IH(2) u by simp
    qed (use nm in simp)
    with IH(1) show ?thesis by simp
  next
    case False
    with "1.prems" show ?thesis by (auto simp: search_from.simps [of a])
  qed
qed

lemma first_candidate_props:
  "from < first_candidate from" "first_candidate from \<le> from + MINUTE_MS"
  "first_candidate from mod MINUTE_MS = 0"
proof -
  have m: "0 \<le> from mod MINUTE_MS" "from mod MINUTE_MS < MINUTE_MS" by (simp_all add: MINUTE_MS_def)
  then show "from < first_candidate from" "first_candidate from \<le> from + MINUTE_MS"
    by (simp_all add: first_candidate_def)
  show "first_candidate from mod MINUTE_MS = 0"
    by (simp add: first_candidate_def minus_mod_eq_mult_div)
qed

lemma minute_aligned:
  "u mod MINUTE_MS = 0 \<Longrightarrow> (u - first_candidate from) mod MINUTE_MS = 0"
  using first_candidate_props(3) [of "from"] by (metis diff_zero mod_diff_eq mod_0)

lemma aligned_after: "u mod MINUTE_MS = 0 \<Longrightarrow> from < u \<Longrightarrow> first_candidate from \<le> u"
proof -
  assume u: "u mod MINUTE_MS = 0" "from < u"
  have "MINUTE_MS dvd u - first_candidate from"
    using minute_aligned [OF u(1)] by (simp add: mod_eq_0_iff_dvd)
  moreover have "u - first_candidate from > - MINUTE_MS"
    using u(2) first_candidate_props(2) [of "from"] by simp
  ultimately show ?thesis
    using zdvd_imp_le [of MINUTE_MS "first_candidate from - u"]
    by (cases "first_candidate from \<le> u") (auto simp: dvd_diff_commute)
qed

lemma calendar_samples:
  "civil_month_day 0 = (1, 1)" "civil_month_day 59 = (3, 1)" "civil_month_day 789 = (2, 29)"
  "civil_month_day (-1) = (12, 31)" "civil_month_day 11016 = (2, 29)"
  by code_simp+

lemma hex_value_accepted: "fieldValues ''0x1F'' 0 59 = Inr {31}"
  by code_simp

section \<open>Properties\<close>

text \<open>The search returns the first whole minute strictly after the start at which the
  schedule matches, provided it lies within the window of five years, and otherwise the error
  that the schedule never fires; it always ends.\<close>

theorem nextCronAfter_first_match:
  "case nextCronAfter from cron of
     Inr t \<Rightarrow> from < t \<and> t \<le> from + MAX_LOOKAHEAD_MS \<and> t mod MINUTE_MS = 0 \<and> cron_matches t cron
       \<and> (\<forall>u. from < u \<longrightarrow> u < t \<longrightarrow> u mod MINUTE_MS = 0 \<longrightarrow> \<not> cron_matches u cron)
   | Inl e \<Rightarrow> e = NeverFires
       \<and> (\<forall>u. from < u \<longrightarrow> u \<le> from + MAX_LOOKAHEAD_MS \<longrightarrow> u mod MINUTE_MS = 0
            \<longrightarrow> \<not> cron_matches u cron)"
proof (cases "nextCronAfter from cron")
  case (Inl e)
  then show ?thesis
    using search_from_Inl [of "first_candidate from" "from + MAX_LOOKAHEAD_MS" cron e]
    by (auto simp: nextCronAfter_def minute_aligned aligned_after)
next
  case (Inr t)
  then have t: "first_candidate from \<le> t" "t \<le> from + MAX_LOOKAHEAD_MS" "cron_matches t cron"
    "(t - first_candidate from) mod MINUTE_MS = 0"
    "\<And>u. first_candidate from \<le> u \<Longrightarrow> u < t \<Longrightarrow> (u - first_candidate from) mod MINUTE_MS = 0
      \<Longrightarrow> \<not> cron_matches u cron"
    using search_from_Inr [of "first_candidate from" "from + MAX_LOOKAHEAD_MS" cron t]
    by (auto simp: nextCronAfter_def)
  have "t mod MINUTE_MS = 0"
    using t(4) first_candidate_props(3) [of "from"]
    by (metis add.commute diff_add_cancel mod_add_self2 mod_add_eq add_0 mod_0)
  with t Inr first_candidate_props(1) [of "from"] show ?thesis
    by (auto simp: minute_aligned aligned_after)
qed

definition example_cron :: cron_schedule where
  "example_cron = \<lparr>minutes = {2}, hours = {0}, daysOfMonth = {1}, months = {1}, daysOfWeek = {4}\<rparr>"

theorem nextCronAfter_first_match_witness:
  "nextCronAfter 30000 example_cron = Inr 120000 \<and> \<not> cron_matches 60000 example_cron"
proof -
  have n: "nextCronAfter 30000 example_cron = Inr 120000" by code_simp
  show ?thesis
    using nextCronAfter_first_match [of 30000 example_cron] n
    by (auto simp: MINUTE_MS_def dest!: spec [of _ 60000])
qed

text \<open>Every field of a parsed expression is a non-empty set of values within the bounds
  of its field, and a schedule for day 7 is one for Sunday, day 0.\<close>

theorem parseCron_within_bounds:
  assumes "parseCron expression = Inr cron"
  shows "minutes cron \<noteq> {} \<and> minutes cron \<subseteq> {0..59} \<and> hours cron \<noteq> {} \<and> hours cron \<subseteq> {0..23}
    \<and> daysOfMonth cron \<noteq> {} \<and> daysOfMonth cron \<subseteq> {1..31} \<and> months cron \<noteq> {}
    \<and> months cron \<subseteq> {1..12} \<and> daysOfWeek cron \<noteq> {} \<and> daysOfWeek cron \<subseteq> {0..7}
    \<and> (7 \<in> daysOfWeek cron \<longrightarrow> 0 \<in> daysOfWeek cron)"
proof -
  have field: "vs \<noteq> {} \<and> vs \<subseteq> {lo..hi}" if "fieldValues e lo hi = Inr vs" for e lo hi vs
    using parts_values_bounds [of _ lo hi "{}" vs] that by (auto simp: fieldValues_def)
  from assms obtain mi ho domv mo dw c where f:
    "fieldValues (c 0) 0 59 = Inr mi" "fieldValues (c 1) 0 23 = Inr ho"
    "fieldValues (c 2) 1 31 = Inr domv" "fieldValues (c 3) 1 12 = Inr mo"
    "fieldValues (c (4 :: nat)) 0 7 = Inr dw"
    "cron = \<lparr>minutes = mi, hours = ho, daysOfMonth = domv, months = mo,
             daysOfWeek = (if 7 \<in> dw then insert 0 dw else dw)\<rparr>"
    unfolding parseCron_def Let_def
    by (auto split: list.splits sum.splits
        intro!: that [of "(!) [_, _, _, _, _]"] simp: numeral_eq_Suc)
  show ?thesis using field [OF f(1)] field [OF f(2)] field [OF f(3)] field [OF f(4)] field [OF f(5)]
    by (auto simp: f(6))
qed

theorem parseCron_within_bounds_witness:
  "\<exists>cron. parseCron ''*/15 0 1-5 * 7'' = Inr cron \<and> daysOfWeek cron \<subseteq> {0..7}
     \<and> 0 \<in> daysOfWeek cron"
proof -
  have p: "map_sum id daysOfWeek (parseCron ''*/15 0 1-5 * 7'') = Inr {0, 7}" by code_simp
  then obtain cron where c: "parseCron ''*/15 0 1-5 * 7'' = Inr cron" "daysOfWeek cron = {0, 7}"
    by (cases "parseCron ''*/15 0 1-5 * 7''") auto
  from parseCron_within_bounds [OF c(1)] c show ?thesis by auto
qed

end
