(* ===== verification/Context_Shift.thy ===== *)
theory Context_Shift
  imports Prelude "HOL-Library.List_Lexorder" "HOL-Library.Char_ord"
begin

text \<open>
  Context shifting of \<^verbatim>\<open>apps/server/src/pipeline/contextShift.ts\<close>: fitting the prompt messages
  into a token budget, the four built-in strategies and the strategy registry. The token counter
  is a parameter, as in the code. The code compares message objects by identity; \<open>mref\<close> is the
  identity of an object. The ellipsis U+2026 of the summary is the character with code 133.

  Shown: protected messages survive, \<open>kept\<close> and \<open>excluded\<close> partition the input, the budget
  verdict is the one of the kept messages and shifting gives up only when nothing removable is
  left, linked tool messages go together when they carry pair ids and may be torn apart when
  only some do, the summary loop can run forever, manual exclusions are honoured, and a strategy
  registration is undone by its cleanup.
\<close>

section \<open>Messages\<close>

datatype role = System | User | Assistant | Tool | Plugin

datatype source =
  SrcSystem | SrcHistory | SrcUser | SrcLorebook | SrcMemory | SrcPlugin | SrcTemplate

record prompt_message =
  mref :: nat
  mid :: "string option"
  role :: role
  content :: string
  mname :: "string option"
  pinned :: "bool option"
  pairId :: "string option"
  source :: "source option"
  relevance :: "jnum option"

record shift_result =
  kept :: "prompt_message list"
  excluded :: "prompt_message list"
  estimatedTokens :: int
  truncated :: bool
  fitsBudget :: bool
  strategy :: "string option"
  summaryCreated :: "bool option"
  manualFallback :: "bool option"

record shift_options =
  perMessageOverhead :: "int option"
  removalPriority :: "(prompt_message \<Rightarrow> nat \<Rightarrow> rat) option"

definition no_options :: shift_options where
  "no_options = \<lparr>perMessageOverhead = None, removalPriority = None\<rparr>"

type_synonym token_counter = "string \<Rightarrow> int"

definition isProtectedMessage :: "prompt_message \<Rightarrow> bool" where
  "isProtectedMessage m =
     (pinned m = Some True
      \<or> (role m = System \<and> (source m = None \<or> source m = Some SrcSystem)))"

definition mem_ref :: "prompt_message list \<Rightarrow> prompt_message \<Rightarrow> bool" where
  "mem_ref ms m = list_ex (\<lambda>x. mref x = mref m) ms"

definition linkedToolMessages :: "prompt_message list \<Rightarrow> prompt_message \<Rightarrow> prompt_message list" where
  "linkedToolMessages messages m =
     (if pairId m \<noteq> None \<and> pairId m \<noteq> Some []
      then filter (\<lambda>c. pairId c = pairId m \<and> (role c = Assistant \<or> role c = Tool)) messages
      else let index = js_findIndex (\<lambda>c. mref c = mref m) messages in
        if role m = Tool then
          (case js_at messages (index - 1) of
             Some previous \<Rightarrow> if role previous = Assistant then [previous, m] else [m]
           | None \<Rightarrow> [m])
        else if role m = Assistant then
          (case js_at messages (index + 1) of
             Some nxt \<Rightarrow> if role nxt = Tool then [m, nxt] else [m]
           | None \<Rightarrow> [m])
        else [m])"

section \<open>Shifting\<close>

definition total_for :: "token_counter \<Rightarrow> int \<Rightarrow> prompt_message list \<Rightarrow> int" where
  "total_for countTokens overhead ms = sum_list (map (\<lambda>m. countTokens (content m) + overhead) ms)"

definition add_removed :: "prompt_message \<Rightarrow> prompt_message list \<Rightarrow> prompt_message list" where
  "add_removed m removed = (if mem_ref removed m then removed else removed @ [m])"

definition remaining :: "prompt_message list \<Rightarrow> prompt_message list \<Rightarrow> prompt_message list" where
  "remaining messages removed = filter (\<lambda>m. \<not> mem_ref removed m) messages"

fun shift_loop :: "token_counter \<Rightarrow> int \<Rightarrow> int \<Rightarrow> prompt_message list \<Rightarrow> prompt_message list
    \<Rightarrow> int \<Rightarrow> prompt_message list \<Rightarrow> prompt_message list" where
  "shift_loop countTokens overhead budget messages [] tot removed = removed"
| "shift_loop countTokens overhead budget messages (m # ms) tot removed =
     (if tot \<le> budget then removed
      else let group = linkedToolMessages messages m in
        if list_ex isProtectedMessage group
        then shift_loop countTokens overhead budget messages ms tot removed
        else let removed' = fold add_removed group removed in
          shift_loop countTokens overhead budget messages ms
            (total_for countTokens overhead (remaining messages removed')) removed')"

definition removal_order :: "shift_options \<Rightarrow> prompt_message list \<Rightarrow> prompt_message list" where
  "removal_order options messages =
     map fst (sort_key (\<lambda>(m, i). case removalPriority options of None \<Rightarrow> of_nat i | Some f \<Rightarrow> f m i)
       (filter (\<lambda>(m, i). \<not> isProtectedMessage m) (zip messages [0..<length messages])))"

definition shiftContext :: "prompt_message list \<Rightarrow> token_counter \<Rightarrow> int \<Rightarrow> shift_options \<Rightarrow> shift_result" where
  "shiftContext messages countTokens budgetTokens options =
     (let overhead = (case perMessageOverhead options of None \<Rightarrow> 4 | Some n \<Rightarrow> n);
          tot = total_for countTokens overhead messages;
          ex = shift_loop countTokens overhead budgetTokens messages
                 (removal_order options messages) tot [];
          kp = remaining messages ex;
          tot' = total_for countTokens overhead kp
      in \<lparr>kept = kp, excluded = ex, estimatedTokens = tot', truncated = (length ex > 0),
          fitsBudget = (tot' \<le> budgetTokens), strategy = None, summaryCreated = None,
          manualFallback = None\<rparr>)"

section \<open>Strategies\<close>

text \<open>\<open>[...new Set(messages)]\<close> keeps first occurrences.\<close>

definition dedupeMessages :: "prompt_message list \<Rightarrow> prompt_message list" where
  "dedupeMessages ms = fold add_removed ms []"

record strategy_request =
  req_messages :: "prompt_message list"
  req_countTokens :: token_counter
  req_budgetTokens :: int
  req_manualExcludedIds :: "string list option"

definition withStrategy :: "shift_result \<Rightarrow> string \<Rightarrow> shift_result" where
  "withStrategy r s = r\<lparr>strategy := Some s\<rparr>"

definition truncateStrategy :: "strategy_request \<Rightarrow> shift_result" where
  "truncateStrategy q =
     withStrategy (shiftContext (req_messages q) (req_countTokens q) (req_budgetTokens q) no_options)
       ''truncate''"

fun role_name :: "role \<Rightarrow> string" where
  "role_name System = ''system''"
| "role_name User = ''user''"
| "role_name Assistant = ''assistant''"
| "role_name Tool = ''tool''"
| "role_name Plugin = ''plugin''"

definition ellipsis :: char where
  "ellipsis = CHR 0x85"

text \<open>\<open>replace(/\s+/g, ' ')\<close>.\<close>

fun collapse_ws :: "bool \<Rightarrow> string \<Rightarrow> string" where
  "collapse_ws in_ws [] = []"
| "collapse_ws in_ws (c # s) =
     (if is_ws c then (if in_ws then collapse_ws True s else CHR '' '' # collapse_ws True s)
      else c # collapse_ws False s)"

definition summary_line :: "prompt_message \<Rightarrow> string" where
  "summary_line m =
     (let normalized = trim (collapse_ws False (content m));
          excerpt = (if length normalized \<le> 160 then normalized
                     else take 104 normalized @ '' '' @ [ellipsis] @ '' ''
                          @ drop (length normalized - 40) normalized)
      in role_name (role m) @ '': '' @ excerpt)"

definition NEWLINE :: string where
  "NEWLINE = [CHR 0x0A]"

definition summary_prefix :: string where
  "summary_prefix = ''[Summary of earlier context]'' @ NEWLINE"

definition shorten_body :: "string \<Rightarrow> string" where
  "shorten_body body = trimEnd (take (max 24 (length body * 18 div 25)) body) @ [ellipsis]"

text \<open>The shortening loop; \<open>None\<close> means that it does not end.\<close>

partial_function (option) summary_loop :: "token_counter \<Rightarrow> int \<Rightarrow> string \<Rightarrow> string option" where
  "summary_loop countTokens targetTokens body =
     (if countTokens (summary_prefix @ body) > targetTokens \<and> length body > 24
      then summary_loop countTokens targetTokens (shorten_body body)
      else Some (summary_prefix @ body))"

definition buildExtractiveSummary :: "prompt_message list \<Rightarrow> token_counter \<Rightarrow> int \<Rightarrow> string option" where
  "buildExtractiveSummary messages countTokens targetTokens =
     summary_loop countTokens targetTokens (join_with NEWLINE (map summary_line messages))"

definition fresh_ref :: "prompt_message list \<Rightarrow> nat" where
  "fresh_ref ms = Suc (fold max (map mref ms) 0)"

definition summary_id :: string where
  "summary_id = ''core.context-summary''"

text \<open>The target is \<open>Math.floor(budgetTokens * 0.35)\<close> between 8 and 128. The factor is the binary64
  number \<open>6305039478318694 / 2 ^ 54\<close> and the product is rounded to 53 significant bits, ties to
  even, before the floor (so 180 gives 62).\<close>

function int_bits :: "int \<Rightarrow> nat" where
  "int_bits n = (if n \<le> 0 then 0 else Suc (int_bits (n div 2)))"
  by auto
termination by (relation "measure nat") auto

declare int_bits.simps [simp del]

definition round_binary64 :: "int \<Rightarrow> int" where
  "round_binary64 n =
     (let unit = 2 ^ (int_bits \<bar>n\<bar> - 53); q = n div unit; r = 2 * (n mod unit)
      in if r < unit \<or> r = unit \<and> even q then q * unit else (q + 1) * unit)"

definition summary_target :: "int \<Rightarrow> int" where
  "summary_target budgetTokens =
     max 8 (min 128 (round_binary64 (budgetTokens * 6305039478318694) div 2 ^ 54))"

lemma summary_target_180: "summary_target 180 = 62" and summary_target_400: "summary_target 400 = 128"
  by (simp_all add: summary_target_def round_binary64_def int_bits.simps)

definition summary_message :: "prompt_message list \<Rightarrow> string \<Rightarrow> prompt_message" where
  "summary_message messages summary =
     \<lparr>mref = fresh_ref messages, mid = Some summary_id, role = System, content = summary,
      mname = None, pinned = None, pairId = None, source = Some SrcMemory,
      relevance = Some (Num 1)\<rparr>"

definition insert_summary :: "prompt_message list \<Rightarrow> prompt_message \<Rightarrow> prompt_message list" where
  "insert_summary kp m =
     (let currentUserIndex = js_findIndex (\<lambda>x. source x = Some SrcUser) kp;
          insertionIndex = (if currentUserIndex < 0 then length kp else nat currentUserIndex)
      in splice_in insertionIndex [m] kp)"

definition summarizeStrategy :: "strategy_request \<Rightarrow> shift_result option" where
  "summarizeStrategy q =
     (let t = shiftContext (req_messages q) (req_countTokens q) (req_budgetTokens q) no_options in
      if excluded t = [] then Some (withStrategy t ''summarize'')
      else (case buildExtractiveSummary (excluded t) (req_countTokens q)
                   (summary_target (req_budgetTokens q)) of
              None \<Rightarrow> None
            | Some summary \<Rightarrow>
                (let sm = summary_message (req_messages q) summary;
                     fitted = shiftContext (insert_summary (kept t) sm) (req_countTokens q)
                       (req_budgetTokens q)
                       \<lparr>perMessageOverhead = None,
                        removalPriority = Some (\<lambda>m i. if mid m = Some summary_id
                           then of_int (MAX_SAFE_INTEGER - 1) else of_nat i)\<rparr>;
                     ex = dedupeMessages (excluded t
                            @ filter (\<lambda>m. mid m \<noteq> Some summary_id) (excluded fitted))
                 in Some (fitted\<lparr>excluded := ex, truncated := (length ex > 0),
                     strategy := Some ''summarize'',
                     summaryCreated := Some (list_ex (\<lambda>m. mid m = Some summary_id) (kept fitted))\<rparr>))))"

definition recall_priority :: "prompt_message \<Rightarrow> nat \<Rightarrow> rat" where
  "recall_priority m i =
     (if source m = Some SrcMemory \<or> source m = Some SrcLorebook
      then (case relevance m of Some (Num r) \<Rightarrow> max 0 (min 1 r) | _ \<Rightarrow> 0) * 10000
      else 20000 + of_nat i)"

definition vectorRecallStrategy :: "strategy_request \<Rightarrow> shift_result" where
  "vectorRecallStrategy q =
     withStrategy (shiftContext (req_messages q) (req_countTokens q) (req_budgetTokens q)
        \<lparr>perMessageOverhead = None, removalPriority = Some recall_priority\<rparr>) ''vector-recall''"

definition manual_set :: "prompt_message list \<Rightarrow> string list \<Rightarrow> prompt_message list" where
  "manual_set messages selected =
     fold (\<lambda>m acc. case mid m of
         None \<Rightarrow> acc
       | Some i \<Rightarrow> if i \<notin> set selected then acc
           else fold add_removed (filter (\<lambda>l. \<not> isProtectedMessage l) (linkedToolMessages messages m)) acc)
       messages []"

definition manualStrategy :: "strategy_request \<Rightarrow> shift_result" where
  "manualStrategy q =
     (let messages = req_messages q;
          selected = (case req_manualExcludedIds q of None \<Rightarrow> [] | Some ids \<Rightarrow> ids);
          manualSet = manual_set messages selected;
          manuallyExcluded = filter (mem_ref manualSet) messages;
          remaining' = remaining messages manuallyExcluded;
          fitted = shiftContext remaining' (req_countTokens q) (req_budgetTokens q) no_options;
          ex = dedupeMessages (manuallyExcluded @ excluded fitted)
      in fitted\<lparr>excluded := ex, truncated := (length ex > 0), strategy := Some ''manual'',
           manualFallback := Some (length (excluded fitted) > 0)\<rparr>)"

section \<open>Registry\<close>

text \<open>A registered strategy: identity of the object, id, priority and behaviour.\<close>

datatype context_strategy =
  ContextStrategy (sref: nat) (sid: string) (spriority: "rat option")
    (shift: "strategy_request \<Rightarrow> shift_result option")

type_synonym strategy_registry = "(string, context_strategy list) jmap"

datatype strategy_error = EmptyStrategyId | UnknownStrategy string

definition strategy_rank :: "context_strategy \<Rightarrow> rat" where
  "strategy_rank s = - (case spriority s of None \<Rightarrow> 0 | Some p \<Rightarrow> p)"

definition registry_register :: "context_strategy \<Rightarrow> strategy_registry
    \<Rightarrow> strategy_error + strategy_registry" where
  "registry_register s r =
     (if trim (sid s) = [] then Inl EmptyStrategyId
      else let versions = (case jm_get r (sid s) of None \<Rightarrow> [] | Some vs \<Rightarrow> vs)
           in Inr (jm_set (sid s) (sort_key strategy_rank (versions @ [s])) r))"

fun remove_first_ref :: "context_strategy \<Rightarrow> context_strategy list \<Rightarrow> context_strategy list" where
  "remove_first_ref s [] = []"
| "remove_first_ref s (x # xs) = (if sref x = sref s then xs else x # remove_first_ref s xs)"

definition registry_cleanup :: "context_strategy \<Rightarrow> strategy_registry \<Rightarrow> strategy_registry" where
  "registry_cleanup s r =
     (case jm_get r (sid s) of
        None \<Rightarrow> r
      | Some current \<Rightarrow>
          (let current' = remove_first_ref s current
           in if current' = [] then jm_delete (sid s) r else jm_set (sid s) current' r))"

definition registry_resolve :: "string \<Rightarrow> strategy_registry \<Rightarrow> strategy_error + context_strategy" where
  "registry_resolve i r =
     (case jm_get r i of
        Some (s # _) \<Rightarrow> Inr s
      | _ \<Rightarrow> Inl (UnknownStrategy i))"

definition registry_ids :: "strategy_registry \<Rightarrow> string list" where
  "registry_ids r = sort (jm_keys r)"

definition builtin_strategies :: "context_strategy list" where
  "builtin_strategies =
     [ContextStrategy 0 ''truncate'' None (\<lambda>q. Some (truncateStrategy q)),
      ContextStrategy 1 ''summarize'' None summarizeStrategy,
      ContextStrategy 2 ''vector-recall'' None (\<lambda>q. Some (vectorRecallStrategy q)),
      ContextStrategy 3 ''manual'' None (\<lambda>q. Some (manualStrategy q))]"

definition new_registry :: "bool \<Rightarrow> strategy_registry" where
  "new_registry registerBuiltins =
     (if registerBuiltins
      then fold (\<lambda>s r. case registry_register s r of Inl _ \<Rightarrow> r | Inr r' \<Rightarrow> r') builtin_strategies []
      else [])"

section \<open>The shifting loop\<close>

lemma mem_ref_Nil [simp]: "\<not> mem_ref [] m"
  by (simp add: mem_ref_def)

lemma mem_ref_Cons: "mem_ref (x # xs) m \<longleftrightarrow> mref x = mref m \<or> mem_ref xs m"
  by (simp add: mem_ref_def)

lemma mem_ref_set: "m \<in> set ms \<Longrightarrow> mem_ref ms m"
  by (auto simp: mem_ref_def list_ex_iff)

lemma mem_ref_add [simp]: "mem_ref (add_removed m ex) x \<longleftrightarrow> mem_ref ex x \<or> mref m = mref x"
  by (auto simp: add_removed_def mem_ref_def list_ex_iff)

lemma mem_ref_fold_add [simp]:
  "mem_ref (fold add_removed ms ex) x \<longleftrightarrow> mem_ref ex x \<or> mem_ref ms x"
  by (induction ms arbitrary: ex) (auto simp: mem_ref_Cons)

lemma set_fold_add: "set (fold add_removed ms ex) \<subseteq> set ex \<union> set ms"
proof (induction ms arbitrary: ex)
  case Nil
  then show ?case by simp
next
  case (Cons m ms)
  have "set (add_removed m ex) \<subseteq> insert m (set ex)" by (auto simp: add_removed_def)
  with Cons [of "add_removed m ex"] show ?case by auto
qed

lemma linked_subset: "x \<in> set (linkedToolMessages messages m) \<Longrightarrow> x \<in> set messages \<or> x = m"
  by (auto simp: linkedToolMessages_def Let_def split: if_splits option.splits dest: js_at_in_set)

lemma set_removal_order:
  "set (removal_order options messages) = {m \<in> set messages. \<not> isProtectedMessage m}"
proof -
  have "fst ` set (zip messages [0..<length messages]) = set messages"
    by (simp flip: set_map)
  then show ?thesis by (force simp: removal_order_def)
qed

lemma loop_mono: "mem_ref removed x \<Longrightarrow> mem_ref (shift_loop ct ov b messages ms tot removed) x"
  by (induction ct ov b messages ms tot removed rule: shift_loop.induct) (auto simp: Let_def)

lemma loop_elements:
  "x \<in> set (shift_loop ct ov b messages ms tot removed) \<Longrightarrow> set ms \<subseteq> set messages
    \<Longrightarrow> x \<in> set removed \<or> (x \<in> set messages \<and> \<not> isProtectedMessage x)"
proof (induction ct ov b messages ms tot removed rule: shift_loop.induct)
  case (2 ct ov b messages m ms tot removed)
  let ?g = "linkedToolMessages messages m"
  let ?r = "fold add_removed ?g removed"
  show ?case
  proof (cases "tot \<le> b \<or> list_ex isProtectedMessage ?g")
    case True
    with 2 show ?thesis by (auto simp: Let_def split: if_splits)
  next
    case False
    then have group: "\<forall>y \<in> set ?g. \<not> isProtectedMessage y \<and> y \<in> set messages"
      using linked_subset [of _ messages m] "2.prems"(2) by (auto simp: list_ex_iff)
    from False 2 have "x \<in> set ?r \<or> (x \<in> set messages \<and> \<not> isProtectedMessage x)"
      by (auto simp: Let_def)
    with group set_fold_add [of ?g removed] show ?thesis by blast
  qed
qed simp

lemma loop_gives_up_last:
  assumes "tot = total_for ct ov (remaining messages removed)"
  shows "total_for ct ov (remaining messages (shift_loop ct ov b messages ms tot removed)) \<le> b
    \<or> (\<forall>m \<in> set ms. list_ex isProtectedMessage (linkedToolMessages messages m)
          \<or> (\<forall>x \<in> set (linkedToolMessages messages m).
                mem_ref (shift_loop ct ov b messages ms tot removed) x))"
  using assms
proof (induction ct ov b messages ms tot removed rule: shift_loop.induct)
  case (2 ct ov b messages m ms tot removed)
  let ?g = "linkedToolMessages messages m"
  let ?r = "fold add_removed ?g removed"
  show ?case
  proof (cases "tot \<le> b \<or> list_ex isProtectedMessage ?g")
    case True
    with 2 show ?thesis by (auto simp: Let_def)
  next
    case False
    let ?ex = "shift_loop ct ov b messages ms (total_for ct ov (remaining messages ?r)) ?r"
    have "\<forall>x \<in> set ?g. mem_ref ?ex x"
      using loop_mono mem_ref_fold_add mem_ref_set by blast
    with False 2 show ?thesis by (auto simp: Let_def)
  qed
qed simp

section \<open>Results of one shift\<close>

text \<open>Distinct objects of a message list have distinct identities.\<close>

definition refs_ok :: "prompt_message list \<Rightarrow> bool" where
  "refs_ok ms \<longleftrightarrow> (\<forall>x \<in> set ms. \<forall>y \<in> set ms. mref x = mref y \<longrightarrow> x = y)"

lemma shiftContext_simps:
  "kept (shiftContext ms ct b opt) = remaining ms (excluded (shiftContext ms ct b opt))"
  "fitsBudget (shiftContext ms ct b opt) \<longleftrightarrow> estimatedTokens (shiftContext ms ct b opt) \<le> b"
  "estimatedTokens (shiftContext ms ct b opt) = total_for ct
      (case perMessageOverhead opt of None \<Rightarrow> 4 | Some n \<Rightarrow> n) (kept (shiftContext ms ct b opt))"
  "truncated (shiftContext ms ct b opt) \<longleftrightarrow> excluded (shiftContext ms ct b opt) \<noteq> []"
  by (simp_all add: shiftContext_def Let_def)

lemma excluded_elements:
  "x \<in> set (excluded (shiftContext ms ct b opt)) \<Longrightarrow> x \<in> set ms \<and> \<not> isProtectedMessage x"
  using loop_elements [of x ct _ b ms "removal_order opt ms" _ "[]"]
  by (auto simp: shiftContext_def Let_def set_removal_order)

lemma mem_ref_excluded:
  assumes "refs_ok ms" and "m \<in> set ms"
  shows "mem_ref (excluded (shiftContext ms ct b opt)) m
    \<longleftrightarrow> m \<in> set (excluded (shiftContext ms ct b opt))"
  using assms excluded_elements [of _ ms ct b opt]
  by (auto simp: mem_ref_def list_ex_iff refs_ok_def)

lemma kept_iff:
  assumes "refs_ok ms"
  shows "m \<in> set (kept (shiftContext ms ct b opt))
    \<longleftrightarrow> m \<in> set ms \<and> m \<notin> set (excluded (shiftContext ms ct b opt))"
  using mem_ref_excluded [OF assms, of m ct b opt]
  by (auto simp: shiftContext_simps(1) remaining_def)

lemma linked_pairId:
  "pairId m = Some p \<Longrightarrow> p \<noteq> [] \<Longrightarrow> linkedToolMessages messages m =
     filter (\<lambda>c. pairId c = Some p \<and> (role c = Assistant \<or> role c = Tool)) messages"
  by (simp add: linkedToolMessages_def)

lemma loop_pairs:
  assumes "\<forall>c \<in> set messages. role c = Assistant \<or> role c = Tool
      \<longrightarrow> pairId c \<noteq> None \<and> pairId c \<noteq> Some []"
    and "set ms \<subseteq> set messages"
    and "\<forall>x \<in> set removed. \<forall>y \<in> set messages. role x \<in> {Assistant, Tool} \<and> role y \<in> {Assistant, Tool}
      \<and> pairId x = pairId y \<longrightarrow> mem_ref removed y"
    and "x \<in> set (shift_loop ct ov b messages ms tot removed)" and "y \<in> set messages"
    and "role x \<in> {Assistant, Tool}" and "role y \<in> {Assistant, Tool}" and "pairId x = pairId y"
  shows "mem_ref (shift_loop ct ov b messages ms tot removed) y"
  using assms
proof (induction ct ov b messages ms tot removed rule: shift_loop.induct)
  case (2 ct ov b messages m ms tot removed)
  let ?g = "linkedToolMessages messages m"
  let ?r = "fold add_removed ?g removed"
  show ?case
  proof (cases "tot \<le> b \<or> list_ex isProtectedMessage ?g")
    case True
    with 2 show ?thesis by (auto simp: Let_def split: if_splits)
  next
    case False
    have closed: "mem_ref ?r v" if "u \<in> set ?r" "v \<in> set messages" "role u \<in> {Assistant, Tool}"
      "role v \<in> {Assistant, Tool}" "pairId u = pairId v" for u v
    proof -
      have "u \<in> set removed \<or> u \<in> set ?g" using that(1) set_fold_add [of ?g removed] by blast
      then show ?thesis
      proof
        assume "u \<in> set removed"
        with that "2.prems"(3) show ?thesis by auto
      next
        assume u: "u \<in> set ?g"
        show ?thesis
        proof (cases "pairId m \<noteq> None \<and> pairId m \<noteq> Some []")
          case True
          with u that have "v \<in> set ?g" by (auto simp: linkedToolMessages_def)
          then show ?thesis by (simp add: mem_ref_set)
        next
          case False
          with "2.prems"(1,2) have "role m \<noteq> Assistant" "role m \<noteq> Tool" by auto
          with False have "?g = [m]" by (auto simp: linkedToolMessages_def)
          with u that \<open>role m \<noteq> Assistant\<close> \<open>role m \<noteq> Tool\<close> show ?thesis by simp
        qed
      qed
    qed
    let ?t = "total_for ct ov (remaining messages ?r)"
    have step: "shift_loop ct ov b messages (m # ms) tot removed = shift_loop ct ov b messages ms ?t ?r"
      using False by (simp add: Let_def)
    show ?thesis unfolding step
    proof (rule "2.IH"(2))
      show "\<forall>u \<in> set ?r. \<forall>v \<in> set messages. role u \<in> {Assistant, Tool} \<and> role v \<in> {Assistant, Tool}
        \<and> pairId u = pairId v \<longrightarrow> mem_ref ?r v" using closed by blast
      show "x \<in> set (shift_loop ct ov b messages ms ?t ?r)" using "2.prems"(4) step by simp
    qed (use False 2 in auto)
  qed
qed simp

section \<open>The summary loop\<close>

lemma summary_loop_stuck:
  assumes "shorten_body b = b" and "ct (summary_prefix @ b) > t" and "length b > 24"
  shows "summary_loop ct t b = None"
proof (rule ccontr)
  assume "summary_loop ct t b \<noteq> None"
  then obtain r where r: "summary_loop ct t b = Some r" by auto
  have "\<not> (b = b \<and> ct = ct \<and> t = t)"
  proof (rule summary_loop.raw_induct
      [where P = "\<lambda>ct' t' b' r. \<not> (b' = b \<and> ct' = ct \<and> t' = t)", OF _ r])
    fix f ct' t' b' r
    assume "\<And>ct' t' b' r. f ct' t' b' = Some r \<Longrightarrow> \<not> (b' = b \<and> ct' = ct \<and> t' = t)"
      and "(if t' < ct' (summary_prefix @ b') \<and> 24 < length b'
        then f ct' t' (shorten_body b') else Some (summary_prefix @ b')) = Some r"
    then show "\<not> (b' = b \<and> ct' = ct \<and> t' = t)"
      using assms by (auto split: if_splits)
  qed
  then show False by simp
qed

lemma trimEnd_snoc: "\<not> is_ws c \<Longrightarrow> trimEnd (s @ [c]) = s @ [c]"
  by (simp add: trimEnd_def)

lemma length_trimEnd: "length (trimEnd s) \<le> length s"
  using length_dropWhile_le [of is_ws "rev s"] by (simp add: trimEnd_def)

lemma shorten_body_fixpoint:
  assumes "length b \<ge> 25" and "length b \<le> 34" and "\<not> is_ws (b ! 23)"
  shows "shorten_body b = take 24 b @ [ellipsis]"
    and "shorten_body (take 24 b @ [ellipsis]) = take 24 b @ [ellipsis]"
proof -
  have "trimEnd (take 24 b) = take 24 b"
    using assms take_Suc_conv_app_nth [of 23 b] by (simp add: trimEnd_snoc)
  moreover have "max 24 (length b * 18 div 25) = 24" using assms(2) by simp
  ultimately show "shorten_body b = take 24 b @ [ellipsis]"
    "shorten_body (take 24 b @ [ellipsis]) = take 24 b @ [ellipsis]"
    using assms(1) by (simp_all add: shorten_body_def)
qed

lemma shorten_body_shorter: "length b > 25 \<Longrightarrow> length (shorten_body b) < length b"
  using length_trimEnd [of "take (max 24 (length b * 18 div 25)) b"]
  by (simp add: shorten_body_def)

lemma summary_loop_returns:
  assumes "\<And>b. length b \<le> 25 \<Longrightarrow> ct (summary_prefix @ b) \<le> t"
  shows "\<exists>r. summary_loop ct t b = Some r"
proof (induction b rule: length_induct)
  case (1 b)
  show ?case
  proof (cases "ct (summary_prefix @ b) > t \<and> length b > 24")
    case True
    with assms [of b] have "length b > 25" by (cases "length b \<le> 25") auto
    with 1 True shorten_body_shorter [of b] show ?thesis
      by (simp add: summary_loop.simps [of ct t b])
  next
    case False
    then show ?thesis by (auto simp: summary_loop.simps [of ct t b])
  qed
qed

section \<open>Registry laws\<close>

definition registry_inv :: "strategy_registry \<Rightarrow> bool" where
  "registry_inv r \<longleftrightarrow> jm_wf r \<and> (\<forall>(k, vs) \<in> set r. vs \<noteq> [] \<and> sorted (map strategy_rank vs))"

definition strategy_fresh :: "context_strategy \<Rightarrow> strategy_registry \<Rightarrow> bool" where
  "strategy_fresh s r \<longleftrightarrow> trim (sid s) \<noteq> []
     \<and> (\<forall>(k, vs) \<in> set r. \<forall>x \<in> set vs. sref x \<noteq> sref s)"

definition register_ok :: "context_strategy \<Rightarrow> strategy_registry \<Rightarrow> strategy_registry" where
  "register_ok s r = (case registry_register s r of Inl _ \<Rightarrow> r | Inr r' \<Rightarrow> r')"

lemma remove_first_ref_remove1:
  "(\<forall>x \<in> set xs. sref x = sref s \<longrightarrow> x = s) \<Longrightarrow> remove_first_ref s xs = remove1 s xs"
  by (induction xs) auto

lemma jm_set_same: "jm_get m k = Some v \<Longrightarrow> jm_set k v m = m"
  by (induction m) (auto split: if_splits)

lemma jm_delete_set: "k \<notin> set (jm_keys m) \<Longrightarrow> jm_delete k (jm_set k v m) = m"
  by (induction m) (auto simp: jm_delete_Cons jm_delete_def)

interpretation strategies: cleanup_registry register_ok registry_cleanup strategy_fresh registry_inv
proof
  fix r :: strategy_registry and s :: context_strategy
  assume inv: "registry_inv r" and fresh: "strategy_fresh s r"
  then have id: "trim (sid s) \<noteq> []" by (simp add: strategy_fresh_def)
  let ?vs = "case jm_get r (sid s) of None \<Rightarrow> [] | Some vs \<Rightarrow> vs"
  let ?new = "sort_key strategy_rank (?vs @ [s])"
  have reg: "register_ok s r = jm_set (sid s) ?new r"
    using id by (simp add: register_ok_def registry_register_def)
  have vs: "sorted (map strategy_rank ?vs)" "\<forall>x \<in> set ?vs. sref x \<noteq> sref s"
    using inv fresh jm_get_in_set [of r "sid s"]
    by (cases "jm_get r (sid s)"; fastforce simp: registry_inv_def strategy_fresh_def)+
  have "?new \<noteq> []" by (metis length_sort length_append_singleton list.size(3) nat.distinct(1))
  with inv show "registry_inv (register_ok s r)"
    unfolding reg registry_inv_def
    by (auto dest!: in_set_jm_setD simp del: sort_key_simps set_sort)
  have "\<forall>x \<in> set ?new. sref x = sref s \<longrightarrow> x = s" using vs(2) by auto
  then have "remove_first_ref s ?new = remove1 s ?new" by (rule remove_first_ref_remove1)
  also have "\<dots> = ?vs" using vs by (intro remove1_sort_key_snoc) auto
  finally have rem: "remove_first_ref s ?new = ?vs" .
  show "registry_cleanup s (register_ok s r) = r"
  proof (cases "jm_get r (sid s)")
    case None
    then have "sid s \<notin> set (jm_keys r)" by (simp add: jm_get_None_iff)
    with None rem show ?thesis
      unfolding reg registry_cleanup_def by (simp add: jm_delete_set)
  next
    case (Some vs)
    then have "vs \<noteq> []" using inv by (auto simp: registry_inv_def dest!: jm_get_in_set)
    with Some rem show ?thesis
      unfolding reg registry_cleanup_def by (simp add: jm_set_twice jm_set_same)
  qed
qed

section \<open>Manual exclusions\<close>

lemma manual_set_mem:
  assumes "m \<in> set messages" and "mid m = Some i" and "i \<in> set selected"
    and "l \<in> set (linkedToolMessages messages m)" and "\<not> isProtectedMessage l"
  shows "mem_ref (manual_set messages selected) l"
proof -
  let ?f = "\<lambda>m acc. case mid m of None \<Rightarrow> acc
       | Some i \<Rightarrow> if i \<notin> set selected then acc
           else fold add_removed (filter (\<lambda>l. \<not> isProtectedMessage l) (linkedToolMessages messages m)) acc"
  have mono: "mem_ref acc x \<Longrightarrow> mem_ref (fold ?f ms acc) x" for ms acc x
    by (induction ms arbitrary: acc) (auto split: option.split)
  have "mem_ref (fold ?f ms acc) l" if "m \<in> set ms" for ms acc
    using that
  proof (induction ms arbitrary: acc)
    case (Cons x ms)
    show ?case
    proof (cases "x = m")
      case True
      have "mem_ref (?f m acc) l" using assms by (simp add: mem_ref_set)
      with True show ?thesis by (simp add: mono)
    qed (use Cons in simp)
  qed simp
  with assms(1) show ?thesis by (simp add: manual_set_def)
qed

lemma dedupe_mem [simp]: "mem_ref (dedupeMessages ms) x \<longleftrightarrow> mem_ref ms x"
  by (simp add: dedupeMessages_def)

section \<open>Properties\<close>

definition example_message :: "nat \<Rightarrow> role \<Rightarrow> string option \<Rightarrow> string option \<Rightarrow> prompt_message" where
  "example_message n r i p =
     \<lparr>mref = n, mid = i, role = r, content = ''0123456789'', mname = None, pinned = None,
      pairId = p, source = Some SrcHistory, relevance = None\<rparr>"

definition example_chat :: "prompt_message list" where
  "example_chat =
     [example_message 0 System None None \<lparr>source := Some SrcSystem\<rparr>,
      example_message 1 User None None,
      example_message 2 Assistant None (Some ''x''), example_message 3 Tool None (Some ''x''),
      example_message 4 User (Some ''u'') None]"

lemma add_removed_distinct:
  "distinct (map mref ex) \<Longrightarrow> distinct (map mref (add_removed m ex))"
  by (auto simp: add_removed_def mem_ref_def list_ex_iff)

lemma fold_add_distinct:
  "distinct (map mref ex) \<Longrightarrow> distinct (map mref (fold add_removed ms ex))"
  by (induction ms arbitrary: ex) (simp_all add: add_removed_distinct)

lemma loop_distinct:
  "distinct (map mref removed) \<Longrightarrow> distinct (map mref (shift_loop ct ov b messages ms tot removed))"
  by (induction ct ov b messages ms tot removed rule: shift_loop.induct)
     (simp_all add: Let_def fold_add_distinct)

text \<open>C24: shifting only ever removes unprotected messages: \<open>kept\<close> is the input without
  \<open>excluded\<close>, in its order, the excluded messages are listed once each, a message is kept or
  excluded and never both, and a pinned message or host system message is always kept.\<close>

theorem shift_keeps_protected:
  assumes "refs_ok ms"
  shows "kept (shiftContext ms ct b opt)
      = filter (\<lambda>m. m \<notin> set (excluded (shiftContext ms ct b opt))) ms
    \<and> distinct (excluded (shiftContext ms ct b opt))
    \<and> set (kept (shiftContext ms ct b opt)) \<inter> set (excluded (shiftContext ms ct b opt)) = {}
    \<and> set (kept (shiftContext ms ct b opt)) \<union> set (excluded (shiftContext ms ct b opt)) = set ms
    \<and> (\<forall>m \<in> set ms. isProtectedMessage m \<longrightarrow> m \<in> set (kept (shiftContext ms ct b opt)))"
proof -
  have "kept (shiftContext ms ct b opt)
      = filter (\<lambda>m. m \<notin> set (excluded (shiftContext ms ct b opt))) ms"
    unfolding shiftContext_simps(1) remaining_def
    by (rule filter_cong) (simp_all add: mem_ref_excluded [OF assms])
  moreover have "distinct (map mref (excluded (shiftContext ms ct b opt)))"
    by (simp add: shiftContext_def Let_def loop_distinct)
  then have "distinct (excluded (shiftContext ms ct b opt))" by (simp add: distinct_map)
  ultimately show ?thesis using excluded_elements [of _ ms ct b opt] by auto
qed

theorem shift_keeps_protected_witness:
  "example_message 0 System None None \<lparr>source := Some SrcSystem\<rparr>
     \<in> set (kept (shiftContext example_chat (\<lambda>s. int (length s)) 0 no_options))"
proof -
  have refs: "refs_ok example_chat"
    by (simp add: refs_ok_def example_chat_def example_message_def)
  show ?thesis
    by (rule shift_keeps_protected [OF refs, THEN conjunct2, THEN conjunct2, THEN conjunct2, THEN conjunct2, rule_format])
       (simp_all add: example_chat_def example_message_def isProtectedMessage_def)
qed

text \<open>The estimate is the token count of the kept messages, \<open>fitsBudget\<close> says whether it
  is within the budget, and when it is not, nothing removable is left: the linked group of every
  unprotected message contains a protected one or has been excluded whole.\<close>

theorem shift_gives_up_last:
  "estimatedTokens (shiftContext ms ct b opt) = total_for ct
      (case perMessageOverhead opt of None \<Rightarrow> 4 | Some n \<Rightarrow> n) (kept (shiftContext ms ct b opt))
   \<and> (fitsBudget (shiftContext ms ct b opt) \<longleftrightarrow> estimatedTokens (shiftContext ms ct b opt) \<le> b)
   \<and> (\<not> fitsBudget (shiftContext ms ct b opt) \<longrightarrow>
        (\<forall>m \<in> set ms. \<not> isProtectedMessage m \<longrightarrow>
           list_ex isProtectedMessage (linkedToolMessages ms m)
           \<or> (\<forall>x \<in> set (linkedToolMessages ms m). mem_ref (excluded (shiftContext ms ct b opt)) x)))"
proof -
  let ?ov = "case perMessageOverhead opt of None \<Rightarrow> 4 | Some n \<Rightarrow> n"
  have "total_for ct ?ov ms = total_for ct ?ov (remaining ms [])" by (simp add: remaining_def)
  from loop_gives_up_last [OF this, of b "removal_order opt ms"]
  show ?thesis
    by (auto simp: shiftContext_def Let_def set_removal_order)
qed

theorem shift_gives_up_last_witness:
  "mem_ref (excluded (shiftContext example_chat (\<lambda>s. int (length s)) 0 no_options))
     (example_message 3 Tool None (Some ''x''))"
proof -
  let ?r = "shiftContext example_chat (\<lambda>s. int (length s)) 0 no_options"
  have "\<not> fitsBudget ?r" by code_simp
  with shift_gives_up_last [of example_chat "\<lambda>s. int (length s)" 0 no_options]
  have "\<forall>m \<in> set example_chat. \<not> isProtectedMessage m \<longrightarrow>
      list_ex isProtectedMessage (linkedToolMessages example_chat m)
      \<or> (\<forall>x \<in> set (linkedToolMessages example_chat m). mem_ref (excluded ?r) x)" by blast
  then show ?thesis
    by (simp add: example_chat_def example_message_def isProtectedMessage_def linkedToolMessages_def)
qed

text \<open>When all assistant and tool messages carry a pair id, shifting never separates a
  tool call from its result: messages of one pair are excluded together or kept together.\<close>

theorem shift_keeps_tool_pairs:
  assumes "\<forall>c \<in> set ms. role c = Assistant \<or> role c = Tool \<longrightarrow> pairId c \<noteq> None \<and> pairId c \<noteq> Some []"
    and "x \<in> set (excluded (shiftContext ms ct b opt))" and "y \<in> set ms"
    and "role x \<in> {Assistant, Tool}" and "role y \<in> {Assistant, Tool}" and "pairId x = pairId y"
  shows "mem_ref (excluded (shiftContext ms ct b opt)) y"
  using loop_pairs [OF assms(1), of "removal_order opt ms" "[]" x ct _ b _ y] assms
  by (auto simp: shiftContext_def Let_def set_removal_order)

theorem shift_keeps_tool_pairs_witness:
  "mem_ref (excluded (shiftContext example_chat (\<lambda>s. int (length s)) 50 no_options))
     (example_message 3 Tool None (Some ''x''))"
proof (rule shift_keeps_tool_pairs)
  show "\<forall>c \<in> set example_chat. role c = Assistant \<or> role c = Tool
      \<longrightarrow> pairId c \<noteq> None \<and> pairId c \<noteq> Some []"
    by (simp add: example_chat_def example_message_def)
  show "example_message 2 Assistant None (Some ''x'')
      \<in> set (excluded (shiftContext example_chat (\<lambda>s. int (length s)) 50 no_options))"
    by code_simp
qed (simp_all add: example_chat_def example_message_def)

text \<open>With pair ids on some tool messages only, shifting can separate a pair: an assistant
  call is dropped for the unpaired tool message behind it while its pinned, linked result stays.\<close>

theorem shift_separates_mixed_pairs:
  "\<exists>ms call res. refs_ok ms \<and> call \<in> set ms \<and> res \<in> set ms
     \<and> role call = Assistant \<and> role res = Tool \<and> pairId call = Some ''x'' \<and> pairId res = Some ''x''
     \<and> isProtectedMessage res
     \<and> call \<in> set (excluded (shiftContext ms (\<lambda>s. int (length s)) 20 no_options))
     \<and> res \<in> set (kept (shiftContext ms (\<lambda>s. int (length s)) 20 no_options))"
proof -
  let ?call = "example_message 0 Assistant None (Some ''x'')"
  let ?res = "example_message 2 Tool None (Some ''x'') \<lparr>pinned := Some True\<rparr>"
  let ?ms = "[?call, example_message 1 Tool None None, ?res]"
  have "refs_ok ?ms" by (simp add: refs_ok_def example_message_def)
  moreover have "?call \<in> set (excluded (shiftContext ?ms (\<lambda>s. int (length s)) 20 no_options))"
    by code_simp
  moreover have "?res \<in> set (kept (shiftContext ?ms (\<lambda>s. int (length s)) 20 no_options))"
    by code_simp
  moreover have "isProtectedMessage ?res" by (simp add: isProtectedMessage_def)
  ultimately show ?thesis
    by (intro exI [of _ ?ms] exI [of _ ?call] exI [of _ ?res]) (simp add: example_message_def)
qed

text \<open>The loop that shortens a summary does not end when the shortest text it can reach
  is still over the target: a body of 25 to 34 characters is cut to 24 and extended by the
  ellipsis to 25, which the loop cuts to itself again.\<close>

theorem summary_loop_diverges:
  assumes "25 \<le> length body" and "length body \<le> 34" and "\<not> is_ws (body ! 23)"
    and "countTokens (summary_prefix @ body) > targetTokens"
    and "countTokens (summary_prefix @ take 24 body @ [ellipsis]) > targetTokens"
  shows "summary_loop countTokens targetTokens body = None"
proof -
  have "summary_loop countTokens targetTokens (take 24 body @ [ellipsis]) = None"
    using assms shorten_body_fixpoint [OF assms(1-3)] by (intro summary_loop_stuck) auto
  then show ?thesis
    using assms shorten_body_fixpoint [OF assms(1-3)] by (simp add: summary_loop.simps [of _ _ body])
qed

theorem summary_loop_diverges_witness:
  "summary_loop (\<lambda>s. (int (length s) + 3) div 4) 8 ''user: 0123456789abcdefghijkl'' = None"
  by (rule summary_loop_diverges) (simp_all add: summary_prefix_def NEWLINE_def is_ws_def)

text \<open>The summary is always produced when the counter puts every text of the prefix and at
  most 25 further characters within the target.\<close>

theorem summary_loop_ends:
  assumes "\<And>b. length b \<le> 25 \<Longrightarrow> countTokens (summary_prefix @ b) \<le> summary_target budgetTokens"
  shows "\<exists>s. buildExtractiveSummary messages countTokens (summary_target budgetTokens) = Some s"
  unfolding buildExtractiveSummary_def by (rule summary_loop_returns) (rule assms)

theorem summary_loop_ends_witness:
  "\<exists>s. buildExtractiveSummary example_chat (\<lambda>s. (int (length s) + 3) div 4) (summary_target 400) = Some s"
  by (rule summary_loop_ends) (simp add: summary_prefix_def NEWLINE_def summary_target_400)

text \<open>With the manual strategy every unprotected message linked to a message the user
  selected is excluded, whatever the budget.\<close>

theorem manual_excludes_selected:
  assumes "m \<in> set (req_messages q)" and "mid m = Some i"
    and "req_manualExcludedIds q = Some ids" and "i \<in> set ids"
    and "l \<in> set (linkedToolMessages (req_messages q) m)" and "l \<in> set (req_messages q)"
    and "\<not> isProtectedMessage l"
  shows "mem_ref (excluded (manualStrategy q)) l"
proof -
  have "mem_ref (manual_set (req_messages q) ids) l"
    using assms by (intro manual_set_mem [of m]) auto
  then have "mem_ref (filter (mem_ref (manual_set (req_messages q) ids)) (req_messages q)) l"
    using assms(6) by (intro mem_ref_set) simp
  then show ?thesis using assms(3)
    by (simp add: manualStrategy_def Let_def) (auto simp: mem_ref_def list_ex_iff)
qed

theorem manual_excludes_selected_witness:
  "mem_ref (excluded (manualStrategy \<lparr>req_messages = example_chat,
      req_countTokens = (\<lambda>s. int (length s)), req_budgetTokens = 1000,
      req_manualExcludedIds = Some [''u'']\<rparr>)) (example_message 4 User (Some ''u'') None)"
  by (rule manual_excludes_selected [of "example_message 4 User (Some ''u'') None" _ "''u''" "[''u'']"])
     (simp_all add: example_chat_def example_message_def linkedToolMessages_def isProtectedMessage_def)

text \<open>Registering strategies and running their cleanups in the opposite order leaves the
  registry as it was, so an overriding plugin strategy gives way to the previous one.\<close>

theorem strategy_cleanup_restores:
  assumes "registry_inv r" and "strategy_fresh s r" and "strategy_fresh t (register_ok s r)"
  shows "registry_cleanup s (registry_cleanup t (register_ok t (register_ok s r))) = r"
  using strategies.nested_cleanup [of r "[s, t]"] assms by simp

theorem strategy_cleanup_restores_witness:
  "registry_cleanup (ContextStrategy 8 ''truncate'' (Some 5) (\<lambda>q. None))
    (registry_cleanup (ContextStrategy 9 ''mine'' None (\<lambda>q. None))
      (register_ok (ContextStrategy 9 ''mine'' None (\<lambda>q. None))
        (register_ok (ContextStrategy 8 ''truncate'' (Some 5) (\<lambda>q. None)) (new_registry True))))
    = new_registry True"
  by (rule strategy_cleanup_restores)
     (simp_all add: registry_inv_def strategy_fresh_def new_registry_def builtin_strategies_def
        registry_register_def register_ok_def strategy_rank_def trim_def trimStart_def trimEnd_def
        is_ws_def)

end
