(* ===== verification/Prompt_Template.thy ===== *)
theory Prompt_Template
  imports Context_Shift Lru_Cache "HOL-Library.Sublist"
begin

text \<open>
  What the prompt pipeline is configured with: the blocks of a prompt template
  (\<^verbatim>\<open>packages/contracts/src/promptTemplate.ts\<close>), macro substitution
  (\<^verbatim>\<open>packages/shared/src/macros.ts\<close>) and instruct formats
  (\<^verbatim>\<open>apps/server/src/pipeline/instruct.ts\<close>). The Handlebars compiler is a parameter; the
  module-level cache of compiled templates is the cache of \<open>Lru_Cache\<close>.

  Shown: normalising the block order gives a complete order and keeps every block; a text
  without macros is untouched, and a macro named like a property of \<open>Object.prototype\<close> is
  not; rendering through the template cache is rendering without it; exporting and importing a
  format gives the format back.
\<close>

section \<open>Prompt blocks\<close>

datatype template_mode = ChatMode | TextMode

definition PromptBlockIds :: "string list" where
  "PromptBlockIds =
     [''main-prompt'', ''world-info-before'', ''persona'', ''character-description'',
      ''character-personality'', ''scenario'', ''world-info-after'', ''dialogue-examples'',
      ''memory'', ''authors-note'', ''chat-history'', ''post-history-instructions'']"

definition TerminalPromptBlockIds :: "string list" where
  "TerminalPromptBlockIds = [''chat-history'', ''post-history-instructions'']"

datatype injection_position = Relative | InChat

datatype trigger = Normal | Continue | Impersonate | Swipe | Regenerate | Quiet

definition PromptTriggerIds :: "trigger list" where
  "PromptTriggerIds = [Normal, Continue, Impersonate, Swipe, Regenerate, Quiet]"

record prompt_block =
  bid :: string
  enabled :: bool
  bname :: "string option"
  brole :: "role option"
  bcontent :: "string option"
  injectionPosition :: "injection_position option"
  injectionDepth :: "nat option"
  injectionOrder :: "nat option"
  triggers :: "trigger list option"
  bmodel :: "string option"
  forbidOverrides :: "bool option"

record prompt_template =
  mode :: template_mode
  blocks :: "prompt_block list"
  template_postHistory :: string

definition plain_block :: "string \<Rightarrow> prompt_block" where
  "plain_block i =
     \<lparr>bid = i, enabled = True, bname = None, brole = None, bcontent = None,
      injectionPosition = None, injectionDepth = None, injectionOrder = None, triggers = None,
      bmodel = None, forbidOverrides = None\<rparr>"

definition APOS :: string where
  "APOS = [CHR 0x27]"

definition DEFAULT_PROMPT_TEMPLATE :: prompt_template where
  "DEFAULT_PROMPT_TEMPLATE =
     \<lparr>mode = ChatMode,
      blocks = map (\<lambda>i. if i = ''main-prompt''
          then (plain_block i)\<lparr>brole := Some System,
             bcontent := Some (''Write {{char}}'' @ APOS
               @ ''s next reply in a fictional chat between {{char}} and {{user}}.''),
             injectionPosition := Some Relative, triggers := Some PromptTriggerIds,
             forbidOverrides := Some False\<rparr>
          else plain_block i) PromptBlockIds,
      template_postHistory = ''Keep the roleplay engaging. Drive the story forward proactively while staying in character.''\<rparr>"

definition isCorePromptBlockId :: "string \<Rightarrow> bool" where
  "isCorePromptBlockId i = (i \<in> set PromptBlockIds)"

definition isTerminalPromptBlockId :: "string \<Rightarrow> bool" where
  "isTerminalPromptBlockId i = (i \<in> set TerminalPromptBlockIds)"

definition hasRequiredPromptBlocks :: "prompt_block list \<Rightarrow> bool" where
  "hasRequiredPromptBlocks bs =
     (if length bs < length PromptBlockIds then False
      else let ids = remdups (map bid bs)
           in length ids = length bs \<and> list_all (\<lambda>i. i \<in> set ids) PromptBlockIds)"

definition normalizePromptBlockOrder :: "prompt_block list \<Rightarrow> prompt_block list" where
  "normalizePromptBlockOrder bs =
     filter (\<lambda>b. \<not> isTerminalPromptBlockId (bid b)) bs
     @ concat (map (\<lambda>i. case find (\<lambda>c. bid c = i) bs of None \<Rightarrow> [] | Some b \<Rightarrow> [b])
                 TerminalPromptBlockIds)"

definition hasCompletePromptBlockOrder :: "prompt_block list \<Rightarrow> bool" where
  "hasCompletePromptBlockOrder bs =
     (hasRequiredPromptBlocks bs
      \<and> (let terminal = drop (length bs - length TerminalPromptBlockIds) bs
         in list_all (\<lambda>(i, k). k < length terminal \<and> bid (terminal ! k) = i)
              (zip TerminalPromptBlockIds [0..<length TerminalPromptBlockIds])))"

section \<open>Macros\<close>

text \<open>The local time a \<open>Date\<close> shows; \<open>dayOfWeek\<close> is 0 for Sunday.\<close>

record local_time =
  fullYear :: nat
  month0 :: nat
  dayOfMonth :: nat
  hours :: nat
  minutes :: nat
  dayOfWeek :: nat

record macro_context =
  m_userName :: string
  m_charName :: string
  variables :: "(string, string) jmap option"
  m_now :: local_time

text \<open>\<open>Math.random\<close>: the k-th draw, in the interval from 0 to 1.\<close>

type_synonym draws = "nat \<Rightarrow> rat"

definition ascii_lower :: "char \<Rightarrow> char" where
  "ascii_lower c =
     (let n = of_char c :: nat in if 65 \<le> n \<and> n \<le> 90 then char_of (n + 32) else c)"

definition is_word_char :: "char \<Rightarrow> bool" where
  "is_word_char c =
     (let n = of_char c :: nat in
      48 \<le> n \<and> n \<le> 57 \<or> 65 \<le> n \<and> n \<le> 90 \<or> 97 \<le> n \<and> n \<le> 122 \<or> n = 95 \<or> n = 45)"

definition OPENING :: string where
  "OPENING = ''{{''"

definition CLOSING :: string where
  "CLOSING = ''}}''"

text \<open>\<open>RANDOM_RE\<close> and \<open>VAR_RE\<close> at the start of a text: the captured group and the rest.\<close>

definition match_random :: "string \<Rightarrow> (string \<times> string) option" where
  "match_random s =
     (if \<not> startsWith s OPENING then None
      else let r1 = dropWhile is_ws (drop 2 s) in
        if map ascii_lower (take 6 r1) \<noteq> ''random'' then None
        else (case dropWhile is_ws (drop 6 r1) of
                [] \<Rightarrow> None
              | c # r2 \<Rightarrow>
                  (let body = takeWhile (\<lambda>x. x \<noteq> CHR ''}'') r2; r3 = drop (length body) r2
                   in if c = CHR '':'' \<and> body \<noteq> [] \<and> startsWith r3 CLOSING
                      then Some (body, drop 2 r3) else None)))"

definition match_var :: "string \<Rightarrow> (string \<times> string) option" where
  "match_var s =
     (if \<not> startsWith s OPENING then None
      else let r1 = dropWhile is_ws (drop 2 s); key = takeWhile is_word_char r1;
               r2 = dropWhile is_ws (drop (length key) r1)
           in if key \<noteq> [] \<and> startsWith r2 CLOSING then Some (key, drop 2 r2) else None)"

definition random_choice :: "rat \<Rightarrow> string \<Rightarrow> string" where
  "random_choice draw body =
     (let options = filter (\<lambda>p. length p > 0) (map trim (split_char (CHR ''~'') body))
      in if length options = 0 then []
         else case js_at options \<lfloor>draw * of_nat (length options)\<rfloor> of None \<Rightarrow> [] | Some v \<Rightarrow> v)"

text \<open>The global \<open>replace\<close>: the first argument counts the characters of the match still to be
  skipped.\<close>

fun replace_random :: "draws \<Rightarrow> nat \<Rightarrow> nat \<Rightarrow> string \<Rightarrow> string" where
  "replace_random rnd k skip [] = []"
| "replace_random rnd k (Suc skip) (c # s) = replace_random rnd k skip s"
| "replace_random rnd k 0 (c # s) =
     (case match_random (c # s) of
        None \<Rightarrow> c # replace_random rnd k 0 s
      | Some (body, rest) \<Rightarrow>
          random_choice (rnd k) body @ replace_random rnd (Suc k) (length s - length rest) s)"

definition pad2 :: "nat \<Rightarrow> string" where
  "pad2 n = (if n < 10 then ''0'' @ digits_of_nat n else digits_of_nat n)"

definition weekday_name :: "nat \<Rightarrow> string" where
  "weekday_name d =
     ([''Sunday'', ''Monday'', ''Tuesday'', ''Wednesday'', ''Thursday'', ''Friday'', ''Saturday'']
       ! (d mod 7))"

text \<open>\<open>variables?.[key]\<close> reads the prototype chain as well; the value is turned into a text by
  \<open>replace\<close>. The names of \<open>Object.prototype\<close> that a macro can spell:\<close>

definition prototype_methods :: "string list" where
  "prototype_methods =
     [''toString'', ''toLocaleString'', ''valueOf'', ''hasOwnProperty'', ''isPrototypeOf'',
      ''propertyIsEnumerable'', ''__defineGetter__'', ''__defineSetter__'', ''__lookupGetter__'',
      ''__lookupSetter__'']"

definition native_text :: "string \<Rightarrow> string" where
  "native_text f = ''function '' @ f @ ''() { [native code] }''"

definition prototype_text :: "string \<Rightarrow> string option" where
  "prototype_text k =
     (if k = ''constructor'' then Some (native_text ''Object'')
      else if k = ''__proto__'' then Some ''[object Object]''
      else if k \<in> set prototype_methods then Some (native_text k) else None)"

definition variable_text :: "macro_context \<Rightarrow> string \<Rightarrow> string option" where
  "variable_text ctx key =
     (case variables ctx of None \<Rightarrow> None
      | Some vs \<Rightarrow> (case jm_get vs key of Some v \<Rightarrow> Some v | None \<Rightarrow> prototype_text key))"

definition date_text :: "local_time \<Rightarrow> string" where
  "date_text t = digits_of_nat (fullYear t) @ ''-'' @ pad2 (month0 t + 1) @ ''-'' @ pad2 (dayOfMonth t)"

definition time_text :: "local_time \<Rightarrow> string" where
  "time_text t = pad2 (hours t) @ '':'' @ pad2 (minutes t)"

definition macro_value :: "macro_context \<Rightarrow> string \<Rightarrow> string \<Rightarrow> string" where
  "macro_value ctx matched key =
     (let k = map ascii_lower key; t = m_now ctx in
      if k = ''user'' then m_userName ctx
      else if k = ''char'' then m_charName ctx
      else if k = ''time'' then time_text t
      else if k = ''date'' then date_text t
      else if k = ''datetime'' then date_text t @ '' '' @ time_text t
      else if k = ''year'' then digits_of_nat (fullYear t)
      else if k = ''month'' then pad2 (month0 t + 1)
      else if k = ''day'' then pad2 (dayOfMonth t)
      else if k = ''hour'' then pad2 (hours t)
      else if k = ''minute'' then pad2 (minutes t)
      else if k = ''weekday'' then weekday_name (dayOfWeek t)
      else if k = ''isnight'' then (if hours t \<ge> 22 \<or> hours t < 6 then ''true'' else ''false'')
      else case variable_text ctx key of None \<Rightarrow> matched | Some v \<Rightarrow> v)"

fun replace_vars :: "macro_context \<Rightarrow> nat \<Rightarrow> string \<Rightarrow> string" where
  "replace_vars ctx skip [] = []"
| "replace_vars ctx (Suc skip) (c # s) = replace_vars ctx skip s"
| "replace_vars ctx 0 (c # s) =
     (case match_var (c # s) of
        None \<Rightarrow> c # replace_vars ctx 0 s
      | Some (key, rest) \<Rightarrow>
          macro_value ctx (take (Suc (length s) - length rest) (c # s)) key
          @ replace_vars ctx (length s - length rest) s)"

definition replaceMacros :: "draws \<Rightarrow> string \<Rightarrow> macro_context \<Rightarrow> string" where
  "replaceMacros rnd s ctx = replace_vars ctx 0 (replace_random rnd 0 0 s)"

definition or_fallback :: "string option \<Rightarrow> string \<Rightarrow> string" where
  "or_fallback v fallback =
     (case v of None \<Rightarrow> fallback | Some s \<Rightarrow> if trim s = [] then fallback else trim s)"

definition buildMacroContext :: "string option \<Rightarrow> string option \<Rightarrow> (string, string) jmap option
    \<Rightarrow> local_time \<Rightarrow> macro_context" where
  "buildMacroContext userName charName vars now =
     \<lparr>m_userName = or_fallback userName ''User'', m_charName = or_fallback charName ''Assistant'',
      variables = vars, m_now = now\<rparr>"

section \<open>Instruct formats\<close>

record 's instruct_format =
  fid :: string
  fversion :: rat
  fsystem :: string
  fuser :: string
  fassistant :: string
  ftool :: string
  promptSuffix :: string
  stopStrings :: "'s list"

definition CONTENT :: string where
  "CONTENT = ''{{{content}}}''"

definition NL :: string where
  "NL = [CHR 0x0A]"

definition IM_START :: string where
  "IM_START = map char_of [60, 124, 105, 109, 95, 115, 116, 97, 114, 116, 124, 62 :: nat]"

definition IM_END :: string where
  "IM_END = map char_of [60, 124, 105, 109, 95, 101, 110, 100, 124, 62 :: nat]"

definition LLAMA_START :: string where
  "LLAMA_START = map char_of
     [60, 124, 115, 116, 97, 114, 116, 95, 104, 101, 97, 100, 101, 114, 124, 62 :: nat]"

definition LLAMA_END :: string where
  "LLAMA_END = map char_of [60, 124, 101, 111, 116, 95, 105, 100, 124, 62 :: nat]"

definition chatml_turn :: "string \<Rightarrow> string" where
  "chatml_turn r = IM_START @ r @ NL @ CONTENT @ IM_END @ NL"

definition llama_turn :: "string \<Rightarrow> string" where
  "llama_turn r = LLAMA_START @ r @ LLAMA_END @ NL @ CONTENT @ NL"

definition CHATML :: "string instruct_format" where
  "CHATML = \<lparr>fid = ''chatml'', fversion = 1, fsystem = chatml_turn ''system'',
     fuser = chatml_turn ''user'', fassistant = chatml_turn ''assistant'',
     ftool = chatml_turn ''tool'', promptSuffix = IM_START @ ''assistant'' @ NL,
     stopStrings = [IM_END]\<rparr>"

definition LLAMA3 :: "string instruct_format" where
  "LLAMA3 = \<lparr>fid = ''llama3'', fversion = 1, fsystem = llama_turn ''system'',
     fuser = llama_turn ''user'', fassistant = llama_turn ''assistant'',
     ftool = llama_turn ''tool'', promptSuffix = LLAMA_START @ ''assistant'' @ LLAMA_END @ NL,
     stopStrings = [LLAMA_END]\<rparr>"

definition ALPACA :: "string instruct_format" where
  "ALPACA = \<lparr>fid = ''alpaca'', fversion = 1,
     fsystem = ''### Instruction:'' @ NL @ CONTENT @ NL @ NL,
     fuser = ''### Input:'' @ NL @ CONTENT @ NL @ NL,
     fassistant = ''### Response:'' @ NL @ CONTENT @ NL @ NL,
     ftool = ''### Tool:'' @ NL @ CONTENT @ NL @ NL,
     promptSuffix = ''### Response:'' @ NL, stopStrings = [''###'']\<rparr>"

definition MISTRAL :: "string instruct_format" where
  "MISTRAL = \<lparr>fid = ''mistral'', fversion = 1,
     fsystem = ''[SYSTEM_PROMPT]'' @ CONTENT @ ''[/SYSTEM_PROMPT]'',
     fuser = ''[INST]'' @ CONTENT @ ''[/INST]'', fassistant = CONTENT @ ''</s>'',
     ftool = ''[TOOL_RESULTS]'' @ CONTENT @ ''[/TOOL_RESULTS]'',
     promptSuffix = [], stopStrings = [''</s>'']\<rparr>"

definition COMMAND_R_TURN :: string where
  "COMMAND_R_TURN = ''<|START_OF_TURN_TOKEN|>''"

definition COMMAND_R_END :: string where
  "COMMAND_R_END = ''<|END_OF_TURN_TOKEN|>''"

definition commandR :: "string \<Rightarrow> string" where
  "commandR roleToken = COMMAND_R_TURN @ roleToken @ CONTENT @ COMMAND_R_END"

definition COMMAND_R :: "string instruct_format" where
  "COMMAND_R = \<lparr>fid = ''command-r'', fversion = 1,
     fsystem = ''<BOS_TOKEN>'' @ commandR ''<|SYSTEM_TOKEN|>'',
     fuser = commandR ''<|USER_TOKEN|>'', fassistant = commandR ''<|CHATBOT_TOKEN|>'',
     ftool = commandR ''<|SYSTEM_TOKEN|>'',
     promptSuffix = COMMAND_R_TURN @ ''<|CHATBOT_TOKEN|>'', stopStrings = [COMMAND_R_END]\<rparr>"

definition BUILTIN :: "(string, string instruct_format) jmap" where
  "BUILTIN = [(''chatml'', CHATML), (''llama3'', LLAMA3), (''alpaca'', ALPACA),
     (''mistral'', MISTRAL), (''command-r'', COMMAND_R)]"

text \<open>The settings route only accepts the five ids, so that the lookup never reaches the
  prototype of the object.\<close>

definition getInstructFormat :: "string \<Rightarrow> string instruct_format" where
  "getInstructFormat i = (case jm_get BUILTIN i of Some f \<Rightarrow> f | None \<Rightarrow> CHATML)"

definition listInstructFormats :: "string instruct_format list" where
  "listInstructFormats = jm_values BUILTIN"

record instruct_message =
  irole :: role
  icontent :: string
  iname :: "string option"

text \<open>A compiled template: the rendered text, or \<open>None\<close> when the template throws.\<close>

type_synonym delegate = "instruct_message \<Rightarrow> string option"

definition compile :: "(string \<Rightarrow> delegate) \<Rightarrow> rat \<Rightarrow> string \<Rightarrow> delegate lru \<Rightarrow> delegate \<times> delegate lru" where
  "compile hb now src cache =
     (case lru_getOrCompute src (\<lambda>c. (Inr (hb src) :: unit + delegate, c)) now now cache of
        (Inr d, cache') \<Rightarrow> (d, cache') | (Inl _, cache') \<Rightarrow> (hb src, cache'))"

definition template_of :: "'s instruct_format \<Rightarrow> role \<Rightarrow> string" where
  "template_of f r =
     (case r of System \<Rightarrow> fsystem f | User \<Rightarrow> fuser f | Assistant \<Rightarrow> fassistant f
      | Tool \<Rightarrow> ftool f | Plugin \<Rightarrow> fuser f)"

fun render_messages :: "(string \<Rightarrow> delegate) \<Rightarrow> rat \<Rightarrow> 's instruct_format \<Rightarrow> instruct_message list
    \<Rightarrow> string \<Rightarrow> delegate lru \<Rightarrow> string option \<times> delegate lru" where
  "render_messages hb now f [] out cache = (Some out, cache)"
| "render_messages hb now f (m # ms) out cache =
     (let (d, cache') = compile hb now (template_of f (irole m)) cache
      in case d m of
           None \<Rightarrow> (None, cache')
         | Some t \<Rightarrow> render_messages hb now f ms (out @ t) cache')"

definition renderInstruct :: "(string \<Rightarrow> delegate) \<Rightarrow> rat \<Rightarrow> 's instruct_format \<Rightarrow> instruct_message list
    \<Rightarrow> delegate lru \<Rightarrow> string option \<times> delegate lru" where
  "renderInstruct hb now f ms cache =
     (let (out, cache') = render_messages hb now f ms [] cache
      in (map_option (\<lambda>t. t @ promptSuffix f) out, cache'))"

datatype format_error = RequiresStringId | MissingKey string

definition required_keys :: "string list" where
  "required_keys = [''system'', ''user'', ''assistant'', ''tool'', ''promptSuffix'']"

fun json_text :: "json option \<Rightarrow> string option" where
  "json_text (Some (JString s)) = Some s"
| "json_text _ = None"

definition importInstructFormat :: "json \<Rightarrow> format_error + json instruct_format" where
  "importInstructFormat input =
     (case json_text (json_field input ''id'') of
        None \<Rightarrow> Inl RequiresStringId
      | Some i \<Rightarrow>
          (case find (\<lambda>k. json_text (json_field input k) = None) required_keys of
             Some k \<Rightarrow> Inl (MissingKey k)
           | None \<Rightarrow> (let str = (\<lambda>k. the (json_text (json_field input k))) in
               Inr \<lparr>fid = i,
                 fversion = (case json_field input ''version'' of Some (JNum v) \<Rightarrow> v | _ \<Rightarrow> 1),
                 fsystem = str ''system'', fuser = str ''user'', fassistant = str ''assistant'',
                 ftool = str ''tool'', promptSuffix = str ''promptSuffix'',
                 stopStrings = (case json_field input ''stopStrings'' of
                    Some (JArray xs) \<Rightarrow> xs | _ \<Rightarrow> [])\<rparr>)))"

definition exportInstructFormat :: "'s instruct_format \<Rightarrow> 's instruct_format" where
  "exportInstructFormat f =
     \<lparr>fid = fid f, fversion = fversion f, fsystem = fsystem f, fuser = fuser f,
      fassistant = fassistant f, ftool = ftool f, promptSuffix = promptSuffix f,
      stopStrings = stopStrings f\<rparr>"

text \<open>The exported object as it is persisted.\<close>

definition format_to_json :: "json instruct_format \<Rightarrow> json" where
  "format_to_json f = JObject
     [(''id'', JString (fid f)), (''version'', JNum (fversion f)), (''system'', JString (fsystem f)),
      (''user'', JString (fuser f)), (''assistant'', JString (fassistant f)),
      (''tool'', JString (ftool f)), (''promptSuffix'', JString (promptSuffix f)),
      (''stopStrings'', JArray (stopStrings f))]"

section \<open>Lemmas\<close>

lemma distinct_iff_remdups: "length (remdups xs) = length xs \<longleftrightarrow> distinct xs"
  by (simp add: remdups_id_iff_distinct)

lemma required_blocks:
  assumes "hasRequiredPromptBlocks bs"
  shows "distinct (map bid bs)" and "length bs \<ge> length PromptBlockIds"
    and "i \<in> set PromptBlockIds \<Longrightarrow> \<exists>b \<in> set bs. bid b = i"
proof -
  have "length (remdups (map bid bs)) = length (map bid bs)" and len: "length bs \<ge> length PromptBlockIds"
    and all: "\<forall>i \<in> set PromptBlockIds. i \<in> set (remdups (map bid bs))"
    using assms unfolding hasRequiredPromptBlocks_def Let_def list_all_iff length_map
    by (auto simp only: not_less simp_thms split: if_splits)
  then show "distinct (map bid bs)" by (simp only: distinct_iff_remdups)
  show "length bs \<ge> length PromptBlockIds" by (rule len)
  show "i \<in> set PromptBlockIds \<Longrightarrow> \<exists>b \<in> set bs. bid b = i" using all by auto
qed

lemma find_Some_iff_unique:
  "distinct (map f xs) \<Longrightarrow> x \<in> set xs \<Longrightarrow> find (\<lambda>y. f y = f x) xs = Some x"
  by (induction xs) auto

lemma normalize_shape:
  assumes "hasRequiredPromptBlocks bs"
  obtains h p where "h \<in> set bs" "p \<in> set bs" "bid h = ''chat-history''"
    "bid p = ''post-history-instructions''"
    "normalizePromptBlockOrder bs = filter (\<lambda>b. \<not> isTerminalPromptBlockId (bid b)) bs @ [h, p]"
proof -
  have "''chat-history'' \<in> set PromptBlockIds" "''post-history-instructions'' \<in> set PromptBlockIds"
    by (simp_all add: PromptBlockIds_def)
  then obtain h p where hp: "h \<in> set bs" "p \<in> set bs" "bid h = ''chat-history''"
    "bid p = ''post-history-instructions''"
    using required_blocks(3) [OF assms] by meson
  then have "normalizePromptBlockOrder bs = filter (\<lambda>b. \<not> isTerminalPromptBlockId (bid b)) bs @ [h, p]"
    using find_Some_iff_unique [of bid bs h] find_Some_iff_unique [of bid bs p]
      required_blocks(1) [OF assms]
    by (simp add: normalizePromptBlockOrder_def TerminalPromptBlockIds_def)
  with hp that show thesis by blast
qed

lemma normalize_set:
  assumes "hasRequiredPromptBlocks bs"
  shows "set (normalizePromptBlockOrder bs) = set bs" and "distinct (map bid (normalizePromptBlockOrder bs))"
proof -
  obtain h p where hp: "h \<in> set bs" "p \<in> set bs" "bid h = ''chat-history''"
    "bid p = ''post-history-instructions''"
    and n: "normalizePromptBlockOrder bs = filter (\<lambda>b. \<not> isTerminalPromptBlockId (bid b)) bs @ [h, p]"
    using normalize_shape [OF assms] by metis
  have inj: "x = y" if "x \<in> set bs" "y \<in> set bs" "bid x = bid y" for x y
    using required_blocks(1) [OF assms] that by (auto simp: distinct_map inj_on_def)
  have "b = h \<or> b = p" if "b \<in> set bs" "isTerminalPromptBlockId (bid b)" for b
    using that inj [of b h] inj [of b p] hp
    by (auto simp: isTerminalPromptBlockId_def TerminalPromptBlockIds_def)
  with hp show "set (normalizePromptBlockOrder bs) = set bs" unfolding n by auto
  have "distinct (map bid (filter (\<lambda>b. \<not> isTerminalPromptBlockId (bid b)) bs))"
    using required_blocks(1) [OF assms] by (simp add: distinct_map_filter)
  with hp show "distinct (map bid (normalizePromptBlockOrder bs))" unfolding n
    by (auto simp: isTerminalPromptBlockId_def TerminalPromptBlockIds_def)
qed

lemma no_match:
  "\<not> startsWith s OPENING \<Longrightarrow> match_random s = None" "\<not> startsWith s OPENING \<Longrightarrow> match_var s = None"
  by (simp_all add: match_random_def match_var_def)

lemma startsWith_sublist: "startsWith s p \<Longrightarrow> sublist p s"
  unfolding startsWith_def by (metis sublist_take)

lemma replace_nothing:
  assumes "\<not> sublist OPENING s"
  shows "replace_random rnd k 0 s = s" and "replace_vars ctx 0 s = s"
  using assms
proof (induction s)
  case (Cons c s)
  {
    case 1
    then have "\<not> sublist OPENING s" and "\<not> startsWith (c # s) OPENING"
      using startsWith_sublist [of "c # s" OPENING] by (auto simp: sublist_Cons_right)
    with Cons show ?case by (simp add: no_match)
  next
    case 2
    then have "\<not> sublist OPENING s" and "\<not> startsWith (c # s) OPENING"
      using startsWith_sublist [of "c # s" OPENING] by (auto simp: sublist_Cons_right)
    with Cons show ?case by (simp add: no_match)
  }
qed simp_all

text \<open>Every entry of the template cache is the compilation of its key.\<close>

definition compiled_cache :: "(string \<Rightarrow> delegate) \<Rightarrow> delegate lru \<Rightarrow> bool" where
  "compiled_cache hb c \<longleftrightarrow> lru_inv c \<and> (\<forall>x \<in> set (lmap c). entry_value (snd x) = hb (fst x))"

lemma compiled_get:
  assumes "compiled_cache hb c"
  shows "compiled_cache hb (snd (lru_get k now c))"
    and "fst (lru_get k now c) = None \<or> fst (lru_get k now c) = Some (hb k)"
proof -
  have hit: "entry_value e = hb k" if "jm_get (lmap c) k = Some e" for e
    using assms jm_get_in_set [OF that] unfolding compiled_cache_def by fastforce
  then show "fst (lru_get k now c) = None \<or> fst (lru_get k now c) = Some (hb k)"
    by (simp add: lru_get_def split: option.split)
  have "x \<in> set (lmap c) \<or> fst x = k \<and> jm_get (lmap c) k = Some (snd x)"
    if "x \<in> set (lmap (snd (lru_get k now c)))" for x
    using that unfolding lru_get_def
    by (cases "jm_get (lmap c) k") (auto simp: in_set_jm_delete dest!: in_set_jm_setD split: if_splits)
  with assms lru_inv_get [of c k now] hit show "compiled_cache hb (snd (lru_get k now c))"
    unfolding compiled_cache_def by (metis fst_conv snd_conv)
qed

lemma compiled_set:
  assumes "compiled_cache hb c"
  shows "compiled_cache hb (lru_set k (hb k) now c)"
proof -
  have "x = (k, set_entry (hb k) now c) \<or> x \<in> set (lmap c)" if "x \<in> set (lmap (lru_set k (hb k) now c))" for x
    using that assms
    by (auto simp: compiled_cache_def lru_set_lmap Let_def in_set_jm_delete dest!: in_set_dropD)
  moreover have "entry_value (set_entry (hb k) now c) = hb k" by (simp add: set_entry_def)
  ultimately show ?thesis using assms lru_inv_set [of c k "hb k" now]
    unfolding compiled_cache_def by (metis fst_conv snd_conv)
qed

lemma compiled_compile:
  assumes "compiled_cache hb c"
  shows "fst (compile hb now src c) = hb src" and "compiled_cache hb (snd (compile hb now src c))"
proof -
  obtain r c1 where get: "lru_get src now c = (r, c1)" by fastforce
  with compiled_get [OF assms, of src now]
  have c1: "compiled_cache hb c1" and r: "r = None \<or> r = Some (hb src)" by auto
  from r show "fst (compile hb now src c) = hb src" and "compiled_cache hb (snd (compile hb now src c))"
    using get c1 compiled_set [OF c1, of src now]
    by (auto simp: compile_def lru_getOrCompute_def)
qed

text \<open>Rendering without a cache.\<close>

fun render_plain :: "(string \<Rightarrow> delegate) \<Rightarrow> 's instruct_format \<Rightarrow> instruct_message list \<Rightarrow> string option" where
  "render_plain hb f [] = Some (promptSuffix f)"
| "render_plain hb f (m # ms) =
     (case hb (template_of f (irole m)) m of None \<Rightarrow> None
      | Some t \<Rightarrow> map_option (\<lambda>r. t @ r) (render_plain hb f ms))"

lemma render_messages_plain:
  assumes "compiled_cache hb c"
  shows "map_option (\<lambda>t. t @ promptSuffix f) (fst (render_messages hb now f ms out c))
      = map_option (\<lambda>r. out @ r) (render_plain hb f ms)
    \<and> compiled_cache hb (snd (render_messages hb now f ms out c))"
  using assms
proof (induction ms arbitrary: out c)
  case (Cons m ms)
  obtain d c' where step: "compile hb now (template_of f (irole m)) c = (d, c')" by fastforce
  with compiled_compile [OF Cons.prems, of now "template_of f (irole m)"]
  have d: "d = hb (template_of f (irole m))" and c': "compiled_cache hb c'" by auto
  show ?case
  proof (cases "d m")
    case None
    with step d c' show ?thesis by simp
  next
    case (Some t)
    with step d Cons.IH [OF c', of "out @ t"] show ?thesis
      by (simp add: option.map_comp o_def)
  qed
qed simp

section \<open>Properties\<close>

text \<open>Normalising the block order of a template that has every host block yields a complete
  order (chat history penultimate, post-history instructions last) of exactly the same blocks,
  and normalising again changes nothing.\<close>

theorem normalized_order_complete:
  assumes "hasRequiredPromptBlocks bs"
  shows "hasCompletePromptBlockOrder (normalizePromptBlockOrder bs)
    \<and> mset (normalizePromptBlockOrder bs) = mset bs
    \<and> normalizePromptBlockOrder (normalizePromptBlockOrder bs) = normalizePromptBlockOrder bs"
proof -
  obtain h p where hp: "h \<in> set bs" "p \<in> set bs" "bid h = ''chat-history''"
    "bid p = ''post-history-instructions''"
    and n: "normalizePromptBlockOrder bs = filter (\<lambda>b. \<not> isTerminalPromptBlockId (bid b)) bs @ [h, p]"
    using normalize_shape [OF assms] by metis
  note set = normalize_set [OF assms]
  have ms: "mset (normalizePromptBlockOrder bs) = mset bs"
    using set required_blocks(1) [OF assms] by (metis distinct_map set_eq_iff_mset_eq_distinct)
  then have "size (mset (normalizePromptBlockOrder bs)) = size (mset bs)" by (rule arg_cong)
  then have len: "length (normalizePromptBlockOrder bs) = length bs" by (simp only: size_mset)
  have ids: "set (map bid (normalizePromptBlockOrder bs)) = set (map bid bs)"
    unfolding set_map set(1) ..
  have "hasRequiredPromptBlocks (normalizePromptBlockOrder bs)"
    using assms unfolding hasRequiredPromptBlocks_def Let_def len list_all_iff set_remdups ids
    by (simp only: distinct_remdups_id [OF set(2)] length_map len simp_thms split: if_splits) simp
  then have "hasCompletePromptBlockOrder (normalizePromptBlockOrder bs)"
    using hp(3,4) unfolding hasCompletePromptBlockOrder_def n
    by (simp add: TerminalPromptBlockIds_def upt_rec)
  moreover have "normalizePromptBlockOrder (normalizePromptBlockOrder bs) = normalizePromptBlockOrder bs"
  proof -
    have "filter (\<lambda>b. \<not> isTerminalPromptBlockId (bid b)) (normalizePromptBlockOrder bs)
        = filter (\<lambda>b. \<not> isTerminalPromptBlockId (bid b)) bs"
      using hp(3,4) unfolding n by (simp add: isTerminalPromptBlockId_def TerminalPromptBlockIds_def)
    moreover have "find (\<lambda>b. bid b = bid h) (normalizePromptBlockOrder bs) = Some h"
      "find (\<lambda>b. bid b = bid p) (normalizePromptBlockOrder bs) = Some p"
      using find_Some_iff_unique [OF set(2), of h] find_Some_iff_unique [OF set(2), of p]
      unfolding set(1) using hp(1,2) by blast+
    ultimately show ?thesis
      unfolding normalizePromptBlockOrder_def [of "normalizePromptBlockOrder bs"]
        TerminalPromptBlockIds_def hp(3,4)
      by (simp only: list.map concat.simps option.case append.simps append_Nil2 n)
  qed
  ultimately show ?thesis using ms by blast
qed

definition shuffled_blocks :: "prompt_block list" where
  "shuffled_blocks = rev (map plain_block PromptBlockIds)"

theorem normalized_order_complete_witness:
  "hasCompletePromptBlockOrder (normalizePromptBlockOrder shuffled_blocks)
    \<and> mset (normalizePromptBlockOrder shuffled_blocks) = mset shuffled_blocks
    \<and> normalizePromptBlockOrder (normalizePromptBlockOrder shuffled_blocks)
      = normalizePromptBlockOrder shuffled_blocks"
proof (rule normalized_order_complete)
  show "hasRequiredPromptBlocks shuffled_blocks" by code_simp
qed

text \<open>A text without an opening pair of braces is left as it is by macro substitution.\<close>

theorem plain_text_untouched:
  assumes "\<not> sublist ''{{'' s"
  shows "replaceMacros rnd s ctx = s"
  using assms replace_nothing [of s] by (simp add: replaceMacros_def OPENING_def)

theorem plain_text_untouched_witness:
  "replaceMacros (\<lambda>_. 0) ''a{b}''
     \<lparr>m_userName = ''u'', m_charName = ''c'', variables = None,
      m_now = \<lparr>fullYear = 2024, month0 = 0, dayOfMonth = 1, hours = 0, minutes = 0, dayOfWeek = 1\<rparr>\<rparr>
   = ''a{b}''"
  by (rule plain_text_untouched) (simp add: sublist_code)

text \<open>Once user variables are configured, a macro that no variable defines is not left
  untouched when its name is one of \<open>Object.prototype\<close>: its place is taken by the text of a
  native function.\<close>

theorem prototype_macro_leaks:
  assumes "jm_get vs ''constructor'' = None"
  shows "replaceMacros rnd ''{{constructor}}''
      \<lparr>m_userName = u, m_charName = c, variables = Some vs, m_now = now\<rparr>
    = ''function Object() { [native code] }''"
proof -
  have "match_random ''{{constructor}}'' = None" by code_simp
  moreover have "match_random ''{constructor}}'' = None" by code_simp
  moreover have "\<not> sublist OPENING ''constructor}}''" by code_simp
  ultimately have rand: "replace_random rnd 0 0 ''{{constructor}}'' = ''{{constructor}}''"
    using replace_nothing(1) [of "''constructor}}''" rnd 0] by simp
  have var: "match_var ''{{constructor}}'' = Some (''constructor'', [])" by code_simp
  have key: "map ascii_lower ''constructor'' = ''constructor''" by code_simp
  have "prototype_text ''constructor'' = Some ''function Object() { [native code] }''" by code_simp
  with assms have val: "variable_text \<lparr>m_userName = u, m_charName = c, variables = Some vs, m_now = now\<rparr>
      ''constructor'' = Some ''function Object() { [native code] }''"
    by (simp add: variable_text_def)
  show ?thesis
    unfolding replaceMacros_def rand
    by (simp add: var) (simp add: macro_value_def key val Let_def)
qed

theorem prototype_macro_leaks_witness:
  "replaceMacros (\<lambda>_. 0) ''{{constructor}}''
      \<lparr>m_userName = ''u'', m_charName = ''c'', variables = Some [(''mood'', ''calm'')],
       m_now = \<lparr>fullYear = 2024, month0 = 0, dayOfMonth = 1, hours = 0, minutes = 0, dayOfWeek = 1\<rparr>\<rparr>
    = ''function Object() { [native code] }''"
  by (rule prototype_macro_leaks) simp

text \<open>Rendering a prompt through the module's cache of compiled templates gives the text
  rendering without a cache gives, and keeps the cache right.\<close>

theorem template_cache_transparent:
  assumes "compiled_cache hb cache"
  shows "fst (renderInstruct hb now f ms cache) = render_plain hb f ms
    \<and> compiled_cache hb (snd (renderInstruct hb now f ms cache))"
proof -
  have "map_option (\<lambda>r. [] @ r) x = x" for x :: "string option" by (cases x) auto
  with render_messages_plain [OF assms, of f now ms "[]"] show ?thesis
    by (cases "render_messages hb now f ms [] cache") (simp add: renderInstruct_def)
qed

definition example_hb :: "string \<Rightarrow> delegate" where
  "example_hb src m = Some (src @ icontent m)"

definition empty_template_cache :: "delegate lru" where
  "empty_template_cache =
     \<lparr>lmap = [], maxSize = 256, ttlMs = None, hits = 0, misses = 0, evictions = 0, inFlight = [],
      computing = [], finalizing = [], nextPromise = 0\<rparr>"

theorem template_cache_transparent_witness:
  "fst (renderInstruct example_hb 0 CHATML
      [\<lparr>irole = User, icontent = ''hi'', iname = None\<rparr>] empty_template_cache)
    = render_plain example_hb CHATML [\<lparr>irole = User, icontent = ''hi'', iname = None\<rparr>]"
proof -
  have "compiled_cache example_hb empty_template_cache"
    by (simp add: compiled_cache_def lru_inv_def empty_template_cache_def)
  from template_cache_transparent [OF this] show ?thesis by blast
qed

text \<open>The cache the module creates is right, and an exported format is imported back; the
  stop strings of an imported preset are not checked to be strings.\<close>

lemma module_cache_right: "new_LruCache (jint 256) None = Inr empty_template_cache"
  by (simp add: new_LruCache_def empty_template_cache_def jint_def)

lemma format_roundtrip: "importInstructFormat (format_to_json (exportInstructFormat f)) = Inr f"
  by (simp add: importInstructFormat_def format_to_json_def exportInstructFormat_def required_keys_def)

lemma imported_stop_unchecked:
  "\<exists>input f. importInstructFormat input = Inr f \<and> stopStrings f = [JNum 1]"
proof -
  let ?f = "\<lparr>fid = ''x'', fversion = 1, fsystem = [], fuser = [], fassistant = [], ftool = [],
    promptSuffix = [], stopStrings = [JNum 1]\<rparr>"
  have "importInstructFormat (format_to_json (exportInstructFormat ?f)) = Inr ?f"
    by (rule format_roundtrip)
  then show ?thesis by fastforce
qed

end
