(* ===== verification/Post_Processing.thy ===== *)
theory Post_Processing
  imports Context_Shift "HOL-Library.Sublist"
begin

text \<open>
  The two post-processing stages of the pipeline: the reshaping of the provider message array
  (\<^verbatim>\<open>apps/server/src/pipeline/promptPostProcessing.ts\<close>) and the hooks that run over the
  finished assistant text (\<^verbatim>\<open>apps/server/src/pipeline/postProcess.ts\<close>). A hook is a parameter:
  a function from the text to what its promise does within the timeout.

  Shown: the strict mode yields a prompt whose first turn after an optional leading system
  message is a user turn, with no system message later on; neighbouring turns of one role are
  merged; no content is lost; a hook that fails, hangs or misbehaves leaves the text as it was.
\<close>

section \<open>Reshaping the message array\<close>

record generation_message =
  grole :: role
  gcontent :: string
  gname :: "string option"

record post_names =
  charName :: "string option"
  userName :: "string option"

datatype post_mode = Merge | MergeTools | Semi | SemiTools | Strict | StrictTools | Single

definition DEFAULT_PROMPT_PLACEHOLDER :: string where
  "DEFAULT_PROMPT_PLACEHOLDER = ''Let'' @ [CHR 0x27] @ ''s get started.''"

definition prefixOnce :: "string \<Rightarrow> string option \<Rightarrow> string" where
  "prefixOnce cont name =
     (case name of None \<Rightarrow> cont
      | Some n \<Rightarrow> if n = [] then cont
          else let pre = n @ '': '' in if startsWith cont pre then cont else pre @ cont)"

definition toMessage :: "role \<Rightarrow> string \<Rightarrow> generation_message" where
  "toMessage r c = \<lparr>grole = r, gcontent = c, gname = None\<rparr>"

definition normalize_message :: "post_names \<Rightarrow> bool \<Rightarrow> bool \<Rightarrow> generation_message \<Rightarrow> generation_message" where
  "normalize_message names single tools src =
     (let r0 = grole src; name = gname src; c0 = gcontent src;
          c1 = (if r0 = System \<and> name = Some ''example_assistant'' then prefixOnce c0 (charName names) else c0);
          c2 = (if r0 = System \<and> name = Some ''example_user'' then prefixOnce c1 (userName names) else c1);
          c3 = (if name \<noteq> None \<and> name \<noteq> Some [] \<and> r0 \<noteq> System then prefixOnce c2 name else c2);
          r1 = (if r0 = Tool \<and> \<not> tools then User else r0);
          r2 = (if r1 = Plugin then User else r1)
      in if single
         then let c4 = (if r2 = Assistant then prefixOnce c3 (charName names) else c3);
                  c5 = (if r2 = User then prefixOnce c4 (userName names) else c4)
              in toMessage User c5
         else toMessage r2 c3)"

definition PARAGRAPH :: string where
  "PARAGRAPH = [CHR 0x0A, CHR 0x0A]"

definition squash_step :: "generation_message list \<Rightarrow> generation_message \<Rightarrow> generation_message list" where
  "squash_step merged m =
     (if merged \<noteq> [] \<and> grole (last merged) = grole m \<and> gcontent m \<noteq> [] \<and> grole m \<noteq> Tool
      then butlast merged @ [(last merged)\<lparr>gcontent := gcontent (last merged) @ PARAGRAPH @ gcontent m\<rparr>]
      else merged @ [toMessage (grole m) (gcontent m)])"

definition squash :: "generation_message list \<Rightarrow> generation_message list" where
  "squash ms = foldl squash_step [] ms"

definition demote_system :: "generation_message list \<Rightarrow> generation_message list" where
  "demote_system ms =
     (case ms of [] \<Rightarrow> []
      | m # rest \<Rightarrow> m # map (\<lambda>x. if grole x = System then toMessage User (gcontent x) else x) rest)"

definition insert_placeholder :: "string \<Rightarrow> generation_message list \<Rightarrow> generation_message list" where
  "insert_placeholder placeholder merged =
     (case merged of [] \<Rightarrow> []
      | first # rest \<Rightarrow>
          (if grole first = System
              \<and> (case rest of [] \<Rightarrow> True | second # _ \<Rightarrow> grole second \<noteq> User)
           then first # toMessage User placeholder # rest
           else if grole first \<noteq> System \<and> grole first \<noteq> User
           then toMessage User placeholder # merged
           else merged))"

function mergeMessages :: "generation_message list \<Rightarrow> post_names \<Rightarrow> bool \<Rightarrow> bool \<Rightarrow> bool \<Rightarrow> bool \<Rightarrow> string
    \<Rightarrow> generation_message list" where
  "mergeMessages messages names strict placeholders single tools placeholder =
     (let squashed = squash (map (normalize_message names single tools) messages);
          merged = (if squashed = [] then [toMessage User placeholder] else squashed)
      in if strict
         then let demoted = demote_system merged;
                  filled = (if placeholders then insert_placeholder placeholder demoted else demoted)
              in mergeMessages filled names False placeholders False tools placeholder
         else merged)"
  by pat_completeness auto
termination
  by (relation "measure (\<lambda>(_, _, strict, _). if strict then 1 else 0)") auto

declare mergeMessages.simps [simp del]

definition postProcessMessages :: "generation_message list \<Rightarrow> post_mode option \<Rightarrow> post_names \<Rightarrow> string
    \<Rightarrow> generation_message list" where
  "postProcessMessages messages mode names placeholder =
     (case mode of
        Some Merge \<Rightarrow> mergeMessages messages names False False False False placeholder
      | Some MergeTools \<Rightarrow> mergeMessages messages names False False False True placeholder
      | Some Semi \<Rightarrow> mergeMessages messages names True False False False placeholder
      | Some SemiTools \<Rightarrow> mergeMessages messages names True False False True placeholder
      | Some Strict \<Rightarrow> mergeMessages messages names True True False False placeholder
      | Some StrictTools \<Rightarrow> mergeMessages messages names True True False True placeholder
      | Some Single \<Rightarrow> mergeMessages messages names True False True False placeholder
      | None \<Rightarrow> map (\<lambda>m. toMessage (grole m) (gcontent m)) messages)"

section \<open>Hooks on the final text\<close>

record post_context =
  ctx_chatId :: string
  ctx_characterId :: "string option"
  ctx_model :: string

text \<open>What the promise of a hook does: it may settle in time or still be pending at the timeout.\<close>

datatype hook_outcome =
  ReturnsString string | ReturnsOther | RejectsError string | RejectsOther | Pending

datatype post_processor =
  PostProcessor (pref: nat) (pid: string) (ppriority: "rat option") (timeoutMs: "nat option")
    (requiredPermission: "string option")
    (process: "string \<Rightarrow> post_context \<Rightarrow> hook_outcome")

datatype processor_error = EmptyProcessorId

definition MAX_POST_PROCESS_LENGTH :: nat where
  "MAX_POST_PROCESS_LENGTH = 200000"

definition processor_register :: "post_processor \<Rightarrow> post_processor list
    \<Rightarrow> processor_error + post_processor list" where
  "processor_register p ps = (if trim (pid p) = [] then Inl EmptyProcessorId else Inr (ps @ [p]))"

fun processor_cleanup :: "post_processor \<Rightarrow> post_processor list \<Rightarrow> post_processor list" where
  "processor_cleanup p [] = []"
| "processor_cleanup p (x # xs) = (if pref x = pref p then xs else x # processor_cleanup p xs)"

definition processors_ordered :: "post_processor list \<Rightarrow> post_processor list" where
  "processors_ordered ps = sort_key (\<lambda>p. case ppriority p of None \<Rightarrow> 100 | Some n \<Rightarrow> n) ps"

definition processors_size :: "post_processor list \<Rightarrow> nat" where
  "processors_size ps = length ps"

definition quoted :: "string \<Rightarrow> string" where
  "quoted s = [CHR 0x22] @ s @ [CHR 0x22]"

definition skip_note :: "string \<Rightarrow> string \<Rightarrow> string" where
  "skip_note i reason = ''post-process '' @ quoted i @ '' skipped ('' @ reason @ '')''"

text \<open>What the awaited \<open>withTimeout\<close> makes of the promise: the value or the caught error.\<close>

definition awaited :: "post_processor \<Rightarrow> string \<Rightarrow> post_context \<Rightarrow> hook_outcome" where
  "awaited p current ctx =
     (case process p current ctx of
        Pending \<Rightarrow> RejectsError (''Timed out after ''
          @ digits_of_nat (case timeoutMs p of None \<Rightarrow> 2000 | Some ms \<Rightarrow> ms) @ ''ms'')
      | r \<Rightarrow> r)"

definition hook_denied :: "(string \<Rightarrow> bool) option \<Rightarrow> post_processor \<Rightarrow> bool" where
  "hook_denied hasPermission p =
     (case requiredPermission p of None \<Rightarrow> False
      | Some perm \<Rightarrow> perm \<noteq> [] \<and> (case hasPermission of None \<Rightarrow> False | Some f \<Rightarrow> \<not> f perm))"

definition hook_result :: "post_context \<Rightarrow> post_processor \<Rightarrow> string \<Rightarrow> string \<times> string" where
  "hook_result ctx p current =
     (case awaited p current ctx of
        ReturnsString r \<Rightarrow>
          (if length r > MAX_POST_PROCESS_LENGTH then (current, skip_note (pid p) ''result too large'')
           else (r, ''post-process '' @ quoted (pid p) @ '' applied''))
      | ReturnsOther \<Rightarrow> (current, skip_note (pid p) ''non-string result'')
      | RejectsError message \<Rightarrow> (current, skip_note (pid p) message)
      | RejectsOther \<Rightarrow> (current, skip_note (pid p) ''unknown error'')
      | Pending \<Rightarrow> (current, []))"

definition run_hook :: "post_context \<Rightarrow> (string \<Rightarrow> bool) option \<Rightarrow> post_processor
    \<Rightarrow> string \<times> string list \<Rightarrow> string \<times> string list" where
  "run_hook ctx hasPermission p st =
     (let (current, diagnostics) = st;
          (nxt, note) =
            (if hook_denied hasPermission p
             then (current, skip_note (pid p) (''missing permission ''
                     @ quoted (the (requiredPermission p))))
             else hook_result ctx p current)
      in (nxt, diagnostics @ [note]))"

text \<open>The final text and the diagnostics pushed on the way.\<close>

definition runPostProcessors :: "string \<Rightarrow> post_context \<Rightarrow> post_processor list
    \<Rightarrow> (string \<Rightarrow> bool) option \<Rightarrow> string list \<Rightarrow> string \<times> string list" where
  "runPostProcessors text ctx processors hasPermission diagnostics =
     fold (run_hook ctx hasPermission) processors (text, diagnostics)"

section \<open>Lemmas on squashing\<close>

lemma squash_step_roles:
  "map grole (squash_step acc m) = map grole acc \<or> map grole (squash_step acc m) = map grole acc @ [grole m]"
  by (cases acc rule: rev_cases) (auto simp: squash_step_def toMessage_def)

lemma squash_roles:
  "\<exists>zs. map grole (foldl squash_step acc ms) = map grole acc @ zs \<and> set zs \<subseteq> grole ` set ms"
proof (induction ms arbitrary: acc)
  case (Cons m ms)
  from Cons [of "squash_step acc m"] obtain zs where
    zs: "map grole (foldl squash_step acc (m # ms)) = map grole (squash_step acc m) @ zs"
      "set zs \<subseteq> grole ` set ms" by auto
  from squash_step_roles [of acc m] show ?case
  proof
    assume "map grole (squash_step acc m) = map grole acc"
    with zs show ?thesis by (intro exI [of _ zs]) auto
  next
    assume "map grole (squash_step acc m) = map grole acc @ [grole m]"
    with zs show ?thesis by (intro exI [of _ "grole m # zs"]) auto
  qed
qed simp

lemma squash_Cons_roles:
  "\<exists>zs. map grole (squash (m # ms)) = grole m # zs \<and> set zs \<subseteq> grole ` set ms"
  using squash_roles [of "[toMessage (grole m) (gcontent m)]" ms]
  by (simp add: squash_def squash_step_def toMessage_def)

lemma squash_Cons_Cons_roles:
  assumes "grole a \<noteq> grole b"
  shows "\<exists>zs. map grole (squash (a # b # ms)) = grole a # grole b # zs \<and> set zs \<subseteq> grole ` set ms"
  using assms squash_roles [of "[toMessage (grole a) (gcontent a), toMessage (grole b) (gcontent b)]" ms]
  by (simp add: squash_def squash_step_def toMessage_def)

lemma squash_Nil_iff [simp]: "squash ms = [] \<longleftrightarrow> ms = []"
proof (cases ms)
  case (Cons m ms')
  with squash_Cons_roles [of m ms'] show ?thesis by auto
qed (simp add: squash_def)

text \<open>Neighbours of one role, among roles that are squashed.\<close>

definition alternates :: "generation_message list \<Rightarrow> bool" where
  "alternates ms \<longleftrightarrow> (\<forall>i. Suc i < length ms \<longrightarrow> grole (ms ! i) = grole (ms ! Suc i)
      \<longrightarrow> grole (ms ! i) = Tool)"

lemma alternates_snoc:
  "alternates (ms @ [m]) \<longleftrightarrow> alternates ms
     \<and> (ms \<noteq> [] \<longrightarrow> grole (last ms) = grole m \<longrightarrow> grole m = Tool)"
  unfolding alternates_def
  by (cases ms rule: rev_cases) (auto simp: nth_append less_Suc_eq)

lemma alternates_step:
  assumes "alternates acc" and "gcontent m \<noteq> []"
  shows "alternates (squash_step acc m)"
proof (cases "acc \<noteq> [] \<and> grole (last acc) = grole m \<and> grole m \<noteq> Tool")
  case True
  then obtain ys y where "acc = ys @ [y]" by (cases acc rule: rev_cases) auto
  with True assms show ?thesis by (simp add: squash_step_def alternates_snoc)
next
  case False
  with assms show ?thesis by (auto simp: squash_step_def alternates_snoc toMessage_def)
qed

lemma squash_alternates: "\<forall>m \<in> set ms. gcontent m \<noteq> [] \<Longrightarrow> alternates (squash ms)"
proof -
  have "alternates (foldl squash_step acc ms)"
    if "alternates acc" "\<forall>m \<in> set ms. gcontent m \<noteq> []" for acc ms
    using that by (induction ms arbitrary: acc) (auto simp: alternates_step)
  moreover have "alternates []" by (simp add: alternates_def)
  ultimately show "\<forall>m \<in> set ms. gcontent m \<noteq> [] \<Longrightarrow> alternates (squash ms)"
    by (simp add: squash_def)
qed

text \<open>A text is carried by a message list when some message contains it.\<close>

definition carries :: "generation_message list \<Rightarrow> string \<Rightarrow> bool" where
  "carries ms t \<longleftrightarrow> (\<exists>m \<in> set ms. sublist t (gcontent m))"

lemma carries_mono:
  "carries ms t \<Longrightarrow> (\<And>m. m \<in> set ms \<Longrightarrow> carries ns (gcontent m)) \<Longrightarrow> carries ns t"
  unfolding carries_def by (meson sublist_order.order.trans)

lemma carries_step: "carries acc t \<Longrightarrow> carries (squash_step acc m) t"
  by (cases acc rule: rev_cases)
     (auto simp: carries_def squash_step_def intro: sublist_appendI sublist_order.order.trans)

lemma carries_step_new: "carries (squash_step acc m) (gcontent m)"
proof -
  have "sublist y (x @ z @ y)" for x y z :: string
    by (metis append.assoc sublist_append_leftI)
  then show ?thesis
    by (cases acc rule: rev_cases) (auto simp: carries_def squash_step_def toMessage_def)
qed

lemma carries_squash: "m \<in> set ms \<Longrightarrow> carries (squash ms) (gcontent m)"
proof -
  have old: "carries acc t \<Longrightarrow> carries (foldl squash_step acc ms) t" for acc ms t
    by (induction ms arbitrary: acc) (auto intro: carries_step)
  have "m \<in> set ms \<Longrightarrow> carries (foldl squash_step acc ms) (gcontent m)" for acc
    by (induction ms arbitrary: acc) (auto intro: old carries_step_new)
  then show "m \<in> set ms \<Longrightarrow> carries (squash ms) (gcontent m)" by (simp add: squash_def)
qed

section \<open>The two passes\<close>

definition norm_ok :: "bool \<Rightarrow> generation_message \<Rightarrow> bool" where
  "norm_ok tools m \<longleftrightarrow> grole m \<noteq> Plugin \<and> (grole m = Tool \<longrightarrow> tools) \<and> gname m = None"

lemma normalize_ok: "norm_ok tools (normalize_message names single tools m)"
  by (auto simp: normalize_message_def norm_ok_def toMessage_def Let_def)

lemma normalize_id: "norm_ok tools m \<Longrightarrow> normalize_message names False tools m = m"
  by (cases m) (auto simp: normalize_message_def norm_ok_def toMessage_def Let_def)

lemma normalize_single [simp]: "grole (normalize_message names True tools m) = User"
  by (simp add: normalize_message_def toMessage_def Let_def)

lemma squash_norm_ok: "\<forall>m \<in> set ms. norm_ok tools m \<Longrightarrow> \<forall>m \<in> set (squash ms). norm_ok tools m"
proof -
  have step: "\<forall>m \<in> set (foldl squash_step acc ms). norm_ok tools m"
    if "\<forall>m \<in> set acc. norm_ok tools m" "\<forall>m \<in> set ms. norm_ok tools m" for acc ms
    using that
  proof (induction ms arbitrary: acc)
    case (Cons m ms)
    have "\<forall>x \<in> set (squash_step acc m). norm_ok tools x"
      using Cons.prems by (cases acc rule: rev_cases) (auto simp: squash_step_def toMessage_def norm_ok_def)
    with Cons show ?case by simp
  qed simp
  show "\<forall>m \<in> set ms. norm_ok tools m \<Longrightarrow> \<forall>m \<in> set (squash ms). norm_ok tools m"
    using step [of "[]" ms] by (simp add: squash_def)
qed

definition first_pass :: "generation_message list \<Rightarrow> post_names \<Rightarrow> bool \<Rightarrow> bool \<Rightarrow> string
    \<Rightarrow> generation_message list" where
  "first_pass ms names single tools ph =
     (if ms = [] then [toMessage User ph] else squash (map (normalize_message names single tools) ms))"

lemma first_pass_ok: "\<forall>m \<in> set (first_pass ms names single tools ph). norm_ok tools m"
  using squash_norm_ok [of "map (normalize_message names single tools) ms" tools]
  by (cases "ms = []") (simp_all add: first_pass_def normalize_ok, simp add: toMessage_def norm_ok_def)

lemma first_pass_not_Nil [simp]: "first_pass ms names single tools ph \<noteq> []"
  by (simp add: first_pass_def)

lemma merge_plain: "mergeMessages ms names False pl single tools ph = first_pass ms names single tools ph"
  by (simp add: mergeMessages.simps [of ms names False] first_pass_def)

lemma first_pass_again:
  "ms \<noteq> [] \<Longrightarrow> \<forall>m \<in> set ms. norm_ok tools m \<Longrightarrow> first_pass ms names False tools ph = squash ms"
  by (simp add: first_pass_def normalize_id map_idI)

definition filled :: "generation_message list \<Rightarrow> post_names \<Rightarrow> bool \<Rightarrow> bool \<Rightarrow> bool \<Rightarrow> string
    \<Rightarrow> generation_message list" where
  "filled ms names pl single tools ph =
     (let d = demote_system (first_pass ms names single tools ph)
      in if pl then insert_placeholder ph d else d)"

lemma demote_ok: "\<forall>m \<in> set ms. norm_ok tools m \<Longrightarrow> \<forall>m \<in> set (demote_system ms). norm_ok tools m"
  by (cases ms) (auto simp: demote_system_def norm_ok_def toMessage_def)

lemma demote_Nil_iff [simp]: "demote_system ms = [] \<longleftrightarrow> ms = []"
  by (cases ms) (auto simp: demote_system_def)

lemma demote_tail: "\<forall>m \<in> set (tl (demote_system ms)). grole m \<noteq> System"
  by (cases ms) (auto simp: demote_system_def toMessage_def)

lemma insert_ok: "\<forall>m \<in> set ms. norm_ok tools m \<Longrightarrow> \<forall>m \<in> set (insert_placeholder ph ms). norm_ok tools m"
  by (cases ms) (auto simp: insert_placeholder_def norm_ok_def toMessage_def split: list.split)

lemma filled_ok: "\<forall>m \<in> set (filled ms names pl single tools ph). norm_ok tools m"
  using demote_ok [OF first_pass_ok] insert_ok [OF demote_ok [OF first_pass_ok]]
  by (simp add: filled_def Let_def)

lemma insert_not_Nil: "ms \<noteq> [] \<Longrightarrow> insert_placeholder ph ms \<noteq> []"
  by (auto simp: insert_placeholder_def split: list.splits)

lemma filled_not_Nil [simp]: "filled ms names pl single tools ph \<noteq> []"
  by (simp add: filled_def Let_def insert_not_Nil)

lemma merge_strict:
  "mergeMessages ms names True pl single tools ph = squash (filled ms names pl single tools ph)"
proof -
  have "mergeMessages ms names True pl single tools ph
      = mergeMessages (filled ms names pl single tools ph) names False pl False tools ph"
    by (simp add: mergeMessages.simps [of ms names True] filled_def first_pass_def Let_def)
  also have "\<dots> = squash (filled ms names pl single tools ph)"
    by (simp add: merge_plain first_pass_again filled_ok)
  finally show ?thesis .
qed

lemma insert_shape:
  assumes "ms \<noteq> []" and "\<forall>m \<in> set (tl ms). grole m \<noteq> System"
  shows "(\<exists>u rest. insert_placeholder ph ms = u # rest \<and> grole u = User
        \<and> (\<forall>m \<in> set rest. grole m \<noteq> System))
    \<or> (\<exists>s u rest. insert_placeholder ph ms = s # u # rest \<and> grole s = System \<and> grole u = User
        \<and> (\<forall>m \<in> set rest. grole m \<noteq> System))"
  using assms
  by (cases ms) (auto simp: insert_placeholder_def toMessage_def split: list.splits)

lemma carries_first_pass:
  "m \<in> set ms \<Longrightarrow> carries (first_pass ms names single tools ph)
     (gcontent (normalize_message names single tools m))"
  using carries_squash [of "normalize_message names single tools m"
      "map (normalize_message names single tools) ms"]
  by (auto simp: first_pass_def)

lemma sublist_prefixOnce: "sublist c (prefixOnce c n)"
  using sublist_append_leftI [of c "the n @ '': ''"]
  by (auto simp: prefixOnce_def Let_def split: option.split)

lemma sublist_normalize: "sublist (gcontent m) (gcontent (normalize_message names single tools m))"
  by (auto simp: normalize_message_def toMessage_def Let_def
      intro: sublist_prefixOnce sublist_order.order.trans [OF sublist_prefixOnce])

lemma carries_filled: "carries (first_pass ms names single tools ph) t
    \<Longrightarrow> carries (filled ms names pl single tools ph) t"
proof -
  have "carries (demote_system xs) (gcontent m)" if "m \<in> set xs" for xs m
  proof -
    have "map gcontent (demote_system xs) = map gcontent xs"
      by (cases xs) (auto simp: demote_system_def toMessage_def)
    then have "gcontent ` set (demote_system xs) = gcontent ` set xs" by (metis set_map)
    with that show ?thesis unfolding carries_def by (metis image_iff sublist_order.order.refl)
  qed
  moreover have "carries (insert_placeholder ph xs) (gcontent m)" if "m \<in> set xs" for xs m
    using that by (cases xs) (auto simp: insert_placeholder_def carries_def split: list.split)
  ultimately have "carries xs t \<Longrightarrow> carries (demote_system xs) t"
    "carries xs t \<Longrightarrow> carries (insert_placeholder ph xs) t" for xs
    using carries_mono by blast+
  then show "carries (first_pass ms names single tools ph) t
      \<Longrightarrow> carries (filled ms names pl single tools ph) t"
    by (simp add: filled_def Let_def)
qed

lemma carries_merge:
  assumes "m \<in> set ms"
  shows "carries (mergeMessages ms names strict pl single tools ph) (gcontent m)"
proof -
  have "carries (first_pass ms names single tools ph) (gcontent m)"
    using carries_first_pass [OF assms] sublist_normalize [of m names single tools]
    unfolding carries_def by (blast intro: sublist_order.order.trans)
  then show ?thesis
    by (cases strict) (auto simp: merge_plain merge_strict intro: carries_mono carries_filled carries_squash)
qed

definition nonempty_texts :: "generation_message list \<Rightarrow> bool" where
  "nonempty_texts ms \<longleftrightarrow> (\<forall>m \<in> set ms. gcontent m \<noteq> [])"

lemma nonempty_normalize:
  "gcontent m \<noteq> [] \<Longrightarrow> gcontent (normalize_message names single tools m) \<noteq> []"
  using sublist_normalize [of m names single tools] by auto

lemma nonempty_squash: "nonempty_texts ms \<Longrightarrow> nonempty_texts (squash ms)"
proof -
  have step: "nonempty_texts (squash_step acc m)" if "nonempty_texts acc" "gcontent m \<noteq> []" for acc m
    using that by (cases acc rule: rev_cases)
      (auto simp: nonempty_texts_def squash_step_def toMessage_def PARAGRAPH_def)
  have all: "nonempty_texts acc \<Longrightarrow> nonempty_texts ms \<Longrightarrow> nonempty_texts (foldl squash_step acc ms)"
    for acc ms
  proof (induction ms arbitrary: acc)
    case (Cons m ms)
    from Cons.prems(2) have "gcontent m \<noteq> []" "nonempty_texts ms" by (simp_all add: nonempty_texts_def)
    from Cons.IH [OF step [OF Cons.prems(1) this(1)] this(2)] show ?case by simp
  qed simp
  have "nonempty_texts []" by (simp add: nonempty_texts_def)
  from all [OF this] show "nonempty_texts ms \<Longrightarrow> nonempty_texts (squash ms)"
    unfolding squash_def .
qed

lemma nonempty_first_pass:
  "nonempty_texts ms \<Longrightarrow> ph \<noteq> [] \<Longrightarrow> nonempty_texts (first_pass ms names single tools ph)"
  using nonempty_squash [of "map (normalize_message names single tools) ms"]
  by (auto simp: first_pass_def nonempty_texts_def toMessage_def nonempty_normalize)

lemma nonempty_filled:
  "nonempty_texts ms \<Longrightarrow> ph \<noteq> [] \<Longrightarrow> nonempty_texts (filled ms names pl single tools ph)"
proof -
  have "nonempty_texts (demote_system xs)" if "nonempty_texts xs" for xs
    using that by (cases xs) (auto simp: demote_system_def nonempty_texts_def toMessage_def)
  moreover have "nonempty_texts (insert_placeholder ph xs)" if "nonempty_texts xs" "ph \<noteq> []" for xs
    using that by (cases xs) (auto simp: insert_placeholder_def nonempty_texts_def toMessage_def split: list.split)
  ultimately show "nonempty_texts ms \<Longrightarrow> ph \<noteq> [] \<Longrightarrow> nonempty_texts (filled ms names pl single tools ph)"
    using nonempty_first_pass by (simp add: filled_def Let_def)
qed

lemma merge_alternates:
  assumes "nonempty_texts ms" and "ph \<noteq> []"
  shows "alternates (mergeMessages ms names strict pl single tools ph)"
proof (cases strict)
  case True
  with nonempty_filled [OF assms] show ?thesis
    by (simp add: merge_strict squash_alternates nonempty_texts_def)
next
  case False
  have "alternates (squash (map (normalize_message names single tools) ms))"
    using assms(1) by (intro squash_alternates) (auto simp: nonempty_texts_def nonempty_normalize)
  with False show ?thesis
    by (auto simp: merge_plain first_pass_def alternates_def)
qed

section \<open>Hook lemmas\<close>

definition hook_useless :: "(string \<Rightarrow> bool) option \<Rightarrow> post_context \<Rightarrow> post_processor \<Rightarrow> bool" where
  "hook_useless hasPermission ctx p \<longleftrightarrow> hook_denied hasPermission p
     \<or> (\<forall>t r. process p t ctx = ReturnsString r \<longrightarrow> length r > MAX_POST_PROCESS_LENGTH)"

lemma awaited_String: "awaited p t ctx = ReturnsString r \<longleftrightarrow> process p t ctx = ReturnsString r"
  by (auto simp: awaited_def split: hook_outcome.split)

lemma run_hook_useless: "hook_useless perm ctx p \<Longrightarrow> fst (run_hook ctx perm p (t, ds)) = t"
  by (auto simp: run_hook_def hook_useless_def hook_result_def awaited_String Let_def
      split: hook_outcome.split)

lemma run_hook_text: "fst (run_hook ctx perm p (t, ds)) = fst (run_hook ctx perm p (t, es))"
  by (simp add: run_hook_def Let_def split: prod.split)

lemma fold_hooks_text:
  "fst (fold (run_hook ctx perm) ps (t, ds)) = fst (fold (run_hook ctx perm) ps (t, es))"
proof (induction ps arbitrary: t ds es)
  case (Cons p ps)
  obtain u ds' es' where "run_hook ctx perm p (t, ds) = (u, ds')" "run_hook ctx perm p (t, es) = (u, es')"
    using run_hook_text [of ctx perm p t ds es] by (metis prod.collapse)
  with Cons show ?case by simp
qed simp

lemma run_hook_length: "length t \<le> MAX_POST_PROCESS_LENGTH
    \<Longrightarrow> length (fst (run_hook ctx perm p (t, ds))) \<le> MAX_POST_PROCESS_LENGTH"
  by (auto simp: run_hook_def hook_result_def Let_def split: hook_outcome.split)

lemma run_hook_notes: "length (snd (run_hook ctx perm p st)) = Suc (length (snd st))"
  by (cases st) (simp add: run_hook_def Let_def split: prod.split)

definition processor_fresh :: "post_processor \<Rightarrow> post_processor list \<Rightarrow> bool" where
  "processor_fresh p ps \<longleftrightarrow> trim (pid p) \<noteq> [] \<and> (\<forall>x \<in> set ps. pref x \<noteq> pref p)"

definition processor_register_ok :: "post_processor \<Rightarrow> post_processor list \<Rightarrow> post_processor list" where
  "processor_register_ok p ps = (case processor_register p ps of Inl _ \<Rightarrow> ps | Inr qs \<Rightarrow> qs)"

interpretation processors: cleanup_registry processor_register_ok processor_cleanup processor_fresh
  "\<lambda>_. True"
proof
  fix ps :: "post_processor list" and p :: post_processor
  assume fresh: "processor_fresh p ps"
  then have "\<forall>x \<in> set ps. pref x \<noteq> pref p" by (simp add: processor_fresh_def)
  then have "processor_cleanup p (ps @ [p]) = ps" by (induction ps) auto
  with fresh show "processor_cleanup p (processor_register_ok p ps) = ps"
    by (simp add: processor_register_ok_def processor_register_def processor_fresh_def)
qed simp

section \<open>Properties\<close>

definition example_dialogue :: "generation_message list" where
  "example_dialogue =
     [\<lparr>grole = System, gcontent = ''card'', gname = None\<rparr>,
      \<lparr>grole = Assistant, gcontent = ''hello'', gname = Some ''Alice''\<rparr>,
      \<lparr>grole = System, gcontent = ''note'', gname = None\<rparr>,
      \<lparr>grole = User, gcontent = ''hi'', gname = None\<rparr>]"

text \<open>The strict modes give every provider a prompt it accepts: at most one system message,
  the first one, and the first message behind it (or the first one at all) is a user turn.\<close>

theorem strict_user_first:
  assumes "mode = Strict \<or> mode = StrictTools"
  shows "let r = postProcessMessages ms (Some mode) names ph in
    (\<forall>m \<in> set (tl r). grole m \<noteq> System)
    \<and> (r \<noteq> [] \<and> grole (hd r) = User
       \<or> length r \<ge> 2 \<and> grole (hd r) = System \<and> grole (r ! 1) = User)"
proof -
  obtain tools where eq: "postProcessMessages ms (Some mode) names ph
      = squash (filled ms names True False tools ph)"
    using assms by (auto simp: postProcessMessages_def merge_strict)
  let ?d = "demote_system (first_pass ms names False tools ph)"
  have f: "filled ms names True False tools ph = insert_placeholder ph ?d"
    by (simp add: filled_def Let_def)
  have shape: "(\<forall>m \<in> set (tl r). grole m \<noteq> System)
      \<and> (r \<noteq> [] \<and> grole (hd r) = User
       \<or> length r \<ge> 2 \<and> grole (hd r) = System \<and> grole (r ! 1) = User)"
    if "map grole r = User # zs \<and> System \<notin> set zs
      \<or> map grole r = System # User # zs \<and> System \<notin> set zs" for r zs
  proof -
    from that have "map grole (tl r) = zs \<and> System \<notin> set zs
        \<or> map grole (tl r) = User # zs \<and> System \<notin> set zs"
      by (auto simp: map_tl)
    then have "System \<notin> set (map grole (tl r))" by (elim disjE conjE) (simp_all only:, simp_all)
    then have "\<forall>m \<in> set (tl r). grole m \<noteq> System" unfolding set_map by (metis image_eqI)
    moreover have "r \<noteq> [] \<and> grole (hd r) = User
       \<or> length r \<ge> 2 \<and> grole (hd r) = System \<and> grole (r ! 1) = User"
      using that by (cases r; cases "tl r") auto
    ultimately show ?thesis by blast
  qed
  have "\<exists>zs. map grole (squash (insert_placeholder ph ?d)) = User # zs \<and> System \<notin> set zs
      \<or> map grole (squash (insert_placeholder ph ?d)) = System # User # zs \<and> System \<notin> set zs"
  proof -
    have none: "System \<notin> set zs" if "set zs \<subseteq> grole ` set rest" "\<forall>m \<in> set rest. grole m \<noteq> System"
      for zs rest using that by fastforce
    have "?d \<noteq> []" by simp
    from insert_shape [OF this demote_tail, of ph] show ?thesis
    proof (elim disjE exE conjE)
      fix u rest
      assume "insert_placeholder ph ?d = u # rest" "grole u = User" "\<forall>m \<in> set rest. grole m \<noteq> System"
      with squash_Cons_roles [of u rest] none [of _ rest] show ?thesis by metis
    next
      fix s u rest
      assume "insert_placeholder ph ?d = s # u # rest" "grole s = System" "grole u = User"
        "\<forall>m \<in> set rest. grole m \<noteq> System"
      with squash_Cons_Cons_roles [of s u rest] none [of _ rest] show ?thesis
        by (metis role.distinct(1))
    qed
  qed
  then obtain zs where "map grole (squash (insert_placeholder ph ?d)) = User # zs \<and> System \<notin> set zs
      \<or> map grole (squash (insert_placeholder ph ?d)) = System # User # zs \<and> System \<notin> set zs" ..
  from shape [OF this] show ?thesis unfolding eq f Let_def .
qed

theorem strict_user_first_witness:
  "let r = postProcessMessages example_dialogue (Some Strict)
      \<lparr>charName = Some ''Alice'', userName = None\<rparr> DEFAULT_PROMPT_PLACEHOLDER in
    (\<forall>m \<in> set (tl r). grole m \<noteq> System)
    \<and> (r \<noteq> [] \<and> grole (hd r) = User
       \<or> length r \<ge> 2 \<and> grole (hd r) = System \<and> grole (r ! 1) = User)"
  by (rule strict_user_first) simp

text \<open>When no message is empty, every reshaping mode leaves no two neighbours of one role
  except tool turns, so the roles alternate as providers demand.\<close>

theorem reshaped_alternates:
  assumes "\<forall>m \<in> set ms. gcontent m \<noteq> []" and "placeholder \<noteq> []"
  shows "\<forall>i. Suc i < length (postProcessMessages ms (Some mode) names placeholder) \<longrightarrow>
      grole (postProcessMessages ms (Some mode) names placeholder ! i)
        = grole (postProcessMessages ms (Some mode) names placeholder ! Suc i) \<longrightarrow>
      grole (postProcessMessages ms (Some mode) names placeholder ! i) = Tool"
proof -
  have "alternates (postProcessMessages ms (Some mode) names placeholder)"
    using assms by (cases mode)
      (simp_all add: postProcessMessages_def merge_alternates nonempty_texts_def)
  then show ?thesis unfolding alternates_def .
qed

theorem reshaped_alternates_witness:
  "let r = postProcessMessages example_dialogue (Some Semi)
      \<lparr>charName = None, userName = None\<rparr> ''x'' in
    length r = 3 \<and> grole (r ! 0) \<noteq> grole (r ! 1) \<and> grole (r ! 1) \<noteq> grole (r ! 2)"
proof -
  let ?r = "postProcessMessages example_dialogue (Some Semi)
      \<lparr>charName = None, userName = None\<rparr> ''x''"
  have alt: "Suc i < length ?r \<Longrightarrow> grole (?r ! i) = grole (?r ! Suc i) \<Longrightarrow> grole (?r ! i) = Tool" for i
    using reshaped_alternates [of example_dialogue "''x''" Semi "\<lparr>charName = None, userName = None\<rparr>"]
    by (simp add: example_dialogue_def)
  have len: "length ?r = 3" by code_simp
  have "grole (?r ! 0) \<noteq> Tool" "grole (?r ! 1) \<noteq> Tool" by code_simp+
  with alt [of 0] alt [of 1] len show ?thesis by (auto simp: Let_def numeral_eq_Suc)
qed

text \<open>An empty message between two turns of one role defeats the squashing, also in the
  strict mode with an empty system message: the text of the later turn goes to the empty one, and
  two neighbours of one role with text remain.\<close>

theorem empty_message_splits_turns:
  "\<exists>ms. let r = postProcessMessages ms (Some Strict) \<lparr>charName = None, userName = None\<rparr>
          DEFAULT_PROMPT_PLACEHOLDER in
     length r = 2 \<and> grole (r ! 0) = User \<and> grole (r ! 1) = User
     \<and> gcontent (r ! 0) \<noteq> [] \<and> gcontent (r ! 1) \<noteq> []"
proof -
  let ?names = "\<lparr>charName = None, userName = None\<rparr>"
  let ?ms = "[toMessage User ''a'', toMessage System [], toMessage User ''b'']"
  have "let r = squash (filled ?ms ?names True False False DEFAULT_PROMPT_PLACEHOLDER) in
     length r = 2 \<and> grole (r ! 0) = User \<and> grole (r ! 1) = User
     \<and> gcontent (r ! 0) \<noteq> [] \<and> gcontent (r ! 1) \<noteq> []"
    by code_simp
  then have "let r = postProcessMessages ?ms (Some Strict) ?names DEFAULT_PROMPT_PLACEHOLDER in
     length r = 2 \<and> grole (r ! 0) = User \<and> grole (r ! 1) = User
     \<and> gcontent (r ! 0) \<noteq> [] \<and> gcontent (r ! 1) \<noteq> []"
    by (simp only: postProcessMessages_def option.case post_mode.case merge_strict)
  then show ?thesis by (rule exI [of _ ?ms])
qed

text \<open>Reshaping loses no text: in every mode the content of every message is part of the
  content of some message sent to the provider.\<close>

theorem reshaping_keeps_content:
  assumes "m \<in> set ms"
  shows "\<exists>r \<in> set (postProcessMessages ms mode names placeholder). sublist (gcontent m) (gcontent r)"
proof -
  have "carries (postProcessMessages ms mode names placeholder) (gcontent m)"
  proof (cases mode)
    case None
    with assms show ?thesis by (auto simp: postProcessMessages_def carries_def toMessage_def)
  next
    case (Some md)
    with carries_merge [OF assms] show ?thesis by (cases md) (simp_all add: postProcessMessages_def)
  qed
  then show ?thesis unfolding carries_def .
qed

theorem reshaping_keeps_content_witness:
  "\<exists>r \<in> set (postProcessMessages example_dialogue (Some Single)
      \<lparr>charName = Some ''Alice'', userName = Some ''Bob''\<rparr> ''x''). sublist ''note'' (gcontent r)"
  using reshaping_keeps_content [of "\<lparr>grole = System, gcontent = ''note'', gname = None\<rparr>" example_dialogue]
  by (simp add: example_dialogue_def)

text \<open>A hook that fails, hangs, lacks its permission or returns no acceptable string is as
  good as absent: the saved text is the one the other hooks produce.\<close>

theorem broken_hook_is_absent:
  assumes "hook_denied perm p
    \<or> (\<forall>t r. process p t ctx = ReturnsString r \<longrightarrow> length r > MAX_POST_PROCESS_LENGTH)"
  shows "fst (runPostProcessors text ctx (xs @ p # ys) perm ds)
    = fst (runPostProcessors text ctx (xs @ ys) perm ds)"
proof -
  obtain t es where mid: "fold (run_hook ctx perm) xs (text, ds) = (t, es)" by fastforce
  have "fst (run_hook ctx perm p (t, es)) = t"
    using assms by (intro run_hook_useless) (simp add: hook_useless_def)
  then obtain fs where "run_hook ctx perm p (t, es) = (t, fs)" by (metis prod.collapse)
  with mid show ?thesis by (simp add: runPostProcessors_def fold_hooks_text [of _ _ ys t fs es])
qed

definition example_hook :: "nat \<Rightarrow> (string \<Rightarrow> hook_outcome) \<Rightarrow> post_processor" where
  "example_hook n f = PostProcessor n ''hook'' None None None (\<lambda>t _. f t)"

theorem broken_hook_is_absent_witness:
  "fst (runPostProcessors ''a'' \<lparr>ctx_chatId = [], ctx_characterId = None, ctx_model = []\<rparr>
      ([] @ example_hook 0 (\<lambda>_. Pending) # [example_hook 1 (\<lambda>t. ReturnsString (t @ ''!''))]) None [])
   = fst (runPostProcessors ''a'' \<lparr>ctx_chatId = [], ctx_characterId = None, ctx_model = []\<rparr>
      ([] @ [example_hook 1 (\<lambda>t. ReturnsString (t @ ''!''))]) None [])"
  by (rule broken_hook_is_absent) (simp add: example_hook_def)

text \<open>Every hook leaves one note, and the saved text is bounded when the streamed text was.\<close>

lemma hooks_bounded:
  "length s \<le> MAX_POST_PROCESS_LENGTH
    \<Longrightarrow> length (fst (runPostProcessors s ctx ps perm ds)) \<le> MAX_POST_PROCESS_LENGTH"
  unfolding runPostProcessors_def
proof (induction ps arbitrary: s ds)
  case (Cons p ps)
  from Cons.IH [OF run_hook_length [OF Cons.prems]] show ?case
    by (metis fold_simps(2) prod.collapse)
qed simp

lemma hooks_notes:
  "length (snd (runPostProcessors text ctx ps perm ds)) = length ds + length ps"
proof -
  have "length (snd (fold (run_hook ctx perm) ps st)) = length (snd st) + length ps" for st
    by (induction ps arbitrary: st) (simp_all add: run_hook_notes)
  from this [of "(text, ds)"] show ?thesis by (simp add: runPostProcessors_def)
qed

lemma processor_cleanup_restores:
  "processor_fresh p ps \<Longrightarrow> processor_cleanup p (processor_register_ok p ps) = ps"
  by (rule processors.cleanup_register) simp_all

end
