(* ===== verification/Token_Estimate.thy ===== *)
theory Token_Estimate
  imports Prelude
begin

text \<open>
  The script-aware token estimate of \<^verbatim>\<open>packages/shared/src/estimateTokens.ts\<close>, the token
  counter of last resort. A text is here a list of code points; which of the seven groups of
  the regular expression a code point belongs to is a matter of the Unicode database, which is a
  parameter. Sums are exact rationals.

  Shown: the estimate of a text that is not empty lies between 1 and its length, and appending
  text never lowers it.
\<close>

definition SCRIPT_RATES :: "rat list" where
  "SCRIPT_RATES = [11 / 10, 17 / 10, 4, 2, 46 / 10, 3, 4]"

definition FALLBACK_RATE :: rat where
  "FALLBACK_RATE = 4"

definition rate_of :: "nat \<Rightarrow> rat" where
  "rate_of cls = (case js_at SCRIPT_RATES (int cls - 1) of None \<Rightarrow> FALLBACK_RATE | Some r \<Rightarrow> r)"

fun token_sum :: "(char \<Rightarrow> nat) \<Rightarrow> string \<Rightarrow> rat" where
  "token_sum cls [] = 0"
| "token_sum cls (c # s) = 1 / rate_of (cls c) + token_sum cls s"

definition estimateTokens :: "(char \<Rightarrow> nat) \<Rightarrow> string \<Rightarrow> int" where
  "estimateTokens cls s = (if length s = 0 then 0 else max 1 \<lfloor>token_sum cls s + 1 / 2\<rfloor>)"

lemma rate_of_bounds: "1 < rate_of g \<and> rate_of g \<le> 46 / 10"
proof -
  have "x \<in> set SCRIPT_RATES \<Longrightarrow> 1 < x \<and> x \<le> 46 / 10" for x
    by (auto simp: SCRIPT_RATES_def)
  then show ?thesis
    by (auto simp: rate_of_def FALLBACK_RATE_def split: option.split dest!: js_at_in_set)
qed

lemma token_sum_bounds: "0 \<le> token_sum cls s \<and> token_sum cls s \<le> of_nat (length s)"
proof (induction s)
  case (Cons c s)
  have "0 < 1 / rate_of (cls c)" and "1 / rate_of (cls c) \<le> 1"
    using rate_of_bounds [of "cls c"] by (simp_all add: field_simps)
  with Cons show ?case unfolding token_sum.simps length_Cons of_nat_Suc by linarith
qed simp

lemma token_sum_append: "token_sum cls (s @ t) = token_sum cls s + token_sum cls t"
  by (induction s) auto

lemma estimate_mono: "estimateTokens cls s \<le> estimateTokens cls (s @ t)"
proof -
  have "token_sum cls s \<le> token_sum cls (s @ t)"
    using token_sum_bounds [of cls t] by (simp add: token_sum_append)
  then have "\<lfloor>token_sum cls s + 1 / 2\<rfloor> \<le> \<lfloor>token_sum cls (s @ t) + 1 / 2\<rfloor>"
    by (intro floor_mono) simp
  then have "max 1 \<lfloor>token_sum cls s + 1 / 2\<rfloor> \<le> max 1 \<lfloor>token_sum cls (s @ t) + 1 / 2\<rfloor>"
    by (rule max.mono [OF order.refl])
  then show ?thesis by (cases "s = []") (simp_all add: estimateTokens_def del: max.bounded_iff,
      simp add: le_max_iff_disj)
qed

lemma estimate_bounds:
  assumes "s \<noteq> []"
  shows "1 \<le> estimateTokens cls s \<and> estimateTokens cls s \<le> int (length s)"
proof -
  have "token_sum cls s + 1 / 2 < of_int (int (length s) + 1)"
    using token_sum_bounds [of cls s] by simp
  then have "\<lfloor>token_sum cls s + 1 / 2\<rfloor> < int (length s) + 1" by (simp only: floor_less_iff)
  moreover have "1 \<le> int (length s)" using assms by (cases s) auto
  ultimately show ?thesis using assms by (simp add: estimateTokens_def)
qed

end
