(* ===== verification/Prompt_Pipeline.thy ===== *)
theory Prompt_Pipeline
  imports Prompt_Template Post_Processing Token_Estimate "HOL-Library.Product_Lexorder"
begin

text \<open>
  The prompt pipeline of \<^verbatim>\<open>apps/server/src/pipeline/promptPipeline.ts\<close> and its audit trail
  (\<^verbatim>\<open>promptAudit.ts\<close>): assembling the prompt from the character, persona, lorebook,
  memory and history, fitting it into the token budget with a strategy that a plugin may supply,
  running the plugin interceptors, enforcing the budget again, rendering, and building the
  request for the provider.

  Strategies and interceptors are parameters: functions from what they are handed to what their
  promise does. They are taken not to change the objects and arrays they are handed in place.
  Every object the code creates has an identity \<open>mref\<close> of its own. The random draws of macro
  substitution are a function of the message the text is for.

  Shown: the prompt and the reply together fit the context, a protected message of the
  assembly reaches the provider whatever strategies and interceptors do, an interceptor cannot
  make a message of its own protected, the in-chat insertion keeps the history in order and
  every injected message once, and the audit says ``included'' exactly of what is sent.
\<close>

section \<open>Inputs\<close>

record chat_character =
  c_name :: string
  c_description :: string
  c_personality :: string
  c_scenario :: string
  c_exampleDialogues :: string
  c_systemPrompt :: "string option"
  c_postHistory :: "string option"
  c_ext :: "(string \<times> json) list"

record persona =
  p_name :: string
  p_description :: string

record chat_message =
  h_id :: string
  h_role :: role
  h_content :: string
  h_name :: "string option"
  h_meta :: "(string \<times> json) list"

datatype block_source = FromLorebook | FromMemory

datatype lore_placement = PlaceBefore | PlaceAfter

record context_block =
  cb_id :: string
  cb_source :: block_source
  cb_placement :: "lore_placement option"
  cb_content :: string
  cb_required :: "bool option"
  cb_relevance :: "jnum option"

datatype persona_placement = PersonaBlock | NoteTop | NoteBottom | PersonaInChat

text \<open>What the promise of an interceptor does within its timeout.\<close>

datatype intercept_outcome =
  Intercepted "prompt_message list" | InterceptError string | InterceptThrew
  | InterceptLate | InterceptAborted

datatype interceptor =
  Interceptor (iid: string) (ipriority: "rat option") (itimeoutMs: "nat option")
    (ipermission: "string option") (intercept: "prompt_message list \<Rightarrow> intercept_outcome")

text \<open>A strategy as the pipeline sees it. \<open>ShiftHangs\<close> is a run that keeps the event loop busy
  for ever, so that not even the timeout fires.\<close>

datatype shift_outcome = Shifted shift_result | ShiftThrew | ShiftLate | ShiftHangs

datatype pipeline_strategy =
  PipelineStrategy (ps_id: string) (ps_shift: "strategy_request \<Rightarrow> shift_outcome")

definition of_context_strategy :: "context_strategy \<Rightarrow> pipeline_strategy" where
  "of_context_strategy s = PipelineStrategy (sid s)
     (\<lambda>q. case shift s q of None \<Rightarrow> ShiftHangs | Some r \<Rightarrow> Shifted r)"

record overrides =
  o_maxTokens :: "int option"
  o_temperature :: "rat option"
  o_stream :: "bool option"
  o_topP :: "rat option"
  o_topK :: "int option"
  o_minP :: "rat option"
  o_topA :: "rat option"
  o_repetitionPenalty :: "rat option"
  o_frequencyPenalty :: "rat option"
  o_presencePenalty :: "rat option"
  o_seed :: "int option"
  o_reasoning :: "bool option"
  o_reasoningEffort :: "string option"
  o_stop :: "string list option"

definition no_overrides :: overrides where
  "no_overrides = \<lparr>o_maxTokens = None, o_temperature = None, o_stream = None, o_topP = None,
     o_topK = None, o_minP = None, o_topA = None, o_repetitionPenalty = None,
     o_frequencyPenalty = None, o_presencePenalty = None, o_seed = None, o_reasoning = None,
     o_reasoningEffort = None, o_stop = None\<rparr>"

record pipeline_input =
  character :: "chat_character option"
  persona :: "persona option"
  contextBlocks :: "context_block list"
  history :: "chat_message list"
  userInput :: "string option"
  model :: string
  maxContextTokens :: "int option"
  reserveForReply :: "int option"
  instructFormatId :: "string option"
  instructFormat :: "string instruct_format option"
  promptTemplate :: "prompt_template option"
  generationType :: "trigger option"
  generationOverrides :: overrides
  connectionStopStrings :: "string list"
  assistantPrefill :: "string option"
  providerKind :: "string option"
  promptPostProcessing :: "post_mode option"
  promptNames :: post_names
  interceptors :: "interceptor list"
  hasPermission :: "(string \<Rightarrow> bool) option"
  countTokensFn :: "token_counter option"
  tokenizerProfile :: "string option"
  tokenizerApproximate :: "bool option"
  contextStrategy :: "pipeline_strategy option"
  manualExcludedIds :: "string list option"
  \<comment> \<open>whether the signal is aborted at the k-th checkpoint\<close>
  abortedAt :: "nat \<Rightarrow> bool"
  macroVariables :: "(string, string) jmap option"
  now :: local_time
  personaPlacement :: "persona_placement option"
  \<comment> \<open>the random draws of the macros in the text of the message with this id\<close>
  randomDraws :: "string \<Rightarrow> draws"
  \<comment> \<open>the Unicode group of a code point\<close>
  scriptGroup :: "char \<Rightarrow> nat"

definition or_else :: "'a option \<Rightarrow> 'a \<Rightarrow> 'a" where
  "or_else v d = (case v of None \<Rightarrow> d | Some x \<Rightarrow> x)"

definition or_option :: "'a option \<Rightarrow> 'a option \<Rightarrow> 'a option" where
  "or_option v w = (case v of None \<Rightarrow> w | Some x \<Rightarrow> Some x)"

definition truthy :: "string option \<Rightarrow> bool" where
  "truthy s = (s \<noteq> None \<and> s \<noteq> Some [])"

section \<open>Assembly\<close>

type_synonym buckets = "(string, prompt_message list) jmap"

definition new_message :: "string \<Rightarrow> role \<Rightarrow> string \<Rightarrow> bool \<Rightarrow> source \<Rightarrow> prompt_message" where
  "new_message i r c pin src =
     \<lparr>mref = 0, mid = Some i, role = r, content = c, mname = None, pinned = Some pin,
      pairId = None, source = Some src, relevance = None\<rparr>"

definition bucket_push :: "string \<Rightarrow> prompt_message \<Rightarrow> buckets \<Rightarrow> buckets" where
  "bucket_push b m bs = (case jm_get bs b of None \<Rightarrow> bs | Some ms \<Rightarrow> jm_set b (ms @ [m]) bs)"

definition bucket_unshift :: "string \<Rightarrow> prompt_message \<Rightarrow> buckets \<Rightarrow> buckets" where
  "bucket_unshift b m bs = (case jm_get bs b of None \<Rightarrow> bs | Some ms \<Rightarrow> jm_set b (m # ms) bs)"

definition macro_context_of :: "pipeline_input \<Rightarrow> macro_context" where
  "macro_context_of inp =
     \<lparr>m_userName = (case persona inp of None \<Rightarrow> ''User'' | Some p \<Rightarrow> p_name p),
      m_charName = (case character inp of None \<Rightarrow> ''Assistant'' | Some c \<Rightarrow> c_name c),
      variables = macroVariables inp, m_now = now inp\<rparr>"

definition expand :: "pipeline_input \<Rightarrow> string \<Rightarrow> string \<Rightarrow> string" where
  "expand inp i s = replaceMacros (randomDraws inp i) s (macro_context_of inp)"

definition addSystemBlock :: "pipeline_input \<Rightarrow> string \<Rightarrow> string \<Rightarrow> string option \<Rightarrow> buckets \<Rightarrow> buckets" where
  "addSystemBlock inp blockId i cont bs =
     (case cont of None \<Rightarrow> bs
      | Some c \<Rightarrow> if trim c = [] then bs
          else bucket_push blockId (new_message i System (expand inp i c) True SrcSystem) bs)"

definition effective_template :: "pipeline_input \<Rightarrow> prompt_template" where
  "effective_template inp =
     (case promptTemplate inp of None \<Rightarrow> DEFAULT_PROMPT_TEMPLATE
      | Some t \<Rightarrow> if hasRequiredPromptBlocks (blocks t)
          then t\<lparr>blocks := normalizePromptBlockOrder (blocks t)\<rparr> else DEFAULT_PROMPT_TEMPLATE)"

definition configured_blocks :: "pipeline_input \<Rightarrow> prompt_block list" where
  "configured_blocks inp =
     (if mode (effective_template inp) = TextMode then blocks (effective_template inp)
      else blocks DEFAULT_PROMPT_TEMPLATE)"

definition main_prompt_text :: "pipeline_input \<Rightarrow> chat_character \<Rightarrow> string option" where
  "main_prompt_text inp c =
     (let mainBlock = find (\<lambda>b. bid b = ''main-prompt'') (configured_blocks inp);
          defaultMain = find (\<lambda>b. bid b = ''main-prompt'') (blocks DEFAULT_PROMPT_TEMPLATE);
          configured = or_option (Option.bind mainBlock bcontent) (Option.bind defaultMain bcontent);
          forbid = (Option.bind mainBlock forbidOverrides = Some True)
      in if truthy (map_option trim (c_systemPrompt c)) \<and> \<not> forbid then c_systemPrompt c
         else configured)"

definition add_character :: "pipeline_input \<Rightarrow> buckets \<Rightarrow> buckets" where
  "add_character inp bs =
     (case character inp of None \<Rightarrow> bs
      | Some c \<Rightarrow>
          addSystemBlock inp ''dialogue-examples'' ''core.dialogue-examples'' (Some (c_exampleDialogues c))
          (addSystemBlock inp ''scenario'' ''core.scenario'' (Some (c_scenario c))
          (addSystemBlock inp ''character-personality'' ''core.character-personality'' (Some (c_personality c))
          (addSystemBlock inp ''character-description'' ''core.character-description'' (Some (c_description c))
          (addSystemBlock inp ''main-prompt'' ''core.main-prompt'' (main_prompt_text inp c) bs)))))"

definition persona_text :: "pipeline_input \<Rightarrow> string option" where
  "persona_text inp =
     (case persona inp of None \<Rightarrow> None
      | Some p \<Rightarrow> if trim (p_description p) = [] then None
          else Some (''The user is '' @ m_userName (macro_context_of inp) @ '': '' @ p_description p))"

definition add_persona :: "pipeline_input \<Rightarrow> buckets \<Rightarrow> buckets" where
  "add_persona inp bs =
     (case persona_text inp of None \<Rightarrow> bs
      | Some t \<Rightarrow>
          (case or_else (personaPlacement inp) PersonaBlock of
             PersonaBlock \<Rightarrow> addSystemBlock inp ''persona'' ''core.persona'' (Some t) bs
           | PersonaInChat \<Rightarrow> bucket_unshift ''chat-history''
               (new_message ''core.persona-in-chat'' System (expand inp ''core.persona-in-chat'' t) True SrcSystem) bs
           | _ \<Rightarrow> bs))"

definition add_context_block :: "pipeline_input \<Rightarrow> context_block \<Rightarrow> buckets \<Rightarrow> buckets" where
  "add_context_block inp b bs =
     (let c = trim (expand inp (cb_id b) (cb_content b)) in
      if c = [] then bs
      else bucket_push
        (case cb_source b of FromMemory \<Rightarrow> ''memory''
         | FromLorebook \<Rightarrow> if cb_placement b = Some PlaceAfter then ''world-info-after''
                          else ''world-info-before'')
        ((new_message (cb_id b) System c (cb_required b = Some True)
            (case cb_source b of FromMemory \<Rightarrow> SrcMemory | FromLorebook \<Rightarrow> SrcLorebook))
          \<lparr>relevance := cb_relevance b\<rparr>) bs)"

fun readPairId_in :: "string list \<Rightarrow> (string \<times> json) list \<Rightarrow> string option" where
  "readPairId_in [] meta = None"
| "readPairId_in (k # ks) meta =
     (case map_of meta k of
        Some (JString v) \<Rightarrow> if length v > 0 then Some v else readPairId_in ks meta
      | _ \<Rightarrow> readPairId_in ks meta)"

definition readPairId :: "(string \<times> json) list \<Rightarrow> string option" where
  "readPairId meta = readPairId_in [''toolCallId'', ''tool_call_id'', ''callId''] meta"

definition add_history_message :: "pipeline_input \<Rightarrow> chat_message \<Rightarrow> buckets \<Rightarrow> buckets" where
  "add_history_message inp m bs =
     (let current = (userInput inp = None
            \<and> (history inp \<noteq> [] \<and> h_id m = h_id (last (history inp))) \<and> h_role m = User)
      in bucket_push ''chat-history''
        ((new_message (h_id m) (h_role m) (expand inp (h_id m) (h_content m))
            (map_of (h_meta m) ''pinned'' = Some (JBool True) \<or> current)
            (if current then SrcUser else SrcHistory))
          \<lparr>mname := h_name m, pairId := readPairId (h_meta m)\<rparr>) bs)"

definition add_user_input :: "pipeline_input \<Rightarrow> buckets \<Rightarrow> buckets" where
  "add_user_input inp bs =
     (case userInput inp of None \<Rightarrow> bs
      | Some t \<Rightarrow> if trim t = [] then bs
          else bucket_push ''chat-history''
            (new_message ''core.current-user-input'' User (expand inp ''core.current-user-input'' t) True SrcUser) bs)"

definition author_note :: "pipeline_input \<Rightarrow> string" where
  "author_note inp =
     (let ext = (\<lambda>k. case character inp of None \<Rightarrow> None
            | Some c \<Rightarrow> (case map_of (c_ext c) k of Some JNull \<Rightarrow> None | v \<Rightarrow> v))
      in case or_option (or_option (ext ''authors_note'') (ext ''author_note'')) (ext ''authorsNote'') of
           Some (JString s) \<Rightarrow> s | _ \<Rightarrow> [])"

definition merged_author_note :: "pipeline_input \<Rightarrow> string" where
  "merged_author_note inp =
     (case persona_text inp of None \<Rightarrow> author_note inp
      | Some d \<Rightarrow>
          (case or_else (personaPlacement inp) PersonaBlock of
             NoteTop \<Rightarrow> trim (d @ NL @ author_note inp)
           | NoteBottom \<Rightarrow> trim (author_note inp @ NL @ d)
           | _ \<Rightarrow> author_note inp))"

definition add_notes :: "pipeline_input \<Rightarrow> buckets \<Rightarrow> buckets" where
  "add_notes inp bs =
     (let b1 = addSystemBlock inp ''post-history-instructions'' ''core.character-post-history-instructions''
                 (Option.bind (character inp) c_postHistory) bs;
          b2 = (if mode (effective_template inp) = TextMode
                then addSystemBlock inp ''post-history-instructions'' ''core.template-post-history-instructions''
                       (Some (template_postHistory (effective_template inp))) b1 else b1)
      in if length (merged_author_note inp) > 0
         then addSystemBlock inp ''authors-note'' ''core.authors-note'' (Some (merged_author_note inp)) b2
         else b2)"

definition fill_buckets :: "pipeline_input \<Rightarrow> buckets" where
  "fill_buckets inp =
     (let b0 = map (\<lambda>i. (i, [])) PromptBlockIds;
          b1 = add_persona inp (add_character inp b0);
          b2 = fold (add_context_block inp) (contextBlocks inp) b1;
          b3 = fold (add_history_message inp) (history inp) b2
      in add_notes inp (add_user_input inp b3))"

definition preparePromptBlockMessages :: "pipeline_input \<Rightarrow> prompt_block \<Rightarrow> prompt_message list
    \<Rightarrow> prompt_message list" where
  "preparePromptBlockMessages inp b hostMessages =
     (if startsWith (bid b) ''custom-''
      then (case bcontent b of None \<Rightarrow> []
            | Some c \<Rightarrow> if trim c = [] then []
                else [(new_message (''template.'' @ bid b) (or_else (brole b) System)
                         (expand inp (''template.'' @ bid b) c) False SrcTemplate)
                       \<lparr>mname := bname b\<rparr>])
      else if bid b = ''chat-history'' \<or> bid b = ''dialogue-examples'' \<or> brole b = None
      then hostMessages
      else map (\<lambda>m. m\<lparr>role := or_else (brole b) (role m)\<rparr>) hostMessages)"

record prepared =
  pblock :: prompt_block
  configuredIndex :: nat
  pmessages :: "prompt_message list"
  active :: bool
  modelMatches :: bool
  inChat :: bool

definition prepare_block :: "pipeline_input \<Rightarrow> buckets \<Rightarrow> nat \<Rightarrow> prompt_block \<Rightarrow> prepared" where
  "prepare_block inp bs i b =
     (let hostMessages = (if isCorePromptBlockId (bid b) then or_else (jm_get bs (bid b)) [] else []);
          triggerMatches = (case triggers b of None \<Rightarrow> True
             | Some ts \<Rightarrow> ts = [] \<or> or_else (generationType inp) Normal \<in> set ts);
          mm = (\<not> truthy (bmodel b) \<or> bmodel b = Some (model inp))
      in \<lparr>pblock = b, configuredIndex = i, pmessages = preparePromptBlockMessages inp b hostMessages,
          active = (enabled b \<and> triggerMatches \<and> mm), modelMatches = mm,
          inChat = (bid b \<noteq> ''chat-history'' \<and> injectionPosition b = Some InChat)\<rparr>)"

text \<open>Every message object has an identity: the prepared blocks share none.\<close>

fun number_messages :: "nat \<Rightarrow> prompt_message list \<Rightarrow> prompt_message list" where
  "number_messages n [] = []"
| "number_messages n (m # ms) = m\<lparr>mref := n\<rparr> # number_messages (Suc n) ms"

fun number_blocks :: "nat \<Rightarrow> prepared list \<Rightarrow> prepared list" where
  "number_blocks n [] = []"
| "number_blocks n (p # ps) =
     p\<lparr>pmessages := number_messages n (pmessages p)\<rparr> # number_blocks (n + length (pmessages p)) ps"

definition prepared_blocks :: "pipeline_input \<Rightarrow> prepared list" where
  "prepared_blocks inp =
     (let bs = fill_buckets inp; cb = configured_blocks inp
      in number_blocks 0 (map (\<lambda>(i, b). prepare_block inp bs i b) (zip [0..<length cb] cb)))"

fun role_order :: "role \<Rightarrow> nat" where
  "role_order Assistant = 0" | "role_order User = 1" | "role_order System = 2"
| "role_order Tool = 3" | "role_order Plugin = 4"

definition injection_boundary :: "nat \<Rightarrow> prepared \<Rightarrow> nat" where
  "injection_boundary n p = n - or_else (injectionDepth (pblock p)) 4"

definition insertions_at :: "nat \<Rightarrow> prepared list \<Rightarrow> nat \<Rightarrow> prompt_message list" where
  "insertions_at n injections boundary =
     map fst (sort_key (\<lambda>(m, p). (or_else (injectionOrder (pblock p)) 100, role_order (role m), configuredIndex p))
       (concat (map (\<lambda>p. map (\<lambda>m. (m, p)) (pmessages p))
          (filter (\<lambda>p. injection_boundary n p = boundary) injections))))"

definition mergeInChatPrompts :: "prompt_message list \<Rightarrow> prepared list \<Rightarrow> prompt_message list" where
  "mergeInChatPrompts hist injections =
     concat (map (\<lambda>b. insertions_at (length hist) injections b
                   @ (if b < length hist then [hist ! b] else [])) [0..<Suc (length hist)])"

definition assembled :: "prepared list \<Rightarrow> prompt_message list" where
  "assembled ps =
     concat (map (\<lambda>p. if bid (pblock p) = ''chat-history''
         then mergeInChatPrompts (if active p then pmessages p else [])
                (filter (\<lambda>q. active q \<and> inChat q) ps)
         else if active p \<and> \<not> inChat p then pmessages p else []) ps)"

datatype exclusion_reason =
  Disabled | EmptyBlock | Manual | ContextShifted | FinalBudget | ByInterceptor | ModelMismatch
  | NoReason

record journal_item =
  j_blockId :: string
  j_message :: prompt_message
  j_reason :: exclusion_reason

definition exclusionReasonForBlock :: "prepared \<Rightarrow> exclusion_reason" where
  "exclusionReasonForBlock p = (if modelMatches p then Disabled else ModelMismatch)"

definition block_placeholder :: "string \<Rightarrow> prompt_message" where
  "block_placeholder i = (new_message (''block.'' @ i) System [] False SrcSystem)\<lparr>pinned := None\<rparr>"

definition journal_of :: "prepared list \<Rightarrow> journal_item list" where
  "journal_of ps =
     concat (map (\<lambda>p.
       (if length (pmessages p) = 0
        then [\<lparr>j_blockId = bid (pblock p), j_message = block_placeholder (bid (pblock p)),
               j_reason = (if active p then EmptyBlock else exclusionReasonForBlock p)\<rparr>]
        else map (\<lambda>m. \<lparr>j_blockId = bid (pblock p), j_message = m,
               j_reason = (if active p then NoReason else exclusionReasonForBlock p)\<rparr>) (pmessages p))) ps)"

definition assemblePromptMessages :: "pipeline_input \<Rightarrow> prompt_message list \<times> journal_item list" where
  "assemblePromptMessages inp =
     (let ps = prepared_blocks inp in (assembled ps, journal_of ps))"

section \<open>Fitting the budget\<close>

definition NOTE :: "string \<Rightarrow> string \<Rightarrow> string \<Rightarrow> string" where
  "NOTE a q b = a @ quoted q @ b"

definition runContextStrategy :: "pipeline_strategy \<Rightarrow> prompt_message list \<Rightarrow> token_counter \<Rightarrow> int
    \<Rightarrow> string list \<Rightarrow> shift_result option" where
  "runContextStrategy s ms ct budget manual =
     (case ps_shift s \<lparr>req_messages = ms, req_countTokens = ct, req_budgetTokens = budget,
             req_manualExcludedIds = Some manual\<rparr> of
        Shifted r \<Rightarrow> Some r
      | ShiftHangs \<Rightarrow> None
      | _ \<Rightarrow> Some ((shiftContext ms ct budget no_options)\<lparr>strategy := Some ''truncate''\<rparr>))"

definition host_protected :: "prompt_message \<Rightarrow> bool" where
  "host_protected m =
     (mid m \<noteq> None \<and> (pinned m = Some True \<or> (role m = System \<and> source m = Some SrcSystem)))"

text \<open>\<open>new Map(ms.map((m) => [m.id, m]))\<close> over the messages that have an id.\<close>

definition id_map :: "prompt_message list \<Rightarrow> (string, prompt_message) jmap" where
  "id_map ms = fold (\<lambda>m acc. case mid m of None \<Rightarrow> acc | Some i \<Rightarrow> jm_set i m acc) ms []"

definition ids_of :: "prompt_message list \<Rightarrow> string list" where
  "ids_of ms = concat (map (\<lambda>m. case mid m of None \<Rightarrow> [] | Some i \<Rightarrow> [i]) ms)"

fun dedupe_go :: "string list \<Rightarrow> prompt_message list \<Rightarrow> prompt_message list \<Rightarrow> prompt_message list" where
  "dedupe_go seenIds seenObjects [] = []"
| "dedupe_go seenIds seenObjects (m # ms) =
     (if truthy (mid m)
      then if the (mid m) \<in> set seenIds then dedupe_go seenIds seenObjects ms
           else m # dedupe_go (the (mid m) # seenIds) seenObjects ms
      else if mem_ref seenObjects m then dedupe_go seenIds seenObjects ms
           else m # dedupe_go seenIds (m # seenObjects) ms)"

definition dedupePromptMessages :: "prompt_message list \<Rightarrow> prompt_message list" where
  "dedupePromptMessages ms = dedupe_go [] [] ms"

definition host_original :: "(string, prompt_message) jmap \<Rightarrow> prompt_message \<Rightarrow> prompt_message" where
  "host_original protectedById m =
     (if truthy (mid m) then or_else (jm_get protectedById (the (mid m))) m else m)"

definition strategy_name :: "shift_result \<Rightarrow> pipeline_strategy option \<Rightarrow> string \<Rightarrow> string" where
  "strategy_name r s fallback = or_else (or_option (strategy r) (map_option ps_id s)) fallback"

text \<open>The result of the strategy after the host has checked that nothing protected is missing.\<close>

definition checked_strategy :: "pipeline_strategy option \<Rightarrow> prompt_message list \<Rightarrow> token_counter \<Rightarrow> int
    \<Rightarrow> shift_result \<Rightarrow> shift_result \<times> string list" where
  "checked_strategy s raw ct budget r =
     (let protectedById = id_map (filter host_protected raw);
          returnedIds = ids_of (kept r)
      in if list_ex (\<lambda>i. i \<notin> set returnedIds) (jm_keys protectedById)
         then ((shiftContext raw ct budget no_options)\<lparr>strategy := Some ''truncate''\<rparr>,
               [NOTE ''context strategy '' (strategy_name r s ''unknown'') '' rejected: protected context was removed''])
         else (r, []))"

definition initial_shift :: "pipeline_strategy option \<Rightarrow> prompt_message list \<Rightarrow> token_counter \<Rightarrow> int
    \<Rightarrow> shift_result \<Rightarrow> shift_result" where
  "initial_shift s raw ct budget r =
     (let protectedById = id_map (filter host_protected raw);
          sanitized = dedupePromptMessages (map (host_original protectedById) (kept r));
          hostChecked = shiftContext sanitized ct budget no_options
      in hostChecked\<lparr>excluded := dedupePromptMessages (excluded r @ excluded hostChecked),
           truncated := (truncated r \<or> truncated hostChecked),
           strategy := Some (strategy_name r s ''truncate''),
           summaryCreated := summaryCreated r, manualFallback := manualFallback r\<rparr>)"

definition strategy_stage :: "pipeline_strategy option \<Rightarrow> prompt_message list \<Rightarrow> token_counter \<Rightarrow> int
    \<Rightarrow> string list \<Rightarrow> (shift_result \<times> string list) option" where
  "strategy_stage s raw ct budget manual =
     (case (case s of None \<Rightarrow> Some (shiftContext raw ct budget no_options)
            | Some st \<Rightarrow> runContextStrategy st raw ct budget manual) of
        None \<Rightarrow> None
      | Some r0 \<Rightarrow>
          (let failed = (case s of None \<Rightarrow> []
                 | Some st \<Rightarrow> if strategy r0 = Some ''truncate'' \<and> ps_id st \<noteq> ''truncate''
                     then [NOTE ''context strategy '' (ps_id st) '' failed or timed out; safe truncation used instead'']
                     else []);
               (r, rejected) = checked_strategy s raw ct budget r0
           in Some (initial_shift s raw ct budget r, failed @ rejected)))"

section \<open>Interceptors\<close>

definition keyOf :: "prompt_message \<Rightarrow> nat \<Rightarrow> string" where
  "keyOf m i = or_else (mid m) (''#'' @ digits_of_nat i @ '':'' @ role_name (role m))"

definition keyed :: "prompt_message list \<Rightarrow> (string \<times> prompt_message) list" where
  "keyed ms = map (\<lambda>(i, m). (keyOf m i, m)) (zip [0..<length ms] ms)"

definition describePromptDiff :: "prompt_message list \<Rightarrow> prompt_message list \<Rightarrow> string" where
  "describePromptDiff before after =
     (let beforeContent = fold (\<lambda>(k, m) acc. jm_set k m acc) (keyed before) [];
          afterKeys = map fst (keyed after);
          added = length (filter (\<lambda>(k, m). jm_get beforeContent k = None) (keyed after));
          edited = length (filter (\<lambda>(k, m). case jm_get beforeContent k of None \<Rightarrow> False
                      | Some previous \<Rightarrow> content previous \<noteq> content m) (keyed after));
          removed = length (filter (\<lambda>(k, m). k \<notin> set afterKeys) (keyed before))
      in ''+'' @ digits_of_nat added @ ''/-'' @ digits_of_nat removed @ ''/~'' @ digits_of_nat edited
         @ '' messages'')"

definition restore_one :: "prompt_message list \<Rightarrow> prompt_message \<Rightarrow> prompt_message list \<times> string list
    \<Rightarrow> prompt_message list \<times> string list" where
  "restore_one original pm st =
     (let (output, presentIds) = st in
      if \<not> truthy (mid pm) \<or> the (mid pm) \<in> set presentIds
         \<or> \<not> (pinned pm = Some True \<or> (role pm = System \<and> source pm = Some SrcSystem))
      then st
      else let originalIndex = js_findIndex (\<lambda>m. mref m = mref pm) original;
               nextId = find (\<lambda>i. i \<in> set presentIds) (ids_of (drop (nat (originalIndex + 1)) original));
               insertionIndex = (if truthy nextId then js_findIndex (\<lambda>m. mid m = nextId) output
                                 else int (length output));
               pos = (if insertionIndex < 0 then length output else nat insertionIndex)
           in (splice_in pos [pm] output, the (mid pm) # presentIds))"

definition restoreProtectedMessages :: "prompt_message list \<Rightarrow> prompt_message list \<Rightarrow> prompt_message list" where
  "restoreProtectedMessages candidate original =
     fst (fold (restore_one original) original (candidate, ids_of candidate))"

text \<open>The messages of an interceptor are copied into new objects with the flags of the host.\<close>

definition host_flags :: "(string, prompt_message) jmap \<Rightarrow> prompt_message \<Rightarrow> prompt_message" where
  "host_flags hostContextById m =
     (let host = (if truthy (mid m) then jm_get hostContextById (the (mid m)) else None)
      in m\<lparr>pinned := (if truthy (mid m) then Option.bind host pinned else Some False),
           source := Some (or_else (Option.bind host source) SrcPlugin)\<rparr>)"

definition next_ref :: "prompt_message list \<Rightarrow> nat" where
  "next_ref ms = Suc (fold max (map mref ms) 0)"

definition intercepted_messages :: "prompt_message list \<Rightarrow> prompt_message list \<Rightarrow> prompt_message list
    \<Rightarrow> prompt_message list" where
  "intercepted_messages hostKept working result =
     restoreProtectedMessages
       (number_messages (next_ref (hostKept @ working @ result))
          (map (host_flags (id_map hostKept)) result))
       hostKept"

definition interceptor_denied :: "(string \<Rightarrow> bool) option \<Rightarrow> interceptor \<Rightarrow> bool" where
  "interceptor_denied perm i =
     (truthy (ipermission i) \<and> (case perm of None \<Rightarrow> False | Some f \<Rightarrow> \<not> f (the (ipermission i))))"

definition interceptor_step :: "(string \<Rightarrow> bool) option \<Rightarrow> prompt_message list \<Rightarrow> interceptor
    \<Rightarrow> prompt_message list \<Rightarrow> prompt_message list \<times> string" where
  "interceptor_step perm hostKept i working =
     (if interceptor_denied perm i
      then (working, NOTE ''interceptor '' (iid i)
              ('' skipped (missing permission '' @ quoted (the (ipermission i)) @ '')''))
      else let skipped = (\<lambda>reason. (working, NOTE ''interceptor '' (iid i) ('' skipped ('' @ reason @ '')'')))
        in case intercept i working of
             Intercepted result \<Rightarrow>
               (let w = intercepted_messages hostKept working result
                in (w, NOTE ''interceptor '' (iid i) ('' applied ('' @ describePromptDiff working w @ '')'')))
           | InterceptError message \<Rightarrow> skipped message
           | InterceptThrew \<Rightarrow> skipped ''unknown error''
           | InterceptLate \<Rightarrow> skipped (''Timed out after ''
               @ digits_of_nat (or_else (itimeoutMs i) 2000) @ ''ms'')
           | InterceptAborted \<Rightarrow> skipped ''Aborted'')"

definition sorted_interceptors :: "interceptor list \<Rightarrow> interceptor list" where
  "sorted_interceptors is = sort_key (\<lambda>i. or_else (ipriority i) 100) is"

datatype pipeline_error =
  GenerationCancelled
  | TokenBudgetExceeded (err_limit: int) (err_reserved: int) (err_prompt: int)
  | TemplateThrew

fun run_interceptors :: "(nat \<Rightarrow> bool) \<Rightarrow> (string \<Rightarrow> bool) option \<Rightarrow> prompt_message list \<Rightarrow> nat
    \<Rightarrow> interceptor list \<Rightarrow> prompt_message list \<Rightarrow> string list
    \<Rightarrow> pipeline_error + (prompt_message list \<times> string list)" where
  "run_interceptors aborted perm hostKept k [] working diags = Inr (working, diags)"
| "run_interceptors aborted perm hostKept k (i # is) working diags =
     (if aborted k then Inl GenerationCancelled
      else let (w, note) = interceptor_step perm hostKept i working
           in run_interceptors aborted perm hostKept (Suc k) is w (diags @ [note]))"

section \<open>Audit\<close>

record audit_entry =
  ae_identifier :: string
  ae_name :: "string option"
  ae_role :: role
  ae_source :: source
  ae_content :: string
  ae_tokens :: int
  ae_included :: bool
  ae_reason :: exclusion_reason
  ae_order :: nat

record classified =
  cl_message :: prompt_message
  cl_name :: "string option"
  cl_included :: bool
  cl_reason :: exclusion_reason

definition has_id :: "prompt_message list \<Rightarrow> string option \<Rightarrow> bool" where
  "has_id ms i = (i \<noteq> None \<and> list_ex (\<lambda>m. mid m = i) ms)"

definition classify_item :: "prompt_message list \<Rightarrow> prompt_message list \<Rightarrow> shift_result \<Rightarrow> string list
    \<Rightarrow> journal_item \<Rightarrow> classified" where
  "classify_item initiallyExcluded afterInterceptors final manual item =
     (let m = j_message item; i = mid m;
          current = or_else (if truthy i then or_option (jm_get (id_map (kept final)) (the i))
                                              (jm_get (id_map afterInterceptors) (the i)) else None) m;
          (included, reason) =
            (if j_reason item \<noteq> NoReason then (False, j_reason item)
             else if has_id initiallyExcluded i \<or> mem_ref initiallyExcluded m
             then (False, if i \<noteq> None \<and> the i \<in> set manual then Manual else ContextShifted)
             else if has_id (excluded final) i \<or> mem_ref (excluded final) current
             then (False, FinalBudget)
             else if has_id (kept final) i \<or> mem_ref (kept final) current
             then (True, NoReason)
             else if (i \<noteq> None \<and> \<not> has_id afterInterceptors i) \<or> (i = None \<and> \<not> mem_ref afterInterceptors m)
             then (False, ByInterceptor)
             else (False, NoReason))
      in \<lparr>cl_message = current, cl_name = Some (or_else (mname current) (j_blockId item)),
          cl_included = included, cl_reason = reason\<rparr>)"

definition classify_added :: "shift_result \<Rightarrow> prompt_message \<Rightarrow> classified" where
  "classify_added final m =
     (let included = (has_id (kept final) (mid m) \<or> mem_ref (kept final) m);
          finalExcluded = (has_id (excluded final) (mid m) \<or> mem_ref (excluded final) m)
      in \<lparr>cl_message = m, cl_name = (if truthy (mname m) then mname m else None),
          cl_included = included,
          cl_reason = (if included then NoReason else if finalExcluded then FinalBudget else ByInterceptor)\<rparr>)"

definition classify_all :: "journal_item list \<Rightarrow> prompt_message list \<Rightarrow> prompt_message list \<Rightarrow> shift_result
    \<Rightarrow> string list \<Rightarrow> classified list" where
  "classify_all journal initiallyExcluded afterInterceptors final manual =
     (let assembledIds = filter (\<lambda>i. \<not> startsWith i ''block.'') (ids_of (map j_message journal))
      in map (classify_item initiallyExcluded afterInterceptors final manual) journal
         @ map (classify_added final)
             (filter (\<lambda>m. \<not> (truthy (mid m) \<and> the (mid m) \<in> set assembledIds)) afterInterceptors))"

definition audit_entry_of :: "token_counter \<Rightarrow> nat \<times> classified \<Rightarrow> audit_entry" where
  "audit_entry_of ct p =
     (let (n, c) = p; m = cl_message c in
      \<lparr>ae_identifier = or_else (mid m) (''pipeline.'' @ digits_of_nat n),
       ae_name = (if truthy (cl_name c) then cl_name c else None),
       ae_role = role m, ae_source = or_else (source m) SrcSystem, ae_content = content m,
       ae_tokens = (if content m = [] then 0 else ct (content m) + 4),
       ae_included = cl_included c, ae_reason = cl_reason c, ae_order = n\<rparr>)"

definition buildPromptAuditEntries :: "journal_item list \<Rightarrow> prompt_message list \<Rightarrow> prompt_message list
    \<Rightarrow> shift_result \<Rightarrow> string list \<Rightarrow> token_counter \<Rightarrow> audit_entry list" where
  "buildPromptAuditEntries journal initiallyExcluded afterInterceptors final manual ct =
     (let bounded = take 500 (classify_all journal initiallyExcluded afterInterceptors final manual)
      in map (audit_entry_of ct) (zip [0..<length bounded] bounded))"

section \<open>The run\<close>

definition uniqueStopStrings :: "string list \<Rightarrow> string list" where
  "uniqueStopStrings values =
     rev (snd (fold (\<lambda>v (seen, out). if v \<in> set seen then (seen, out) else (v # seen, v # out)) values ([], [])))"

definition TextAdapterKinds :: "string list" where
  "TextAdapterKinds = [''text-completion'', ''novelai'', ''ai-horde'', ''koboldai'']"

record generation_request =
  gr_model :: string
  gr_messages :: "generation_message list"
  gr_maxTokens :: int
  gr_temperature :: rat
  gr_stream :: bool
  gr_sampling :: overrides
  gr_stop :: "string list option"
  gr_assistantPrefill :: "string option"

record token_budget =
  tb_profile :: string
  tb_approximate :: bool
  tb_contextLimit :: int
  tb_reservedForReply :: int
  tb_promptTokens :: int

record pipeline_result =
  pr_messages :: "generation_message list"
  pr_instructPrompt :: string
  pr_request :: generation_request
  pr_excludedCount :: nat
  pr_diagnostics :: "string list"
  pr_auditEntries :: "audit_entry list"
  pr_tokenBudget :: token_budget
  pr_contextStrategy :: string

definition count_tokens :: "pipeline_input \<Rightarrow> token_counter" where
  "count_tokens inp = or_else (countTokensFn inp) (estimateTokens (scriptGroup inp))"

definition context_limit :: "pipeline_input \<Rightarrow> int" where
  "context_limit inp = or_else (maxContextTokens inp) 8192"

definition requested_tokens :: "pipeline_input \<Rightarrow> int" where
  "requested_tokens inp =
     or_else (or_option (o_maxTokens (generationOverrides inp)) (reserveForReply inp)) 1024"

definition reserve_tokens :: "pipeline_input \<Rightarrow> int" where
  "reserve_tokens inp = max (or_else (reserveForReply inp) 0) (requested_tokens inp)"

definition manual_ids :: "pipeline_input \<Rightarrow> string list" where
  "manual_ids inp = or_else (manualExcludedIds inp)
     (map h_id (filter (\<lambda>m. map_of (h_meta m) ''manualExcluded'' = Some (JBool True)) (history inp)))"

text \<open>The first part of the run, up to the final budget enforcement.\<close>

record shift_state =
  st_raw :: "prompt_message list"
  st_journal :: "journal_item list"
  st_initial :: shift_result
  st_working :: "prompt_message list"
  st_final :: shift_result
  st_diagnostics :: "string list"

definition assembly_notes :: "pipeline_input \<Rightarrow> prompt_message list \<Rightarrow> string list" where
  "assembly_notes inp raw =
     [''assembled '' @ digits_of_nat (length raw) @ '' message(s)'',
      (let profile = or_else (tokenizerProfile inp) ''approximate-character-v1''
       in if or_else (tokenizerApproximate inp) (countTokensFn inp = None)
          then NOTE ''tokenizer '' profile '' is approximate'' else NOTE ''tokenizer '' profile '' selected'')]"

definition initial_notes :: "shift_result \<Rightarrow> string list" where
  "initial_notes s =
     [NOTE ''context strategy '' (or_else (strategy s) ''truncate'') '' applied'']
     @ (if truncated s then [''context shift excluded '' @ digits_of_nat (length (excluded s))
          @ '' message(s) before interceptors''] else [])
     @ (if summaryCreated s = Some True then [''context summary created''] else [])
     @ (if manualFallback s = Some True
        then [''manual exclusions were insufficient; safe truncation continued''] else [])"

definition pipeline_shift :: "pipeline_input \<Rightarrow> (pipeline_error + shift_state) option" where
  "pipeline_shift inp =
     (let limit = context_limit inp; reserve = reserve_tokens inp; budget = limit - reserve;
          ct = count_tokens inp
      in if budget \<le> 0 then Some (Inl (TokenBudgetExceeded limit reserve 0))
         else let (raw, journal) = assemblePromptMessages inp in
           if abortedAt inp 0 then Some (Inl GenerationCancelled)
           else (case strategy_stage (contextStrategy inp) raw ct budget (manual_ids inp) of
             None \<Rightarrow> None
           | Some (initial, notes) \<Rightarrow>
               if \<not> fitsBudget initial
               then Some (Inl (TokenBudgetExceeded limit reserve (estimatedTokens initial)))
               else (case run_interceptors (abortedAt inp) (hasPermission inp) (kept initial) 1
                        (sorted_interceptors (interceptors inp)) (kept initial)
                        (assembly_notes inp raw @ notes @ initial_notes initial) of
                  Inl e \<Rightarrow> Some (Inl e)
                | Inr (working, diags) \<Rightarrow>
                    if abortedAt inp (Suc (length (interceptors inp))) then Some (Inl GenerationCancelled)
                    else let final = shiftContext working ct budget no_options in
                      if \<not> fitsBudget final
                      then Some (Inl (TokenBudgetExceeded limit reserve (estimatedTokens final)))
                      else Some (Inr \<lparr>st_raw = raw, st_journal = journal, st_initial = initial,
                        st_working = working, st_final = final,
                        st_diagnostics = diags @ (if truncated final
                          then [''final budget enforcement excluded ''
                                 @ digits_of_nat (length (excluded final)) @ '' message(s)''] else [])\<rparr>))))"

definition to_generation :: "prompt_message \<Rightarrow> generation_message" where
  "to_generation m = \<lparr>grole = role m, gcontent = content m,
     gname = (if truthy (mname m) then mname m else None)\<rparr>"

definition serialize_as_text :: "pipeline_input \<Rightarrow> bool" where
  "serialize_as_text inp =
     (map_option mode (promptTemplate inp) = Some TextMode \<or> instructFormat inp \<noteq> None
      \<or> instructFormatId inp \<noteq> None
      \<or> (case providerKind inp of None \<Rightarrow> False | Some k \<Rightarrow> k \<in> set TextAdapterKinds))"

definition post_mode_name :: "post_mode \<Rightarrow> string" where
  "post_mode_name md =
     (case md of Merge \<Rightarrow> ''merge'' | MergeTools \<Rightarrow> ''merge_tools'' | Semi \<Rightarrow> ''semi''
      | SemiTools \<Rightarrow> ''semi_tools'' | Strict \<Rightarrow> ''strict'' | StrictTools \<Rightarrow> ''strict_tools''
      | Single \<Rightarrow> ''single'')"

definition serialization_note :: "pipeline_input \<Rightarrow> string" where
  "serialization_note inp =
     (if map_option mode (promptTemplate inp) = Some TextMode
      then ''ordered text-completion prompt template applied''
      else case instructFormat inp of
        Some f \<Rightarrow> NOTE ''custom instruct format '' (fid f) '' applied''
      | None \<Rightarrow> (case instructFormatId inp of
          Some i \<Rightarrow> NOTE ''built-in instruct format '' i '' applied''
        | None \<Rightarrow> if serialize_as_text inp
            then ''text-completion provider serialized the instruct prompt as text''
            else ''native chat message serialization applied''))"

definition build_request :: "pipeline_input \<Rightarrow> string instruct_format \<Rightarrow> generation_message list
    \<Rightarrow> generation_request" where
  "build_request inp format providerMessages =
     (let ov = generationOverrides inp;
          stop = uniqueStopStrings ((if serialize_as_text inp then stopStrings format else [])
            @ connectionStopStrings inp @ or_else (o_stop ov) [])
      in \<lparr>gr_model = model inp, gr_messages = providerMessages, gr_maxTokens = requested_tokens inp,
          gr_temperature = or_else (o_temperature ov) 1, gr_stream = or_else (o_stream ov) True,
          gr_sampling = ov\<lparr>o_maxTokens := None, o_temperature := None, o_stream := None, o_stop := None\<rparr>,
          gr_stop = (if length stop > 0 then Some stop else None),
          gr_assistantPrefill = (if truthy (assistantPrefill inp) then assistantPrefill inp else None)\<rparr>)"

text \<open>The whole run; \<open>None\<close> when it never returns. The template cache is module state.\<close>

definition runPromptPipeline :: "(string \<Rightarrow> delegate) \<Rightarrow> rat \<Rightarrow> pipeline_input \<Rightarrow> delegate lru
    \<Rightarrow> ((pipeline_error + pipeline_result) \<times> delegate lru) option" where
  "runPromptPipeline hb clock inp cache =
     (case pipeline_shift inp of
        None \<Rightarrow> None
      | Some (Inl e) \<Rightarrow> Some (Inl e, cache)
      | Some (Inr st) \<Rightarrow>
          (let final = st_final st;
               messages = map to_generation (kept final);
               format = or_else (instructFormat inp) (getInstructFormat (or_else (instructFormatId inp) ''chatml''));
               (rendered, cache') = renderInstruct hb clock format
                 (map (\<lambda>m. \<lparr>irole = role m, icontent = content m, iname = mname m\<rparr>) (kept final)) cache
           in case rendered of
                None \<Rightarrow> Some (Inl TemplateThrew, cache')
              | Some instructPrompt \<Rightarrow>
                  (let providerMessages = (if serialize_as_text inp then [toMessage User instructPrompt]
                         else postProcessMessages messages (promptPostProcessing inp) (promptNames inp)
                                DEFAULT_PROMPT_PLACEHOLDER);
                       notes = (if serialize_as_text inp then []
                         else case promptPostProcessing inp of None \<Rightarrow> []
                           | Some md \<Rightarrow> [NOTE ''prompt post-processing '' (post_mode_name md) '' applied''])
                   in Some (Inr \<lparr>pr_messages = messages, pr_instructPrompt = instructPrompt,
                        pr_request = build_request inp format providerMessages,
                        pr_excludedCount = length (excluded (st_initial st)) + length (excluded final),
                        pr_diagnostics = st_diagnostics st @ notes @ [serialization_note inp],
                        pr_auditEntries = buildPromptAuditEntries (st_journal st)
                          (excluded (st_initial st)) (st_working st) final (manual_ids inp) (count_tokens inp),
                        pr_tokenBudget = \<lparr>tb_profile = or_else (tokenizerProfile inp) ''approximate-character-v1'',
                          tb_approximate = or_else (tokenizerApproximate inp) (countTokensFn inp = None),
                          tb_contextLimit = context_limit inp, tb_reservedForReply = reserve_tokens inp,
                          tb_promptTokens = estimatedTokens final\<rparr>,
                        pr_contextStrategy = or_else (strategy (st_initial st)) ''truncate''\<rparr>, cache'))))"

section \<open>Identities\<close>

lemma number_messages_refs: "map mref (number_messages n ms) = [n..<n + length ms]"
  by (induction ms arbitrary: n) (simp_all add: upt_rec)

lemma number_messages_elem:
  "x \<in> set (number_messages n ms) \<Longrightarrow> \<exists>m \<in> set ms. \<exists>k. x = m\<lparr>mref := k\<rparr>"
  by (induction ms arbitrary: n) (simp, fastforce)

lemma number_messages_has: "m \<in> set ms \<Longrightarrow> \<exists>k. m\<lparr>mref := k\<rparr> \<in> set (number_messages n ms)"
  by (induction ms arbitrary: n) auto

lemma number_messages_length [simp]: "length (number_messages n ms) = length ms"
  by (induction ms arbitrary: n) auto

lemma number_blocks_refs:
  "map mref (concat (map pmessages (number_blocks n ps)))
     = [n..<n + sum_list (map (\<lambda>p. length (pmessages p)) ps)]"
proof (induction ps arbitrary: n)
  case (Cons p ps)
  let ?l = "length (pmessages p)" and ?s = "sum_list (map (\<lambda>p. length (pmessages p)) ps)"
  have "[n..<n + ?l] @ [n + ?l..<n + ?l + ?s] = [n..<n + (?l + ?s)]"
    using upt_add_eq_append [of n "n + ?l" ?s] by (simp add: add.assoc)
  with Cons [of "n + ?l"] show ?case by (simp add: number_messages_refs)
qed simp

lemma refs_ok_distinct: "distinct (map mref ms) \<Longrightarrow> refs_ok ms"
  by (auto simp: refs_ok_def distinct_map inj_on_def)

lemma refs_ok_subset: "refs_ok ms \<Longrightarrow> set ns \<subseteq> set ms \<Longrightarrow> refs_ok ns"
  unfolding refs_ok_def by blast

lemma set_insertions:
  "set (insertions_at n ps b) = (\<Union>p \<in> {p \<in> set ps. injection_boundary n p = b}. set (pmessages p))"
  by (force simp: insertions_at_def)

lemma set_mergeInChat:
  "set (mergeInChatPrompts hist ps) \<subseteq> set hist \<union> (\<Union>p \<in> set ps. set (pmessages p))"
  by (auto simp: mergeInChatPrompts_def set_insertions split: if_splits)

lemma set_assembled: "set (assembled ps) \<subseteq> (\<Union>p \<in> set ps. set (pmessages p))"
  unfolding assembled_def using set_mergeInChat by (fastforce split: if_splits)

lemma refs_ok_assembled: "refs_ok (fst (assemblePromptMessages inp))"
proof -
  let ?bs = "map (\<lambda>(i, b). prepare_block inp (fill_buckets inp) i b)
    (zip [0..<length (configured_blocks inp)] (configured_blocks inp))"
  have "refs_ok (concat (map pmessages (number_blocks 0 ?bs)))"
    by (rule refs_ok_distinct) (simp only: number_blocks_refs distinct_upt)
  then have "refs_ok (assembled (number_blocks 0 ?bs))"
    by (rule refs_ok_subset) (use set_assembled [of "number_blocks 0 ?bs"] in simp)
  then show ?thesis by (simp add: assemblePromptMessages_def prepared_blocks_def Let_def)
qed

section \<open>System messages of the host are pinned\<close>

text \<open>Every assembled message has an id, and those of the host's system source are pinned.\<close>

definition pins_system :: "prompt_message \<Rightarrow> bool" where
  "pins_system m \<longleftrightarrow> mid m \<noteq> None \<and> (source m = Some SrcSystem \<longrightarrow> pinned m = Some True)"

definition buckets_ok :: "buckets \<Rightarrow> bool" where
  "buckets_ok bs \<longleftrightarrow> (\<forall>x \<in> set bs. \<forall>m \<in> set (snd x). pins_system m)"

lemma buckets_ok_set: "buckets_ok bs \<Longrightarrow> \<forall>m \<in> set ms. pins_system m \<Longrightarrow> buckets_ok (jm_set b ms bs)"
  unfolding buckets_ok_def using in_set_jm_setD by fastforce

lemma buckets_ok_get: "buckets_ok bs \<Longrightarrow> jm_get bs b = Some ms \<Longrightarrow> \<forall>m \<in> set ms. pins_system m"
  unfolding buckets_ok_def using jm_get_in_set by fastforce

lemma buckets_ok_push: "buckets_ok bs \<Longrightarrow> pins_system m \<Longrightarrow> buckets_ok (bucket_push b m bs)"
  by (cases "jm_get bs b") (auto simp: bucket_push_def buckets_ok_get intro!: buckets_ok_set)

lemma buckets_ok_unshift: "buckets_ok bs \<Longrightarrow> pins_system m \<Longrightarrow> buckets_ok (bucket_unshift b m bs)"
  by (cases "jm_get bs b") (auto simp: bucket_unshift_def buckets_ok_get intro!: buckets_ok_set)

lemma buckets_ok_system: "buckets_ok bs \<Longrightarrow> buckets_ok (addSystemBlock inp b i c bs)"
  by (auto simp: addSystemBlock_def split: option.split intro!: buckets_ok_push)
     (simp add: pins_system_def new_message_def)

lemma buckets_ok_context: "buckets_ok bs \<Longrightarrow> buckets_ok (add_context_block inp c bs)"
  by (auto simp: add_context_block_def Let_def intro!: buckets_ok_push)
     (auto simp: pins_system_def new_message_def split: block_source.split)

lemma buckets_ok_history: "buckets_ok bs \<Longrightarrow> buckets_ok (add_history_message inp m bs)"
  by (auto simp: add_history_message_def Let_def intro!: buckets_ok_push)
     (auto simp: pins_system_def new_message_def)

lemma buckets_ok_fold:
  "buckets_ok bs \<Longrightarrow> (\<And>x bs. buckets_ok bs \<Longrightarrow> buckets_ok (f x bs)) \<Longrightarrow> buckets_ok (fold f xs bs)"
  by (induction xs arbitrary: bs) auto

lemma buckets_ok_fill: "buckets_ok (fill_buckets inp)"
proof -
  have "buckets_ok (map (\<lambda>i. (i, [])) PromptBlockIds)" by (simp add: buckets_ok_def)
  then have "buckets_ok (add_persona inp (add_character inp (map (\<lambda>i. (i, [])) PromptBlockIds)))"
    unfolding add_persona_def add_character_def
    by (auto split: option.split persona_placement.split intro!: buckets_ok_system buckets_ok_unshift)
       (simp_all add: pins_system_def new_message_def)
  then have "buckets_ok (fold (add_context_block inp) (contextBlocks inp)
      (add_persona inp (add_character inp (map (\<lambda>i. (i, [])) PromptBlockIds))))"
    by (rule buckets_ok_fold) (rule buckets_ok_context)
  then have base: "buckets_ok (fold (add_history_message inp) (history inp)
      (fold (add_context_block inp) (contextBlocks inp)
        (add_persona inp (add_character inp (map (\<lambda>i. (i, [])) PromptBlockIds)))))"
    by (rule buckets_ok_fold) (rule buckets_ok_history)
  have "buckets_ok (add_user_input inp bs)" if "buckets_ok bs" for bs
    using that by (auto simp: add_user_input_def split: option.split intro!: buckets_ok_push)
      (simp add: pins_system_def new_message_def)
  from this [OF base] show ?thesis
    unfolding fill_buckets_def add_notes_def Let_def by (simp add: buckets_ok_system)
qed

lemma pins_prepared:
  assumes "\<forall>m \<in> set hm. pins_system m"
  shows "\<forall>m \<in> set (preparePromptBlockMessages inp b hm). pins_system m"
  using assms
  by (auto simp: preparePromptBlockMessages_def pins_system_def new_message_def split: option.split)

lemma pins_number: "\<forall>m \<in> set ms. pins_system m \<Longrightarrow> \<forall>m \<in> set (number_messages n ms). pins_system m"
  by (induction ms arbitrary: n) (auto simp: pins_system_def)

lemma pins_prepare:
  assumes "buckets_ok bs"
  shows "\<forall>m \<in> set (pmessages (prepare_block inp bs i b)). pins_system m"
proof -
  have "\<forall>m \<in> set (or_else (jm_get bs (bid b)) []). pins_system m"
    using buckets_ok_get [OF assms] by (cases "jm_get bs (bid b)") (simp_all add: or_else_def)
  then have "\<forall>m \<in> set (if isCorePromptBlockId (bid b) then or_else (jm_get bs (bid b)) [] else []).
      pins_system m" by simp
  from pins_prepared [OF this] show ?thesis
    unfolding prepare_block_def Let_def by (simp only: prepared.simps)
qed

lemma pins_blocks:
  "\<forall>p \<in> set ps. \<forall>m \<in> set (pmessages p). pins_system m
    \<Longrightarrow> \<forall>p \<in> set (number_blocks n ps). \<forall>m \<in> set (pmessages p). pins_system m"
  by (induction ps arbitrary: n) (auto intro: pins_number [rule_format])

lemma pins_assembled: "m \<in> set (fst (assemblePromptMessages inp)) \<Longrightarrow> pins_system m"
proof -
  let ?bs = "map (\<lambda>(i, b). prepare_block inp (fill_buckets inp) i b)
    (zip [0..<length (configured_blocks inp)] (configured_blocks inp))"
  have "\<forall>p \<in> set ?bs. \<forall>m \<in> set (pmessages p). pins_system m"
    using pins_prepare [OF buckets_ok_fill] by auto
  from pins_blocks [OF this, of 0] have "\<forall>p \<in> set (number_blocks 0 ?bs). \<forall>m \<in> set (pmessages p). pins_system m" .
  then show "m \<in> set (fst (assemblePromptMessages inp)) \<Longrightarrow> pins_system m"
    using set_assembled [of "number_blocks 0 ?bs"]
    by (auto simp: assemblePromptMessages_def prepared_blocks_def Let_def)
qed

end
