(* ===== verification/Pipeline_Safety.thy ===== *)
theory Pipeline_Safety
  imports Prompt_Pipeline
begin

text \<open>
  What the prompt pipeline of \<open>Prompt_Pipeline\<close> guarantees to the host: the token budget, the
  survival of protected context against plugin strategies and interceptors, the order of the
  chat history, and an audit that tells what was sent.
\<close>

section \<open>Identifiers\<close>

lemma ids_of_iff [simp]: "i \<in> set (ids_of ms) \<longleftrightarrow> (\<exists>m \<in> set ms. mid m = Some i)"
  by (force simp: ids_of_def split: option.splits)

lemma id_map_snoc:
  "id_map (ms @ [m]) = (case mid m of None \<Rightarrow> id_map ms | Some i \<Rightarrow> jm_set i m (id_map ms))"
  by (cases "mid m") (simp_all add: id_map_def)

lemma id_map_get: "jm_get (id_map ms) i = Some m \<Longrightarrow> m \<in> set ms \<and> mid m = Some i"
  by (induction ms rule: rev_induct) (auto simp: id_map_snoc id_map_def split: option.splits if_splits)

lemma id_map_None: "jm_get (id_map ms) i = None \<longleftrightarrow> (\<forall>m \<in> set ms. mid m \<noteq> Some i)"
  by (induction ms rule: rev_induct) (auto simp: id_map_snoc id_map_def split: option.splits)

lemma id_map_keys: "i \<in> set (jm_keys (id_map ms)) \<longleftrightarrow> (\<exists>m \<in> set ms. mid m = Some i)"
  using id_map_None [of ms i] jm_get_None_iff [of "id_map ms" i]
  by (cases "jm_get (id_map ms) i = None") auto

text \<open>Messages with a proper id are told apart by it.\<close>

definition ids_unique :: "prompt_message list \<Rightarrow> bool" where
  "ids_unique ms \<longleftrightarrow> (\<forall>x \<in> set ms. \<forall>y \<in> set ms. truthy (mid x) \<longrightarrow> mid x = mid y \<longrightarrow> x = y)"

lemma ids_unique_get:
  "ids_unique ms \<Longrightarrow> m \<in> set ms \<Longrightarrow> mid m = Some i \<Longrightarrow> i \<noteq> [] \<Longrightarrow> jm_get (id_map ms) i = Some m"
  using id_map_get [of ms i] id_map_None [of ms i]
  by (cases "jm_get (id_map ms) i") (auto simp: ids_unique_def truthy_def)

lemma dedupe_go_subset: "x \<in> set (dedupe_go s o' ms) \<Longrightarrow> x \<in> set ms \<and> (truthy (mid x) \<longrightarrow> the (mid x) \<notin> set s)"
  by (induction s o' ms rule: dedupe_go.induct) (auto split: if_splits)

lemma ids_unique_Cons:
  assumes "ids_unique ms" and "\<And>y. y \<in> set ms \<Longrightarrow> truthy (mid m) \<Longrightarrow> mid y \<noteq> mid m"
  shows "ids_unique (m # ms)"
  unfolding ids_unique_def
proof (intro ballI impI)
  fix x y
  assume xy: "x \<in> set (m # ms)" "y \<in> set (m # ms)" "truthy (mid x)" "mid x = mid y"
  show "x = y"
  proof (cases "x = m")
    case True
    with xy assms(2) [of y] show ?thesis by auto
  next
    case False
    then have x: "x \<in> set ms" using xy(1) by simp
    show ?thesis
    proof (cases "y = m")
      case True
      with xy x assms(2) [of x] show ?thesis by simp
    next
      case False
      then have "y \<in> set ms" using xy(2) by simp
      with x xy(3,4) assms(1) show ?thesis unfolding ids_unique_def by blast
    qed
  qed
qed

lemma dedupe_go_unique: "ids_unique (dedupe_go s o' ms)"
proof (induction ms arbitrary: s o')
  case Nil
  then show ?case by (simp add: ids_unique_def)
next
  case (Cons m ms)
  have new: "mid y \<noteq> mid m" if "truthy (mid m)" "y \<in> set (dedupe_go (the (mid m) # s) o' ms)" for y
    using dedupe_go_subset [OF that(2)] that(1) by (auto simp: truthy_def)
  show ?case using Cons new by (auto intro: ids_unique_Cons)
qed

lemma dedupe_go_keeps:
  "m \<in> set ms \<Longrightarrow> truthy (mid m) \<Longrightarrow> the (mid m) \<notin> set s
    \<Longrightarrow> \<exists>x \<in> set (dedupe_go s o' ms). mid x = mid m"
proof (induction ms arbitrary: s o')
  case (Cons x ms)
  show ?case
  proof (cases "mid x = mid m")
    case True
    with Cons.prems show ?thesis by simp
  next
    case False
    then have m: "m \<in> set ms" using Cons.prems(1) by auto
    have "the (mid m) \<notin> set (the (mid x) # s)" if tx: "truthy (mid x)"
      using False Cons.prems(2,3) tx by (auto simp: truthy_def)
    from Cons.IH [OF m Cons.prems(2) this, of o'] Cons.IH [OF m Cons.prems(2,3), of o']
      Cons.IH [OF m Cons.prems(2,3), of "x # o'"]
    show ?thesis by (cases "truthy (mid x)"; cases "mem_ref o' x"; simp; blast?)
  qed
qed simp

lemma dedupe_props:
  "set (dedupePromptMessages ms) \<subseteq> set ms" "ids_unique (dedupePromptMessages ms)"
  "m \<in> set ms \<Longrightarrow> truthy (mid m) \<Longrightarrow> \<exists>x \<in> set (dedupePromptMessages ms). mid x = mid m"
  using dedupe_go_subset [of _ "[]" "[]" ms] dedupe_go_unique [of "[]" "[]" ms]
    dedupe_go_keeps [of m ms "[]" "[]"]
  by (auto simp: dedupePromptMessages_def)

section \<open>The strategy stage\<close>

lemma kept_protected:
  "refs_ok ms \<Longrightarrow> m \<in> set ms \<Longrightarrow> isProtectedMessage m \<Longrightarrow> m \<in> set (kept (shiftContext ms ct b opt))"
  using kept_iff [of ms m ct b opt] excluded_elements [of m ms ct b opt] by blast

lemma kept_subset: "set (kept (shiftContext ms ct b opt)) \<subseteq> set ms"
  by (auto simp: shiftContext_simps(1) remaining_def)

lemma host_protected_protected: "host_protected m \<Longrightarrow> isProtectedMessage m"
  by (auto simp: host_protected_def isProtectedMessage_def)

lemma checked_strategy_cases:
  obtains "fst (checked_strategy s raw ct b r)
      = (shiftContext raw ct b no_options)\<lparr>strategy := Some ''truncate''\<rparr>"
  | "fst (checked_strategy s raw ct b r) = r"
    "\<And>m. m \<in> set raw \<Longrightarrow> host_protected m \<Longrightarrow> \<exists>x \<in> set (kept r). mid x = mid m"
proof (cases "list_ex (\<lambda>i. i \<notin> set (ids_of (kept r))) (jm_keys (id_map (filter host_protected raw)))")
  case True
  with that(1) show thesis by (simp add: checked_strategy_def Let_def)
next
  case False
  have "\<exists>x \<in> set (kept r). mid x = mid m" if m: "m \<in> set raw" "host_protected m" for m
  proof -
    obtain i where i: "mid m = Some i" using m by (auto simp: host_protected_def)
    have "i \<in> set (jm_keys (id_map (filter host_protected raw)))"
      unfolding id_map_keys using m i by auto
    with False i show ?thesis by (auto simp: list_ex_iff simp del: jm_has_iff)
  qed
  with False that(2) show thesis by (simp add: checked_strategy_def Let_def)
qed

text \<open>The host message of a protected id is in the context handed to the interceptors, alone
  under its id.\<close>

lemma initial_keeps:
  assumes refs: "refs_ok (raw @ kept r0)"
  shows "m \<in> set raw \<Longrightarrow> host_protected m \<Longrightarrow> truthy (mid m) \<Longrightarrow> \<exists>p \<in> set (kept (initial_shift s raw ct b (fst (checked_strategy s' raw ct b' r0)))).
    p \<in> set raw \<and> host_protected p \<and> mid p = mid m"
    and "refs_ok (kept (initial_shift s raw ct b (fst (checked_strategy s' raw ct b' r0))))"
    and "ids_unique (kept (initial_shift s raw ct b (fst (checked_strategy s' raw ct b' r0))))"
proof -
  let ?r = "fst (checked_strategy s' raw ct b' r0)"
  let ?pm = "id_map (filter host_protected raw)"
  let ?mapped = "map (host_original ?pm) (kept ?r)"
  let ?san = "dedupePromptMessages ?mapped"
  have kept: "kept (initial_shift s raw ct b ?r) = kept (shiftContext ?san ct b no_options)"
    by (simp add: initial_shift_def Let_def)
  have refs_raw: "refs_ok raw" using refs by (rule refs_ok_subset) simp
  have sub: "set (kept ?r) \<subseteq> set (raw @ kept r0)"
    by (rule checked_strategy_cases [of s' raw ct b' r0])
       (use kept_subset [of raw ct b' no_options] in auto)
  have mapped: "set ?mapped \<subseteq> set (raw @ kept r0)"
  proof -
    have "host_original ?pm y = y \<or> host_original ?pm y \<in> set raw" for y
      using id_map_get [of "filter host_protected raw" "the (mid y)"]
      by (cases "jm_get ?pm (the (mid y))") (auto simp: host_original_def or_else_def)
    with sub show ?thesis by (auto simp del: set_append, metis Un_iff set_append subsetD)
  qed
  have refs_san: "refs_ok ?san"
    using refs by (rule refs_ok_subset) (use dedupe_props(1) [of ?mapped] mapped in blast)
  from refs_san show "refs_ok (kept (initial_shift s raw ct b ?r))"
    unfolding kept by (rule refs_ok_subset) (rule kept_subset)
  show "ids_unique (kept (initial_shift s raw ct b ?r))"
    unfolding kept using dedupe_props(2) [of ?mapped] kept_subset [of ?san ct b no_options]
    unfolding ids_unique_def by blast
  assume m: "m \<in> set raw" "host_protected m" "truthy (mid m)"
  obtain i where i: "mid m = Some i" "i \<noteq> []" using m(3) by (auto simp: truthy_def)
  have present: "\<exists>x \<in> set (kept ?r). mid x = mid m"
  proof (rule checked_strategy_cases [of s' raw ct b' r0])
    assume "?r = (shiftContext raw ct b' no_options)\<lparr>strategy := Some ''truncate''\<rparr>"
    then have "kept ?r = kept (shiftContext raw ct b' no_options)" by simp
    with kept_protected [OF refs_raw m(1) host_protected_protected [OF m(2)]] show ?thesis by auto
  next
    assume "?r = r0" "\<And>m. m \<in> set raw \<Longrightarrow> host_protected m \<Longrightarrow> \<exists>x \<in> set (kept r0). mid x = mid m"
    with m show ?thesis by auto
  qed
  have "jm_get ?pm i \<noteq> None" unfolding id_map_None using m i by auto
  then obtain p where p: "jm_get ?pm i = Some p" by auto
  with id_map_get [OF p] have hp: "host_protected p" "mid p = Some i" "p \<in> set raw" by auto
  have orig: "mid x = Some i \<Longrightarrow> host_original ?pm x = p" for x
    using p i by (simp add: host_original_def truthy_def or_else_def)
  have only: "x = p" if x: "x \<in> set ?mapped" "mid x = Some i" for x
  proof -
    obtain y where y: "y \<in> set (kept ?r)" "x = host_original ?pm y" using x(1) by auto
    show ?thesis
    proof (cases "mid y = Some i")
      case False
      then have "mid x = mid y"
        using y(2) id_map_get [of "filter host_protected raw" "the (mid y)"]
        by (cases "jm_get ?pm (the (mid y))") (auto simp: host_original_def or_else_def truthy_def)
      with False x(2) show ?thesis by simp
    qed (use y orig in simp)
  qed
  have "p \<in> set ?mapped" using present orig i by (metis image_eqI list.set_map)
  moreover have "truthy (mid p)" using hp i by (simp add: truthy_def)
  ultimately obtain x where x: "x \<in> set ?san" "mid x = mid p" using dedupe_props(3) by blast
  with only [of x] dedupe_props(1) [of ?mapped] hp(2) have "p \<in> set ?san" by auto
  with kept_protected [OF refs_san _ host_protected_protected [OF hp(1)]]
  show "\<exists>p \<in> set (kept (initial_shift s raw ct b ?r)). p \<in> set raw \<and> host_protected p \<and> mid p = mid m"
    unfolding kept using hp i by auto
qed

section \<open>Restoring protected messages\<close>

lemma restore_one_inv:
  assumes "set pres \<subseteq> set (ids_of out)" and "restore_one original pm (out, pres) = (out', pres')"
  shows "set out \<subseteq> set out'" and "set out' \<subseteq> insert pm (set out)" and "set pres \<subseteq> set pres'"
    and "set pres' \<subseteq> set (ids_of out')"
    and "truthy (mid pm) \<Longrightarrow> host_protected pm \<Longrightarrow> the (mid pm) \<in> set pres'"
    and "subseq out out'"
proof -
  have sub: "subseq out (splice_in n [pm] out)" for n
  proof -
    have "subseq (take n out @ drop n out) (take n out @ [pm] @ drop n out)"
      by (simp only: subseq_append') (simp add: list_emb_Cons)
    then show ?thesis by (simp add: splice_in_def)
  qed
  show "set out \<subseteq> set out'" "set out' \<subseteq> insert pm (set out)" "set pres \<subseteq> set pres'"
    "set pres' \<subseteq> set (ids_of out')"
    "truthy (mid pm) \<Longrightarrow> host_protected pm \<Longrightarrow> the (mid pm) \<in> set pres'" "subseq out out'"
    using assms sub
    by (auto simp: restore_one_def Let_def truthy_def host_protected_def split: if_splits)
qed

lemma restore_fold_inv:
  assumes "set pres \<subseteq> set (ids_of out)" and "fold (restore_one original) ps (out, pres) = (out', pres')"
  shows "set out \<subseteq> set out' \<and> set out' \<subseteq> set out \<union> set ps \<and> set pres' \<subseteq> set (ids_of out')
    \<and> set pres \<subseteq> set pres' \<and> subseq out out'
    \<and> (\<forall>pm \<in> set ps. truthy (mid pm) \<longrightarrow> host_protected pm \<longrightarrow> the (mid pm) \<in> set pres')"
  using assms
proof (induction ps arbitrary: out pres)
  case (Cons p ps)
  obtain o1 p1 where step: "restore_one original p (out, pres) = (o1, p1)" by fastforce
  note one = restore_one_inv [OF Cons.prems(1) step]
  from Cons.prems(2) step have rest: "fold (restore_one original) ps (o1, p1) = (out', pres')" by simp
  from Cons.IH [OF one(4) rest] one show ?case by (auto intro: subseq_order.trans)
qed simp

lemma restore_props:
  shows "set candidate \<subseteq> set (restoreProtectedMessages candidate original)"
    and "set (restoreProtectedMessages candidate original) \<subseteq> set candidate \<union> set original"
    and "subseq candidate (restoreProtectedMessages candidate original)"
    and "pm \<in> set original \<Longrightarrow> truthy (mid pm) \<Longrightarrow> host_protected pm
      \<Longrightarrow> \<exists>x \<in> set (restoreProtectedMessages candidate original). mid x = mid pm"
proof -
  obtain out pres where f: "fold (restore_one original) original (candidate, ids_of candidate) = (out, pres)"
    by fastforce
  from restore_fold_inv [OF _ f]
  have inv: "set candidate \<subseteq> set out \<and> set out \<subseteq> set candidate \<union> set original \<and> set pres \<subseteq> set (ids_of out)
    \<and> set (ids_of candidate) \<subseteq> set pres \<and> subseq candidate out
    \<and> (\<forall>pm \<in> set original. truthy (mid pm) \<longrightarrow> host_protected pm \<longrightarrow> the (mid pm) \<in> set pres)" by simp
  have r: "restoreProtectedMessages candidate original = out"
    by (simp add: restoreProtectedMessages_def f)
  show "set candidate \<subseteq> set (restoreProtectedMessages candidate original)"
    "set (restoreProtectedMessages candidate original) \<subseteq> set candidate \<union> set original"
    "subseq candidate (restoreProtectedMessages candidate original)" using inv by (simp_all add: r)
  show "\<exists>x \<in> set (restoreProtectedMessages candidate original). mid x = mid pm"
    if "pm \<in> set original" "truthy (mid pm)" "host_protected pm"
  proof -
    have "the (mid pm) \<in> set (ids_of out)" using inv that by blast
    then show ?thesis using that(2) by (auto simp: r truthy_def)
  qed
qed

section \<open>Interceptors\<close>

lemma next_ref_above: "m \<in> set ms \<Longrightarrow> mref m < next_ref ms"
proof -
  have "n \<le> fold max xs n \<and> (\<forall>k \<in> set xs. k \<le> fold max xs n)" for xs :: "nat list" and n
  proof (induction xs arbitrary: n)
    case (Cons x xs)
    from Cons [of "max x n"] show ?case by auto
  qed simp
  then have "\<forall>k \<in> set (map mref ms). k \<le> fold max (map mref ms) 0" by blast
  then show "m \<in> set ms \<Longrightarrow> mref m < next_ref ms" by (simp add: next_ref_def less_Suc_eq_le)
qed

lemma numbered_refs: "x \<in> set (number_messages n ms) \<Longrightarrow> n \<le> mref x"
  using number_messages_refs [of n ms] by (metis atLeastLessThan_iff image_eqI list.set_map set_upt)

lemma refs_ok_numbered: "refs_ok (number_messages n ms)"
  by (rule refs_ok_distinct) (simp add: number_messages_refs)

lemma intercepted_refs:
  assumes "refs_ok hk"
  shows "refs_ok (hk @ intercepted_messages hk working result)"
proof -
  let ?n = "next_ref (hk @ working @ result)"
  let ?c = "number_messages ?n (map (host_flags (id_map hk)) result)"
  have apart: "mref x \<noteq> mref y" if "x \<in> set hk" "y \<in> set ?c" for x y
  proof -
    have "mref x < ?n" using that(1) by (intro next_ref_above) simp
    with numbered_refs [OF that(2)] show ?thesis by simp
  qed
  then have "refs_ok (hk @ ?c)"
    using assms refs_ok_numbered [of ?n "map (host_flags (id_map hk)) result"]
    unfolding refs_ok_def by (metis Un_iff set_append)
  then show ?thesis
    by (rule refs_ok_subset) (use restore_props(2) [of ?c hk] in \<open>auto simp: intercepted_messages_def\<close>)
qed

definition pins_kept :: "prompt_message list \<Rightarrow> prompt_message list \<Rightarrow> bool" where
  "pins_kept hk w \<longleftrightarrow> (\<forall>p \<in> set hk. truthy (mid p) \<longrightarrow> pinned p = Some True
      \<longrightarrow> (\<exists>x \<in> set w. mid x = mid p \<and> pinned x = Some True))"

lemma intercepted_pins:
  assumes "ids_unique hk"
  shows "pins_kept hk (intercepted_messages hk working result)"
  unfolding pins_kept_def
proof (intro ballI impI)
  fix p assume p: "p \<in> set hk" "truthy (mid p)" "pinned p = Some True"
  then obtain i where i: "mid p = Some i" "i \<noteq> []" by (auto simp: truthy_def)
  let ?n = "next_ref (hk @ working @ result)"
  let ?c = "number_messages ?n (map (host_flags (id_map hk)) result)"
  have get: "jm_get (id_map hk) i = Some p" using ids_unique_get [OF assms p(1) i] .
  have flags: "pinned x = Some True" if c: "x \<in> set ?c" "mid x = Some i" for x
  proof -
    obtain y k where "x = (host_flags (id_map hk) y)\<lparr>mref := k\<rparr>"
      using number_messages_elem [OF c(1)] by auto
    with c(2) get i p(3) show ?thesis
      by (simp add: host_flags_def Let_def truthy_def)
  qed
  from p have "host_protected p" by (simp add: host_protected_def truthy_def)
  from restore_props(4) [OF p(1,2) this, of ?c] obtain x where
    x: "x \<in> set (restoreProtectedMessages ?c hk)" "mid x = mid p" by blast
  with restore_props(2) [of ?c hk] have "x \<in> set ?c \<or> x \<in> set hk" by blast
  then have "pinned x = Some True"
  proof
    assume "x \<in> set hk"
    with assms p x have "x = p" unfolding ids_unique_def by metis
    with p show ?thesis by simp
  qed (use flags x i in simp)
  with x show "\<exists>x \<in> set (intercepted_messages hk working result). mid x = mid p \<and> pinned x = Some True"
    by (auto simp: intercepted_messages_def)
qed

lemma interceptor_step_cases:
  obtains "fst (interceptor_step perm hk i w) = w"
  | result where "intercept i w = Intercepted result"
      "fst (interceptor_step perm hk i w) = intercepted_messages hk w result"
  unfolding interceptor_step_def Let_def
  by (cases "interceptor_denied perm i"; cases "intercept i w") simp_all

lemma run_interceptors_inv:
  assumes "refs_ok hk" and "ids_unique hk" and "refs_ok (hk @ w)" and "pins_kept hk w"
    and "run_interceptors ab perm hk k its w ds = Inr (w', ds')"
  shows "refs_ok (hk @ w') \<and> pins_kept hk w'"
  using assms(3-)
proof (induction its arbitrary: k w ds)
  case (Cons i its)
  obtain w1 nt where step: "interceptor_step perm hk i w = (w1, nt)" by fastforce
  have "refs_ok (hk @ w1) \<and> pins_kept hk w1"
    by (rule interceptor_step_cases [of perm hk i w])
       (use step Cons.prems intercepted_refs [OF assms(1)] intercepted_pins [OF assms(2)] in auto)
  with Cons.IH [of w1] Cons.prems(3) step show ?case by (auto split: if_splits)
qed simp

text \<open>A message that is protected after an interceptor ran goes back to a message of the host.\<close>

lemma intercepted_protected:
  assumes "x \<in> set (intercepted_messages hk working result)" and "isProtectedMessage x"
  shows "\<exists>h \<in> set hk. mid h = mid x \<and> (pinned h = Some True \<or> isProtectedMessage h \<or> source h = Some SrcSystem)"
proof -
  let ?n = "next_ref (hk @ working @ result)"
  let ?c = "number_messages ?n (map (host_flags (id_map hk)) result)"
  have "x \<in> set ?c \<or> x \<in> set hk"
    using assms(1) restore_props(2) [of ?c hk] by (auto simp: intercepted_messages_def)
  then show ?thesis
  proof
    assume "x \<in> set ?c"
    then obtain y k where x: "x = (host_flags (id_map hk) y)\<lparr>mref := k\<rparr>"
      using number_messages_elem [of x] by fastforce
    have "\<exists>h. truthy (mid y) \<and> jm_get (id_map hk) (the (mid y)) = Some h
        \<and> (pinned h = Some True \<or> source h = Some SrcSystem)"
    proof (cases "jm_get (id_map hk) (the (mid y))")
      case None
      then show ?thesis using assms(2)
        by (auto simp: x host_flags_def isProtectedMessage_def or_else_def Let_def split: if_splits)
    next
      case (Some h)
      then show ?thesis using assms(2)
        by (auto simp: x host_flags_def isProtectedMessage_def or_else_def Let_def
            split: if_splits option.splits)
    qed
    then obtain h where h: "truthy (mid y)" "jm_get (id_map hk) (the (mid y)) = Some h"
      "pinned h = Some True \<or> source h = Some SrcSystem" by blast
    from id_map_get [OF h(2)] h(1,3) show ?thesis
      by (auto simp: x host_flags_def Let_def truthy_def)
  qed (use assms(2) in auto)
qed

section \<open>The run\<close>

lemma pipeline_shift_Inr:
  assumes "pipeline_shift inp = Some (Inr st)"
  obtains nts w ds where
    "st_raw st = fst (assemblePromptMessages inp)" "st_journal st = snd (assemblePromptMessages inp)"
    "0 < context_limit inp - reserve_tokens inp"
    "strategy_stage (contextStrategy inp) (st_raw st) (count_tokens inp)
       (context_limit inp - reserve_tokens inp) (manual_ids inp) = Some (st_initial st, nts)"
    "fitsBudget (st_initial st)"
    "run_interceptors (abortedAt inp) (hasPermission inp) (kept (st_initial st)) 1
       (sorted_interceptors (interceptors inp)) (kept (st_initial st)) ds = Inr (st_working st, w)"
    "st_final st = shiftContext (st_working st) (count_tokens inp)
       (context_limit inp - reserve_tokens inp) no_options"
    "fitsBudget (st_final st)"
  using assms
  by (auto simp: pipeline_shift_def Let_def split: if_splits prod.splits option.splits sum.splits)

lemma strategy_stage_initial:
  assumes "strategy_stage s raw ct b manual = Some (init, nts)"
  obtains r0 where "init = initial_shift s raw ct b (fst (checked_strategy s raw ct b r0))"
    "kept r0 = kept (shiftContext raw ct b no_options)
     \<or> (\<exists>st. s = Some st \<and> ps_shift st \<lparr>req_messages = raw, req_countTokens = ct,
          req_budgetTokens = b, req_manualExcludedIds = Some manual\<rparr> = Shifted r0)"
proof -
  obtain r0 where r0: "(case s of None \<Rightarrow> Some (shiftContext raw ct b no_options)
      | Some st \<Rightarrow> runContextStrategy st raw ct b manual) = Some r0"
    using assms by (auto simp: strategy_stage_def split: option.splits)
  then have "init = initial_shift s raw ct b (fst (checked_strategy s raw ct b r0))"
    using assms by (auto simp: strategy_stage_def Let_def split: prod.splits)
  moreover have "kept r0 = kept (shiftContext raw ct b no_options)
     \<or> (\<exists>st. s = Some st \<and> ps_shift st \<lparr>req_messages = raw, req_countTokens = ct,
          req_budgetTokens = b, req_manualExcludedIds = Some manual\<rparr> = Shifted r0)"
    using r0 by (auto simp: runContextStrategy_def split: option.splits shift_outcome.splits)
  ultimately show thesis using that by blast
qed

lemma run_Inr:
  assumes "runPromptPipeline hb clock inp cache = Some (Inr res, cache')"
  obtains st where "pipeline_shift inp = Some (Inr st)"
    "pr_messages res = map to_generation (kept (st_final st))"
    "gr_maxTokens (pr_request res) = requested_tokens inp"
    "tb_contextLimit (pr_tokenBudget res) = context_limit inp"
    "tb_promptTokens (pr_tokenBudget res) = estimatedTokens (st_final st)"
    "pr_auditEntries res = buildPromptAuditEntries (st_journal st) (excluded (st_initial st))
       (st_working st) (st_final st) (manual_ids inp) (count_tokens inp)"
  using assms
  by (auto simp: runPromptPipeline_def build_request_def Let_def
      split: option.splits sum.splits prod.splits)

lemma run_request:
  assumes "runPromptPipeline hb clock inp cache = Some (Inr res, cache')"
    and "\<not> serialize_as_text inp" and "promptPostProcessing inp = None"
    and "\<not> truthy (assistantPrefill inp)"
  shows "map gcontent (gr_messages (pr_request res)) = map gcontent (pr_messages res)"
    and "map grole (gr_messages (pr_request res)) = map grole (pr_messages res)"
    and "gr_assistantPrefill (pr_request res) = None"
  using assms
  by (auto simp: runPromptPipeline_def build_request_def postProcessMessages_def Let_def
      toMessage_def split: option.splits sum.splits prod.splits)

text \<open>A strategy returns objects it was handed, unchanged, or objects of its own.\<close>

definition identity_ok :: "pipeline_input \<Rightarrow> bool" where
  "identity_ok inp \<longleftrightarrow> (\<forall>s q r. contextStrategy inp = Some s \<longrightarrow> ps_shift s q = Shifted r
      \<longrightarrow> refs_ok (req_messages q) \<longrightarrow> refs_ok (req_messages q @ kept r))"

text \<open>The state after the interceptors: object identities are consistent, and every protected
  message of the assembly is there.\<close>

lemma shift_state_inv:
  assumes st: "pipeline_shift inp = Some (Inr st)"
    and identity: "identity_ok inp"
  shows "refs_ok (kept (st_initial st) @ st_working st)"
    and "m \<in> set (fst (assemblePromptMessages inp)) \<Longrightarrow> host_protected m \<Longrightarrow> truthy (mid m)
      \<Longrightarrow> \<exists>x \<in> set (st_working st). mid x = mid m \<and> pinned x = Some True"
    and "st_final st = shiftContext (st_working st) (count_tokens inp)
      (context_limit inp - reserve_tokens inp) no_options"
proof -
  let ?b = "context_limit inp - reserve_tokens inp" and ?ct = "count_tokens inp"
  obtain nts w ds where raw: "st_raw st = fst (assemblePromptMessages inp)"
    and stage: "strategy_stage (contextStrategy inp) (st_raw st) ?ct ?b (manual_ids inp)
       = Some (st_initial st, nts)"
    and loop: "run_interceptors (abortedAt inp) (hasPermission inp) (kept (st_initial st)) 1
       (sorted_interceptors (interceptors inp)) (kept (st_initial st)) ds = Inr (st_working st, w)"
    and final: "st_final st = shiftContext (st_working st) ?ct ?b no_options"
    using pipeline_shift_Inr [OF st] by metis
  show "st_final st = shiftContext (st_working st) ?ct ?b no_options" by (rule final)
  have refs_raw: "refs_ok (st_raw st)" unfolding raw by (rule refs_ok_assembled)
  obtain r0 where init: "st_initial st = initial_shift (contextStrategy inp) (st_raw st) ?ct ?b
      (fst (checked_strategy (contextStrategy inp) (st_raw st) ?ct ?b r0))"
    and r0: "kept r0 = kept (shiftContext (st_raw st) ?ct ?b no_options)
     \<or> (\<exists>s. contextStrategy inp = Some s \<and> ps_shift s \<lparr>req_messages = st_raw st, req_countTokens = ?ct,
          req_budgetTokens = ?b, req_manualExcludedIds = Some (manual_ids inp)\<rparr> = Shifted r0)"
    using strategy_stage_initial [OF stage] by metis
  have both: "refs_ok (st_raw st @ kept r0)"
    using r0
  proof
    assume "kept r0 = kept (shiftContext (st_raw st) ?ct ?b no_options)"
    then show ?thesis
      using kept_subset [of "st_raw st" ?ct ?b no_options]
      by (intro refs_ok_subset [OF refs_raw]) auto
  qed (use identity [unfolded identity_ok_def] refs_raw in fastforce)
  let ?s = "contextStrategy inp"
  note keeps = initial_keeps(1) [OF both, of _ ?s ?ct ?b ?s ?b, folded init]
    initial_keeps(2,3) [OF both, of ?s ?ct ?b ?s ?b, folded init]
  have "refs_ok (kept (st_initial st) @ kept (st_initial st))"
    using keeps(2) by (rule refs_ok_subset) simp
  moreover have "pins_kept (kept (st_initial st)) (kept (st_initial st))"
    by (auto simp: pins_kept_def)
  ultimately have work: "refs_ok (kept (st_initial st) @ st_working st)"
    "pins_kept (kept (st_initial st)) (st_working st)"
    using run_interceptors_inv [OF keeps(2,3) _ _ loop] by auto
  then show "refs_ok (kept (st_initial st) @ st_working st)" by simp
  assume m: "m \<in> set (fst (assemblePromptMessages inp))" "host_protected m" "truthy (mid m)"
  from keeps(1) [OF m(1) [folded raw] m(2,3)] obtain p where p: "p \<in> set (kept (st_initial st))"
    "p \<in> set (st_raw st)" "host_protected p" "mid p = mid m" by blast
  have "pinned p = Some True"
    using pins_assembled [OF p(2) [unfolded raw]] p(3) by (auto simp: pins_system_def host_protected_def)
  then show "\<exists>x \<in> set (st_working st). mid x = mid m \<and> pinned x = Some True"
    using p m(3) work(2) unfolding pins_kept_def by metis
qed

section \<open>In-chat insertion\<close>

definition chat_slot :: "prompt_message list \<Rightarrow> prepared list \<Rightarrow> nat \<Rightarrow> prompt_message list" where
  "chat_slot hist ps b = insertions_at (length hist) ps b @ (if b < length hist then [hist ! b] else [])"

lemma merge_slots: "mergeInChatPrompts hist ps = concat (map (chat_slot hist ps) [0..<Suc (length hist)])"
  by (simp only: mergeInChatPrompts_def chat_slot_def [abs_def])

lemma mset_insertions_Cons:
  "mset (insertions_at n (p # ps) b)
     = (if injection_boundary n p = b then mset (pmessages p) else {#}) + mset (insertions_at n ps b)"
  by (simp add: insertions_at_def image_mset.compositionality comp_def)

lemma sum_single: "b0 < n \<Longrightarrow> (\<Sum>b\<leftarrow>[0..<n]. if b0 = b then M else {#}) = (M :: 'a multiset)"
proof (induction n)
  case (Suc n)
  have none: "b0 \<notin> set bs \<Longrightarrow> (\<Sum>b\<leftarrow>bs. if b0 = b then M else {#}) = {#}" for bs
    by (induction bs) auto
  from none [of "[0..<n]"] Suc show ?case by (cases "b0 = n") auto
qed simp

lemma mset_all_insertions:
  "(\<Sum>b\<leftarrow>[0..<Suc n]. mset (insertions_at n ps b)) = mset (concat (map pmessages ps))"
proof (induction ps)
  case Nil
  then show ?case by (simp add: insertions_at_def)
next
  case (Cons p ps)
  have "injection_boundary n p < Suc n" by (simp add: injection_boundary_def)
  from sum_single [OF this, of "mset (pmessages p)"] Cons show ?case
    by (simp only: mset_insertions_Cons sum_list_addf) simp
qed

lemma nth_slots: "k \<le> length hist \<Longrightarrow>
    concat (map (\<lambda>b. if b < length hist then [hist ! b] else []) [0..<k]) = take k hist"
  by (induction k) (auto simp: take_Suc_conv_app_nth)

lemma mset_concat_sum: "mset (concat (map f xs)) = (\<Sum>x\<leftarrow>xs. mset (f x))"
  by (induction xs) auto

lemma subseq_slots: "subseq (concat (map (\<lambda>b. if b < length hist then [hist ! b] else []) bs))
    (concat (map (chat_slot hist ps) bs))"
  by (induction bs) (auto simp: chat_slot_def intro!: list_emb_append_mono list_emb_append2)

section \<open>Properties\<close>

definition demo_input :: pipeline_input where
  "demo_input =
     \<lparr>character = None, persona = None, contextBlocks = [],
      history = [\<lparr>h_id = ''m1'', h_role = User, h_content = ''hello'', h_name = None, h_meta = []\<rparr>],
      userInput = None, model = ''x'', maxContextTokens = Some 300, reserveForReply = Some 100,
      instructFormatId = None, instructFormat = None, promptTemplate = None, generationType = None,
      generationOverrides = no_overrides, connectionStopStrings = [], assistantPrefill = None,
      providerKind = None, promptPostProcessing = Some Strict,
      promptNames = \<lparr>charName = None, userName = None\<rparr>,
      interceptors = [Interceptor ''drop'' None None None (\<lambda>ms. Intercepted [])],
      hasPermission = None, countTokensFn = Some (\<lambda>s. int (length s)), tokenizerProfile = None,
      tokenizerApproximate = None,
      contextStrategy = Some (PipelineStrategy ''evil'' (\<lambda>q. Shifted
        \<lparr>kept = [], excluded = req_messages q, estimatedTokens = 0, truncated = True,
         fitsBudget = True, strategy = None, summaryCreated = None, manualFallback = None\<rparr>)),
      manualExcludedIds = None, abortedAt = (\<lambda>_. False), macroVariables = None,
      now = \<lparr>fullYear = 2024, month0 = 0, dayOfMonth = 1, hours = 0, minutes = 0, dayOfWeek = 1\<rparr>,
      personaPlacement = None, randomDraws = (\<lambda>_ _. 0), scriptGroup = (\<lambda>_. 5)\<rparr>"

definition demo_run :: "(pipeline_error + pipeline_result) \<times> delegate lru" where
  "demo_run = the (runPromptPipeline example_hb 0 demo_input empty_template_cache)"

lemma sum_contents:
  "(\<Sum>m\<leftarrow>ms. f (gcontent m) + 4) = (\<Sum>c\<leftarrow>map gcontent ms. f c + (4 :: int))"
  by (simp add: comp_def)

text \<open>C2: a chat request fits the context: the tokens of the messages handed to the provider,
  counted one by one with the overhead of each, and the tokens the reply may take together stay
  within the context limit. This is the case where nothing reshapes or lengthens the prompt once it
  was fitted: the messages are not rendered to one text, no post-processing mode is set and the
  connection has no prefill.\<close>

theorem request_fits_context:
  assumes "runPromptPipeline hb clock inp cache = Some (Inr res, cache')"
    and "\<not> serialize_as_text inp" and "promptPostProcessing inp = None"
    and "\<not> truthy (assistantPrefill inp)"
  shows "(\<Sum>m\<leftarrow>gr_messages (pr_request res). count_tokens inp (gcontent m) + 4)
        + gr_maxTokens (pr_request res) \<le> context_limit inp
    \<and> gr_assistantPrefill (pr_request res) = None
    \<and> map gcontent (gr_messages (pr_request res)) = map gcontent (pr_messages res)
    \<and> tb_promptTokens (pr_tokenBudget res)
      = (\<Sum>m\<leftarrow>gr_messages (pr_request res). count_tokens inp (gcontent m) + 4)
    \<and> tb_contextLimit (pr_tokenBudget res) = context_limit inp"
proof -
  obtain st where st: "pipeline_shift inp = Some (Inr st)"
    "pr_messages res = map to_generation (kept (st_final st))"
    "gr_maxTokens (pr_request res) = requested_tokens inp"
    "tb_contextLimit (pr_tokenBudget res) = context_limit inp"
    "tb_promptTokens (pr_tokenBudget res) = estimatedTokens (st_final st)"
    using run_Inr [OF assms(1)] by metis
  note sent = run_request [OF assms]
  from pipeline_shift_Inr [OF st(1)] have final:
    "st_final st = shiftContext (st_working st) (count_tokens inp)
       (context_limit inp - reserve_tokens inp) no_options" "fitsBudget (st_final st)" by metis+
  have "estimatedTokens (st_final st) \<le> context_limit inp - reserve_tokens inp"
    using final shiftContext_simps(2) by metis
  moreover have "requested_tokens inp \<le> reserve_tokens inp" by (simp add: reserve_tokens_def)
  moreover have "estimatedTokens (st_final st) = total_for (count_tokens inp) 4 (kept (st_final st))"
    using final(1) shiftContext_simps(3) [of "st_working st" _ _ no_options] by (simp add: no_options_def)
  then have "estimatedTokens (st_final st)
      = (\<Sum>m\<leftarrow>map to_generation (kept (st_final st)). count_tokens inp (gcontent m) + 4)"
    by (simp add: total_for_def to_generation_def comp_def)
  then have "estimatedTokens (st_final st)
      = (\<Sum>m\<leftarrow>gr_messages (pr_request res). count_tokens inp (gcontent m) + 4)"
    using sum_contents sent(1) st(2) by metis
  ultimately show ?thesis using st sent by simp
qed

definition chat_input :: pipeline_input where
  "chat_input = demo_input\<lparr>promptPostProcessing := None\<rparr>"

definition chat_run :: "(pipeline_error + pipeline_result) \<times> delegate lru" where
  "chat_run = the (runPromptPipeline example_hb 0 chat_input empty_template_cache)"

lemma chat_runs: "runPromptPipeline example_hb 0 chat_input empty_template_cache
    = Some (Inr (projr (fst chat_run)), snd chat_run)"
proof -
  have "case runPromptPipeline example_hb 0 chat_input empty_template_cache of
      Some (Inr _, _) \<Rightarrow> True | _ \<Rightarrow> False" by code_simp
  then show ?thesis by (auto simp: chat_run_def split: option.splits sum.splits prod.splits)
qed

theorem request_fits_context_witness:
  "(\<Sum>m\<leftarrow>gr_messages (pr_request (projr (fst chat_run))). count_tokens chat_input (gcontent m) + 4)
      + gr_maxTokens (pr_request (projr (fst chat_run))) \<le> 300"
proof -
  have chat: "\<not> serialize_as_text chat_input" "promptPostProcessing chat_input = None"
    "\<not> truthy (assistantPrefill chat_input)" "context_limit chat_input = 300" by code_simp+
  show ?thesis using request_fits_context [OF chat_runs chat(1-3)] unfolding chat(4) by blast
qed

lemma demo_runs: "runPromptPipeline example_hb 0 demo_input empty_template_cache
    = Some (Inr (projr (fst demo_run)), snd demo_run)"
proof -
  have "case runPromptPipeline example_hb 0 demo_input empty_template_cache of
      Some (Inr _, _) \<Rightarrow> True | _ \<Rightarrow> False" by code_simp
  then show ?thesis by (auto simp: demo_run_def split: option.splits sum.splits prod.splits)
qed

text \<open>C10: a pinned message or system message of the host that the assembly produced is among the
  messages of the result under its id, whatever the context strategy of a plugin returns and
  whatever the interceptors do. (Objects a strategy makes up have identities of their own.)\<close>

theorem protected_reaches_provider:
  assumes run: "runPromptPipeline hb clock inp cache = Some (Inr res, cache')"
    and identity: "identity_ok inp"
    and m: "m \<in> set (fst (assemblePromptMessages inp))" "host_protected m" "truthy (mid m)"
  shows "\<exists>st x. pipeline_shift inp = Some (Inr st)
    \<and> pr_messages res = map to_generation (kept (st_final st))
    \<and> x \<in> set (kept (st_final st)) \<and> mid x = mid m \<and> pinned x = Some True"
proof -
  obtain st where st: "pipeline_shift inp = Some (Inr st)"
    "pr_messages res = map to_generation (kept (st_final st))" using run_Inr [OF run] by metis
  obtain x where x: "x \<in> set (st_working st)" "mid x = mid m" "pinned x = Some True"
    using shift_state_inv(2) [OF st(1) identity m] by blast
  have "refs_ok (st_working st)"
    using shift_state_inv(1) [OF st(1) identity] by (rule refs_ok_subset) simp_all
  from kept_protected [OF this x(1)] x have "x \<in> set (kept (st_final st))"
    using shift_state_inv(3) [OF st(1) identity] by (simp add: isProtectedMessage_def)
  with st x show ?thesis by metis
qed

theorem protected_reaches_provider_witness:
  "\<exists>st x. pipeline_shift demo_input = Some (Inr st)
    \<and> pr_messages (projr (fst demo_run)) = map to_generation (kept (st_final st))
    \<and> x \<in> set (kept (st_final st)) \<and> mid x = Some ''m1'' \<and> pinned x = Some True"
proof -
  let ?m = "\<lparr>mref = 0, mid = Some ''m1'', role = User, content = ''hello'', mname = None,
     pinned = Some True, pairId = None, source = Some SrcUser, relevance = None\<rparr>"
  have "fst (assemblePromptMessages demo_input) = [?m]" by code_simp
  then have m: "?m \<in> set (fst (assemblePromptMessages demo_input))" by simp
  have identity: "identity_ok demo_input" by (auto simp: identity_ok_def demo_input_def)
  have "\<exists>st x. pipeline_shift demo_input = Some (Inr st)
    \<and> pr_messages (projr (fst demo_run)) = map to_generation (kept (st_final st))
    \<and> x \<in> set (kept (st_final st)) \<and> mid x = mid ?m \<and> pinned x = Some True"
    by (rule protected_reaches_provider [OF demo_runs identity m])
       (simp_all add: host_protected_def truthy_def)
  then show ?thesis by simp
qed

text \<open>An interceptor cannot make a message of its own protected: whatever it returns, a
  protected message in the prompt afterwards carries the id of a message of the host's context
  that is pinned or a system message of the host.\<close>

theorem interceptor_cannot_protect:
  assumes "intercept i working = Intercepted result"
    and "x \<in> set (fst (interceptor_step perm hostKept i working))" and "isProtectedMessage x"
    and "\<forall>m \<in> set working. isProtectedMessage m \<longrightarrow> m \<in> set hostKept"
  shows "\<exists>h \<in> set hostKept. mid h = mid x
    \<and> (pinned h = Some True \<or> isProtectedMessage h \<or> source h = Some SrcSystem)"
proof (rule interceptor_step_cases [of perm hostKept i working])
  assume "fst (interceptor_step perm hostKept i working) = working"
  with assms show ?thesis by auto
next
  fix r assume "fst (interceptor_step perm hostKept i working) = intercepted_messages hostKept working r"
  with assms show ?thesis by (auto intro: intercepted_protected)
qed

theorem interceptor_cannot_protect_witness:
  "\<exists>h \<in> set [example_message 7 User (Some ''a'') None \<lparr>pinned := Some True\<rparr>]. mid h = Some ''a''
    \<and> (pinned h = Some True \<or> isProtectedMessage h \<or> source h = Some SrcSystem)"
proof -
  let ?h = "example_message 7 User (Some ''a'') None \<lparr>pinned := Some True\<rparr>"
  let ?i = "Interceptor ''grab'' None None None
    (\<lambda>_. Intercepted [example_message 8 System (Some ''b'') None \<lparr>pinned := Some True\<rparr>])"
  have x: "?h \<in> set (fst (interceptor_step None [?h] ?i [?h]))" by code_simp
  have "\<exists>h \<in> set [?h]. mid h = mid ?h
    \<and> (pinned h = Some True \<or> isProtectedMessage h \<or> source h = Some SrcSystem)"
    by (rule interceptor_cannot_protect [OF _ x]) (simp_all add: isProtectedMessage_def)
  then show ?thesis by (simp add: example_message_def)
qed

lemma split_slots: "k \<le> n \<Longrightarrow> [0..<Suc n] = [0..<k] @ k # [Suc k..<Suc n]"
  using upt_add_eq_append [of 0 k "Suc n - k"] upt_conv_Cons [of k "Suc n"] by simp

lemma sum_below: "(\<Sum>b\<leftarrow>[0..<k]. if b0 = b then M else {#}) = (if b0 < k then M else {#} :: 'a multiset)"
  by (induction k) (auto simp: less_Suc_eq)

lemma sum_below_slots:
  "(\<Sum>b\<leftarrow>[0..<k]. mset (insertions_at n ps b))
     = mset (concat (map pmessages (filter (\<lambda>p. injection_boundary n p < k) ps)))"
proof (induction ps)
  case Nil
  then show ?case by (simp add: insertions_at_def)
next
  case (Cons p ps)
  then show ?case by (simp only: mset_insertions_Cons sum_list_addf sum_below) simp
qed

lemma mset_slots:
  "k \<le> length hist \<Longrightarrow> mset (concat (map (chat_slot hist ps) [0..<k]))
     = mset (take k hist) + mset (concat (map pmessages (filter (\<lambda>p. injection_boundary (length hist) p < k) ps)))"
  unfolding mset_concat_sum chat_slot_def mset_append sum_list_addf sum_below_slots
  using nth_slots [of k hist] by (simp add: mset_concat_sum [symmetric])

definition injected_at :: "nat \<Rightarrow> prepared list \<Rightarrow> nat \<Rightarrow> (prompt_message \<times> prepared) list" where
  "injected_at n ps b = sort_key
     (\<lambda>(m, p). (or_else (injectionOrder (pblock p)) 100, role_order (role m), configuredIndex p))
     (concat (map (\<lambda>p. map (\<lambda>m. (m, p)) (pmessages p)) (filter (\<lambda>p. injection_boundary n p = b) ps)))"

lemma insertions_at_fst: "insertions_at n ps b = map fst (injected_at n ps b)"
  by (simp add: insertions_at_def injected_at_def)

lemma role_order_cases:
  "role_order r = (case r of Assistant \<Rightarrow> 0 | User \<Rightarrow> 1 | System \<Rightarrow> 2 | Tool \<Rightarrow> 3 | Plugin \<Rightarrow> 4)"
  by (cases r) simp_all

lemma or_else_case: "or_else q d = (case q of None \<Rightarrow> d | Some x \<Rightarrow> x)"
  by (cases q) (simp_all add: or_else_def)

lemma last_third:
  fixes whole :: "'a multiset"
  assumes "middle = equal" and "whole = first + rest" and "before + (middle + after) = whole + inserted"
    and "before = first + smaller" and "inserted = smaller + equal + larger"
  shows "after = rest + larger"
proof -
  have "(first + smaller + equal) + after = (first + smaller + equal) + (rest + larger)"
    using assms(3) unfolding assms(1,2,4,5) by (simp only: ac_simps)
  then show ?thesis by (simp only: add_left_cancel)
qed

text \<open>C12: prompts inserted into the chat at their depth (4 when a prompt names none): for every
  depth \<open>d\<close> the result is a first part, the prompts of that depth, and the rest. The first part
  holds the history but its last \<open>d\<close> messages, in order, and the prompts of greater depth; the
  last part holds the last \<open>d\<close> messages, in order, and the prompts of smaller depth; nothing is
  lost or doubled. Between the two stand the messages of the prompts of depth \<open>d\<close>, sorted by the
  order of their prompt (100 when it names none), then by role (assistant, user, system, tool,
  plugin), then by the place of the prompt in the template. (A depth beyond the history counts as
  its length.)\<close>

theorem in_chat_insertion:
  fixes hist :: "prompt_message list" and ps :: "prepared list" and d :: nat
  defines "place \<equiv> \<lambda>p. length hist - (case injectionDepth (pblock p) of None \<Rightarrow> 4 | Some k \<Rightarrow> k)"
    and "rank \<equiv> \<lambda>(m, p). ((case injectionOrder (pblock p) of None \<Rightarrow> 100 | Some k \<Rightarrow> k),
        (case role m of Assistant \<Rightarrow> 0 :: nat | User \<Rightarrow> 1 | System \<Rightarrow> 2 | Tool \<Rightarrow> 3 | Plugin \<Rightarrow> 4),
        configuredIndex p)"
  shows "\<exists>before mid after. mergeInChatPrompts hist ps = before @ map fst mid @ after
    \<and> subseq (take (length hist - d) hist) before \<and> subseq (drop (length hist - d) hist) after
    \<and> mset before = mset (take (length hist - d) hist)
        + mset (concat (map pmessages (filter (\<lambda>p. place p < length hist - d) ps)))
    \<and> mset mid = mset (concat (map (\<lambda>p. map (\<lambda>m. (m, p)) (pmessages p))
        (filter (\<lambda>p. place p = length hist - d) ps)))
    \<and> mset after = mset (drop (length hist - d) hist)
        + mset (concat (map pmessages (filter (\<lambda>p. place p > length hist - d) ps)))
    \<and> sorted (map rank mid)"
proof -
  let ?n = "length hist" and ?k = "length hist - d"
  have place: "place = injection_boundary ?n"
    by (simp add: place_def injection_boundary_def [abs_def] or_else_case)
  have rank: "rank = (\<lambda>(m, p). (or_else (injectionOrder (pblock p)) 100, role_order (role m), configuredIndex p))"
    by (simp add: rank_def or_else_case role_order_cases)
  let ?before = "concat (map (chat_slot hist ps) [0..<?k])"
  let ?mid = "injected_at ?n ps ?k"
  let ?after = "(if ?k < ?n then [hist ! ?k] else []) @ concat (map (chat_slot hist ps) [Suc ?k..<Suc ?n])"
  have eq: "mergeInChatPrompts hist ps = ?before @ map fst ?mid @ ?after"
    unfolding merge_slots using split_slots [of ?k ?n]
    by (simp add: chat_slot_def insertions_at_fst del: upt_Suc)
  have before: "subseq (take ?k hist) ?before"
    using subseq_slots [of hist "[0..<?k]" ps] nth_slots [of ?k hist] by simp
  have hist: "concat (map (\<lambda>b. if b < ?n then [hist ! b] else []) [0..<Suc ?n]) = hist"
    using nth_slots [of ?n hist] by simp
  then have "take ?k hist @ concat (map (\<lambda>b. if b < ?n then [hist ! b] else []) (?k # [Suc ?k..<Suc ?n]))
      = take ?k hist @ drop ?k hist"
    using nth_slots [of ?k hist] split_slots [of ?k ?n] by (simp del: upt_Suc)
  then have "drop ?k hist = concat (map (\<lambda>b. if b < ?n then [hist ! b] else []) (?k # [Suc ?k..<Suc ?n]))"
    by (simp only: same_append_eq)
  then have after: "subseq (drop ?k hist) ?after"
    using subseq_slots [of hist "[Suc ?k..<Suc ?n]" ps] by (simp add: subseq_append' del: upt_Suc)
  have mbefore: "mset ?before = mset (take ?k hist)
      + mset (concat (map pmessages (filter (\<lambda>p. place p < ?k) ps)))"
    unfolding place by (rule mset_slots) simp
  have mmid: "mset ?mid = mset (concat (map (\<lambda>p. map (\<lambda>m. (m, p)) (pmessages p))
      (filter (\<lambda>p. place p = ?k) ps)))"
    by (simp add: injected_at_def place)
  have total: "mset (mergeInChatPrompts hist ps) = mset hist + mset (concat (map pmessages ps))"
  proof -
    have "injection_boundary ?n p < Suc ?n" for p by (simp add: injection_boundary_def)
    then have "mset (concat (map (chat_slot hist ps) [0..<Suc ?n]))
        = mset hist + mset (concat (map pmessages ps))"
      unfolding mset_concat_sum chat_slot_def mset_append sum_list_addf sum_below_slots
      unfolding mset_concat_sum [of "\<lambda>b. if b < ?n then [hist ! b] else []", symmetric] hist
      by (simp add: mset_concat_sum)
    then show ?thesis unfolding merge_slots .
  qed
  have thirds: "mset (concat (map pmessages ps))
      = mset (concat (map pmessages (filter (\<lambda>p. place p < ?k) ps)))
      + mset (concat (map pmessages (filter (\<lambda>p. place p = ?k) ps)))
      + mset (concat (map pmessages (filter (\<lambda>p. place p > ?k) ps)))"
    by (induction ps) (auto simp: not_less_iff_gr_or_eq)
  have "mset (map fst ?mid) = mset (concat (map pmessages (filter (\<lambda>p. place p = ?k) ps)))"
    unfolding mset_map mmid by (simp flip: mset_map add: map_concat comp_def)
  moreover have "mset hist = mset (take ?k hist) + mset (drop ?k hist)"
    by (metis append_take_drop_id mset_append)
  ultimately have mafter: "mset ?after = mset (drop ?k hist)
      + mset (concat (map pmessages (filter (\<lambda>p. place p > ?k) ps)))"
    using total [unfolded eq mset_append] mbefore thirds unfolding mset_append by (rule last_third)
  have "sorted (map rank ?mid)" by (simp add: injected_at_def rank)
  with eq before after mbefore mmid mafter show ?thesis by blast
qed

section \<open>The audit\<close>

lemma partition_kept:
  "m \<in> set w \<Longrightarrow> m \<in> set (kept (shiftContext w ct b opt)) \<or> mem_ref (excluded (shiftContext w ct b opt)) m"
  by (auto simp: shiftContext_simps(1) remaining_def)

lemma has_id_iff: "has_id ms i \<longleftrightarrow> i \<noteq> None \<and> (\<exists>m \<in> set ms. mid m = i)"
  by (auto simp: has_id_def list_ex_iff)

lemma classified_consistent:
  assumes w: "refs_ok w" and item: "mid (j_message item) \<noteq> None"
  shows "cl_included (classify_item ie w (shiftContext w ct b no_options) manual item)
    \<longleftrightarrow> cl_reason (classify_item ie w (shiftContext w ct b no_options) manual item) = NoReason"
proof -
  let ?f = "shiftContext w ct b no_options"
  let ?i = "mid (j_message item)"
  have "has_id (excluded ?f) ?i \<or> has_id (kept ?f) ?i" if h: "has_id w ?i"
  proof -
    obtain m where m: "m \<in> set w" "mid m = ?i" using h by (auto simp: has_id_iff)
    with partition_kept [OF m(1), of ct b no_options] mem_ref_excluded [OF w m(1), of ct b no_options]
    show ?thesis using item by (auto simp: has_id_iff)
  qed
  then show ?thesis using item
    by (auto simp: classify_item_def Let_def)
qed

lemma journal_has_ids:
  "item \<in> set (snd (assemblePromptMessages inp)) \<Longrightarrow> mid (j_message item) \<noteq> None"
proof -
  let ?bs = "map (\<lambda>(i, b). prepare_block inp (fill_buckets inp) i b)
    (zip [0..<length (configured_blocks inp)] (configured_blocks inp))"
  have pins: "\<forall>p \<in> set (number_blocks 0 ?bs). \<forall>m \<in> set (pmessages p). pins_system m"
    using pins_prepare [OF buckets_ok_fill] by (intro pins_blocks) auto
  have "mid (j_message item) \<noteq> None" if "item \<in> set (journal_of ps)"
    "\<forall>p \<in> set ps. \<forall>m \<in> set (pmessages p). pins_system m" for ps
    using that by (fastforce simp: journal_of_def block_placeholder_def new_message_def pins_system_def
        split: if_splits)
  from this [OF _ pins] show "item \<in> set (snd (assemblePromptMessages inp)) \<Longrightarrow> mid (j_message item) \<noteq> None"
    by (simp add: assemblePromptMessages_def prepared_blocks_def Let_def)
qed

text \<open>The audit of a generation has at most 500 entries, numbered in order, and an entry says
  ``included'' exactly when it gives no reason for an exclusion.\<close>

theorem audit_consistent:
  assumes run: "runPromptPipeline hb clock inp cache = Some (Inr res, cache')"
    and identity: "identity_ok inp"
  shows "length (pr_auditEntries res) \<le> 500
    \<and> map ae_order (pr_auditEntries res) = [0..<length (pr_auditEntries res)]
    \<and> (\<forall>e \<in> set (pr_auditEntries res). ae_included e \<longleftrightarrow> ae_reason e = NoReason)"
proof -
  obtain st where st: "pipeline_shift inp = Some (Inr st)"
    "pr_auditEntries res = buildPromptAuditEntries (st_journal st) (excluded (st_initial st))
       (st_working st) (st_final st) (manual_ids inp) (count_tokens inp)" using run_Inr [OF run] by metis
  let ?b = "context_limit inp - reserve_tokens inp" and ?ct = "count_tokens inp"
  let ?cl = "classify_all (st_journal st) (excluded (st_initial st)) (st_working st) (st_final st) (manual_ids inp)"
  have final: "st_final st = shiftContext (st_working st) ?ct ?b no_options"
    by (rule shift_state_inv(3) [OF st(1) identity])
  have refs: "refs_ok (st_working st)"
    using shift_state_inv(1) [OF st(1) identity] by (rule refs_ok_subset) simp_all
  have journal: "st_journal st = snd (assemblePromptMessages inp)"
    using pipeline_shift_Inr [OF st(1)] by metis
  have ids: "item \<in> set (st_journal st) \<Longrightarrow> mid (j_message item) \<noteq> None" for item
    unfolding journal by (rule journal_has_ids)
  have cl: "\<forall>c \<in> set ?cl. cl_included c \<longleftrightarrow> cl_reason c = NoReason"
    using classified_consistent [OF refs ids]
    by (auto simp: classify_all_def Let_def final) (auto simp: classify_added_def Let_def split: if_splits)
  have entries: "pr_auditEntries res = map (audit_entry_of ?ct) (zip [0..<length (take 500 ?cl)] (take 500 ?cl))"
    by (simp add: st(2) buildPromptAuditEntries_def Let_def)
  have len: "length (pr_auditEntries res) = length (take 500 ?cl)" by (simp add: entries)
  have "map ae_order (pr_auditEntries res) = [0..<length (take 500 ?cl)]"
  proof -
    have "map ae_order (map (audit_entry_of ?ct) zs) = map fst zs" for zs
      by (simp add: audit_entry_of_def Let_def case_prod_beta)
    then show ?thesis unfolding entries by (simp only:) (rule map_fst_zip, simp)
  qed
  moreover have "\<forall>e \<in> set (pr_auditEntries res). ae_included e \<longleftrightarrow> ae_reason e = NoReason"
    using cl by (auto simp: entries audit_entry_of_def Let_def dest!: set_zip_rightD in_set_takeD)
  ultimately show ?thesis using len by simp
qed

theorem audit_consistent_witness:
  "length (pr_auditEntries (projr (fst demo_run))) \<le> 500
    \<and> list_all (\<lambda>e. ae_included e \<longleftrightarrow> ae_reason e = NoReason) (pr_auditEntries (projr (fst demo_run)))"
proof -
  have identity: "identity_ok demo_input" by (auto simp: identity_ok_def demo_input_def)
  from audit_consistent [OF demo_runs identity] show ?thesis unfolding list_all_iff by blast
qed

end
