(* ===== verification/Gestures.thy ===== *)
theory Gestures
  imports Prelude
begin

text \<open>
  The row gesture recogniser of \<open>packages/gestures/src/index.ts\<close>: the controller behind every
  reorderable list of the application. Its closure variables are the fields of a state, each
  handler (a method of the controller, a document listener, a timer) is a definition that
  returns the new state and the callbacks it makes, and \<open>gesture_step\<close> dispatches an event of
  the browser to the handler that is listening for it.

  Coordinates are integers, so \<open>Math.hypot(dx, dy) < t\<close> is written without the root. The
  element under the pointer is the browser's: an event carries the value of the index attribute
  of the closest row, if there is a row. The callbacks of the options are effects recorded in
  order; a callback may call \<open>setDraggedIndex\<close>, which is then an event of its own (nothing reads
  the index before the handler that made the callback returns).
\<close>

named_theorems gesture_defs \<open>definitions of the gesture handlers\<close>

section \<open>Options and state\<close>

record drag_point =
  pointX :: int
  pointY :: int

datatype long_press_option = LongPressAbsent | LongPressNull | LongPressMs int

record row_gesture_options =
  mouseDragThresholdPx :: "int option"
  touchDragThresholdPx :: "int option"
  longPressOption :: long_press_option
  canDragOption :: "(string \<Rightarrow> bool) option"

definition mouseThreshold :: "row_gesture_options \<Rightarrow> int" where
  "mouseThreshold opts = (case mouseDragThresholdPx opts of None \<Rightarrow> 4 | Some t \<Rightarrow> t)"

definition touchThreshold :: "row_gesture_options \<Rightarrow> int" where
  "touchThreshold opts = (case touchDragThresholdPx opts of None \<Rightarrow> 10 | Some t \<Rightarrow> t)"

definition longPressEnabled :: "row_gesture_options \<Rightarrow> bool" where
  "longPressEnabled opts = (case longPressOption opts of
      LongPressAbsent \<Rightarrow> True | LongPressNull \<Rightarrow> False | LongPressMs ms \<Rightarrow> ms > 0)"

definition canDrag :: "row_gesture_options \<Rightarrow> string \<Rightarrow> bool" where
  "canDrag opts item = (case canDragOption opts of None \<Rightarrow> True | Some f \<Rightarrow> f item)"

record active_session =
  itemId :: string
  dragIndex :: int
  moved :: bool

text \<open>The variables captured by the document listeners of one press, and by its long-press
  timer. The listeners of a press are added and removed together; a press has a serial number,
  because the timer of a press writes to the \<open>longPressOpened\<close> of its own press.\<close>

record press =
  pressItem :: string
  pressIndex :: int
  startPoint :: drag_point
  active :: bool

record touch_press = press +
  touchId :: nat
  draggable :: bool
  longPressOpened :: bool
  pressSerial :: nat

datatype listener = MouseListener press | TouchListener touch_press

record gesture_state =
  session :: "active_session option"
  suppressClick :: bool
  removeListeners :: "listener option"
  longPressTimer :: "touch_press option"
  pendingResets :: nat
  pressCount :: nat

datatype callback =
  DragStarted string int | DragMoved string int drag_point | DragEnded string bool
  | MenuOpened string drag_point | DefaultPrevented | ClickSuppressed bool

definition createRowGestures :: gesture_state where
  "createRowGestures = \<lparr>session = None, suppressClick = False, removeListeners = None,
     longPressTimer = None, pendingResets = 0, pressCount = 0\<rparr>"

type_synonym reaction = "gesture_state \<times> callback list"

section \<open>Handlers\<close>

definition clearLongPressTimer :: "gesture_state \<Rightarrow> gesture_state" where
  [gesture_defs]: "clearLongPressTimer s = s\<lparr>longPressTimer := None\<rparr>"

definition beginDragging :: "string \<Rightarrow> int \<Rightarrow> gesture_state \<Rightarrow> reaction" where
  [gesture_defs]: "beginDragging item index s =
     (s\<lparr>session := Some \<lparr>itemId = item, dragIndex = index, moved = False\<rparr>\<rparr>, [DragStarted item index])"

definition stopCurrentDrag :: "gesture_state \<Rightarrow> gesture_state" where
  [gesture_defs]: "stopCurrentDrag s = clearLongPressTimer (s\<lparr>removeListeners := None\<rparr>)"

definition finishDragging :: "gesture_state \<Rightarrow> reaction" where
  [gesture_defs]: "finishDragging s = (case session s of
       None \<Rightarrow> (s\<lparr>removeListeners := None\<rparr>, [])
     | Some finished \<Rightarrow>
         (s\<lparr>removeListeners := None, session := None, suppressClick := True,
            pendingResets := Suc (pendingResets s)\<rparr>,
          [DragEnded (itemId finished) (moved finished)]))"

text \<open>\<open>Number(row?.getAttribute(...))\<close>: no row gives \<open>Number(undefined)\<close>, which is not an integer.\<close>

definition resolveRowIndex :: "string option \<Rightarrow> int option" where
  "resolveRowIndex attr = (case attr of None \<Rightarrow> None
     | Some txt \<Rightarrow> (case js_Number txt of
           Num r \<Rightarrow> (if isInteger (Num r) then Some \<lfloor>r\<rfloor> else None) | _ \<Rightarrow> None))"

definition previewAt :: "drag_point \<Rightarrow> string option \<Rightarrow> gesture_state \<Rightarrow> reaction" where
  [gesture_defs]: "previewAt point attr s = (case session s of None \<Rightarrow> (s, [])
     | Some current \<Rightarrow> (case resolveRowIndex attr of None \<Rightarrow> (s, [])
       | Some toIndex \<Rightarrow> (s\<lparr>session := Some (current\<lparr>moved := True\<rparr>)\<rparr>,
           [DragMoved (itemId current) toIndex point])))"

definition short_of :: "int \<Rightarrow> drag_point \<Rightarrow> drag_point \<Rightarrow> bool" where
  "short_of t p q = (t > 0 \<and> (pointX q - pointX p)\<^sup>2 + (pointY q - pointY p)\<^sup>2 < t\<^sup>2)"

definition startMouseDragging ::
  "row_gesture_options \<Rightarrow> nat \<Rightarrow> drag_point \<Rightarrow> string \<Rightarrow> int \<Rightarrow> gesture_state \<Rightarrow> reaction" where
  [gesture_defs]: "startMouseDragging opts button point item index s =
    (if button \<noteq> 0 \<or> \<not> canDrag opts item then (s, [])
     else let s1 = stopCurrentDrag s; now = (mouseThreshold opts = 0);
              (s2, out) = (if now then let (s2, out) = beginDragging item index s1
                                       in (s2, DefaultPrevented # out)
                           else (s1, []))
          in (s2\<lparr>removeListeners := Some (MouseListener
                 \<lparr>pressItem = item, pressIndex = index, startPoint = point, active = now\<rparr>)\<rparr>, out))"

definition onMouseMove ::
  "row_gesture_options \<Rightarrow> press \<Rightarrow> drag_point \<Rightarrow> string option \<Rightarrow> gesture_state \<Rightarrow> reaction" where
  [gesture_defs]: "onMouseMove opts p point attr s =
    (if \<not> active p \<and> short_of (mouseThreshold opts) (startPoint p) point then (s, [])
     else let (s1, out1) = (if \<not> active p then
                 beginDragging (pressItem p) (pressIndex p)
                   (s\<lparr>removeListeners := Some (MouseListener (p\<lparr>active := True\<rparr>))\<rparr>)
               else (s, []));
              (s2, out2) = previewAt point attr s1
          in (s2, out1 @ DefaultPrevented # out2))"

definition onMouseUp :: "press \<Rightarrow> gesture_state \<Rightarrow> reaction" where
  [gesture_defs]: "onMouseUp p s =
     (if active p then finishDragging s else (s\<lparr>removeListeners := None\<rparr>, []))"

type_synonym touches = "(nat \<times> drag_point) list"

definition startTouchDragging ::
  "row_gesture_options \<Rightarrow> touches \<Rightarrow> string \<Rightarrow> int \<Rightarrow> gesture_state \<Rightarrow> reaction" where
  [gesture_defs]: "startTouchDragging opts changedTouches item index s =
    (case changedTouches of [] \<Rightarrow> (s, [])
     | (ident, point) # _ \<Rightarrow>
        let s1 = stopCurrentDrag s; ok = canDrag opts item; now = (touchThreshold opts = 0 \<and> ok);
            p = \<lparr>pressItem = item, pressIndex = index, startPoint = point, active = now,
                 touchId = ident, draggable = ok, longPressOpened = False, pressSerial = pressCount s\<rparr>;
            (s2, out) = (if now then let (s2, out) = beginDragging item index s1
                                     in (s2, DefaultPrevented # out)
                         else if touchThreshold opts > 0 \<and> longPressEnabled opts
                         then (s1\<lparr>longPressTimer := Some p\<rparr>, [])
                         else (s1, []))
        in (s2\<lparr>removeListeners := Some (TouchListener p), pressCount := Suc (pressCount s)\<rparr>, out))"

text \<open>The callback of the long-press timer of press \<open>p\<close>.\<close>

definition longPressFires :: "touch_press \<Rightarrow> gesture_state \<Rightarrow> reaction" where
  [gesture_defs]: "longPressFires p s =
     (let s1 = s\<lparr>longPressTimer := None, suppressClick := True\<rparr>
      in (case removeListeners s1 of
            Some (TouchListener q) \<Rightarrow>
              if pressSerial q = pressSerial p
              then s1\<lparr>removeListeners := Some (TouchListener (q\<lparr>longPressOpened := True\<rparr>))\<rparr> else s1
          | _ \<Rightarrow> s1,
          [MenuOpened (pressItem p) (startPoint p)]))"

definition onTouchMove ::
  "row_gesture_options \<Rightarrow> touch_press \<Rightarrow> touches \<Rightarrow> string option \<Rightarrow> gesture_state \<Rightarrow> reaction" where
  [gesture_defs]: "onTouchMove opts p touches attr s =
    (if longPressOpened p then (s, [])
     else case find (\<lambda>t. fst t = touchId p) touches of None \<Rightarrow> (s, [])
      | Some (_, current) \<Rightarrow>
          if active p then let (s1, out) = previewAt current attr s in (s1, DefaultPrevented # out)
          else if short_of (touchThreshold opts) (startPoint p) current then (s, [])
          else let s1 = clearLongPressTimer s in
            if \<not> draggable p then (s1, [])
            else let (s2, out2) = beginDragging (pressItem p) (pressIndex p)
                       (s1\<lparr>removeListeners := Some (TouchListener (p\<lparr>active := True\<rparr>))\<rparr>);
                     (s3, out3) = previewAt current attr s2
                 in (s3, out2 @ DefaultPrevented # out3))"

definition onTouchEnd :: "touch_press \<Rightarrow> touches \<Rightarrow> gesture_state \<Rightarrow> reaction" where
  [gesture_defs]: "onTouchEnd p changedTouches s =
    (if \<not> list_ex (\<lambda>t. fst t = touchId p) changedTouches then (s, [])
     else if active p then finishDragging s
     else let s1 = stopCurrentDrag s
          in (if longPressOpened p then s1\<lparr>pendingResets := Suc (pendingResets s1)\<rparr> else s1, []))"

definition onContextMenu :: "drag_point \<Rightarrow> string \<Rightarrow> gesture_state \<Rightarrow> reaction" where
  [gesture_defs]: "onContextMenu point item s = (s, [DefaultPrevented, MenuOpened item point])"

definition consumeClick :: "gesture_state \<Rightarrow> reaction" where
  [gesture_defs]: "consumeClick s = (s\<lparr>suppressClick := False\<rparr>, [ClickSuppressed (suppressClick s)])"

definition getDraggedIndex :: "gesture_state \<Rightarrow> int option" where
  "getDraggedIndex s = map_option dragIndex (session s)"

definition setDraggedIndex :: "int option \<Rightarrow> gesture_state \<Rightarrow> gesture_state" where
  [gesture_defs]: "setDraggedIndex index s = (case (session s, index) of
       (Some current, Some i) \<Rightarrow> s\<lparr>session := Some (current\<lparr>dragIndex := i\<rparr>)\<rparr> | _ \<Rightarrow> s)"

definition isDragging :: "gesture_state \<Rightarrow> bool" where
  "isDragging s = (session s \<noteq> None)"

definition destroy :: "gesture_state \<Rightarrow> gesture_state" where
  [gesture_defs]: "destroy s = (stopCurrentDrag s)\<lparr>session := None, suppressClick := False\<rparr>"

section \<open>Events\<close>

datatype gesture_event =
  MouseDown nat drag_point string int | MouseMove drag_point "string option" | MouseUp
  | TouchStart touches string int | TouchMove touches "string option" | TouchEnd touches
  | LongPress | ResetFires | ContextMenu drag_point string | NativeDragStart | Click
  | SetDraggedIndex "int option" | Destroy

text \<open>An event reaches the listeners the document has at that moment. A timer that is not set
  does not fire.\<close>

fun gesture_step :: "row_gesture_options \<Rightarrow> gesture_event \<Rightarrow> gesture_state \<Rightarrow> reaction" where
  "gesture_step opts (MouseDown button point item index) s = startMouseDragging opts button point item index s"
| "gesture_step opts (MouseMove point attr) s = (case removeListeners s of
      Some (MouseListener p) \<Rightarrow> onMouseMove opts p point attr s | _ \<Rightarrow> (s, []))"
| "gesture_step opts MouseUp s = (case removeListeners s of
      Some (MouseListener p) \<Rightarrow> onMouseUp p s | _ \<Rightarrow> (s, []))"
| "gesture_step opts (TouchStart ts item index) s = startTouchDragging opts ts item index s"
| "gesture_step opts (TouchMove ts attr) s = (case removeListeners s of
      Some (TouchListener p) \<Rightarrow> onTouchMove opts p ts attr s | _ \<Rightarrow> (s, []))"
| "gesture_step opts (TouchEnd ts) s = (case removeListeners s of
      Some (TouchListener p) \<Rightarrow> onTouchEnd p ts s | _ \<Rightarrow> (s, []))"
| "gesture_step opts LongPress s = (case longPressTimer s of
      Some p \<Rightarrow> longPressFires p s | None \<Rightarrow> (s, []))"
| "gesture_step opts ResetFires s = (case pendingResets s of
      0 \<Rightarrow> (s, []) | Suc n \<Rightarrow> (s\<lparr>pendingResets := n, suppressClick := False\<rparr>, []))"
| "gesture_step opts (ContextMenu point item) s = onContextMenu point item s"
| "gesture_step opts NativeDragStart s = (s, [DefaultPrevented])"
| "gesture_step opts Click s = consumeClick s"
| "gesture_step opts (SetDraggedIndex index) s = (setDraggedIndex index s, [])"
| "gesture_step opts Destroy s = (destroy s, [])"

text \<open>A run from \<open>s\<close>: the final state and the callbacks of each event.\<close>

fun gesture_run :: "row_gesture_options \<Rightarrow> gesture_event list \<Rightarrow> gesture_state
    \<Rightarrow> gesture_state \<times> (gesture_event \<times> callback list) list" where
  "gesture_run opts [] s = (s, [])"
| "gesture_run opts (e # es) s =
     (let (s1, out) = gesture_step opts e s; (s2, tr) = gesture_run opts es s1 in (s2, (e, out) # tr))"

section \<open>Invariants\<close>

lemmas gesture_splits = option.splits listener.splits prod.splits if_splits list.splits nat.splits

text \<open>A timer belongs to the press that is listening and has not become a drag; the press of an
  active listener is the session.\<close>

definition timer_ok :: "gesture_state \<Rightarrow> bool" where
  "timer_ok s = (case longPressTimer s of None \<Rightarrow> True
     | Some p \<Rightarrow> removeListeners s = Some (TouchListener p) \<and> \<not> active p \<and> \<not> longPressOpened p)"

definition drag_ok :: "gesture_state \<Rightarrow> bool" where
  "drag_ok s = (case removeListeners s of
      Some (MouseListener p) \<Rightarrow> active p \<longrightarrow> map_option itemId (session s) = Some (pressItem p)
    | Some (TouchListener p) \<Rightarrow> (active p \<longrightarrow> map_option itemId (session s) = Some (pressItem p))
                                \<and> (longPressOpened p \<longrightarrow> \<not> active p)
    | None \<Rightarrow> True)"

lemma timer_ok_step: "timer_ok s \<Longrightarrow> timer_ok (fst (gesture_step opts e s))"
  by (cases e) (auto simp: timer_ok_def gesture_defs Let_def split: gesture_splits)

lemma drag_ok_step: "timer_ok s \<Longrightarrow> drag_ok s \<Longrightarrow> drag_ok (fst (gesture_step opts e s))"
  by (cases e) (auto simp: timer_ok_def drag_ok_def gesture_defs Let_def split: gesture_splits)

interpretation gesture_invariant: event_system
  "\<lambda>e s. fst (gesture_step opts e s)" "\<lambda>s. timer_ok s \<and> drag_ok s" for opts
  by unfold_locales (auto intro: timer_ok_step drag_ok_step)

lemma gesture_run_Cons:
  "fst (gesture_run opts (e # es) s) = fst (gesture_run opts es (fst (gesture_step opts e s)))"
  "snd (gesture_run opts (e # es) s) = (e, snd (gesture_step opts e s))
     # snd (gesture_run opts es (fst (gesture_step opts e s)))"
  by (simp_all split: prod.splits)

declare gesture_run.simps(2) [simp del] and gesture_run_Cons [simp]

lemma fst_gesture_run: "fst (gesture_run opts es s) = run_events (\<lambda>e s. fst (gesture_step opts e s)) es s"
  by (induction es arbitrary: s) simp_all

section \<open>The callback protocol\<close>

text \<open>What a consumer relies on: a drag is announced, moves only while announced, and ends
  once, under the same item. \<open>None\<close> is a broken protocol, otherwise the announced item. A
  teardown of the controller ends the drag silently.\<close>

fun consumer :: "string option \<Rightarrow> callback list \<Rightarrow> string option option" where
  "consumer d [] = Some d"
| "consumer d (DragStarted item index # cs) = (if d = None then consumer (Some item) cs else None)"
| "consumer d (DragMoved item index point # cs) = (if d = Some item then consumer d cs else None)"
| "consumer d (DragEnded item committed # cs) = (if d = Some item then consumer None cs else None)"
| "consumer d (_ # cs) = consumer d cs"

fun consumer_run :: "string option \<Rightarrow> (gesture_event \<times> callback list) list \<Rightarrow> string option option" where
  "consumer_run d [] = Some d"
| "consumer_run d ((e, out) # tr) = (case consumer (if e = Destroy then None else d) out of
      None \<Rightarrow> None | Some d' \<Rightarrow> consumer_run d' tr)"

fun is_press :: "gesture_event \<Rightarrow> bool" where
  "is_press (MouseDown _ _ _ _) = True"
| "is_press (TouchStart _ _ _) = True"
| "is_press _ = False"

text \<open>A schedule with one pointer: no press arrives while a drag is under way.\<close>

fun one_pointer :: "row_gesture_options \<Rightarrow> gesture_event list \<Rightarrow> gesture_state \<Rightarrow> bool" where
  "one_pointer opts [] s = True"
| "one_pointer opts (e # es) s =
     ((is_press e \<longrightarrow> \<not> isDragging s) \<and> one_pointer opts es (fst (gesture_step opts e s)))"

text \<open>With one pointer a session always has its listeners, and an inactive press no session.\<close>

definition held :: "gesture_state \<Rightarrow> bool" where
  "held s = (case removeListeners s of
      None \<Rightarrow> session s = None
    | Some (MouseListener p) \<Rightarrow> active p = isDragging s
    | Some (TouchListener p) \<Rightarrow> active p = isDragging s)"

lemma held_step:
  assumes "timer_ok s" and "held s" and "is_press e \<longrightarrow> \<not> isDragging s"
  shows "held (fst (gesture_step opts e s))"
  using assms
  by (cases e) (auto simp: timer_ok_def held_def isDragging_def gesture_defs Let_def split: gesture_splits)

lemma consumer_step:
  assumes "timer_ok s" and "drag_ok s" and "held s" and "is_press e \<longrightarrow> \<not> isDragging s"
  shows "consumer (if e = Destroy then None else map_option itemId (session s)) (snd (gesture_step opts e s))
    = Some (map_option itemId (session (fst (gesture_step opts e s))))"
  using assms
  by (cases e)
    (auto simp: timer_ok_def drag_ok_def held_def isDragging_def gesture_defs Let_def split: gesture_splits)

lemma consumer_runs:
  assumes "timer_ok s" and "drag_ok s" and "held s" and "one_pointer opts es s"
  shows "consumer_run (map_option itemId (session s)) (snd (gesture_run opts es s))
    = Some (map_option itemId (session (fst (gesture_run opts es s))))
    \<and> held (fst (gesture_run opts es s))"
  using assms
proof (induction es arbitrary: s)
  case Nil
  then show ?case by simp
next
  case (Cons e es)
  obtain s1 out where step: "gesture_step opts e s = (s1, out)" by fastforce
  from Cons.prems step have "timer_ok s1" "drag_ok s1" "held s1" "one_pointer opts es s1"
    using timer_ok_step [of s opts e] drag_ok_step [of s opts e] held_step [of s e opts] by auto
  note IH = Cons.IH [OF this]
  have "consumer (if e = Destroy then None else map_option itemId (session s)) out
      = Some (map_option itemId (session s1))"
    using consumer_step [of s e opts] Cons.prems step by simp
  with IH step show ?case by simp
qed

lemma initial_ok [simp]:
  "timer_ok createRowGestures" "drag_ok createRowGestures" "held createRowGestures"
  "session createRowGestures = None"
  by (simp_all add: timer_ok_def drag_ok_def held_def createRowGestures_def)

section \<open>Properties\<close>

definition example_options :: row_gesture_options where
  "example_options = \<lparr>mouseDragThresholdPx = None, touchDragThresholdPx = None,
     longPressOption = LongPressAbsent, canDragOption = None\<rparr>"

definition drag_schedule :: "gesture_event list" where
  "drag_schedule = [MouseDown 0 \<lparr>pointX = 0, pointY = 0\<rparr> ''a'' 0, MouseMove \<lparr>pointX = 0, pointY = 9\<rparr> (Some ''1'')]"

text \<open>C29: with one pointer the consumer sees every drag announced before it moves, ended once and
  under the same item, and the announced drag is the session of the controller.\<close>

theorem drag_callbacks_paired:
  assumes "one_pointer opts es createRowGestures"
  shows "consumer_run None (snd (gesture_run opts es createRowGestures))
    = Some (map_option itemId (session (fst (gesture_run opts es createRowGestures))))"
  using consumer_runs [OF initial_ok(1-3) assms] by simp

theorem drag_callbacks_paired_witness:
  "consumer_run None (snd (gesture_run example_options drag_schedule createRowGestures)) = Some (Some ''a'')"
proof -
  have "one_pointer example_options drag_schedule createRowGestures" by code_simp
  from drag_callbacks_paired [OF this] show ?thesis
    by (simp only:) code_simp
qed

text \<open>The pointer that made the last press the controller took up, read off the events alone, and its
  release.\<close>

datatype pointer = Mouse | Finger nat

fun pressing :: "row_gesture_options \<Rightarrow> gesture_event \<Rightarrow> pointer option \<Rightarrow> pointer option" where
  "pressing opts (MouseDown button point item index) h = (if button = 0 \<and> canDrag opts item then Some Mouse else h)"
| "pressing opts (TouchStart ((i, point) # ts) item index) h = Some (Finger i)"
| "pressing opts _ h = h"

definition last_press :: "row_gesture_options \<Rightarrow> gesture_event list \<Rightarrow> pointer option" where
  "last_press opts es = fold (pressing opts) es None"

fun releases :: "pointer \<Rightarrow> gesture_event \<Rightarrow> bool" where
  "releases Mouse MouseUp = True"
| "releases (Finger i) (TouchEnd ts) = (i \<in> fst ` set ts)"
| "releases _ _ = False"

fun ends_drag :: "callback \<Rightarrow> bool" where
  "ends_drag (DragEnded _ _) = True"
| "ends_drag _ = False"

text \<open>The listeners of the document are those of that press.\<close>

definition pressed_by :: "pointer option \<Rightarrow> gesture_state \<Rightarrow> bool" where
  "pressed_by h s = (case removeListeners s of
      None \<Rightarrow> True | Some (MouseListener p) \<Rightarrow> h = Some Mouse | Some (TouchListener p) \<Rightarrow> h = Some (Finger (touchId p)))"

lemma pressed_step:
  "timer_ok s \<Longrightarrow> pressed_by h s \<Longrightarrow> pressed_by (pressing opts e h) (fst (gesture_step opts e s))"
  by (cases "(opts, e, h)" rule: pressing.cases)
    (auto simp: timer_ok_def pressed_by_def gesture_defs Let_def split: gesture_splits)

lemma pressed_run:
  "timer_ok s \<Longrightarrow> pressed_by h s \<Longrightarrow> pressed_by (fold (pressing opts) es h) (fst (gesture_run opts es s))"
proof (induction es arbitrary: s h)
  case (Cons e es)
  then show ?case by (simp add: timer_ok_step pressed_step)
qed simp

lemma release_step:
  assumes "held s" and "pressed_by (Some h) s" and "session s = Some c" and "\<not> is_press e"
  shows "if releases h e
    then \<not> isDragging (fst (gesture_step opts e s)) \<and> removeListeners (fst (gesture_step opts e s)) = None
      \<and> snd (gesture_step opts e s) = [DragEnded (itemId c) (moved c)]
      \<and> snd (consumeClick (fst (gesture_step opts e s))) = [ClickSuppressed True]
    else if e = Destroy then \<not> isDragging (fst (gesture_step opts e s)) \<and> snd (gesture_step opts e s) = []
    else isDragging (fst (gesture_step opts e s)) \<and> \<not> list_ex ends_drag (snd (gesture_step opts e s))"
proof -
  have mem: "list_ex (\<lambda>t. fst t = i) ts \<longleftrightarrow> i \<in> fst ` set ts" for i and ts :: touches
    by (auto simp: list_ex_iff)
  obtain l where l: "removeListeners s = Some l"
    using assms(1,3) by (auto simp: held_def split: option.splits)
  show ?thesis
  proof (cases l)
    case (MouseListener p)
    then have "h = Mouse" "active p" using assms(1-3) l by (auto simp: pressed_by_def held_def isDragging_def)
    then show ?thesis using assms(3,4) l MouseListener
      by (cases e) (auto simp: isDragging_def gesture_defs Let_def split: gesture_splits)
  next
    case (TouchListener p)
    then have "h = Finger (touchId p)" "active p" using assms(1-3) l by (auto simp: pressed_by_def held_def isDragging_def)
    then show ?thesis using assms(3,4) l TouchListener
      by (cases e) (auto simp: isDragging_def mem gesture_defs Let_def split: gesture_splits)
  qed
qed

text \<open>C28: with one pointer a drag ends with the release of the pointer that holds it, and with nothing else:
  in every state reached without a press during a drag, if a drag is under way, then the mouse button
  going up (for a drag begun with the mouse), or a lift of fingers among which is the one that pressed (for a
  drag begun by touch), ends the session, tells the consumer so exactly once with the right item, removes
  the listeners and swallows the click that follows. The teardown of the controller ends the drag without a
  callback; every other event, the lift of another finger among them, leaves it under way and makes no
  callback that ends it.\<close>

theorem release_ends_drag:
  assumes "one_pointer opts es createRowGestures"
    and "session (fst (gesture_run opts es createRowGestures)) = Some c" and "\<not> is_press e"
  shows "\<exists>h. last_press opts es = Some h \<and>
    (let (s', out) = gesture_step opts e (fst (gesture_run opts es createRowGestures)) in
      if releases h e
      then \<not> isDragging s' \<and> removeListeners s' = None \<and> out = [DragEnded (itemId c) (moved c)]
        \<and> snd (consumeClick s') = [ClickSuppressed True]
      else if e = Destroy then \<not> isDragging s' \<and> out = []
      else isDragging s' \<and> \<not> list_ex ends_drag out)"
proof -
  let ?s = "fst (gesture_run opts es createRowGestures)"
  have held: "held ?s" using consumer_runs [OF initial_ok(1-3) assms(1)] by simp
  have "pressed_by None createRowGestures" by (simp add: pressed_by_def createRowGestures_def)
  from pressed_run [OF initial_ok(1) this, of opts es]
  have pressed: "pressed_by (last_press opts es) ?s" by (simp add: last_press_def)
  with held assms(2) obtain h where h: "last_press opts es = Some h"
    by (auto simp: pressed_by_def held_def split: option.splits listener.splits)
  with release_step [OF held pressed [unfolded h] assms(2,3), of opts] show ?thesis
    by (auto simp: split_beta Let_def)
qed

theorem release_ends_drag_witness:
  "snd (gesture_step example_options MouseUp (fst (gesture_run example_options drag_schedule createRowGestures)))
    = [DragEnded ''a'' True]"
proof -
  let ?s = "fst (gesture_run example_options drag_schedule createRowGestures)"
  have one: "one_pointer example_options drag_schedule createRowGestures" by code_simp
  have "case session ?s of None \<Rightarrow> False | Some c \<Rightarrow> itemId c = ''a'' \<and> moved c" by code_simp
  then obtain c where c: "session ?s = Some c" "itemId c = ''a''" "moved c" by (auto split: option.splits)
  have "last_press example_options drag_schedule = Some Mouse" by code_simp
  with release_ends_drag [OF one c(1), of MouseUp] c(2,3) show ?thesis by (auto simp: split_beta)
qed

text \<open>A state whose session has lost its listeners keeps the session until the next press.\<close>

definition stranded :: "string \<Rightarrow> gesture_state \<Rightarrow> bool" where
  "stranded item s = (map_option itemId (session s) = Some item \<and> removeListeners s = None
     \<and> longPressTimer s = None)"

lemma stranded_step:
  assumes "stranded item s" and "\<not> is_press e" and "e \<noteq> Destroy"
  shows "stranded item (fst (gesture_step opts e s))"
    and "\<not> list_ex ends_drag (snd (gesture_step opts e s))"
  using assms
  by (cases e; auto simp: stranded_def gesture_defs Let_def split: gesture_splits)+

lemma stranded_run:
  "stranded item s \<Longrightarrow> \<forall>e \<in> set es. \<not> is_press e \<and> e \<noteq> Destroy \<Longrightarrow>
    stranded item (fst (gesture_run opts es s))
    \<and> \<not> list_ex ends_drag (concat (map snd (snd (gesture_run opts es s))))"
proof (induction es arbitrary: s)
  case Nil
  then show ?case by simp
next
  case (Cons e es)
  then show ?case
    using stranded_step [of item s e opts] Cons.IH [of "fst (gesture_step opts e s)"] by auto
qed

lemma gesture_run_append:
  "gesture_run opts (es @ fs) s = (let (s1, tr1) = gesture_run opts es s; (s2, tr2) = gesture_run opts fs s1
     in (s2, tr1 @ tr2))"
  by (induction es arbitrary: s) (auto simp: Let_def gesture_run.simps(2) split: prod.splits)

definition second_finger :: "gesture_event list" where
  "second_finger = [TouchStart [(0, \<lparr>pointX = 0, pointY = 0\<rparr>)] ''a'' 0,
     TouchMove [(0, \<lparr>pointX = 0, pointY = 20\<rparr>)] (Some ''1''),
     TouchStart [(1, \<lparr>pointX = 50, pointY = 50\<rparr>)] ''b'' 1, TouchEnd [(1, \<lparr>pointX = 50, pointY = 50\<rparr>)]]"

text \<open>A second finger put down and lifted during a touch drag takes the drag's listeners away:
  whatever the first finger does then, up to the next press or the teardown, the controller
  reports a drag under way and never makes the callback that ends it.\<close>

theorem second_finger_strands_drag:
  assumes "\<forall>e \<in> set es. \<not> is_press e \<and> e \<noteq> Destroy"
  shows "isDragging (fst (gesture_run example_options (second_finger @ es) createRowGestures))
    \<and> \<not> list_ex ends_drag
         (concat (map snd (snd (gesture_run example_options (second_finger @ es) createRowGestures))))"
proof -
  let ?r = "gesture_run example_options second_finger createRowGestures"
  have "stranded ''a'' (fst ?r)" "\<not> list_ex ends_drag (concat (map snd (snd ?r)))" by code_simp+
  with stranded_run [OF this(1) assms, of example_options] show ?thesis
    by (auto simp: gesture_run_append Let_def stranded_def isDragging_def split: prod.splits)
qed

theorem second_finger_strands_drag_witness:
  "isDragging (fst (gesture_run example_options
     (second_finger @ [TouchEnd [(0, \<lparr>pointX = 0, pointY = 20\<rparr>)], ResetFires]) createRowGestures))"
  using second_finger_strands_drag [of "[TouchEnd [(0, \<lparr>pointX = 0, pointY = 20\<rparr>)], ResetFires]"] by simp

end
