(* ===== verification/Supervisor.thy ===== *)
theory Supervisor
  imports Prelude
begin

text \<open>
  The worker supervisor of the plugin runtime: \<open>apps/plugin-runtime/src/supervisor.ts\<close> with the
  emergency memory ceilings of \<open>emergencyLimits.ts\<close>. A worker record is an object the registry
  and the handlers of its port and thread share, so the records live in a store and the registry
  maps a worker id to a place of the store; a handler belongs to a place, also after the record
  has left the registry.

  Node's worker threads are the environment: a thread that has exited exits no second time, and a
  closed port delivers no message. The readings of the system memory are an argument of a spawn.
\<close>

named_theorems sup_defs \<open>definitions of the supervisor's operations\<close>

section \<open>Emergency limits\<close>

definition MIB :: rat where "MIB = 1024 * 1024"
definition EMERGENCY_MIN_OLD_GEN_MB :: rat where "EMERGENCY_MIN_OLD_GEN_MB = 256"
definition EMERGENCY_MAX_OLD_GEN_MB :: rat where "EMERGENCY_MAX_OLD_GEN_MB = 4 * 1024"
definition EMERGENCY_HEADROOM_FRACTION :: rat where "EMERGENCY_HEADROOM_FRACTION = 3 / 4"
definition EMERGENCY_YOUNG_GEN_FRACTION :: rat where "EMERGENCY_YOUNG_GEN_FRACTION = 1 / 4"
definition EMERGENCY_MAX_YOUNG_GEN_MB :: rat where "EMERGENCY_MAX_YOUNG_GEN_MB = 512"
definition EMERGENCY_MIN_YOUNG_GEN_MB :: rat where "EMERGENCY_MIN_YOUNG_GEN_MB = 64"

lemmas limit_constants = MIB_def EMERGENCY_MIN_OLD_GEN_MB_def EMERGENCY_MAX_OLD_GEN_MB_def
  EMERGENCY_HEADROOM_FRACTION_def EMERGENCY_YOUNG_GEN_FRACTION_def EMERGENCY_MAX_YOUNG_GEN_MB_def
  EMERGENCY_MIN_YOUNG_GEN_MB_def

record emergency_inputs =
  totalMemory :: rat
  freeMemory :: rat
  runtimeRss :: rat
  activeWorkerCount :: nat
  memoryHintMiB :: "jnum option"
  maxHeapOverrideMiB :: "jnum option"

record emergency_limits =
  maxOldGenerationSizeMb :: rat
  maxYoungGenerationSizeMb :: rat

definition clamp :: "rat \<Rightarrow> rat \<Rightarrow> rat \<Rightarrow> rat" where
  "clamp v lo hi = min hi (max lo v)"

definition youngGenFor :: "rat \<Rightarrow> rat" where
  "youngGenFor oldGenMb = clamp (of_int \<lfloor>oldGenMb * EMERGENCY_YOUNG_GEN_FRACTION\<rfloor>)
     EMERGENCY_MIN_YOUNG_GEN_MB EMERGENCY_MAX_YOUNG_GEN_MB"

text \<open>An optional number that \<open>Number.isInteger\<close> accepts.\<close>

definition given_integer :: "jnum option \<Rightarrow> rat option" where
  "given_integer x = (case x of Some (Num r) \<Rightarrow> if isInteger (Num r) then Some r else None | _ \<Rightarrow> None)"

definition headroomMb :: "emergency_inputs \<Rightarrow> rat" where
  "headroomMb i = max 0 (max 0 (freeMemory i) / MIB * EMERGENCY_HEADROOM_FRACTION
     - max 0 (runtimeRss i) / MIB - of_nat (activeWorkerCount i) * EMERGENCY_MIN_OLD_GEN_MB)"

definition computeEmergencyLimits :: "emergency_inputs \<Rightarrow> emergency_limits" where
  "computeEmergencyLimits i =
     (let headroom =
            (let hintMb = (case given_integer (memoryHintMiB i) of Some h \<Rightarrow> max 0 h | None \<Rightarrow> 0);
                 ceilingMb = clamp (max (headroomMb i) hintMb) EMERGENCY_MIN_OLD_GEN_MB EMERGENCY_MAX_OLD_GEN_MB
             in \<lparr>maxOldGenerationSizeMb = js_round ceilingMb,
                 maxYoungGenerationSizeMb = youngGenFor (js_round ceilingMb)\<rparr>)
      in case given_integer (maxHeapOverrideMiB i) of
           Some v \<Rightarrow> if v > 0 then
               (let oldGenMb = clamp v EMERGENCY_MIN_OLD_GEN_MB EMERGENCY_MAX_OLD_GEN_MB
                in \<lparr>maxOldGenerationSizeMb = oldGenMb, maxYoungGenerationSizeMb = youngGenFor oldGenMb\<rparr>)
             else headroom
         | None \<Rightarrow> headroom)"

definition resolveEmergencyLimits ::
  "jnum option \<Rightarrow> jnum option \<Rightarrow> emergency_limits option \<Rightarrow> emergency_inputs \<Rightarrow> emergency_limits" where
  "resolveEmergencyLimits explicitOldGenMb explicitYoungGenMb staticLimits i =
     (case given_integer explicitOldGenMb of
        Some v \<Rightarrow>
          (let oldGenMb = clamp v EMERGENCY_MIN_OLD_GEN_MB EMERGENCY_MAX_OLD_GEN_MB
           in \<lparr>maxOldGenerationSizeMb = oldGenMb,
               maxYoungGenerationSizeMb = (case given_integer explicitYoungGenMb of
                   Some y \<Rightarrow> clamp y EMERGENCY_MIN_YOUNG_GEN_MB EMERGENCY_MAX_YOUNG_GEN_MB
                 | None \<Rightarrow> youngGenFor oldGenMb)\<rparr>)
      | None \<Rightarrow> (case staticLimits of Some l \<Rightarrow> l | None \<Rightarrow> computeEmergencyLimits i))"

section \<open>State\<close>

datatype trust_level = Sandbox | Extended | Trusted
datatype worker_state = Starting | Ready | Terminating | Terminated

record spawn_options =
  opt_workerId :: nat
  opt_pluginId :: string
  opt_installationId :: string
  opt_trustLevel :: "trust_level option"
  opt_moduleGraphDigest :: "string option"
  opt_maxOldGenerationSizeMb :: "jnum option"
  opt_maxYoungGenerationSizeMb :: "jnum option"
  opt_memoryHintMiB :: "jnum option"
  opt_maxHeapOverrideMiB :: "jnum option"

text \<open>A record of the store. \<open>exited\<close> is the environment's: the thread is gone and the port closed.\<close>

record worker_record =
  workerId :: nat
  workerEpoch :: nat
  pluginId :: string
  installationId :: string
  trustLevel :: trust_level
  wstate :: worker_state
  startedAt :: int
  exited :: bool

record supervisor =
  store :: "worker_record list"
  records :: "(nat, nat) jmap"
  workerEpochs :: "(nat, nat) jmap"
  staticLimits :: "emergency_limits option"
  workerRestarts :: nat
  graceTimers :: "nat list"

datatype sup_error = AlreadyRegistered nat | ThreadFailed

datatype sup_effect =
  ThreadStarted nat nat emergency_limits
| TerminatePosted nat "string option"
| ThreadTerminate nat
| OnWorkerReady nat nat json
| OnWorkerLog json
| OnWorkerExit nat nat "int option"
| OnWorkerError nat nat
| OnBridgeMessage nat json

definition new_supervisor :: "rat option \<Rightarrow> rat option \<Rightarrow> supervisor" where
  "new_supervisor maxOld maxYoung = \<lparr>store = [], records = [], workerEpochs = [],
     staticLimits = (case maxOld of None \<Rightarrow> None
       | Some old \<Rightarrow> Some \<lparr>maxOldGenerationSizeMb = old,
           maxYoungGenerationSizeMb = (case maxYoung of Some y \<Rightarrow> y | None \<Rightarrow> of_int \<lfloor>old / 4\<rfloor>)\<rparr>),
     workerRestarts = 0, graceTimers = []\<rparr>"

section \<open>Messages of a worker\<close>

fun is_number :: "json option \<Rightarrow> bool" where
  "is_number (Some (JNum _)) = True"
| "is_number _ = False"

fun is_boolean :: "json option \<Rightarrow> bool" where
  "is_boolean (Some (JBool _)) = True"
| "is_boolean _ = False"

fun is_string :: "json option \<Rightarrow> bool" where
  "is_string (Some (JString _)) = True"
| "is_string _ = False"

fun is_object :: "json option \<Rightarrow> bool" where
  "is_object (Some (JObject _)) = True"
| "is_object (Some (JArray _)) = True"
| "is_object _ = False"

definition isHardenedReady :: "json \<Rightarrow> bool" where
  "isHardenedReady v \<longleftrightarrow> json_field v ''kind'' = Some (JString ''hardened-ready'')
     \<and> is_number (json_field v ''workerId'') \<and> is_number (json_field v ''workerEpoch'')
     \<and> is_number (json_field v ''lockdownMs'') \<and> is_number (json_field v ''compartmentMs'')
     \<and> is_number (json_field v ''bootstrapMs'') \<and> is_boolean (json_field v ''noNodeAuthority'')
     \<and> is_object (json_field v ''probe'')"

definition isTerminateAck :: "json \<Rightarrow> bool" where
  "isTerminateAck v \<longleftrightarrow> json_field v ''kind'' = Some (JString ''terminate-ack'')
     \<and> is_number (json_field v ''workerId'') \<and> is_number (json_field v ''workerEpoch'')"

definition isLogEntry :: "json \<Rightarrow> bool" where
  "isLogEntry v \<longleftrightarrow> json_field v ''kind'' = Some (JString ''log'')
     \<and> is_number (json_field v ''workerId'') \<and> is_number (json_field v ''workerEpoch'')
     \<and> is_string (json_field v ''level'') \<and> is_string (json_field v ''message'')
     \<and> is_number (json_field v ''at'')"

definition matchesEpoch :: "worker_record \<Rightarrow> json \<Rightarrow> bool" where
  "matchesEpoch r v \<longleftrightarrow> json_field v ''workerId'' = Some (JNum (of_nat (workerId r)))
     \<and> json_field v ''workerEpoch'' = Some (JNum (of_nat (workerEpoch r)))"

section \<open>Operations\<close>

definition set_record :: "nat \<Rightarrow> worker_record \<Rightarrow> supervisor \<Rightarrow> supervisor" where
  [sup_defs]: "set_record p r s = s\<lparr>store := (store s)[p := r]\<rparr>"

definition set_state :: "nat \<Rightarrow> worker_state \<Rightarrow> supervisor \<Rightarrow> supervisor" where
  [sup_defs]: "set_state p st s = set_record p ((store s ! p)\<lparr>wstate := st\<rparr>) s"

text \<open>\<open>thread_ok\<close> says whether \<open>new Worker\<close> returns; \<open>i\<close> holds the readings of the system memory and
  \<open>now\<close> the clock.\<close>

definition spawnWorker :: "bool \<Rightarrow> emergency_inputs \<Rightarrow> int \<Rightarrow> spawn_options \<Rightarrow> supervisor
    \<Rightarrow> supervisor \<times> (sup_error + nat) \<times> sup_effect list" where
  [sup_defs]: "spawnWorker thread_ok i now opts s =
    (if jm_has (records s) (opt_workerId opts) then (s, Inl (AlreadyRegistered (opt_workerId opts)), [])
     else
       let epoch = (case jm_get (workerEpochs s) (opt_workerId opts) of None \<Rightarrow> 0 | Some e \<Rightarrow> e) + 1;
           s1 = s\<lparr>workerEpochs := jm_set (opt_workerId opts) epoch (workerEpochs s)\<rparr>;
           limits = resolveEmergencyLimits (opt_maxOldGenerationSizeMb opts)
             (opt_maxYoungGenerationSizeMb opts) (staticLimits s)
             (i\<lparr>activeWorkerCount := length (records s), memoryHintMiB := opt_memoryHintMiB opts,
                maxHeapOverrideMiB := opt_maxHeapOverrideMiB opts\<rparr>)
       in if \<not> thread_ok then (s1, Inl ThreadFailed, [])
          else
            let p = length (store s);
                r = \<lparr>workerId = opt_workerId opts, workerEpoch = epoch, pluginId = opt_pluginId opts,
                     installationId = opt_installationId opts,
                     trustLevel = (case opt_trustLevel opts of None \<Rightarrow> Sandbox | Some t \<Rightarrow> t),
                     wstate = Starting, startedAt = now, exited = False\<rparr>
            in (s1\<lparr>store := store s @ [r], records := jm_set (opt_workerId opts) p (records s)\<rparr>,
                Inr p, [ThreadStarted (opt_workerId opts) epoch limits]))"

text \<open>\<open>terminateWorkerInternal\<close> up to its first \<open>await\<close>, and what follows the grace window.\<close>

definition terminateWorker :: "nat \<Rightarrow> string option \<Rightarrow> supervisor \<Rightarrow> supervisor \<times> sup_effect list" where
  [sup_defs]: "terminateWorker wid reason s = (case jm_get (records s) wid of
       None \<Rightarrow> (s, [])
     | Some p \<Rightarrow>
         if wstate (store s ! p) = Terminated \<or> wstate (store s ! p) = Terminating then (s, [])
         else ((set_state p Terminating s)\<lparr>graceTimers := graceTimers s @ [p]\<rparr>, [TerminatePosted p reason]))"

definition grace_elapsed :: "nat \<Rightarrow> supervisor \<Rightarrow> supervisor \<times> sup_effect list" where
  [sup_defs]: "grace_elapsed p s =
     (let s1 = s\<lparr>graceTimers := remove1 p (graceTimers s)\<rparr>
      in (s1, if wstate (store s ! p) \<noteq> Terminated then [ThreadTerminate p] else []))"

fun terminate_each :: "nat list \<Rightarrow> string option \<Rightarrow> supervisor \<Rightarrow> supervisor \<times> sup_effect list" where
  "terminate_each [] reason s = (s, [])"
| "terminate_each (wid # wids) reason s =
     (let (s1, out1) = terminateWorker wid reason s; (s2, out2) = terminate_each wids reason s1
      in (s2, out1 @ out2))"

definition terminateAll :: "string option \<Rightarrow> supervisor \<Rightarrow> supervisor \<times> sup_effect list" where
  [sup_defs]: "terminateAll reason s = terminate_each (jm_keys (records s)) reason s"

definition getRecord :: "nat \<Rightarrow> supervisor \<Rightarrow> worker_record option" where
  "getRecord wid s = map_option (\<lambda>p. store s ! p) (jm_get (records s) wid)"

record supervisor_stats =
  workerCount :: nat
  readyCount :: nat
  startingCount :: nat
  terminatingCount :: nat
  st_workerRestarts :: nat

definition stats :: "supervisor \<Rightarrow> supervisor_stats" where
  "stats s = (let states = map (\<lambda>p. wstate (store s ! p)) (jm_values (records s)) in
     \<lparr>workerCount = length (records s), readyCount = count_list states Ready,
      startingCount = count_list states Starting, terminatingCount = count_list states Terminating,
      st_workerRestarts = workerRestarts s\<rparr>)"

definition handleHardenedReady :: "nat \<Rightarrow> json \<Rightarrow> supervisor \<Rightarrow> supervisor \<times> sup_effect list" where
  [sup_defs]: "handleHardenedReady p message s =
     (let r = store s ! p in
      if \<not> matchesEpoch r message then (s, [])
      else (set_state p Ready s, [OnWorkerReady (workerId r) (workerEpoch r) message]))"

text \<open>The handlers of \<open>wire\<close>.\<close>

definition on_message :: "nat \<Rightarrow> json \<Rightarrow> supervisor \<Rightarrow> supervisor \<times> sup_effect list" where
  [sup_defs]: "on_message p message s =
     (let r = store s ! p in
      if isHardenedReady message then handleHardenedReady p message s
      else if isLogEntry message then (s, if matchesEpoch r message then [OnWorkerLog message] else [])
      else if isTerminateAck message then
        (if wstate r = Terminating \<and> matchesEpoch r message
         then (set_state p Terminated s, [ThreadTerminate p]) else (s, []))
      else (s, [OnBridgeMessage p message]))"

definition on_error :: "nat \<Rightarrow> supervisor \<Rightarrow> supervisor \<times> sup_effect list" where
  [sup_defs]: "on_error p s = (s, [OnWorkerError (workerId (store s ! p)) (workerEpoch (store s ! p))])"

definition on_exit :: "nat \<Rightarrow> int option \<Rightarrow> supervisor \<Rightarrow> supervisor \<times> sup_effect list" where
  [sup_defs]: "on_exit p code s =
     (let r = store s ! p; unexpected = (wstate r \<noteq> Terminated);
          s1 = set_record p (r\<lparr>wstate := Terminated, exited := True\<rparr>) s
      in (s1\<lparr>records := jm_delete (workerId r) (records s),
             workerRestarts := (if unexpected then workerRestarts s + 1 else workerRestarts s)\<rparr>,
          [OnWorkerExit (workerId r) (workerEpoch r) code]))"

section \<open>Events\<close>

datatype sup_event =
  Spawn bool emergency_inputs int spawn_options | Terminate nat "string option"
| TerminateAll "string option" | GraceElapsed nat | Message nat json | WorkerError nat
| ThreadExit nat "int option"

definition live :: "supervisor \<Rightarrow> nat \<Rightarrow> bool" where
  "live s p = (p < length (store s) \<and> \<not> exited (store s ! p))"

fun sup_step :: "sup_event \<Rightarrow> supervisor \<Rightarrow> supervisor \<times> sup_effect list" where
  "sup_step (Spawn ok i now opts) s = (let (s1, _, out) = spawnWorker ok i now opts s in (s1, out))"
| "sup_step (Terminate wid reason) s = terminateWorker wid reason s"
| "sup_step (TerminateAll reason) s = terminateAll reason s"
| "sup_step (GraceElapsed p) s = (if p \<in> set (graceTimers s) then grace_elapsed p s else (s, []))"
| "sup_step (Message p m) s = (if live s p then on_message p m s else (s, []))"
| "sup_step (WorkerError p) s = (if live s p then on_error p s else (s, []))"
| "sup_step (ThreadExit p code) s = (if live s p then on_exit p code s else (s, []))"

abbreviation sup_run :: "sup_event list \<Rightarrow> supervisor \<Rightarrow> supervisor" where
  "sup_run \<equiv> run_events (\<lambda>e s. fst (sup_step e s))"

section \<open>Limits\<close>

lemma clamp_bounds: "lo \<le> hi \<Longrightarrow> lo \<le> clamp v lo hi \<and> clamp v lo hi \<le> hi"
  by (simp add: clamp_def)

lemma clamp_mono: "v \<le> w \<Longrightarrow> clamp v lo hi \<le> clamp w lo hi"
  by (auto simp: clamp_def min_def max_def)

lemma youngGenFor_bounds: "64 \<le> youngGenFor v" "youngGenFor v \<le> 512"
  unfolding youngGenFor_def limit_constants using clamp_bounds [of 64 512] by auto

lemma computeEmergencyLimits_bounds:
  "256 \<le> maxOldGenerationSizeMb (computeEmergencyLimits i)"
  "maxOldGenerationSizeMb (computeEmergencyLimits i) \<le> 4096"
  "64 \<le> maxYoungGenerationSizeMb (computeEmergencyLimits i)"
  "maxYoungGenerationSizeMb (computeEmergencyLimits i) \<le> 512"
proof -
  have c: "256 \<le> clamp v 256 (4 * 1024)" "clamp v 256 (4 * 1024) \<le> 4096" for v
    using clamp_bounds [of 256 "4 * 1024" v] by auto
  have r: "256 \<le> js_round (clamp v 256 (4 * 1024))" "js_round (clamp v 256 (4 * 1024)) \<le> 4096" for v
    using js_round_between [of 256 "clamp v 256 (4 * 1024)" 4096] c [of v] by auto
  show "256 \<le> maxOldGenerationSizeMb (computeEmergencyLimits i)"
    "maxOldGenerationSizeMb (computeEmergencyLimits i) \<le> 4096"
    using c r by (auto simp: computeEmergencyLimits_def Let_def limit_constants split: option.splits)
  show "64 \<le> maxYoungGenerationSizeMb (computeEmergencyLimits i)"
    "maxYoungGenerationSizeMb (computeEmergencyLimits i) \<le> 512"
    using youngGenFor_bounds by (auto simp: computeEmergencyLimits_def Let_def split: option.splits)
qed

lemma resolveEmergencyLimits_bounds:
  "256 \<le> maxOldGenerationSizeMb (resolveEmergencyLimits old young None i)
   \<and> maxOldGenerationSizeMb (resolveEmergencyLimits old young None i) \<le> 4096
   \<and> 64 \<le> maxYoungGenerationSizeMb (resolveEmergencyLimits old young None i)
   \<and> maxYoungGenerationSizeMb (resolveEmergencyLimits old young None i) \<le> 512"
proof (cases "given_integer old")
  case None
  then show ?thesis by (simp add: resolveEmergencyLimits_def computeEmergencyLimits_bounds)
next
  case (Some v)
  have "64 \<le> clamp y 64 512" "clamp y 64 512 \<le> 512" for y :: rat using clamp_bounds [of 64 512 y] by auto
  moreover have "256 \<le> clamp v 256 (4 * 1024)" "clamp v 256 (4 * 1024) \<le> 4096"
    using clamp_bounds [of 256 "4 * 1024" v] by auto
  ultimately show ?thesis using Some youngGenFor_bounds
    by (auto simp: resolveEmergencyLimits_def Let_def limit_constants split: option.splits)
qed

section \<open>Invariant\<close>

definition incarnation :: "supervisor \<Rightarrow> nat \<Rightarrow> nat option" where
  "incarnation s wid = map_option (\<lambda>p. workerEpoch (store s ! p)) (jm_get (records s) wid)"

definition issued :: "supervisor \<Rightarrow> nat \<Rightarrow> nat" where
  "issued s wid = (case jm_get (workerEpochs s) wid of None \<Rightarrow> 0 | Some e \<Rightarrow> e)"

text \<open>The registry holds exactly the live records, and no record has an epoch that was not issued.\<close>

definition registry_ok :: "supervisor \<Rightarrow> bool" where
  "registry_ok s \<longleftrightarrow>
     (\<forall>wid p. jm_get (records s) wid = Some p \<longleftrightarrow> live s p \<and> workerId (store s ! p) = wid)
   \<and> (\<forall>p < length (store s). workerEpoch (store s ! p) \<le> issued s (workerId (store s ! p)))
   \<and> (\<forall>p < length (store s). \<forall>q < length (store s). p \<noteq> q \<longrightarrow>
        workerId (store s ! p) = workerId (store s ! q) \<longrightarrow> workerEpoch (store s ! p) \<noteq> workerEpoch (store s ! q))"

text \<open>A change of the lifecycle state alone, and of the timers, leaves the registry as it is.\<close>

definition same_registry :: "supervisor \<Rightarrow> supervisor \<Rightarrow> bool" where
  "same_registry s t \<longleftrightarrow> length (store t) = length (store s) \<and> records t = records s
     \<and> workerEpochs t = workerEpochs s
     \<and> (\<forall>p < length (store s). workerId (store t ! p) = workerId (store s ! p)
          \<and> workerEpoch (store t ! p) = workerEpoch (store s ! p) \<and> exited (store t ! p) = exited (store s ! p))"

lemma same_registry_refl [simp]: "same_registry s s"
  by (simp add: same_registry_def)

lemma same_registry_trans: "same_registry s t \<Longrightarrow> same_registry t u \<Longrightarrow> same_registry s u"
  by (auto simp: same_registry_def)

lemma same_registry_set_state [simp]: "same_registry s (set_state p st s)"
  by (cases "p < length (store s)") (auto simp: same_registry_def sup_defs nth_list_update)

lemma same_registry_timers [simp]: "same_registry s (t\<lparr>graceTimers := g\<rparr>) \<longleftrightarrow> same_registry s t"
  by (simp add: same_registry_def)

lemma same_registry_ok:
  assumes same: "same_registry s t" and ok: "registry_ok s"
  shows "registry_ok t"
proof -
  have len: "length (store t) = length (store s)" and recs: "records t = records s"
    and field: "p < length (store s) \<Longrightarrow> workerId (store t ! p) = workerId (store s ! p)
      \<and> workerEpoch (store t ! p) = workerEpoch (store s ! p) \<and> exited (store t ! p) = exited (store s ! p)"
    and iss: "issued t = issued s" for p
    using same by (auto simp: same_registry_def issued_def)
  have liv: "live t p \<and> workerId (store t ! p) = wid \<longleftrightarrow> live s p \<and> workerId (store s ! p) = wid" for p wid
    using field [of p] by (auto simp: live_def len)
  show ?thesis
    using ok field unfolding registry_ok_def liv len recs iss by simp
qed

lemma same_registry_terminate: "same_registry s (fst (terminateWorker wid reason s))"
  by (auto simp: terminateWorker_def split: option.split)

lemma same_registry_terminate_each: "same_registry s (fst (terminate_each wids reason s))"
proof (induction wids arbitrary: s)
  case Nil
  then show ?case by simp
next
  case (Cons w ws)
  from Cons.IH [of "fst (terminateWorker w reason s)"] same_registry_terminate [of s w reason]
  show ?case by (auto simp: split: prod.splits intro: same_registry_trans)
qed

lemma same_registry_message: "same_registry s (fst (on_message p m s))"
  by (auto simp: on_message_def handleHardenedReady_def Let_def)

text \<open>The two transitions that change the registry.\<close>

lemma issued_set: "issued (s\<lparr>workerEpochs := jm_set w e (workerEpochs s)\<rparr>) = (issued s)(w := e)"
  by (auto simp: issued_def)

definition spawn_record :: "int \<Rightarrow> spawn_options \<Rightarrow> nat \<Rightarrow> worker_record" where
  "spawn_record now opts epoch = \<lparr>workerId = opt_workerId opts, workerEpoch = epoch,
     pluginId = opt_pluginId opts, installationId = opt_installationId opts,
     trustLevel = (case opt_trustLevel opts of None \<Rightarrow> Sandbox | Some t \<Rightarrow> t),
     wstate = Starting, startedAt = now, exited = False\<rparr>"

lemma spawnWorker_cases:
  obtains (refused) "jm_has (records s) (opt_workerId opts)"
      "fst (spawnWorker ok i now opts s) = s"
      "snd (spawnWorker ok i now opts s) = (Inl (AlreadyRegistered (opt_workerId opts)), [])"
    | (failed) "\<not> jm_has (records s) (opt_workerId opts)" "\<not> ok"
      "fst (spawnWorker ok i now opts s) = s\<lparr>workerEpochs
         := jm_set (opt_workerId opts) (Suc (issued s (opt_workerId opts))) (workerEpochs s)\<rparr>"
      "snd (spawnWorker ok i now opts s) = (Inl ThreadFailed, [])"
    | (started) limits where "\<not> jm_has (records s) (opt_workerId opts)" "ok"
      "fst (spawnWorker ok i now opts s) = s\<lparr>workerEpochs
         := jm_set (opt_workerId opts) (Suc (issued s (opt_workerId opts))) (workerEpochs s),
         store := store s @ [spawn_record now opts (Suc (issued s (opt_workerId opts)))],
         records := jm_set (opt_workerId opts) (length (store s)) (records s)\<rparr>"
      "snd (spawnWorker ok i now opts s) = (Inr (length (store s)),
         [ThreadStarted (opt_workerId opts) (Suc (issued s (opt_workerId opts))) limits])"
proof -
  have "(case jm_get (workerEpochs s) (opt_workerId opts) of None \<Rightarrow> 0 | Some e \<Rightarrow> e) + 1
      = Suc (issued s (opt_workerId opts))" by (simp add: issued_def)
  then have "jm_has (records s) (opt_workerId opts) \<and> spawnWorker ok i now opts s
        = (s, Inl (AlreadyRegistered (opt_workerId opts)), [])
    \<or> \<not> jm_has (records s) (opt_workerId opts) \<and> \<not> ok \<and> spawnWorker ok i now opts s
        = (s\<lparr>workerEpochs := jm_set (opt_workerId opts) (Suc (issued s (opt_workerId opts))) (workerEpochs s)\<rparr>,
           Inl ThreadFailed, [])
    \<or> \<not> jm_has (records s) (opt_workerId opts) \<and> ok \<and> (\<exists>limits. spawnWorker ok i now opts s
        = (s\<lparr>workerEpochs := jm_set (opt_workerId opts) (Suc (issued s (opt_workerId opts))) (workerEpochs s),
             store := store s @ [spawn_record now opts (Suc (issued s (opt_workerId opts)))],
             records := jm_set (opt_workerId opts) (length (store s)) (records s)\<rparr>,
           Inr (length (store s)),
           [ThreadStarted (opt_workerId opts) (Suc (issued s (opt_workerId opts))) limits]))"
    unfolding spawnWorker_def spawn_record_def Let_def by simp
  then show thesis
  proof (elim disjE conjE exE)
    assume "jm_has (records s) (opt_workerId opts)"
      and "spawnWorker ok i now opts s = (s, Inl (AlreadyRegistered (opt_workerId opts)), [])"
    then show thesis by (intro refused) simp_all
  next
    assume "\<not> jm_has (records s) (opt_workerId opts)" "\<not> ok"
      and "spawnWorker ok i now opts s = (s\<lparr>workerEpochs := jm_set (opt_workerId opts)
        (Suc (issued s (opt_workerId opts))) (workerEpochs s)\<rparr>, Inl ThreadFailed, [])"
    then show thesis by (intro failed) simp_all
  qed (rule started, simp_all)
qed

lemma registry_ok_spawn:
  assumes ok: "registry_ok s"
  shows "registry_ok (fst (spawnWorker thread_ok i now opts s))"
proof (cases rule: spawnWorker_cases [of s opts thread_ok i now])
  case refused
  with ok show ?thesis by simp
next
  case failed
  with ok show ?thesis
    by (auto simp: registry_ok_def issued_set live_def le_Suc_eq)
next
  case (started limits)
  let ?w = "opt_workerId opts" and ?r = "spawn_record now opts (Suc (issued s (opt_workerId opts)))"
  have wid: "workerId ?r = ?w" "workerEpoch ?r = Suc (issued s ?w)" "\<not> exited ?r"
    by (simp_all add: spawn_record_def)
  have get: "jm_get (records s) wid = Some p \<longleftrightarrow> live s p \<and> workerId (store s ! p) = wid"
    and le: "p < length (store s) \<Longrightarrow> workerEpoch (store s ! p) \<le> issued s (workerId (store s ! p))"
    and neq: "p < length (store s) \<Longrightarrow> q < length (store s) \<Longrightarrow> p \<noteq> q \<Longrightarrow>
      workerId (store s ! p) = workerId (store s ! q) \<Longrightarrow> workerEpoch (store s ! p) \<noteq> workerEpoch (store s ! q)"
    for p q wid
    using ok unfolding registry_ok_def by blast+
  have new: "workerEpoch (store s ! p) \<noteq> Suc (issued s ?w)"
    if "p < length (store s)" "workerId (store s ! p) = ?w" for p
    using le [OF that(1)] that(2) by auto
  have gone: "\<not> (live s p \<and> workerId (store s ! p) = ?w)" for p
    using started(1) get [of ?w p] by (auto dest!: jm_get_in_set) (force dest: jm_get_in_set)
  let ?t = "fst (spawnWorker thread_ok i now opts s)"
  have st: "store ?t = store s @ [?r]" "records ?t = jm_set ?w (length (store s)) (records s)"
    and iss: "issued ?t = (issued s)(?w := Suc (issued s ?w))"
    unfolding started(3) by (auto simp: issued_def)
  have live_t: "live ?t p \<longleftrightarrow> live s p \<or> p = length (store s)" for p
    using wid by (auto simp: live_def st nth_append less_Suc_eq)
  have old: "store ?t ! x = store s ! x" if "x < length (store s)" for x
    using that by (simp add: st nth_append)
  have fresh: "store ?t ! length (store s) = ?r" by (simp add: st)
  have unborn: "\<not> live s (length (store s))" and born: "live s p \<Longrightarrow> p < length (store s)" for p
    by (simp_all add: live_def)
  have "jm_get (records ?t) v = Some p \<longleftrightarrow> live ?t p \<and> workerId (store ?t ! p) = v" for v p
  proof (cases "p = length (store s)")
    case True
    then show ?thesis using get [of v p] unborn by (auto simp: st(2) live_t fresh wid)
  next
    case False
    then show ?thesis using get [of v p] gone [of p] old [OF born [of p]]
      by (cases "live s p") (auto simp: st(2) live_t)
  qed
  moreover have "workerEpoch (store ?t ! p) \<le> issued ?t (workerId (store ?t ! p))"
    if "p < length (store ?t)" for p
    using that le [of p] wid unfolding st iss by (auto simp: nth_append less_Suc_eq)
  moreover have "workerEpoch (store ?t ! p) \<noteq> workerEpoch (store ?t ! q)"
    if len: "p < length (store ?t)" "q < length (store ?t)" "p \<noteq> q"
      and same: "workerId (store ?t ! p) = workerId (store ?t ! q)" for p q
  proof -
    consider "p < length (store s)" "q < length (store s)" | "p < length (store s)" "q = length (store s)"
      | "p = length (store s)" "q < length (store s)"
      using len unfolding st(1) by fastforce
    then show ?thesis
    proof cases
      case 1
      with neq [of p q] len(3) same show ?thesis by (simp add: old)
    next
      case 2
      with new [of p] same show ?thesis by (simp add: old fresh wid)
    next
      case 3
      with new [of q] same show ?thesis by (metis old fresh wid(1,2))
    qed
  qed
  ultimately show ?thesis unfolding registry_ok_def by blast
qed

lemma registry_ok_exit:
  assumes ok: "registry_ok s" and "live s p"
  shows "registry_ok (fst (on_exit p code s))"
proof -
  let ?t = "fst (on_exit p code s)"
  have len: "p < length (store s)" using assms(2) by (simp add: live_def)
  have st: "store ?t = (store s)[p := (store s ! p)\<lparr>wstate := Terminated, exited := True\<rparr>]"
    "records ?t = jm_delete (workerId (store s ! p)) (records s)" "issued ?t = issued s"
    by (auto simp: on_exit_def set_record_def Let_def issued_def)
  have get: "jm_get (records s) wid = Some q \<longleftrightarrow> live s q \<and> workerId (store s ! q) = wid" for wid q
    using ok unfolding registry_ok_def by blast
  have nth: "store ?t ! q = (if q = p then (store s ! p)\<lparr>wstate := Terminated, exited := True\<rparr> else store s ! q)" for q
    using len by (simp add: st nth_list_update)
  have live_t: "live ?t q \<longleftrightarrow> live s q \<and> q \<noteq> p" for q
    by (cases "q = p") (simp_all add: live_def nth, simp add: st(1))
  have "jm_get (records ?t) wid = Some q \<longleftrightarrow> live ?t q \<and> workerId (store ?t ! q) = wid" for wid q
    using get [of wid q] get [of wid p] assms(2) unfolding st(2) live_t by (auto simp: nth)
  moreover have "workerId (store ?t ! q) = workerId (store s ! q)"
    "workerEpoch (store ?t ! q) = workerEpoch (store s ! q)" for q
    by (simp_all add: nth)
  moreover have "length (store ?t) = length (store s)" by (simp add: st(1))
  ultimately show ?thesis
    using ok unfolding registry_ok_def by (simp add: st(3))
qed

lemma same_registry_step:
  "(\<forall>ok i now opts. e \<noteq> Spawn ok i now opts) \<Longrightarrow> (\<forall>p code. e \<noteq> ThreadExit p code)
    \<Longrightarrow> same_registry s (fst (sup_step e s))"
  by (cases e) (auto simp: same_registry_terminate same_registry_message terminateAll_def
    same_registry_terminate_each grace_elapsed_def on_error_def Let_def)

lemma fst_spawn_step: "fst (sup_step (Spawn ok i now opts) s) = fst (spawnWorker ok i now opts s)"
  by (simp split: prod.split)

lemma registry_ok_step: "registry_ok s \<Longrightarrow> registry_ok (fst (sup_step e s))"
proof (cases "(\<forall>ok i now opts. e \<noteq> Spawn ok i now opts) \<and> (\<forall>p code. e \<noteq> ThreadExit p code)")
  case True
  assume "registry_ok s"
  with True show ?thesis by (blast intro: same_registry_ok same_registry_step)
next
  case False
  assume "registry_ok s"
  with False show ?thesis
    by (auto simp: fst_spawn_step simp del: sup_step.simps(1) intro: registry_ok_spawn registry_ok_exit)
qed

lemma registry_ok_new [simp]: "registry_ok (new_supervisor a b)"
  by (simp add: registry_ok_def new_supervisor_def live_def)

section \<open>The abstract registry of incarnations\<close>

text \<open>The contract of the supervisor towards its clients, over the threads themselves and not over its
  registry: the epochs of the running threads of a worker id, and how many epochs the id has used. A thread
  starts only while no thread of its id runs, with the next epoch, and a thread that ends was the only one.\<close>

type_synonym incarnations = "(nat \<Rightarrow> nat set) \<times> (nat \<Rightarrow> nat)"

inductive incarnation_step :: "incarnations \<Rightarrow> incarnations \<Rightarrow> bool" where
  stutter: "incarnation_step c c"
| burnt: "cur w = {} \<Longrightarrow> incarnation_step (cur, used) (cur, used(w := Suc (used w)))"
| born: "cur w = {} \<Longrightarrow>
    incarnation_step (cur, used) (cur(w := {Suc (used w)}), used(w := Suc (used w)))"
| gone: "cur w = {e} \<Longrightarrow> incarnation_step (cur, used) (cur(w := {}), used)"

inductive_simps incarnation_step_simps: "incarnation_step (cur, used) (cur', used')"

definition running :: "supervisor \<Rightarrow> nat \<Rightarrow> nat set" where
  "running s w = {workerEpoch (store s ! p) |p. live s p \<and> workerId (store s ! p) = w}"

definition incarnations :: "supervisor \<Rightarrow> incarnations" where
  "incarnations s = (running s, issued s)"

text \<open>In a sound registry the running thread of an id is the registered one.\<close>

lemma running_registered:
  assumes "registry_ok s"
  shows "running s w = set_option (incarnation s w)"
proof -
  have "live s p \<and> workerId (store s ! p) = w \<longleftrightarrow> jm_get (records s) w = Some p" for p
    using assms unfolding registry_ok_def by blast
  then show ?thesis by (auto simp: running_def incarnation_def)
qed

definition registered :: "supervisor \<Rightarrow> incarnations" where
  "registered s = (\<lambda>w. set_option (incarnation s w), issued s)"

lemma registered_incarnations: "registry_ok s \<Longrightarrow> incarnations s = registered s"
  by (simp add: incarnations_def registered_def running_registered fun_eq_iff)

lemma incarnation_same:
  assumes "same_registry s t" and "registry_ok s"
  shows "registered t = registered s"
proof -
  have "incarnation t w = incarnation s w" for w
  proof (cases "jm_get (records s) w")
    case None
    with assms(1) show ?thesis by (simp add: incarnation_def same_registry_def)
  next
    case (Some p)
    with assms(2) have "p < length (store s)" by (auto simp: registry_ok_def live_def)
    with assms(1) Some show ?thesis by (simp add: incarnation_def same_registry_def)
  qed
  with assms(1) show ?thesis by (simp add: registered_def issued_def same_registry_def fun_eq_iff)
qed

lemma incarnation_spawn:
  assumes ok: "registry_ok s"
  shows "incarnation_step (registered s) (registered (fst (spawnWorker thread_ok i now opts s)))"
proof (cases rule: spawnWorker_cases [of s opts thread_ok i now])
  case refused
  then show ?thesis by (simp add: stutter)
next
  case failed
  then have "incarnation s (opt_workerId opts) = None"
    by (simp add: incarnation_def jm_get_None_iff)
  moreover have "registered (fst (spawnWorker thread_ok i now opts s)) = (\<lambda>w. set_option (incarnation s w),
      (issued s)(opt_workerId opts := Suc (issued s (opt_workerId opts))))"
    unfolding failed(3) registered_def issued_set by (simp add: incarnation_def fun_eq_iff)
  ultimately show ?thesis by (simp add: registered_def burnt)
next
  case (started limits)
  let ?w = "opt_workerId opts" and ?t = "fst (spawnWorker thread_ok i now opts s)"
  have none: "incarnation s ?w = None" using started(1) by (simp add: incarnation_def jm_get_None_iff)
  have "incarnation ?t v = ((incarnation s)(?w \<mapsto> Suc (issued s ?w))) v" for v
  proof (cases "jm_get (records s) v")
    case None
    then show ?thesis unfolding started(3) by (simp add: incarnation_def spawn_record_def)
  next
    case (Some p)
    with ok have "p < length (store s)" by (auto simp: registry_ok_def live_def)
    with Some show ?thesis unfolding started(3)
      by (simp add: incarnation_def spawn_record_def nth_append)
  qed
  moreover have "issued ?t = (issued s)(?w := Suc (issued s ?w))"
    unfolding started(3) by (auto simp: issued_def)
  ultimately have eq: "registered ?t = ((\<lambda>w. set_option (incarnation s w))(?w := {Suc (issued s ?w)}),
      (issued s)(?w := Suc (issued s ?w)))" by (auto simp: registered_def fun_eq_iff)
  show ?thesis unfolding eq unfolding registered_def by (rule born) (simp add: none)
qed

lemma incarnation_exit:
  assumes ok: "registry_ok s" and "live s p"
  shows "incarnation_step (registered s) (registered (fst (on_exit p code s)))"
proof -
  let ?t = "fst (on_exit p code s)" and ?w = "workerId (store s ! p)"
  have get: "jm_get (records s) ?w = Some p" using assms by (simp add: registry_ok_def)
  have other: "q \<noteq> p" if "jm_get (records s) v = Some q" "v \<noteq> ?w" for v q
    using ok that by (auto simp: registry_ok_def)
  have "incarnation ?t v = ((incarnation s)(?w := None)) v" for v
    using other [of v]
    by (cases "jm_get (records s) v")
      (auto simp: incarnation_def on_exit_def set_record_def Let_def nth_list_update)
  moreover have "issued ?t = issued s" by (simp add: on_exit_def set_record_def Let_def issued_def fun_eq_iff)
  ultimately have "registered ?t = ((\<lambda>w. set_option (incarnation s w))(?w := {}), issued s)"
    by (auto simp: registered_def fun_eq_iff)
  moreover have "incarnation s ?w = Some (workerEpoch (store s ! p))"
    by (simp add: incarnation_def get)
  ultimately show ?thesis by (simp add: registered_def gone)
qed

lemma registered_step:
  assumes "registry_ok s"
  shows "incarnation_step (registered s) (registered (fst (sup_step e s)))"
proof (cases "(\<forall>ok i now opts. e \<noteq> Spawn ok i now opts) \<and> (\<forall>p code. e \<noteq> ThreadExit p code)")
  case True
  then have "same_registry s (fst (sup_step e s))" by (blast intro: same_registry_step)
  with assms show ?thesis by (simp add: incarnation_same stutter)
next
  case False
  with assms show ?thesis
    by (auto simp: fst_spawn_step stutter simp del: sup_step.simps(1)
        intro!: incarnation_spawn incarnation_exit)
qed

lemma incarnation_refines:
  "registry_ok s \<Longrightarrow> incarnation_step (incarnations s) (incarnations (fst (sup_step e s)))"
  using registered_step by (simp only: registered_incarnations registry_ok_step)

interpretation supervisor_system: event_system "\<lambda>e s. fst (sup_step e s)" registry_ok
  by unfold_locales (rule registry_ok_step)

text \<open>C9: the supervisor implements the registry of incarnations: whatever happens next, in every
  reachable state, is a step of the abstract registry: a thread starts only while no thread of its worker id
  runs, and with the next epoch. So no two threads that run have the same worker id, no two threads
  that ever ran have both the worker id and the epoch in common, and what a client looks up under an id is the
  running thread of that id, however messages, timers and exits interleave.\<close>

theorem supervisor_refines_incarnations:
  "let s = sup_run es (new_supervisor a b) in
     incarnation_step (incarnations s) (incarnations (sup_run (es @ [e]) (new_supervisor a b)))
     \<and> inj_on (\<lambda>p. workerId (store s ! p)) {p. live s p}
     \<and> inj_on (\<lambda>p. (workerId (store s ! p), workerEpoch (store s ! p))) {p. p < length (store s)}
     \<and> running s w = set_option (map_option workerEpoch (getRecord w s))"
proof -
  let ?s = "sup_run es (new_supervisor a b)"
  have ok: "registry_ok ?s" by (simp add: supervisor_system.inv_run)
  then have get: "jm_get (records ?s) v = Some p \<longleftrightarrow> live ?s p \<and> workerId (store ?s ! p) = v" for v p
    unfolding registry_ok_def by blast
  have one: "inj_on (\<lambda>p. workerId (store ?s ! p)) {p. live ?s p}"
  proof (rule inj_onI)
    fix p q assume "p \<in> {p. live ?s p}" "q \<in> {p. live ?s p}" "workerId (store ?s ! p) = workerId (store ?s ! q)"
    then have "jm_get (records ?s) (workerId (store ?s ! q)) = Some p"
      "jm_get (records ?s) (workerId (store ?s ! q)) = Some q" using get by blast+
    then show "p = q" by simp
  qed
  have epochs: "inj_on (\<lambda>p. (workerId (store ?s ! p), workerEpoch (store ?s ! p))) {p. p < length (store ?s)}"
    using ok unfolding registry_ok_def inj_on_def by auto
  have "incarnation ?s w = map_option workerEpoch (getRecord w ?s)"
    by (cases "jm_get (records ?s) w") (simp_all add: incarnation_def getRecord_def)
  with running_registered [OF ok, of w] incarnation_refines [OF ok, of e] one epochs
  show ?thesis unfolding Let_def by simp
qed

section \<open>Effects of a run\<close>

definition logged_step :: "sup_event \<Rightarrow> supervisor \<times> sup_effect list \<Rightarrow> supervisor \<times> sup_effect list" where
  "logged_step e x = (let (s, out) = sup_step e (fst x) in (s, snd x @ out))"

abbreviation logged_run :: "sup_event list \<Rightarrow> rat option \<Rightarrow> rat option \<Rightarrow> supervisor \<times> sup_effect list" where
  "logged_run es a b \<equiv> run_events logged_step es (new_supervisor a b, [])"

lemma logged_step_simps [simp]:
  "fst (logged_step e x) = fst (sup_step e (fst x))"
  "snd (logged_step e x) = snd x @ snd (sup_step e (fst x))"
  by (simp_all add: logged_step_def split: prod.split)

text \<open>A worker that was asked to terminate has its grace timer running, or has been force-terminated,
  or is gone.\<close>

definition kill_ok :: "supervisor \<times> sup_effect list \<Rightarrow> bool" where
  "kill_ok x \<longleftrightarrow> (\<forall>p. live (fst x) p \<longrightarrow> wstate (store (fst x) ! p) = Terminated
        \<longrightarrow> ThreadTerminate p \<in> set (snd x))
   \<and> (\<forall>p reason. live (fst x) p \<longrightarrow> TerminatePosted p reason \<in> set (snd x)
        \<longrightarrow> p \<in> set (graceTimers (fst x)) \<or> ThreadTerminate p \<in> set (snd x))
   \<and> (\<forall>p reason. TerminatePosted p reason \<in> set (snd x) \<longrightarrow> p < length (store (fst x)))"

lemma in_set_remove1_other: "p \<in> set xs \<Longrightarrow> p \<noteq> q \<Longrightarrow> p \<in> set (remove1 q xs)"
  by simp

lemma kill_terminate:
  assumes "registry_ok s" and "kill_ok (s, out)"
  shows "kill_ok (fst (terminateWorker w reason s), out @ snd (terminateWorker w reason s))"
proof (cases "jm_get (records s) w")
  case None
  with assms show ?thesis by (simp add: terminateWorker_def)
next
  case (Some p)
  with assms(1) have "live s p" by (simp add: registry_ok_def)
  with Some assms(2) show ?thesis
    by (auto simp: terminateWorker_def kill_ok_def live_def sup_defs nth_list_update)
qed

lemma kill_terminate_each:
  "registry_ok s \<Longrightarrow> kill_ok (s, out) \<Longrightarrow>
    kill_ok (fst (terminate_each ws reason s), out @ snd (terminate_each ws reason s))"
proof (induction ws arbitrary: s out)
  case Nil
  then show ?case by simp
next
  case (Cons w ws)
  obtain s1 out1 where t: "terminateWorker w reason s = (s1, out1)" by fastforce
  have "registry_ok s1" "kill_ok (s1, out @ out1)"
    using same_registry_ok [OF same_registry_terminate [of s w reason] Cons.prems(1)]
      kill_terminate [OF Cons.prems, of w reason] t by simp_all
  from Cons.IH [OF this] t show ?case by (simp add: split_beta)
qed

lemma kill_spawn:
  assumes "kill_ok (s, out)"
  shows "kill_ok (fst (spawnWorker thread_ok i now opts s), out @ snd (snd (spawnWorker thread_ok i now opts s)))"
proof (cases rule: spawnWorker_cases [of s opts thread_ok i now])
  case refused
  with assms show ?thesis by simp
next
  case failed
  with assms show ?thesis unfolding failed(3,4) by (simp add: kill_ok_def live_def)
next
  case (started limits)
  have "p < length (store s)" if "TerminatePosted p reason \<in> set out" for p reason
    using assms that by (auto simp: kill_ok_def)
  with assms show ?thesis unfolding started(3,4)
    by (force simp: kill_ok_def live_def nth_append less_Suc_eq spawn_record_def)
qed

lemma kill_message: "kill_ok (s, out) \<Longrightarrow> live s p \<Longrightarrow>
    kill_ok (fst (on_message p m s), out @ snd (on_message p m s))"
  by (auto simp: kill_ok_def live_def sup_defs nth_list_update Let_def)

lemma kill_exit: "kill_ok (s, out) \<Longrightarrow> live s p \<Longrightarrow>
    kill_ok (fst (on_exit p code s), out @ snd (on_exit p code s))"
  by (auto simp: kill_ok_def live_def sup_defs nth_list_update Let_def)

lemma kill_grace: "kill_ok (s, out) \<Longrightarrow>
    kill_ok (fst (grace_elapsed p s), out @ snd (grace_elapsed p s))"
  by (auto simp: kill_ok_def live_def sup_defs Let_def intro: in_set_remove1_other)

lemma kill_error: "kill_ok (s, out) \<Longrightarrow> kill_ok (fst (on_error p s), out @ snd (on_error p s))"
  by (simp add: kill_ok_def on_error_def)

lemma kill_step:
  assumes "registry_ok (fst x)" and "kill_ok x"
  shows "kill_ok (logged_step e x)"
proof (cases x)
  case (Pair s out)
  with assms have ok: "registry_ok s" "kill_ok (s, out)" by simp_all
  show ?thesis
    unfolding Pair logged_step_def
    using ok kill_spawn [OF ok(2)] kill_terminate [OF ok] kill_terminate_each [OF ok]
      kill_message [OF ok(2)] kill_exit [OF ok(2)] kill_grace [OF ok(2)] kill_error [OF ok(2)]
    by (cases e) (simp_all add: terminateAll_def Let_def split_beta)
qed

interpretation logged_system: event_system logged_step "\<lambda>x. registry_ok (fst x) \<and> kill_ok x"
  by unfold_locales (simp add: kill_step registry_ok_step)

section \<open>Properties\<close>

text \<open>A worker that was asked to terminate cannot outlive its grace window by its behaviour:
  in every reachable state, once no grace timer of the worker is left, it is gone or the
  supervisor has force-terminated its thread, whatever messages the worker sent meanwhile.\<close>

theorem terminated_worker_is_killed:
  assumes "TerminatePosted p reason \<in> set (snd (logged_run es a b))"
    and "p \<notin> set (graceTimers (fst (logged_run es a b)))"
  shows "\<not> live (fst (logged_run es a b)) p \<or> ThreadTerminate p \<in> set (snd (logged_run es a b))"
proof -
  have "kill_ok (new_supervisor a b, [])" by (simp add: kill_ok_def new_supervisor_def live_def)
  then have "kill_ok (logged_run es a b)" using logged_system.inv_run by simp
  with assms show ?thesis unfolding kill_ok_def by blast
qed

definition example_inputs :: emergency_inputs where
  "example_inputs = \<lparr>totalMemory = 0, freeMemory = 0, runtimeRss = 0, activeWorkerCount = 0,
     memoryHintMiB = None, maxHeapOverrideMiB = None\<rparr>"

definition example_spawn :: sup_event where
  "example_spawn = Spawn True example_inputs 0 \<lparr>opt_workerId = 7, opt_pluginId = ''p'',
     opt_installationId = ''i'', opt_trustLevel = None, opt_moduleGraphDigest = None,
     opt_maxOldGenerationSizeMb = None, opt_maxYoungGenerationSizeMb = None,
     opt_memoryHintMiB = None, opt_maxHeapOverrideMiB = None\<rparr>"

definition ready_message :: "rat \<Rightarrow> rat \<Rightarrow> json" where
  "ready_message wid epoch = JObject [(''kind'', JString ''hardened-ready''), (''workerId'', JNum wid),
     (''workerEpoch'', JNum epoch), (''lockdownMs'', JNum 1), (''compartmentMs'', JNum 1),
     (''bootstrapMs'', JNum 1), (''noNodeAuthority'', JBool True), (''probe'', JObject [])]"

definition ack_message :: "rat \<Rightarrow> rat \<Rightarrow> json" where
  "ack_message wid epoch = JObject [(''kind'', JString ''terminate-ack''), (''workerId'', JNum wid),
     (''workerEpoch'', JNum epoch)]"

theorem terminated_worker_is_killed_witness:
  "ThreadTerminate 0 \<in> set (snd (logged_run [example_spawn, Terminate 7 None, GraceElapsed 0] None None))"
proof -
  let ?r = "logged_run [example_spawn, Terminate 7 None, GraceElapsed 0] None None"
  have "TerminatePosted 0 None \<in> set (snd ?r)" "0 \<notin> set (graceTimers (fst ?r))" "live (fst ?r) 0"
    by code_simp+
  from terminated_worker_is_killed [OF this(1,2)] this(3) show ?thesis by blast
qed

text \<open>The ready message of a worker that is already asked to terminate brings the worker back
  to the ready state: the supervisor then drops its acknowledgement, and the requested exit is
  counted as a restart, as it is not without the ready message.\<close>

theorem late_ready_revives_terminating:
  "let s = sup_run [example_spawn, Terminate 7 None, Message 0 (ready_message 7 1)]
             (new_supervisor None None);
       s' = sup_run [Message 0 (ack_message 7 1), GraceElapsed 0, ThreadExit 0 None] s;
       t = sup_run [example_spawn, Terminate 7 None, Message 0 (ack_message 7 1), GraceElapsed 0,
             ThreadExit 0 None] (new_supervisor None None)
   in wstate (store s ! 0) = Ready \<and> sup_step (Message 0 (ack_message 7 1)) s = (s, [])
      \<and> workerRestarts s' = 1 \<and> workerRestarts t = 0"
  by code_simp

fun started_within :: "sup_effect \<Rightarrow> bool" where
  "started_within (ThreadStarted w epoch l) \<longleftrightarrow>
     256 \<le> maxOldGenerationSizeMb l \<and> maxOldGenerationSizeMb l \<le> 4096
     \<and> 64 \<le> maxYoungGenerationSizeMb l \<and> maxYoungGenerationSizeMb l \<le> 512"
| "started_within _ = True"

text \<open>The static configuration never changes, and only a spawn starts a thread.\<close>

lemma terminate_limits:
  "staticLimits (fst (terminateWorker w reason s)) = staticLimits s"
  "list_all started_within (snd (terminateWorker w reason s))"
  by (simp_all add: sup_defs split: option.split)

lemma terminate_each_limits:
  "staticLimits (fst (terminate_each ws reason s)) = staticLimits s
   \<and> list_all started_within (snd (terminate_each ws reason s))"
  by (induction ws arbitrary: s) (simp_all add: split_beta terminate_limits)

lemma message_limits:
  "staticLimits (fst (on_message p m s)) = staticLimits s" "list_all started_within (snd (on_message p m s))"
  by (simp_all add: sup_defs Let_def)

lemma spawn_limits:
  "staticLimits (fst (spawnWorker ok i now opts s)) = staticLimits s"
  "staticLimits s = None \<Longrightarrow> list_all started_within (snd (snd (spawnWorker ok i now opts s)))"
  by (auto simp: spawnWorker_def Let_def resolveEmergencyLimits_bounds)

lemma limits_step:
  "staticLimits s = None \<Longrightarrow>
    staticLimits (fst (sup_step e s)) = None \<and> list_all started_within (snd (sup_step e s))"
  by (cases e) (simp_all add: split_beta spawn_limits message_limits terminate_limits
    terminate_each_limits terminateAll_def grace_elapsed_def on_error_def on_exit_def set_record_def Let_def)

interpretation limits_system: event_system logged_step
  "\<lambda>x. staticLimits (fst x) = None \<and> list_all started_within (snd x)"
  by unfold_locales (simp add: limits_step)

text \<open>Without a static configuration every worker is started within the emergency boundary, an
  old generation of 256 to 4096 MiB and a young one of 64 to 512 MiB, whatever the options of the
  spawn, the readings of the system memory and the number of workers.\<close>

theorem workers_start_within_bounds:
  "list_all started_within (snd (logged_run es None maxYoung))"
  using limits_system.inv_run [of "(new_supervisor None maxYoung, [])" es]
  by (simp add: new_supervisor_def)

text \<open>A declared memory hint is granted whether or not the machine has the memory: with any
  amount of free memory, also none, the ceiling of a worker is at least its hint.\<close>

theorem hint_granted_without_headroom:
  assumes "memoryHintMiB i = Some (jint h)" and "256 \<le> h" and "h \<le> 4096"
    and "maxHeapOverrideMiB i = None"
  shows "maxOldGenerationSizeMb (computeEmergencyLimits i) \<ge> of_int h
    \<and> (freeMemory i \<le> 0 \<longrightarrow> maxOldGenerationSizeMb (computeEmergencyLimits i) = of_int h)"
proof -
  have hint: "given_integer (memoryHintMiB i) = Some (of_int h)"
    using isInteger_jint [of h] unfolding assms(1) jint_def given_integer_def by simp
  have none: "given_integer (maxHeapOverrideMiB i) = None" by (simp add: assms(4) given_integer_def)
  let ?c = "clamp (max (headroomMb i) (max 0 (of_int h))) EMERGENCY_MIN_OLD_GEN_MB EMERGENCY_MAX_OLD_GEN_MB"
  have old: "maxOldGenerationSizeMb (computeEmergencyLimits i) = js_round ?c"
    by (simp add: computeEmergencyLimits_def hint none Let_def)
  have h: "(256 :: rat) \<le> of_int h" "of_int h \<le> (4096 :: rat)" using assms(2,3) by linarith+
  then have "of_int h \<le> ?c" by (auto simp: clamp_def limit_constants)
  then have "of_int h \<le> js_round ?c" using js_round_mono [of "of_int h" ?c] by (simp add: js_round_of_int)
  moreover have "js_round ?c = of_int h" if "freeMemory i \<le> 0"
  proof -
    have "headroomMb i = 0"
      using that by (simp add: headroomMb_def limit_constants max_def)
    then have "?c = of_int h" using h by (simp add: clamp_def limit_constants max_def min_def)
    then show ?thesis by (simp add: js_round_of_int)
  qed
  ultimately show ?thesis by (simp add: old)
qed

theorem hint_granted_without_headroom_witness:
  "maxOldGenerationSizeMb (computeEmergencyLimits (example_inputs\<lparr>memoryHintMiB := Some (jint 4096)\<rparr>)) = 4096"
  using hint_granted_without_headroom [of "example_inputs\<lparr>memoryHintMiB := Some (jint 4096)\<rparr>" 4096]
  by (simp add: example_inputs_def)

end
