(* ===== verification/Capabilities.thy ===== *)
theory Capabilities
  imports Prelude "HOL-Library.List_Lexorder" "HOL-Library.Char_ord"
begin

text \<open>
  The capability model of the plugin kernel: the parser of capability names and scopes, the test
  whether a grant satisfies a request and the difference of two manifests
  (\<open>packages/plugin-sdk/src/kernel/capabilities.ts\<close>), the parser of a manifest's capability list
  (\<open>packages/plugin-sdk/src/manifest.ts\<close>), the table of grants and of plugin states
  (\<open>packages/db/src/repositories/pluginCapabilities.ts\<close>) and the broker that turns consent into
  grants, answers checks and revokes (\<open>apps/server/src/plugin/capabilityBroker.ts\<close>).

  The URL parser of the platform is the parameter \<open>protocol_of\<close> (the protocol of a text that is a
  URL), number printing in \<open>JSON.stringify\<close> the parameter \<open>num_text\<close>. A table is the list of its
  rows; the clock and the ids of new rows are arguments.
\<close>

named_theorems cap_defs \<open>definitions of the capability operations\<close>

section \<open>Requests, scopes and grants\<close>

datatype capability_scope =
  CurrentChat | SelectedChats "string list" | ChatScope string | AllScope | UserScope
| Workspace "string option" | Installation | Origins "string list" | Custom json

datatype scope_value = ScopeText string | ScopeObject capability_scope

record capability_request =
  req_name :: string
  req_scope :: "scope_value option"

record capability_grant =
  grant_name :: string
  grant_scope :: "scope_value option"
  grant_revision :: nat
  grantedAt :: int

definition CAPABILITY_NAMES :: "string list" where
  "CAPABILITY_NAMES =
     [''chats.read.current'', ''chats.read.selected'', ''chats.read.all'', ''chats.list'',
      ''chats.search'', ''chats.write.plugin'', ''chats.write.assistant'', ''chats.edit.own'',
      ''chats.delete.own'', ''chats.draft'', ''storage.installation'', ''storage.user'',
      ''storage.workspace'', ''storage.chat'', ''storage.blobs'', ''ui.panel'', ''ui.overlay'',
      ''ui.overlay.full'', ''ui.modal'', ''ui.commands'', ''ui.surfaces'',
      ''ui.global-shortcuts'', ''ui.messageBlock'', ''ui.notification'', ''compute.worker'',
      ''compute.backend'', ''jobs.background'', ''network.domains'', ''auth.connections'',
      ''secrets.use'', ''files.pick'', ''files.save'', ''clipboard.read'', ''clipboard.write'',
      ''notifications.show'', ''audio.play'', ''camera.request'', ''microphone.request'',
      ''system.openExternal'', ''services.provide'', ''services.connect'', ''storage.kv'',
      ''files.plugin'', ''files.system'', ''network.http'', ''network.websocket'',
      ''network.tcp'', ''network.udp'', ''network.listen'', ''network.dns'', ''network.local'',
      ''network.private'', ''network.metadata'', ''network.listen.public'', ''process.spawn'',
      ''process.exec'', ''process.signal'', ''system.env.read'', ''system.info'',
      ''system.unrestricted'', ''secrets.manageOwn'', ''secrets.reveal'', ''models.list'',
      ''models.invoke'', ''models.stream'', ''providers.read'', ''providers.register'',
      ''providers.configure'', ''database.core.read'', ''database.core.write'',
      ''jobs.longRunning'', ''scheduler.register'', ''settings.read'', ''settings.write'',
      ''characters.read'', ''characters.write'', ''lorebook.read'', ''lorebook.write'',
      ''chats.read'', ''chats.write'', ''diagnostics.own'', ''server.routes'',
      ''server.middleware'']"

definition LEGACY_ALIAS :: "(string \<times> string) list" where
  "LEGACY_ALIAS =
     [(''chat.read'', ''chats.read.current''), (''chat.write'', ''chats.write.plugin''),
      (''characters.read'', ''chats.read.current''),
      (''characters.write'', ''chats.write.plugin''),
      (''lorebook.read'', ''chats.read.current''),
      (''lorebook.write'', ''chats.write.plugin''),
      (''prompt.inspect'', ''chats.read.current''),
      (''prompt.modify'', ''chats.write.plugin''),
      (''providers.register'', ''compute.backend''), (''ui.toolbar'', ''ui.commands''),
      (''ui.sidebar'', ''ui.panel''), (''ui.messageActions'', ''ui.commands''),
      (''ui.shell'', ''ui.panel''), (''clipboard.read'', ''clipboard.read''),
      (''clipboard.write'', ''clipboard.write''), (''notifications'', ''notifications.show''),
      (''server.routes'', ''compute.backend'')]"

text \<open>\<open>LEGACY_ALIAS[value]\<close> also finds the properties every object inherits.\<close>

definition inherited_names :: "string list" where
  "inherited_names =
     [''constructor'', ''__proto__'', ''toString'', ''toLocaleString'', ''valueOf'',
      ''hasOwnProperty'', ''isPrototypeOf'', ''propertyIsEnumerable'', ''__defineGetter__'',
      ''__defineSetter__'', ''__lookupGetter__'', ''__lookupSetter__'']"

text \<open>What \<open>parseCapability\<close> returns: \<open>null\<close>, a request, or an object whose name is not a text but
  the inherited member of that name.\<close>

datatype parsed_capability =
  NoCapability | Capability capability_request | InheritedName string

definition plain_request :: "string \<Rightarrow> parsed_capability" where
  "plain_request n = Capability \<lparr>req_name = n, req_scope = None\<rparr>"

definition is_host_char :: "char \<Rightarrow> bool" where
  "is_host_char c = ((CHR ''a'' \<le> c \<and> c \<le> CHR ''z'') \<or> (CHR ''A'' \<le> c \<and> c \<le> CHR ''Z'')
     \<or> (CHR ''0'' \<le> c \<and> c \<le> CHR ''9'') \<or> c = CHR ''.'' \<or> c = CHR ''-'')"

definition isValidOrigin :: "(string \<Rightarrow> string option) \<Rightarrow> string \<Rightarrow> bool" where
  "isValidOrigin protocol_of scope = (case protocol_of scope of None \<Rightarrow> False
     | Some p \<Rightarrow> p = ''https:'' \<or> p = ''http:'')"

fun includes_text :: "string \<Rightarrow> string \<Rightarrow> bool" where
  "includes_text [] pat = (pat = [])"
| "includes_text (c # s) pat = (startsWith (c # s) pat \<or> includes_text s pat)"

definition parseCapability :: "(string \<Rightarrow> string option) \<Rightarrow> string \<Rightarrow> parsed_capability" where
  "parseCapability protocol_of raw =
    (let value = trim raw in
     if length value = 0 \<or> length value > 128 then NoCapability
     else if startsWith value ''network:'' then
       (let scope = drop (length ''network:'') value in
        if scope = ''*''
        then Capability \<lparr>req_name = ''network.domains'', req_scope = Some (ScopeObject AllScope)\<rparr>
        else if \<not> isValidOrigin protocol_of scope \<and> \<not> (scope \<noteq> [] \<and> list_all is_host_char scope)
        then NoCapability
        else let origin = (if includes_text scope ''://'' then scope else ''https://'' @ scope)
             in Capability \<lparr>req_name = ''network.domains'', req_scope = Some (ScopeObject (Origins [origin]))\<rparr>)
     else if value = ''files:plugin'' then plain_request ''storage.installation''
     else if value = ''files:user-selected'' then plain_request ''files.pick''
     else if value = ''legacy.trusted'' then NoCapability
     else if value \<in> set CAPABILITY_NAMES then plain_request value
     else (case map_of LEGACY_ALIAS value of
             Some name \<Rightarrow> plain_request name
           | None \<Rightarrow> if value \<in> set inherited_names then InheritedName value else NoCapability))"

fun string_items :: "json list \<Rightarrow> string list" where
  "string_items [] = []"
| "string_items (JString s # js) = s # string_items js"
| "string_items (_ # js) = string_items js"

definition array_strings :: "json option \<Rightarrow> string list" where
  "array_strings v = (case v of Some (JArray js) \<Rightarrow> string_items js | _ \<Rightarrow> [])"

definition scope_of_text :: "string \<Rightarrow> capability_scope option" where
  "scope_of_text v =
     (if v = ''current-chat'' then Some CurrentChat
      else if v = ''selected-chats'' then Some (SelectedChats [])
      else if v = ''all'' then Some AllScope
      else if v = ''user'' then Some UserScope
      else if v = ''installation'' then Some Installation
      else None)"

definition scope_of_object :: "json \<Rightarrow> capability_scope option" where
  "scope_of_object v =
     (case json_field v ''kind'' of Some (JString kind) \<Rightarrow>
        (if kind = ''current-chat'' then Some CurrentChat
         else if kind = ''selected-chats'' then Some (SelectedChats (array_strings (json_field v ''chatIds'')))
         else if kind = ''chat'' then
           (case json_field v ''chatId'' of Some (JString c) \<Rightarrow> Some (ChatScope c) | _ \<Rightarrow> None)
         else if kind = ''all'' then Some AllScope
         else if kind = ''user'' then Some UserScope
         else if kind = ''workspace'' then Some (Workspace
           (case json_field v ''workspaceId'' of Some (JString w) \<Rightarrow> Some w | _ \<Rightarrow> None))
         else if kind = ''installation'' then Some Installation
         else if kind = ''origins'' then
           (let origins = array_strings (json_field v ''origins'')
            in if origins \<noteq> [] then Some (Origins origins) else None)
         else if kind = ''custom'' then
           (case json_field v ''params'' of
              Some (JObject fs) \<Rightarrow> Some (Custom (JObject fs))
            | Some (JArray js) \<Rightarrow> Some (Custom (JArray js))
            | _ \<Rightarrow> None)
         else None)
      | _ \<Rightarrow> None)"

fun parseCapabilityScope :: "json option \<Rightarrow> capability_scope option" where
  "parseCapabilityScope (Some (JString v)) = scope_of_text v"
| "parseCapabilityScope (Some (JObject fs)) = scope_of_object (JObject fs)"
| "parseCapabilityScope _ = None"

fun scope_kind :: "capability_scope \<Rightarrow> string" where
  "scope_kind CurrentChat = ''current-chat''"
| "scope_kind (SelectedChats _) = ''selected-chats''"
| "scope_kind (ChatScope _) = ''chat''"
| "scope_kind AllScope = ''all''"
| "scope_kind UserScope = ''user''"
| "scope_kind (Workspace _) = ''workspace''"
| "scope_kind Installation = ''installation''"
| "scope_kind (Origins _) = ''origins''"
| "scope_kind (Custom _) = ''custom''"

definition wanted_scope :: "capability_request \<Rightarrow> capability_scope option" where
  "wanted_scope request = (case req_scope request of None \<Rightarrow> None
     | Some (ScopeText t) \<Rightarrow> parseCapabilityScope (Some (JString t))
     | Some (ScopeObject s) \<Rightarrow> Some s)"

text \<open>A granted scope that is a text (or the empty object, here \<open>None\<close>) has no \<open>kind\<close>.\<close>

definition grantSatisfies :: "capability_grant \<Rightarrow> capability_request \<Rightarrow> bool" where
  "grantSatisfies grant request =
    (if grant_name grant \<noteq> req_name request then False
     else case wanted_scope request of None \<Rightarrow> True
     | Some wanted \<Rightarrow> (case grant_scope grant of
         Some (ScopeObject granted) \<Rightarrow>
           if granted = AllScope then True
           else if scope_kind granted \<noteq> scope_kind wanted then False
           else (case (granted, wanted) of
                   (ChatScope a, ChatScope b) \<Rightarrow> a = b
                 | (SelectedChats ids, ChatScope b) \<Rightarrow> b \<in> set ids
                 | (Origins os, Origins ws) \<Rightarrow> list_all (\<lambda>w. w \<in> set os) ws
                 | _ \<Rightarrow> True)
       | _ \<Rightarrow> False))"

section \<open>The capability list of a manifest\<close>

datatype list_issue =
  NotAnArray | UnknownCapability string | BadEntry | ScopeFromPrefix | InvalidScope

text \<open>One entry of the list: the issues it adds and the requests it yields.\<close>

definition parse_entry :: "(string \<Rightarrow> string option) \<Rightarrow> json \<Rightarrow> list_issue list \<times> parsed_capability list" where
  "parse_entry protocol_of entry =
    (case entry of
       JString e \<Rightarrow> (case parseCapability protocol_of e of
           NoCapability \<Rightarrow> ([UnknownCapability e], [])
         | request \<Rightarrow> ([], [request]))
     | JObject fs \<Rightarrow> (case json_field entry ''name'' of
           Some (JString n) \<Rightarrow> (case parseCapability protocol_of n of
               NoCapability \<Rightarrow> ([UnknownCapability n], [])
             | InheritedName m \<Rightarrow>
                 (case json_field entry ''scope'' of None \<Rightarrow> ([], [InheritedName m])
                  | Some v \<Rightarrow> (case parseCapabilityScope (Some v) of
                        None \<Rightarrow> ([InvalidScope], []) | Some s \<Rightarrow> ([], [InheritedName m])))
             | Capability request \<Rightarrow>
                 (case json_field entry ''scope'' of None \<Rightarrow> ([], [Capability request])
                  | Some v \<Rightarrow>
                      if req_scope request \<noteq> None then ([ScopeFromPrefix], [])
                      else (case parseCapabilityScope (Some v) of
                              None \<Rightarrow> ([InvalidScope], [])
                            | Some s \<Rightarrow> ([], [Capability (request\<lparr>req_scope := Some (ScopeObject s)\<rparr>)]))))
         | _ \<Rightarrow> ([BadEntry], []))
     | _ \<Rightarrow> ([BadEntry], []))"

definition parseCapabilityList ::
  "(string \<Rightarrow> string option) \<Rightarrow> json \<Rightarrow> list_issue list \<times> parsed_capability list option" where
  "parseCapabilityList protocol_of v =
     (case v of JArray entries \<Rightarrow>
        (concat (map (\<lambda>e. fst (parse_entry protocol_of e)) entries),
         Some (concat (map (\<lambda>e. snd (parse_entry protocol_of e)) entries)))
      | _ \<Rightarrow> ([NotAnArray], None))"

section \<open>The difference of two manifests\<close>

definition hex_digit :: "nat \<Rightarrow> char" where
  "hex_digit d = ''0123456789abcdef'' ! d"

definition json_char :: "char \<Rightarrow> string" where
  "json_char c =
     (let n = of_char c :: nat in
      if c = CHR 0x22 then [CHR 0x5C, CHR 0x22]
      else if c = CHR 0x5C then [CHR 0x5C, CHR 0x5C]
      else if n = 8 then [CHR 0x5C, CHR ''b''] else if n = 12 then [CHR 0x5C, CHR ''f'']
      else if n = 10 then [CHR 0x5C, CHR ''n''] else if n = 13 then [CHR 0x5C, CHR ''r'']
      else if n = 9 then [CHR 0x5C, CHR ''t'']
      else if n < 32 then [CHR 0x5C, CHR ''u'', CHR ''0'', CHR ''0'', hex_digit (n div 16), hex_digit (n mod 16)]
      else [c])"

definition json_quote :: "string \<Rightarrow> string" where
  "json_quote s = CHR 0x22 # concat (map json_char s) @ [CHR 0x22]"

fun stringify :: "(rat \<Rightarrow> string) \<Rightarrow> json \<Rightarrow> string" where
  "stringify num_text JNull = ''null''"
| "stringify num_text (JBool b) = (if b then ''true'' else ''false'')"
| "stringify num_text (JNum r) = num_text r"
| "stringify num_text (JString s) = json_quote s"
| "stringify num_text (JArray js) = ''['' @ join_with '','' (map (stringify num_text) js) @ '']''"
| "stringify num_text (JObject fs) =
     ''{'' @ join_with '','' (map (\<lambda>(k, v). json_quote k @ '':'' @ stringify num_text v) fs) @ ''}''"

fun scope_json :: "capability_scope \<Rightarrow> json" where
  "scope_json (SelectedChats ids) =
     JObject [(''kind'', JString ''selected-chats''), (''chatIds'', JArray (map JString ids))]"
| "scope_json (ChatScope c) = JObject [(''kind'', JString ''chat''), (''chatId'', JString c)]"
| "scope_json (Workspace (Some w)) =
     JObject [(''kind'', JString ''workspace''), (''workspaceId'', JString w)]"
| "scope_json (Origins os) = JObject [(''kind'', JString ''origins''), (''origins'', JArray (map JString os))]"
| "scope_json (Custom params) = JObject [(''kind'', JString ''custom''), (''params'', params)]"
| "scope_json s = JObject [(''kind'', JString (scope_kind s))]"

definition request_key :: "(rat \<Rightarrow> string) \<Rightarrow> capability_request \<Rightarrow> string" where
  "request_key num_text request = req_name request @ '':'' @
     (case req_scope request of None \<Rightarrow> ''null'' | Some (ScopeText t) \<Rightarrow> t
      | Some (ScopeObject s) \<Rightarrow> stringify num_text (scope_json s))"

definition keyed :: "(rat \<Rightarrow> string) \<Rightarrow> capability_request list \<Rightarrow> (string, capability_request) jmap" where
  "keyed num_text requests = fold (\<lambda>r m. jm_set (request_key num_text r) r m) requests []"

definition diffCapabilities :: "(rat \<Rightarrow> string) \<Rightarrow> capability_request list \<Rightarrow> capability_request list
    \<Rightarrow> capability_request list \<times> capability_request list" where
  "diffCapabilities num_text prev nxt =
     (let prevKeys = keyed num_text prev; nextKeys = keyed num_text nxt
      in (map snd (filter (\<lambda>(k, _). \<not> jm_has prevKeys k) nextKeys),
          map snd (filter (\<lambda>(k, _). \<not> jm_has nextKeys k) prevKeys)))"

section \<open>The tables\<close>

record grant_row =
  row_id :: string
  plugin_id :: string
  row_name :: string
  row_scope :: "scope_value option"
  row_revision :: nat
  granted_at :: int
  expires_at :: "int option"
  revoked_at :: "int option"

type_synonym grant_table = "grant_row list"

definition is_grant :: "string \<Rightarrow> string \<Rightarrow> grant_row \<Rightarrow> bool" where
  "is_grant pid name r = (plugin_id r = pid \<and> row_name r = name)"

definition grants_get :: "grant_table \<Rightarrow> string \<Rightarrow> string \<Rightarrow> grant_row option" where
  "grants_get t pid name = find (is_grant pid name) t"

definition grants_listActive :: "grant_table \<Rightarrow> string \<Rightarrow> int \<Rightarrow> grant_row list" where
  "grants_listActive t pid now = sort_key row_name (filter (\<lambda>r. plugin_id r = pid \<and> revoked_at r = None
     \<and> (case expires_at r of None \<Rightarrow> True | Some e \<Rightarrow> e > now)) t)"

definition grants_grant :: "string \<Rightarrow> int \<Rightarrow> string \<Rightarrow> string \<Rightarrow> scope_value option \<Rightarrow> int option
    \<Rightarrow> grant_table \<Rightarrow> grant_table" where
  "grants_grant new_id now pid name scope expiresAt t =
     (case grants_get t pid name of
        Some existing \<Rightarrow>
          map (\<lambda>r. if row_id r = row_id existing
                   then r\<lparr>row_scope := scope, row_revision := row_revision r + 1, granted_at := now,
                          expires_at := expiresAt, revoked_at := None\<rparr>
                   else r) t
      | None \<Rightarrow> t @ [\<lparr>row_id = new_id, plugin_id = pid, row_name = name, row_scope = scope,
          row_revision = 1, granted_at = now, expires_at = expiresAt, revoked_at = None\<rparr>])"

definition grants_revoke :: "string \<Rightarrow> string \<Rightarrow> int \<Rightarrow> grant_table \<Rightarrow> grant_table \<times> bool" where
  "grants_revoke pid name now t =
     (map (\<lambda>r. if is_grant pid name r \<and> revoked_at r = None then r\<lparr>revoked_at := Some now\<rparr> else r) t,
      list_ex (\<lambda>r. is_grant pid name r \<and> revoked_at r = None) t)"

definition grants_revokeAll :: "string \<Rightarrow> int \<Rightarrow> grant_table \<Rightarrow> grant_table \<times> nat" where
  "grants_revokeAll pid now t =
     (map (\<lambda>r. if plugin_id r = pid \<and> revoked_at r = None then r\<lparr>revoked_at := Some now\<rparr> else r) t,
      length (filter (\<lambda>r. plugin_id r = pid \<and> revoked_at r = None) t))"

text \<open>The states plugins keep on the host, guarded by a revision.\<close>

record state_row =
  state_id :: string
  state_plugin :: string
  state_scope :: string
  owner_id :: "string option"
  schema_version :: nat
  revision :: nat
  data :: json
  created_at :: int
  updated_at :: int

text \<open>The tables compare \<open>COALESCE(owner_id, '')\<close>.\<close>

definition owner_key :: "string option \<Rightarrow> string" where
  "owner_key owner = (case owner of None \<Rightarrow> [] | Some x \<Rightarrow> x)"

definition is_state :: "string \<Rightarrow> string \<Rightarrow> string option \<Rightarrow> state_row \<Rightarrow> bool" where
  "is_state pid scope owner r = (state_plugin r = pid \<and> state_scope r = scope
     \<and> owner_key (owner_id r) = owner_key owner)"

definition state_get :: "state_row list \<Rightarrow> string \<Rightarrow> string \<Rightarrow> string option \<Rightarrow> state_row option" where
  "state_get t pid scope owner = find (is_state pid scope owner) t"

definition state_list :: "state_row list \<Rightarrow> string \<Rightarrow> state_row list" where
  "state_list t pid = sort_key state_scope (sort_key (\<lambda>r. owner_key (owner_id r))
     (filter (\<lambda>r. state_plugin r = pid) t))"

text \<open>\<open>Inl\<close> is the conflict with the current row.\<close>

definition state_set :: "string \<Rightarrow> int \<Rightarrow> string \<Rightarrow> string \<Rightarrow> string option \<Rightarrow> json \<Rightarrow> nat option
    \<Rightarrow> state_row list \<Rightarrow> state_row list \<times> (state_row + state_row option)" where
  "state_set new_id now pid scope owner d expected t =
     (case state_get t pid scope owner of
        Some existing \<Rightarrow>
          (if (case expected of None \<Rightarrow> False | Some e \<Rightarrow> revision existing \<noteq> e) then (t, Inl existing)
           else let t' = map (\<lambda>r. if state_id r = state_id existing
                  then r\<lparr>data := d, revision := revision r + 1, updated_at := now\<rparr> else r) t
                in (t', Inr (state_get t' pid scope owner)))
      | None \<Rightarrow>
          let t' = t @ [\<lparr>state_id = new_id, state_plugin = pid, state_scope = scope, owner_id = owner,
                schema_version = 1, revision = 1, data = d, created_at = now, updated_at = now\<rparr>]
          in (t', Inr (state_get t' pid scope owner)))"

definition state_delete :: "string \<Rightarrow> string \<Rightarrow> string option \<Rightarrow> state_row list \<Rightarrow> state_row list \<times> bool" where
  "state_delete pid scope owner t =
     (filter (\<lambda>r. \<not> is_state pid scope owner r) t, list_ex (is_state pid scope owner) t)"

definition state_deleteAll :: "string \<Rightarrow> state_row list \<Rightarrow> state_row list \<times> nat" where
  "state_deleteAll pid t = (filter (\<lambda>r. state_plugin r \<noteq> pid) t,
     length (filter (\<lambda>r. state_plugin r = pid) t))"

definition state_restore :: "string \<Rightarrow> int \<Rightarrow> string \<Rightarrow> string \<Rightarrow> string option \<Rightarrow> nat \<Rightarrow> nat \<Rightarrow> json
    \<Rightarrow> state_row list \<Rightarrow> state_row list \<times> bool" where
  "state_restore new_id now pid scope owner schema rv d t =
     (case state_get t pid scope owner of Some existing \<Rightarrow> (t, False)
      | None \<Rightarrow> (t @ [\<lparr>state_id = new_id, state_plugin = pid, state_scope = scope, owner_id = owner,
          schema_version = schema, revision = rv, data = d, created_at = now, updated_at = now\<rparr>], True))"

section \<open>The broker\<close>

record revoked_event =
  ev_plugin :: string
  ev_name :: string
  ev_revision :: nat

record broker =
  grants :: grant_table
  emitted :: "revoked_event list"

definition toGrant :: "grant_row \<Rightarrow> capability_grant" where
  "toGrant r = \<lparr>grant_name = row_name r, grant_scope = row_scope r, grant_revision = row_revision r,
     grantedAt = granted_at r\<rparr>"

definition is_active :: "int \<Rightarrow> grant_row \<Rightarrow> bool" where
  "is_active now r = (revoked_at r = None \<and> (case expires_at r of None \<Rightarrow> True | Some e \<Rightarrow> e > now))"

fun consentFor :: "(string \<Rightarrow> string option) \<Rightarrow> capability_request \<Rightarrow> string list \<Rightarrow> capability_request option" where
  "consentFor protocol_of request [] = None"
| "consentFor protocol_of request (raw # raws) =
     (if raw = req_name request then Some request
      else case parseCapability protocol_of raw of
        Capability parsed \<Rightarrow>
          (if grantSatisfies \<lparr>grant_name = req_name parsed,
                grant_scope = (case req_scope parsed of
                    Some (ScopeText s) \<Rightarrow> map_option ScopeObject (parseCapabilityScope (Some (JString s)))
                  | s \<Rightarrow> s),
                grant_revision = 0, grantedAt = 0\<rparr> request
           then Some parsed else consentFor protocol_of request raws)
      | _ \<Rightarrow> consentFor protocol_of request raws)"

text \<open>The loop of \<open>grantConsented\<close>; the ids of new rows are handed out from a list.\<close>

fun issue_grants :: "(string \<Rightarrow> string option) \<Rightarrow> int \<Rightarrow> string \<Rightarrow> string list \<Rightarrow> (nat \<Rightarrow> string)
    \<Rightarrow> capability_request list \<Rightarrow> grant_table \<Rightarrow> grant_table \<times> capability_grant list" where
  "issue_grants protocol_of now pid permissions ids [] t = (t, [])"
| "issue_grants protocol_of now pid permissions ids (request # requests) t =
     (case (case grants_get t pid (req_name request) of
              Some existing \<Rightarrow> if is_active now existing then Some existing else None
            | None \<Rightarrow> None) of
        Some existing \<Rightarrow>
          (let (t', issued) = issue_grants protocol_of now pid permissions ids requests t
           in (t', toGrant existing # issued))
      | None \<Rightarrow> (case consentFor protocol_of request permissions of
            None \<Rightarrow> issue_grants protocol_of now pid permissions ids requests t
          | Some consent \<Rightarrow>
              (let t1 = grants_grant (ids (length requests)) now pid (req_name request) (req_scope consent) None t;
                   (t', issued) = issue_grants protocol_of now pid permissions ids requests t1
               in (t', (case grants_get t1 pid (req_name request) of
                      Some e \<Rightarrow> [toGrant e] | None \<Rightarrow> []) @ issued))))"

definition grantConsented :: "(string \<Rightarrow> string option) \<Rightarrow> int \<Rightarrow> (nat \<Rightarrow> string) \<Rightarrow> string
    \<Rightarrow> capability_request list option \<Rightarrow> capability_request list option \<Rightarrow> string list
    \<Rightarrow> broker \<Rightarrow> broker \<times> capability_grant list" where
  "grantConsented protocol_of now ids pid required optional permissions b =
     (let requests = (case required of None \<Rightarrow> [] | Some rs \<Rightarrow> rs) @ (case optional of None \<Rightarrow> [] | Some rs \<Rightarrow> rs);
          (t, issued) = issue_grants protocol_of now pid permissions ids requests (grants b)
      in (b\<lparr>grants := t\<rparr>, issued))"

definition activeGrants :: "int \<Rightarrow> string \<Rightarrow> broker \<Rightarrow> capability_grant list" where
  "activeGrants now pid b = map toGrant (grants_listActive (grants b) pid now)"

text \<open>A request whose name parses to an inherited member hands SQLite a value it cannot bind.\<close>

datatype broker_error = UnbindableName

definition grantRuntime :: "(string \<Rightarrow> string option) \<Rightarrow> int \<Rightarrow> string \<Rightarrow> string \<Rightarrow> capability_request
    \<Rightarrow> broker \<Rightarrow> broker \<times> (broker_error + capability_grant option)" where
  "grantRuntime protocol_of now new_id pid request b =
     (case parseCapability protocol_of (req_name request) of
        NoCapability \<Rightarrow> (b, Inr None)
      | InheritedName m \<Rightarrow> (b, Inl UnbindableName)
      | Capability parsed \<Rightarrow>
          (let explicitScope = (case req_scope request of None \<Rightarrow> None
                 | Some (ScopeText s) \<Rightarrow> parseCapabilityScope (Some (JString s))
                 | Some (ScopeObject s) \<Rightarrow> parseCapabilityScope (Some (scope_json s)));
               scope = (case explicitScope of Some s \<Rightarrow> Some (ScopeObject s) | None \<Rightarrow> req_scope parsed)
           in case (case grants_get (grants b) pid (req_name parsed) of
                      Some existing \<Rightarrow> if is_active now existing then Some existing else None
                    | None \<Rightarrow> None) of
                Some existing \<Rightarrow> (b, Inr (Some (toGrant existing)))
              | None \<Rightarrow>
                  (let t = grants_grant new_id now pid (req_name parsed) scope None (grants b)
                   in (b\<lparr>grants := t\<rparr>, Inr (map_option toGrant (grants_get t pid (req_name parsed)))))))"

definition check :: "int \<Rightarrow> string \<Rightarrow> capability_request \<Rightarrow> broker \<Rightarrow> bool" where
  "check now pid request b = (case grants_get (grants b) pid (req_name request) of
       None \<Rightarrow> False
     | Some entry \<Rightarrow>
         (if revoked_at entry \<noteq> None then False
          else if (case expires_at entry of None \<Rightarrow> False | Some e \<Rightarrow> e \<le> now) then False
          else grantSatisfies (toGrant entry) request))"

definition revoke_grant :: "int \<Rightarrow> string \<Rightarrow> string \<Rightarrow> broker \<Rightarrow> broker \<times> nat option" where
  "revoke_grant now pid name b = (case grants_get (grants b) pid name of
       None \<Rightarrow> (b, None)
     | Some entry \<Rightarrow>
         (if revoked_at entry \<noteq> None then (b, None)
          else
            let t = fst (grants_revoke pid name now (grants b));
                rv = (case grants_get t pid name of Some r \<Rightarrow> row_revision r | None \<Rightarrow> row_revision entry)
            in (b\<lparr>grants := t, emitted := emitted b @ [\<lparr>ev_plugin = pid, ev_name = name, ev_revision = rv\<rparr>]\<rparr>,
                Some rv)))"

definition revokeAll :: "int \<Rightarrow> string \<Rightarrow> broker \<Rightarrow> broker \<times> nat" where
  "revokeAll now pid b =
     (let held = grants_listActive (grants b) pid now; (t, n) = grants_revokeAll pid now (grants b)
      in (b\<lparr>grants := t, emitted := emitted b
            @ map (\<lambda>r. \<lparr>ev_plugin = pid, ev_name = row_name r, ev_revision = row_revision r\<rparr>) held\<rparr>, n))"

section \<open>The contract of a grant repository\<close>

text \<open>What the broker relies on: a lookup sees the last grant or revocation of the pair it asks for,
  and nothing a grant or revocation does shows at another pair.\<close>

locale grant_repository =
  fixes get :: "'t \<Rightarrow> string \<Rightarrow> string \<Rightarrow> 'e option"
    and live :: "'e \<Rightarrow> bool"
    and issue :: "'i \<Rightarrow> string \<Rightarrow> string \<Rightarrow> 't \<Rightarrow> 't"
    and withdraw :: "string \<Rightarrow> string \<Rightarrow> 't \<Rightarrow> 't"
    and withdraw_all :: "string \<Rightarrow> 't \<Rightarrow> 't"
    and fresh :: "'i \<Rightarrow> 't \<Rightarrow> bool"
    and inv :: "'t \<Rightarrow> bool"
  assumes get_issue: "inv t \<Longrightarrow> fresh i t \<Longrightarrow> \<exists>e. get (issue i p n t) p n = Some e \<and> live e"
    and get_issue_other: "inv t \<Longrightarrow> fresh i t \<Longrightarrow> (p', n') \<noteq> (p, n) \<Longrightarrow>
      get (issue i p n t) p' n' = get t p' n'"
    and get_withdraw: "inv t \<Longrightarrow> get (withdraw p n t) p n = Some e \<Longrightarrow> \<not> live e"
    and get_withdraw_other: "inv t \<Longrightarrow> (p', n') \<noteq> (p, n) \<Longrightarrow> get (withdraw p n t) p' n' = get t p' n'"
    and get_withdraw_all: "inv t \<Longrightarrow> get (withdraw_all p t) p n = Some e \<Longrightarrow> \<not> live e"
    and get_withdraw_all_other: "inv t \<Longrightarrow> p' \<noteq> p \<Longrightarrow> get (withdraw_all p t) p' n' = get t p' n'"
    and inv_issue: "inv t \<Longrightarrow> fresh i t \<Longrightarrow> inv (issue i p n t)"
    and inv_withdraw: "inv t \<Longrightarrow> inv (withdraw p n t)"
    and inv_withdraw_all: "inv t \<Longrightarrow> inv (withdraw_all p t)"
begin

definition held_pairs :: "'t \<Rightarrow> (string \<times> string) set" where
  "held_pairs t = {(p, n). \<exists>e. get t p n = Some e \<and> live e}"

lemma held_issue:
  assumes "inv t" and "fresh i t"
  shows "held_pairs (issue i p n t) = insert (p, n) (held_pairs t)"
proof -
  have "x \<in> held_pairs (issue i p n t) \<longleftrightarrow> x = (p, n) \<or> x \<in> held_pairs t" for x
    using get_issue [OF assms, of p n] get_issue_other [OF assms, of "fst x" "snd x" p n]
    by (cases "x = (p, n)") (auto simp: held_pairs_def)
  then show ?thesis by auto
qed

lemma held_withdraw:
  assumes "inv t"
  shows "held_pairs (withdraw p n t) = held_pairs t - {(p, n)}"
proof -
  have "x \<in> held_pairs (withdraw p n t) \<longleftrightarrow> x \<noteq> (p, n) \<and> x \<in> held_pairs t" for x
    using get_withdraw [OF assms, of p n] get_withdraw_other [OF assms, of "fst x" "snd x" p n]
    by (cases "x = (p, n)") (auto simp: held_pairs_def)
  then show ?thesis by auto
qed

lemma held_withdraw_all:
  assumes "inv t"
  shows "held_pairs (withdraw_all p t) = {x \<in> held_pairs t. fst x \<noteq> p}"
proof -
  have "x \<in> held_pairs (withdraw_all p t) \<longleftrightarrow> fst x \<noteq> p \<and> x \<in> held_pairs t" for x
    using get_withdraw_all [OF assms, of p "snd x"] get_withdraw_all_other [OF assms, of "fst x" p "snd x"]
    by (cases "fst x = p"; cases x) (fastforce simp: held_pairs_def)+
  then show ?thesis by auto
qed

end

section \<open>The grant table keeps the contract\<close>

definition table_ok :: "grant_table \<Rightarrow> bool" where
  "table_ok t = (distinct (map row_id t) \<and> (\<forall>r \<in> set t. expires_at r = None))"

definition row_live :: "grant_row \<Rightarrow> bool" where
  "row_live r = (revoked_at r = None)"

lemma find_map: "find P (map f xs) = map_option f (find (P \<circ> f) xs)"
  by (induction xs) auto

lemma find_append: "find P (xs @ ys) = (case find P xs of Some x \<Rightarrow> Some x | None \<Rightarrow> find P ys)"
  by (induction xs) auto

lemma grants_get_map:
  assumes "\<And>r. plugin_id (f r) = plugin_id r \<and> row_name (f r) = row_name r"
  shows "grants_get (map f t) p n = map_option f (grants_get t p n)"
proof -
  have "is_grant p n \<circ> f = is_grant p n" using assms by (auto simp: is_grant_def)
  then show ?thesis by (simp add: grants_get_def find_map)
qed

lemma grants_get_SomeD: "grants_get t p n = Some r \<Longrightarrow> r \<in> set t \<and> plugin_id r = p \<and> row_name r = n"
  by (auto simp: grants_get_def is_grant_def find_Some_iff)

lemma grants_get_grant_existing:
  assumes "grants_get t p n = Some x"
  shows "grants_get (grants_grant i now p n s e t) p' n' = map_option
    (\<lambda>r. if row_id r = row_id x then r\<lparr>row_scope := s, row_revision := row_revision r + 1,
       granted_at := now, expires_at := e, revoked_at := None\<rparr> else r) (grants_get t p' n')"
  unfolding grants_grant_def assms option.case by (rule grants_get_map) simp

lemma grants_get_grant:
  assumes ok: "table_ok t"
  shows "grants_get (grants_grant i now p n s None t) p' n' =
    (if (p', n') = (p, n) then Some (case grants_get t p n of
        Some x \<Rightarrow> x\<lparr>row_scope := s, row_revision := row_revision x + 1, granted_at := now,
          expires_at := None, revoked_at := None\<rparr>
      | None \<Rightarrow> \<lparr>row_id = i, plugin_id = p, row_name = n, row_scope = s, row_revision = 1,
          granted_at = now, expires_at = None, revoked_at = None\<rparr>)
     else grants_get t p' n')"
proof (cases "grants_get t p n")
  case None
  then show ?thesis
    by (auto simp: grants_grant_def grants_get_def find_append is_grant_def split: option.split)
next
  case (Some x)
  have "r = x" if "row_id r = row_id x" "r \<in> set t" for r
    using ok that grants_get_SomeD [OF Some] by (auto simp: table_ok_def distinct_map inj_on_def)
  then have "row_id r \<noteq> row_id x" if "grants_get t p' n' = Some r" "(p', n') \<noteq> (p, n)" for r
    using that grants_get_SomeD [OF Some] grants_get_SomeD [OF that(1)] by auto
  then show ?thesis
    by (cases "grants_get t p' n'") (auto simp: grants_get_grant_existing [OF Some] Some)
qed

lemma table_ok_map:
  assumes "table_ok t" and "\<And>r. row_id (f r) = row_id r"
    and "\<And>r. expires_at r = None \<Longrightarrow> expires_at (f r) = None"
  shows "table_ok (map f t)"
proof -
  have "row_id \<circ> f = row_id" using assms(2) by auto
  with assms show ?thesis by (auto simp: table_ok_def)
qed

lemma table_ok_grant:
  assumes "table_ok t" and "i \<notin> row_id ` set t"
  shows "table_ok (grants_grant i now p n s None t)"
proof (cases "grants_get t p n")
  case None
  with assms show ?thesis by (simp add: grants_grant_def table_ok_def)
next
  case (Some x)
  with assms(1) show ?thesis by (simp add: grants_grant_def table_ok_map)
qed

lemma grants_get_revoke: "grants_get (fst (grants_revoke p n now t)) p' n' = map_option
    (\<lambda>r. if is_grant p n r \<and> revoked_at r = None then r\<lparr>revoked_at := Some now\<rparr> else r) (grants_get t p' n')"
  unfolding grants_revoke_def fst_conv by (rule grants_get_map) simp

lemma grants_get_revokeAll: "grants_get (fst (grants_revokeAll p now t)) p' n' = map_option
    (\<lambda>r. if plugin_id r = p \<and> revoked_at r = None then r\<lparr>revoked_at := Some now\<rparr> else r) (grants_get t p' n')"
  unfolding grants_revokeAll_def fst_conv by (rule grants_get_map) simp

lemma table_ok_revoke [simp]:
  "table_ok t \<Longrightarrow> table_ok (fst (grants_revoke p n now t))"
  "table_ok t \<Longrightarrow> table_ok (fst (grants_revokeAll p now t))"
  by (simp_all add: grants_revoke_def grants_revokeAll_def table_ok_map)

interpretation grant_table: grant_repository grants_get row_live
  "\<lambda>(i, now, s) p n t. grants_grant i now p n s None t"
  "\<lambda>p n t. fst (grants_revoke p n clock t)" "\<lambda>p t. fst (grants_revokeAll p clock t)"
  "\<lambda>(i, now, s) t. i \<notin> row_id ` set t" table_ok
  for clock :: int
  by unfold_locales
    (auto simp: grants_get_grant grants_get_revoke grants_get_revokeAll row_live_def is_grant_def
      table_ok_grant map_option_case dest: grants_get_SomeD split: option.splits if_splits prod.splits)

section \<open>The broker implements the set of consented pairs\<close>

datatype broker_op =
  OpConsent int "nat \<Rightarrow> string" string "capability_request list option"
    "capability_request list option" "string list"
| OpRuntime int string string capability_request
| OpRevoke int string string
| OpRevokeAll int string

fun broker_step :: "(string \<Rightarrow> string option) \<Rightarrow> broker_op \<Rightarrow> broker \<Rightarrow> broker" where
  "broker_step pr (OpConsent now ids pid req opt perms) b = fst (grantConsented pr now ids pid req opt perms b)"
| "broker_step pr (OpRuntime now i pid request) b = fst (grantRuntime pr now i pid request b)"
| "broker_step pr (OpRevoke now pid name) b = fst (revoke_grant now pid name b)"
| "broker_step pr (OpRevokeAll now pid) b = fst (revokeAll now pid b)"

definition listed :: "capability_request list option \<Rightarrow> capability_request list option \<Rightarrow> capability_request list" where
  "listed req opt = (case req of None \<Rightarrow> [] | Some rs \<Rightarrow> rs) @ (case opt of None \<Rightarrow> [] | Some rs \<Rightarrow> rs)"

definition new_broker :: broker where
  "new_broker = \<lparr>grants = [], emitted = []\<rparr>"

text \<open>The abstract authority: a set of pairs of a plugin and a capability name. Consent adds pairs,
  revocation takes them away, and nothing else happens to them.\<close>

fun authority_step :: "(string \<Rightarrow> string option) \<Rightarrow> broker_op \<Rightarrow> (string \<times> string) set \<Rightarrow> (string \<times> string) set" where
  "authority_step pr (OpConsent now ids pid req opt perms) A =
     A \<union> set (map (\<lambda>r. (pid, req_name r)) (filter (\<lambda>r. consentFor pr r perms \<noteq> None) (listed req opt)))"
| "authority_step pr (OpRuntime now i pid request) A = (case parseCapability pr (req_name request) of
      Capability c \<Rightarrow> insert (pid, req_name c) A | _ \<Rightarrow> A)"
| "authority_step pr (OpRevoke now pid name) A = A - {(pid, name)}"
| "authority_step pr (OpRevokeAll now pid) A = Set.filter (\<lambda>x. fst x \<noteq> pid) A"

text \<open>The ids of new rows are new.\<close>

fun op_fresh :: "broker_op \<Rightarrow> broker \<Rightarrow> bool" where
  "op_fresh (OpConsent now ids pid req opt perms) b =
     (let new = map ids [0..<length (listed req opt)]
      in distinct new \<and> set new \<inter> row_id ` set (grants b) = {})"
| "op_fresh (OpRuntime now i pid request) b = (i \<notin> row_id ` set (grants b))"
| "op_fresh _ b = True"

fun ops_fresh :: "(string \<Rightarrow> string option) \<Rightarrow> broker_op list \<Rightarrow> broker \<Rightarrow> bool" where
  "ops_fresh pr [] b = True"
| "ops_fresh pr (p # ops) b = (op_fresh p b \<and> ops_fresh pr ops (broker_step pr p b))"

definition held :: "grant_table \<Rightarrow> (string \<times> string) set" where
  "held t = {(p, n). \<exists>e. grants_get t p n = Some e \<and> row_live e}"

lemma held_eq: "grant_table.held_pairs t = held t"
  by (simp add: held_def grant_table.held_pairs_def)

lemma held_grant: "table_ok t \<Longrightarrow> i \<notin> row_id ` set t \<Longrightarrow>
    held (grants_grant i now p n s None t) = insert (p, n) (held t)"
  using grant_table.held_issue [of t "(i, now, s)" p n] by (simp add: held_eq)

lemmas held_revoke = grant_table.held_withdraw [unfolded held_eq]
  and held_revokeAll = grant_table.held_withdraw_all [unfolded held_eq]

lemma active_iff: "table_ok t \<Longrightarrow> grants_get t p n = Some e \<Longrightarrow> is_active now e = row_live e"
  using grants_get_SomeD [of t p n e] by (auto simp: is_active_def row_live_def table_ok_def)

lemma row_ids_grant: "row_id ` set (grants_grant i now p n s e t) \<subseteq> insert i (row_id ` set t)"
  by (auto simp: grants_grant_def split: option.splits) (metis image_eqI)

lemma disjoint_insertI: "A \<inter> B = {} \<Longrightarrow> a \<notin> A \<Longrightarrow> C \<subseteq> insert a B \<Longrightarrow> A \<inter> C = {}"
  by blast

lemma issue_grants_held:
  assumes "table_ok t" and "distinct (map ids [0..<length rs])"
    and "set (map ids [0..<length rs]) \<inter> row_id ` set t = {}"
  shows "table_ok (fst (issue_grants pr now pid perms ids rs t)) \<and>
    held (fst (issue_grants pr now pid perms ids rs t)) =
      held t \<union> set (map (\<lambda>r. (pid, req_name r)) (filter (\<lambda>r. consentFor pr r perms \<noteq> None) rs))"
  using assms
proof (induction rs arbitrary: t)
  case Nil
  then show ?case by simp
next
  case (Cons r rs)
  have ids: "distinct (map ids [0..<length rs])" "set (map ids [0..<length rs]) \<inter> row_id ` set t = {}"
    "ids (length rs) \<notin> row_id ` set t" "ids (length rs) \<notin> set (map ids [0..<length rs])"
    using Cons.prems(2,3) by auto
  note IH = Cons.IH [OF Cons.prems(1) ids(1,2)]
  show ?case
  proof (cases "(pid, req_name r) \<in> held t")
    case True
    then obtain e where e: "grants_get t pid (req_name r) = Some e" "row_live e" by (auto simp: held_def)
    with active_iff [OF Cons.prems(1) e(1), of now] IH True show ?thesis
      by (simp add: split_beta) auto
  next
    case False
    then have none: "(case grants_get t pid (req_name r) of Some existing \<Rightarrow>
        if is_active now existing then Some existing else None | None \<Rightarrow> None) = None"
      using active_iff [OF Cons.prems(1), of pid "req_name r"] by (auto simp: held_def split: option.split)
    show ?thesis
    proof (cases "consentFor pr r perms")
      case None
      then have skip: "filter (\<lambda>r. consentFor pr r perms \<noteq> None) (r # rs)
          = filter (\<lambda>r. consentFor pr r perms \<noteq> None) rs" by simp
      show ?thesis using IH by (simp only: issue_grants.simps none option.case None skip)
    next
      case (Some c)
      let ?t1 = "grants_grant (ids (length rs)) now pid (req_name r) (req_scope c) None t"
      have "table_ok ?t1" by (rule table_ok_grant [OF Cons.prems(1) ids(3)])
      moreover have "set (map ids [0..<length rs]) \<inter> row_id ` set ?t1 = {}"
        by (rule disjoint_insertI [OF ids(2,4) row_ids_grant])
      ultimately have "table_ok (fst (issue_grants pr now pid perms ids rs ?t1)) \<and>
          held (fst (issue_grants pr now pid perms ids rs ?t1)) = held ?t1 \<union>
            set (map (\<lambda>r. (pid, req_name r)) (filter (\<lambda>r. consentFor pr r perms \<noteq> None) rs))"
        using ids(1) by (intro Cons.IH)
      moreover have "fst (issue_grants pr now pid perms ids (r # rs) t)
          = fst (issue_grants pr now pid perms ids rs ?t1)"
        by (simp only: issue_grants.simps none Some option.case Let_def split_beta fst_conv)
      ultimately show ?thesis using Some
        by (simp only: held_grant [OF Cons.prems(1) ids(3)]) auto
    qed
  qed
qed

lemma broker_step_held:
  assumes ok: "table_ok (grants b)" and new: "op_fresh p b"
  shows "table_ok (grants (broker_step pr p b)) \<and>
    held (grants (broker_step pr p b)) = authority_step pr p (held (grants b))"
proof (cases p)
  case (OpConsent now ids pid req opt perms)
  with new issue_grants_held [OF ok, of ids "listed req opt" pr now pid perms] show ?thesis
    by (simp add: grantConsented_def listed_def Let_def split_beta)
next
  case (OpRuntime now i pid request)
  show ?thesis
  proof (cases "parseCapability pr (req_name request)")
    case (Capability c)
    show ?thesis
    proof (cases "(pid, req_name c) \<in> held (grants b)")
      case True
      then obtain e where e: "grants_get (grants b) pid (req_name c) = Some e" "row_live e"
        by (auto simp: held_def)
      with active_iff [OF ok e(1), of now] Capability OpRuntime True ok show ?thesis
        by (simp add: grantRuntime_def Let_def insert_absorb)
    next
      case False
      then have none: "(case grants_get (grants b) pid (req_name c) of Some existing \<Rightarrow>
          if is_active now existing then Some existing else None | None \<Rightarrow> None) = None"
        using active_iff [OF ok, of pid "req_name c"] by (auto simp: held_def split: option.split)
      from new OpRuntime have "i \<notin> row_id ` set (grants b)" by simp
      with ok none Capability OpRuntime show ?thesis
        by (simp add: grantRuntime_def Let_def table_ok_grant held_grant)
    qed
  qed (use ok OpRuntime in \<open>simp_all add: grantRuntime_def\<close>)
next
  case (OpRevoke now pid name)
  show ?thesis
  proof (cases "(pid, name) \<in> held (grants b)")
    case True
    then obtain e where "grants_get (grants b) pid name = Some e" "revoked_at e = None"
      by (auto simp: held_def row_live_def)
    with ok OpRevoke show ?thesis by (simp add: revoke_grant_def Let_def held_revoke)
  next
    case False
    then have "fst (revoke_grant now pid name b) = b"
      by (auto simp: revoke_grant_def held_def row_live_def split: option.split)
    with ok OpRevoke False show ?thesis by simp
  qed
next
  case (OpRevokeAll now pid)
  with ok show ?thesis
    by (auto simp: revokeAll_def Let_def split_beta held_revokeAll)
qed

lemma broker_run_held:
  "table_ok (grants b) \<Longrightarrow> ops_fresh pr ops b \<Longrightarrow>
    table_ok (grants (run_events (broker_step pr) ops b)) \<and>
    held (grants (run_events (broker_step pr) ops b)) = fold (authority_step pr) ops (held (grants b))"
proof (induction ops arbitrary: b)
  case Nil
  then show ?case by simp
next
  case (Cons p ops)
  with broker_step_held [of b p pr] show ?case by auto
qed

lemma check_held:
  assumes "table_ok (grants b)"
  shows "check now pid request b \<Longrightarrow> (pid, req_name request) \<in> held (grants b)"
    and "req_scope request = None \<Longrightarrow> check now pid request b = ((pid, req_name request) \<in> held (grants b))"
  using assms grants_get_SomeD [of "grants b" pid "req_name request"]
  by (auto simp: check_def held_def row_live_def table_ok_def grantSatisfies_def wanted_scope_def
      toGrant_def split: option.splits if_splits)

section \<open>Properties\<close>

definition example_protocol :: "string \<Rightarrow> string option" where
  "example_protocol s = (if startsWith s ''https:'' then Some ''https:'' else None)"

definition example_ops :: "broker_op list" where
  "example_ops =
     [OpConsent 1 (\<lambda>k. ''a'' @ replicate k CHR ''x'') ''plug''
        (Some [\<lparr>req_name = ''ui.panel'', req_scope = None\<rparr>, \<lparr>req_name = ''files.pick'', req_scope = None\<rparr>])
        None [''ui.panel'', ''files:user-selected''],
      OpRevoke 2 ''plug'' ''ui.panel'',
      OpRuntime 3 ''b'' ''plug'' \<lparr>req_name = ''ui.modal'', req_scope = None\<rparr>]"

text \<open>C5: the broker implements the set of consented pairs: after any sequence of consents, runtime
  grants and revocations a plugin passes the check of a capability exactly when the pair is in the
  abstract authority, so never without consent and never after a revocation; a check with a scope
  passes for such pairs only.\<close>

theorem check_implements_authority:
  assumes "ops_fresh pr ops new_broker"
  shows "check now pid \<lparr>req_name = name, req_scope = None\<rparr> (run_events (broker_step pr) ops new_broker)
      = ((pid, name) \<in> fold (authority_step pr) ops {})
    \<and> (check now pid \<lparr>req_name = name, req_scope = scope\<rparr> (run_events (broker_step pr) ops new_broker)
      \<longrightarrow> (pid, name) \<in> fold (authority_step pr) ops {})"
proof -
  have "table_ok (grants new_broker)" and start: "held (grants new_broker) = {}"
    by (simp_all add: new_broker_def table_ok_def held_def grants_get_def)
  note run = broker_run_held [OF this(1) assms, unfolded start]
  note passed = check_held [OF conjunct1 [OF run], unfolded conjunct2 [OF run]]
  show ?thesis
    using passed(1) [of now pid "\<lparr>req_name = name, req_scope = scope\<rparr>"]
      passed(2) [of "\<lparr>req_name = name, req_scope = None\<rparr>" now pid] by simp
qed

theorem check_implements_authority_witness:
  "\<not> check 9 ''plug'' \<lparr>req_name = ''ui.panel'', req_scope = None\<rparr>
      (run_events (broker_step example_protocol) example_ops new_broker)
   \<and> check 9 ''plug'' \<lparr>req_name = ''files.pick'', req_scope = None\<rparr>
      (run_events (broker_step example_protocol) example_ops new_broker)"
proof -
  have fresh: "ops_fresh example_protocol example_ops new_broker" by code_simp
  have "(''plug'', ''ui.panel'') \<notin> fold (authority_step example_protocol) example_ops {}"
    "(''plug'', ''files.pick'') \<in> fold (authority_step example_protocol) example_ops {}" by code_simp+
  with check_implements_authority [OF fresh, of 9 "''plug''"] show ?thesis by blast
qed

text \<open>The intended order of scopes: what a request for a scope needs of the granted one.\<close>

fun scope_covers :: "capability_scope \<Rightarrow> capability_scope \<Rightarrow> bool" where
  "scope_covers AllScope _ = True"
| "scope_covers (SelectedChats ids) (SelectedChats ws) = (set ws \<subseteq> set ids)"
| "scope_covers (SelectedChats ids) (ChatScope c) = (c \<in> set ids)"
| "scope_covers (Origins os) (Origins ws) = (set ws \<subseteq> set os)"
| "scope_covers s t = (s = t)"

fun plain_scope :: "capability_scope \<Rightarrow> bool" where
  "plain_scope (SelectedChats _) = False"
| "plain_scope (Workspace _) = False"
| "plain_scope (Custom _) = False"
| "plain_scope _ = True"

text \<open>For grants of every kind of scope but selected chats, workspaces and custom ones, a grant
  satisfies a request with a scope exactly when its scope covers the requested one.\<close>

theorem grantSatisfies_covers:
  assumes "grant_scope g = Some (ScopeObject s)" and "plain_scope s"
    and "req_scope r = Some (ScopeObject w)"
  shows "grantSatisfies g r = (grant_name g = req_name r \<and> scope_covers s w)"
  using assms by (cases s; cases w) (auto simp: grantSatisfies_def wanted_scope_def list_all_iff)

theorem grantSatisfies_covers_witness:
  "\<not> grantSatisfies \<lparr>grant_name = ''network.domains'', grant_scope = Some (ScopeObject (Origins [''https://a''])),
      grant_revision = 1, grantedAt = 0\<rparr>
    \<lparr>req_name = ''network.domains'', req_scope = Some (ScopeObject (Origins [''https://a'', ''https://b'']))\<rparr>"
  by (subst grantSatisfies_covers [where s = "Origins [''https://a'']"
        and w = "Origins [''https://a'', ''https://b'']"]) simp_all

text \<open>A grant for selected chats is taken for a grant of any other selection, and for the single
  chats it was given for it is refused; a grant for one workspace is taken for any other.\<close>

theorem selected_chats_not_compared:
  "grantSatisfies \<lparr>grant_name = n, grant_scope = Some (ScopeObject (SelectedChats ids)),
       grant_revision = v, grantedAt = since\<rparr>
     \<lparr>req_name = n, req_scope = Some (ScopeObject (SelectedChats others))\<rparr>
   \<and> \<not> grantSatisfies \<lparr>grant_name = n, grant_scope = Some (ScopeObject (SelectedChats (c # ids))),
       grant_revision = v, grantedAt = since\<rparr>
     \<lparr>req_name = n, req_scope = Some (ScopeObject (ChatScope c))\<rparr>
   \<and> grantSatisfies \<lparr>grant_name = n, grant_scope = Some (ScopeObject (Workspace w)),
       grant_revision = v, grantedAt = since\<rparr>
     \<lparr>req_name = n, req_scope = Some (ScopeObject (Workspace w'))\<rparr>"
  by (simp add: grantSatisfies_def wanted_scope_def)

text \<open>A scope text that is not one of the five shorthands is no restriction at all: every grant of
  that name satisfies the request, whatever its own scope.\<close>

theorem unknown_scope_text_unrestricted:
  assumes "t \<notin> {''current-chat'', ''selected-chats'', ''all'', ''user'', ''installation''}"
  shows "grantSatisfies g \<lparr>req_name = grant_name g, req_scope = Some (ScopeText t)\<rparr>"
  using assms by (simp add: grantSatisfies_def wanted_scope_def scope_of_text_def)

theorem unknown_scope_text_unrestricted_witness:
  "grantSatisfies \<lparr>grant_name = ''chats.read'', grant_scope = Some (ScopeObject (ChatScope ''c1'')),
      grant_revision = 1, grantedAt = 0\<rparr>
    \<lparr>req_name = ''chats.read'', req_scope = Some (ScopeText ''all-chats'')\<rparr>"
  using unknown_scope_text_unrestricted [of "''all-chats''"
    "\<lparr>grant_name = ''chats.read'', grant_scope = Some (ScopeObject (ChatScope ''c1'')),
      grant_revision = 1, grantedAt = 0\<rparr>"] by simp

lemma alias_in_catalog: "map_of LEGACY_ALIAS v = Some n \<Longrightarrow> n \<in> set CAPABILITY_NAMES"
proof -
  have "list_all (\<lambda>x. snd x \<in> set CAPABILITY_NAMES) LEGACY_ALIAS" by code_simp
  then show "map_of LEGACY_ALIAS v = Some n \<Longrightarrow> n \<in> set CAPABILITY_NAMES"
    by (auto simp: list_all_iff dest!: map_of_SomeD)
qed

definition in_catalog :: "parsed_capability \<Rightarrow> bool" where
  "in_catalog c = (case c of
     NoCapability \<Rightarrow> True
   | Capability r \<Rightarrow> req_name r \<in> set CAPABILITY_NAMES \<and> req_name r \<noteq> ''legacy.trusted''
       \<and> (req_scope r = None \<or> req_name r = ''network.domains'')
   | InheritedName m \<Rightarrow> m \<in> set inherited_names)"

lemma in_catalog_if: "(b \<Longrightarrow> in_catalog x) \<Longrightarrow> (\<not> b \<Longrightarrow> in_catalog y) \<Longrightarrow> in_catalog (if b then x else y)"
  by simp

text \<open>The parser of capability names is total into the catalog: what it returns as a request names
  a capability of the catalog, with a scope only for the network; the one other outcome is the name
  of a property every object inherits.\<close>

theorem parsed_names_in_catalog: "in_catalog (parseCapability protocol_of raw)"
proof -
  have cat: "''network.domains'' \<in> set CAPABILITY_NAMES" "''storage.installation'' \<in> set CAPABILITY_NAMES"
    "''files.pick'' \<in> set CAPABILITY_NAMES" "''legacy.trusted'' \<notin> set CAPABILITY_NAMES" by code_simp+
  have plain: "in_catalog (plain_request n)" if "n \<in> set CAPABILITY_NAMES" for n
    using that cat(4) unfolding in_catalog_def plain_request_def by auto
  have network: "in_catalog (Capability \<lparr>req_name = ''network.domains'', req_scope = s\<rparr>)" for s
    using cat(1) unfolding in_catalog_def by simp
  have none: "in_catalog NoCapability" and inherited: "v \<in> set inherited_names \<Longrightarrow> in_catalog (InheritedName v)" for v
    unfolding in_catalog_def by simp_all
  have aliased: "in_catalog (case map_of LEGACY_ALIAS v of Some n \<Rightarrow> plain_request n
      | None \<Rightarrow> if v \<in> set inherited_names then InheritedName v else NoCapability)" for v
    using plain alias_in_catalog none inherited by (cases "map_of LEGACY_ALIAS v") auto
  show ?thesis
    unfolding parseCapability_def Let_def
    by (intro in_catalog_if none network aliased plain cat) assumption
qed

section \<open>Further facts of the operations\<close>

text \<open>Every pair a broker step takes away is announced by a revocation event.\<close>

lemma listActive_held:
  "table_ok t \<Longrightarrow> (pid, n) \<in> held t \<Longrightarrow> \<exists>r \<in> set (grants_listActive t pid now). row_name r = n"
  using grants_get_SomeD by (fastforce simp: held_def grants_listActive_def table_ok_def row_live_def)

lemma revocation_announced:
  assumes ok: "table_ok (grants b)" and new: "op_fresh op b"
    and "x \<in> held (grants b)" and "x \<notin> held (grants (broker_step pr op b))"
  shows "\<exists>e \<in> set (emitted (broker_step pr op b)). ev_plugin e = fst x \<and> ev_name e = snd x"
proof -
  have gone: "x \<notin> authority_step pr op (held (grants b))"
    using broker_step_held [OF ok new, of pr] assms(4) by simp
  show ?thesis
  proof (cases op)
    case (OpConsent now ids pid req opt perms)
    with gone assms(3) show ?thesis by simp
  next
    case (OpRuntime now i pid request)
    with gone assms(3) show ?thesis by (auto split: parsed_capability.splits)
  next
    case (OpRevoke now pid name)
    with gone assms(3) have x: "x = (pid, name)" by auto
    with assms(3) obtain e where "grants_get (grants b) pid name = Some e" "revoked_at e = None"
      by (auto simp: held_def row_live_def)
    with OpRevoke x show ?thesis by (simp add: revoke_grant_def Let_def)
  next
    case (OpRevokeAll now pid)
    with gone assms(3) have x: "fst x = pid" by auto
    with listActive_held [OF ok, of pid "snd x" now] assms(3) OpRevokeAll show ?thesis
      by (cases x) (force simp: revokeAll_def Let_def split_beta)
  qed
qed

text \<open>A revocation leaves the revision of the grant as it was.\<close>

lemma revoke_keeps_revision:
  "snd (revoke_grant now pid name b) = Some v \<Longrightarrow>
    \<exists>e. grants_get (grants b) pid name = Some e \<and> row_revision e = v"
  by (auto simp: revoke_grant_def grants_get_revoke Let_def split: option.splits if_splits)

text \<open>The difference of two manifests in terms of the keys of their requests.\<close>

lemma jm_set_keys: "fst ` set (jm_set k v m) = insert k (fst ` set m)"
  using arg_cong [OF jm_keys_set [of k v m], of set] by (auto split: if_splits)

lemma keyed_keys: "set (jm_keys (fold (\<lambda>r m. jm_set (request_key nt r) r m) rs m))
    = set (jm_keys m) \<union> request_key nt ` set rs"
  by (induction rs arbitrary: m) (simp_all add: jm_set_keys)

lemma keyed_values: "(k, r) \<in> set (fold (\<lambda>r m. jm_set (request_key nt r) r m) rs m) \<Longrightarrow>
    (k, r) \<in> set m \<or> (r \<in> set rs \<and> k = request_key nt r)"
proof (induction rs arbitrary: m)
  case Nil
  then show ?case by simp
next
  case (Cons x xs)
  then show ?case using in_set_jm_setD by fastforce
qed

lemma diff_added:
  "request_key nt ` set (fst (diffCapabilities nt prev nxt))
    = request_key nt ` set nxt - request_key nt ` set prev"
proof -
  have keys: "set (jm_keys (keyed nt rs)) = request_key nt ` set rs"
    and vals: "(k, r) \<in> set (keyed nt rs) \<Longrightarrow> k = request_key nt r" for rs k r
    using keyed_keys [of nt rs "[]"] keyed_values [of k r nt rs "[]"] by (auto simp: keyed_def)
  have "request_key nt ` set (fst (diffCapabilities nt prev nxt))
      = {k \<in> set (jm_keys (keyed nt nxt)). k \<notin> set (jm_keys (keyed nt prev))}"
    using vals [of _ _ nxt] by (force simp: diffCapabilities_def Let_def)
  then show ?thesis unfolding keys by auto
qed

text \<open>Compare-and-set of a plugin state: a stale revision changes nothing and returns the current
  row; otherwise the revision of the one row goes up by one.\<close>

definition states_ok :: "state_row list \<Rightarrow> bool" where
  "states_ok t = distinct (map state_id t)"

lemma state_get_SomeD: "state_get t p s w = Some r \<Longrightarrow> r \<in> set t \<and> is_state p s w r"
  by (auto simp: state_get_def find_Some_iff)

lemma state_set_stale:
  "state_get t p s w = Some r \<Longrightarrow> revision r \<noteq> e \<Longrightarrow> state_set i now p s w d (Some e) t = (t, Inl r)"
  by (simp add: state_set_def)

lemma state_set_current:
  assumes "states_ok t" and "state_get t p s w = Some r" and "expected = None \<or> expected = Some (revision r)"
  shows "snd (state_set i now p s w d expected t)
      = Inr (Some (r\<lparr>data := d, revision := revision r + 1, updated_at := now\<rparr>))
    \<and> (\<forall>r' \<in> set t. r' \<noteq> r \<longrightarrow> r' \<in> set (fst (state_set i now p s w d expected t)))"
proof -
  let ?f = "\<lambda>x. if state_id x = state_id r then x\<lparr>data := d, revision := revision x + 1, updated_at := now\<rparr> else x"
  have "is_state p s w \<circ> ?f = is_state p s w" by (auto simp: is_state_def fun_eq_iff)
  then have get: "state_get (map ?f t) p s w = map_option ?f (state_get t p s w)"
    by (simp add: state_get_def find_map)
  have keep: "?f r' = r'" if "r' \<in> set t" "r' \<noteq> r" for r'
    using assms(1) state_get_SomeD [OF assms(2)] that
    by (auto simp: states_ok_def distinct_map inj_on_def)
  have others: "r' \<in> set (map ?f t)" if "r' \<in> set t" "r' \<noteq> r" for r'
    using imageI [OF that(1), of ?f] keep [OF that] by (simp only: set_map)
  have "state_set i now p s w d expected t = (map ?f t, Inr (state_get (map ?f t) p s w))"
    using assms(3) unfolding state_set_def assms(2) option.case Let_def by (auto split: option.split)
  then show ?thesis using others by (simp add: get assms(2))
qed

end
