(* ===== verification/Kernel_Wire.thy ===== *)
theory Kernel_Wire
  imports Prelude "HOL-Library.Word" "HOL-Library.Char_ord"
begin

text \<open>
  What crosses the message port between the host and a plugin: the error model
  (\<open>packages/plugin-sdk/src/kernel/errors.ts\<close>), the envelopes, their parser and the handshake
  (\<open>kernel/protocol.ts\<close>), and the host half of the bootstrap (\<open>kernel/bootstrap.ts\<close>).

  A value that arrives is the result of a structured clone: \<open>wire\<close>. A field that is absent reads
  as \<open>undefined\<close>. The parts of a message the code only passes on stay \<open>wire\<close> values.
\<close>

section \<open>Values\<close>

type_synonym bytes = "8 word list"

datatype wire =
  WUndefined | WNull | WBool bool | WNum jnum | WString string | WBuffer bytes
| WArray "wire list" | WObject "(string \<times> wire) list"

text \<open>\<open>value[key]\<close> on a record, and the tests the code makes of a field.\<close>

fun wfield :: "wire \<Rightarrow> string \<Rightarrow> wire" where
  "wfield (WObject fs) k = (case map_of fs k of Some v \<Rightarrow> v | None \<Rightarrow> WUndefined)"
| "wfield _ k = WUndefined"

fun is_wobject :: "wire \<Rightarrow> bool" where
  "is_wobject (WObject _) = True"
| "is_wobject (WArray _) = True"
| "is_wobject (WBuffer _) = True"
| "is_wobject _ = False"

section \<open>Errors\<close>

definition RETRYABLE :: "string list" where
  "RETRYABLE = [''PLUGIN_QUOTA_EXCEEDED'', ''RESOURCE_PRESSURE'', ''OPERATION_DEADLINE'',
     ''BACKEND_UNAVAILABLE'', ''STREAM_FAILED'', ''WORKER_SPAWN_FAILED'', ''SERVICE_UNAVAILABLE'',
     ''SERVICE_TIMEOUT'', ''INTERNAL'']"

text \<open>An error of the kernel. Its code is whatever the wire carried; \<open>WUndefined\<close> is an absent field.\<close>

record kernel_error =
  code :: wire
  retryable :: wire
  retryAfterMs :: wire
  details :: wire

definition is_retryable_code :: "wire \<Rightarrow> bool" where
  "is_retryable_code c = (case c of WString s \<Rightarrow> s \<in> set RETRYABLE | _ \<Rightarrow> False)"

text \<open>The constructor; \<open>options.retryable ?? RETRYABLE.has(code)\<close> replaces \<open>undefined\<close> and \<open>null\<close>.\<close>

definition KernelError :: "wire \<Rightarrow> wire \<Rightarrow> wire \<Rightarrow> wire \<Rightarrow> kernel_error" where
  "KernelError c r after d = \<lparr>code = c,
     retryable = (if r = WUndefined \<or> r = WNull then WBool (is_retryable_code c) else r),
     retryAfterMs = after, details = d\<rparr>"

definition plain_error :: "string \<Rightarrow> kernel_error" where
  "plain_error c = KernelError (WString c) WUndefined WUndefined WUndefined"

definition toWire :: "kernel_error \<Rightarrow> wire" where
  "toWire e = WObject ([(''code'', code e), (''retryable'', retryable e)]
     @ (if retryAfterMs e = WUndefined then [] else [(''retryAfterMs'', retryAfterMs e)])
     @ (if details e = WUndefined then [] else [(''details'', details e)]))"

datatype thrown = ThrownKernel kernel_error | ThrownError string string | ThrownOther

definition is_code_char :: "char \<Rightarrow> bool" where
  "is_code_char c = ((CHR ''A'' \<le> c \<and> c \<le> CHR ''Z'') \<or> (CHR ''0'' \<le> c \<and> c \<le> CHR ''9'') \<or> c = CHR ''_'')"

definition is_error_code :: "string \<Rightarrow> bool" where
  "is_error_code s = (case s of c # r \<Rightarrow> CHR ''A'' \<le> c \<and> c \<le> CHR ''Z'' \<and> r \<noteq> [] \<and> list_all is_code_char r
     | [] \<Rightarrow> False)"

definition safeMessage :: "string \<Rightarrow> string" where
  "safeMessage m = (if length m > 500 then take 500 m else m)"

definition toWireError :: "thrown \<Rightarrow> wire" where
  "toWireError v = (case v of
       ThrownKernel e \<Rightarrow> toWire e
     | ThrownError name message \<Rightarrow>
         (if name = ''AbortError'' then WObject [(''code'', WString ''OPERATION_ABORTED''), (''retryable'', WBool False)]
          else let c = (if is_error_code message then message else ''INTERNAL'')
               in WObject [(''code'', WString c), (''retryable'', WBool (c \<in> set RETRYABLE)),
                    (''details'', WObject [(''message'', WString (safeMessage message))])])
     | ThrownOther \<Rightarrow> WObject [(''code'', WString ''INTERNAL''), (''retryable'', WBool True),
                    (''details'', WObject [(''message'', WUndefined)])])"

definition fromWireError :: "wire \<Rightarrow> kernel_error" where
  "fromWireError w = KernelError (wfield w ''code'') (wfield w ''retryable'') (wfield w ''retryAfterMs'')
     (wfield w ''details'')"

definition parseWireError :: "wire \<Rightarrow> wire option" where
  "parseWireError v =
     (if \<not> is_wobject v then None
      else case wfield v ''code'' of
        WString c \<Rightarrow> if c = [] then None else
          Some (WObject ([(''code'', WString c),
             (''retryable'', case wfield v ''retryable'' of WBool b \<Rightarrow> WBool b | _ \<Rightarrow> WBool False)]
           @ (case wfield v ''retryAfterMs'' of
                WNum (Num r) \<Rightarrow> [(''retryAfterMs'', WNum (Num (of_int (max 0 \<lfloor>r\<rfloor>))))] | _ \<Rightarrow> [])
           @ (case wfield v ''details'' of WObject fs \<Rightarrow> [(''details'', WObject fs)]
              | WBuffer b \<Rightarrow> [(''details'', WBuffer b)] | _ \<Rightarrow> [])))
      | _ \<Rightarrow> None)"

section \<open>Envelopes\<close>

datatype envelope =
  RpcRequest string string string wire "jnum option" "string option"
| RpcResponseOk string wire
| RpcResponseError string wire
| RpcCancel string
| EvtEmit string wire string "string option"
| StreamOpen string string wire
| StreamCredit string jnum
| StreamChunk string jnum bytes
| StreamEnd string
| StreamError string wire
| StreamCancel string
| CapabilityRevoked string jnum
| Lifecycle string

text \<open>The object \<open>postMessage\<close> is handed for an envelope.\<close>

fun envelope_wire :: "envelope \<Rightarrow> wire" where
  "envelope_wire (RpcRequest i inst m ps d key) = WObject
     ([(''kind'', WString ''rpc.request''), (''id'', WString i), (''instanceId'', WString inst),
       (''method'', WString m), (''params'', ps),
       (''deadline'', case d of None \<Rightarrow> WNull | Some t \<Rightarrow> WNum t)]
      @ (case key of None \<Rightarrow> [] | Some k \<Rightarrow> [(''idempotencyKey'', WString k)]))"
| "envelope_wire (RpcResponseOk i r) = WObject
     [(''kind'', WString ''rpc.response''), (''id'', WString i), (''ok'', WBool True), (''result'', r)]"
| "envelope_wire (RpcResponseError i e) = WObject
     [(''kind'', WString ''rpc.response''), (''id'', WString i), (''ok'', WBool False), (''error'', e)]"
| "envelope_wire (RpcCancel i) = WObject [(''kind'', WString ''rpc.cancel''), (''id'', WString i)]"
| "envelope_wire (EvtEmit ev p i cur) = WObject
     ([(''kind'', WString ''evt.emit''), (''event'', WString ev), (''payload'', p), (''eventId'', WString i)]
      @ (case cur of None \<Rightarrow> [] | Some c \<Rightarrow> [(''cursor'', WString c)]))"
| "envelope_wire (StreamOpen s d m) = WObject
     [(''kind'', WString ''stream.open''), (''streamId'', WString s), (''direction'', WString d), (''meta'', m)]"
| "envelope_wire (StreamCredit s b) = WObject
     [(''kind'', WString ''stream.credit''), (''streamId'', WString s), (''bytes'', WNum b)]"
| "envelope_wire (StreamChunk s q b) = WObject
     [(''kind'', WString ''stream.chunk''), (''streamId'', WString s), (''seq'', WNum q), (''buffer'', WBuffer b)]"
| "envelope_wire (StreamEnd s) = WObject [(''kind'', WString ''stream.end''), (''streamId'', WString s)]"
| "envelope_wire (StreamError s e) = WObject
     [(''kind'', WString ''stream.error''), (''streamId'', WString s), (''error'', e)]"
| "envelope_wire (StreamCancel s) = WObject [(''kind'', WString ''stream.cancel''), (''streamId'', WString s)]"
| "envelope_wire (CapabilityRevoked n v) = WObject
     [(''kind'', WString ''capability.revoked''), (''name'', WString n), (''revision'', WNum v)]"
| "envelope_wire (Lifecycle s) = WObject [(''kind'', WString ''lifecycle''), (''state'', WString s)]"

fun text_of :: "wire \<Rightarrow> string option" where
  "text_of (WString s) = Some s"
| "text_of _ = None"

fun num_of :: "wire \<Rightarrow> jnum option" where
  "num_of (WNum n) = Some n"
| "num_of _ = None"

definition parse_request :: "wire \<Rightarrow> envelope option" where
  "parse_request v = (case (text_of (wfield v ''id''), text_of (wfield v ''method''), text_of (wfield v ''instanceId'')) of
       (Some i, Some m, Some inst) \<Rightarrow>
         Some (RpcRequest i inst m (wfield v ''params'') (num_of (wfield v ''deadline''))
           (text_of (wfield v ''idempotencyKey'')))
     | _ \<Rightarrow> None)"

definition parse_response :: "wire \<Rightarrow> envelope option" where
  "parse_response v = (case text_of (wfield v ''id'') of None \<Rightarrow> None
     | Some i \<Rightarrow>
         (if wfield v ''ok'' = WBool True then Some (RpcResponseOk i (wfield v ''result''))
          else if wfield v ''ok'' = WBool False \<and> is_wobject (wfield v ''error'')
          then Some (RpcResponseError i (wfield v ''error''))
          else None))"

definition parse_emit :: "wire \<Rightarrow> envelope option" where
  "parse_emit v = (case (text_of (wfield v ''event''), text_of (wfield v ''eventId'')) of
       (Some ev, Some i) \<Rightarrow> Some (EvtEmit ev (wfield v ''payload'') i (text_of (wfield v ''cursor'')))
     | _ \<Rightarrow> None)"

definition parse_open :: "wire \<Rightarrow> envelope option" where
  "parse_open v = (case (text_of (wfield v ''streamId''), text_of (wfield v ''direction'')) of
       (Some s, Some d) \<Rightarrow>
         (if d = ''host-to-plugin'' \<or> d = ''plugin-to-host''
          then Some (StreamOpen s d (if is_wobject (wfield v ''meta'') then wfield v ''meta'' else WObject []))
          else None)
     | _ \<Rightarrow> None)"

definition parse_credit :: "wire \<Rightarrow> envelope option" where
  "parse_credit v = (case (text_of (wfield v ''streamId''), num_of (wfield v ''bytes'')) of
       (Some s, Some b) \<Rightarrow> if jnum_less (Num 0) b then Some (StreamCredit s b) else None
     | _ \<Rightarrow> None)"

definition parse_chunk :: "wire \<Rightarrow> envelope option" where
  "parse_chunk v = (case (text_of (wfield v ''streamId''), num_of (wfield v ''seq'')) of
       (Some s, Some q) \<Rightarrow> (case wfield v ''buffer'' of WBuffer b \<Rightarrow> Some (StreamChunk s q b) | _ \<Rightarrow> None)
     | _ \<Rightarrow> None)"

definition parseEnvelope :: "wire \<Rightarrow> envelope option" where
  "parseEnvelope v =
     (if \<not> is_wobject v \<or> (case v of WArray _ \<Rightarrow> True | _ \<Rightarrow> False) then None
      else case text_of (wfield v ''kind'') of None \<Rightarrow> None
      | Some kind \<Rightarrow>
          (if kind = ''rpc.request'' then parse_request v
           else if kind = ''rpc.response'' then parse_response v
           else if kind = ''rpc.cancel'' then map_option RpcCancel (text_of (wfield v ''id''))
           else if kind = ''evt.emit'' then parse_emit v
           else if kind = ''stream.open'' then parse_open v
           else if kind = ''stream.credit'' then parse_credit v
           else if kind = ''stream.chunk'' then parse_chunk v
           else if kind = ''stream.end'' then map_option StreamEnd (text_of (wfield v ''streamId''))
           else if kind = ''stream.error'' then
             (case text_of (wfield v ''streamId'') of
                Some s \<Rightarrow> if is_wobject (wfield v ''error'') then Some (StreamError s (wfield v ''error'')) else None
              | None \<Rightarrow> None)
           else if kind = ''capability.revoked'' then
             (case (text_of (wfield v ''name''), num_of (wfield v ''revision'')) of
                (Some n, Some r) \<Rightarrow> Some (CapabilityRevoked n r) | _ \<Rightarrow> None)
           else if kind = ''lifecycle'' then map_option Lifecycle (text_of (wfield v ''state''))
           else None))"

section \<open>Handshake\<close>

definition PROTOCOL_VERSION :: string where "PROTOCOL_VERSION = ''2.0.0''"

record plugin_handshake =
  protocolVersion :: string
  sdkVersion :: string
  hs_pluginId :: string
  installationId :: string
  hs_instanceId :: string
  requestedFeatures :: "string list"

datatype handshake_error =
  NotAnObject | NonceMismatch | MissingFields | HandshakeTimeout | MajorMismatch string

definition text_or :: "wire \<Rightarrow> string \<Rightarrow> string" where
  "text_or v d = (case text_of v of Some s \<Rightarrow> s | None \<Rightarrow> d)"

definition validatePluginHandshake :: "wire \<Rightarrow> string option \<Rightarrow> handshake_error + plugin_handshake" where
  "validatePluginHandshake v expectedNonce =
     (if \<not> is_wobject v then Inl NotAnObject
      else if (case expectedNonce of None \<Rightarrow> False | Some n \<Rightarrow> wfield v ''nonce'' \<noteq> WString n)
      then Inl NonceMismatch
      else case (text_of (wfield v ''protocolVersion''), text_of (wfield v ''pluginId''),
             text_of (wfield v ''instanceId'')) of
        (Some pv, Some p, Some i) \<Rightarrow>
          Inr \<lparr>protocolVersion = pv, sdkVersion = text_or (wfield v ''sdkVersion'') ''0.0.0'',
            hs_pluginId = p, installationId = text_or (wfield v ''installationId'') p, hs_instanceId = i,
            requestedFeatures = (case wfield v ''requestedFeatures'' of
                WArray fs \<Rightarrow> List.map_filter text_of fs | _ \<Rightarrow> [])\<rparr>
      | _ \<Rightarrow> Inl MissingFields)"

text \<open>The host half of the bootstrap waits for one message on its port, or the timeout.\<close>

datatype boot_event = BootMessage wire | BootTimeout

datatype boot_state = Waiting | Established plugin_handshake | Refused handshake_error

definition same_major :: "string \<Rightarrow> bool" where
  "same_major v = (hd (split_char CHR ''.'' v) = hd (split_char CHR ''.'' PROTOCOL_VERSION))"

fun boot_step :: "string \<Rightarrow> boot_event \<Rightarrow> boot_state \<Rightarrow> boot_state" where
  "boot_step nonce (BootMessage v) Waiting = (case validatePluginHandshake v (Some nonce) of
      Inl e \<Rightarrow> Refused e
    | Inr h \<Rightarrow> if same_major (protocolVersion h) then Established h
              else Refused (MajorMismatch (protocolVersion h)))"
| "boot_step nonce BootTimeout Waiting = Refused HandshakeTimeout"
| "boot_step nonce _ s = s"

section \<open>Round trips\<close>

text \<open>An envelope the sender builds: numbers where the types say numbers, objects where they say
  objects, and a positive credit.\<close>

fun wf_envelope :: "envelope \<Rightarrow> bool" where
  "wf_envelope (RpcResponseError i e) = is_wobject e"
| "wf_envelope (StreamOpen s d m) = ((d = ''host-to-plugin'' \<or> d = ''plugin-to-host'') \<and> is_wobject m)"
| "wf_envelope (StreamCredit s b) = jnum_less (Num 0) b"
| "wf_envelope (StreamError s e) = is_wobject e"
| "wf_envelope _ = True"

fun is_cancel :: "envelope \<Rightarrow> bool" where
  "is_cancel (StreamCancel _) = True"
| "is_cancel _ = False"

lemmas parse_defs = parseEnvelope_def parse_request_def parse_response_def parse_emit_def parse_open_def
  parse_credit_def parse_chunk_def

lemma parse_posted: "wf_envelope e \<Longrightarrow> \<not> is_cancel e \<Longrightarrow> parseEnvelope (envelope_wire e) = Some e"
  by (cases e) (simp_all add: parse_defs split: option.splits)

text \<open>What one side sends the other side reads: every well-formed envelope survives the port, with
  one exception. The parser has no case for the cancellation of a stream, so a producer never learns
  of it.\<close>

theorem envelope_roundtrip:
  assumes "wf_envelope e"
  shows "parseEnvelope (envelope_wire e) = (if is_cancel e then None else Some e)"
  using assms by (cases e) (simp_all add: parse_defs split: option.splits)

theorem envelope_roundtrip_witness:
  "parseEnvelope (envelope_wire (StreamChunk ''plugin:str:1'' (jint 0) [1, 2])) =
     Some (StreamChunk ''plugin:str:1'' (jint 0) [1, 2])"
  using envelope_roundtrip [of "StreamChunk ''plugin:str:1'' (jint 0) [1, 2]"] by simp

text \<open>The retry hint is never absent from an error the constructor built.\<close>

definition wf_error :: "kernel_error \<Rightarrow> bool" where
  "wf_error e = (retryable e \<noteq> WUndefined \<and> retryable e \<noteq> WNull)"

lemma KernelError_wf [simp]: "wf_error (KernelError c r a d)"
  by (simp add: wf_error_def KernelError_def)

text \<open>An error keeps its code, retry hint and details across the port.\<close>

theorem error_roundtrip:
  assumes "wf_error e"
  shows "fromWireError (toWireError (ThrownKernel e)) = e"
  using assms by (cases e) (simp add: toWireError_def toWire_def fromWireError_def KernelError_def wf_error_def)

theorem error_roundtrip_witness:
  "fromWireError (toWireError (ThrownKernel (plain_error ''OPERATION_DEADLINE''))) = plain_error ''OPERATION_DEADLINE''"
  by (rule error_roundtrip) (simp add: plain_error_def)

text \<open>What the bootstrap establishes carries the nonce, and nothing after the first message counts.\<close>

interpretation boot: event_system "boot_step nonce"
  "\<lambda>s. case s of Established h \<Rightarrow> same_major (protocolVersion h) | _ \<Rightarrow> True" for nonce
proof unfold_locales
  fix s :: boot_state and e :: boot_event
  show "case s of Established h \<Rightarrow> same_major (protocolVersion h) | _ \<Rightarrow> True \<Longrightarrow>
      case boot_step nonce e s of Established h \<Rightarrow> same_major (protocolVersion h) | _ \<Rightarrow> True"
    by (cases s; cases e) (auto split: sum.splits)
qed

lemma boot_settled: "s \<noteq> Waiting \<Longrightarrow> run_events (boot_step nonce) es s = s"
  by (induction es) (cases s; auto simp: boot_step.simps)+

lemma boot_nonce:
  "run_events (boot_step nonce) (BootMessage v # es) Waiting = Established h \<Longrightarrow> wfield v ''nonce'' = WString nonce"
  using boot_settled [of "boot_step nonce (BootMessage v) Waiting" nonce es]
  by (auto simp: validatePluginHandshake_def split: sum.splits if_splits option.splits)

end
