(* ===== verification/Kernel_Session.thy ===== *)
theory Kernel_Session
  imports Kernel_Wire
begin

text \<open>
  The bidirectional session over one message port: \<open>packages/plugin-sdk/src/kernel/session.ts\<close>.
  One side of the port is a record; the other side is whatever sends envelopes. Each method, timer,
  promise continuation and incoming envelope is a definition over the record, and \<open>session_step\<close> is
  the event loop: one macrotask or one continuation at a time.

  Objects that closures keep after they have left a map (the state of a stream, a call being
  served) live in a store and are named by their place in it. The clock is an argument of the events
  that read it; a handler of the application settles by an event of its own. Listeners are named by
  numbers, and what they are called with is recorded.
\<close>

named_theorems ses_defs \<open>definitions of the session operations\<close>

section \<open>State\<close>

datatype writing = BeforeEnqueue nat bytes | AfterEnqueue nat

record out_stream =
  streamId :: string
  credit :: jnum
  queue :: "bytes list"
  queuedBytes :: nat
  seq :: nat
  ended :: bool
  errored :: bool
  drainWaiters :: "writing list"
  maxBufferedBytes :: nat

record in_stream =
  inStreamId :: string
  grantedNotReceived :: nat
  buffered :: "bytes list"
  bufferedBytes :: nat
  nextSeq :: nat
  inEnded :: bool
  inError :: "kernel_error option"
  pullWaiters :: "nat list"
  totalReceived :: nat
  maxTotalBytes :: nat

record served_call =
  callId :: string
  aborted :: bool
  deadlineTimer :: bool
  finished :: bool

datatype continuation = ResumeWrite nat writing | ResumePull nat nat "bytes option"

datatype pull_result = PullChunk bytes | PullEnd | PullFailed kernel_error

datatype notice =
  StreamOpened string wire | Revoked string jnum | Emitted string wire string "string option" | PeerClosed

record session =
  role :: string
  instanceId :: string
  maxInFlightBytes :: nat
  maxBufferedPerStream :: nat
  maxTotal :: nat
  sequence :: nat
  disposed :: bool
  portOpen :: bool
  posted :: "envelope list"
  handlers :: "string list"
  pending :: "(string, bool) jmap"
  settled :: "(string \<times> (kernel_error + wire)) list"
  served :: "served_call list"
  remote :: "(string, nat) jmap"
  outs :: "out_stream list"
  outbound :: "(string, nat) jmap"
  writes :: nat
  written :: "(nat \<times> kernel_error option) list"
  ins :: "in_stream list"
  inbound :: "(string, nat) jmap"
  pulls :: nat
  pulled :: "(nat \<times> nat \<times> pull_result) list"
  continuations :: "continuation list"
  streamOpenListeners :: "nat list"
  revocationListeners :: "nat list"
  eventListeners :: "nat list"
  peerCloseListeners :: "nat list"
  notified :: "(nat \<times> notice) list"

definition new_session :: "string \<Rightarrow> string \<Rightarrow> nat \<Rightarrow> nat \<Rightarrow> nat \<Rightarrow> session" where
  "new_session r i inFlight buf tot = \<lparr>role = r, instanceId = i, maxInFlightBytes = inFlight,
     maxBufferedPerStream = buf, maxTotal = tot, sequence = 0, disposed = False, portOpen = True, posted = [],
     handlers = [], pending = [], settled = [], served = [], remote = [], outs = [], outbound = [],
     writes = 0, written = [], ins = [], inbound = [], pulls = 0, pulled = [], continuations = [],
     streamOpenListeners = [], revocationListeners = [], eventListeners = [],
     peerCloseListeners = [], notified = []\<rparr>"

definition DEFAULT_STREAM_LIMITS :: "nat \<times> nat \<times> nat" where
  "DEFAULT_STREAM_LIMITS = (1024 * 1024, 2 * 1024 * 1024, 512 * 1024 * 1024)"

text \<open>\<open>port.postMessage\<close>: \<open>posted\<close> is what the port has taken. A \<open>MessagePort\<close> this side has closed takes
  nothing more; a post on it is dropped without an error.\<close>

definition post_all :: "envelope list \<Rightarrow> session \<Rightarrow> session" where
  [ses_defs]: "post_all es s = (if portOpen s then s\<lparr>posted := posted s @ es\<rparr> else s)"

definition send :: "envelope \<Rightarrow> session \<Rightarrow> session" where
  [ses_defs]: "send e s = (if disposed s then s else post_all [e] s)"

definition fresh_id :: "string \<Rightarrow> session \<Rightarrow> string" where
  "fresh_id prefix s = role s @ '':'' @ prefix @ '':'' @ digits_of_nat (Suc (sequence s))"

text \<open>\<open>nextId\<close>: the id together with the state that has used it.\<close>

definition nextId :: "string \<Rightarrow> session \<Rightarrow> string \<times> session" where
  [ses_defs]: "nextId prefix s = (fresh_id prefix s, s\<lparr>sequence := Suc (sequence s)\<rparr>)"

definition notify :: "nat list \<Rightarrow> notice \<Rightarrow> session \<Rightarrow> session" where
  [ses_defs]: "notify ls n s = s\<lparr>notified := notified s @ map (\<lambda>l. (l, n)) ls\<rparr>"

section \<open>Requests of this side\<close>

definition settle :: "string \<Rightarrow> kernel_error + wire \<Rightarrow> session \<Rightarrow> session" where
  [ses_defs]: "settle i outcome s = s\<lparr>pending := jm_delete i (pending s), settled := settled s @ [(i, outcome)]\<rparr>"

definition cancelRequest :: "string \<Rightarrow> session \<Rightarrow> session" where
  [ses_defs]: "cancelRequest i s = (case jm_get (pending s) i of None \<Rightarrow> s
     | Some timer \<Rightarrow> settle i (Inl (plain_error ''OPERATION_ABORTED'')) (send (RpcCancel i) s))"

text \<open>\<open>signal\<close> is \<open>Some\<close> of whether the caller's signal is aborted already. A disposed session rejects
  the call without giving it an id: \<open>None\<close>.\<close>

definition call :: "int \<Rightarrow> string \<Rightarrow> wire \<Rightarrow> bool option \<Rightarrow> int option \<Rightarrow> string option
    \<Rightarrow> session \<Rightarrow> session \<times> string option" where
  [ses_defs]: "call now method params signal deadlineMs key s =
     (if disposed s then (s, None)
      else let (i, s1) = nextId ''req'' s;
               deadline = map_option (\<lambda>ms. jint (now + max 1 ms)) deadlineMs;
               s2 = s1\<lparr>pending := jm_set i (deadlineMs \<noteq> None) (pending s1)\<rparr>;
               s3 = send (RpcRequest i (instanceId s) method params deadline key) s2
           in (if signal = Some True then cancelRequest i s3 else s3, Some i))"

definition call_deadline :: "string \<Rightarrow> session \<Rightarrow> session" where
  [ses_defs]: "call_deadline i s = (if jm_get (pending s) i = Some True
     then settle i (Inl (plain_error ''OPERATION_DEADLINE'')) s else s)"

definition on_response :: "string \<Rightarrow> kernel_error + wire \<Rightarrow> session \<Rightarrow> session" where
  [ses_defs]: "on_response i outcome s = (case jm_get (pending s) i of None \<Rightarrow> s | Some timer \<Rightarrow> settle i outcome s)"

section \<open>Requests of the peer\<close>

definition handle :: "string \<Rightarrow> session \<Rightarrow> session \<times> kernel_error option" where
  [ses_defs]: "handle method s = (if method \<in> set (handlers s)
     then (s, Some (KernelError (WString ''VALIDATION_FAILED'') WUndefined WUndefined
            (WObject [(''reason'', WString ''duplicate-handler''), (''method'', WString method)])))
     else (s\<lparr>handlers := handlers s @ [method]\<rparr>, None))"

definition unhandle :: "string \<Rightarrow> session \<Rightarrow> session" where
  [ses_defs]: "unhandle method s = s\<lparr>handlers := filter (\<lambda>m. m \<noteq> method) (handlers s)\<rparr>"

definition wire_failure :: "string \<Rightarrow> bool \<Rightarrow> (string \<times> wire) list \<Rightarrow> wire" where
  "wire_failure c r extra = WObject ([(''code'', WString c), (''retryable'', WBool r)] @ extra)"

definition deadline_passed :: "jnum \<Rightarrow> int \<Rightarrow> bool" where
  "deadline_passed d now = (case d of Num r \<Rightarrow> r \<le> of_int now | NegInf \<Rightarrow> True | _ \<Rightarrow> False)"

text \<open>\<open>serveRequest\<close> up to the call of the handler.\<close>

definition serveRequest :: "int \<Rightarrow> string \<Rightarrow> string \<Rightarrow> jnum option \<Rightarrow> session \<Rightarrow> session" where
  [ses_defs]: "serveRequest now i method deadline s =
     (if method \<notin> set (handlers s)
      then send (RpcResponseError i (wire_failure ''PROTOCOL_UNSUPPORTED'' False
             [(''details'', WObject [(''method'', WString method)])])) s
      else if (case deadline of None \<Rightarrow> False | Some d \<Rightarrow> deadline_passed d now)
      then send (RpcResponseError i (wire_failure ''OPERATION_DEADLINE'' True [])) s
      else s\<lparr>served := served s @ [\<lparr>callId = i, aborted = False, deadlineTimer = (deadline \<noteq> None),
               finished = False\<rparr>],
             remote := jm_set i (length (served s)) (remote s)\<rparr>)"

definition abort_served :: "nat \<Rightarrow> session \<Rightarrow> session" where
  [ses_defs]: "abort_served p s = s\<lparr>served := (served s)[p := (served s ! p)\<lparr>aborted := True\<rparr>]\<rparr>"

definition served_deadline :: "nat \<Rightarrow> session \<Rightarrow> session" where
  [ses_defs]: "served_deadline p s = (if p < length (served s) \<and> deadlineTimer (served s ! p)
     then abort_served p (s\<lparr>served := (served s)[p := (served s ! p)\<lparr>deadlineTimer := False\<rparr>]\<rparr>) else s)"

definition on_cancel :: "string \<Rightarrow> session \<Rightarrow> session" where
  [ses_defs]: "on_cancel i s = (case jm_get (remote s) i of None \<Rightarrow> s
     | Some p \<Rightarrow> abort_served p (s\<lparr>remote := jm_delete i (remote s)\<rparr>))"

text \<open>\<open>serveRequest\<close> after the handler of the call at \<open>p\<close> has settled.\<close>

definition handler_settles :: "nat \<Rightarrow> thrown + wire \<Rightarrow> session \<Rightarrow> session" where
  [ses_defs]: "handler_settles p outcome s =
     (if p < length (served s) \<and> \<not> finished (served s ! p) then
        let c = served s ! p;
            response = (case outcome of
                Inr result \<Rightarrow> if aborted c then RpcResponseError (callId c) (wire_failure ''OPERATION_ABORTED'' False [])
                             else RpcResponseOk (callId c) result
              | Inl error \<Rightarrow> RpcResponseError (callId c) (toWireError error));
            s1 = send response s
        in s1\<lparr>served := (served s1)[p := c\<lparr>finished := True, deadlineTimer := False\<rparr>],
              remote := jm_delete (callId c) (remote s1)\<rparr>
      else s)"

section \<open>Streams of this side\<close>

definition put_out :: "nat \<Rightarrow> out_stream \<Rightarrow> session \<Rightarrow> session" where
  [ses_defs]: "put_out p st s = s\<lparr>outs := (outs s)[p := st]\<rparr>"

definition openOutboundStream :: "wire \<Rightarrow> session \<Rightarrow> session \<times> nat option" where
  [ses_defs]: "openOutboundStream meta s =
     (if disposed s then (s, None)
      else let (i, s1) = nextId ''str'' s;
               st = \<lparr>streamId = i, credit = Num 0, queue = [], queuedBytes = 0, seq = 0, ended = False,
                     errored = False, drainWaiters = [], maxBufferedBytes = maxBufferedPerStream s\<rparr>;
               s2 = s1\<lparr>outs := outs s1 @ [st], outbound := jm_set i (length (outs s1)) (outbound s1)\<rparr>
           in (send (StreamOpen i ''plugin-to-host'' meta) s2, Some (length (outs s1))))"

definition wake_writers :: "nat \<Rightarrow> session \<Rightarrow> session" where
  [ses_defs]: "wake_writers p s = (let st = outs s ! p in
     (put_out p (st\<lparr>drainWaiters := []\<rparr>) s)\<lparr>continuations := continuations s @ map (ResumeWrite p) (drainWaiters st)\<rparr>)"

text \<open>The loop of \<open>pumpOutbound\<close>: the queue and the sequence number it leaves, and what it posts.\<close>

fun pump_loop :: "string \<Rightarrow> jnum \<Rightarrow> bytes list \<Rightarrow> nat \<Rightarrow> bytes list \<times> nat \<times> envelope list" where
  "pump_loop i cr [] n = ([], n, [])"
| "pump_loop i cr (chunk # q) n =
     (if \<not> jnum_less (Num 0) cr \<or> jnum_less cr (jint (int (length chunk))) then (chunk # q, n, [])
      else let (q', n', out) = pump_loop i cr q (Suc n) in (q', n', StreamChunk i (jint (int n)) chunk # out))"

definition pumpOutbound :: "nat \<Rightarrow> session \<Rightarrow> session" where
  [ses_defs]: "pumpOutbound p s =
     (let st = outs s ! p; (q, n, out) = pump_loop (streamId st) (credit st) (queue st) (seq st);
          st1 = st\<lparr>queue := q, seq := n\<rparr>; s1 = put_out p st1 (post_all out s)
      in if ended st1 \<and> q = [] then
           (send (StreamEnd (streamId st)) s1)\<lparr>outbound := jm_delete (streamId st) (outbound s1)\<rparr>
         else if 2 * queuedBytes st1 \<le> maxBufferedBytes st1 then wake_writers p s1
         else s1)"

definition finish_write :: "nat \<Rightarrow> kernel_error option \<Rightarrow> session \<Rightarrow> session" where
  [ses_defs]: "finish_write w e s = s\<lparr>written := written s @ [(w, e)]\<rparr>"

fun write_id :: "writing \<Rightarrow> nat" where
  "write_id (BeforeEnqueue w _) = w"
| "write_id (AfterEnqueue w) = w"

definition waitForDrain :: "nat \<Rightarrow> writing \<Rightarrow> session \<Rightarrow> session" where
  [ses_defs]: "waitForDrain p w s = (let st = outs s ! p in
     if errored st then finish_write (write_id w) (Some (plain_error ''STREAM_FAILED'')) s
     else put_out p (st\<lparr>drainWaiters := drainWaiters st @ [w]\<rparr>) s)"

definition enqueue_chunk :: "nat \<Rightarrow> nat \<Rightarrow> bytes \<Rightarrow> session \<Rightarrow> session" where
  [ses_defs]: "enqueue_chunk p w chunk s =
     (let st = outs s ! p;
          s1 = pumpOutbound p (put_out p (st\<lparr>queue := queue st @ [chunk],
                 queuedBytes := queuedBytes st + length chunk\<rparr>) s)
      in if queuedBytes (outs s1 ! p) > maxBufferedBytes (outs s1 ! p)
         then waitForDrain p (AfterEnqueue w) s1 else finish_write w None s1)"

definition write_chunk :: "nat \<Rightarrow> bytes \<Rightarrow> session \<Rightarrow> session" where
  [ses_defs]: "write_chunk p chunk s0 =
     (let w = writes s0; s = s0\<lparr>writes := Suc w\<rparr>; st = outs s ! p
      in if ended st \<or> errored st then finish_write w (Some (KernelError (WString ''STREAM_FAILED'')
             WUndefined WUndefined (WObject [(''reason'', WString ''closed'')]))) s
         else if length chunk > maxInFlightBytes s then
           finish_write w (Some (KernelError (WString ''PLUGIN_QUOTA_EXCEEDED'') WUndefined WUndefined
             (WObject [(''limit'', WString ''streams.maxInFlightBytes''),
                       (''max'', WNum (jint (int (maxInFlightBytes s))))]))) s
         else if queuedBytes st + length chunk > maxBufferedBytes st
         then waitForDrain p (BeforeEnqueue w chunk) s
         else enqueue_chunk p w chunk s)"

definition resume_write :: "nat \<Rightarrow> writing \<Rightarrow> session \<Rightarrow> session" where
  [ses_defs]: "resume_write p wr s = (case wr of
       BeforeEnqueue w chunk \<Rightarrow> enqueue_chunk p w chunk s | AfterEnqueue w \<Rightarrow> finish_write w None s)"

definition end_stream :: "nat \<Rightarrow> session \<Rightarrow> session" where
  [ses_defs]: "end_stream p s = (let st = outs s ! p in
     if ended st \<or> errored st then s
     else let s1 = put_out p (st\<lparr>ended := True\<rparr>) s
          in if queue st \<noteq> [] then s1
             else (send (StreamEnd (streamId st)) s1)\<lparr>outbound := jm_delete (streamId st) (outbound s1)\<rparr>)"

definition fail_stream :: "nat \<Rightarrow> thrown option \<Rightarrow> session \<Rightarrow> session" where
  [ses_defs]: "fail_stream p err s = (let st = outs s ! p in
     if errored st \<or> ended st then s
     else let s1 = put_out p (st\<lparr>errored := True\<rparr>) s;
              e = (case err of None \<Rightarrow> ThrownKernel (plain_error ''STREAM_FAILED'') | Some t \<Rightarrow> t)
          in (send (StreamError (streamId st) (toWireError e)) s1)
               \<lparr>outbound := jm_delete (streamId st) (outbound s1)\<rparr>)"

text \<open>Addition of numbers, as far as positive summands need it.\<close>

fun jnum_add :: "jnum \<Rightarrow> jnum \<Rightarrow> jnum" where
  "jnum_add (Num a) (Num b) = Num (a + b)"
| "jnum_add NaN _ = NaN"
| "jnum_add _ NaN = NaN"
| "jnum_add PosInf NegInf = NaN"
| "jnum_add NegInf PosInf = NaN"
| "jnum_add PosInf _ = PosInf"
| "jnum_add NegInf _ = NegInf"
| "jnum_add _ b = b"

definition on_credit :: "string \<Rightarrow> jnum \<Rightarrow> session \<Rightarrow> session" where
  [ses_defs]: "on_credit i b s = (case jm_get (outbound s) i of None \<Rightarrow> s
     | Some p \<Rightarrow> (let st = outs s ! p in pumpOutbound p (put_out p (st\<lparr>credit := jnum_add (credit st) b\<rparr>) s)))"

definition on_stream_cancel :: "string \<Rightarrow> session \<Rightarrow> session" where
  [ses_defs]: "on_stream_cancel i s = (case jm_get (outbound s) i of None \<Rightarrow> s
     | Some p \<Rightarrow> (let s1 = put_out p ((outs s ! p)\<lparr>errored := True\<rparr>) s
                 in (wake_writers p s1)\<lparr>outbound := jm_delete i (outbound s)\<rparr>))"

section \<open>Streams of the peer\<close>

definition put_in :: "nat \<Rightarrow> in_stream \<Rightarrow> session \<Rightarrow> session" where
  [ses_defs]: "put_in p st s = s\<lparr>ins := (ins s)[p := st]\<rparr>"

definition on_open :: "string \<Rightarrow> wire \<Rightarrow> session \<Rightarrow> session" where
  [ses_defs]: "on_open i meta s =
     (let st = \<lparr>inStreamId = i, grantedNotReceived = maxInFlightBytes s, buffered = [], bufferedBytes = 0,
            nextSeq = 0, inEnded = False, inError = None, pullWaiters = [], totalReceived = 0,
            maxTotalBytes = maxTotal s\<rparr>;
          s1 = s\<lparr>ins := ins s @ [st], inbound := jm_set i (length (ins s)) (inbound s)\<rparr>;
          s2 = send (StreamCredit i (jint (int (maxInFlightBytes s)))) s1
      in notify (streamOpenListeners s2) (StreamOpened i meta) s2)"

definition replenishCredit :: "string \<Rightarrow> session \<Rightarrow> session" where
  [ses_defs]: "replenishCredit i s = (case jm_get (inbound s) i of None \<Rightarrow> s
     | Some p \<Rightarrow>
         (let st = ins s ! p; outstanding = maxInFlightBytes s - grantedNotReceived st
          in if outstanding = 0 then s
             else send (StreamCredit i (jint (int outstanding)))
                    (put_in p (st\<lparr>grantedNotReceived := grantedNotReceived st + outstanding\<rparr>) s)))"

definition resume_pulls :: "nat \<Rightarrow> bytes option \<Rightarrow> nat list \<Rightarrow> session \<Rightarrow> session" where
  [ses_defs]: "resume_pulls p v ws s = s\<lparr>continuations := continuations s @ map (\<lambda>w. ResumePull p w v) ws\<rparr>"

definition failInbound :: "nat \<Rightarrow> kernel_error \<Rightarrow> session \<Rightarrow> session" where
  [ses_defs]: "failInbound p e s = (let st = ins s ! p in
     (resume_pulls p None (pullWaiters st) (put_in p (st\<lparr>inError := Some e, pullWaiters := []\<rparr>) s))
       \<lparr>inbound := jm_delete (inStreamId st) (inbound s)\<rparr>)"

definition on_chunk :: "string \<Rightarrow> jnum \<Rightarrow> bytes \<Rightarrow> session \<Rightarrow> session" where
  [ses_defs]: "on_chunk i q chunk s = (case jm_get (inbound s) i of None \<Rightarrow> s
     | Some p \<Rightarrow> (let st = ins s ! p in
         if inEnded st \<or> inError st \<noteq> None then s
         else if q \<noteq> jint (int (nextSeq st)) then s
         else let st1 = st\<lparr>nextSeq := Suc (nextSeq st), totalReceived := totalReceived st + length chunk,
                     grantedNotReceived := grantedNotReceived st - length chunk\<rparr>
              in if totalReceived st1 > maxTotalBytes st1 then
                   failInbound p (KernelError (WString ''PLUGIN_QUOTA_EXCEEDED'') WUndefined WUndefined
                     (WObject [(''limit'', WString ''streams.maxTotalBytes''),
                               (''max'', WNum (jint (int (maxTotalBytes st1))))])) (put_in p st1 s)
                 else case pullWaiters st1 of
                   w # ws \<Rightarrow> resume_pulls p (Some chunk) [w] (put_in p (st1\<lparr>pullWaiters := ws\<rparr>) s)
                 | [] \<Rightarrow> put_in p (st1\<lparr>buffered := buffered st1 @ [chunk],
                            bufferedBytes := bufferedBytes st1 + length chunk\<rparr>) s))"

definition on_end :: "string \<Rightarrow> session \<Rightarrow> session" where
  [ses_defs]: "on_end i s = (case jm_get (inbound s) i of None \<Rightarrow> s
     | Some p \<Rightarrow> (let st = ins s ! p in
         (resume_pulls p None (pullWaiters st) (put_in p (st\<lparr>inEnded := True, pullWaiters := []\<rparr>) s))
           \<lparr>inbound := jm_delete i (inbound s)\<rparr>))"

definition on_stream_error :: "string \<Rightarrow> wire \<Rightarrow> session \<Rightarrow> session" where
  [ses_defs]: "on_stream_error i e s = (case jm_get (inbound s) i of None \<Rightarrow> s
     | Some p \<Rightarrow> failInbound p (fromWireError e) s)"

definition finish_pull :: "nat \<Rightarrow> nat \<Rightarrow> pull_result \<Rightarrow> session \<Rightarrow> session" where
  [ses_defs]: "finish_pull p w r s = s\<lparr>pulled := pulled s @ [(p, w, r)]\<rparr>"

text \<open>\<open>InboundStream.pull\<close> up to its \<open>await\<close>, and its continuation.\<close>

definition pull :: "nat \<Rightarrow> session \<Rightarrow> session" where
  [ses_defs]: "pull p s0 =
     (let w = pulls s0; s = s0\<lparr>pulls := Suc w\<rparr>; st = ins s ! p
      in case buffered st of
           chunk # rest \<Rightarrow>
             finish_pull p w (PullChunk chunk) (replenishCredit (inStreamId st)
               (put_in p (st\<lparr>buffered := rest, bufferedBytes := bufferedBytes st - length chunk\<rparr>) s))
         | [] \<Rightarrow> (case inError st of Some e \<Rightarrow> finish_pull p w (PullFailed e) s
             | None \<Rightarrow> if inEnded st then finish_pull p w PullEnd s
                      else put_in p (st\<lparr>pullWaiters := pullWaiters st @ [w]\<rparr>) s))"

definition resume_pull :: "nat \<Rightarrow> nat \<Rightarrow> bytes option \<Rightarrow> session \<Rightarrow> session" where
  [ses_defs]: "resume_pull p w v s = (let st = ins s ! p in
     case inError st of Some e \<Rightarrow> finish_pull p w (PullFailed e) s
     | None \<Rightarrow> (case v of
         Some chunk \<Rightarrow> finish_pull p w (PullChunk chunk) (replenishCredit (inStreamId st) s)
       | None \<Rightarrow> finish_pull p w PullEnd s))"

section \<open>The event loop\<close>

definition onMessage :: "int \<Rightarrow> wire \<Rightarrow> session \<Rightarrow> session" where
  [ses_defs]: "onMessage now raw s =
     (if disposed s then s
      else case parseEnvelope raw of None \<Rightarrow> s
      | Some e \<Rightarrow> (case e of
          RpcRequest i inst m ps d key \<Rightarrow> serveRequest now i m d s
        | RpcResponseOk i r \<Rightarrow> on_response i (Inr r) s
        | RpcResponseError i er \<Rightarrow> on_response i (Inl (fromWireError er)) s
        | RpcCancel i \<Rightarrow> on_cancel i s
        | StreamOpen i dir meta \<Rightarrow> on_open i meta s
        | StreamCredit i b \<Rightarrow> on_credit i b s
        | StreamChunk i q b \<Rightarrow> on_chunk i q b s
        | StreamEnd i \<Rightarrow> on_end i s
        | StreamError i er \<Rightarrow> on_stream_error i er s
        | StreamCancel i \<Rightarrow> on_stream_cancel i s
        | CapabilityRevoked n v \<Rightarrow> notify (revocationListeners s) (Revoked n v) s
        | EvtEmit ev p i cur \<Rightarrow> notify (eventListeners s) (Emitted ev p i cur) s
        | Lifecycle st \<Rightarrow> s))"

definition emitEvent :: "string \<Rightarrow> wire \<Rightarrow> string option \<Rightarrow> session \<Rightarrow> session" where
  [ses_defs]: "emitEvent ev payload cur s =
     (let (i, s1) = nextId ''evt'' s in send (EvtEmit ev payload i cur) s1)"

definition notifyCapabilityRevoked :: "string \<Rightarrow> jnum \<Rightarrow> session \<Rightarrow> session" where
  [ses_defs]: "notifyCapabilityRevoked n v s = send (CapabilityRevoked n v) s"

definition dispose :: "session \<Rightarrow> session" where
  [ses_defs]: "dispose s0 =
     (if disposed s0 then s0
      else let s = s0\<lparr>disposed := True\<rparr>;
               s1 = s\<lparr>settled := settled s @ map (\<lambda>i. (i, Inl (plain_error ''OPERATION_ABORTED''))) (jm_keys (pending s)),
                      pending := []\<rparr>;
               s2 = (fold abort_served (jm_values (remote s1)) s1)\<lparr>remote := []\<rparr>;
               s3 = fold (\<lambda>p. failInbound p (plain_error ''OPERATION_ABORTED'')) (jm_values (inbound s2)) s2
           in (fold wake_writers (jm_values (outbound s3)) s3)\<lparr>outbound := [], portOpen := False\<rparr>)"

datatype session_event =
  Call int string wire "bool option" "int option" "string option" | AbortSignal string | CallDeadline string
| Incoming int wire | Handle string | Unhandle string | HandlerSettles nat "thrown + wire" | ServedDeadline nat
| OpenStream wire | Write nat bytes | EndWriting nat | FailWriting nat "thrown option" | Pull nat
| Continue | Emit string wire "string option" | NotifyRevoked string jnum | PortClosed | Dispose

fun session_step :: "session_event \<Rightarrow> session \<Rightarrow> session" where
  "session_step (Call now m ps sig d key) s = fst (call now m ps sig d key s)"
| "session_step (AbortSignal i) s = cancelRequest i s"
| "session_step (CallDeadline i) s = call_deadline i s"
| "session_step (Incoming now raw) s = onMessage now raw s"
| "session_step (Handle m) s = fst (handle m s)"
| "session_step (Unhandle m) s = unhandle m s"
| "session_step (HandlerSettles p outcome) s = handler_settles p outcome s"
| "session_step (ServedDeadline p) s = served_deadline p s"
| "session_step (OpenStream meta) s = fst (openOutboundStream meta s)"
| "session_step (Write p chunk) s = (if p < length (outs s) then write_chunk p chunk s else s)"
| "session_step (EndWriting p) s = (if p < length (outs s) then end_stream p s else s)"
| "session_step (FailWriting p e) s = (if p < length (outs s) then fail_stream p e s else s)"
| "session_step (Pull p) s = (if p < length (ins s) then pull p s else s)"
| "session_step Continue s = (case continuations s of [] \<Rightarrow> s
     | ResumeWrite p w # cs \<Rightarrow> resume_write p w (s\<lparr>continuations := cs\<rparr>)
     | ResumePull p w v # cs \<Rightarrow> resume_pull p w v (s\<lparr>continuations := cs\<rparr>))"
| "session_step (Emit ev p cur) s = emitEvent ev p cur s"
| "session_step (NotifyRevoked n v) s = notifyCapabilityRevoked n v s"
| "session_step PortClosed s = notify (peerCloseListeners s) PeerClosed s"
| "session_step Dispose s = dispose s"

end
