(* ===== verification/Session_Rpc.thy ===== *)
theory Session_Rpc
  imports Kernel_Session
begin

text \<open>
  Requests and responses of a session: every call of this side settles at most once and none is
  forgotten, a disposal settles all of them and silences the session, and a call the peer has
  cancelled is never answered with a result.
\<close>

section \<open>What the stream operations leave alone\<close>

text \<open>The part of the state the requests live in.\<close>

definition rpc_view :: "session \<Rightarrow> string \<times> (string, bool) jmap \<times> (string \<times> (kernel_error + wire)) list
    \<times> nat \<times> bool \<times> bool \<times> envelope list" where
  "rpc_view s = (role s, pending s, settled s, sequence s, disposed s, portOpen s, if portOpen s then [] else posted s)"

lemma fold_view: "(\<And>x s. v (f x s) = v s) \<Longrightarrow> v (fold f xs s) = v s"
  by (induction xs arbitrary: s) auto

lemma send_view [simp]: "rpc_view (send e s) = rpc_view s" "rpc_view (post_all es s) = rpc_view s"
  "rpc_view (notify ls n s) = rpc_view s"
  by (simp_all add: ses_defs rpc_view_def)

lemma out_view [simp]: "rpc_view (put_out p st s) = rpc_view s" "rpc_view (put_in q st' s) = rpc_view s"
  "rpc_view (s\<lparr>outbound := m\<rparr>) = rpc_view s" "rpc_view (s\<lparr>inbound := m\<rparr>) = rpc_view s"
  "rpc_view (s\<lparr>continuations := cs\<rparr>) = rpc_view s" "rpc_view (s\<lparr>writes := n\<rparr>) = rpc_view s"
  "rpc_view (s\<lparr>pulls := n\<rparr>) = rpc_view s" "rpc_view (s\<lparr>remote := r\<rparr>) = rpc_view s"
  "rpc_view (s\<lparr>served := cl\<rparr>) = rpc_view s" "rpc_view (s\<lparr>ins := is'\<rparr>) = rpc_view s"
  "rpc_view (s\<lparr>handlers := hs\<rparr>) = rpc_view s" "rpc_view (s\<lparr>written := wr\<rparr>) = rpc_view s"
  "rpc_view (s\<lparr>pulled := pd\<rparr>) = rpc_view s"
  by (simp_all add: put_out_def put_in_def rpc_view_def)

lemma wake_view [simp]: "rpc_view (wake_writers p s) = rpc_view s" "rpc_view (resume_pulls p v ws s) = rpc_view s"
  by (simp_all add: wake_writers_def resume_pulls_def Let_def)

lemma pump_view [simp]: "rpc_view (pumpOutbound p s) = rpc_view s"
  by (simp add: pumpOutbound_def Let_def split: prod.split)

lemma wait_view [simp]: "rpc_view (waitForDrain p w s) = rpc_view s" "rpc_view (finish_write n e s) = rpc_view s"
  "rpc_view (finish_pull p n r s) = rpc_view s"
  by (simp_all add: waitForDrain_def finish_write_def finish_pull_def Let_def)

lemma enqueue_view [simp]: "rpc_view (enqueue_chunk p w c s) = rpc_view s"
  by (simp add: enqueue_chunk_def Let_def)

lemma writer_view [simp]: "rpc_view (write_chunk p c s) = rpc_view s" "rpc_view (resume_write p w s) = rpc_view s"
  "rpc_view (end_stream p s) = rpc_view s" "rpc_view (fail_stream p e s) = rpc_view s"
  "rpc_view (on_credit i b s) = rpc_view s" "rpc_view (on_stream_cancel i s) = rpc_view s"
  by (simp_all add: write_chunk_def resume_write_def end_stream_def fail_stream_def on_credit_def
    on_stream_cancel_def Let_def split: writing.split option.split)

lemma reader_view [simp]: "rpc_view (on_open i m s) = rpc_view s" "rpc_view (replenishCredit i s) = rpc_view s"
  "rpc_view (failInbound p e s) = rpc_view s" "rpc_view (on_end i s) = rpc_view s"
  "rpc_view (on_stream_error i w s) = rpc_view s"
  by (simp_all add: on_open_def replenishCredit_def failInbound_def on_end_def on_stream_error_def Let_def
    split: option.split)

lemma pull_view [simp]: "rpc_view (on_chunk i q c s) = rpc_view s" "rpc_view (pull p s) = rpc_view s"
  "rpc_view (resume_pull p w v s) = rpc_view s"
  by (simp_all add: on_chunk_def pull_def resume_pull_def Let_def split: option.split list.split)

lemma serve_view [simp]: "rpc_view (serveRequest now i m d s) = rpc_view s"
  "rpc_view (abort_served p s) = rpc_view s" "rpc_view (served_deadline p s) = rpc_view s"
  "rpc_view (on_cancel i s) = rpc_view s" "rpc_view (handler_settles p r s) = rpc_view s"
  by (simp_all add: serveRequest_def abort_served_def served_deadline_def on_cancel_def handler_settles_def
    Let_def split: option.split sum.split)

section \<open>Each call settles at most once\<close>

definition issued_id :: "session \<Rightarrow> string \<Rightarrow> bool" where
  "issued_id s i = (\<exists>k \<le> sequence s. i = role s @ '':req:'' @ digits_of_nat k)"

definition rpc_ok :: "session \<Rightarrow> bool" where
  "rpc_ok s \<longleftrightarrow> jm_wf (pending s) \<and> distinct (map fst (settled s))
     \<and> set (jm_keys (pending s)) \<inter> fst ` set (settled s) = {}
     \<and> (\<forall>i \<in> set (jm_keys (pending s)) \<union> fst ` set (settled s). issued_id s i)
     \<and> (disposed s \<longrightarrow> pending s = []) \<and> portOpen s = (\<not> disposed s)"

lemma rpc_ok_view: "rpc_view t = rpc_view s \<Longrightarrow> rpc_ok t = rpc_ok s"
  by (simp add: rpc_view_def rpc_ok_def issued_id_def)

lemma rpc_okI: "rpc_ok s \<Longrightarrow> rpc_view t = rpc_view s \<Longrightarrow> rpc_ok t"
  using rpc_ok_view by blast

lemma jm_get_key: "jm_get m i = Some v \<Longrightarrow> i \<in> set (jm_keys m)"
  by (force dest: jm_get_in_set)

lemma fresh_not_issued: "\<not> issued_id s (fresh_id ''req'' s)"
proof
  assume "issued_id s (fresh_id ''req'' s)"
  then obtain k where k: "k \<le> sequence s" "digits_of_nat (Suc (sequence s)) = digits_of_nat k"
    by (auto simp: issued_id_def fresh_id_def)
  from arg_cong [OF k(2), of nat_of_digits] have "Suc (sequence s) = k" by simp
  with k(1) show False by simp
qed

lemma issued_more: "issued_id s i \<Longrightarrow> role t = role s \<Longrightarrow> sequence s \<le> sequence t \<Longrightarrow> issued_id t i"
  by (auto simp: issued_id_def intro: order_trans)

lemma issued_fresh: "role t = role s \<Longrightarrow> sequence t = Suc (sequence s) \<Longrightarrow> issued_id t (fresh_id ''req'' s)"
  by (auto simp: issued_id_def fresh_id_def)

lemma rpc_ok_sequence:
  assumes "rpc_ok s"
  shows "rpc_ok (s\<lparr>sequence := Suc (sequence s)\<rparr>)" (is "rpc_ok ?t")
proof -
  have "issued_id ?t j" if "issued_id s j" for j using that by (rule issued_more) simp_all
  with assms show ?thesis unfolding rpc_ok_def by auto
qed

lemma rpc_ok_settle:
  assumes "rpc_ok s" and "i \<in> set (jm_keys (pending s))"
  shows "rpc_ok (settle i r s)"
proof -
  have keys: "set (jm_keys (jm_delete i (pending s))) = set (jm_keys (pending s)) - {i}"
    by (simp only: jm_keys_delete set_filter) auto
  have iss: "issued_id (settle i r s) j = issued_id s j" for j by (simp add: issued_id_def settle_def)
  from assms have "disposed s \<Longrightarrow> False" by (auto simp: rpc_ok_def)
  with assms show ?thesis
    unfolding rpc_ok_def iss unfolding settle_def using keys by (auto simp: rpc_ok_def)
qed

lemma rpc_ok_call:
  assumes ok: "rpc_ok s" and "\<not> disposed s"
  shows "rpc_ok (s\<lparr>sequence := Suc (sequence s), pending := jm_set (fresh_id ''req'' s) timer (pending s)\<rparr>)"
    (is "rpc_ok ?t")
proof -
  let ?i = "fresh_id ''req'' s"
  have new: "?i \<notin> set (jm_keys (pending s)) \<union> fst ` set (settled s)"
    using ok fresh_not_issued [of s] unfolding rpc_ok_def by blast
  have "issued_id ?t j" if "j = ?i \<or> issued_id s j" for j
    using that issued_fresh [of ?t s] issued_more [of s j ?t] by auto
  with ok new assms(2) show ?thesis
    unfolding rpc_ok_def by (auto simp: jm_set_absent)
qed

lemma rpc_ok_dispose:
  assumes ok: "rpc_ok s" and "\<not> disposed s"
  shows "rpc_ok (s\<lparr>disposed := True, portOpen := False, pending := [],
     settled := settled s @ map (\<lambda>i. (i, r)) (jm_keys (pending s))\<rparr>)" (is "rpc_ok ?t")
proof -
  have "issued_id ?t j = issued_id s j" for j by (simp add: issued_id_def)
  moreover have "map fst (map (\<lambda>i. (i, r)) (jm_keys (pending s))) = jm_keys (pending s)" by simp
  ultimately show ?thesis using ok unfolding rpc_ok_def
    by (auto simp: distinct_map inj_on_def image_iff) (metis UnI1 fst_conv image_eqI)
qed

lemma quiet_ops: "posted (abort_served p s) = posted s" "posted (failInbound p e s) = posted s"
  "posted (wake_writers p s) = posted s"
  by (simp_all add: abort_served_def failInbound_def wake_writers_def resume_pulls_def put_in_def put_out_def Let_def)

lemma dispose_view: "rpc_view (dispose s) = rpc_view (if disposed s then s
    else s\<lparr>disposed := True, portOpen := False, pending := [],
      settled := settled s @ map (\<lambda>i. (i, Inl (plain_error ''OPERATION_ABORTED''))) (jm_keys (pending s))\<rparr>)"
proof (cases "disposed s")
  case False
  define s1 where "s1 = s\<lparr>disposed := True,
    settled := settled s @ map (\<lambda>i. (i, Inl (plain_error ''OPERATION_ABORTED''))) (jm_keys (pending s)), pending := []\<rparr>"
  define s2 where "s2 = (fold abort_served (jm_values (remote s1)) s1)\<lparr>remote := []\<rparr>"
  define s3 where "s3 = fold (\<lambda>p. failInbound p (plain_error ''OPERATION_ABORTED'')) (jm_values (inbound s2)) s2"
  define s4 where "s4 = fold wake_writers (jm_values (outbound s3)) s3"
  have "rpc_view s4 = rpc_view s1" "posted s4 = posted s1"
    by (simp_all add: s4_def s3_def s2_def fold_view quiet_ops)
  then have "rpc_view (s4\<lparr>outbound := [], portOpen := False\<rparr>) = rpc_view (s1\<lparr>portOpen := False\<rparr>)"
    by (simp add: rpc_view_def)
  moreover have "dispose s = s4\<lparr>outbound := [], portOpen := False\<rparr>"
    using False by (simp add: dispose_def Let_def s1_def s2_def s3_def s4_def)
  ultimately show ?thesis using False by (simp add: s1_def rpc_view_def)
qed (simp add: dispose_def)

lemma rpc_ok_new: "rpc_ok (new_session r i a b c)"
  by (simp add: rpc_ok_def new_session_def)

lemma rpc_ok_settles: "rpc_ok s \<Longrightarrow> jm_get (pending s) i = Some v \<Longrightarrow> rpc_ok (settle i r s)"
  by (rule rpc_ok_settle, assumption, rule jm_get_key)

lemma rpc_ok_cancel:
  assumes ok: "rpc_ok s"
  shows "rpc_ok (cancelRequest i s)"
proof (cases "jm_get (pending s) i")
  case None
  with ok show ?thesis by (simp add: cancelRequest_def)
next
  case (Some timer)
  have "rpc_ok (send (RpcCancel i) s)" by (rule rpc_okI [OF ok]) simp
  moreover have "jm_get (pending (send (RpcCancel i) s)) i = Some timer" using Some by (simp add: send_def post_all_def)
  ultimately show ?thesis unfolding cancelRequest_def Some option.case by (rule rpc_ok_settles)
qed

lemma rpc_ok_call_op:
  assumes ok: "rpc_ok s"
  shows "rpc_ok (fst (call now m ps sig d key s))"
proof (cases "disposed s")
  case True
  with ok show ?thesis by (simp add: call_def)
next
  case False
  let ?t = "s\<lparr>sequence := Suc (sequence s), pending := jm_set (fresh_id ''req'' s) (d \<noteq> None) (pending s)\<rparr>"
  have sent: "rpc_ok (send e ?t)" for e by (rule rpc_okI [OF rpc_ok_call [OF ok False]]) simp
  show ?thesis
    using False sent rpc_ok_cancel [OF sent] by (simp add: call_def nextId_def Let_def)
qed

lemma rpc_ok_response: "rpc_ok s \<Longrightarrow> rpc_ok (on_response i r s)"
  by (simp add: on_response_def rpc_ok_settles split: option.split)

lemma rpc_ok_message:
  assumes ok: "rpc_ok s"
  shows "rpc_ok (onMessage now raw s)"
proof (cases "parseEnvelope raw")
  case None
  with ok show ?thesis by (simp add: onMessage_def)
next
  case (Some e)
  show ?thesis
  proof (cases "disposed s")
    case False
    show ?thesis
      unfolding onMessage_def Some option.case if_not_P [OF False]
      by (cases e) (simp_all add: ok rpc_ok_response rpc_okI [OF ok])
  qed (use ok in \<open>simp add: onMessage_def\<close>)
qed

lemma rpc_ok_dispose_op: "rpc_ok s \<Longrightarrow> rpc_ok (dispose s)"
proof (cases "disposed s")
  case False
  assume ok: "rpc_ok s"
  show ?thesis
    by (rule rpc_okI [OF rpc_ok_dispose [OF ok False]]) (simp only: dispose_view if_not_P [OF False])
qed (simp add: dispose_def)

lemma rpc_ok_open: "rpc_ok s \<Longrightarrow> rpc_ok (fst (openOutboundStream meta s))"
proof (cases "disposed s")
  case False
  assume ok: "rpc_ok s"
  have "rpc_view (fst (openOutboundStream meta s)) = rpc_view (s\<lparr>sequence := Suc (sequence s)\<rparr>)"
    using False by (simp add: openOutboundStream_def nextId_def Let_def) (simp add: rpc_view_def)
  then show ?thesis by (rule rpc_okI [OF rpc_ok_sequence [OF ok]])
qed (simp add: openOutboundStream_def)

lemma rpc_ok_continue: "rpc_ok s \<Longrightarrow> rpc_ok (session_step Continue s)"
proof -
  have "rpc_view (session_step Continue s) = rpc_view s"
    by (simp split: list.split continuation.split)
  then show "rpc_ok s \<Longrightarrow> rpc_ok (session_step Continue s)" by (rule rpc_okI [rotated])
qed

lemma rpc_ok_step:
  assumes ok: "rpc_ok s"
  shows "rpc_ok (session_step e s)"
proof (cases e)
  case (CallDeadline i)
  with ok show ?thesis by (simp add: call_deadline_def rpc_ok_settles)
next
  case (Emit ev p cur)
  with ok show ?thesis
    by (simp add: emitEvent_def nextId_def rpc_okI [OF rpc_ok_sequence])
next
  case Continue
  with ok show ?thesis by (simp only: rpc_ok_continue)
qed (use ok in \<open>simp_all add: rpc_ok_call_op rpc_ok_cancel rpc_ok_message rpc_ok_dispose_op rpc_ok_open
    rpc_okI [OF ok] handle_def unhandle_def notifyCapabilityRevoked_def\<close>)

interpretation rpc_system: event_system session_step rpc_ok
  by unfold_locales (rule rpc_ok_step)

section \<open>A disposed session is silent\<close>

definition mute :: "envelope list \<Rightarrow> (string \<times> (kernel_error + wire)) list \<Rightarrow> session \<Rightarrow> bool" where
  "mute ps rs s = (disposed s \<and> \<not> portOpen s \<and> posted s = ps \<and> pending s = [] \<and> settled s = rs)"

lemma muteI: "mute ps rs s \<Longrightarrow> rpc_view t = rpc_view s \<Longrightarrow> mute ps rs t"
  by (simp add: mute_def rpc_view_def split: if_splits)

lemma mute_step:
  assumes m: "mute ps rs s"
  shows "mute ps rs (session_step e s)"
proof -
  have d: "disposed s" using m by (simp add: mute_def)
  show ?thesis
  proof (cases e)
    case Continue
    have "rpc_view (session_step Continue s) = rpc_view s" by (simp split: list.split continuation.split)
    with Continue show ?thesis by (simp only: muteI [OF m])
  next
    case (CallDeadline i)
    with m show ?thesis by (simp add: call_deadline_def settle_def mute_def)
  next
    case (AbortSignal i)
    with m show ?thesis by (simp add: cancelRequest_def settle_def send_def mute_def split: option.split)
  next
    case (Emit ev q cur)
    with m show ?thesis by (simp add: emitEvent_def nextId_def send_def mute_def)
  qed (use m d in \<open>simp_all add: muteI [OF m] call_def onMessage_def openOutboundStream_def dispose_def
      handle_def unhandle_def notifyCapabilityRevoked_def\<close>)
qed

lemma mute_run: "mute ps rs s \<Longrightarrow> mute ps rs (run_events session_step es s)"
  by (induction es arbitrary: s) (auto intro: mute_step)

section \<open>Calls served for the peer\<close>

lemma served_frame [simp]:
  "served (send e s) = served s" "served (post_all es s) = served s" "served (notify ls n s) = served s"
  "served (put_out p st s) = served s" "served (put_in q st' s) = served s"
  "served (wake_writers p s) = served s" "served (resume_pulls p v ws s) = served s"
  "served (finish_write k er s) = served s" "served (finish_pull p k r s) = served s"
  "served (settle i o' s) = served s"
  by (simp_all add: ses_defs Let_def)

lemma served_frame_streams [simp]:
  "served (pumpOutbound p s) = served s" "served (waitForDrain p w s) = served s"
  by (simp_all add: pumpOutbound_def waitForDrain_def Let_def split: prod.split)

lemma served_frame_write [simp]:
  "served (enqueue_chunk p k c s) = served s"
  by (simp add: enqueue_chunk_def Let_def)

lemma served_frame_ops [simp]:
  "served (write_chunk p c s) = served s" "served (resume_write p w s) = served s"
  "served (end_stream p s) = served s" "served (fail_stream p er s) = served s"
  "served (on_credit i b s) = served s" "served (on_stream_cancel i s) = served s"
  "served (on_open i m s) = served s" "served (replenishCredit i s) = served s"
  "served (failInbound p e s) = served s" "served (on_end i s) = served s"
  by (simp_all add: write_chunk_def resume_write_def end_stream_def fail_stream_def on_credit_def
    on_stream_cancel_def on_open_def replenishCredit_def failInbound_def on_end_def
    Let_def split: writing.split option.split)

lemma served_frame_in [simp]:
  "served (on_stream_error i w s) = served s" "served (on_chunk i q c s) = served s"
  "served (pull p s) = served s" "served (resume_pull p k v s) = served s"
  "served (cancelRequest i s) = served s" "served (on_response i r s) = served s"
  "served (call_deadline i s) = served s" "served (fst (call now m ps sig d key s)) = served s"
  "served (fst (openOutboundStream meta s)) = served s" "served (emitEvent ev pl cur s) = served s"
  by (simp_all add: on_stream_error_def on_chunk_def pull_def resume_pull_def cancelRequest_def on_response_def
    call_deadline_def call_def openOutboundStream_def emitEvent_def nextId_def Let_def
    split: option.split list.split)

text \<open>A call the peer has aborted stays aborted, under its id.\<close>

definition aborted_call :: "nat \<Rightarrow> string \<Rightarrow> session \<Rightarrow> bool" where
  "aborted_call p i s = (p < length (served s) \<and> callId (served s ! p) = i \<and> aborted (served s ! p))"

lemma aborted_abort: "aborted_call p i s \<Longrightarrow> aborted_call p i (abort_served q s)"
  by (cases "q < length (served s)") (auto simp: aborted_call_def abort_served_def nth_list_update)

lemma aborted_frame: "aborted_call p i s \<Longrightarrow> served t = served s \<Longrightarrow> aborted_call p i t"
  by (simp add: aborted_call_def)

lemma aborted_fold: "aborted_call p i s \<Longrightarrow> aborted_call p i (fold abort_served ps s)"
  by (induction ps arbitrary: s) (auto intro: aborted_abort)

lemma aborted_serve: "aborted_call p i s \<Longrightarrow> aborted_call p i (serveRequest now j m d s)"
  by (auto simp: serveRequest_def aborted_call_def nth_append)

lemma aborted_handler: "aborted_call p i s \<Longrightarrow> aborted_call p i (handler_settles q r s)"
  by (cases "q = p") (auto simp: handler_settles_def aborted_call_def Let_def nth_list_update)

lemma aborted_deadline: "aborted_call p i s \<Longrightarrow> aborted_call p i (served_deadline q s)"
  by (cases "q = p") (auto simp: served_deadline_def aborted_call_def abort_served_def nth_list_update)

lemma aborted_cancel: "aborted_call p i s \<Longrightarrow> aborted_call p i (on_cancel j s)"
  by (auto simp: on_cancel_def split: option.split intro!: aborted_abort elim: aborted_frame)

lemma aborted_message: "aborted_call p i s \<Longrightarrow> aborted_call p i (onMessage now raw s)"
  by (auto simp: onMessage_def aborted_serve aborted_cancel split: option.split envelope.split elim: aborted_frame)

lemma aborted_dispose:
  assumes "aborted_call p i s"
  shows "aborted_call p i (dispose s)"
proof -
  have "served (fold wake_writers xs t) = served t" "served (fold (\<lambda>q. failInbound q e) ys t) = served t"
    for xs ys t e by (rule fold_view [of served], simp)+
  then show ?thesis using assms aborted_fold
    by (auto simp: dispose_def Let_def aborted_call_def)
qed

lemma aborted_step: "aborted_call p i s \<Longrightarrow> aborted_call p i (session_step e s)"
  by (cases e) (auto simp: aborted_message aborted_handler aborted_deadline aborted_dispose handle_def unhandle_def
    notifyCapabilityRevoked_def split: list.split continuation.split elim: aborted_frame)

lemma aborted_run: "aborted_call p i s \<Longrightarrow> aborted_call p i (run_events session_step es s)"
  by (induction es arbitrary: s) (auto intro: aborted_step)

section \<open>Properties\<close>

text \<open>C8: whatever the peer, the timers and the callers do, no call settles twice and no pending call
  has settled; every call, pending or settled, has an id this session issued, numbered by its counter, and
  the id of the next call is none of them: ids are never reused.\<close>

theorem calls_settle_once:
  "let s = run_events session_step es (new_session r i a b c); calls = jm_keys (pending s) @ map fst (settled s) in
     distinct calls
     \<and> (\<forall>j \<in> set calls. \<exists>k \<le> sequence s. j = role s @ '':req:'' @ digits_of_nat k)
     \<and> fresh_id ''req'' s \<notin> set calls"
proof -
  let ?s = "run_events session_step es (new_session r i a b c)"
  have ok: "rpc_ok ?s" by (rule rpc_system.inv_run) (rule rpc_ok_new)
  with fresh_not_issued [of ?s] have "fresh_id ''req'' ?s \<notin> set (jm_keys (pending ?s)) \<union> fst ` set (settled ?s)"
    unfolding rpc_ok_def by blast
  with ok show ?thesis unfolding Let_def rpc_ok_def issued_id_def by (simp add: Ball_def)
qed

text \<open>C27: disposing a session, however it came to its state, settles every pending call with the code of an
  aborted operation. Whatever happens afterwards, the port takes nothing more, no call is pending and
  no call settles again.\<close>

theorem dispose_settles_and_silences:
  assumes "s = run_events session_step es0 (new_session r i a b c)" and "\<not> disposed s"
  shows "let d = dispose s; t = run_events session_step es d in
    settled d = settled s @ map (\<lambda>j. (j, Inl (plain_error ''OPERATION_ABORTED''))) (jm_keys (pending s))
    \<and> posted d = posted s \<and> posted t = posted s \<and> pending t = [] \<and> settled t = settled d"
proof -
  let ?rs = "settled s @ map (\<lambda>j. (j, Inl (plain_error ''OPERATION_ABORTED''))) (jm_keys (pending s))"
  let ?t = "s\<lparr>disposed := True, portOpen := False, pending := [], settled := ?rs\<rparr>"
  have "rpc_view (dispose s) = rpc_view ?t" using dispose_view [of s] assms(2) by simp
  then have d: "settled (dispose s) = ?rs" "disposed (dispose s)" "\<not> portOpen (dispose s)"
    "posted (dispose s) = posted s" "pending (dispose s) = []"
    by (auto simp: rpc_view_def split: if_splits)
  then have "mute (posted s) ?rs (run_events session_step es (dispose s))"
    by (intro mute_run) (simp add: mute_def)
  with d show ?thesis unfolding Let_def by (simp add: mute_def)
qed

definition example_session :: session where
  "example_session = serveRequest 0 ''r'' ''m'' None
     (fst (call 0 ''f'' WNull None (Some 50) None (fst (handle ''m'' (new_session ''p'' ''i'' 8 16 64)))))"

definition example_events :: "session_event list" where
  "example_events = [Handle ''m'', Call 0 ''f'' WNull None (Some 50) None,
     Incoming 0 (envelope_wire (RpcRequest ''r'' ''i'' ''m'' WNull None None))]"

lemma example_session_run: "example_session = run_events session_step example_events (new_session ''p'' ''i'' 8 16 64)"
  using parse_posted [of "RpcRequest ''r'' ''i'' ''m'' WNull None None"]
  by (simp add: example_session_def example_events_def onMessage_def call_def handle_def new_session_def nextId_def
    send_def post_all_def Let_def del: envelope_wire.simps)

lemma example_session_open: "\<not> disposed example_session"
  by (simp add: example_session_def serveRequest_def call_def handle_def new_session_def nextId_def send_def post_all_def Let_def)

theorem calls_settle_once_witness:
  "\<exists>k \<le> sequence example_session. ''p:req:1'' = role example_session @ '':req:'' @ digits_of_nat k"
proof -
  have "''p:req:1'' \<in> set (jm_keys (pending example_session) @ map fst (settled example_session))" by code_simp
  then show ?thesis
    using calls_settle_once [of example_events "''p''" "''i''" 8 16 64, folded example_session_run]
    unfolding Let_def by blast
qed

theorem dispose_settles_and_silences_witness:
  "settled (dispose example_session) = [(''p:req:1'', Inl (plain_error ''OPERATION_ABORTED''))]
   \<and> posted (run_events session_step [Emit ''e'' WNull None] (dispose example_session)) = posted example_session"
proof -
  have "posted (run_events session_step [Emit ''e'' WNull None] (dispose example_session)) = posted example_session"
    using dispose_settles_and_silences [OF example_session_run example_session_open, of "[Emit ''e'' WNull None]"]
    unfolding Let_def by blast
  moreover have "settled (dispose example_session) = [(''p:req:1'', Inl (plain_error ''OPERATION_ABORTED''))]"
    by code_simp
  ultimately show ?thesis by blast
qed

text \<open>C26: once the peer has cancelled a request it made, it never gets the result of it: whatever
  happens in between, when the handler settles, the answer is nothing, or the code of an aborted operation if it
  returned a result, or the error it threw.\<close>

theorem cancelled_request_gets_no_result:
  assumes "\<not> disposed s" and "jm_get (remote s) i = Some p" and "p < length (served s)"
    and "callId (served s ! p) = i"
  shows "let t = run_events session_step es (session_step (Incoming now (envelope_wire (RpcCancel i))) s)
    in posted (session_step (HandlerSettles p outcome) t)
       \<in> {posted t, posted t @ [RpcResponseError i (case outcome of
            Inr result \<Rightarrow> wire_failure ''OPERATION_ABORTED'' False [] | Inl error \<Rightarrow> toWireError error)]}"
proof -
  have "aborted_call p i (session_step (Incoming now (envelope_wire (RpcCancel i))) s)"
    using assms parse_posted [of "RpcCancel i"]
    by (simp add: onMessage_def on_cancel_def abort_served_def aborted_call_def)
  from aborted_run [OF this, of es] show ?thesis
    by (cases outcome) (simp_all add: Let_def handler_settles_def aborted_call_def send_def post_all_def)
qed

theorem cancelled_request_gets_no_result_witness:
  "posted (session_step (HandlerSettles 0 (Inr (WBool True)))
      (session_step (Incoming 1 (envelope_wire (RpcCancel ''r''))) example_session))
    \<noteq> posted example_session @ [RpcResponseOk ''r'' (WBool True)]"
proof -
  let ?t = "session_step (Incoming 1 (envelope_wire (RpcCancel ''r''))) example_session"
  have "jm_get (remote example_session) ''r'' = Some 0"
    "0 < length (served example_session)" "callId (served example_session ! 0) = ''r''"
    by code_simp+
  from cancelled_request_gets_no_result [OF example_session_open this, of "[]" 1 "Inr (WBool True)"]
  have "posted (session_step (HandlerSettles 0 (Inr (WBool True))) ?t)
      \<in> {posted ?t, posted ?t @ [RpcResponseError ''r'' (wire_failure ''OPERATION_ABORTED'' False [])]}"
    unfolding Let_def run_events_Nil sum.case .
  moreover have "posted ?t = posted example_session"
    using parse_posted [of "RpcCancel ''r''"]
    by (simp add: onMessage_def on_cancel_def abort_served_def split: option.split)
  ultimately show ?thesis by (elim insertE emptyE) simp_all
qed

end
