(* ===== verification/Session_Streams.thy ===== *)
theory Session_Streams
  imports Kernel_Session
begin

text \<open>
  The credit-based byte streams of a session: what the flow control of the sender does and does not
  bound, that a write which has to wait never resolves, what the receiver delivers, and the transfer
  of a whole stream from one session to another.
\<close>

section \<open>Operations that leave the outbound streams alone\<close>

fun is_resume_write :: "continuation \<Rightarrow> bool" where
  "is_resume_write (ResumeWrite _ _) = True"
| "is_resume_write (ResumePull _ _ _) = False"

definition out_view :: "session \<Rightarrow> out_stream list \<times> (string, nat) jmap \<times> (nat \<times> kernel_error option) list
    \<times> nat \<times> bool \<times> nat \<times> nat \<times> continuation list" where
  "out_view s = (outs s, outbound s, written s, writes s, disposed s, maxInFlightBytes s,
     maxBufferedPerStream s, filter is_resume_write (continuations s))"

lemma filter_resume_pulls [simp]: "filter is_resume_write (map (\<lambda>w. ResumePull p w v) ws) = []"
  by (induction ws) auto

lemma out_frame [simp]:
  "out_view (send e s) = out_view s" "out_view (post_all es s) = out_view s" "out_view (notify ls n s) = out_view s"
  "out_view (put_in q st s) = out_view s" "out_view (s\<lparr>inbound := m\<rparr>) = out_view s"
  "out_view (s\<lparr>sequence := k\<rparr>) = out_view s" "out_view (s\<lparr>pending := pe\<rparr>) = out_view s"
  "out_view (s\<lparr>settled := se\<rparr>) = out_view s" "out_view (s\<lparr>remote := r\<rparr>) = out_view s"
  "out_view (s\<lparr>served := cl\<rparr>) = out_view s" "out_view (s\<lparr>ins := xs\<rparr>) = out_view s"
  "out_view (s\<lparr>handlers := hs\<rparr>) = out_view s" "out_view (s\<lparr>pulls := k\<rparr>) = out_view s"
  "out_view (s\<lparr>pulled := pd\<rparr>) = out_view s" "out_view (s\<lparr>portOpen := op\<rparr>) = out_view s"
  "out_view (resume_pulls p v ws s) = out_view s" "out_view (settle i o' s) = out_view s"
  "out_view (abort_served q s) = out_view s" "out_view (finish_pull q k res s) = out_view s"
  by (simp_all add: ses_defs out_view_def)

lemma out_frame_in [simp]:
  "out_view (on_open i m s) = out_view s" "out_view (replenishCredit i s) = out_view s"
  "out_view (failInbound p e s) = out_view s" "out_view (on_end i s) = out_view s"
  by (simp_all add: on_open_def replenishCredit_def failInbound_def on_end_def Let_def split: option.split)

lemma out_frame_ops [simp]:
  "out_view (on_stream_error i w s) = out_view s" "out_view (on_chunk i q c s) = out_view s"
  "out_view (pull p s) = out_view s" "out_view (resume_pull p k v s) = out_view s"
  "out_view (cancelRequest i s) = out_view s" "out_view (on_response i r s) = out_view s"
  "out_view (call_deadline i s) = out_view s" "out_view (fst (call now m ps sig d key s)) = out_view s"
  "out_view (emitEvent ev pl cur s) = out_view s" "out_view (serveRequest now i m' d' s) = out_view s"
  "out_view (served_deadline p s) = out_view s" "out_view (on_cancel i s) = out_view s"
  "out_view (handler_settles p hr s) = out_view s"
  by (simp_all add: on_stream_error_def on_chunk_def pull_def resume_pull_def cancelRequest_def on_response_def
    call_deadline_def call_def emitEvent_def nextId_def serveRequest_def served_deadline_def on_cancel_def
    handler_settles_def Let_def split: option.split list.split sum.split)

section \<open>Waiting writes\<close>

text \<open>How full a stream is: the bytes it has ever queued, which nothing takes off again.\<close>

definition over_half :: "out_stream \<Rightarrow> bool" where
  "over_half st = (2 * queuedBytes st > maxBufferedBytes st)"

fun waiting_ok :: "bool \<Rightarrow> out_stream \<Rightarrow> writing \<Rightarrow> bool" where
  "waiting_ok d st (BeforeEnqueue w c) = (over_half st \<and> queuedBytes st + length c > maxBufferedBytes st)"
| "waiting_ok d st (AfterEnqueue w) = (over_half st \<and> d)"

fun resuming_ok :: "out_stream \<Rightarrow> writing \<Rightarrow> bool" where
  "resuming_ok st (BeforeEnqueue w c) = (over_half st \<and> queuedBytes st + length c > maxBufferedBytes st)"
| "resuming_ok st (AfterEnqueue w) = False"

definition writers_ok :: "session \<Rightarrow> bool" where
  "writers_ok s \<longleftrightarrow> 2 * maxInFlightBytes s \<le> maxBufferedPerStream s
     \<and> (\<forall>p < length (outs s). maxBufferedBytes (outs s ! p) = maxBufferedPerStream s
          \<and> (\<forall>wr \<in> set (drainWaiters (outs s ! p)). waiting_ok (disposed s) (outs s ! p) wr))
     \<and> (\<forall>p wr. ResumeWrite p wr \<in> set (filter is_resume_write (continuations s)) \<longrightarrow>
          p < length (outs s) \<and> disposed s \<and> resuming_ok (outs s ! p) wr)
     \<and> (disposed s \<longrightarrow> outbound s = [])
     \<and> (\<forall>p \<in> set (jm_values (outbound s)). p < length (outs s))"

lemma writers_ok_view: "out_view t = out_view s \<Longrightarrow> writers_ok s \<Longrightarrow> writers_ok t"
  unfolding out_view_def writers_ok_def by (simp del: set_filter)

lemma in_resume_filter: "ResumeWrite p wr \<in> set (filter is_resume_write cs) \<longleftrightarrow> ResumeWrite p wr \<in> set cs"
  by simp

text \<open>A stream that only grows keeps its waiting writes waiting.\<close>

definition grows :: "out_stream \<Rightarrow> out_stream \<Rightarrow> bool" where
  "grows st st' = (maxBufferedBytes st' = maxBufferedBytes st \<and> queuedBytes st \<le> queuedBytes st'
     \<and> set (drainWaiters st') \<subseteq> set (drainWaiters st))"

lemma waiting_grows: "waiting_ok d st wr \<Longrightarrow> grows st st' \<Longrightarrow> waiting_ok d st' wr"
  by (cases wr) (auto simp: grows_def over_half_def)

lemma resuming_grows: "resuming_ok st wr \<Longrightarrow> grows st st' \<Longrightarrow> resuming_ok st' wr"
  by (cases wr) (auto simp: grows_def over_half_def)

lemma writers_ok_put:
  assumes ok: "writers_ok s" and p: "p < length (outs s)" and g: "grows (outs s ! p) st"
  shows "writers_ok (put_out p st s)"
proof -
  have nth: "outs (put_out p st s) ! q = (if q = p then st else outs s ! q)"
    and len: "length (outs (put_out p st s)) = length (outs s)" for q
    using p by (simp_all add: put_out_def nth_list_update)
  have same: "disposed (put_out p st s) = disposed s" "continuations (put_out p st s) = continuations s"
    "outbound (put_out p st s) = outbound s" "maxInFlightBytes (put_out p st s) = maxInFlightBytes s"
    "maxBufferedPerStream (put_out p st s) = maxBufferedPerStream s" by (simp_all add: put_out_def)
  have sub: "set (drainWaiters st) \<subseteq> set (drainWaiters (outs s ! p))"
    and mx: "maxBufferedBytes st = maxBufferedBytes (outs s ! p)" using g by (simp_all add: grows_def)
  show ?thesis
    unfolding writers_ok_def nth len same in_resume_filter
    using ok p sub mx waiting_grows [OF _ g] resuming_grows [OF _ g]
    unfolding writers_ok_def in_resume_filter by (auto split: if_splits)
qed

lemma writers_ok_outbound:
  "writers_ok s \<Longrightarrow> set m \<subseteq> set (outbound s) \<Longrightarrow> writers_ok (s\<lparr>outbound := m\<rparr>)"
  unfolding writers_ok_def in_resume_filter by (auto dest: image_mono [of _ _ snd])

lemma set_jm_delete_subset: "set (jm_delete k m) \<subseteq> set m"
  by (auto simp: jm_delete_def)

lemma no_waiters:
  assumes "writers_ok s" and "p < length (outs s)" and "\<not> over_half (outs s ! p)"
  shows "drainWaiters (outs s ! p) = []"
proof -
  have "\<not> waiting_ok (disposed s) (outs s ! p) wr" for wr using assms(3) by (cases wr) simp_all
  with assms(1,2) have "\<And>wr. wr \<notin> set (drainWaiters (outs s ! p))" unfolding writers_ok_def by blast
  then show ?thesis by (cases "drainWaiters (outs s ! p)") auto
qed

lemma wake_none: "drainWaiters (outs s ! p) = [] \<Longrightarrow> wake_writers p s = put_out p (outs s ! p) s"
proof -
  assume none: "drainWaiters (outs s ! p) = []"
  then have same: "(outs s ! p)\<lparr>drainWaiters := []\<rparr> = outs s ! p" by (cases "outs s ! p") simp
  show ?thesis unfolding wake_writers_def Let_def none same by (simp add: put_out_def)
qed

text \<open>What the other operations read of a session after \<open>pumpOutbound\<close>.\<close>

definition same_writes :: "session \<Rightarrow> session \<Rightarrow> bool" where
  "same_writes s t \<longleftrightarrow> written t = written s \<and> writes t = writes s \<and> length (outs t) = length (outs s)
     \<and> disposed t = disposed s \<and> maxInFlightBytes t = maxInFlightBytes s
     \<and> maxBufferedPerStream t = maxBufferedPerStream s"

lemma same_writes_simps [simp]:
  "same_writes s s" "same_writes s (put_out p st t) = same_writes s t" "same_writes s (send e t) = same_writes s t"
  "same_writes s (post_all es t) = same_writes s t" "same_writes s (t\<lparr>outbound := m\<rparr>) = same_writes s t"
  "same_writes s (wake_writers p t) = same_writes s t"
  by (simp_all add: same_writes_def ses_defs Let_def)

lemma pump_same_writes [simp]: "same_writes s (pumpOutbound p t) = same_writes s t"
  by (simp add: pumpOutbound_def Let_def split: prod.split)

lemma outs_send [simp]: "outs (send e s) = outs s" "outs (post_all es s) = outs s"
  "outbound (send e s) = outbound s" "outbound (put_out p st s) = outbound s"
  by (simp_all add: ses_defs)

lemma outs_wake: "p < length (outs s) \<Longrightarrow> queuedBytes (outs (wake_writers p s) ! p) = queuedBytes (outs s ! p)
    \<and> maxBufferedBytes (outs (wake_writers p s) ! p) = maxBufferedBytes (outs s ! p)"
  by (simp add: wake_writers_def put_out_def Let_def)

lemma pump_queued:
  assumes "p < length (outs s)"
  shows "queuedBytes (outs (pumpOutbound p s) ! p) = queuedBytes (outs s ! p)"
    and "maxBufferedBytes (outs (pumpOutbound p s) ! p) = maxBufferedBytes (outs s ! p)"
  using assms outs_wake [of p "put_out p st (post_all es s)" for st es]
  by (auto simp: pumpOutbound_def Let_def put_out_def split: prod.split)

lemma pump_ok:
  assumes ok: "writers_ok s" and p: "p < length (outs s)"
  shows "writers_ok (pumpOutbound p s)"
proof -
  obtain q n out where loop: "pump_loop (streamId (outs s ! p)) (credit (outs s ! p)) (queue (outs s ! p))
      (seq (outs s ! p)) = (q, n, out)" by (metis prod_cases3)
  let ?st = "(outs s ! p)\<lparr>queue := q, seq := n\<rparr>" and ?s1 = "put_out p ((outs s ! p)\<lparr>queue := q, seq := n\<rparr>) (post_all out s)"
  have "writers_ok (post_all out s)" by (rule writers_ok_view [OF _ ok]) simp
  then have s1: "writers_ok ?s1" using p by (intro writers_ok_put) (auto simp: grows_def)
  have at_p: "outs ?s1 ! p = ?st" and len: "p < length (outs ?s1)" using p by (simp_all add: put_out_def)
  have final: "writers_ok ((send (StreamEnd i) ?s1)\<lparr>outbound := jm_delete i (outbound ?s1)\<rparr>)" for i
  proof -
    have "writers_ok (send (StreamEnd i) ?s1)" by (rule writers_ok_view [OF _ s1]) simp
    then show ?thesis by (rule writers_ok_outbound) (simp add: send_def post_all_def set_jm_delete_subset)
  qed
  have "writers_ok (wake_writers p ?s1)" if "\<not> over_half ?st"
  proof -
    have "drainWaiters (outs ?s1 ! p) = []" using no_waiters [OF s1 len] that by (simp add: at_p)
    then show ?thesis using wake_none [of ?s1 p] writers_ok_put [OF s1 len, of "outs ?s1 ! p"]
      by (simp add: grows_def)
  qed
  with s1 final [of "streamId (outs s ! p)"] show ?thesis
    unfolding pumpOutbound_def Let_def loop prod.case over_half_def not_less
    by (cases "ended ?st \<and> q = []") auto
qed

text \<open>Writes that have started, and have not resolved.\<close>

definition unresolved :: "nat set \<Rightarrow> session \<Rightarrow> bool" where
  "unresolved w s = (\<forall>x \<in> w. x < writes s \<and> (x, None) \<notin> set (written s))"

lemma unresolved_same: "unresolved w s \<Longrightarrow> same_writes s t \<Longrightarrow> unresolved w t"
  by (simp add: unresolved_def same_writes_def)

lemma unresolved_view: "unresolved w s \<Longrightarrow> out_view t = out_view s \<Longrightarrow> unresolved w t"
  by (simp add: unresolved_def out_view_def)

lemma wait_ok:
  assumes ok: "writers_ok s" and p: "p < length (outs s)" and w: "waiting_ok (disposed s) (outs s ! p) wr"
  shows "writers_ok (waitForDrain p wr s)"
proof (cases "errored (outs s ! p)")
  case True
  then show ?thesis using ok by (simp add: waitForDrain_def finish_write_def writers_ok_def)
next
  case False
  let ?st = "(outs s ! p)\<lparr>drainWaiters := drainWaiters (outs s ! p) @ [wr]\<rparr>"
  have half: "over_half ?st = over_half (outs s ! p)" by (simp add: over_half_def)
  have wok: "waiting_ok d ?st x = waiting_ok d (outs s ! p) x" "resuming_ok ?st x = resuming_ok (outs s ! p) x" for d x
    by (cases x; simp add: half)+
  have nth: "outs (put_out p ?st s) ! q = (if q = p then ?st else outs s ! q)" for q
    using p by (simp add: put_out_def nth_list_update)
  have "writers_ok (put_out p ?st s)"
    unfolding writers_ok_def in_resume_filter nth
    using ok w p unfolding writers_ok_def in_resume_filter
    by (auto simp: put_out_def wok split: if_splits)
  then show ?thesis using False by (simp add: waitForDrain_def Let_def)
qed

lemma wait_unresolved: "unresolved w s \<Longrightarrow> unresolved w (waitForDrain p wr s)"
  by (simp add: waitForDrain_def finish_write_def put_out_def unresolved_def Let_def)

lemma finish_ok: "writers_ok s \<Longrightarrow> writers_ok (finish_write w e s)"
  by (simp add: finish_write_def writers_ok_def)

lemma enqueue_ok:
  assumes ok: "writers_ok s" and p: "p < length (outs s)"
    and fits: "queuedBytes (outs s ! p) + length c \<le> maxBufferedBytes (outs s ! p)
      \<or> disposed s \<and> over_half (outs s ! p)"
  shows "writers_ok (enqueue_chunk p w c s)"
proof -
  let ?st = "(outs s ! p)\<lparr>queue := queue (outs s ! p) @ [c], queuedBytes := queuedBytes (outs s ! p) + length c\<rparr>"
  let ?s1 = "pumpOutbound p (put_out p ?st s)"
  have "writers_ok (put_out p ?st s)" using ok p by (intro writers_ok_put) (auto simp: grows_def)
  moreover have len: "p < length (outs (put_out p ?st s))" using p by (simp add: put_out_def)
  ultimately have s1: "writers_ok ?s1" by (rule pump_ok)
  have q: "queuedBytes (outs ?s1 ! p) = queuedBytes (outs s ! p) + length c"
    "maxBufferedBytes (outs ?s1 ! p) = maxBufferedBytes (outs s ! p)"
    using pump_queued [OF len] p by (simp_all add: put_out_def)
  have keep: "same_writes s ?s1" by simp
  show ?thesis
  proof (cases "queuedBytes (outs ?s1 ! p) > maxBufferedBytes (outs ?s1 ! p)")
    case True
    with fits q have "disposed s" "over_half (outs s ! p)" by auto
    then have "waiting_ok (disposed ?s1) (outs ?s1 ! p) (AfterEnqueue w)"
      using keep q by (simp add: same_writes_def over_half_def)
    moreover have "p < length (outs ?s1)" using keep p by (simp add: same_writes_def)
    ultimately have "writers_ok (waitForDrain p (AfterEnqueue w) ?s1)" by (rule wait_ok [OF s1, rotated])
    with True show ?thesis by (simp add: enqueue_chunk_def Let_def)
  next
    case False
    with finish_ok [OF s1] show ?thesis by (simp add: enqueue_chunk_def Let_def)
  qed
qed

lemma enqueue_unresolved:
  assumes "unresolved w s" and "p < length (outs s)"
    and "w' \<notin> w \<or> queuedBytes (outs s ! p) + length c > maxBufferedBytes (outs s ! p)"
  shows "unresolved w (enqueue_chunk p w' c s)"
proof -
  let ?st = "(outs s ! p)\<lparr>queue := queue (outs s ! p) @ [c], queuedBytes := queuedBytes (outs s ! p) + length c\<rparr>"
  let ?s1 = "pumpOutbound p (put_out p ?st s)"
  have s1: "unresolved w ?s1" by (rule unresolved_same [OF assms(1)]) simp
  have len: "p < length (outs (put_out p ?st s))" using assms(2) by (simp add: put_out_def)
  have q: "queuedBytes (outs ?s1 ! p) = queuedBytes (outs s ! p) + length c"
    "maxBufferedBytes (outs ?s1 ! p) = maxBufferedBytes (outs s ! p)"
    using pump_queued [OF len] assms(2) by (simp_all add: put_out_def)
  show ?thesis
    using assms(3) s1 q wait_unresolved [OF s1]
    by (auto simp: enqueue_chunk_def Let_def finish_write_def unresolved_def)
qed

section \<open>Every event keeps waiting writes waiting\<close>

definition stuck :: "nat set \<Rightarrow> session \<Rightarrow> bool" where
  "stuck w s = (writers_ok s \<and> unresolved w s)"

lemma stuck_view: "stuck w s \<Longrightarrow> out_view t = out_view s \<Longrightarrow> stuck w t"
  unfolding stuck_def by (blast intro: writers_ok_view unresolved_view)

lemma stuck_put: "stuck w s \<Longrightarrow> p < length (outs s) \<Longrightarrow> grows (outs s ! p) st \<Longrightarrow> stuck w (put_out p st s)"
  unfolding stuck_def by (auto intro: writers_ok_put elim: unresolved_same)

lemma stuck_outbound: "stuck w s \<Longrightarrow> set m \<subseteq> set (outbound s) \<Longrightarrow> stuck w (s\<lparr>outbound := m\<rparr>)"
  unfolding stuck_def by (auto intro: writers_ok_outbound elim: unresolved_same)

lemma stuck_pump: "stuck w s \<Longrightarrow> p < length (outs s) \<Longrightarrow> stuck w (pumpOutbound p s)"
  unfolding stuck_def by (auto intro: pump_ok elim: unresolved_same)

lemma stuck_write:
  assumes st: "stuck w s0" and p: "p < length (outs s0)"
  shows "stuck w (write_chunk p c s0)"
proof -
  let ?s = "s0\<lparr>writes := Suc (writes s0)\<rparr>"
  have ok: "writers_ok ?s" and un: "unresolved w ?s" and new: "writes s0 \<notin> w"
    using st by (auto simp: stuck_def writers_ok_def unresolved_def)
  have fin: "stuck w (finish_write (writes s0) e ?s)" for e
    using finish_ok [OF ok] un new by (simp add: stuck_def unresolved_def finish_write_def)
  have wait: "stuck w (waitForDrain p (BeforeEnqueue (writes s0) c) ?s)"
    if "length c \<le> maxInFlightBytes ?s" "queuedBytes (outs ?s ! p) + length c > maxBufferedBytes (outs ?s ! p)"
  proof -
    have "maxBufferedBytes (outs ?s ! p) = maxBufferedPerStream ?s" "2 * maxInFlightBytes ?s \<le> maxBufferedPerStream ?s"
      using ok p unfolding writers_ok_def by simp_all
    with that have "waiting_ok (disposed ?s) (outs ?s ! p) (BeforeEnqueue (writes s0) c)"
      by (simp add: over_half_def)
    with wait_ok [OF ok, of p] p wait_unresolved [OF un] show ?thesis by (simp add: stuck_def)
  qed
  have enq: "stuck w (enqueue_chunk p (writes s0) c ?s)"
    if "queuedBytes (outs ?s ! p) + length c \<le> maxBufferedBytes (outs ?s ! p)"
    using enqueue_ok [OF ok] enqueue_unresolved [OF un] p new that by (simp add: stuck_def)
  show ?thesis
    unfolding write_chunk_def Let_def using fin wait enq by (auto simp: not_less)
qed

lemma stuck_end:
  assumes st: "stuck w s" and p: "p < length (outs s)"
  shows "stuck w (end_stream p s)" and "stuck w (fail_stream p e s)"
proof -
  have put: "stuck w (put_out p x s)" if "grows (outs s ! p) x" for x using stuck_put [OF st p that] .
  have closed: "stuck w ((send en (put_out p x s))\<lparr>outbound := jm_delete i (outbound (put_out p x s))\<rparr>)"
    if "grows (outs s ! p) x" for x en i
    by (rule stuck_outbound [OF stuck_view [OF put [OF that]]]) (simp_all add: set_jm_delete_subset)
  have g: "grows (outs s ! p) ((outs s ! p)\<lparr>ended := True\<rparr>)" "grows (outs s ! p) ((outs s ! p)\<lparr>errored := True\<rparr>)"
    by (simp_all add: grows_def)
  show "stuck w (end_stream p s)" unfolding end_stream_def Let_def
    using st put [OF g(1)] closed [OF g(1)] by simp
  show "stuck w (fail_stream p e s)" unfolding fail_stream_def Let_def
    using st closed [OF g(2)] by simp
qed

lemma stuck_credit:
  assumes st: "stuck w s"
  shows "stuck w (on_credit i b s)"
proof (cases "jm_get (outbound s) i")
  case None
  with st show ?thesis by (simp add: on_credit_def)
next
  case (Some p)
  then have "p \<in> set (jm_values (outbound s))" by (force dest: jm_get_in_set)
  with st have p: "p < length (outs s)" unfolding stuck_def writers_ok_def by blast
  let ?st = "(outs s ! p)\<lparr>credit := jnum_add (credit (outs s ! p)) b\<rparr>"
  have "stuck w (put_out p ?st s)" using stuck_put [OF st p] by (simp add: grows_def)
  from stuck_pump [OF this, of p] p Some show ?thesis by (simp add: on_credit_def Let_def put_out_def)
qed

text \<open>The parser has no case for a stream cancellation.\<close>

lemma parse_parts:
  "parse_request v \<noteq> Some (StreamCancel i)" "parse_response v \<noteq> Some (StreamCancel i)"
  "parse_emit v \<noteq> Some (StreamCancel i)" "parse_open v \<noteq> Some (StreamCancel i)"
  "parse_credit v \<noteq> Some (StreamCancel i)" "parse_chunk v \<noteq> Some (StreamCancel i)"
  by (simp_all add: parse_request_def parse_response_def parse_emit_def parse_open_def parse_credit_def
    parse_chunk_def split: option.split wire.split)

lemma parse_no_cancel: "parseEnvelope raw \<noteq> Some (StreamCancel i)"
  unfolding parseEnvelope_def by (simp add: parse_parts split: option.split)

lemma stuck_message:
  assumes st: "stuck w s"
  shows "stuck w (onMessage now raw s)"
proof (cases "disposed s \<or> parseEnvelope raw = None")
  case True
  with st show ?thesis by (auto simp: onMessage_def)
next
  case False
  then obtain e where e: "parseEnvelope raw = Some e" and d: "\<not> disposed s" by auto
  with parse_no_cancel [of raw] have no: "\<not> is_cancel e" by (cases e) auto
  show ?thesis
    unfolding onMessage_def e option.case if_not_P [OF d] using no
    by (cases e) (simp_all add: st stuck_credit stuck_view [OF st])
qed

lemma stuck_open:
  assumes st: "stuck w s"
  shows "stuck w (fst (openOutboundStream meta s))"
proof (cases "disposed s")
  case True
  with st show ?thesis by (simp add: openOutboundStream_def)
next
  case False
  let ?x = "\<lparr>streamId = fresh_id ''str'' s, credit = Num 0, queue = [], queuedBytes = 0, seq = 0, ended = False,
     errored = False, drainWaiters = [], maxBufferedBytes = maxBufferedPerStream s\<rparr>"
  let ?t = "s\<lparr>sequence := Suc (sequence s), outs := outs s @ [?x],
     outbound := jm_set (fresh_id ''str'' s) (length (outs s)) (outbound s)\<rparr>"
  have "writers_ok ?t"
    using st False unfolding stuck_def writers_ok_def in_resume_filter
    by (auto simp: nth_append less_Suc_eq dest!: in_set_jm_setD)
  then have "stuck w ?t" using st by (simp add: stuck_def unresolved_def)
  from stuck_view [OF this] False show ?thesis by (simp add: openOutboundStream_def nextId_def Let_def)
qed

text \<open>A disposal wakes the waiting writes, which then have to wait again.\<close>

definition all_resumable :: "session \<Rightarrow> bool" where
  "all_resumable s = (\<forall>q < length (outs s). \<forall>wr \<in> set (drainWaiters (outs s ! q)). resuming_ok (outs s ! q) wr)"

lemma resuming_no_waiters: "resuming_ok (st\<lparr>drainWaiters := ws\<rparr>) wr = resuming_ok st wr"
  by (cases wr) (simp_all add: over_half_def)

lemma stuck_wake:
  assumes st: "stuck w s" and d: "disposed s" and p: "p < length (outs s)" and all: "all_resumable s"
  shows "stuck w (wake_writers p s)" and "all_resumable (wake_writers p s)"
    and "disposed (wake_writers p s)" and "length (outs (wake_writers p s)) = length (outs s)"
proof -
  let ?st = "(outs s ! p)\<lparr>drainWaiters := []\<rparr>"
  have put: "stuck w (put_out p ?st s)" using stuck_put [OF st p] by (simp add: grows_def)
  have nth: "outs (put_out p ?st s) ! q = (if q = p then ?st else outs s ! q)" for q
    using p by (simp add: put_out_def nth_list_update)
  let ?t = "(put_out p ?st s)\<lparr>continuations := continuations s @ map (ResumeWrite p) (drainWaiters (outs s ! p))\<rparr>"
  have conts: "continuations (put_out p ?st s) = continuations s" "disposed (put_out p ?st s)"
    "length (outs (put_out p ?st s)) = length (outs s)" using d by (simp_all add: put_out_def)
  have new: "resuming_ok (outs (put_out p ?st s) ! p) wr" if "wr \<in> set (drainWaiters (outs s ! p))" for wr
    using all p that unfolding all_resumable_def nth by (simp add: resuming_no_waiters)
  have "writers_ok ?t"
    using put new conts p unfolding stuck_def writers_ok_def in_resume_filter by auto
  then show "stuck w (wake_writers p s)"
    using put by (simp add: wake_writers_def Let_def stuck_def unresolved_def)
  show "all_resumable (wake_writers p s)"
    using all nth conts(3) unfolding wake_writers_def Let_def all_resumable_def
    by (auto simp: resuming_no_waiters)
  show "disposed (wake_writers p s)" "length (outs (wake_writers p s)) = length (outs s)"
    using d by (simp_all add: wake_writers_def put_out_def Let_def)
qed

lemma stuck_wake_all:
  "stuck w s \<Longrightarrow> disposed s \<Longrightarrow> all_resumable s \<Longrightarrow> \<forall>p \<in> set ps. p < length (outs s)
    \<Longrightarrow> stuck w (fold wake_writers ps s)"
  by (induction ps arbitrary: s) (auto simp: stuck_wake)

lemma fold_out_view: "(\<And>x s. out_view (f x s) = out_view s) \<Longrightarrow> out_view (fold f xs s) = out_view s"
  by (induction xs arbitrary: s) auto

lemma wake_outbound: "wake_writers p (s\<lparr>outbound := m\<rparr>) = (wake_writers p s)\<lparr>outbound := m\<rparr>"
  by (simp add: wake_writers_def put_out_def Let_def)

lemma fold_wake_outbound: "fold wake_writers ps (s\<lparr>outbound := m\<rparr>) = (fold wake_writers ps s)\<lparr>outbound := m\<rparr>"
  by (induction ps arbitrary: s) (simp_all add: wake_outbound)

lemma stuck_dispose:
  assumes st: "stuck w s"
  shows "stuck w (dispose s)"
proof (cases "disposed s")
  case True
  with st show ?thesis by (simp add: dispose_def)
next
  case False
  define s1 where "s1 = s\<lparr>disposed := True,
    settled := settled s @ map (\<lambda>i. (i, Inl (plain_error ''OPERATION_ABORTED''))) (jm_keys (pending s)),
    pending := []\<rparr>"
  define s2 where "s2 = (fold abort_served (jm_values (remote s1)) s1)\<lparr>remote := []\<rparr>"
  define s3 where "s3 = fold (\<lambda>p. failInbound p (plain_error ''OPERATION_ABORTED'')) (jm_values (inbound s2)) s2"
  define s4 where "s4 = fold wake_writers (jm_values (outbound s3)) (s3\<lparr>outbound := []\<rparr>)"
  have eq: "dispose s = s4\<lparr>portOpen := False\<rparr>"
    using False by (simp add: s4_def dispose_def Let_def fold_wake_outbound s3_def s2_def s1_def)
  have "out_view s3 = out_view s1" by (simp add: s3_def s2_def fold_out_view)
  then have view: "outs s3 = outs s" "outbound s3 = outbound s" "disposed s3"
      "out_view (s3\<lparr>outbound := []\<rparr>) = out_view (s\<lparr>disposed := True, outbound := []\<rparr>)"
    by (auto simp: out_view_def s1_def)
  have weaker: "waiting_ok False st' wr \<Longrightarrow> resuming_ok st' wr \<and> waiting_ok True st' wr" for st' wr
    by (cases wr) simp_all
  have "writers_ok (s\<lparr>disposed := True, outbound := []\<rparr>)"
    using st False weaker unfolding stuck_def writers_ok_def in_resume_filter by auto
  then have "stuck w (s\<lparr>disposed := True, outbound := []\<rparr>)"
    using st by (simp add: stuck_def unresolved_def)
  from stuck_view [OF this view(4)] have "stuck w (s3\<lparr>outbound := []\<rparr>)" .
  moreover have "all_resumable (s3\<lparr>outbound := []\<rparr>)"
    using st False weaker unfolding stuck_def writers_ok_def all_resumable_def by (simp add: view(1))
  moreover have "\<forall>p \<in> set (jm_values (outbound s3)). p < length (outs (s3\<lparr>outbound := []\<rparr>))"
    using st unfolding stuck_def writers_ok_def view(1,2) by (simp add: view(1))
  ultimately have "stuck w s4" unfolding s4_def by (intro stuck_wake_all) (simp_all add: view(3))
  then show ?thesis unfolding eq by (rule stuck_view) simp
qed

lemma stuck_continue:
  assumes st: "stuck w s"
  shows "stuck w (session_step Continue s)"
proof (cases "continuations s")
  case Nil
  with st show ?thesis by simp
next
  case (Cons k cs)
  let ?s = "s\<lparr>continuations := cs\<rparr>"
  have ok: "writers_ok ?s" and un: "unresolved w ?s"
    using st Cons unfolding stuck_def writers_ok_def in_resume_filter by (auto simp: unresolved_def)
  then have s: "stuck w ?s" by (simp add: stuck_def)
  show ?thesis
  proof (cases k)
    case (ResumePull p i v)
    with Cons stuck_view [OF s] show ?thesis by simp
  next
    case (ResumeWrite p wr)
    with Cons st have p: "p < length (outs ?s)" and d: "disposed ?s" and r: "resuming_ok (outs ?s ! p) wr"
      unfolding stuck_def writers_ok_def in_resume_filter by auto
    then obtain w' c where wr: "wr = BeforeEnqueue w' c" by (cases wr) auto
    have "writers_ok (enqueue_chunk p w' c ?s)" "unresolved w (enqueue_chunk p w' c ?s)"
      using r d wr by (auto intro!: enqueue_ok [OF ok p] enqueue_unresolved [OF un p])
    with Cons ResumeWrite wr show ?thesis by (simp add: resume_write_def stuck_def)
  qed
qed

lemma stuck_step:
  assumes st: "stuck w s"
  shows "stuck w (session_step e s)"
proof (cases e)
  case Continue
  with st show ?thesis by (simp only: stuck_continue)
qed (use st in \<open>simp_all add: stuck_write stuck_end stuck_message stuck_open stuck_dispose
    stuck_view [OF st] handle_def unhandle_def notifyCapabilityRevoked_def\<close>)

interpretation stuck_system: event_system session_step "stuck w" for w
  by unfold_locales (rule stuck_step)

lemma writers_ok_new: "2 * a \<le> b \<Longrightarrow> writers_ok (new_session r i a b c)"
  by (simp add: writers_ok_def new_session_def)

section \<open>Properties of the sender\<close>

text \<open>C25: a write resolves at once or never: with the default limits (a window of at most half the
  buffer), once a write has had to wait for the buffer to drain, no event whatsoever resolves it, not
  the peer's credit, its error or cancellation, nor the disposal of the session.\<close>

theorem waiting_write_never_resolves:
  assumes "2 * inFlight \<le> buf"
    and "w < writes (run_events session_step es (new_session r i inFlight buf tot))"
    and "(w, None) \<notin> set (written (run_events session_step es (new_session r i inFlight buf tot)))"
  shows "(w, None) \<notin> set (written (run_events session_step (es @ fs) (new_session r i inFlight buf tot)))"
proof -
  let ?s = "run_events session_step es (new_session r i inFlight buf tot)"
  have "stuck {} (new_session r i inFlight buf tot)"
    using writers_ok_new [OF assms(1)] by (simp add: stuck_def unresolved_def)
  from stuck_system.inv_run [OF this] have "stuck {} ?s" .
  with assms(2,3) have "stuck {w} ?s" by (simp add: stuck_def unresolved_def)
  from stuck_system.inv_run [OF this, of fs] show ?thesis by (simp add: stuck_def unresolved_def)
qed

definition fill_up :: "session_event list" where
  "fill_up = [OpenStream WNull, Write 0 [1, 2], Write 0 [3, 4], Write 0 [5]]"

theorem waiting_write_never_resolves_witness:
  "(2, None) \<notin> set (written (run_events session_step
     (fill_up @ [Incoming 0 (envelope_wire (StreamCredit ''p:str:1'' (jint 100))), Dispose, Continue, Continue])
     (new_session ''p'' ''i'' 2 4 64)))"
proof (rule waiting_write_never_resolves)
  show "2 < writes (run_events session_step fill_up (new_session ''p'' ''i'' 2 4 64))" by code_simp
  have "written (run_events session_step fill_up (new_session ''p'' ''i'' 2 4 64)) = [(0, None), (1, None)]"
    by code_simp
  then show "(2, None) \<notin> set (written (run_events session_step fill_up (new_session ''p'' ''i'' 2 4 64)))"
    by simp
qed simp

section \<open>A write that fits\<close>


text \<open>A sender that is open, has nothing queued and has been granted \<open>cr\<close>.\<close>

definition flowing :: "string \<Rightarrow> jnum \<Rightarrow> nat \<Rightarrow> nat \<Rightarrow> session \<Rightarrow> bool" where
  "flowing i cr n b s \<longleftrightarrow> \<not> disposed s \<and> portOpen s \<and> outs s = [\<lparr>streamId = i, credit = cr, queue = [], queuedBytes = b, seq = n,
     ended = False, errored = False, drainWaiters = [], maxBufferedBytes = maxBufferedPerStream s\<rparr>]"

lemma flowing_write:
  assumes "flowing i cr n b s" and "jnum_less (Num 0) cr" and "\<not> jnum_less cr (jint (int (length c)))"
    and "length c \<le> maxInFlightBytes s" and "b + length c \<le> maxBufferedPerStream s"
  shows "flowing i cr (Suc n) (b + length c) (session_step (Write 0 c) s)"
    and "posted (session_step (Write 0 c) s) = posted s @ [StreamChunk i (jint (int n)) c]"
    and "maxInFlightBytes (session_step (Write 0 c) s) = maxInFlightBytes s"
    and "maxBufferedPerStream (session_step (Write 0 c) s) = maxBufferedPerStream s"
  using assms
  by (simp_all add: flowing_def write_chunk_def enqueue_chunk_def pumpOutbound_def put_out_def post_all_def
    wake_writers_def finish_write_def Let_def)

text \<open>The envelopes of consecutive chunks.\<close>

fun chunks_from :: "string \<Rightarrow> nat \<Rightarrow> bytes list \<Rightarrow> envelope list" where
  "chunks_from i n [] = []"
| "chunks_from i n (c # cs) = StreamChunk i (jint (int n)) c # chunks_from i (Suc n) cs"

lemma length_chunks_from [simp]: "length (chunks_from i n cs) = length cs"
  by (induction cs arbitrary: n) auto

lemma flowing_writes:
  assumes "flowing i cr n b s" and "jnum_less (Num 0) cr"
    and "\<forall>c \<in> set cs. \<not> jnum_less cr (jint (int (length c))) \<and> length c \<le> maxInFlightBytes s"
    and "b + sum_list (map length cs) \<le> maxBufferedPerStream s"
  shows "flowing i cr (n + length cs) (b + sum_list (map length cs)) (run_events session_step (map (Write 0) cs) s)
    \<and> posted (run_events session_step (map (Write 0) cs) s) = posted s @ chunks_from i n cs"
  using assms
proof (induction cs arbitrary: n b s)
  case Nil
  then show ?case by simp
next
  case (Cons c cs)
  let ?s = "session_step (Write 0 c) s"
  have c: "\<not> jnum_less cr (jint (int (length c)))" "length c \<le> maxInFlightBytes s"
    "b + length c \<le> maxBufferedPerStream s" using Cons.prems(3,4) by auto
  note w = flowing_write [OF Cons.prems(1,2) c]
  have "flowing i cr (Suc n + length cs) (b + length c + sum_list (map length cs))
        (run_events session_step (map (Write 0) cs) ?s)
    \<and> posted (run_events session_step (map (Write 0) cs) ?s) = posted ?s @ chunks_from i (Suc n) cs"
    using Cons.prems(2-4) w(1,3,4) by (intro Cons.IH) auto
  then show ?case using w(2) by (simp add: add.assoc)
qed

definition start_stream :: "jnum \<Rightarrow> wire \<Rightarrow> session_event list" where
  "start_stream cr meta = [OpenStream meta, Incoming 0 (envelope_wire (StreamCredit ''p:str:1'' cr))]"

lemma one_digit: "digits_of_nat (Suc 0) = ''1''"
  by code_simp

lemma jint_simps [simp]: "jnum_less (Num 0) (jint k) = (0 < k)" "jnum_less (jint k) (jint l) = (k < l)"
  "jnum_add (Num 0) (jint k) = jint k"
  by (simp_all add: jint_def)

lemma started:
  assumes "0 < k"
    and s: "s = run_events session_step (start_stream (jint k) meta) (new_session ''p'' i a b c)"
  shows "flowing ''p:str:1'' (jint k) 0 0 s" and "posted s = [StreamOpen ''p:str:1'' ''plugin-to-host'' meta]"
    and "maxInFlightBytes s = a" and "maxBufferedPerStream s = b" and "outbound s = [(''p:str:1'', 0)]"
  unfolding s using assms(1) parse_posted [of "StreamCredit ''p:str:1'' (jint k)"]
  by (simp_all add: flowing_def start_stream_def new_session_def openOutboundStream_def nextId_def fresh_id_def
    one_digit send_def onMessage_def on_credit_def pumpOutbound_def put_out_def post_all_def wake_writers_def Let_def)

text \<open>Credit is never spent: with a single byte granted the sender posts as many one-byte chunks as
  its buffer limit has bytes, without waiting for the consumer to grant more.\<close>

theorem credit_never_spent:
  assumes "n \<le> buf" and "1 \<le> inFlight"
  shows "posted (run_events session_step (start_stream (jint 1) meta @ replicate n (Write 0 [x]))
      (new_session ''p'' i inFlight buf tot))
    = StreamOpen ''p:str:1'' ''plugin-to-host'' meta # chunks_from ''p:str:1'' 0 (replicate n [x])"
proof -
  have one: "(0 :: int) < 1" by simp
  note s = started [OF one refl, of meta i inFlight buf tot]
  have "replicate n (Write 0 [x]) = map (Write 0) (replicate n [x])" by simp
  then show ?thesis
    using flowing_writes [OF s(1), of "replicate n [x]"] assms s(2-4)
    by (simp add: sum_list_replicate)
qed

theorem credit_never_spent_witness:
  "length (posted (run_events session_step (start_stream (jint 1) WNull @ replicate 50 (Write 0 [7]))
      (new_session ''p'' ''i'' 4 64 64))) = 51"
  by (subst credit_never_spent) simp_all

section \<open>What the receiver delivers\<close>

text \<open>A receiver with one stream that nobody waits on.\<close>

definition receiving :: "string \<Rightarrow> bytes list \<Rightarrow> nat \<Rightarrow> nat \<Rightarrow> session \<Rightarrow> bool" where
  "receiving i q n b s \<longleftrightarrow> \<not> disposed s \<and> inbound s = [(i, 0)] \<and> pulled s = [] \<and> continuations s = []
     \<and> (\<exists>g. ins s = [\<lparr>inStreamId = i, grantedNotReceived = g, buffered = q, bufferedBytes = sum_list (map length q),
          nextSeq = n, inEnded = False, inError = None, pullWaiters = [], totalReceived = b,
          maxTotalBytes = maxTotal s\<rparr>])"

lemma receiving_chunk:
  assumes "receiving i q n b s" and "b + length c \<le> maxTotal s"
  shows "receiving i (q @ [c]) (Suc n) (b + length c)
      (session_step (Incoming 0 (envelope_wire (StreamChunk i (jint (int n)) c))) s)"
    and "maxTotal (session_step (Incoming 0 (envelope_wire (StreamChunk i (jint (int n)) c))) s) = maxTotal s"
proof -
  let ?e = "StreamChunk i (jint (int n)) c"
  obtain g where g: "ins s = [\<lparr>inStreamId = i, grantedNotReceived = g, buffered = q, bufferedBytes = sum_list (map length q),
          nextSeq = n, inEnded = False, inError = None, pullWaiters = [], totalReceived = b,
          maxTotalBytes = maxTotal s\<rparr>]"
    and up: "\<not> disposed s" "inbound s = [(i, 0)]" "pulled s = []" "continuations s = []"
    using assms(1) unfolding receiving_def by blast
  have "session_step (Incoming 0 (envelope_wire ?e)) s = on_chunk i (jint (int n)) c s"
    using up(1) parse_posted [of ?e] by (simp add: onMessage_def del: envelope_wire.simps)
  moreover have "receiving i (q @ [c]) (Suc n) (b + length c) (on_chunk i (jint (int n)) c s)"
    "maxTotal (on_chunk i (jint (int n)) c s) = maxTotal s"
    using g up assms(2) by (simp_all add: receiving_def on_chunk_def put_in_def Let_def)
  ultimately show "receiving i (q @ [c]) (Suc n) (b + length c) (session_step (Incoming 0 (envelope_wire ?e)) s)"
    "maxTotal (session_step (Incoming 0 (envelope_wire ?e)) s) = maxTotal s" by simp_all
qed

definition deliver :: "envelope list \<Rightarrow> session_event list" where
  "deliver es = map (\<lambda>e. Incoming 0 (envelope_wire e)) es"

lemma receiving_chunks:
  assumes "receiving i q n b s" and "b + sum_list (map length cs) \<le> maxTotal s"
  shows "receiving i (q @ cs) (n + length cs) (b + sum_list (map length cs))
    (run_events session_step (deliver (chunks_from i n cs)) s)"
  using assms
proof (induction cs arbitrary: q n b s)
  case Nil
  then show ?case by (simp add: deliver_def)
next
  case (Cons c cs)
  let ?s = "session_step (Incoming 0 (envelope_wire (StreamChunk i (jint (int n)) c))) s"
  have "b + length c \<le> maxTotal s" using Cons.prems(2) by simp
  note c = receiving_chunk [OF Cons.prems(1) this]
  have "receiving i ((q @ [c]) @ cs) (Suc n + length cs) (b + length c + sum_list (map length cs))
      (run_events session_step (deliver (chunks_from i (Suc n) cs)) ?s)"
    using Cons.prems(2) c by (intro Cons.IH) simp_all
  then show ?case by (simp add: deliver_def add.assoc del: session_step.simps)
qed

text \<open>A stream that has ended and still holds \<open>q\<close>.\<close>

definition draining :: "bytes list \<Rightarrow> session \<Rightarrow> bool" where
  "draining q s \<longleftrightarrow> inbound s = [] \<and> length (ins s) = 1 \<and> buffered (ins s ! 0) = q
     \<and> inEnded (ins s ! 0) \<and> inError (ins s ! 0) = None"

lemma draining_pull:
  "draining (c # q) s \<Longrightarrow> draining q (session_step (Pull 0) s)
    \<and> map (snd \<circ> snd) (pulled (session_step (Pull 0) s)) = map (snd \<circ> snd) (pulled s) @ [PullChunk c]"
  by (simp add: draining_def pull_def put_in_def finish_pull_def replenishCredit_def Let_def)

lemma draining_pulls:
  "draining q s \<Longrightarrow> map (snd \<circ> snd) (pulled (run_events session_step (replicate (Suc (length q)) (Pull 0)) s))
    = map (snd \<circ> snd) (pulled s) @ map PullChunk q @ [PullEnd]"
proof (induction q arbitrary: s)
  case Nil
  then show ?case by (simp add: draining_def pull_def finish_pull_def Let_def)
next
  case (Cons c q)
  note p = draining_pull [OF Cons.prems]
  then have "map (snd \<circ> snd) (pulled (run_events session_step (replicate (Suc (length q)) (Pull 0)) (session_step (Pull 0) s)))
    = map (snd \<circ> snd) (pulled (session_step (Pull 0) s)) @ map PullChunk q @ [PullEnd]"
    by (intro Cons.IH) blast
  with p have "map (snd \<circ> snd) (pulled (run_events session_step (replicate (Suc (length q)) (Pull 0)) (session_step (Pull 0) s)))
    = map (snd \<circ> snd) (pulled s) @ PullChunk c # map PullChunk q @ [PullEnd]" by (simp only: append.assoc append.simps)
  then show ?case by (simp only: replicate.simps run_events_Cons list.size list.map append.simps add_0_right add_Suc_right)
qed

text \<open>C11: a stream arrives as it was written: the chunks written on one side, within the limits, and
  the end of the stream, delivered in the order they were posted, are what the other side pulls,
  each once, in order, followed by the end.\<close>

theorem stream_roundtrip:
  assumes "0 < inFlight" and "\<forall>c \<in> set cs. length c \<le> inFlight"
    and "sum_list (map length cs) \<le> buf" and "sum_list (map length cs) \<le> tot" and "is_wobject meta"
  shows "let sender = run_events session_step
        (start_stream (jint (int inFlight)) meta @ map (Write 0) cs @ [EndWriting 0])
        (new_session ''p'' i inFlight buf tot);
      receiver = run_events session_step (deliver (posted sender) @ replicate (Suc (length cs)) (Pull 0))
        (new_session ''h'' i inFlight buf tot)
    in map (snd \<circ> snd) (pulled receiver) = map PullChunk cs @ [PullEnd]"
proof -
  let ?id = "''p:str:1''" and ?cr = "jint (int inFlight)"
  let ?s = "run_events session_step (start_stream ?cr meta) (new_session ''p'' i inFlight buf tot)"
  let ?w = "run_events session_step (map (Write 0) cs) ?s"
  have pos: "0 < int inFlight" using assms(1) by simp
  note s = started [OF pos refl, of meta i inFlight buf tot]
  have "\<forall>c \<in> set cs. \<not> jnum_less ?cr (jint (int (length c))) \<and> length c \<le> maxInFlightBytes ?s"
    using assms(2) s(3) by (auto simp: not_less)
  then have w: "flowing ?id ?cr (0 + length cs) (0 + sum_list (map length cs)) ?w"
    "posted ?w = posted ?s @ chunks_from ?id 0 cs"
    using flowing_writes [OF s(1), of cs] assms(1,3) s(4) by auto
  have sent: "posted (session_step (EndWriting 0) ?w)
      = StreamOpen ?id ''plugin-to-host'' meta # chunks_from ?id 0 cs @ [StreamEnd ?id]"
    using w s(2) by (simp add: flowing_def end_stream_def put_out_def send_def post_all_def Let_def)
  let ?h = "new_session ''h'' i inFlight buf tot"
  let ?r = "session_step (Incoming 0 (envelope_wire (StreamOpen ?id ''plugin-to-host'' meta))) ?h"
  have r: "receiving ?id [] 0 0 ?r" "maxTotal ?r = tot"
    using parse_posted [of "StreamOpen ?id ''plugin-to-host'' meta"] assms(5)
    by (simp_all add: receiving_def new_session_def onMessage_def on_open_def send_def post_all_def notify_def Let_def)
  let ?r1 = "run_events session_step (deliver (chunks_from ?id 0 cs)) ?r"
  have "receiving ?id ([] @ cs) (0 + length cs) (0 + sum_list (map length cs)) ?r1"
    by (rule receiving_chunks [OF r(1)]) (simp only: r(2) add_0 assms(4))
  then have d: "draining cs (session_step (Incoming 0 (envelope_wire (StreamEnd ?id))) ?r1)"
    "pulled (session_step (Incoming 0 (envelope_wire (StreamEnd ?id))) ?r1) = []"
    using parse_posted [of "StreamEnd ?id"]
    by (auto simp: receiving_def draining_def onMessage_def on_end_def put_in_def resume_pulls_def Let_def jm_delete_def)
  have script: "run_events session_step (start_stream ?cr meta @ map (Write 0) cs @ [EndWriting 0])
      (new_session ''p'' i inFlight buf tot) = session_step (EndWriting 0) ?w"
    by (simp del: session_step.simps)
  show ?thesis
    unfolding Let_def script sent
    using draining_pulls [OF d(1)] d(2) by (simp add: deliver_def del: session_step.simps replicate.simps)
qed

theorem stream_roundtrip_witness:
  "let sender = run_events session_step
        (start_stream (jint (int 2)) (WObject []) @ map (Write 0) [[1], [2, 3]] @ [EndWriting 0])
        (new_session ''p'' ''i'' 2 4 64);
      receiver = run_events session_step (deliver (posted sender) @ replicate (Suc (length [[1], [2 :: 8 word, 3]])) (Pull 0))
        (new_session ''h'' ''i'' 2 4 64)
    in map (snd \<circ> snd) (pulled receiver) = map PullChunk [[1], [2, 3]] @ [PullEnd]"
  by (rule stream_roundtrip) simp_all

end
