(* ===== verification/Broker_Core.thy ===== *)
theory Broker_Core
  imports Kernel_Wire "HOL-Library.Multiset"
begin

text \<open>
  The capability broker inside the plugin runtime
  (\<open>apps/plugin-runtime/src/broker/capabilityBroker.ts\<close>) and the gateway between a worker's bridge and
  the broker (\<open>brokerGateway.ts\<close>).

  A call is an object of a store: its abort controller, its deadline timer and its promise outlive the
  entry of the in-flight map, which names the call by its place. The policy is the environment: what
  \<open>authorize\<close> answers comes with the submission, and the promise of \<open>execute\<close> settles by an event of
  its own. \<open>WBuffer\<close> stands for a byte array here.
\<close>

named_theorems bc_defs \<open>definitions of the broker operations\<close>

section \<open>Errors and envelopes\<close>

definition BROKER_MAX_CAUSAL_CHAIN :: nat where "BROKER_MAX_CAUSAL_CHAIN = 16"
definition BROKER_MAX_DEADLINE_MS :: rat where "BROKER_MAX_DEADLINE_MS = 60000"

record broker_error =
  be_code :: string
  be_message :: string
  be_retryable :: bool
  be_details :: wire

definition BrokerCallError :: "string \<Rightarrow> string option \<Rightarrow> bool option \<Rightarrow> wire \<Rightarrow> broker_error" where
  "BrokerCallError c message r d = \<lparr>be_code = c,
     be_message = (case message of None \<Rightarrow> c | Some m \<Rightarrow> m),
     be_retryable = (case r of None \<Rightarrow> False | Some b \<Rightarrow> b), be_details = d\<rparr>"

datatype broker_thrown = BrokerThrown broker_error | ErrorThrown string | OtherThrown

definition toBrokerError :: "broker_thrown \<Rightarrow> wire" where
  "toBrokerError error = (case error of
       BrokerThrown e \<Rightarrow> WObject ([(''code'', WString (be_code e)), (''message'', WString (take 2000 (be_message e))),
         (''retryable'', WBool (be_retryable e))]
         @ (if be_details e = WUndefined then [] else [(''details'', be_details e)]))
     | ErrorThrown m \<Rightarrow> WObject [(''code'', WString (if is_error_code m then m else ''INTERNAL'')),
         (''message'', WString (take 2000 m)), (''retryable'', WBool False)]
     | OtherThrown \<Rightarrow> WObject [(''code'', WString ''INTERNAL''), (''message'', WString ''internal broker failure''),
         (''retryable'', WBool False)])"

definition text_min :: "nat \<Rightarrow> wire \<Rightarrow> bool" where
  "text_min k v = (case v of WString s \<Rightarrow> k \<le> length s | _ \<Rightarrow> False)"

fun finite_number :: "wire \<Rightarrow> bool" where
  "finite_number (WNum (Num _)) = True"
| "finite_number _ = False"

definition chain_entry :: "wire \<Rightarrow> bool" where
  "chain_entry e = (case e of WString s \<Rightarrow> s \<noteq> [] \<and> length s \<le> 160 | _ \<Rightarrow> False)"

definition assertBrokerCallShape :: "wire \<Rightarrow> bool" where
  "assertBrokerCallShape v \<longleftrightarrow> is_wobject v
     \<and> text_min 8 (wfield v ''requestId'') \<and> text_min 1 (wfield v ''method'')
     \<and> finite_number (wfield v ''deadlineAt'')
     \<and> is_wobject (wfield v ''caller'')
     \<and> text_min 1 (wfield (wfield v ''caller'') ''pluginId'')
     \<and> text_min 1 (wfield (wfield v ''caller'') ''installationId'')
     \<and> wfield (wfield v ''caller'') ''trustLevel'' \<in> set [WString ''sandbox'', WString ''extended'', WString ''trusted'']
     \<and> is_wobject (wfield v ''capability'') \<and> text_min 1 (wfield (wfield v ''capability'') ''name'')
     \<and> (case wfield v ''causalChain'' of
          WArray es \<Rightarrow> length es \<le> BROKER_MAX_CAUSAL_CHAIN \<and> list_all chain_entry es
        | _ \<Rightarrow> False)"

text \<open>What the admission of a call reads of its envelope.\<close>

record admission =
  ad_requestId :: string
  ad_pluginId :: string
  ad_capability :: string
  ad_chain :: "wire list"
  ad_deadline :: rat

fun rat_of :: "wire \<Rightarrow> rat" where
  "rat_of (WNum (Num r)) = r"
| "rat_of _ = 0"

definition call_admission :: "wire \<Rightarrow> admission" where
  "call_admission v = \<lparr>ad_requestId = text_or (wfield v ''requestId'') [],
     ad_pluginId = text_or (wfield (wfield v ''caller'') ''pluginId'') [],
     ad_capability = text_or (wfield (wfield v ''capability'') ''name'') [],
     ad_chain = (case wfield v ''causalChain'' of WArray es \<Rightarrow> es | _ \<Rightarrow> []),
     ad_deadline = rat_of (wfield v ''deadlineAt'')\<rparr>"

definition chain_details :: "admission \<Rightarrow> wire" where
  "chain_details a = WObject [(''chain'', WArray (ad_chain a @ [WString (ad_pluginId a)]))]"

section \<open>The core\<close>

datatype decision = Allowed | Denied string wire

record core_call =
  cc_requestId :: string
  cc_pluginId :: string
  cc_capability :: string
  cc_admitted :: bool
  cc_abort :: "broker_error option"
  cc_timer :: bool
  cc_outcome :: "(broker_thrown + wire) option"

record core =
  calls :: "core_call list"
  inFlight :: "(string, nat) jmap"
  revokedPairs :: "string list"
  revokedPlugins :: "string list"

definition new_core :: core where
  "new_core = \<lparr>calls = [], inFlight = [], revokedPairs = [], revokedPlugins = []\<rparr>"

definition NUL :: char where "NUL = CHR 0x00"

definition pairKey :: "string \<Rightarrow> string \<Rightarrow> string" where
  "pairKey pid name = pid @ [NUL] @ name"

definition isRevoked :: "core \<Rightarrow> string \<Rightarrow> string \<Rightarrow> bool" where
  "isRevoked s pid name \<longleftrightarrow> pid \<in> set (revokedPlugins s) \<or> pairKey pid name \<in> set (revokedPairs s)"

text \<open>\<open>controller.abort\<close>: the first reason stays.\<close>

definition abort_call :: "nat \<Rightarrow> broker_error \<Rightarrow> core \<Rightarrow> core" where
  [bc_defs]: "abort_call p e s = (let c = calls s ! p in
     s\<lparr>calls := (calls s)[p := c\<lparr>cc_abort := (case cc_abort c of None \<Rightarrow> Some e | Some e0 \<Rightarrow> Some e0)\<rparr>]\<rparr>)"

definition clear_timer :: "nat \<Rightarrow> core \<Rightarrow> core" where
  [bc_defs]: "clear_timer p s = s\<lparr>calls := (calls s)[p := (calls s ! p)\<lparr>cc_timer := False\<rparr>]\<rparr>"

definition drop_entry :: "(core_call \<Rightarrow> broker_error) \<Rightarrow> string \<times> nat \<Rightarrow> core \<Rightarrow> core" where
  [bc_defs]: "drop_entry err e s =
     (clear_timer (snd e) (abort_call (snd e) (err (calls s ! snd e)) s))\<lparr>inFlight := jm_delete (fst e) (inFlight s)\<rparr>"

definition revoked_error :: "string \<Rightarrow> string option \<Rightarrow> core_call \<Rightarrow> broker_error" where
  "revoked_error pid reason c = BrokerCallError ''CAPABILITY_REVOKED''
     (Some (case reason of None \<Rightarrow> ''capability revoked while the call was in flight'' | Some r \<Rightarrow> r)) None
     (WObject [(''pluginId'', WString pid), (''capabilityName'', WString (cc_capability c))])"

definition revoke_matches :: "string \<Rightarrow> string option \<Rightarrow> core \<Rightarrow> string \<times> nat \<Rightarrow> bool" where
  "revoke_matches pid name s e \<longleftrightarrow> cc_pluginId (calls s ! snd e) = pid
     \<and> (case name of None \<Rightarrow> True | Some n \<Rightarrow> cc_capability (calls s ! snd e) = n)"

definition abortInFlight :: "string \<Rightarrow> string option \<Rightarrow> string option \<Rightarrow> core \<Rightarrow> core \<times> nat" where
  [bc_defs]: "abortInFlight pid name reason s = (let hit = filter (revoke_matches pid name s) (inFlight s) in
     (fold (drop_entry (revoked_error pid reason)) hit s, length hit))"

definition invalidCall :: "string \<Rightarrow> broker_error" where
  "invalidCall m = BrokerCallError ''VALIDATION_FAILED'' (Some m) None WUndefined"

text \<open>The checks of \<open>submit\<close>, in their order.\<close>

definition core_refusal :: "rat \<Rightarrow> decision \<Rightarrow> wire \<Rightarrow> core \<Rightarrow> broker_error option" where
  "core_refusal now decision v s = (let a = call_admission v in
     if \<not> assertBrokerCallShape v then Some (invalidCall ''malformed broker call envelope'')
     else if ad_deadline a < now then
       Some (BrokerCallError ''OPERATION_DEADLINE'' (Some ''call deadline already passed'') None WUndefined)
     else if ad_deadline a > now + BROKER_MAX_DEADLINE_MS then
       Some (invalidCall ''call deadline exceeds the broker cap'')
     else if WString (ad_pluginId a) \<in> set (ad_chain a) then
       Some (BrokerCallError ''SERVICE_CALL_CYCLE'' (Some ''service call would close a cycle'') None (chain_details a))
     else if isRevoked s (ad_pluginId a) (ad_capability a) then
       Some (BrokerCallError ''CAPABILITY_REVOKED'' (Some ''capability revoked before the call started'') None
         (WObject [(''capabilityName'', WString (ad_capability a))]))
     else case decision of
       Denied c d \<Rightarrow> Some (BrokerCallError c None None d)
     | Allowed \<Rightarrow>
         if jm_has (inFlight s) (ad_requestId a) then Some (invalidCall ''duplicate in-flight requestId'') else None)"

definition new_call :: "admission \<Rightarrow> core_call" where
  "new_call a = \<lparr>cc_requestId = ad_requestId a, cc_pluginId = ad_pluginId a, cc_capability = ad_capability a,
     cc_admitted = False, cc_abort = None, cc_timer = False, cc_outcome = None\<rparr>"

definition reject_call :: "admission \<Rightarrow> broker_error \<Rightarrow> core \<Rightarrow> core" where
  [bc_defs]: "reject_call a e s = s\<lparr>calls := calls s @ [(new_call a)\<lparr>cc_outcome := Some (Inl (BrokerThrown e))\<rparr>]\<rparr>"

text \<open>\<open>submit\<close> up to the \<open>await\<close> of the policy: the promise of the handle is the call's outcome.\<close>

definition submit :: "rat \<Rightarrow> decision \<Rightarrow> wire \<Rightarrow> core \<Rightarrow> core" where
  [bc_defs]: "submit now decision v s = (let a = call_admission v in case core_refusal now decision v s of
       Some e \<Rightarrow> reject_call a e s
     | None \<Rightarrow> s\<lparr>calls := calls s @ [(new_call a)\<lparr>cc_admitted := True, cc_timer := True\<rparr>],
                inFlight := jm_set (ad_requestId a) (length (calls s)) (inFlight s)\<rparr>)"

text \<open>The deadline timer of a call looks its request id up again when it fires.\<close>

definition deadline_error :: broker_error where
  "deadline_error = BrokerCallError ''OPERATION_DEADLINE'' (Some ''call deadline exceeded while in flight'') None WUndefined"

definition deadline_fires :: "nat \<Rightarrow> core \<Rightarrow> core" where
  [bc_defs]: "deadline_fires p s = (let s1 = clear_timer p s; i = cc_requestId (calls s ! p)
     in case jm_get (inFlight s1) i of None \<Rightarrow> s1 | Some q \<Rightarrow> drop_entry (\<lambda>_. deadline_error) (i, q) s1)"

text \<open>The promise of \<open>policy.execute\<close> has settled: the \<open>finally\<close> block, then the promise of the handle.\<close>

definition exec_settles :: "nat \<Rightarrow> broker_thrown + wire \<Rightarrow> core \<Rightarrow> core" where
  [bc_defs]: "exec_settles p outcome s = (let c = calls s ! p in
     s\<lparr>calls := (calls s)[p := c\<lparr>cc_timer := False, cc_outcome := Some outcome\<rparr>],
       inFlight := jm_delete (cc_requestId c) (inFlight s)\<rparr>)"

text \<open>\<open>decoded\<close> is the outcome of decoding and parsing the payload, \<open>None\<close> where that throws.\<close>

definition submitOpaque :: "rat \<Rightarrow> decision \<Rightarrow> string \<Rightarrow> wire option \<Rightarrow> core \<Rightarrow> core" where
  [bc_defs]: "submitOpaque now decision requestId decoded s =
     (let refuse = (\<lambda>m. reject_call \<lparr>ad_requestId = requestId, ad_pluginId = [], ad_capability = [], ad_chain = [],
            ad_deadline = 0\<rparr> (invalidCall m) s)
      in case decoded of
           None \<Rightarrow> refuse ''malformed data-pipe call payload''
         | Some w \<Rightarrow> if w = WNull then refuse ''malformed data-pipe call payload''
             else if \<not> assertBrokerCallShape (wfield w ''call'') then refuse ''malformed data-pipe call envelope''
             else submit now decision (wfield w ''call'') s)"

definition insert_new :: "string \<Rightarrow> string list \<Rightarrow> string list" where
  "insert_new x xs = (if x \<in> set xs then xs else xs @ [x])"

definition revoke :: "string \<Rightarrow> string option \<Rightarrow> string option \<Rightarrow> core \<Rightarrow> core \<times> nat" where
  [bc_defs]: "revoke pid name reason s = abortInFlight pid name reason
     (case name of None \<Rightarrow> s\<lparr>revokedPlugins := insert_new pid (revokedPlugins s)\<rparr>
      | Some n \<Rightarrow> s\<lparr>revokedPairs := insert_new (pairKey pid n) (revokedPairs s)\<rparr>)"

definition pendingCount :: "core \<Rightarrow> nat" where
  "pendingCount s = length (inFlight s)"

definition shutdown_error :: broker_error where
  "shutdown_error = BrokerCallError ''CAPABILITY_REVOKED'' (Some ''broker shutting down'') None WUndefined"

definition shutdown :: "core \<Rightarrow> core" where
  [bc_defs]: "shutdown s = (fold (\<lambda>p s. clear_timer p (abort_call p shutdown_error s)) (jm_values (inFlight s)) s)
     \<lparr>inFlight := []\<rparr>"

definition running :: "core \<Rightarrow> nat \<Rightarrow> bool" where
  "running s p \<longleftrightarrow> p < length (calls s) \<and> cc_admitted (calls s ! p) \<and> cc_outcome (calls s ! p) = None"

datatype core_event =
  Submit rat decision wire
| SubmitOpaque rat decision string "wire option"
| ExecSettles nat "broker_thrown + wire"
| DeadlineFires nat
| Revoke string "string option" "string option"
| Shutdown

fun core_step :: "core_event \<Rightarrow> core \<Rightarrow> core" where
  "core_step (Submit now d v) s = submit now d v s"
| "core_step (SubmitOpaque now d i w) s = submitOpaque now d i w s"
| "core_step (ExecSettles p outcome) s = (if running s p then exec_settles p outcome s else s)"
| "core_step (DeadlineFires p) s = (if p < length (calls s) \<and> cc_timer (calls s ! p) then deadline_fires p s else s)"
| "core_step (Revoke pid name reason) s = fst (revoke pid name reason s)"
| "core_step Shutdown s = shutdown s"

section \<open>The in-flight map\<close>

text \<open>The map names exactly the running calls whose signal has not been aborted, each under its own
  request id and with its deadline timer set. Schedules in which no call takes the request id of one
  that still runs keep it so.\<close>

definition tracked :: "core \<Rightarrow> nat \<Rightarrow> bool" where
  "tracked s p \<longleftrightarrow> jm_get (inFlight s) (cc_requestId (calls s ! p)) = Some p"

definition live_call :: "core \<Rightarrow> nat \<Rightarrow> bool" where
  "live_call s p \<longleftrightarrow> running s p \<and> cc_abort (calls s ! p) = None"

definition map_ok :: "core \<Rightarrow> bool" where
  "map_ok s \<longleftrightarrow> jm_wf (inFlight s)
     \<and> (\<forall>r p. jm_get (inFlight s) r = Some p \<longrightarrow> live_call s p \<and> cc_requestId (calls s ! p) = r \<and> cc_timer (calls s ! p))
     \<and> (\<forall>p. live_call s p \<longrightarrow> tracked s p)
     \<and> (\<forall>p < length (calls s). cc_timer (calls s ! p) \<longrightarrow> live_call s p)"

definition unique_ids :: "core \<Rightarrow> bool" where
  "unique_ids s \<longleftrightarrow> (\<forall>p q. running s p \<longrightarrow> running s q \<longrightarrow> cc_requestId (calls s ! p) = cc_requestId (calls s ! q) \<longrightarrow> p = q)"

definition fresh_id_for :: "core \<Rightarrow> string \<Rightarrow> bool" where
  "fresh_id_for s i \<longleftrightarrow> list_all (\<lambda>p. running s p \<longrightarrow> cc_requestId (calls s ! p) \<noteq> i) [0..<length (calls s)]"

lemma drop_entry_view:
  assumes "p < length (calls s)"
  shows "inFlight (drop_entry err (r, p) s) = jm_delete r (inFlight s)"
    and "length (calls (drop_entry err (r, p) s)) = length (calls s)"
    and "cc_requestId (calls (drop_entry err (r, p) s) ! q) = cc_requestId (calls s ! q)"
    and "cc_pluginId (calls (drop_entry err (r, p) s) ! q) = cc_pluginId (calls s ! q)"
    and "cc_capability (calls (drop_entry err (r, p) s) ! q) = cc_capability (calls s ! q)"
    and "running (drop_entry err (r, p) s) q = running s q"
    and "live_call (drop_entry err (r, p) s) q \<longleftrightarrow> live_call s q \<and> q \<noteq> p"
    and "cc_timer (calls (drop_entry err (r, p) s) ! q) \<longleftrightarrow> cc_timer (calls s ! q) \<and> q \<noteq> p"
    and "isRevoked (drop_entry err (r, p) s) = isRevoked s"
  using assms
  by (auto simp: drop_entry_def clear_timer_def abort_call_def running_def live_call_def isRevoked_def fun_eq_iff
      nth_list_update Let_def split: option.splits)

lemma map_okD:
  assumes "map_ok s"
  shows "jm_wf (inFlight s)"
    and "jm_get (inFlight s) r = Some p \<Longrightarrow> live_call s p"
    and "jm_get (inFlight s) r = Some p \<Longrightarrow> cc_requestId (calls s ! p) = r"
    and "jm_get (inFlight s) r = Some p \<Longrightarrow> cc_timer (calls s ! p)"
    and "jm_get (inFlight s) r = Some p \<Longrightarrow> p < length (calls s)"
    and "live_call s p \<Longrightarrow> jm_get (inFlight s) (cc_requestId (calls s ! p)) = Some p"
    and "p < length (calls s) \<Longrightarrow> cc_timer (calls s ! p) \<Longrightarrow> live_call s p"
  using assms unfolding map_ok_def tracked_def by (auto simp: live_call_def running_def)

lemma drop_entry_ok:
  assumes "map_ok s" and "jm_get (inFlight s) r = Some p"
  shows "map_ok (drop_entry err (r, p) s)"
proof -
  note v = drop_entry_view [OF map_okD(5) [OF assms]]
  have "jm_get (inFlight s) r' \<noteq> Some p" if "r' \<noteq> r" for r'
    using map_okD(3) [OF assms(1)] assms(2) that by metis
  then show ?thesis
    unfolding map_ok_def tracked_def v
    using map_okD [OF assms(1)] assms(2) by (auto split: if_splits)
qed

text \<open>Dropping a list of distinct entries of the map.\<close>

lemma drop_entries:
  assumes "map_ok s" and "distinct (map fst es)" and "\<forall>(r, p) \<in> set es. jm_get (inFlight s) r = Some p"
  shows "map_ok (fold (drop_entry err) es s)
    \<and> (\<forall>q. live_call (fold (drop_entry err) es s) q \<longleftrightarrow> live_call s q \<and> q \<notin> snd ` set es)
    \<and> (\<forall>q. running (fold (drop_entry err) es s) q = running s q)
    \<and> (\<forall>q. cc_requestId (calls (fold (drop_entry err) es s) ! q) = cc_requestId (calls s ! q))
    \<and> (\<forall>q. cc_pluginId (calls (fold (drop_entry err) es s) ! q) = cc_pluginId (calls s ! q))
    \<and> (\<forall>q. cc_capability (calls (fold (drop_entry err) es s) ! q) = cc_capability (calls s ! q))
    \<and> length (calls (fold (drop_entry err) es s)) = length (calls s)
    \<and> isRevoked (fold (drop_entry err) es s) = isRevoked s"
  using assms
proof (induction es arbitrary: s)
  case Nil
  then show ?case by simp
next
  case (Cons e es)
  obtain r p where e: "e = (r, p)" by (cases e)
  have get: "jm_get (inFlight s) r = Some p" using Cons.prems(3) e by simp
  note v = drop_entry_view [OF map_okD(5) [OF Cons.prems(1) get]]
  have "\<forall>(r', p') \<in> set es. jm_get (inFlight (drop_entry err (r, p) s)) r' = Some p'"
    using Cons.prems(2,3) e unfolding v by force
  from Cons.IH [OF drop_entry_ok [OF Cons.prems(1) get] _ this] Cons.prems(2)
  show ?case unfolding e fold_simps by (auto simp: v)
qed

definition core_ok :: "core \<Rightarrow> bool" where
  "core_ok s \<longleftrightarrow> map_ok s \<and> unique_ids s
     \<and> (\<forall>p. live_call s p \<longrightarrow> \<not> isRevoked s (cc_pluginId (calls s ! p)) (cc_capability (calls s ! p)))
     \<and> (\<forall>p < length (calls s). NUL \<notin> set (cc_pluginId (calls s ! p)))"

lemma entries_distinct: "jm_wf m \<Longrightarrow> distinct (map fst (filter P m))"
  by (induction m) auto

lemma entries_get: "jm_wf m \<Longrightarrow> (r, p) \<in> set (filter P m) \<Longrightarrow> jm_get m r = Some p"
  by (auto intro: jm_get_SomeI)

text \<open>The key of a pair determines it, as a plugin id has no NUL.\<close>

lemma pairKey_eq:
  "NUL \<notin> set p \<Longrightarrow> NUL \<notin> set p' \<Longrightarrow> pairKey p n = pairKey p' n' \<longleftrightarrow> p = p' \<and> n = n'"
proof (induction p arbitrary: p')
  case Nil
  then show ?case by (cases p') (auto simp: pairKey_def)
next
  case (Cons c p)
  then show ?case by (cases p') (auto simp: pairKey_def)
qed

lemma abortInFlight_ok:
  assumes "map_ok s"
  shows "map_ok (fst (abortInFlight pid name reason s))
    \<and> (\<forall>q. live_call (fst (abortInFlight pid name reason s)) q \<longleftrightarrow> live_call s q
        \<and> \<not> (cc_pluginId (calls s ! q) = pid \<and> (case name of None \<Rightarrow> True | Some n \<Rightarrow> cc_capability (calls s ! q) = n)))
    \<and> (\<forall>q. running (fst (abortInFlight pid name reason s)) q = running s q)
    \<and> (\<forall>q. cc_requestId (calls (fst (abortInFlight pid name reason s)) ! q) = cc_requestId (calls s ! q))
    \<and> (\<forall>q. cc_pluginId (calls (fst (abortInFlight pid name reason s)) ! q) = cc_pluginId (calls s ! q))
    \<and> (\<forall>q. cc_capability (calls (fst (abortInFlight pid name reason s)) ! q) = cc_capability (calls s ! q))
    \<and> length (calls (fst (abortInFlight pid name reason s))) = length (calls s)
    \<and> isRevoked (fst (abortInFlight pid name reason s)) = isRevoked s"
proof -
  let ?hit = "filter (revoke_matches pid name s) (inFlight s)"
  have wf: "jm_wf (inFlight s)" using map_okD(1) [OF assms] .
  have get: "\<forall>(r, p) \<in> set ?hit. jm_get (inFlight s) r = Some p"
    using entries_get [OF wf] by blast
  have hit: "q \<in> snd ` set ?hit \<longleftrightarrow> cc_pluginId (calls s ! q) = pid
      \<and> (case name of None \<Rightarrow> True | Some n \<Rightarrow> cc_capability (calls s ! q) = n)" if "live_call s q" for q
  proof -
    have "(cc_requestId (calls s ! q), q) \<in> set (inFlight s)"
      using map_okD(6) [OF assms that] by (rule jm_get_in_set)
    then have "revoke_matches pid name s (cc_requestId (calls s ! q), q) \<Longrightarrow> q \<in> snd ` set ?hit"
      by (intro image_eqI [of _ _ "(cc_requestId (calls s ! q), q)"]) simp_all
    moreover have "q \<in> snd ` set ?hit \<Longrightarrow> revoke_matches pid name s (cc_requestId (calls s ! q), q)"
      by (auto simp: revoke_matches_def split: option.splits)
    ultimately have "q \<in> snd ` set ?hit \<longleftrightarrow> revoke_matches pid name s (cc_requestId (calls s ! q), q)"
      by (rule iffI [rotated])
    then show ?thesis unfolding revoke_matches_def snd_conv .
  qed
  show ?thesis
    using drop_entries [OF assms entries_distinct [OF wf] get, of "revoked_error pid reason"] hit
    by (auto simp: abortInFlight_def Let_def)
qed

lemma core_okD:
  assumes "core_ok s"
  shows "map_ok s" and "unique_ids s"
    and "live_call s p \<Longrightarrow> \<not> isRevoked s (cc_pluginId (calls s ! p)) (cc_capability (calls s ! p))"
    and "p < length (calls s) \<Longrightarrow> NUL \<notin> set (cc_pluginId (calls s ! p))"
  using assms unfolding core_ok_def by auto

lemma live_running: "live_call s p \<Longrightarrow> running s p"
  by (simp add: live_call_def)

lemma running_bound: "running s p \<Longrightarrow> p < length (calls s)"
  by (simp add: running_def)

lemma new_core_ok: "core_ok new_core"
  by (simp add: core_ok_def map_ok_def unique_ids_def live_call_def running_def new_core_def)

lemma reject_view:
  "length (calls (reject_call a e s)) = Suc (length (calls s))"
  "running (reject_call a e s) q = running s q"
  "live_call (reject_call a e s) q = live_call s q"
  "inFlight (reject_call a e s) = inFlight s"
  "isRevoked (reject_call a e s) = isRevoked s"
  "calls (reject_call a e s) ! length (calls s) = (new_call a)\<lparr>cc_outcome := Some (Inl (BrokerThrown e))\<rparr>"
  "q < length (calls s) \<Longrightarrow> calls (reject_call a e s) ! q = calls s ! q"
  by (auto simp: reject_call_def running_def live_call_def isRevoked_def fun_eq_iff nth_append new_call_def)

lemma reject_ok:
  assumes "core_ok s" and "NUL \<notin> set (ad_pluginId a)"
  shows "core_ok (reject_call a e s)"
proof -
  note m = map_okD [OF core_okD(1) [OF assms(1)]]
  have same: "live_call s q \<Longrightarrow> calls (reject_call a e s) ! q = calls s ! q"
    "running s q \<Longrightarrow> calls (reject_call a e s) ! q = calls s ! q" for q
    using live_running [of s q] running_bound [of s q] by (auto simp: reject_view)
  have "map_ok (reject_call a e s)"
    unfolding map_ok_def tracked_def reject_view(1-5)
    using m(1) m(2,3,4,5,6) m(7) same(1)
    by (auto simp: reject_view(6,7) less_Suc_eq new_call_def)
  moreover have "unique_ids (reject_call a e s)"
    using core_okD(2) [OF assms(1)] same(2) unfolding unique_ids_def reject_view(2) by metis
  ultimately show ?thesis
    unfolding core_ok_def reject_view(1-5)
    using core_okD(3,4) [OF assms(1)] assms(2) same(1) by (auto simp: reject_view(6,7) less_Suc_eq new_call_def)
qed

definition admit_call :: "admission \<Rightarrow> core \<Rightarrow> core" where
  "admit_call a s = s\<lparr>calls := calls s @ [(new_call a)\<lparr>cc_admitted := True, cc_timer := True\<rparr>],
     inFlight := jm_set (ad_requestId a) (length (calls s)) (inFlight s)\<rparr>"

lemma admit_view:
  "length (calls (admit_call a s)) = Suc (length (calls s))"
  "running (admit_call a s) q \<longleftrightarrow> running s q \<or> q = length (calls s)"
  "live_call (admit_call a s) q \<longleftrightarrow> live_call s q \<or> q = length (calls s)"
  "inFlight (admit_call a s) = jm_set (ad_requestId a) (length (calls s)) (inFlight s)"
  "isRevoked (admit_call a s) = isRevoked s"
  "calls (admit_call a s) ! length (calls s) = (new_call a)\<lparr>cc_admitted := True, cc_timer := True\<rparr>"
  "q < length (calls s) \<Longrightarrow> calls (admit_call a s) ! q = calls s ! q"
  by (auto simp: admit_call_def running_def live_call_def isRevoked_def fun_eq_iff nth_append new_call_def)

lemma admit_ok:
  assumes "core_ok s" and "NUL \<notin> set (ad_pluginId a)" and "fresh_id_for s (ad_requestId a)"
    and "\<not> isRevoked s (ad_pluginId a) (ad_capability a)" and "\<not> jm_has (inFlight s) (ad_requestId a)"
  shows "core_ok (admit_call a s)"
proof -
  note m = map_okD [OF core_okD(1) [OF assms(1)]]
  have same: "live_call s q \<Longrightarrow> calls (admit_call a s) ! q = calls s ! q"
    "running s q \<Longrightarrow> calls (admit_call a s) ! q = calls s ! q" for q
    using live_running [of s q] running_bound [of s q] by (auto simp: admit_view)
  have fresh: "running s q \<Longrightarrow> cc_requestId (calls s ! q) \<noteq> ad_requestId a" for q
    using assms(3) running_bound [of s q] by (auto simp: fresh_id_for_def list_all_iff)
  have none: "jm_get (inFlight s) (ad_requestId a) = None"
    using assms(5) by (simp add: jm_get_None_iff)
  have "map_ok (admit_call a s)"
    unfolding map_ok_def tracked_def admit_view(1-5)
    using m(1) m(2,3,4,5,6) m(7) same(1) none fresh live_running
    by (auto simp: admit_view(6,7) less_Suc_eq new_call_def)
  moreover have "unique_ids (admit_call a s)"
    using core_okD(2) [OF assms(1)] same(2) fresh fresh [symmetric] unfolding unique_ids_def admit_view(2)
    by (auto simp: admit_view(6) new_call_def)
  ultimately show ?thesis
    unfolding core_ok_def admit_view(1-5)
    using core_okD(3,4) [OF assms(1)] assms(2,4) same(1) by (auto simp: admit_view(6,7) less_Suc_eq new_call_def)
qed

lemma settle_ok:
  assumes "core_ok s" and "running s p"
  shows "core_ok (exec_settles p outcome s)"
    and "\<not> running (exec_settles p outcome s) p"
    and "isRevoked (exec_settles p outcome s) = isRevoked s"
proof -
  let ?t = "exec_settles p outcome s"
  have p: "p < length (calls s)" using assms(2) by (rule running_bound)
  have v: "inFlight ?t = jm_delete (cc_requestId (calls s ! p)) (inFlight s)" "length (calls ?t) = length (calls s)"
    "running ?t q \<longleftrightarrow> running s q \<and> q \<noteq> p" "live_call ?t q \<longleftrightarrow> live_call s q \<and> q \<noteq> p"
    "cc_requestId (calls ?t ! q) = cc_requestId (calls s ! q)"
    "cc_pluginId (calls ?t ! q) = cc_pluginId (calls s ! q)"
    "cc_capability (calls ?t ! q) = cc_capability (calls s ! q)"
    "cc_timer (calls ?t ! q) \<longleftrightarrow> cc_timer (calls s ! q) \<and> q \<noteq> p"
    "isRevoked ?t = isRevoked s" for q
    using p by (auto simp: exec_settles_def running_def live_call_def isRevoked_def fun_eq_iff nth_list_update Let_def)
  note m = map_okD [OF core_okD(1) [OF assms(1)]]
  have uniq: "live_call s q \<Longrightarrow> cc_requestId (calls s ! q) = cc_requestId (calls s ! p) \<Longrightarrow> q = p" for q
    using core_okD(2) [OF assms(1)] assms(2) live_running [of s q] unfolding unique_ids_def by blast
  have "jm_get (inFlight s) r' = Some p \<Longrightarrow> r' = cc_requestId (calls s ! p)" for r'
    using m(3) by metis
  then have "map_ok ?t"
    unfolding map_ok_def tracked_def v using m uniq by (auto split: if_splits)
  moreover have "unique_ids ?t" using core_okD(2) [OF assms(1)] unfolding unique_ids_def v by blast
  ultimately show "core_ok ?t"
    unfolding core_ok_def v using core_okD(3,4) [OF assms(1)] by auto
  show "\<not> running ?t p" and "isRevoked ?t = isRevoked s" by (simp_all add: v)
qed

lemma core_ok_transfer:
  assumes "core_ok s" and "map_ok t" and "length (calls t) = length (calls s)"
    and "\<And>q. running t q = running s q"
    and "\<And>q. cc_requestId (calls t ! q) = cc_requestId (calls s ! q)"
    and "\<And>q. cc_pluginId (calls t ! q) = cc_pluginId (calls s ! q)"
    and "\<And>q. live_call t q \<Longrightarrow> \<not> isRevoked t (cc_pluginId (calls t ! q)) (cc_capability (calls t ! q))"
  shows "core_ok t"
  using assms(1,2,7) unfolding core_ok_def unique_ids_def assms(3-6) by blast

lemma clear_view:
  assumes "p < length (calls s)"
  shows "inFlight (clear_timer p s) = inFlight s" "length (calls (clear_timer p s)) = length (calls s)"
    "running (clear_timer p s) = running s" "live_call (clear_timer p s) = live_call s"
    "cc_requestId (calls (clear_timer p s) ! q) = cc_requestId (calls s ! q)"
    "cc_pluginId (calls (clear_timer p s) ! q) = cc_pluginId (calls s ! q)"
    "cc_capability (calls (clear_timer p s) ! q) = cc_capability (calls s ! q)"
    "isRevoked (clear_timer p s) = isRevoked s"
  using assms by (auto simp: clear_timer_def running_def live_call_def isRevoked_def fun_eq_iff nth_list_update)

text \<open>A timer that fires belongs to the call its request id names, so clearing it first changes nothing.\<close>

lemma deadline_drops:
  assumes "map_ok s" and "p < length (calls s)" and "cc_timer (calls s ! p)"
  shows "deadline_fires p s = drop_entry (\<lambda>_. deadline_error) (cc_requestId (calls s ! p), p) s"
proof -
  have "jm_get (inFlight s) (cc_requestId (calls s ! p)) = Some p"
    using map_okD(6,7) [OF assms(1)] assms(2,3) by blast
  then show ?thesis
    using assms(2) by (simp add: deadline_fires_def clear_view drop_entry_def clear_timer_def abort_call_def Let_def)
qed

lemma deadline_ok:
  assumes "core_ok s" and "p < length (calls s)" and "cc_timer (calls s ! p)"
  shows "core_ok (deadline_fires p s)"
proof -
  note d = deadline_drops [OF core_okD(1) [OF assms(1)] assms(2,3)]
  have get: "jm_get (inFlight s) (cc_requestId (calls s ! p)) = Some p"
    using map_okD(6,7) [OF core_okD(1) [OF assms(1)]] assms(2,3) by blast
  show ?thesis
    unfolding d
    by (rule core_ok_transfer [OF assms(1) drop_entry_ok [OF core_okD(1) [OF assms(1)] get]])
      (use core_okD(3) [OF assms(1)] in \<open>simp_all add: drop_entry_view [OF assms(2)]\<close>)
qed

lemma insert_new_set [simp]: "set (insert_new x xs) = insert x (set xs)"
  by (auto simp: insert_new_def)

lemma revoke_marks:
  "isRevoked (case name of None \<Rightarrow> s\<lparr>revokedPlugins := insert_new pid (revokedPlugins s)\<rparr>
      | Some n \<Rightarrow> s\<lparr>revokedPairs := insert_new (pairKey pid n) (revokedPairs s)\<rparr>) p n
    \<longleftrightarrow> isRevoked s p n \<or> (case name of None \<Rightarrow> p = pid | Some m \<Rightarrow> pairKey p n = pairKey pid m)"
  by (auto simp: isRevoked_def split: option.splits)

lemma revoke_ok:
  assumes "core_ok s" and "NUL \<notin> set pid"
  shows "core_ok (fst (revoke pid name reason s))"
proof -
  let ?s = "case name of None \<Rightarrow> s\<lparr>revokedPlugins := insert_new pid (revokedPlugins s)\<rparr>
      | Some n \<Rightarrow> s\<lparr>revokedPairs := insert_new (pairKey pid n) (revokedPairs s)\<rparr>"
  have same: "inFlight ?s = inFlight s" "calls ?s = calls s" "running ?s = running s" "live_call ?s = live_call s"
    by (auto simp: running_def live_call_def fun_eq_iff split: option.splits)
  have "map_ok ?s" using core_okD(1) [OF assms(1)] unfolding map_ok_def tracked_def same .
  note a = abortInFlight_ok [OF this, of pid name reason]
  show ?thesis
  proof (rule core_ok_transfer [OF assms(1)])
    fix q assume q: "live_call (fst (revoke pid name reason s)) q"
    then have q': "live_call s q" "\<not> (cc_pluginId (calls s ! q) = pid
        \<and> (case name of None \<Rightarrow> True | Some n \<Rightarrow> cc_capability (calls s ! q) = n))"
      using a unfolding revoke_def same by blast+
    have "NUL \<notin> set (cc_pluginId (calls s ! q))"
      using core_okD(4) [OF assms(1)] q'(1) live_running running_bound by blast
    with q' core_okD(3) [OF assms(1) q'(1)] assms(2)
    show "\<not> isRevoked (fst (revoke pid name reason s)) (cc_pluginId (calls (fst (revoke pid name reason s)) ! q))
        (cc_capability (calls (fst (revoke pid name reason s)) ! q))"
      unfolding revoke_def using a by (auto simp: same revoke_marks pairKey_eq split: option.splits)
  qed (use a in \<open>simp_all add: revoke_def same\<close>)
qed

lemma fold_delete: "fold (\<lambda>e. jm_delete (fst e)) es m = filter (\<lambda>x. fst x \<notin> fst ` set es) m"
  by (induction es arbitrary: m) (auto simp: jm_delete_def intro!: filter_cong)

lemma fold_commutes: "(\<And>p s. g p (u s) = u (g p s)) \<Longrightarrow> fold g ps (u s) = u (fold g ps s)"
  by (induction ps arbitrary: s) simp_all

lemma fold_drop: "fold (drop_entry (\<lambda>_. e)) es s
    = (fold (\<lambda>p s. clear_timer p (abort_call p e s)) (map snd es) s)\<lparr>inFlight := fold (\<lambda>x. jm_delete (fst x)) es (inFlight s)\<rparr>"
proof (induction es arbitrary: s)
  case Nil
  then show ?case by simp
next
  case (Cons x es)
  have step: "fold (\<lambda>p s. clear_timer p (abort_call p e s)) ps (s\<lparr>inFlight := m\<rparr>)
      = (fold (\<lambda>p s. clear_timer p (abort_call p e s)) ps s)\<lparr>inFlight := m\<rparr>" for ps m and s :: core
    by (rule fold_commutes) (simp add: clear_timer_def abort_call_def Let_def)
  let ?g = "\<lambda>p s. clear_timer p (abort_call p e s)"
  have "fold (drop_entry (\<lambda>_. e)) (x # es) s = fold (drop_entry (\<lambda>_. e)) es (drop_entry (\<lambda>_. e) x s)" by simp
  also have "\<dots> = (fold ?g (map snd es) (drop_entry (\<lambda>_. e) x s))
      \<lparr>inFlight := fold (\<lambda>x. jm_delete (fst x)) es (inFlight (drop_entry (\<lambda>_. e) x s))\<rparr>" by (rule Cons.IH)
  also have "drop_entry (\<lambda>_. e) x s = (?g (snd x) s)\<lparr>inFlight := jm_delete (fst x) (inFlight s)\<rparr>"
    by (simp add: drop_entry_def)
  finally show ?case unfolding step by simp
qed

lemma shutdown_drops: "jm_wf (inFlight s) \<Longrightarrow> shutdown s = fold (drop_entry (\<lambda>_. shutdown_error)) (inFlight s) s"
  by (simp add: fold_drop fold_delete shutdown_def)

lemma shutdown_ok:
  assumes "core_ok s"
  shows "core_ok (shutdown s)" and "\<not> live_call (shutdown s) q" and "isRevoked (shutdown s) = isRevoked s"
proof -
  note m = map_okD [OF core_okD(1) [OF assms]]
  have get: "\<forall>(r, p) \<in> set (inFlight s). jm_get (inFlight s) r = Some p"
    using m(1) by (auto intro: jm_get_SomeI)
  note d = drop_entries [OF core_okD(1) [OF assms] m(1) get, of "\<lambda>_. shutdown_error"]
  have dead: "\<not> live_call (shutdown s) q" for q
  proof
    assume "live_call (shutdown s) q"
    then have q: "live_call s q" "q \<notin> snd ` set (inFlight s)" using d by (simp_all add: shutdown_drops [OF m(1)])
    from jm_get_in_set [OF m(6) [OF q(1)]] have "q \<in> snd ` set (inFlight s)" by force
    with q(2) show False by simp
  qed
  then show "\<not> live_call (shutdown s) q" .
  show "core_ok (shutdown s)"
  proof (rule core_ok_transfer [OF assms])
    show "live_call (shutdown s) q \<Longrightarrow> \<not> isRevoked (shutdown s) (cc_pluginId (calls (shutdown s) ! q))
        (cc_capability (calls (shutdown s) ! q))" for q using dead by blast
  qed (use d in \<open>simp_all add: shutdown_drops [OF m(1)]\<close>)
  show "isRevoked (shutdown s) = isRevoked s" using d by (simp add: shutdown_drops [OF m(1)])
qed

section \<open>Schedules\<close>

text \<open>The contract of a broker whose grants can be revoked: what a client of it may rely on under the
  schedules it allows.\<close>

fun schedule_ok :: "('e \<Rightarrow> 's \<Rightarrow> bool) \<Rightarrow> ('e \<Rightarrow> 's \<Rightarrow> 's) \<Rightarrow> 'e list \<Rightarrow> 's \<Rightarrow> bool" where
  "schedule_ok allowed step [] s = True"
| "schedule_ok allowed step (e # es) s = (allowed e s \<and> schedule_ok allowed step es (step e s))"

locale revocable_broker =
  fixes step :: "'e \<Rightarrow> 's \<Rightarrow> 's"
    and allowed :: "'e \<Rightarrow> 's \<Rightarrow> bool"
    and ok :: "'s \<Rightarrow> bool"
    and revoked :: "'s \<Rightarrow> string \<Rightarrow> string \<Rightarrow> bool"
    and live :: "'s \<Rightarrow> string \<Rightarrow> string \<Rightarrow> nat \<Rightarrow> bool"
  assumes ok_step: "ok s \<Longrightarrow> allowed e s \<Longrightarrow> ok (step e s)"
    and revoked_step: "ok s \<Longrightarrow> allowed e s \<Longrightarrow> revoked s pid name \<Longrightarrow> revoked (step e s) pid name"
    and revoked_dead: "ok s \<Longrightarrow> revoked s pid name \<Longrightarrow> \<not> live s pid name p"
begin

lemma ok_run: "ok s \<Longrightarrow> schedule_ok allowed step es s \<Longrightarrow> ok (run_events step es s)"
  by (induction es arbitrary: s) (auto intro: ok_step)

lemma revoked_run: "ok s \<Longrightarrow> schedule_ok allowed step es s \<Longrightarrow> revoked s pid name \<Longrightarrow> revoked (run_events step es s) pid name"
  by (induction es arbitrary: s) (auto intro: ok_step revoked_step)

lemma revoked_stays_dead:
  "ok s \<Longrightarrow> schedule_ok allowed step es s \<Longrightarrow> revoked s pid name \<Longrightarrow> \<not> live (run_events step es s) pid name p"
  by (rule revoked_dead) (auto intro: ok_run revoked_run)

end

definition callable :: "wire \<Rightarrow> core \<Rightarrow> bool" where
  "callable v s \<longleftrightarrow> fresh_id_for s (ad_requestId (call_admission v)) \<and> NUL \<notin> set (ad_pluginId (call_admission v))"

fun core_allowed :: "core_event \<Rightarrow> core \<Rightarrow> bool" where
  "core_allowed (Submit now d v) s = callable v s"
| "core_allowed (SubmitOpaque now d i w) s = (case w of None \<Rightarrow> True | Some x \<Rightarrow> callable (wfield x ''call'') s)"
| "core_allowed (Revoke pid name reason) s = (NUL \<notin> set pid)"
| "core_allowed _ s = True"

definition live_for :: "core \<Rightarrow> string \<Rightarrow> string \<Rightarrow> nat \<Rightarrow> bool" where
  "live_for s pid name p \<longleftrightarrow> live_call s p \<and> cc_pluginId (calls s ! p) = pid \<and> cc_capability (calls s ! p) = name"

lemma submit_admit: "submit now d v s = (case core_refusal now d v s of
    Some e \<Rightarrow> reject_call (call_admission v) e s | None \<Rightarrow> admit_call (call_admission v) s)"
  by (simp add: submit_def admit_call_def Let_def split: option.splits)

lemma core_refusal_None:
  assumes "core_refusal now d v s = None"
  shows "assertBrokerCallShape v" and "now \<le> ad_deadline (call_admission v)"
    and "ad_deadline (call_admission v) \<le> now + BROKER_MAX_DEADLINE_MS"
    and "WString (ad_pluginId (call_admission v)) \<notin> set (ad_chain (call_admission v))"
    and "\<not> isRevoked s (ad_pluginId (call_admission v)) (ad_capability (call_admission v))"
    and "d = Allowed" and "\<not> jm_has (inFlight s) (ad_requestId (call_admission v))"
  using assms unfolding core_refusal_def Let_def
  by (simp_all split: if_splits decision.splits)

lemma submit_ok:
  assumes "core_ok s" and "callable v s"
  shows "core_ok (submit now d v s)" and "isRevoked (submit now d v s) = isRevoked s"
proof -
  show "core_ok (submit now d v s)"
    using assms core_refusal_None(5,7) [of now d v s] unfolding callable_def submit_admit
    by (auto split: option.splits intro!: reject_ok admit_ok)
  show "isRevoked (submit now d v s) = isRevoked s"
    by (simp add: submit_admit reject_view admit_view split: option.splits)
qed

lemma core_step_ok:
  assumes "core_ok s" and "core_allowed e s"
  shows "core_ok (core_step e s)" and "isRevoked s pid name \<Longrightarrow> isRevoked (core_step e s) pid name"
proof -
  have opaque: "core_ok (submitOpaque now d i w s) \<and> isRevoked (submitOpaque now d i w s) = isRevoked s"
    if "case w of None \<Rightarrow> True | Some x \<Rightarrow> callable (wfield x ''call'') s" for now d i w
    using that assms(1) submit_ok [OF assms(1)]
    by (auto simp: submitOpaque_def Let_def reject_view intro!: reject_ok split: option.splits)
  show "core_ok (core_step e s)"
    using assms submit_ok(1) [OF assms(1)] opaque settle_ok(1) [OF assms(1)] deadline_ok [OF assms(1)]
      revoke_ok [OF assms(1)] shutdown_ok(1) [OF assms(1)]
    by (cases e) auto
  have rev: "isRevoked (fst (revoke p n r s)) pid name" if "isRevoked s pid name" for p n r
  proof -
    let ?s = "case n of None \<Rightarrow> s\<lparr>revokedPlugins := insert_new p (revokedPlugins s)\<rparr>
      | Some m \<Rightarrow> s\<lparr>revokedPairs := insert_new (pairKey p m) (revokedPairs s)\<rparr>"
    have "map_ok ?s"
      using core_okD(1) [OF assms(1)]
      by (auto simp: map_ok_def tracked_def running_def live_call_def split: option.splits)
    from abortInFlight_ok [OF this, of p n r] show ?thesis
      using that by (simp add: revoke_def revoke_marks)
  qed
  have dead: "isRevoked (deadline_fires p s) = isRevoked s" if "p < length (calls s)" "cc_timer (calls s ! p)" for p
    by (simp add: deadline_drops [OF core_okD(1) [OF assms(1)] that] drop_entry_view [OF that(1)])
  show "isRevoked s pid name \<Longrightarrow> isRevoked (core_step e s) pid name"
    using assms(2) submit_ok(2) [OF assms(1)] opaque settle_ok(3) [OF assms(1)] rev shutdown_ok(3) [OF assms(1)] dead
    by (cases e) auto
qed

interpretation local_core: revocable_broker core_step core_allowed core_ok isRevoked live_for
  by unfold_locales (auto simp: live_for_def core_step_ok dest: core_okD(3))

section \<open>What the core guarantees\<close>

definition example_call :: wire where
  "example_call = WObject [(''requestId'', WString ''req-0001''), (''method'', WString ''get''),
     (''deadlineAt'', WNum (Num 500)),
     (''caller'', WObject [(''pluginId'', WString ''notes''), (''installationId'', WString ''i''),
       (''trustLevel'', WString ''sandbox'')]),
     (''capability'', WObject [(''name'', WString ''storage.kv'')]), (''causalChain'', WArray [])]"

lemma example_refusal: "core_refusal 100 Allowed example_call new_core = None"
  by code_simp

lemma example_admission: "call_admission example_call = \<lparr>ad_requestId = ''req-0001'', ad_pluginId = ''notes'',
    ad_capability = ''storage.kv'', ad_chain = [], ad_deadline = 500\<rparr>"
  by (simp add: call_admission_def example_call_def text_or_def)

lemma example_submit: "submit 100 Allowed example_call new_core = \<lparr>calls = [\<lparr>cc_requestId = ''req-0001'',
    cc_pluginId = ''notes'', cc_capability = ''storage.kv'', cc_admitted = True, cc_abort = None, cc_timer = True,
    cc_outcome = None\<rparr>], inFlight = [(''req-0001'', 0)], revokedPairs = [], revokedPlugins = []\<rparr>"
  unfolding submit_admit example_refusal option.case
  by (simp add: admit_call_def example_admission new_core_def new_call_def)

text \<open>C30: revocation reaches calls in flight: as long as plugins do not take the request id of a call
  that still runs, every running call of a revoked capability has had its signal aborted.\<close>

theorem revoked_call_is_aborted:
  assumes "schedule_ok core_allowed core_step es new_core"
    and "running (run_events core_step es new_core) p"
    and "isRevoked (run_events core_step es new_core) (cc_pluginId (calls (run_events core_step es new_core) ! p))
        (cc_capability (calls (run_events core_step es new_core) ! p))"
  shows "cc_abort (calls (run_events core_step es new_core) ! p) \<noteq> None"
  using local_core.revoked_dead [OF local_core.ok_run [OF new_core_ok assms(1)] assms(3), of p] assms(2)
  by (simp add: live_for_def live_call_def)

theorem revoked_call_is_aborted_witness:
  "cc_abort (calls (run_events core_step [Submit 100 Allowed example_call, Revoke ''notes'' None None] new_core) ! 0) \<noteq> None"
proof (rule revoked_call_is_aborted)
  show "schedule_ok core_allowed core_step [Submit 100 Allowed example_call, Revoke ''notes'' None None] new_core"
    by (simp add: callable_def fresh_id_for_def example_admission new_core_def NUL_def)
qed (simp_all add: example_submit revoke_def abortInFlight_def revoke_matches_def running_def isRevoked_def
      insert_new_def drop_entry_def clear_timer_def abort_call_def)

text \<open>Every live call has a deadline: its timer is set, and when it fires the call's signal is aborted
  and the call leaves the in-flight map, whatever else has happened.\<close>

theorem live_call_has_deadline:
  assumes "schedule_ok core_allowed core_step es new_core" and "live_call (run_events core_step es new_core) p"
  shows "let s = run_events core_step es new_core; t = core_step (DeadlineFires p) s in
    cc_timer (calls s ! p) \<and> cc_abort (calls t ! p) = Some deadline_error
    \<and> jm_get (inFlight t) (cc_requestId (calls s ! p)) = None"
proof -
  let ?s = "run_events core_step es new_core"
  have ok: "map_ok ?s" using local_core.ok_run [OF new_core_ok assms(1)] by (rule core_okD)
  note t = map_okD(6) [OF ok assms(2)]
  have p: "p < length (calls ?s)" "cc_timer (calls ?s ! p)" using map_okD(4,5) [OF ok t] by simp_all
  then show ?thesis
    using assms(2)
    by (simp add: deadline_drops [OF ok] drop_entry_def clear_timer_def abort_call_def live_call_def Let_def)
qed

theorem live_call_has_deadline_witness:
  "cc_abort (calls (core_step (DeadlineFires 0) (submit 100 Allowed example_call new_core)) ! 0) = Some deadline_error"
proof -
  have "schedule_ok core_allowed core_step [Submit 100 Allowed example_call] new_core"
    by (simp add: callable_def fresh_id_for_def example_admission new_core_def NUL_def)
  from live_call_has_deadline [OF this, of 0] show ?thesis
    by (simp add: example_submit live_call_def running_def Let_def)
qed

text \<open>The schedule condition is needed. When the deadline of a call has fired and a second call takes its
  request id, the settling of the first deletes the entry of the second: a revocation and the second
  deadline then pass it by, and it runs on with its signal untouched.\<close>

theorem reused_id_escapes_revocation:
  assumes "core_refusal now Allowed v new_core = None"
  shows "let pid = ad_pluginId (call_admission v);
      s = run_events core_step [Submit now Allowed v, DeadlineFires 0, Submit now Allowed v, ExecSettles 0 outcome,
        Revoke pid None reason, DeadlineFires 1] new_core
    in running s 1 \<and> isRevoked s pid (ad_capability (call_admission v))
      \<and> cc_abort (calls s ! 1) = None \<and> pendingCount s = 0"
proof -
  let ?a = "call_admission v"
  have "core_refusal now Allowed v s = None" if "inFlight s = []" "revokedPairs s = []" "revokedPlugins s = []" for s
    using assms that by (simp add: core_refusal_def isRevoked_def new_core_def Let_def split: if_splits)
  then show ?thesis
    by (simp add: submit_admit admit_call_def new_core_def deadline_fires_def drop_entry_def clear_timer_def
        abort_call_def exec_settles_def revoke_def abortInFlight_def running_def isRevoked_def pendingCount_def
        new_call_def jm_delete_def jm_get_def insert_new_def Let_def)
qed

theorem reused_id_escapes_revocation_witness:
  "pendingCount (run_events core_step [Submit 100 Allowed example_call, DeadlineFires 0,
     Submit 100 Allowed example_call, ExecSettles 0 (Inr WNull), Revoke ''notes'' None None, DeadlineFires 1] new_core) = 0"
  using reused_id_escapes_revocation [OF example_refusal, of "Inr WNull" None]
  by (simp add: example_admission Let_def)

end
