(* ===== verification/Broker_Gateway.thy ===== *)
theory Broker_Gateway
  imports Broker_Core
begin

text \<open>
  The gateway between a worker's bridge and the broker core:
  \<open>apps/plugin-runtime/src/broker/brokerGateway.ts\<close>. It recognises the two kinds of request, guards
  their shape, submits them to the core and posts the answer to the worker's control port once the
  promise of the call has settled. A worker's port is named by a number.
\<close>

section \<open>Operations\<close>

definition PLUGIN_RUNTIME_MAX_DATA_PAYLOAD_BYTES :: nat where
  "PLUGIN_RUNTIME_MAX_DATA_PAYLOAD_BYTES = 256 * 1024 * 1024"

definition isRpcRequest :: "wire \<Rightarrow> bool" where
  "isRpcRequest v \<longleftrightarrow> wfield v ''kind'' = WString ''rpc-request''"

fun payload_of :: "wire \<Rightarrow> bytes option" where
  "payload_of (WBuffer b) = Some b"
| "payload_of _ = None"

fun is_warray :: "wire \<Rightarrow> bool" where
  "is_warray (WArray _) = True"
| "is_warray _ = False"

definition isRpcRequestData :: "wire \<Rightarrow> bool" where
  "isRpcRequestData v \<longleftrightarrow> wfield v ''kind'' = WString ''rpc-request-data''
     \<and> text_min 8 (wfield v ''requestId'') \<and> text_min 1 (wfield v ''pluginId'')
     \<and> text_min 1 (wfield v ''capabilityName'') \<and> is_warray (wfield v ''causalChain'')
     \<and> finite_number (wfield v ''deadlineAt'') \<and> payload_of (wfield v ''payloadBytes'') \<noteq> None"

definition response_ok :: "string \<Rightarrow> wire \<Rightarrow> wire" where
  "response_ok i r = WObject [(''kind'', WString ''rpc-response''), (''requestId'', WString i), (''ok'', WBool True),
     (''result'', r)]"

definition response_error :: "string \<Rightarrow> broker_thrown \<Rightarrow> wire" where
  "response_error i e = WObject [(''kind'', WString ''rpc-response''), (''requestId'', WString i), (''ok'', WBool False),
     (''error'', toBrokerError e)]"

text \<open>The gateway holds nothing but the callbacks on the promises of its calls: the place of the call,
  the port and the request id to answer with.\<close>

record gateway =
  gw_core :: core
  gw_waiting :: "(nat \<times> nat \<times> string) list"
  gw_posted :: "(nat \<times> wire) list"

definition new_gateway :: gateway where
  "new_gateway = \<lparr>gw_core = new_core, gw_waiting = [], gw_posted = []\<rparr>"

definition post :: "nat \<Rightarrow> wire \<Rightarrow> gateway \<Rightarrow> gateway" where
  "post port w g = g\<lparr>gw_posted := gw_posted g @ [(port, w)]\<rparr>"

definition invalid_id :: "wire \<Rightarrow> string" where
  "invalid_id v = (case wfield v ''requestId'' of WString i \<Rightarrow> i | _ \<Rightarrow> ''invalid-call'')"

definition handleRpcRequestData :: "(bytes \<Rightarrow> wire option) \<Rightarrow> rat \<Rightarrow> decision \<Rightarrow> nat \<Rightarrow> wire \<Rightarrow> gateway \<Rightarrow> gateway" where
  "handleRpcRequestData decode now decision port v g =
     (let payload = (case payload_of (wfield v ''payloadBytes'') of None \<Rightarrow> [] | Some b \<Rightarrow> b);
          i = text_or (wfield v ''requestId'') []
      in if length payload > PLUGIN_RUNTIME_MAX_DATA_PAYLOAD_BYTES then
           post port (response_error i (ErrorThrown ''data-pipe call payload too large'')) g
         else g\<lparr>gw_core := submitOpaque now decision i (decode payload) (gw_core g),
                gw_waiting := gw_waiting g @ [(length (calls (gw_core g)), port, i)]\<rparr>)"

text \<open>\<open>Object.assign(new Error('VALIDATION_FAILED'), \<dots>)\<close> replaces the message of the error, which is
  then the text after it.\<close>

definition handleBridgeMessage :: "(bytes \<Rightarrow> wire option) \<Rightarrow> rat \<Rightarrow> decision \<Rightarrow> nat \<Rightarrow> wire \<Rightarrow> gateway
    \<Rightarrow> gateway \<times> bool" where
  "handleBridgeMessage decode now decision port v g =
     (if isRpcRequestData v then (handleRpcRequestData decode now decision port v g, True)
      else if \<not> isRpcRequest v then (g, False)
      else let call = wfield v ''call'' in
        if \<not> assertBrokerCallShape call then
          (post port (response_error (invalid_id call) (ErrorThrown ''malformed broker call envelope'')) g, True)
        else (g\<lparr>gw_core := submit now decision call (gw_core g),
                gw_waiting := gw_waiting g @ [(length (calls (gw_core g)), port, text_or (wfield call ''requestId'') [])]\<rparr>,
              True))"

text \<open>The callbacks of the promises that have settled run before the next event.\<close>

definition answer_of :: "core \<Rightarrow> nat \<times> nat \<times> string \<Rightarrow> (nat \<times> wire) option" where
  "answer_of s x = (case x of (p, port, i) \<Rightarrow> (case cc_outcome (calls s ! p) of
       None \<Rightarrow> None
     | Some (Inr r) \<Rightarrow> Some (port, response_ok i r)
     | Some (Inl e) \<Rightarrow> Some (port, response_error i e)))"

definition run_callbacks :: "gateway \<Rightarrow> gateway" where
  "run_callbacks g = g\<lparr>gw_posted := gw_posted g @ List.map_filter (answer_of (gw_core g)) (gw_waiting g),
     gw_waiting := filter (\<lambda>x. answer_of (gw_core g) x = None) (gw_waiting g)\<rparr>"

datatype gateway_event =
  BridgeMessage rat decision nat wire
| CoreEvent core_event

fun gateway_step :: "(bytes \<Rightarrow> wire option) \<Rightarrow> gateway_event \<Rightarrow> gateway \<Rightarrow> gateway" where
  "gateway_step decode (BridgeMessage now d port v) g = run_callbacks (fst (handleBridgeMessage decode now d port v g))"
| "gateway_step decode (CoreEvent e) g = run_callbacks (g\<lparr>gw_core := core_step e (gw_core g)\<rparr>)"

section \<open>Answers\<close>

text \<open>The request a message makes: the port it came from and the id it is to be answered with.\<close>

definition request_of :: "gateway_event \<Rightarrow> (nat \<times> wire) option" where
  "request_of e = (case e of
       BridgeMessage now d port v \<Rightarrow>
         (if isRpcRequestData v then Some (port, wfield v ''requestId'')
          else if isRpcRequest v then Some (port, WString (invalid_id (wfield v ''call'')))
          else None)
     | CoreEvent _ \<Rightarrow> None)"

definition answered :: "nat \<times> wire \<Rightarrow> nat \<times> wire" where
  "answered x = (fst x, wfield (snd x) ''requestId'')"

definition awaited :: "nat \<times> nat \<times> string \<Rightarrow> nat \<times> wire" where
  "awaited x = (fst (snd x), WString (snd (snd x)))"

lemma answered_response [simp]:
  "answered (port, response_ok i r) = (port, WString i)"
  "answered (port, response_error i e) = (port, WString i)"
  by (simp_all add: answered_def response_ok_def response_error_def)

lemma answer_of_awaited: "answer_of s x = Some y \<Longrightarrow> answered y = awaited x"
  by (auto simp: answer_of_def awaited_def split: prod.splits option.splits sum.splits)

lemma callbacks_account:
  "mset (map answered (List.map_filter (answer_of s) xs)) + mset (map awaited (filter (\<lambda>x. answer_of s x = None) xs))
    = mset (map awaited xs)"
  by (induction xs) (auto simp: map_filter_simps answer_of_awaited split: option.splits)

definition account :: "gateway \<Rightarrow> (nat \<times> wire) multiset" where
  "account g = mset (map answered (gw_posted g)) + mset (map awaited (gw_waiting g))"

lemma account_callbacks [simp]: "account (run_callbacks g) = account g"
  using callbacks_account [of "gw_core g" "gw_waiting g"]
  by (simp add: account_def run_callbacks_def add.assoc)

lemma text_min_text: "text_min k w \<Longrightarrow> WString (text_or w []) = w"
  by (cases w) (simp_all add: text_min_def text_or_def)

lemma invalid_id_text: "text_min k (wfield v ''requestId'') \<Longrightarrow> invalid_id v = text_or (wfield v ''requestId'') []"
  by (cases "wfield v ''requestId''") (simp_all add: text_min_def text_or_def invalid_id_def)

lemma request_ids:
  "isRpcRequestData v \<Longrightarrow> WString (text_or (wfield v ''requestId'') []) = wfield v ''requestId''"
  "assertBrokerCallShape c \<Longrightarrow> text_or (wfield c ''requestId'') [] = invalid_id c"
  unfolding isRpcRequestData_def assertBrokerCallShape_def
  using text_min_text [of 8] invalid_id_text [of 8] by auto

lemma account_step:
  "account (gateway_step decode e g) = account g + (case request_of e of None \<Rightarrow> {#} | Some r \<Rightarrow> {#r#})"
proof (cases e)
  case (CoreEvent c)
  have "account (g\<lparr>gw_core := x\<rparr>) = account g" for x by (simp add: account_def)
  then show ?thesis unfolding CoreEvent gateway_step.simps account_callbacks by (simp add: request_of_def)
next
  case (BridgeMessage now d port v)
  have "account (fst (handleBridgeMessage decode now d port v g))
      = account g + (case request_of e of None \<Rightarrow> {#} | Some r \<Rightarrow> {#r#})"
    unfolding BridgeMessage
    by (simp add: handleBridgeMessage_def handleRpcRequestData_def request_of_def account_def post_def awaited_def
        request_ids Let_def)
  then show ?thesis by (simp add: BridgeMessage)
qed

lemma waiting_unsettled: "list_all (\<lambda>x. cc_outcome (calls (gw_core (run_callbacks g)) ! fst x) = None)
    (gw_waiting (run_callbacks g))"
proof -
  have "answer_of s x = None \<Longrightarrow> cc_outcome (calls s ! fst x) = None" for s x
    by (cases x; cases "cc_outcome (calls s ! fst x)") (auto simp: answer_of_def split: sum.splits)
  then show ?thesis by (simp add: run_callbacks_def list_all_iff)
qed

text \<open>The gateway answers every request once: after any run the answers posted and the requests whose
  call has not settled are, port by port and id by id, exactly the requests that came in.\<close>

theorem requests_answered_once:
  "let g = run_events (gateway_step decode) es new_gateway in
     mset (map answered (gw_posted g)) + mset (map awaited (gw_waiting g))
       = mset (List.map_filter request_of es)
     \<and> list_all (\<lambda>x. cc_outcome (calls (gw_core g) ! fst x) = None) (gw_waiting g)"
proof -
  have "account (run_events (gateway_step decode) es g) = account g + mset (List.map_filter request_of es)" for g
    by (induction es arbitrary: g) (auto simp: map_filter_simps account_step split: option.splits)
  from this [of new_gateway]
  have count: "account (run_events (gateway_step decode) es new_gateway) = mset (List.map_filter request_of es)"
    by (simp add: account_def new_gateway_def)
  have "list_all (\<lambda>x. cc_outcome (calls (gw_core (run_events (gateway_step decode) es new_gateway)) ! fst x) = None)
      (gw_waiting (run_events (gateway_step decode) es new_gateway))"
  proof (cases es rule: rev_cases)
    case Nil
    then show ?thesis by (simp add: new_gateway_def)
  next
    case (snoc ds e)
    then show ?thesis by (cases e) (simp_all add: waiting_unsettled)
  qed
  with count show ?thesis by (simp add: account_def Let_def)
qed

text \<open>A request whose call is malformed is answered at once, with the code INTERNAL: the error is made
  with the code VALIDATION_FAILED as its message, and that message is overwritten before the code is
  read from it.\<close>

theorem malformed_call_answered_internal:
  assumes "wfield v ''kind'' = WString ''rpc-request''" and "\<not> assertBrokerCallShape (wfield v ''call'')"
  shows "\<exists>w. gw_posted (fst (handleBridgeMessage decode now d port v g)) = gw_posted g @ [(port, w)]
    \<and> wfield (wfield w ''error'') ''code'' = WString ''INTERNAL'' \<and> wfield w ''ok'' = WBool False
    \<and> gw_core (fst (handleBridgeMessage decode now d port v g)) = gw_core g"
proof -
  have "\<not> is_error_code ''malformed broker call envelope''" by code_simp
  then show ?thesis
    using assms by (simp add: handleBridgeMessage_def isRpcRequestData_def isRpcRequest_def post_def
        response_error_def toBrokerError_def Let_def)
qed

theorem malformed_call_answered_internal_witness:
  "length (gw_posted (fst (handleBridgeMessage (\<lambda>_. None) 0 Allowed 7
     (WObject [(''kind'', WString ''rpc-request''), (''call'', WNull)]) new_gateway))) = 1"
proof -
  let ?v = "WObject [(''kind'', WString ''rpc-request''), (''call'', WNull)]"
  have "wfield ?v ''kind'' = WString ''rpc-request''" "\<not> assertBrokerCallShape (wfield ?v ''call'')"
    by (simp_all add: assertBrokerCallShape_def)
  from malformed_call_answered_internal [OF this, of "\<lambda>_. None" 0 Allowed 7 new_gateway]
  obtain w where "gw_posted (fst (handleBridgeMessage (\<lambda>_. None) 0 Allowed 7 ?v new_gateway))
      = gw_posted new_gateway @ [(7, w)]" by blast
  then show ?thesis by (simp add: new_gateway_def)
qed

end
