(* ===== verification/Broker_Forwarding.thy ===== *)
theory Broker_Forwarding
  imports Broker_Core
begin

text \<open>
  The host-forwarding broker core of the plugin runtime
  (\<open>apps/plugin-runtime/src/broker/hostForwardingCore.ts\<close>): the other implementation of the broker
  interface, which relays every admitted call to the host and settles it from the host's response.

  The calls live in a store, as in \<open>Broker_Core\<close>. Here the promise of a call is rejected by the abort
  of its signal, so leaving the in-flight map and settling go together.
\<close>

named_theorems fw_defs \<open>definitions of the forwarding operations\<close>

section \<open>State\<close>

definition DEFAULT_MAX_INFLIGHT :: nat where "DEFAULT_MAX_INFLIGHT = 1024"

datatype frame = RpcRequestFrame nat nat wire | RpcRequestDataFrame nat nat bytes

record forwarded =
  fw_requestId :: string
  fw_worker :: "nat \<times> nat"
  fw_pluginId :: string
  fw_capability :: string
  fw_listening :: bool
  fw_abort :: "broker_error option"
  fw_timer :: bool
  fw_settled :: "(broker_error + wire) option"

record forwarding =
  fcalls :: "forwarded list"
  finFlight :: "(string, nat) jmap"
  frevokedPairs :: "string list"
  frevokedPlugins :: "string list"
  maxInflight :: nat
  hasDataPipe :: bool
  frames :: "frame list"

definition new_forwarding :: "nat option \<Rightarrow> bool \<Rightarrow> forwarding" where
  "new_forwarding limit pipe = \<lparr>fcalls = [], finFlight = [], frevokedPairs = [], frevokedPlugins = [],
     maxInflight = (case limit of None \<Rightarrow> DEFAULT_MAX_INFLIGHT | Some n \<Rightarrow> n), hasDataPipe = pipe, frames = []\<rparr>"

definition fisRevoked :: "forwarding \<Rightarrow> string \<Rightarrow> string \<Rightarrow> bool" where
  "fisRevoked s pid name \<longleftrightarrow> pid \<in> set (frevokedPlugins s) \<or> pairKey pid name \<in> set (frevokedPairs s)"

section \<open>Operations\<close>

text \<open>The promise ignores every settling but the first.\<close>

definition fsettle :: "nat \<Rightarrow> broker_error + wire \<Rightarrow> forwarding \<Rightarrow> forwarding" where
  [fw_defs]: "fsettle p outcome s = (let c = fcalls s ! p in
     s\<lparr>fcalls := (fcalls s)[p := c\<lparr>fw_settled := (case fw_settled c of None \<Rightarrow> Some outcome | Some x \<Rightarrow> Some x)\<rparr>]\<rparr>)"

text \<open>The abort listener of an admitted call runs once and rejects the promise with the reason.\<close>

definition fabort :: "nat \<Rightarrow> broker_error \<Rightarrow> forwarding \<Rightarrow> forwarding" where
  [fw_defs]: "fabort p e s = (let c = fcalls s ! p in
     if fw_abort c \<noteq> None then s
     else let s1 = s\<lparr>fcalls := (fcalls s)[p := c\<lparr>fw_abort := Some e\<rparr>]\<rparr>
          in if fw_listening c then fsettle p (Inl e) s1 else s1)"

definition fclear_timer :: "nat \<Rightarrow> forwarding \<Rightarrow> forwarding" where
  [fw_defs]: "fclear_timer p s = s\<lparr>fcalls := (fcalls s)[p := (fcalls s ! p)\<lparr>fw_timer := False\<rparr>]\<rparr>"

definition fdrop :: "(forwarded \<Rightarrow> broker_error) \<Rightarrow> string \<times> nat \<Rightarrow> forwarding \<Rightarrow> forwarding" where
  [fw_defs]: "fdrop err e s =
     (fclear_timer (snd e) (fabort (snd e) (err (fcalls s ! snd e)) s))\<lparr>finFlight := jm_delete (fst e) (finFlight s)\<rparr>"

definition frevoked_error :: "string \<Rightarrow> string option \<Rightarrow> forwarded \<Rightarrow> broker_error" where
  "frevoked_error pid reason c = BrokerCallError ''CAPABILITY_REVOKED''
     (Some (case reason of None \<Rightarrow> ''capability revoked while the call was in flight'' | Some r \<Rightarrow> r)) None
     (WObject [(''pluginId'', WString pid), (''capabilityName'', WString (fw_capability c))])"

definition frevoke_matches :: "string \<Rightarrow> string option \<Rightarrow> forwarded \<Rightarrow> bool" where
  "frevoke_matches pid name c \<longleftrightarrow> fw_pluginId c = pid
     \<and> (case name of None \<Rightarrow> True | Some n \<Rightarrow> fw_capability c = n)"

definition abort_where :: "(forwarded \<Rightarrow> bool) \<Rightarrow> (forwarded \<Rightarrow> broker_error) \<Rightarrow> forwarding \<Rightarrow> forwarding \<times> nat" where
  [fw_defs]: "abort_where P err s = (let hit = filter (\<lambda>e. P (fcalls s ! snd e)) (finFlight s) in
     (fold (fdrop err) hit s, length hit))"

definition fabortInFlight :: "string \<Rightarrow> string option \<Rightarrow> string option \<Rightarrow> forwarding \<Rightarrow> forwarding \<times> nat" where
  [fw_defs]: "fabortInFlight pid name reason s = abort_where (frevoke_matches pid name) (frevoked_error pid reason) s"

definition forward_refusal :: "rat \<Rightarrow> admission \<Rightarrow> forwarding \<Rightarrow> broker_error option" where
  "forward_refusal now a s =
    (if ad_deadline a < now then
       Some (BrokerCallError ''OPERATION_DEADLINE'' (Some ''call deadline already passed'') None WUndefined)
     else if ad_deadline a > now + BROKER_MAX_DEADLINE_MS then
       Some (BrokerCallError ''VALIDATION_FAILED'' (Some ''call deadline exceeds the broker cap'') None WUndefined)
     else if WString (ad_pluginId a) \<in> set (ad_chain a) then
       Some (BrokerCallError ''SERVICE_CALL_CYCLE'' (Some ''service call would close a cycle'') None (chain_details a))
     else if fisRevoked s (ad_pluginId a) (ad_capability a) then
       Some (BrokerCallError ''CAPABILITY_REVOKED'' (Some ''capability revoked before the call started'') None
         (WObject [(''capabilityName'', WString (ad_capability a))]))
     else if jm_has (finFlight s) (ad_requestId a) then
       Some (BrokerCallError ''VALIDATION_FAILED'' (Some ''duplicate in-flight requestId'') None WUndefined)
     else if length (finFlight s) \<ge> maxInflight s then
       Some (BrokerCallError ''SERVICE_UNAVAILABLE'' (Some ''broker forwarding capacity reached'') None WUndefined)
     else None)"

definition new_forwarded :: "admission \<Rightarrow> nat \<times> nat \<Rightarrow> forwarded" where
  "new_forwarded a worker = \<lparr>fw_requestId = ad_requestId a, fw_worker = worker, fw_pluginId = ad_pluginId a,
     fw_capability = ad_capability a, fw_listening = False, fw_abort = None, fw_timer = False, fw_settled = None\<rparr>"

definition backpressure_error :: broker_error where
  "backpressure_error = BrokerCallError ''SERVICE_UNAVAILABLE'' (Some ''data pipe backpressure'') None WUndefined"

text \<open>\<open>onAdmitted\<close> sends a frame, or answers \<open>false\<close>: \<open>None\<close>.\<close>

definition register :: "admission \<Rightarrow> nat \<times> nat \<Rightarrow> forwarding \<Rightarrow> forwarding" where
  "register a worker s = s\<lparr>fcalls := fcalls s @ [(new_forwarded a worker)\<lparr>fw_listening := True, fw_timer := True\<rparr>],
     finFlight := jm_set (ad_requestId a) (length (fcalls s)) (finFlight s)\<rparr>"

definition refuse :: "admission \<Rightarrow> nat \<times> nat \<Rightarrow> broker_error \<Rightarrow> forwarding \<Rightarrow> forwarding" where
  "refuse a worker e s = s\<lparr>fcalls := fcalls s @ [(new_forwarded a worker)\<lparr>fw_settled := Some (Inl e)\<rparr>]\<rparr>"

definition admitAndRegister :: "rat \<Rightarrow> admission \<Rightarrow> nat \<times> nat \<Rightarrow> frame option \<Rightarrow> forwarding \<Rightarrow> forwarding" where
  [fw_defs]: "admitAndRegister now a worker onAdmitted s = (case forward_refusal now a s of
       Some e \<Rightarrow> refuse a worker e s
     | None \<Rightarrow> (case onAdmitted of
           Some f \<Rightarrow> (register a worker s)\<lparr>frames := frames s @ [f]\<rparr>
         | None \<Rightarrow> fdrop (\<lambda>_. backpressure_error) (ad_requestId a, length (fcalls s)) (register a worker s)))"

definition fsubmit :: "rat \<Rightarrow> wire \<Rightarrow> (nat \<times> nat) option \<Rightarrow> forwarding \<Rightarrow> forwarding" where
  [fw_defs]: "fsubmit now v worker s = (let w = (case worker of None \<Rightarrow> (0, 0) | Some x \<Rightarrow> x) in
     admitAndRegister now (call_admission v) w (Some (RpcRequestFrame (fst w) (snd w) v)) s)"

definition fsubmitOpaque :: "rat \<Rightarrow> admission \<Rightarrow> bytes \<Rightarrow> (nat \<times> nat) option \<Rightarrow> forwarding \<Rightarrow> forwarding" where
  [fw_defs]: "fsubmitOpaque now a payload worker s = (let w = (case worker of None \<Rightarrow> (0, 0) | Some x \<Rightarrow> x) in
     admitAndRegister now a w (if hasDataPipe s then Some (RpcRequestDataFrame (fst w) (snd w) payload) else None) s)"

definition fdeadline_error :: broker_error where
  "fdeadline_error = BrokerCallError ''OPERATION_DEADLINE'' (Some ''call deadline exceeded while awaiting the host'') None WUndefined"

definition fdeadline_fires :: "nat \<Rightarrow> forwarding \<Rightarrow> forwarding" where
  [fw_defs]: "fdeadline_fires p s = (let s1 = fclear_timer p s; i = fw_requestId (fcalls s ! p)
     in case jm_get (finFlight s1) i of None \<Rightarrow> s1 | Some q \<Rightarrow> fdrop (\<lambda>_. fdeadline_error) (i, q) s1)"

record rpc_response =
  rp_workerId :: nat
  rp_workerEpoch :: nat
  rp_requestId :: string
  rp_ok :: bool
  rp_result :: wire
  rp_error :: "broker_error option"

definition response_outcome :: "rpc_response \<Rightarrow> broker_error + wire" where
  "response_outcome body = (if rp_ok body then Inr (rp_result body)
     else Inl (case rp_error body of
         None \<Rightarrow> BrokerCallError ''INTERNAL'' (Some ''host call failed'') None WUndefined
       | Some e \<Rightarrow> BrokerCallError (be_code e) (Some (be_message e)) (Some (be_retryable e))
           (if is_wobject (be_details e) then be_details e else WUndefined)))"

definition handleRpcResponse :: "rpc_response \<Rightarrow> forwarding \<Rightarrow> forwarding \<times> bool" where
  [fw_defs]: "handleRpcResponse body s = (case jm_get (finFlight s) (rp_requestId body) of
       None \<Rightarrow> (s, False)
     | Some p \<Rightarrow>
         if fw_worker (fcalls s ! p) \<noteq> (rp_workerId body, rp_workerEpoch body) then (s, False)
         else (fsettle p (response_outcome body)
                ((fclear_timer p s)\<lparr>finFlight := jm_delete (rp_requestId body) (finFlight s)\<rparr>), True))"

definition worker_gone :: "nat \<Rightarrow> nat \<Rightarrow> broker_error" where
  "worker_gone wid epoch = BrokerCallError ''SERVICE_UNAVAILABLE'' (Some ''worker terminated while the call was in flight'')
     None (WObject [(''workerId'', WNum (jint (int wid))), (''workerEpoch'', WNum (jint (int epoch)))])"

definition abortWorker :: "nat \<Rightarrow> nat \<Rightarrow> forwarding \<Rightarrow> forwarding \<times> nat" where
  [fw_defs]: "abortWorker wid epoch s = abort_where (\<lambda>c. fw_worker c = (wid, epoch)) (\<lambda>_. worker_gone wid epoch) s"

definition frevoke :: "string \<Rightarrow> string option \<Rightarrow> string option \<Rightarrow> forwarding \<Rightarrow> forwarding \<times> nat" where
  [fw_defs]: "frevoke pid name reason s = fabortInFlight pid name reason
     (case name of None \<Rightarrow> s\<lparr>frevokedPlugins := insert_new pid (frevokedPlugins s)\<rparr>
      | Some n \<Rightarrow> s\<lparr>frevokedPairs := insert_new (pairKey pid n) (frevokedPairs s)\<rparr>)"

definition fpendingCount :: "forwarding \<Rightarrow> nat" where
  "fpendingCount s = length (finFlight s)"

definition fshutdown :: "forwarding \<Rightarrow> forwarding" where
  [fw_defs]: "fshutdown s = (fold (\<lambda>p s. fclear_timer p (fabort p shutdown_error s)) (jm_values (finFlight s)) s)
     \<lparr>finFlight := []\<rparr>"

datatype forward_event =
  FSubmit rat wire "(nat \<times> nat) option"
| FSubmitOpaque rat admission bytes "(nat \<times> nat) option"
| FDeadline nat
| FResponse rpc_response
| FAbortWorker nat nat
| FRevoke string "string option" "string option"
| FShutdown

fun forward_step :: "forward_event \<Rightarrow> forwarding \<Rightarrow> forwarding" where
  "forward_step (FSubmit now v w) s = fsubmit now v w s"
| "forward_step (FSubmitOpaque now a b w) s = fsubmitOpaque now a b w s"
| "forward_step (FDeadline p) s = (if p < length (fcalls s) \<and> fw_timer (fcalls s ! p) then fdeadline_fires p s else s)"
| "forward_step (FResponse body) s = fst (handleRpcResponse body s)"
| "forward_step (FAbortWorker wid epoch) s = fst (abortWorker wid epoch s)"
| "forward_step (FRevoke pid name reason) s = fst (frevoke pid name reason s)"
| "forward_step FShutdown s = fshutdown s"

section \<open>The in-flight map\<close>

definition unsettled :: "forwarding \<Rightarrow> nat \<Rightarrow> bool" where
  "unsettled s p \<longleftrightarrow> p < length (fcalls s) \<and> fw_settled (fcalls s ! p) = None"

definition entry_ok :: "forwarding \<Rightarrow> string \<Rightarrow> nat \<Rightarrow> bool" where
  "entry_ok s r p \<longleftrightarrow> unsettled s p \<and> fw_requestId (fcalls s ! p) = r \<and> fw_timer (fcalls s ! p)
     \<and> fw_listening (fcalls s ! p) \<and> fw_abort (fcalls s ! p) = None"

definition forward_ok :: "forwarding \<Rightarrow> bool" where
  "forward_ok s \<longleftrightarrow> jm_wf (finFlight s) \<and> length (finFlight s) \<le> maxInflight s
     \<and> (\<forall>r p. jm_get (finFlight s) r = Some p \<longrightarrow> entry_ok s r p)
     \<and> (\<forall>p. unsettled s p \<longrightarrow> jm_get (finFlight s) (fw_requestId (fcalls s ! p)) = Some p)
     \<and> (\<forall>p < length (fcalls s). fw_timer (fcalls s ! p) \<longrightarrow> unsettled s p)"

lemma forward_okD:
  assumes "forward_ok s"
  shows "jm_wf (finFlight s)" and "length (finFlight s) \<le> maxInflight s"
    and "jm_get (finFlight s) r = Some p \<Longrightarrow> entry_ok s r p"
    and "jm_get (finFlight s) r = Some p \<Longrightarrow> p < length (fcalls s)"
    and "jm_get (finFlight s) r = Some p \<Longrightarrow> fw_requestId (fcalls s ! p) = r"
    and "unsettled s p \<Longrightarrow> jm_get (finFlight s) (fw_requestId (fcalls s ! p)) = Some p"
    and "p < length (fcalls s) \<Longrightarrow> fw_timer (fcalls s ! p) \<Longrightarrow> unsettled s p"
  using assms unfolding forward_ok_def by (auto simp: entry_ok_def unsettled_def)

lemma new_forwarding_ok: "forward_ok (new_forwarding limit pipe)"
  by (simp add: forward_ok_def new_forwarding_def unsettled_def)

text \<open>Removing an entry: what \<open>fdrop\<close> and a response have in common.\<close>

definition removed :: "string \<Rightarrow> nat \<Rightarrow> forwarding \<Rightarrow> forwarding \<Rightarrow> bool" where
  "removed r p s t \<longleftrightarrow> finFlight t = jm_delete r (finFlight s) \<and> length (fcalls t) = length (fcalls s)
     \<and> \<not> fw_timer (fcalls t ! p) \<and> \<not> unsettled t p \<and> (\<forall>q. q \<noteq> p \<longrightarrow> fcalls t ! q = fcalls s ! q)
     \<and> maxInflight t = maxInflight s \<and> fisRevoked t = fisRevoked s \<and> frames t = frames s"

lemma removed_ok:
  assumes "forward_ok s" and "jm_get (finFlight s) r = Some p" and "removed r p s t"
  shows "forward_ok t" and "unsettled t q \<longleftrightarrow> unsettled s q \<and> q \<noteq> p"
proof -
  note f = forward_okD [OF assms(1)]
  have v: "finFlight t = jm_delete r (finFlight s)" "length (fcalls t) = length (fcalls s)"
    "\<not> fw_timer (fcalls t ! p)" "\<not> unsettled t p" "q \<noteq> p \<Longrightarrow> fcalls t ! q = fcalls s ! q"
    "maxInflight t = maxInflight s" for q using assms(3) by (auto simp: removed_def)
  have u: "unsettled t q \<longleftrightarrow> unsettled s q \<and> q \<noteq> p" for q
    using v(2,4) v(5) [of q] by (cases "q = p") (auto simp: unsettled_def)
  then show "unsettled t q \<longleftrightarrow> unsettled s q \<and> q \<noteq> p" .
  have other: "q \<noteq> p" if "r' \<noteq> r" "jm_get (finFlight s) r' = Some q" for r' q
    using f(5) assms(2) that by metis
  have rp: "fw_requestId (fcalls s ! p) = r" using f(5) [OF assms(2)] .
  have entry: "entry_ok t r' q" if "r' \<noteq> r" "jm_get (finFlight s) r' = Some q" for r' q
    using f(3) [OF that(2)] other [OF that] v(5) u by (simp add: entry_ok_def)
  have named: "jm_get (finFlight t) (fw_requestId (fcalls t ! q)) = Some q" if "unsettled t q" for q
  proof -
    have q: "unsettled s q" "q \<noteq> p" using that u by simp_all
    have "fw_requestId (fcalls s ! q) \<noteq> r" using f(6) [OF q(1)] assms(2) q(2) by auto
    then show ?thesis using f(6) [OF q(1)] v(1) v(5) [OF q(2)] by simp
  qed
  have "length (jm_delete r (finFlight s)) \<le> maxInflight s"
    using jm_delete_length_le [of r "finFlight s"] f(2) by linarith
  moreover have "\<forall>q < length (fcalls t). fw_timer (fcalls t ! q) \<longrightarrow> unsettled t q"
  proof (intro allI impI)
    fix q assume q: "q < length (fcalls t)" "fw_timer (fcalls t ! q)"
    with v(3) have "q \<noteq> p" by auto
    with q f(7) [of q] v(2,5) u show "unsettled t q" by auto
  qed
  ultimately show "forward_ok t"
    unfolding forward_ok_def v(6) using f(1) named entry by (auto simp: v(1) split: if_splits)
qed

lemma fdrop_removed:
  assumes "forward_ok s" and "jm_get (finFlight s) r = Some p"
  shows "removed r p s (fdrop err (r, p) s)"
    and "fw_settled (fcalls (fdrop err (r, p) s) ! p) = Some (Inl (err (fcalls s ! p)))"
  using forward_okD(3,4) [OF assms]
  by (auto simp: removed_def fdrop_def fclear_timer_def fabort_def fsettle_def entry_ok_def unsettled_def fisRevoked_def
      fun_eq_iff Let_def)

lemma response_removed:
  assumes "forward_ok s" and "jm_get (finFlight s) (rp_requestId body) = Some p"
    and "fw_worker (fcalls s ! p) = (rp_workerId body, rp_workerEpoch body)"
  shows "removed (rp_requestId body) p s (fst (handleRpcResponse body s))"
  using forward_okD(3,4) [OF assms(1,2)] assms(2,3)
  by (auto simp: removed_def handleRpcResponse_def fclear_timer_def fsettle_def entry_ok_def unsettled_def
      fisRevoked_def fun_eq_iff Let_def)

lemma drops_ok:
  assumes "forward_ok s" and "distinct (map fst es)" and "\<forall>(r, p) \<in> set es. jm_get (finFlight s) r = Some p"
  shows "forward_ok (fold (fdrop err) es s)
    \<and> (\<forall>q. unsettled (fold (fdrop err) es s) q \<longleftrightarrow> unsettled s q \<and> q \<notin> snd ` set es)
    \<and> (\<forall>q. q \<notin> snd ` set es \<longrightarrow> fcalls (fold (fdrop err) es s) ! q = fcalls s ! q)
    \<and> fisRevoked (fold (fdrop err) es s) = fisRevoked s \<and> frames (fold (fdrop err) es s) = frames s"
  using assms
proof (induction es arbitrary: s)
  case Nil
  then show ?case by simp
next
  case (Cons e es)
  obtain r p where e: "e = (r, p)" by (cases e)
  have get: "jm_get (finFlight s) r = Some p" using Cons.prems(3) e by simp
  note rem = fdrop_removed(1) [OF Cons.prems(1) get, of err]
  note ok = removed_ok [OF Cons.prems(1) get rem]
  have v: "finFlight (fdrop err (r, p) s) = jm_delete r (finFlight s)"
    "q \<noteq> p \<Longrightarrow> fcalls (fdrop err (r, p) s) ! q = fcalls s ! q"
    "fisRevoked (fdrop err (r, p) s) = fisRevoked s" "frames (fdrop err (r, p) s) = frames s" for q
    using rem by (auto simp: removed_def)
  have "\<forall>(r', p') \<in> set es. jm_get (finFlight (fdrop err (r, p) s)) r' = Some p'"
    using Cons.prems(2,3) e unfolding v by force
  from Cons.IH [OF ok(1) _ this] Cons.prems(2)
  show ?case unfolding e fold_simps by (auto simp: ok(2) v)
qed

lemma abort_where_ok:
  assumes "forward_ok s"
  shows "forward_ok (fst (abort_where P err s))"
    and "unsettled (fst (abort_where P err s)) q \<longleftrightarrow> unsettled s q \<and> \<not> P (fcalls s ! q)"
    and "unsettled (fst (abort_where P err s)) q \<Longrightarrow> fcalls (fst (abort_where P err s)) ! q = fcalls s ! q"
    and "fisRevoked (fst (abort_where P err s)) = fisRevoked s"
proof -
  let ?hit = "filter (\<lambda>e. P (fcalls s ! snd e)) (finFlight s)"
  have wf: "jm_wf (finFlight s)" using forward_okD(1) [OF assms] .
  have get: "\<forall>(r, p) \<in> set ?hit. jm_get (finFlight s) r = Some p"
    using entries_get [OF wf] by blast
  have hit: "q \<in> snd ` set ?hit \<longleftrightarrow> P (fcalls s ! q)" if "unsettled s q" for q
  proof -
    have "(fw_requestId (fcalls s ! q), q) \<in> set (finFlight s)"
      using forward_okD(6) [OF assms that] by (rule jm_get_in_set)
    then show ?thesis by (auto intro: image_eqI [of _ _ "(fw_requestId (fcalls s ! q), q)"])
  qed
  note d = drops_ok [OF assms entries_distinct [OF wf] get, of err]
  show "forward_ok (fst (abort_where P err s))" "fisRevoked (fst (abort_where P err s)) = fisRevoked s"
    using d by (simp_all add: abort_where_def Let_def)
  show u: "unsettled (fst (abort_where P err s)) q \<longleftrightarrow> unsettled s q \<and> \<not> P (fcalls s ! q)" for q
    using d hit [of q] by (auto simp: abort_where_def Let_def)
  show "unsettled (fst (abort_where P err s)) q \<Longrightarrow> fcalls (fst (abort_where P err s)) ! q = fcalls s ! q"
    using d hit [of q] u [of q] by (auto simp: abort_where_def Let_def)
qed

lemma refuse_view:
  "length (fcalls (refuse a w e s)) = Suc (length (fcalls s))" "finFlight (refuse a w e s) = finFlight s"
  "maxInflight (refuse a w e s) = maxInflight s" "fisRevoked (refuse a w e s) = fisRevoked s"
  "unsettled (refuse a w e s) q = unsettled s q"
  "q < length (fcalls s) \<Longrightarrow> fcalls (refuse a w e s) ! q = fcalls s ! q"
  "\<not> fw_timer (fcalls (refuse a w e s) ! length (fcalls s))"
  by (auto simp: refuse_def unsettled_def fisRevoked_def fun_eq_iff nth_append new_forwarded_def)

lemma unsettled_bound: "unsettled s p \<Longrightarrow> p < length (fcalls s)"
  by (simp add: unsettled_def)

lemma refuse_ok:
  assumes "forward_ok s"
  shows "forward_ok (refuse a w e s)"
proof -
  note f = forward_okD [OF assms]
  have "entry_ok (refuse a w e s) r p" if "jm_get (finFlight s) r = Some p" for r p
    using f(3,4) [OF that] by (simp add: entry_ok_def refuse_view)
  then show ?thesis
    unfolding forward_ok_def refuse_view(1-5)
    using f(1,2,6,7) refuse_view(6,7) unsettled_bound by (auto simp: less_Suc_eq)
qed

lemma register_view:
  "length (fcalls (register a w s)) = Suc (length (fcalls s))"
  "finFlight (register a w s) = jm_set (ad_requestId a) (length (fcalls s)) (finFlight s)"
  "maxInflight (register a w s) = maxInflight s" "fisRevoked (register a w s) = fisRevoked s"
  "unsettled (register a w s) q \<longleftrightarrow> unsettled s q \<or> q = length (fcalls s)"
  "q < length (fcalls s) \<Longrightarrow> fcalls (register a w s) ! q = fcalls s ! q"
  "fcalls (register a w s) ! length (fcalls s) = (new_forwarded a w)\<lparr>fw_listening := True, fw_timer := True\<rparr>"
  by (auto simp: register_def unsettled_def fisRevoked_def fun_eq_iff nth_append new_forwarded_def)

lemma register_ok:
  assumes "forward_ok s" and "\<not> jm_has (finFlight s) (ad_requestId a)" and "length (finFlight s) < maxInflight s"
  shows "forward_ok (register a w s)"
    and "jm_get (finFlight (register a w s)) (ad_requestId a) = Some (length (fcalls s))"
proof -
  note f = forward_okD [OF assms(1)]
  let ?t = "register a w s"
  have none: "jm_get (finFlight s) (ad_requestId a) = None" using assms(2) by (simp add: jm_get_None_iff)
  have old: "entry_ok ?t r p" if "jm_get (finFlight s) r = Some p" for r p
    using f(3,4) [OF that] by (simp add: entry_ok_def register_view)
  have new: "entry_ok ?t (ad_requestId a) (length (fcalls s))"
    by (simp add: entry_ok_def register_view new_forwarded_def)
  have named: "jm_get (finFlight ?t) (fw_requestId (fcalls ?t ! q)) = Some q" if "unsettled s q" for q
    using f(6) [OF that] unsettled_bound [OF that] none by (auto simp: register_view)
  have "length (finFlight ?t) \<le> maxInflight s"
    using assms(2,3) by (simp add: register_view jm_length_set)
  then show "forward_ok ?t"
    unfolding forward_ok_def register_view(1,3,5)
    using f(1,7) old new named
    by (auto simp: register_view(2,6,7) less_Suc_eq new_forwarded_def split: if_splits)
  show "jm_get (finFlight ?t) (ad_requestId a) = Some (length (fcalls s))" by (simp add: register_view)
qed

lemma frames_same [simp]:
  "forward_ok (s\<lparr>frames := fs\<rparr>) = forward_ok s" "unsettled (s\<lparr>frames := fs\<rparr>) = unsettled s"
  "fisRevoked (s\<lparr>frames := fs\<rparr>) = fisRevoked s"
  by (auto simp: forward_ok_def entry_ok_def unsettled_def fisRevoked_def fun_eq_iff)

lemma forward_refusal_None:
  assumes "forward_refusal now a s = None"
  shows "\<not> fisRevoked s (ad_pluginId a) (ad_capability a)" and "\<not> jm_has (finFlight s) (ad_requestId a)"
    and "length (finFlight s) < maxInflight s"
  using assms unfolding forward_refusal_def by (simp_all split: if_splits)

text \<open>What a submission leaves: the calls before are untouched, and a new one that is unsettled was
  admitted.\<close>

lemma admit_step:
  assumes "forward_ok s"
  shows "forward_ok (admitAndRegister now a w f s)"
    and "fisRevoked (admitAndRegister now a w f s) = fisRevoked s"
    and "unsettled (admitAndRegister now a w f s) q \<Longrightarrow> (unsettled s q \<and> fcalls (admitAndRegister now a w f s) ! q = fcalls s ! q)
      \<or> (fw_pluginId (fcalls (admitAndRegister now a w f s) ! q) = ad_pluginId a
        \<and> fw_capability (fcalls (admitAndRegister now a w f s) ! q) = ad_capability a
        \<and> \<not> fisRevoked s (ad_pluginId a) (ad_capability a))"
proof -
  let ?t = "admitAndRegister now a w f s"
  have "forward_ok ?t \<and> fisRevoked ?t = fisRevoked s
    \<and> (\<forall>q. unsettled ?t q \<longrightarrow> (unsettled s q \<and> fcalls ?t ! q = fcalls s ! q)
      \<or> (fw_pluginId (fcalls ?t ! q) = ad_pluginId a \<and> fw_capability (fcalls ?t ! q) = ad_capability a
        \<and> \<not> fisRevoked s (ad_pluginId a) (ad_capability a)))" (is ?all)
  proof (cases "forward_refusal now a s")
    case (Some e)
    then show ?thesis
      using refuse_ok [OF assms] unsettled_bound by (auto simp: admitAndRegister_def refuse_view)
  next
    case None
    note ref = forward_refusal_None [OF None]
    note reg = register_ok [OF assms ref(2,3), of w]
    note rem = fdrop_removed(1) [OF reg, of "\<lambda>_. backpressure_error"]
    note rok = removed_ok [OF reg rem]
    have new: "fw_pluginId (fcalls (register a w s) ! length (fcalls s)) = ad_pluginId a"
      "fw_capability (fcalls (register a w s) ! length (fcalls s)) = ad_capability a"
      by (simp_all add: register_view new_forwarded_def)
    have kept: "unsettled s q \<Longrightarrow> fcalls (register a w s) ! q = fcalls s ! q" for q
      using register_view(6) unsettled_bound by blast
    show ?thesis
    proof (cases f)
      case None
      with \<open>forward_refusal now a s = None\<close> have t: "?t = fdrop (\<lambda>_. backpressure_error) (ad_requestId a, length (fcalls s)) (register a w s)"
        by (simp add: admitAndRegister_def)
      show ?thesis unfolding t
        using rok rem kept by (auto simp: removed_def register_view(4,5))
    next
      case (Some fr)
      with None have t: "?t = (register a w s)\<lparr>frames := frames s @ [fr]\<rparr>" by (simp add: admitAndRegister_def)
      show ?thesis unfolding t
        using reg(1) kept new ref(1) by (auto simp: register_view(4,5))
    qed
  qed
  then show "forward_ok ?t" "fisRevoked ?t = fisRevoked s"
    "unsettled ?t q \<Longrightarrow> (unsettled s q \<and> fcalls ?t ! q = fcalls s ! q)
      \<or> (fw_pluginId (fcalls ?t ! q) = ad_pluginId a \<and> fw_capability (fcalls ?t ! q) = ad_capability a
        \<and> \<not> fisRevoked s (ad_pluginId a) (ad_capability a))" by blast+
qed

lemma fdeadline_drops:
  assumes "forward_ok s" and "p < length (fcalls s)" and "fw_timer (fcalls s ! p)"
  shows "jm_get (finFlight s) (fw_requestId (fcalls s ! p)) = Some p"
    and "fdeadline_fires p s = fdrop (\<lambda>_. fdeadline_error) (fw_requestId (fcalls s ! p), p) s"
proof -
  show get: "jm_get (finFlight s) (fw_requestId (fcalls s ! p)) = Some p"
    using forward_okD(6,7) [OF assms(1)] assms(2,3) by blast
  have "fw_abort (fcalls s ! p) = None" "fw_listening (fcalls s ! p)"
    using forward_okD(3) [OF assms(1) get] by (simp_all add: entry_ok_def)
  then show "fdeadline_fires p s = fdrop (\<lambda>_. fdeadline_error) (fw_requestId (fcalls s ! p), p) s"
    using assms(2) get by (simp add: fdeadline_fires_def fdrop_def fclear_timer_def fabort_def fsettle_def Let_def)
qed

lemma fold_fdrop: "fold (fdrop (\<lambda>_. e)) es s
    = (fold (\<lambda>p s. fclear_timer p (fabort p e s)) (map snd es) s)\<lparr>finFlight := fold (\<lambda>x. jm_delete (fst x)) es (finFlight s)\<rparr>"
proof (induction es arbitrary: s)
  case Nil
  then show ?case by simp
next
  case (Cons x es)
  let ?g = "\<lambda>p s. fclear_timer p (fabort p e s)"
  have step: "fold ?g ps (s\<lparr>finFlight := m\<rparr>) = (fold ?g ps s)\<lparr>finFlight := m\<rparr>" for ps m and s :: forwarding
    by (rule fold_commutes) (simp add: fw_defs Let_def)
  have "finFlight (?g p s) = finFlight s" for p s by (simp add: fw_defs Let_def)
  have "fold (fdrop (\<lambda>_. e)) (x # es) s = fold (fdrop (\<lambda>_. e)) es (fdrop (\<lambda>_. e) x s)" by simp
  also have "\<dots> = (fold ?g (map snd es) (fdrop (\<lambda>_. e) x s))
      \<lparr>finFlight := fold (\<lambda>x. jm_delete (fst x)) es (finFlight (fdrop (\<lambda>_. e) x s))\<rparr>" by (rule Cons.IH)
  also have "fdrop (\<lambda>_. e) x s = (?g (snd x) s)\<lparr>finFlight := jm_delete (fst x) (finFlight s)\<rparr>"
    by (simp add: fdrop_def)
  finally show ?case unfolding step by simp
qed

lemma fshutdown_drops: "jm_wf (finFlight s) \<Longrightarrow> fshutdown s = fold (fdrop (\<lambda>_. shutdown_error)) (finFlight s) s"
  by (simp add: fold_fdrop fold_delete fshutdown_def)

lemma fshutdown_ok:
  assumes "forward_ok s"
  shows "forward_ok (fshutdown s)" and "\<not> unsettled (fshutdown s) q" and "fisRevoked (fshutdown s) = fisRevoked s"
proof -
  note f = forward_okD [OF assms]
  have get: "\<forall>(r, p) \<in> set (finFlight s). jm_get (finFlight s) r = Some p"
    using f(1) by (auto intro: jm_get_SomeI)
  note d = drops_ok [OF assms f(1) get, of "\<lambda>_. shutdown_error"]
  show "forward_ok (fshutdown s)" "fisRevoked (fshutdown s) = fisRevoked s"
    using d by (simp_all add: fshutdown_drops [OF f(1)])
  show "\<not> unsettled (fshutdown s) q"
  proof
    assume "unsettled (fshutdown s) q"
    then have q: "unsettled s q" "q \<notin> snd ` set (finFlight s)" using d by (simp_all add: fshutdown_drops [OF f(1)])
    from jm_get_in_set [OF f(6) [OF q(1)]] have "q \<in> snd ` set (finFlight s)" by force
    with q(2) show False by simp
  qed
qed

text \<open>A marked revocation.\<close>

abbreviation fmarked :: "string \<Rightarrow> string option \<Rightarrow> forwarding \<Rightarrow> forwarding" where
  "fmarked pid name s \<equiv> case name of None \<Rightarrow> s\<lparr>frevokedPlugins := insert_new pid (frevokedPlugins s)\<rparr>
      | Some n \<Rightarrow> s\<lparr>frevokedPairs := insert_new (pairKey pid n) (frevokedPairs s)\<rparr>"

lemma fmarked_view:
  "forward_ok (fmarked pid name s) = forward_ok s" "unsettled (fmarked pid name s) = unsettled s"
  "fcalls (fmarked pid name s) = fcalls s"
  "fisRevoked (fmarked pid name s) p n \<longleftrightarrow> fisRevoked s p n
     \<or> (case name of None \<Rightarrow> p = pid | Some m \<Rightarrow> pairKey p n = pairKey pid m)"
  by (auto simp: forward_ok_def entry_ok_def unsettled_def fisRevoked_def fun_eq_iff split: option.splits)

section \<open>Schedules\<close>

definition grants_ok :: "forwarding \<Rightarrow> bool" where
  "grants_ok s \<longleftrightarrow> forward_ok s
     \<and> (\<forall>p. unsettled s p \<longrightarrow> NUL \<notin> set (fw_pluginId (fcalls s ! p))
          \<and> \<not> fisRevoked s (fw_pluginId (fcalls s ! p)) (fw_capability (fcalls s ! p)))"

fun forward_allowed :: "forward_event \<Rightarrow> forwarding \<Rightarrow> bool" where
  "forward_allowed (FSubmit now v w) s = (NUL \<notin> set (ad_pluginId (call_admission v)))"
| "forward_allowed (FSubmitOpaque now a b w) s = (NUL \<notin> set (ad_pluginId a))"
| "forward_allowed (FRevoke pid name reason) s = (NUL \<notin> set pid)"
| "forward_allowed _ s = True"

definition fsame :: "forwarding \<Rightarrow> forwarding \<Rightarrow> bool" where
  "fsame s t \<longleftrightarrow> forward_ok t \<and> fisRevoked t = fisRevoked s
     \<and> (\<forall>p. unsettled t p \<longrightarrow> unsettled s p \<and> fcalls t ! p = fcalls s ! p)"

lemma fsame_ok: "grants_ok s \<Longrightarrow> fsame s t \<Longrightarrow> grants_ok t"
  unfolding grants_ok_def fsame_def by simp

text \<open>Every event but a submission or a revocation only settles calls.\<close>

lemma forward_step_same:
  assumes "forward_ok s"
  shows "fsame s (forward_step (FDeadline p) s)" and "fsame s (forward_step (FResponse body) s)"
    and "fsame s (forward_step (FAbortWorker wid epoch) s)" and "fsame s (forward_step FShutdown s)"
proof -
  have removal: "fsame s t" if "jm_get (finFlight s) r = Some q" "removed r q s t" for r q t
    using removed_ok [OF assms that] that(2) unfolding fsame_def by (auto simp: removed_def)
  have refl: "fsame s s" using assms by (simp add: fsame_def)
  show "fsame s (forward_step (FDeadline p) s)"
    using fdeadline_drops [OF assms, of p] removal fdrop_removed(1) [OF assms] refl by auto
  show "fsame s (forward_step (FResponse body) s)"
  proof (cases "jm_get (finFlight s) (rp_requestId body)")
    case None
    then show ?thesis by (simp add: handleRpcResponse_def refl)
  next
    case (Some q)
    then show ?thesis
      using removal [OF Some response_removed [OF assms Some]] refl
      by (cases "fw_worker (fcalls s ! q) = (rp_workerId body, rp_workerEpoch body)")
        (auto simp: handleRpcResponse_def)
  qed
  show "fsame s (forward_step (FAbortWorker wid epoch) s)"
    using abort_where_ok [OF assms] by (auto simp: fsame_def abortWorker_def)
  show "fsame s (forward_step FShutdown s)"
    using fshutdown_ok [OF assms] by (simp add: fsame_def)
qed

lemma forward_submit_ok:
  assumes "grants_ok s" and "NUL \<notin> set (ad_pluginId a)"
  shows "grants_ok (admitAndRegister now a w f s)"
  using assms admit_step [of s now a w f] unfolding grants_ok_def by fastforce

lemma frevoke_step:
  assumes "grants_ok s" and "NUL \<notin> set pid"
  shows "grants_ok (fst (frevoke pid name reason s))"
    and "fisRevoked s p n \<Longrightarrow> fisRevoked (fst (frevoke pid name reason s)) p n"
proof -
  have ok: "forward_ok (fmarked pid name s)" using assms(1) by (simp add: fmarked_view grants_ok_def)
  note a = abort_where_ok [OF ok, of "frevoke_matches pid name" "frevoked_error pid reason"]
  have f: "fst (frevoke pid name reason s)
      = fst (abort_where (frevoke_matches pid name) (frevoked_error pid reason) (fmarked pid name s))"
    by (simp add: frevoke_def fabortInFlight_def)
  have "\<not> fisRevoked (fmarked pid name s) (fw_pluginId (fcalls s ! q)) (fw_capability (fcalls s ! q))"
    if "unsettled s q" "\<not> frevoke_matches pid name (fcalls s ! q)" for q
    using that assms unfolding fmarked_view grants_ok_def frevoke_matches_def
    by (auto simp: pairKey_eq split: option.splits)
  then show "grants_ok (fst (frevoke pid name reason s))"
    unfolding grants_ok_def f
    using a assms(1) by (simp add: fmarked_view(2,3) grants_ok_def)
  show "fisRevoked s p n \<Longrightarrow> fisRevoked (fst (frevoke pid name reason s)) p n"
    unfolding f a(4) fmarked_view by blast
qed

lemma forward_step_ok:
  assumes "grants_ok s" and "forward_allowed e s"
  shows "grants_ok (forward_step e s)" and "fisRevoked s pid name \<Longrightarrow> fisRevoked (forward_step e s) pid name"
proof -
  have ok: "forward_ok s" using assms(1) by (simp add: grants_ok_def)
  note same = forward_step_same [OF ok]
  have rev: "fsame s t \<Longrightarrow> fisRevoked t = fisRevoked s" for t by (simp add: fsame_def)
  show "grants_ok (forward_step e s)"
    using assms fsame_ok [OF assms(1)] same forward_submit_ok [OF assms(1)] frevoke_step(1) [OF assms(1)]
    by (cases e) (auto simp: fsubmit_def fsubmitOpaque_def Let_def simp del: forward_step.simps(3-5,7))
  show "fisRevoked s pid name \<Longrightarrow> fisRevoked (forward_step e s) pid name"
    using assms(2) same [THEN rev] admit_step(2) [OF ok] frevoke_step(2) [OF assms(1)]
    by (cases e) (auto simp: fsubmit_def fsubmitOpaque_def Let_def simp del: forward_step.simps(3-5,7))
qed

definition awaiting :: "forwarding \<Rightarrow> string \<Rightarrow> string \<Rightarrow> nat \<Rightarrow> bool" where
  "awaiting s pid name p \<longleftrightarrow> unsettled s p \<and> fw_pluginId (fcalls s ! p) = pid \<and> fw_capability (fcalls s ! p) = name"

lemma grants_dead: "grants_ok s \<Longrightarrow> fisRevoked s pid name \<Longrightarrow> \<not> awaiting s pid name p"
  by (auto simp: awaiting_def grants_ok_def)

interpretation host_core: revocable_broker forward_step forward_allowed grants_ok fisRevoked awaiting
  by unfold_locales (rule forward_step_ok grants_dead; assumption)+

lemma forward_ok_step: "forward_ok s \<Longrightarrow> forward_ok (forward_step e s)"
  using admit_step(1) [of s] forward_step_same [of s] abort_where_ok(1)
  by (cases e) (auto simp: fsubmit_def fsubmitOpaque_def frevoke_def fabortInFlight_def fmarked_view fsame_def Let_def
      simp del: forward_step.simps(3-5,7))

interpretation forward_events: event_system forward_step forward_ok
  by unfold_locales (rule forward_ok_step)

lemma fold_maxInflight: "(\<And>x s. maxInflight (g x s) = maxInflight s) \<Longrightarrow> maxInflight (fold g xs s) = maxInflight s"
  by (induction xs arbitrary: s) simp_all

lemma maxInflight_step [simp]: "maxInflight (forward_step e s) = maxInflight s"
proof -
  have prim: "maxInflight (fdrop err x s) = maxInflight s" "maxInflight (fclear_timer p (fabort p e s)) = maxInflight s"
    "maxInflight (fclear_timer p s) = maxInflight s" for err x p e s
    by (simp_all add: fdrop_def fclear_timer_def fabort_def fsettle_def Let_def)
  have stop: "maxInflight (fold (\<lambda>p s. fclear_timer p (fabort p shutdown_error s)) ps s) = maxInflight s" for ps s
    by (rule fold_maxInflight) (rule prim)
  have where_same: "maxInflight (fst (abort_where P err s)) = maxInflight s" for P err s
    by (simp add: abort_where_def Let_def fold_maxInflight prim)
  show ?thesis
    by (cases e) (auto simp: fsubmit_def fsubmitOpaque_def admitAndRegister_def register_def refuse_def prim
        fdeadline_fires_def handleRpcResponse_def fsettle_def abortWorker_def frevoke_def fabortInFlight_def where_same
        fshutdown_def stop Let_def split: option.splits)
qed

lemma maxInflight_run [simp]: "maxInflight (run_events forward_step es s) = maxInflight s"
  by (induction es arbitrary: s) simp_all

lemma pending_unsettled:
  assumes "forward_ok s"
  shows "length (finFlight s) = length (filter (unsettled s) [0..<length (fcalls s)])"
proof -
  note f = forward_okD [OF assms]
  have get: "(r, p) \<in> set (finFlight s) \<Longrightarrow> jm_get (finFlight s) r = Some p" for r p
    using f(1) by (rule jm_get_SomeI)
  have "inj_on snd (set (finFlight s))"
  proof (rule inj_onI)
    fix x y assume xy: "x \<in> set (finFlight s)" "y \<in> set (finFlight s)" "snd x = snd y"
    then have "fst x = fst y" using f(5) get by (metis prod.collapse)
    with xy(3) show "x = y" by (simp add: prod_eq_iff)
  qed
  then have "distinct (jm_values (finFlight s))" using f(1) by (simp add: distinct_map)
  moreover have "set (jm_values (finFlight s)) = set (filter (unsettled s) [0..<length (fcalls s)])"
  proof (intro set_eqI iffI)
    fix p assume "p \<in> set (jm_values (finFlight s))"
    then obtain r where "(r, p) \<in> set (finFlight s)" by auto
    then show "p \<in> set (filter (unsettled s) [0..<length (fcalls s)])"
      using f(3) [OF get] f(4) [OF get] by (simp add: entry_ok_def)
  next
    fix p assume "p \<in> set (filter (unsettled s) [0..<length (fcalls s)])"
    then show "p \<in> set (jm_values (finFlight s))"
      using jm_get_in_set [OF f(6) [of p]] by force
  qed
  ultimately show ?thesis
    by (metis distinct_card distinct_filter distinct_upt length_map)
qed

section \<open>What the forwarding core guarantees\<close>

text \<open>The forwarding core loses no call: after any run the in-flight map counts exactly the calls whose
  promise is open, never more than the capacity, and each of them has its deadline timer set.\<close>

theorem forwarded_calls_accounted:
  "let s = run_events forward_step es (new_forwarding limit pipe) in
     fpendingCount s = length (filter (unsettled s) [0..<length (fcalls s)])
     \<and> fpendingCount s \<le> (case limit of None \<Rightarrow> DEFAULT_MAX_INFLIGHT | Some n \<Rightarrow> n)
     \<and> list_all (\<lambda>p. unsettled s p = fw_timer (fcalls s ! p)) [0..<length (fcalls s)]"
proof -
  let ?s = "run_events forward_step es (new_forwarding limit pipe)"
  have ok: "forward_ok ?s" by (rule forward_events.inv_run [OF new_forwarding_ok])
  note f = forward_okD [OF ok]
  have "unsettled ?s p = fw_timer (fcalls ?s ! p)" if "p < length (fcalls ?s)" for p
    using f(3) [OF f(6) [of p]] f(7) [OF that] by (auto simp: entry_ok_def)
  moreover have "maxInflight ?s = (case limit of None \<Rightarrow> DEFAULT_MAX_INFLIGHT | Some n \<Rightarrow> n)"
    by (simp add: new_forwarding_def)
  ultimately show ?thesis
    using f(2) pending_unsettled [OF ok] by (simp add: fpendingCount_def list_all_iff Let_def)
qed

text \<open>Once a capability is revoked no promise of a call for it stays open, whatever the order of
  requests, responses, timers and worker exits.\<close>

theorem revoked_forwarding_settles:
  assumes "schedule_ok forward_allowed forward_step es (new_forwarding limit pipe)"
    and "fisRevoked (run_events forward_step es (new_forwarding limit pipe)) pid name"
  shows "\<not> awaiting (run_events forward_step es (new_forwarding limit pipe)) pid name p"
proof -
  have "grants_ok (new_forwarding limit pipe)"
    using new_forwarding_ok by (simp add: grants_ok_def unsettled_def new_forwarding_def)
  from host_core.ok_run [OF this assms(1)] assms(2) show ?thesis by (rule host_core.revoked_dead)
qed

lemma example_forward: "forward_refusal 100 (call_admission example_call) (new_forwarding None b) = None"
  by (simp add: forward_refusal_def example_admission new_forwarding_def fisRevoked_def BROKER_MAX_DEADLINE_MS_def
      DEFAULT_MAX_INFLIGHT_def)

theorem revoked_forwarding_settles_witness:
  "\<not> awaiting (run_events forward_step [FSubmit 100 example_call None, FRevoke ''notes'' None None] (new_forwarding None False))
     ''notes'' ''storage.kv'' 0"
proof (rule revoked_forwarding_settles)
  show "schedule_ok forward_allowed forward_step [FSubmit 100 example_call None, FRevoke ''notes'' None None]
      (new_forwarding None False)"
    by (simp add: example_admission NUL_def)
  have "fisRevoked (fst (frevoke ''notes'' None None s)) ''notes'' n" if "forward_ok s" for s n
  proof -
    have "forward_ok (fmarked ''notes'' None s)" using that fmarked_view(1) [where pid = "''notes''" and name = None and s = s] by simp
    from abort_where_ok(4) [OF this] show ?thesis
      by (simp add: frevoke_def fabortInFlight_def) (simp add: fisRevoked_def)
  qed
  then show "fisRevoked (run_events forward_step [FSubmit 100 example_call None, FRevoke ''notes'' None None]
      (new_forwarding None False)) ''notes'' ''storage.kv''"
    using forward_ok_step [OF new_forwarding_ok [of None False], where e = "FSubmit 100 example_call None"] by simp
qed

text \<open>The exit of a worker fails exactly the open calls of that incarnation.\<close>

theorem worker_exit_fails_its_calls:
  "let s = run_events forward_step es (new_forwarding limit pipe); t = forward_step (FAbortWorker wid epoch) s in
     unsettled t p \<longleftrightarrow> unsettled s p \<and> fw_worker (fcalls s ! p) \<noteq> (wid, epoch)"
  using abort_where_ok(2) [OF forward_events.inv_run [OF new_forwarding_ok]] by (simp add: abortWorker_def Let_def)

text \<open>Both cores admit alike: with the same revocations, the same request ids in flight and room left,
  the forwarding core refuses a well-formed call exactly when the local core does, its policy allowing,
  and with the same error.\<close>

theorem cores_admit_alike:
  assumes "assertBrokerCallShape v" and "isRevoked s = fisRevoked t"
    and "set (jm_keys (inFlight s)) = set (jm_keys (finFlight t))" and "length (finFlight t) < maxInflight t"
  shows "core_refusal now Allowed v s = forward_refusal now (call_admission v) t"
  using assms by (simp add: core_refusal_def forward_refusal_def invalidCall_def Let_def)

theorem cores_admit_alike_witness:
  "forward_refusal 100 (call_admission example_call) (new_forwarding None True) = None"
proof -
  have "assertBrokerCallShape example_call" using core_refusal_None(1) [OF example_refusal] .
  from cores_admit_alike [OF this, of new_core "new_forwarding None True" 100]
  have "core_refusal 100 Allowed example_call new_core = forward_refusal 100 (call_admission example_call) (new_forwarding None True)"
    by (simp add: isRevoked_def fisRevoked_def new_core_def new_forwarding_def fun_eq_iff DEFAULT_MAX_INFLIGHT_def)
  then show ?thesis using example_refusal by simp
qed

end
