(* ===== verification/Governor.thy ===== *)
theory Governor
  imports Prelude
begin

text \<open>
  The resource governor of the server (\<open>apps/server/src/plugin/resourceGovernor.ts\<close>): the ledger of
  plugin processes, the sampling pass, the pressure ladder, admission and the requests to terminate a
  plugin.

  A sampling pass awaits once per process, so it is a state machine between whose steps other calls
  run: the iterator over the ledger is the number of entries behind it, and the entry being sampled is
  an object of a store that may have left the ledger meanwhile. Readings are rational numbers of bytes
  and milliseconds; times are arguments of the events. The random trace id of an action is left out.
\<close>

named_theorems gov_defs \<open>definitions of the governor operations\<close>

section \<open>State\<close>

definition MIB :: rat where "MIB = 1024 * 1024"

datatype pressure = PressureOk | PressureSoft | PressureElevated | PressureCritical | PressureHard

fun pressure_rank :: "pressure \<Rightarrow> nat" where
  "pressure_rank PressureOk = 0"
| "pressure_rank PressureSoft = 1"
| "pressure_rank PressureElevated = 2"
| "pressure_rank PressureCritical = 3"
| "pressure_rank PressureHard = 4"

lemma pressure_rank_inj: "pressure_rank x = pressure_rank y \<Longrightarrow> x = y"
  by (cases x; cases y) simp_all

instantiation pressure :: linorder
begin

definition less_eq_pressure :: "pressure \<Rightarrow> pressure \<Rightarrow> bool" where
  "less_eq_pressure x y = (pressure_rank x \<le> pressure_rank y)"

definition less_pressure :: "pressure \<Rightarrow> pressure \<Rightarrow> bool" where
  "less_pressure x y = (pressure_rank x < pressure_rank y)"

instance
  by standard (auto simp: less_eq_pressure_def less_pressure_def dest: pressure_rank_inj)

end

record plugin_resource_config =
  mainRssHardMiB :: rat
  processTreeRssSoftMiB :: rat
  processTreeRssHardMiB :: rat
  aggregateRssSoftMiB :: rat
  aggregateRssHardMiB :: rat
  backgroundCpuPercent :: rat

record process_info =
  pluginId :: string
  pid :: nat
  heapMiB :: rat
  rssSoftMiB :: rat
  rssHardMiB :: rat
  cpuSoftPercent :: rat
  cpuHardPercent :: rat

datatype reading_source = FromProc | FromIpc

record process_state = process_info +
  rssBytes :: "rat option"
  cpuMs :: rat
  lastCpuMs :: rat
  rssViolationSamples :: nat
  cpuViolationSamples :: nat
  terminated :: bool
  source :: "reading_source option"
  startedAt :: rat

record process_sample =
  sampleRss :: "rat option"
  sampleCpu :: "rat option"

record cgroup_info =
  available :: bool
  memoryCurrentMiB :: "rat option"
  memoryMaxMiB :: "rat option"
  memoryHighMiB :: "rat option"

record governor_action =
  at_time :: rat
  act_pluginId :: "string option"
  act_resource :: string
  act_currentMiB :: "rat option"
  act_limitMiB :: rat
  act_action :: string

text \<open>Where a sampling pass waits: for the cgroup snapshot, or for the sample of one process. The
  numbers are the elapsed time, the aggregate so far, the entries behind the iterator and the process.\<close>

datatype tick_phase = ReadingCgroup rat | Sampling rat rat nat nat

record governor =
  config :: plugin_resource_config
  hardViolationSamples :: nat
  cpuHardConsecutiveSamples :: nat
  cgroupOverride :: "cgroup_info option option"
  store :: "process_state list"
  processes :: "(string, nat) jmap"
  actions :: "governor_action list"
  tick :: "tick_phase option"
  level :: pressure
  selfPressure :: bool
  cgroup :: "cgroup_info option"
  mainRssBytes :: rat
  aggregateRssBytes :: rat
  treeRssBytes :: rat
  lastSampleAt :: rat

definition new_governor :: "plugin_resource_config \<Rightarrow> nat option \<Rightarrow> nat option \<Rightarrow> cgroup_info option option \<Rightarrow> rat
    \<Rightarrow> governor" where
  "new_governor c hard cpu override now = \<lparr>config = c,
     hardViolationSamples = (case hard of None \<Rightarrow> 2 | Some n \<Rightarrow> n),
     cpuHardConsecutiveSamples = (case cpu of None \<Rightarrow> 3 | Some n \<Rightarrow> n), cgroupOverride = override,
     store = [], processes = [], actions = [], tick = None, level = PressureOk, selfPressure = False,
     cgroup = None, mainRssBytes = 0, aggregateRssBytes = 0, treeRssBytes = 0, lastSampleAt = now\<rparr>"

text \<open>What the governor asks of its host.\<close>

datatype gov_effect =
  OnTerminate nat string string
| OnPressureChange pressure
| WarnUnattributed

section \<open>Ledger and admission\<close>

definition ACTION_HISTORY_LIMIT :: nat where "ACTION_HISTORY_LIMIT = 50"

definition roundMiB :: "rat \<Rightarrow> rat" where
  "roundMiB b = js_round (b / MIB * 100) / 100"

definition cpu_hard :: "plugin_resource_config \<Rightarrow> rat" where
  "cpu_hard c = min 95 (js_round (backgroundCpuPercent c * (9 / 10) / 10) * 10)"

definition cpu_soft :: "plugin_resource_config \<Rightarrow> rat" where
  "cpu_soft c = js_round (cpu_hard c * (7 / 10))"

record resource_limits =
  lim_heapMiB :: rat
  lim_rssSoftMiB :: rat
  lim_rssHardMiB :: rat
  lim_cpuSoftPercent :: rat
  lim_cpuHardPercent :: rat

definition limitsFor :: "string \<Rightarrow> governor \<Rightarrow> resource_limits option" where
  "limitsFor i g = map_option (\<lambda>p. let s = store g ! p in
     \<lparr>lim_heapMiB = heapMiB s, lim_rssSoftMiB = rssSoftMiB s, lim_rssHardMiB = rssHardMiB s,
      lim_cpuSoftPercent = cpuSoftPercent s, lim_cpuHardPercent = cpuHardPercent s\<rparr>) (jm_get (processes g) i)"

definition registerProcess :: "rat \<Rightarrow> process_info \<Rightarrow> governor \<Rightarrow> governor" where
  [gov_defs]: "registerProcess now info g = g\<lparr>store := store g @ [process_info.extend info
       \<lparr>rssBytes = None, cpuMs = 0, lastCpuMs = 0, rssViolationSamples = 0, cpuViolationSamples = 0,
        terminated = False, source = None, startedAt = now\<rparr>],
     processes := jm_set (pluginId info) (length (store g)) (processes g)\<rparr>"

text \<open>Deleting an entry behind the iterator of a pass moves the iterator with the rest.\<close>

definition shift_tick :: "string \<Rightarrow> governor \<Rightarrow> tick_phase option" where
  "shift_tick i g = (case tick g of
       Some (Sampling e a cursor p) \<Rightarrow>
         Some (Sampling e a (if i \<in> set (take cursor (jm_keys (processes g))) then cursor - 1 else cursor) p)
     | ph \<Rightarrow> ph)"

definition unregisterProcess :: "string \<Rightarrow> governor \<Rightarrow> governor" where
  [gov_defs]: "unregisterProcess i g = g\<lparr>tick := shift_tick i g, processes := jm_delete i (processes g)\<rparr>"

definition isTerminated :: "string \<Rightarrow> governor \<Rightarrow> bool" where
  "isTerminated i g = (case jm_get (processes g) i of None \<Rightarrow> False | Some p \<Rightarrow> terminated (store g ! p))"

definition put_process :: "nat \<Rightarrow> process_state \<Rightarrow> governor \<Rightarrow> governor" where
  [gov_defs]: "put_process p s g = g\<lparr>store := (store g)[p := s]\<rparr>"

definition handleUsageReport :: "string \<Rightarrow> jnum \<Rightarrow> rat \<Rightarrow> governor \<Rightarrow> governor" where
  [gov_defs]: "handleUsageReport i rss cpu g = (case (jm_get (processes g) i, rss) of
       (Some p, Num r) \<Rightarrow>
         (let s = store g ! p in
          if source s = Some FromProc \<and> rssBytes s \<noteq> None then g
          else put_process p (s\<lparr>rssBytes := Some r, cpuMs := cpu, source := Some FromIpc\<rparr>) g)
     | _ \<Rightarrow> g)"

datatype admission_kind = PluginStart | Maintenance | Heavy | Background

datatype admission_result = Admitted | Refused nat pressure

definition canAdmit :: "admission_kind \<Rightarrow> governor \<Rightarrow> admission_result" where
  "canAdmit kind g =
     (if level g = PressureHard \<or> selfPressure g then Refused 30000 (level g)
      else if kind = PluginStart \<or> kind = Background then
        (if level g = PressureCritical then Refused 10000 (level g) else Admitted)
      else if level g \<noteq> PressureOk then Refused 10000 (level g) else Admitted)"

section \<open>Termination\<close>

definition recordAction :: "governor_action \<Rightarrow> governor \<Rightarrow> governor" where
  [gov_defs]: "recordAction a g = g\<lparr>actions := (let as = actions g @ [a] in
     if length as > ACTION_HISTORY_LIMIT then drop (length as - ACTION_HISTORY_LIMIT) as else as)\<rparr>"

definition requestTermination :: "rat \<Rightarrow> nat \<Rightarrow> string \<Rightarrow> governor \<Rightarrow> governor \<times> gov_effect list" where
  [gov_defs]: "requestTermination now p reason g = (let s = store g ! p in
     if terminated s then (g, [])
     else (recordAction \<lparr>at_time = now, act_pluginId = Some (pluginId s), act_resource = ''rss'',
              act_currentMiB = map_option roundMiB (rssBytes s), act_limitMiB = roundMiB (rssHardMiB s * MIB),
              act_action = reason\<rparr> (put_process p (s\<lparr>terminated := True\<rparr>) g),
           [OnTerminate p (pluginId s) reason]))"

definition over_hard :: "process_state \<Rightarrow> bool" where
  "over_hard s = (case rssBytes s of None \<Rightarrow> False | Some b \<Rightarrow> b > rssHardMiB s * MIB)"

definition evaluate_rss :: "rat \<Rightarrow> nat \<Rightarrow> governor \<Rightarrow> governor \<times> gov_effect list" where
  [gov_defs]: "evaluate_rss now p g = (let s = store g ! p in
     if over_hard s then
       (let n = Suc (rssViolationSamples s); g1 = put_process p (s\<lparr>rssViolationSamples := n\<rparr>) g
        in if n \<ge> hardViolationSamples g then requestTermination now p ''RESOURCE_LIMIT_EXCEEDED'' g1 else (g1, []))
     else (put_process p (s\<lparr>rssViolationSamples := 0\<rparr>) g, []))"

definition cpu_usage :: "rat \<Rightarrow> process_state \<Rightarrow> rat" where
  "cpu_usage elapsed s = (cpuMs s - lastCpuMs s) / elapsed"

definition evaluate_cpu :: "rat \<Rightarrow> rat \<Rightarrow> nat \<Rightarrow> governor \<Rightarrow> governor \<times> gov_effect list" where
  [gov_defs]: "evaluate_cpu now elapsed p g = (let s = store g ! p in
     if elapsed > 0 \<and> cpuMs s > 0 then
       (if cpu_usage elapsed s \<ge> cpu_hard (config g) / 100 then
          (let n = Suc (cpuViolationSamples s);
               g1 = put_process p (s\<lparr>lastCpuMs := cpuMs s, cpuViolationSamples := n\<rparr>) g
           in if n \<ge> cpuHardConsecutiveSamples g then requestTermination now p ''CPU_WATCHDOG'' g1 else (g1, []))
        else (put_process p (s\<lparr>lastCpuMs := cpuMs s, cpuViolationSamples := 0\<rparr>) g, []))
     else (g, []))"

definition evaluateProcess :: "rat \<Rightarrow> rat \<Rightarrow> nat \<Rightarrow> governor \<Rightarrow> governor \<times> gov_effect list" where
  [gov_defs]: "evaluateProcess now elapsed p g =
     (if terminated (store g ! p) then (g, [])
      else let (g1, out1) = evaluate_rss now p g; (g2, out2) = evaluate_cpu now elapsed p g1 in (g2, out1 @ out2))"

section \<open>The pressure ladder\<close>

definition any_terminated :: "governor \<Rightarrow> bool" where
  "any_terminated g = list_ex (\<lambda>p. terminated (store g ! p)) (jm_values (processes g))"

definition computeLevel :: "governor \<Rightarrow> governor \<times> pressure" where
  [gov_defs]: "computeLevel g =
     (let c = config g; agg = aggregateRssBytes g; tree = treeRssBytes g;
          aggSoft = aggregateRssSoftMiB c * MIB; treeSoft = processTreeRssSoftMiB c * MIB
      in if any_terminated g then (g, PressureHard)
         else if agg \<ge> aggregateRssHardMiB c * MIB \<or> tree \<ge> processTreeRssHardMiB c * MIB then (g, PressureHard)
         else if mainRssBytes g \<ge> mainRssHardMiB c * MIB then (g\<lparr>selfPressure := True\<rparr>, PressureCritical)
         else (g\<lparr>selfPressure := False\<rparr>,
           if agg \<ge> aggSoft \<or> tree \<ge> treeSoft then PressureCritical
           else if agg \<ge> aggSoft * (9 / 10) \<or> tree \<ge> treeSoft * (9 / 10) then PressureElevated
           else if agg \<ge> aggSoft * (8 / 10) \<or> tree \<ge> treeSoft * (8 / 10) then PressureSoft
           else PressureOk))"

definition pressure_name :: "pressure \<Rightarrow> string" where
  "pressure_name x = (case x of PressureOk \<Rightarrow> ''ok'' | PressureSoft \<Rightarrow> ''soft'' | PressureElevated \<Rightarrow> ''elevated''
     | PressureCritical \<Rightarrow> ''critical'' | PressureHard \<Rightarrow> ''hard'')"

text \<open>The scan for the victim: the largest overage so far and its ratio.\<close>

definition overage :: "process_state \<Rightarrow> rat option" where
  "overage s = (if terminated s then None else map_option (\<lambda>b. b / max 1 (rssHardMiB s * MIB)) (rssBytes s))"

definition scan_victim :: "governor \<Rightarrow> nat \<Rightarrow> nat option \<times> rat \<Rightarrow> nat option \<times> rat" where
  "scan_victim g p best = (case overage (store g ! p) of
       None \<Rightarrow> best | Some ratio \<Rightarrow> if ratio > snd best then (Some p, ratio) else best)"

definition terminateVictims :: "rat \<Rightarrow> governor \<Rightarrow> governor \<times> gov_effect list" where
  [gov_defs]: "terminateVictims now g =
     (if level g \<noteq> PressureHard then (g, [])
      else case fold (scan_victim g) (jm_values (processes g)) (None, 0) of
        (Some p, ratio) \<Rightarrow> if ratio > 1 then requestTermination now p ''RESOURCE_LIMIT_EXCEEDED'' g else (g, [])
      | (None, _) \<Rightarrow> (g, [WarnUnattributed]))"

section \<open>The sampling pass\<close>

definition tree_reading :: "governor \<Rightarrow> rat option" where
  "tree_reading g = Option.bind (cgroup g) memoryCurrentMiB"

definition finish_tick :: "rat \<Rightarrow> rat \<Rightarrow> governor \<Rightarrow> governor \<times> gov_effect list" where
  [gov_defs]: "finish_tick now aggregate g =
     (let g1 = g\<lparr>tick := None, aggregateRssBytes := aggregate,
             treeRssBytes := (case tree_reading g of Some t \<Rightarrow> t * MIB | None \<Rightarrow> mainRssBytes g + aggregate)\<rparr>;
          (g2, next) = computeLevel g1;
          (g3, out) = (if next \<noteq> level g2
            then (recordAction \<lparr>at_time = now, act_pluginId = None, act_resource = ''tree'',
                    act_currentMiB = Some (roundMiB (treeRssBytes g2)),
                    act_limitMiB = roundMiB (processTreeRssSoftMiB (config g2) * MIB),
                    act_action = ''pressure:'' @ pressure_name next\<rparr> (g2\<lparr>level := next\<rparr>),
                  [OnPressureChange next])
            else (g2, []));
          (g4, out') = terminateVictims now g3
      in (g4, out @ out'))"

text \<open>The next turn of the loop over the ledger.\<close>

definition next_process :: "rat \<Rightarrow> rat \<Rightarrow> rat \<Rightarrow> nat \<Rightarrow> governor \<Rightarrow> governor \<times> gov_effect list" where
  [gov_defs]: "next_process now elapsed aggregate cursor g =
     (if cursor < length (processes g)
      then (g\<lparr>tick := Some (Sampling elapsed aggregate (Suc cursor) (snd (processes g ! cursor)))\<rparr>, [])
      else finish_tick now aggregate g)"

definition sample_begin :: "rat \<Rightarrow> rat \<Rightarrow> governor \<Rightarrow> governor \<times> gov_effect list" where
  [gov_defs]: "sample_begin now mainRss g =
     (if tick g \<noteq> None then (g, [])
      else let elapsed = now - lastSampleAt g;
               g1 = g\<lparr>lastSampleAt := now, mainRssBytes := mainRss\<rparr>
           in case cgroupOverride g of
                Some c \<Rightarrow> next_process now elapsed 0 0 (g1\<lparr>cgroup := c\<rparr>)
              | None \<Rightarrow> if cgroup g = None then (g1\<lparr>tick := Some (ReadingCgroup elapsed)\<rparr>, [])
                        else next_process now elapsed 0 0 g1)"

definition cgroup_read :: "rat \<Rightarrow> cgroup_info \<Rightarrow> governor \<Rightarrow> governor \<times> gov_effect list" where
  [gov_defs]: "cgroup_read now info g = (case tick g of
       Some (ReadingCgroup elapsed) \<Rightarrow> next_process now elapsed 0 0 (g\<lparr>cgroup := Some info\<rparr>)
     | _ \<Rightarrow> (g, []))"

definition take_sample :: "process_sample \<Rightarrow> process_state \<Rightarrow> process_state" where
  "take_sample x s =
     (let s1 = (case sampleRss x of Some b \<Rightarrow> s\<lparr>rssBytes := Some b, source := Some FromProc\<rparr> | None \<Rightarrow> s)
      in (case sampleCpu x of Some ms \<Rightarrow> s1\<lparr>cpuMs := ms\<rparr> | None \<Rightarrow> s1))"

definition sample_arrives :: "rat \<Rightarrow> process_sample \<Rightarrow> governor \<Rightarrow> governor \<times> gov_effect list" where
  [gov_defs]: "sample_arrives now x g = (case tick g of
       Some (Sampling elapsed aggregate cursor p) \<Rightarrow>
         (let s = take_sample x (store g ! p);
              agg = (case rssBytes s of Some b \<Rightarrow> aggregate + b | None \<Rightarrow> aggregate);
              (g1, out) = evaluateProcess now elapsed p (put_process p s g);
              (g2, out') = next_process now elapsed agg cursor g1
          in (g2, out @ out'))
     | _ \<Rightarrow> (g, []))"

text \<open>The sampler rejects: the \<open>finally\<close> block ends the pass.\<close>

definition sample_fails :: "governor \<Rightarrow> governor" where
  [gov_defs]: "sample_fails g = g\<lparr>tick := None\<rparr>"

datatype gov_event =
  Register rat process_info
| Unregister string
| UsageReport string jnum rat
| SampleBegin rat rat
| CgroupRead rat cgroup_info
| SampleArrives rat process_sample
| SampleFails

fun gov_step :: "gov_event \<Rightarrow> governor \<Rightarrow> governor \<times> gov_effect list" where
  "gov_step (Register now info) g = (registerProcess now info g, [])"
| "gov_step (Unregister i) g = (unregisterProcess i g, [])"
| "gov_step (UsageReport i rss cpu) g = (handleUsageReport i rss cpu g, [])"
| "gov_step (SampleBegin now main) g = sample_begin now main g"
| "gov_step (CgroupRead now info) g = cgroup_read now info g"
| "gov_step (SampleArrives now x) g = sample_arrives now x g"
| "gov_step SampleFails g = (sample_fails g, [])"

section \<open>Requests to terminate\<close>

fun asked :: "gov_effect list \<Rightarrow> nat list" where
  "asked [] = []"
| "asked (OnTerminate p i r # es) = p # asked es"
| "asked (OnPressureChange l # es) = asked es"
| "asked (WarnUnattributed # es) = asked es"

lemma asked_append [simp]: "asked (es @ fs) = asked es @ asked fs"
  by (induction es rule: asked.induct) simp_all

abbreviation stopped :: "governor \<Rightarrow> nat \<Rightarrow> bool" where
  "stopped g p \<equiv> p < length (store g) \<and> terminated (store g ! p)"

text \<open>What one operation does to the store: processes stay stopped, and it asks once for each process
  it stops.\<close>

definition asks :: "governor \<Rightarrow> governor \<times> gov_effect list \<Rightarrow> bool" where
  "asks g r \<longleftrightarrow> distinct (asked (snd r)) \<and> (\<forall>p. stopped g p \<longrightarrow> stopped (fst r) p)
     \<and> (\<forall>p \<in> set (asked (snd r)). \<not> stopped g p \<and> stopped (fst r) p)"

lemma asks_trans: "asks g r \<Longrightarrow> asks (fst r) r' \<Longrightarrow> asks g (fst r', snd r @ snd r')"
  unfolding asks_def by auto

lemma asks_refl [simp]: "asks g (g, [])"
  by (simp add: asks_def)

lemma asks_same: "store g' = store g \<Longrightarrow> asked out = [] \<Longrightarrow> asks g (g', out)"
  by (simp add: asks_def)

text \<open>The ledger and the pass refer to processes of the store.\<close>

definition ledger_ok :: "governor \<Rightarrow> bool" where
  "ledger_ok g \<longleftrightarrow> (\<forall>p \<in> set (jm_values (processes g)). p < length (store g))
     \<and> (case tick g of Some (Sampling e a cursor p) \<Rightarrow> p < length (store g) | _ \<Rightarrow> True)"

lemma asks_put: "terminated (store g ! p) \<longrightarrow> terminated s \<Longrightarrow> asks g (put_process p s g, [])"
  by (cases "p < length (store g)") (auto simp: asks_def put_process_def nth_list_update)

lemma asks_request: "p < length (store g) \<Longrightarrow> asks g (requestTermination now p reason g)"
  by (auto simp: asks_def requestTermination_def put_process_def recordAction_def nth_list_update Let_def)

lemma put_length [simp]: "length (store (put_process p s g)) = length (store g)"
  by (simp add: put_process_def)

lemma asks_put_request:
  assumes "p < length (store g)" and "terminated s = terminated (store g ! p)"
  shows "asks g (requestTermination now p reason (put_process p s g))"
  using asks_trans [OF asks_put [of g p s] asks_request [of p "fst (put_process p s g, [] :: gov_effect list)"]] assms
  by simp

lemma asks_evaluate_rss: "p < length (store g) \<Longrightarrow> asks g (evaluate_rss now p g)"
  by (simp add: evaluate_rss_def Let_def asks_put asks_put_request)

lemma asks_evaluate_cpu: "p < length (store g) \<Longrightarrow> asks g (evaluate_cpu now elapsed p g)"
  by (simp add: evaluate_cpu_def Let_def asks_put asks_put_request)

text \<open>What the later steps of an operation keep of the store.\<close>

definition same_ledger :: "governor \<Rightarrow> governor \<Rightarrow> bool" where
  "same_ledger g g' \<longleftrightarrow> processes g' = processes g \<and> length (store g') = length (store g) \<and> tick g' = tick g
     \<and> config g' = config g \<and> hardViolationSamples g' = hardViolationSamples g
     \<and> cpuHardConsecutiveSamples g' = cpuHardConsecutiveSamples g \<and> cgroupOverride g' = cgroupOverride g
     \<and> cgroup g' = cgroup g \<and> treeRssBytes g' = treeRssBytes g
     \<and> (\<forall>p. pluginId (store g' ! p) = pluginId (store g ! p) \<and> rssBytes (store g' ! p) = rssBytes (store g ! p)
          \<and> rssHardMiB (store g' ! p) = rssHardMiB (store g ! p))"

lemma same_ledger_refl [simp]: "same_ledger g g"
  by (simp add: same_ledger_def)

lemma same_ledger_trans: "same_ledger g g' \<Longrightarrow> same_ledger g' g'' \<Longrightarrow> same_ledger g g''"
  unfolding same_ledger_def by auto

lemma same_ledger_put:
  "pluginId s = pluginId (store g ! p) \<Longrightarrow> rssBytes s = rssBytes (store g ! p) \<Longrightarrow> rssHardMiB s = rssHardMiB (store g ! p)
    \<Longrightarrow> same_ledger g (put_process p s g)"
  by (cases "p < length (store g)") (auto simp: same_ledger_def put_process_def nth_list_update list_update_beyond)

lemma same_ledger_record [simp]: "same_ledger g (recordAction a g)"
  by (simp add: same_ledger_def recordAction_def)

lemma same_ledger_request: "same_ledger g (fst (requestTermination now p reason g))"
  by (auto simp: requestTermination_def Let_def intro!: same_ledger_trans [OF same_ledger_put same_ledger_record])

lemma same_ledger_evaluate: "same_ledger g (fst (evaluateProcess now elapsed p g))"
proof -
  have rss: "same_ledger g (fst (evaluate_rss now p g))" for g
    by (auto simp: evaluate_rss_def Let_def intro!: same_ledger_trans [OF same_ledger_put same_ledger_request] same_ledger_put)
  have cpu: "same_ledger g (fst (evaluate_cpu now elapsed p g))" for g
    by (auto simp: evaluate_cpu_def Let_def intro!: same_ledger_trans [OF same_ledger_put same_ledger_request] same_ledger_put)
  from same_ledger_trans [OF rss [of g] cpu] show ?thesis
    by (simp add: evaluateProcess_def split_beta)
qed

lemma asks_evaluate:
  assumes "p < length (store g)"
  shows "asks g (evaluateProcess now elapsed p g)"
proof -
  have "same_ledger g (fst (evaluate_rss now p g))"
    by (auto simp: evaluate_rss_def Let_def intro!: same_ledger_trans [OF same_ledger_put same_ledger_request] same_ledger_put)
  then have "p < length (store (fst (evaluate_rss now p g)))" using assms by (simp add: same_ledger_def)
  from asks_trans [OF asks_evaluate_rss [OF assms] asks_evaluate_cpu [OF this, of now elapsed]]
  show ?thesis by (simp add: evaluateProcess_def split_beta)
qed

text \<open>The victim of the scan is a process of the ledger that is not stopped, with its overage.\<close>

lemma scan_victims:
  assumes "fold (scan_victim g) ps best = (Some p, ratio)"
  shows "(Some p, ratio) = best \<or> (p \<in> set ps \<and> overage (store g ! p) = Some ratio)"
  using assms
proof (induction ps arbitrary: best)
  case Nil
  then show ?case by simp
next
  case (Cons q ps)
  from Cons.IH [of "scan_victim g q best"] Cons.prems show ?case
    by (auto simp: scan_victim_def split: option.splits if_splits)
qed

lemma overage_over:
  assumes "overage s = Some ratio" and "ratio > 1"
  shows "over_hard s" and "\<not> terminated s"
proof -
  obtain b where b: "rssBytes s = Some b" "ratio = b / max 1 (rssHardMiB s * MIB)" "\<not> terminated s"
    using assms(1) by (auto simp: overage_def split: if_splits)
  have "0 < max 1 (rssHardMiB s * MIB)" by simp
  from pos_less_divide_eq [OF this, of 1 b] have "max 1 (rssHardMiB s * MIB) < b" using assms(2) b(2) by simp
  then show "over_hard s" and "\<not> terminated s" using b by (auto simp: over_hard_def)
qed

lemma victim_cases:
  obtains (none) out where "terminateVictims now g = (g, out)" "asked out = []"
  | (victim) p where "terminateVictims now g = requestTermination now p ''RESOURCE_LIMIT_EXCEEDED'' g"
      "p \<in> set (jm_values (processes g))" "over_hard (store g ! p)" "\<not> terminated (store g ! p)"
proof (cases "level g = PressureHard")
  case False
  then show ?thesis using none [of "[]"] by (simp add: terminateVictims_def)
next
  case True
  obtain best ratio where scan: "fold (scan_victim g) (jm_values (processes g)) (None, 0) = (best, ratio)"
    by (cases "fold (scan_victim g) (jm_values (processes g)) (None, 0)")
  show ?thesis
  proof (cases best)
    case None
    then show ?thesis using none [of "[WarnUnattributed]"] True scan by (simp add: terminateVictims_def)
  next
    case (Some p)
    with scan scan_victims [of g "jm_values (processes g)" "(None, 0)" p ratio]
    have p: "p \<in> set (jm_values (processes g))" "overage (store g ! p) = Some ratio" by auto
    show ?thesis
    proof (cases "ratio > 1")
      case True
      with p overage_over [OF p(2)] \<open>level g = PressureHard\<close> scan Some show ?thesis
        using victim [of p] by (simp add: terminateVictims_def)
    next
      case False
      then show ?thesis using none [of "[]"] \<open>level g = PressureHard\<close> scan Some by (simp add: terminateVictims_def)
    qed
  qed
qed

text \<open>The end of a pass up to the choice of a victim.\<close>

definition assessed :: "rat \<Rightarrow> rat \<Rightarrow> governor \<Rightarrow> governor \<times> gov_effect list" where
  "assessed now aggregate g =
     (let g1 = g\<lparr>tick := None, aggregateRssBytes := aggregate,
             treeRssBytes := (case tree_reading g of Some t \<Rightarrow> t * MIB | None \<Rightarrow> mainRssBytes g + aggregate)\<rparr>;
          (g2, next) = computeLevel g1
      in if next \<noteq> level g2
         then (recordAction \<lparr>at_time = now, act_pluginId = None, act_resource = ''tree'',
                 act_currentMiB = Some (roundMiB (treeRssBytes g2)),
                 act_limitMiB = roundMiB (processTreeRssSoftMiB (config g2) * MIB),
                 act_action = ''pressure:'' @ pressure_name next\<rparr> (g2\<lparr>level := next\<rparr>), [OnPressureChange next])
         else (g2, []))"

lemma finish_assessed: "finish_tick now aggregate g
    = (fst (terminateVictims now (fst (assessed now aggregate g))),
       snd (assessed now aggregate g) @ snd (terminateVictims now (fst (assessed now aggregate g))))"
  by (simp add: finish_tick_def assessed_def Let_def split_beta)

lemma computeLevel_view:
  "store (fst (computeLevel g)) = store g" "processes (fst (computeLevel g)) = processes g"
  "tick (fst (computeLevel g)) = tick g" "level (fst (computeLevel g)) = level g"
  "cgroup (fst (computeLevel g)) = cgroup g" "cgroupOverride (fst (computeLevel g)) = cgroupOverride g"
  "treeRssBytes (fst (computeLevel g)) = treeRssBytes g" "config (fst (computeLevel g)) = config g"
  "cpuHardConsecutiveSamples (fst (computeLevel g)) = cpuHardConsecutiveSamples g"
  "hardViolationSamples (fst (computeLevel g)) = hardViolationSamples g"
  by (simp_all add: computeLevel_def Let_def)

lemma assessed_view:
  "store (fst (assessed now a g)) = store g" "processes (fst (assessed now a g)) = processes g"
  "tick (fst (assessed now a g)) = None" "asked (snd (assessed now a g)) = []"
  "cgroup (fst (assessed now a g)) = cgroup g" "cgroupOverride (fst (assessed now a g)) = cgroupOverride g"
  "cpuHardConsecutiveSamples (fst (assessed now a g)) = cpuHardConsecutiveSamples g"
  "hardViolationSamples (fst (assessed now a g)) = hardViolationSamples g"
  "config (fst (assessed now a g)) = config g"
  "treeRssBytes (fst (assessed now a g)) = (case tree_reading g of Some t \<Rightarrow> t * MIB | None \<Rightarrow> mainRssBytes g + a)"
  by (simp_all add: assessed_def Let_def split_beta computeLevel_view recordAction_def)

lemma asks_victims:
  assumes "\<forall>p \<in> set (jm_values (processes g)). p < length (store g)"
  shows "asks g (terminateVictims now g)"
proof (cases rule: victim_cases [of now g])
  case none
  then show ?thesis by (simp add: asks_def)
next
  case (victim p)
  then have "p < length (store g)" using assms by blast
  with victim(1) show ?thesis using asks_request [of p g] by simp
qed

lemma asks_finish:
  assumes "\<forall>p \<in> set (jm_values (processes g)). p < length (store g)"
  shows "asks g (finish_tick now a g)"
proof -
  have "asks g (assessed now a g)"
    using asks_same [of "fst (assessed now a g)" g "snd (assessed now a g)"] by (simp add: assessed_view)
  from asks_trans [OF this asks_victims] show ?thesis
    using assms by (simp add: finish_assessed assessed_view)
qed

lemma asks_next:
  assumes "\<forall>p \<in> set (jm_values (processes g)). p < length (store g)"
  shows "asks g (next_process now e a c g)"
  using asks_finish [OF assms] by (simp add: next_process_def asks_same)

lemma ledger_okD:
  assumes "ledger_ok g"
  shows "\<forall>p \<in> set (jm_values (processes g)). p < length (store g)"
    and "tick g = Some (Sampling e a c p) \<Longrightarrow> p < length (store g)"
  using assms unfolding ledger_ok_def by (auto split: option.splits tick_phase.splits)

lemma ledger_okI:
  "\<forall>p \<in> set (jm_values (processes g)). p < length (store g) \<Longrightarrow>
    (\<And>e a c p. tick g = Some (Sampling e a c p) \<Longrightarrow> p < length (store g)) \<Longrightarrow> ledger_ok g"
  unfolding ledger_ok_def by (auto split: option.splits tick_phase.splits)

lemma same_ledger_victims: "same_ledger g (fst (terminateVictims now g))"
  by (cases rule: victim_cases [of now g]) (auto simp: same_ledger_request)

lemma next_ledger_ok:
  assumes "\<forall>p \<in> set (jm_values (processes g)). p < length (store g)"
  shows "ledger_ok (fst (next_process now e a c g))"
proof (cases "c < length (processes g)")
  case True
  then show ?thesis using assms by (simp add: next_process_def ledger_ok_def)
next
  case False
  have "same_ledger (fst (assessed now a g)) (fst (terminateVictims now (fst (assessed now a g))))"
    by (rule same_ledger_victims)
  then show ?thesis
    using False assms by (simp add: next_process_def finish_assessed ledger_ok_def same_ledger_def assessed_view)
qed

text \<open>The sample of a process, up to the next turn of the loop.\<close>

abbreviation evaluated :: "rat \<Rightarrow> rat \<Rightarrow> nat \<Rightarrow> process_sample \<Rightarrow> governor \<Rightarrow> governor \<times> gov_effect list" where
  "evaluated now e p x g \<equiv> evaluateProcess now e p (put_process p (take_sample x (store g ! p)) g)"

lemma take_sample_view [simp]:
  "pluginId (take_sample x s) = pluginId s" "rssHardMiB (take_sample x s) = rssHardMiB s"
  "terminated (take_sample x s) = terminated s"
  "rssViolationSamples (take_sample x s) = rssViolationSamples s"
  "cpuViolationSamples (take_sample x s) = cpuViolationSamples s"
  by (simp_all add: take_sample_def Let_def split: option.splits)

definition sampled_aggregate :: "rat \<Rightarrow> process_state \<Rightarrow> rat" where
  "sampled_aggregate a s = (case rssBytes s of Some b \<Rightarrow> a + b | None \<Rightarrow> a)"

lemma arrives_next: "tick g = Some (Sampling e a c p) \<Longrightarrow> sample_arrives now x g
    = (let r = evaluated now e p x g; r' = next_process now e (sampled_aggregate a (take_sample x (store g ! p))) c (fst r)
       in (fst r', snd r @ snd r'))"
  by (simp add: sample_arrives_def Let_def split_beta sampled_aggregate_def)

lemma evaluated_ledger:
  assumes "ledger_ok g" and "tick g = Some (Sampling e a c p)"
  shows "\<forall>q \<in> set (jm_values (processes (fst (evaluated now e p x g)))). q < length (store (fst (evaluated now e p x g)))"
  using ledger_okD(1) [OF assms(1)] same_ledger_evaluate [of "put_process p (take_sample x (store g ! p)) g" now e p]
  by (simp add: same_ledger_def put_process_def)

lemma usage_report_cases:
  obtains (ignored) "handleUsageReport i rss cpu g = g"
  | (taken) p r where "handleUsageReport i rss cpu g
      = put_process p ((store g ! p)\<lparr>rssBytes := Some r, cpuMs := cpu, source := Some FromIpc\<rparr>) g"
proof (cases "\<exists>p r. jm_get (processes g) i = Some p \<and> rss = Num r
    \<and> \<not> (source (store g ! p) = Some FromProc \<and> rssBytes (store g ! p) \<noteq> None)")
  case True
  then show ?thesis using taken by (auto simp: handleUsageReport_def Let_def)
next
  case False
  then have "handleUsageReport i rss cpu g = g"
    by (cases "jm_get (processes g) i"; cases rss) (auto simp: handleUsageReport_def Let_def)
  then show ?thesis by (rule ignored)
qed

lemma ledger_ok_step:
  assumes "ledger_ok g"
  shows "ledger_ok (fst (gov_step ev g))"
proof -
  have next0: "ledger_ok (fst (next_process now e 0 0 g'))"
    if "store g' = store g" "processes g' = processes g" for now e g'
    by (rule next_ledger_ok) (use ledger_okD(1) [OF assms] that in simp)
  show ?thesis
proof (cases ev)
  case (Register now info)
  have "p \<in> set (jm_values (jm_set k v m)) \<Longrightarrow> p = v \<or> p \<in> set (jm_values m)" for p k v and m :: "(string, nat) jmap"
    by (auto dest!: in_set_jm_setD)
  then show ?thesis
    using assms Register by (fastforce simp: ledger_ok_def registerProcess_def split: option.splits tick_phase.splits)
next
  case (Unregister i)
  have shift: "shift_tick i g = Some (Sampling e a c p) \<Longrightarrow> p < length (store g)" for e a c p
    using ledger_okD(2) [OF assms] by (auto simp: shift_tick_def split: option.splits tick_phase.splits)
  have "\<forall>p \<in> set (jm_values (jm_delete i (processes g))). p < length (store g)"
    using ledger_okD(1) [OF assms] by (simp add: jm_delete_def)
  with shift show ?thesis
    by (cases "shift_tick i g") (simp_all add: Unregister unregisterProcess_def ledger_ok_def split: tick_phase.split)
next
  case (UsageReport i rss cpu)
  have "ledger_ok (put_process p s g)" for p s
    by (rule ledger_okI) (use ledger_okD [OF assms] in \<open>simp_all add: put_process_def\<close>)
  with UsageReport assms show ?thesis
    by (cases rule: usage_report_cases [of i rss cpu g]) simp_all
next
  case (SampleBegin now main)
  have "ledger_ok (g\<lparr>lastSampleAt := now, mainRssBytes := main, tick := Some (ReadingCgroup e)\<rparr>)" for e
    using assms by (simp add: ledger_ok_def)
  then show ?thesis
    using SampleBegin assms next0 by (simp add: sample_begin_def Let_def split: option.splits)
next
  case (CgroupRead now info)
  then show ?thesis
    using assms next0 by (simp add: cgroup_read_def split: option.splits tick_phase.splits)
next
  case (SampleArrives now x)
  then show ?thesis
  proof (cases "tick g")
    case (Some ph)
    then show ?thesis
      using assms SampleArrives arrives_next [of g _ _ _ _ now x] next_ledger_ok [OF evaluated_ledger [OF assms]]
      by (cases ph) (auto simp: Let_def sample_arrives_def)
  qed (simp add: sample_arrives_def assms)
next
  case SampleFails
  then show ?thesis using assms by (simp add: ledger_ok_def sample_fails_def)
qed
qed

lemma asks_step:
  assumes "ledger_ok g"
  shows "asks g (gov_step ev g)"
proof (cases ev)
  case (Register now info)
  then show ?thesis by (auto simp: asks_def registerProcess_def nth_append)
next
  case (Unregister i)
  then show ?thesis by (simp add: asks_same unregisterProcess_def)
next
  case (UsageReport i rss cpu)
  then show ?thesis
    by (cases rule: usage_report_cases [of i rss cpu g]) (simp_all add: asks_put)
next
  case (SampleBegin now main)
  have "asks g (next_process now e 0 0 g')" if "store g' = store g" "processes g' = processes g" for e g'
    using asks_next [of g' now e 0 0] ledger_okD(1) [OF assms] that by (simp add: asks_def)
  then show ?thesis
    using SampleBegin by (auto simp: sample_begin_def Let_def asks_same split: option.splits)
next
  case (CgroupRead now info)
  have "asks g (next_process now e 0 0 g')" if "store g' = store g" "processes g' = processes g" for e g'
    using asks_next [of g' now e 0 0] ledger_okD(1) [OF assms] that by (simp add: asks_def)
  then show ?thesis
    using CgroupRead by (auto simp: cgroup_read_def split: option.splits tick_phase.splits)
next
  case (SampleArrives now x)
  show ?thesis
  proof (cases "\<exists>e a c p. tick g = Some (Sampling e a c p)")
    case True
    then obtain e a c p where t: "tick g = Some (Sampling e a c p)" by blast
    have p: "p < length (store g)" using ledger_okD(2) [OF assms t] .
    have "asks g (evaluated now e p x g)"
      using asks_trans [OF asks_put [of g p "take_sample x (store g ! p)"]
          asks_evaluate [of p "fst (put_process p (take_sample x (store g ! p)) g, [] :: gov_effect list)" now e]] p
      by simp
    from asks_trans [OF this asks_next [OF evaluated_ledger [OF assms t]]]
    show ?thesis by (simp add: SampleArrives arrives_next [OF t] Let_def)
  next
    case False
    then show ?thesis by (auto simp: SampleArrives sample_arrives_def split: option.splits tick_phase.splits)
  qed
next
  case SampleFails
  then show ?thesis by (simp add: asks_same sample_fails_def)
qed

fun gov_run :: "gov_event list \<Rightarrow> governor \<Rightarrow> governor \<times> gov_effect list" where
  "gov_run [] g = (g, [])"
| "gov_run (e # es) g = (let (g1, out1) = gov_step e g; (g2, out2) = gov_run es g1 in (g2, out1 @ out2))"

lemma new_governor_ok: "ledger_ok (new_governor c h n ov t)"
  by (simp add: ledger_ok_def new_governor_def)

interpretation gov_events: event_system "\<lambda>e g. fst (gov_step e g)" ledger_ok
  by unfold_locales (rule ledger_ok_step)

lemma gov_run_fst: "fst (gov_run es g) = run_events (\<lambda>e g. fst (gov_step e g)) es g"
  by (induction es arbitrary: g) (simp_all add: split_beta Let_def)

lemma asks_run: "ledger_ok g \<Longrightarrow> asks g (gov_run es g)"
proof (induction es arbitrary: g)
  case Nil
  then show ?case by simp
next
  case (Cons e es)
  from asks_trans [OF asks_step [OF Cons.prems] Cons.IH [OF ledger_ok_step [OF Cons.prems]]]
  show ?case by (simp add: split_beta Let_def)
qed

text \<open>The governor asks the host at most once to terminate a process, and a process it has asked for
  stays marked.\<close>

theorem plugins_stopped_once:
  "let r = gov_run es (new_governor c h n ov t) in
     distinct (asked (snd r)) \<and> list_all (\<lambda>p. p < length (store (fst r)) \<and> terminated (store (fst r) ! p)) (asked (snd r))"
  using asks_run [OF new_governor_ok, of c h n ov t es] by (auto simp: asks_def list_all_iff Let_def)

section \<open>Reasons\<close>

fun justified :: "governor \<Rightarrow> gov_effect \<Rightarrow> bool" where
  "justified g (OnTerminate p i reason) \<longleftrightarrow> pluginId (store g ! p) = i
     \<and> (reason = ''RESOURCE_LIMIT_EXCEEDED'' \<and> over_hard (store g ! p)
        \<or> reason = ''CPU_WATCHDOG'' \<and> cpuHardConsecutiveSamples g \<le> cpuViolationSamples (store g ! p))"
| "justified g _ = True"

lemma over_hard_same: "same_ledger g g' \<Longrightarrow> over_hard (store g' ! p) = over_hard (store g ! p)"
  by (cases "rssBytes (store g ! p)") (simp_all add: same_ledger_def over_hard_def)

lemma request_only_terminated:
  "p < length (store g) \<Longrightarrow> cpuViolationSamples (store (fst (requestTermination now p reason g)) ! q) = cpuViolationSamples (store g ! q)"
  by (auto simp: requestTermination_def put_process_def recordAction_def nth_list_update Let_def)

lemma request_effects: "snd (requestTermination now p reason g) = [] \<or>
    snd (requestTermination now p reason g) = [OnTerminate p (pluginId (store g ! p)) reason]"
  by (simp add: requestTermination_def Let_def)

lemma justified_same:
  assumes "same_ledger g g'" and "\<And>p. cpuViolationSamples (store g' ! p) = cpuViolationSamples (store g ! p)"
    and "list_all (justified g) out"
  shows "list_all (justified g') out"
proof -
  have "justified g e \<Longrightarrow> justified g' e" for e
    using assms(1,2) over_hard_same [OF assms(1)] by (cases e) (auto simp: same_ledger_def)
  with assms(3) show ?thesis by (auto simp: list_all_iff)
qed

lemma justified_victims:
  assumes "\<forall>p \<in> set (jm_values (processes g)). p < length (store g)"
  shows "list_all (justified (fst (terminateVictims now g))) (snd (terminateVictims now g))"
    and "cpuViolationSamples (store (fst (terminateVictims now g)) ! q) = cpuViolationSamples (store g ! q)"
proof -
  have "list_all (justified (fst (terminateVictims now g))) (snd (terminateVictims now g))
    \<and> cpuViolationSamples (store (fst (terminateVictims now g)) ! q) = cpuViolationSamples (store g ! q)"
  proof (cases rule: victim_cases [of now g])
    case (none out)
    have "list_all (justified g) out" if "asked out = []" for out
      using that by (induction out rule: asked.induct) auto
    then show ?thesis using none by simp
  next
    case (victim p)
    have p: "p < length (store g)" using assms victim(2) by blast
    show ?thesis
      using request_effects [of now p "''RESOURCE_LIMIT_EXCEEDED''" g] request_only_terminated [OF p]
        over_hard_same [OF same_ledger_request [of g now p]] same_ledger_request [of g now p] victim(1,3)
      by (auto simp: same_ledger_def)
  qed
  then show "list_all (justified (fst (terminateVictims now g))) (snd (terminateVictims now g))"
    "cpuViolationSamples (store (fst (terminateVictims now g)) ! q) = cpuViolationSamples (store g ! q)" by blast+
qed

lemma justified_evaluate:
  assumes "p < length (store g)"
  shows "list_all (justified (fst (evaluateProcess now e p g))) (snd (evaluateProcess now e p g))"
proof -
  let ?g1 = "fst (evaluate_rss now p g)" and ?g2 = "fst (evaluate_cpu now e p (fst (evaluate_rss now p g)))"
  have rss: "same_ledger h (fst (evaluate_rss now p h))" for h
    by (auto simp: evaluate_rss_def Let_def intro!: same_ledger_trans [OF same_ledger_put same_ledger_request] same_ledger_put)
  have cpu: "same_ledger h (fst (evaluate_cpu now e p h))" for h
    by (auto simp: evaluate_cpu_def Let_def intro!: same_ledger_trans [OF same_ledger_put same_ledger_request] same_ledger_put)
  have p1: "p < length (store ?g1)" using rss [of g] assms by (simp add: same_ledger_def)
  have over: "snd (evaluate_rss now p g) \<noteq> [] \<Longrightarrow> over_hard (store g ! p)"
    "x \<in> set (snd (evaluate_rss now p g)) \<Longrightarrow> x = OnTerminate p (pluginId (store g ! p)) ''RESOURCE_LIMIT_EXCEEDED''" for x
    using assms by (auto simp: evaluate_rss_def requestTermination_def put_process_def Let_def split: if_splits)
  have same: "same_ledger g ?g2" by (rule same_ledger_trans [OF rss cpu])
  have "justified ?g2 x" if "x \<in> set (snd (evaluate_rss now p g))" for x
  proof -
    have x: "x = OnTerminate p (pluginId (store g ! p)) ''RESOURCE_LIMIT_EXCEEDED''" by (rule over(2) [OF that])
    have "over_hard (store g ! p)" using over(1) that by (cases "snd (evaluate_rss now p g)") simp_all
    then have "over_hard (store ?g2 ! p)" using over_hard_same [OF same, of p] by simp
    then show ?thesis using same by (simp add: x same_ledger_def)
  qed
  then have "list_all (justified ?g2) (snd (evaluate_rss now p g))" by (simp add: list_all_iff)
  moreover have "list_all (justified ?g2) (snd (evaluate_cpu now e p h))" if "h = ?g1" for h
    using p1 unfolding that [symmetric]
    by (auto simp: evaluate_cpu_def requestTermination_def put_process_def recordAction_def Let_def that split: if_splits)
  ultimately show ?thesis by (simp add: evaluateProcess_def split_beta)
qed

lemma justified_assessed: "list_all (justified h) (snd (assessed now a g))"
  by (simp add: assessed_def Let_def split_beta)

lemma justified_next:
  assumes "\<forall>p \<in> set (jm_values (processes g)). p < length (store g)" and "list_all (justified g) out"
  shows "list_all (justified (fst (next_process now e a c g))) (out @ snd (next_process now e a c g))"
proof (cases "c < length (processes g)")
  case True
  have "justified g x \<Longrightarrow> justified (g\<lparr>tick := ph\<rparr>) x" for x ph by (cases x) auto
  then show ?thesis using True assms(2) by (auto simp: next_process_def list_all_iff)
next
  case False
  let ?h = "fst (assessed now a g)"
  have h: "\<forall>p \<in> set (jm_values (processes ?h)). p < length (store ?h)" using assms(1) by (simp add: assessed_view)
  have "justified g x \<Longrightarrow> justified ?h x" for x by (cases x) (simp_all add: assessed_view)
  then have "list_all (justified ?h) out" using assms(2) by (auto simp: list_all_iff)
  from justified_same [OF same_ledger_victims justified_victims(2) [OF h] this]
  show ?thesis using False justified_victims(1) [OF h] justified_assessed by (simp add: next_process_def finish_assessed)
qed

text \<open>C31: no plugin is terminated without a reason: whenever the governor asks for a termination, the
  process is over its hard memory limit at that moment, or its CPU violations have reached the number the
  watchdog waits for.\<close>

theorem terminations_justified:
  "let g = fst (gov_run es (new_governor c h n ov t)); r = gov_step e g in list_all (justified (fst r)) (snd r)"
proof -
  let ?g = "fst (gov_run es (new_governor c h n ov t))"
  have ok: "ledger_ok ?g" unfolding gov_run_fst by (rule gov_events.inv_run [OF new_governor_ok])
  have next0: "list_all (justified (fst (next_process now a 0 0 g'))) (snd (next_process now a 0 0 g'))"
    if "store g' = store ?g" "processes g' = processes ?g" for g' now a
    using justified_next [of g' "[]" now a 0 0] ledger_okD(1) [OF ok] that by simp
  have "list_all (justified (fst (gov_step e ?g))) (snd (gov_step e ?g))"
  proof (cases e)
    case (SampleBegin now main)
    then show ?thesis using next0 by (simp add: sample_begin_def Let_def split: option.splits)
  next
    case (CgroupRead now info)
    then show ?thesis using next0 by (simp add: cgroup_read_def split: option.splits tick_phase.splits)
  next
    case (SampleArrives now x)
    show ?thesis
    proof (cases "\<exists>el a c p. tick ?g = Some (Sampling el a c p)")
      case True
      then obtain el a c p where t: "tick ?g = Some (Sampling el a c p)" by blast
      have "p < length (store (put_process p (take_sample x (store ?g ! p)) ?g))" using ledger_okD(2) [OF ok t] by simp
      from justified_next [OF evaluated_ledger [OF ok t] justified_evaluate [OF this]]
      show ?thesis by (simp add: SampleArrives arrives_next [OF t] Let_def)
    next
      case False
      then show ?thesis by (auto simp: SampleArrives sample_arrives_def split: option.splits tick_phase.splits)
    qed
  qed (simp_all)
  then show ?thesis by (simp add: Let_def)
qed

section \<open>The memory of the tree\<close>

text \<open>The cgroup snapshot is in place: no pass waits for one, and every pass that ends reads it.\<close>

definition frozen :: "rat \<Rightarrow> governor \<Rightarrow> bool" where
  "frozen m g \<longleftrightarrow> cgroupOverride g = None \<and> tree_reading g = Some m \<and> (\<forall>e. tick g \<noteq> Some (ReadingCgroup e))
     \<and> treeRssBytes g = m * MIB"

lemma frozen_same: "same_ledger g g' \<Longrightarrow> frozen m g \<Longrightarrow> frozen m g'"
  by (simp add: frozen_def same_ledger_def tree_reading_def)

lemma frozen_put: "frozen m g \<Longrightarrow> frozen m (put_process p s g)"
  by (simp add: frozen_def put_process_def tree_reading_def)

text \<open>The readings of a pass that reaches its end, before they are written.\<close>

definition tree_read :: "rat \<Rightarrow> governor \<Rightarrow> bool" where
  "tree_read m g \<longleftrightarrow> cgroupOverride g = None \<and> tree_reading g = Some m"

lemma frozen_assessed: "tree_read m g \<Longrightarrow> frozen m (fst (assessed now a g))"
  by (simp add: tree_read_def frozen_def assessed_view tree_reading_def)

lemma frozen_next:
  assumes "tree_read m g" and "c < length (processes g) \<Longrightarrow> treeRssBytes g = m * MIB"
  shows "frozen m (fst (next_process now e a c g))"
proof (cases "c < length (processes g)")
  case True
  then show ?thesis using assms by (simp add: next_process_def frozen_def tree_read_def tree_reading_def)
next
  case False
  then show ?thesis
    using frozen_same [OF same_ledger_victims frozen_assessed [OF assms(1)]] by (simp add: next_process_def finish_assessed)
qed

lemma frozen_read: "frozen m g \<Longrightarrow> tree_read m g"
  by (simp add: frozen_def tree_read_def)

lemma frozen_next': "frozen m g \<Longrightarrow> frozen m (fst (next_process now e a c g))"
  by (rule frozen_next) (simp_all add: frozen_def tree_read_def)

lemma frozen_step:
  assumes "frozen m g"
  shows "frozen m (fst (gov_step ev g))"
proof (cases ev)
  case (Unregister i)
  have "shift_tick i g \<noteq> Some (ReadingCgroup e)" for e
    using assms by (auto simp: frozen_def shift_tick_def split: option.splits tick_phase.splits)
  then show ?thesis using assms by (simp add: Unregister unregisterProcess_def frozen_def tree_reading_def)
next
  case (UsageReport i rss cpu)
  then show ?thesis
    by (cases rule: usage_report_cases [of i rss cpu g]) (simp_all add: assms frozen_put)
next
  case (SampleBegin now main)
  obtain info where "cgroup g = Some info" using assms by (cases "cgroup g") (simp_all add: frozen_def tree_reading_def)
  moreover have "frozen m (g\<lparr>lastSampleAt := now, mainRssBytes := main\<rparr>)"
    using assms by (simp add: frozen_def tree_reading_def)
  note frozen_next' [OF this, of now "now - lastSampleAt g" 0 0]
  moreover have "cgroupOverride g = None" using assms by (simp add: frozen_def)
  ultimately show ?thesis using SampleBegin assms by (simp add: sample_begin_def Let_def)
next
  case (CgroupRead now info)
  then show ?thesis using assms by (auto simp: cgroup_read_def frozen_def split: option.splits tick_phase.splits)
next
  case (SampleArrives now x)
  show ?thesis
  proof (cases "\<exists>e a c p. tick g = Some (Sampling e a c p)")
    case True
    then obtain e a c p where t: "tick g = Some (Sampling e a c p)" by blast
    have "frozen m (fst (evaluated now e p x g))"
      by (rule frozen_same [OF same_ledger_evaluate frozen_put [OF assms]])
    then show ?thesis by (simp add: SampleArrives arrives_next [OF t] Let_def frozen_next')
  next
    case False
    then show ?thesis
      using assms by (auto simp: SampleArrives sample_arrives_def split: option.splits tick_phase.splits)
  qed
qed (use assms in \<open>simp_all add: frozen_def registerProcess_def tree_reading_def sample_fails_def\<close>)

lemma frozen_run: "frozen m g \<Longrightarrow> frozen m (fst (gov_run es g))"
  by (induction es arbitrary: g) (simp_all add: split_beta Let_def frozen_step)

text \<open>On a host with cgroup v2 the memory of the process tree is the value the first pass read: the
  snapshot is taken once, and whatever happens later, every pass accounts the tree with it.\<close>

theorem tree_reading_frozen:
  "treeRssBytes (fst (gov_run ([SampleBegin t0 main, CgroupRead t1 (info\<lparr>memoryCurrentMiB := Some m\<rparr>)] @ es)
     (new_governor c h n None t))) = m * MIB"
proof -
  let ?g = "(new_governor c h n None t)
     \<lparr>lastSampleAt := t0, mainRssBytes := main, tick := Some (ReadingCgroup (t0 - t)),
      cgroup := Some (info\<lparr>memoryCurrentMiB := Some m\<rparr>)\<rparr>"
  have "tree_read m ?g" by (simp add: tree_read_def new_governor_def tree_reading_def)
  from frozen_next [OF this, of 0 t1 "t0 - t" 0]
  have "frozen m (fst (next_process t1 (t0 - t) 0 0 ?g))" by (simp add: new_governor_def)
  from frozen_run [OF this, of es] show ?thesis
    by (simp add: split_beta Let_def sample_begin_def cgroup_read_def frozen_def new_governor_def)
qed

section \<open>Pressure\<close>

text \<open>One governor reads no less than another of everything the ladder looks at.\<close>

definition reads_more :: "governor \<Rightarrow> governor \<Rightarrow> bool" where
  "reads_more g g' \<longleftrightarrow> config g = config g' \<and> (any_terminated g \<longrightarrow> any_terminated g')
     \<and> mainRssBytes g \<le> mainRssBytes g' \<and> aggregateRssBytes g \<le> aggregateRssBytes g' \<and> treeRssBytes g \<le> treeRssBytes g'"

text \<open>The level a pass ends with, and the flag beside it.\<close>

definition levelled :: "governor \<Rightarrow> governor" where
  "levelled g = (fst (computeLevel g))\<lparr>level := snd (computeLevel g)\<rparr>"

lemmas pressure_order = less_eq_pressure_def less_pressure_def

definition rung :: "bool \<Rightarrow> bool \<Rightarrow> bool \<Rightarrow> bool \<Rightarrow> pressure" where
  "rung hard critical elevated soft = (if hard then PressureHard else if critical then PressureCritical
     else if elevated then PressureElevated else if soft then PressureSoft else PressureOk)"

lemma rung_mono: "(h \<longrightarrow> h') \<Longrightarrow> (c \<longrightarrow> c') \<Longrightarrow> (e \<longrightarrow> e') \<Longrightarrow> (s \<longrightarrow> s') \<Longrightarrow> rung h c e s \<le> rung h' c' e' s'"
  by (auto simp: rung_def pressure_order)

definition either_over :: "governor \<Rightarrow> rat \<Rightarrow> rat \<Rightarrow> bool" where
  "either_over g a t \<longleftrightarrow> a * MIB \<le> aggregateRssBytes g \<or> t * MIB \<le> treeRssBytes g"

lemma level_rung: "snd (computeLevel g) = (let c = config g; a = aggregateRssSoftMiB c; t = processTreeRssSoftMiB c in
    rung (any_terminated g \<or> either_over g (aggregateRssHardMiB c) (processTreeRssHardMiB c))
      (mainRssHardMiB c * MIB \<le> mainRssBytes g \<or> either_over g a t)
      (either_over g (a * (9 / 10)) (t * (9 / 10))) (either_over g (a * (8 / 10)) (t * (8 / 10))))"
  by (simp add: computeLevel_def Let_def rung_def either_over_def)

lemma either_over_mono: "reads_more g g' \<Longrightarrow> either_over g a t \<Longrightarrow> either_over g' a t"
  by (auto simp: either_over_def reads_more_def)

lemma level_monotone:
  assumes "reads_more g g'"
  shows "snd (computeLevel g) \<le> snd (computeLevel g')"
proof -
  have same: "config g = config g'" "any_terminated g \<Longrightarrow> any_terminated g'" "mainRssBytes g \<le> mainRssBytes g'"
    using assms by (simp_all add: reads_more_def)
  have "x \<le> mainRssBytes g \<Longrightarrow> x \<le> mainRssBytes g'" for x using same(3) by simp
  then show ?thesis
    unfolding level_rung Let_def same(1) by (intro rung_mono) (use same(2) either_over_mono [OF assms] in blast)+
qed

text \<open>The ladder is monotone: with the same limits, a host that uses at least as much memory is at least
  at the same pressure level, and never admits work that the other refuses.\<close>

theorem more_pressure_never_admits:
  assumes "reads_more g g'" and "canAdmit kind (levelled g') = Admitted"
  shows "level (levelled g) \<le> level (levelled g') \<and> canAdmit kind (levelled g) = Admitted"
proof -
  have le: "level (levelled g) \<le> level (levelled g')" using level_monotone [OF assms(1)] by (simp add: levelled_def)
  have adm: "level (levelled g') \<noteq> PressureHard" "\<not> selfPressure (levelled g')"
    using assms(2) by (auto simp: canAdmit_def split: if_splits)
  then have "level (levelled g) \<noteq> PressureHard"
    using le by (cases "level (levelled g')") (auto simp: pressure_order)
  moreover have "\<not> selfPressure (levelled g)"
    using adm calculation assms(1) by (auto simp: levelled_def computeLevel_def Let_def reads_more_def split: if_splits)
  ultimately show ?thesis
    using le adm assms(2)
    by (cases "level (levelled g)"; cases "level (levelled g')"; cases kind) (auto simp: canAdmit_def pressure_order)
qed

text \<open>A host without plugins, and the same host when its tree takes more memory.\<close>

definition demo_limits :: plugin_resource_config where
  "demo_limits = \<lparr>mainRssHardMiB = 1000, processTreeRssSoftMiB = 1000, processTreeRssHardMiB = 1200,
     aggregateRssSoftMiB = 500, aggregateRssHardMiB = 600, backgroundCpuPercent = 100\<rparr>"

definition demo_governor :: "rat \<Rightarrow> governor" where
  "demo_governor m = (new_governor demo_limits None None (Some None) 0)\<lparr>treeRssBytes := m * MIB\<rparr>"

lemma more_pressure_never_admits_witness:
  "level (levelled (demo_governor 100)) \<le> level (levelled (demo_governor 950))
     \<and> canAdmit PluginStart (levelled (demo_governor 100)) = Admitted"
  by (rule more_pressure_never_admits)
    (simp_all add: reads_more_def demo_governor_def demo_limits_def new_governor_def any_terminated_def
       MIB_def levelled_def canAdmit_def computeLevel_def Let_def)

section \<open>A plugin that outgrows its limit\<close>

text \<open>One pass over a ledger of one process, with a reading of its memory.\<close>

abbreviation one_pass :: "rat \<Rightarrow> rat \<Rightarrow> rat \<Rightarrow> gov_event list" where
  "one_pass t main b \<equiv> [SampleBegin t main, SampleArrives t \<lparr>sampleRss = Some b, sampleCpu = None\<rparr>]"

definition sole :: "string \<Rightarrow> governor \<Rightarrow> bool" where
  "sole i g \<longleftrightarrow> processes g = [(i, 0)] \<and> length (store g) = 1 \<and> tick g = None \<and> cgroupOverride g = Some None"

lemma request_terminates: "p < length (store g) \<Longrightarrow> terminated (store (fst (requestTermination now p reason g)) ! p)"
  by (simp add: requestTermination_def put_process_def recordAction_def Let_def)

lemma asks_keeps: "asks g r \<Longrightarrow> p < length (store g) \<Longrightarrow> terminated (store g ! p) \<Longrightarrow> terminated (store (fst r) ! p)"
  by (simp add: asks_def)

lemma rss_violations_request:
  "p < length (store g) \<Longrightarrow>
    rssViolationSamples (store (fst (requestTermination now p reason g)) ! q) = rssViolationSamples (store g ! q)"
  by (auto simp: requestTermination_def put_process_def recordAction_def nth_list_update Let_def)

lemma rss_violations_cpu:
  assumes "p < length (store g)"
  shows "rssViolationSamples (store (fst (evaluate_cpu now e p g)) ! q) = rssViolationSamples (store g ! q)"
proof -
  have "rssViolationSamples (store (put_process p s g) ! q) = rssViolationSamples (store g ! q)"
    if "rssViolationSamples s = rssViolationSamples (store g ! p)" for s
    using that by (cases "q = p") (simp_all add: put_process_def assms)
  then show ?thesis using assms by (simp add: evaluate_cpu_def Let_def rss_violations_request)
qed

text \<open>The process is stopped, or has the given number of violations.\<close>

definition counted :: "nat \<Rightarrow> process_state \<Rightarrow> bool" where
  "counted k s \<longleftrightarrow> terminated s \<or> rssViolationSamples s = k"

lemma evaluate_counts:
  assumes "p < length (store g)" and "over_hard (store g ! p)" and "counted k (store g ! p)"
  shows "counted (Suc k) (store (fst (evaluateProcess now e p g)) ! p)"
    and "Suc k \<ge> hardViolationSamples g \<Longrightarrow> terminated (store (fst (evaluateProcess now e p g)) ! p)"
proof -
  have "counted (Suc k) (store (fst (evaluateProcess now e p g)) ! p)
    \<and> (Suc k \<ge> hardViolationSamples g \<longrightarrow> terminated (store (fst (evaluateProcess now e p g)) ! p))"
  proof (cases "terminated (store g ! p)")
    case True
    then show ?thesis by (simp add: evaluateProcess_def counted_def)
  next
    case False
    let ?h = "fst (evaluate_rss now p g)"
    let ?g1 = "put_process p ((store g ! p)\<lparr>rssViolationSamples := Suc k\<rparr>) g"
    have k: "rssViolationSamples (store g ! p) = k" using False assms(3) by (simp add: counted_def)
    have h: "?h = (if Suc k \<ge> hardViolationSamples g
        then fst (requestTermination now p ''RESOURCE_LIMIT_EXCEEDED'' ?g1) else ?g1)"
      using assms(2) by (simp add: evaluate_rss_def Let_def k)
    have g1: "p < length (store ?g1)" "rssViolationSamples (store ?g1 ! p) = Suc k"
      using assms(1) by (simp_all add: put_process_def)
    have len: "p < length (store ?h)" using g1(1) same_ledger_request [of ?g1] by (simp add: h same_ledger_def)
    have "rssViolationSamples (store (fst (evaluate_cpu now e p ?h)) ! p) = Suc k"
      using rss_violations_cpu [OF len] rss_violations_request [OF g1(1)] g1 by (simp add: h)
    moreover have "terminated (store (fst (evaluate_cpu now e p ?h)) ! p)" if "Suc k \<ge> hardViolationSamples g"
    proof -
      have "terminated (store ?h ! p)" using request_terminates [OF g1(1)] that by (simp add: h)
      from asks_keeps [OF asks_evaluate_cpu [OF len] len this] show ?thesis .
    qed
    ultimately show ?thesis using False by (simp add: evaluateProcess_def split_beta counted_def)
  qed
  then show "counted (Suc k) (store (fst (evaluateProcess now e p g)) ! p)"
    "Suc k \<ge> hardViolationSamples g \<Longrightarrow> terminated (store (fst (evaluateProcess now e p g)) ! p)" by blast+
qed

lemma victims_count:
  assumes "\<forall>p \<in> set (jm_values (processes g)). p < length (store g)" and "p < length (store g)"
    and "counted k (store g ! p)"
  shows "counted k (store (fst (terminateVictims now g)) ! p)"
proof (cases rule: victim_cases [of now g])
  case none
  then show ?thesis using assms(3) by simp
next
  case (victim q)
  then have q: "q < length (store g)" using assms(1) by blast
  show ?thesis
    using assms(3) rss_violations_request [OF q] asks_keeps [OF asks_request [OF q] assms(2)] victim(1)
    by (auto simp: counted_def)
qed

lemma sole_pass:
  fixes t main :: rat
  assumes "sole i g" and "rssHardMiB (store g ! 0) * MIB < b" and "counted k (store g ! 0)"
  defines "g' \<equiv> fst (gov_run (one_pass t main b) g)"
  shows "sole i g'" and "rssHardMiB (store g' ! 0) = rssHardMiB (store g ! 0)"
    and "hardViolationSamples g' = hardViolationSamples g" and "counted (Suc k) (store g' ! 0)"
    and "Suc k \<ge> hardViolationSamples g \<Longrightarrow> terminated (store g' ! 0)"
proof -
  let ?x = "\<lparr>sampleRss = Some b, sampleCpu = None\<rparr> :: process_sample"
  define g1 where "g1 = g\<lparr>lastSampleAt := t, mainRssBytes := main, cgroup := None, tick := Some (Sampling (t - lastSampleAt g) 0 1 0)\<rparr>"
  define h where "h = put_process 0 (take_sample ?x (store g1 ! 0)) g1"
  define e where "e = fst (evaluateProcess t (t - lastSampleAt g) 0 h)"
  define f where "f = fst (assessed t (sampled_aggregate 0 (take_sample ?x (store g1 ! 0))) e)"
  have sole: "processes g = [(i, 0)]" "length (store g) = 1" "tick g = None" "cgroupOverride g = Some None"
    using assms(1) by (simp_all add: sole_def)
  have begins: "sample_begin t main g = (g1, [])"
    using sole by (simp add: sample_begin_def Let_def next_process_def g1_def)
  have g1: "tick g1 = Some (Sampling (t - lastSampleAt g) 0 1 0)" "processes g1 = [(i, 0)]" "store g1 = store g"
    by (simp_all add: g1_def sole)
  have h: "over_hard (store h ! 0)" "counted k (store h ! 0)" "processes h = [(i, 0)]" "length (store h) = 1"
    "cgroupOverride h = Some None" "hardViolationSamples h = hardViolationSamples g"
    "rssHardMiB (store h ! 0) = rssHardMiB (store g ! 0)"
    using assms(2,3) sole
    by (simp_all add: h_def g1_def put_process_def over_hard_def counted_def take_sample_def)
  have e: "same_ledger h e" unfolding e_def by (rule same_ledger_evaluate)
  then have e_view: "processes e = [(i, 0)]" "length (store e) = 1" "hardViolationSamples e = hardViolationSamples g"
    using h by (simp_all add: same_ledger_def)
  have "next_process t (t - lastSampleAt g) a 1 e = finish_tick t a e" for a
    using e_view by (simp add: next_process_def)
  then have g': "g' = fst (terminateVictims t f)"
    by (simp add: g'_def begins arrives_next [OF g1(1)] Let_def split_beta finish_assessed f_def e_def h_def sole)
  have f: "store f = store e" "processes f = [(i, 0)]" "tick f = None" "cgroupOverride f = Some None"
    "hardViolationSamples f = hardViolationSamples g"
    using e h e_view by (simp_all add: f_def assessed_view same_ledger_def)
  have f_ok: "\<forall>p \<in> set (jm_values (processes f)). p < length (store f)" "0 < length (store f)" using f e_view by simp_all
  have victims: "same_ledger f g'" unfolding g' by (rule same_ledger_victims)
  then show "sole i g'" "hardViolationSamples g' = hardViolationSamples g"
    "rssHardMiB (store g' ! 0) = rssHardMiB (store g ! 0)"
    using f e_view e h by (simp_all add: sole_def same_ledger_def)
  have len: "0 < length (store h)" using h by simp
  from evaluate_counts [OF len h(1,2), of t "t - lastSampleAt g"]
  have "counted (Suc k) (store f ! 0)" and stopped: "Suc k \<ge> hardViolationSamples g \<Longrightarrow> terminated (store f ! 0)"
    by (simp_all add: f e_def h)
  from victims_count [OF f_ok this(1)] show "counted (Suc k) (store g' ! 0)" by (simp add: g')
  show "Suc k \<ge> hardViolationSamples g \<Longrightarrow> terminated (store g' ! 0)"
    using asks_keeps [OF asks_victims [OF f_ok(1)] f_ok(2)] stopped by (simp add: g')
qed

lemma gov_run_append: "fst (gov_run (es @ fs) g) = fst (gov_run fs (fst (gov_run es g)))"
  by (induction es arbitrary: g) (simp_all add: split_beta Let_def)

lemma sole_passes:
  assumes "sole i g" and "list_all (\<lambda>(t, main, b). rssHardMiB (store g ! 0) * MIB < b) rs" and "counted k (store g ! 0)"
    and "rs \<noteq> []" and "hardViolationSamples g \<le> k + length rs"
  shows "sole i (fst (gov_run (concat (map (\<lambda>(t, main, b). one_pass t main b) rs)) g))
    \<and> terminated (store (fst (gov_run (concat (map (\<lambda>(t, main, b). one_pass t main b) rs)) g)) ! 0)"
  using assms
proof (induction rs arbitrary: g k)
  case Nil
  then show ?case by simp
next
  case (Cons r rs)
  obtain t main b where r: "r = (t, main, b)" by (cases r)
  define g' where "g' = fst (gov_run (one_pass t main b) g)"
  have over: "rssHardMiB (store g ! 0) * MIB < b" using Cons.prems(2) by (simp add: r)
  note pass = sole_pass [OF Cons.prems(1) over Cons.prems(3), of t main, folded g'_def]
  have run: "fst (gov_run (concat (map (\<lambda>(t, main, b). one_pass t main b) (r # rs))) g)
      = fst (gov_run (concat (map (\<lambda>(t, main, b). one_pass t main b) rs)) g')"
    by (simp only: list.map concat.simps r prod.case g'_def gov_run_append)
  show ?case
  proof (cases "rs = []")
    case True
    with run pass(1,5) Cons.prems(5) show ?thesis by simp
  next
    case False
    have "list_all (\<lambda>(t, main, b). rssHardMiB (store g' ! 0) * MIB < b) rs"
      using Cons.prems(2) by (simp add: r pass(2))
    moreover have "hardViolationSamples g' \<le> Suc k + length rs" using Cons.prems(5) by (simp add: pass(3))
    ultimately show ?thesis unfolding run by (rule Cons.IH [OF pass(1) _ pass(4) False])
  qed
qed

text \<open>A runaway plugin is stopped: when a process stays over its hard memory limit, the pass in which its
  consecutive violations reach the configured number (or an earlier one) asks for its termination.\<close>

theorem runaway_plugin_terminated:
  assumes "list_all (\<lambda>(t, main, b). rssHardMiB info * MIB < b) rs" and "rs \<noteq> []" and "hard \<le> length rs"
  shows "isTerminated (pluginId info) (fst (gov_run (Register t0 info # concat (map (\<lambda>(t, main, b). one_pass t main b) rs))
    (new_governor c (Some hard) n (Some None) t0)))"
proof -
  let ?g = "registerProcess t0 info (new_governor c (Some hard) n (Some None) t0)"
  have g: "sole (pluginId info) ?g" "rssHardMiB (store ?g ! 0) = rssHardMiB info" "counted 0 (store ?g ! 0)"
    "hardViolationSamples ?g = hard"
    by (simp_all add: sole_def registerProcess_def new_governor_def counted_def process_info.defs)
  have "list_all (\<lambda>(t, main, b). rssHardMiB (store ?g ! 0) * MIB < b) rs" using assms(1) by (simp add: g(2))
  from sole_passes [OF g(1) this g(3) assms(2)] assms(3) g(4)
  have "sole (pluginId info) (fst (gov_run (concat (map (\<lambda>(t, main, b). one_pass t main b) rs)) ?g))
    \<and> terminated (store (fst (gov_run (concat (map (\<lambda>(t, main, b). one_pass t main b) rs)) ?g)) ! 0)" by simp
  then show ?thesis by (simp add: split_beta Let_def isTerminated_def sole_def)
qed

definition demo_info :: "string \<Rightarrow> nat \<Rightarrow> process_info" where
  "demo_info i q = \<lparr>pluginId = i, pid = q, heapMiB = 64, rssSoftMiB = 80, rssHardMiB = 100, cpuSoftPercent = 63,
     cpuHardPercent = 90\<rparr>"

lemma runaway_plugin_terminated_witness:
  "isTerminated ''a'' (fst (gov_run (Register 0 (demo_info ''a'' 7)
     # concat (map (\<lambda>(t, main, b). one_pass t main b) [(2000, 0, 101 * MIB), (4000, 0, 102 * MIB)]))
    (new_governor demo_limits (Some 2) None (Some None) 0)))"
  using runaway_plugin_terminated [of "demo_info ''a'' 7" "[(2000, 0, 101 * MIB), (4000, 0, 102 * MIB)]" 2 0 demo_limits None]
  by (simp add: demo_info_def MIB_def del: gov_run.simps)

text \<open>Stopping one plugin brings the next one down in the same pass: the process just asked to stop is
  still in the ledger, so the level is hard, and another process over its limit in one sample only, where two
  are configured, is asked to stop as well, with the tree far below its limits.\<close>

theorem termination_spreads:
  "let pass = (\<lambda>t a b. [SampleBegin t 0, SampleArrives t \<lparr>sampleRss = Some a, sampleCpu = None\<rparr>,
         SampleArrives t \<lparr>sampleRss = Some b, sampleCpu = None\<rparr>]);
       r = gov_run ([Register 0 (demo_info ''a'' 7), Register 0 (demo_info ''b'' 8)]
             @ pass 2000 (110 * MIB) (90 * MIB) @ pass 4000 (110 * MIB) (101 * MIB))
           (new_governor demo_limits (Some 2) None (Some None) 0)
   in snd r = [OnTerminate 0 ''a'' ''RESOURCE_LIMIT_EXCEEDED'', OnPressureChange PressureHard,
               OnTerminate 1 ''b'' ''RESOURCE_LIMIT_EXCEEDED'']
      \<and> treeRssBytes (fst r) < processTreeRssSoftMiB demo_limits * MIB"
  by code_simp

text \<open>A background budget of five percent, which the configuration schema allows, makes the watchdog's
  limit zero: a plugin that has used some processor time once and is idle since is stopped after three passes.\<close>

theorem zero_threshold_kills_idle:
  "let pass = (\<lambda>t. [SampleBegin t 0, SampleArrives t \<lparr>sampleRss = None, sampleCpu = Some 1\<rparr>]);
       r = gov_run (Register 0 (demo_info ''a'' 7) # concat (map pass [2000, 4000, 6000]))
           (new_governor (demo_limits\<lparr>backgroundCpuPercent := 5\<rparr>) None None (Some None) 0)
   in snd r = [OnTerminate 0 ''a'' ''CPU_WATCHDOG'', OnPressureChange PressureHard, WarnUnattributed]"
  by code_simp

section \<open>History\<close>

lemma history_record: "length (actions (recordAction a g)) \<le> ACTION_HISTORY_LIMIT"
  by (simp add: recordAction_def Let_def ACTION_HISTORY_LIMIT_def)

abbreviation short_history :: "governor \<Rightarrow> bool" where
  "short_history g \<equiv> length (actions g) \<le> ACTION_HISTORY_LIMIT"

lemma history_put [simp]: "actions (put_process p s g) = actions g"
  by (simp add: put_process_def)

lemma history_request [simp]: "short_history g \<Longrightarrow> short_history (fst (requestTermination now p reason g))"
  by (simp add: requestTermination_def Let_def history_record)

lemma history_evaluate: "short_history g \<Longrightarrow> short_history (fst (evaluateProcess now e p g))"
  by (simp add: evaluateProcess_def evaluate_rss_def evaluate_cpu_def Let_def split_beta)

lemma history_next:
  assumes "short_history g"
  shows "short_history (fst (next_process now e a c g))"
proof -
  have "actions (fst (computeLevel h)) = actions h" for h by (simp add: computeLevel_def Let_def)
  then have "short_history (fst (assessed now a g))"
    using assms by (simp add: assessed_def Let_def split_beta history_record)
  then have "short_history (fst (terminateVictims now (fst (assessed now a g))))"
    by (cases rule: victim_cases [of now "fst (assessed now a g)"]) simp_all
  then show ?thesis using assms by (simp add: next_process_def finish_assessed)
qed

lemma history_step:
  assumes "short_history g"
  shows "short_history (fst (gov_step ev g))"
proof (cases ev)
  case (UsageReport i rss cpu)
  then show ?thesis by (cases rule: usage_report_cases [of i rss cpu g]) (simp_all add: assms)
next
  case (SampleBegin now main)
  have "actions g' = actions g \<Longrightarrow> short_history (fst (next_process now e 0 0 g'))" for g' e
    using history_next [of g'] assms by simp
  then show ?thesis using SampleBegin assms by (simp add: sample_begin_def Let_def split: option.split)
next
  case (CgroupRead now info)
  have "actions g' = actions g \<Longrightarrow> short_history (fst (next_process now e 0 0 g'))" for g' e
    using history_next [of g'] assms by simp
  then show ?thesis using CgroupRead assms by (simp add: cgroup_read_def split: option.split tick_phase.split)
next
  case (SampleArrives now x)
  show ?thesis
  proof (cases "\<exists>e a c p. tick g = Some (Sampling e a c p)")
    case True
    then obtain e a c p where t: "tick g = Some (Sampling e a c p)" by blast
    have "short_history (fst (evaluated now e p x g))" using assms by (simp add: history_evaluate)
    then show ?thesis by (simp add: SampleArrives arrives_next [OF t] Let_def history_next)
  next
    case False
    then show ?thesis
      using assms by (auto simp: SampleArrives sample_arrives_def split: option.splits tick_phase.splits)
  qed
qed (use assms in \<open>simp_all add: registerProcess_def unregisterProcess_def sample_fails_def\<close>)

text \<open>The diagnostics keep the last fifty actions at most, whatever the governor does.\<close>

theorem action_history_bounded: "length (actions (fst (gov_run es (new_governor c h n ov t)))) \<le> 50"
proof -
  have "short_history g \<Longrightarrow> short_history (fst (gov_run es g))" for g
    by (induction es arbitrary: g) (simp_all add: split_beta Let_def history_step)
  then show ?thesis by (simp add: new_governor_def ACTION_HISTORY_LIMIT_def)
qed

end
