(* ===== verification/Message_Rows.thy ===== *)
theory Message_Rows
  imports Prelude
begin

text \<open>
  The message store of the server (\<open>packages/db/src/repositories/messages.ts\<close>): the tables it writes
  (\<open>schema/tables.ts\<close>), the constraints SQLite checks on an insert, and the repository's writes with
  their transactions, up to the swipe variants and the edit history of a message.

  A table is its list of rows in the order of insertion. New ids and clock readings are arguments of the
  operations. \<open>meta\<close> is kept as its JSON text, as in the table.
\<close>

named_theorems row_defs \<open>definitions of the writes\<close>

section \<open>Tables\<close>

datatype role = System | User | Assistant | Tool | Plugin

record message =
  m_id :: string
  m_chatId :: string
  m_branchId :: string
  m_parentId :: "string option"
  m_role :: role
  m_content :: string
  m_name :: "string option"
  m_meta :: string
  m_createdAt :: int
  m_revision :: nat
  m_updatedAt :: "int option"
  m_variantCount :: nat
  m_activeVariantPosition :: "nat option"
  m_checkpointChatId :: "string option"
  m_contentRevisionCount :: nat

record message_row = message +
  m_idempotencyKey :: "string option"

record archived_text =
  a_id :: string
  a_messageId :: string
  a_position :: nat
  a_content :: string
  a_createdAt :: int

record block_row =
  b_id :: string
  b_messageId :: string
  b_pluginId :: string
  b_blockType :: string
  b_rendererId :: string
  b_descriptorJson :: string
  b_serializedStateJson :: "string option"
  b_createdAt :: int
  b_updatedAt :: int

record chat =
  c_id :: string
  c_characterId :: "string option"
  c_personaId :: "string option"
  c_title :: string
  c_activeBranchId :: "string option"
  c_backgroundId :: "string option"
  c_summary :: string
  c_messageCount :: nat
  c_createdAt :: int
  c_updatedAt :: int
  c_deletedAt :: "int option"
  c_parentChatId :: "string option"
  c_origin :: "string option"
  c_sourceMessageId :: "string option"

record chat_row = chat +
  c_sortOrder :: int

record branch_row =
  br_id :: string
  br_chatId :: string
  br_name :: string
  br_createdAt :: int

record draft_row =
  d_id :: string
  d_chatId :: string
  d_branchId :: string
  d_role :: role
  d_content :: string
  d_name :: "string option"
  d_meta :: string
  d_sequence :: int
  d_revision :: nat
  d_committedMessageId :: "string option"
  d_createdAt :: int
  d_updatedAt :: int

record db =
  characters :: "(string \<times> int option) list"
  personas :: "string list"
  chats :: "chat_row list"
  chatBranches :: "branch_row list"
  messages :: "message_row list"
  messageVariants :: "archived_text list"
  messageContentRevisions :: "archived_text list"
  messageBlocks :: "block_row list"
  messageDrafts :: "draft_row list"

text \<open>What a statement throws: a violated constraint, or an error of the repository.\<close>

datatype db_error = UniqueConstraint | ForeignKeyConstraint | Thrown string

type_synonym 'a tx = "db \<Rightarrow> db_error + 'a \<times> db"

text \<open>A transaction that throws is rolled back.\<close>

definition transaction :: "'a tx \<Rightarrow> db \<Rightarrow> (db_error + 'a) \<times> db" where
  "transaction f s = (case f s of Inl e \<Rightarrow> (Inl e, s) | Inr (x, s') \<Rightarrow> (Inr x, s'))"

lemma transaction_cases:
  obtains (thrown) e where "f s = Inl e" "transaction f s = (Inl e, s)"
  | (committed) x s' where "f s = Inr (x, s')" "transaction f s = (Inr x, s')"
  by (cases "f s") (auto simp: transaction_def)

section \<open>Inserts\<close>

definition message_of :: "db \<Rightarrow> string \<Rightarrow> message_row option" where
  "message_of s i = find (\<lambda>m. m_id m = i) (messages s)"

definition insert_message :: "message_row \<Rightarrow> db \<Rightarrow> db_error + db" where
  [row_defs]: "insert_message m s =
     (if m_id m \<in> set (map m_id (messages s))
        \<or> m_idempotencyKey m \<noteq> None \<and> (m_chatId m, m_idempotencyKey m) \<in> set (map (\<lambda>r. (m_chatId r, m_idempotencyKey r)) (messages s))
      then Inl UniqueConstraint
      else if m_chatId m \<notin> set (map c_id (chats s)) \<or> m_branchId m \<notin> set (map br_id (chatBranches s))
      then Inl ForeignKeyConstraint
      else Inr (s\<lparr>messages := messages s @ [m]\<rparr>))"

text \<open>The tables of archived texts share their constraints.\<close>

definition insert_archived :: "archived_text \<Rightarrow> string list \<Rightarrow> archived_text list \<Rightarrow> db_error + archived_text list" where
  "insert_archived t ids ts =
     (if a_id t \<in> set (map a_id ts) \<or> (a_messageId t, a_position t) \<in> set (map (\<lambda>r. (a_messageId r, a_position r)) ts)
      then Inl UniqueConstraint
      else if a_messageId t \<notin> set ids then Inl ForeignKeyConstraint
      else Inr (ts @ [t]))"

definition insert_variant :: "archived_text \<Rightarrow> db \<Rightarrow> db_error + db" where
  [row_defs]: "insert_variant v s = map_sum id (\<lambda>ts. s\<lparr>messageVariants := ts\<rparr>)
     (insert_archived v (map m_id (messages s)) (messageVariants s))"

definition insert_revision :: "archived_text \<Rightarrow> db \<Rightarrow> db_error + db" where
  [row_defs]: "insert_revision v s = map_sum id (\<lambda>ts. s\<lparr>messageContentRevisions := ts\<rparr>)
     (insert_archived v (map m_id (messages s)) (messageContentRevisions s))"

definition update_message :: "string \<Rightarrow> (message_row \<Rightarrow> message_row) \<Rightarrow> db \<Rightarrow> db" where
  [row_defs]: "update_message i f s = s\<lparr>messages := map (\<lambda>m. if m_id m = i then f m else m) (messages s)\<rparr>"

definition delete_variant :: "string \<Rightarrow> db \<Rightarrow> db" where
  [row_defs]: "delete_variant i s = s\<lparr>messageVariants := filter (\<lambda>v. a_id v \<noteq> i) (messageVariants s)\<rparr>"

section \<open>Create and read\<close>

definition rowToMessage :: "message_row \<Rightarrow> message" where
  "rowToMessage m = message.truncate m"

record message_create =
  n_role :: role
  n_content :: string
  n_parentId :: "string option"
  n_name :: "string option"
  n_meta :: "string option"
  n_idempotencyKey :: "string option"

definition new_message_row :: "string \<Rightarrow> string \<Rightarrow> message_create \<Rightarrow> string \<Rightarrow> int \<Rightarrow> message_row" where
  "new_message_row ch br input new_id now = \<lparr>m_id = new_id, m_chatId = ch, m_branchId = br,
     m_parentId = n_parentId input, m_role = n_role input, m_content = n_content input, m_name = n_name input,
     m_meta = (case n_meta input of None \<Rightarrow> ''{}'' | Some t \<Rightarrow> t), m_createdAt = now, m_revision = 1,
     m_updatedAt = None, m_variantCount = 1, m_activeVariantPosition = Some 0, m_checkpointChatId = None,
     m_contentRevisionCount = 0, m_idempotencyKey = n_idempotencyKey input\<rparr>"

definition character_of :: "string \<Rightarrow> db \<Rightarrow> string option" where
  "character_of ch s = Option.bind (find (\<lambda>c. c_id c = ch) (chats s)) c_characterId"

definition touch_character :: "string option \<Rightarrow> int \<Rightarrow> db \<Rightarrow> db" where
  "touch_character who now s = s\<lparr>characters := map (\<lambda>(c, t). (c, if Some c = who then Some now else t)) (characters s)\<rparr>"

definition create_tx :: "string \<Rightarrow> string \<Rightarrow> message_create \<Rightarrow> string \<Rightarrow> int \<Rightarrow> message_row tx" where
  [row_defs]: "create_tx ch br input new_id now s =
     (case insert_message (new_message_row ch br input new_id now) s of
        Inr s' \<Rightarrow> Inr (new_message_row ch br input new_id now, touch_character (character_of ch s') now s')
      | Inl e \<Rightarrow>
          (case n_idempotencyKey input of
             Some (c # k) \<Rightarrow>
               if e = UniqueConstraint then
                 (case find (\<lambda>m. m_chatId m = ch \<and> m_idempotencyKey m = Some (c # k)) (messages s) of
                    None \<Rightarrow> Inl (Thrown ''MESSAGE_IDEMPOTENCY_RACE'')
                  | Some m \<Rightarrow> Inr (m, touch_character (character_of ch s) now s))
               else Inl e
           | _ \<Rightarrow> Inl e))"

definition create_message :: "string \<Rightarrow> string \<Rightarrow> message_create \<Rightarrow> string \<Rightarrow> int \<Rightarrow> db \<Rightarrow> (db_error + message) \<times> db" where
  "create_message ch br input new_id now s = map_prod (map_sum id rowToMessage) id (transaction (create_tx ch br input new_id now) s)"

definition getById :: "string \<Rightarrow> db \<Rightarrow> message option" where
  "getById i s = map_option rowToMessage (message_of s i)"

definition listIdsInChat :: "string \<Rightarrow> string list \<Rightarrow> db \<Rightarrow> string list" where
  "listIdsInChat ch ids s = (if ids = [] then []
     else map m_id (filter (\<lambda>m. m_chatId m = ch \<and> m_id m \<in> set ids) (messages s)))"

definition count_messages :: "string \<Rightarrow> string \<Rightarrow> db \<Rightarrow> nat" where
  "count_messages ch br s = length (filter (\<lambda>m. m_chatId m = ch \<and> m_branchId m = br) (messages s))"

section \<open>Edits\<close>

datatype update_result = Updated message | Conflict nat | Missing | RevisionMissing

record message_update =
  p_content :: "string option"
  p_role :: "role option"
  p_meta :: "string option"
  p_checkpointChatId :: "string option option"

definition guarded :: "string \<Rightarrow> nat option \<Rightarrow> db \<Rightarrow> message_row option" where
  "guarded i expected s = find (\<lambda>m. m_id m = i \<and> (case expected of None \<Rightarrow> True | Some r \<Rightarrow> m_revision m = r)) (messages s)"

definition unmatched :: "string \<Rightarrow> nat option \<Rightarrow> db \<Rightarrow> update_result" where
  "unmatched i expected s = (case (message_of s i, expected) of
       (Some m, Some _) \<Rightarrow> Conflict (m_revision m) | _ \<Rightarrow> Missing)"

definition archive_of :: "message_row \<Rightarrow> string \<Rightarrow> archived_text" where
  "archive_of m new_id = \<lparr>a_id = new_id, a_messageId = m_id m, a_position = m_contentRevisionCount m,
     a_content = m_content m, a_createdAt = (case m_updatedAt m of None \<Rightarrow> m_createdAt m | Some t \<Rightarrow> t)\<rparr>"

definition patched :: "message_update \<Rightarrow> message_row \<Rightarrow> message_row" where
  "patched p m = m\<lparr>
     m_content := (case p_content p of None \<Rightarrow> m_content m | Some t \<Rightarrow> t),
     m_role := (case p_role p of None \<Rightarrow> m_role m | Some r \<Rightarrow> r),
     m_meta := (case p_meta p of None \<Rightarrow> m_meta m | Some t \<Rightarrow> t),
     m_checkpointChatId := (case p_checkpointChatId p of None \<Rightarrow> m_checkpointChatId m | Some c \<Rightarrow> c)\<rparr>"

text \<open>The statement that writes a row of the revision just read.\<close>

definition write_row :: "message_row \<Rightarrow> (message_row \<Rightarrow> message_row) \<Rightarrow> int \<Rightarrow> update_result tx" where
  [row_defs]: "write_row cur f now s =
     (let s' = s\<lparr>messages := map (\<lambda>m. if m_id m = m_id cur \<and> m_revision m = m_revision cur
                    then (f m)\<lparr>m_revision := Suc (m_revision cur), m_updatedAt := Some now\<rparr> else m) (messages s)\<rparr>
      in Inr (case find (\<lambda>m. m_id m = m_id cur \<and> m_revision m = m_revision cur) (messages s) of
                Some m \<Rightarrow> Updated (rowToMessage ((f m)\<lparr>m_revision := Suc (m_revision cur), m_updatedAt := Some now\<rparr>))
              | None \<Rightarrow> Conflict (m_revision cur), s'))"

definition update_tx :: "string \<Rightarrow> message_update \<Rightarrow> nat option \<Rightarrow> bool \<Rightarrow> string \<Rightarrow> int \<Rightarrow> update_result tx" where
  [row_defs]: "update_tx i p expected track new_id now s =
     (case guarded i expected s of
        None \<Rightarrow> Inr (unmatched i expected s, s)
      | Some cur \<Rightarrow>
          (if p_content p \<noteq> None \<and> p_content p \<noteq> Some (m_content cur) \<and> track then
             (case insert_revision (archive_of cur new_id) s of
                Inl e \<Rightarrow> Inl e
              | Inr s1 \<Rightarrow> write_row cur (\<lambda>m. patched p (m\<lparr>m_contentRevisionCount := Suc (m_contentRevisionCount cur)\<rparr>)) now s1)
           else write_row cur (patched p) now s))"

definition restore_tx :: "string \<Rightarrow> string \<Rightarrow> nat \<Rightarrow> string \<Rightarrow> int \<Rightarrow> update_result tx" where
  [row_defs]: "restore_tx i rev_id expected new_id now s =
     (case guarded i (Some expected) s of
        None \<Rightarrow> Inr (unmatched i (Some expected) s, s)
      | Some cur \<Rightarrow>
          (case find (\<lambda>r. a_id r = rev_id \<and> a_messageId r = i) (messageContentRevisions s) of
             None \<Rightarrow> Inr (RevisionMissing, s)
           | Some sel \<Rightarrow>
               if a_content sel = m_content cur then Inr (Updated (rowToMessage cur), s)
               else (case insert_revision (archive_of cur new_id) s of
                       Inl e \<Rightarrow> Inl e
                     | Inr s1 \<Rightarrow> write_row cur (\<lambda>m. m\<lparr>m_content := a_content sel,
                         m_contentRevisionCount := Suc (m_contentRevisionCount cur)\<rparr>) now s1)))"

section \<open>Swipe variants\<close>

definition activePosition :: "message_row \<Rightarrow> nat" where
  "activePosition m = (case m_activeVariantPosition m of None \<Rightarrow> 0 | Some p \<Rightarrow> p)"

definition variant_at :: "string \<Rightarrow> nat \<Rightarrow> db \<Rightarrow> archived_text option" where
  "variant_at i p s = find (\<lambda>v. a_messageId v = i \<and> a_position v = p) (messageVariants s)"

text \<open>The result of the last statement of a swipe: the message as it now is.\<close>

definition updated_view :: "string \<Rightarrow> db \<Rightarrow> update_result" where
  "updated_view i s = (case message_of s i of None \<Rightarrow> Missing | Some m \<Rightarrow> Updated (rowToMessage m))"

definition setActiveVariant_tx :: "string \<Rightarrow> nat \<Rightarrow> nat option \<Rightarrow> string \<Rightarrow> int \<Rightarrow> update_result tx" where
  [row_defs]: "setActiveVariant_tx i p expected new_id now s =
     (case guarded i expected s of
        None \<Rightarrow> Inr (unmatched i expected s, s)
      | Some m \<Rightarrow>
          (case variant_at i p s of
             None \<Rightarrow> Inr (Missing, s)
           | Some v \<Rightarrow>
               (case insert_variant \<lparr>a_id = new_id, a_messageId = i, a_position = activePosition m,
                       a_content = m_content m, a_createdAt = now\<rparr> s of
                  Inl e \<Rightarrow> Inl e
                | Inr s1 \<Rightarrow>
                    (let s2 = update_message i (\<lambda>r. r\<lparr>m_content := a_content v, m_activeVariantPosition := Some p,
                                m_revision := Suc (m_revision m), m_updatedAt := Some now\<rparr>) s1
                     in Inr (updated_view i s2, delete_variant (a_id v) s2)))))"

definition setActiveVariant :: "string \<Rightarrow> nat \<Rightarrow> nat option \<Rightarrow> string \<Rightarrow> int \<Rightarrow> db \<Rightarrow> (db_error + update_result) \<times> db" where
  "setActiveVariant i p expected new_id now = transaction (setActiveVariant_tx i p expected new_id now)"

definition activateVariant :: "string \<Rightarrow> string \<Rightarrow> nat option \<Rightarrow> string \<Rightarrow> int \<Rightarrow> db \<Rightarrow> (db_error + update_result) \<times> db" where
  "activateVariant i var_id expected new_id now s =
     (case find (\<lambda>v. a_id v = var_id \<and> a_messageId v = i) (messageVariants s) of
        None \<Rightarrow> (Inr Missing, s)
      | Some v \<Rightarrow> setActiveVariant i (a_position v) expected new_id now s)"

definition replaceContentAsVariant_tx :: "string \<Rightarrow> string \<Rightarrow> string \<Rightarrow> string \<Rightarrow> string \<Rightarrow> int \<Rightarrow> update_result tx" where
  [row_defs]: "replaceContentAsVariant_tx i archived text meta new_id now s =
     (case message_of s i of
        None \<Rightarrow> Inr (Missing, s)
      | Some m \<Rightarrow>
          (case insert_variant \<lparr>a_id = new_id, a_messageId = i, a_position = activePosition m,
                  a_content = archived, a_createdAt = now\<rparr> s of
             Inl e \<Rightarrow> Inl e
           | Inr s1 \<Rightarrow>
               (let s2 = update_message i (\<lambda>r. r\<lparr>m_content := text, m_meta := meta,
                           m_variantCount := Suc (m_variantCount m), m_activeVariantPosition := Some (m_variantCount m),
                           m_revision := Suc (m_revision m), m_updatedAt := Some now\<rparr>) s1
                in Inr (updated_view i s2, s2))))"

section \<open>The remaining writes\<close>

definition linkCheckpoint :: "string \<Rightarrow> string \<Rightarrow> int \<Rightarrow> db \<Rightarrow> bool \<times> db" where
  [row_defs]: "linkCheckpoint i child now s = (message_of s i \<noteq> None,
     update_message i (\<lambda>m. m\<lparr>m_checkpointChatId := Some child, m_revision := Suc (m_revision m), m_updatedAt := Some now\<rparr>) s)"

text \<open>Deleting a message deletes the rows that refer to it.\<close>

definition delete_message :: "string \<Rightarrow> db \<Rightarrow> bool \<times> db" where
  [row_defs]: "delete_message i s = (message_of s i \<noteq> None,
     s\<lparr>messages := filter (\<lambda>m. m_id m \<noteq> i) (messages s),
       messageVariants := filter (\<lambda>v. a_messageId v \<noteq> i) (messageVariants s),
       messageContentRevisions := filter (\<lambda>v. a_messageId v \<noteq> i) (messageContentRevisions s),
       messageBlocks := filter (\<lambda>b. b_messageId b \<noteq> i) (messageBlocks s)\<rparr>)"

datatype message_op =
  CreateMessage string string message_create string int
| UpdateMessage string message_update "nat option" bool string int
| RestoreRevision string string nat string int
| SetActiveVariant string nat "nat option" string int
| ActivateVariant string string "nat option" string int
| ReplaceAsVariant string string string string string int
| LinkCheckpoint string string int
| DeleteMessage string

fun message_step :: "message_op \<Rightarrow> db \<Rightarrow> db" where
  "message_step (CreateMessage ch br input new_id now) s = snd (create_message ch br input new_id now s)"
| "message_step (UpdateMessage i p expected track new_id now) s = snd (transaction (update_tx i p expected track new_id now) s)"
| "message_step (RestoreRevision i rid expected new_id now) s = snd (transaction (restore_tx i rid expected new_id now) s)"
| "message_step (SetActiveVariant i p expected new_id now) s = snd (setActiveVariant i p expected new_id now s)"
| "message_step (ActivateVariant i vid expected new_id now) s = snd (activateVariant i vid expected new_id now s)"
| "message_step (ReplaceAsVariant i archived text meta new_id now) s =
     snd (transaction (replaceContentAsVariant_tx i archived text meta new_id now) s)"
| "message_step (LinkCheckpoint i child now) s = snd (linkCheckpoint i child now s)"
| "message_step (DeleteMessage i) s = snd (delete_message i s)"

section \<open>The invariant of the store\<close>

definition positions :: "archived_text list \<Rightarrow> string \<Rightarrow> nat set" where
  "positions ts i = set (map a_position (filter (\<lambda>t. a_messageId t = i) ts))"

text \<open>A table of archived texts: unique ids, unique positions per message, no dangling rows.\<close>

definition archived_ok :: "string list \<Rightarrow> archived_text list \<Rightarrow> bool" where
  "archived_ok ids ts \<longleftrightarrow> distinct (map a_id ts) \<and> distinct (map (\<lambda>t. (a_messageId t, a_position t)) ts)
     \<and> set (map a_messageId ts) \<subseteq> set ids"

text \<open>The positions of the variants are those below the count but the active one, and the archived edits
  are numbered without gaps. The first is not asked of the messages of a set \<open>G\<close>: the authored
  greeting of a chat is inserted without a variant count (\<open>Chat_Store\<close>).\<close>

definition swipe_ok :: "archived_text list \<Rightarrow> message_row \<Rightarrow> bool" where
  "swipe_ok vs m \<longleftrightarrow> m_activeVariantPosition m \<noteq> None \<and> activePosition m < m_variantCount m
     \<and> positions vs (m_id m) = set [0..<m_variantCount m] - {activePosition m}"

definition history_ok :: "archived_text list \<Rightarrow> message_row \<Rightarrow> bool" where
  "history_ok rs m \<longleftrightarrow> positions rs (m_id m) = set [0..<m_contentRevisionCount m]"

definition store_ok :: "string set \<Rightarrow> db \<Rightarrow> bool" where
  "store_ok G s \<longleftrightarrow> distinct (map m_id (messages s))
     \<and> archived_ok (map m_id (messages s)) (messageVariants s)
     \<and> archived_ok (map m_id (messages s)) (messageContentRevisions s)
     \<and> list_all (\<lambda>m. (m_id m \<in> G \<or> swipe_ok (messageVariants s) m) \<and> history_ok (messageContentRevisions s) m) (messages s)"

lemma store_okD:
  assumes "store_ok G s"
  shows "distinct (map m_id (messages s))" and "archived_ok (map m_id (messages s)) (messageVariants s)"
    and "archived_ok (map m_id (messages s)) (messageContentRevisions s)"
    and "m \<in> set (messages s) \<Longrightarrow> m_id m \<notin> G \<Longrightarrow> swipe_ok (messageVariants s) m"
    and "m \<in> set (messages s) \<Longrightarrow> history_ok (messageContentRevisions s) m"
  using assms by (auto simp: store_ok_def list_all_iff)

lemma store_okI:
  assumes "distinct (map m_id (messages s))" and "archived_ok (map m_id (messages s)) (messageVariants s)"
    and "archived_ok (map m_id (messages s)) (messageContentRevisions s)"
    and "\<And>m. m \<in> set (messages s) \<Longrightarrow> m_id m \<notin> G \<Longrightarrow> swipe_ok (messageVariants s) m"
    and "\<And>m. m \<in> set (messages s) \<Longrightarrow> history_ok (messageContentRevisions s) m"
  shows "store_ok G s"
  using assms by (auto simp: store_ok_def list_all_iff)

lemma find_SomeD: "find P xs = Some x \<Longrightarrow> x \<in> set xs \<and> P x"
  by (induction xs) (auto split: if_splits)

lemma find_unique:
  "distinct (map f xs) \<Longrightarrow> x \<in> set xs \<Longrightarrow> find (\<lambda>y. f y = f x) xs = Some x"
  by (induction xs) (auto simp: image_iff)

lemma message_of_in: "message_of s i = Some m \<Longrightarrow> m \<in> set (messages s) \<and> m_id m = i"
  unfolding message_of_def by (drule find_SomeD) simp

lemma message_of_member:
  "distinct (map m_id (messages s)) \<Longrightarrow> m \<in> set (messages s) \<Longrightarrow> message_of s (m_id m) = Some m"
  unfolding message_of_def by (rule find_unique)

lemma guarded_in: "guarded i expected s = Some m \<Longrightarrow> m \<in> set (messages s) \<and> m_id m = i"
  unfolding guarded_def by (drule find_SomeD) simp

lemma positions_snoc: "positions (ts @ [t]) i = (if a_messageId t = i then insert (a_position t) (positions ts i) else positions ts i)"
  by (simp add: positions_def)

lemma positions_absent: "i \<notin> set (map a_messageId ts) \<Longrightarrow> positions ts i = {}"
  by (induction ts) (auto simp: positions_def)

lemma positions_delete_message:
  "positions (filter (\<lambda>t. a_messageId t \<noteq> j) ts) i = (if i = j then {} else positions ts i)"
  by (auto simp: positions_def)

lemma positions_delete:
  assumes "archived_ok ids ts" and "v \<in> set ts"
  shows "positions (filter (\<lambda>t. a_id t \<noteq> a_id v) ts) i
    = (if a_messageId v = i then positions ts i - {a_position v} else positions ts i)"
proof -
  have same: "t = v" if "t \<in> set ts" "a_id t = a_id v" for t
    using assms that by (auto simp: archived_ok_def distinct_map inj_on_def)
  have pos: "t = v" if "t \<in> set ts" "a_messageId t = a_messageId v" "a_position t = a_position v" for t
    using assms that by (auto simp: archived_ok_def distinct_map inj_on_def)
  have "p \<in> positions (filter (\<lambda>t. a_id t \<noteq> a_id v) ts) i \<longleftrightarrow> p \<in> positions ts i \<and> \<not> (a_messageId v = i \<and> p = a_position v)" for p
    using assms(2) same pos by (auto simp: positions_def) blast+
  then show ?thesis by auto
qed

lemma archived_ok_insert:
  assumes "archived_ok ids ts" and "insert_archived t ids ts = Inr ts'"
  shows "archived_ok ids ts'" and "ts' = ts @ [t]" and "a_messageId t \<in> set ids"
    and "a_position t \<notin> positions ts (a_messageId t)"
proof -
  have t: "a_id t \<notin> set (map a_id ts)" "(a_messageId t, a_position t) \<notin> set (map (\<lambda>r. (a_messageId r, a_position r)) ts)"
    "a_messageId t \<in> set ids" "ts' = ts @ [t]"
    using assms(2) by (simp_all add: insert_archived_def split: if_splits)
  then show "ts' = ts @ [t]" "a_messageId t \<in> set ids" by blast+
  show "archived_ok ids ts'" using assms(1) t by (simp add: archived_ok_def)
  show "a_position t \<notin> positions ts (a_messageId t)"
  proof
    assume "a_position t \<in> positions ts (a_messageId t)"
    then obtain r where "r \<in> set ts" "a_messageId r = a_messageId t" "a_position r = a_position t"
      by (auto simp: positions_def)
    then have "(a_messageId t, a_position t) \<in> (\<lambda>r. (a_messageId r, a_position r)) ` set ts"
      by (metis (no_types, lifting) image_eqI)
    with t(2) show False by simp
  qed
qed

lemma archived_ok_filter: "archived_ok ids ts \<Longrightarrow> archived_ok ids (filter P ts)"
  by (auto simp: archived_ok_def distinct_map_filter)

lemma archived_ok_more: "archived_ok ids ts \<Longrightarrow> set ids \<subseteq> set ids' \<Longrightarrow> archived_ok ids' ts"
  by (auto simp: archived_ok_def)

text \<open>Rewriting one row of the messages.\<close>

lemma in_rewritten:
  assumes "distinct (map m_id ms)" and "cur \<in> set ms" and "m \<in> set (map (\<lambda>m. if m_id m = m_id cur then f m else m) ms)"
  shows "m = f cur \<or> m \<in> set ms \<and> m_id m \<noteq> m_id cur"
proof -
  have "r = cur" if "r \<in> set ms" "m_id r = m_id cur" for r
    using assms(1,2) that by (auto simp: distinct_map inj_on_def)
  with assms(3) show ?thesis by auto
qed

lemma ids_rewritten:
  "(\<And>m. m_id (f m) = m_id m) \<Longrightarrow> map m_id (map (\<lambda>m. if P m then f m else m) ms) = map m_id ms"
  by simp

lemma store_ok_rewrite:
  assumes "store_ok G s" and "cur \<in> set (messages s)" and "\<And>m. m_id (f m) = m_id m"
    and "archived_ok (map m_id (messages s)) vs" and "archived_ok (map m_id (messages s)) rs"
    and "\<And>j. j \<noteq> m_id cur \<Longrightarrow> positions vs j = positions (messageVariants s) j"
    and "\<And>j. j \<noteq> m_id cur \<Longrightarrow> positions rs j = positions (messageContentRevisions s) j"
    and "m_id cur \<notin> G \<Longrightarrow> swipe_ok vs (f cur)" and "history_ok rs (f cur)"
    and "s' = s\<lparr>messages := map (\<lambda>m. if m_id m = m_id cur then f m else m) (messages s),
      messageVariants := vs, messageContentRevisions := rs\<rparr>"
  shows "store_ok G s'"
proof (rule store_okI)
  have ids: "map m_id (messages s') = map m_id (messages s)" using assms(3,10) by simp
  show "distinct (map m_id (messages s'))" unfolding ids by (rule store_okD(1) [OF assms(1)])
  show "archived_ok (map m_id (messages s')) (messageVariants s')" unfolding ids using assms(4,10) by simp
  show "archived_ok (map m_id (messages s')) (messageContentRevisions s')" unfolding ids using assms(5,10) by simp
  fix m assume "m \<in> set (messages s')"
  then have m: "m = f cur \<or> m \<in> set (messages s) \<and> m_id m \<noteq> m_id cur"
    using in_rewritten [OF store_okD(1) [OF assms(1)] assms(2), of m f] assms(10) by simp
  then show "history_ok (messageContentRevisions s') m"
    using store_okD(5) [OF assms(1), of m] assms(7,9,10) by (auto simp: history_ok_def)
  show "swipe_ok (messageVariants s') m" if "m_id m \<notin> G"
    using m
  proof
    assume "m = f cur"
    with assms(3,8,10) that show ?thesis by simp
  next
    assume "m \<in> set (messages s) \<and> m_id m \<noteq> m_id cur"
    then show ?thesis using store_okD(4) [OF assms(1), of m] assms(6,10) that by (simp add: swipe_ok_def)
  qed
qed

text \<open>Everything the invariant reads of a row.\<close>

definition same_shape :: "message_row \<Rightarrow> message_row \<Rightarrow> bool" where
  "same_shape m m' \<longleftrightarrow> m_id m' = m_id m \<and> m_variantCount m' = m_variantCount m
     \<and> m_activeVariantPosition m' = m_activeVariantPosition m"

lemma swipe_ok_shape: "same_shape m m' \<Longrightarrow> swipe_ok vs m' = swipe_ok vs m"
  by (simp add: same_shape_def swipe_ok_def activePosition_def)

lemma write_row_eq:
  assumes "distinct (map m_id (messages s))" and "cur \<in> set (messages s)"
  shows "write_row cur f now s = Inr (Updated (rowToMessage ((f cur)\<lparr>m_revision := Suc (m_revision cur), m_updatedAt := Some now\<rparr>)),
    s\<lparr>messages := map (\<lambda>m. if m_id m = m_id cur
       then (f m)\<lparr>m_revision := Suc (m_revision cur), m_updatedAt := Some now\<rparr> else m) (messages s)\<rparr>)"
proof -
  have same: "m = cur" if "m \<in> set (messages s)" "m_id m = m_id cur" for m
    using assms that by (auto simp: distinct_map inj_on_def)
  then have "find (\<lambda>m. m_id m = m_id cur \<and> m_revision m = m_revision cur) (messages s) = find (\<lambda>m. m_id m = m_id cur) (messages s)"
    by (intro find_cong) auto
  then have found: "find (\<lambda>m. m_id m = m_id cur \<and> m_revision m = m_revision cur) (messages s) = Some cur"
    using find_unique [OF assms] by simp
  have "map (\<lambda>m. if m_id m = m_id cur \<and> m_revision m = m_revision cur then g m else m) (messages s)
      = map (\<lambda>m. if m_id m = m_id cur then g m else m) (messages s)" for g
    using same by (intro map_cong) auto
  note this [of "\<lambda>m. (f m)\<lparr>m_revision := Suc (m_revision cur), m_updatedAt := Some now\<rparr>"]
  then show ?thesis by (simp only: write_row_def Let_def found option.case)
qed

text \<open>The writes preserve it.\<close>

lemma insert_revision_cases:
  obtains (thrown) e where "insert_revision t s = Inl e"
  | (inserted) ts where "insert_archived t (map m_id (messages s)) (messageContentRevisions s) = Inr ts"
      "insert_revision t s = Inr (s\<lparr>messageContentRevisions := ts\<rparr>)"
  by (cases "insert_archived t (map m_id (messages s)) (messageContentRevisions s)") (auto simp: insert_revision_def)

lemma insert_variant_cases:
  obtains (thrown) e where "insert_variant t s = Inl e"
  | (inserted) ts where "insert_archived t (map m_id (messages s)) (messageVariants s) = Inr ts"
      "insert_variant t s = Inr (s\<lparr>messageVariants := ts\<rparr>)"
  by (cases "insert_archived t (map m_id (messages s)) (messageVariants s)") (auto simp: insert_variant_def)

text \<open>A write that leaves the counts of a row alone.\<close>

lemma store_ok_plain:
  assumes "store_ok G s" and "cur \<in> set (messages s)" and "\<And>m. same_shape m (f m)"
    and "\<And>m. m_contentRevisionCount (f m) = m_contentRevisionCount m" and "write_row cur f now s = Inr (x, s')"
  shows "store_ok G s'"
proof (rule store_ok_rewrite [OF assms(1,2) _ store_okD(2,3) [OF assms(1)]])
  let ?f = "\<lambda>m. (f m)\<lparr>m_revision := Suc (m_revision cur), m_updatedAt := Some now\<rparr>"
  have shape: "same_shape m (?f m)" for m using assms(3) [of m] by (simp add: same_shape_def)
  show "m_id (?f m) = m_id m" for m using shape by (simp add: same_shape_def)
  show "swipe_ok (messageVariants s) (?f cur)" if "m_id cur \<notin> G"
    using swipe_ok_shape [OF shape [of cur]] store_okD(4) [OF assms(1,2) that] by simp
  show "history_ok (messageContentRevisions s) (?f cur)"
    using store_okD(5) [OF assms(1,2)] shape [of cur] assms(4) by (simp add: history_ok_def same_shape_def)
  show "s' = s\<lparr>messages := map (\<lambda>m. if m_id m = m_id cur then ?f m else m) (messages s),
      messageVariants := messageVariants s, messageContentRevisions := messageContentRevisions s\<rparr>"
    using assms(5) write_row_eq [OF store_okD(1) [OF assms(1)] assms(2), of f now] by auto
qed simp_all

text \<open>A write that archives the text it replaces.\<close>

lemma store_ok_archiving:
  assumes "store_ok G s" and "cur \<in> set (messages s)" and "\<And>m. same_shape m (f m)"
    and "\<And>m. m_contentRevisionCount (f m) = Suc (m_contentRevisionCount cur)"
    and "insert_archived (archive_of cur new_id) (map m_id (messages s)) (messageContentRevisions s) = Inr ts"
    and "write_row cur f now (s\<lparr>messageContentRevisions := ts\<rparr>) = Inr (x, s')"
  shows "store_ok G s'"
proof (rule store_ok_rewrite [OF assms(1,2) _ store_okD(2) [OF assms(1)] archived_ok_insert(1) [OF store_okD(3) [OF assms(1)] assms(5)]])
  let ?f = "\<lambda>m. (f m)\<lparr>m_revision := Suc (m_revision cur), m_updatedAt := Some now\<rparr>"
  have shape: "same_shape m (?f m)" for m using assms(3) [of m] by (simp add: same_shape_def)
  have ts: "ts = messageContentRevisions s @ [archive_of cur new_id]"
    by (rule archived_ok_insert(2) [OF store_okD(3) [OF assms(1)] assms(5)])
  show "m_id (?f m) = m_id m" for m using shape by (simp add: same_shape_def)
  show "positions ts j = positions (messageContentRevisions s) j" if "j \<noteq> m_id cur" for j
    using that by (simp add: ts positions_snoc archive_of_def)
  show "swipe_ok (messageVariants s) (?f cur)" if "m_id cur \<notin> G"
    using swipe_ok_shape [OF shape [of cur]] store_okD(4) [OF assms(1,2) that] by simp
  show "history_ok ts (?f cur)"
    using store_okD(5) [OF assms(1,2)] shape [of cur] assms(4)
    by (auto simp: ts history_ok_def same_shape_def positions_snoc archive_of_def)
  show "s' = s\<lparr>messages := map (\<lambda>m. if m_id m = m_id cur then ?f m else m) (messages s),
      messageVariants := messageVariants s, messageContentRevisions := ts\<rparr>"
    using assms(6) write_row_eq [of "s\<lparr>messageContentRevisions := ts\<rparr>" cur f now] store_okD(1) [OF assms(1)] assms(2) by auto
qed simp_all

lemma patched_shape: "same_shape m (patched p m)" "m_contentRevisionCount (patched p m) = m_contentRevisionCount m"
  by (simp_all add: same_shape_def patched_def)

text \<open>The edit step of an update and of a restore: the row is read, the old text archived, the row written.\<close>

lemma store_ok_update:
  assumes "store_ok G s" and "update_tx i p expected track new_id now s = Inr (x, s')"
  shows "store_ok G s'"
proof (cases "guarded i expected s")
  case None
  then show ?thesis using assms by (simp add: update_tx_def)
next
  case (Some cur)
  then have cur: "cur \<in> set (messages s)" using guarded_in by blast
  show ?thesis
  proof (cases "p_content p \<noteq> None \<and> p_content p \<noteq> Some (m_content cur) \<and> track")
    case False
    have "update_tx i p expected track new_id now s = write_row cur (patched p) now s"
      unfolding update_tx_def Some option.case by (rule if_not_P [OF False])
    then have "write_row cur (patched p) now s = Inr (x, s')" using assms(2) by simp
    from store_ok_plain [OF assms(1) cur patched_shape this] show ?thesis .
  next
    case True
    show ?thesis
    proof (cases rule: insert_revision_cases [of "archive_of cur new_id" s])
      case thrown
      then show ?thesis using assms(2) Some True by (simp add: update_tx_def)
    next
      case (inserted ts)
      let ?f = "\<lambda>m. patched p (m\<lparr>m_contentRevisionCount := Suc (m_contentRevisionCount cur)\<rparr>)"
      have "write_row cur ?f now (s\<lparr>messageContentRevisions := ts\<rparr>) = Inr (x, s')"
        using assms(2) Some True inserted(2) by (simp add: update_tx_def)
      from store_ok_archiving [OF assms(1) cur _ _ inserted(1) this] show ?thesis
        by (simp add: same_shape_def patched_def)
    qed
  qed
qed

lemma store_ok_restore:
  assumes "store_ok G s" and "restore_tx i rid expected new_id now s = Inr (x, s')"
  shows "store_ok G s'"
proof (cases "guarded i (Some expected) s")
  case None
  then show ?thesis using assms by (simp add: restore_tx_def)
next
  case (Some cur)
  then have cur: "cur \<in> set (messages s)" using guarded_in by blast
  show ?thesis
  proof (cases "find (\<lambda>r. a_id r = rid \<and> a_messageId r = i) (messageContentRevisions s)")
    case None
    then show ?thesis using assms Some by (simp add: restore_tx_def)
  next
    case sel: (Some sel)
    show ?thesis
    proof (cases "a_content sel = m_content cur")
      case True
      then show ?thesis using assms Some sel by (simp add: restore_tx_def)
    next
      case False
      show ?thesis
      proof (cases rule: insert_revision_cases [of "archive_of cur new_id" s])
        case thrown
        then show ?thesis using assms(2) Some sel False by (simp add: restore_tx_def)
      next
        case (inserted ts)
        let ?f = "\<lambda>m. m\<lparr>m_content := a_content sel, m_contentRevisionCount := Suc (m_contentRevisionCount cur)\<rparr>"
        have "write_row cur ?f now (s\<lparr>messageContentRevisions := ts\<rparr>) = Inr (x, s')"
          using assms(2) Some sel False inserted(2) by (simp add: restore_tx_def)
        from store_ok_archiving [OF assms(1) cur _ _ inserted(1) this] show ?thesis
          by (simp add: same_shape_def)
      qed
    qed
  qed
qed

text \<open>The two swipes.\<close>

lemma variant_at_in:
  "variant_at i p s = Some v \<Longrightarrow> v \<in> set (messageVariants s) \<and> a_messageId v = i \<and> a_position v = p"
  unfolding variant_at_def by (drule find_SomeD) simp

lemma store_ok_setActive:
  assumes "store_ok G s" and "setActiveVariant_tx i p expected new_id now s = Inr (x, s')"
  shows "store_ok G s'"
proof (cases "guarded i expected s")
  case None
  then show ?thesis using assms by (simp add: setActiveVariant_tx_def)
next
  case (Some m)
  then have m: "m \<in> set (messages s)" "m_id m = i" using guarded_in by blast+
  show ?thesis
  proof (cases "variant_at i p s")
    case None
    then show ?thesis using assms Some by (simp add: setActiveVariant_tx_def)
  next
    case v: (Some v)
    note vin = variant_at_in [OF v]
    let ?t = "\<lparr>a_id = new_id, a_messageId = i, a_position = activePosition m, a_content = m_content m, a_createdAt = now\<rparr>"
    show ?thesis
    proof (cases rule: insert_variant_cases [of ?t s])
      case thrown
      then show ?thesis using assms(2) Some v by (simp add: setActiveVariant_tx_def)
    next
      case (inserted ts)
      let ?f = "\<lambda>r. r\<lparr>m_content := a_content v, m_activeVariantPosition := Some p,
        m_revision := Suc (m_revision m), m_updatedAt := Some now\<rparr>"
      have ts: "archived_ok (map m_id (messages s)) ts" "ts = messageVariants s @ [?t]"
        using archived_ok_insert [OF store_okD(2) [OF assms(1)] inserted(1)] by simp_all
      have vts: "v \<in> set ts" using vin ts(2) by simp
      have s': "s' = s\<lparr>messages := map (\<lambda>r. if m_id r = m_id m then ?f r else r) (messages s),
          messageVariants := filter (\<lambda>t. a_id t \<noteq> a_id v) ts, messageContentRevisions := messageContentRevisions s\<rparr>"
        using assms(2) Some v inserted(2) m(2)
        by (auto simp: setActiveVariant_tx_def Let_def update_message_def delete_variant_def)
      have pos: "positions (filter (\<lambda>t. a_id t \<noteq> a_id v) ts) j
          = (if j = i then insert (activePosition m) (positions (messageVariants s) i) - {p} else positions (messageVariants s) j)" for j
        using positions_delete [OF ts(1) vts, of j] vin by (auto simp: ts(2) positions_snoc)
      have swipe: "swipe_ok (filter (\<lambda>t. a_id t \<noteq> a_id v) ts) (?f m)" if "m_id m \<notin> G"
      proof -
        have ok: "activePosition m < m_variantCount m" "positions (messageVariants s) i = set [0..<m_variantCount m] - {activePosition m}"
          using store_okD(4) [OF assms(1) m(1) that] m(2) by (simp_all add: swipe_ok_def)
        have "p \<in> positions (messageVariants s) i" using vin by (auto simp: positions_def)
        then have p: "p < m_variantCount m" using ok(2) by simp
        have "insert (activePosition m) (set [0..<m_variantCount m] - {activePosition m}) = set [0..<m_variantCount m]"
          using ok(1) by auto
        then have "positions (filter (\<lambda>t. a_id t \<noteq> a_id v) ts) i = set [0..<m_variantCount m] - {p}"
          unfolding pos ok(2) by simp
        with p m(2) show ?thesis by (simp add: swipe_ok_def activePosition_def)
      qed
      show ?thesis
      proof (rule store_ok_rewrite [OF assms(1) m(1) _ archived_ok_filter [OF ts(1)] store_okD(3) [OF assms(1)] _ _ _ _ s'])
        show "swipe_ok (filter (\<lambda>t. a_id t \<noteq> a_id v) ts) (?f m)" if "m_id m \<notin> G" using swipe that .
        show "history_ok (messageContentRevisions s) (?f m)"
          using store_okD(5) [OF assms(1) m(1)] by (simp add: history_ok_def)
      qed (use m(2) pos in simp_all)
    qed
  qed
qed

lemma store_ok_replace:
  assumes "store_ok G s" and "replaceContentAsVariant_tx i archived text meta new_id now s = Inr (x, s')"
  shows "store_ok G s'"
proof (cases "message_of s i")
  case None
  then show ?thesis using assms by (simp add: replaceContentAsVariant_tx_def)
next
  case (Some m)
  then have m: "m \<in> set (messages s)" "m_id m = i" using message_of_in by blast+
  let ?t = "\<lparr>a_id = new_id, a_messageId = i, a_position = activePosition m, a_content = archived, a_createdAt = now\<rparr>"
  show ?thesis
  proof (cases rule: insert_variant_cases [of ?t s])
    case thrown
    then show ?thesis using assms(2) Some by (simp add: replaceContentAsVariant_tx_def)
  next
    case (inserted ts)
    let ?f = "\<lambda>r. r\<lparr>m_content := text, m_meta := meta, m_variantCount := Suc (m_variantCount m),
      m_activeVariantPosition := Some (m_variantCount m), m_revision := Suc (m_revision m), m_updatedAt := Some now\<rparr>"
    have ts: "archived_ok (map m_id (messages s)) ts" "ts = messageVariants s @ [?t]"
      using archived_ok_insert [OF store_okD(2) [OF assms(1)] inserted(1)] by simp_all
    have s': "s' = s\<lparr>messages := map (\<lambda>r. if m_id r = m_id m then ?f r else r) (messages s),
        messageVariants := ts, messageContentRevisions := messageContentRevisions s\<rparr>"
      using assms(2) Some inserted(2) m(2) by (auto simp: replaceContentAsVariant_tx_def Let_def update_message_def)
    have swipe: "swipe_ok ts (?f m)" if "m_id m \<notin> G"
    proof -
      have ok: "activePosition m < m_variantCount m" "positions (messageVariants s) i = set [0..<m_variantCount m] - {activePosition m}"
        using store_okD(4) [OF assms(1) m(1) that] m(2) by (simp_all add: swipe_ok_def)
      have "insert (activePosition m) (set [0..<m_variantCount m] - {activePosition m}) = set [0..<m_variantCount m]"
        using ok(1) by auto
      then have "positions ts i = set [0..<Suc (m_variantCount m)] - {m_variantCount m}"
        by (simp add: ts(2) positions_snoc ok(2))
      with m(2) show ?thesis by (simp add: swipe_ok_def activePosition_def)
    qed
    show ?thesis
    proof (rule store_ok_rewrite [OF assms(1) m(1) _ ts(1) store_okD(3) [OF assms(1)] _ _ _ _ s'])
      show "swipe_ok ts (?f m)" if "m_id m \<notin> G" using swipe that .
      show "history_ok (messageContentRevisions s) (?f m)"
        using store_okD(5) [OF assms(1) m(1)] by (simp add: history_ok_def)
    qed (use m(2) in \<open>simp_all add: ts(2) positions_snoc\<close>)
  qed
qed

lemma store_ok_touch [simp]: "store_ok G (touch_character c now s) = store_ok G s"
  by (simp add: store_ok_def touch_character_def)

lemma store_ok_new_message:
  assumes "store_ok G s" and "insert_message m s = Inr s'"
    and "m_id m \<in> G \<or> m_variantCount m = 1 \<and> m_activeVariantPosition m = Some 0" and "m_contentRevisionCount m = 0"
  shows "store_ok G s'"
proof (rule store_okI)
  have s': "s' = s\<lparr>messages := messages s @ [m]\<rparr>" and new: "m_id m \<notin> set (map m_id (messages s))"
    using assms(2) by (auto simp: insert_message_def split: if_splits)
  show "distinct (map m_id (messages s'))" using store_okD(1) [OF assms(1)] new by (simp add: s')
  have more: "set (map m_id (messages s)) \<subseteq> set (map m_id (messages s'))" by (auto simp: s')
  show "archived_ok (map m_id (messages s')) (messageVariants s')"
    using archived_ok_more [OF store_okD(2) [OF assms(1)] more] by (simp add: s')
  show "archived_ok (map m_id (messages s')) (messageContentRevisions s')"
    using archived_ok_more [OF store_okD(3) [OF assms(1)] more] by (simp add: s')
  have "m_id m \<notin> set (map a_messageId (messageVariants s))" "m_id m \<notin> set (map a_messageId (messageContentRevisions s))"
    using store_okD(2,3) [OF assms(1)] new unfolding archived_ok_def by blast+
  then have "m_id m \<in> G \<or> swipe_ok (messageVariants s) m" "history_ok (messageContentRevisions s) m"
    using assms(3,4) by (auto simp: swipe_ok_def history_ok_def positions_absent activePosition_def)
  then show "r \<in> set (messages s') \<Longrightarrow> m_id r \<notin> G \<Longrightarrow> swipe_ok (messageVariants s') r"
    "r \<in> set (messages s') \<Longrightarrow> history_ok (messageContentRevisions s') r" for r
    using store_okD(4,5) [OF assms(1), of r] by (auto simp: s')
qed

lemma store_ok_create:
  assumes "store_ok G s" and "create_tx ch br input new_id now s = Inr (x, s')"
  shows "store_ok G s'"
proof (cases "insert_message (new_message_row ch br input new_id now) s")
  case (Inr s1)
  from store_ok_new_message [OF assms(1) this] have "store_ok G s1" by (simp add: new_message_row_def)
  then show ?thesis using assms(2) Inr by (auto simp: create_tx_def)
next
  case (Inl e)
  then show ?thesis
    using assms by (auto simp: create_tx_def split: option.splits list.splits if_splits)
qed

lemma store_ok_delete:
  assumes "store_ok G s"
  shows "store_ok G (snd (delete_message i s))"
proof (rule store_okI)
  let ?s = "snd (delete_message i s)"
  have ids: "map m_id (messages ?s) = filter (\<lambda>j. j \<noteq> i) (map m_id (messages s))"
    by (simp add: delete_message_def filter_map comp_def)
  show "distinct (map m_id (messages ?s))" unfolding ids using store_okD(1) [OF assms] by simp
  have kept: "archived_ok (filter (\<lambda>j. j \<noteq> i) ids) (filter (\<lambda>v. a_messageId v \<noteq> i) ts)" if "archived_ok ids ts" for ids ts
    using that by (auto simp: archived_ok_def distinct_map_filter)
  show "archived_ok (map m_id (messages ?s)) (messageVariants ?s)"
    unfolding ids using kept [OF store_okD(2) [OF assms]] by (simp add: delete_message_def)
  show "archived_ok (map m_id (messages ?s)) (messageContentRevisions ?s)"
    unfolding ids using kept [OF store_okD(3) [OF assms]] by (simp add: delete_message_def)
  fix m assume "m \<in> set (messages ?s)"
  then have m: "m \<in> set (messages s)" "m_id m \<noteq> i" by (simp_all add: delete_message_def)
  then show "history_ok (messageContentRevisions ?s) m" "m_id m \<notin> G \<Longrightarrow> swipe_ok (messageVariants ?s) m"
    using store_okD(4,5) [OF assms m(1)] by (simp_all add: swipe_ok_def history_ok_def delete_message_def positions_delete_message)
qed

lemma store_ok_link:
  assumes "store_ok G s"
  shows "store_ok G (snd (linkCheckpoint i child now s))"
proof -
  let ?f = "\<lambda>m. m\<lparr>m_checkpointChatId := Some child, m_revision := Suc (m_revision m), m_updatedAt := Some now\<rparr>"
  have ids: "map m_id (messages (snd (linkCheckpoint i child now s))) = map m_id (messages s)"
    by (simp add: linkCheckpoint_def update_message_def)
  have tables: "messageVariants (snd (linkCheckpoint i child now s)) = messageVariants s"
    "messageContentRevisions (snd (linkCheckpoint i child now s)) = messageContentRevisions s"
    by (simp_all add: linkCheckpoint_def update_message_def)
  have same: "swipe_ok vs (?f m) = swipe_ok vs m" "history_ok rs (?f m) = history_ok rs m" for vs rs m
    by (simp_all add: swipe_ok_def history_ok_def activePosition_def)
  show ?thesis
  proof (rule store_okI, unfold ids tables)
    fix m assume "m \<in> set (messages (snd (linkCheckpoint i child now s)))"
    then obtain r where "r \<in> set (messages s)" "m = r \<or> m = ?f r"
      by (auto simp: linkCheckpoint_def update_message_def)
    then show "m_id m \<notin> G \<Longrightarrow> swipe_ok (messageVariants s) m" "history_ok (messageContentRevisions s) m"
      using store_okD(4,5) [OF assms, of r] same by auto
  qed (rule store_okD [OF assms])+
qed

lemma transaction_keeps:
  "P s \<Longrightarrow> (\<And>x s'. f s = Inr (x, s') \<Longrightarrow> P s') \<Longrightarrow> P (snd (transaction f s))"
  by (cases rule: transaction_cases [of f s]) simp_all

lemma store_ok_swipe: "store_ok G s \<Longrightarrow> store_ok G (snd (setActiveVariant i p expected new_id now s))"
  unfolding setActiveVariant_def by (rule transaction_keeps) (auto intro: store_ok_setActive)

lemma store_ok_step: "store_ok G s \<Longrightarrow> store_ok G (message_step e s)"
proof (cases e)
  case (CreateMessage ch br input new_id now)
  then show "store_ok G s \<Longrightarrow> store_ok G (message_step e s)"
    using transaction_keeps [of "store_ok G", OF _ store_ok_create] by (simp add: create_message_def)
next
  case (UpdateMessage i p expected track new_id now)
  then show "store_ok G s \<Longrightarrow> store_ok G (message_step e s)"
    using transaction_keeps [of "store_ok G", OF _ store_ok_update] by simp
next
  case (RestoreRevision i rid expected new_id now)
  then show "store_ok G s \<Longrightarrow> store_ok G (message_step e s)"
    using transaction_keeps [of "store_ok G", OF _ store_ok_restore] by simp
next
  case (SetActiveVariant i p expected new_id now)
  then show "store_ok G s \<Longrightarrow> store_ok G (message_step e s)"
    by (simp add: store_ok_swipe)
next
  case (ActivateVariant i vid expected new_id now)
  then show "store_ok G s \<Longrightarrow> store_ok G (message_step e s)"
    by (simp add: activateVariant_def store_ok_swipe split: option.split)
next
  case (ReplaceAsVariant i archived new_text meta new_id now)
  then show "store_ok G s \<Longrightarrow> store_ok G (message_step e s)"
    using transaction_keeps [of "store_ok G", OF _ store_ok_replace] by simp
qed (simp_all add: store_ok_link store_ok_delete)

interpretation message_events: event_system message_step "store_ok G" for G
  by unfold_locales (rule store_ok_step)

text \<open>A store with one message that was regenerated once and edited once.\<close>

definition demo_create :: message_create where
  "demo_create = \<lparr>n_role = Assistant, n_content = ''first'', n_parentId = None, n_name = None, n_meta = None,
     n_idempotencyKey = Some ''k''\<rparr>"

definition demo_chat :: chat_row where
  "demo_chat = \<lparr>c_id = ''c'', c_characterId = Some ''char'', c_personaId = None, c_title = ''New chat'', c_activeBranchId = Some ''b'',
     c_backgroundId = None, c_summary = '''', c_messageCount = 0, c_createdAt = 0, c_updatedAt = 0, c_deletedAt = None,
     c_parentChatId = None, c_origin = None, c_sourceMessageId = None, c_sortOrder = 0\<rparr>"

definition demo_db :: db where
  "demo_db = \<lparr>characters = [(''char'', None)], personas = [], chats = [demo_chat],
     chatBranches = [\<lparr>br_id = ''b'', br_chatId = ''c'', br_name = ''main'', br_createdAt = 0\<rparr>],
     messages = [], messageVariants = [], messageContentRevisions = [], messageBlocks = [], messageDrafts = []\<rparr>"

definition demo_ops :: "message_op list" where
  "demo_ops = [CreateMessage ''c'' ''b'' demo_create ''m'' 1, ReplaceAsVariant ''m'' ''first'' ''second'' ''{}'' ''v0'' 2,
     UpdateMessage ''m'' \<lparr>p_content = Some ''third'', p_role = None, p_meta = None, p_checkpointChatId = None\<rparr> (Some 2) True ''r0'' 3]"

lemma demo_db_ok: "store_ok G demo_db"
  by (simp add: store_ok_def demo_db_def archived_ok_def)

section \<open>Swipes as a list with a cursor\<close>

text \<open>What a user sees of a message: its texts in the order they were written, and which one is shown.\<close>

definition text_at :: "message_row \<Rightarrow> db \<Rightarrow> nat \<Rightarrow> string" where
  "text_at m s p = (if p = activePosition m then m_content m
     else (case variant_at (m_id m) p s of None \<Rightarrow> [] | Some v \<Rightarrow> a_content v))"

record swipe_list =
  texts :: "string list"
  cursor :: nat
  version :: nat

definition swipes :: "string \<Rightarrow> db \<Rightarrow> swipe_list option" where
  "swipes i s = map_option (\<lambda>m. \<lparr>texts = map (text_at m s) [0..<m_variantCount m], cursor = activePosition m,
     version = m_revision m\<rparr>) (message_of s i)"

definition show_swipe :: "nat \<Rightarrow> nat option \<Rightarrow> swipe_list \<Rightarrow> swipe_list" where
  "show_swipe p expected a = (if (expected = None \<or> expected = Some (version a)) \<and> p < length (texts a) \<and> p \<noteq> cursor a
     then a\<lparr>cursor := p, version := Suc (version a)\<rparr> else a)"

definition add_swipe :: "string \<Rightarrow> string \<Rightarrow> swipe_list \<Rightarrow> swipe_list" where
  "add_swipe archived text a = \<lparr>texts = (texts a)[cursor a := archived] @ [text], cursor = length (texts a),
     version = Suc (version a)\<rparr>"

lemma variant_at_some:
  assumes "store_ok G s" and "m \<in> set (messages s)" and "m_id m \<notin> G"
  shows "(variant_at (m_id m) p s \<noteq> None) \<longleftrightarrow> p < m_variantCount m \<and> p \<noteq> activePosition m"
proof -
  have "(variant_at (m_id m) p s \<noteq> None) \<longleftrightarrow> p \<in> positions (messageVariants s) (m_id m)"
    by (auto simp: variant_at_def positions_def find_None_iff)
  then show ?thesis using store_okD(4) [OF assms] by (auto simp: swipe_ok_def)
qed

lemma variant_at_iff:
  assumes "store_ok G s"
  shows "variant_at i p s = Some v \<longleftrightarrow> v \<in> set (messageVariants s) \<and> a_messageId v = i \<and> a_position v = p"
proof
  assume "v \<in> set (messageVariants s) \<and> a_messageId v = i \<and> a_position v = p"
  then show "variant_at i p s = Some v"
    using find_unique [of "\<lambda>t. (a_messageId t, a_position t)" "messageVariants s" v] store_okD(2) [OF assms]
    by (auto simp: variant_at_def archived_ok_def)
qed (rule variant_at_in)

lemma guarded_eq:
  assumes "store_ok G s" and "message_of s i = Some m"
  shows "guarded i expected s = (if expected = None \<or> expected = Some (m_revision m) then Some m else None)"
proof -
  have m: "m \<in> set (messages s)" "m_id m = i" using message_of_in [OF assms(2)] by simp_all
  have same: "r = m" if "r \<in> set (messages s)" "m_id r = i" for r
    using store_okD(1) [OF assms(1)] m that by (auto simp: distinct_map inj_on_def)
  show ?thesis
  proof (cases "expected = None \<or> expected = Some (m_revision m)")
    case True
    have "find (\<lambda>r. m_id r = i \<and> (case expected of None \<Rightarrow> True | Some k \<Rightarrow> m_revision r = k)) (messages s)
        = find (\<lambda>r. m_id r = i) (messages s)"
      using True same by (intro find_cong) auto
    then show ?thesis using True assms(2) by (simp add: guarded_def message_of_def)
  next
    case False
    then have "guarded i expected s = None"
      using same by (auto simp: guarded_def find_None_iff split: option.splits)
    then show ?thesis using False by simp
  qed
qed

lemma insert_variant_fresh:
  assumes "store_ok G s" and "m \<in> set (messages s)" and "m_id m \<notin> G" and "new_id \<notin> set (map a_id (messageVariants s))"
  shows "insert_variant \<lparr>a_id = new_id, a_messageId = m_id m, a_position = activePosition m, a_content = t, a_createdAt = now\<rparr> s
    = Inr (s\<lparr>messageVariants := messageVariants s @
        [\<lparr>a_id = new_id, a_messageId = m_id m, a_position = activePosition m, a_content = t, a_createdAt = now\<rparr>]\<rparr>)"
proof -
  have "activePosition m \<notin> positions (messageVariants s) (m_id m)"
    using store_okD(4) [OF assms(1-3)] by (simp add: swipe_ok_def)
  then have "(m_id m, activePosition m) \<notin> set (map (\<lambda>r. (a_messageId r, a_position r)) (messageVariants s))"
    by (auto simp: positions_def)
  with assms(2,4) show ?thesis by (simp add: insert_variant_def insert_archived_def)
qed

lemma message_of_rewritten:
  assumes "message_of s i = Some m" and "\<And>r. m_id (f r) = m_id r"
  shows "message_of (update_message i f s) i = Some (f m)"
proof -
  have "find (\<lambda>r. m_id r = i) (map (\<lambda>m. if m_id m = i then f m else m) ms) = Some (f m)"
    if "find (\<lambda>r. m_id r = i) ms = Some m" for ms
    using that by (induction ms) (auto simp: assms(2) split: if_splits)
  then show ?thesis using assms(1) by (simp add: message_of_def update_message_def)
qed

lemma show_swipe_refines:
  assumes "store_ok G s" and "i \<notin> G" and "new_id \<notin> set (map a_id (messageVariants s))"
  shows "swipes i (snd (setActiveVariant i p expected new_id now s)) = map_option (show_swipe p expected) (swipes i s)"
proof (cases "message_of s i")
  case None
  then have "guarded i expected s = None"
    unfolding guarded_def message_of_def by (auto simp: find_None_iff)
  then show ?thesis using None by (simp add: setActiveVariant_def transaction_def setActiveVariant_tx_def swipes_def)
next
  case (Some m)
  have m: "m \<in> set (messages s)" "m_id m = i" using message_of_in [OF Some] by simp_all
  have out: "m_id m \<notin> G" using m(2) assms(2) by simp
  have ok: "swipe_ok (messageVariants s) m" by (rule store_okD(4) [OF assms(1) m(1) out])
  show ?thesis
  proof (cases "(expected = None \<or> expected = Some (m_revision m)) \<and> p < m_variantCount m \<and> p \<noteq> activePosition m")
    case False
    then have "guarded i expected s = None \<or> guarded i expected s = Some m \<and> variant_at i p s = None"
      using guarded_eq [OF assms(1) Some, of expected] variant_at_some [OF assms(1) m(1) out, of p] m(2) by auto
    then have "snd (setActiveVariant i p expected new_id now s) = s"
      by (auto simp: setActiveVariant_def transaction_def setActiveVariant_tx_def)
    then show ?thesis using Some False by (auto simp: swipes_def show_swipe_def)
  next
    case True
    then obtain v where v: "variant_at i p s = Some v"
      using variant_at_some [OF assms(1) m(1) out, of p] m(2) by auto
    let ?t = "\<lparr>a_id = new_id, a_messageId = i, a_position = activePosition m, a_content = m_content m, a_createdAt = now\<rparr>"
    let ?f = "\<lambda>r. r\<lparr>m_content := a_content v, m_activeVariantPosition := Some p,
      m_revision := Suc (m_revision m), m_updatedAt := Some now\<rparr>"
    define s' where "s' = delete_variant (a_id v) (update_message i ?f (s\<lparr>messageVariants := messageVariants s @ [?t]\<rparr>))"
    have result: "snd (setActiveVariant i p expected new_id now s) = s'"
      using guarded_eq [OF assms(1) Some, of expected] True v insert_variant_fresh [OF assms(1) m(1) out assms(3)] m(2)
      by (simp add: setActiveVariant_def transaction_def setActiveVariant_tx_def Let_def s'_def)
    have m': "message_of s' i = Some (?f m)"
      using message_of_rewritten [of "s\<lparr>messageVariants := messageVariants s @ [?t]\<rparr>" i m ?f] Some
      by (simp add: s'_def delete_variant_def message_of_def)
    have vin: "v \<in> set (messageVariants s)" "a_position v = p" "a_messageId v = i" using variant_at_in [OF v] by simp_all
    have fresh: "new_id \<noteq> a_id v" using vin(1) assms(3) by auto
    have ok': "store_ok G s'" using store_ok_swipe [OF assms(1), of i p expected new_id now] by (simp add: result)
    have in_s': "x \<in> set (messageVariants s')" if "x = ?t \<or> x \<in> set (messageVariants s) \<and> a_id x \<noteq> a_id v" for x
      using that fresh by (auto simp: s'_def delete_variant_def update_message_def)
    have "text_at (?f m) s' q = text_at m s q" if q: "q < m_variantCount m" for q
    proof -
      consider "q = p" | "q = activePosition m" "q \<noteq> p" | "q \<noteq> p" "q \<noteq> activePosition m" by blast
      then show ?thesis
      proof cases
        case 1
        then show ?thesis using True v m(2) by (simp add: text_at_def activePosition_def)
      next
        case 2
        have "variant_at i q s' = Some ?t" using variant_at_iff [OF ok'] in_s' [of ?t] 2 by simp
        then show ?thesis using 2 m(2) by (simp add: text_at_def activePosition_def)
      next
        case 3
        then obtain w where w: "variant_at i q s = Some w" using variant_at_some [OF assms(1) m(1) out, of q] q m(2) by auto
        then have win: "w \<in> set (messageVariants s)" "a_messageId w = i" "a_position w = q"
          using variant_at_iff [OF assms(1)] by blast+
        have "a_id w \<noteq> a_id v"
        proof
          assume "a_id w = a_id v"
          then have "w = v" using store_okD(2) [OF assms(1)] win(1) vin(1) by (auto simp: archived_ok_def distinct_map inj_on_def)
          with win(3) vin(2) 3 show False by simp
        qed
        then have "variant_at i q s' = Some w" using variant_at_iff [OF ok'] in_s' [of w] win by simp
        then show ?thesis using 3 w m(2) by (simp add: text_at_def activePosition_def)
      qed
    qed
    then have "map (text_at (?f m) s') [0..<m_variantCount m] = map (text_at m s) [0..<m_variantCount m]" by simp
    then have "swipes i s' = Some \<lparr>texts = map (text_at m s) [0..<m_variantCount m], cursor = p, version = Suc (m_revision m)\<rparr>"
      using m' by (simp add: swipes_def activePosition_def)
    then show ?thesis using True Some by (simp add: result swipes_def show_swipe_def)
  qed
qed

lemma add_swipe_refines:
  assumes "store_ok G s" and "i \<notin> G" and "new_id \<notin> set (map a_id (messageVariants s))"
  shows "swipes i (snd (transaction (replaceContentAsVariant_tx i archived text meta new_id now) s))
    = map_option (add_swipe archived text) (swipes i s)"
proof (cases "message_of s i")
  case None
  then show ?thesis by (simp add: transaction_def replaceContentAsVariant_tx_def swipes_def)
next
  case (Some m)
  have m: "m \<in> set (messages s)" "m_id m = i" using message_of_in [OF Some] by simp_all
  have out: "m_id m \<notin> G" using m(2) assms(2) by simp
  let ?t = "\<lparr>a_id = new_id, a_messageId = i, a_position = activePosition m, a_content = archived, a_createdAt = now\<rparr>"
  let ?f = "\<lambda>r. r\<lparr>m_content := text, m_meta := meta, m_variantCount := Suc (m_variantCount m),
    m_activeVariantPosition := Some (m_variantCount m), m_revision := Suc (m_revision m), m_updatedAt := Some now\<rparr>"
  define s' where "s' = update_message i ?f (s\<lparr>messageVariants := messageVariants s @ [?t]\<rparr>)"
  have tx: "replaceContentAsVariant_tx i archived text meta new_id now s = Inr (updated_view i s', s')"
    using Some insert_variant_fresh [OF assms(1) m(1) out assms(3), of archived now] m(2)
    by (simp add: replaceContentAsVariant_tx_def Let_def s'_def)
  have ok': "store_ok G s'" by (rule store_ok_replace [OF assms(1) tx])
  have m': "message_of s' i = Some (?f m)"
    using message_of_rewritten [of "s\<lparr>messageVariants := messageVariants s @ [?t]\<rparr>" i m ?f] Some
    by (simp add: s'_def message_of_def)
  have active: "activePosition m < m_variantCount m" using store_okD(4) [OF assms(1) m(1) out] by (simp add: swipe_ok_def)
  have in_s': "x \<in> set (messageVariants s')" if "x = ?t \<or> x \<in> set (messageVariants s)" for x
    using that by (auto simp: s'_def update_message_def)
  have "text_at (?f m) s' q = (if q = activePosition m then archived else text_at m s q)" if q: "q < m_variantCount m" for q
  proof (cases "q = activePosition m")
    case True
    have "variant_at i q s' = Some ?t" using variant_at_iff [OF ok'] in_s' [of ?t] True by simp
    then show ?thesis using True q m(2) by (simp add: text_at_def activePosition_def)
  next
    case False
    then obtain w where w: "variant_at i q s = Some w" using variant_at_some [OF assms(1) m(1) out, of q] q m(2) by auto
    then have "variant_at i q s' = Some w" using variant_at_iff [OF ok'] variant_at_iff [OF assms(1)] in_s' [of w] by simp
    then show ?thesis using False w q m(2) by (simp add: text_at_def activePosition_def)
  qed
  then have "map (text_at (?f m) s') [0..<m_variantCount m] = (map (text_at m s) [0..<m_variantCount m])[activePosition m := archived]"
    using active by (intro nth_equalityI) (auto simp: nth_list_update)
  moreover have "text_at (?f m) s' (m_variantCount m) = text" by (simp add: text_at_def activePosition_def)
  ultimately have "swipes i s' = Some \<lparr>texts = (map (text_at m s) [0..<m_variantCount m])[activePosition m := archived] @ [text],
      cursor = m_variantCount m, version = Suc (m_revision m)\<rparr>"
    using m' by (simp add: swipes_def activePosition_def)
  then show ?thesis using Some by (simp add: transaction_def tx swipes_def add_swipe_def)
qed

section \<open>What one write does to the table\<close>

text \<open>A rewritten row keeps its identity and gets a later revision.\<close>

definition later_row :: "message_row \<Rightarrow> message_row \<Rightarrow> bool" where
  "later_row m m' \<longleftrightarrow> m_id m' = m_id m \<and> m_chatId m' = m_chatId m \<and> m_branchId m' = m_branchId m
     \<and> m_createdAt m' = m_createdAt m \<and> m_idempotencyKey m' = m_idempotencyKey m \<and> m_revision m < m_revision m'"

text \<open>The rows of a message before and after a write.\<close>

definition row_moves :: "db \<Rightarrow> db \<Rightarrow> string \<Rightarrow> bool" where
  "row_moves s s' i \<longleftrightarrow> (case (message_of s i, message_of s' i) of
       (None, None) \<Rightarrow> True | (Some m, Some m') \<Rightarrow> m' = m \<or> later_row m m' | _ \<Rightarrow> False)"

lemma row_moves_same: "messages s' = messages s \<Longrightarrow> row_moves s s' i"
  by (cases "message_of s i") (simp_all add: row_moves_def message_of_def)

lemma row_moves_rewrite:
  assumes "messages s' = map (\<lambda>m. if P m then f m else m) (messages s)" and "\<And>m. m \<in> set (messages s) \<Longrightarrow> P m \<Longrightarrow> later_row m (f m)"
  shows "row_moves s s' i"
proof -
  have "case (find (\<lambda>m. m_id m = i) ms, find (\<lambda>m. m_id m = i) (map (\<lambda>m. if P m then f m else m) ms)) of
      (None, None) \<Rightarrow> True | (Some m, Some m') \<Rightarrow> m' = m \<or> later_row m m' | _ \<Rightarrow> False"
    if "\<And>m. m \<in> set ms \<Longrightarrow> P m \<Longrightarrow> later_row m (f m)" for ms
    using that
  proof (induction ms)
    case Nil
    then show ?case by simp
  next
    case (Cons m ms)
    then have "P m \<Longrightarrow> later_row m (f m)" by simp
    then have "P m \<Longrightarrow> m_id (f m) = m_id m" by (simp add: later_row_def)
    with Cons show ?case by (auto simp: later_row_def)
  qed
  then show ?thesis using assms by (simp add: row_moves_def message_of_def)
qed

lemma row_moves_write:
  assumes "write_row cur f now s1 = Inr (x, s')" and "messages s1 = messages s"
    and "\<And>m. m_id (f m) = m_id m \<and> m_chatId (f m) = m_chatId m \<and> m_branchId (f m) = m_branchId m
      \<and> m_createdAt (f m) = m_createdAt m \<and> m_idempotencyKey (f m) = m_idempotencyKey m"
  shows "row_moves s s' i"
proof (rule row_moves_rewrite)
  show "messages s' = map (\<lambda>m. if m_id m = m_id cur \<and> m_revision m = m_revision cur
      then (f m)\<lparr>m_revision := Suc (m_revision cur), m_updatedAt := Some now\<rparr> else m) (messages s)"
    using assms(1,2) by (auto simp: write_row_def Let_def)
qed (use assms(3) in \<open>simp add: later_row_def\<close>)

lemma update_moves:
  assumes "update_tx i p expected track new_id now s = Inr (x, s')"
  shows "row_moves s s' j"
proof (cases "guarded i expected s")
  case None
  then show ?thesis using assms by (simp add: update_tx_def row_moves_same)
next
  case (Some cur)
  show ?thesis
  proof (cases "p_content p \<noteq> None \<and> p_content p \<noteq> Some (m_content cur) \<and> track")
    case False
    have "update_tx i p expected track new_id now s = write_row cur (patched p) now s"
      unfolding update_tx_def Some option.case by (rule if_not_P [OF False])
    then show ?thesis using row_moves_write [of cur "patched p" now s x s' s] assms by (simp add: patched_def)
  next
    case True
    show ?thesis
    proof (cases rule: insert_revision_cases [of "archive_of cur new_id" s])
      case thrown
      then show ?thesis using assms Some True by (simp add: update_tx_def)
    next
      case (inserted ts)
      then show ?thesis
        using assms Some True row_moves_write [of cur "\<lambda>m. patched p (m\<lparr>m_contentRevisionCount := Suc (m_contentRevisionCount cur)\<rparr>)" now
            "s\<lparr>messageContentRevisions := ts\<rparr>" x s' s]
        by (simp add: update_tx_def patched_def)
    qed
  qed
qed

lemma restore_moves:
  assumes "restore_tx i rid expected new_id now s = Inr (x, s')"
  shows "row_moves s s' j"
proof (cases "guarded i (Some expected) s")
  case None
  then show ?thesis using assms by (simp add: restore_tx_def row_moves_same)
next
  case (Some cur)
  show ?thesis
  proof (cases "find (\<lambda>r. a_id r = rid \<and> a_messageId r = i) (messageContentRevisions s)")
    case None
    then show ?thesis using assms Some by (simp add: restore_tx_def row_moves_same)
  next
    case sel: (Some sel)
    show ?thesis
    proof (cases rule: insert_revision_cases [of "archive_of cur new_id" s])
      case thrown
      then show ?thesis using assms Some sel by (auto simp: restore_tx_def row_moves_same split: if_splits)
    next
      case (inserted ts)
      then show ?thesis
        using assms Some sel row_moves_write [of cur "\<lambda>m. m\<lparr>m_content := a_content sel,
            m_contentRevisionCount := Suc (m_contentRevisionCount cur)\<rparr>" now "s\<lparr>messageContentRevisions := ts\<rparr>" x s' s]
        by (auto simp: restore_tx_def row_moves_same split: if_splits)
    qed
  qed
qed

lemma unique_row: "store_ok G s \<Longrightarrow> m \<in> set (messages s) \<Longrightarrow> r \<in> set (messages s) \<Longrightarrow> m_id r = m_id m \<Longrightarrow> r = m"
  using store_okD(1) [of G s] by (auto simp: distinct_map inj_on_def)

lemma setActive_moves:
  assumes "store_ok G s" and "setActiveVariant_tx i p expected new_id now s = Inr (x, s')"
  shows "row_moves s s' j"
proof (cases "guarded i expected s")
  case None
  then show ?thesis using assms(2) by (simp add: setActiveVariant_tx_def row_moves_same)
next
  case (Some m)
  then have m: "m \<in> set (messages s)" "m_id m = i" using guarded_in by blast+
  show ?thesis
  proof (cases "variant_at i p s")
    case None
    then show ?thesis using assms(2) Some by (simp add: setActiveVariant_tx_def row_moves_same)
  next
    case v: (Some v)
    let ?f = "\<lambda>r. r\<lparr>m_content := a_content v, m_activeVariantPosition := Some p,
      m_revision := Suc (m_revision m), m_updatedAt := Some now\<rparr>"
    have "messages s' = map (\<lambda>r. if m_id r = i then ?f r else r) (messages s)"
      using assms(2) Some v
      by (cases rule: insert_variant_cases [of "\<lparr>a_id = new_id, a_messageId = i, a_position = activePosition m,
            a_content = m_content m, a_createdAt = now\<rparr>" s])
        (auto simp: setActiveVariant_tx_def Let_def update_message_def delete_variant_def)
    then show ?thesis
      by (rule row_moves_rewrite) (use unique_row [OF assms(1) m(1)] m(2) in \<open>auto simp: later_row_def\<close>)
  qed
qed

lemma replace_moves:
  assumes "store_ok G s" and "replaceContentAsVariant_tx i archived new_text meta new_id now s = Inr (x, s')"
  shows "row_moves s s' j"
proof (cases "message_of s i")
  case None
  then show ?thesis using assms(2) by (simp add: replaceContentAsVariant_tx_def row_moves_same)
next
  case (Some m)
  then have m: "m \<in> set (messages s)" "m_id m = i" using message_of_in by blast+
  let ?f = "\<lambda>r. r\<lparr>m_content := new_text, m_meta := meta, m_variantCount := Suc (m_variantCount m),
    m_activeVariantPosition := Some (m_variantCount m), m_revision := Suc (m_revision m), m_updatedAt := Some now\<rparr>"
  have "messages s' = map (\<lambda>r. if m_id r = i then ?f r else r) (messages s)"
    using assms(2) Some
    by (cases rule: insert_variant_cases [of "\<lparr>a_id = new_id, a_messageId = i, a_position = activePosition m,
          a_content = archived, a_createdAt = now\<rparr>" s])
      (auto simp: replaceContentAsVariant_tx_def Let_def update_message_def)
  then show ?thesis
    by (rule row_moves_rewrite) (use unique_row [OF assms(1) m(1)] m(2) in \<open>auto simp: later_row_def\<close>)
qed

lemma link_moves: "row_moves s (snd (linkCheckpoint i child now s)) j"
  by (rule row_moves_rewrite [of _ "\<lambda>m. m_id m = i" "\<lambda>m. m\<lparr>m_checkpointChatId := Some child,
      m_revision := Suc (m_revision m), m_updatedAt := Some now\<rparr>"])
    (simp_all add: linkCheckpoint_def update_message_def later_row_def)

lemma moves_transaction:
  "(\<And>x s'. f s = Inr (x, s') \<Longrightarrow> row_moves s s' j) \<Longrightarrow> row_moves s (snd (transaction f s)) j"
  by (cases rule: transaction_cases [of f s]) (simp_all add: row_moves_same)

lemma swipe_moves: "store_ok G s \<Longrightarrow> row_moves s (snd (setActiveVariant i p expected new_id now s)) j"
  unfolding setActiveVariant_def by (intro moves_transaction) (rule setActive_moves)

fun writes_row :: "string \<Rightarrow> message_op \<Rightarrow> bool" where
  "writes_row i (CreateMessage ch br input new_id now) = (new_id = i)"
| "writes_row i (DeleteMessage j) = (j = i)"
| "writes_row i _ = False"

lemma find_filter_other: "(\<And>x. Q x \<Longrightarrow> P x) \<Longrightarrow> find Q (filter P xs) = find Q xs"
  by (induction xs) auto

lemma find_snoc: "find P (xs @ [y]) = (case find P xs of None \<Rightarrow> if P y then Some y else None | Some x \<Rightarrow> Some x)"
  by (induction xs) auto

lemma create_tx_messages:
  assumes "create_tx ch br input new_id now s = Inr (x, s')"
  shows "messages s' = messages s @ [new_message_row ch br input new_id now] \<or> messages s' = messages s"
proof (cases "insert_message (new_message_row ch br input new_id now) s")
  case (Inr s1)
  then show ?thesis using assms by (auto simp: create_tx_def insert_message_def touch_character_def split: if_splits)
next
  case (Inl e)
  then show ?thesis
    using assms by (auto simp: create_tx_def touch_character_def split: option.splits list.splits if_splits)
qed

lemma step_moves:
  assumes "store_ok G s" and "\<not> writes_row i e"
  shows "row_moves s (message_step e s) i"
proof (cases e)
  case (CreateMessage ch br input new_id now)
  have "row_moves s (snd (transaction (create_tx ch br input new_id now) s)) i"
  proof (rule moves_transaction)
    fix x s' assume "create_tx ch br input new_id now s = Inr (x, s')"
    from create_tx_messages [OF this] show "row_moves s s' i"
      using assms(2) CreateMessage
      by (auto simp: row_moves_same row_moves_def message_of_def find_snoc new_message_row_def split: option.splits)
  qed
  then show ?thesis by (simp add: CreateMessage create_message_def)
next
  case (UpdateMessage j p expected track new_id now)
  then show ?thesis by (simp, intro moves_transaction, elim update_moves)
next
  case (RestoreRevision j rid expected new_id now)
  then show ?thesis by (simp, intro moves_transaction, elim restore_moves)
next
  case (SetActiveVariant j p expected new_id now)
  then show ?thesis by (simp add: swipe_moves [OF assms(1)])
next
  case (ActivateVariant j vid expected new_id now)
  then show ?thesis
    by (simp add: activateVariant_def swipe_moves [OF assms(1)] row_moves_same split: option.split)
next
  case (ReplaceAsVariant j archived new_text meta new_id now)
  then show ?thesis by (simp, intro moves_transaction, elim replace_moves [OF assms(1)])
next
  case (LinkCheckpoint j child now)
  then show ?thesis by (simp add: link_moves)
next
  case (DeleteMessage j)
  then have "find (\<lambda>m. m_id m = i) (filter (\<lambda>m. m_id m \<noteq> j) (messages s)) = find (\<lambda>m. m_id m = i) (messages s)"
    using assms(2) by (intro find_filter_other) auto
  then show ?thesis
    by (cases "message_of s i") (simp_all add: DeleteMessage row_moves_def message_of_def delete_message_def)
qed

text \<open>A history of writes that neither creates nor deletes a message keeps its row or replaces it by a later one.\<close>

lemma run_moves:
  assumes "store_ok G s" and "list_all (\<lambda>e. \<not> writes_row i e) es" and "message_of s i = Some m"
  shows "\<exists>m'. message_of (run_events message_step es s) i = Some m' \<and> (m' = m \<or> later_row m m')"
  using assms
proof (induction es arbitrary: s m)
  case Nil
  then show ?case by simp
next
  case (Cons e es)
  have "row_moves s (message_step e s) i" using step_moves [OF Cons.prems(1)] Cons.prems(2) by simp
  then obtain m1 where m1: "message_of (message_step e s) i = Some m1" "m1 = m \<or> later_row m m1"
    using Cons.prems(3) by (auto simp: row_moves_def split: option.splits)
  from Cons.IH [OF store_ok_step [OF Cons.prems(1)] _ m1(1)] Cons.prems(2)
  obtain m2 where m2: "message_of (run_events message_step (e # es) s) i = Some m2" "m2 = m1 \<or> later_row m1 m2" by auto
  with m1(2) show ?case by (auto simp: later_row_def)
qed

text \<open>C13: no update is lost under the compare-and-swap guard: an edit that names the revision its author read
  is applied only if the row is still the one that was read, whatever was written in between.\<close>

theorem guarded_edit_sees_current:
  assumes "store_ok G s" and "message_of s i = Some m" and "list_all (\<lambda>e. \<not> writes_row i e) es"
    and "fst (transaction (update_tx i p (Some (m_revision m)) track new_id now) (run_events message_step es s)) = Inr (Updated x)"
  shows "message_of (run_events message_step es s) i = Some m"
proof -
  let ?s = "run_events message_step es s"
  obtain m' where m': "message_of ?s i = Some m'" "m' = m \<or> later_row m m'" using run_moves [OF assms(1,3,2)] by blast
  have ok: "store_ok G ?s" by (rule message_events.inv_run [OF assms(1)])
  have "guarded i (Some (m_revision m)) ?s \<noteq> None"
  proof
    assume "guarded i (Some (m_revision m)) ?s = None"
    then show False using assms(4) m'(1) by (simp add: transaction_def update_tx_def unmatched_def)
  qed
  then have "m_revision m' = m_revision m" using guarded_eq [OF ok m'(1), of "Some (m_revision m)"] by (simp split: if_splits)
  with m' show ?thesis by (auto simp: later_row_def)
qed

lemma guarded_edit_sees_current_witness:
  "message_of (run_events message_step [LinkCheckpoint ''other'' ''x'' 9] (run_events message_step demo_ops demo_db)) ''m''
    = message_of (run_events message_step demo_ops demo_db) ''m''"
proof -
  let ?s = "run_events message_step demo_ops demo_db" and ?es = "[LinkCheckpoint ''other'' ''x'' 9]"
  let ?p = "\<lparr>p_content = Some ''fourth'', p_role = None, p_meta = None, p_checkpointChatId = None\<rparr>"
  have ok: "store_ok G ?s" by (rule message_events.inv_run [OF demo_db_ok])
  obtain m where m: "message_of ?s ''m'' = Some m" "m_revision m = 3"
  proof -
    have "map_option m_revision (message_of ?s ''m'') = Some 3" by code_simp
    then show ?thesis using that by auto
  qed
  have "case fst (transaction (update_tx ''m'' ?p (Some 3) True ''r1'' 10) (run_events message_step ?es ?s)) of
      Inr (Updated x) \<Rightarrow> True | _ \<Rightarrow> False" by code_simp
  then obtain x where x: "fst (transaction (update_tx ''m'' ?p (Some (m_revision m)) True ''r1'' 10) (run_events message_step ?es ?s))
      = Inr (Updated x)" by (auto simp: m(2) split: sum.splits update_result.splits)
  from guarded_edit_sees_current [OF ok m(1) _ x] m(1) show ?thesis by simp
qed

text \<open>A regeneration has no such guard and loses an edit: when the text is edited while the new one is
  generated, the edited text is afterwards neither shown, nor a variant, nor in the edit history.\<close>

theorem regeneration_drops_concurrent_edit:
  "let s = run_events message_step
     [CreateMessage ''c'' ''b'' demo_create ''m'' 1,
      UpdateMessage ''m'' \<lparr>p_content = Some ''edited'', p_role = None, p_meta = None, p_checkpointChatId = None\<rparr> None True ''r0'' 2,
      ReplaceAsVariant ''m'' ''first'' ''second'' ''{}'' ''v0'' 3] demo_db
   in map_option texts (swipes ''m'' s) = Some [''first'', ''second'']
      \<and> map a_content (messageContentRevisions s) = [''first'']"
  by code_simp

section \<open>Retried creates\<close>

text \<open>The partial unique index on the key.\<close>

definition keys_ok :: "db \<Rightarrow> bool" where
  "keys_ok s \<longleftrightarrow> (\<forall>m \<in> set (messages s). \<forall>r \<in> set (messages s).
     m_idempotencyKey m \<noteq> None \<and> m_chatId r = m_chatId m \<and> m_idempotencyKey r = m_idempotencyKey m \<longrightarrow> m_id r = m_id m)"

lemma keys_ok_subset: "keys_ok s \<Longrightarrow> set (messages s') \<subseteq> set (messages s) \<Longrightarrow> keys_ok s'"
  unfolding keys_ok_def by blast

lemma create_tx_keys:
  assumes "keys_ok s" and "create_tx ch br input new_id now s = Inr (x, s')"
  shows "keys_ok s'"
proof (cases "insert_message (new_message_row ch br input new_id now) s")
  case (Inr s1)
  let ?m = "new_message_row ch br input new_id now"
  have new: "messages s' = messages s @ [?m]"
    using Inr assms(2) by (auto simp: create_tx_def insert_message_def touch_character_def split: if_splits)
  have "(m_chatId ?m, m_idempotencyKey ?m) \<notin> set (map (\<lambda>r. (m_chatId r, m_idempotencyKey r)) (messages s))"
    if "m_idempotencyKey ?m \<noteq> None"
    using Inr that by (auto simp: insert_message_def split: if_splits)
  then have "m_chatId r \<noteq> m_chatId ?m \<or> m_idempotencyKey r \<noteq> m_idempotencyKey ?m"
    if "r \<in> set (messages s)" "m_idempotencyKey ?m \<noteq> None" for r
    using that by (metis (no_types, lifting) image_eqI list.set_map)
  then have other: "\<not> (m_idempotencyKey ?m \<noteq> None \<and> m_chatId r = m_chatId ?m \<and> m_idempotencyKey r = m_idempotencyKey ?m)"
    if "r \<in> set (messages s)" for r
    using that by blast
  show ?thesis
    unfolding keys_ok_def
  proof (intro ballI impI)
    fix m r assume "m \<in> set (messages s')" "r \<in> set (messages s')"
      and same: "m_idempotencyKey m \<noteq> None \<and> m_chatId r = m_chatId m \<and> m_idempotencyKey r = m_idempotencyKey m"
    then consider "m = ?m" "r = ?m" | "m = ?m" "r \<in> set (messages s)" | "m \<in> set (messages s)" "r = ?m"
      | "m \<in> set (messages s)" "r \<in> set (messages s)" unfolding new by auto
    then show "m_id r = m_id m"
    proof cases
      case 2
      then show ?thesis using other [of r] same by simp
    next
      case 3
      then show ?thesis using other [of m] same by simp
    next
      case 4
      then show ?thesis using assms(1) same unfolding keys_ok_def by blast
    qed simp
  qed
next
  case (Inl e)
  then have "messages s' = messages s"
    using assms(2) by (auto simp: create_tx_def touch_character_def split: option.splits list.splits if_splits)
  then show ?thesis using keys_ok_subset [OF assms(1), of s'] by simp
qed

lemma keys_ok_moves:
  assumes "store_ok G s'" and "keys_ok s" and "\<And>i. row_moves s s' i"
  shows "keys_ok s'"
proof -
  have old: "\<exists>m. m \<in> set (messages s) \<and> m_id m = m_id m' \<and> m_chatId m = m_chatId m' \<and> m_idempotencyKey m = m_idempotencyKey m'"
    if "m' \<in> set (messages s')" for m'
  proof -
    have "message_of s' (m_id m') = Some m'" by (rule message_of_member [OF store_okD(1) [OF assms(1)] that])
    then obtain m where "message_of s (m_id m') = Some m" "m' = m \<or> later_row m m'"
      using assms(3) [of "m_id m'"] by (auto simp: row_moves_def split: option.splits)
    moreover from this(1) have "m \<in> set (messages s)" "m_id m = m_id m'" using message_of_in by blast+
    ultimately show ?thesis by (intro exI [of _ m]) (auto simp: later_row_def)
  qed
  show ?thesis
    unfolding keys_ok_def
  proof (intro ballI impI)
    fix m r assume m: "m \<in> set (messages s')" and r: "r \<in> set (messages s')"
      and same: "m_idempotencyKey m \<noteq> None \<and> m_chatId r = m_chatId m \<and> m_idempotencyKey r = m_idempotencyKey m"
    obtain m0 where m0: "m0 \<in> set (messages s)" "m_id m0 = m_id m" "m_chatId m0 = m_chatId m" "m_idempotencyKey m0 = m_idempotencyKey m"
      using old [OF m] by blast
    obtain r0 where r0: "r0 \<in> set (messages s)" "m_id r0 = m_id r" "m_chatId r0 = m_chatId r" "m_idempotencyKey r0 = m_idempotencyKey r"
      using old [OF r] by blast
    have "m_idempotencyKey m0 \<noteq> None \<and> m_chatId r0 = m_chatId m0 \<and> m_idempotencyKey r0 = m_idempotencyKey m0"
      using same m0(3,4) r0(3,4) by simp
    then have "m_id r0 = m_id m0" using assms(2) m0(1) r0(1) unfolding keys_ok_def by blast
    then show "m_id r = m_id m" using m0(2) r0(2) by simp
  qed
qed

lemma keys_ok_step:
  assumes "store_ok G s" and "keys_ok s"
  shows "keys_ok (message_step e s)"
proof (cases "\<exists>i. writes_row i e")
  case False
  then show ?thesis using keys_ok_moves [OF store_ok_step [OF assms(1)] assms(2)] step_moves [OF assms(1)] by blast
next
  case True
  then show ?thesis
  proof (cases e)
    case (CreateMessage ch br input new_id now)
    have "keys_ok (snd (transaction (create_tx ch br input new_id now) s))"
      by (rule transaction_keeps [where P = keys_ok]) (rule assms(2), rule create_tx_keys [OF assms(2)])
    then show ?thesis by (simp add: CreateMessage create_message_def)
  next
    case (DeleteMessage j)
    then show ?thesis using keys_ok_subset [OF assms(2)] by (auto simp: delete_message_def)
  qed (use True in simp_all)
qed

abbreviation store_sound :: "string set \<Rightarrow> db \<Rightarrow> bool" where
  "store_sound G s \<equiv> store_ok G s \<and> keys_ok s"

interpretation keyed_events: event_system message_step "store_sound G" for G
  by unfold_locales (auto simp: store_ok_step intro: keys_ok_step)

fun deletes :: "string \<Rightarrow> message_op \<Rightarrow> bool" where
  "deletes i (DeleteMessage j) = (j = i)"
| "deletes i _ = False"

lemma create_present:
  assumes "message_of s i = Some m"
  shows "message_of (message_step (CreateMessage ch br input new_id now) s) i = Some m"
proof -
  have "message_of s' i = Some m" if "create_tx ch br input new_id now s = Inr (x, s')" for x s'
    using create_tx_messages [OF that] assms by (auto simp: message_of_def find_snoc split: option.splits)
  from transaction_keeps [where P = "\<lambda>s. message_of s i = Some m", OF assms this] show ?thesis
    by (simp add: create_message_def)
qed

lemma run_keeps_key:
  assumes "store_ok G s" and "list_all (\<lambda>e. \<not> deletes i e) es" and "message_of s i = Some m"
  shows "\<exists>m'. message_of (run_events message_step es s) i = Some m' \<and> m_chatId m' = m_chatId m \<and> m_idempotencyKey m' = m_idempotencyKey m"
  using assms
proof (induction es arbitrary: s m)
  case Nil
  then show ?case by simp
next
  case (Cons e es)
  have "\<exists>m1. message_of (message_step e s) i = Some m1 \<and> m_chatId m1 = m_chatId m \<and> m_idempotencyKey m1 = m_idempotencyKey m"
  proof (cases "writes_row i e")
    case True
    with Cons.prems(2,3) show ?thesis using create_present by (cases e) auto
  next
    case False
    from step_moves [OF Cons.prems(1) this] Cons.prems(3) show ?thesis
      by (auto simp: row_moves_def later_row_def split: option.splits)
  qed
  then obtain m1 where m1: "message_of (message_step e s) i = Some m1" "m_chatId m1 = m_chatId m" "m_idempotencyKey m1 = m_idempotencyKey m"
    by blast
  from Cons.IH [OF store_ok_step [OF Cons.prems(1)] _ m1(1)] Cons.prems(2) m1(2,3) show ?case by simp
qed

lemma retry_returns_original:
  assumes "store_sound G s" and "message_of s i = Some m" and "m_idempotencyKey m = Some (c # k)"
    and "n_idempotencyKey input = Some (c # k)"
  shows "create_tx (m_chatId m) br input new_id now s = Inr (m, touch_character (character_of (m_chatId m) s) now s)"
proof -
  have m: "m \<in> set (messages s)" "m_id m = i" using message_of_in [OF assms(2)] by simp_all
  have "(m_chatId m, Some (c # k)) \<in> set (map (\<lambda>r. (m_chatId r, m_idempotencyKey r)) (messages s))"
    using m(1) assms(3) by force
  then have clash: "insert_message (new_message_row (m_chatId m) br input new_id now) s = Inl UniqueConstraint"
    using assms(4) by (simp add: insert_message_def new_message_row_def)
  have "find (\<lambda>r. m_chatId r = m_chatId m \<and> m_idempotencyKey r = Some (c # k)) (messages s) \<noteq> None"
    using m(1) assms(3) by (auto simp: find_None_iff)
  then obtain r where r: "find (\<lambda>r. m_chatId r = m_chatId m \<and> m_idempotencyKey r = Some (c # k)) (messages s) = Some r" by blast
  then have r': "r \<in> set (messages s)" "m_chatId r = m_chatId m" "m_idempotencyKey r = m_idempotencyKey m"
    using find_SomeD [OF r] assms(3) by simp_all
  have "m_id r = m_id m"
    using assms(1,3) m(1) r' unfolding keys_ok_def by (metis option.distinct(1))
  then have "r = m" using unique_row [of G s m r] assms(1) m(1) r'(1) by simp
  with clash r assms(4) show ?thesis by (simp add: create_tx_def)
qed

text \<open>C32: a create that is retried with its key is applied once: while the message exists, every further
  create in that chat with the same key, whatever its text, returns that message and adds no row.\<close>

theorem create_applied_once:
  assumes "store_sound G s" and "message_of s i = Some m" and "m_idempotencyKey m = Some (c # k)"
    and "list_all (\<lambda>e. \<not> deletes i e) es" and "n_idempotencyKey input = Some (c # k)"
  shows "let s' = run_events message_step es s; r = create_message (m_chatId m) br input new_id now s'
    in (\<exists>x. fst r = Inr x \<and> m_id x = i) \<and> messages (snd r) = messages s'"
proof -
  let ?s = "run_events message_step es s"
  obtain m' where m': "message_of ?s i = Some m'" "m_chatId m' = m_chatId m" "m_idempotencyKey m' = m_idempotencyKey m"
    using run_keeps_key [OF _ assms(4,2)] assms(1) by blast
  have "store_sound G ?s" by (rule keyed_events.inv_run [OF assms(1)])
  from retry_returns_original [OF this m'(1), of c k input br new_id now] assms(3,5) m'
  have "create_tx (m_chatId m) br input new_id now ?s = Inr (m', touch_character (character_of (m_chatId m) ?s) now ?s)" by simp
  moreover have "m_id m' = i" using message_of_in [OF m'(1)] by simp
  ultimately show ?thesis
    by (simp add: Let_def create_message_def transaction_def touch_character_def rowToMessage_def message.defs)
qed

lemma create_applied_once_witness:
  "length (messages (snd (create_message ''c'' ''b'' (demo_create\<lparr>n_content := ''again''\<rparr>) ''m2'' 7
     (run_events message_step (tl demo_ops) (run_events message_step [hd demo_ops] demo_db))))) = 1"
proof -
  let ?s = "run_events message_step [hd demo_ops] demo_db"
  have "keys_ok demo_db" by (simp add: keys_ok_def demo_db_def)
  then have sound: "store_sound G demo_db" using demo_db_ok by blast
  have s: "store_sound G ?s" by (rule keyed_events.inv_run [OF sound])
  have "map_option (\<lambda>m. (m_chatId m, m_idempotencyKey m)) (message_of ?s ''m'') = Some (''c'', Some ''k'')" by code_simp
  then obtain m where m: "message_of ?s ''m'' = Some m" "m_chatId m = ''c''" "m_idempotencyKey m = Some ''k''" by auto
  have "list_all (\<lambda>e. \<not> deletes ''m'' e) (tl demo_ops)" by (simp add: demo_ops_def)
  from create_applied_once [OF s m(1,3) this, of "demo_create\<lparr>n_content := ''again''\<rparr>" "''b''" "''m2''" 7] m(2)
  have "messages (snd (create_message ''c'' ''b'' (demo_create\<lparr>n_content := ''again''\<rparr>) ''m2'' 7 (run_events message_step (tl demo_ops) ?s)))
    = messages (run_events message_step (tl demo_ops) ?s)" by (simp add: Let_def demo_create_def)
  moreover have "length (messages (run_events message_step (tl demo_ops) ?s)) = 1" by code_simp
  ultimately show ?thesis by simp
qed

end
