(* ===== verification/Message_Pages.thy ===== *)
theory Message_Pages
  imports Message_Rows "HOL-Library.Product_Lexorder" "HOL-Library.List_Lexorder" "HOL-Library.Char_ord"
begin

text \<open>
  Cursor pagination (\<open>packages/db/src/cursor.ts\<close>, and the reads of \<open>repositories/messages.ts\<close>): a page is
  selected by comparing rows with the sort key of the last row seen, so rows may come and go between pages.

  A cursor is the JSON value that \<open>encodeCursor\<close> writes; its text form (base64url) is left out. The store a
  page is read from is an argument of the page, since other requests run between two pages.
\<close>

section \<open>Pages\<close>

record ('r, 'k) page =
  items :: "'r list"
  nextCursor :: "'k option"
  hasMore :: bool

text \<open>The pages the repositories compute: \<open>limit + 1\<close> rows after the cursor, the last of which only shows
  that there are more.\<close>

definition cut_page :: "('r \<Rightarrow> 'k) \<Rightarrow> nat \<Rightarrow> 'r list \<Rightarrow> ('r, 'k) page" where
  "cut_page key limit rows = (let more = length rows > limit; shown = (if more then take limit rows else rows)
     in \<lparr>items = shown, nextCursor = (if more \<and> shown \<noteq> [] then Some (key (last shown)) else None), hasMore = more\<rparr>)"

text \<open>Reading page after page until one says that it is the last.\<close>

partial_function (option) walk_pages :: "(nat \<Rightarrow> 'k option \<Rightarrow> ('r, 'k) page) \<Rightarrow> nat \<Rightarrow> 'k option \<Rightarrow> 'r list option" where
  "walk_pages read n cur = (let p = read n cur in
     if \<not> hasMore p \<or> nextCursor p = None then Some (items p)
     else Option.bind (walk_pages read (Suc n) (nextCursor p)) (\<lambda>rest. Some (items p @ rest)))"

section \<open>Keyset pagination\<close>

text \<open>The contract of a keyset: rows in a strict order by their keys, and a page that takes the rows after the
  cursor's key. \<open>decode\<close> reads the key back from a cursor.\<close>

locale keyset =
  fixes before :: "'k \<Rightarrow> 'k \<Rightarrow> bool"
    and key :: "'r \<Rightarrow> 'k"
    and encode :: "'k \<Rightarrow> 'c"
    and decode :: "'c \<Rightarrow> 'k option"
  assumes before_asym: "before a b \<Longrightarrow> \<not> before b a"
    and before_trans: "before a b \<Longrightarrow> before b c \<Longrightarrow> before a c"
    and decode_encode: "decode (encode (key r)) = Some (key r)"
begin

abbreviation ordered :: "'r list \<Rightarrow> bool" where
  "ordered \<equiv> sorted_wrt (\<lambda>a b. before (key a) (key b))"

definition after :: "'c option \<Rightarrow> 'r list \<Rightarrow> 'r list" where
  "after cur rows = (case Option.bind cur decode of None \<Rightarrow> rows | Some k \<Rightarrow> filter (\<lambda>r. before k (key r)) rows)"

definition keyset_page :: "nat \<Rightarrow> 'r list \<Rightarrow> 'c option \<Rightarrow> ('r, 'c) page" where
  "keyset_page limit rows cur = cut_page (\<lambda>r. encode (key r)) limit (take (Suc limit) (after cur rows))"

lemma before_irrefl: "\<not> before a a"
  using before_asym by blast

lemma after_nth:
  assumes "ordered rows" and "n < length rows"
  shows "filter (\<lambda>r. before (key (rows ! n)) (key r)) rows = drop (Suc n) rows"
proof -
  have split: "rows = take n rows @ rows ! n # drop (Suc n) rows" using assms(2) by (rule id_take_nth_drop)
  have "ordered (take n rows @ rows ! n # drop (Suc n) rows)" using assms(1) split by simp
  then have "\<forall>r \<in> set (take n rows). before (key r) (key (rows ! n))" "\<forall>r \<in> set (drop (Suc n) rows). before (key (rows ! n)) (key r)"
    by (auto simp: sorted_wrt_append)
  then have "filter (\<lambda>r. before (key (rows ! n)) (key r)) (take n rows) = []"
    "filter (\<lambda>r. before (key (rows ! n)) (key r)) (drop (Suc n) rows) = drop (Suc n) rows"
    using before_asym by (auto simp: filter_empty_conv filter_id_conv)
  then show ?thesis using split before_irrefl by (metis append_Nil filter.simps(2) filter_append)
qed

lemma page_at:
  assumes "ordered rows" and "0 < limit" and "after cur rows = drop n rows"
  shows "items (keyset_page limit rows cur) = take limit (drop n rows)"
    and "hasMore (keyset_page limit rows cur) \<longleftrightarrow> n + limit < length rows"
    and "n + limit < length rows \<Longrightarrow> nextCursor (keyset_page limit rows cur) = Some (encode (key (rows ! (n + limit - 1))))"
proof -
  have more: "length (take (Suc limit) (drop n rows)) > limit \<longleftrightarrow> n + limit < length rows" by auto
  have shown: "(if length (take (Suc limit) (drop n rows)) > limit then take limit (take (Suc limit) (drop n rows))
      else take (Suc limit) (drop n rows)) = take limit (drop n rows)"
    by (auto simp: min_def)
  show "items (keyset_page limit rows cur) = take limit (drop n rows)"
    unfolding keyset_page_def cut_page_def assms(3) Let_def using shown by simp
  show "hasMore (keyset_page limit rows cur) \<longleftrightarrow> n + limit < length rows"
    unfolding keyset_page_def cut_page_def assms(3) Let_def using more by simp
  assume long: "n + limit < length rows"
  then have "take limit (drop n rows) \<noteq> []" "last (take limit (drop n rows)) = rows ! (n + limit - 1)"
    using assms(2) by (auto simp: last_conv_nth min_def)
  then show "nextCursor (keyset_page limit rows cur) = Some (encode (key (rows ! (n + limit - 1))))"
    using more shown long unfolding keyset_page_def cut_page_def assms(3) Let_def by simp
qed

text \<open>Over a table that does not change, the walk ends and returns every row once, in order.\<close>

lemma walk_complete:
  assumes "ordered rows" and "0 < limit" and "\<And>k c. read k c = keyset_page limit rows c" and "after cur rows = drop n rows"
  shows "walk_pages read k cur = Some (drop n rows)"
  using assms(4)
proof (induction "length rows - n" arbitrary: n k cur rule: less_induct)
  case less
  note page = page_at [OF assms(1,2) less.prems]
  show ?case
  proof (cases "n + limit < length rows")
    case False
    then show ?thesis using page by (subst walk_pages.simps) (simp add: assms(3) Let_def)
  next
    case True
    have "after (Some (encode (key (rows ! (n + limit - 1))))) rows = drop (n + limit) rows"
      using after_nth [OF assms(1), of "n + limit - 1"] True assms(2) by (simp add: after_def decode_encode)
    from less.hyps [OF _ this, of "Suc k"] True assms(2)
    have "walk_pages read (Suc k) (Some (encode (key (rows ! (n + limit - 1))))) = Some (drop (n + limit) rows)" by simp
    moreover have "take limit (drop n rows) @ drop (n + limit) rows = drop n rows"
      using append_take_drop_id [of limit "drop n rows"] by (simp add: add.commute)
    ultimately show ?thesis using page True by (subst walk_pages.simps) (simp add: assms(3) Let_def)
  qed
qed

text \<open>Over tables that change between the pages: a key that every page's table has is returned, and the keys
  returned are in strict order, so none comes twice.\<close>

definition beyond :: "'c option \<Rightarrow> 'k \<Rightarrow> bool" where
  "beyond cur k \<longleftrightarrow> (case Option.bind cur decode of None \<Rightarrow> True | Some c \<Rightarrow> before c k)"

lemma in_after: "r \<in> set (after cur rows) \<longleftrightarrow> r \<in> set rows \<and> beyond cur (key r)"
  by (simp add: after_def beyond_def split: option.split)

lemma page_cases:
  assumes "ordered rows" and "0 < limit"
  obtains (final) "\<not> hasMore (keyset_page limit rows cur)" "items (keyset_page limit rows cur) = after cur rows"
  | (more) r where "hasMore (keyset_page limit rows cur)" "nextCursor (keyset_page limit rows cur) = Some (encode (key r))"
      "items (keyset_page limit rows cur) = take limit (after cur rows)"
      "\<forall>x \<in> set (after cur rows). x \<in> set (take limit (after cur rows)) \<or> before (key r) (key x)"
      "\<forall>x \<in> set (take limit (after cur rows)). x = r \<or> before (key x) (key r)" "r \<in> set (after cur rows)"
proof -
  define xs where "xs = after cur rows"
  have xs: "ordered xs"
    using assms(1) unfolding xs_def after_def by (auto split: option.split simp: sorted_wrt_filter)
  show ?thesis
  proof (cases "limit < length xs")
    case False
    then show ?thesis
      using final unfolding keyset_page_def cut_page_def xs_def [symmetric] Let_def by simp
  next
    case True
    define ys r where "ys = take (limit - 1) xs" and "r = xs ! (limit - 1)"
    have take: "take limit xs = ys @ [r]"
      using True assms(2) take_Suc_conv_app_nth [of "limit - 1" xs] by (simp add: ys_def r_def)
    have "ordered (take limit xs @ drop limit xs)" using xs by simp
    then have parts: "\<forall>x \<in> set ys. before (key x) (key r)" "\<forall>x \<in> set (drop limit xs). before (key r) (key x)"
      unfolding take by (auto simp: sorted_wrt_append)
    have shown: "\<forall>x \<in> set xs. x \<in> set (take limit xs) \<or> before (key r) (key x)"
    proof
      fix x assume "x \<in> set xs"
      then have "x \<in> set (take limit xs @ drop limit xs)" by simp
      then have "x \<in> set (take limit xs) \<or> x \<in> set (drop limit xs)" unfolding set_append by blast
      then show "x \<in> set (take limit xs) \<or> before (key r) (key x)" using parts(2) by blast
    qed
    have page: "keyset_page limit rows cur = \<lparr>items = take limit xs, nextCursor = Some (encode (key r)), hasMore = True\<rparr>"
      using True take unfolding keyset_page_def cut_page_def xs_def [symmetric] Let_def by (simp add: min_def)
    have "r \<in> set xs" using True assms(2) by (simp add: r_def)
    moreover have "\<forall>x \<in> set (take limit xs). x = r \<or> before (key x) (key r)" using parts(1) unfolding take by auto
    ultimately show ?thesis using more [of r] page shown unfolding xs_def by simp
  qed
qed

lemma ordered_after: "ordered rows \<Longrightarrow> ordered (after cur rows)"
  by (auto simp: after_def sorted_wrt_filter split: option.split)

lemma ordered_take: "ordered xs \<Longrightarrow> ordered (take n xs)"
  by (rule sorted_wrt_take)

definition faithful :: "(nat \<Rightarrow> 'r list) \<Rightarrow> 'c option \<Rightarrow> 'r list \<Rightarrow> bool" where
  "faithful rows cur out \<longleftrightarrow> ordered out
     \<and> (\<forall>x \<in> set out. beyond cur (key x) \<and> (\<exists>k. x \<in> set (rows k)))
     \<and> (\<forall>q. beyond cur q \<and> (\<forall>k. \<exists>x \<in> set (rows k). key x = q) \<longrightarrow> (\<exists>x \<in> set out. key x = q))"

lemma walk_keeps:
  assumes "walk_pages read j cur = Some out"
    and "\<And>k c. read k c = keyset_page limit (rows k) c" and "\<And>k. ordered (rows k)" and "0 < limit"
  shows "faithful rows cur out"
proof -
  note rows = assms(3) and limit = assms(4)
  have "(\<forall>k c. read k c = keyset_page limit (rows k) c) \<longrightarrow> faithful rows cur out"
  proof (rule walk_pages.raw_induct [where P = "\<lambda>read j cur out. (\<forall>k c. read k c = keyset_page limit (rows k) c) \<longrightarrow> faithful rows cur out",
        OF _ assms(1)], intro impI)
    fix walk :: "(nat \<Rightarrow> 'c option \<Rightarrow> ('r, 'c) page) \<Rightarrow> nat \<Rightarrow> 'c option \<Rightarrow> 'r list option" and read j cur out
    assume IH: "\<And>read j cur out. walk read j cur = Some out \<Longrightarrow>
        (\<forall>k c. read k c = keyset_page limit (rows k) c) \<longrightarrow> faithful rows cur out"
      and step: "(let p = read j cur in if \<not> hasMore p \<or> nextCursor p = None then Some (items p)
         else Option.bind (walk read (Suc j) (nextCursor p)) (\<lambda>rest. Some (items p @ rest))) = Some out"
      and read: "\<forall>k c. read k c = keyset_page limit (rows k) c"
  show "faithful rows cur out"
    using rows [of j] limit
  proof (cases rule: page_cases [where cur = cur])
    case final
    then have out: "out = after cur (rows j)" using step by (simp add: read Let_def)
    show ?thesis unfolding out faithful_def using ordered_after [OF rows] in_after by fast
  next
    case (more r)
    from step more(1,2) obtain rest where rest: "walk read (Suc j) (Some (encode (key r))) = Some rest"
        "out = take limit (after cur (rows j)) @ rest"
      by (auto simp: read Let_def more(3) split: Option.bind_splits)
    have ih: "ordered rest" "\<forall>x \<in> set rest. beyond (Some (encode (key r))) (key x) \<and> (\<exists>k. x \<in> set (rows k))"
      "\<forall>q. beyond (Some (encode (key r))) q \<and> (\<forall>k. \<exists>x \<in> set (rows k). key x = q) \<longrightarrow> (\<exists>x \<in> set rest. key x = q)"
      using IH [OF rest(1)] read unfolding faithful_def by blast+
    have beyond_r: "beyond (Some (encode (key r))) q \<longleftrightarrow> before (key r) q" for q by (simp add: beyond_def decode_encode)
    have r: "beyond cur (key r)" using more(6) in_after by blast
    have mono: "beyond cur q" if "before (key r) q" for q
      using r that before_trans by (auto simp: beyond_def split: option.splits)
    have taken: "x \<in> set (rows j) \<and> beyond cur (key x)" if "x \<in> set (take limit (after cur (rows j)))" for x
      using in_set_takeD [OF that] in_after by blast
    have "before (key x) (key y)" if "x \<in> set (take limit (after cur (rows j)))" "y \<in> set rest" for x y
      using that more(5) ih(2) beyond_r before_trans by metis
    then have "ordered out" using rest(2) ih(1) ordered_take [OF ordered_after [OF rows]] by (simp add: sorted_wrt_append)
    moreover have "\<forall>x \<in> set out. beyond cur (key x) \<and> (\<exists>k. x \<in> set (rows k))"
      using rest(2) taken ih(2) beyond_r mono by auto
    moreover have "\<exists>x \<in> set out. key x = q" if q: "beyond cur q" "\<forall>k. \<exists>x \<in> set (rows k). key x = q" for q
    proof -
      obtain x where x: "x \<in> set (rows j)" "key x = q" using q(2) by blast
      then have "x \<in> set (after cur (rows j))" using q(1) in_after by blast
      with more(4) consider "x \<in> set (take limit (after cur (rows j)))" | "before (key r) (key x)" by blast
      then show ?thesis
      proof cases
        case 1
        then show ?thesis using x(2) rest(2) by auto
      next
        case 2
        then show ?thesis using ih(3) q(2) x(2) beyond_r rest(2) by auto
      qed
    qed
    ultimately show ?thesis unfolding faithful_def by blast
  qed
  qed
  with assms(2) show ?thesis by blast
qed

lemma after_None [simp]: "after None rows = rows"
  by (simp add: after_def)

end

lemma cut_page_map:
  assumes "\<And>r. key' (f r) = key r"
  shows "cut_page key' n (map f rows) = \<lparr>items = map f (items (cut_page key n rows)),
    nextCursor = nextCursor (cut_page key n rows), hasMore = hasMore (cut_page key n rows)\<rparr>"
  using assms by (auto simp: cut_page_def Let_def take_map last_map)

section \<open>Lists of messages\<close>

datatype page_order = Asc | Desc

record list_options =
  o_cursor :: "json option"
  o_limit :: "nat option"
  o_branchId :: "string option"
  o_order :: "page_order option"

text \<open>The fields of a cursor count only with the right types, and only together.\<close>

definition cursor_key :: "json \<Rightarrow> (rat \<times> string) option" where
  "cursor_key j = (case (json_field j ''c'', json_field j ''i'') of
       (Some (JNum c), Some (JString i)) \<Rightarrow> Some (c, i) | _ \<Rightarrow> None)"

definition encode_key :: "rat \<times> string \<Rightarrow> json" where
  "encode_key k = JObject [(''c'', JNum (fst k)), (''i'', JString (snd k))]"

definition message_key :: "'a message_scheme \<Rightarrow> rat \<times> string" where
  "message_key m = (of_int (m_createdAt m), m_id m)"

text \<open>\<open>WHERE created_at > c OR created_at = c AND id > i\<close>, and its opposite.\<close>

definition past_cursor :: "page_order \<Rightarrow> json option \<Rightarrow> message_row \<Rightarrow> bool" where
  "past_cursor order cur m = (case Option.bind cur cursor_key of
       None \<Rightarrow> True
     | Some (c, i) \<Rightarrow>
         (case order of
            Asc \<Rightarrow> c < of_int (m_createdAt m) \<or> of_int (m_createdAt m) = c \<and> i < m_id m
          | Desc \<Rightarrow> of_int (m_createdAt m) < c \<or> of_int (m_createdAt m) = c \<and> m_id m < i))"

definition in_branch :: "string option \<Rightarrow> message_row \<Rightarrow> bool" where
  "in_branch br m = (case br of Some (c # b) \<Rightarrow> m_branchId m = c # b | _ \<Rightarrow> True)"

definition order_messages :: "page_order \<Rightarrow> message_row list \<Rightarrow> message_row list" where
  "order_messages order rows = (case order of Asc \<Rightarrow> sort_key message_key rows | Desc \<Rightarrow> rev (sort_key message_key rows))"

definition list_messages :: "db \<Rightarrow> string \<Rightarrow> list_options \<Rightarrow> (message, json) page" where
  "list_messages s ch opts =
     (let limit = (case o_limit opts of None \<Rightarrow> 100 | Some n \<Rightarrow> n);
          order = (case o_order opts of None \<Rightarrow> Desc | Some d \<Rightarrow> d);
          rows = take (Suc limit) (order_messages order
            (filter (\<lambda>m. m_chatId m = ch \<and> in_branch (o_branchId opts) m \<and> past_cursor order (o_cursor opts) m) (messages s)))
      in cut_page (\<lambda>m. encode_key (message_key m)) limit (map rowToMessage rows))"

definition recentAscending :: "db \<Rightarrow> string \<Rightarrow> string \<Rightarrow> nat \<Rightarrow> message list" where
  "recentAscending s ch br n = map rowToMessage
     (rev (take n (order_messages Desc (filter (\<lambda>m. m_chatId m = ch \<and> m_branchId m = br) (messages s)))))"

definition export_options :: "json option \<Rightarrow> list_options" where
  "export_options cur = \<lparr>o_cursor = cur, o_limit = Some 1000, o_branchId = None, o_order = Some Asc\<rparr>"

definition exportAll :: "(nat \<Rightarrow> db) \<Rightarrow> string \<Rightarrow> message list option" where
  "exportAll stores ch = walk_pages (\<lambda>n cur. list_messages (stores n) ch (export_options cur)) 0 None"

lemma key_view [simp]: "message_key (rowToMessage m) = message_key m"
  by (simp add: message_key_def rowToMessage_def message.defs)

lemma cursor_encode [simp]: "cursor_key (encode_key k) = Some k"
  by (simp add: cursor_key_def encode_key_def)

interpretation oldest_first: keyset "(<) :: rat \<times> string \<Rightarrow> _" "message_key :: message \<Rightarrow> _" encode_key cursor_key
  by unfold_locales auto

interpretation newest_first: keyset "(>) :: rat \<times> string \<Rightarrow> _" "message_key :: message \<Rightarrow> _" encode_key cursor_key
  by unfold_locales auto

text \<open>The rows of a chat in order, without a cursor.\<close>

definition chat_rows :: "page_order \<Rightarrow> db \<Rightarrow> string \<Rightarrow> string option \<Rightarrow> message list" where
  "chat_rows order s ch br = map rowToMessage (order_messages order (filter (\<lambda>m. m_chatId m = ch \<and> in_branch br m) (messages s)))"

lemma strict_sort_key:
  assumes "distinct (map f xs)"
  shows "sorted_wrt (\<lambda>a b. f a < f b) (sort_key f xs)"
proof -
  have "distinct (map f (sort_key f xs))"
    using assms by (simp add: distinct_map)
  then have "sorted_wrt (<) (map f (sort_key f xs))" by (simp add: strict_sorted_iff)
  then show ?thesis by (simp add: sorted_wrt_map)
qed

lemma chat_rows_ordered:
  assumes "store_ok G s"
  shows "sorted_wrt (\<lambda>a b. message_key a < message_key b) (chat_rows Asc s ch br)"
    and "sorted_wrt (\<lambda>a b. message_key a > message_key b) (chat_rows Desc s ch br)"
proof -
  let ?rows = "filter (\<lambda>m. m_chatId m = ch \<and> in_branch br m) (messages s)"
  have "distinct (map m_id ?rows)" using store_okD(1) [OF assms] by (rule distinct_map_filter)
  then have "distinct (map message_key ?rows)"
    by (simp add: distinct_map inj_on_def message_key_def)
  note strict_sort_key [OF this]
  then show "sorted_wrt (\<lambda>a b. message_key a < message_key b) (chat_rows Asc s ch br)"
    "sorted_wrt (\<lambda>a b. message_key a > message_key b) (chat_rows Desc s ch br)"
    by (simp_all add: chat_rows_def order_messages_def sorted_wrt_map sorted_wrt_rev)
qed

lemma list_is_keyset:
  "list_messages s ch \<lparr>o_cursor = cur, o_limit = Some n, o_branchId = br, o_order = Some Asc\<rparr>
    = oldest_first.keyset_page n (chat_rows Asc s ch br) cur"
  "list_messages s ch \<lparr>o_cursor = cur, o_limit = Some n, o_branchId = br, o_order = Some Desc\<rparr>
    = newest_first.keyset_page n (chat_rows Desc s ch br) cur"
proof -
  have past: "past_cursor Asc cur m = (case Option.bind cur cursor_key of None \<Rightarrow> True | Some k \<Rightarrow> k < message_key m)"
    "past_cursor Desc cur m = (case Option.bind cur cursor_key of None \<Rightarrow> True | Some k \<Rightarrow> message_key m < k)" for m
    by (auto simp: past_cursor_def message_key_def split: option.splits prod.splits)
  let ?asc = "map rowToMessage (order_messages Asc (filter (\<lambda>m. m_chatId m = ch \<and> in_branch br m \<and> past_cursor Asc cur m) (messages s)))"
  have asc: "?asc = oldest_first.after cur (chat_rows Asc s ch br)"
    by (cases "Option.bind cur cursor_key")
      (simp_all add: oldest_first.after_def chat_rows_def order_messages_def past filter_sort filter_map comp_def conj_assoc)
  have "list_messages s ch \<lparr>o_cursor = cur, o_limit = Some n, o_branchId = br, o_order = Some Asc\<rparr>
      = cut_page (\<lambda>m. encode_key (message_key m)) n (take (Suc n) ?asc)"
    by (simp add: list_messages_def Let_def take_map)
  then show "list_messages s ch \<lparr>o_cursor = cur, o_limit = Some n, o_branchId = br, o_order = Some Asc\<rparr>
    = oldest_first.keyset_page n (chat_rows Asc s ch br) cur"
    by (simp only: asc oldest_first.keyset_page_def)
  let ?desc = "map rowToMessage (order_messages Desc (filter (\<lambda>m. m_chatId m = ch \<and> in_branch br m \<and> past_cursor Desc cur m) (messages s)))"
  have desc: "?desc = newest_first.after cur (chat_rows Desc s ch br)"
    by (cases "Option.bind cur cursor_key")
      (simp_all add: newest_first.after_def chat_rows_def order_messages_def past filter_sort filter_map comp_def conj_assoc
        rev_filter [symmetric])
  have "list_messages s ch \<lparr>o_cursor = cur, o_limit = Some n, o_branchId = br, o_order = Some Desc\<rparr>
      = cut_page (\<lambda>m. encode_key (message_key m)) n (take (Suc n) ?desc)"
    by (simp add: list_messages_def Let_def take_map)
  then show "list_messages s ch \<lparr>o_cursor = cur, o_limit = Some n, o_branchId = br, o_order = Some Desc\<rparr>
    = newest_first.keyset_page n (chat_rows Desc s ch br) cur"
    by (simp only: desc newest_first.keyset_page_def)
qed

text \<open>The export of a chat ends and returns every message of the chat, in all branches, once and in order,
  however many pages it takes.\<close>

theorem export_complete:
  assumes "store_ok G s"
  shows "exportAll (\<lambda>_. s) ch = Some (map rowToMessage (sort_key message_key (filter (\<lambda>m. m_chatId m = ch) (messages s))))"
proof -
  have "walk_pages (\<lambda>n cur. list_messages s ch (export_options cur)) 0 None = Some (drop 0 (chat_rows Asc s ch None))"
    by (rule oldest_first.walk_complete [OF chat_rows_ordered(1) [OF assms], of 1000])
      (simp_all add: export_options_def list_is_keyset)
  then show ?thesis by (simp add: exportAll_def chat_rows_def order_messages_def in_branch_def)
qed

lemma export_complete_witness:
  "exportAll (\<lambda>_. demo_db) ''c'' = Some []"
  using export_complete [OF demo_db_ok, of "''c''"] by (simp add: demo_db_def)

text \<open>C14: an export that overlaps with writes misses no message and repeats none: whatever the store looks like
  when each page is read, the messages come in strict order and every message that was there throughout is among
  them.\<close>

theorem export_misses_nothing:
  assumes "\<forall>k. store_ok G (stores k)" and "exportAll stores ch = Some out"
    and "\<forall>k. \<exists>m \<in> set (messages (stores k)). m_id m = i \<and> m_createdAt m = t \<and> m_chatId m = ch"
  shows "sorted_wrt (\<lambda>a b. message_key a < message_key b) out \<and> i \<in> set (map m_id out)"
proof -
  have "oldest_first.faithful (\<lambda>k. chat_rows Asc (stores k) ch None) None out"
    by (rule oldest_first.walk_keeps [OF assms(2) [unfolded exportAll_def], of 1000])
      (use chat_rows_ordered(1) [OF assms(1) [rule_format]] in \<open>simp_all add: export_options_def list_is_keyset\<close>)
  moreover have "\<exists>x \<in> set (chat_rows Asc (stores k) ch None). message_key x = (of_int t, i)" for k
  proof -
    obtain m where "m \<in> set (messages (stores k))" "m_id m = i" "m_createdAt m = t" "m_chatId m = ch" using assms(3) by blast
    then show ?thesis
      by (auto simp: chat_rows_def order_messages_def in_branch_def message_key_def rowToMessage_def message.defs intro!: bexI [of _ m])
  qed
  ultimately have "sorted_wrt (\<lambda>a b. message_key a < message_key b) out" "\<exists>x \<in> set out. message_key x = (of_int t, i)"
    unfolding oldest_first.faithful_def oldest_first.beyond_def by simp_all
  then show ?thesis by (force simp: message_key_def)
qed

lemma export_misses_nothing_witness:
  "\<exists>out. exportAll (\<lambda>k. if k = 0 then run_events message_step [hd demo_ops] demo_db else run_events message_step demo_ops demo_db) ''c''
      = Some out \<and> ''m'' \<in> set (map m_id out)"
proof -
  let ?s0 = "run_events message_step [hd demo_ops] demo_db" and ?s1 = "run_events message_step demo_ops demo_db"
  let ?stores = "\<lambda>k :: nat. if k = 0 then ?s0 else ?s1"
  have ok: "\<forall>k. store_ok G (?stores k)" using message_events.inv_run [OF demo_db_ok] by (simp del: run_events_Cons)
  have "list_ex (\<lambda>m. m_id m = ''m'' \<and> m_createdAt m = 1 \<and> m_chatId m = ''c'') (messages ?s0)"
    "list_ex (\<lambda>m. m_id m = ''m'' \<and> m_createdAt m = 1 \<and> m_chatId m = ''c'') (messages ?s1)" by code_simp+
  then have there: "\<forall>k. \<exists>m \<in> set (messages (?stores k)). m_id m = ''m'' \<and> m_createdAt m = 1 \<and> m_chatId m = ''c''"
    by (simp add: list_ex_iff)
  have "\<not> hasMore (list_messages (?stores 0) ''c'' (export_options None))" by code_simp
  then have "exportAll ?stores ''c'' = Some (items (list_messages (?stores 0) ''c'' (export_options None)))"
    unfolding exportAll_def by (subst walk_pages.simps) (simp add: Let_def)
  from export_misses_nothing [OF ok this there] this show ?thesis by blast
qed

section \<open>Variants and edits\<close>

definition listVariants :: "db \<Rightarrow> string \<Rightarrow> archived_text list" where
  "listVariants s i = sort_key (\<lambda>v. (a_position v, a_createdAt v, a_id v)) (filter (\<lambda>v. a_messageId v = i) (messageVariants s))"

definition in_chat :: "db \<Rightarrow> string \<Rightarrow> archived_text \<Rightarrow> bool" where
  "in_chat s ch v = list_ex (\<lambda>m. m_id m = a_messageId v \<and> m_chatId m = ch) (messages s)"

definition exportVariants :: "db \<Rightarrow> string \<Rightarrow> archived_text list" where
  "exportVariants s ch = sort_key (\<lambda>v. (a_messageId v, a_position v)) (filter (in_chat s ch) (messageVariants s))"

definition exportContentRevisions :: "db \<Rightarrow> string \<Rightarrow> archived_text list" where
  "exportContentRevisions s ch = sort_key (\<lambda>v. (a_messageId v, a_position v)) (filter (in_chat s ch) (messageContentRevisions s))"

definition position_key :: "archived_text \<Rightarrow> rat" where
  "position_key v = of_nat (a_position v)"

definition cursor_position :: "json \<Rightarrow> rat option" where
  "cursor_position j = (case json_field j ''p'' of Some (JNum p) \<Rightarrow> Some p | _ \<Rightarrow> None)"

definition encode_position :: "rat \<Rightarrow> json" where
  "encode_position p = JObject [(''p'', JNum p)]"

definition listContentRevisions :: "db \<Rightarrow> string \<Rightarrow> json option \<Rightarrow> nat option \<Rightarrow> (archived_text, json) page" where
  "listContentRevisions s i cur n =
     (let limit = (case n of None \<Rightarrow> 50 | Some k \<Rightarrow> k);
          below = (\<lambda>v. case Option.bind cur cursor_position of None \<Rightarrow> True | Some p \<Rightarrow> position_key v < p)
      in cut_page (\<lambda>v. encode_position (position_key v)) limit (take (Suc limit)
           (rev (sort_key (\<lambda>v. (a_position v, a_id v)) (filter (\<lambda>v. a_messageId v = i \<and> below v) (messageContentRevisions s))))))"

interpretation edits: keyset "(>) :: rat \<Rightarrow> _" position_key encode_position cursor_position
  by unfold_locales (auto simp: cursor_position_def encode_position_def)

definition edit_rows :: "db \<Rightarrow> string \<Rightarrow> archived_text list" where
  "edit_rows s i = rev (sort_key (\<lambda>v. (a_position v, a_id v)) (filter (\<lambda>v. a_messageId v = i) (messageContentRevisions s)))"

lemma edits_keyset: "listContentRevisions s i cur (Some n) = edits.keyset_page n (edit_rows s i) cur"
proof -
  have "rev (sort_key (\<lambda>v. (a_position v, a_id v)) (filter (\<lambda>v. a_messageId v = i \<and>
      (case Option.bind cur cursor_position of None \<Rightarrow> True | Some p \<Rightarrow> position_key v < p)) (messageContentRevisions s)))
    = edits.after cur (edit_rows s i)"
    by (cases "Option.bind cur cursor_position")
      (simp_all add: edits.after_def edit_rows_def filter_sort rev_filter [symmetric] conj_commute)
  then show ?thesis by (simp add: listContentRevisions_def edits.keyset_page_def Let_def)
qed

lemma edit_rows_ordered:
  assumes "store_ok G s"
  shows "sorted_wrt (\<lambda>a b. position_key a > position_key b) (edit_rows s i)"
proof -
  let ?rows = "filter (\<lambda>v. a_messageId v = i) (messageContentRevisions s)"
  have "distinct (map (\<lambda>t. (a_messageId t, a_position t)) ?rows)"
    using store_okD(3) [OF assms] unfolding archived_ok_def by (blast intro: distinct_map_filter)
  then have inj: "inj_on a_position (set ?rows)" and rows: "distinct ?rows"
    by (auto simp: distinct_map inj_on_def)
  then have "distinct (map (\<lambda>v. (a_position v, a_id v)) ?rows)" by (auto simp: distinct_map inj_on_def)
  from strict_sort_key [OF this]
  have "sorted_wrt (\<lambda>a b. (a_position a, a_id a) < (a_position b, a_id b)) (sort_key (\<lambda>v. (a_position v, a_id v)) ?rows)" .
  then have "sorted_wrt (\<lambda>a b. position_key a < position_key b) (sort_key (\<lambda>v. (a_position v, a_id v)) ?rows)"
  proof (rule sorted_wrt_mono_rel [rotated])
    fix a b assume in_rows: "a \<in> set (sort_key (\<lambda>v. (a_position v, a_id v)) ?rows)" "b \<in> set (sort_key (\<lambda>v. (a_position v, a_id v)) ?rows)"
      and less: "(a_position a, a_id a) < (a_position b, a_id b)"
    then have "a_position a = a_position b \<Longrightarrow> a = b" using inj by (auto simp: inj_on_def)
    moreover have "a_position a \<le> a_position b" "a \<noteq> b" using less by auto
    ultimately have "a_position a < a_position b" by force
    then show "position_key a < position_key b" by (simp add: position_key_def)
  qed
  then show ?thesis by (simp add: edit_rows_def sorted_wrt_rev)
qed

text \<open>Paging through the edit history of a message with any page size returns every archived text once, newest
  first, and there are exactly as many as the message counts.\<close>

theorem edit_history_paged:
  assumes "store_ok G s" and "0 < n" and "message_of s i = Some m"
  shows "walk_pages (\<lambda>_ cur. listContentRevisions s i cur (Some n)) 0 None = Some (edit_rows s i)
    \<and> map a_position (edit_rows s i) = rev [0..<m_contentRevisionCount m]"
proof
  have "walk_pages (\<lambda>_ cur. listContentRevisions s i cur (Some n)) 0 None = Some (drop 0 (edit_rows s i))"
    by (rule edits.walk_complete [OF edit_rows_ordered [OF assms(1)] assms(2)]) (simp_all add: edits_keyset)
  then show "walk_pages (\<lambda>_ cur. listContentRevisions s i cur (Some n)) 0 None = Some (edit_rows s i)" by simp
  have m: "m \<in> set (messages s)" "m_id m = i" using message_of_in [OF assms(3)] by simp_all
  have "sorted_wrt (\<lambda>a b. a_position a < a_position b) (rev (edit_rows s i))"
    using edit_rows_ordered [OF assms(1), of i] by (simp add: sorted_wrt_rev position_key_def)
  then have "sorted_wrt (<) (map a_position (rev (edit_rows s i)))" by (simp add: sorted_wrt_map)
  moreover have "set (map a_position (rev (edit_rows s i))) = set [0..<m_contentRevisionCount m]"
    using store_okD(5) [OF assms(1) m(1)] m(2) by (simp add: edit_rows_def history_ok_def positions_def)
  ultimately have "map a_position (rev (edit_rows s i)) = [0..<m_contentRevisionCount m]"
    by (intro strict_sorted_equal) simp_all
  then show "map a_position (edit_rows s i) = rev [0..<m_contentRevisionCount m]" by (simp add: rev_map [symmetric] rev_swap)
qed

lemma edit_history_paged_witness:
  "map_option (map a_content) (walk_pages (\<lambda>_ cur. listContentRevisions (run_events message_step demo_ops demo_db) ''m'' cur (Some 1)) 0 None)
    = Some [''second'']"
proof -
  have ok: "store_ok G (run_events message_step demo_ops demo_db)" by (rule message_events.inv_run [OF demo_db_ok])
  have "message_of (run_events message_step demo_ops demo_db) ''m'' \<noteq> None" by code_simp
  then obtain m where "message_of (run_events message_step demo_ops demo_db) ''m'' = Some m" by blast
  from edit_history_paged [OF ok _ this, of 1] show ?thesis by (simp del: run_events_Cons) code_simp
qed

end
