(* ===== verification/Chat_Store.thy ===== *)
theory Chat_Store
  imports Message_Pages
begin

text \<open>
  The chat repository (\<open>packages/db/src/repositories/chats.ts\<close>): creation with an authored greeting, branches,
  the trash, the manual order of a character's chats and the paged catalogue. The full-text search is an
  argument of the catalogue: the ids it finds. The name and the avatar joined to a row are left out.
\<close>

section \<open>Creation\<close>

record chat_create =
  i_characterId :: "string option"
  i_personaId :: "string option"
  i_title :: "string option"
  i_parentChatId :: "string option"
  i_origin :: "string option"
  i_sourceMessageId :: "string option"

datatype greeting = NoGreeting | GreetingText string | GreetingObject string "string option"

definition greetingContent :: "greeting \<Rightarrow> string option" where
  "greetingContent g = (case g of
       NoGreeting \<Rightarrow> None
     | GreetingText t \<Rightarrow> (if length (trim t) > 0 then Some t else None)
     | GreetingObject t meta \<Rightarrow> (if length (trim t) > 0 then Some t else None))"

definition greetingMeta :: "greeting \<Rightarrow> string" where
  "greetingMeta g = (case g of GreetingObject t (Some meta) \<Rightarrow> meta | _ \<Rightarrow> ''{}'')"

text \<open>\<open>!value\<close> for an optional string.\<close>

definition falsy :: "string option \<Rightarrow> bool" where
  "falsy t \<longleftrightarrow> t = None \<or> t = Some []"

definition insert_chat :: "chat_row \<Rightarrow> db \<Rightarrow> db_error + db" where
  "insert_chat c s =
     (if c_id c \<in> set (map c_id (chats s)) then Inl UniqueConstraint
      else if (case c_characterId c of None \<Rightarrow> False | Some x \<Rightarrow> x \<notin> set (map fst (characters s)))
        \<or> (case c_personaId c of None \<Rightarrow> False | Some x \<Rightarrow> x \<notin> set (personas s)) then Inl ForeignKeyConstraint
      else Inr (s\<lparr>chats := chats s @ [c]\<rparr>))"

definition insert_branch :: "branch_row \<Rightarrow> db \<Rightarrow> db_error + db" where
  "insert_branch b s =
     (if br_id b \<in> set (map br_id (chatBranches s)) then Inl UniqueConstraint
      else if br_chatId b \<notin> set (map c_id (chats s)) then Inl ForeignKeyConstraint
      else Inr (s\<lparr>chatBranches := chatBranches s @ [b]\<rparr>))"

text \<open>The columns the greeting leaves out take their defaults.\<close>

definition greeting_row :: "string \<Rightarrow> string \<Rightarrow> string \<Rightarrow> string \<Rightarrow> string \<Rightarrow> int \<Rightarrow> message_row" where
  "greeting_row msg_id ch br content meta now = \<lparr>m_id = msg_id, m_chatId = ch, m_branchId = br, m_parentId = None,
     m_role = Assistant, m_content = content, m_name = None, m_meta = meta, m_createdAt = now, m_revision = 1,
     m_updatedAt = None, m_variantCount = 0, m_activeVariantPosition = None, m_checkpointChatId = None,
     m_contentRevisionCount = 0, m_idempotencyKey = None\<rparr>"

definition create_chat_tx :: "chat_create \<Rightarrow> greeting \<Rightarrow> string \<Rightarrow> string \<Rightarrow> string \<Rightarrow> int \<Rightarrow> chat_row tx" where
  "create_chat_tx input g ch br msg_id now s =
     (let origin = i_origin input;
          row = \<lparr>c_id = ch, c_characterId = i_characterId input, c_personaId = i_personaId input,
            c_title = (case i_title input of None \<Rightarrow> ''New chat'' | Some t \<Rightarrow> t), c_activeBranchId = Some br,
            c_backgroundId = None, c_summary = [], c_messageCount = (if greetingContent g = None then 0 else 1),
            c_createdAt = now, c_updatedAt = now, c_deletedAt = None, c_parentChatId = i_parentChatId input,
            c_origin = origin, c_sourceMessageId = i_sourceMessageId input, c_sortOrder = 0\<rparr>
      in if origin \<notin> {None, Some ''checkpoint'', Some ''branch''} then Inl (Thrown ''SNAPSHOT_ORIGIN_INVALID'')
         else if origin \<noteq> None \<and> (falsy (i_parentChatId input) \<or> falsy (i_sourceMessageId input))
         then Inl (Thrown ''SNAPSHOT_INCOMPLETE'')
         else (case insert_chat row s of
             Inl e \<Rightarrow> Inl e
           | Inr s1 \<Rightarrow>
               (case insert_branch \<lparr>br_id = br, br_chatId = ch, br_name = ''main'', br_createdAt = now\<rparr> s1 of
                  Inl e \<Rightarrow> Inl e
                | Inr s2 \<Rightarrow>
                    (case (case greetingContent g of
                             None \<Rightarrow> Inr s2
                           | Some content \<Rightarrow> insert_message (greeting_row msg_id ch br content (greetingMeta g) now) s2) of
                       Inl e \<Rightarrow> Inl e
                     | Inr s3 \<Rightarrow> Inr (row, if falsy (i_characterId input) then s3
                                           else touch_character (i_characterId input) now s3)))))"

definition create_chat :: "chat_create \<Rightarrow> greeting \<Rightarrow> string \<Rightarrow> string \<Rightarrow> string \<Rightarrow> int \<Rightarrow> db \<Rightarrow> (db_error + chat_row) \<times> db" where
  "create_chat input g ch br msg_id now = transaction (create_chat_tx input g ch br msg_id now)"

definition get_chat :: "string \<Rightarrow> db \<Rightarrow> chat_row option" where
  "get_chat i s = find (\<lambda>c. c_id c = i) (chats s)"

section \<open>Writes\<close>

definition update_chats :: "(chat_row \<Rightarrow> bool) \<Rightarrow> (chat_row \<Rightarrow> chat_row) \<Rightarrow> db \<Rightarrow> db" where
  "update_chats P f s = s\<lparr>chats := map (\<lambda>c. if P c then f c else c) (chats s)\<rparr>"

record chat_update =
  u_title :: "string option"
  u_personaId :: "string option option"
  u_activeBranchId :: "string option option"
  u_backgroundId :: "string option option"
  u_summary :: "string option"

definition or_keep :: "'a option \<Rightarrow> 'a \<Rightarrow> 'a" where
  "or_keep x y = (case x of None \<Rightarrow> y | Some v \<Rightarrow> v)"

definition update_chat_tx :: "string \<Rightarrow> chat_update \<Rightarrow> int \<Rightarrow> chat_row option tx" where
  "update_chat_tx i p now s =
     (let f = (\<lambda>c. c\<lparr>c_updatedAt := now, c_title := or_keep (u_title p) (c_title c),
            c_personaId := or_keep (u_personaId p) (c_personaId c),
            c_activeBranchId := or_keep (u_activeBranchId p) (c_activeBranchId c),
            c_backgroundId := or_keep (u_backgroundId p) (c_backgroundId c),
            c_summary := or_keep (u_summary p) (c_summary c)\<rparr>);
          s' = update_chats (\<lambda>c. c_id c = i) f s
      in if get_chat i s \<noteq> None \<and> (case u_personaId p of Some (Some x) \<Rightarrow> x \<notin> set (personas s) | _ \<Rightarrow> False)
         then Inl ForeignKeyConstraint else Inr (get_chat i s', s'))"

definition touch :: "string \<Rightarrow> int \<Rightarrow> db \<Rightarrow> db" where
  "touch i now = update_chats (\<lambda>c. c_id c = i) (\<lambda>c. c\<lparr>c_updatedAt := now\<rparr>)"

definition clearBackgroundReference :: "string \<Rightarrow> db \<Rightarrow> db" where
  "clearBackgroundReference b = update_chats (\<lambda>c. c_backgroundId c = Some b) (\<lambda>c. c\<lparr>c_backgroundId := None\<rparr>)"

definition setMessageCount :: "string \<Rightarrow> nat \<Rightarrow> int \<Rightarrow> db \<Rightarrow> db" where
  "setMessageCount i n now = update_chats (\<lambda>c. c_id c = i) (\<lambda>c. c\<lparr>c_messageCount := n, c_updatedAt := now\<rparr>)"

definition softDelete :: "string \<Rightarrow> int \<Rightarrow> db \<Rightarrow> bool \<times> db" where
  "softDelete i now s = (get_chat i s \<noteq> None,
     update_chats (\<lambda>c. c_id c = i) (\<lambda>c. c\<lparr>c_deletedAt := Some now, c_updatedAt := now\<rparr>) s)"

definition restore_chat :: "string \<Rightarrow> int \<Rightarrow> db \<Rightarrow> bool \<times> db" where
  "restore_chat i now s = (get_chat i s \<noteq> None,
     update_chats (\<lambda>c. c_id c = i) (\<lambda>c. c\<lparr>c_deletedAt := None, c_updatedAt := now\<rparr>) s)"

text \<open>Deleting a chat deletes its branches, its messages and drafts, and what refers to these.\<close>

definition hardDelete :: "string \<Rightarrow> db \<Rightarrow> bool \<times> db" where
  "hardDelete i s =
     (let gone = map br_id (filter (\<lambda>b. br_chatId b = i) (chatBranches s));
          lost = (\<lambda>ch br. ch = i \<or> br \<in> set gone);
          dead = map m_id (filter (\<lambda>m. lost (m_chatId m) (m_branchId m)) (messages s))
      in (get_chat i s \<noteq> None,
        s\<lparr>chats := filter (\<lambda>c. c_id c \<noteq> i) (chats s),
          chatBranches := filter (\<lambda>b. br_chatId b \<noteq> i) (chatBranches s),
          messages := filter (\<lambda>m. \<not> lost (m_chatId m) (m_branchId m)) (messages s),
          messageVariants := filter (\<lambda>v. a_messageId v \<notin> set dead) (messageVariants s),
          messageContentRevisions := filter (\<lambda>v. a_messageId v \<notin> set dead) (messageContentRevisions s),
          messageBlocks := filter (\<lambda>b. b_messageId b \<notin> set dead) (messageBlocks s),
          messageDrafts := filter (\<lambda>d. \<not> lost (d_chatId d) (d_branchId d)) (messageDrafts s)\<rparr>))"

definition createBranch :: "string \<Rightarrow> string \<Rightarrow> string \<Rightarrow> int \<Rightarrow> db \<Rightarrow> db_error + db" where
  "createBranch ch name new_id now = insert_branch \<lparr>br_id = new_id, br_chatId = ch, br_name = name, br_createdAt = now\<rparr>"

definition listBranches :: "string \<Rightarrow> db \<Rightarrow> (string \<times> string) list" where
  "listBranches ch s = map (\<lambda>b. (br_id b, br_name b)) (filter (\<lambda>b. br_chatId b = ch) (chatBranches s))"

section \<open>Order\<close>

text \<open>\<open>ORDER BY sort_order, updated_at DESC, id DESC\<close>, and the same without the first.\<close>

definition manual_order :: "chat_row list \<Rightarrow> chat_row list" where
  "manual_order rows = sort_key (\<lambda>c. (c_sortOrder c, - c_updatedAt c)) (rev (sort_key c_id rows))"

definition recent_order :: "chat_row list \<Rightarrow> chat_row list" where
  "recent_order rows = sort_key (\<lambda>c. - c_updatedAt c) (rev (sort_key c_id rows))"

definition findUnstarted :: "string option \<Rightarrow> string option \<Rightarrow> db \<Rightarrow> chat_row option" where
  "findUnstarted character persona s =
     (case recent_order (filter (\<lambda>c. c_deletedAt c = None \<and> c_characterId c = character \<and> c_personaId c = persona
             \<and> \<not> list_ex (\<lambda>m. m_chatId m = c_id c \<and> m_role m = User) (messages s)) (chats s)) of
        [] \<Rightarrow> None | c # _ \<Rightarrow> Some c)"

definition live_chats :: "string \<Rightarrow> db \<Rightarrow> chat_row list" where
  "live_chats character s = manual_order (filter (\<lambda>c. c_characterId c = Some character \<and> c_deletedAt c = None) (chats s))"

text \<open>Numbering the chats from one; the position in a list of ids.\<close>

definition renumber :: "string list \<Rightarrow> chat_row \<Rightarrow> chat_row" where
  "renumber ids c = (case find_index (\<lambda>i. i = c_id c) ids of None \<Rightarrow> c | Some n \<Rightarrow> c\<lparr>c_sortOrder := int (Suc n)\<rparr>)"

definition reorder :: "string \<Rightarrow> string list \<Rightarrow> db \<Rightarrow> (string + nat \<times> string list) \<times> db" where
  "reorder character ids s =
     (if \<not> distinct ids then (Inl ''CHAT_REORDER_DUPLICATE_IDS'', s)
      else let rows = live_chats character s;
               owned = map c_id rows;
               invalid = filter (\<lambda>i. i \<notin> set owned) ids;
               wanted = filter (\<lambda>i. i \<in> set owned) ids;
               ordered = wanted @ filter (\<lambda>i. i \<notin> set wanted) owned
           in if ordered = [] then (Inr (0, invalid), s)
              else (Inr (length wanted, invalid), s\<lparr>chats := map (renumber ordered) (chats s)\<rparr>))"

section \<open>The manual order\<close>

lemma find_index_distinct: "distinct xs \<Longrightarrow> n < length xs \<Longrightarrow> find_index (\<lambda>x. x = xs ! n) xs = Some n"
proof (induction xs arbitrary: n)
  case Nil
  then show ?case by simp
next
  case (Cons x xs)
  then show ?case by (cases n) (auto simp: nth_mem)
qed

lemma renumber_view [simp]: "c_id (renumber ids c) = c_id c" "c_characterId (renumber ids c) = c_characterId c"
  "c_deletedAt (renumber ids c) = c_deletedAt c" "c_updatedAt (renumber ids c) = c_updatedAt c"
  by (simp_all add: renumber_def split: option.split)

lemma set_manual_order [simp]: "set (manual_order rows) = set rows"
  by (simp add: manual_order_def)

lemma distinct_manual_order: "distinct (map c_id rows) \<Longrightarrow> distinct (map c_id (manual_order rows))"
  by (simp add: manual_order_def distinct_map)

lemma renumbered_order:
  assumes "distinct (map c_id rows)" and "distinct ids" and "set ids = set (map c_id rows)"
  shows "map c_id (manual_order (map (renumber ids) rows)) = ids"
proof -
  let ?row = "\<lambda>i. renumber ids (the (find (\<lambda>c. c_id c = i) rows))"
  let ?ys = "map ?row ids" and ?xs = "rev (sort_key c_id (map (renumber ids) rows))"
  have at: "\<exists>c. find (\<lambda>c. c_id c = i) rows = Some c \<and> c \<in> set rows \<and> c_id c = i" if "i \<in> set ids" for i
  proof -
    obtain c where c: "c \<in> set rows" "c_id c = i" using assms(3) \<open>i \<in> set ids\<close> by auto
    then show ?thesis using find_unique [OF assms(1) c(1)] by auto
  qed
  have "map (\<lambda>i. c_id (?row i)) ids = ids"
  proof (rule map_idI)
    show "c_id (?row i) = i" if "i \<in> set ids" for i using at [OF that] by auto
  qed
  then have ids: "map c_id ?ys = ids" by (simp add: comp_def)
  have "?row (c_id c) = renumber ids c" if "c \<in> set rows" for c using find_unique [OF assms(1) that] by simp
  then have "(\<lambda>c. ?row (c_id c)) ` set rows = renumber ids ` set rows" by (intro image_cong) simp_all
  then have "?row ` c_id ` set rows = renumber ids ` set rows" by (simp only: image_image)
  then have members: "set ?ys = set ?xs" by (simp only: list.set_map assms(3) set_rev set_sort)
  have "distinct (map c_id ?ys)" unfolding ids by (rule assms(2))
  then have distinct_ys: "distinct ?ys" by (simp only: distinct_map)
  have "map c_id (map (renumber ids) rows) = map c_id rows" by simp
  then have "distinct (map c_id (map (renumber ids) rows))" using assms(1) by (simp only:)
  then have "distinct (map (renumber ids) rows)" unfolding distinct_map by blast
  then have distinct_xs: "distinct ?xs" by (simp only: distinct_rev distinct_sort)
  have order: "c_sortOrder (?ys ! n) = int (Suc n)" if "n < length ids" for n
  proof -
    have "c_id (?ys ! n) = ids ! n" using ids that by (metis length_map nth_map)
    then have "c_id (the (find (\<lambda>c. c_id c = ids ! n) rows)) = ids ! n" using that by simp
    then show ?thesis using find_index_distinct [OF assms(2) that] that by (simp add: renumber_def)
  qed
  let ?key = "\<lambda>c. (c_sortOrder c, - c_updatedAt c)"
  have "inj_on ?key (set ?xs)"
  proof (rule inj_onI)
    fix x y assume "x \<in> set ?xs" "y \<in> set ?xs" and key: "?key x = ?key y"
    then obtain a b where "a < length ids" "b < length ids" "x = ?ys ! a" "y = ?ys ! b"
      unfolding members [symmetric] in_set_conv_nth by auto
    then show "x = y" using order key by simp
  qed
  moreover have "mset ?xs = mset ?ys" using members set_eq_iff_mset_eq_distinct [OF distinct_xs distinct_ys] by blast
  moreover have "sorted (map ?key ?ys)"
    by (rule sorted_wrt_iff_nth_less [THEN iffD2]) (use order in auto)
  ultimately have "sort_key ?key ?xs = ?ys" by (intro sort_key_inj_key_eq)
  then show ?thesis using ids by (simp add: manual_order_def)
qed

text \<open>A reorder does what was asked: afterwards the live chats of the character come in the requested order,
  ids that are not theirs skipped, followed by the chats that were not named, in the order they had.\<close>

theorem reorder_as_requested:
  assumes "distinct (map c_id (chats s))" and "distinct ids"
  shows "let owned = map c_id (live_chats character s) in
    map c_id (live_chats character (snd (reorder character ids s)))
      = filter (\<lambda>i. i \<in> set owned) ids @ filter (\<lambda>i. i \<notin> set ids) owned"
proof -
  let ?live = "\<lambda>c. c_characterId c = Some character \<and> c_deletedAt c = None"
  let ?owned = "map c_id (live_chats character s)"
  let ?wanted = "filter (\<lambda>i. i \<in> set ?owned) ids"
  let ?ordered = "?wanted @ filter (\<lambda>i. i \<notin> set ?wanted) ?owned"
  have rows: "distinct (map c_id (filter ?live (chats s)))" using assms(1) by (rule distinct_map_filter)
  then have owned: "distinct ?owned" unfolding live_chats_def by (rule distinct_manual_order)
  have same: "filter (\<lambda>i. i \<notin> set ?wanted) ?owned = filter (\<lambda>i. i \<notin> set ids) ?owned"
    by (intro filter_cong) auto
  have "map c_id (live_chats character (snd (reorder character ids s))) = ?ordered"
  proof (cases "?ordered = []")
    case True
    then have "live_chats character s = []" unfolding same by (cases "live_chats character s") (auto simp: filter_empty_conv)
    then show ?thesis using assms(2) True by (simp add: reorder_def Let_def)
  next
    case False
    have "set ?ordered = set (map c_id (filter ?live (chats s)))" by (auto simp: live_chats_def)
    moreover have "distinct ?ordered" using assms(2) owned by auto
    ultimately have "map c_id (manual_order (map (renumber ?ordered) (filter ?live (chats s)))) = ?ordered"
      by (rule renumbered_order [OF rows, rotated])
    moreover have "filter ?live (map (renumber ?ordered) (chats s)) = map (renumber ?ordered) (filter ?live (chats s))"
      by (simp add: filter_map comp_def)
    moreover have "snd (reorder character ids s) = s\<lparr>chats := map (renumber ?ordered) (chats s)\<rparr>"
      unfolding reorder_def Let_def by (subst if_not_P, simp add: assms(2)) (subst if_not_P [OF False], simp)
    ultimately show ?thesis by (simp add: live_chats_def)
  qed
  then show ?thesis unfolding Let_def same .
qed

text \<open>Three chats of one character.\<close>

definition three_chats :: db where
  "three_chats = demo_db\<lparr>chats := [demo_chat\<lparr>c_id := ''x'', c_updatedAt := 1\<rparr>, demo_chat\<lparr>c_id := ''y'', c_updatedAt := 2\<rparr>,
     demo_chat\<lparr>c_id := ''z'', c_updatedAt := 3\<rparr>]\<rparr>"

lemma reorder_as_requested_witness:
  "map c_id (live_chats ''char'' (snd (reorder ''char'' [''x'', ''q'', ''z''] three_chats))) = [''x'', ''z'', ''y'']"
proof -
  have "distinct (map c_id (chats three_chats))" by (simp add: three_chats_def demo_chat_def)
  from reorder_as_requested [OF this, of "[''x'', ''q'', ''z'']" "''char''"]
  have "map c_id (live_chats ''char'' (snd (reorder ''char'' [''x'', ''q'', ''z''] three_chats)))
    = (let owned = map c_id (live_chats ''char'' three_chats) in
        filter (\<lambda>i. i \<in> set owned) [''x'', ''q'', ''z''] @ filter (\<lambda>i. i \<notin> set [''x'', ''q'', ''z'']) owned)"
    by (simp add: Let_def)
  also have "\<dots> = [''x'', ''z'', ''y'']" by code_simp
  finally show ?thesis .
qed

section \<open>The greeting\<close>

definition plain_chat :: chat_create where
  "plain_chat = \<lparr>i_characterId = None, i_personaId = None, i_title = None, i_parentChatId = None, i_origin = None,
     i_sourceMessageId = None\<rparr>"

text \<open>An authored greeting can be regenerated once and then neither regenerated nor swiped back: it is
  stored without a variant count, so the first regeneration archives it at the position it then activates, and
  every later swipe violates the uniqueness of positions.\<close>

theorem greeting_regenerates_once:
  "let s0 = snd (create_chat plain_chat (GreetingText ''Hello'') ''chat'' ''main'' ''g'' 1 demo_db);
       (r1, s1) = transaction (replaceContentAsVariant_tx ''g'' ''Hello'' ''Hi'' ''{}'' ''v0'' 2) s0;
       (r2, s2) = transaction (replaceContentAsVariant_tx ''g'' ''Hi'' ''Hey'' ''{}'' ''v1'' 3) s1;
       (r3, s3) = setActiveVariant ''g'' 0 None ''v2'' 4 s1
   in map_option m_content (message_of s1 ''g'') = Some ''Hi'' \<and> map a_content (messageVariants s1) = [''Hello'']
      \<and> r2 = Inl UniqueConstraint \<and> r3 = Inl UniqueConstraint \<and> s2 = s1 \<and> s3 = s1"
  by code_simp

text \<open>Only the greeting is left without an active variant: creating a chat keeps the invariant of the
  message store for every other message.\<close>

definition greeted :: "greeting \<Rightarrow> string \<Rightarrow> string set" where
  "greeted g msg_id = (if greetingContent g = None then {} else {msg_id})"

lemma store_ok_same:
  assumes "store_ok G s" and "messages s' = messages s" and "messageVariants s' = messageVariants s"
    and "messageContentRevisions s' = messageContentRevisions s"
  shows "store_ok G s'"
  using assms by (simp add: store_ok_def)

lemma store_ok_create_chat:
  assumes "store_ok G s" and "greeted g msg_id \<subseteq> G"
  shows "store_ok G (snd (create_chat input g ch br msg_id now s))"
  unfolding create_chat_def
proof (rule transaction_keeps [where P = "store_ok G", OF assms(1)])
  fix x s' assume tx: "create_chat_tx input g ch br msg_id now s = Inr (x, s')"
  obtain s1 s2 s3 row where "insert_chat row s = Inr s1"
    and "insert_branch \<lparr>br_id = br, br_chatId = ch, br_name = ''main'', br_createdAt = now\<rparr> s1 = Inr s2"
    and s3: "(case greetingContent g of None \<Rightarrow> Inr s2
       | Some content \<Rightarrow> insert_message (greeting_row msg_id ch br content (greetingMeta g) now) s2) = Inr s3"
    and s': "s' = s3 \<or> s' = touch_character (i_characterId input) now s3"
    using tx by (auto simp: create_chat_tx_def Let_def split: if_splits sum.splits)
  then have "store_ok G s2"
    using store_ok_same [OF assms(1), of s2] by (auto simp: insert_chat_def insert_branch_def split: if_splits)
  then have "store_ok G s3"
    using s3 assms(2) store_ok_new_message [of G s2 _ s3]
    by (auto simp: greeted_def greeting_row_def split: option.splits)
  with s' show "store_ok G s'" by auto
qed

lemma archived_ok_alive:
  assumes "archived_ok (map f ms) ts"
  shows "archived_ok (map f (filter (\<lambda>m. \<not> P m) ms)) (filter (\<lambda>v. a_messageId v \<notin> set (map f (filter P ms))) ts)"
proof -
  have "f ` set ms \<subseteq> f ` {x \<in> set ms. \<not> P x} \<union> f ` {x \<in> set ms. P x}" by auto
  then show ?thesis
    using assms unfolding archived_ok_def by (simp add: distinct_map_filter) blast
qed

lemma store_ok_hard_delete:
  assumes "store_ok G s"
  shows "store_ok G (snd (hardDelete i s))"
proof -
  let ?gone = "map br_id (filter (\<lambda>b. br_chatId b = i) (chatBranches s))"
  let ?lost = "\<lambda>m. m_chatId m = i \<or> m_branchId m \<in> set ?gone"
  let ?dead = "set (map m_id (filter ?lost (messages s)))"
  let ?ms = "filter (\<lambda>m. \<not> ?lost m) (messages s)"
  let ?keep = "filter (\<lambda>v :: archived_text. a_messageId v \<notin> ?dead)"
  note ok = store_okD [OF assms]
  have alive: "m_id m \<notin> ?dead" if "m \<in> set ?ms" for m
    using that ok(1) by (auto simp: distinct_map inj_on_def)
  have tables: "messages (snd (hardDelete i s)) = ?ms"
    "messageVariants (snd (hardDelete i s)) = ?keep (messageVariants s)"
    "messageContentRevisions (snd (hardDelete i s)) = ?keep (messageContentRevisions s)"
    by (simp_all add: hardDelete_def Let_def)
  have pos: "positions (?keep ts) (m_id m) = positions ts (m_id m)" if "m \<in> set ?ms" for m ts
    using alive [OF that] by (auto simp: positions_def)
  have kept: "archived_ok (map m_id ?ms) (?keep ts)" if "archived_ok (map m_id (messages s)) ts" for ts
    using that by (rule archived_ok_alive)
  show ?thesis
  proof (rule store_okI, unfold tables)
    show "distinct (map m_id ?ms)" using ok(1) by (rule distinct_map_filter)
  next
    fix m assume m: "m \<in> set ?ms"
    then show "m_id m \<notin> G \<Longrightarrow> swipe_ok (?keep (messageVariants s)) m"
      "history_ok (?keep (messageContentRevisions s)) m"
      using ok(4,5) [of m] unfolding swipe_ok_def history_ok_def by (simp_all only: pos [OF m]) simp_all
  qed (intro kept ok)+
qed

section \<open>The catalogue\<close>

datatype chat_sort = Manual | Recent

record catalogue_options =
  l_cursor :: "json option"
  l_limit :: "nat option"
  l_characterId :: "string option"
  l_includeDeleted :: bool
  l_sort :: "chat_sort option"

definition manual_key :: "chat_row \<Rightarrow> rat \<times> rat \<times> string" where
  "manual_key c = (of_int (c_sortOrder c), of_int (c_updatedAt c), c_id c)"

definition recent_key :: "chat_row \<Rightarrow> rat \<times> string" where
  "recent_key c = (of_int (c_updatedAt c), c_id c)"

definition manual_cursor :: "json \<Rightarrow> (rat \<times> rat \<times> string) option" where
  "manual_cursor j = (case (json_field j ''o'', json_field j ''c'', json_field j ''i'') of
       (Some (JNum n), Some (JNum c), Some (JString i)) \<Rightarrow> Some (n, c, i) | _ \<Rightarrow> None)"

definition recent_cursor :: "json \<Rightarrow> (rat \<times> string) option" where
  "recent_cursor j = (case (json_field j ''s'', json_field j ''c'', json_field j ''i'') of
       (Some (JString s), Some (JNum c), Some (JString i)) \<Rightarrow> if s = ''recent'' then Some (c, i) else None | _ \<Rightarrow> None)"

definition encode_manual :: "rat \<times> rat \<times> string \<Rightarrow> json" where
  "encode_manual k = (case k of (n, c, i) \<Rightarrow> JObject [(''o'', JNum n), (''c'', JNum c), (''i'', JString i)])"

definition encode_recent :: "rat \<times> string \<Rightarrow> json" where
  "encode_recent k = JObject [(''s'', JString ''recent''), (''c'', JNum (fst k)), (''i'', JString (snd k))]"

definition recent_before :: "rat \<times> string \<Rightarrow> rat \<times> string \<Rightarrow> bool" where
  "recent_before k l \<longleftrightarrow> fst l < fst k \<or> fst l = fst k \<and> snd l < snd k"

definition manual_before :: "rat \<times> rat \<times> string \<Rightarrow> rat \<times> rat \<times> string \<Rightarrow> bool" where
  "manual_before k l \<longleftrightarrow> fst k < fst l \<or> fst l = fst k \<and> recent_before (snd k) (snd l)"

definition past_chat :: "chat_sort \<Rightarrow> json option \<Rightarrow> chat_row \<Rightarrow> bool" where
  "past_chat order cur c = (case order of
       Recent \<Rightarrow> (case Option.bind cur recent_cursor of None \<Rightarrow> True | Some k \<Rightarrow> recent_before k (recent_key c))
     | Manual \<Rightarrow> (case Option.bind cur manual_cursor of None \<Rightarrow> True | Some k \<Rightarrow> manual_before k (manual_key c)))"

definition selected_chat :: "catalogue_options \<Rightarrow> string list option \<Rightarrow> chat_row \<Rightarrow> bool" where
  "selected_chat opts hits c \<longleftrightarrow> (l_includeDeleted opts \<or> c_deletedAt c = None)
     \<and> (falsy (l_characterId opts) \<or> c_characterId c = l_characterId opts)
     \<and> (case hits of None \<Rightarrow> True | Some ids \<Rightarrow> c_id c \<in> set ids)"

text \<open>\<open>hits\<close> holds the ids the search finds when the query is not blank.\<close>

definition list_chats :: "db \<Rightarrow> catalogue_options \<Rightarrow> string list option \<Rightarrow> (chat_row, json) page" where
  "list_chats s opts hits =
     (let limit = (case l_limit opts of None \<Rightarrow> 50 | Some n \<Rightarrow> n);
          order = (case l_sort opts of None \<Rightarrow> Manual | Some d \<Rightarrow> d);
          rows = filter (\<lambda>c. selected_chat opts hits c \<and> past_chat order (l_cursor opts) c) (chats s)
      in (case order of
            Recent \<Rightarrow> cut_page (\<lambda>c. encode_recent (recent_key c)) limit (take (Suc limit) (recent_order rows))
          | Manual \<Rightarrow> cut_page (\<lambda>c. encode_manual (manual_key c)) limit (take (Suc limit) (manual_order rows))))"

interpretation recent_chats: keyset recent_before recent_key encode_recent recent_cursor
  by unfold_locales (auto simp: recent_before_def recent_cursor_def encode_recent_def)

interpretation manual_chats: keyset manual_before manual_key encode_manual manual_cursor
  by unfold_locales (auto simp: manual_before_def recent_before_def manual_cursor_def encode_manual_def split: prod.split)

text \<open>A stable sort refines the order its input is in.\<close>

lemma insort_refines:
  assumes "sorted_wrt (\<lambda>a b. f a < f b \<or> f a = f b \<and> R a b) ys" and "\<forall>y \<in> set ys. R x y"
  shows "sorted_wrt (\<lambda>a b. f a < f b \<or> f a = f b \<and> R a b) (insort_key f x ys)"
  using assms
proof (induction ys)
  case Nil
  then show ?case by simp
next
  case (Cons y ys)
  show ?case
  proof (cases "f x \<le> f y")
    case True
    then have "f x < f z \<or> f x = f z \<and> R x z" if "z \<in> set (y # ys)" for z
      using that Cons.prems by (auto simp: order_le_less)
    then show ?thesis using Cons.prems(1) True by simp
  next
    case False
    then show ?thesis using Cons by (auto simp: set_insort_key)
  qed
qed

lemma sort_refines:
  assumes "sorted_wrt R xs"
  shows "sorted_wrt (\<lambda>a b. f a < f b \<or> f a = f b \<and> R a b) (sort_key f xs)"
  using assms by (induction xs) (simp_all add: insort_refines)

lemma by_id_descending:
  assumes "distinct (map c_id rows)"
  shows "sorted_wrt (\<lambda>a b. c_id b < c_id a) (rev (sort_key c_id rows))"
  using strict_sort_key [OF assms] by (simp add: sorted_wrt_rev)

lemma recent_ordered:
  assumes "distinct (map c_id rows)"
  shows "sorted_wrt (\<lambda>a b. recent_before (recent_key a) (recent_key b)) (recent_order rows)"
proof -
  have "sorted_wrt (\<lambda>a b. - c_updatedAt a < - c_updatedAt b \<or> - c_updatedAt a = - c_updatedAt b \<and> c_id b < c_id a) (recent_order rows)"
    unfolding recent_order_def by (rule sort_refines [OF by_id_descending [OF assms]])
  then show ?thesis
    by (rule sorted_wrt_mono_rel [rotated]) (auto simp: recent_before_def recent_key_def)
qed

lemma manual_ordered:
  assumes "distinct (map c_id rows)"
  shows "sorted_wrt (\<lambda>a b. manual_before (manual_key a) (manual_key b)) (manual_order rows)"
proof -
  have "sorted_wrt (\<lambda>a b. (c_sortOrder a, - c_updatedAt a) < (c_sortOrder b, - c_updatedAt b)
      \<or> (c_sortOrder a, - c_updatedAt a) = (c_sortOrder b, - c_updatedAt b) \<and> c_id b < c_id a) (manual_order rows)"
    unfolding manual_order_def by (rule sort_refines [OF by_id_descending [OF assms]])
  then show ?thesis
    by (rule sorted_wrt_mono_rel [rotated]) (auto simp: manual_before_def recent_before_def manual_key_def)
qed

definition catalogue :: "db \<Rightarrow> catalogue_options \<Rightarrow> string list option \<Rightarrow> chat_sort \<Rightarrow> chat_row list" where
  "catalogue s opts hits order = (case order of
       Recent \<Rightarrow> recent_order (filter (selected_chat opts hits) (chats s))
     | Manual \<Rightarrow> manual_order (filter (selected_chat opts hits) (chats s)))"

lemma catalogue_keyset:
  "list_chats s (opts\<lparr>l_cursor := cur, l_limit := Some n, l_sort := Some Recent\<rparr>) hits
     = recent_chats.keyset_page n (catalogue s opts hits Recent) cur"
  "list_chats s (opts\<lparr>l_cursor := cur, l_limit := Some n, l_sort := Some Manual\<rparr>) hits
     = manual_chats.keyset_page n (catalogue s opts hits Manual) cur"
proof -
  have sel: "selected_chat (opts\<lparr>l_cursor := cur, l_limit := Some n, l_sort := d\<rparr>) hits = selected_chat opts hits" for d
    by (rule ext) (simp add: selected_chat_def)
  have "recent_order (filter (\<lambda>c. selected_chat opts hits c \<and> past_chat Recent cur c) (chats s))
      = recent_chats.after cur (catalogue s opts hits Recent)"
    by (cases "Option.bind cur recent_cursor")
      (simp_all add: recent_chats.after_def catalogue_def recent_order_def past_chat_def filter_sort rev_filter [symmetric] conj_commute)
  then show "list_chats s (opts\<lparr>l_cursor := cur, l_limit := Some n, l_sort := Some Recent\<rparr>) hits
     = recent_chats.keyset_page n (catalogue s opts hits Recent) cur"
    by (simp add: list_chats_def sel Let_def recent_chats.keyset_page_def)
  have "manual_order (filter (\<lambda>c. selected_chat opts hits c \<and> past_chat Manual cur c) (chats s))
      = manual_chats.after cur (catalogue s opts hits Manual)"
    by (cases "Option.bind cur manual_cursor")
      (simp_all add: manual_chats.after_def catalogue_def manual_order_def past_chat_def filter_sort rev_filter [symmetric] conj_commute)
  then show "list_chats s (opts\<lparr>l_cursor := cur, l_limit := Some n, l_sort := Some Manual\<rparr>) hits
     = manual_chats.keyset_page n (catalogue s opts hits Manual) cur"
    by (simp add: list_chats_def sel Let_def manual_chats.keyset_page_def)
qed

text \<open>Paging through the catalogue, in the manual order or by recency, with any page size and any filter,
  returns every selected chat once and in that order.\<close>

theorem catalogue_paged:
  assumes "distinct (map c_id (chats s))" and "0 < n"
  shows "walk_pages (\<lambda>_ cur. list_chats s (opts\<lparr>l_cursor := cur, l_limit := Some n, l_sort := Some order\<rparr>) hits) 0 None
    = Some (catalogue s opts hits order)"
proof (cases order)
  case Recent
  have "walk_pages (\<lambda>_ cur. list_chats s (opts\<lparr>l_cursor := cur, l_limit := Some n, l_sort := Some Recent\<rparr>) hits) 0 None
      = Some (drop 0 (catalogue s opts hits Recent))"
    by (rule recent_chats.walk_complete [OF _ assms(2)])
      (simp_all add: catalogue_keyset, simp add: catalogue_def recent_ordered distinct_map_filter assms(1))
  then show ?thesis by (simp add: Recent)
next
  case Manual
  have "walk_pages (\<lambda>_ cur. list_chats s (opts\<lparr>l_cursor := cur, l_limit := Some n, l_sort := Some Manual\<rparr>) hits) 0 None
      = Some (drop 0 (catalogue s opts hits Manual))"
    by (rule manual_chats.walk_complete [OF _ assms(2)])
      (simp_all add: catalogue_keyset, simp add: catalogue_def manual_ordered distinct_map_filter assms(1))
  then show ?thesis by (simp add: Manual)
qed

definition any_chat :: catalogue_options where
  "any_chat = \<lparr>l_cursor = None, l_limit = None, l_characterId = None, l_includeDeleted = False, l_sort = None\<rparr>"

lemma catalogue_paged_witness:
  "map_option (map c_id) (walk_pages (\<lambda>_ cur. list_chats three_chats
     (any_chat\<lparr>l_cursor := cur, l_limit := Some 2, l_sort := Some Recent\<rparr>) None) 0 None) = Some [''z'', ''y'', ''x'']"
proof -
  have "distinct (map c_id (chats three_chats))" by (simp add: three_chats_def demo_chat_def)
  from catalogue_paged [OF this, where n = 2 and opts = any_chat and order = Recent and hits = None]
  have "map_option (map c_id) (walk_pages (\<lambda>_ cur. list_chats three_chats
     (any_chat\<lparr>l_cursor := cur, l_limit := Some 2, l_sort := Some Recent\<rparr>) None) 0 None)
    = Some (map c_id (catalogue three_chats any_chat None Recent))" by simp
  also have "\<dots> = Some [''z'', ''y'', ''x'']" by code_simp
  finally show ?thesis .
qed

end
