(* ===== verification/Message_Drafts.thy ===== *)
theory Message_Drafts
  imports Chat_Store
begin

text \<open>
  Server-side drafts (\<open>packages/db/src/repositories/messageDrafts.ts\<close>): a writer streams into a draft row, a
  commit turns it into a message in one transaction, a sweep removes what is left over. On top of them, the
  routes of \<open>apps/server/src/plugins/chats.ts\<close> that keep the message count of a chat.
\<close>

section \<open>The repository\<close>

record draft_create =
  f_role :: "role option"
  f_name :: "string option"
  f_meta :: "string option"

record draft_update =
  e_content :: "string option"
  e_role :: "role option"
  e_sequence :: "int option"

definition draft_of :: "db \<Rightarrow> string \<Rightarrow> draft_row option" where
  "draft_of s i = find (\<lambda>d. d_id d = i) (messageDrafts s)"

definition create_draft :: "string \<Rightarrow> string \<Rightarrow> draft_create \<Rightarrow> string \<Rightarrow> int \<Rightarrow> db \<Rightarrow> (db_error + draft_row) \<times> db" where
  "create_draft ch br input new_id now = transaction (\<lambda>s.
     let row = \<lparr>d_id = new_id, d_chatId = ch, d_branchId = br,
           d_role = (case f_role input of None \<Rightarrow> Assistant | Some r \<Rightarrow> r), d_content = [], d_name = f_name input,
           d_meta = (case f_meta input of None \<Rightarrow> ''{}'' | Some t \<Rightarrow> t), d_sequence = 0, d_revision = 1,
           d_committedMessageId = None, d_createdAt = now, d_updatedAt = now\<rparr>
     in if new_id \<in> set (map d_id (messageDrafts s)) then Inl UniqueConstraint
        else if ch \<notin> set (map c_id (chats s)) \<or> br \<notin> set (map br_id (chatBranches s)) then Inl ForeignKeyConstraint
        else Inr (row, s\<lparr>messageDrafts := messageDrafts s @ [row]\<rparr>))"

datatype draft_result = Applied draft_row | Stale draft_row | NoDraft

definition patch_row :: "draft_update \<Rightarrow> int \<Rightarrow> draft_row \<Rightarrow> draft_row" where
  "patch_row p now d = d\<lparr>d_content := or_keep (e_content p) (d_content d), d_role := or_keep (e_role p) (d_role d),
     d_sequence := or_keep (e_sequence p) (d_sequence d), d_revision := Suc (d_revision d), d_updatedAt := now\<rparr>"

definition rewrite_draft :: "string \<Rightarrow> (draft_row \<Rightarrow> draft_row) \<Rightarrow> db \<Rightarrow> db" where
  "rewrite_draft i f s = s\<lparr>messageDrafts := map (\<lambda>d. if d_id d = i then f d else d) (messageDrafts s)\<rparr>"

definition update_draft :: "string \<Rightarrow> draft_update \<Rightarrow> int \<Rightarrow> db \<Rightarrow> draft_result \<times> db" where
  "update_draft i p now s = (case draft_of s i of
       None \<Rightarrow> (NoDraft, s)
     | Some d \<Rightarrow>
         if (case e_sequence p of None \<Rightarrow> False | Some n \<Rightarrow> n \<le> d_sequence d) then (Stale d, s)
         else (Applied (patch_row p now d), rewrite_draft i (patch_row p now) s))"

datatype commit_result = NotFound | Committed string bool "message option"

definition committed_row :: "draft_row \<Rightarrow> string \<Rightarrow> int \<Rightarrow> message_row" where
  "committed_row d msg_id now = \<lparr>m_id = msg_id, m_chatId = d_chatId d, m_branchId = d_branchId d, m_parentId = None,
     m_role = d_role d, m_content = d_content d, m_name = d_name d, m_meta = d_meta d, m_createdAt = now, m_revision = 1,
     m_updatedAt = None, m_variantCount = 1, m_activeVariantPosition = Some 0, m_checkpointChatId = None,
     m_contentRevisionCount = 0, m_idempotencyKey = None\<rparr>"

definition commit_tx :: "string \<Rightarrow> string \<Rightarrow> int \<Rightarrow> commit_result tx" where
  "commit_tx i msg_id now s = (case draft_of s i of
       None \<Rightarrow> Inr (NotFound, s)
     | Some d \<Rightarrow>
         (case d_committedMessageId d of
            Some (c # m) \<Rightarrow> Inr (Committed (c # m) True None, s)
          | _ \<Rightarrow>
              (case insert_message (committed_row d msg_id now) s of
                 Inl e \<Rightarrow> Inl e
               | Inr s1 \<Rightarrow> Inr (Committed msg_id False (Some (rowToMessage (committed_row d msg_id now))),
                   rewrite_draft i (\<lambda>d. d\<lparr>d_committedMessageId := Some msg_id, d_updatedAt := now\<rparr>) s1))))"

definition commit_draft :: "string \<Rightarrow> string \<Rightarrow> int \<Rightarrow> db \<Rightarrow> (db_error + commit_result) \<times> db" where
  "commit_draft i msg_id now = transaction (commit_tx i msg_id now)"

definition abort_draft :: "string \<Rightarrow> db \<Rightarrow> bool \<times> db" where
  "abort_draft i s = (draft_of s i \<noteq> None, s\<lparr>messageDrafts := filter (\<lambda>d. d_id d \<noteq> i) (messageDrafts s)\<rparr>)"

definition stale_draft :: "int \<Rightarrow> int \<Rightarrow> int \<Rightarrow> draft_row \<Rightarrow> bool" where
  "stale_draft now committed_ttl uncommitted_ttl d = (case d_committedMessageId d of
       Some _ \<Rightarrow> d_updatedAt d < now - committed_ttl | None \<Rightarrow> d_updatedAt d < now - uncommitted_ttl)"

definition sweep :: "int \<Rightarrow> int \<Rightarrow> int \<Rightarrow> db \<Rightarrow> nat \<times> db" where
  "sweep now ct ut s = (length (filter (stale_draft now ct ut) (messageDrafts s)),
     s\<lparr>messageDrafts := filter (\<lambda>d. \<not> stale_draft now ct ut d) (messageDrafts s)\<rparr>)"

datatype draft_op =
  CreateDraft string string draft_create string int
| PatchDraft string draft_update int
| CommitDraft string string int
| AbortDraft string
| SweepDrafts int int int
| OtherWrite message_op

fun draft_step :: "draft_op \<Rightarrow> db \<Rightarrow> db" where
  "draft_step (CreateDraft ch br input new_id now) s = snd (create_draft ch br input new_id now s)"
| "draft_step (PatchDraft i p now) s = snd (update_draft i p now s)"
| "draft_step (CommitDraft i msg_id now) s = snd (commit_draft i msg_id now s)"
| "draft_step (AbortDraft i) s = snd (abort_draft i s)"
| "draft_step (SweepDrafts now ct ut) s = snd (sweep now ct ut s)"
| "draft_step (OtherWrite e) s = message_step e s"

section \<open>A draft becomes one message\<close>

fun creates_draft :: "string \<Rightarrow> draft_op \<Rightarrow> bool" where
  "creates_draft i (CreateDraft ch br input new_id now) = (new_id = i)"
| "creates_draft i _ = False"

text \<open>The row of a committed draft stays committed while it is there.\<close>

definition settled :: "string \<Rightarrow> string \<Rightarrow> db \<Rightarrow> bool" where
  "settled i mid s \<longleftrightarrow> (case draft_of s i of None \<Rightarrow> True | Some d \<Rightarrow> d_committedMessageId d = Some mid)"

lemma draft_of_rewrite:
  assumes "\<And>d. d_id (f d) = d_id d"
  shows "draft_of (rewrite_draft j f s) i = (if i = j then map_option f (draft_of s i) else draft_of s i)"
proof -
  have "find (\<lambda>d. d_id d = i) (map (\<lambda>d. if d_id d = j then f d else d) ds)
      = (if i = j then map_option f (find (\<lambda>d. d_id d = i) ds) else find (\<lambda>d. d_id d = i) ds)" for ds
    by (induction ds) (auto simp: assms)
  then show ?thesis by (simp add: draft_of_def rewrite_draft_def)
qed

lemma settled_filter: "settled i mid s \<Longrightarrow> distinct (map d_id (messageDrafts s)) \<Longrightarrow>
    settled i mid (s\<lparr>messageDrafts := filter P (messageDrafts s)\<rparr>)"
proof -
  assume "settled i mid s" and distinct: "distinct (map d_id (messageDrafts s))"
  then have row: "d \<in> set (messageDrafts s) \<Longrightarrow> d_id d = i \<Longrightarrow> d_committedMessageId d = Some mid" for d
    using find_unique [OF distinct, of d] by (auto simp: settled_def draft_of_def)
  then show ?thesis
    by (auto simp: settled_def draft_of_def split: option.split dest!: find_SomeD)
qed

text \<open>No write to the messages touches a draft.\<close>

lemma tx_drafts:
  "(\<And>x s'. f s = Inr (x, s') \<Longrightarrow> messageDrafts s' = messageDrafts s) \<Longrightarrow> messageDrafts (snd (transaction f s)) = messageDrafts s"
  by (cases rule: transaction_cases [of f s]) simp_all

lemma insert_drafts:
  "insert_message m s = Inr s' \<Longrightarrow> messageDrafts s' = messageDrafts s"
  "insert_variant v s = Inr s' \<Longrightarrow> messageDrafts s' = messageDrafts s"
  "insert_revision v s = Inr s' \<Longrightarrow> messageDrafts s' = messageDrafts s"
  "write_row cur f now s = Inr (x, s') \<Longrightarrow> messageDrafts s' = messageDrafts s"
  by (auto simp: insert_message_def insert_variant_def insert_revision_def write_row_def Let_def map_sum_def
      split: if_splits sum.splits)

lemma rewrites_drafts [simp]:
  "messageDrafts (update_message i f s) = messageDrafts s" "messageDrafts (delete_variant i s) = messageDrafts s"
  "messageDrafts (touch_character c now s) = messageDrafts s"
  by (simp_all add: update_message_def delete_variant_def touch_character_def)

lemma create_drafts: "create_tx ch br input new_id now s = Inr (x, s') \<Longrightarrow> messageDrafts s' = messageDrafts s"
  by (auto simp: create_tx_def insert_drafts split: sum.splits option.splits list.splits if_splits)

lemma update_drafts:
  assumes "update_tx i p expected track new_id now s = Inr (x, s')"
  shows "messageDrafts s' = messageDrafts s"
proof (cases "guarded i expected s")
  case None
  then show ?thesis using assms by (simp add: update_tx_def)
next
  case (Some cur)
  then show ?thesis
    using assms by (cases rule: insert_revision_cases [of "archive_of cur new_id" s])
      (auto simp: update_tx_def dest: insert_drafts(4) split: if_splits)
qed

lemma restore_drafts: "restore_tx i rid expected new_id now s = Inr (x, s') \<Longrightarrow> messageDrafts s' = messageDrafts s"
  by (auto simp: restore_tx_def dest!: insert_drafts(3,4) split: option.splits sum.splits if_splits)

lemma setActive_drafts: "setActiveVariant_tx i p expected new_id now s = Inr (x, s') \<Longrightarrow> messageDrafts s' = messageDrafts s"
  by (auto simp: setActiveVariant_tx_def Let_def dest!: insert_drafts(2) split: option.splits sum.splits)

lemma replace_drafts: "replaceContentAsVariant_tx i archived new_text meta new_id now s = Inr (x, s') \<Longrightarrow> messageDrafts s' = messageDrafts s"
  by (auto simp: replaceContentAsVariant_tx_def Let_def dest!: insert_drafts(2) split: option.splits sum.splits)

lemma message_step_drafts: "messageDrafts (message_step e s) = messageDrafts s"
proof (cases e)
  case (CreateMessage ch br input new_id now)
  then show ?thesis by (simp add: create_message_def tx_drafts [OF create_drafts])
next
  case (UpdateMessage i p expected track new_id now)
  then show ?thesis by (simp add: tx_drafts [OF update_drafts])
next
  case (RestoreRevision i rid expected new_id now)
  then show ?thesis by (simp add: tx_drafts [OF restore_drafts])
next
  case (SetActiveVariant i p expected new_id now)
  then show ?thesis by (simp add: setActiveVariant_def tx_drafts [OF setActive_drafts])
next
  case (ActivateVariant i vid expected new_id now)
  then show ?thesis
    by (simp add: activateVariant_def setActiveVariant_def tx_drafts [OF setActive_drafts] split: option.split)
next
  case (ReplaceAsVariant i archived new_text meta new_id now)
  then show ?thesis by (simp add: tx_drafts [OF replace_drafts])
qed (simp_all add: linkCheckpoint_def delete_message_def)

text \<open>A commit of a draft leaves either the store as it was or a new message and a committed draft.\<close>

lemma commit_cases:
  obtains (unchanged) "snd (commit_draft i msg_id now s) = s" "\<And>mid m. fst (commit_draft i msg_id now s) \<noteq> Inr (Committed mid False m)"
  | (committed) d s1 where "draft_of s i = Some d" "insert_message (committed_row d msg_id now) s = Inr s1"
      "commit_draft i msg_id now s = (Inr (Committed msg_id False (Some (rowToMessage (committed_row d msg_id now)))),
         rewrite_draft i (\<lambda>d. d\<lparr>d_committedMessageId := Some msg_id, d_updatedAt := now\<rparr>) s1)"
      "\<And>c m. d_committedMessageId d \<noteq> Some (c # m)"
proof (cases "draft_of s i")
  case None
  then show ?thesis using unchanged by (simp add: commit_draft_def transaction_def commit_tx_def)
next
  case (Some d)
  show ?thesis
  proof (cases "\<exists>c m. d_committedMessageId d = Some (c # m)")
    case True
    then show ?thesis using unchanged Some by (auto simp: commit_draft_def transaction_def commit_tx_def)
  next
    case False
    then have tx: "commit_tx i msg_id now s = (case insert_message (committed_row d msg_id now) s of
        Inl e \<Rightarrow> Inl e
      | Inr s1 \<Rightarrow> Inr (Committed msg_id False (Some (rowToMessage (committed_row d msg_id now))),
          rewrite_draft i (\<lambda>d. d\<lparr>d_committedMessageId := Some msg_id, d_updatedAt := now\<rparr>) s1))"
      by (simp add: commit_tx_def Some split: option.split list.split)
    show ?thesis
    proof (cases "insert_message (committed_row d msg_id now) s")
      case (Inl e)
      then show ?thesis using unchanged tx by (simp add: commit_draft_def transaction_def)
    next
      case (Inr s1)
      then show ?thesis using committed [OF Some Inr] tx False by (simp add: commit_draft_def transaction_def)
    qed
  qed
qed

definition drafts_ok :: "db \<Rightarrow> bool" where
  "drafts_ok s \<longleftrightarrow> distinct (map d_id (messageDrafts s))"

lemma drafts_ok_rewrite [simp]: "(\<And>d. d_id (f d) = d_id d) \<Longrightarrow> drafts_ok (rewrite_draft i f s) = drafts_ok s"
  by (simp add: drafts_ok_def rewrite_draft_def comp_def if_distrib cong: if_cong)

lemma settled_same: "messageDrafts s' = messageDrafts s \<Longrightarrow> settled i mid s' = settled i mid s"
  by (simp add: settled_def draft_of_def)

lemma settled_step:
  assumes "drafts_ok s" and "settled i mid s" and "\<not> creates_draft i e" and "mid \<noteq> []"
  shows "drafts_ok (draft_step e s) \<and> settled i mid (draft_step e s)"
proof (cases e)
  case (CreateDraft ch br input new_id now)
  then have other: "new_id \<noteq> i" using assms(3) by simp
  have "find (\<lambda>d. d_id d = i) (ds @ [r]) = find (\<lambda>d. d_id d = i) ds" if "d_id r \<noteq> i" for r :: draft_row and ds
    using that by (simp add: find_snoc split: option.split)
  then show ?thesis
    using assms(1,2) CreateDraft other
    by (auto simp: create_draft_def transaction_def Let_def drafts_ok_def settled_def draft_of_def)
next
  case (PatchDraft j p now)
  have "draft_step e s = s \<or> draft_step e s = rewrite_draft j (patch_row p now) s"
    by (simp add: PatchDraft update_draft_def split: option.split)
  moreover have "settled i mid (rewrite_draft j (patch_row p now) s)"
    using assms(2) by (auto simp: settled_def draft_of_rewrite patch_row_def split: option.splits)
  ultimately show ?thesis using assms(1,2) by (auto simp: patch_row_def)
next
  case (CommitDraft j msg_id now)
  show ?thesis
  proof (cases rule: commit_cases [of j msg_id now s])
    case unchanged
    then show ?thesis using assms(1,2) CommitDraft by simp
  next
    case (committed d s1)
    have same: "drafts_ok s1" "settled i mid s1"
      using assms(1,2) insert_drafts(1) [OF committed(2)] settled_same [OF insert_drafts(1) [OF committed(2)]]
      by (simp_all add: drafts_ok_def)
    have "j \<noteq> i"
    proof
      assume "j = i"
      then have "d_committedMessageId d = Some mid" using assms(2) committed(1) by (simp add: settled_def)
      with committed(4) assms(4) show False by (cases mid) auto
    qed
    then have "settled i mid (rewrite_draft j (\<lambda>d. d\<lparr>d_committedMessageId := Some msg_id, d_updatedAt := now\<rparr>) s1)"
      using same(2) by (simp add: settled_def draft_of_rewrite)
    then show ?thesis using committed(3) same(1) CommitDraft by simp
  qed
next
  case (AbortDraft j)
  then show ?thesis
    using assms(1,2) settled_filter by (simp add: abort_draft_def drafts_ok_def distinct_map_filter)
next
  case (SweepDrafts now ct ut)
  then show ?thesis
    using assms(1,2) settled_filter by (simp add: sweep_def drafts_ok_def distinct_map_filter)
next
  case (OtherWrite x)
  have "messageDrafts (draft_step e s) = messageDrafts s" by (simp add: OtherWrite message_step_drafts)
  then show ?thesis using assms(1,2) settled_same [of "draft_step e s" s i mid] by (simp add: drafts_ok_def)
qed

lemma settled_run:
  assumes "drafts_ok s" and "settled i mid s" and "list_all (\<lambda>e. \<not> creates_draft i e) es" and "mid \<noteq> []"
  shows "settled i mid (run_events draft_step es s)"
  using assms
proof (induction es arbitrary: s)
  case Nil
  then show ?case by simp
next
  case (Cons e es)
  then show ?case using settled_step [OF Cons.prems(1,2) _ assms(4), of e] by simp
qed

text \<open>C33: a draft becomes at most one message: after a successful commit, whatever happens to drafts and messages,
  another commit of the draft adds no message, and as long as the draft's row is kept it answers with the
  message of the first.\<close>

theorem draft_committed_once:
  assumes "drafts_ok s" and "commit_draft i mid now s = (Inr (Committed mid False m), s1)" and "mid \<noteq> []"
    and "list_all (\<lambda>e. \<not> creates_draft i e) es"
  shows "let s2 = run_events draft_step es s1; r = commit_draft i mid' now' s2
    in fst r = Inr (if draft_of s2 i = None then NotFound else Committed mid True None) \<and> snd r = s2"
proof -
  have s1: "drafts_ok s1 \<and> settled i mid s1"
  proof (cases rule: commit_cases [of i mid now s])
    case unchanged
    have "fst (commit_draft i mid now s) = Inr (Committed mid False m)" using assms(2) by simp
    with unchanged(2) show ?thesis by blast
  next
    case (committed d s')
    have "drafts_ok s'" "draft_of s' i = Some d"
      using assms(1) insert_drafts(1) [OF committed(2)] committed(1) by (simp_all add: drafts_ok_def draft_of_def)
    then show ?thesis using committed(3) assms(2) by (auto simp: settled_def draft_of_rewrite)
  qed
  then have "settled i mid (run_events draft_step es s1)" using settled_run assms(3,4) by blast
  then show ?thesis
    using assms(3)
    by (cases mid) (auto simp: settled_def commit_draft_def transaction_def commit_tx_def Let_def split: option.splits)
qed

definition demo_draft :: db where
  "demo_draft = run_events draft_step [CreateDraft ''c'' ''b'' \<lparr>f_role = None, f_name = None, f_meta = None\<rparr> ''d'' 1,
     PatchDraft ''d'' \<lparr>e_content = Some ''text'', e_role = None, e_sequence = Some 1\<rparr> 2] demo_db"

lemma draft_committed_once_witness:
  "fst (commit_draft ''d'' ''m2'' 5 (run_events draft_step [PatchDraft ''d'' \<lparr>e_content = Some ''late'', e_role = None, e_sequence = None\<rparr> 4]
      (snd (commit_draft ''d'' ''m'' 3 demo_draft)))) = Inr (Committed ''m'' True None)"
proof -
  let ?s1 = "snd (commit_draft ''d'' ''m'' 3 demo_draft)" and ?e = "PatchDraft ''d'' \<lparr>e_content = Some ''late'', e_role = None, e_sequence = None\<rparr> 4"
  have ok: "drafts_ok demo_draft" by code_simp
  have "case fst (commit_draft ''d'' ''m'' 3 demo_draft) of Inr (Committed mid False m) \<Rightarrow> mid = ''m'' | _ \<Rightarrow> False" by code_simp
  then obtain m where "fst (commit_draft ''d'' ''m'' 3 demo_draft) = Inr (Committed ''m'' False m)"
    by (auto split: sum.splits commit_result.splits bool.splits)
  then have first: "commit_draft ''d'' ''m'' 3 demo_draft = (Inr (Committed ''m'' False m), ?s1)" by (metis prod.collapse)
  have "draft_of (run_events draft_step [?e] ?s1) ''d'' \<noteq> None" by code_simp
  with draft_committed_once [OF ok first, of "[?e]" "''m2''" 5] show ?thesis by (simp add: Let_def)
qed

end
