(* ===== verification/Chat_Routes.thy ===== *)
theory Chat_Routes
  imports Message_Drafts
begin

text \<open>
  The routes of \<open>apps/server/src/plugins/chats.ts\<close> that change more than one table: posting and deleting a
  message, committing a draft and reordering the chats of a character. Validation of the request against its
  schema and the events emitted are left out; a route runs to its end before the next one.
\<close>

datatype route_error = NotFoundError string | DatabaseError db_error

type_synonym 'a route = "db \<Rightarrow> (route_error + 'a) \<times> db"

text \<open>\<open>chat.activeBranchId ?? createBranch(chat.id, 'main')\<close>, and the update that follows.\<close>

definition ensure_branch :: "chat_row \<Rightarrow> string \<Rightarrow> int \<Rightarrow> string route" where
  "ensure_branch c new_id now s = (case c_activeBranchId c of
       Some b \<Rightarrow> (Inr b, if b = [] then touch (c_id c) now s else s)
     | None \<Rightarrow>
         (case createBranch (c_id c) ''main'' new_id now s of
            Inl e \<Rightarrow> (Inl (DatabaseError e), s)
          | Inr s1 \<Rightarrow> (Inr new_id, update_chats (\<lambda>r. c_id r = c_id c)
              (\<lambda>r. r\<lparr>c_updatedAt := now, c_activeBranchId := Some new_id\<rparr>) s1)))"

definition post_message :: "string \<Rightarrow> message_create \<Rightarrow> string \<Rightarrow> string \<Rightarrow> int \<Rightarrow> message route" where
  "post_message ch input new_branch new_id now s = (case get_chat ch s of
       None \<Rightarrow> (Inl (NotFoundError ''CHAT_NOT_FOUND''), s)
     | Some c \<Rightarrow>
         (case ensure_branch c new_branch now s of
            (Inl e, s1) \<Rightarrow> (Inl e, s1)
          | (Inr b, s1) \<Rightarrow>
              (case create_message ch b input new_id now s1 of
                 (Inl e, s2) \<Rightarrow> (Inl (DatabaseError e), s2)
               | (Inr m, s2) \<Rightarrow> (Inr m, setMessageCount ch (count_messages ch b s2) now s2))))"

definition message_in_chat :: "string \<Rightarrow> string \<Rightarrow> db \<Rightarrow> bool" where
  "message_in_chat ch i s = (case message_of s i of None \<Rightarrow> False | Some m \<Rightarrow> m_chatId m = ch)"

definition delete_message_route :: "string \<Rightarrow> string \<Rightarrow> int \<Rightarrow> unit route" where
  "delete_message_route ch i now s = (case get_chat ch s of
       None \<Rightarrow> (Inl (NotFoundError ''CHAT_NOT_FOUND''), s)
     | Some c \<Rightarrow>
         if \<not> message_in_chat ch i s then (Inl (NotFoundError ''MESSAGE_NOT_FOUND''), s)
         else (let s1 = snd (delete_message i s)
               in (Inr (), if falsy (c_activeBranchId c) then s1
                           else setMessageCount ch (count_messages ch (the (c_activeBranchId c)) s1) now s1)))"

definition commit_route :: "string \<Rightarrow> string \<Rightarrow> string \<Rightarrow> int \<Rightarrow> (string \<times> bool) route" where
  "commit_route ch draft msg_id now s = (case get_chat ch s of
       None \<Rightarrow> (Inl (NotFoundError ''CHAT_NOT_FOUND''), s)
     | Some c \<Rightarrow>
         (case commit_draft draft msg_id now s of
            (Inl e, s1) \<Rightarrow> (Inl (DatabaseError e), s1)
          | (Inr NotFound, s1) \<Rightarrow> (Inl (NotFoundError ''MESSAGE_DRAFT_NOT_FOUND''), s1)
          | (Inr (Committed mid already m), s1) \<Rightarrow>
              (Inr (mid, already), case (already, m) of
                 (False, Some x) \<Rightarrow> setMessageCount ch (count_messages ch (m_branchId x) s1) now s1
               | _ \<Rightarrow> s1)))"

definition reorder_route :: "string \<Rightarrow> string list \<Rightarrow> (nat \<times> string list) route" where
  "reorder_route character ids s =
     (if character \<notin> set (map fst (characters s)) then (Inl (NotFoundError ''CHARACTER_NOT_FOUND''), s)
      else (case reorder character ids s of
              (Inl e, s1) \<Rightarrow> (Inl (DatabaseError (Thrown e)), s1)
            | (Inr (n, invalid), s1) \<Rightarrow>
                (if invalid \<noteq> [] then Inl (NotFoundError ''CHAT_NOT_FOUND'') else Inr (n, invalid), s1)))"

section \<open>The message count\<close>

definition counts_ok :: "db \<Rightarrow> bool" where
  "counts_ok s \<longleftrightarrow> distinct (map c_id (chats s))
     \<and> list_all (\<lambda>c. case c_activeBranchId c of None \<Rightarrow> True
         | Some b \<Rightarrow> b \<noteq> [] \<and> c_messageCount c = count_messages (c_id c) b s) (chats s)"

lemma counts_ok_others:
  assumes "counts_ok s" and "chats s' = map (\<lambda>c. if c_id c = ch then f c else c) (chats s)"
    and "\<And>c. c_id (f c) = c_id c" and "\<And>x b. x \<noteq> ch \<Longrightarrow> count_messages x b s' = count_messages x b s"
    and "\<And>c b. c \<in> set (chats s) \<Longrightarrow> c_id c = ch \<Longrightarrow> c_activeBranchId (f c) = Some b \<Longrightarrow>
      b \<noteq> [] \<and> c_messageCount (f c) = count_messages ch b s'"
  shows "counts_ok s'"
proof -
  have "map c_id (chats s') = map c_id (chats s)" using assms(2,3) by simp
  moreover have "case c_activeBranchId c of None \<Rightarrow> True | Some b \<Rightarrow> b \<noteq> [] \<and> c_messageCount c = count_messages (c_id c) b s'"
    if "c \<in> set (chats s')" for c
  proof -
    have "c \<in> (\<lambda>c. if c_id c = ch then f c else c) ` set (chats s)" using that assms(2) by simp
    then obtain r where r: "r \<in> set (chats s)" "c = (if c_id r = ch then f r else r)" by blast
    show ?thesis
    proof (cases "c_id r = ch")
      case True
      then show ?thesis using assms(3,5) r by (auto split: option.split)
    next
      case False
      then show ?thesis using assms(1,4) r by (auto simp: counts_ok_def list_all_iff split: option.splits)
    qed
  qed
  ultimately show ?thesis using assms(1) by (simp add: counts_ok_def list_all_iff)
qed

lemma get_chat_in: "get_chat i s = Some c \<Longrightarrow> c \<in> set (chats s) \<and> c_id c = i"
  unfolding get_chat_def by (drule find_SomeD) simp

lemma create_message_tables:
  "chats (snd (create_message ch b input new_id now s)) = chats s"
  "x \<noteq> ch \<Longrightarrow> count_messages x br (snd (create_message ch b input new_id now s)) = count_messages x br s"
proof -
  have "chats s' = chats s \<and> (x \<noteq> ch \<longrightarrow> count_messages x br s' = count_messages x br s)"
    if tx: "create_tx ch b input new_id now s = Inr (r, s')" for r s'
  proof -
    have "chats s' = chats s"
      using tx by (auto simp: create_tx_def insert_message_def touch_character_def split: sum.splits option.splits list.splits if_splits)
    moreover have "x \<noteq> ch \<Longrightarrow> count_messages x br s' = count_messages x br s"
      using create_tx_messages [OF tx] by (auto simp: count_messages_def new_message_row_def)
    ultimately show ?thesis by simp
  qed
  then have "chats (snd (create_message ch b input new_id now s)) = chats s \<and>
    (x \<noteq> ch \<longrightarrow> count_messages x br (snd (create_message ch b input new_id now s)) = count_messages x br s)"
    by (cases rule: transaction_cases [of "create_tx ch b input new_id now" s]) (simp_all add: create_message_def)
  then show "chats (snd (create_message ch b input new_id now s)) = chats s"
    "x \<noteq> ch \<Longrightarrow> count_messages x br (snd (create_message ch b input new_id now s)) = count_messages x br s" by blast+
qed

lemma counts_ok_update [simp]:
  "count_messages x br (update_chats P f s) = count_messages x br s"
  "count_messages x br (setMessageCount i n now s) = count_messages x br s"
  by (simp_all add: count_messages_def update_chats_def setMessageCount_def)

text \<open>The branch a message goes to.\<close>

lemma ensure_branch_cases:
  assumes "counts_ok s" and "get_chat ch s = Some c"
  obtains (failed) e where "ensure_branch c new_id now s = (Inl e, s)"
  | (branch) b s1 g where "ensure_branch c new_id now s = (Inr b, s1)" "chats s1 = map (\<lambda>r. if c_id r = ch then g r else r) (chats s)"
      "\<And>r. c_id (g r) = c_id r" "c_activeBranchId (g c) = Some b" "\<And>x br. count_messages x br s1 = count_messages x br s"
      "b \<noteq> [] \<or> b = new_id"
proof -
  have c: "c \<in> set (chats s)" "c_id c = ch" using get_chat_in [OF assms(2)] by simp_all
  show ?thesis
  proof (cases "c_activeBranchId c")
    case (Some b)
    then have "b \<noteq> []" using assms(1) c(1) by (auto simp: counts_ok_def list_all_iff)
    then show ?thesis using branch [of b s "\<lambda>r. r"] Some by (simp add: ensure_branch_def)
  next
    case None
    show ?thesis
    proof (cases "createBranch (c_id c) ''main'' new_id now s")
      case (Inl e)
      then show ?thesis using failed None by (simp add: ensure_branch_def)
    next
      case (Inr s1)
      then have "chats s1 = chats s" "messages s1 = messages s"
        by (auto simp: createBranch_def insert_branch_def split: if_splits)
      then show ?thesis
        using branch [of new_id "update_chats (\<lambda>r. c_id r = c_id c) (\<lambda>r. r\<lparr>c_updatedAt := now, c_activeBranchId := Some new_id\<rparr>) s1"
            "\<lambda>r. r\<lparr>c_updatedAt := now, c_activeBranchId := Some new_id\<rparr>"] None Inr c(2)
        by (simp add: ensure_branch_def update_chats_def count_messages_def)
    qed
  qed
qed

lemma post_keeps_counts:
  assumes "counts_ok s" and "fst (post_message ch input new_branch new_id now s) = Inr m" and "new_branch \<noteq> []"
  shows "counts_ok (snd (post_message ch input new_branch new_id now s))"
proof (cases "get_chat ch s")
  case None
  then show ?thesis using assms(1) by (simp add: post_message_def)
next
  case (Some c)
  then have c: "c \<in> set (chats s)" "c_id c = ch" using get_chat_in by blast+
  show ?thesis
    using assms(1) Some
  proof (cases rule: ensure_branch_cases [where new_id = new_branch and now = now])
    case (failed e)
    then show ?thesis using assms(1) Some by (simp add: post_message_def)
  next
    case (branch b s1 g)
    define s2 where "s2 = snd (create_message ch b input new_id now s1)"
    have post: "snd (post_message ch input new_branch new_id now s) = setMessageCount ch (count_messages ch b s2) now s2"
      using assms(2) Some branch(1) by (auto simp: post_message_def s2_def split: prod.splits sum.splits)
    have same: "r = c" if "r \<in> set (chats s)" "c_id r = ch" for r
      using assms(1) c that by (auto simp: counts_ok_def distinct_map inj_on_def)
    show ?thesis
      unfolding post
    proof (rule counts_ok_others [OF assms(1), of _ ch "\<lambda>r. (g r)\<lparr>c_messageCount := count_messages ch b s2, c_updatedAt := now\<rparr>"])
      show "chats (setMessageCount ch (count_messages ch b s2) now s2)
          = map (\<lambda>r. if c_id r = ch then (g r)\<lparr>c_messageCount := count_messages ch b s2, c_updatedAt := now\<rparr> else r) (chats s)"
        using branch(2,3) by (simp add: s2_def setMessageCount_def update_chats_def create_message_tables(1))
      show "count_messages x br (setMessageCount ch (count_messages ch b s2) now s2) = count_messages x br s"
        if "x \<noteq> ch" for x br
        using that branch(5) by (simp add: s2_def create_message_tables(2))
      show "br \<noteq> [] \<and> c_messageCount ((g r)\<lparr>c_messageCount := count_messages ch b s2, c_updatedAt := now\<rparr>)
          = count_messages ch br (setMessageCount ch (count_messages ch b s2) now s2)"
        if "r \<in> set (chats s)" "c_id r = ch" "c_activeBranchId ((g r)\<lparr>c_messageCount := count_messages ch b s2, c_updatedAt := now\<rparr>) = Some br" for r br
        using same [OF that(1,2)] that(3) branch(4,6) assms(3) by auto
    qed (simp add: branch(3))
  qed
qed

lemma delete_keeps_counts:
  assumes "counts_ok s" and "store_ok G s"
  shows "counts_ok (snd (delete_message_route ch i now s))"
proof (cases "get_chat ch s")
  case None
  then show ?thesis using assms(1) by (simp add: delete_message_route_def)
next
  case (Some c)
  then have c: "c \<in> set (chats s)" "c_id c = ch" using get_chat_in by blast+
  show ?thesis
  proof (cases "message_in_chat ch i s")
    case False
    then show ?thesis using assms(1) Some by (simp add: delete_message_route_def)
  next
    case True
    let ?s1 = "snd (delete_message i s)"
    have same: "r = c" if "r \<in> set (chats s)" "c_id r = ch" for r
      using assms(1) c that by (auto simp: counts_ok_def distinct_map inj_on_def)
    have here: "m_chatId m = ch" if "m \<in> set (messages s)" "m_id m = i" for m
      using True message_of_member [OF store_okD(1) [OF assms(2)] that(1)] that(2) by (simp add: message_in_chat_def)
    have other: "count_messages x br ?s1 = count_messages x br s" if "x \<noteq> ch" for x br
    proof -
      have "filter (\<lambda>m. m_chatId m = x \<and> m_branchId m = br) (filter (\<lambda>m. m_id m \<noteq> i) (messages s))
          = filter (\<lambda>m. m_chatId m = x \<and> m_branchId m = br) (messages s)"
        unfolding filter_filter using here that by (intro filter_cong) auto
      then show ?thesis by (simp add: count_messages_def delete_message_def)
    qed
    let ?f = "\<lambda>r. if falsy (c_activeBranchId c) then r else r\<lparr>c_messageCount := count_messages ch (the (c_activeBranchId c)) ?s1, c_updatedAt := now\<rparr>"
    show ?thesis
    proof (rule counts_ok_others [OF assms(1), of _ ch ?f])
      show "chats (snd (delete_message_route ch i now s)) = map (\<lambda>r. if c_id r = ch then ?f r else r) (chats s)"
        using Some True
        by (cases "falsy (c_activeBranchId c)")
          (simp_all add: delete_message_route_def Let_def setMessageCount_def update_chats_def delete_message_def cong: if_cong)
      show "count_messages x br (snd (delete_message_route ch i now s)) = count_messages x br s"
        if "x \<noteq> ch" for x br
        using Some True other [OF that] by (simp add: delete_message_route_def Let_def)
      show "br \<noteq> [] \<and> c_messageCount (?f r) = count_messages ch br (snd (delete_message_route ch i now s))"
        if "r \<in> set (chats s)" "c_id r = ch" "c_activeBranchId (?f r) = Some br" for r br
      proof -
        have r: "r = c" by (rule same [OF that(1,2)])
        then have b: "c_activeBranchId c = Some br" using that(3) by (simp split: if_splits)
        then have "br \<noteq> []" using assms(1) c(1) by (auto simp: counts_ok_def list_all_iff)
        then show ?thesis using Some True b r by (simp add: delete_message_route_def Let_def falsy_def)
      qed
    qed simp
  qed
qed

text \<open>A posted and a deleted message leave every chat with the number of messages of its active branch as its
  message count.\<close>

theorem message_count_tracks:
  assumes "counts_ok s" and "store_ok G s" and "new_branch \<noteq> []" and "fst (post_message ch input new_branch new_id now s) = Inr m"
  shows "counts_ok (snd (post_message ch input new_branch new_id now s))
    \<and> counts_ok (snd (delete_message_route ch' i now' s))"
  using post_keeps_counts [OF assms(1,4,3)] delete_keeps_counts [OF assms(1,2)] by blast

lemma message_count_tracks_witness:
  "counts_ok (snd (post_message ''c'' demo_create ''nb'' ''m'' 1 demo_db))"
proof -
  have "counts_ok demo_db" by code_simp
  moreover have "case fst (post_message ''c'' demo_create ''nb'' ''m'' 1 demo_db) of Inr m \<Rightarrow> True | _ \<Rightarrow> False" by code_simp
  then obtain m where "fst (post_message ''c'' demo_create ''nb'' ''m'' 1 demo_db) = Inr m" by (auto split: sum.splits)
  ultimately show ?thesis using message_count_tracks [OF _ demo_db_ok, of "''nb''" "''c''" demo_create "''m''" 1 m] by simp
qed

text \<open>The commit of a draft does not: the route takes a draft of any chat, and writes the count of the draft's
  branch within the chat of its own path, which is none.\<close>

theorem foreign_commit_clears_count:
  "let s = snd (post_message ''c'' demo_create ''nb'' ''m'' 1 (demo_db\<lparr>chats := [demo_chat, demo_chat\<lparr>c_id := ''e'', c_activeBranchId := Some ''eb''\<rparr>],
          chatBranches := [\<lparr>br_id = ''b'', br_chatId = ''c'', br_name = ''main'', br_createdAt = 0\<rparr>,
             \<lparr>br_id = ''eb'', br_chatId = ''e'', br_name = ''main'', br_createdAt = 0\<rparr>]\<rparr>));
       s1 = snd (create_draft ''e'' ''eb'' \<lparr>f_role = None, f_name = None, f_meta = None\<rparr> ''d'' 2 s);
       r = commit_route ''c'' ''d'' ''m2'' 3 s1
   in fst r = Inr (''m2'', False) \<and> map c_messageCount (chats s) = [1, 0] \<and> map c_messageCount (chats (snd r)) = [0, 0]"
  by code_simp

text \<open>A reorder that is refused because it names a chat that is not the character's has been carried out all
  the same: the route writes the order before it looks at the invalid ids.\<close>

theorem refused_reorder_applied:
  "let r = reorder_route ''char'' [''x'', ''q''] three_chats
   in fst r = Inl (NotFoundError ''CHAT_NOT_FOUND'')
      \<and> map c_id (live_chats ''char'' three_chats) = [''z'', ''y'', ''x'']
      \<and> map c_id (live_chats ''char'' (snd r)) = [''x'', ''z'', ''y'']"
  by code_simp

end
