(* ===== verification/App_Events.thy ===== *)
theory App_Events
  imports Prelude "HOL-Library.Sublist"
begin

text \<open>
  Application events for plugins: the bounded replay buffer of the frontend runtime
  (\<open>apps/web/src/plugins/runtime.ts\<close>) and the events slice of a plugin session
  (\<open>apps/web/src/plugins/kernel/events.ts\<close>) with its cursors, acknowledgements and the limit on
  deliveries in flight. The clock readings of a handler and the grant of \<open>chats.read.current\<close> are part of the
  event that runs it; an emission is an entry of the log \<open>emitted\<close>.
\<close>

section \<open>The replay buffer\<close>

record event_record =
  er_seq :: nat
  er_ts :: int
  er_payload :: json

definition APP_EVENT_HISTORY_PER_EVENT :: nat where
  "APP_EVENT_HISTORY_PER_EVENT = 128"

definition APP_EVENT_HISTORY_TOTAL :: nat where
  "APP_EVENT_HISTORY_TOTAL = 4096"

definition APP_EVENT_HISTORY_TTL_MS :: int where
  "APP_EVENT_HISTORY_TTL_MS = 60000"

type_synonym buckets = "(string, event_record list) jmap"

record app_history =
  appEventHistory :: buckets
  appEventSeq :: "(string, nat) jmap"
  appEventHistoryOrder :: "(string \<times> nat) list"

definition bucket :: "buckets \<Rightarrow> string \<Rightarrow> event_record list" where
  "bucket m e = (case jm_get m e of None \<Rightarrow> [] | Some rs \<Rightarrow> rs)"

definition seq_of :: "app_history \<Rightarrow> string \<Rightarrow> nat" where
  "seq_of h e = (case jm_get (appEventSeq h) e of None \<Rightarrow> 0 | Some n \<Rightarrow> n)"

fun drop_expired :: "int \<Rightarrow> event_record list \<Rightarrow> event_record list" where
  "drop_expired cutoff [] = []"
| "drop_expired cutoff (r # rs) =
     (if APP_EVENT_HISTORY_PER_EVENT < length (r # rs) \<or> er_ts r < cutoff
      then drop_expired cutoff rs else r # rs)"

fun evict_oldest :: "(string \<times> nat) list \<Rightarrow> buckets \<Rightarrow> (string \<times> nat) list \<times> buckets" where
  "evict_oldest [] m = ([], m)"
| "evict_oldest ((e, q) # os) m =
     (if APP_EVENT_HISTORY_TOTAL < length ((e, q) # os)
      then evict_oldest os (case jm_get m e of
             Some (r # rs) \<Rightarrow> if er_seq r = q then jm_set e rs m else m
           | _ \<Rightarrow> m)
      else ((e, q) # os, m))"

text \<open>\<open>records\<close> is the array of the map when the event has one, so the eviction acts on it too; the array of a
  new event enters the map only at the end. \<open>ts\<close> and \<open>now\<close> are the two readings of the clock.\<close>

definition recordAppEvent :: "string \<Rightarrow> json \<Rightarrow> int \<Rightarrow> int \<Rightarrow> app_history \<Rightarrow> app_history" where
  "recordAppEvent event payload ts now h =
     (let seq = Suc (seq_of h event);
          m = appEventHistory h;
          records = drop_expired (now - APP_EVENT_HISTORY_TTL_MS)
                      (bucket m event @ [\<lparr>er_seq = seq, er_ts = ts, er_payload = payload\<rparr>]);
          (order, m') = evict_oldest (appEventHistoryOrder h @ [(event, seq)])
                          (if jm_has m event then jm_set event records m else m)
      in h\<lparr>appEventHistory := (if jm_has m event then m' else jm_set event records m'),
           appEventSeq := jm_set event seq (appEventSeq h),
           appEventHistoryOrder := order\<rparr>)"

record history_window =
  w_records :: "event_record list"
  w_lowestSeq :: "nat option"
  w_headSeq :: "nat option"

definition kernelAppEventHistoryAfter :: "app_history \<Rightarrow> string \<Rightarrow> nat \<Rightarrow> history_window" where
  "kernelAppEventHistoryAfter h event afterSeq =
     (let records = bucket (appEventHistory h) event
      in \<lparr>w_records = filter (\<lambda>r. afterSeq < er_seq r) records,
          w_lowestSeq = (case records of [] \<Rightarrow> None | r # _ \<Rightarrow> Some (er_seq r)),
          w_headSeq = (if records = [] then None else Some (er_seq (last records)))\<rparr>)"

section \<open>The events slice of a session\<close>

definition MAX_EVENT_NAME_LENGTH :: nat where
  "MAX_EVENT_NAME_LENGTH = 200"

definition DEFAULT_MAX_IN_FLIGHT :: nat where
  "DEFAULT_MAX_IN_FLIGHT = 64"

definition MAX_IN_FLIGHT_LIMIT :: nat where
  "MAX_IN_FLIGHT_LIMIT = 256"

definition BROWSER_APP_EVENTS :: "string list" where
  "BROWSER_APP_EVENTS =
     [''chat.created'', ''chat.opened'', ''chat.message.created'', ''chat.message.updated'',
      ''chat.message.deleted'', ''character.selected'', ''generation.started'', ''generation.delta'',
      ''generation.finished'', ''generation.error'']"

definition ALLOWED_EVENTS :: "string list" where
  "ALLOWED_EVENTS = BROWSER_APP_EVENTS @
     [''plugin.capability.revoked'', ''plugin.job.due'', ''plugin.chat.updated'', ''plugin.chat.message'',
      ''plugin.auth.connected'', ''plugin.auth.revoked'', ''plugin.auth.expired'', ''chat.message.block.changed'']"

definition CHAT_CONTENT_EVENTS :: "string list" where
  "CHAT_CONTENT_EVENTS =
     [''generation.started'', ''generation.delta'', ''generation.finished'', ''generation.error'',
      ''chat.message.created'', ''chat.message.updated'', ''chat.message.deleted'']"

record subscription =
  s_event :: string
  lastDeliveredSeq :: nat
  in_flight :: "nat list"
  maxInFlight :: nat
  paused :: bool

text \<open>\<open>relays\<close> holds the events the slice listens to, \<open>chats_granted\<close> whether the session has the capability
  \<open>chats.read.current\<close>.\<close>

record slice =
  history :: app_history
  relays :: "string list"
  subscriptions :: "(string, subscription) jmap"
  chats_granted :: bool
  emitted :: "(string \<times> json \<times> string) list"

definition fresh_slice :: slice where
  "fresh_slice = \<lparr>history = \<lparr>appEventHistory = [], appEventSeq = [], appEventHistoryOrder = []\<rparr>, relays = [],
     subscriptions = [], chats_granted = False, emitted = []\<rparr>"

definition cursorOf :: "string \<Rightarrow> nat \<Rightarrow> string" where
  "cursorOf event seq = event @ '':'' @ digits_of_nat seq"

definition parseCursor :: "string \<Rightarrow> json \<Rightarrow> nat option" where
  "parseCursor event cursor =
     (case cursor of
        JString c \<Rightarrow>
          (if \<not> startsWith c (event @ '':'') then None
           else (let t = drop (length (event @ '':'')) c
                 in if t = [] \<or> \<not> list_all is_digit t then None
                    else if int (nat_of_digits t) \<le> MAX_SAFE_INTEGER then Some (nat_of_digits t) else None))
      | _ \<Rightarrow> None)"

fun deliver_records :: "event_record list \<Rightarrow> subscription \<Rightarrow> subscription \<times> event_record list" where
  "deliver_records [] sub = (sub, [])"
| "deliver_records (r # rs) sub =
     (if maxInFlight sub \<le> length (in_flight sub) then (sub\<lparr>paused := True\<rparr>, [])
      else if er_seq r \<in> set (in_flight sub) then deliver_records rs sub
      else (let (sub', out) = deliver_records rs
                   (sub\<lparr>lastDeliveredSeq := er_seq r, in_flight := in_flight sub @ [er_seq r]\<rparr>)
            in (sub', r # out)))"

definition deliver :: "string \<Rightarrow> slice \<Rightarrow> slice" where
  "deliver event s =
     (case jm_get (subscriptions s) event of
        None \<Rightarrow> s
      | Some sub \<Rightarrow>
          (if paused sub then s
           else (let w = kernelAppEventHistoryAfter (history s) (s_event sub) (lastDeliveredSeq sub);
                     (sub', out) = deliver_records (w_records w) sub
                 in s\<lparr>subscriptions := jm_set event sub' (subscriptions s),
                      emitted := emitted s
                        @ map (\<lambda>r. (s_event sub, er_payload r, cursorOf (s_event sub) (er_seq r))) out\<rparr>)))"

definition content_denied :: "string \<Rightarrow> slice \<Rightarrow> bool" where
  "content_denied event s = (event \<in> set CHAT_CONTENT_EVENTS \<and> \<not> chats_granted s)"

definition dispatchAppEvent :: "string \<Rightarrow> json \<Rightarrow> int \<Rightarrow> int \<Rightarrow> slice \<Rightarrow> slice" where
  "dispatchAppEvent event payload ts now s =
     (let s' = s\<lparr>history := recordAppEvent event payload ts now (history s)\<rparr>
      in if event \<notin> set (relays s') then s'
         else if content_denied event s' then s'
         else deliver event s')"

datatype events_error =
  EventValidation string | EventCapabilityDenied string | EventCursorExpired nat

definition add_relay :: "string \<Rightarrow> slice \<Rightarrow> slice" where
  "add_relay event s = (if event \<in> set (relays s) then s else s\<lparr>relays := relays s @ [event]\<rparr>)"

definition max_in_flight_param :: "json \<Rightarrow> events_error + nat" where
  "max_in_flight_param params =
     (case json_field params ''maxInFlight'' of
        None \<Rightarrow> Inr DEFAULT_MAX_IN_FLIGHT
      | Some (JNum v) \<Rightarrow>
          (if of_int \<lfloor>v\<rfloor> \<noteq> v \<or> v < 1 then Inl (EventValidation ''invalid-max-in-flight'')
           else Inr (min (nat \<lfloor>v\<rfloor>) MAX_IN_FLIGHT_LIMIT))
      | Some _ \<Rightarrow> Inl (EventValidation ''invalid-max-in-flight''))"

definition subscription_at :: "string \<Rightarrow> nat \<Rightarrow> nat \<Rightarrow> subscription" where
  "subscription_at event seq n =
     \<lparr>s_event = event, lastDeliveredSeq = seq, in_flight = [], maxInFlight = n, paused = False\<rparr>"

definition resume_at :: "string \<Rightarrow> json \<Rightarrow> nat \<Rightarrow> slice \<Rightarrow> events_error + subscription" where
  "resume_at event cursor n s =
     (case parseCursor event cursor of
        None \<Rightarrow> Inl (EventValidation ''invalid-cursor'')
      | Some seq \<Rightarrow>
          (let w = kernelAppEventHistoryAfter (history s) event seq
           in if (case w_headSeq w of None \<Rightarrow> False | Some hi \<Rightarrow> hi < seq) then Inl (EventValidation ''future-cursor'')
              else (case w_lowestSeq w of
                      Some lo \<Rightarrow> if int seq < int lo - 1 then Inl (EventCursorExpired lo)
                                 else Inr (subscription_at event seq n)
                    | None \<Rightarrow> Inr (subscription_at event seq n))))"

definition events_subscribe :: "json \<Rightarrow> slice \<Rightarrow> events_error option \<times> slice" where
  "events_subscribe params s =
     (case json_field params ''event'' of
        Some (JString event) \<Rightarrow>
          (if event = [] \<or> MAX_EVENT_NAME_LENGTH < length event then (Some (EventValidation ''invalid-event-name''), s)
           else if event \<notin> set ALLOWED_EVENTS then (Some (EventValidation ''event-not-allowed''), s)
           else if content_denied event s then (Some (EventCapabilityDenied ''chats.read.current''), s)
           else (case max_in_flight_param params of
               Inl err \<Rightarrow> (Some err, s)
             | Inr n \<Rightarrow>
               (case (case json_field params ''cursor'' of
                   Some cursor \<Rightarrow> map_sum id (\<lambda>sub. jm_set event sub (subscriptions s)) (resume_at event cursor n s)
                 | None \<Rightarrow>
                   (if jm_has (subscriptions s) event then Inr (subscriptions s)
                    else (let head = (case w_headSeq (kernelAppEventHistoryAfter (history s) event 0) of
                                      None \<Rightarrow> 0 | Some q \<Rightarrow> q)
                          in Inr (jm_set event (subscription_at event head n) (subscriptions s)))))
                of Inl err \<Rightarrow> (Some err, s)
                 | Inr subs \<Rightarrow> (None, deliver event (add_relay event (s\<lparr>subscriptions := subs\<rparr>))))))
      | _ \<Rightarrow> (Some (EventValidation ''invalid-event-name''), s))"

definition events_ack :: "json \<Rightarrow> slice \<Rightarrow> slice" where
  "events_ack params s =
     (case (json_field params ''event'', json_field params ''sequence'') of
        (Some (JString event), Some (JNum sequence)) \<Rightarrow>
          (case jm_get (subscriptions s) event of
             None \<Rightarrow> s
           | Some sub \<Rightarrow>
               (case find (\<lambda>q. of_nat q = sequence) (in_flight sub) of
                  None \<Rightarrow> s
                | Some q \<Rightarrow>
                    (let sub1 = sub\<lparr>in_flight := filter (\<lambda>q'. q' \<noteq> q) (in_flight sub)\<rparr>
                     in if paused sub1 \<and> length (in_flight sub1) < maxInFlight sub1
                        then deliver event (s\<lparr>subscriptions := jm_set event (sub1\<lparr>paused := False\<rparr>) (subscriptions s)\<rparr>)
                        else s\<lparr>subscriptions := jm_set event sub1 (subscriptions s)\<rparr>)))
      | _ \<Rightarrow> s)"

definition removeSubscription :: "string \<Rightarrow> slice \<Rightarrow> slice" where
  "removeSubscription event s =
     s\<lparr>subscriptions := jm_delete event (subscriptions s), relays := removeAll event (relays s)\<rparr>"

definition events_unsubscribe :: "json \<Rightarrow> slice \<Rightarrow> slice" where
  "events_unsubscribe params s =
     (case json_field params ''event'' of
        Some (JString event) \<Rightarrow> removeSubscription event s
      | _ \<Rightarrow> s)"

text \<open>What happens to a session: an application event arrives over the event stream, the plugin calls one of
  the three methods, or its grant changes.\<close>

datatype slice_event =
  AppEvent string json int int | Subscribe json | Ack json | Unsubscribe json | SetGrant bool

fun slice_step :: "slice_event \<Rightarrow> slice \<Rightarrow> slice" where
  "slice_step (AppEvent event payload ts now) s = dispatchAppEvent event payload ts now s"
| "slice_step (Subscribe params) s = snd (events_subscribe params s)"
| "slice_step (Ack params) s = events_ack params s"
| "slice_step (Unsubscribe params) s = events_unsubscribe params s"
| "slice_step (SetGrant b) s = s\<lparr>chats_granted := b\<rparr>"

section \<open>What the buffer retains\<close>

lemma bucket_set [simp]: "bucket (jm_set e rs m) e' = (if e' = e then rs else bucket m e')"
  by (simp add: bucket_def)

lemma bucket_Nil [simp]: "bucket [] e = []"
  by (simp add: bucket_def)

lemma drop_expired_suffix: "suffix (drop_expired c rs) rs"
  by (induction c rs rule: drop_expired.induct) (auto intro: suffix_ConsI)

lemma drop_expired_bound: "length (drop_expired c rs) \<le> APP_EVENT_HISTORY_PER_EVENT"
  by (induction c rs rule: drop_expired.induct) auto

definition shift_evicted :: "string \<Rightarrow> nat \<Rightarrow> buckets \<Rightarrow> buckets" where
  "shift_evicted e q m = (case jm_get m e of
     Some (r # rs) \<Rightarrow> if er_seq r = q then jm_set e rs m else m | _ \<Rightarrow> m)"

lemma evict_oldest_Cons:
  "evict_oldest ((e, q) # os) m =
     (if APP_EVENT_HISTORY_TOTAL < length ((e, q) # os) then evict_oldest os (shift_evicted e q m)
      else ((e, q) # os, m))"
  by (simp add: shift_evicted_def)

lemmas evict_oldest_step = evict_oldest.simps(1) evict_oldest_Cons

lemma bucket_shift_evicted:
  "bucket (shift_evicted e q m) e' =
     (if e' = e \<and> bucket m e \<noteq> [] \<and> er_seq (hd (bucket m e)) = q then tl (bucket m e) else bucket m e')"
  by (auto simp: shift_evicted_def bucket_def split: option.splits list.splits)

lemma keys_shift_evicted [simp]: "jm_keys (shift_evicted e q m) = jm_keys m"
proof -
  have "e \<in> set (jm_keys m)" if "jm_get m e = Some rs" for rs
    using jm_get_None_iff [of m e] that by auto
  then show ?thesis by (auto simp: shift_evicted_def jm_keys_set simp del: set_map split: option.splits list.splits)
qed

lemma evict_order: "fst (evict_oldest os m) = drop (length os - APP_EVENT_HISTORY_TOTAL) os"
  by (induction os m rule: evict_oldest.induct) (auto simp: Suc_diff_le)

lemma evict_suffix: "suffix (bucket (snd (evict_oldest os m)) e) (bucket m e)"
proof (induction os m rule: evict_oldest.induct)
  case (1 m)
  then show ?case by simp
next
  case (2 e' q os m)
  have "suffix (bucket (shift_evicted e' q m) e) (bucket m e)"
    by (cases "bucket m e") (auto simp: bucket_shift_evicted suffix_ConsI)
  with 2 show ?case
    by (auto simp: evict_oldest_Cons simp flip: shift_evicted_def simp del: evict_oldest.simps
        intro: suffix_order.order_trans)
qed

lemma evict_keys: "jm_keys (snd (evict_oldest os m)) = jm_keys m"
proof (induction os m rule: evict_oldest.induct)
  case (2 e' q os m)
  then show ?case
    using keys_shift_evicted [of e' q m] by (simp add: evict_oldest_Cons flip: shift_evicted_def del: evict_oldest.simps)
qed simp

text \<open>The global order lists the sequence numbers of one event in increasing order and covers what is
  retained.\<close>

definition in_order :: "(string \<times> nat) list \<Rightarrow> bool" where
  "in_order os = sorted_wrt (\<lambda>x y. fst x = fst y \<longrightarrow> snd x < snd y) os"

definition covers :: "(string \<times> nat) list \<Rightarrow> buckets \<Rightarrow> bool" where
  "covers os m = (\<forall>e. \<forall>r \<in> set (bucket m e). (e, er_seq r) \<in> set os)"

definition ascending :: "buckets \<Rightarrow> bool" where
  "ascending m = (\<forall>e. sorted_wrt (\<lambda>a b. er_seq a < er_seq b) (bucket m e))"

lemma evict_covers:
  assumes "in_order os" and "covers os m" and "ascending m"
  shows "covers (fst (evict_oldest os m)) (snd (evict_oldest os m))"
  using assms
proof (induction os m rule: evict_oldest.induct)
  case (1 m)
  then show ?case by simp
next
  case (2 e q os m)
  let ?m = "shift_evicted e q m"
  have gone: "er_seq r \<noteq> q" if "r \<in> set (bucket ?m e)" for r
  proof
    assume q: "er_seq r = q"
    show False
    proof (cases "bucket m e")
      case Nil
      with that show False by (simp add: bucket_shift_evicted split: if_splits)
    next
      case (Cons a as)
      from 2(4) Cons have asc: "\<forall>b \<in> set as. er_seq a < er_seq b" by (auto simp: ascending_def dest: spec [of _ e])
      from Cons have "a \<in> set (bucket m e)" by simp
      with 2(3) have "(e, er_seq a) \<in> set ((e, q) # os)" unfolding covers_def by blast
      with 2(2) have "q \<le> er_seq a" by (auto simp: in_order_def)
      moreover from that Cons q asc have "er_seq a < q \<or> er_seq a = q \<and> r \<in> set as \<or> er_seq a = q \<and> er_seq a \<noteq> q"
        by (auto simp: bucket_shift_evicted split: if_splits)
      ultimately show False using asc q by auto
    qed
  qed
  have cov: "covers os ?m"
    unfolding covers_def
  proof (intro allI ballI)
    fix e' r assume r: "r \<in> set (bucket ?m e')"
    then have "r \<in> set (bucket m e')"
      by (auto simp: bucket_shift_evicted split: if_splits dest: list.set_sel(2))
    with 2(3) have "(e', er_seq r) \<in> set ((e, q) # os)" by (auto simp: covers_def)
    with gone r show "(e', er_seq r) \<in> set os" by auto
  qed
  have "sorted_wrt (\<lambda>a b. er_seq a < er_seq b) (tl (bucket m e))"
    using 2(4) by (cases "bucket m e") (auto simp: ascending_def dest: spec [of _ e])
  then have asc: "ascending ?m" using 2(4) by (simp add: ascending_def bucket_shift_evicted)
  from 2(2) have "in_order os" by (simp add: in_order_def)
  with 2 cov asc show ?case
    by (simp add: evict_oldest_Cons flip: shift_evicted_def del: evict_oldest.simps)
qed

text \<open>With \<open>L\<close> the application events dispatched so far: the sequence number of an event counts its
  occurrences, its bucket holds the latest of them, and the two caps hold.\<close>

definition named :: "string \<Rightarrow> (string \<times> json) list \<Rightarrow> json list" where
  "named e L = map snd (filter (\<lambda>x. fst x = e) L)"

definition retained :: "buckets \<Rightarrow> string \<Rightarrow> (nat \<times> json) list" where
  "retained m e = map (\<lambda>r. (er_seq r, er_payload r)) (bucket m e)"

definition history_ok :: "(string \<times> json) list \<Rightarrow> app_history \<Rightarrow> bool" where
  "history_ok L h \<longleftrightarrow>
     (\<forall>e. seq_of h e = length (named e L)) \<and>
     (\<forall>e. suffix (retained (appEventHistory h) e) (enumerate 1 (named e L))) \<and>
     (\<forall>e. length (bucket (appEventHistory h) e) \<le> APP_EVENT_HISTORY_PER_EVENT) \<and>
     covers (appEventHistoryOrder h) (appEventHistory h) \<and>
     in_order (appEventHistoryOrder h) \<and>
     length (appEventHistoryOrder h) \<le> APP_EVENT_HISTORY_TOTAL \<and>
     (\<forall>x \<in> set (appEventHistoryOrder h). snd x \<le> length (named (fst x) L))"

lemma named_snoc: "named e (L @ [(e', p)]) = (if e' = e then named e L @ [p] else named e L)"
  by (simp add: named_def)

lemma suffix_enumerate_ascending:
  assumes "suffix (retained m e) (enumerate 1 (named e L))"
  shows "sorted_wrt (\<lambda>a b. er_seq a < er_seq b) (bucket m e)"
proof -
  have "sorted_wrt (<) (map fst (enumerate 1 (named e L)))" by (simp add: enumerate_eq_zip del: upt_Suc)
  moreover from assms obtain k where "enumerate 1 (named e L) = k @ retained m e" by (auto simp: suffix_def)
  ultimately have "sorted_wrt (<) (map fst (retained m e))" by (metis map_append sorted_wrt_append)
  then show ?thesis by (simp add: retained_def comp_def sorted_wrt_map)
qed

lemma history_ascending: "history_ok L h \<Longrightarrow> ascending (appEventHistory h)"
  unfolding history_ok_def ascending_def using suffix_enumerate_ascending by blast

lemma suffix_snoc: "suffix xs ys \<Longrightarrow> suffix (xs @ [x]) (ys @ [x])"
  by (auto simp: suffix_def)

lemma suffix_retained: "suffix (bucket m' e) (bucket m e) \<Longrightarrow> suffix (retained m' e) (retained m e)"
  by (auto simp: retained_def suffix_def)

lemma suffix_map: "suffix xs ys \<Longrightarrow> suffix (map f xs) (map f ys)"
  by (auto simp: suffix_def)

lemma suffix_sorted_wrt: "suffix xs ys \<Longrightarrow> sorted_wrt R ys \<Longrightarrow> sorted_wrt R xs"
  by (auto simp: suffix_def sorted_wrt_append)

lemma in_order_snoc: "in_order (os @ [(e, q)]) \<longleftrightarrow> in_order os \<and> (\<forall>x \<in> set os. fst x = e \<longrightarrow> snd x < q)"
  by (auto simp: in_order_def sorted_wrt_append)

lemma in_order_drop: "in_order os \<Longrightarrow> in_order (drop k os)"
  unfolding in_order_def by (rule sorted_wrt_drop)

text \<open>The state after a recording, with the eviction acting on the map that already holds the array.\<close>

lemma record_bucket:
  fixes h :: app_history and e :: string and p :: json and ts now :: int
  defines "rs \<equiv> drop_expired (now - APP_EVENT_HISTORY_TTL_MS)
             (bucket (appEventHistory h) e @ [\<lparr>er_seq = Suc (seq_of h e), er_ts = ts, er_payload = p\<rparr>])"
    and "os \<equiv> appEventHistoryOrder h @ [(e, Suc (seq_of h e))]"
    and "m \<equiv> appEventHistory h"
  shows "appEventHistory (recordAppEvent e p ts now h)
           = (if jm_has m e then snd (evict_oldest os (jm_set e rs m)) else jm_set e rs (snd (evict_oldest os m)))"
    and "appEventHistoryOrder (recordAppEvent e p ts now h) = drop (length os - APP_EVENT_HISTORY_TOTAL) os"
    and "appEventSeq (recordAppEvent e p ts now h) = jm_set e (Suc (seq_of h e)) (appEventSeq h)"
  unfolding rs_def os_def m_def recordAppEvent_def
  by (simp_all add: Let_def case_prod_beta evict_order del: evict_oldest.simps drop_append length_append)

lemma record_seq:
  "seq_of (recordAppEvent e p ts now h) e' = (if e' = e then Suc (seq_of h e) else seq_of h e')"
  by (simp add: seq_of_def [of "recordAppEvent e p ts now h"] record_bucket(3)) (simp add: seq_of_def)

lemma record_suffix:
  assumes ok: "history_ok L h"
  shows "suffix (retained (appEventHistory (recordAppEvent e p ts now h)) e') (enumerate 1 (named e' (L @ [(e, p)])))"
proof -
  define r where "r = \<lparr>er_seq = Suc (seq_of h e), er_ts = ts, er_payload = p\<rparr>"
  define rs where "rs = drop_expired (now - APP_EVENT_HISTORY_TTL_MS) (bucket (appEventHistory h) e @ [r])"
  define os where "os = appEventHistoryOrder h @ [(e, Suc (seq_of h e))]"
  have "suffix (map (\<lambda>r. (er_seq r, er_payload r)) rs) (retained (appEventHistory h) e @ [(Suc (seq_of h e), p)])"
    using suffix_map [OF drop_expired_suffix [of "now - APP_EVENT_HISTORY_TTL_MS" "bucket (appEventHistory h) e @ [r]"],
        of "\<lambda>r. (er_seq r, er_payload r)"]
    by (simp add: rs_def r_def retained_def)
  moreover have "suffix (retained (appEventHistory h) e @ [(Suc (seq_of h e), p)]) (enumerate 1 (named e L @ [p]))"
    using ok by (simp add: history_ok_def enumerate_append_eq suffix_snoc)
  ultimately have new: "suffix (map (\<lambda>r. (er_seq r, er_payload r)) rs) (enumerate 1 (named e L @ [p]))"
    by (rule suffix_order.order_trans)
  have old: "suffix (retained (appEventHistory h) e') (enumerate 1 (named e' L))"
    using ok by (simp add: history_ok_def)
  note buckets = record_bucket(1) [of e p ts now h, folded r_def, folded rs_def os_def]
  show ?thesis
  proof (cases "jm_has (appEventHistory h) e")
    case True
    have "suffix (retained (snd (evict_oldest os (jm_set e rs (appEventHistory h)))) e')
      (retained (jm_set e rs (appEventHistory h)) e')"
      by (rule suffix_retained) (rule evict_suffix)
    with new old True show ?thesis
      by (auto simp: buckets named_snoc retained_def intro: suffix_order.order_trans)
  next
    case False
    have "suffix (retained (snd (evict_oldest os (appEventHistory h))) e') (retained (appEventHistory h) e')"
      by (rule suffix_retained) (rule evict_suffix)
    with new old False show ?thesis
      by (auto simp: buckets named_snoc retained_def intro: suffix_order.order_trans)
  qed
qed

lemma bucket_absent: "\<not> jm_has m e \<Longrightarrow> bucket m e = []"
  using jm_get_None_iff [of m e] by (simp add: bucket_def)

lemma record_bound:
  assumes "history_ok L h"
  shows "length (bucket (appEventHistory (recordAppEvent e p ts now h)) e') \<le> APP_EVENT_HISTORY_PER_EVENT"
proof -
  let ?m = "appEventHistory h" and ?os = "appEventHistoryOrder h @ [(e, Suc (seq_of h e))]"
  let ?rs = "drop_expired (now - APP_EVENT_HISTORY_TTL_MS)
    (bucket ?m e @ [\<lparr>er_seq = Suc (seq_of h e), er_ts = ts, er_payload = p\<rparr>])"
  have "length (bucket (snd (evict_oldest ?os (jm_set e ?rs ?m))) e') \<le> APP_EVENT_HISTORY_PER_EVENT"
    using suffix_length_le [OF evict_suffix [of ?os "jm_set e ?rs ?m" e']]
      drop_expired_bound [of "now - APP_EVENT_HISTORY_TTL_MS"] assms
    by (fastforce simp: history_ok_def split: if_splits intro: le_trans)
  moreover have "length (bucket (snd (evict_oldest ?os ?m)) e') \<le> APP_EVENT_HISTORY_PER_EVENT"
    using suffix_length_le [OF evict_suffix [of ?os ?m e']] assms by (fastforce simp: history_ok_def intro: le_trans)
  ultimately show ?thesis
    using drop_expired_bound by (simp add: record_bucket(1))
qed

lemma record_in_order:
  assumes "history_ok L h"
  shows "in_order (appEventHistoryOrder h @ [(e, Suc (seq_of h e))])"
  using assms by (auto simp: history_ok_def in_order_snoc)

lemma record_covers:
  assumes ok: "history_ok L h"
  shows "covers (appEventHistoryOrder (recordAppEvent e p ts now h)) (appEventHistory (recordAppEvent e p ts now h))"
proof -
  let ?m = "appEventHistory h" and ?os = "appEventHistoryOrder h @ [(e, Suc (seq_of h e))]"
  let ?r = "\<lparr>er_seq = Suc (seq_of h e), er_ts = ts, er_payload = p\<rparr>"
  let ?rs = "drop_expired (now - APP_EVENT_HISTORY_TTL_MS) (bucket ?m e @ [?r])"
  note order = record_in_order [OF ok, of e]
  have cov: "covers (appEventHistoryOrder h) ?m" using ok by (simp add: history_ok_def)
  have asc: "ascending ?m" using ok by (rule history_ascending)
  have rs: "suffix ?rs (bucket ?m e @ [?r])" by (rule drop_expired_suffix)
  then have mem: "r = ?r \<or> r \<in> set (bucket ?m e)" if "r \<in> set ?rs" for r
    using that set_mono_suffix [OF rs] by auto
  show ?thesis
  proof (cases "jm_has ?m e")
    case True
    have "covers ?os (jm_set e ?rs ?m)"
      using cov mem by (fastforce simp: covers_def)
    moreover have "sorted_wrt (\<lambda>a b. er_seq a < er_seq b) (bucket ?m e @ [?r])"
      using asc cov ok by (fastforce simp: sorted_wrt_append ascending_def covers_def history_ok_def)
    then have "sorted_wrt (\<lambda>a b. er_seq a < er_seq b) ?rs"
      using rs by (rule suffix_sorted_wrt [rotated])
    then have "ascending (jm_set e ?rs ?m)" using asc by (simp add: ascending_def)
    ultimately show ?thesis
      using evict_covers [OF order] True by (simp add: record_bucket evict_order)
  next
    case False
    define kept where "kept = drop (length ?os - APP_EVENT_HISTORY_TOTAL) ?os"
    have "covers ?os ?m" using cov by (auto simp: covers_def)
    then have old: "covers kept (snd (evict_oldest ?os ?m))"
      using evict_covers [OF order _ asc] by (simp add: evict_order kept_def)
    have "(e, Suc (seq_of h e)) \<in> set kept"
      by (simp add: kept_def APP_EVENT_HISTORY_TOTAL_def)
    moreover have "r = ?r" if "r \<in> set ?rs" for r
      using mem [OF that] bucket_absent [OF False] by simp
    ultimately have "\<forall>r \<in> set ?rs. (e, er_seq r) \<in> set kept" by fastforce
    with old have "covers kept (jm_set e ?rs (snd (evict_oldest ?os ?m)))" by (simp add: covers_def)
    with False show ?thesis
      unfolding record_bucket by (simp only: if_False kept_def)
  qed
qed

lemma record_history_ok:
  assumes ok: "history_ok L h"
  shows "history_ok (L @ [(e, p)]) (recordAppEvent e p ts now h)"
proof -
  have order: "in_order (appEventHistoryOrder (recordAppEvent e p ts now h))"
    using in_order_drop [OF record_in_order [OF ok, of e]] by (simp only: record_bucket(2))
  have "\<forall>x \<in> set (appEventHistoryOrder (recordAppEvent e p ts now h)). snd x \<le> length (named (fst x) (L @ [(e, p)]))"
    using ok by (auto simp: record_bucket(2) history_ok_def named_snoc dest!: in_set_dropD)
  with order show ?thesis
    using ok record_suffix [OF ok] record_bound [OF ok] record_covers [OF ok]
    unfolding history_ok_def
    by (auto simp: record_seq named_snoc record_bucket(2))
qed

section \<open>Deliveries of a subscription\<close>

text \<open>A delivery takes as many of the records as the limit leaves room for; when some are left over the
  subscription is paused.\<close>

definition room :: "subscription \<Rightarrow> nat" where
  "room sub = maxInFlight sub - length (in_flight sub)"

lemma deliver_records_eq:
  assumes "list_all (\<lambda>r. er_seq r \<notin> set (in_flight sub)) rs" and "distinct (map er_seq rs)"
  shows "deliver_records rs sub =
    (sub\<lparr>lastDeliveredSeq := last (lastDeliveredSeq sub # map er_seq (take (room sub) rs)),
         in_flight := in_flight sub @ map er_seq (take (room sub) rs),
         paused := (paused sub \<or> room sub < length rs)\<rparr>, take (room sub) rs)"
  using assms
proof (induction rs arbitrary: sub)
  case Nil
  then show ?case by simp
next
  case (Cons r rs)
  show ?case
  proof (cases "room sub")
    case 0
    then show ?thesis by (simp add: room_def)
  next
    case (Suc k)
    let ?sub = "sub\<lparr>lastDeliveredSeq := er_seq r, in_flight := in_flight sub @ [er_seq r]\<rparr>"
    have "list_all (\<lambda>r. er_seq r \<notin> set (in_flight ?sub)) rs"
      using Cons.prems by (auto simp: list_all_iff) (metis image_eqI)
    then have "deliver_records rs ?sub = (?sub\<lparr>
        lastDeliveredSeq := last (lastDeliveredSeq ?sub # map er_seq (take (room ?sub) rs)),
        in_flight := in_flight ?sub @ map er_seq (take (room ?sub) rs),
        paused := (paused ?sub \<or> room ?sub < length rs)\<rparr>, take (room ?sub) rs)"
      using Cons.prems by (intro Cons.IH) auto
    moreover have "room ?sub = k" using Suc by (simp add: room_def)
    moreover have "\<not> maxInFlight sub \<le> length (in_flight sub)" using Suc by (simp add: room_def)
    ultimately show ?thesis using Cons.prems Suc by (simp add: Let_def)
  qed
qed

text \<open>What holds of every subscription: its unacknowledged deliveries stay within its limit, which is at most
  256, and it is paused only while the limit is used up.\<close>

definition sub_ok :: "string \<Rightarrow> subscription \<Rightarrow> bool" where
  "sub_ok e sub \<longleftrightarrow> s_event sub = e \<and> distinct (in_flight sub) \<and> (\<forall>q \<in> set (in_flight sub). q \<le> lastDeliveredSeq sub) \<and>
     length (in_flight sub) \<le> maxInFlight sub \<and> 0 < maxInFlight sub \<and> maxInFlight sub \<le> MAX_IN_FLIGHT_LIMIT \<and>
     (paused sub \<longrightarrow> length (in_flight sub) = maxInFlight sub)"

definition slice_ok :: "(string \<times> json) list \<Rightarrow> slice \<Rightarrow> bool" where
  "slice_ok L s \<longleftrightarrow> history_ok L (history s) \<and> (\<forall>e sub. jm_get (subscriptions s) e = Some sub \<longrightarrow> sub_ok e sub)"

text \<open>The records after the last delivered one, in the order they were recorded.\<close>

definition undelivered :: "slice \<Rightarrow> subscription \<Rightarrow> event_record list" where
  "undelivered s sub = filter (\<lambda>r. lastDeliveredSeq sub < er_seq r) (bucket (appEventHistory (history s)) (s_event sub))"

definition after_delivery :: "slice \<Rightarrow> subscription \<Rightarrow> subscription" where
  "after_delivery s sub =
     (let out = take (room sub) (undelivered s sub)
      in sub\<lparr>lastDeliveredSeq := last (lastDeliveredSeq sub # map er_seq out),
             in_flight := in_flight sub @ map er_seq out,
             paused := (room sub < length (undelivered s sub))\<rparr>)"

definition emission :: "string \<Rightarrow> event_record \<Rightarrow> string \<times> json \<times> string" where
  "emission e r = (e, er_payload r, cursorOf e (er_seq r))"

lemma undelivered_ascending:
  assumes "slice_ok L s"
  shows "sorted_wrt (\<lambda>a b. er_seq a < er_seq b) (undelivered s sub)"
  using history_ascending [of L "history s"] assms
  by (auto simp: slice_ok_def undelivered_def ascending_def intro: sorted_wrt_filter)

lemma sorted_wrt_distinct_map: "sorted_wrt (\<lambda>a b. f a < (f b :: nat)) xs \<Longrightarrow> distinct (map f xs)"
  by (induction xs) auto

lemma deliver_eq:
  assumes ok: "slice_ok L s" and sub: "jm_get (subscriptions s) e = Some sub" and "\<not> paused sub"
  shows "deliver e s = s\<lparr>subscriptions := jm_set e (after_delivery s sub) (subscriptions s),
     emitted := emitted s @ map (emission e) (take (room sub) (undelivered s sub))\<rparr>"
proof -
  have so: "sub_ok e sub" using ok sub by (simp add: slice_ok_def)
  have "list_all (\<lambda>r. er_seq r \<notin> set (in_flight sub)) (undelivered s sub)"
    using so by (force simp: list_all_iff undelivered_def sub_ok_def)
  then have "deliver_records (undelivered s sub) sub = (after_delivery s sub, take (room sub) (undelivered s sub))"
    using deliver_records_eq sorted_wrt_distinct_map [OF undelivered_ascending [OF ok]] assms(3)
    by (simp add: after_delivery_def Let_def)
  with so assms(3) sub show ?thesis
    by (simp add: deliver_def kernelAppEventHistoryAfter_def Let_def sub_ok_def undelivered_def)
       (simp add: emission_def [abs_def])
qed

lemma deliver_idle: "jm_get (subscriptions s) e = None \<or> (\<exists>sub. jm_get (subscriptions s) e = Some sub \<and> paused sub)
    \<Longrightarrow> deliver e s = s"
  by (auto simp: deliver_def)

lemma last_ascending:
  "sorted_wrt (<) (x # xs) \<Longrightarrow> y \<in> set (x # xs) \<Longrightarrow> y \<le> (last (x # xs) :: nat)"
proof (induction xs arbitrary: x y)
  case Nil
  then show ?case by simp
next
  case (Cons a xs)
  then have "a \<le> last (a # xs)" and "y \<in> set (a # xs) \<Longrightarrow> y \<le> last (a # xs)" and "x < a" by auto
  with Cons.prems(2) show ?case by (cases "y = x") auto
qed

lemma undelivered_seqs:
  assumes "slice_ok L s"
  shows "sorted_wrt (<) (lastDeliveredSeq sub # map er_seq (take n (undelivered s sub)))"
proof -
  have "sorted_wrt (<) (map er_seq (undelivered s sub))"
    using undelivered_ascending [OF assms] by (simp add: sorted_wrt_map)
  moreover have "\<forall>r \<in> set (undelivered s sub). lastDeliveredSeq sub < er_seq r" by (simp add: undelivered_def)
  ultimately show ?thesis
    by (auto simp: take_map [symmetric] sorted_wrt_take dest!: in_set_takeD)
qed

lemma after_delivery_ok:
  assumes "slice_ok L s" and "sub_ok e sub" and "\<not> paused sub"
  shows "sub_ok e (after_delivery s sub)"
proof -
  let ?new = "map er_seq (take (room sub) (undelivered s sub))"
  note asc = undelivered_seqs [OF assms(1), of sub "room sub"]
  have upto: "q \<le> last (lastDeliveredSeq sub # ?new)" if "q \<le> lastDeliveredSeq sub \<or> q \<in> set ?new" for q
    using last_ascending [OF asc, of q] last_ascending [OF asc, of "lastDeliveredSeq sub"] that by fastforce
  have "distinct (in_flight sub @ ?new)"
    using asc assms(2) by (fastforce simp: sub_ok_def strict_sorted_iff)
  moreover have "length (in_flight sub @ ?new) \<le> maxInFlight sub"
    using assms(2) by (auto simp: sub_ok_def room_def)
  moreover have "room sub < length (undelivered s sub) \<longrightarrow> length (in_flight sub @ ?new) = maxInFlight sub"
    using assms(2) by (auto simp: sub_ok_def room_def)
  ultimately show ?thesis
    using assms(2) upto by (auto simp: sub_ok_def after_delivery_def Let_def simp del: last.simps)
qed

lemma deliver_ok:
  assumes "slice_ok L s"
  shows "slice_ok L (deliver e s)"
proof (cases "\<exists>sub. jm_get (subscriptions s) e = Some sub \<and> \<not> paused sub")
  case True
  then obtain sub where sub: "jm_get (subscriptions s) e = Some sub" "\<not> paused sub" by blast
  with assms have "sub_ok e sub" by (simp add: slice_ok_def)
  with assms sub have "sub_ok e (after_delivery s sub)" by (blast intro: after_delivery_ok)
  with assms show ?thesis by (simp add: deliver_eq [OF assms sub] slice_ok_def)
next
  case False
  then have "deliver e s = s"
    by (intro deliver_idle) (cases "jm_get (subscriptions s) e"; auto)
  with assms show ?thesis by simp
qed

lemma slice_ok_set:
  "slice_ok L s \<Longrightarrow> sub_ok e sub \<Longrightarrow> slice_ok L (s\<lparr>subscriptions := jm_set e sub (subscriptions s)\<rparr>)"
  by (simp add: slice_ok_def)

lemma max_in_flight_param_bounds:
  "max_in_flight_param params = Inr n \<Longrightarrow> 0 < n \<and> n \<le> MAX_IN_FLIGHT_LIMIT"
  by (auto simp: max_in_flight_param_def DEFAULT_MAX_IN_FLIGHT_def MAX_IN_FLIGHT_LIMIT_def
      split: option.splits json.splits if_splits)

lemma subscription_at_ok: "0 < n \<Longrightarrow> n \<le> MAX_IN_FLIGHT_LIMIT \<Longrightarrow> sub_ok e (subscription_at e q n)"
  by (simp add: sub_ok_def subscription_at_def)

text \<open>A subscribe that is not refused puts a subscription in place, at its cursor if it has one, and
  delivers.\<close>

lemma subscribe_cases:
  assumes "events_subscribe params s = (err, s')"
  obtains (refused) e where "err = Some e" "s' = s"
  | (resumed) event cursor seq n where "json_field params ''event'' = Some (JString event)"
      "json_field params ''cursor'' = Some cursor" "parseCursor event cursor = Some seq"
      "0 < n" "n \<le> MAX_IN_FLIGHT_LIMIT" "err = None" "\<not> content_denied event s"
      "resume_at event cursor n s = Inr (subscription_at event seq n)"
      "s' = deliver event (add_relay event (s\<lparr>subscriptions := jm_set event (subscription_at event seq n) (subscriptions s)\<rparr>))"
  | (kept) event where "json_field params ''event'' = Some (JString event)" "json_field params ''cursor'' = None"
      "jm_has (subscriptions s) event" "err = None" "s' = deliver event (add_relay event s)"
  | (opened) event seq n where "json_field params ''event'' = Some (JString event)" "json_field params ''cursor'' = None"
      "\<not> jm_has (subscriptions s) event" "0 < n" "n \<le> MAX_IN_FLIGHT_LIMIT" "err = None"
      "s' = deliver event (add_relay event (s\<lparr>subscriptions := jm_set event (subscription_at event seq n) (subscriptions s)\<rparr>))"
proof -
  have at: "\<exists>seq. parseCursor event cursor = Some seq \<and> sub = subscription_at event seq n"
    if "resume_at event cursor n s = Inr sub" for event cursor n sub
    using that by (auto simp: resume_at_def Let_def split: option.splits if_splits)
  consider "\<exists>e. err = Some e \<and> s' = s"
    | event n where "json_field params ''event'' = Some (JString event)" "max_in_flight_param params = Inr n"
        "\<not> content_denied event s" "err = None"
        "(\<exists>cursor sub. json_field params ''cursor'' = Some cursor \<and> resume_at event cursor n s = Inr sub \<and>
           s' = deliver event (add_relay event (s\<lparr>subscriptions := jm_set event sub (subscriptions s)\<rparr>))) \<or>
         json_field params ''cursor'' = None \<and> jm_has (subscriptions s) event \<and> s' = deliver event (add_relay event s) \<or>
         json_field params ''cursor'' = None \<and> \<not> jm_has (subscriptions s) event \<and>
           (\<exists>seq. s' = deliver event (add_relay event
              (s\<lparr>subscriptions := jm_set event (subscription_at event seq n) (subscriptions s)\<rparr>)))"
    using assms unfolding events_subscribe_def
    by (auto simp: Let_def map_sum_def split: option.splits json.splits if_splits sum.splits)
  then show thesis
  proof cases
    case 1
    then show thesis using refused by blast
  next
    case (2 event n)
    note n = max_in_flight_param_bounds [OF 2(2)]
    from 2(5) show thesis
      using resumed [OF 2(1) _ _ _ _ 2(4,3)] kept [OF 2(1) _ _ 2(4)] opened [OF 2(1) _ _ _ _ 2(4)] at n by metis
  qed
qed

lemma add_relay_simps [simp]:
  "history (add_relay e s) = history s" "subscriptions (add_relay e s) = subscriptions s"
  "emitted (add_relay e s) = emitted s" "chats_granted (add_relay e s) = chats_granted s"
  by (simp_all add: add_relay_def)

lemma slice_ok_relay [simp]: "slice_ok L (add_relay e s) = slice_ok L s"
  by (simp add: slice_ok_def)

lemma subscribe_ok:
  assumes "slice_ok L s"
  shows "slice_ok L (snd (events_subscribe params s))"
proof (cases "events_subscribe params s")
  case (Pair err s')
  then have "slice_ok L s'"
    by (cases rule: subscribe_cases) (use assms in \<open>auto intro!: deliver_ok slice_ok_set subscription_at_ok\<close>)
  with Pair show ?thesis by simp
qed

lemma find_in_flight: "find (\<lambda>q. of_nat q = (x :: rat)) qs = Some q \<Longrightarrow> q \<in> set qs \<and> of_nat q = x"
  by (induction qs) (auto split: if_splits)

definition acked :: "nat \<Rightarrow> subscription \<Rightarrow> subscription" where
  "acked q sub = sub\<lparr>in_flight := filter (\<lambda>q'. q' \<noteq> q) (in_flight sub), paused := False\<rparr>"

lemma acked_length:
  assumes "sub_ok e sub" and "q \<in> set (in_flight sub)"
  shows "length (in_flight (acked q sub)) < maxInFlight sub"
  using length_filter_less [OF assms(2), of "\<lambda>q'. q' \<noteq> q"] assms(1) by (simp add: acked_def sub_ok_def)

lemma acked_ok: "sub_ok e sub \<Longrightarrow> q \<in> set (in_flight sub) \<Longrightarrow> sub_ok e (acked q sub)"
  using acked_length [of e sub q] by (auto simp: sub_ok_def acked_def)

lemma ack_cases:
  assumes ok: "slice_ok L s"
  obtains (ignored) "events_ack params s = s"
  | (freed) e sub q where "json_field params ''event'' = Some (JString e)" "jm_get (subscriptions s) e = Some sub"
      "q \<in> set (in_flight sub)" "\<not> paused sub"
      "events_ack params s = s\<lparr>subscriptions := jm_set e (acked q sub) (subscriptions s)\<rparr>"
  | (resumed) e sub q where "json_field params ''event'' = Some (JString e)" "jm_get (subscriptions s) e = Some sub"
      "q \<in> set (in_flight sub)" "paused sub"
      "events_ack params s = deliver e (s\<lparr>subscriptions := jm_set e (acked q sub) (subscriptions s)\<rparr>)"
proof -
  have "events_ack params s = s \<or> (\<exists>e sub q x. json_field params ''event'' = Some (JString e) \<and>
      json_field params ''sequence'' = Some (JNum x) \<and> jm_get (subscriptions s) e = Some sub \<and>
      find (\<lambda>q. of_nat q = x) (in_flight sub) = Some q)"
    unfolding events_ack_def by (auto split: option.splits json.splits)
  then consider "events_ack params s = s"
    | e sub q x where "json_field params ''event'' = Some (JString e)" "json_field params ''sequence'' = Some (JNum x)"
        "jm_get (subscriptions s) e = Some sub" "find (\<lambda>q. of_nat q = x) (in_flight sub) = Some q"
    by blast
  then show thesis
  proof cases
    case 1
    then show thesis by (rule ignored)
  next
    case (2 e sub q x)
    then have q: "q \<in> set (in_flight sub)" using find_in_flight by blast
    have so: "sub_ok e sub" using ok 2(3) by (simp add: slice_ok_def)
    note less = acked_length [OF so q]
    show thesis
    proof (cases "paused sub")
      case True
      with 2 less have "events_ack params s = deliver e (s\<lparr>subscriptions := jm_set e (acked q sub) (subscriptions s)\<rparr>)"
        by (simp add: events_ack_def Let_def acked_def)
      with True 2 q show thesis by (intro resumed)
    next
      case False
      then have "sub\<lparr>in_flight := filter (\<lambda>q'. q' \<noteq> q) (in_flight sub)\<rparr> = acked q sub"
        and "\<not> paused (acked q sub)"
        by (cases sub; simp add: acked_def)+
      with 2 False have "events_ack params s = s\<lparr>subscriptions := jm_set e (acked q sub) (subscriptions s)\<rparr>"
        by (simp add: events_ack_def Let_def)
      with False 2 q show thesis by (intro freed)
    qed
  qed
qed

lemma ack_ok:
  assumes "slice_ok L s"
  shows "slice_ok L (events_ack params s)"
proof -
  have "sub_ok e sub" if "jm_get (subscriptions s) e = Some sub" for e sub
    using assms that by (simp add: slice_ok_def)
  then show ?thesis
    using assms by (cases rule: ack_cases [OF assms, of params]) (auto intro!: deliver_ok slice_ok_set acked_ok)
qed

lemma dispatch_ok:
  assumes "slice_ok L s"
  shows "slice_ok (L @ [(e, p)]) (dispatchAppEvent e p ts now s)"
proof -
  have "slice_ok (L @ [(e, p)]) (s\<lparr>history := recordAppEvent e p ts now (history s)\<rparr>)"
    using assms record_history_ok by (simp add: slice_ok_def)
  then show ?thesis by (simp add: dispatchAppEvent_def Let_def deliver_ok)
qed

lemma unsubscribe_ok: "slice_ok L s \<Longrightarrow> slice_ok L (events_unsubscribe params s)"
  by (auto simp: slice_ok_def events_unsubscribe_def removeSubscription_def split: option.splits json.splits)

text \<open>A run with the log of the application events it dispatches.\<close>

fun dispatched :: "slice_event \<Rightarrow> (string \<times> json) list" where
  "dispatched (AppEvent e p _ _) = [(e, p)]"
| "dispatched _ = []"

definition logged_slice :: "slice_event \<Rightarrow> (string \<times> json) list \<times> slice \<Rightarrow> (string \<times> json) list \<times> slice" where
  "logged_slice ev x = (fst x @ dispatched ev, slice_step ev (snd x))"

abbreviation all_dispatched :: "slice_event list \<Rightarrow> (string \<times> json) list" where
  "all_dispatched es \<equiv> concat (map dispatched es)"

lemma logged_slice_ok: "slice_ok (fst x) (snd x) \<Longrightarrow> slice_ok (fst (logged_slice ev x)) (snd (logged_slice ev x))"
  by (cases ev)
     (auto simp: logged_slice_def dispatch_ok subscribe_ok ack_ok unsubscribe_ok, simp add: slice_ok_def)

interpretation slice_events: event_system logged_slice "\<lambda>x. slice_ok (fst x) (snd x)"
  by unfold_locales (rule logged_slice_ok)

lemma logged_run:
  "run_events logged_slice es (L, s) = (L @ all_dispatched es, run_events slice_step es s)"
  by (induction es arbitrary: L s) (simp_all add: logged_slice_def)

lemma fresh_slice_ok: "slice_ok [] fresh_slice"
  by (simp add: slice_ok_def fresh_slice_def history_ok_def named_def seq_of_def retained_def covers_def in_order_def)

lemma reachable_slice_ok: "slice_ok (all_dispatched es) (run_events slice_step es fresh_slice)"
  using slice_events.inv_run [of "([], fresh_slice)" es] by (simp add: logged_run fresh_slice_ok)

lemma run_slice_ok: "slice_ok L s \<Longrightarrow> slice_ok (L @ all_dispatched es) (run_events slice_step es s)"
  using slice_events.inv_run [of "(L, s)" es] by (simp add: logged_run)

section \<open>Deliveries are in order\<close>

text \<open>The events after which a subscription is still the one it was: nobody resubscribes to its event at a
  cursor or unsubscribes.\<close>

fun keeps_subscription :: "string \<Rightarrow> slice_event \<Rightarrow> bool" where
  "keeps_subscription e (Subscribe params) =
     (json_field params ''event'' \<noteq> Some (JString e) \<or> json_field params ''cursor'' = None)"
| "keeps_subscription e (Unsubscribe params) = (json_field params ''event'' \<noteq> Some (JString e))"
| "keeps_subscription e _ = True"

definition emissions :: "string \<Rightarrow> slice \<Rightarrow> (json \<times> string) list" where
  "emissions e s = map snd (filter (\<lambda>x. fst x = e) (emitted s))"

text \<open>\<open>delivered_since\<close>: with \<open>prior\<close> the emissions of the event before the subscription, \<open>qs\<close> are the sequence
  numbers delivered since.\<close>

definition delivered_since ::
  "string \<Rightarrow> nat \<Rightarrow> (json \<times> string) list \<Rightarrow> (string \<times> json) list \<Rightarrow> nat list \<Rightarrow> slice \<Rightarrow> bool" where
  "delivered_since e c prior L qs s \<longleftrightarrow>
     emissions e s = prior @ map (\<lambda>q. (named e L ! (q - 1), cursorOf e q)) qs \<and>
     sorted_wrt (<) (c # qs) \<and> (\<forall>q \<in> set qs. q \<le> length (named e L)) \<and>
     (\<exists>sub. jm_get (subscriptions s) e = Some sub \<and> lastDeliveredSeq sub = last (c # qs))"

lemma retained_nth:
  assumes "history_ok L h" and "r \<in> set (bucket (appEventHistory h) e)"
  shows "0 < er_seq r \<and> er_seq r \<le> length (named e L) \<and> er_payload r = named e L ! (er_seq r - 1)"
proof -
  have "(er_seq r, er_payload r) \<in> set (retained (appEventHistory h) e)" using assms(2) by (auto simp: retained_def)
  moreover have "set (retained (appEventHistory h) e) \<subseteq> set (enumerate 1 (named e L))"
    using assms(1) by (auto simp: history_ok_def dest: set_mono_suffix)
  ultimately have "(er_seq r, er_payload r) \<in> set (enumerate 1 (named e L))" by blast
  then show ?thesis by (force simp: in_set_enumerate_eq)
qed

lemma sorted_extend:
  assumes "sorted_wrt (<) (x # xs)" and "sorted_wrt (<) (last (x # xs) # ys)"
  shows "sorted_wrt (<) (x # xs @ (ys :: nat list))"
  using assms
proof (induction xs arbitrary: x)
  case (Cons a xs)
  from Cons.prems(1) have "x < a" and "sorted_wrt (<) (a # xs)" by simp_all
  moreover from Cons.prems(2) have "sorted_wrt (<) (last (a # xs) # ys)" by (simp only: last_ConsR list.distinct(2) not_False_eq_True)
  ultimately have IH: "sorted_wrt (<) (a # xs @ ys)" and "x < a" using Cons.IH by blast+
  have "x < y" if "y \<in> set (xs @ ys)" for y
  proof -
    from IH that have "a < y" by auto
    with \<open>x < a\<close> show ?thesis by (rule less_trans)
  qed
  with IH \<open>x < a\<close> show ?case by simp
qed simp

lemma last_append_Cons: "last (x # xs @ ys) = last (last (x # xs) # ys)"
  by (induction ys rule: rev_induct) auto

text \<open>A delivery on the subscription extends the list by what there is room for, one on another leaves it.\<close>

lemma deliver_since_here:
  assumes ok: "slice_ok L s" and ds: "delivered_since e c prior L qs s"
    and sub: "jm_get (subscriptions s) e = Some sub" "\<not> paused sub"
  shows "delivered_since e c prior L (qs @ map er_seq (take (room sub) (undelivered s sub))) (deliver e s)"
proof -
  let ?out = "take (room sub) (undelivered s sub)"
  let ?qs = "map er_seq ?out"
  have so: "s_event sub = e" using ok sub by (simp add: slice_ok_def sub_ok_def)
  have last: "lastDeliveredSeq sub = last (c # qs)" using ds sub by (simp add: delivered_since_def)
  have nth: "0 < er_seq r \<and> er_seq r \<le> length (named e L) \<and> er_payload r = named e L ! (er_seq r - 1)"
    if "r \<in> set ?out" for r
  proof (rule retained_nth)
    show "history_ok L (history s)" using ok by (simp add: slice_ok_def)
    show "r \<in> set (bucket (appEventHistory (history s)) e)"
      using in_set_takeD [OF that] so by (simp add: undelivered_def)
  qed
  have "map snd (filter (\<lambda>x. fst x = e) (map (emission e) ?out)) = map (\<lambda>q. (named e L ! (q - 1), cursorOf e q)) ?qs"
    using nth by (simp add: emission_def filter_map comp_def)
  moreover have "sorted_wrt (<) (c # qs @ ?qs)"
    using ds last undelivered_seqs [OF ok, of sub "room sub"]
    by (intro sorted_extend) (auto simp: delivered_since_def)
  moreover have "\<forall>q \<in> set ?qs. q \<le> length (named e L)" using nth by auto
  ultimately show ?thesis
    using ds last unfolding deliver_eq [OF ok sub]
    by (simp add: delivered_since_def emissions_def after_delivery_def Let_def last_append_Cons del: last.simps)
       (fastforce simp: delivered_since_def)
qed

lemma deliver_since:
  assumes ok: "slice_ok L s" and ds: "delivered_since e c prior L qs s"
  shows "\<exists>qs'. delivered_since e c prior L (qs @ qs') (deliver e' s)"
proof (cases "\<exists>sub'. jm_get (subscriptions s) e' = Some sub' \<and> \<not> paused sub'")
  case False
  then have "deliver e' s = s"
    by (intro deliver_idle) (cases "jm_get (subscriptions s) e'"; auto)
  with ds show ?thesis by (intro exI [of _ "[]"]) simp
next
  case True
  then obtain sub' where sub': "jm_get (subscriptions s) e' = Some sub'" "\<not> paused sub'" by blast
  show ?thesis
  proof (cases "e' = e")
    case False
    then have "filter (\<lambda>x. fst x = e) (map (emission e') xs) = []" for xs
      by (simp add: emission_def filter_empty_conv)
    with ds False show ?thesis
      by (intro exI [of _ "[]"]) (simp add: deliver_eq [OF ok sub'] delivered_since_def emissions_def)
  next
    case True
    with deliver_since_here [OF ok ds] sub' show ?thesis by blast
  qed
qed

lemma since_set:
  assumes "delivered_since e c prior L qs s" and "e' = e \<Longrightarrow> lastDeliveredSeq sub = last (c # qs)"
  shows "delivered_since e c prior L qs (s\<lparr>subscriptions := jm_set e' sub (subscriptions s)\<rparr>)"
  using assms by (cases "e' = e") (auto simp: delivered_since_def emissions_def)

lemma since_relay [simp]: "delivered_since e c prior L qs (add_relay e' s) = delivered_since e c prior L qs s"
  by (simp add: delivered_since_def emissions_def)

lemma since_record:
  assumes "delivered_since e c prior L qs s"
  shows "delivered_since e c prior (L @ [(e', p)]) qs (s\<lparr>history := h\<rparr>)"
proof -
  have "0 < q \<and> q \<le> length (named e L)" if "q \<in> set qs" for q
    using assms that by (auto simp: delivered_since_def)
  then have "map (\<lambda>q. (named e (L @ [(e', p)]) ! (q - 1), cursorOf e q)) qs
    = map (\<lambda>q. (named e L ! (q - 1), cursorOf e q)) qs"
    by (fastforce simp: named_snoc nth_append)
  with assms show ?thesis
    by (auto simp: delivered_since_def emissions_def named_snoc)
qed

lemma since_step:
  assumes ok: "slice_ok L s" and ds: "delivered_since e c prior L qs s" and keeps: "keeps_subscription e ev"
  shows "\<exists>qs'. delivered_since e c prior (L @ dispatched ev) (qs @ qs') (slice_step ev s)"
proof -
  have same: ?thesis if "delivered_since e c prior (L @ dispatched ev) qs (slice_step ev s)"
    by (rule exI [of _ "[]"]) (simp add: that)
  have sub_ok: "sub_ok e' sub" if "jm_get (subscriptions s) e' = Some sub" for e' sub
    using ok that by (simp add: slice_ok_def)
  obtain sub where sub: "jm_get (subscriptions s) e = Some sub" "lastDeliveredSeq sub = last (c # qs)"
    using ds by (auto simp: delivered_since_def)
  then have present: "jm_has (subscriptions s) e" using jm_get_None_iff [of "subscriptions s" e] by simp
  show ?thesis
  proof (cases ev)
    case (AppEvent e' p ts now)
    let ?s = "s\<lparr>history := recordAppEvent e' p ts now (history s)\<rparr>"
    have ok': "slice_ok (L @ [(e', p)]) ?s" using ok record_history_ok by (simp add: slice_ok_def)
    from since_record [OF ds] have rec: "delivered_since e c prior (L @ [(e', p)]) qs ?s" .
    then have "\<exists>qs'. delivered_since e c prior (L @ [(e', p)]) (qs @ qs') ?s" by (intro exI [of _ "[]"]) simp
    with deliver_since [OF ok' rec, of e'] AppEvent show ?thesis by (simp add: dispatchAppEvent_def Let_def)
  next
    case (Subscribe params)
    obtain err s' where sub': "events_subscribe params s = (err, s')" by (cases "events_subscribe params s")
    have at: "\<exists>qs'. delivered_since e c prior L (qs @ qs') (deliver event
        (add_relay event (s\<lparr>subscriptions := jm_set event (subscription_at event seq n) (subscriptions s)\<rparr>)))"
      if "event \<noteq> e" and "0 < n" and "n \<le> MAX_IN_FLIGHT_LIMIT" for event seq n
    proof (rule deliver_since)
      show "slice_ok L (add_relay event (s\<lparr>subscriptions := jm_set event (subscription_at event seq n) (subscriptions s)\<rparr>))"
        using that ok by (simp add: slice_ok_set subscription_at_ok)
      show "delivered_since e c prior L qs
          (add_relay event (s\<lparr>subscriptions := jm_set event (subscription_at event seq n) (subscriptions s)\<rparr>))"
        using that ds by (simp add: since_set)
    qed
    from sub' have "\<exists>qs'. delivered_since e c prior L (qs @ qs') s'"
    proof (cases rule: subscribe_cases)
      case (refused err')
      with ds show ?thesis by (intro exI [of _ "[]"]) simp
    next
      case (resumed event cursor seq n)
      with keeps Subscribe have "event \<noteq> e" by auto
      with at resumed show ?thesis by simp
    next
      case (kept event)
      with deliver_since [of L "add_relay event s" e c prior qs event] ok ds show ?thesis by simp
    next
      case (opened event seq n)
      with present have "event \<noteq> e" by auto
      with at opened show ?thesis by simp
    qed
    with Subscribe sub' show ?thesis by simp
  next
    case (Ack params)
    have set: "delivered_since e c prior L qs (s\<lparr>subscriptions := jm_set e' (acked q sub') (subscriptions s)\<rparr>)"
      if "jm_get (subscriptions s) e' = Some sub'" for e' q sub'
      using ds that sub by (intro since_set) (auto simp: acked_def)
    have "\<exists>qs'. delivered_since e c prior L (qs @ qs') (events_ack params s)"
    proof (cases rule: ack_cases [OF ok, of params])
      case 1
      with ds show ?thesis by (intro exI [of _ "[]"]) simp
    next
      case (2 e' sub' q)
      with set show ?thesis by (intro exI [of _ "[]"]) simp
    next
      case (3 e' sub' q)
      have "slice_ok L (s\<lparr>subscriptions := jm_set e' (acked q sub') (subscriptions s)\<rparr>)"
        using ok sub_ok 3 by (intro slice_ok_set acked_ok) auto
      from deliver_since [OF this set [OF 3(2)]] 3 show ?thesis by simp
    qed
    with Ack show ?thesis by simp
  next
    case (Unsubscribe params)
    with keeps ds have "delivered_since e c prior L qs (events_unsubscribe params s)"
      by (auto simp: events_unsubscribe_def removeSubscription_def delivered_since_def emissions_def
          split: option.splits json.splits)
    with Unsubscribe show ?thesis by (intro same) simp
  next
    case (SetGrant b)
    with ds show ?thesis by (intro same) (simp add: delivered_since_def emissions_def)
  qed
qed

lemma since_run:
  assumes "slice_ok L s" and "delivered_since e c prior L qs s" and "list_all (keeps_subscription e) es"
  shows "\<exists>qs'. delivered_since e c prior (L @ all_dispatched es) (qs @ qs') (run_events slice_step es s)"
  using assms
proof (induction es arbitrary: L s qs)
  case Nil
  then show ?case by (intro exI [of _ "[]"]) simp
next
  case (Cons ev es)
  obtain q1 where q1: "delivered_since e c prior (L @ dispatched ev) (qs @ q1) (slice_step ev s)"
    using since_step [OF Cons.prems(1,2), of ev] Cons.prems(3) by auto
  have "slice_ok (L @ dispatched ev) (slice_step ev s)"
    using logged_slice_ok [of "(L, s)" ev] Cons.prems(1) by (simp add: logged_slice_def)
  from Cons.IH [OF this q1] Cons.prems(3) obtain q2
    where "delivered_since e c prior (L @ all_dispatched (ev # es)) ((qs @ q1) @ q2) (run_events slice_step (ev # es) s)"
    by auto
  then have "delivered_since e c prior (L @ all_dispatched (ev # es)) (qs @ (q1 @ q2)) (run_events slice_step (ev # es) s)"
    by simp
  then show ?case by blast
qed

lemma subscribe_since:
  assumes ok: "slice_ok L s" and sub: "events_subscribe params s = (None, s1)"
    and e: "json_field params ''event'' = Some (JString e)" and cur: "json_field params ''cursor'' = Some cursor"
    and c: "parseCursor e cursor = Some c"
  shows "\<exists>qs. delivered_since e c (emissions e s) L qs s1"
  using sub
proof (cases rule: subscribe_cases)
  case (resumed event cursor' seq n)
  with e cur c have eq: "event = e" "seq = c" by auto
  let ?s = "add_relay e (s\<lparr>subscriptions := jm_set e (subscription_at e c n) (subscriptions s)\<rparr>)"
  have "slice_ok L ?s" using ok resumed by (simp add: slice_ok_set subscription_at_ok)
  moreover have "delivered_since e c (emissions e s) L [] ?s"
    by (simp add: delivered_since_def emissions_def subscription_at_def)
  ultimately show ?thesis using deliver_since [of L ?s e c _ "[]" e] resumed eq by auto
qed (use e cur in auto)

text \<open>C38: the order of deliveries. After a subscribe at a cursor, and until the plugin resubscribes at a cursor
  or unsubscribes, the deliveries of the event are of increasing sequence numbers behind the cursor, each under
  its own cursor and with the payload that was dispatched under that number: nothing is delivered twice, out
  of order or with the payload of another event, whatever the plugin acknowledges and in which order.\<close>

theorem deliveries_in_order:
  assumes "events_subscribe params (run_events slice_step es0 fresh_slice) = (None, s1)"
    and "json_field params ''event'' = Some (JString e)" and "json_field params ''cursor'' = Some cursor"
    and "parseCursor e cursor = Some c" and "list_all (keeps_subscription e) es"
  shows "\<exists>qs. emissions e (run_events slice_step es s1)
           = emissions e (run_events slice_step es0 fresh_slice)
             @ map (\<lambda>q. (named e (all_dispatched (es0 @ es)) ! (q - 1), cursorOf e q)) qs \<and>
           sorted_wrt (<) (c # qs) \<and> (\<forall>q \<in> set qs. q \<le> length (named e (all_dispatched (es0 @ es))))"
proof -
  let ?s = "run_events slice_step es0 fresh_slice"
  note ok = reachable_slice_ok [of es0]
  obtain qs where qs: "delivered_since e c (emissions e ?s) (all_dispatched es0) qs s1"
    using subscribe_since [OF ok assms(1-4)] by blast
  have "slice_ok (all_dispatched es0) s1" using subscribe_ok [OF ok, of params] assms(1) by simp
  from since_run [OF this qs assms(5)] obtain qs' where "delivered_since e c (emissions e ?s)
      (all_dispatched (es0 @ es)) (qs @ qs') (run_events slice_step es s1)" by auto
  then show ?thesis unfolding delivered_since_def by blast
qed

section \<open>A consumer that keeps up misses nothing\<close>

lemma drop_expired_keeps_last: "cutoff \<le> er_ts r \<Longrightarrow> r \<in> set (drop_expired cutoff (rs @ [r]))"
  by (induction rs) (auto simp: APP_EVENT_HISTORY_PER_EVENT_def)

lemma evict_keeps_listed:
  assumes "in_order os" and "r \<in> set (bucket m e)" and "(e, er_seq r) \<in> set (fst (evict_oldest os m))"
  shows "r \<in> set (bucket (snd (evict_oldest os m)) e)"
  using assms
proof (induction os m rule: evict_oldest.induct)
  case (1 m)
  then show ?case by simp
next
  case (2 e' q os m)
  show ?case
  proof (cases "APP_EVENT_HISTORY_TOTAL < length ((e', q) # os)")
    case True
    then have kept: "(e, er_seq r) \<in> set (fst (evict_oldest os (shift_evicted e' q m)))"
      using 2(4) by (simp only: evict_oldest_Cons if_True)
    then have "(e, er_seq r) \<in> set os" by (auto simp: evict_order dest: in_set_dropD)
    with 2(2) have "e' = e \<Longrightarrow> q \<noteq> er_seq r" by (auto simp: in_order_def)
    with 2(3) have "r \<in> set (bucket (shift_evicted e' q m) e)"
      by (cases "bucket m e") (auto simp: bucket_shift_evicted)
    with 2(1) [OF True] 2(2) kept True show ?thesis
      by (simp add: evict_oldest_Cons in_order_def flip: shift_evicted_def del: evict_oldest.simps)
  next
    case False
    with 2(3) show ?thesis by (simp add: evict_oldest_Cons del: evict_oldest.simps)
  qed
qed

lemma record_newest:
  assumes ok: "history_ok L h" and "now - APP_EVENT_HISTORY_TTL_MS \<le> ts"
  shows "\<exists>r \<in> set (bucket (appEventHistory (recordAppEvent e p ts now h)) e). er_seq r = Suc (length (named e L))"
proof -
  let ?m = "appEventHistory h" and ?os = "appEventHistoryOrder h @ [(e, Suc (seq_of h e))]"
  let ?r = "\<lparr>er_seq = Suc (seq_of h e), er_ts = ts, er_payload = p\<rparr>"
  let ?rs = "drop_expired (now - APP_EVENT_HISTORY_TTL_MS) (bucket ?m e @ [?r])"
  have new: "?r \<in> set ?rs" using assms(2) by (intro drop_expired_keeps_last) simp
  have listed: "(e, er_seq ?r) \<in> set (fst (evict_oldest ?os m))" for m
    by (simp add: evict_order APP_EVENT_HISTORY_TOTAL_def)
  have "?r \<in> set (bucket (snd (evict_oldest ?os (jm_set e ?rs ?m))) e)"
    using evict_keeps_listed [OF record_in_order [OF ok] _ listed] new by simp
  with new have "?r \<in> set (bucket (appEventHistory (recordAppEvent e p ts now h)) e)"
    by (simp add: record_bucket(1))
  moreover have "seq_of h e = length (named e L)" using ok by (simp add: history_ok_def)
  ultimately show ?thesis by force
qed

lemma bucket_seqs:
  assumes "history_ok L h"
  shows "map er_seq (bucket (appEventHistory h) e)
    = [Suc (length (named e L)) - length (bucket (appEventHistory h) e)..<Suc (length (named e L))]"
    and "length (bucket (appEventHistory h) e) \<le> length (named e L)"
proof -
  let ?b = "bucket (appEventHistory h) e" and ?n = "length (named e L)"
  obtain zs where zs: "enumerate 1 (named e L) = zs @ retained (appEventHistory h) e"
    using assms unfolding history_ok_def suffix_def by blast
  then have "map fst (enumerate 1 (named e L)) = map fst zs @ map er_seq ?b"
    by (simp add: retained_def comp_def)
  then have "[Suc 0..<Suc ?n] = map fst zs @ map er_seq ?b" by (simp add: enumerate_eq_zip del: upt_Suc)
  moreover have "length (enumerate 1 (named e L)) = length zs + length ?b"
    by (simp only: zs length_append) (simp add: retained_def)
  then have n: "?n = length zs + length ?b" by (simp only: length_enumerate)
  then have le: "length ?b \<le> ?n" by linarith
  ultimately have "map er_seq ?b = drop (length zs) [Suc 0..<Suc ?n]" and "length zs = ?n - length ?b"
    using n by (simp_all del: upt_Suc)
  with Suc_diff_le [OF le] show "map er_seq ?b = [Suc ?n - length ?b..<Suc ?n]" by (simp del: upt_Suc)
  show "length ?b \<le> ?n" by (rule le)
qed

lemma filter_upt_less: "filter (\<lambda>x. c < x) [a..<b] = [max a (Suc c)..<b]"
  by (induction b) auto

text \<open>The state in which everything dispatched behind the cursor has been delivered.\<close>

definition up_to_date :: "string \<Rightarrow> nat \<Rightarrow> (json \<times> string) list \<Rightarrow> (string \<times> json) list \<Rightarrow> slice \<Rightarrow> bool" where
  "up_to_date e c prior L s \<longleftrightarrow> c \<le> length (named e L) \<and> e \<in> set (relays s) \<and>
     delivered_since e c prior L [Suc c..<Suc (length (named e L))] s"

definition listening :: "string \<Rightarrow> slice \<Rightarrow> bool" where
  "listening e s \<longleftrightarrow> (case jm_get (subscriptions s) e of None \<Rightarrow> False | Some sub \<Rightarrow> \<not> paused sub) \<and> \<not> content_denied e s"

fun timely :: "slice_event \<Rightarrow> bool" where
  "timely (AppEvent e p ts now) = (now \<le> ts + APP_EVENT_HISTORY_TTL_MS)"
| "timely _ = True"

lemma last_upt_Cons: "c \<le> n \<Longrightarrow> last (c # [Suc c..<Suc n]) = n"
  by (cases "c = n") auto

lemma relays_deliver [simp]: "relays (deliver e s) = relays s"
  by (simp add: deliver_def Let_def case_prod_beta split: option.splits)

lemma relays_step:
  assumes "slice_ok L s" and "e \<in> set (relays s)" and "keeps_subscription e ev"
  shows "e \<in> set (relays (slice_step ev s))"
proof (cases ev)
  case (Subscribe params)
  obtain err s' where sub': "events_subscribe params s = (err, s')" by (cases "events_subscribe params s")
  from sub' have "set (relays s) \<subseteq> set (relays s')"
    by (cases rule: subscribe_cases) (auto simp: add_relay_def)
  with assms Subscribe sub' show ?thesis by auto
next
  case (Ack params)
  with assms show ?thesis by (cases rule: ack_cases [OF assms(1), of params]) simp_all
qed (use assms in \<open>auto simp: dispatchAppEvent_def Let_def events_unsubscribe_def removeSubscription_def
       split: option.splits json.splits\<close>)

lemma dispatch_reaches:
  assumes ok: "slice_ok L s" and up: "up_to_date e c prior L s" and before: "listening e s"
    and after: "listening e (dispatchAppEvent e p ts now s)" and time: "now \<le> ts + APP_EVENT_HISTORY_TTL_MS"
  shows "\<exists>sub. jm_get (subscriptions (dispatchAppEvent e p ts now s)) e = Some sub \<and>
    Suc (length (named e L)) \<le> lastDeliveredSeq sub"
proof -
  let ?s = "s\<lparr>history := recordAppEvent e p ts now (history s)\<rparr>"
  have ok': "slice_ok (L @ [(e, p)]) ?s" using ok record_history_ok by (simp add: slice_ok_def)
  obtain sub where sub: "jm_get (subscriptions ?s) e = Some sub" "\<not> paused sub"
    using before by (auto simp: listening_def split: option.splits)
  have ds: "dispatchAppEvent e p ts now s = deliver e ?s"
    using up before by (auto simp: dispatchAppEvent_def Let_def up_to_date_def listening_def content_denied_def)
  note eq = deliver_eq [OF ok' sub]
  from after have "\<not> room sub < length (undelivered ?s sub)"
    by (simp add: ds eq listening_def after_delivery_def Let_def)
  then have all: "take (room sub) (undelivered ?s sub) = undelivered ?s sub" by simp
  have so: "s_event sub = e" using ok' sub by (simp add: slice_ok_def sub_ok_def)
  have last: "lastDeliveredSeq sub = length (named e L)"
    using up sub by (auto simp: up_to_date_def delivered_since_def last_upt_Cons simp del: upt_Suc)
  have "history_ok L (history s)" using ok by (simp add: slice_ok_def)
  from record_newest [OF this, of now ts e p] time obtain r
    where r: "r \<in> set (bucket (appEventHistory (history ?s)) e)" "er_seq r = Suc (length (named e L))" by auto
  then have "r \<in> set (undelivered ?s sub)" using so last by (simp add: undelivered_def)
  then have "er_seq r \<le> last (lastDeliveredSeq sub # map er_seq (undelivered ?s sub))"
    using last_ascending [OF undelivered_seqs [OF ok', of sub "room sub"], of "er_seq r"] all by simp
  with r(2) have "Suc (length (named e L)) \<le> lastDeliveredSeq (after_delivery ?s sub)"
    by (simp add: after_delivery_def Let_def all del: last.simps)
  then show ?thesis by (simp add: ds eq)
qed

lemma up_to_date_step:
  assumes ok: "slice_ok L s" and up: "up_to_date e c prior L s" and keeps: "keeps_subscription e ev"
    and before: "listening e s" and after: "listening e (slice_step ev s)" and time: "timely ev"
  shows "up_to_date e c prior (L @ dispatched ev) (slice_step ev s)"
proof -
  let ?n = "length (named e L)" and ?n' = "length (named e (L @ dispatched ev))"
  from up have c: "c \<le> ?n" and rel: "e \<in> set (relays s)"
    and ds: "delivered_since e c prior L [Suc c..<Suc ?n] s" by (simp_all add: up_to_date_def)
  obtain qs where qs: "delivered_since e c prior (L @ dispatched ev) ([Suc c..<Suc ?n] @ qs) (slice_step ev s)"
    using since_step [OF ok ds keeps] by blast
  have above: "?n < q \<and> q \<le> ?n'" if "q \<in> set qs" for q
  proof
    show "q \<le> ?n'" using qs that by (simp add: delivered_since_def)
    from qs have "sorted_wrt (<) ((c # [Suc c..<Suc ?n]) @ qs)" by (simp add: delivered_since_def)
    then have "\<forall>x \<in> set (c # [Suc c..<Suc ?n]). x < q" using that by (simp only: sorted_wrt_append) blast
    moreover have "?n \<in> set (c # [Suc c..<Suc ?n])" using c by (cases "c = ?n") auto
    ultimately show "?n < q" by blast
  qed
  have "qs = [Suc ?n..<Suc ?n']"
  proof (cases "\<exists>p ts now. ev = AppEvent e p ts now")
    case True
    then obtain p ts now where ev: "ev = AppEvent e p ts now" by blast
    then have n': "?n' = Suc ?n" by (simp add: named_snoc)
    have "set qs \<subseteq> {Suc ?n}" using above n' by fastforce
    moreover have "sorted_wrt (<) qs" using qs by (simp add: delivered_since_def sorted_wrt_append)
    ultimately have "qs = [] \<or> qs = [Suc ?n]" by (cases qs; cases "tl qs") auto
    moreover have "qs \<noteq> []"
    proof
      assume "qs = []"
      with qs c have "\<exists>sub. jm_get (subscriptions (slice_step ev s)) e = Some sub \<and> lastDeliveredSeq sub = ?n"
        by (simp add: delivered_since_def last_upt_Cons del: upt_Suc last.simps)
      with dispatch_reaches [OF ok up before, of p ts now] after time ev show False by auto
    qed
    ultimately show ?thesis by (simp add: n')
  next
    case False
    then have "?n' = ?n" by (cases ev) (auto simp: named_def)
    with above have "False" if "q \<in> set qs" for q using that by fastforce
    then have "qs = []" by (cases qs) auto
    with \<open>?n' = ?n\<close> show ?thesis by simp
  qed
  moreover have "?n \<le> ?n'" by (simp add: named_def)
  then have "[Suc c..<Suc ?n] @ [Suc ?n..<Suc ?n'] = [Suc c..<Suc ?n']"
    using c upt_add_eq_append [of "Suc c" "Suc ?n" "?n' - ?n"] by simp
  ultimately have "delivered_since e c prior (L @ dispatched ev) [Suc c..<Suc ?n'] (slice_step ev s)"
    using qs by simp
  moreover have "c \<le> ?n'" using c \<open>?n \<le> ?n'\<close> by linarith
  ultimately show ?thesis using relays_step [OF ok rel keeps] by (simp add: up_to_date_def)
qed

lemma up_to_date_run:
  assumes "slice_ok L s" and "up_to_date e c prior L s" and "list_all (keeps_subscription e) es"
    and "list_all timely es" and "\<forall>n. listening e (run_events slice_step (take n es) s)"
  shows "up_to_date e c prior (L @ all_dispatched es) (run_events slice_step es s)"
  using assms
proof (induction es arbitrary: L s)
  case Nil
  then show ?case by simp
next
  case (Cons ev es)
  have before: "listening e s" using Cons.prems(5) [THEN spec, of 0] by simp
  have after: "\<forall>n. listening e (run_events slice_step (take n es) (slice_step ev s))"
    using Cons.prems(5) by (metis run_events_Cons take_Suc_Cons)
  then have "listening e (slice_step ev s)" by (metis run_events_Nil take0)
  then have "up_to_date e c prior (L @ dispatched ev) (slice_step ev s)"
    using up_to_date_step [OF Cons.prems(1,2) _ before] Cons.prems(3,4) by simp
  moreover have "slice_ok (L @ dispatched ev) (slice_step ev s)"
    using logged_slice_ok [of "(L, s)" ev] Cons.prems(1) by (simp add: logged_slice_def)
  ultimately show ?case using Cons.IH [of "L @ dispatched ev" "slice_step ev s"] Cons.prems(3,4) after by simp
qed

lemma subscribe_up_to_date:
  assumes ok: "slice_ok L s" and sub: "events_subscribe params s = (None, s1)"
    and e: "json_field params ''event'' = Some (JString e)" and cur: "json_field params ''cursor'' = Some cursor"
    and c: "parseCursor e cursor = Some c" and held: "bucket (appEventHistory (history s)) e \<noteq> []"
    and up: "listening e s1"
  shows "up_to_date e c (emissions e s) L s1"
  using sub
proof (cases rule: subscribe_cases)
  case (resumed event cursor' seq n)
  with e cur c have eq: "event = e" "seq = c" by auto
  let ?sub = "subscription_at e c n" and ?n = "length (named e L)" and ?b = "bucket (appEventHistory (history s)) e"
  let ?s = "add_relay e (s\<lparr>subscriptions := jm_set e ?sub (subscriptions s)\<rparr>)"
  have s1: "s1 = deliver e ?s" using resumed eq by simp
  have ok': "slice_ok L ?s" using ok resumed by (simp add: slice_ok_set subscription_at_ok)
  have ds: "delivered_since e c (emissions e s) L [] ?s"
    by (simp add: delivered_since_def emissions_def subscription_at_def)
  have get: "jm_get (subscriptions ?s) e = Some ?sub" "\<not> paused ?sub" by (simp_all add: subscription_at_def)
  have "\<not> room ?sub < length (undelivered ?s ?sub)"
    using up by (simp add: s1 deliver_eq [OF ok' get] listening_def after_delivery_def Let_def)
  then have all: "take (room ?sub) (undelivered ?s ?sub) = undelivered ?s ?sub" by simp
  have seqs: "map er_seq ?b = [Suc ?n - length ?b..<Suc ?n]"
    using ok bucket_seqs(1) by (simp add: slice_ok_def)
  have len: "length ?b \<le> ?n" using ok bucket_seqs(2) by (simp add: slice_ok_def)
  obtain r rs where r: "?b = r # rs" using held by (cases ?b) auto
  have lo: "er_seq r \<le> Suc c" and hi: "c \<le> er_seq (last ?b)"
    using resumed(8) eq c resumed(3) r
    by (auto simp: resume_at_def kernelAppEventHistoryAfter_def Let_def split: if_splits)
  have "er_seq r = Suc ?n - length ?b" using seqs r len by (simp add: upt_conv_Cons del: upt_Suc)
  moreover have "er_seq (last ?b) = ?n"
  proof -
    have "last [Suc ?n - length ?b..<Suc ?n] = ?n" using held len by (subst last_upt) auto
    then show ?thesis using arg_cong [OF seqs, of last] held by (simp add: last_map del: upt_Suc)
  qed
  moreover have "map er_seq (undelivered ?s ?sub) = filter (\<lambda>q. c < q) (map er_seq ?b)"
    by (simp add: undelivered_def subscription_at_def filter_map comp_def)
  ultimately have "map er_seq (undelivered ?s ?sub) = [Suc c..<Suc ?n]" and "c \<le> ?n"
    using seqs lo hi by (simp_all add: filter_upt_less max_def del: upt_Suc)
  then show ?thesis
    using deliver_since_here [OF ok' ds get] all by (simp add: s1 up_to_date_def add_relay_def del: upt_Suc)
qed (use e cur in auto)

text \<open>C39: a consumer that keeps up misses nothing. As long as the subscription is not paused (its
  acknowledgements keep below the limit), the capability is held and the buffer holds the events when the
  consumer comes back at its cursor, it is delivered exactly the events dispatched behind the cursor, each
  once and in order: the replayed ones first, then the live ones. (\<open>timely\<close>: the two clock readings of one
  recording are at most a minute apart.)\<close>

theorem prompt_consumer_misses_nothing:
  assumes "events_subscribe params (run_events slice_step es0 fresh_slice) = (None, s1)"
    and "json_field params ''event'' = Some (JString e)" and "json_field params ''cursor'' = Some cursor"
    and "parseCursor e cursor = Some c" and "list_all (keeps_subscription e) es" and "list_all timely es"
    and "bucket (appEventHistory (history (run_events slice_step es0 fresh_slice))) e \<noteq> []"
    and "\<forall>n. listening e (run_events slice_step (take n es) s1)"
  shows "emissions e (run_events slice_step es s1)
    = emissions e (run_events slice_step es0 fresh_slice)
      @ map (\<lambda>q. (named e (all_dispatched (es0 @ es)) ! (q - 1), cursorOf e q))
            [Suc c..<Suc (length (named e (all_dispatched (es0 @ es))))]"
proof -
  let ?s = "run_events slice_step es0 fresh_slice"
  note ok = reachable_slice_ok [of es0]
  have "listening e s1" using assms(8) [THEN spec, of 0] by simp
  then have up: "up_to_date e c (emissions e ?s) (all_dispatched es0) s1"
    by (rule subscribe_up_to_date [OF ok assms(1-4,7)])
  have "slice_ok (all_dispatched es0) s1" using subscribe_ok [OF ok, of params] assms(1) by simp
  from up_to_date_run [OF this up assms(5,6,8)] show ?thesis
    by (simp add: up_to_date_def delivered_since_def del: upt_Suc)
qed

text \<open>A subscription at a cursor, one replayed event and one live one.\<close>

definition opened_at :: "string \<Rightarrow> json" where
  "opened_at cur = JObject [(''event'', JString ''chat.opened''), (''cursor'', JString cur)]"

definition chat_opened :: slice_event where
  "chat_opened = AppEvent ''chat.opened'' JNull 0 0"

definition opened_twice :: slice where
  "opened_twice = run_events slice_step [chat_opened, chat_opened] fresh_slice"

definition resubscribed :: slice where
  "resubscribed = snd (events_subscribe (opened_at ''chat.opened:1'') opened_twice)"

lemma events_demo:
  "events_subscribe (opened_at ''chat.opened:1'') opened_twice = (None, resubscribed)"
  "bucket (appEventHistory (history opened_twice)) ''chat.opened'' \<noteq> []"
  "listening ''chat.opened'' resubscribed" "listening ''chat.opened'' (slice_step chat_opened resubscribed)"
  "parseCursor ''chat.opened'' (JString ''chat.opened:1'') = Some 1"
  by code_simp+

lemma opened_at_fields:
  "json_field (opened_at cur) ''event'' = Some (JString ''chat.opened'')"
  "json_field (opened_at cur) ''cursor'' = Some (JString cur)"
  by (simp_all add: opened_at_def)

lemma demo_dispatched: "named ''chat.opened'' (all_dispatched ([chat_opened, chat_opened] @ [chat_opened])) = [JNull, JNull, JNull]"
  by (simp add: chat_opened_def named_def)

lemma deliveries_in_order_witness:
  "\<exists>qs. emissions ''chat.opened'' (run_events slice_step [chat_opened] resubscribed)
      = emissions ''chat.opened'' opened_twice @ map (\<lambda>q. ([JNull, JNull, JNull] ! (q - 1), cursorOf ''chat.opened'' q)) qs \<and>
    sorted_wrt (<) (1 # qs) \<and> list_all (\<lambda>q. q \<le> 3) qs"
  using deliveries_in_order [of "opened_at ''chat.opened:1''" "[chat_opened, chat_opened]" resubscribed
      "''chat.opened''" "JString ''chat.opened:1''" 1 "[chat_opened]", folded opened_twice_def,
      OF events_demo(1) opened_at_fields events_demo(5)]
  unfolding demo_dispatched by (simp add: chat_opened_def list_all_iff eval_nat_numeral)

lemma prompt_consumer_misses_nothing_witness:
  "emissions ''chat.opened'' (run_events slice_step [chat_opened] resubscribed)
    = emissions ''chat.opened'' opened_twice
      @ map (\<lambda>q. ([JNull, JNull, JNull] ! (q - 1), cursorOf ''chat.opened'' q)) [Suc 1..<Suc 3]"
proof -
  have up: "listening ''chat.opened'' (run_events slice_step (take n [chat_opened]) resubscribed)" for n
    using events_demo by (cases n) simp_all
  have "list_all (keeps_subscription ''chat.opened'') [chat_opened]" and "list_all timely [chat_opened]"
    by (simp_all add: chat_opened_def APP_EVENT_HISTORY_TTL_MS_def)
  from prompt_consumer_misses_nothing [of "opened_at ''chat.opened:1''" "[chat_opened, chat_opened]" resubscribed
      "''chat.opened''" "JString ''chat.opened:1''" 1 "[chat_opened]", folded opened_twice_def,
      OF events_demo(1) opened_at_fields events_demo(5) this events_demo(2)] up
  show ?thesis unfolding demo_dispatched by (simp only: list.size) (simp only: One_nat_def numeral_3_eq_3 add_Suc_right add_0_right simp_thms)
qed

section \<open>Bounds\<close>

text \<open>Memory. Whatever a plugin does and however many events arrive, a subscription has at most its limit
  of unacknowledged deliveries and never more than 256, the buffer keeps at most 128 records of an event and
  4096 entries in all, and a paused subscription has used up its limit.\<close>

theorem deliveries_bounded:
  fixes es :: "slice_event list" and e :: string
  defines "s \<equiv> run_events slice_step es fresh_slice"
  shows "(case jm_get (subscriptions s) e of None \<Rightarrow> True
          | Some sub \<Rightarrow> length (in_flight sub) \<le> maxInFlight sub \<and> maxInFlight sub \<le> 256 \<and>
              (if paused sub then length (in_flight sub) = maxInFlight sub else True)) \<and>
         length (bucket (appEventHistory (history s)) e) \<le> 128 \<and>
         length (appEventHistoryOrder (history s)) \<le> 4096"
  using reachable_slice_ok [of es, folded s_def]
  by (auto simp: slice_ok_def sub_ok_def history_ok_def MAX_IN_FLIGHT_LIMIT_def APP_EVENT_HISTORY_PER_EVENT_def
      APP_EVENT_HISTORY_TOTAL_def split: option.splits)

section \<open>Where events are lost or leak\<close>

lemma find_of_nat: "q \<in> set qs \<Longrightarrow> find (\<lambda>q'. (of_nat q' :: rat) = of_nat q) qs = Some q"
  by (induction qs) auto

lemma paused_stays:
  assumes "jm_get (subscriptions s) e = Some sub" and "paused sub"
  shows "subscriptions (run_events slice_step (replicate n (AppEvent e p ts now)) s) = subscriptions s"
  using assms
proof (induction n arbitrary: s)
  case (Suc n)
  let ?s = "s\<lparr>history := recordAppEvent e p ts now (history s)\<rparr>"
  have "deliver e ?s = ?s" using Suc.prems by (intro deliver_idle) simp
  then have "subscriptions (slice_step (AppEvent e p ts now) s) = subscriptions s"
    by (simp add: dispatchAppEvent_def Let_def)
  with Suc show ?case by simp
qed simp

text \<open>C40: a slow consumer. If 129 or more events have been dispatched since the last delivery of a paused
  subscription, the acknowledgement that resumes it delivers from beyond the next event on: that event is
  gone, and nothing tells the plugin. (The contract of the slice is at-least-once delivery with explicit
  degradation: an expired cursor is to be rejected with \<open>EVENT_CURSOR_EXPIRED\<close>.)\<close>

theorem slow_consumer_skips:
  assumes "jm_get (subscriptions (run_events slice_step es fresh_slice)) e = Some sub" and "paused sub"
    and "lastDeliveredSeq sub + 129 \<le> length (named e (all_dispatched es))" and "q \<in> set (in_flight sub)"
    and "bucket (appEventHistory (history (run_events slice_step es fresh_slice))) e \<noteq> []"
  defines "s \<equiv> run_events slice_step es fresh_slice"
    and "ack \<equiv> JObject [(''event'', JString e), (''sequence'', JNum (of_nat q))]"
  shows "\<exists>out :: event_record list. emissions e (events_ack ack s) = emissions e s @ map (\<lambda>r. (er_payload r, cursorOf e (er_seq r))) out \<and>
    out \<noteq> [] \<and> list_all (\<lambda>r. Suc (lastDeliveredSeq sub) < er_seq r) out"
proof -
  note ok = reachable_slice_ok [of es, folded s_def]
  have sub: "jm_get (subscriptions s) e = Some sub" using assms(1) by (simp add: s_def)
  have so: "sub_ok e sub" using ok sub by (simp add: slice_ok_def)
  let ?sub = "acked q sub" and ?n = "length (named e (all_dispatched es))"
  let ?s = "s\<lparr>subscriptions := jm_set e ?sub (subscriptions s)\<rparr>" and ?b = "bucket (appEventHistory (history s)) e"
  have ok': "slice_ok (all_dispatched es) ?s" using ok so assms(4) by (simp add: slice_ok_set acked_ok)
  have get: "jm_get (subscriptions ?s) e = Some ?sub" "\<not> paused ?sub" by (simp_all add: acked_def)
  have "events_ack ack s = deliver e ?s"
    using sub assms(2) acked_length [OF so assms(4)] find_of_nat [OF assms(4)]
    by (simp add: ack_def events_ack_def Let_def acked_def)
  then have "emissions e (events_ack ack s)
      = emissions e s @ map (\<lambda>r. (er_payload r, cursorOf e (er_seq r))) (take (room ?sub) (undelivered ?s ?sub))"
    by (simp add: deliver_eq [OF ok' get] emissions_def emission_def filter_map comp_def)
  moreover have seqs: "map er_seq ?b = [Suc ?n - length ?b..<Suc ?n]" and "length ?b \<le> 128"
    using ok bucket_seqs(1) by (auto simp: slice_ok_def history_ok_def APP_EVENT_HISTORY_PER_EVENT_def)
  then have beyond: "Suc (lastDeliveredSeq sub) < er_seq r" if "r \<in> set ?b" for r
  proof -
    have "er_seq r \<in> set (map er_seq ?b)" using that by simp
    then have "Suc ?n - length ?b \<le> er_seq r" unfolding seqs by (simp del: upt_Suc)
    with \<open>length ?b \<le> 128\<close> assms(3) show ?thesis by linarith
  qed
  then have "list_all (\<lambda>r. Suc (lastDeliveredSeq sub) < er_seq r) (take (room ?sub) (undelivered ?s ?sub))"
    using so by (auto simp: list_all_iff undelivered_def acked_def sub_ok_def dest!: in_set_takeD)
  moreover have "take (room ?sub) (undelivered ?s ?sub) \<noteq> []"
  proof -
    have held: "?b \<noteq> []" using assms(5) by (simp add: s_def)
    then have "last ?b \<in> set ?b" by simp
    then have "last ?b \<in> set (undelivered ?s ?sub)"
      using beyond [of "last ?b"] so by (simp add: undelivered_def acked_def sub_ok_def)
    moreover have "0 < room ?sub" using acked_length [OF so assms(4)] by (simp add: room_def acked_def)
    ultimately show ?thesis by (cases "undelivered ?s ?sub"; cases "room ?sub") auto
  qed
  ultimately show ?thesis by (intro exI conjI)
qed

definition one_in_flight :: json where
  "one_in_flight = JObject [(''event'', JString ''chat.opened''), (''maxInFlight'', JNum 1)]"

definition stalled :: slice where
  "stalled = run_events slice_step [Subscribe one_in_flight, chat_opened, chat_opened] fresh_slice"

lemma stalled_state:
  "jm_get (subscriptions stalled) ''chat.opened''
    = Some \<lparr>s_event = ''chat.opened'', lastDeliveredSeq = 1, in_flight = [1], maxInFlight = 1, paused = True\<rparr>"
  by code_simp

lemma dispatched_replicate: "concat (replicate n (dispatched chat_opened)) = replicate n (''chat.opened'', JNull)"
  by (induction n) (simp_all add: chat_opened_def)

lemma bucket_after_dispatch:
  "bucket (appEventHistory (history (run_events slice_step (es @ [chat_opened]) fresh_slice))) ''chat.opened'' \<noteq> []"
proof -
  let ?s = "run_events slice_step es fresh_slice"
  have "history_ok (all_dispatched es) (history ?s)" using reachable_slice_ok by (simp add: slice_ok_def)
  from record_newest [OF this, of 0 0 "''chat.opened''" JNull]
  have "bucket (appEventHistory (recordAppEvent ''chat.opened'' JNull 0 0 (history ?s))) ''chat.opened'' \<noteq> []"
    by (auto simp: APP_EVENT_HISTORY_TTL_MS_def)
  moreover have "history (deliver e s) = history s" for e s
    by (simp add: deliver_def Let_def case_prod_beta split: option.splits)
  ultimately show ?thesis by (simp add: chat_opened_def dispatchAppEvent_def Let_def)
qed

text \<open>One delivery unacknowledged, then 129 events more than the buffer can hold for it.\<close>

definition overrun :: "slice_event list" where
  "overrun = Subscribe one_in_flight # replicate 131 chat_opened"

lemma overrun_eq: "overrun = [Subscribe one_in_flight, chat_opened, chat_opened] @ replicate 129 chat_opened"
  by (simp add: overrun_def eval_nat_numeral)

lemma overrun_state:
  "jm_get (subscriptions (run_events slice_step overrun fresh_slice)) ''chat.opened''
    = Some \<lparr>s_event = ''chat.opened'', lastDeliveredSeq = 1, in_flight = [1], maxInFlight = 1, paused = True\<rparr>"
proof -
  have "subscriptions (run_events slice_step (replicate 129 chat_opened) stalled) = subscriptions stalled"
    unfolding chat_opened_def by (rule paused_stays [OF stalled_state]) simp
  then show ?thesis
    unfolding overrun_eq run_events_append stalled_def [symmetric] by (simp add: stalled_state)
qed

lemma slow_consumer_skips_witness:
  "\<exists>out :: event_record list. emissions ''chat.opened'' (events_ack (JObject [(''event'', JString ''chat.opened''), (''sequence'', JNum (of_nat 1))])
        (run_events slice_step overrun fresh_slice))
      = emissions ''chat.opened'' (run_events slice_step overrun fresh_slice)
        @ map (\<lambda>r. (er_payload r, cursorOf ''chat.opened'' (er_seq r))) out \<and>
    out \<noteq> [] \<and> list_all (\<lambda>r. Suc 1 < er_seq r) out"
proof -
  have "overrun = (Subscribe one_in_flight # replicate 130 chat_opened) @ [chat_opened]"
    by (simp add: overrun_def eval_nat_numeral replicate_append_same)
  then have held: "bucket (appEventHistory (history (run_events slice_step overrun fresh_slice))) ''chat.opened'' \<noteq> []"
    using bucket_after_dispatch by metis
  have "length (named ''chat.opened'' (all_dispatched overrun)) = 131"
    by (simp add: overrun_def dispatched_replicate named_def)
  then show ?thesis
    using slow_consumer_skips [OF overrun_state _ _ _ held, of 1] by simp
qed

text \<open>A revoked grant. A grant of \<open>chats.read.current\<close> that is revoked is to stop the delivery of chat
  content at emit time, and an arriving event is indeed withheld; but an acknowledgement that resumes a
  paused subscription delivers the retained content all the same.\<close>

definition read_content :: json where
  "read_content = JObject [(''event'', JString ''generation.delta''), (''maxInFlight'', JNum 1)]"

definition delta :: "string \<Rightarrow> slice_event" where
  "delta t = AppEvent ''generation.delta'' (JString t) 0 0"

theorem revoked_reader_still_served:
  "let s = run_events slice_step [SetGrant True, Subscribe read_content, delta ''a'', delta ''b'', SetGrant False] fresh_slice;
       s' = run_events slice_step [delta ''c'', Ack (JObject [(''event'', JString ''generation.delta''), (''sequence'', JNum 1)])] s
   in chats_granted s' = False \<and> emissions ''generation.delta'' s = [(JString ''a'', ''generation.delta:1'')] \<and>
      emissions ''generation.delta'' (slice_step (delta ''c'') s) = emissions ''generation.delta'' s \<and>
      emissions ''generation.delta'' s' = [(JString ''a'', ''generation.delta:1''), (JString ''b'', ''generation.delta:2'')]"
  by code_simp

lemma parse_cursorOf: "int c \<le> MAX_SAFE_INTEGER \<Longrightarrow> parseCursor e (JString (cursorOf e c)) = Some c"
  by (simp add: parseCursor_def cursorOf_def startsWith_def list_all_iff Let_def)

text \<open>The global cap: after 4096 events of another name the bucket of this one is empty.\<close>

lemma order_fill:
  assumes "length (appEventHistoryOrder h) \<le> 4096"
    and "appEventHistoryOrder h = pre @ suf" and "\<forall>x \<in> set suf. fst x = e" and "length suf = min k 4096"
  shows "\<exists>pre' suf'. appEventHistoryOrder (recordAppEvent e p ts now h) = pre' @ suf' \<and>
    (\<forall>x \<in> set suf'. fst x = e) \<and> length suf' = min (Suc k) 4096"
proof -
  let ?x = "(e, Suc (seq_of h e))"
  have order: "appEventHistoryOrder (recordAppEvent e p ts now h) = drop (Suc (length (pre @ suf)) - 4096) (pre @ suf @ [?x])"
    using assms(2) by (simp add: record_bucket(2) APP_EVENT_HISTORY_TOTAL_def)
  have snoc: ?thesis if "appEventHistoryOrder (recordAppEvent e p ts now h) = pre' @ (suf' @ [?x])"
    and "set suf' \<subseteq> set suf" and "Suc (length suf') = min (Suc k) 4096" for pre' suf'
    using that assms(3) by (intro exI [of _ pre'] exI [of _ "suf' @ [?x]"]) auto
  show ?thesis
  proof (cases "length (pre @ suf) < 4096")
    case True
    with assms(4) show ?thesis by (intro snoc [of pre suf]) (auto simp: order)
  next
    case False
    then have full: "length (pre @ suf) = 4096" using assms(1,2) by simp
    then have order1: "appEventHistoryOrder (recordAppEvent e p ts now h) = drop 1 (pre @ suf @ [?x])"
      by (simp only: order) simp
    show ?thesis
    proof (cases pre)
      case (Cons y pre')
      with full assms(4) show ?thesis by (intro snoc [of pre' suf]) (auto simp: order1)
    next
      case Nil
      with full obtain y suf' where "suf = y # suf'" by (cases suf) auto
      with full Nil assms(4) show ?thesis by (intro snoc [of "[]" suf']) (auto simp: order1)
    qed
  qed
qed

lemma history_deliver [simp]: "history (deliver e s) = history s"
  by (simp add: deliver_def Let_def case_prod_beta split: option.splits)

lemma history_dispatch: "history (dispatchAppEvent e p ts now s) = recordAppEvent e p ts now (history s)"
  by (simp add: dispatchAppEvent_def Let_def)

lemma orders_fill:
  assumes "slice_ok L s"
  shows "\<exists>pre suf. appEventHistoryOrder (history (run_events slice_step (replicate k (AppEvent e p ts now)) s)) = pre @ suf \<and>
    (\<forall>x \<in> set suf. fst x = e) \<and> length suf = min k 4096"
proof (induction k)
  case 0
  show ?case by (intro exI [of _ "appEventHistoryOrder (history s)"] exI [of _ "[]"]) simp
next
  case (Suc k)
  let ?s = "run_events slice_step (replicate k (AppEvent e p ts now)) s"
  have "length (appEventHistoryOrder (history ?s)) \<le> 4096"
    using run_slice_ok [OF assms, of "replicate k (AppEvent e p ts now)"]
    by (simp add: slice_ok_def history_ok_def APP_EVENT_HISTORY_TOTAL_def)
  moreover have "run_events slice_step (replicate (Suc k) (AppEvent e p ts now)) s = dispatchAppEvent e p ts now ?s"
    by (simp only: replicate_Suc replicate_append_same [symmetric] run_events_append run_events_Cons run_events_Nil slice_step.simps)
  moreover obtain pre suf where "appEventHistoryOrder (history ?s) = pre @ suf" "\<forall>x \<in> set suf. fst x = e"
    "length suf = min k 4096" using Suc.IH by blast
  ultimately show ?case
    using order_fill [of "history ?s" pre suf e k p ts now] by (simp only: history_dispatch)
qed

lemma others_empty_bucket:
  assumes ok: "slice_ok L s" and "e' \<noteq> e"
  shows "bucket (appEventHistory (history (run_events slice_step (replicate 4096 (AppEvent e p ts now)) s))) e' = []"
proof -
  let ?s = "run_events slice_step (replicate 4096 (AppEvent e p ts now)) s"
  obtain pre suf where o: "appEventHistoryOrder (history ?s) = pre @ suf" "\<forall>x \<in> set suf. fst x = e" "length suf = 4096"
    using orders_fill [OF ok, of 4096 e p ts now] by auto
  have run: "history_ok (L @ all_dispatched (replicate 4096 (AppEvent e p ts now))) (history ?s)"
    using run_slice_ok [OF ok] unfolding slice_ok_def by (rule conjunct1)
  then have "length (appEventHistoryOrder (history ?s)) \<le> 4096" by (simp add: history_ok_def APP_EVENT_HISTORY_TOTAL_def)
  with o have "pre = []" by simp
  with o have "\<forall>x \<in> set (appEventHistoryOrder (history ?s)). fst x = e" by simp
  moreover have "covers (appEventHistoryOrder (history ?s)) (appEventHistory (history ?s))"
    using run by (simp add: history_ok_def)
  ultimately show ?thesis
    using assms(2) unfolding covers_def by (metis fst_conv list.set_intros(1) neq_Nil_conv)
qed

text \<open>An expired cursor. Once the buffer holds no record of an event (4096 events of another name are
  enough, however few of this one there were), any cursor for it is accepted, whether it is older than what
  was lost or in the future: nothing is replayed and nothing refused, where the slice promises to reject
  cursors outside the retained window.\<close>

theorem empty_buffer_accepts_any_cursor:
  assumes "bucket (appEventHistory (history (run_events slice_step es fresh_slice))) e = []"
    and "e \<in> set ALLOWED_EVENTS" and "\<not> content_denied e (run_events slice_step es fresh_slice)"
    and "int c \<le> MAX_SAFE_INTEGER"
  defines "s \<equiv> run_events slice_step es fresh_slice"
    and "params \<equiv> JObject [(''event'', JString e), (''cursor'', JString (cursorOf e c))]"
  shows "fst (events_subscribe params s) = None \<and>
    emissions e (snd (events_subscribe params s)) = emissions e s \<and>
    map_option lastDeliveredSeq (jm_get (subscriptions (snd (events_subscribe params s))) e) = Some c"
proof -
  have w: "kernelAppEventHistoryAfter (history s) e seq = \<lparr>w_records = [], w_lowestSeq = None, w_headSeq = None\<rparr>" for seq
    using assms(1) by (simp add: kernelAppEventHistoryAfter_def s_def)
  have name: "e \<noteq> []" "length e \<le> MAX_EVENT_NAME_LENGTH"
    using assms(2) by (auto simp: ALLOWED_EVENTS_def BROWSER_APP_EVENTS_def MAX_EVENT_NAME_LENGTH_def)
  let ?s = "add_relay e (s\<lparr>subscriptions := jm_set e (subscription_at e c DEFAULT_MAX_IN_FLIGHT) (subscriptions s)\<rparr>)"
  have "resume_at e (JString (cursorOf e c)) DEFAULT_MAX_IN_FLIGHT s = Inr (subscription_at e c DEFAULT_MAX_IN_FLIGHT)"
    using parse_cursorOf [OF assms(4), of e] by (simp add: resume_at_def w)
  moreover have "\<not> content_denied e s" using assms(3) by (simp add: s_def)
  ultimately have "events_subscribe params s = (None, deliver e ?s)"
    using name assms(2) by (simp add: events_subscribe_def params_def max_in_flight_param_def)
  moreover have "subscriptions (deliver e ?s) = subscriptions ?s" and "emitted (deliver e ?s) = emitted s"
    by (simp_all add: deliver_def subscription_at_def w Let_def jm_set_twice)
  ultimately show ?thesis
    by (simp_all add: emissions_def subscription_at_def)
qed

definition crowded_out :: "slice_event list" where
  "crowded_out = chat_opened # replicate 4096 (delta [])"

lemma empty_buffer_accepts_any_cursor_witness:
  "fst (events_subscribe (JObject [(''event'', JString ''chat.opened''), (''cursor'', JString (cursorOf ''chat.opened'' 7))])
      (run_events slice_step crowded_out fresh_slice)) = None"
proof -
  have "slice_ok [(''chat.opened'', JNull)] (slice_step chat_opened fresh_slice)"
    using reachable_slice_ok [of "[chat_opened]"] by (simp add: chat_opened_def)
  from others_empty_bucket [OF this, of "''chat.opened''" "''generation.delta''"]
  have "bucket (appEventHistory (history (run_events slice_step crowded_out fresh_slice))) ''chat.opened'' = []"
    by (simp add: crowded_out_def delta_def)
  then show ?thesis
    by (rule empty_buffer_accepts_any_cursor [THEN conjunct1])
       (simp_all add: ALLOWED_EVENTS_def BROWSER_APP_EVENTS_def content_denied_def CHAT_CONTENT_EVENTS_def MAX_SAFE_INTEGER_def)
qed

end
