(* ===== verification/Identifiers.thy ===== *)
theory Identifiers
  imports Prelude "HOL-Library.Word" "HOL-Library.List_Lexorder" "HOL-Library.Char_ord"
begin

text \<open>
  Entity identifiers (\<open>packages/shared/src/id.ts\<close>): UUIDv7 strings that a process mints in increasing order.
  The clock reading and the random draw of a call are arguments; the two module variables are the state. A
  text is compared as SQLite compares it, code unit by code unit.
\<close>

section \<open>Minting\<close>

type_synonym rand74 = "74 word"

record uuid_state =
  lastUuidV7Timestamp :: int
  lastUuidV7Random :: rand74

definition initial_uuid_state :: uuid_state where
  "initial_uuid_state = \<lparr>lastUuidV7Timestamp = - 1, lastUuidV7Random = 0\<rparr>"

text \<open>A call draws at most one random number: \<open>draw\<close>.\<close>

definition advance :: "int \<Rightarrow> rand74 \<Rightarrow> uuid_state \<Rightarrow> uuid_state" where
  "advance now draw st =
     (if lastUuidV7Timestamp st < now then \<lparr>lastUuidV7Timestamp = now, lastUuidV7Random = draw\<rparr>
      else (let r = lastUuidV7Random st + 1
            in if r = 0 then \<lparr>lastUuidV7Timestamp = lastUuidV7Timestamp st + 1, lastUuidV7Random = draw\<rparr>
               else st\<lparr>lastUuidV7Random := r\<rparr>))"

text \<open>\<open>DataView.setUint\<close> of \<open>k\<close> bytes, most significant first; the value is taken modulo \<open>256 ^ k\<close>.\<close>

fun be_bytes :: "nat \<Rightarrow> nat \<Rightarrow> nat list" where
  "be_bytes 0 n = []"
| "be_bytes (Suc k) n = n div 256 ^ k mod 256 # be_bytes k n"

definition uuid_bytes :: "uuid_state \<Rightarrow> nat list" where
  "uuid_bytes st =
     (let ts = nat (lastUuidV7Timestamp st); r = unat (lastUuidV7Random st);
          randA = r div 2 ^ 62; randB = r mod 2 ^ 62
      in be_bytes 4 (ts div 65536) @ be_bytes 2 (ts mod 65536) @ be_bytes 2 (7 * 4096 + randA)
         @ be_bytes 8 (2 * 2 ^ 62 + randB))"

definition hex_digit :: "nat \<Rightarrow> char" where
  "hex_digit d = (if d < 10 then char_of (48 + d) else char_of (87 + d))"

text \<open>\<open>toString(16).padStart(2, '0')\<close> of a byte.\<close>

definition hex_byte :: "nat \<Rightarrow> string" where
  "hex_byte b = [hex_digit (b div 16), hex_digit (b mod 16)]"

fun hex_dashed :: "nat \<Rightarrow> nat list \<Rightarrow> string" where
  "hex_dashed i [] = []"
| "hex_dashed i (b # bs) = hex_byte b @ (if i \<in> {3, 5, 7, 9} then ''-'' else []) @ hex_dashed (Suc i) bs"

definition uuidv7 :: "int \<Rightarrow> rand74 \<Rightarrow> uuid_state \<Rightarrow> string \<times> uuid_state" where
  "uuidv7 now draw st = (let st' = advance now draw st in (hex_dashed 0 (uuid_bytes st'), st'))"

text \<open>The calls of a process, with what each reads from the clock and draws.\<close>

fun mint :: "(int \<times> rand74) list \<Rightarrow> uuid_state \<Rightarrow> string list \<times> uuid_state" where
  "mint [] st = ([], st)"
| "mint ((now, draw) # calls) st =
     (let (i, st1) = uuidv7 now draw st; (is, st2) = mint calls st1 in (i # is, st2))"

definition randomToken :: "nat list \<Rightarrow> string" where
  "randomToken bytes = concat (map hex_byte bytes)"

definition is_hex :: "char \<Rightarrow> bool" where
  "is_hex c = (let n = of_char c :: nat in 48 \<le> n \<and> n \<le> 57 \<or> 97 \<le> n \<and> n \<le> 102 \<or> 65 \<le> n \<and> n \<le> 70)"

text \<open>Groups of hexadecimal digits of the given lengths, separated by dashes.\<close>

fun hex_groups :: "nat list \<Rightarrow> string \<Rightarrow> bool" where
  "hex_groups [] s = (s = [])"
| "hex_groups [n] s = (length s = n \<and> list_all is_hex s)"
| "hex_groups (n # m # ns) s =
     (n < length s \<and> list_all is_hex (take n s) \<and> s ! n = CHR ''-'' \<and> hex_groups (m # ns) (drop (Suc n) s))"

definition isUuid :: "string \<Rightarrow> bool" where
  "isUuid s = hex_groups [8, 4, 4, 4, 12] s"

section \<open>Order\<close>

text \<open>The state of the generator is ordered by timestamp and counter, and every call moves it up.\<close>

definition uuid_less :: "uuid_state \<Rightarrow> uuid_state \<Rightarrow> bool" where
  "uuid_less a b \<longleftrightarrow> lastUuidV7Timestamp a < lastUuidV7Timestamp b \<or>
     lastUuidV7Timestamp a = lastUuidV7Timestamp b \<and> lastUuidV7Random a < lastUuidV7Random b"

lemma word_plus_one_less:
  fixes r :: rand74
  assumes "r + 1 \<noteq> 0"
  shows "r < r + 1"
  using assms by (simp add: word_less_nat_alt unatSuc add.commute [of r])

lemma advance_less: "uuid_less st (advance now draw st)"
  using word_plus_one_less by (auto simp: uuid_less_def advance_def Let_def)

lemma uuid_less_trans: "uuid_less a b \<Longrightarrow> uuid_less b c \<Longrightarrow> uuid_less a c"
  by (auto simp: uuid_less_def)

lemma length_be_bytes [simp]: "length (be_bytes k n) = k"
  by (induction k) simp_all

lemma list_less_append:
  fixes xs ys us vs :: "'a :: linorder list"
  assumes "length xs = length us"
  shows "xs @ ys < us @ vs \<longleftrightarrow> xs < us \<or> xs = us \<and> ys < vs"
  using assms by (induction xs us rule: list_induct2) auto

lemma be_bytes_mod: "k \<le> m \<Longrightarrow> be_bytes k (n mod 256 ^ m) = be_bytes k n"
proof (induction k)
  case (Suc k)
  have "n mod 256 ^ m div 256 ^ k mod 256 = n div 256 ^ k mod 256"
  proof -
    obtain d where m: "m = Suc k + d" using Suc.prems le_Suc_ex by blast
    have "256 ^ m = 256 ^ k * (256 ^ Suc d :: nat)" by (simp add: m power_add)
    then have "n mod 256 ^ m div 256 ^ k = n div 256 ^ k mod 256 ^ Suc d"
      by (simp only: mod_mult2_eq) simp
    then show ?thesis by (simp add: mod_mod_cancel)
  qed
  with Suc show ?case by simp
qed simp

text \<open>Big-endian bytes compare as the numbers they stand for.\<close>

lemma less_iff_div_mod:
  fixes a b q :: nat
  assumes "0 < q"
  shows "a < b \<longleftrightarrow> a div q < b div q \<or> a div q = b div q \<and> a mod q < b mod q"
proof (cases "a div q" "b div q" rule: linorder_cases)
  case less
  then show ?thesis using div_le_mono [of b a q] by fastforce
next
  case equal
  have "a = q * (a div q) + a mod q" "b = q * (b div q) + b mod q" by simp_all
  with equal show ?thesis by (metis nat_add_left_cancel_less order_less_irrefl)
next
  case greater
  then show ?thesis using div_le_mono [of a b q] by fastforce
qed

lemma be_bytes_less:
  "a < 256 ^ k \<Longrightarrow> b < 256 ^ k \<Longrightarrow> be_bytes k a < be_bytes k b \<longleftrightarrow> a < b"
proof (induction k arbitrary: a b)
  case (Suc k)
  let ?q = "256 ^ k :: nat"
  have top: "n div ?q mod 256 = n div ?q" if "n < 256 ^ Suc k" for n
    using that by (simp add: less_mult_imp_div_less)
  have low: "be_bytes k n = be_bytes k (n mod ?q)" for n using be_bytes_mod [of k k n] by simp
  have IH: "be_bytes k (a mod ?q) < be_bytes k (b mod ?q) \<longleftrightarrow> a mod ?q < b mod ?q" by (rule Suc.IH) simp_all
  have "be_bytes (Suc k) a < be_bytes (Suc k) b \<longleftrightarrow> a div ?q < b div ?q \<or> a div ?q = b div ?q \<and> a mod ?q < b mod ?q"
    using top Suc.prems low [of a] low [of b] IH by simp
  also have "\<dots> \<longleftrightarrow> a < b"
    by (rule less_iff_div_mod [symmetric]) simp
  finally show ?case .
qed simp

lemma be_bytes_eq: "a < 256 ^ k \<Longrightarrow> b < 256 ^ k \<Longrightarrow> be_bytes k a = be_bytes k b \<longleftrightarrow> a = b"
  using be_bytes_less [of a k b] be_bytes_less [of b k a] by (metis linorder_neq_iff order_less_irrefl)

lemma unat_rand74 [simp]: "unat (r :: rand74) div 2 ^ 62 < 4096"
proof -
  have "unat r < 2 ^ 74" using unsigned_less [where ?'a = nat and w = r] by simp
  then show ?thesis by (simp add: less_mult_imp_div_less)
qed

definition timestamp_fits :: "uuid_state \<Rightarrow> bool" where
  "timestamp_fits st \<longleftrightarrow> 0 \<le> lastUuidV7Timestamp st \<and> lastUuidV7Timestamp st < 2 ^ 48"

lemma timestamp_fields:
  assumes "timestamp_fits st"
  shows "nat (lastUuidV7Timestamp st) div 65536 < 256 ^ 4" and "nat (lastUuidV7Timestamp st) mod 65536 < 256 ^ 2"
proof -
  have "nat (lastUuidV7Timestamp st) < 2 ^ 48" using assms by (simp add: timestamp_fits_def nat_less_iff)
  then show "nat (lastUuidV7Timestamp st) div 65536 < 256 ^ 4" by (simp add: less_mult_imp_div_less)
qed simp

lemma rand_fields:
  "7 * 4096 + unat (r :: rand74) div 2 ^ 62 < 256 ^ 2" "2 * 2 ^ 62 + unat r mod 2 ^ 62 < 256 ^ 8"
proof -
  have "unat r div 2 ^ 62 < 4096" by (rule unat_rand74)
  then show "7 * 4096 + unat r div 2 ^ 62 < 256 ^ 2" by simp
  have "unat r mod 2 ^ 62 < 2 ^ 62" by simp
  then show "2 * 2 ^ 62 + unat r mod 2 ^ 62 < 256 ^ 8" by simp
qed

lemma uuid_bytes_less:
  assumes "uuid_less a b" and "timestamp_fits a" and "timestamp_fits b"
  shows "uuid_bytes a < uuid_bytes b"
proof -
  let ?ta = "nat (lastUuidV7Timestamp a)" and ?tb = "nat (lastUuidV7Timestamp b)"
  let ?ra = "unat (lastUuidV7Random a)" and ?rb = "unat (lastUuidV7Random b)"
  note less = be_bytes_less [OF timestamp_fields(1) [OF assms(2)] timestamp_fields(1) [OF assms(3)]]
    be_bytes_less [OF timestamp_fields(2) [OF assms(2)] timestamp_fields(2) [OF assms(3)]]
    be_bytes_less [OF rand_fields(1) rand_fields(1), of "lastUuidV7Random a" "lastUuidV7Random b"]
    be_bytes_less [OF rand_fields(2) rand_fields(2), of "lastUuidV7Random a" "lastUuidV7Random b"]
  note eq = be_bytes_eq [OF timestamp_fields(1) [OF assms(2)] timestamp_fields(1) [OF assms(3)]]
    be_bytes_eq [OF timestamp_fields(2) [OF assms(2)] timestamp_fields(2) [OF assms(3)]]
    be_bytes_eq [OF rand_fields(1) rand_fields(1), of "lastUuidV7Random a" "lastUuidV7Random b"]
  have "uuid_bytes a < uuid_bytes b \<longleftrightarrow> ?ta div 65536 < ?tb div 65536 \<or> ?ta div 65536 = ?tb div 65536 \<and>
      (?ta mod 65536 < ?tb mod 65536 \<or> ?ta mod 65536 = ?tb mod 65536 \<and>
        (?ra div 2 ^ 62 < ?rb div 2 ^ 62 \<or> ?ra div 2 ^ 62 = ?rb div 2 ^ 62 \<and> ?ra mod 2 ^ 62 < ?rb mod 2 ^ 62))"
    unfolding uuid_bytes_def Let_def
    by (simp only: list_less_append length_be_bytes less eq nat_add_left_cancel_less add_left_cancel)
  also have "\<dots> \<longleftrightarrow> ?ta < ?tb \<or> ?ta = ?tb \<and> ?ra < ?rb"
    using less_iff_div_mod [of 65536 ?ta ?tb] less_iff_div_mod [of "2 ^ 62" ?ra ?rb] div_mult_mod_eq [of ?ta 65536] div_mult_mod_eq [of ?tb 65536]
    by (metis zero_less_numeral zero_less_power)
  also have "\<dots>" using assms by (auto simp: uuid_less_def timestamp_fits_def word_less_nat_alt)
  finally show ?thesis .
qed

lemma hex_digit_less: "a < b \<Longrightarrow> b < 16 \<Longrightarrow> hex_digit a < hex_digit b"
  by (auto simp: hex_digit_def less_char_def)

lemma hex_byte_less:
  assumes "a < b" and "b < 256"
  shows "hex_byte a < hex_byte b"
proof -
  have "b div 16 < 16" using assms(2) by (simp add: less_mult_imp_div_less)
  then show ?thesis
    using assms(1) less_iff_div_mod [of 16 a b] hex_digit_less [of "a div 16" "b div 16"] hex_digit_less [of "a mod 16" "b mod 16"]
    by (auto simp: hex_byte_def)
qed

lemma hex_dashed_less:
  assumes "length xs = length ys" and "xs < ys" and "list_all (\<lambda>b. b < 256) ys"
  shows "hex_dashed i xs < hex_dashed i ys"
  using assms
proof (induction xs ys arbitrary: i rule: list_induct2)
  case (Cons x xs y ys)
  have len: "length (hex_byte x) = length (hex_byte y)" by (simp add: hex_byte_def)
  show ?case
  proof (cases "x = y")
    case True
    with Cons show ?thesis by (simp add: list_less_append)
  next
    case False
    with Cons.prems have "x < y" and "y < 256" by auto
    then have "hex_byte x < hex_byte y" by (rule hex_byte_less)
    then show ?thesis by (simp only: hex_dashed.simps list_less_append [OF len] simp_thms)
  qed
qed simp

lemma be_bytes_small: "list_all (\<lambda>b. b < 256) (be_bytes k n)"
  by (induction k) simp_all

lemma uuid_bytes_shape: "length (uuid_bytes st) = 16" "list_all (\<lambda>b. b < 256) (uuid_bytes st)"
  using be_bytes_small by (simp_all add: uuid_bytes_def Let_def)

lemma uuid_text_less:
  assumes "uuid_less a b" and "timestamp_fits a" and "timestamp_fits b"
  shows "hex_dashed 0 (uuid_bytes a) < hex_dashed 0 (uuid_bytes b)"
  using uuid_bytes_shape uuid_bytes_less [OF assms] by (intro hex_dashed_less) simp_all

section \<open>What the rest of the program relies on\<close>

lemma mint_state_ge:
  "lastUuidV7Timestamp st \<le> lastUuidV7Timestamp (snd (mint calls st))"
proof (induction calls arbitrary: st)
  case (Cons c calls)
  obtain now draw where c: "c = (now, draw)" by (cases c)
  have "lastUuidV7Timestamp st \<le> lastUuidV7Timestamp (advance now draw st)"
    using advance_less [of st now draw] by (auto simp: uuid_less_def)
  also have "\<dots> \<le> lastUuidV7Timestamp (snd (mint calls (advance now draw st)))" by (rule Cons.IH)
  finally show ?case by (simp add: c uuidv7_def Let_def split_beta)
qed simp

text \<open>The states behind the ids minted, in order.\<close>

fun mint_states :: "(int \<times> rand74) list \<Rightarrow> uuid_state \<Rightarrow> uuid_state list" where
  "mint_states [] st = []"
| "mint_states ((now, draw) # calls) st = advance now draw st # mint_states calls (advance now draw st)"

lemma mint_texts: "fst (mint calls st) = map (\<lambda>s. hex_dashed 0 (uuid_bytes s)) (mint_states calls st)"
  by (induction calls st rule: mint.induct) (simp_all add: uuidv7_def Let_def split_beta)

lemma mint_states_above: "s \<in> set (mint_states calls st) \<Longrightarrow> uuid_less st s"
proof (induction calls st rule: mint_states.induct)
  case (2 now draw calls st)
  then show ?case by (auto intro: advance_less uuid_less_trans [OF advance_less])
qed simp

lemma mint_states_sorted: "sorted_wrt uuid_less (mint_states calls st)"
  by (induction calls st rule: mint_states.induct) (auto dest: mint_states_above)

lemma mint_states_below: "s \<in> set (mint_states calls st) \<Longrightarrow> lastUuidV7Timestamp s \<le> lastUuidV7Timestamp (snd (mint calls st))"
proof (induction calls st rule: mint_states.induct)
  case (2 now draw calls st)
  then show ?case
    using mint_state_ge [of "advance now draw st" calls] by (auto simp: uuidv7_def Let_def split_beta)
qed simp

lemma mint_states_fit:
  assumes "list_all (\<lambda>c. 0 \<le> fst c) calls \<and> - 1 \<le> lastUuidV7Timestamp st" and "lastUuidV7Timestamp (snd (mint calls st)) < 2 ^ 48"
    and "s \<in> set (mint_states calls st)"
  shows "timestamp_fits s"
proof -
  have "0 \<le> lastUuidV7Timestamp s" using assms(1,3)
  proof (induction calls st rule: mint_states.induct)
    case (2 now draw calls st)
    have "0 \<le> lastUuidV7Timestamp (advance now draw st)"
      using 2(2) by (auto simp: advance_def Let_def)
    with 2 show ?case by auto
  qed simp
  with mint_states_below [OF assms(3)] assms(2) show ?thesis by (simp add: timestamp_fits_def)
qed

text \<open>Identifiers come in the order they are minted. Whatever the clock does between the calls (it may
  stand still or go back) and whatever the random numbers are, the ids of a process are strictly increasing as
  texts, so no two are equal and rows with one creation time sort in the order of their insertion. The clock is
  one that 48 bits hold, until the year 10889.\<close>

theorem ids_increase:
  assumes "list_all (\<lambda>c. 0 \<le> fst c) calls" and "lastUuidV7Timestamp (snd (mint calls initial_uuid_state)) < 2 ^ 48"
  shows "sorted_wrt (<) (fst (mint calls initial_uuid_state))"
proof -
  have fit: "timestamp_fits s" if "s \<in> set (mint_states calls initial_uuid_state)" for s
    using mint_states_fit [OF _ assms(2) that] assms(1) by (simp add: initial_uuid_state_def)
  have "sorted_wrt (\<lambda>a b. hex_dashed 0 (uuid_bytes a) < hex_dashed 0 (uuid_bytes b)) (mint_states calls initial_uuid_state)"
    by (rule sorted_wrt_mono_rel [OF _ mint_states_sorted]) (blast intro: uuid_text_less fit)
  then show ?thesis by (simp add: mint_texts sorted_wrt_map)
qed

text \<open>The third call reads a clock that went back, the fourth exhausts the counter.\<close>

lemma ids_increase_witness:
  "sorted_wrt (<) (fst (mint [(5, 1), (5, 7), (3, 0), (9, - 1), (9, 4)] initial_uuid_state))"
  by (rule ids_increase) (simp_all add: uuidv7_def Let_def split_beta advance_def initial_uuid_state_def)

lemma hex_digit_is_hex: "d < 16 \<Longrightarrow> is_hex (hex_digit d)"
  by (auto simp: is_hex_def hex_digit_def Let_def)

lemma hex_byte_is_hex: "b < 256 \<Longrightarrow> list_all is_hex (hex_byte b)"
  by (simp add: hex_byte_def hex_digit_is_hex less_mult_imp_div_less)

lemma hex_groups_dash:
  "length xs = n \<Longrightarrow> list_all is_hex xs \<Longrightarrow> hex_groups (m # ns) ys \<Longrightarrow> hex_groups (n # m # ns) (xs @ ''-'' @ ys)"
  by (simp add: nth_append)

text \<open>Every id minted passes \<open>isUuid\<close>.\<close>

theorem minted_is_uuid: "isUuid (fst (uuidv7 now draw st))"
proof -
  obtain bs where bs: "uuid_bytes (advance now draw st) = bs" "length bs = 16" "list_all (\<lambda>b. b < 256) bs"
    using uuid_bytes_shape by blast
  then obtain b0 b1 b2 b3 b4 b5 b6 b7 b8 b9 b10 b11 b12 b13 b14 b15
    where b: "bs = [b0, b1, b2, b3, b4, b5, b6, b7, b8, b9, b10, b11, b12, b13, b14, b15]"
    by (auto simp: numeral_eq_Suc length_Suc_conv)
  have shape: "fst (uuidv7 now draw st) = (hex_byte b0 @ hex_byte b1 @ hex_byte b2 @ hex_byte b3) @ ''-''
      @ (hex_byte b4 @ hex_byte b5) @ ''-'' @ (hex_byte b6 @ hex_byte b7) @ ''-'' @ (hex_byte b8 @ hex_byte b9) @ ''-''
      @ (hex_byte b10 @ hex_byte b11 @ hex_byte b12 @ hex_byte b13 @ hex_byte b14 @ hex_byte b15)"
    by (simp add: uuidv7_def Let_def bs(1) b)
  have len: "length (hex_byte x) = 2" for x by (simp add: hex_byte_def)
  have hex: "\<forall>x \<in> set bs. list_all is_hex (hex_byte x)" using bs(3) by (auto simp: list_all_iff [of _ bs] hex_byte_is_hex)
  show ?thesis
    unfolding isUuid_def shape
    by (intro hex_groups_dash) (use hex in \<open>simp_all add: len b\<close>)
qed

end
