(* ===== verification/Chat_Snapshots.thy ===== *)
theory Chat_Snapshots
  imports Chat_Store Identifiers
begin

text \<open>
  Checkpoints and branches (\<open>packages/db/src/repositories/snapshots.ts\<close>): the messages of a chat's active
  branch up to a chosen one are copied, in batches, into a new chat, each with its variants, its edit history
  and its plugin blocks. The \<open>n\<close>-th id that the transaction mints is \<open>new_id n\<close>.
\<close>

section \<open>The copy\<close>

record snapshot_input =
  sn_parentChatId :: string
  sn_sourceMessageId :: string
  sn_kind :: string
  sn_title :: "string option"

definition SNAPSHOT_BATCH_SIZE :: nat where
  "SNAPSHOT_BATCH_SIZE = 500"

record copying =
  store :: db
  idMap :: "(string, string) jmap"
  copied :: nat
  reached :: bool
  minted :: nat

definition and_then :: "'e + 'a \<Rightarrow> ('a \<Rightarrow> 'e + 'b) \<Rightarrow> 'e + 'b" where
  "and_then r f = (case r of Inl e \<Rightarrow> Inl e | Inr x \<Rightarrow> f x)"

lemma and_then_simps [simp]: "and_then (Inl e) f = Inl e" "and_then (Inr x) f = f x"
  by (simp_all add: and_then_def)

definition copied_row :: "message_row \<Rightarrow> string \<Rightarrow> string \<Rightarrow> string \<Rightarrow> string option \<Rightarrow> message_row" where
  "copied_row row i child br parent = \<lparr>m_id = i, m_chatId = child, m_branchId = br, m_parentId = parent,
     m_role = m_role row, m_content = m_content row, m_name = m_name row, m_meta = m_meta row,
     m_createdAt = m_createdAt row, m_revision = 1, m_updatedAt = None, m_variantCount = m_variantCount row,
     m_activeVariantPosition = m_activeVariantPosition row, m_checkpointChatId = None,
     m_contentRevisionCount = m_contentRevisionCount row, m_idempotencyKey = None\<rparr>"

text \<open>One batch of rows: stops behind the source message. The result also lists the old ids.\<close>

fun copy_messages ::
  "string \<Rightarrow> string \<Rightarrow> string \<Rightarrow> (nat \<Rightarrow> string) \<Rightarrow> message_row list \<Rightarrow> copying \<Rightarrow> db_error + string list \<times> copying" where
  "copy_messages src child br new_id [] c = Inr ([], c)"
| "copy_messages src child br new_id (row # rows) c =
     (if reached c then Inr ([], c)
      else (let i = new_id (minted c);
                c1 = c\<lparr>reached := (m_id row = src), idMap := jm_set (m_id row) i (idMap c),
                       copied := Suc (copied c), minted := Suc (minted c)\<rparr>;
                parent = jm_get (idMap c1) (case m_parentId row of None \<Rightarrow> [] | Some p \<Rightarrow> p)
            in and_then (insert_message (copied_row row i child br parent) (store c1))
                 (\<lambda>s. and_then (copy_messages src child br new_id rows (c1\<lparr>store := s\<rparr>))
                        (\<lambda>(ids, c2). Inr (m_id row # ids, c2)))))"

text \<open>The rows attached to the messages of the batch; variants, edits and blocks are copied alike.\<close>

definition new_owner :: "(string, string) jmap \<Rightarrow> string \<Rightarrow> string option" where
  "new_owner m i = (case jm_get m i of Some (a # i') \<Rightarrow> Some (a # i') | _ \<Rightarrow> None)"

definition copied_text :: "string \<Rightarrow> string \<Rightarrow> archived_text \<Rightarrow> archived_text" where
  "copied_text i owner t = \<lparr>a_id = i, a_messageId = owner, a_position = a_position t, a_content = a_content t,
     a_createdAt = a_createdAt t\<rparr>"

fun copy_attached ::
  "('r \<Rightarrow> string) \<Rightarrow> (string \<Rightarrow> string \<Rightarrow> 'r \<Rightarrow> 'r) \<Rightarrow> ('r \<Rightarrow> 'r list \<Rightarrow> db_error + 'r list) \<Rightarrow> (string, string) jmap
    \<Rightarrow> (nat \<Rightarrow> string) \<Rightarrow> 'r list \<Rightarrow> nat \<times> 'r list \<Rightarrow> db_error + nat \<times> 'r list" where
  "copy_attached owner copy ins m new_id [] x = Inr x"
| "copy_attached owner copy ins m new_id (t # ts) (n, table) =
     (case new_owner m (owner t) of
        None \<Rightarrow> copy_attached owner copy ins m new_id ts (n, table)
      | Some i \<Rightarrow>
          and_then (ins (copy (new_id n) i t) table)
            (\<lambda>table'. copy_attached owner copy ins m new_id ts (Suc n, table')))"

definition texts_of :: "string list \<Rightarrow> archived_text list \<Rightarrow> archived_text list" where
  "texts_of oldIds table = sort_key (\<lambda>t. (a_position t, a_createdAt t)) (filter (\<lambda>t. a_messageId t \<in> set oldIds) table)"

definition copy_variants :: "(nat \<Rightarrow> string) \<Rightarrow> string list \<Rightarrow> copying \<Rightarrow> db_error + copying" where
  "copy_variants new_id oldIds c =
     and_then (copy_attached a_messageId copied_text (\<lambda>t. insert_archived t (map m_id (messages (store c)))) (idMap c) new_id
                 (texts_of oldIds (messageVariants (store c)))
                 (minted c, messageVariants (store c)))
       (\<lambda>(n, table). Inr (c\<lparr>store := (store c)\<lparr>messageVariants := table\<rparr>, minted := n\<rparr>))"

definition copy_revisions :: "(nat \<Rightarrow> string) \<Rightarrow> string list \<Rightarrow> copying \<Rightarrow> db_error + copying" where
  "copy_revisions new_id oldIds c =
     and_then (copy_attached a_messageId copied_text (\<lambda>t. insert_archived t (map m_id (messages (store c)))) (idMap c) new_id
                 (texts_of oldIds (messageContentRevisions (store c)))
                 (minted c, messageContentRevisions (store c)))
       (\<lambda>(n, table). Inr (c\<lparr>store := (store c)\<lparr>messageContentRevisions := table\<rparr>, minted := n\<rparr>))"

definition insert_block :: "block_row \<Rightarrow> string list \<Rightarrow> block_row list \<Rightarrow> db_error + block_row list" where
  "insert_block b ids bs =
     (if b_id b \<in> set (map b_id bs) then Inl UniqueConstraint
      else if b_messageId b \<notin> set ids then Inl ForeignKeyConstraint
      else Inr (bs @ [b]))"

definition copied_block :: "string \<Rightarrow> string \<Rightarrow> block_row \<Rightarrow> block_row" where
  "copied_block i owner b = b\<lparr>b_id := i, b_messageId := owner\<rparr>"

definition copy_blocks :: "(nat \<Rightarrow> string) \<Rightarrow> string list \<Rightarrow> copying \<Rightarrow> db_error + copying" where
  "copy_blocks new_id oldIds c =
     and_then (copy_attached b_messageId copied_block (\<lambda>b. insert_block b (map m_id (messages (store c)))) (idMap c) new_id
                 (filter (\<lambda>b. b_messageId b \<in> set oldIds) (messageBlocks (store c))) (minted c, messageBlocks (store c)))
       (\<lambda>(n, table). Inr (c\<lparr>store := (store c)\<lparr>messageBlocks := table\<rparr>, minted := n\<rparr>))"

definition after_key :: "(int \<times> string) option \<Rightarrow> message_row \<Rightarrow> bool" where
  "after_key cur m = (case cur of None \<Rightarrow> True
     | Some (c, i) \<Rightarrow> c < m_createdAt m \<or> m_createdAt m = c \<and> i < m_id m)"

definition next_batch :: "string \<Rightarrow> string \<Rightarrow> (int \<times> string) option \<Rightarrow> db \<Rightarrow> message_row list" where
  "next_batch parent active cur s = take SNAPSHOT_BATCH_SIZE (order_messages Asc
     (filter (\<lambda>m. m_chatId m = parent \<and> m_branchId m = active \<and> after_key cur m) (messages s)))"

partial_function (option) copy_batches ::
  "string \<Rightarrow> string \<Rightarrow> string \<Rightarrow> string \<Rightarrow> string \<Rightarrow> (nat \<Rightarrow> string) \<Rightarrow> (int \<times> string) option \<Rightarrow> copying
    \<Rightarrow> (db_error + copying) option" where
  "copy_batches parent active src child br new_id cur c =
     (if reached c then Some (Inr c)
      else (let batch = next_batch parent active cur (store c)
            in if batch = [] then Some (Inr c)
               else (case and_then (copy_messages src child br new_id batch c)
                         (\<lambda>(oldIds, c1). and_then (copy_variants new_id oldIds c1)
                            (\<lambda>c2. and_then (copy_revisions new_id oldIds c2) (copy_blocks new_id oldIds))) of
                       Inl e \<Rightarrow> Some (Inl e)
                     | Inr c' \<Rightarrow>
                         if length batch < SNAPSHOT_BATCH_SIZE then Some (Inr c')
                         else copy_batches parent active src child br new_id
                                (Some (m_createdAt (last batch), m_id (last batch))) c')))"

text \<open>One code unit stands for the em dash of the default title.\<close>

definition em_dash :: char where
  "em_dash = CHR 0x97"

definition child_row :: "chat_row \<Rightarrow> snapshot_input \<Rightarrow> string \<Rightarrow> string \<Rightarrow> int \<Rightarrow> chat_row" where
  "child_row parent input child br now = \<lparr>c_id = child, c_characterId = c_characterId parent, c_personaId = c_personaId parent,
     c_title = (case sn_title input of None \<Rightarrow> c_title parent @ '' '' @ [em_dash] @ '' '' @ sn_kind input | Some t \<Rightarrow> t),
     c_activeBranchId = Some br, c_backgroundId = c_backgroundId parent, c_summary = c_summary parent, c_messageCount = 0,
     c_createdAt = now, c_updatedAt = now, c_deletedAt = None, c_parentChatId = Some (c_id parent),
     c_origin = Some (sn_kind input), c_sourceMessageId = Some (sn_sourceMessageId input), c_sortOrder = 0\<rparr>"

definition createSnapshot ::
  "snapshot_input \<Rightarrow> (nat \<Rightarrow> string) \<Rightarrow> int \<Rightarrow> db \<Rightarrow> ((db_error + (chat \<times> nat) option) \<times> db) option" where
  "createSnapshot input new_id now s =
     (case get_chat (sn_parentChatId input) s of
        None \<Rightarrow> Some (Inr None, s)
      | Some parent \<Rightarrow>
     (case message_of s (sn_sourceMessageId input) of
        None \<Rightarrow> Some (Inr None, s)
      | Some m \<Rightarrow>
     (case c_activeBranchId parent of
        None \<Rightarrow> Some (Inr None, s)
      | Some active \<Rightarrow>
          if m_chatId m \<noteq> c_id parent \<or> m_branchId m \<noteq> active then Some (Inr None, s)
          else (let child = new_id 0; br = new_id 1 in
            (case and_then (insert_chat (child_row parent input child br now) s)
                    (insert_branch \<lparr>br_id = br, br_chatId = child, br_name = ''main'', br_createdAt = now\<rparr>) of
               Inl e \<Rightarrow> Some (Inl e, s)
             | Inr s1 \<Rightarrow>
                 map_option
                   (\<lambda>r. case r of
                          Inl e \<Rightarrow> (Inl e, s)
                        | Inr c \<Rightarrow>
                            if \<not> reached c then (Inl (Thrown ''SNAPSHOT_TARGET_UNREACHABLE''), s)
                            else (let s2 = update_chats (\<lambda>x. c_id x = child) (\<lambda>x. x\<lparr>c_messageCount := copied c\<rparr>) (store c)
                                  in case get_chat child s2 of
                                       None \<Rightarrow> (Inl (Thrown ''SNAPSHOT_CHILD_MISSING''), s)
                                     | Some row \<Rightarrow> (Inr (Some (chat.truncate row, copied c)), s2)))
                   (copy_batches (c_id parent) active (sn_sourceMessageId input) child br new_id None
                      \<lparr>store = s1, idMap = [], copied = 0, reached = False, minted = 2\<rparr>))))))"

section \<open>Batches in closed form\<close>

fun upto_message :: "string \<Rightarrow> message_row list \<Rightarrow> message_row list" where
  "upto_message i [] = []"
| "upto_message i (r # rs) = r # (if m_id r = i then [] else upto_message i rs)"

fun copied_rows :: "string \<Rightarrow> string \<Rightarrow> string \<Rightarrow> (nat \<Rightarrow> string) \<Rightarrow> message_row list \<Rightarrow> nat \<Rightarrow> (string, string) jmap \<Rightarrow> message_row list" where
  "copied_rows src child br new_id [] n m = []"
| "copied_rows src child br new_id (r # rs) n m =
     (let m1 = jm_set (m_id r) (new_id n) m
      in copied_row r (new_id n) child br (jm_get m1 (case m_parentId r of None \<Rightarrow> [] | Some p \<Rightarrow> p))
         # (if m_id r = src then [] else copied_rows src child br new_id rs (Suc n) m1))"

definition content_of :: "message_row \<Rightarrow> role \<times> string \<times> string option \<times> string \<times> int \<times> nat \<times> nat option \<times> nat" where
  "content_of m = (m_role m, m_content m, m_name m, m_meta m, m_createdAt m, m_variantCount m,
     m_activeVariantPosition m, m_contentRevisionCount m)"

lemma upt_step: "[n..<Suc (n + k)] = n # [Suc n..<Suc (n + k)]"
  by (rule upt_conv_Cons) simp

lemma copied_rows_facts:
  "map m_id (copied_rows src child br new_id rs n m) = map new_id [n..<n + length (upto_message src rs)]"
  "map content_of (copied_rows src child br new_id rs n m) = map content_of (upto_message src rs)"
  "list_all (\<lambda>r. m_chatId r = child \<and> m_branchId r = br) (copied_rows src child br new_id rs n m)"
  by (induction rs arbitrary: n m)
    (simp_all add: Let_def copied_row_def content_of_def upt_step del: upt_Suc)

lemma length_copied_rows [simp]: "length (copied_rows src child br new_id rs n m) = length (upto_message src rs)"
  using arg_cong [OF copied_rows_facts(2), of length] by simp

lemma copy_messages_eq:
  assumes "inj new_id" and "\<not> reached c" and "distinct (map m_id rs)" and "set (map m_id rs) \<inter> set (jm_keys (idMap c)) = {}"
    and "\<And>j. minted c \<le> j \<Longrightarrow> new_id j \<notin> set (map m_id (messages (store c)))"
    and "child \<in> set (map c_id (chats (store c)))" and "br \<in> set (map br_id (chatBranches (store c)))"
  shows "copy_messages src child br new_id rs c = Inr (map m_id (upto_message src rs),
    c\<lparr>store := (store c)\<lparr>messages := messages (store c) @ copied_rows src child br new_id rs (minted c) (idMap c)\<rparr>,
      idMap := idMap c @ zip (map m_id (upto_message src rs)) (map new_id [minted c..<minted c + length (upto_message src rs)]),
      copied := copied c + length (upto_message src rs), reached := (src \<in> set (map m_id rs)),
      minted := minted c + length (upto_message src rs)\<rparr>)"
  using assms(2-)
proof (induction rs arbitrary: c)
  case Nil
  then show ?case by simp
next
  case (Cons r rs)
  define i where "i = new_id (minted c)"
  let ?m1 = "jm_set (m_id r) i (idMap c)"
  let ?row = "copied_row r i child br (jm_get ?m1 (case m_parentId r of None \<Rightarrow> [] | Some p \<Rightarrow> p))"
  define s where "s = (store c)\<lparr>messages := messages (store c) @ [?row]\<rparr>"
  define c1 where "c1 = c\<lparr>reached := (m_id r = src), idMap := ?m1, copied := Suc (copied c), minted := Suc (minted c), store := s\<rparr>"
  have fresh: "m_id r \<notin> set (jm_keys (idMap c))" using Cons.prems(3) by auto
  have m1: "?m1 = idMap c @ [(m_id r, i)]" using fresh by (rule jm_set_absent)
  have ins: "insert_message ?row (store c) = Inr s"
    using Cons.prems(4) [of "minted c"] Cons.prems(5,6) by (simp add: insert_message_def copied_row_def s_def i_def)
  have step: "copy_messages src child br new_id (r # rs) c
      = and_then (copy_messages src child br new_id rs c1) (\<lambda>(ids, c2). Inr (m_id r # ids, c2))"
    using Cons.prems(1) ins by (simp add: Let_def i_def c1_def)
  show ?case
  proof (cases "m_id r = src")
    case True
    then have "copy_messages src child br new_id rs c1 = Inr ([], c1)" by (cases rs) (simp_all add: c1_def)
    then have "copy_messages src child br new_id (r # rs) c = Inr ([m_id r], c1)" unfolding step by simp
    with True m1 show ?thesis by (cases c) (simp add: c1_def s_def i_def Let_def del: copy_messages.simps jm_get_set)
  next
    case False
    have "copy_messages src child br new_id rs c1 = Inr (map m_id (upto_message src rs),
      c1\<lparr>store := (store c1)\<lparr>messages := messages (store c1) @ copied_rows src child br new_id rs (minted c1) (idMap c1)\<rparr>,
        idMap := idMap c1 @ zip (map m_id (upto_message src rs)) (map new_id [minted c1..<minted c1 + length (upto_message src rs)]),
        copied := copied c1 + length (upto_message src rs), reached := (src \<in> set (map m_id rs)),
        minted := minted c1 + length (upto_message src rs)\<rparr>)"
    proof (rule Cons.IH)
      show "\<not> reached c1" using False by (simp add: c1_def)
      show "distinct (map m_id rs)" using Cons.prems(2) by simp
      show "set (map m_id rs) \<inter> set (jm_keys (idMap c1)) = {}" using Cons.prems(2,3) m1 by (auto simp: c1_def)
      show "new_id j \<notin> set (map m_id (messages (store c1)))" if "minted c1 \<le> j" for j
        using Cons.prems(4) [of j] that assms(1) by (auto simp: c1_def s_def copied_row_def i_def inj_eq)
      show "child \<in> set (map c_id (chats (store c1)))" "br \<in> set (map br_id (chatBranches (store c1)))"
        using Cons.prems(5,6) by (simp_all add: c1_def s_def)
    qed
    note rest = this
    show ?thesis unfolding step rest using False m1
      by (cases c) (simp add: c1_def s_def i_def Let_def upt_step del: upt_Suc copy_messages.simps jm_get_set)
  qed
qed

text \<open>The parent of a copy: the copy of the parent, when that is among the rows copied up to it.\<close>

definition parent_key :: "message_row \<Rightarrow> string" where
  "parent_key r = (case m_parentId r of None \<Rightarrow> [] | Some p \<Rightarrow> p)"

definition parents_linked :: "message_row list \<Rightarrow> string list \<Rightarrow> message_row list \<Rightarrow> bool" where
  "parents_linked P news Q \<longleftrightarrow> list_all (\<lambda>k. m_parentId (Q ! k)
     = jm_get (zip (map m_id (take (Suc k) P)) news) (parent_key (P ! k))) [0..<length P]"

lemma copied_rows_parents:
  assumes "distinct (map m_id rs)" and "set (map m_id rs) \<inter> set (jm_keys m) = {}" and "k < length (upto_message src rs)"
  shows "m_parentId (copied_rows src child br new_id rs n m ! k)
    = jm_get (m @ zip (map m_id (take (Suc k) (upto_message src rs))) (map new_id [n..<n + Suc k])) (parent_key (upto_message src rs ! k))"
  using assms
proof (induction rs arbitrary: n m k)
  case Nil
  then show ?case by simp
next
  case (Cons r rs)
  have "m_id r \<notin> set (jm_keys m)" using Cons.prems(2) by auto
  then have m1: "jm_set (m_id r) (new_id n) m = m @ [(m_id r, new_id n)]" by (rule jm_set_absent)
  show ?case
  proof (cases k)
    case 0
    then show ?thesis using m1 by (simp add: Let_def copied_row_def parent_key_def del: jm_get_set)
  next
    case (Suc k')
    with Cons.prems(3) have other: "m_id r \<noteq> src" "k' < length (upto_message src rs)" by (auto split: if_splits)
    have "m_parentId (copied_rows src child br new_id rs (Suc n) (m @ [(m_id r, new_id n)]) ! k')
      = jm_get ((m @ [(m_id r, new_id n)]) @ zip (map m_id (take (Suc k') (upto_message src rs))) (map new_id [Suc n..<Suc n + Suc k']))
          (parent_key (upto_message src rs ! k'))"
      by (rule Cons.IH [OF _ _ other(2)]) (use Cons.prems(1,2) in auto)
    moreover have "[n..<n + Suc (Suc k')] = n # [Suc n..<Suc n + Suc k']" by (subst upt_conv_Cons) simp_all
    ultimately show ?thesis using Suc other m1 by (simp add: Let_def del: upt_Suc jm_get_set)
  qed
qed

lemma new_owner_zip:
  assumes "distinct olds" and "distinct news" and "length olds = length news" and "[] \<notin> set news"
  shows "new_owner (zip olds news) x = Some i \<longleftrightarrow> (\<exists>k < length olds. x = olds ! k \<and> i = news ! k)"
proof -
  have "jm_get (zip olds news) x = Some i \<longleftrightarrow> (\<exists>k < length olds. x = olds ! k \<and> i = news ! k)" for i
    using assms(1,3) unfolding jm_get_def by (subst map_of_eq_Some_iff) (auto simp: set_zip)
  moreover have "new_owner (zip olds news) x = jm_get (zip olds news) x"
  proof (cases "jm_get (zip olds news) x")
    case None
    then show ?thesis by (simp add: new_owner_def)
  next
    case (Some a)
    then have "a \<in> set news" unfolding jm_get_def by (auto dest: map_of_SomeD set_zip_rightD)
    with assms(4) obtain c cs where "a = c # cs" by (cases a) auto
    with Some show ?thesis by (simp add: new_owner_def)
  qed
  ultimately show ?thesis by simp
qed

section \<open>Attached rows\<close>

text \<open>What the tables of variants, edits and blocks have in common: a row with a fresh id and a present owner is
  accepted unless it is incompatible with another row of the owner, and a copy keeps what makes rows compatible.\<close>

locale attachment =
  fixes row_id :: "'r \<Rightarrow> string"
    and owner :: "'r \<Rightarrow> string"
    and copy :: "string \<Rightarrow> string \<Rightarrow> 'r \<Rightarrow> 'r"
    and ins :: "string list \<Rightarrow> 'r \<Rightarrow> 'r list \<Rightarrow> db_error + 'r list"
    and compatible :: "'r \<Rightarrow> 'r \<Rightarrow> bool"
    and payload :: "'r \<Rightarrow> 'p"
  assumes copy_id: "row_id (copy i x t) = i"
    and copy_owner: "owner (copy i x t) = x"
    and copy_payload: "payload (copy i x t) = payload t"
    and compatible_copy: "compatible (copy i x t) u = compatible t u" "compatible t (copy i x u) = compatible t u"
    and accepted: "row_id t \<notin> set (map row_id T) \<Longrightarrow> owner t \<in> set ids
      \<Longrightarrow> \<forall>u \<in> set T. owner u = owner t \<longrightarrow> compatible u t \<Longrightarrow> ins ids t T = Inr (T @ [t])"
begin

abbreviation unclashing :: "'r list \<Rightarrow> bool" where
  "unclashing \<equiv> sorted_wrt (\<lambda>t u. owner t = owner u \<longrightarrow> compatible t u)"

definition copies :: "(string, string) jmap \<Rightarrow> (nat \<Rightarrow> string) \<Rightarrow> nat \<Rightarrow> 'r list \<Rightarrow> 'r list" where
  "copies m new_id n ts = map (\<lambda>(k, t). copy (new_id k) (the (new_owner m (owner t))) t) (enumerate n ts)"

lemma copy_attached_eq:
  assumes "inj new_id" and "\<And>x y i. new_owner m x = Some i \<Longrightarrow> new_owner m y = Some i \<Longrightarrow> x = y"
    and "\<forall>t \<in> set ts. \<exists>i \<in> set ids. new_owner m (owner t) = Some i" and "unclashing ts"
    and "\<forall>u \<in> set T. \<forall>t \<in> set ts. new_owner m (owner t) = Some (owner u) \<longrightarrow> compatible u t"
    and "\<And>j. n \<le> j \<Longrightarrow> new_id j \<notin> set (map row_id T)"
  shows "copy_attached owner copy (ins ids) m new_id ts (n, T) = Inr (n + length ts, T @ copies m new_id n ts)"
  using assms(3-)
proof (induction ts arbitrary: n T)
  case Nil
  then show ?case by (simp add: copies_def)
next
  case (Cons t ts)
  obtain i where i: "i \<in> set ids" "new_owner m (owner t) = Some i" using Cons.prems(1) by auto
  let ?t = "copy (new_id n) i t"
  have "ins ids ?t T = Inr (T @ [?t])"
    using Cons.prems(3,4) i by (intro accepted) (auto simp: copy_id copy_owner compatible_copy)
  then have step: "copy_attached owner copy (ins ids) m new_id (t # ts) (n, T)
      = copy_attached owner copy (ins ids) m new_id ts (Suc n, T @ [?t])"
    by (simp add: i(2))
  have "copy_attached owner copy (ins ids) m new_id ts (Suc n, T @ [?t]) = Inr (Suc n + length ts, (T @ [?t]) @ copies m new_id (Suc n) ts)"
  proof (rule Cons.IH)
    show "\<forall>t' \<in> set ts. \<exists>i \<in> set ids. new_owner m (owner t') = Some i" "unclashing ts"
      using Cons.prems(1,2) by simp_all
    show "\<forall>u \<in> set (T @ [?t]). \<forall>t' \<in> set ts. new_owner m (owner t') = Some (owner u) \<longrightarrow> compatible u t'"
    proof (intro ballI impI)
      fix u t' assume u: "u \<in> set (T @ [?t])" and t': "t' \<in> set ts" and same: "new_owner m (owner t') = Some (owner u)"
      show "compatible u t'"
      proof (cases "u \<in> set T")
        case True
        then show ?thesis using Cons.prems(3) t' same by auto
      next
        case False
        with u have u: "u = ?t" by auto
        with same have "owner t' = owner t" using assms(2) i(2) by (simp add: copy_owner)
        then show ?thesis using Cons.prems(2) t' by (simp add: u compatible_copy)
      qed
    qed
    show "new_id j \<notin> set (map row_id (T @ [?t]))" if "Suc n \<le> j" for j
      using Cons.prems(4) [of j] that assms(1) by (auto simp: copy_id inj_eq)
  qed
  then show ?case unfolding step using i(2) by (simp add: copies_def)
qed

lemma copies_of:
  assumes "\<And>x y i. new_owner m x = Some i \<Longrightarrow> new_owner m y = Some i \<Longrightarrow> x = y"
    and "\<forall>t \<in> set ts. new_owner m (owner t) \<noteq> None" and "new_owner m x = Some i"
  shows "map payload (filter (\<lambda>t. owner t = i) (copies m new_id n ts)) = map payload (filter (\<lambda>t. owner t = x) ts)"
  using assms(2)
proof (induction ts arbitrary: n)
  case Nil
  then show ?case by (simp add: copies_def)
next
  case (Cons t ts)
  from Cons.prems obtain j where j: "new_owner m (owner t) = Some j" by auto
  then have "j = i \<longleftrightarrow> owner t = x" using assms(1,3) by force
  with j Cons show ?case by (simp add: copies_def copy_owner copy_payload)
qed

lemma copies_rows:
  assumes "t \<in> set (copies m new_id n ts)"
  obtains u where "u \<in> set ts" "row_id t \<in> new_id ` {n..<n + length ts}" "owner t = the (new_owner m (owner u))"
proof -
  from assms obtain k u where ku: "(k, u) \<in> set (enumerate n ts)" "t = copy (new_id k) (the (new_owner m (owner u))) u"
    by (auto simp: copies_def)
  then have "k \<in> {n..<n + length ts}" "u \<in> set ts"
    by (auto simp: enumerate_eq_zip dest: set_zip_leftD set_zip_rightD)
  then show ?thesis using ku(2) by (intro that [of u]) (simp_all add: copy_id copy_owner)
qed

text \<open>The rows behind the first of a table are copies: those of each new owner carry what those of the old
  one did.\<close>

definition carried :: "(string \<Rightarrow> 'p list) \<Rightarrow> 'r list \<Rightarrow> string list \<Rightarrow> string list \<Rightarrow> (nat \<Rightarrow> string) \<Rightarrow> nat \<Rightarrow> 'r list \<Rightarrow> bool" where
  "carried src T1 olds news new_id n T \<longleftrightarrow> (\<exists>A. T = T1 @ A
     \<and> (\<forall>t \<in> set A. owner t \<in> set news \<and> row_id t \<in> new_id ` {..<n})
     \<and> list_all2 (\<lambda>x i. map payload (filter (\<lambda>t. owner t = i) A) = src x) olds news)"

lemma carried_later: "carried src T1 olds news new_id n T \<Longrightarrow> n \<le> n' \<Longrightarrow> carried src T1 olds news new_id n' T"
  unfolding carried_def by (elim exE conjE, intro exI conjI ballI) (assumption | fastforce)+

lemma carried_step:
  assumes old: "carried src T1 olds news new_id n T" and "n \<le> n'" and "inj new_id" and "\<And>j. n \<le> j \<Longrightarrow> new_id j \<notin> set (map row_id T1)"
    and m: "m = zip (olds @ olds') (news @ news')" and len: "length olds = length news" "length olds' = length news'"
    and dist: "distinct (olds @ olds')" "distinct (news @ news')" "[] \<notin> set (news @ news')" and ids: "set news' \<subseteq> set ids"
    and fresh: "\<forall>t \<in> set T1. owner t \<notin> set news'"
    and ts: "\<forall>t \<in> set ts. owner t \<in> set olds'" "\<forall>x \<in> set olds'. map payload (filter (\<lambda>t. owner t = x) ts) = src x" "unclashing ts"
  shows "\<exists>n'' T'. copy_attached owner copy (ins ids) m new_id ts (n', T) = Inr (n'', T') \<and> n' \<le> n''
    \<and> carried src T1 (olds @ olds') (news @ news') new_id n'' T'"
proof -
  from old obtain A where A: "T = T1 @ A" "\<forall>t \<in> set A. owner t \<in> set news \<and> row_id t \<in> new_id ` {..<n}"
    "list_all2 (\<lambda>x i. map payload (filter (\<lambda>t. owner t = i) A) = src x) olds news"
    by (auto simp: carried_def)
  have owners: "new_owner m x = Some i \<longleftrightarrow> (\<exists>k < length (olds @ olds'). x = (olds @ olds') ! k \<and> i = (news @ news') ! k)" for x i
    unfolding m using dist len by (intro new_owner_zip) simp_all
  have inj: "x = y" if "new_owner m x = Some i" "new_owner m y = Some i" for x y i
    using that dist(2) len unfolding owners by (metis length_append nth_eq_iff_index_eq)
  have mapped: "new_owner m (olds' ! k) = Some (news' ! k)" if "k < length olds'" for k
    unfolding owners using that len by (intro exI [of _ "length olds + k"]) (simp add: nth_append)
  have owned: "\<exists>i \<in> set news'. new_owner m (owner t) = Some i" if "t \<in> set ts" for t
    using ts(1) that mapped len(2) by (metis in_set_conv_nth)
  have A_owner: "owner t \<notin> set news'" if "t \<in> set T" for t
    using that A(1,2) fresh dist(2) by auto
  define C where "C = copies m new_id n' ts"
  have copied: "copy_attached owner copy (ins ids) m new_id ts (n', T) = Inr (n' + length ts, T @ C)"
    unfolding C_def
  proof (rule copy_attached_eq [OF assms(3) inj _ ts(3)])
    show "\<forall>t \<in> set ts. \<exists>i \<in> set ids. new_owner m (owner t) = Some i" using owned ids by blast
    show "\<forall>u \<in> set T. \<forall>t \<in> set ts. new_owner m (owner t) = Some (owner u) \<longrightarrow> compatible u t"
      using owned A_owner by fastforce
    show "new_id j \<notin> set (map row_id T)" if later: "n' \<le> j" for j
    proof
      assume "new_id j \<in> set (map row_id T)"
      then obtain t where "t \<in> set A" "new_id j = row_id t" using assms(2) assms(4) [of j] later A(1) by auto
      with A(2) obtain j' where "j' < n" "new_id j = new_id j'" by auto
      with assms(2,3) later show False by (simp add: inj_eq)
    qed
  qed
  have C: "owner t \<in> set news' \<and> row_id t \<in> new_id ` {n'..<n' + length ts}" if "t \<in> set C" for t
    using that unfolding C_def by (rule copies_rows) (use owned in force)
  have "carried src T1 (olds @ olds') (news @ news') new_id (n' + length ts) (T @ C)"
    unfolding carried_def
  proof (intro exI [of _ "A @ C"] conjI list_all2_appendI)
    show "T @ C = T1 @ A @ C" using A(1) by simp
    show "\<forall>t \<in> set (A @ C). owner t \<in> set (news @ news') \<and> row_id t \<in> new_id ` {..<n' + length ts}"
      using A(2) C assms(2) by (fastforce simp: image_iff)
    have "filter (\<lambda>t. owner t = i) C = []" if "i \<in> set news" for i
      using C dist(2) that by (auto simp: filter_empty_conv)
    then show "list_all2 (\<lambda>x i. map payload (filter (\<lambda>t. owner t = i) (A @ C)) = src x) olds news"
      using A(3) by (auto simp: list_all2_conv_all_nth)
    have none: "filter (\<lambda>t. owner t = i) A = []" if "i \<in> set news'" for i
      using A(2) dist(2) that by (auto simp: filter_empty_conv)
    have "map payload (filter (\<lambda>t. owner t = news' ! k) C) = src (olds' ! k)" if "k < length olds'" for k
    proof -
      have "map payload (filter (\<lambda>t. owner t = news' ! k) C) = map payload (filter (\<lambda>t. owner t = olds' ! k) ts)"
        unfolding C_def by (rule copies_of [OF inj _ mapped [OF that]]) (auto dest: owned)
      with ts(2) that show ?thesis by simp
    qed
    then show "list_all2 (\<lambda>x i. map payload (filter (\<lambda>t. owner t = i) (A @ C)) = src x) olds' news'"
      using len(2) none by (auto simp: list_all2_conv_all_nth)
  qed
  then show ?thesis using copied by auto
qed

lemma carried_source:
  assumes "carried src T1 olds news new_id n T" and "set news \<inter> set xs = {}"
  shows "filter (\<lambda>t. owner t \<in> set xs) T = filter (\<lambda>t. owner t \<in> set xs) T1"
  using assms by (auto simp: carried_def filter_empty_conv) blast

end

definition text_payload :: "archived_text \<Rightarrow> nat \<times> string \<times> int" where
  "text_payload t = (a_position t, a_content t, a_createdAt t)"

definition block_payload :: "block_row \<Rightarrow> string \<times> string \<times> string \<times> string \<times> string option \<times> int \<times> int" where
  "block_payload b = (b_pluginId b, b_blockType b, b_rendererId b, b_descriptorJson b, b_serializedStateJson b,
     b_createdAt b, b_updatedAt b)"

interpretation archived: attachment a_id a_messageId copied_text "\<lambda>ids t. insert_archived t ids"
  "\<lambda>t u. a_position t \<noteq> a_position u" text_payload
  by unfold_locales (auto simp: copied_text_def text_payload_def insert_archived_def)

interpretation blocks: attachment b_id b_messageId copied_block "\<lambda>ids b. insert_block b ids" "\<lambda>t u. True" block_payload
  by unfold_locales (auto simp: copied_block_def block_payload_def insert_block_def)

definition texts_from :: "archived_text list \<Rightarrow> string \<Rightarrow> (nat \<times> string \<times> int) list" where
  "texts_from T x = map text_payload (texts_of [x] T)"

definition blocks_from :: "block_row list \<Rightarrow> string \<Rightarrow> (string \<times> string \<times> string \<times> string \<times> string option \<times> int \<times> int) list" where
  "blocks_from T x = map block_payload (filter (\<lambda>b. b_messageId b = x) T)"

lemma distinct_sorted_wrt: "distinct xs \<longleftrightarrow> sorted_wrt (\<noteq>) xs"
  by (induction xs) auto

lemma texts_of_facts:
  assumes "archived_ok ids T"
  shows "archived.unclashing (texts_of xs T)"
    and "\<forall>x \<in> set xs. map text_payload (filter (\<lambda>t. a_messageId t = x) (texts_of xs T)) = texts_from T x"
    and "\<forall>t \<in> set (texts_of xs T). a_messageId t \<in> set xs"
proof -
  have "distinct (map (\<lambda>t. (a_messageId t, a_position t)) T)" using assms by (simp add: archived_ok_def)
  then have "distinct (map (\<lambda>t. (a_messageId t, a_position t)) (texts_of xs T))"
    by (auto simp: texts_of_def distinct_map intro: inj_on_subset)
  then have "sorted_wrt (\<lambda>t u. (a_messageId t, a_position t) \<noteq> (a_messageId u, a_position u)) (texts_of xs T)"
    by (simp add: distinct_sorted_wrt sorted_wrt_map)
  then show "archived.unclashing (texts_of xs T)" by (rule sorted_wrt_mono_rel [rotated]) auto
  have "filter (\<lambda>t. a_messageId t = x) (texts_of xs T) = texts_of [x] T" if "x \<in> set xs" for x
  proof -
    have "filter (\<lambda>t. a_messageId t = x \<and> a_messageId t \<in> set xs) T = filter (\<lambda>t. a_messageId t \<in> set [x]) T"
      using that by (intro filter_cong) auto
    then show ?thesis by (simp add: texts_of_def filter_sort conj_commute)
  qed
  then show "\<forall>x \<in> set xs. map text_payload (filter (\<lambda>t. a_messageId t = x) (texts_of xs T)) = texts_from T x"
    by (simp add: texts_from_def)
  show "\<forall>t \<in> set (texts_of xs T). a_messageId t \<in> set xs" by (simp add: texts_of_def)
qed

section \<open>The copy so far\<close>

text \<open>What the copy starts from: the tables with the new chat and its branch, and ids still unused.\<close>

definition copy_base :: "(nat \<Rightarrow> string) \<Rightarrow> string \<Rightarrow> string \<Rightarrow> db \<Rightarrow> bool" where
  "copy_base new_id child br s \<longleftrightarrow> strict_mono new_id
     \<and> (\<forall>j \<ge> 2. new_id j \<notin> set (map m_id (messages s) @ map a_id (messageVariants s)
          @ map a_id (messageContentRevisions s) @ map b_id (messageBlocks s)))
     \<and> child \<in> set (map c_id (chats s)) \<and> br \<in> set (map br_id (chatBranches s))
     \<and> distinct (map m_id (messages s))
     \<and> archived_ok (map m_id (messages s)) (messageVariants s)
     \<and> archived_ok (map m_id (messages s)) (messageContentRevisions s)
     \<and> set (map b_messageId (messageBlocks s)) \<subseteq> set (map m_id (messages s))"

definition copied_from :: "db \<Rightarrow> string \<Rightarrow> string \<Rightarrow> (nat \<Rightarrow> string) \<Rightarrow> nat \<Rightarrow> message_row list \<Rightarrow> message_row list \<Rightarrow> db \<Rightarrow> bool" where
  "copied_from s child br new_id n P Q s' \<longleftrightarrow> (\<exists>V R B.
     s' = s\<lparr>messages := messages s @ Q, messageVariants := V, messageContentRevisions := R, messageBlocks := B\<rparr>
     \<and> sorted_wrt (<) (map m_id Q) \<and> set (map m_id Q) \<subseteq> new_id ` {2..<n}
     \<and> map content_of Q = map content_of P \<and> parents_linked P (map m_id Q) Q
     \<and> list_all (\<lambda>q. m_chatId q = child \<and> m_branchId q = br) Q
     \<and> archived.carried (texts_from (messageVariants s)) (messageVariants s) (map m_id P) (map m_id Q) new_id n V
     \<and> archived.carried (texts_from (messageContentRevisions s)) (messageContentRevisions s) (map m_id P) (map m_id Q) new_id n R
     \<and> blocks.carried (blocks_from (messageBlocks s)) (messageBlocks s) (map m_id P) (map m_id Q) new_id n B)"

definition copying_ok :: "db \<Rightarrow> string \<Rightarrow> string \<Rightarrow> (nat \<Rightarrow> string) \<Rightarrow> message_row list \<Rightarrow> copying \<Rightarrow> bool" where
  "copying_ok s child br new_id P c \<longleftrightarrow> copied c = length P \<and> 2 \<le> minted c
     \<and> (\<exists>Q. copied_from s child br new_id (minted c) P Q (store c) \<and> idMap c = zip (map m_id P) (map m_id Q))"

lemma upto_message_take: "upto_message src rs = take (length (upto_message src rs)) rs"
  by (induction rs) auto

lemma set_upto_message: "set (upto_message src rs) \<subseteq> set rs"
  using upto_message_take set_take_subset by metis

lemma distinct_upto_message: "distinct (map m_id rs) \<Longrightarrow> distinct (map m_id (upto_message src rs))"
  by (subst upto_message_take) (simp add: take_map [symmetric])

lemma zip_take_take: "zip (take n xs) ys = zip (take n xs) (take n ys)"
  by (rule nth_equalityI) auto

lemma upto_message_append:
  "upto_message src (xs @ ys) = (if src \<in> set (map m_id xs) then upto_message src xs else xs @ upto_message src ys)"
  by (induction xs) auto

lemma parents_linked_append:
  assumes "parents_linked P news Q" and "length news = length P" and "length Q = length P"
    and "\<And>k. k < length P' \<Longrightarrow> m_parentId (Q' ! k)
      = jm_get (zip (map m_id P) news @ zip (map m_id (take (Suc k) P')) (take (Suc k) news')) (parent_key (P' ! k))"
    and "length news' = length P'"
  shows "parents_linked (P @ P') (news @ news') (Q @ Q')"
proof -
  have "m_parentId ((Q @ Q') ! k) = jm_get (zip (map m_id (take (Suc k) (P @ P'))) (news @ news')) (parent_key ((P @ P') ! k))"
    if k: "k < length (P @ P')" for k
  proof (cases "k < length P")
    case True
    then have "zip (map m_id (take (Suc k) (P @ P'))) (news @ news') = zip (map m_id (take (Suc k) P)) news"
      using assms(2) by (simp add: zip_append2 take_map)
    with True assms(1,3) show ?thesis by (simp add: parents_linked_def list_all_iff nth_append)
  next
    case False
    then obtain j where j: "k = length P + j" "j < length P'" using k by (metis length_append less_imp_add_positive linorder_not_less nat_add_left_cancel_less le_Suc_ex)
    have "zip (map m_id (take (Suc j) P')) news' = zip (map m_id (take (Suc j) P')) (take (Suc j) news')"
      unfolding take_map [symmetric] by (rule zip_take_take)
    then have "zip (map m_id (take (Suc k) (P @ P'))) (news @ news')
        = zip (map m_id P) news @ zip (map m_id (take (Suc j) P')) (take (Suc j) news')"
      using assms(2) j(1) by simp
    then show ?thesis using assms(3) assms(4) [OF j(2)] by (simp add: j(1) nth_append)
  qed
  then show ?thesis by (simp add: parents_linked_def list_all_iff)
qed

lemma new_ids_sorted: "strict_mono (f :: nat \<Rightarrow> string) \<Longrightarrow> sorted_wrt (<) (map f [a..<b])"
  by (simp add: sorted_wrt_map sorted_wrt_iff_nth_less strict_mono_def)

lemma strict_mono_not_Nil:
  assumes "strict_mono (f :: nat \<Rightarrow> string)" and "0 < j"
  shows "f j \<noteq> []"
  using strict_monoD [OF assms] by (cases "f j") auto

lemma batch_step:
  assumes base: "copy_base new_id child br s" and ok: "copying_ok s child br new_id P c" and "\<not> reached c"
    and dist: "distinct (map m_id (P @ batch))" and inside: "set batch \<subseteq> set (messages s)"
  obtains c' where
    "and_then (copy_messages src child br new_id batch c)
       (\<lambda>(oldIds, c1). and_then (copy_variants new_id oldIds c1)
          (\<lambda>c2. and_then (copy_revisions new_id oldIds c2) (copy_blocks new_id oldIds))) = Inr c'"
    "copying_ok s child br new_id (P @ upto_message src batch) c'" "reached c' \<longleftrightarrow> src \<in> set (map m_id batch)"
proof -
  from ok obtain Q V R B where c: "copied c = length P" "2 \<le> minted c" "idMap c = zip (map m_id P) (map m_id Q)"
    "store c = s\<lparr>messages := messages s @ Q, messageVariants := V, messageContentRevisions := R, messageBlocks := B\<rparr>"
    and Q: "sorted_wrt (<) (map m_id Q)" "set (map m_id Q) \<subseteq> new_id ` {2..<minted c}" "map content_of Q = map content_of P"
    "parents_linked P (map m_id Q) Q" "list_all (\<lambda>q. m_chatId q = child \<and> m_branchId q = br) Q"
    and V: "archived.carried (texts_from (messageVariants s)) (messageVariants s) (map m_id P) (map m_id Q) new_id (minted c) V"
    and R: "archived.carried (texts_from (messageContentRevisions s)) (messageContentRevisions s) (map m_id P) (map m_id Q) new_id (minted c) R"
    and B: "blocks.carried (blocks_from (messageBlocks s)) (messageBlocks s) (map m_id P) (map m_id Q) new_id (minted c) B"
    by (auto simp: copying_ok_def copied_from_def)
  have mono: "strict_mono new_id" and unused: "\<And>j. 2 \<le> j \<Longrightarrow> new_id j \<notin> set (map m_id (messages s))"
    "\<And>j. 2 \<le> j \<Longrightarrow> new_id j \<notin> set (map a_id (messageVariants s))"
    "\<And>j. 2 \<le> j \<Longrightarrow> new_id j \<notin> set (map a_id (messageContentRevisions s))"
    "\<And>j. 2 \<le> j \<Longrightarrow> new_id j \<notin> set (map b_id (messageBlocks s))"
    and tables: "child \<in> set (map c_id (chats s))" "br \<in> set (map br_id (chatBranches s))"
    "archived_ok (map m_id (messages s)) (messageVariants s)" "archived_ok (map m_id (messages s)) (messageContentRevisions s)"
    "set (map b_messageId (messageBlocks s)) \<subseteq> set (map m_id (messages s))"
    using base unfolding copy_base_def by simp_all
  have inj: "inj new_id" using mono by (rule strict_mono_imp_inj_on)
  have len: "length Q = length P" using Q(3) by (rule map_eq_imp_length_eq)
  define U where "U = upto_message src batch"
  define olds where "olds = map m_id U"
  define n1 where "n1 = minted c + length U"
  define news where "news = map new_id [minted c..<n1]"
  define Q' where "Q' = copied_rows src child br new_id batch (minted c) (idMap c)"
  have Q'_facts: "map m_id Q' = news" "map content_of Q' = map content_of U"
    "list_all (\<lambda>q. m_chatId q = child \<and> m_branchId q = br) Q'" "length Q' = length U"
    unfolding Q'_def U_def news_def n1_def by (simp_all add: copied_rows_facts)
  define c1 where "c1 = c\<lparr>store := (store c)\<lparr>messages := messages (store c) @ Q'\<rparr>, idMap := idMap c @ zip olds news,
    copied := copied c + length U, reached := (src \<in> set (map m_id batch)), minted := n1\<rparr>"
  have keys: "jm_keys (idMap c) = map m_id P" by (simp add: c(3) len)
  have new_j: "\<exists>j. 2 \<le> j \<and> j < minted c \<and> i = new_id j" if "i \<in> set (map m_id Q)" for i using subsetD [OF Q(2) that] by auto
  have rows: "copy_messages src child br new_id batch c = Inr (olds, c1)"
    unfolding c1_def Q'_def olds_def U_def n1_def news_def
  proof (rule copy_messages_eq [OF inj assms(3)])
    show "distinct (map m_id batch)" "set (map m_id batch) \<inter> set (jm_keys (idMap c)) = {}"
      using dist unfolding keys by auto
    show "new_id j \<notin> set (map m_id (messages (store c)))" if "minted c \<le> j" for j
    proof
      assume "new_id j \<in> set (map m_id (messages (store c)))"
      then have "new_id j \<in> set (map m_id Q)" using unused(1) [of j] that c(2,4) by auto
      with new_j inj that show False by (metis inj_eq linorder_not_less)
    qed
    show "child \<in> set (map c_id (chats (store c)))" "br \<in> set (map br_id (chatBranches (store c)))"
      using tables(1,2) by (simp_all add: c(4))
  qed
  have in_news: "\<exists>j. minted c \<le> j \<and> j < n1 \<and> i = new_id j" if "i \<in> set news" for i
    using that by (auto simp: news_def)
  have lens: "length (map m_id P) = length (map m_id Q)" "length olds = length news"
    by (simp_all add: len olds_def news_def n1_def)
  have "set olds \<subseteq> set (map m_id batch)" using set_upto_message by (fastforce simp: olds_def U_def)
  then have dist_old: "distinct (map m_id P @ olds)"
    using dist distinct_upto_message [of batch src] by (auto simp: olds_def U_def)
  have sorted: "sorted_wrt (<) (map m_id Q @ news)"
    unfolding sorted_wrt_append
  proof (intro conjI ballI)
    show "sorted_wrt (<) news" unfolding news_def by (rule new_ids_sorted [OF mono])
    show "x < y" if "x \<in> set (map m_id Q)" "y \<in> set news" for x y
      using new_j [OF that(1)] in_news [OF that(2)] mono by (auto simp: strict_mono_less)
  qed (rule Q(1))
  then have dist_new: "distinct (map m_id Q @ news)" by (simp add: strict_sorted_iff)
  have nonempty: "[] \<notin> set (map m_id Q @ news)"
    using new_j in_news c(2) strict_mono_not_Nil [OF mono] by (metis Un_iff less_le_trans pos2 set_append)
  have fresh: "set news \<inter> set (map m_id (messages s)) = {}"
  proof -
    have "i \<notin> set (map m_id (messages s))" if i: "i \<in> set news" for i
    proof -
      from in_news [OF i] obtain j where "minted c \<le> j" "i = new_id j" by blast
      then show ?thesis using unused(1) [of j] c(2) by simp
    qed
    then show ?thesis by blast
  qed
  have map1: "idMap c1 = zip (map m_id P @ olds) (map m_id Q @ news)"
    using lens by (simp add: c1_def c(3))
  have ids: "set news \<subseteq> set (map m_id (messages (store c1)))" using Q'_facts(1) by (auto simp: c1_def)
  have later: "minted c \<le> n1" by (simp add: n1_def)
  have batch_olds: "set olds \<subseteq> set (map m_id (messages s))"
    using \<open>set olds \<subseteq> set (map m_id batch)\<close> inside by auto
  have disjoint: "set (map m_id Q) \<inter> set olds = {}"
  proof -
    have "i \<notin> set olds" if "i \<in> set (map m_id Q)" for i
      using new_j [OF that] unused(1) batch_olds by blast
    then show ?thesis by blast
  qed
  have owners: "\<forall>t \<in> set T. a_messageId t \<notin> set news" if "archived_ok (map m_id (messages s)) T" for T
    using that fresh unfolding archived_ok_def by (metis (no_types, lifting) disjoint_iff image_eqI list.set_map subsetD)
  have selected: "texts_of olds T = texts_of olds T1"
    if "archived.carried src' T1 (map m_id P) (map m_id Q) new_id n T" for src' T1 n T
    using archived.carried_source [OF that disjoint] by (simp add: texts_of_def)
  have unusedV: "new_id j \<notin> set (map a_id (messageVariants s))" "new_id j \<notin> set (map a_id (messageContentRevisions s))"
    "new_id j \<notin> set (map b_id (messageBlocks s))" if "minted c \<le> j" for j
    using unused(2-4) c(2) that by simp_all
  obtain n2 V' where V': "copy_attached a_messageId copied_text (\<lambda>t. insert_archived t (map m_id (messages (store c1)))) (idMap c1) new_id
      (texts_of olds V) (n1, V) = Inr (n2, V')" "n1 \<le> n2"
    "archived.carried (texts_from (messageVariants s)) (messageVariants s) (map m_id P @ olds) (map m_id Q @ news) new_id n2 V'"
    using archived.carried_step [OF V later inj unusedV(1) map1 lens dist_old dist_new nonempty ids owners [OF tables(3)], of "texts_of olds V"]
      texts_of_facts [OF tables(3), of olds] selected [OF V] by auto
  define c2 where "c2 = c1\<lparr>store := (store c1)\<lparr>messageVariants := V'\<rparr>, minted := n2\<rparr>"
  have c2: "copy_variants new_id olds c1 = Inr c2"
    using V'(1) by (simp add: copy_variants_def c2_def) (simp add: c1_def c(4))
  obtain n3 R' where R': "copy_attached a_messageId copied_text (\<lambda>t. insert_archived t (map m_id (messages (store c1)))) (idMap c1) new_id
      (texts_of olds R) (n2, R) = Inr (n3, R')" "n2 \<le> n3"
    "archived.carried (texts_from (messageContentRevisions s)) (messageContentRevisions s) (map m_id P @ olds) (map m_id Q @ news) new_id n3 R'"
    using archived.carried_step [OF R order_trans [OF later V'(2)] inj unusedV(2) map1 lens dist_old dist_new nonempty ids
        owners [OF tables(4)], of "texts_of olds R"]
      texts_of_facts [OF tables(4), of olds] selected [OF R] by auto
  define c3 where "c3 = c2\<lparr>store := (store c2)\<lparr>messageContentRevisions := R'\<rparr>, minted := n3\<rparr>"
  have c3: "copy_revisions new_id olds c2 = Inr c3"
    using R'(1) by (simp add: copy_revisions_def c3_def) (simp add: c2_def c1_def c(4))
  let ?bs = "filter (\<lambda>b. b_messageId b \<in> set olds) B"
  have chosen: "?bs = filter (\<lambda>b. b_messageId b \<in> set olds) (messageBlocks s)"
    by (rule blocks.carried_source [OF B disjoint])
  have block_owners: "\<forall>b \<in> set (messageBlocks s). b_messageId b \<notin> set news" using tables(5) fresh by auto
  have blocks_of: "\<forall>x \<in> set olds. map block_payload (filter (\<lambda>b. b_messageId b = x) ?bs) = blocks_from (messageBlocks s) x"
    unfolding chosen by (auto simp: blocks_from_def intro!: arg_cong [where f = "map block_payload"] filter_cong)
  obtain n4 B' where B': "copy_attached b_messageId copied_block (\<lambda>b. insert_block b (map m_id (messages (store c1)))) (idMap c1) new_id
      ?bs (n3, B) = Inr (n4, B')" "n3 \<le> n4"
    "blocks.carried (blocks_from (messageBlocks s)) (messageBlocks s) (map m_id P @ olds) (map m_id Q @ news) new_id n4 B'"
    using blocks.carried_step [OF B order_trans [OF later order_trans [OF V'(2) R'(2)]] inj unusedV(3) map1 lens dist_old dist_new
        nonempty ids block_owners, of ?bs] blocks_of by auto
  define c4 where "c4 = c3\<lparr>store := (store c3)\<lparr>messageBlocks := B'\<rparr>, minted := n4\<rparr>"
  have c4: "copy_blocks new_id olds c3 = Inr c4"
    using B'(1) by (simp add: copy_blocks_def c4_def) (simp add: c3_def c2_def c1_def c(4))
  show ?thesis
  proof (rule that [of c4])
    show "and_then (copy_messages src child br new_id batch c)
       (\<lambda>(oldIds, c1). and_then (copy_variants new_id oldIds c1)
          (\<lambda>c2. and_then (copy_revisions new_id oldIds c2) (copy_blocks new_id oldIds))) = Inr c4"
      by (simp add: rows c2 c3 c4)
    show "reached c4 \<longleftrightarrow> src \<in> set (map m_id batch)" by (simp add: c4_def c3_def c2_def c1_def)
    have Q_ids: "map m_id (Q @ Q') = map m_id Q @ news" by (simp add: Q'_facts(1))
    have copied: "copied_from s child br new_id n4 (P @ U) (Q @ Q') (store c4)"
      unfolding copied_from_def Q_ids
    proof (intro exI conjI)
      show "store c4 = s\<lparr>messages := messages s @ Q @ Q', messageVariants := V', messageContentRevisions := R', messageBlocks := B'\<rparr>"
        by (simp add: c4_def c3_def c2_def c1_def c(4))
      show "sorted_wrt (<) (map m_id Q @ news)" by (rule sorted)
      show "set (map m_id Q @ news) \<subseteq> new_id ` {2..<n4}"
      proof
        fix i assume "i \<in> set (map m_id Q @ news)"
        then have "(\<exists>j. 2 \<le> j \<and> j < minted c \<and> i = new_id j) \<or> (\<exists>j. minted c \<le> j \<and> j < n1 \<and> i = new_id j)"
          using new_j in_news unfolding set_append by blast
        then show "i \<in> new_id ` {2..<n4}" using c(2) later V'(2) R'(2) B'(2) by auto
      qed
      show "map content_of (Q @ Q') = map content_of (P @ U)" using Q(3) Q'_facts(2) by simp
      show "parents_linked (P @ U) (map m_id Q @ news) (Q @ Q')"
      proof (rule parents_linked_append [OF Q(4)])
        fix k assume k: "k < length U"
        then have "minted c + Suc k \<le> n1" by (simp add: n1_def)
        then have "take (Suc k) news = map new_id [minted c..<minted c + Suc k]"
          unfolding news_def take_map by (subst take_upt) simp_all
        moreover have "distinct (map m_id batch)" "set (map m_id batch) \<inter> set (jm_keys (idMap c)) = {}"
          using dist unfolding keys by auto
        note copied_rows_parents [OF this k [unfolded U_def], of child br new_id "minted c"]
        ultimately show "m_parentId (Q' ! k) = jm_get (zip (map m_id P) (map m_id Q) @ zip (map m_id (take (Suc k) U)) (take (Suc k) news)) (parent_key (U ! k))"
          unfolding Q'_def U_def c(3) [symmetric] by (simp only:)
      qed (simp_all add: len news_def n1_def)
      show "list_all (\<lambda>q. m_chatId q = child \<and> m_branchId q = br) (Q @ Q')" using Q(5) Q'_facts(3) by simp
      show "archived.carried (texts_from (messageVariants s)) (messageVariants s) (map m_id (P @ U)) (map m_id Q @ news) new_id n4 V'"
        using archived.carried_later [OF V'(3) order_trans [OF R'(2) B'(2)]] by (simp add: olds_def)
      show "archived.carried (texts_from (messageContentRevisions s)) (messageContentRevisions s) (map m_id (P @ U)) (map m_id Q @ news) new_id n4 R'"
        using archived.carried_later [OF R'(3) B'(2)] by (simp add: olds_def)
      show "blocks.carried (blocks_from (messageBlocks s)) (messageBlocks s) (map m_id (P @ U)) (map m_id Q @ news) new_id n4 B'"
        using B'(3) by (simp add: olds_def)
    qed
    have "minted c4 = n4" "copied c4 = length (P @ U)" "2 \<le> n4" "idMap c4 = zip (map m_id (P @ U)) (map m_id (Q @ Q'))"
      using map1 c(1,2) later V'(2) R'(2) B'(2) by (simp_all add: c4_def c3_def c2_def c1_def Q'_facts(1) olds_def)
    with copied show "copying_ok s child br new_id (P @ upto_message src batch) c4"
      unfolding copying_ok_def U_def [symmetric] by blast
  qed
qed

text \<open>The rows of a branch in order, walked by their keys.\<close>

interpretation stored_rows: keyset "(<) :: rat \<times> string \<Rightarrow> _" "message_key :: message_row \<Rightarrow> _" encode_key cursor_key
  by unfold_locales auto

definition branch_rows :: "string \<Rightarrow> string \<Rightarrow> db \<Rightarrow> message_row list" where
  "branch_rows ch br s = order_messages Asc (filter (\<lambda>m. m_chatId m = ch \<and> m_branchId m = br) (messages s))"

lemma branch_rows_ordered:
  assumes "distinct (map m_id (messages s))"
  shows "stored_rows.ordered (branch_rows ch br s)" and "distinct (map m_id (branch_rows ch br s))"
proof -
  let ?rows = "filter (\<lambda>m. m_chatId m = ch \<and> m_branchId m = br) (messages s)"
  have ids: "distinct (map m_id ?rows)" using assms by (rule distinct_map_filter)
  then have "distinct (map message_key ?rows)" by (simp add: distinct_map inj_on_def message_key_def)
  from strict_sort_key [OF this] show "stored_rows.ordered (branch_rows ch br s)"
    by (simp add: branch_rows_def order_messages_def)
  show "distinct (map m_id (branch_rows ch br s))"
    using ids by (simp add: branch_rows_def order_messages_def distinct_map)
qed

lemma next_batch_rows: "next_batch ch br cur s = take SNAPSHOT_BATCH_SIZE (filter (after_key cur) (branch_rows ch br s))"
  by (simp add: next_batch_def branch_rows_def order_messages_def filter_sort conj_commute conj_left_commute)

lemma after_key_last:
  assumes "stored_rows.ordered rows" and "n < length rows"
  shows "filter (after_key (Some (m_createdAt (rows ! n), m_id (rows ! n)))) rows = drop (Suc n) rows"
proof -
  have "after_key (Some (m_createdAt (rows ! n), m_id (rows ! n))) = (\<lambda>r. message_key (rows ! n) < message_key r)"
    by (rule ext) (auto simp: after_key_def message_key_def less_prod_def)
  then show ?thesis using stored_rows.after_nth [OF assms] by simp
qed

lemma copying_rows:
  assumes "copying_ok s child br new_id P c" and "child \<noteq> ch"
  shows "branch_rows ch active (store c) = branch_rows ch active s"
proof -
  from assms(1) obtain Q where "messages (store c) = messages s @ Q" "\<forall>q \<in> set Q. m_chatId q = child"
    by (auto simp: copying_ok_def copied_from_def list_all_iff)
  with assms(2) show ?thesis by (simp add: branch_rows_def filter_empty_conv)
qed

lemma copy_batches_reach:
  assumes base: "copy_base new_id child br s" and "child \<noteq> ch" and "src \<in> set (map m_id (branch_rows ch active s))"
    and "copying_ok s child br new_id (take k (branch_rows ch active s)) c" and "\<not> reached c"
    and "src \<notin> set (map m_id (take k (branch_rows ch active s)))"
    and "filter (after_key cur) (branch_rows ch active s) = drop k (branch_rows ch active s)"
  shows "\<exists>c'. copy_batches ch active src child br new_id cur c = Some (Inr c') \<and> reached c'
    \<and> copying_ok s child br new_id (upto_message src (branch_rows ch active s)) c'"
  using assms(4-)
proof (induction "length (branch_rows ch active s) - k" arbitrary: k c cur rule: less_induct)
  case less
  let ?rows = "branch_rows ch active s"
  let ?batch = "take SNAPSHOT_BATCH_SIZE (drop k ?rows)"
  have ids: "distinct (map m_id (messages s))" using base by (simp add: copy_base_def)
  note ordered = branch_rows_ordered [OF ids, of ch active]
  have batch: "next_batch ch active cur (store c) = ?batch"
    unfolding next_batch_rows copying_rows [OF less.prems(1) assms(2)] less.prems(4) ..
  have split: "src \<in> set (map m_id (drop k ?rows))"
    using assms(3) less.prems(3) append_take_drop_id [of k ?rows] by (metis Un_iff map_append set_append)
  then have "drop k ?rows \<noteq> []" by force
  then have more: "k < length ?rows" "?batch \<noteq> []" by (simp_all add: SNAPSHOT_BATCH_SIZE_def)
  have "take k ?rows @ ?batch = take (k + SNAPSHOT_BATCH_SIZE) ?rows" by (simp add: take_add)
  then have dist: "distinct (map m_id (take k ?rows @ ?batch))"
    using ordered(2) by (simp add: take_map [symmetric])
  have "set ?batch \<subseteq> set ?rows" by (metis set_drop_subset set_take_subset subset_trans)
  then have inside: "set ?batch \<subseteq> set (messages s)" by (auto simp: branch_rows_def order_messages_def)
  obtain c' where c': "and_then (copy_messages src child br new_id ?batch c)
       (\<lambda>(oldIds, c1). and_then (copy_variants new_id oldIds c1)
          (\<lambda>c2. and_then (copy_revisions new_id oldIds c2) (copy_blocks new_id oldIds))) = Inr c'"
    "copying_ok s child br new_id (take k ?rows @ upto_message src ?batch) c'" "reached c' \<longleftrightarrow> src \<in> set (map m_id ?batch)"
    by (rule batch_step [OF base less.prems(1,2) dist inside])
  have step: "copy_batches ch active src child br new_id cur c = (if length ?batch < SNAPSHOT_BATCH_SIZE then Some (Inr c')
      else copy_batches ch active src child br new_id (Some (m_createdAt (last ?batch), m_id (last ?batch))) c')"
    using less.prems(2) more(2) c'(1) by (subst copy_batches.simps) (simp add: batch Let_def)
  have parts: "?rows = take k ?rows @ ?batch @ drop SNAPSHOT_BATCH_SIZE (drop k ?rows)" by (simp only: append_take_drop_id)
  show ?case
  proof (cases "src \<in> set (map m_id ?batch)")
    case True
    then have upto: "upto_message src ?rows = take k ?rows @ upto_message src ?batch"
      using less.prems(3) by (subst parts) (simp add: upto_message_append)
    have "copy_batches ch active src child br new_id cur' c' = Some (Inr c')" for cur'
      using True c'(3) by (subst copy_batches.simps) simp
    then show ?thesis using step c'(2,3) True unfolding upto by auto
  next
    case False
    then have "\<not> length (drop k ?rows) \<le> SNAPSHOT_BATCH_SIZE" using split by (metis take_all)
    then have full: "length ?batch = SNAPSHOT_BATCH_SIZE" "k + SNAPSHOT_BATCH_SIZE < length ?rows" by simp_all
    let ?n = "k + SNAPSHOT_BATCH_SIZE - 1"
    have n: "?n < length ?rows" "Suc ?n = k + SNAPSHOT_BATCH_SIZE" "last ?batch = ?rows ! ?n"
      using full more(2) by (simp_all add: SNAPSHOT_BATCH_SIZE_def last_conv_nth add.commute)
    have whole: "upto_message src ?batch = ?batch" using False upto_message_append [of src ?batch "[]"] by simp
    have grown: "take k ?rows @ ?batch = take (k + SNAPSHOT_BATCH_SIZE) ?rows" by (simp add: take_add)
    have "\<exists>c''. copy_batches ch active src child br new_id (Some (m_createdAt (last ?batch), m_id (last ?batch))) c' = Some (Inr c'')
      \<and> reached c'' \<and> copying_ok s child br new_id (upto_message src ?rows) c''"
    proof (rule less.hyps [of "k + SNAPSHOT_BATCH_SIZE"])
      show "length ?rows - (k + SNAPSHOT_BATCH_SIZE) < length ?rows - k"
        using more(1) by (simp add: SNAPSHOT_BATCH_SIZE_def)
      show "copying_ok s child br new_id (take (k + SNAPSHOT_BATCH_SIZE) ?rows) c'"
        using c'(2) unfolding whole grown .
      show "\<not> reached c'" using c'(3) False by simp
      show "src \<notin> set (map m_id (take (k + SNAPSHOT_BATCH_SIZE) ?rows))"
        unfolding grown [symmetric] using False less.prems(3) by simp
      show "filter (after_key (Some (m_createdAt (last ?batch), m_id (last ?batch)))) ?rows = drop (k + SNAPSHOT_BATCH_SIZE) ?rows"
        using after_key_last [OF ordered(1) n(1)] unfolding n(2,3) .
    qed
    then show ?thesis using step full(1) by simp
  qed
qed

section \<open>A snapshot is the prefix of the branch\<close>

text \<open>The tables before the snapshot: unique ids and no dangling rows; and ids the process has not used.\<close>

definition tables_ok :: "db \<Rightarrow> bool" where
  "tables_ok s \<longleftrightarrow> distinct (map m_id (messages s))
     \<and> archived_ok (map m_id (messages s)) (messageVariants s) \<and> archived_ok (map m_id (messages s)) (messageContentRevisions s)
     \<and> set (map b_messageId (messageBlocks s)) \<subseteq> set (map m_id (messages s))
     \<and> set (map m_chatId (messages s)) \<subseteq> set (map c_id (chats s))
     \<and> list_all (\<lambda>c. (case c_characterId c of None \<Rightarrow> True | Some x \<Rightarrow> x \<in> set (map fst (characters s)))
         \<and> (case c_personaId c of None \<Rightarrow> True | Some x \<Rightarrow> x \<in> set (personas s))) (chats s)"

definition used_ids :: "db \<Rightarrow> string list" where
  "used_ids s = map c_id (chats s) @ map br_id (chatBranches s) @ map m_id (messages s) @ map a_id (messageVariants s)
     @ map a_id (messageContentRevisions s) @ map b_id (messageBlocks s)"

text \<open>The list \<open>P\<close> of messages and what is attached to them, in a branch of another store.\<close>

definition holds_copy :: "db \<Rightarrow> message_row list \<Rightarrow> string \<Rightarrow> string \<Rightarrow> db \<Rightarrow> bool" where
  "holds_copy s P child br s' \<longleftrightarrow>
     map content_of (branch_rows child br s') = map content_of P
     \<and> parents_linked P (map m_id (branch_rows child br s')) (branch_rows child br s')
     \<and> map (\<lambda>q. texts_from (messageVariants s') (m_id q)) (branch_rows child br s') = map (\<lambda>p. texts_from (messageVariants s) (m_id p)) P
     \<and> map (\<lambda>q. texts_from (messageContentRevisions s') (m_id q)) (branch_rows child br s')
       = map (\<lambda>p. texts_from (messageContentRevisions s) (m_id p)) P
     \<and> map (\<lambda>q. blocks_from (messageBlocks s') (m_id q)) (branch_rows child br s') = map (\<lambda>p. blocks_from (messageBlocks s) (m_id p)) P"

lemma sort_key_sorted: "sorted (map f xs) \<Longrightarrow> sort_key f xs = xs"
  by (induction xs) (auto simp: insort_is_Cons)

lemma texts_from_carried:
  assumes "archived.carried (texts_from T1) T1 (map m_id P) (map m_id Q) new_id n T" and "k < length P" and "length Q = length P"
    and "m_id (Q ! k) \<notin> set (map a_messageId T1)"
  shows "texts_from T (m_id (Q ! k)) = texts_from T1 (m_id (P ! k))"
proof -
  from assms(1) obtain A where A: "T = T1 @ A"
    "list_all2 (\<lambda>x i. map text_payload (filter (\<lambda>t. a_messageId t = i) A) = texts_from T1 x) (map m_id P) (map m_id Q)"
    by (auto simp: archived.carried_def)
  let ?X = "filter (\<lambda>t. a_messageId t = m_id (Q ! k)) A"
  let ?key = "\<lambda>t. (a_position t, a_createdAt t)"
  have X: "map text_payload ?X = map text_payload (texts_of [m_id (P ! k)] T1)"
    using A(2) assms(2,3) by (simp add: list_all2_conv_all_nth texts_from_def)
  have key: "map ?key ts = map (\<lambda>(p, c, t). (p, t)) (map text_payload ts)" for ts
    by (simp add: text_payload_def)
  have "sorted (map ?key ?X)" unfolding key X unfolding key [symmetric] by (simp add: texts_of_def)
  moreover have "filter (\<lambda>t. a_messageId t = m_id (Q ! k)) T1 = []" using assms(4) by (force simp: filter_empty_conv)
  ultimately have "texts_of [m_id (Q ! k)] T = ?X" by (simp add: texts_of_def A(1) sort_key_sorted)
  with X show ?thesis by (simp add: texts_from_def)
qed

lemma blocks_from_carried:
  assumes "blocks.carried (blocks_from T1) T1 (map m_id P) (map m_id Q) new_id n T" and "k < length P" and "length Q = length P"
    and "m_id (Q ! k) \<notin> set (map b_messageId T1)"
  shows "blocks_from T (m_id (Q ! k)) = blocks_from T1 (m_id (P ! k))"
proof -
  from assms(1) obtain A where A: "T = T1 @ A"
    "list_all2 (\<lambda>x i. map block_payload (filter (\<lambda>t. b_messageId t = i) A) = blocks_from T1 x) (map m_id P) (map m_id Q)"
    by (auto simp: blocks.carried_def)
  moreover have "filter (\<lambda>t. b_messageId t = m_id (Q ! k)) T1 = []" using assms(4) by (force simp: filter_empty_conv)
  ultimately show ?thesis using assms(2,3) by (simp add: list_all2_conv_all_nth blocks_from_def)
qed

lemma copied_sorted:
  assumes "stored_rows.ordered P" and "map content_of Q = map content_of P" and "sorted_wrt (<) (map m_id Q)"
  shows "sorted (map message_key Q)"
proof -
  have len: "length Q = length P" using assms(2) by (rule map_eq_imp_length_eq)
  have "message_key (Q ! i) \<le> message_key (Q ! j)" if "i < j" "j < length Q" for i j
  proof -
    have created: "m_createdAt (Q ! k) = m_createdAt (P ! k)" if "k < length Q" for k
      using arg_cong [OF assms(2), of "\<lambda>xs. xs ! k"] that len by (simp add: content_of_def)
    have "message_key (P ! i) < message_key (P ! j)" using assms(1) that len by (simp add: sorted_wrt_iff_nth_less)
    then have "m_createdAt (Q ! i) \<le> m_createdAt (Q ! j)" using created that by (auto simp: message_key_def less_prod_def)
    moreover have "m_id (Q ! i) < m_id (Q ! j)" using assms(3) that by (simp add: sorted_wrt_iff_nth_less)
    ultimately show ?thesis by (auto simp: message_key_def less_eq_prod_def)
  qed
  then show ?thesis by (auto simp: sorted_iff_nth_mono_less)
qed

lemma copied_holds:
  assumes "copied_from s child br new_id n P Q s'" and "copy_base new_id child br s" and "stored_rows.ordered P"
    and "child \<notin> set (map m_chatId (messages s))"
  shows "branch_rows child br s' = Q" and "holds_copy s P child br s'"
    and "filter (\<lambda>m. m_chatId m \<noteq> child) (messages s') = messages s" and "chats s' = chats s"
proof -
  from assms(1) obtain V R B where s': "s' = s\<lparr>messages := messages s @ Q, messageVariants := V, messageContentRevisions := R, messageBlocks := B\<rparr>"
    and Q: "sorted_wrt (<) (map m_id Q)" "set (map m_id Q) \<subseteq> new_id ` {2..<n}" "map content_of Q = map content_of P"
    "parents_linked P (map m_id Q) Q" "list_all (\<lambda>q. m_chatId q = child \<and> m_branchId q = br) Q"
    and V: "archived.carried (texts_from (messageVariants s)) (messageVariants s) (map m_id P) (map m_id Q) new_id n V"
    and R: "archived.carried (texts_from (messageContentRevisions s)) (messageContentRevisions s) (map m_id P) (map m_id Q) new_id n R"
    and B: "blocks.carried (blocks_from (messageBlocks s)) (messageBlocks s) (map m_id P) (map m_id Q) new_id n B"
    by (auto simp: copied_from_def)
  have len: "length Q = length P" using Q(3) by (rule map_eq_imp_length_eq)
  have old: "filter (\<lambda>m. m_chatId m = child \<and> m_branchId m = br) (messages s) = []" "filter (\<lambda>m. m_chatId m \<noteq> child) (messages s) = messages s"
    using assms(4) by (auto simp: filter_empty_conv filter_id_conv)
  have new: "filter (\<lambda>m. m_chatId m = child \<and> m_branchId m = br) Q = Q" "filter (\<lambda>m. m_chatId m \<noteq> child) Q = []"
    using Q(5) by (auto simp: filter_empty_conv filter_id_conv list_all_iff)
  show rows: "branch_rows child br s' = Q"
    using sort_key_sorted [OF copied_sorted [OF assms(3) Q(3,1)]] by (simp add: branch_rows_def order_messages_def s' old new)
  have fresh: "m_id (Q ! k) \<notin> set (map m_id (messages s))" if "k < length P" for k
  proof -
    have "m_id (Q ! k) \<in> set (map m_id Q)" using that len by simp
    then have "m_id (Q ! k) \<in> new_id ` {2..<n}" using Q(2) by (rule subsetD [rotated])
    then obtain j where "2 \<le> j" "m_id (Q ! k) = new_id j" by auto
    then show ?thesis using assms(2) by (simp add: copy_base_def)
  qed
  have unowned: "m_id (Q ! k) \<notin> set (map a_messageId (messageVariants s))" "m_id (Q ! k) \<notin> set (map a_messageId (messageContentRevisions s))"
    "m_id (Q ! k) \<notin> set (map b_messageId (messageBlocks s))" if "k < length P" for k
    using fresh [OF that] assms(2) unfolding copy_base_def archived_ok_def by blast+
  note carried = texts_from_carried [OF V _ len unowned(1)] texts_from_carried [OF R _ len unowned(2)] blocks_from_carried [OF B _ len unowned(3)]
  show "holds_copy s P child br s'"
    unfolding holds_copy_def rows using Q(3,4) carried len by (simp add: s' list_eq_iff_nth_eq)
  show "filter (\<lambda>m. m_chatId m \<noteq> child) (messages s') = messages s" "chats s' = chats s" by (simp_all add: s' old new)
qed

lemma copying_start:
  "copying_ok s child br new_id (take 0 rows) \<lparr>store = s, idMap = [], copied = 0, reached = False, minted = 2\<rparr>"
proof -
  have "copied_from s child br new_id 2 [] [] s"
    unfolding copied_from_def
    by (intro exI [of _ "messageVariants s"] exI [of _ "messageContentRevisions s"] exI [of _ "messageBlocks s"])
      (simp add: parents_linked_def archived.carried_def blocks.carried_def)
  then show ?thesis unfolding copying_ok_def by (auto intro!: exI [of _ "[]"])
qed

text \<open>The tables after the chat of the snapshot and its branch have been inserted.\<close>

definition with_child :: "chat_row \<Rightarrow> snapshot_input \<Rightarrow> string \<Rightarrow> string \<Rightarrow> int \<Rightarrow> db \<Rightarrow> db" where
  "with_child parent input child br now s = s\<lparr>chats := chats s @ [child_row parent input child br now],
    chatBranches := chatBranches s @ [\<lparr>br_id = br, br_chatId = child, br_name = ''main'', br_createdAt = now\<rparr>]\<rparr>"

lemma batches_copy_prefix:
  assumes "tables_ok s" and "strict_mono new_id" and "\<And>j. new_id j \<notin> set (used_ids s)" and "parent \<in> set (chats s)"
    and "m \<in> set (branch_rows (c_id parent) active s)" and "P = upto_message (m_id m) (branch_rows (c_id parent) active s)"
    and "s1 = with_child parent input (new_id 0) (new_id 1) now s"
  obtains c where "copy_batches (c_id parent) active (m_id m) (new_id 0) (new_id 1) new_id None
      \<lparr>store = s1, idMap = [], copied = 0, reached = False, minted = 2\<rparr> = Some (Inr c)"
    "reached c" "copied c = length P" "holds_copy s1 P (new_id 0) (new_id 1) (store c)"
    "filter (\<lambda>r. m_chatId r \<noteq> new_id 0) (messages (store c)) = messages s1" "chats (store c) = chats s1"
proof -
  let ?child = "new_id 0" and ?br = "new_id 1" and ?ch = "c_id parent"
  note s1_def = assms(7) [unfolded with_child_def]
  have unused: "?child \<notin> set (map c_id (chats s))" using assms(3) [of 0] unfolding used_ids_def by simp
  have ids: "distinct (map m_id (messages s))" using assms(1) by (simp add: tables_ok_def)
  have base: "copy_base new_id ?child ?br s1"
    using assms(1-3) by (auto simp: copy_base_def s1_def child_row_def tables_ok_def used_ids_def)
  have rows: "branch_rows ch b s1 = branch_rows ch b s" for ch b by (simp add: branch_rows_def s1_def)
  have other: "?child \<noteq> ?ch" using assms(4) unused by auto
  have "m_id m \<in> set (map m_id (branch_rows ?ch active s1))" using assms(5) by (simp add: rows)
  from copy_batches_reach [OF base other this copying_start, of None] obtain c where c:
    "copy_batches ?ch active (m_id m) ?child ?br new_id None \<lparr>store = s1, idMap = [], copied = 0, reached = False, minted = 2\<rparr> = Some (Inr c)"
    "reached c" "copying_ok s1 ?child ?br new_id P c"
    unfolding assms(6) rows by (auto simp: after_key_def)
  from c(3) obtain Q where Q: "copied_from s1 ?child ?br new_id (minted c) P Q (store c)" "copied c = length P"
    by (auto simp: copying_ok_def)
  have "stored_rows.ordered P"
    unfolding assms(6) by (subst upto_message_take) (rule stored_rows.ordered_take [OF branch_rows_ordered(1) [OF ids]])
  moreover have "?child \<notin> set (map m_chatId (messages s1))"
    using assms(1) unused by (auto simp: s1_def tables_ok_def)
  ultimately show ?thesis using copied_holds [OF Q(1) base] c(1,2) Q(2) by (intro that [of c]) blast+
qed

text \<open>C21: a snapshot of a reachable message is made: its chat holds, in order, a copy of every message of the
  active branch up to the chosen one, with the variants, the edit history and the plugin blocks of each and with
  parents remapped to their copies; it counts them, and the rows of all other chats stay as they were.\<close>

theorem snapshot_copies_prefix:
  assumes "tables_ok s" and "strict_mono new_id" and "\<And>j. new_id j \<notin> set (used_ids s)"
    and "get_chat (sn_parentChatId input) s = Some parent" and "c_activeBranchId parent = Some active"
    and "m \<in> set (branch_rows (c_id parent) active s)" and "m_id m = sn_sourceMessageId input"
    and "P = upto_message (m_id m) (branch_rows (c_id parent) active s)"
  shows "\<exists>chat s'. createSnapshot input new_id now s = Some (Inr (Some (chat, length P)), s')
    \<and> c_id chat = new_id 0 \<and> c_messageCount chat = length P \<and> holds_copy s P (new_id 0) (new_id 1) s'
    \<and> filter (\<lambda>r. m_chatId r \<noteq> new_id 0) (messages s') = messages s"
proof -
  let ?child = "new_id 0" and ?br = "new_id 1" and ?ch = "c_id parent"
  let ?row = "child_row parent input ?child ?br now"
  define s1 where "s1 = with_child parent input ?child ?br now s"
  note s1_view = s1_def [unfolded with_child_def]
  have parent: "parent \<in> set (chats s)" "?ch = sn_parentChatId input"
    using find_SomeD [OF assms(4) [unfolded get_chat_def]] by simp_all
  have unused: "?child \<notin> set (map c_id (chats s))" "?br \<notin> set (map br_id (chatBranches s))"
    using assms(3) [of 0] assms(3) [of 1] unfolding used_ids_def by simp_all
  have m: "m \<in> set (messages s)" "m_chatId m = ?ch" "m_branchId m = active"
    using assms(6) by (auto simp: branch_rows_def order_messages_def)
  have source: "message_of s (sn_sourceMessageId input) = Some m"
    using message_of_member [OF _ m(1)] assms(1,7) by (simp add: tables_ok_def)
  have inserted: "and_then (insert_chat ?row s) (insert_branch \<lparr>br_id = ?br, br_chatId = ?child, br_name = ''main'', br_createdAt = now\<rparr>) = Inr s1"
    using assms(1) parent(1) unused
    by (auto simp: insert_chat_def insert_branch_def s1_view child_row_def tables_ok_def list_all_iff split: option.splits)
  obtain c where c: "copy_batches ?ch active (m_id m) ?child ?br new_id None \<lparr>store = s1, idMap = [], copied = 0, reached = False, minted = 2\<rparr> = Some (Inr c)"
    "reached c" "copied c = length P" and copied: "holds_copy s1 P ?child ?br (store c)"
    "filter (\<lambda>r. m_chatId r \<noteq> ?child) (messages (store c)) = messages s1" "chats (store c) = chats s1"
    by (rule batches_copy_prefix [OF assms(1-3) parent(1) assms(6,8) s1_def])
  let ?done = "update_chats (\<lambda>x. c_id x = ?child) (\<lambda>x. x\<lparr>c_messageCount := copied c\<rparr>) (store c)"
  have child: "get_chat ?child ?done = Some (?row\<lparr>c_messageCount := length P\<rparr>)"
  proof -
    have "find (\<lambda>c. c_id c = ?child) (map (\<lambda>c. if c_id c = ?child then c\<lparr>c_messageCount := length P\<rparr> else c) (chats s)) = None"
      using unused(1) by (force simp: find_None_iff)
    then show ?thesis using c(3) by (simp add: get_chat_def update_chats_def copied(3) s1_view find_snoc child_row_def)
  qed
  have "createSnapshot input new_id now s = Some (Inr (Some (chat.truncate (?row\<lparr>c_messageCount := length P\<rparr>), length P)), ?done)"
    using c(1,2) assms(7) child c(3)
    by (simp add: createSnapshot_def assms(4,5) source m(2,3) Let_def inserted [unfolded One_nat_def])
  moreover have "holds_copy s P ?child ?br ?done" using copied(1) by (simp add: holds_copy_def update_chats_def s1_view branch_rows_def)
  moreover have "filter (\<lambda>r. m_chatId r \<noteq> ?child) (messages ?done) = messages s" using copied(2) by (simp add: update_chats_def s1_view)
  ultimately show ?thesis
    by (intro exI [of _ "chat.truncate (?row\<lparr>c_messageCount := length P\<rparr>)"] exI [of _ ?done])
      (simp add: chat.defs child_row_def)
qed

definition told :: "string \<Rightarrow> string option \<Rightarrow> int \<Rightarrow> message_row" where
  "told i parent t = \<lparr>m_id = i, m_chatId = ''c'', m_branchId = ''b'', m_parentId = parent, m_role = User, m_content = ''Hello'',
     m_name = None, m_meta = ''{}'', m_createdAt = t, m_revision = 1, m_updatedAt = None, m_variantCount = 2,
     m_activeVariantPosition = Some 1, m_checkpointChatId = None, m_contentRevisionCount = 0, m_idempotencyKey = None\<rparr>"

definition snapshot_demo :: db where
  "snapshot_demo = demo_db\<lparr>messages := [told ''p'' None 2, told ''q'' (Some ''p'') 3, told ''r'' (Some ''q'') 4],
     messageVariants := [\<lparr>a_id = ''v'', a_messageId = ''q'', a_position = 0, a_content = ''Aye.'', a_createdAt = 3\<rparr>]\<rparr>"

definition demo_ids :: "nat \<Rightarrow> string" where
  "demo_ids n = replicate (Suc n) CHR ''z''"

lemma demo_ids_mono: "strict_mono demo_ids"
proof -
  have "demo_ids n < demo_ids (Suc n)" for n by (induction n) (simp_all add: demo_ids_def)
  then show ?thesis by (simp add: strict_mono_Suc_iff)
qed

lemma snapshot_copies_prefix_witness:
  "\<exists>chat s'. createSnapshot \<lparr>sn_parentChatId = ''c'', sn_sourceMessageId = ''q'', sn_kind = ''branch'', sn_title = None\<rparr>
     demo_ids 9 snapshot_demo = Some (Inr (Some (chat, 2)), s')
     \<and> holds_copy snapshot_demo [told ''p'' None 2, told ''q'' (Some ''p'') 3] ''z'' ''zz'' s'"
proof -
  have rows: "branch_rows ''c'' ''b'' snapshot_demo = [told ''p'' None 2, told ''q'' (Some ''p'') 3, told ''r'' (Some ''q'') 4]"
    by code_simp
  have "demo_ids j \<notin> set (used_ids snapshot_demo)" for j
    by (simp add: used_ids_def snapshot_demo_def told_def demo_ids_def demo_db_def demo_chat_def)
  moreover have "tables_ok snapshot_demo" by code_simp
  moreover have "get_chat ''c'' snapshot_demo = Some (hd (chats snapshot_demo))" by code_simp
  ultimately show ?thesis
    using snapshot_copies_prefix [of snapshot_demo demo_ids
        "\<lparr>sn_parentChatId = ''c'', sn_sourceMessageId = ''q'', sn_kind = ''branch'', sn_title = None\<rparr>"
        "hd (chats snapshot_demo)" "''b''" "told ''q'' (Some ''p'') 3"
        "[told ''p'' None 2, told ''q'' (Some ''p'') 3]" 9] demo_ids_mono rows
    by (auto simp: snapshot_demo_def told_def demo_ids_def demo_db_def demo_chat_def numeral_2_eq_2)
qed

end
