(* ===== verification/Tokenizers.thy ===== *)
theory Tokenizers
  imports Token_Estimate
begin

text \<open>
  The tokenizer registry (\<open>packages/provider-sdk/src/tokenizer.ts\<close>): profiles by priority, the profile of a
  model, and the memoized counter of a resolved profile with its overlapping calls. What a profile's own
  functions do is an argument or an event; the Unicode group of a character, for the estimate, is an argument.
\<close>

section \<open>Profiles\<close>

text \<open>\<open>matches\<close> gives \<open>None\<close> when it throws or rejects. Profiles are compared by reference.\<close>

record profile =
  tp_ref :: nat
  tp_id :: string
  tp_priority :: "rat option"
  tp_approximate :: bool
  tp_matches :: "string \<Rightarrow> bool option"

definition priority_of :: "profile \<Rightarrow> rat" where
  "priority_of p = (case tp_priority p of None \<Rightarrow> 0 | Some r \<Rightarrow> r)"

definition register_profile :: "profile \<Rightarrow> profile list \<Rightarrow> string + profile list" where
  "register_profile p ps = (if trim (tp_id p) = [] then Inl ''Tokenizer profile id must not be empty''
     else Inr (sort_key (\<lambda>q. - priority_of q) (ps @ [p])))"

fun cleanup_profile :: "profile \<Rightarrow> profile list \<Rightarrow> profile list" where
  "cleanup_profile p [] = []"
| "cleanup_profile p (q # qs) = (if tp_ref q = tp_ref p then qs else q # cleanup_profile p qs)"

fun choose_profile :: "string \<Rightarrow> profile list \<Rightarrow> profile option" where
  "choose_profile model [] = None"
| "choose_profile model (p # ps) =
     (case tp_matches p model of Some True \<Rightarrow> Some p | _ \<Rightarrow> choose_profile model ps)"

definition profilesList :: "profile list \<Rightarrow> string list" where
  "profilesList ps = map tp_id ps"

text \<open>The name and the flag of the tokenizer resolved.\<close>

definition resolve :: "profile list \<Rightarrow> string \<Rightarrow> string \<times> bool" where
  "resolve ps model = (case choose_profile model ps of
       None \<Rightarrow> (''approximate-character-v1'', True)
     | Some p \<Rightarrow> (tp_id p, tp_approximate p))"

section \<open>Counting\<close>

text \<open>What \<open>profile.count\<close> does when it is called, and what its promise comes to.\<close>

datatype count_call = Returns | Throws

datatype outcome = Fulfils jnum | Rejects

definition token_count :: "outcome \<Rightarrow> int option" where
  "token_count r = (case r of
       Fulfils (Num q) \<Rightarrow> if q = of_int \<lfloor>q\<rfloor> \<and> 0 \<le> q \<and> q \<le> of_int MAX_SAFE_INTEGER then Some \<lfloor>q\<rfloor> else None
     | _ \<Rightarrow> None)"

datatype promise = Waiting | Value int

text \<open>The memo maps a text to a promise, by its number; a call in flight waits for a promise and has the
  \<open>catch\<close> around it only if it made it. An answer is the number of tokens, or \<open>None\<close> for a rejection.\<close>

record counter =
  memo :: "(string, nat) jmap"
  promises :: "(string \<times> promise) list"
  inFlight :: "(nat \<times> nat \<times> bool) list"
  answers :: "(nat \<times> string \<times> int option) list"

definition fresh_counter :: counter where
  "fresh_counter = \<lparr>memo = [], promises = [], inFlight = [], answers = []\<rparr>"

definition count_text :: "nat \<Rightarrow> string \<Rightarrow> count_call \<Rightarrow> counter \<Rightarrow> counter" where
  "count_text c text how s =
     (case jm_get (memo s) text of
        Some p \<Rightarrow>
          (case snd (promises s ! p) of
             Waiting \<Rightarrow> s\<lparr>inFlight := inFlight s @ [(c, p, False)]\<rparr>
           | Value n \<Rightarrow> s\<lparr>answers := answers s @ [(c, text, Some n)]\<rparr>)
      | None \<Rightarrow>
          (case how of
             Throws \<Rightarrow> s\<lparr>answers := answers s @ [(c, text, None)]\<rparr>
           | Returns \<Rightarrow> s\<lparr>memo := jm_set text (length (promises s)) (memo s),
               promises := promises s @ [(text, Waiting)],
               inFlight := inFlight s @ [(c, length (promises s), True)]\<rparr>))"

definition answer_of :: "(char \<Rightarrow> nat) \<Rightarrow> string \<Rightarrow> int option \<Rightarrow> bool \<Rightarrow> int option" where
  "answer_of cls text r owner = (case r of Some n \<Rightarrow> Some n | None \<Rightarrow> if owner then Some (estimateTokens cls text) else None)"

definition settle :: "(char \<Rightarrow> nat) \<Rightarrow> nat \<Rightarrow> outcome \<Rightarrow> counter \<Rightarrow> counter" where
  "settle cls p r s =
     (if p < length (promises s) \<and> snd (promises s ! p) = Waiting \<and> list_ex (\<lambda>(c, q, w). q = p) (inFlight s) then
        (let text = fst (promises s ! p); n = token_count r
         in s\<lparr>promises := (case n of Some v \<Rightarrow> (promises s)[p := (text, Value v)] | None \<Rightarrow> promises s),
              memo := (case n of Some v \<Rightarrow> memo s | None \<Rightarrow> jm_delete text (memo s)),
              inFlight := filter (\<lambda>(c, q, w). q \<noteq> p) (inFlight s),
              answers := answers s @ map (\<lambda>(c, q, w). (c, text, answer_of cls text n w)) (filter (\<lambda>(c, q, w). q = p) (inFlight s))\<rparr>)
      else s)"

datatype count_event = Call nat string count_call | Settles nat outcome

fun count_step :: "(char \<Rightarrow> nat) \<Rightarrow> count_event \<Rightarrow> counter \<Rightarrow> counter" where
  "count_step cls (Call c text how) s = count_text c text how s"
| "count_step cls (Settles p r) s = settle cls p r s"

section \<open>Registration\<close>

definition register_ok :: "profile \<Rightarrow> profile list \<Rightarrow> profile list" where
  "register_ok p ps = (case register_profile p ps of Inl _ \<Rightarrow> ps | Inr ps' \<Rightarrow> ps')"

definition profile_fresh :: "profile \<Rightarrow> profile list \<Rightarrow> bool" where
  "profile_fresh p ps \<longleftrightarrow> trim (tp_id p) \<noteq> [] \<and> tp_ref p \<notin> set (map tp_ref ps)"

definition profiles_ok :: "profile list \<Rightarrow> bool" where
  "profiles_ok ps \<longleftrightarrow> sorted (map (\<lambda>q. - priority_of q) ps)"

lemma cleanup_remove1: "(\<forall>q \<in> set qs. tp_ref q = tp_ref p \<longrightarrow> q = p) \<Longrightarrow> cleanup_profile p qs = remove1 p qs"
  by (induction qs) auto

interpretation profiles: cleanup_registry register_ok cleanup_profile profile_fresh profiles_ok
proof
  fix ps p assume "profiles_ok ps" and fresh: "profile_fresh p ps"
  then have sorted: "sorted (map (\<lambda>q. - priority_of q) ps)" by (simp add: profiles_ok_def)
  have reg: "register_ok p ps = sort_key (\<lambda>q. - priority_of q) (ps @ [p])"
    using fresh by (simp add: register_ok_def register_profile_def profile_fresh_def)
  show "profiles_ok (register_ok p ps)" unfolding reg profiles_ok_def by simp
  have "cleanup_profile p (register_ok p ps) = remove1 p (register_ok p ps)"
  proof (rule cleanup_remove1, intro ballI impI)
    fix q assume "q \<in> set (register_ok p ps)" and same: "tp_ref q = tp_ref p"
    then have "q \<in> set ps \<or> q = p" by (auto simp: reg)
    moreover have "tp_ref p \<notin> tp_ref ` set ps" using fresh by (simp add: profile_fresh_def)
    ultimately show "q = p" using same by (metis imageI)
  qed
  also have "\<dots> = ps" unfolding reg using sorted fresh by (intro remove1_sort_key_snoc) (auto simp: profile_fresh_def)
  finally show "cleanup_profile p (register_ok p ps) = ps" .
qed

lemma profiles_withdrawn:
  assumes "profiles_ok ps" and "profiles.all_fresh qs ps"
  shows "fold cleanup_profile (rev qs) (fold register_ok qs ps) = ps"
  using assms by (rule profiles.nested_cleanup)

lemma choose_working: "choose_profile model ps = choose_profile model (filter (\<lambda>p. tp_matches p model \<noteq> None) ps)"
  by (induction ps) (auto split: option.splits bool.splits)

lemma choose_first:
  "choose_profile model ps = Some p \<Longrightarrow> \<exists>xs ys. ps = xs @ p # ys \<and> tp_matches p model = Some True \<and> (\<forall>q \<in> set xs. tp_matches q model \<noteq> Some True)"
proof (induction ps)
  case (Cons q ps)
  show ?case
  proof (cases "tp_matches q model = Some True")
    case True
    with Cons.prems show ?thesis by (intro exI [of _ "[]"] exI [of _ ps]) simp
  next
    case False
    with Cons.prems have "choose_profile model ps = Some p" by (auto split: option.splits bool.splits)
    from Cons.IH [OF this] obtain xs ys where xs: "ps = xs @ p # ys" "tp_matches p model = Some True"
      "\<forall>q \<in> set xs. tp_matches q model \<noteq> Some True" by blast
    with False show ?thesis by (intro exI [of _ "q # xs"] exI [of _ ys]) simp
  qed
qed simp

text \<open>A profile whose test fails is as if it were not registered, and when a profile matches, the one resolved
  matches too and has no lower priority.\<close>

theorem broken_profile_skipped:
  assumes "profiles_ok ps" and "p \<in> set ps" and "tp_matches p model = Some True"
  shows "\<exists>q \<in> set ps. resolve ps model = (tp_id q, tp_approximate q) \<and> tp_matches q model = Some True
    \<and> priority_of p \<le> priority_of q \<and> resolve (filter (\<lambda>r. tp_matches r model \<noteq> None) ps) model = resolve ps model"
proof -
  have "choose_profile model ps \<noteq> None"
    using assms(2,3) by (induction ps) (auto split: option.splits bool.splits)
  then obtain q where q: "choose_profile model ps = Some q" by auto
  from choose_first [OF this] obtain xs ys where xs: "ps = xs @ q # ys" "tp_matches q model = Some True"
    "\<forall>r \<in> set xs. tp_matches r model \<noteq> Some True" by blast
  with assms(2,3) have "p = q \<or> p \<in> set ys" by auto
  with assms(1) xs(1) have "priority_of p \<le> priority_of q" by (auto simp: profiles_ok_def sorted_append)
  moreover have "resolve (filter (\<lambda>r. tp_matches r model \<noteq> None) ps) model = resolve ps model"
    unfolding resolve_def choose_working [symmetric] ..
  moreover have "q \<in> set ps" using xs(1) by simp
  ultimately show ?thesis using q xs(2) by (intro bexI [of _ q]) (simp_all add: resolve_def)
qed

definition named_profile :: "nat \<Rightarrow> string \<Rightarrow> rat \<Rightarrow> bool option \<Rightarrow> profile" where
  "named_profile r i q m = \<lparr>tp_ref = r, tp_id = i, tp_priority = Some q, tp_approximate = False, tp_matches = (\<lambda>_. m)\<rparr>"

lemma broken_profile_skipped_witness:
  "\<exists>q \<in> set [named_profile 0 ''broken'' 9 None, named_profile 1 ''exact'' 2 (Some True)].
     resolve [named_profile 0 ''broken'' 9 None, named_profile 1 ''exact'' 2 (Some True)] ''gpt'' = (tp_id q, tp_approximate q)"
  using broken_profile_skipped [of "[named_profile 0 ''broken'' 9 None, named_profile 1 ''exact'' 2 (Some True)]"
      "named_profile 1 ''exact'' 2 (Some True)" "''gpt''"]
  by (auto simp: profiles_ok_def priority_of_def named_profile_def)

section \<open>Answers\<close>

text \<open>No profile function throws, and no text is counted while it is being counted.\<close>

fun calm :: "(char \<Rightarrow> nat) \<Rightarrow> count_event list \<Rightarrow> counter \<Rightarrow> bool" where
  "calm cls [] s = True"
| "calm cls (e # es) s = ((case e of
       Call c text how \<Rightarrow> how = Returns \<and> list_all (\<lambda>(c, p, w). fst (promises s ! p) \<noteq> text) (inFlight s)
     | Settles p r \<Rightarrow> True) \<and> calm cls es (count_step cls e s))"

definition counter_ok :: "counter \<Rightarrow> bool" where
  "counter_ok s \<longleftrightarrow> (\<forall>(t, p) \<in> set (memo s). p < length (promises s) \<and> fst (promises s ! p) = t
        \<and> (snd (promises s ! p) = Waiting \<longrightarrow> (\<exists>c w. (c, p, w) \<in> set (inFlight s))))
     \<and> (\<forall>(c, p, w) \<in> set (inFlight s). p < length (promises s) \<and> w)
     \<and> (\<forall>(c, t, r) \<in> set (answers s). r \<noteq> None)"

lemma counter_ok_call:
  assumes "counter_ok s" and "list_all (\<lambda>(c, p, w). fst (promises s ! p) \<noteq> text) (inFlight s)"
  shows "counter_ok (count_text c text Returns s)"
proof (cases "jm_get (memo s) text")
  case None
  then show ?thesis
    using assms(1) by (fastforce simp: counter_ok_def count_text_def nth_append less_Suc_eq dest!: in_set_jm_setD)
next
  case (Some p)
  then have p: "p < length (promises s)" "fst (promises s ! p) = text"
    "snd (promises s ! p) = Waiting \<longrightarrow> (\<exists>c w. (c, p, w) \<in> set (inFlight s))"
    using assms(1) by (auto simp: counter_ok_def dest!: jm_get_in_set)
  then have "snd (promises s ! p) \<noteq> Waiting" using assms(2) by (auto simp: list_all_iff)
  then obtain n where "snd (promises s ! p) = Value n" by (cases "snd (promises s ! p)") auto
  with Some assms(1) show ?thesis by (auto simp: counter_ok_def count_text_def)
qed

lemma counter_okI:
  assumes "\<And>t q. (t, q) \<in> set (memo s) \<Longrightarrow> q < length (promises s) \<and> fst (promises s ! q) = t
      \<and> (snd (promises s ! q) = Waiting \<longrightarrow> (\<exists>c w. (c, q, w) \<in> set (inFlight s)))"
    and "\<And>c q w. (c, q, w) \<in> set (inFlight s) \<Longrightarrow> q < length (promises s) \<and> w"
    and "\<And>c t r. (c, t, r) \<in> set (answers s) \<Longrightarrow> r \<noteq> None"
  shows "counter_ok s"
  using assms unfolding counter_ok_def by blast

lemma counter_okD:
  assumes "counter_ok s"
  shows "(t, q) \<in> set (memo s) \<Longrightarrow> q < length (promises s) \<and> fst (promises s ! q) = t
      \<and> (snd (promises s ! q) = Waiting \<longrightarrow> (\<exists>c w. (c, q, w) \<in> set (inFlight s)))"
    and "(c, q, w) \<in> set (inFlight s) \<Longrightarrow> q < length (promises s) \<and> w"
    and "(c, t, r) \<in> set (answers s) \<Longrightarrow> r \<noteq> None"
  using assms by (auto simp: counter_ok_def)

lemma counter_ok_settle:
  assumes ok: "counter_ok s"
  shows "counter_ok (settle cls p r s)"
proof (cases "p < length (promises s) \<and> snd (promises s ! p) = Waiting \<and> list_ex (\<lambda>(c, q, w). q = p) (inFlight s)")
  case True
  let ?text = "fst (promises s ! p)" and ?t = "settle cls p r s"
  have flight: "set (inFlight ?t) = {(c, q, w) \<in> set (inFlight s). q \<noteq> p}" and len: "length (promises ?t) = length (promises s)"
    and proms: "\<And>q. q < length (promises s) \<Longrightarrow> q \<noteq> p \<Longrightarrow> promises ?t ! q = promises s ! q"
    using True by (auto simp: settle_def Let_def split: option.splits)
  have memo: "(t, q) \<in> set (memo s) \<and> (q = p \<longrightarrow> (\<exists>v. promises ?t ! p = (?text, Value v)))" if "(t, q) \<in> set (memo ?t)" for t q
    using that True counter_okD(1) [OF ok] by (auto simp: settle_def Let_def jm_delete_def split: option.splits)
  have flag: "(c, q, w) \<in> set (inFlight s) \<Longrightarrow> w = True" for c q w
    using counter_okD(2) [OF ok, of c q w] by simp
  have answered: "r \<noteq> None" if "(c, t, r) \<in> set (answers ?t)" for c t r
  proof -
    have "(c, t, r) \<in> set (answers s) \<or> (\<exists>n. r = answer_of cls ?text n True)"
      using that True by (auto simp: settle_def Let_def dest: flag)
    then show ?thesis using counter_okD(3) [OF ok] by (auto simp: answer_of_def split: option.splits)
  qed
  show ?thesis
  proof (rule counter_okI)
    fix t q assume later: "(t, q) \<in> set (memo ?t)"
    show "q < length (promises ?t) \<and> fst (promises ?t ! q) = t
        \<and> (snd (promises ?t ! q) = Waiting \<longrightarrow> (\<exists>c w. (c, q, w) \<in> set (inFlight ?t)))"
    proof (cases "q = p")
      case True
      with memo [OF later] counter_okD(1) [OF ok] len show ?thesis by auto
    next
      case False
      with memo [OF later] counter_okD(1) [OF ok, of t q] len proms [of q] flight show ?thesis by auto
    qed
  next
    show "(c, q, w) \<in> set (inFlight ?t) \<Longrightarrow> q < length (promises ?t) \<and> w" for c q w
      using flight len counter_okD(2) [OF ok] by auto
  qed (rule answered)
next
  case False
  with assms show ?thesis by (auto simp: settle_def)
qed

lemma counter_ok_run: "counter_ok s \<Longrightarrow> calm cls es s \<Longrightarrow> counter_ok (fold (count_step cls) es s)"
proof (induction es arbitrary: s)
  case (Cons e es)
  have "counter_ok (count_step cls e s)"
    using Cons.prems by (cases e) (auto simp: counter_ok_call counter_ok_settle)
  with Cons show ?case by simp
qed simp

text \<open>While no profile function throws and no text is counted twice at once, every count is answered with a
  number: a rejected or invalid count falls back to the estimate.\<close>

theorem lone_counts_answered:
  assumes "calm cls es fresh_counter" and "(c, text, r) \<in> set (answers (fold (count_step cls) es fresh_counter))"
  shows "\<exists>n. r = Some n"
proof -
  have "counter_ok fresh_counter" by (simp add: counter_ok_def fresh_counter_def)
  from counter_okD(3) [OF counter_ok_run [OF this assms(1)] assms(2)] show ?thesis by simp
qed

lemma lone_counts_answered_witness:
  "\<exists>n. Some (estimateTokens (\<lambda>_. 0) ''abcd'') = Some n"
  using lone_counts_answered [of "\<lambda>_. 0" "[Call 0 ''abcd'' Returns, Settles 0 Rejects]" 0 "''abcd''"
      "Some (estimateTokens (\<lambda>_. 0) ''abcd'')"]
  by (simp add: fresh_counter_def count_text_def settle_def Let_def token_count_def answer_of_def jm_get_def jm_delete_def)

text \<open>Two overlapping counts of one text, the first of which fails: the one that made the promise falls back to
  the estimate, the other is rejected; and a count function that throws rejects the count.\<close>

theorem overlapping_count_rejected:
  "answers (fold (count_step cls) [Call 0 text Returns, Call 1 text Returns, Settles 0 Rejects, Call 2 text Throws] fresh_counter)
   = [(0, text, Some (estimateTokens cls text)), (1, text, None), (2, text, None)]"
  by (simp add: fresh_counter_def count_text_def settle_def Let_def token_count_def answer_of_def jm_get_def jm_delete_def)

end
