(* ===== verification/Event_Streams.thy ===== *)
theory Event_Streams
  imports Prelude
begin

text \<open>
  Text streams cut into records: the Server-Sent-Events parser that reads providers
  (\<open>packages/provider-sdk/src/sse.ts\<close>), the writer of the server (\<open>apps/server/src/lib/sse.ts\<close>), the reader
  of the web client (\<open>apps/web/src/api/generate.ts\<close>) and the NDJSON reader of the client SDK
  (\<open>packages/client-sdk/src/http.ts\<close>).

  A chunk is the text its bytes decode to: \<open>TextDecoder\<close> in streaming mode gives the same text wherever the
  bytes are cut. The JSON parser is an argument.
\<close>

section \<open>Records of a buffer\<close>

definition LF :: char where "LF = CHR 0x0A"

definition CR :: char where "CR = CHR 0x0D"

text \<open>\<open>while ((i = buffer.indexOf(separator)) >= 0)\<close>: the records before the separators, and the rest. A buffer
  has fewer records than characters, so its length is fuel enough.\<close>

fun records_of :: "(string \<Rightarrow> (string \<times> string) option) \<Rightarrow> nat \<Rightarrow> string \<Rightarrow> string list \<times> string" where
  "records_of sep 0 b = ([], b)"
| "records_of sep (Suc n) b = (case sep b of
     None \<Rightarrow> ([], b)
   | Some (r, t) \<Rightarrow> (let (rs, t') = records_of sep n t in (r # rs, t')))"

definition drain :: "(string \<Rightarrow> (string \<times> string) option) \<Rightarrow> string \<Rightarrow> string list \<times> string" where
  "drain sep b = records_of sep (length b) b"

definition cut_line :: "string \<Rightarrow> (string \<times> string) option" where
  "cut_line b = (if LF \<in> set b then Some (takeWhile (\<lambda>c. c \<noteq> LF) b, tl (dropWhile (\<lambda>c. c \<noteq> LF) b)) else None)"

text \<open>The separator of the web client is an empty line.\<close>

fun cut_frame :: "string \<Rightarrow> (string \<times> string) option" where
  "cut_frame (a # b # r) = (if a = LF \<and> b = LF then Some ([], r)
     else map_option (\<lambda>(x, y). (a # x, y)) (cut_frame (b # r)))"
| "cut_frame _ = None"

fun read_all :: "(string \<Rightarrow> (string \<times> string) option) \<Rightarrow> string list \<Rightarrow> string \<Rightarrow> string list \<times> string" where
  "read_all sep [] b = ([], b)"
| "read_all sep (c # cs) b = (let (rs, b1) = drain sep (b @ c); (rs', b2) = read_all sep cs b1 in (rs @ rs', b2))"

section \<open>The provider's stream\<close>

definition SSE_MAX_BUFFERED_BYTES :: nat where
  "SSE_MAX_BUFFERED_BYTES = 1024 * 1024"

definition flush :: "string list \<Rightarrow> string list" where
  "flush d = (if d = [] then [] else [join_with [LF] d])"

definition data_of :: "string \<Rightarrow> string" where
  "data_of l = (case drop 5 l of [] \<Rightarrow> [] | c # t \<Rightarrow> if c = CHR '' '' then t else c # t)"

text \<open>One raw line: the payload it completes, if any, and the data lines kept.\<close>

definition sse_line :: "string \<Rightarrow> string list \<Rightarrow> string list \<times> string list" where
  "sse_line raw d =
     (let line = (if endsWith raw [CR] then butlast raw else raw)
      in if line = [] then (flush d, [])
         else if startsWith line ''data:'' then ([], d @ [data_of line])
         else ([], d))"

fun sse_lines :: "string list \<Rightarrow> string list \<Rightarrow> string list \<times> string list" where
  "sse_lines [] d = ([], d)"
| "sse_lines (l # ls) d = (let (out, d1) = sse_line l d; (more, d2) = sse_lines ls d1 in (out @ more, d2))"

text \<open>The reads; \<open>None\<close> when the buffered text exceeds the cap.\<close>

fun read_capped :: "nat \<Rightarrow> string list \<Rightarrow> string \<Rightarrow> string list \<times> string option" where
  "read_capped cap [] b = ([], Some b)"
| "read_capped cap (c # cs) b =
     (if cap < length (b @ c) then ([], None)
      else (let (rs, b1) = drain cut_line (b @ c); (rs', r) = read_capped cap cs b1 in (rs @ rs', r)))"

datatype 'e stream_end = Ended | LineTooLong | Broken 'e

text \<open>The payloads yielded, and how the generator ends. \<open>broken\<close> is what the last read rejects with.\<close>

definition parseSseStream :: "nat \<Rightarrow> string list \<Rightarrow> 'e option \<Rightarrow> string list \<times> 'e stream_end" where
  "parseSseStream cap chunks broken =
     (let (ls, r) = read_capped cap chunks []; (out, d) = sse_lines ls []
      in case r of
           None \<Rightarrow> (out, LineTooLong)
         | Some b \<Rightarrow>
             (case broken of
                Some e \<Rightarrow> (out, Broken e)
              | None \<Rightarrow> (out @ flush (if startsWith b ''data:'' then d @ [data_of b] else d), Ended)))"

section \<open>The server's stream\<close>

datatype sse_write = Opened | Sent string | Pinged

fun sse_text :: "sse_write \<Rightarrow> string" where
  "sse_text Opened = [LF]"
| "sse_text (Sent j) = ''data: '' @ j @ [LF, LF]"
| "sse_text Pinged = '': ping'' @ [LF, LF]"

text \<open>The payload the web client finds in a frame.\<close>

definition frame_payload :: "string \<Rightarrow> string option" where
  "frame_payload f = (case find (\<lambda>l. startsWith l ''data:'') (split_char LF f) of
       None \<Rightarrow> None
     | Some l \<Rightarrow> (let p = trim (drop 5 l) in if p = [] then None else Some p))"

record token_usage =
  promptTokens :: rat
  completionTokens :: rat
  totalTokens :: rat

datatype generation_event =
  Start string
| Delta string
| Done string "token_usage option"
| Error string string
| PluginIntercept string string string

text \<open>What \<open>JSON.parse\<close> makes of a payload: it throws, gives \<open>null\<close>, an event, or another value.\<close>

datatype parsed = Malformed | Null | Event generation_event | OtherValue

datatype handler_call = OnStart string | OnDelta string | OnDone string | OnError string string

text \<open>The handlers called for the payloads: \<open>None\<close> when the loop is left by an exception. \<open>intercept\<close> tells
  whether an interception completes.\<close>

fun client_events :: "(string \<Rightarrow> parsed) \<Rightarrow> (generation_event \<Rightarrow> bool) \<Rightarrow> string list \<Rightarrow> handler_call list \<times> bool" where
  "client_events parse intercept [] = ([], True)"
| "client_events parse intercept (p # ps) =
     (let rest = client_events parse intercept ps
      in case parse p of
           Malformed \<Rightarrow> rest
         | Null \<Rightarrow> ([], False)
         | OtherValue \<Rightarrow> rest
         | Event e \<Rightarrow>
             (case e of
                PluginIntercept r t ch \<Rightarrow> if intercept e then rest else ([], False)
              | Start r \<Rightarrow> (OnStart r # fst rest, snd rest)
              | Delta t \<Rightarrow> (OnDelta t # fst rest, snd rest)
              | Done t u \<Rightarrow> (OnDone t # fst rest, snd rest)
              | Error c m \<Rightarrow> (OnError c m # fst rest, snd rest)))"

definition terminal_call :: "handler_call \<Rightarrow> bool" where
  "terminal_call c = (case c of OnDone _ \<Rightarrow> True | OnError _ _ \<Rightarrow> True | _ \<Rightarrow> False)"

text \<open>The calls, and whether the promise resolves.\<close>

definition streamGeneration :: "(string \<Rightarrow> parsed) \<Rightarrow> (generation_event \<Rightarrow> bool) \<Rightarrow> string list \<Rightarrow> bool \<Rightarrow> handler_call list \<times> bool" where
  "streamGeneration parse intercept chunks broken =
     (let frames = fst (read_all cut_frame chunks []);
          (calls, fine) = client_events parse intercept (List.map_filter frame_payload frames)
      in if \<not> fine \<or> broken then (calls, False)
         else (if list_ex terminal_call calls then calls
               else calls @ [OnError ''GENERATION_FAILED'' ''Stream ended unexpectedly''], True))"

section \<open>The NDJSON stream of the client SDK\<close>

text \<open>\<open>read_line\<close> is \<open>parseEventLine\<close>: an event, or the error it throws.\<close>

fun ndjson_events :: "(string \<Rightarrow> 'err + 'ev) \<Rightarrow> string list \<Rightarrow> 'ev list \<times> 'err option" where
  "ndjson_events read_line [] = ([], None)"
| "ndjson_events read_line (l # ls) =
     (if trim l = [] then ndjson_events read_line ls
      else case read_line (trim l) of
             Inl e \<Rightarrow> ([], Some e)
           | Inr v \<Rightarrow> map_prod ((#) v) id (ndjson_events read_line ls))"

definition ndjson_stream :: "(string \<Rightarrow> 'err + 'ev) \<Rightarrow> string list \<Rightarrow> 'err option \<Rightarrow> 'ev list \<times> 'err option" where
  "ndjson_stream read_line chunks lost =
     (let (ls, rest) = read_all cut_line chunks []
      in case lost of
           None \<Rightarrow> ndjson_events read_line (ls @ [rest])
         | Some e \<Rightarrow> (case ndjson_events read_line ls of (vs, None) \<Rightarrow> (vs, Some e) | r \<Rightarrow> r))"

section \<open>Chunks do not matter\<close>

text \<open>The contract of a separator: it takes at least a character, and what it finds it also finds when more text
  follows.\<close>

locale chunk_reader =
  fixes sep :: "string \<Rightarrow> (string \<times> string) option"
  assumes shrinks: "sep b = Some (r, t) \<Longrightarrow> length t < length b"
    and stable: "sep b = Some (r, t) \<Longrightarrow> sep (b @ x) = Some (r, t @ x)"
begin

lemma records_enough: "length b \<le> n \<Longrightarrow> records_of sep n b = drain sep b"
proof (induction "length b" arbitrary: b n rule: less_induct)
  case less
  show ?case
  proof (cases "sep b")
    case None
    then show ?thesis by (cases n; cases "length b") (simp_all add: drain_def)
  next
    case (Some p)
    obtain r t where p: "sep b = Some (r, t)" using Some by (cases p) auto
    then have shorter: "length t < length b" by (rule shrinks)
    then obtain n' k where n': "n = Suc n'" "length b = Suc k" using less.prems by (cases n; cases "length b") auto
    have "records_of sep n' t = drain sep t" "records_of sep k t = drain sep t"
      using less.hyps [OF shorter] less.prems n' shorter by simp_all
    then show ?thesis by (simp add: drain_def n' p)
  qed
qed

lemma drain_simps:
  "sep b = None \<Longrightarrow> drain sep b = ([], b)"
  "sep b = Some (r, t) \<Longrightarrow> drain sep b = (r # fst (drain sep t), snd (drain sep t))"
proof -
  assume none: "sep b = None"
  then show "drain sep b = ([], b)" by (cases "length b") (simp_all add: drain_def)
next
  assume some: "sep b = Some (r, t)"
  then have shorter: "length t < length b" by (rule shrinks)
  then obtain k where k: "length b = Suc k" by (cases "length b") auto
  have "drain sep b = (r # fst (records_of sep k t), snd (records_of sep k t))"
    using some by (simp add: drain_def k split_beta)
  with records_enough [of t k] shorter k show "drain sep b = (r # fst (drain sep t), snd (drain sep t))" by simp
qed

lemma drain_append:
  "drain sep (b @ x) = (fst (drain sep b) @ fst (drain sep (snd (drain sep b) @ x)), snd (drain sep (snd (drain sep b) @ x)))"
proof (induction "length b" arbitrary: b rule: less_induct)
  case less
  show ?case
  proof (cases "sep b")
    case None
    then show ?thesis by (simp add: drain_simps(1))
  next
    case (Some p)
    obtain r t where p: "sep b = Some (r, t)" using Some by (cases p) auto
    then show ?thesis using less [OF shrinks [OF p]] by (simp add: drain_simps(2) stable [OF p])
  qed
qed

lemma drain_rest: "sep (snd (drain sep b)) = None"
proof (induction "length b" arbitrary: b rule: less_induct)
  case less
  show ?case
  proof (cases "sep b")
    case (Some p)
    obtain r t where p: "sep b = Some (r, t)" using Some by (cases p) auto
    then show ?thesis using less [OF shrinks [OF p]] by (simp add: drain_simps(2))
  qed (simp add: drain_simps(1))
qed

lemma read_all_concat: "sep b = None \<Longrightarrow> read_all sep cs b = drain sep (b @ concat cs)"
proof (induction cs arbitrary: b)
  case Nil
  then show ?case by (simp add: drain_simps(1))
next
  case (Cons c cs)
  have "read_all sep cs (snd (drain sep (b @ c))) = drain sep (snd (drain sep (b @ c)) @ concat cs)"
    by (rule Cons.IH) (rule drain_rest)
  then show ?case using drain_append [of "b @ c" "concat cs"] by (simp add: split_beta)
qed

lemma drain_length: "length (snd (drain sep b)) \<le> length b"
proof (induction "length b" arbitrary: b rule: less_induct)
  case less
  show ?case
  proof (cases "sep b")
    case (Some p)
    obtain r t where p: "sep b = Some (r, t)" using Some by (cases p) auto
    then show ?thesis using less [OF shrinks [OF p]] shrinks [OF p] by (simp add: drain_simps(2))
  qed (simp add: drain_simps(1))
qed

lemma drain_record:
  assumes "sep (r @ d) = Some (r, [])"
  shows "drain sep (r @ d @ x) = (r # fst (drain sep x), snd (drain sep x))"
  using stable [OF assms, of x] by (simp add: drain_simps(2))

end

interpretation lines: chunk_reader cut_line
proof unfold_locales
  fix b r t x assume cut: "cut_line b = Some (r, t)"
  then have nl: "LF \<in> set b" by (simp add: cut_line_def split: if_splits)
  then have "dropWhile (\<lambda>c. c \<noteq> LF) b \<noteq> []" by (auto simp: dropWhile_eq_Nil_conv)
  moreover have "length (dropWhile (\<lambda>c. c \<noteq> LF) b) \<le> length b" by (rule length_dropWhile_le)
  ultimately show "length t < length b" using cut nl by (cases "dropWhile (\<lambda>c. c \<noteq> LF) b") (auto simp: cut_line_def)
  show "cut_line (b @ x) = Some (r, t @ x)"
    using cut nl \<open>dropWhile (\<lambda>c. c \<noteq> LF) b \<noteq> []\<close> by (auto simp: cut_line_def takeWhile_append1 dropWhile_append1)
qed

lemma cut_frame_props:
  "cut_frame b = Some (r, t) \<Longrightarrow> length t < length b"
  "cut_frame b = Some (r, t) \<Longrightarrow> cut_frame (b @ x) = Some (r, t @ x)"
  by (induction b arbitrary: r t rule: cut_frame.induct) (auto split: if_splits)

interpretation frames: chunk_reader cut_frame
  by unfold_locales (fact cut_frame_props)+

lemma read_capped_drain:
  "snd (read_capped cap cs b) = Some b' \<Longrightarrow> cut_line b = None \<Longrightarrow> read_capped cap cs b = map_prod id Some (drain cut_line (b @ concat cs))"
proof (induction cs arbitrary: b)
  case Nil
  then show ?case by (simp add: lines.drain_simps(1))
next
  case (Cons c cs)
  define b1 where "b1 = snd (drain cut_line (b @ c))"
  have step: "read_capped cap (c # cs) b = (fst (drain cut_line (b @ c)) @ fst (read_capped cap cs b1), snd (read_capped cap cs b1))"
    using Cons.prems(1) by (auto simp: b1_def split_beta split: if_splits)
  have "cut_line b1 = None" unfolding b1_def by (rule lines.drain_rest)
  moreover have "snd (read_capped cap cs b1) = Some b'" using Cons.prems(1) step by simp
  ultimately have "read_capped cap cs b1 = map_prod id Some (drain cut_line (b1 @ concat cs))" by (intro Cons.IH)
  then show ?case unfolding step using lines.drain_append [of "b @ c" "concat cs"] by (simp add: b1_def)
qed

text \<open>No read takes the buffered text over the cap.\<close>

definition within_cap :: "nat \<Rightarrow> string list \<Rightarrow> bool" where
  "within_cap cap cs \<longleftrightarrow> snd (read_capped cap cs []) \<noteq> None"

lemma read_capped_small: "length b + length (concat cs) \<le> cap \<Longrightarrow> snd (read_capped cap cs b) \<noteq> None"
proof (induction cs arbitrary: b)
  case (Cons c cs)
  then have "snd (read_capped cap cs (snd (drain cut_line (b @ c)))) \<noteq> None"
    using lines.drain_length [of "b @ c"] by (intro Cons.IH) simp
  with Cons.prems show ?case by (simp add: split_beta)
qed simp

lemma within_cap_small: "length (concat cs) \<le> cap \<Longrightarrow> within_cap cap cs"
  unfolding within_cap_def by (rule read_capped_small) simp

text \<open>C18: the payloads a provider's stream yields, and how it ends, do not depend on where the network cuts it,
  as long as no read exceeds the cap.\<close>

theorem chunking_irrelevant:
  assumes "concat cs = concat cs'" and "within_cap cap cs" and "within_cap cap cs'"
  shows "parseSseStream cap cs broken = parseSseStream cap cs' broken"
proof -
  have nil: "cut_line [] = None" by (simp add: cut_line_def)
  have whole: "read_capped cap ds [] = map_prod id Some (drain cut_line (concat ds))" if "within_cap cap ds" for ds
    using that read_capped_drain [OF _ nil, of cap ds] by (auto simp: within_cap_def)
  have "read_capped cap cs [] = read_capped cap cs' []"
    unfolding whole [OF assms(2)] whole [OF assms(3)] assms(1) ..
  then show ?thesis by (simp add: parseSseStream_def)
qed

lemma chunking_irrelevant_witness:
  "parseSseStream 40 [''data: {''] (None :: string option) = ([''{''], Ended)
   \<and> parseSseStream 40 [''da'', ''ta: {'' @ [CR], [LF] @ ''data: }'' @ [LF, LF]] (None :: string option)
     = parseSseStream 40 [''data: {'' @ [CR, LF] @ ''data: }'' @ [LF], [LF]] None"
proof
  show "parseSseStream 40 [''data: {''] (None :: string option) = ([''{''], Ended)" by code_simp
  have "within_cap 40 [''da'', ''ta: {'' @ [CR], [LF] @ ''data: }'' @ [LF, LF]]"
    "within_cap 40 [''data: {'' @ [CR, LF] @ ''data: }'' @ [LF], [LF]]"
    by code_simp+
  then show "parseSseStream 40 [''da'', ''ta: {'' @ [CR], [LF] @ ''data: }'' @ [LF, LF]] (None :: string option)
     = parseSseStream 40 [''data: {'' @ [CR, LF] @ ''data: }'' @ [LF], [LF]] None"
    by (rule chunking_irrelevant [rotated]) simp
qed

section \<open>The cap\<close>

definition token_frame :: string where
  "token_frame = ''data: x'' @ [LF, LF]"

lemma drain_token_frame: "drain cut_line (token_frame @ x) = (''data: x'' # [] # fst (drain cut_line x), snd (drain cut_line x))"
proof -
  have "cut_line (''data: x'' @ [LF]) = Some (''data: x'', [])" "cut_line ([] @ [LF]) = Some ([], [])" by code_simp+
  note this [THEN lines.drain_record]
  from this(1) [of "LF # x"] this(2) [of x] show ?thesis by (simp add: token_frame_def)
qed

lemma read_token_frames:
  "9 \<le> cap \<Longrightarrow> read_capped cap (replicate n token_frame) [] = (concat (replicate n [''data: x'', []]), Some [])"
proof (induction n)
  case (Suc n)
  have "length token_frame = 9" by code_simp
  moreover have "drain cut_line token_frame = ([''data: x'', []], [])"
    using drain_token_frame [of "[]"] by (simp add: drain_def)
  ultimately show ?case using Suc by simp
qed simp

lemma sse_token_lines: "sse_lines (concat (replicate n [''data: x'', []])) [] = (replicate n ''x'', [])"
  by (induction n) (simp_all add: sse_line_def Let_def endsWith_def startsWith_def data_of_def flush_def CR_def)

text \<open>The cap counts what one read delivers, not the line: a burst of short lines longer than the cap
  is refused with the error for an overlong line, and nothing of it is yielded, while the same text in shorter
  reads is parsed.\<close>

theorem short_lines_refused:
  assumes "SSE_MAX_BUFFERED_BYTES < 9 * n"
  shows "parseSseStream SSE_MAX_BUFFERED_BYTES [concat (replicate n token_frame)] (None :: string option) = ([], LineTooLong)
    \<and> parseSseStream SSE_MAX_BUFFERED_BYTES (replicate n token_frame) (None :: string option) = (replicate n ''x'', Ended)"
proof
  have "length token_frame = 9" by code_simp
  then have "length (concat (replicate n token_frame)) = 9 * n" by (simp add: length_concat sum_list_replicate)
  then show "parseSseStream SSE_MAX_BUFFERED_BYTES [concat (replicate n token_frame)] (None :: string option) = ([], LineTooLong)"
    using assms by (simp add: parseSseStream_def)
  have "9 \<le> SSE_MAX_BUFFERED_BYTES" by (simp add: SSE_MAX_BUFFERED_BYTES_def)
  from read_token_frames [OF this, of n] show "parseSseStream SSE_MAX_BUFFERED_BYTES (replicate n token_frame) (None :: string option) = (replicate n ''x'', Ended)"
    by (simp add: parseSseStream_def sse_token_lines flush_def startsWith_def)
qed

lemma short_lines_refused_witness:
  "parseSseStream SSE_MAX_BUFFERED_BYTES [concat (replicate 120000 token_frame)] (None :: string option) = ([], LineTooLong)"
proof -
  have "SSE_MAX_BUFFERED_BYTES < 9 * 120000" by (simp add: SSE_MAX_BUFFERED_BYTES_def)
  from short_lines_refused [OF this] show ?thesis by blast
qed

section \<open>From the server to the web client\<close>

text \<open>What the code relies on of a JSON text: it has no line break and neither starts nor ends with white space.\<close>

definition wire_json :: "string \<Rightarrow> bool" where
  "wire_json j \<longleftrightarrow> j \<noteq> [] \<and> LF \<notin> set j \<and> trim j = j"

fun sent_texts :: "sse_write list \<Rightarrow> string list" where
  "sent_texts [] = []"
| "sent_texts (Sent j # ws) = j # sent_texts ws"
| "sent_texts (_ # ws) = sent_texts ws"

lemma cut_frame_body: "LF \<notin> set r \<Longrightarrow> cut_frame (r @ [LF, LF]) = Some (r, [])"
proof (induction r)
  case (Cons a r)
  then show ?case by (cases r) auto
qed simp

lemma cut_frame_first: "LF \<notin> set (a # r) \<Longrightarrow> cut_frame (LF # (a # r) @ [LF, LF]) = Some (LF # a # r, [])"
  using cut_frame_body [of "a # r"] by auto

lemma split_char_id: "c \<notin> set s \<Longrightarrow> split_char c s = [s]"
  by (induction s) auto

lemma trim_space: "trim (CHR '' '' # j) = trim j"
  by (simp add: trim_def trimStart_def is_ws_def)

lemma frame_payload_sent:
  assumes "wire_json j"
  shows "frame_payload (''data: '' @ j) = Some j" and "frame_payload (LF # ''data: '' @ j) = Some j"
  using assms by (simp_all add: frame_payload_def wire_json_def split_char_id LF_def startsWith_def trim_space Let_def)

lemma frame_payload_ping: "frame_payload '': ping'' = None" "frame_payload (LF # '': ping'') = None"
  by code_simp+

text \<open>The body of a frame, and the payloads of what follows the opening.\<close>

fun frame_body :: "sse_write \<Rightarrow> string" where
  "frame_body Opened = []"
| "frame_body (Sent j) = ''data: '' @ j"
| "frame_body Pinged = '': ping''"

lemma frame_body_text: "w \<noteq> Opened \<Longrightarrow> sse_text w = frame_body w @ [LF, LF]"
  by (cases w) auto

definition framed :: "sse_write list \<Rightarrow> bool" where
  "framed ws \<longleftrightarrow> Opened \<notin> set ws \<and> list_all wire_json (sent_texts ws)"

lemma framed_Cons:
  "framed (w # ws) \<Longrightarrow> framed ws \<and> w \<noteq> Opened \<and> LF \<notin> set (frame_body w)
     \<and> frame_payload (frame_body w) = frame_payload (LF # frame_body w)
     \<and> sent_texts (w # ws) = (case frame_payload (frame_body w) of None \<Rightarrow> [] | Some j \<Rightarrow> [j]) @ sent_texts ws"
proof -
  assume framed: "framed (w # ws)"
  have clean: "LF \<notin> set ''data: ''" "LF \<notin> set '': ping''" by code_simp+
  show ?thesis
  proof (cases w)
    case Opened
    with framed show ?thesis by (simp add: framed_def)
  next
    case (Sent j)
    with framed have "wire_json j" "framed ws" by (simp_all add: framed_def)
    with frame_payload_sent [OF this(1)] show ?thesis using clean(1) Sent by (simp add: wire_json_def)
  next
    case Pinged
    with framed frame_payload_ping clean(2) show ?thesis by (simp add: framed_def)
  qed
qed

lemma drain_frames: "framed ws \<Longrightarrow> drain cut_frame (concat (map sse_text ws)) = (map frame_body ws, [])"
proof (induction ws)
  case Nil
  then show ?case by (simp add: drain_def)
next
  case (Cons w ws)
  note w = framed_Cons [OF Cons.prems]
  then have "cut_frame (frame_body w @ [LF, LF]) = Some (frame_body w, [])" by (intro cut_frame_body) blast
  from frames.drain_record [OF this] Cons.IH w show ?case by (simp add: frame_body_text)
qed

lemma payloads_framed: "framed ws \<Longrightarrow> List.map_filter frame_payload (map frame_body ws) = sent_texts ws"
proof (induction ws)
  case (Cons w ws)
  note w = framed_Cons [OF Cons.prems]
  then show ?case using Cons.IH by (auto simp: map_filter_simps split: option.splits)
qed (simp add: map_filter_simps)

lemma payloads_read:
  assumes "framed ws" and "concat cs = sse_text Opened @ concat (map sse_text ws)"
  shows "List.map_filter frame_payload (fst (read_all cut_frame cs [])) = sent_texts ws"
proof -
  have read: "read_all cut_frame cs [] = drain cut_frame (LF # concat (map sse_text ws))"
    using frames.read_all_concat [of "[]" cs] assms(2) by simp
  show ?thesis
  proof (cases ws)
    case Nil
    then show ?thesis unfolding read by (simp add: drain_def map_filter_simps)
  next
    case (Cons w ws')
    note w = framed_Cons [OF assms(1) [unfolded Cons]]
    have "frame_body w \<noteq> []" using w by (cases w) auto
    then obtain a r where ar: "frame_body w = a # r" by (cases "frame_body w") auto
    with w have "cut_frame ((LF # frame_body w) @ [LF, LF]) = Some (LF # frame_body w, [])"
      using cut_frame_first [of a r] by simp
    from frames.drain_record [OF this, of "concat (map sse_text ws')"]
    have "fst (drain cut_frame (LF # concat (map sse_text ws))) = (LF # frame_body w) # map frame_body ws'"
      using w drain_frames [of ws'] by (simp add: Cons frame_body_text)
    moreover have "List.map_filter frame_payload (map frame_body ws') = sent_texts ws'" using w payloads_framed by blast
    ultimately show ?thesis
      unfolding read using w by (simp add: Cons map_filter_simps split: option.splits)
  qed
qed

fun handler_call_of :: "generation_event \<Rightarrow> handler_call list" where
  "handler_call_of (Start r) = [OnStart r]"
| "handler_call_of (Delta t) = [OnDelta t]"
| "handler_call_of (Done t u) = [OnDone t]"
| "handler_call_of (Error c m) = [OnError c m]"
| "handler_call_of (PluginIntercept r t ch) = []"

definition calls_of :: "generation_event list \<Rightarrow> handler_call list" where
  "calls_of es = concat (map handler_call_of es)"

lemma client_events_calls:
  assumes "list_all2 (\<lambda>j e. parse j = Event e) js es" and "list_all (\<lambda>e. handler_call_of e = [] \<longrightarrow> intercept e) es"
  shows "client_events parse intercept js = (calls_of es, True)"
  using assms
proof (induction js arbitrary: es)
  case Nil
  then show ?case by (simp add: calls_of_def)
next
  case (Cons j js)
  then obtain e es' where es: "es = e # es'" "parse j = Event e" "list_all2 (\<lambda>j e. parse j = Event e) js es'"
    by (auto simp: list_all2_Cons1)
  with Cons show ?case by (cases e) (simp_all add: calls_of_def Let_def)
qed

lemma client_calls:
  assumes "concat cs = concat (map sse_text (Opened # ws))" and "framed ws"
    and "list_all2 (\<lambda>j e. parse j = Event e) (sent_texts ws) es" and "list_all (\<lambda>e. handler_call_of e = [] \<longrightarrow> intercept e) es"
  shows "streamGeneration parse intercept cs False
    = (if list_ex terminal_call (calls_of es) then calls_of es
       else calls_of es @ [OnError ''GENERATION_FAILED'' ''Stream ended unexpectedly''], True)"
proof -
  have "concat cs = sse_text Opened @ concat (map sse_text ws)" using assms(1) by simp
  from payloads_read [OF assms(2) this] client_events_calls [OF assms(3,4)]
  show ?thesis by (simp add: streamGeneration_def)
qed

text \<open>C4: the web client calls its handlers for exactly the events the server has sent, in order, wherever the
  network cuts the stream and however many pings are in between; a stream that ends without a terminal event is
  reported as failed.\<close>

theorem frames_delivered:
  assumes "concat cs = concat (map sse_text (Opened # ws))" and "framed ws"
    and "list_all2 (\<lambda>j e. parse j = Event e) (sent_texts ws) es" and "list_all (\<lambda>e. handler_call_of e = [] \<longrightarrow> intercept e) es"
  shows "streamGeneration parse intercept cs False
    = (if list_ex terminal_call (calls_of es) then calls_of es
       else calls_of es @ [OnError ''GENERATION_FAILED'' ''Stream ended unexpectedly''], True)"
  using assms by (rule client_calls)

definition demo_parse :: "string \<Rightarrow> parsed" where
  "demo_parse j = (if j = ''{start}'' then Event (Start ''r'') else if j = ''{done}'' then Event (Done ''Hi'' None) else Malformed)"

lemma frames_delivered_witness:
  "streamGeneration demo_parse (\<lambda>e. True) [[LF] @ ''data: {sta'', ''rt}'' @ [LF], [LF] @ '': ping'' @ [LF, LF] @ ''data: {done}'', [LF, LF]] False
   = ([OnStart ''r'', OnDone ''Hi''], True)"
proof -
  let ?ws = "[Sent ''{start}'', Pinged, Sent ''{done}'']"
  have "framed ?ws" by code_simp
  moreover have "list_all2 (\<lambda>j e. demo_parse j = Event e) (sent_texts ?ws) [Start ''r'', Done ''Hi'' None]"
    by (simp add: demo_parse_def)
  ultimately show ?thesis
    using frames_delivered [of "[[LF] @ ''data: {sta'', ''rt}'' @ [LF], [LF] @ '': ping'' @ [LF, LF] @ ''data: {done}'', [LF, LF]]"
        ?ws demo_parse "[Start ''r'', Done ''Hi'' None]" "\<lambda>e. True"]
    by (simp add: calls_of_def terminal_call_def)
qed

end
