(* ===== verification/Provider_Adapter.thy ===== *)
theory Provider_Adapter
  imports Event_Streams Prompt_Pipeline
begin

text \<open>
  The OpenAI-compatible provider adapter (\<open>packages/provider-sdk/src/adapters/openaiCompatible.ts\<close>): the request
  body with the user's additional parameters (\<open>additionalParams.ts\<close>), the errors it normalises (\<open>errors.ts\<close>),
  and the events it yields for what the network delivers. \<open>JSON.parse\<close> is an argument: the value, or
  \<open>None\<close> when it throws. The Unicode group of a character, for the token estimate, is an argument.
\<close>

section \<open>Request\<close>

record adapter_config =
  ac_apiKey :: "string option"
  ac_settings :: "(string, json) jmap"
  ac_samplerSupport :: "string list"
  ac_reasoningEfforts :: "string list option"

definition STANDARD_SAMPLERS :: "string list" where
  "STANDARD_SAMPLERS = [''temperature'', ''topP'']"

definition EXTENDED_SAMPLERS :: "string list" where
  "EXTENDED_SAMPLERS = STANDARD_SAMPLERS @ [''frequencyPenalty'', ''presencePenalty'', ''seed'', ''reasoningEffort'',
     ''topK'', ''minP'', ''topA'', ''repetitionPenalty'']"

text \<open>What the constructor reads of a catalog entry: the id, the samplers and the reasoning efforts.\<close>

type_synonym catalog_entry = "string \<times> string list \<times> string list option"

definition sampler_support :: "catalog_entry option \<Rightarrow> (string, json) jmap \<Rightarrow> string list" where
  "sampler_support entry settings = (case entry of
       None \<Rightarrow> [''temperature'', ''topP'', ''frequencyPenalty'', ''presencePenalty'', ''seed'', ''reasoningEffort'',
                ''topK'', ''minP'', ''topA'', ''repetitionPenalty'']
     | Some (i, samplers, efforts) \<Rightarrow>
         if i = ''openai-compatible'' then
           (if jm_get settings ''samplerCompatibility'' = Some (JString ''extended'') then samplers
            else [''temperature'', ''topP''])
         else samplers)"

definition new_adapter :: "string option \<Rightarrow> (string, json) jmap \<Rightarrow> catalog_entry option \<Rightarrow> adapter_config" where
  "new_adapter apiKey settings entry = \<lparr>ac_apiKey = apiKey, ac_settings = settings,
     ac_samplerSupport = sampler_support entry settings,
     ac_reasoningEfforts = Option.bind entry (\<lambda>(i, samplers, efforts). efforts)\<rparr>"

definition FORBIDDEN_CUSTOM_HEADERS :: "string list" where
  "FORBIDDEN_CUSTOM_HEADERS = [''authorization'', ''content-type'', ''content-length'']"

definition RESERVED_CUSTOM_BODY_KEYS :: "string list" where
  "RESERVED_CUSTOM_BODY_KEYS = [''stream'', ''stream_options'', ''model'', ''messages'', ''prompt'', ''input'']"

definition asRecord :: "json option \<Rightarrow> (string, json) jmap" where
  "asRecord v = (case v of Some (JObject fs) \<Rightarrow> fs | _ \<Rightarrow> [])"

definition asStringArray :: "json option \<Rightarrow> string list" where
  "asStringArray v = (case v of
       Some (JArray vs) \<Rightarrow> List.map_filter (\<lambda>j. case j of JString s \<Rightarrow> Some s | _ \<Rightarrow> None) vs
     | _ \<Rightarrow> [])"

definition applyCustomBody :: "(string, json) jmap \<Rightarrow> (string, json) jmap \<Rightarrow> (string, json) jmap" where
  "applyCustomBody body settings =
     (let merged = fold (\<lambda>(k, v) r. if k \<in> set RESERVED_CUSTOM_BODY_KEYS then r else jm_set k v r)
            (asRecord (jm_get settings ''customIncludeBody'')) body
      in fold (\<lambda>k r. if k \<in> set RESERVED_CUSTOM_BODY_KEYS then r else jm_delete k r)
           (asStringArray (jm_get settings ''customExcludeBody'')) merged)"

definition forbidden_header :: "string \<Rightarrow> bool" where
  "forbidden_header n \<longleftrightarrow> map ascii_lower n \<in> set FORBIDDEN_CUSTOM_HEADERS"

definition applyCustomHeaders :: "(string, string) jmap \<Rightarrow> (string, json) jmap \<Rightarrow> (string, string) jmap" where
  "applyCustomHeaders hs settings =
     fold (\<lambda>(n, v) r. case v of JString t \<Rightarrow> if forbidden_header n then r else jm_set n t r | _ \<Rightarrow> r)
       (asRecord (jm_get settings ''customIncludeHeaders'')) hs"

definition headers :: "adapter_config \<Rightarrow> (string, string) jmap" where
  "headers cfg = applyCustomHeaders
     ((''Content-Type'', ''application/json'')
        # (case ac_apiKey cfg of Some (c # k) \<Rightarrow> [(''Authorization'', ''Bearer '' @ c # k)] | _ \<Rightarrow> []))
     (ac_settings cfg)"

definition supports :: "adapter_config \<Rightarrow> string \<Rightarrow> bool" where
  "supports cfg p \<longleftrightarrow> p \<in> set (ac_samplerSupport cfg)"

definition put_number :: "adapter_config \<Rightarrow> string \<Rightarrow> string \<Rightarrow> rat option \<Rightarrow> (string, json) jmap \<Rightarrow> (string, json) jmap" where
  "put_number cfg parameter key v body = (case v of
       Some r \<Rightarrow> if supports cfg parameter then jm_set key (JNum r) body else body
     | None \<Rightarrow> body)"

definition wire_message :: "generation_message \<Rightarrow> json" where
  "wire_message m = JObject ([(''role'', JString (if grole m = Plugin then ''user'' else role_name (grole m))),
       (''content'', JString (gcontent m))]
     @ (case gname m of Some (c # n) \<Rightarrow> [(''name'', JString (c # n))] | _ \<Rightarrow> []))"

definition prefill_message :: "generation_request \<Rightarrow> generation_message list" where
  "prefill_message q = (case gr_assistantPrefill q of
       Some (c # t) \<Rightarrow> [\<lparr>grole = Assistant, gcontent = c # t, gname = None\<rparr>] | _ \<Rightarrow> [])"

definition request_body :: "adapter_config \<Rightarrow> generation_request \<Rightarrow> (string, json) jmap" where
  "request_body cfg q =
     (let s = gr_sampling q;
          b0 = [(''model'', JString (gr_model q)),
                (''messages'', JArray (map wire_message (gr_messages q @ prefill_message q))),
                (''max_tokens'', JNum (of_int (gr_maxTokens q))), (''stream'', JBool (gr_stream q))];
          b1 = put_number cfg ''temperature'' ''temperature'' (Some (gr_temperature q)) b0;
          b2 = put_number cfg ''topP'' ''top_p'' (o_topP s) b1;
          b3 = put_number cfg ''topK'' ''top_k'' (map_option of_int (o_topK s)) b2;
          b4 = put_number cfg ''minP'' ''min_p'' (o_minP s) b3;
          b5 = put_number cfg ''topA'' ''top_a'' (o_topA s) b4;
          b6 = put_number cfg ''repetitionPenalty'' ''repetition_penalty'' (o_repetitionPenalty s) b5;
          b7 = put_number cfg ''frequencyPenalty'' ''frequency_penalty'' (o_frequencyPenalty s) b6;
          b8 = put_number cfg ''presencePenalty'' ''presence_penalty'' (o_presencePenalty s) b7;
          b9 = put_number cfg ''seed'' ''seed'' (map_option of_int (o_seed s)) b8;
          b10 = (case o_reasoningEffort s of
                   Some e \<Rightarrow> if supports cfg ''reasoningEffort''
                               \<and> (case ac_reasoningEfforts cfg of None \<Rightarrow> True | Some es \<Rightarrow> e \<in> set es)
                             then jm_set ''reasoning_effort'' (JString e) b9 else b9
                 | None \<Rightarrow> b9);
          b11 = (case gr_stop q of Some (x # xs) \<Rightarrow> jm_set ''stop'' (JArray (map JString (x # xs))) b10 | _ \<Rightarrow> b10);
          b12 = (if gr_stream q then jm_set ''stream_options'' (JObject [(''include_usage'', JBool True)]) b11 else b11)
      in applyCustomBody b12 (ac_settings cfg))"

section \<open>Errors\<close>

text \<open>What a provider call can throw.\<close>

datatype thrown = AppErr string string | TimeoutErr | AbortErr | TypeErr | OtherErr string | NotAnError

definition normalizeProviderError :: "thrown \<Rightarrow> string \<Rightarrow> string \<times> string" where
  "normalizeProviderError e context = (case e of
       AppErr code msg \<Rightarrow> (code, msg)
     | TimeoutErr \<Rightarrow> (''TIMEOUT'', context @ '' timed out'')
     | AbortErr \<Rightarrow> (''GENERATION_CANCELLED'', context @ '' aborted'')
     | TypeErr \<Rightarrow> (''GENERATION_FAILED'', ''Network error during '' @ context)
     | OtherErr msg \<Rightarrow> (''GENERATION_FAILED'', msg)
     | NotAnError \<Rightarrow> (''GENERATION_FAILED'', ''Unknown provider error during '' @ context))"

definition classifyHttpStatus :: "nat \<Rightarrow> string" where
  "classifyHttpStatus status =
     (if status = 401 \<or> status = 403 then ''UNAUTHORIZED''
      else if status = 404 then ''MODEL_NOT_FOUND''
      else if status = 408 then ''TIMEOUT''
      else if status = 429 then ''RATE_LIMITED''
      else ''GENERATION_FAILED'')"

definition string_field :: "json option \<Rightarrow> string \<Rightarrow> string option" where
  "string_field v k = (case v of None \<Rightarrow> None | Some j \<Rightarrow> (case json_field j k of Some (JString s) \<Rightarrow> Some s | _ \<Rightarrow> None))"

definition parseProviderErrorDetail :: "(string \<Rightarrow> json option) \<Rightarrow> string \<Rightarrow> string option" where
  "parseProviderErrorDetail parse body =
     (let t = trim body
      in if t = [] \<or> \<not> startsWith t ''{'' then None
         else (case parse t of
                 None \<Rightarrow> None
               | Some v \<Rightarrow>
                   (case (case string_field (json_field v ''error'') ''message'' of
                            Some m \<Rightarrow> Some m | None \<Rightarrow> string_field (Some v) ''message'') of
                      None \<Rightarrow> None
                    | Some [] \<Rightarrow> None
                    | Some (c # m) \<Rightarrow>
                        (let clean = trim (join_with '' '' (ws_words (c # m)))
                         in Some (if length clean > 200 then take 199 clean @ [ellipsis] else clean)))))"

definition httpProviderError :: "(string \<Rightarrow> json option) \<Rightarrow> nat \<Rightarrow> string \<Rightarrow> string \<Rightarrow> string \<times> string" where
  "httpProviderError parse status context body =
     (let code = classifyHttpStatus status;
          st = digits_of_nat status;
          base = (if code = ''UNAUTHORIZED'' then ''Provider rejected authentication (HTTP '' @ st @ '') during '' @ context
                  else if code = ''RATE_LIMITED'' then ''Provider rate-limited the request (HTTP 429) during '' @ context
                  else if code = ''MODEL_NOT_FOUND''
                  then ''Provider does not serve the requested model or endpoint (HTTP 404) during '' @ context
                  else if code = ''TIMEOUT'' then ''Provider timed out (HTTP 408) during '' @ context
                  else ''Provider returned HTTP '' @ st @ '' during '' @ context)
      in (code, case parseProviderErrorDetail parse body of Some (c # d) \<Rightarrow> base @ '': '' @ c # d | _ \<Rightarrow> base))"

section \<open>Generation\<close>

text \<open>What the network makes of the call: the connection fails, the provider refuses with a body, a JSON body
  is read (or the read throws), there is no body, or a stream of chunks that may break.\<close>

datatype response =
  ConnectionFailed thrown
| Refused nat string
| JsonBody "thrown + json"
| NoBody
| StreamBody "string list" "thrown option"

text \<open>A usage count of the provider, if it is there.\<close>

definition count_field :: "json option \<Rightarrow> string \<Rightarrow> rat option" where
  "count_field u k = (case u of None \<Rightarrow> None | Some j \<Rightarrow> (case json_field j k of Some (JNum r) \<Rightarrow> Some r | _ \<Rightarrow> None))"

definition estimateRequestTokens :: "(char \<Rightarrow> nat) \<Rightarrow> generation_message list \<Rightarrow> int" where
  "estimateRequestTokens cls ms = (\<Sum>m\<leftarrow>ms. estimateTokens cls (gcontent m) + 4)"

definition or_rat :: "rat option \<Rightarrow> rat \<Rightarrow> rat" where
  "or_rat x y = (case x of None \<Rightarrow> y | Some v \<Rightarrow> v)"

definition usage_of :: "(char \<Rightarrow> nat) \<Rightarrow> generation_message list \<Rightarrow> json option \<Rightarrow> string \<Rightarrow> token_usage" where
  "usage_of cls ms u text =
     (let p = of_int (estimateRequestTokens cls ms); q = of_int (estimateTokens cls text);
          pt = or_rat (count_field u ''prompt_tokens'') p
      in \<lparr>promptTokens = pt, completionTokens = or_rat (count_field u ''completion_tokens'') q,
          totalTokens = or_rat (count_field u ''total_tokens'') (pt + q)\<rparr>)"

definition json_usage :: "(char \<Rightarrow> nat) \<Rightarrow> generation_message list \<Rightarrow> json option \<Rightarrow> string \<Rightarrow> token_usage" where
  "json_usage cls ms u text =
     (let p = of_int (estimateRequestTokens cls ms); q = of_int (estimateTokens cls text)
      in \<lparr>promptTokens = or_rat (count_field u ''prompt_tokens'') p,
          completionTokens = or_rat (count_field u ''completion_tokens'') q,
          totalTokens = or_rat (count_field u ''total_tokens'') (p + q)\<rparr>)"

text \<open>\<open>choices?.[0]\<close>\<close>

definition first_choice :: "json \<Rightarrow> json option" where
  "first_choice v = (case json_field v ''choices'' of Some (JArray (c # cs)) \<Rightarrow> Some c | _ \<Rightarrow> None)"

definition choice_text :: "string \<Rightarrow> json \<Rightarrow> string option" where
  "choice_text part v = string_field (Option.bind (first_choice v) (\<lambda>c. json_field c part)) ''content''"

text \<open>A value counts as usage unless it is falsy.\<close>

definition truthy_json :: "json option \<Rightarrow> bool" where
  "truthy_json v = (case v of
       None \<Rightarrow> False | Some JNull \<Rightarrow> False | Some (JBool b) \<Rightarrow> b | Some (JNum r) \<Rightarrow> r \<noteq> 0 | Some (JString s) \<Rightarrow> s \<noteq> [] | _ \<Rightarrow> True)"

text \<open>What a payload of the stream is to the loop: a chunk carries text, possibly empty, and usage.\<close>

datatype payload = Abandoned | DoneMark | Ignored | Throws | Chunk string "json option"

definition read_payload :: "(string \<Rightarrow> json option) \<Rightarrow> bool \<Rightarrow> string \<Rightarrow> payload" where
  "read_payload parse aborted d =
     (if aborted then Abandoned
      else if d = ''[DONE]'' then DoneMark
      else (case parse d of
              None \<Rightarrow> Ignored
            | Some v \<Rightarrow>
                if v = JNull then Throws
                else Chunk (case choice_text ''delta'' v of None \<Rightarrow> [] | Some t \<Rightarrow> t)
                       (if truthy_json (json_field v ''usage'') then json_field v ''usage'' else None)))"

text \<open>How the loop is left, with the text and the usage it has then. \<open>aborted k\<close> tells whether the caller's
  signal is aborted when the \<open>k\<close>-th payload arrives.\<close>

datatype loop_end = StreamOver string "json option" | Marked string "json option" | Cancelled | Crashed

fun stream_loop ::
  "(string \<Rightarrow> json option) \<Rightarrow> (nat \<Rightarrow> bool) \<Rightarrow> nat \<Rightarrow> string list \<Rightarrow> string \<Rightarrow> json option \<Rightarrow> string list \<times> loop_end" where
  "stream_loop parse aborted k [] full usage = ([], StreamOver full usage)"
| "stream_loop parse aborted k (d # ds) full usage =
     (case read_payload parse (aborted k) d of
        Abandoned \<Rightarrow> ([], Cancelled)
      | DoneMark \<Rightarrow> ([], Marked full usage)
      | Ignored \<Rightarrow> stream_loop parse aborted (Suc k) ds full usage
      | Throws \<Rightarrow> ([], Crashed)
      | Chunk t u \<Rightarrow>
          (let (out, r) = stream_loop parse aborted (Suc k) ds (full @ t) (if u = None then usage else u)
           in (if t = [] then out else t # out, r)))"

definition error_event :: "string \<times> string \<Rightarrow> generation_event" where
  "error_event e = Error (fst e) (snd e)"

definition stream_events ::
  "(string \<Rightarrow> json option) \<Rightarrow> (char \<Rightarrow> nat) \<Rightarrow> generation_message list \<Rightarrow> (nat \<Rightarrow> bool) \<Rightarrow> string list \<Rightarrow> thrown option
    \<Rightarrow> generation_event list" where
  "stream_events parse cls ms aborted chunks broken =
     (let (payloads, how) = parseSseStream SSE_MAX_BUFFERED_BYTES chunks broken;
          (deltas, r) = stream_loop parse aborted 0 payloads [] None;
          done = (\<lambda>text u. Done text (Some (usage_of cls ms u text)));
          failed = (\<lambda>e. error_event (normalizeProviderError e ''streaming''))
      in map Delta deltas @
         [case r of
            Cancelled \<Rightarrow> Error ''GENERATION_CANCELLED'' ''Generation aborted''
          | Crashed \<Rightarrow> failed TypeErr
          | Marked text u \<Rightarrow> done text u
          | StreamOver text u \<Rightarrow>
              (case how of
                 Ended \<Rightarrow> done text u
               | LineTooLong \<Rightarrow> failed (OtherErr ''SSE stream line exceeds maximum buffered size'')
               | Broken e \<Rightarrow> failed e)])"

text \<open>The events of a call. The request was sent for a stream exactly when \<open>gr_stream\<close> holds.\<close>

definition generate ::
  "(string \<Rightarrow> json option) \<Rightarrow> (char \<Rightarrow> nat) \<Rightarrow> string \<Rightarrow> generation_request \<Rightarrow> (nat \<Rightarrow> bool) \<Rightarrow> response \<Rightarrow> generation_event list" where
  "generate parse cls requestId q aborted r = Start requestId #
     (case r of
        ConnectionFailed e \<Rightarrow> [error_event (normalizeProviderError e ''generation'')]
      | Refused status body \<Rightarrow> [error_event (httpProviderError parse status ''generation'' body)]
      | JsonBody b \<Rightarrow>
          (case b of
             Inl e \<Rightarrow> [error_event (normalizeProviderError e ''generation'')]
           | Inr v \<Rightarrow>
               if v = JNull then [error_event (normalizeProviderError TypeErr ''generation'')]
               else (case choice_text ''message'' v of
                       None \<Rightarrow> [error_event (normalizeProviderError
                                 (OtherErr ''Provider response does not contain assistant content'') ''generation'')]
                     | Some t \<Rightarrow> [Delta t, Done t (Some (json_usage cls (gr_messages q) (json_field v ''usage'') t))]))
      | NoBody \<Rightarrow> [Error ''GENERATION_FAILED'' ''Provider returned an empty streaming response'']
      | StreamBody chunks broken \<Rightarrow> stream_events parse cls (gr_messages q) aborted chunks broken)"

section \<open>What a call yields\<close>

definition text_so_far :: "string \<Rightarrow> loop_end \<Rightarrow> bool" where
  "text_so_far text r \<longleftrightarrow> (case r of StreamOver t u \<Rightarrow> t = text | Marked t u \<Rightarrow> t = text | _ \<Rightarrow> True)"

lemma stream_loop_text:
  "text_so_far (full @ concat (fst (stream_loop parse aborted k ds full usage))) (snd (stream_loop parse aborted k ds full usage))"
  by (induction parse aborted k ds full usage rule: stream_loop.induct)
    (auto simp: text_so_far_def split_beta Let_def split: payload.splits loop_end.splits)

text \<open>A terminal event, with the text that precedes it.\<close>

definition terminal_for :: "string list \<Rightarrow> generation_event \<Rightarrow> bool" where
  "terminal_for deltas e \<longleftrightarrow> (case e of Done t u \<Rightarrow> t = concat deltas | Error c m \<Rightarrow> True | _ \<Rightarrow> False)"

lemma stream_events_terminal:
  "\<exists>ds t. stream_events parse cls ms aborted chunks broken = map Delta ds @ [t] \<and> terminal_for ds t"
proof -
  define ps where "ps = fst (parseSseStream SSE_MAX_BUFFERED_BYTES chunks broken)"
  have "text_so_far (concat (fst (stream_loop parse aborted 0 ps [] None))) (snd (stream_loop parse aborted 0 ps [] None))"
    using stream_loop_text [of "[]" parse aborted 0 ps None] by simp
  then show ?thesis
    unfolding stream_events_def
    by (intro exI [of _ "fst (stream_loop parse aborted 0 ps [] None)"])
      (auto simp: ps_def split_beta Let_def terminal_for_def text_so_far_def error_event_def split: loop_end.splits stream_end.splits)
qed

lemma generate_shape:
  "\<exists>ds t. generate parse cls i q aborted r = Start i # map Delta ds @ [t] \<and> terminal_for ds t"
proof (cases "\<exists>chunks broken. r = StreamBody chunks broken")
  case True
  then show ?thesis using stream_events_terminal by (auto simp: generate_def) 
next
  case False
  have failed: "terminal_for [] (error_event e)" for e by (simp add: terminal_for_def error_event_def)
  consider (single) t where "generate parse cls i q aborted r = [Start i, t]" "terminal_for [] t"
    | (body) x u where "generate parse cls i q aborted r = [Start i, Delta x, Done x u]"
  proof (cases r)
    case (JsonBody b)
    show ?thesis
    proof (cases "\<exists>v x. b = Inr v \<and> v \<noteq> JNull \<and> choice_text ''message'' v = Some x")
      case True
      then show ?thesis using body by (auto simp: generate_def JsonBody)
    next
      case False
      then show ?thesis
        using single [OF _ failed] by (cases b; cases "projr b = JNull") (auto simp: generate_def JsonBody)
    qed
  next
    case NoBody
    then show ?thesis using single by (auto simp: generate_def terminal_for_def)
  qed (use single [OF _ failed] False in \<open>auto simp: generate_def\<close>)
  then show ?thesis
  proof cases
    case single
    then show ?thesis by (intro exI [of _ "[]"] exI [of _ t]) simp
  next
    case body
    then show ?thesis by (intro exI [of _ "[x]"] exI [of _ "Done x u"]) (simp add: terminal_for_def)
  qed
qed

text \<open>Whatever the network delivers, a call yields a start, then text, then exactly one terminal event, and
  the text of a successful end is the text yielded before it.\<close>

theorem one_terminal_event:
  "\<exists>ds t. generate parse cls i q aborted r = Start i # map Delta ds @ [t] \<and> terminal_for ds t"
  by (rule generate_shape)

lemma body_merge_keeps:
  "k \<in> set RESERVED_CUSTOM_BODY_KEYS \<Longrightarrow>
     jm_get (fold (\<lambda>(k, v) r. if k \<in> set RESERVED_CUSTOM_BODY_KEYS then r else jm_set k v r) fs body) k = jm_get body k"
  by (induction fs arbitrary: body) (auto split: prod.splits)

lemma body_drop_keeps:
  "k \<in> set RESERVED_CUSTOM_BODY_KEYS \<Longrightarrow>
     jm_get (fold (\<lambda>k r. if k \<in> set RESERVED_CUSTOM_BODY_KEYS then r else jm_delete k r) ks body) k = jm_get body k"
  by (induction ks arbitrary: body) auto

lemma header_merge_keeps:
  "filter (\<lambda>h. forbidden_header (fst h))
     (fold (\<lambda>(n, v) r. case v of JString t \<Rightarrow> if forbidden_header n then r else jm_set n t r | _ \<Rightarrow> r) fs hs)
   = filter (\<lambda>h. forbidden_header (fst h)) hs"
proof (induction fs arbitrary: hs)
  case (Cons f fs)
  have "filter (\<lambda>h. forbidden_header (fst h)) (jm_set n t hs) = filter (\<lambda>h. forbidden_header (fst h)) hs"
    if "\<not> forbidden_header n" for n t
    using that by (induction hs) auto
  with Cons show ?case by (auto split: prod.splits json.splits)
qed simp

text \<open>C20: the additional parameters of a connection change none of the body keys the adapter owns and none of
  the protected headers, whatever the case they are written in.\<close>

theorem additional_parameters_confined:
  "list_all (\<lambda>k. jm_get (applyCustomBody body settings) k = jm_get body k) RESERVED_CUSTOM_BODY_KEYS
   \<and> filter (\<lambda>h. forbidden_header (fst h)) (applyCustomHeaders hs settings) = filter (\<lambda>h. forbidden_header (fst h)) hs"
  by (simp add: list_all_iff applyCustomBody_def applyCustomHeaders_def Let_def body_merge_keeps body_drop_keeps
      header_merge_keeps del: fold.simps)

section \<open>From the provider's frames to events\<close>

definition data_frame :: "string \<Rightarrow> string" where
  "data_frame p = ''data: '' @ p @ [LF, LF]"

lemma cut_line_record: "LF \<notin> set r \<Longrightarrow> cut_line (r @ [LF]) = Some (r, [])"
  by (induction r) (auto simp: cut_line_def)

lemma endsWith_last: "endsWith s [c] \<longleftrightarrow> s \<noteq> [] \<and> last s = c"
  by (cases s rule: rev_cases) (auto simp: endsWith_def)

lemma drain_data_frame:
  assumes "wire_json p"
  shows "drain cut_line (data_frame p @ x) = ((''data: '' @ p) # [] # fst (drain cut_line x), snd (drain cut_line x))"
proof -
  have "LF \<notin> set (''data: '' @ p)" using assms by (simp add: wire_json_def LF_def)
  note first = lines.drain_record [OF cut_line_record [OF this], of "LF # x"]
  have "LF \<notin> set []" by simp
  note second = lines.drain_record [OF cut_line_record [OF this], of x]
  from first second show ?thesis by (simp add: data_frame_def)
qed

lemma drain_data_frames:
  "list_all wire_json ps \<Longrightarrow> drain cut_line (concat (map data_frame ps) @ x)
     = (concat (map (\<lambda>p. [''data: '' @ p, []]) ps) @ fst (drain cut_line x), snd (drain cut_line x))"
proof (induction ps)
  case (Cons p ps)
  then show ?case using drain_data_frame [of p "concat (map data_frame ps) @ x"] by simp
qed simp

lemma sse_data_lines: "list_all wire_json ps \<Longrightarrow> sse_lines (concat (map (\<lambda>p. [''data: '' @ p, []]) ps)) [] = (ps, [])"
proof (induction ps)
  case (Cons p ps)
  then have p: "p \<noteq> []" "trim p = p" by (simp_all add: wire_json_def)
  have "\<not> endsWith (''data: '' @ p) [CR]"
  proof
    assume "endsWith (''data: '' @ p) [CR]"
    then have "last p = CR" using p(1) by (simp add: endsWith_last)
    moreover have "\<not> is_ws (last (trim p))" 
    proof -
      have "dropWhile is_ws (rev (trimStart p)) \<noteq> []" using p by (metis rev.simps(1) trim_def trimEnd_def)
      from hd_dropWhile [OF this] this show ?thesis by (simp add: trim_def trimEnd_def last_rev)
    qed
    ultimately show False using p(2) by (simp add: is_ws_def CR_def)
  qed
  moreover have "data_of (''data: '' @ p) = p" "startsWith (''data: '' @ p) ''data:''" by (simp_all add: data_of_def startsWith_def)
  ultimately show ?case using Cons by (simp add: sse_line_def flush_def Let_def endsWith_def)
qed simp

lemma parse_data_frames:
  assumes "list_all wire_json ps" and "concat cs = concat (map data_frame ps)" and "within_cap cap cs"
  shows "parseSseStream cap cs (None :: 'e option) = (ps, Ended)"
proof -
  have "drain cut_line (concat cs) = (concat (map (\<lambda>p. [''data: '' @ p, []]) ps), [])"
    using drain_data_frames [OF assms(1), of "[]"] by (simp add: assms(2) drain_def)
  moreover have "read_capped cap cs [] = map_prod id Some (drain cut_line (concat cs))"
    using assms(3) read_capped_drain [of cap cs "[]"] by (auto simp: within_cap_def cut_line_def)
  ultimately show ?thesis by (simp add: parseSseStream_def sse_data_lines [OF assms(1), simplified] startsWith_def flush_def)
qed

text \<open>A payload that brings the text \<open>t\<close>.\<close>

definition brings :: "(string \<Rightarrow> json option) \<Rightarrow> string \<Rightarrow> string \<Rightarrow> bool" where
  "brings parse p t \<longleftrightarrow> p \<noteq> ''[DONE]'' \<and> (\<exists>v. parse p = Some v \<and> v \<noteq> JNull \<and> choice_text ''delta'' v = Some t)"

lemma stream_loop_brings:
  assumes "list_all2 (brings parse) ps ts" and "\<And>k. \<not> aborted k"
  shows "\<exists>u'. stream_loop parse aborted k (ps @ [''[DONE]'']) full u = (filter (\<lambda>t. t \<noteq> []) ts, Marked (full @ concat ts) u')"
  using assms(1)
proof (induction ps arbitrary: ts k full u)
  case Nil
  then show ?case using assms(2) by (simp add: read_payload_def)
next
  case (Cons p ps)
  then obtain t ts' where here: "ts = t # ts'" "list_all2 (brings parse) ps ts'" "brings parse p t"
    by (auto simp: list_all2_Cons1)
  then obtain v where "p \<noteq> ''[DONE]''" "parse p = Some v" "v \<noteq> JNull" "choice_text ''delta'' v = Some t"
    by (auto simp: brings_def)
  note ts = here(1,2) this
  define w where "w = (if truthy_json (json_field v ''usage'') then json_field v ''usage'' else None)"
  have chunk: "read_payload parse (aborted k) p = Chunk t w"
    using ts(3-6) assms(2) [of k] by (simp add: read_payload_def w_def)
  obtain u' where "stream_loop parse aborted (Suc k) (ps @ [''[DONE]'']) (full @ t) (if w = None then u else w)
      = (filter (\<lambda>t. t \<noteq> []) ts', Marked ((full @ t) @ concat ts') u')"
    using Cons.IH [OF ts(2)] by blast
  then show ?case by (auto simp: chunk ts(1))
qed

lemma generate_stream:
  assumes "concat cs = concat (map data_frame (ps @ [''[DONE]'']))" and "list_all wire_json ps"
    and "list_all2 (brings parse) ps ts" and "within_cap SSE_MAX_BUFFERED_BYTES cs" and "\<And>k. \<not> aborted k"
  shows "\<exists>u. generate parse cls i q aborted (StreamBody cs None)
    = Start i # map Delta (filter (\<lambda>t. t \<noteq> []) ts) @ [Done (concat ts) (Some u)]"
proof -
  have "wire_json ''[DONE]''" by code_simp
  then have "parseSseStream SSE_MAX_BUFFERED_BYTES cs (None :: thrown option) = (ps @ [''[DONE]''], Ended)"
    using assms(1,2,4) by (intro parse_data_frames) simp_all
  moreover obtain u' where "stream_loop parse aborted 0 (ps @ [''[DONE]'']) [] None = (filter (\<lambda>t. t \<noteq> []) ts, Marked (concat ts) u')"
    using stream_loop_brings [OF assms(3), of aborted 0 "[]" None] assms(5) by auto
  ultimately show ?thesis by (simp add: generate_def stream_events_def)
qed

text \<open>C17: what a provider streams reaches the caller: for payloads that bring texts, closed by the end mark and cut
  anywhere by the network within the cap, the call yields the non-empty texts in order and ends with all of
  them.\<close>

theorem provider_stream_delivered:
  assumes "concat cs = concat (map data_frame (ps @ [''[DONE]'']))" and "list_all wire_json ps"
    and "list_all2 (brings parse) ps ts" and "within_cap SSE_MAX_BUFFERED_BYTES cs" and "\<And>k. \<not> aborted k"
  shows "\<exists>u. generate parse cls i q aborted (StreamBody cs None)
    = Start i # map Delta (filter (\<lambda>t. t \<noteq> []) ts) @ [Done (concat ts) (Some u)]"
  using assms by (rule generate_stream)

definition demo_json :: "string \<Rightarrow> json option" where
  "demo_json p = (if p = ''{Hi}'' then Some (JObject [(''choices'', JArray [JObject [(''delta'', JObject [(''content'', JString ''Hi'')])]])])
     else if p = ''null'' then Some JNull else None)"

definition demo_request :: generation_request where
  "demo_request = \<lparr>gr_model = ''m'', gr_messages = [], gr_maxTokens = 16, gr_temperature = 1, gr_stream = True,
     gr_sampling = no_overrides, gr_stop = None, gr_assistantPrefill = None\<rparr>"

lemma provider_stream_delivered_witness:
  "\<exists>u. generate demo_json (\<lambda>c. 0) ''r'' demo_request (\<lambda>k. False)
     (StreamBody [''data: {H'', ''i}'' @ [LF, LF] @ ''data: [DON'', ''E]'' @ [LF, LF]] None)
   = [Start ''r'', Delta ''Hi'', Done ''Hi'' (Some u)]"
proof -
  let ?cs = "[''data: {H'', ''i}'' @ [LF, LF] @ ''data: [DON'', ''E]'' @ [LF, LF]]"
  have "list_all wire_json [''{Hi}'']" by code_simp
  moreover have "within_cap SSE_MAX_BUFFERED_BYTES ?cs"
    by (rule within_cap_small) (simp add: SSE_MAX_BUFFERED_BYTES_def)
  moreover have "list_all2 (brings demo_json) [''{Hi}''] [''Hi'']"
    by (simp add: brings_def demo_json_def choice_text_def first_choice_def string_field_def)
  ultimately show ?thesis
    using provider_stream_delivered [of ?cs "[''{Hi}'']" demo_json "[''Hi'']" "\<lambda>k. False" "\<lambda>c. 0" "''r''" demo_request]
    by (simp add: data_frame_def)
qed

text \<open>A \<open>null\<close> on the stream ends the call with a network error, whatever follows it, while a line that is
  no JSON at all is ignored.\<close>

theorem null_payload_fails_stream:
  assumes "parse ''null'' = Some JNull" and "parse junk = None" and "junk \<noteq> ''[DONE]''" and "wire_json junk" and "list_all wire_json rest"
    and "within_cap SSE_MAX_BUFFERED_BYTES [concat (map data_frame (junk # ''null'' # rest))]"
  shows "generate parse cls i q (\<lambda>k. False) (StreamBody [concat (map data_frame (junk # ''null'' # rest))] None)
    = [Start i, Error ''GENERATION_FAILED'' ''Network error during streaming'']"
proof -
  have "wire_json ''null''" by code_simp
  then have "parseSseStream SSE_MAX_BUFFERED_BYTES [concat (map data_frame (junk # ''null'' # rest))] (None :: thrown option)
      = (junk # ''null'' # rest, Ended)"
    using assms(4-6) by (intro parse_data_frames) simp_all
  then show ?thesis
    using assms(1-3) by (simp add: generate_def stream_events_def read_payload_def error_event_def normalizeProviderError_def)
qed

lemma null_payload_fails_stream_witness:
  "generate demo_json (\<lambda>c. 0) ''r'' demo_request (\<lambda>k. False)
     (StreamBody [concat (map data_frame [''ping'', ''null'', ''{Hi}'', ''[DONE]''])] None)
   = [Start ''r'', Error ''GENERATION_FAILED'' ''Network error during streaming'']"
proof (rule null_payload_fails_stream)
  show "list_all wire_json [''{Hi}'', ''[DONE]'']" "wire_json ''ping''" by code_simp+
  show "within_cap SSE_MAX_BUFFERED_BYTES [concat (map data_frame [''ping'', ''null'', ''{Hi}'', ''[DONE]''])]"
    by (rule within_cap_small) (simp add: SSE_MAX_BUFFERED_BYTES_def data_frame_def)
qed (simp_all add: demo_json_def)

end
