(* ===== verification/Generation.thy ===== *)
theory Generation
  imports Provider_Adapter Chat_Routes
begin

text \<open>
  The generation route (\<open>POST /chats/:id/generate\<close> in \<open>apps/server/src/plugins/generate.ts\<close>) with the audit table
  it keeps (\<open>packages/db/src/repositories/promptContextAudits.ts\<close>): the message being answered is stored, the
  events of the provider are forwarded, and the finished text becomes a message or a variant. What the prompt
  pipeline makes of the store, and the provider, are arguments; a step between two suspensions runs without
  interleaving.
\<close>

section \<open>The audit of the last generation\<close>

datatype audit_status = AuditPrepared | AuditCompleted | AuditFailed | AuditCancelled

record audit_row =
  au_generationId :: string
  au_status :: audit_status
  au_errorCode :: "string option"
  au_usage :: "token_usage option"

type_synonym audit_table = "(string, audit_row) jmap"

text \<open>\<open>/^[A-Z][A-Z0-9_]{0,127}$/\<close>\<close>

definition UPPER :: "char list" where
  "UPPER = ''ABCDEFGHIJKLMNOPQRSTUVWXYZ''"

fun machine_code :: "string \<Rightarrow> bool" where
  "machine_code [] = False"
| "machine_code (c # cs) = (c \<in> set UPPER \<and> length cs \<le> 127 \<and> list_all (\<lambda>d. d \<in> set UPPER \<or> d \<in> set ''0123456789_'') cs)"

definition prepare_audit :: "string \<Rightarrow> string \<Rightarrow> audit_table \<Rightarrow> audit_table" where
  "prepare_audit ch g a = jm_set ch \<lparr>au_generationId = g, au_status = AuditPrepared, au_errorCode = None, au_usage = None\<rparr> a"

text \<open>\<open>None\<close> when the code is not a machine code: \<open>finish\<close> throws.\<close>

definition finish_audit ::
  "string \<Rightarrow> string \<Rightarrow> audit_status \<Rightarrow> string option \<Rightarrow> token_usage option \<Rightarrow> audit_table \<Rightarrow> audit_table option" where
  "finish_audit ch g status code usage a =
     (if (case code of Some (c # cs) \<Rightarrow> \<not> machine_code (c # cs) | _ \<Rightarrow> False) then None
      else Some (case jm_get a ch of
             Some r \<Rightarrow> if au_generationId r = g
                       then jm_set ch (r\<lparr>au_status := status, au_errorCode := code, au_usage := usage\<rparr>) a else a
           | None \<Rightarrow> a))"

section \<open>The state of a generation\<close>

datatype bus_event =
  GenerationStarted
| GenerationDelta string
| GenerationError string
| GenerationFinished string
| MessageCreated string
| MessageUpdated string nat

record generation =
  gen_db :: db
  gen_audits :: audit_table
  gen_sent :: "generation_event list"
  gen_bus :: "bus_event list"
  gen_prefillSent :: bool
  gen_terminal :: bool

record generation_call =
  call_chatId :: string
  call_generationId :: string
  call_userMessage :: "string option"
  call_regenerate :: bool
  call_regenerateMessageId :: "string option"

text \<open>What surrounds the \<open>k\<close>-th step: whether the socket is destroyed and the signal aborted, a fresh id and the
  clock; and the registered hooks and the text of a message's metadata, from the usage and the notes of the
  hooks.\<close>

record surroundings =
  dead :: "nat \<Rightarrow> bool"
  aborted_at :: "nat \<Rightarrow> bool"
  fresh_id :: "nat \<Rightarrow> string"
  clock :: "nat \<Rightarrow> int"
  hooks :: "post_processor list"
  hook_context :: post_context
  meta_text :: "token_usage option \<Rightarrow> string list \<Rightarrow> string"

datatype loop_exit = Continues | Breaks | Raises thrown

definition send_event :: "surroundings \<Rightarrow> nat \<Rightarrow> generation_event \<Rightarrow> generation \<Rightarrow> generation" where
  "send_event w k e s = (if dead w k then s else s\<lparr>gen_sent := gen_sent s @ [e]\<rparr>)"

definition emit :: "bus_event \<Rightarrow> generation \<Rightarrow> generation" where
  "emit e s = s\<lparr>gen_bus := gen_bus s @ [e]\<rparr>"

definition with_prefill :: "string option \<Rightarrow> string \<Rightarrow> string" where
  "with_prefill prefill t = (case prefill of Some p \<Rightarrow> p @ t | None \<Rightarrow> t)"

definition db_thrown :: "db_error \<Rightarrow> thrown" where
  "db_thrown e = (case e of Thrown m \<Rightarrow> OtherErr m | UniqueConstraint \<Rightarrow> OtherErr ''UNIQUE constraint failed''
     | ForeignKeyConstraint \<Rightarrow> OtherErr ''FOREIGN KEY constraint failed'')"

section \<open>One event of the provider\<close>

definition on_text :: "surroundings \<Rightarrow> string option \<Rightarrow> nat \<Rightarrow> string \<Rightarrow> generation \<Rightarrow> generation" where
  "on_text w prefill k t s =
     (let out = (if t \<noteq> [] \<and> \<not> gen_prefillSent s then with_prefill prefill t else t)
      in emit (GenerationDelta out) (send_event w k (Delta out)
           (s\<lparr>gen_prefillSent := gen_prefillSent s \<or> t \<noteq> []\<rparr>)))"

definition on_failure :: "surroundings \<Rightarrow> generation_call \<Rightarrow> nat \<Rightarrow> string \<Rightarrow> string \<Rightarrow> generation \<Rightarrow> generation" where
  "on_failure w call k code msg s =
     (let c = (if machine_code code then code else ''GENERATION_FAILED'');
          status = (if aborted_at w k \<or> c = ''GENERATION_CANCELLED'' then AuditCancelled else AuditFailed)
      in emit (GenerationError c) (send_event w k (Error code msg)
           (s\<lparr>gen_audits := the (finish_audit (call_chatId call) (call_generationId call) status (Some c) None (gen_audits s)),
              gen_terminal := True\<rparr>)))"

text \<open>The write of the finished text.\<close>

definition assistant_message :: "string \<Rightarrow> string \<Rightarrow> message_create" where
  "assistant_message text meta = \<lparr>n_role = Message_Rows.Assistant, n_content = text, n_parentId = None, n_name = None,
     n_meta = Some meta, n_idempotencyKey = None\<rparr>"

definition save_text ::
  "surroundings \<Rightarrow> generation_call \<Rightarrow> string \<Rightarrow> (string \<times> string) option \<Rightarrow> nat \<Rightarrow> string \<Rightarrow> string \<Rightarrow> db
    \<Rightarrow> (thrown + bus_event) \<times> db" where
  "save_text w call branch target k text meta s =
     (case target of
        Some (i, old) \<Rightarrow>
          (case transaction (replaceContentAsVariant_tx i old text meta (fresh_id w k) (clock w k)) s of
             (Inl e, s1) \<Rightarrow> (Inl (db_thrown e), s1)
           | (Inr (Updated m), s1) \<Rightarrow> (Inr (MessageUpdated i (m_revision m)), s1)
           | (Inr _, s1) \<Rightarrow> (Inl (AppErr ''MESSAGE_NOT_FOUND'' ''MESSAGE_NOT_FOUND''), s1))
      | None \<Rightarrow>
          (case create_message (call_chatId call) branch (assistant_message text meta) (fresh_id w k) (clock w k) s of
             (Inl e, s1) \<Rightarrow> (Inl (db_thrown e), s1)
           | (Inr m, s1) \<Rightarrow> (Inr (MessageCreated (m_id m)),
               setMessageCount (call_chatId call) (count_messages (call_chatId call) branch s1) (clock w k) s1)))"

definition on_finished ::
  "surroundings \<Rightarrow> generation_call \<Rightarrow> string \<Rightarrow> (string \<times> string) option \<Rightarrow> string option \<Rightarrow> nat \<Rightarrow> string \<Rightarrow> token_usage option
    \<Rightarrow> generation \<Rightarrow> generation \<times> loop_exit" where
  "on_finished w call branch target prefill k t usage s =
     (let (text, notes) = runPostProcessors (with_prefill prefill t) (hook_context w) (processors_ordered (hooks w)) None []
      in if trim text = [] then (s, Raises (AppErr ''EMPTY_RESPONSE'' ''Provider returned an empty response''))
         else (case save_text w call branch target k text (meta_text w usage notes) (gen_db s) of
                 (Inl e, d) \<Rightarrow> (s\<lparr>gen_db := d\<rparr>, Raises e)
               | (Inr saved, d) \<Rightarrow>
                   (let s1 = send_event w k (Done text usage) (emit saved (s\<lparr>gen_db := d\<rparr>));
                        s2 = s1\<lparr>gen_audits := the (finish_audit (call_chatId call) (call_generationId call)
                                  AuditCompleted None usage (gen_audits s1)), gen_terminal := True\<rparr>
                    in (emit (GenerationFinished text) s2, Continues))))"

definition on_event ::
  "surroundings \<Rightarrow> generation_call \<Rightarrow> string \<Rightarrow> (string \<times> string) option \<Rightarrow> string option \<Rightarrow> nat \<Rightarrow> generation_event
    \<Rightarrow> generation \<Rightarrow> generation \<times> loop_exit" where
  "on_event w call branch target prefill k e s =
     (case e of
        Done t usage \<Rightarrow> on_finished w call branch target prefill k t usage s
      | Error code msg \<Rightarrow> (on_failure w call k code msg s, Breaks)
      | Delta t \<Rightarrow> (on_text w prefill k t s, Continues)
      | _ \<Rightarrow> (send_event w k e s, Continues))"

text \<open>The loop over the provider's events; \<open>broken\<close> is what the iteration throws after them.\<close>

fun event_loop ::
  "surroundings \<Rightarrow> generation_call \<Rightarrow> string \<Rightarrow> (string \<times> string) option \<Rightarrow> string option \<Rightarrow> nat \<Rightarrow> generation_event list
    \<Rightarrow> thrown option \<Rightarrow> generation \<Rightarrow> nat \<times> generation \<times> loop_exit" where
  "event_loop w call branch target prefill k [] broken s =
     (k, s, case broken of None \<Rightarrow> Continues | Some e \<Rightarrow> Raises e)"
| "event_loop w call branch target prefill k (e # es) broken s =
     (case on_event w call branch target prefill k e s of
        (s1, Continues) \<Rightarrow> event_loop w call branch target prefill (Suc k) es broken s1
      | (s1, x) \<Rightarrow> (k, s1, x))"

text \<open>The \<open>catch\<close> block.\<close>

definition caught :: "surroundings \<Rightarrow> generation_call \<Rightarrow> nat \<Rightarrow> thrown \<Rightarrow> generation \<Rightarrow> generation" where
  "caught w call k e s =
     (let code0 = (case e of AppErr c m \<Rightarrow> c | _ \<Rightarrow> ''INTERNAL'');
          code = (if aborted_at w k \<and> code0 = ''INTERNAL'' then ''GENERATION_CANCELLED'' else code0);
          msg = (case e of AppErr c m \<Rightarrow> m | _ \<Rightarrow> ''Generation failed: '' @ code);
          status = (if aborted_at w k \<or> code = ''GENERATION_CANCELLED'' \<or> code = ''ABORTED'' then AuditCancelled else AuditFailed);
          closing = (\<lambda>s. send_event w k (Error code msg) (emit (GenerationError code) s))
      in if gen_terminal s then closing s
         else (case finish_audit (call_chatId call) (call_generationId call) status (Some code) None (gen_audits s) of
                 None \<Rightarrow> s
               | Some a \<Rightarrow> closing (s\<lparr>gen_audits := a\<rparr>)))"

section \<open>The route\<close>

definition truthy_id :: "string option \<Rightarrow> bool" where
  "truthy_id i \<longleftrightarrow> (case i of Some (c # cs) \<Rightarrow> True | _ \<Rightarrow> False)"

text \<open>The message to be rewritten, with the text it has.\<close>

definition regenerate_target :: "generation_call \<Rightarrow> string \<Rightarrow> db \<Rightarrow> thrown + (string \<times> string) option" where
  "regenerate_target call branch s =
     (if \<not> call_regenerate call \<and> \<not> truthy_id (call_regenerateMessageId call) then Inr None
      else (let found = recentAscending s (call_chatId call) branch 1;
                target = (\<lambda>i. if i = [] then None else map_option (\<lambda>m. (i, m_content m)) (getById i s))
            in if truthy_id (call_regenerateMessageId call) then
                 (if found = [] \<or> m_id (last found) \<noteq> the (call_regenerateMessageId call)
                     \<or> m_role (last found) \<noteq> Message_Rows.Assistant
                  then Inl (AppErr ''REGENERATE_TARGET_MOVED'' ''REGENERATE_TARGET_MOVED'')
                  else Inr (target (m_id (last found))))
               else if found \<noteq> [] \<and> m_role (last found) = Message_Rows.Assistant then Inr (target (m_id (last found)))
               else Inr None))"

definition user_message :: "string \<Rightarrow> message_create" where
  "user_message text = \<lparr>n_role = Message_Rows.User, n_content = text, n_parentId = None, n_name = None, n_meta = None,
     n_idempotencyKey = None\<rparr>"

definition save_user_message :: "surroundings \<Rightarrow> generation_call \<Rightarrow> string \<Rightarrow> db \<Rightarrow> (thrown + unit) \<times> db" where
  "save_user_message w call branch s =
     (case call_userMessage call of
        Some t \<Rightarrow>
          if call_regenerate call \<or> truthy_id (call_regenerateMessageId call) \<or> trim t = [] then (Inr (), s)
          else (case create_message (call_chatId call) branch (user_message t) (fresh_id w 1) (clock w 1) s of
                  (Inl e, s1) \<Rightarrow> (Inl (db_thrown e), s1)
                | (Inr m, s1) \<Rightarrow> (Inr (),
                    setMessageCount (call_chatId call) (count_messages (call_chatId call) branch s1) (clock w 1) s1))
      | None \<Rightarrow> (Inr (), s))"

text \<open>What happens before the prompt is built: the branch, the target, the user's message.\<close>

definition open_generation ::
  "surroundings \<Rightarrow> generation_call \<Rightarrow> chat_row \<Rightarrow> db \<Rightarrow> (thrown + string \<times> (string \<times> string) option) \<times> db" where
  "open_generation w call c s =
     (case ensure_branch c (fresh_id w 0) (clock w 0) s of
        (Inl (DatabaseError e), s1) \<Rightarrow> (Inl (db_thrown e), s1)
      | (Inl (NotFoundError code), s1) \<Rightarrow> (Inl (AppErr code code), s1)
      | (Inr branch, s1) \<Rightarrow>
          (case regenerate_target call branch s1 of
             Inl e \<Rightarrow> (Inl e, s1)
           | Inr target \<Rightarrow>
               (case save_user_message w call branch s1 of
                  (Inl e, s2) \<Rightarrow> (Inl e, s2)
                | (Inr _, s2) \<Rightarrow> (Inr (branch, target), s2))))"

definition generate_route ::
  "surroundings \<Rightarrow> generation_call \<Rightarrow> (db \<Rightarrow> thrown + generation_request)
    \<Rightarrow> (generation_request \<Rightarrow> generation_event list \<times> thrown option) \<Rightarrow> generation \<Rightarrow> generation" where
  "generate_route w call pipeline provider s =
     (case get_chat (call_chatId call) (gen_db s) of
        None \<Rightarrow> send_event w 0 (Error ''CHAT_NOT_FOUND'' ''Chat not found'') s
      | Some c \<Rightarrow>
          (case open_generation w call c (gen_db s) of
             (Inl e, d) \<Rightarrow> caught w call 2 e (s\<lparr>gen_db := d\<rparr>)
           | (Inr (branch, target), d) \<Rightarrow>
               (case pipeline d of
                  Inl e \<Rightarrow> caught w call 2 e (s\<lparr>gen_db := d\<rparr>)
                | Inr q \<Rightarrow>
                    (let s1 = emit GenerationStarted (s\<lparr>gen_db := d,
                                gen_audits := prepare_audit (call_chatId call) (call_generationId call) (gen_audits s)\<rparr>);
                         (k, s2, x) = event_loop w call branch target (gr_assistantPrefill q) 2
                                        (fst (provider q)) (snd (provider q)) s1
                     in case x of
                          Raises e \<Rightarrow> caught w call k e s2
                        | _ \<Rightarrow> if gen_terminal s2 then s2
                               else caught w call k (AppErr ''GENERATION_FAILED''
                                      ''Provider stream ended without a terminal event'') s2))))"

text \<open>A request starts with nothing sent.\<close>

definition opened_stream :: "db \<Rightarrow> audit_table \<Rightarrow> generation" where
  "opened_stream d a = \<lparr>gen_db = d, gen_audits = a, gen_sent = [], gen_bus = [], gen_prefillSent = False, gen_terminal = False\<rparr>"

section \<open>One terminal event, and what it stands for\<close>

definition live :: "surroundings \<Rightarrow> bool" where
  "live w \<longleftrightarrow> (\<forall>k. \<not> dead w k)"

definition terminal_event :: "generation_event \<Rightarrow> bool" where
  "terminal_event e \<longleftrightarrow> (case e of Done t u \<Rightarrow> True | Error c m \<Rightarrow> True | _ \<Rightarrow> False)"

text \<open>Errors of the application carry machine codes.\<close>

definition stable_error :: "thrown \<Rightarrow> bool" where
  "stable_error e \<longleftrightarrow> (case e of AppErr c m \<Rightarrow> machine_code c | _ \<Rightarrow> True)"

lemma codes [simp]:
  "machine_code ''INTERNAL''" "machine_code ''GENERATION_CANCELLED''" "machine_code ''GENERATION_FAILED''"
  "machine_code ''EMPTY_RESPONSE''" "machine_code ''MESSAGE_NOT_FOUND''" "machine_code ''REGENERATE_TARGET_MOVED''"
  by code_simp+

declare machine_code.simps [simp del]

lemma stable_db [simp]: "stable_error (db_thrown e)"
  by (simp add: stable_error_def db_thrown_def split: db_error.split)

lemma send_live: "live w \<Longrightarrow> send_event w k e s = s\<lparr>gen_sent := gen_sent s @ [e]\<rparr>"
  by (simp add: live_def send_event_def)

lemma emit_fields [simp]:
  "gen_db (emit e s) = gen_db s" "gen_audits (emit e s) = gen_audits s" "gen_sent (emit e s) = gen_sent s"
  "gen_prefillSent (emit e s) = gen_prefillSent s" "gen_terminal (emit e s) = gen_terminal s"
  by (simp_all add: emit_def)

text \<open>The audit of the generation and its state.\<close>

definition audited :: "generation_call \<Rightarrow> generation \<Rightarrow> audit_status option" where
  "audited call s = (case jm_get (gen_audits s) (call_chatId call) of
       Some r \<Rightarrow> if au_generationId r = call_generationId call then Some (au_status r) else None
     | None \<Rightarrow> None)"

lemma audited_same: "gen_audits s' = gen_audits s \<Longrightarrow> audited call s' = audited call s"
  by (simp add: audited_def)

lemma finish_audited:
  assumes "code = None \<or> (\<exists>c. code = Some c \<and> machine_code c)"
  obtains a' where "finish_audit (call_chatId call) (call_generationId call) status code usage (gen_audits s) = Some a'"
    "\<And>s'. gen_audits s' = a' \<Longrightarrow> audited call s' = map_option (\<lambda>_. status) (audited call s)"
proof -
  have ok: "(case code of Some (c # cs) \<Rightarrow> \<not> machine_code (c # cs) | _ \<Rightarrow> False) = False"
    using assms by (auto split: option.splits list.splits)
  define a' where "a' = (case jm_get (gen_audits s) (call_chatId call) of
      Some r \<Rightarrow> if au_generationId r = call_generationId call
                then jm_set (call_chatId call) (r\<lparr>au_status := status, au_errorCode := code, au_usage := usage\<rparr>) (gen_audits s)
                else gen_audits s
    | None \<Rightarrow> gen_audits s)"
  show ?thesis
  proof (rule that [of a'])
    show "finish_audit (call_chatId call) (call_generationId call) status code usage (gen_audits s) = Some a'"
      by (simp add: finish_audit_def ok a'_def)
    show "audited call s' = map_option (\<lambda>_. status) (audited call s)" if "gen_audits s' = a'" for s'
      using that by (cases "jm_get (gen_audits s) (call_chatId call)") (auto simp: audited_def a'_def)
  qed
qed

lemma caught_told:
  assumes "live w" and "stable_error e" and "\<not> gen_terminal s"
  obtains code msg where "gen_sent (caught w call k e s) = gen_sent s @ [Error code msg]" "gen_db (caught w call k e s) = gen_db s"
    "audited call (caught w call k e s) \<notin> {Some AuditPrepared, Some AuditCompleted}"
proof -
  define code0 where "code0 = (case e of AppErr c m \<Rightarrow> c | _ \<Rightarrow> ''INTERNAL'')"
  define code where "code = (if aborted_at w k \<and> code0 = ''INTERNAL'' then ''GENERATION_CANCELLED'' else code0)"
  define status where "status = (if aborted_at w k \<or> code = ''GENERATION_CANCELLED'' \<or> code = ''ABORTED'' then AuditCancelled else AuditFailed)"
  define msg where "msg = (case e of AppErr c m \<Rightarrow> m | _ \<Rightarrow> ''Generation failed: '' @ code)"
  have "machine_code code" using assms(2) by (auto simp: code_def code0_def stable_error_def split: thrown.splits)
  then obtain a' where a': "finish_audit (call_chatId call) (call_generationId call) status (Some code) None (gen_audits s) = Some a'"
    "\<And>s'. gen_audits s' = a' \<Longrightarrow> audited call s' = map_option (\<lambda>_. status) (audited call s)"
    using finish_audited [of "Some code"] by metis
  have eq: "caught w call k e s = send_event w k (Error code msg) (emit (GenerationError code) (s\<lparr>gen_audits := a'\<rparr>))"
    unfolding caught_def Let_def code0_def [symmetric] code_def [symmetric] status_def [symmetric] msg_def [symmetric]
    using assms(3) a'(1) by simp
  show ?thesis
  proof (rule that [of code msg])
    have "audited call (caught w call k e s) = map_option (\<lambda>_. status) (audited call s)"
      by (rule a'(2)) (simp add: eq send_live [OF assms(1)])
    then show "audited call (caught w call k e s) \<notin> {Some AuditPrepared, Some AuditCompleted}" by (auto simp: status_def)
  qed (simp_all add: eq send_live [OF assms(1)])
qed

text \<open>The write of the text: refused without a trace, or the message has it.\<close>

fun saved_id :: "bus_event \<Rightarrow> string" where
  "saved_id (MessageCreated i) = i"
| "saved_id (MessageUpdated i r) = i"
| "saved_id _ = []"

definition message_shows :: "db \<Rightarrow> string \<Rightarrow> string \<Rightarrow> bool" where
  "message_shows s i text \<longleftrightarrow> (\<exists>m. message_of s i = Some m \<and> m_content m = text)"

lemma create_message_saved:
  assumes "create_message ch b input new_id tm s = (Inr m, s')" and "n_idempotencyKey input = None"
  shows "m_id m = new_id \<and> message_of s' new_id = Some (new_message_row ch b input new_id tm)"
proof -
  have tx: "create_tx ch b input new_id tm s = Inr (new_message_row ch b input new_id tm, s')" "m = rowToMessage (new_message_row ch b input new_id tm)"
    using assms by (cases rule: transaction_cases [of "create_tx ch b input new_id tm" s];
      auto simp: create_message_def create_tx_def split: sum.splits)+
  then have "new_id \<notin> set (map m_id (messages s))" "messages s' = messages s @ [new_message_row ch b input new_id tm]"
    by (auto simp: create_tx_def insert_message_def touch_character_def new_message_row_def assms(2)
        split: sum.splits if_splits option.splits)
  then have "find (\<lambda>m. m_id m = new_id) (messages s) = None" "messages s' = messages s @ [new_message_row ch b input new_id tm]"
    by (auto simp: find_None_iff)
  then have "message_of s' new_id = Some (new_message_row ch b input new_id tm)"
    by (simp add: message_of_def find_snoc) (simp add: new_message_row_def)
  with tx(2) show ?thesis by (simp add: new_message_row_def rowToMessage_def message.defs)
qed

lemma insert_variant_keeps: "insert_variant v s = Inr s' \<Longrightarrow> messages s' = messages s"
  by (cases "insert_archived v (map m_id (messages s)) (messageVariants s)") (auto simp: insert_variant_def)

lemma save_text_cases:
  obtains (refused) e where "save_text w call branch target k text meta s = (Inl e, s)" "stable_error e"
  | (saved) ev s' where "save_text w call branch target k text meta s = (Inr ev, s')" "message_shows s' (saved_id ev) text"
proof (cases target)
  case None
  show ?thesis
  proof (cases "create_message (call_chatId call) branch (assistant_message text meta) (fresh_id w k) (clock w k) s")
    case (Pair r s1)
    show ?thesis
    proof (cases r)
      case (Inl e)
      then have "s1 = s" using Pair
        by (cases rule: transaction_cases [of "create_tx (call_chatId call) branch (assistant_message text meta) (fresh_id w k) (clock w k)" s])
          (auto simp: create_message_def)
      then show ?thesis using refused [of "db_thrown e"] None Pair Inl by (simp add: save_text_def)
    next
      case (Inr m)
      from create_message_saved [OF Pair [unfolded Inr]]
      have "m_id m = fresh_id w k" "message_shows s1 (fresh_id w k) text"
        by (simp_all add: assistant_message_def message_shows_def new_message_row_def)
      then show ?thesis using saved None Pair Inr
        by (simp add: save_text_def message_shows_def message_of_def setMessageCount_def update_chats_def)
    qed
  qed
next
  case (Some p)
  obtain i old where p: "p = (i, old)" by (cases p) auto
  let ?tx = "replaceContentAsVariant_tx i old text meta (fresh_id w k) (clock w k)"
  show ?thesis
  proof (cases rule: transaction_cases [of ?tx s])
    case (thrown e)
    then show ?thesis using refused [of "db_thrown e"] by (simp add: save_text_def Some p)
  next
    case (committed r s1)
    show ?thesis
    proof (cases "message_of s i")
      case None
      then have "r = Missing" "s1 = s" using committed(1) by (simp_all add: replaceContentAsVariant_tx_def)
      then show ?thesis
        using refused [of "AppErr ''MESSAGE_NOT_FOUND'' ''MESSAGE_NOT_FOUND''"] committed(2)
        by (simp add: save_text_def Some p stable_error_def)
    next
      case (Some m)
      then obtain s0 where s0: "messages s0 = messages s" "s1 = update_message i (\<lambda>r. r\<lparr>m_content := text, m_meta := meta,
          m_variantCount := Suc (m_variantCount m), m_activeVariantPosition := Some (m_variantCount m),
          m_revision := Suc (m_revision m), m_updatedAt := Some (clock w k)\<rparr>) s0" "r = updated_view i s1"
        using committed(1) Some by (fastforce simp: replaceContentAsVariant_tx_def Let_def split: sum.splits dest: insert_variant_keeps)
      have "message_of s0 i = Some m" using Some s0(1) by (simp add: message_of_def)
      from message_of_rewritten [OF this] s0(2)
      obtain m' where m': "message_of s1 i = Some m'" "m_content m' = text" by auto
      then show ?thesis
        using saved [of "MessageUpdated i (m_revision (rowToMessage m'))" s1] committed(2) s0(3)
        by (simp add: save_text_def \<open>target = Some p\<close> p updated_view_def message_shows_def)
    qed
  qed
qed

text \<open>The three ways an event is handled.\<close>

lemma on_finished_cases:
  assumes "live w"
  obtains (refused) e where "on_finished w call branch target prefill k t usage s = (s, Raises e)" "stable_error e"
  | (saved) i final s' where "on_finished w call branch target prefill k t usage s = (s', Continues)"
      "gen_sent s' = gen_sent s @ [Done final usage]" "gen_terminal s'" "message_shows (gen_db s') i final"
      "final = fst (runPostProcessors (with_prefill prefill t) (hook_context w) (processors_ordered (hooks w)) None [])"
      "audited call s \<noteq> None \<longrightarrow> audited call s' = Some AuditCompleted"
proof -
  obtain final remarks where post: "runPostProcessors (with_prefill prefill t) (hook_context w) (processors_ordered (hooks w)) None [] = (final, remarks)"
    by (cases "runPostProcessors (with_prefill prefill t) (hook_context w) (processors_ordered (hooks w)) None []")
  show ?thesis
  proof (cases "trim final = []")
    case True
    then show ?thesis
      using refused [of "AppErr ''EMPTY_RESPONSE'' ''Provider returned an empty response''"] post
      by (simp add: on_finished_def stable_error_def)
  next
    case False
    show ?thesis
    proof (cases rule: save_text_cases [of w call branch target k final "meta_text w usage remarks" "gen_db s"])
      case (refused e)
      then show ?thesis using that(1) [of e] post False by (simp add: on_finished_def)
    next
      case (saved ev d)
      obtain a' where a': "finish_audit (call_chatId call) (call_generationId call) AuditCompleted None usage (gen_audits s) = Some a'"
        "\<And>s'. gen_audits s' = a' \<Longrightarrow> audited call s' = map_option (\<lambda>_. AuditCompleted) (audited call s)"
        using finish_audited [of None] by metis
      let ?s = "emit (GenerationFinished final)
          ((send_event w k (Done final usage) (emit ev (s\<lparr>gen_db := d\<rparr>)))\<lparr>gen_audits := a', gen_terminal := True\<rparr>)"
      have eq: "on_finished w call branch target prefill k t usage s = (?s, Continues)"
        using post False saved(1) a'(1) by (simp add: on_finished_def Let_def send_live [OF assms])
      show ?thesis
      proof (rule that(2) [of ?s final "saved_id ev"])
        show "audited call s \<noteq> None \<longrightarrow> audited call ?s = Some AuditCompleted"
          using a'(2) [of ?s] by auto
      qed (use eq saved(2) post in \<open>simp_all add: send_live [OF assms]\<close>)
    qed
  qed
qed

lemma on_failure_told:
  assumes "live w"
  shows "gen_sent (on_failure w call k code msg s) = gen_sent s @ [Error code msg]" "gen_terminal (on_failure w call k code msg s)"
    "gen_db (on_failure w call k code msg s) = gen_db s"
    "audited call (on_failure w call k code msg s) \<notin> {Some AuditPrepared, Some AuditCompleted}"
proof -
  define c where "c = (if machine_code code then code else ''GENERATION_FAILED'')"
  define status where "status = (if aborted_at w k \<or> c = ''GENERATION_CANCELLED'' then AuditCancelled else AuditFailed)"
  have "machine_code c" by (simp add: c_def)
  then obtain a' where a': "finish_audit (call_chatId call) (call_generationId call) status (Some c) None (gen_audits s) = Some a'"
    "\<And>s'. gen_audits s' = a' \<Longrightarrow> audited call s' = map_option (\<lambda>_. status) (audited call s)"
    using finish_audited [of "Some c"] by metis
  have eq: "on_failure w call k code msg s
      = emit (GenerationError c) (send_event w k (Error code msg) (s\<lparr>gen_audits := a', gen_terminal := True\<rparr>))"
    unfolding on_failure_def Let_def c_def [symmetric] status_def [symmetric] by (simp add: a'(1))
  show "gen_sent (on_failure w call k code msg s) = gen_sent s @ [Error code msg]" "gen_terminal (on_failure w call k code msg s)"
    "gen_db (on_failure w call k code msg s) = gen_db s"
    by (simp_all add: eq send_live [OF assms(1)])
  have "audited call (on_failure w call k code msg s) = map_option (\<lambda>_. status) (audited call s)"
    by (rule a'(2)) (simp add: eq send_live [OF assms(1)])
  then show "audited call (on_failure w call k code msg s) \<notin> {Some AuditPrepared, Some AuditCompleted}" by (auto simp: status_def)
qed

text \<open>The texts forwarded: the first that is not empty carries the prefill.\<close>

fun forwarded :: "string option \<Rightarrow> bool \<Rightarrow> string list \<Rightarrow> string list" where
  "forwarded p sent [] = []"
| "forwarded p sent (t # ts) = (if t \<noteq> [] \<and> \<not> sent then with_prefill p t else t) # forwarded p (sent \<or> t \<noteq> []) ts"

lemma loop_texts:
  assumes "live w"
  obtains s' where "event_loop w call br tg p k (map Delta ds @ es) b s = event_loop w call br tg p (k + length ds) es b s'"
    "gen_sent s' = gen_sent s @ map Delta (forwarded p (gen_prefillSent s) ds)" "gen_db s' = gen_db s"
    "gen_audits s' = gen_audits s" "gen_terminal s' = gen_terminal s"
proof (induction ds arbitrary: k s thesis)
  case Nil
  show ?case by (rule Nil [of s]) simp_all
next
  case (Cons t ds)
  let ?s = "on_text w p k t s"
  have here: "gen_sent ?s = gen_sent s @ [Delta (if t \<noteq> [] \<and> \<not> gen_prefillSent s then with_prefill p t else t)]"
    "gen_db ?s = gen_db s" "gen_audits ?s = gen_audits s" "gen_terminal ?s = gen_terminal s"
    "gen_prefillSent ?s = (gen_prefillSent s \<or> t \<noteq> [])"
    by (simp_all add: on_text_def Let_def send_live [OF assms])
  obtain s' where "event_loop w call br tg p (Suc k) (map Delta ds @ es) b ?s = event_loop w call br tg p (Suc k + length ds) es b s'"
    "gen_sent s' = gen_sent ?s @ map Delta (forwarded p (gen_prefillSent ?s) ds)" "gen_db s' = gen_db ?s"
    "gen_audits s' = gen_audits ?s" "gen_terminal s' = gen_terminal ?s"
    using Cons.IH by metis
  then show ?case using here by (intro Cons.prems [of s']) (simp_all add: on_event_def)
qed

text \<open>A provider's call: its start, texts, and a terminal event.\<close>

lemma loop_told:
  assumes live: "live w" and t: "terminal_event t" and fresh: "\<not> gen_terminal s" "audited call s \<noteq> None"
  obtains (ended) k' s' x fs t' where "event_loop w call br tg p k (Start i # map Delta ds @ [t]) None s = (k', s', x)"
      "x = Continues \<or> x = Breaks" "gen_terminal s'" "gen_sent s' = gen_sent s @ Start i # map Delta fs @ [t']"
      "(\<exists>c m. t' = Error c m \<and> gen_db s' = gen_db s \<and> audited call s' \<notin> {Some AuditPrepared, Some AuditCompleted})
       \<or> (\<exists>final u j. t' = Done final u \<and> message_shows (gen_db s') j final \<and> audited call s' = Some AuditCompleted)"
  | (raised) k' s' e fs where "event_loop w call br tg p k (Start i # map Delta ds @ [t]) None s = (k', s', Raises e)"
      "stable_error e" "\<not> gen_terminal s'" "gen_sent s' = gen_sent s @ Start i # map Delta fs" "gen_db s' = gen_db s"
proof -
  let ?s = "send_event w k (Start i) s"
  obtain s1 where s1: "event_loop w call br tg p (Suc k) (map Delta ds @ [t]) None ?s = event_loop w call br tg p (Suc k + length ds) [t] None s1"
    "gen_sent s1 = gen_sent ?s @ map Delta (forwarded p (gen_prefillSent ?s) ds)" "gen_db s1 = gen_db ?s"
    "gen_audits s1 = gen_audits ?s" "gen_terminal s1 = gen_terminal ?s"
    by (rule loop_texts [OF live, of call br tg p "Suc k" ds "[t]" None ?s])
  define fs where "fs = forwarded p (gen_prefillSent ?s) ds"
  define k1 where "k1 = Suc k + length ds"
  have view: "gen_sent s1 = gen_sent s @ Start i # map Delta fs" "gen_db s1 = gen_db s" "gen_terminal s1 = gen_terminal s"
    "audited call s1 = audited call s"
    using s1(2-5) by (simp_all add: send_live [OF live] fs_def audited_def)
  have run: "event_loop w call br tg p k (Start i # map Delta ds @ [t]) None s = event_loop w call br tg p k1 [t] None s1"
    using s1(1) by (simp add: on_event_def k1_def del: event_loop.simps(2)) (simp add: on_event_def)
  consider (failure) c m where "t = Error c m" | (finish) x u where "t = Done x u"
    using t by (auto simp: terminal_event_def split: generation_event.splits)
  then show ?thesis
  proof cases
    case failure
    have "event_loop w call br tg p k1 [t] None s1 = (k1, on_failure w call k1 c m s1, Breaks)"
      by (simp add: failure on_event_def)
    then show ?thesis
      using run view on_failure_told [OF live] failure
      by (intro ended [of k1 "on_failure w call k1 c m s1" Breaks fs t]) simp_all
  next
    case finish
    from live show ?thesis
    proof (cases rule: on_finished_cases [of w call br tg p k1 x u s1])
      case (refused e)
      then have "event_loop w call br tg p k1 [t] None s1 = (k1, s1, Raises e)" by (simp add: finish on_event_def)
      then show ?thesis using run view refused(2) fresh by (intro raised [of k1 s1 e fs]) simp_all
    next
      case (saved j final s2)
      then have "event_loop w call br tg p k1 [t] None s1 = (Suc k1, s2, Continues)" by (simp add: finish on_event_def)
      then show ?thesis using run view saved fresh by (intro ended [of "Suc k1" s2 Continues fs "Done final u"]) auto
    qed
  qed
qed

definition opened_db :: "surroundings \<Rightarrow> generation_call \<Rightarrow> db \<Rightarrow> db" where
  "opened_db w call d = (case get_chat (call_chatId call) d of None \<Rightarrow> d | Some c \<Rightarrow> snd (open_generation w call c d))"

text \<open>What the client is told last is true: a text that is now in the store, or an error, and then nothing but the
  branch and the user's message was written.\<close>

definition told_truly :: "generation_call \<Rightarrow> db \<Rightarrow> generation \<Rightarrow> bool" where
  "told_truly call d s \<longleftrightarrow> (\<exists>out t. gen_sent s = out @ [t] \<and> list_all (\<lambda>e. \<not> terminal_event e) out
     \<and> (case t of
          Done final usage \<Rightarrow> (\<exists>i. message_shows (gen_db s) i final) \<and> audited call s = Some AuditCompleted
        | Error code msg \<Rightarrow> gen_db s = d \<and> audited call s \<notin> {Some AuditPrepared, Some AuditCompleted}
        | _ \<Rightarrow> False))"

lemma caught_truly:
  assumes "live w" and "stable_error e" and "\<not> gen_terminal s" and "gen_db s = d" and "list_all (\<lambda>e. \<not> terminal_event e) (gen_sent s)"
  shows "told_truly call d (caught w call k e s)"
proof -
  obtain c m where "gen_sent (caught w call k e s) = gen_sent s @ [Error c m]" "gen_db (caught w call k e s) = gen_db s"
    "audited call (caught w call k e s) \<notin> {Some AuditPrepared, Some AuditCompleted}"
    by (rule caught_told [OF assms(1-3)])
  then show ?thesis
    unfolding told_truly_def using assms(4,5) by (intro exI [of _ "gen_sent s"] exI [of _ "Error c m"]) simp
qed

lemma open_generation_stable: "open_generation w call c s = (Inl e, d) \<Longrightarrow> stable_error e"
proof -
  have branch: "\<exists>e. x = DatabaseError e" if "ensure_branch c i tm s = (Inl x, s1)" for i tm s1 x
    using that by (auto simp: ensure_branch_def split: option.splits sum.splits)
  have target: "stable_error e" if "regenerate_target call b s = Inl e" for b s
    using that by (auto simp: regenerate_target_def Let_def stable_error_def split: if_splits)
  have user: "stable_error e" if "save_user_message w call b s = (Inl e, s2)" for b s s2
    using that by (auto simp: save_user_message_def split: option.splits if_splits sum.splits prod.splits)
  assume "open_generation w call c s = (Inl e, d)"
  then show ?thesis
    by (auto simp: open_generation_def split: prod.splits sum.splits route_error.splits dest: branch target user)
qed

text \<open>The id of a generation is new to the audit table.\<close>

definition new_generation :: "generation_call \<Rightarrow> audit_table \<Rightarrow> bool" where
  "new_generation call a \<longleftrightarrow> (case jm_get a (call_chatId call) of Some r \<Rightarrow> au_generationId r \<noteq> call_generationId call | None \<Rightarrow> True)"

lemma route_truly:
  assumes live: "live w" and stable: "\<And>d e. pipeline d = Inl e \<Longrightarrow> stable_error e" and fresh: "new_generation call a"
    and calls: "\<And>q. \<exists>i ds t. provider q = (Start i # map Delta ds @ [t], None) \<and> terminal_event t"
  shows "told_truly call (opened_db w call d) (generate_route w call pipeline provider (opened_stream d a))"
proof (cases "get_chat (call_chatId call) d")
  case None
  have "audited call (opened_stream d' a) = None" for d'
    using fresh by (auto simp: audited_def opened_stream_def new_generation_def split: option.splits)
  then have "audited call (send_event w 0 e (opened_stream d a)) = None" for e
    by (simp add: audited_def send_live [OF live])
  then show ?thesis
    unfolding told_truly_def using None
    by (intro exI [of _ "[]"] exI [of _ "Error ''CHAT_NOT_FOUND'' ''Chat not found''"])
      (simp add: generate_route_def opened_db_def, simp add: opened_stream_def send_live [OF live])
next
  case (Some c)
  obtain r d' where opened: "open_generation w call c d = (r, d')" by (cases "open_generation w call c d")
  then have db: "opened_db w call d = d'" by (simp add: opened_db_def Some)
  have start: "gen_db (opened_stream d a) = d" by (simp add: opened_stream_def)
  have early: "told_truly call d' (caught w call 2 e ((opened_stream d a)\<lparr>gen_db := d'\<rparr>))" if "stable_error e" for e
    using that by (intro caught_truly [OF live]) (simp_all add: opened_stream_def)
  show ?thesis
  proof (cases r)
    case (Inl e)
    from open_generation_stable [OF opened [unfolded Inl]] early show ?thesis
      using Some opened Inl by (simp add: generate_route_def db start)
  next
    case (Inr bt)
    obtain br tg where bt: "bt = (br, tg)" by (cases bt)
    show ?thesis
    proof (cases "pipeline d'")
      case (Inl e)
      from stable [OF this] early show ?thesis
        using Some opened Inr bt Inl by (simp add: generate_route_def db start)
    next
      case (Inr q)
      let ?s = "emit GenerationStarted ((opened_stream d a)\<lparr>gen_db := d',
          gen_audits := prepare_audit (call_chatId call) (call_generationId call) (gen_audits (opened_stream d a))\<rparr>)"
      have prepared: "\<not> gen_terminal ?s" "audited call ?s \<noteq> None" "gen_sent ?s = []" "gen_db ?s = d'"
        by (simp_all add: opened_stream_def audited_def prepare_audit_def)
      obtain i ds t where es: "provider q = (Start i # map Delta ds @ [t], None)" "terminal_event t" using calls by blast
      have quiet: "list_all (\<lambda>e. \<not> terminal_event e) (Start i # map Delta fs)" for fs
        by (simp add: list_all_iff terminal_event_def)
      note route = generate_route_def [of w call pipeline provider "opened_stream d a"]
      from live es(2) prepared(1,2) show ?thesis
      proof (cases rule: loop_told [of w t ?s call br tg "gr_assistantPrefill q" 2 i ds])
        case (ended k' s' x fs t')
        have "generate_route w call pipeline provider (opened_stream d a) = s'"
          using ended(1-3) es(1) unfolding route by (auto simp: start Some opened \<open>r = Inr bt\<close> bt Inr Let_def)
        moreover have "told_truly call d' s'"
          unfolding told_truly_def using ended(4,5) quiet [of fs] prepared(3,4)
          by (intro exI [of _ "Start i # map Delta fs"] exI [of _ t']) auto
        ultimately show ?thesis by (simp add: db)
      next
        case (raised k' s' e fs)
        have "generate_route w call pipeline provider (opened_stream d a) = caught w call k' e s'"
          using raised(1) es(1) unfolding route by (simp add: start Some opened \<open>r = Inr bt\<close> bt Inr Let_def)
        moreover have "told_truly call d' (caught w call k' e s')"
          using raised(2-5) quiet [of fs] prepared(3,4) by (intro caught_truly [OF live]) simp_all
        ultimately show ?thesis by (simp add: db)
      qed
    qed
  qed
qed

text \<open>C3: a generation through the provider adapter, whatever the network does: the client is told exactly one
  outcome, last. Told a text, a message has that text and the audit is completed; told an error, nothing but the
  branch and the user's message has been written, and the audit is not left open.\<close>

theorem client_told_truly:
  assumes "live w" and "\<And>d e. pipeline d = Inl e \<Longrightarrow> stable_error e" and "new_generation call a"
  shows "told_truly call (opened_db w call d)
    (generate_route w call pipeline (\<lambda>q. (generate parse cls i q aborted (network q), None)) (opened_stream d a))"
proof (rule route_truly)
  show "\<exists>i' ds t. (generate parse cls i q aborted (network q), None) = (Start i' # map Delta ds @ [t], None) \<and> terminal_event t" for q
  proof -
    obtain ds t where shape: "generate parse cls i q aborted (network q) = Start i # map Delta ds @ [t]" "terminal_for ds t"
      using generate_shape by blast
    moreover from shape(2) have "terminal_event t" by (simp add: terminal_for_def terminal_event_def split: generation_event.splits)
    ultimately show ?thesis by auto
  qed
qed (use assms in auto)

definition demo_world :: surroundings where
  "demo_world = \<lparr>dead = (\<lambda>_. False), aborted_at = (\<lambda>_. False), fresh_id = (\<lambda>k. ''id'' @ digits_of_nat k), clock = (\<lambda>k. int k),
     hooks = [], hook_context = \<lparr>ctx_chatId = ''c'', ctx_characterId = None, ctx_model = ''m''\<rparr>, meta_text = (\<lambda>u ns. ''{}'')\<rparr>"

definition demo_call :: generation_call where
  "demo_call = \<lparr>call_chatId = ''c'', call_generationId = ''g'', call_userMessage = Some ''Hello'', call_regenerate = False,
     call_regenerateMessageId = None\<rparr>"

lemma client_told_truly_witness:
  "told_truly demo_call (opened_db demo_world demo_call demo_db)
    (generate_route demo_world demo_call (\<lambda>d. Inr demo_request)
      (\<lambda>q. (generate demo_json (\<lambda>_. 0) ''r'' q (\<lambda>_. False) (StreamBody [data_frame ''[DONE]''] None), None)) (opened_stream demo_db []))"
  by (rule client_told_truly) (simp_all add: live_def demo_world_def new_generation_def)

section \<open>From the provider's bytes to the store and the browser\<close>

lemma concat_forwarded:
  "concat (forwarded p sent ts) = (if sent \<or> concat ts = [] then concat ts else with_prefill p (concat ts))"
  by (induction ts arbitrary: sent) (auto simp: with_prefill_def split: option.splits)

lemma save_text_new:
  assumes "fresh_id w k \<notin> set (map m_id (messages s))" and "call_chatId call \<in> set (map c_id (chats s))"
    and "br \<in> set (map br_id (chatBranches s))"
  shows "fst (save_text w call br None k final meta s) = Inr (MessageCreated (fresh_id w k))"
proof -
  have "create_tx (call_chatId call) br (assistant_message final meta) (fresh_id w k) (clock w k) s
      = Inr (new_message_row (call_chatId call) br (assistant_message final meta) (fresh_id w k) (clock w k),
          touch_character (character_of (call_chatId call) (s\<lparr>messages := messages s @
            [new_message_row (call_chatId call) br (assistant_message final meta) (fresh_id w k) (clock w k)]\<rparr>)) (clock w k)
          (s\<lparr>messages := messages s @ [new_message_row (call_chatId call) br (assistant_message final meta) (fresh_id w k) (clock w k)]\<rparr>))"
    using assms by (simp add: create_tx_def insert_message_def new_message_row_def assistant_message_def)
  then show ?thesis
    by (simp add: save_text_def create_message_def transaction_def rowToMessage_def new_message_row_def message.defs)
qed

lemma no_hooks [simp]: "runPostProcessors x ctx (processors_ordered []) None [] = (x, [])"
  by (simp add: runPostProcessors_def processors_ordered_def)

lemma route_delivers:
  assumes live: "live w" and hooks: "hooks w = []"
    and opened: "get_chat (call_chatId call) d = Some c" "open_generation w call c d = (Inr (br, None), d')" "pipeline d' = Inr q"
    and rows: "\<forall>k \<ge> 2. fresh_id w k \<notin> set (map m_id (messages d'))" "call_chatId call \<in> set (map c_id (chats d'))"
      "br \<in> set (map br_id (chatBranches d'))"
    and es: "provider q = (Start i # map Delta ds @ [Done (concat ds) u], None)"
    and shown: "trim (with_prefill (gr_assistantPrefill q) (concat ds)) \<noteq> []"
  obtains j where "gen_sent (generate_route w call pipeline provider (opened_stream d a))
      = Start i # map Delta (forwarded (gr_assistantPrefill q) False ds) @ [Done (with_prefill (gr_assistantPrefill q) (concat ds)) u]"
    "message_shows (gen_db (generate_route w call pipeline provider (opened_stream d a))) j (with_prefill (gr_assistantPrefill q) (concat ds))"
proof -
  let ?p = "gr_assistantPrefill q"
  let ?s = "emit GenerationStarted ((opened_stream d a)\<lparr>gen_db := d',
      gen_audits := prepare_audit (call_chatId call) (call_generationId call) (gen_audits (opened_stream d a))\<rparr>)"
  let ?started = "send_event w 2 (Start i) ?s"
  have start: "gen_db (opened_stream d a) = d" by (simp add: opened_stream_def)
  have s0: "gen_sent ?started = [Start i]" "gen_db ?started = d'" "gen_prefillSent ?started = False"
    by (simp_all add: send_live [OF live] opened_stream_def)
  obtain s1 where s1: "event_loop w call br None ?p 3 (map Delta ds @ [Done (concat ds) u]) None ?started
      = event_loop w call br None ?p (3 + length ds) [Done (concat ds) u] None s1"
    "gen_sent s1 = gen_sent ?started @ map Delta (forwarded ?p (gen_prefillSent ?started) ds)" "gen_db s1 = gen_db ?started"
    by (rule loop_texts [OF live, of call br None ?p 3 ds "[Done (concat ds) u]" None ?started])
  let ?k = "3 + length ds"
  from live show ?thesis
  proof (cases rule: on_finished_cases [of w call br None ?p ?k "concat ds" u s1])
    case (refused e)
    then have "False"
      using save_text_new [of w ?k d' call br "with_prefill ?p (concat ds)" "meta_text w u []"] rows shown s1(3) s0(2)
      by (auto simp: on_finished_def hooks Let_def split: prod.splits sum.splits)
    then show ?thesis ..
  next
    case (saved j final s2)
    have final: "final = with_prefill ?p (concat ds)" using saved(5) by (simp add: hooks)
    have "event_loop w call br None ?p 2 (fst (provider q)) (snd (provider q)) ?s = (Suc ?k, s2, Continues)"
      using s1(1) saved(1) es by (simp add: on_event_def)
    then have "generate_route w call pipeline provider (opened_stream d a) = s2"
      using opened saved(3) by (simp add: generate_route_def start Let_def)
    then show ?thesis
      using saved(2,4) s1(2) s0(1,3) final by (intro that [of j]) simp_all
  qed
qed

text \<open>The text the browser has put together from what was streamed to it.\<close>

definition streamed_text :: "handler_call list \<Rightarrow> string" where
  "streamed_text calls = concat (map (\<lambda>c. case c of OnDelta t \<Rightarrow> t | _ \<Rightarrow> []) calls)"

lemma concat_nonempty: "concat (filter (\<lambda>t. t \<noteq> []) ts) = concat ts"
  by (induction ts) auto

lemma sent_texts_Sent [simp]: "sent_texts (map Sent js) = js"
  by (induction js) simp_all

lemma calls_of_generation:
  "calls_of (Start i # map Delta fs @ [Done final u]) = OnStart i # map OnDelta fs @ [OnDone final]"
  by (induction fs) (simp_all add: calls_of_def)

lemma intercepts_none: "list_all (\<lambda>e. handler_call_of e = [] \<longrightarrow> P e) (Start i # map Delta fs @ [Done final u])"
  by (auto simp: list_all_iff)

text \<open>C1: from the bytes of the provider to the screen and the store. If the provider streams payloads that bring
  texts, cut anywhere by the network, and the server's events reach the browser, again cut anywhere, then the
  browser is told the whole reply last, the reply is the text of a message of the store, and what was streamed
  before adds up to it unless the provider sent no text at all.\<close>

theorem reply_reaches_browser_and_store:
  assumes "live w" and "hooks w = []"
    and "get_chat (call_chatId call) d = Some c" and "open_generation w call c d = (Inr (br, None), d')" and "pipeline d' = Inr q"
    and "\<forall>k \<ge> 2. fresh_id w k \<notin> set (map m_id (messages d'))" and "call_chatId call \<in> set (map c_id (chats d'))"
    and "br \<in> set (map br_id (chatBranches d'))"
    and provider: "concat cs = concat (map data_frame (ps @ [''[DONE]'']))" "list_all wire_json ps"
      "list_all2 (brings parse) ps ts" "within_cap SSE_MAX_BUFFERED_BYTES cs" "\<And>k. \<not> aborted k"
    and "final = with_prefill (gr_assistantPrefill q) (concat ts)" and "trim final \<noteq> []"
    and "result = generate_route w call pipeline (\<lambda>q. (generate parse cls i q aborted (StreamBody cs None), None)) (opened_stream d a)"
    and browser: "list_all2 (\<lambda>j e. json j = Event e) js (gen_sent result)" "list_all wire_json js"
      "concat cs' = concat (map sse_text (Opened # map Sent js))"
  shows "\<exists>calls j. streamGeneration json icept cs' False = (calls @ [OnDone final], True)
    \<and> message_shows (gen_db result) j final \<and> (concat ts \<noteq> [] \<longrightarrow> streamed_text calls = final)"
proof -
  let ?ds = "filter (\<lambda>t. t \<noteq> []) ts" and ?p = "gr_assistantPrefill q"
  obtain u where "generate parse cls i q aborted (StreamBody cs None) = Start i # map Delta ?ds @ [Done (concat ts) (Some u)]"
    using generate_stream [where aborted = aborted and cls = cls and i = i and q = q, OF provider] by blast
  then have es: "(\<lambda>q. (generate parse cls i q aborted (StreamBody cs None), None :: thrown option)) q
      = (Start i # map Delta ?ds @ [Done (concat ?ds) (Some u)], None)"
    by (simp add: concat_nonempty)
  have shown: "trim (with_prefill ?p (concat ?ds)) \<noteq> []" using assms(14,15) by (simp add: concat_nonempty)
  obtain j where j: "gen_sent result = Start i # map Delta (forwarded ?p False ?ds) @ [Done final (Some u)]"
    "message_shows (gen_db result) j final"
    using route_delivers [where a = a and pipeline = pipeline and d' = d' and q = q
        and provider = "\<lambda>q. (generate parse cls i q aborted (StreamBody cs None), None)", OF assms(1-8) es shown]
      assms(14,16) by (auto simp: concat_nonempty)
  have "framed (map Sent js)" using browser(2) by (auto simp: framed_def)
  moreover have "list_all (\<lambda>e. handler_call_of e = [] \<longrightarrow> icept e) (gen_sent result)"
    unfolding j(1) by (rule intercepts_none)
  moreover have "list_all2 (\<lambda>j e. json j = Event e) (sent_texts (map Sent js)) (gen_sent result)" using browser(1) by simp
  moreover note client_calls [OF browser(3), of json "gen_sent result" icept]
  ultimately
  have "streamGeneration json icept cs' False = ((OnStart i # map OnDelta (forwarded ?p False ?ds)) @ [OnDone final], True)"
    by (simp add: j(1) calls_of_generation terminal_call_def)
  moreover have "streamed_text (OnStart i # map OnDelta (forwarded ?p False ?ds)) = concat (forwarded ?p False ?ds)"
    by (simp add: streamed_text_def comp_def)
  ultimately show ?thesis
    using j(2) assms(14) by (intro exI [of _ "OnStart i # map OnDelta (forwarded ?p False ?ds)"] exI [of _ j])
      (simp add: concat_forwarded concat_nonempty)
qed

definition demo_bytes :: "string list" where
  "demo_bytes = [''data: {H'', ''i}'' @ [LF, LF] @ ''data: [DON'', ''E]'' @ [LF, LF]]"

definition demo_result :: generation where
  "demo_result = generate_route demo_world demo_call (\<lambda>d. Inr demo_request)
     (\<lambda>q. (generate demo_json (\<lambda>_. 0) ''r'' q (\<lambda>_. False) (StreamBody demo_bytes None), None)) (opened_stream demo_db [])"

definition demo_events :: "string \<Rightarrow> parsed" where
  "demo_events j = (if j = ''{start}'' then Event (Start ''r'') else if j = ''{delta}'' then Event (Delta ''Hi'')
     else if j = ''{done}'' then Event (last (gen_sent demo_result)) else Malformed)"

lemma demo_stream:
  "concat demo_bytes = concat (map data_frame ([''{Hi}''] @ [''[DONE]'']))" "list_all wire_json [''{Hi}'']"
  "list_all2 (brings demo_json) [''{Hi}''] [''Hi'']" "within_cap SSE_MAX_BUFFERED_BYTES demo_bytes"
proof -
  show "within_cap SSE_MAX_BUFFERED_BYTES demo_bytes"
    by (rule within_cap_small) (simp add: SSE_MAX_BUFFERED_BYTES_def demo_bytes_def)
  show "list_all2 (brings demo_json) [''{Hi}''] [''Hi'']"
    by (simp add: brings_def demo_json_def choice_text_def first_choice_def string_field_def)
qed (code_simp, code_simp)

definition demo_opened :: db where
  "demo_opened = snd (open_generation demo_world demo_call demo_chat demo_db)"

lemma demo_open:
  "get_chat (call_chatId demo_call) demo_db = Some demo_chat"
  "open_generation demo_world demo_call demo_chat demo_db = (Inr (''b'', None), demo_opened)"
  "map m_id (messages demo_opened) = [''id1'']" "map c_id (chats demo_opened) = [''c'']" "map br_id (chatBranches demo_opened) = [''b'']"
  by code_simp+

lemma demo_conditions:
  "live demo_world" "hooks demo_world = []" "(\<lambda>d. Inr demo_request :: thrown + generation_request) demo_opened = Inr demo_request"
  "\<forall>k \<ge> 2. fresh_id demo_world k \<notin> set (map m_id (messages demo_opened))"
  "call_chatId demo_call \<in> set (map c_id (chats demo_opened))" "''b'' \<in> set (map br_id (chatBranches demo_opened))"
proof -
  show "\<forall>k \<ge> 2. fresh_id demo_world k \<notin> set (map m_id (messages demo_opened))"
  proof (intro allI impI notI)
    fix k :: nat assume "2 \<le> k" and "fresh_id demo_world k \<in> set (map m_id (messages demo_opened))"
    then have "digits_of_nat k = ''1''" unfolding demo_open(3) by (simp add: demo_world_def)
    then have "k = nat_of_digits ''1''" by (metis nat_of_digits_of_nat)
    also have "\<dots> = 1" by code_simp
    finally show False using \<open>2 \<le> k\<close> by simp
  qed
qed (simp_all add: live_def demo_world_def demo_open(4,5) demo_call_def del: set_map)

lemma demo_sent: "\<exists>u. gen_sent demo_result = [Start ''r'', Delta ''Hi'', Done ''Hi'' (Some u)]"
proof -
  let ?provider = "\<lambda>q. (generate demo_json (\<lambda>_. 0) ''r'' q (\<lambda>_. False) (StreamBody demo_bytes None), None :: thrown option)"
  obtain u where "generate demo_json (\<lambda>_. 0) ''r'' demo_request (\<lambda>_. False) (StreamBody demo_bytes None)
      = Start ''r'' # map Delta (filter (\<lambda>t. t \<noteq> []) [''Hi'']) @ [Done (concat [''Hi'']) (Some u)]"
    using generate_stream [where aborted = "\<lambda>_. False" and cls = "\<lambda>_. 0" and i = "''r''" and q = demo_request, OF demo_stream]
    by blast
  then have es: "?provider demo_request = (Start ''r'' # map Delta [''Hi''] @ [Done (concat [''Hi'']) (Some u)], None)"
    by simp
  have "trim (with_prefill (gr_assistantPrefill demo_request) (concat [''Hi''])) \<noteq> []" by code_simp
  from route_delivers [where a = "[]" and w = demo_world and pipeline = "\<lambda>d. Inr demo_request" and d' = demo_opened and q = demo_request
      and provider = ?provider, OF demo_conditions(1,2) demo_open(1,2) demo_conditions(3-6) es this]
  show ?thesis unfolding demo_result_def by (auto simp: demo_request_def with_prefill_def)
qed

lemma reply_reaches_browser_and_store_witness:
  "\<exists>calls j. streamGeneration demo_events (\<lambda>_. True)
       [[LF] @ ''data: {sta'', ''rt}'' @ [LF, LF] @ ''data: {delta}'' @ [LF], [LF] @ ''data: {done}'' @ [LF, LF]] False
     = (calls @ [OnDone ''Hi''], True)
   \<and> message_shows (gen_db demo_result) j ''Hi'' \<and> (concat [''Hi''] \<noteq> [] \<longrightarrow> streamed_text calls = ''Hi'')"
proof -
  let ?cs = "[[LF] @ ''data: {sta'', ''rt}'' @ [LF, LF] @ ''data: {delta}'' @ [LF], [LF] @ ''data: {done}'' @ [LF, LF]]"
  let ?js = "[''{start}'', ''{delta}'', ''{done}'']"
  obtain u where sent: "gen_sent demo_result = [Start ''r'', Delta ''Hi'', Done ''Hi'' (Some u)]" using demo_sent by blast
  have final: "''Hi'' = with_prefill (gr_assistantPrefill demo_request) (concat [''Hi''])" "trim ''Hi'' \<noteq> []" by code_simp+
  have told: "list_all2 (\<lambda>j e. demo_events j = Event e) ?js (gen_sent demo_result)" by (simp add: demo_events_def sent)
  have wired: "list_all wire_json ?js" by code_simp
  have bytes: "concat ?cs = concat (map sse_text (Opened # map Sent ?js))" by simp
  show ?thesis
    by (rule reply_reaches_browser_and_store [where w = demo_world and pipeline = "\<lambda>d. Inr demo_request" and d' = demo_opened
          and q = demo_request and aborted = "\<lambda>_. False" and icept = "\<lambda>_. True",
          OF demo_conditions(1,2) demo_open(1,2) demo_conditions(3-6) demo_stream _ final demo_result_def told wired bytes]) simp
qed

text \<open>With an assistant prefill, a provider that answers nothing is not reported: the text that is tested for
  emptiness contains the prefill, so the prefill alone is stored as the reply and announced as done.\<close>

theorem empty_reply_saved_with_prefill:
  assumes "live w" and "hooks w = []"
    and "get_chat (call_chatId call) d = Some c" and "open_generation w call c d = (Inr (br, None), d')" and "pipeline d' = Inr q"
    and "\<forall>k \<ge> 2. fresh_id w k \<notin> set (map m_id (messages d'))" and "call_chatId call \<in> set (map c_id (chats d'))"
    and "br \<in> set (map br_id (chatBranches d'))"
    and "provider q = ([Start i, Done [] u], None)" and "gr_assistantPrefill q = Some prefill" and "trim prefill \<noteq> []"
  shows "\<exists>j. gen_sent (generate_route w call pipeline provider (opened_stream d a)) = [Start i, Done prefill u]
    \<and> message_shows (gen_db (generate_route w call pipeline provider (opened_stream d a))) j prefill"
proof -
  have es: "provider q = (Start i # map Delta [] @ [Done (concat []) u], None)" using assms(9) by simp
  have "trim (with_prefill (gr_assistantPrefill q) (concat [])) \<noteq> []" using assms(10,11) by (simp add: with_prefill_def)
  from route_delivers [where pipeline = pipeline and provider = provider and q = q and d' = d' and a = a, OF assms(1-8) es this]
  show ?thesis using assms(10) by (auto simp: with_prefill_def)
qed

lemma empty_reply_saved_with_prefill_witness:
  "\<exists>j. gen_sent (generate_route demo_world demo_call (\<lambda>d. Inr (demo_request\<lparr>gr_assistantPrefill := Some ''Sure,''\<rparr>))
      (\<lambda>q. ([Start ''r'', Done [] None], None)) (opened_stream demo_db [])) = [Start ''r'', Done ''Sure,'' None]
    \<and> message_shows (gen_db (generate_route demo_world demo_call (\<lambda>d. Inr (demo_request\<lparr>gr_assistantPrefill := Some ''Sure,''\<rparr>))
      (\<lambda>q. ([Start ''r'', Done [] None], None)) (opened_stream demo_db []))) j ''Sure,''"
proof -
  have "trim ''Sure,'' \<noteq> []" by code_simp
  then show ?thesis
    by (intro empty_reply_saved_with_prefill [where q = "demo_request\<lparr>gr_assistantPrefill := Some ''Sure,''\<rparr>" and d' = demo_opened,
          OF demo_conditions(1,2) demo_open(1,2) _ demo_conditions(4-6)]) (simp_all add: demo_request_def)
qed

end
