(* ===== verification/Intercepts.thy ===== *)
theory Intercepts
  imports Prelude
begin

text \<open>
  The rendezvous between a generation and the prompt interceptors of the browser
  (\<open>FrontendInterceptorBroker\<close> in \<open>apps/server/src/plugins/generate.ts\<close>): a request is shown to the browser and
  waits for the answer, a timeout, the abort of the generation or the shutdown of the server. Ids and tokens are
  random and arrive with the request. Promises are numbered as they are made.
\<close>

section \<open>The broker\<close>

datatype 'm intercept_outcome = Answered 'm | TimedOut | GenerationAborted | ServerClosed | AtCapacity

record 'm interceptors =
  waiting :: "(string, string \<times> nat) jmap"
  outcomes :: "(nat \<times> 'm intercept_outcome) list"
  made :: nat
  shown :: "(string \<times> string) list"

definition no_intercepts :: "'m interceptors" where
  "no_intercepts = \<lparr>waiting = [], outcomes = [], made = 0, shown = []\<rparr>"

definition MAX_PENDING_INTERCEPTS :: nat where
  "MAX_PENDING_INTERCEPTS = 32"

definition reject_intercept :: "string \<Rightarrow> 'm intercept_outcome \<Rightarrow> 'm interceptors \<Rightarrow> 'm interceptors" where
  "reject_intercept i why s = (case jm_get (waiting s) i of
       None \<Rightarrow> s
     | Some (token, p) \<Rightarrow> s\<lparr>waiting := jm_delete i (waiting s), outcomes := outcomes s @ [(p, why)]\<rparr>)"

definition request_intercept :: "string \<Rightarrow> string \<Rightarrow> bool \<Rightarrow> 'm interceptors \<Rightarrow> 'm interceptors" where
  "request_intercept i token aborted s =
     (if MAX_PENDING_INTERCEPTS \<le> length (waiting s)
      then s\<lparr>outcomes := outcomes s @ [(made s, AtCapacity)], made := Suc (made s)\<rparr>
      else (let s1 = s\<lparr>waiting := jm_set i (token, made s) (waiting s), made := Suc (made s)\<rparr>;
                s2 = (if aborted then reject_intercept i GenerationAborted s1 else s1)
            in s2\<lparr>shown := shown s2 @ [(i, token)]\<rparr>))"

text \<open>The answer of the browser: refused as not found unless the request waits under this token.\<close>

definition resolve_intercept :: "string \<Rightarrow> string \<Rightarrow> 'm \<Rightarrow> 'm interceptors \<Rightarrow> bool \<times> 'm interceptors" where
  "resolve_intercept i token ms s = (case jm_get (waiting s) i of
       None \<Rightarrow> (False, s)
     | Some (t, p) \<Rightarrow>
         if t \<noteq> token then (False, s)
         else (True, s\<lparr>waiting := jm_delete i (waiting s), outcomes := outcomes s @ [(p, Answered ms)]\<rparr>))"

definition close_intercepts :: "'m interceptors \<Rightarrow> 'm interceptors" where
  "close_intercepts s = s\<lparr>outcomes := outcomes s @ map (\<lambda>(i, t, p). (p, ServerClosed)) (waiting s), waiting := []\<rparr>"

datatype 'm intercept_event =
  Requests string string bool | Answers string string 'm | Expires string | Aborts string | Closes

fun intercept_step :: "'m intercept_event \<Rightarrow> 'm interceptors \<Rightarrow> 'm interceptors" where
  "intercept_step (Requests i token aborted) s = request_intercept i token aborted s"
| "intercept_step (Answers i token ms) s = snd (resolve_intercept i token ms s)"
| "intercept_step (Expires i) s = reject_intercept i TimedOut s"
| "intercept_step (Aborts i) s = reject_intercept i GenerationAborted s"
| "intercept_step Closes s = close_intercepts s"

section \<open>Every request is settled once\<close>

text \<open>The promises that wait and those that are settled are together all that were made, each once.\<close>

definition intercepts_ok :: "'m interceptors \<Rightarrow> bool" where
  "intercepts_ok s \<longleftrightarrow> distinct (map fst (waiting s)) \<and> length (waiting s) \<le> MAX_PENDING_INTERCEPTS
     \<and> mset (map (snd \<circ> snd) (waiting s)) + mset (map fst (outcomes s)) = mset [0..<made s]"

text \<open>An id is not drawn again while it waits.\<close>

fun fresh_requests :: "'m intercept_event list \<Rightarrow> 'm interceptors \<Rightarrow> bool" where
  "fresh_requests [] s = True"
| "fresh_requests (e # es) s = ((case e of Requests i t a \<Rightarrow> i \<notin> set (map fst (waiting s)) | _ \<Rightarrow> True)
     \<and> fresh_requests es (intercept_step e s))"

lemma delete_waiting:
  assumes "distinct (map fst w)" and "jm_get w i = Some (t, p)"
  shows "mset (map (snd \<circ> snd) w) = {#p#} + mset (map (snd \<circ> snd) (jm_delete i w))"
  using assms
proof (induction w)
  case (Cons x w)
  obtain j u q where x: "x = (j, u, q)" by (cases x) auto
  show ?case
  proof (cases "j = i")
    case True
    with Cons.prems have "jm_delete i w = w" by (intro jm_delete_absent) (auto simp: x)
    with True Cons.prems show ?thesis by (simp add: x jm_delete_Cons)
  next
    case False
    with Cons show ?thesis by (simp add: x jm_delete_Cons)
  qed
qed simp

lemma delete_waiting_keys:
  "distinct (map fst w) \<Longrightarrow> distinct (map fst (jm_delete i w))" "length (jm_delete i w) \<le> length w"
  by (simp_all add: jm_delete_def distinct_map_filter)

lemma settled_ok:
  assumes "intercepts_ok s" and "jm_get (waiting s) i = Some (t, p)"
  shows "intercepts_ok (s\<lparr>waiting := jm_delete i (waiting s), outcomes := outcomes s @ [(p, why)]\<rparr>)"
proof -
  from assms(1) have d: "distinct (map fst (waiting s))" by (simp add: intercepts_ok_def)
  from assms(1) delete_waiting [OF d assms(2)] delete_waiting_keys(1) [OF d, of i] delete_waiting_keys(2) [of i "waiting s"]
  show ?thesis by (simp add: intercepts_ok_def)
qed

lemma reject_intercept_ok: "intercepts_ok s \<Longrightarrow> intercepts_ok (reject_intercept i why s)"
  by (auto simp: reject_intercept_def settled_ok split: option.split)

lemma resolve_ok: "intercepts_ok s \<Longrightarrow> intercepts_ok (snd (resolve_intercept i token ms s))"
  by (auto simp: resolve_intercept_def settled_ok split: option.split)

lemma request_ok:
  assumes "intercepts_ok s" and "i \<notin> set (map fst (waiting s))"
  shows "intercepts_ok (request_intercept i token aborted s)"
proof (cases "MAX_PENDING_INTERCEPTS \<le> length (waiting s)")
  case True
  with assms(1) show ?thesis by (simp add: intercepts_ok_def request_intercept_def)
next
  case False
  let ?s = "s\<lparr>waiting := jm_set i (token, made s) (waiting s), made := Suc (made s)\<rparr>"
  have "jm_set i (token, made s) (waiting s) = waiting s @ [(i, token, made s)]" using assms(2) by (intro jm_set_absent)
  with assms False have "intercepts_ok ?s" by (simp add: intercepts_ok_def)
  moreover from this have "intercepts_ok (reject_intercept i GenerationAborted ?s)" by (rule reject_intercept_ok)
  moreover have "intercepts_ok (r\<lparr>shown := x\<rparr>) = intercepts_ok r" for r :: "'a interceptors" and x by (simp add: intercepts_ok_def)
  ultimately show ?thesis using False by (simp add: request_intercept_def Let_def)
qed

lemma close_ok:
  assumes "intercepts_ok s"
  shows "intercepts_ok (close_intercepts s)"
proof -
  have "map fst (outcomes (close_intercepts s)) = map fst (outcomes s) @ map (snd \<circ> snd) (waiting s)"
    by (simp add: close_intercepts_def comp_def split_beta)
  moreover have "waiting (close_intercepts s) = []" "made (close_intercepts s) = made s" by (simp_all add: close_intercepts_def)
  ultimately show ?thesis using assms by (simp add: intercepts_ok_def add.commute del: mset_map)
qed

lemma intercept_step_ok:
  "intercepts_ok s \<Longrightarrow> fresh_requests [e] s \<Longrightarrow> intercepts_ok (intercept_step e s)"
  by (cases e) (simp_all add: request_ok resolve_ok reject_intercept_ok close_ok)

lemma intercept_run_ok:
  "intercepts_ok s \<Longrightarrow> fresh_requests es s \<Longrightarrow> intercepts_ok (run_events intercept_step es s)"
proof (induction es arbitrary: s)
  case (Cons e es)
  then have "intercepts_ok (intercept_step e s)" by (intro intercept_step_ok) simp_all
  with Cons show ?case by simp
qed simp

text \<open>C15: whatever answers, timeouts, aborts and shutdowns come in whatever order, every request for an interception
  either waits or has been settled, exactly once, and at most 32 wait.\<close>

theorem intercepts_settle_once:
  assumes "fresh_requests es no_intercepts"
  shows "intercepts_ok (run_events intercept_step es no_intercepts)"
  using assms by (intro intercept_run_ok) (simp_all add: intercepts_ok_def no_intercepts_def)

lemma intercepts_settle_once_witness:
  "intercepts_ok (run_events intercept_step [Requests ''a'' ''x'' False, Answers ''a'' ''y'' (0::nat), Expires ''a'', Answers ''a'' ''x'' 1]
     no_intercepts)"
  by (rule intercepts_settle_once) (simp add: no_intercepts_def)

section \<open>Who answers\<close>

abbreviation after :: "'m intercept_event list \<Rightarrow> 'm interceptors" where
  "after es \<equiv> run_events intercept_step es no_intercepts"

text \<open>Promises are numbered by the requests that make them.\<close>

fun is_request :: "'m intercept_event \<Rightarrow> bool" where
  "is_request (Requests i token aborted) = True"
| "is_request _ = False"

lemma reject_frame [simp]: "made (reject_intercept i why s) = made s" "shown (reject_intercept i why s) = shown s"
  by (auto simp: reject_intercept_def split: option.split)

lemma made_step: "made (intercept_step e s) = (if is_request e then Suc (made s) else made s)"
  by (cases e) (simp_all add: request_intercept_def resolve_intercept_def close_intercepts_def Let_def split: option.split)

lemma made_counts: "made (after es) = length (filter is_request es)"
  by (induction es rule: rev_induct) (simp_all add: made_step, simp add: no_intercepts_def)

text \<open>The request that made promise \<open>p\<close>: the next one after \<open>es1\<close>, taken up because there was room, not aborted,
  and shown to the browser with its id and token.\<close>

definition opens :: "'m intercept_event list \<Rightarrow> string \<Rightarrow> string \<Rightarrow> nat \<Rightarrow> bool" where
  "opens es1 i token p \<longleftrightarrow> length (filter is_request es1) = p \<and> length (waiting (after es1)) < MAX_PENDING_INTERCEPTS
     \<and> shown (after (es1 @ [Requests i token False])) = shown (after es1) @ [(i, token)]"

definition accounted :: "'m intercept_event list \<Rightarrow> bool" where
  "accounted es \<longleftrightarrow>
     (\<forall>i t p. (i, t, p) \<in> set (waiting (after es)) \<longrightarrow> (\<exists>es1 es2. es = es1 @ Requests i t False # es2 \<and> opens es1 i t p))
     \<and> (\<forall>p ms. (p, Answered ms) \<in> set (outcomes (after es)) \<longrightarrow>
          (\<exists>es1 i t es2 es3. es = es1 @ Requests i t False # es2 @ Answers i t ms # es3 \<and> opens es1 i t p))"

lemma accounted_waiting:
  "accounted es \<Longrightarrow> (i, t, p) \<in> set (waiting (after es)) \<Longrightarrow> \<exists>es1 es2. es = es1 @ Requests i t False # es2 \<and> opens es1 i t p"
  unfolding accounted_def by simp

lemma accounted_answer:
  "accounted es \<Longrightarrow> (p, Answered ms) \<in> set (outcomes (after es)) \<Longrightarrow>
    \<exists>es1 i t es2 es3. es = es1 @ Requests i t False # es2 @ Answers i t ms # es3 \<and> opens es1 i t p"
  unfolding accounted_def by simp

lemma reject_members:
  assumes "\<forall>ms. why \<noteq> Answered ms"
  shows "x \<in> set (waiting (reject_intercept i why s)) \<Longrightarrow> x \<in> set (waiting s)"
    and "(p, Answered ms) \<in> set (outcomes (reject_intercept i why s)) \<Longrightarrow> (p, Answered ms) \<in> set (outcomes s)"
  using assms by (auto simp: reject_intercept_def jm_delete_def split: option.splits)

text \<open>What one event adds to the promises that wait, and to those that are answered.\<close>

lemma step_waiting:
  assumes "(i, t, p) \<in> set (waiting (intercept_step e s))"
  shows "(i, t, p) \<in> set (waiting s)
    \<or> e = Requests i t False \<and> p = made s \<and> length (waiting s) < MAX_PENDING_INTERCEPTS"
proof (cases e)
  case (Requests j token aborted)
  show ?thesis
  proof (cases "MAX_PENDING_INTERCEPTS \<le> length (waiting s)")
    case True
    with assms Requests show ?thesis by (simp add: request_intercept_def)
  next
    case False
    with assms Requests show ?thesis
      by (cases aborted) (auto simp: request_intercept_def reject_intercept_def Let_def jm_delete_def dest!: in_set_jm_setD)
  qed
qed (use assms in \<open>auto simp: resolve_intercept_def close_intercepts_def jm_delete_def
    dest!: reject_members(1) [rotated] split: option.splits if_splits\<close>)

lemma step_answers:
  assumes "(p, Answered ms) \<in> set (outcomes (intercept_step e s))"
  shows "(p, Answered ms) \<in> set (outcomes s) \<or> (\<exists>i t. e = Answers i t ms \<and> (i, t, p) \<in> set (waiting s))"
proof (cases e)
  case (Requests j token aborted)
  with assms show ?thesis
    by (auto simp: request_intercept_def Let_def dest!: reject_members(2) [rotated] split: if_splits)
qed (use assms in \<open>auto simp: resolve_intercept_def close_intercepts_def jm_get_in_set
    dest!: reject_members(2) [rotated] split: option.splits if_splits\<close>)

lemma accounted_run: "accounted es"
proof (induction es rule: rev_induct)
  case Nil
  then show ?case by (simp add: accounted_def no_intercepts_def)
next
  case (snoc e es)
  have step: "after (es @ [e]) = intercept_step e (after es)" by (simp add: run_events_append)
  have waiting: "\<exists>es1 es2. es @ [e] = es1 @ Requests i t False # es2 \<and> opens es1 i t p"
    if "(i, t, p) \<in> set (waiting (after (es @ [e])))" for i t p
    using step_waiting [OF that [unfolded step]]
  proof
    assume "(i, t, p) \<in> set (waiting (after es))"
    then obtain es1 es2 where "es = es1 @ Requests i t False # es2" "opens es1 i t p"
      using accounted_waiting [OF snoc] by blast
    then show ?thesis by (intro exI [of _ es1] exI [of _ "es2 @ [e]"]) simp
  next
    assume new: "e = Requests i t False \<and> p = made (after es) \<and> length (waiting (after es)) < MAX_PENDING_INTERCEPTS"
    then have "opens es i t p"
      unfolding opens_def by (simp add: made_counts run_events_append request_intercept_def Let_def)
    then show ?thesis using new by (intro exI [of _ es] exI [of _ "[]"]) simp
  qed
  have answered: "\<exists>es1 i t es2 es3. es @ [e] = es1 @ Requests i t False # es2 @ Answers i t ms # es3 \<and> opens es1 i t p"
    if "(p, Answered ms) \<in> set (outcomes (after (es @ [e])))" for p ms
    using step_answers [OF that [unfolded step]]
  proof (elim disjE exE conjE)
    assume "(p, Answered ms) \<in> set (outcomes (after es))"
    then obtain es1 i t es2 es3 where "es = es1 @ Requests i t False # es2 @ Answers i t ms # es3" "opens es1 i t p"
      using accounted_answer [OF snoc] by blast
    then show ?thesis by (intro exI [of _ es1] exI [of _ i] exI [of _ t] exI [of _ es2] exI [of _ "es3 @ [e]"]) simp
  next
    fix i t assume e: "e = Answers i t ms" and "(i, t, p) \<in> set (waiting (after es))"
    then obtain es1 es2 where "es = es1 @ Requests i t False # es2" "opens es1 i t p"
      using accounted_waiting [OF snoc] by blast
    then show ?thesis using e by (intro exI [of _ es1] exI [of _ i] exI [of _ t] exI [of _ es2] exI [of _ "[]"]) simp
  qed
  show ?case unfolding accounted_def using waiting answered by simp
qed

text \<open>C34: an interception is answered only by whoever was shown its own request: if promise \<open>p\<close> is resolved with some
  messages, then the request that made it, the one with number \<open>p\<close>, found room and was shown to the browser
  with its id and token, and after it these messages were sent under exactly that id and that token. A request refused for
  lack of room, or aborted from the start, is never answered, and no answer resolves the promise of another
  request.\<close>

theorem answers_authenticated:
  assumes "(p, Answered ms) \<in> set (outcomes (after es))"
  shows "\<exists>es1 i token es2 es3. es = es1 @ Requests i token False # es2 @ Answers i token ms # es3
    \<and> length (filter is_request es1) = p \<and> length (waiting (after es1)) < MAX_PENDING_INTERCEPTS
    \<and> shown (after (es1 @ [Requests i token False])) = shown (after es1) @ [(i, token)]"
  using accounted_answer [OF accounted_run assms] unfolding opens_def by blast

lemma answers_authenticated_witness:
  "\<exists>es1 i token es2 es3. [Requests ''a'' ''x'' False, Answers ''a'' ''y'' (0::nat), Answers ''a'' ''x'' 1]
      = es1 @ Requests i token False # es2 @ Answers i token 1 # es3 \<and> length (filter is_request es1) = 0"
proof -
  have "(0, Answered 1) \<in> set (outcomes (after [Requests ''a'' ''x'' False, Answers ''a'' ''y'' (0::nat), Answers ''a'' ''x'' 1]))"
    by (simp add: no_intercepts_def request_intercept_def resolve_intercept_def MAX_PENDING_INTERCEPTS_def)
  from answers_authenticated [OF this] show ?thesis by blast
qed

end
