(* ===== verification/Response_Streams.thy ===== *)
theory Response_Streams
  imports Prelude "HOL-Library.Word"
begin

text \<open>
  Large responses to a plugin's broker call: the host cuts the encoded body into chunks paced by credit
  (\<open>apps/plugin-runtime/src/host/responseStreamer.ts\<close>), and the worker that made the call puts them together,
  grants credit for each chunk and settles the call (\<open>handleRpcResponseStream\<close>, \<open>invokeBrokerCall\<close> and
  \<open>handleRpcResponse\<close> in \<open>apps/plugin-runtime/worker-bootstrap.mjs\<close>). \<open>JSON.stringify\<close> of a header and
  \<open>JSON.parse\<close> of a header and of a body are arguments.
\<close>

section \<open>The host's streams\<close>

type_synonym octets = "8 word list"

record frame_header =
  fh_requestId :: string
  fh_seq :: nat
  fh_final :: bool

record stream_frame =
  fr_workerId :: nat
  fr_workerEpoch :: nat
  fr_header :: frame_header
  fr_chunk :: octets
  fr_payload :: octets

record stream_state =
  ss_workerId :: nat
  ss_workerEpoch :: nat
  ss_body :: octets
  ss_offset :: nat
  ss_credit :: nat
  ss_seq :: nat

record streamer =
  chunkBytes :: nat
  initialCreditBytes :: nat
  maxConcurrent :: nat
  maxAccumulatedBytes :: nat
  streams :: "(string, stream_state) jmap"

definition RPC_STREAM_CHUNK_BYTES :: nat where
  "RPC_STREAM_CHUNK_BYTES = 256 * 1024"

definition RPC_STREAM_INITIAL_CREDIT_BYTES :: nat where
  "RPC_STREAM_INITIAL_CREDIT_BYTES = RPC_STREAM_CHUNK_BYTES"

definition RPC_STREAM_MAX_CONCURRENT :: nat where
  "RPC_STREAM_MAX_CONCURRENT = 16"

definition RPC_STREAM_MAX_ACCUMULATED_BYTES :: nat where
  "RPC_STREAM_MAX_ACCUMULATED_BYTES = 16 * 1024 * 1024"

record streamer_options =
  opt_chunkBytes :: "nat option"
  opt_initialCreditBytes :: "nat option"
  opt_maxConcurrent :: "nat option"
  opt_maxAccumulatedBytes :: "nat option"

definition new_streamer :: "streamer_options \<Rightarrow> streamer" where
  "new_streamer opts = \<lparr>
     chunkBytes = (case opt_chunkBytes opts of Some n \<Rightarrow> n | None \<Rightarrow> RPC_STREAM_CHUNK_BYTES),
     initialCreditBytes = (case opt_initialCreditBytes opts of Some n \<Rightarrow> n
       | None \<Rightarrow> (case opt_chunkBytes opts of Some n \<Rightarrow> n | None \<Rightarrow> RPC_STREAM_INITIAL_CREDIT_BYTES)),
     maxConcurrent = (case opt_maxConcurrent opts of Some n \<Rightarrow> n | None \<Rightarrow> RPC_STREAM_MAX_CONCURRENT),
     maxAccumulatedBytes = (case opt_maxAccumulatedBytes opts of Some n \<Rightarrow> n | None \<Rightarrow> RPC_STREAM_MAX_ACCUMULATED_BYTES),
     streams = []\<rparr>"

text \<open>Header, a zero byte, and the chunk.\<close>

definition encodeResponseStreamPayload :: "(frame_header \<Rightarrow> octets) \<Rightarrow> frame_header \<Rightarrow> octets \<Rightarrow> octets" where
  "encodeResponseStreamPayload stringify header chunk = stringify header @ 0 # chunk"

definition pumpOne :: "(frame_header \<Rightarrow> octets) \<Rightarrow> string \<Rightarrow> streamer \<Rightarrow> stream_frame option \<times> streamer" where
  "pumpOne stringify i s = (case jm_get (streams s) i of
       None \<Rightarrow> (None, s)
     | Some st \<Rightarrow>
         if length (ss_body st) \<le> ss_offset st then (None, s\<lparr>streams := jm_delete i (streams s)\<rparr>)
         else if ss_credit st < chunkBytes s then (None, s)
         else (let stop = min (ss_offset st + chunkBytes s) (length (ss_body st));
                   chunk = take (stop - ss_offset st) (drop (ss_offset st) (ss_body st));
                   final = (stop = length (ss_body st));
                   header = \<lparr>fh_requestId = i, fh_seq = ss_seq st, fh_final = final\<rparr>;
                   st' = st\<lparr>ss_offset := stop, ss_credit := ss_credit st - length chunk, ss_seq := Suc (ss_seq st)\<rparr>
               in (Some \<lparr>fr_workerId = ss_workerId st, fr_workerEpoch = ss_workerEpoch st, fr_header = header,
                         fr_chunk = chunk, fr_payload = encodeResponseStreamPayload stringify header chunk\<rparr>,
                   s\<lparr>streams := (if final then jm_delete i (streams s) else jm_set i st' (streams s))\<rparr>)))"

datatype begin_result = Framed stream_frame | BeginError string

definition begin_stream ::
  "(frame_header \<Rightarrow> octets) \<Rightarrow> nat \<Rightarrow> nat \<Rightarrow> string \<Rightarrow> octets \<Rightarrow> streamer \<Rightarrow> begin_result \<times> streamer" where
  "begin_stream stringify worker epoch i body s =
     (if maxAccumulatedBytes s < length body then (BeginError ''RESPONSE_STREAM_TOO_LARGE'', s)
      else if jm_has (streams s) i then (BeginError ''RESPONSE_STREAM_DUPLICATE'', s)
      else if maxConcurrent s \<le> length (streams s) then (BeginError ''RESPONSE_STREAM_LIMIT'', s)
      else (let s1 = s\<lparr>streams := jm_set i \<lparr>ss_workerId = worker, ss_workerEpoch = epoch, ss_body = body, ss_offset = 0,
                        ss_credit = initialCreditBytes s, ss_seq = 0\<rparr> (streams s)\<rparr>
            in case pumpOne stringify i s1 of
                 (Some f, s2) \<Rightarrow> (Framed f, s2)
               | (None, s2) \<Rightarrow> (BeginError ''RESPONSE_STREAM_EMPTY'', s2\<lparr>streams := jm_delete i (streams s2)\<rparr>)))"

definition grant_credit ::
  "(frame_header \<Rightarrow> octets) \<Rightarrow> nat \<Rightarrow> nat \<Rightarrow> string \<Rightarrow> int \<Rightarrow> streamer \<Rightarrow> stream_frame option \<times> streamer" where
  "grant_credit stringify worker epoch i n s =
     (if n < 1 \<or> int (chunkBytes s) < n then (None, s)
      else (case jm_get (streams s) i of
              None \<Rightarrow> (None, s)
            | Some st \<Rightarrow>
                if ss_workerId st \<noteq> worker \<or> ss_workerEpoch st \<noteq> epoch then (None, s)
                else pumpOne stringify i (s\<lparr>streams := jm_set i (st\<lparr>ss_credit := ss_credit st + nat n\<rparr>) (streams s)\<rparr>)))"

definition isActive :: "string \<Rightarrow> streamer \<Rightarrow> bool" where
  "isActive i s = jm_has (streams s) i"

definition activeCount :: "streamer \<Rightarrow> nat" where
  "activeCount s = length (streams s)"

section \<open>The worker\<close>

datatype 'r call_end = Resolved 'r | RejectedWith string string

text \<open>The pending calls by request id; the chunks of a stream with their length and the last sequence number.\<close>

record 'r caller =
  wk_id :: nat
  wk_epoch :: nat
  pendingCalls :: "string list"
  rpcResponseStreams :: "(string, octets list \<times> nat \<times> nat) jmap"
  ended :: "(string \<times> 'r call_end) list"

text \<open>The \<open>resolve\<close>, \<open>reject\<close> and \<open>onAbort\<close> of a pending call.\<close>

definition end_call :: "string \<Rightarrow> 'r call_end \<Rightarrow> 'r caller \<Rightarrow> 'r caller" where
  "end_call i how w = (if i \<in> set (pendingCalls w)
     then w\<lparr>pendingCalls := removeAll i (pendingCalls w), ended := ended w @ [(i, how)]\<rparr> else w)"

definition abort_broker_call :: "string \<Rightarrow> 'r caller \<Rightarrow> 'r caller" where
  "abort_broker_call i w = end_call i (RejectedWith ''CAPABILITY_REVOKED'' ''call aborted by caller'') w"

text \<open>A decoded response: its request id and how the call ends.\<close>

definition handleRpcResponse :: "string \<times> 'r call_end \<Rightarrow> 'r caller \<Rightarrow> 'r caller" where
  "handleRpcResponse m w = end_call (fst m) (snd m) w"

definition rejectResponseStream :: "string \<Rightarrow> string \<Rightarrow> 'r caller \<Rightarrow> 'r caller" where
  "rejectResponseStream i msg w =
     end_call i (RejectedWith ''VALIDATION_FAILED'' msg) (w\<lparr>rpcResponseStreams := jm_delete i (rpcResponseStreams w)\<rparr>)"

text \<open>One chunk of a pending call, and the credit granted for it.\<close>

definition accept_chunk ::
  "(octets \<Rightarrow> (string \<times> 'r call_end) option) \<Rightarrow> frame_header \<Rightarrow> octets \<Rightarrow> octets list \<Rightarrow> nat \<Rightarrow> 'r caller \<Rightarrow> 'r caller \<times> nat option" where
  "accept_chunk parse_body h chunk chunks len w =
     (let i = fh_requestId h
      in if fh_final h then
           (let w1 = w\<lparr>rpcResponseStreams := jm_delete i (rpcResponseStreams w)\<rparr>
            in (case parse_body (concat (chunks @ [chunk])) of None \<Rightarrow> w1 | Some m \<Rightarrow> handleRpcResponse m w1, None))
         else (w\<lparr>rpcResponseStreams := jm_set i (chunks @ [chunk], len + length chunk, fh_seq h) (rpcResponseStreams w)\<rparr>,
               Some (length chunk)))"

definition handleRpcResponseStream ::
  "(octets \<Rightarrow> frame_header option) \<Rightarrow> (octets \<Rightarrow> (string \<times> 'r call_end) option) \<Rightarrow> octets \<Rightarrow> 'r caller \<Rightarrow> 'r caller \<times> nat option" where
  "handleRpcResponseStream parse_header parse_body payload w =
     (if 0 \<notin> set payload \<or> hd payload = 0 then (w, None)
      else (case parse_header (takeWhile (\<lambda>b. b \<noteq> 0) payload) of
              None \<Rightarrow> (w, None)
            | Some h \<Rightarrow>
                (let i = fh_requestId h; chunk = tl (dropWhile (\<lambda>b. b \<noteq> 0) payload)
                 in if i \<notin> set (pendingCalls w) then (w, None)
                    else (case jm_get (rpcResponseStreams w) i of
                            None \<Rightarrow>
                              if fh_seq h \<noteq> 0 then (rejectResponseStream i ''response stream does not start at seq 0'' w, None)
                              else if RPC_STREAM_MAX_ACCUMULATED_BYTES < length chunk
                              then (rejectResponseStream i ''response stream chunk exceeds the accumulated cap'' w, None)
                              else accept_chunk parse_body h chunk [] 0 w
                          | Some (chunks, len, seq) \<Rightarrow>
                              if fh_seq h \<noteq> Suc seq then (rejectResponseStream i ''response stream sequence gap'' w, None)
                              else if RPC_STREAM_MAX_ACCUMULATED_BYTES < len + length chunk
                              then (rejectResponseStream i ''response stream exceeded the accumulated cap'' w, None)
                              else accept_chunk parse_body h chunk chunks len w))))"

text \<open>Frames to the worker and grants to the host, until one of them has nothing to send.\<close>

fun exchange ::
  "(frame_header \<Rightarrow> octets) \<Rightarrow> (octets \<Rightarrow> frame_header option) \<Rightarrow> (octets \<Rightarrow> (string \<times> 'r call_end) option) \<Rightarrow> nat
    \<Rightarrow> stream_frame option \<Rightarrow> streamer \<Rightarrow> 'r caller \<Rightarrow> streamer \<times> 'r caller" where
  "exchange stringify parse_header parse_body n None s w = (s, w)"
| "exchange stringify parse_header parse_body 0 (Some f) s w = (s, w)"
| "exchange stringify parse_header parse_body (Suc n) (Some f) s w =
     (case handleRpcResponseStream parse_header parse_body (fr_payload f) w of
        (w', None) \<Rightarrow> (s, w')
      | (w', Some b) \<Rightarrow>
          (let (f', s') = grant_credit stringify (wk_id w') (wk_epoch w') (fh_requestId (fr_header f)) (int b) s
           in exchange stringify parse_header parse_body n f' s' w'))"

section \<open>The whole body arrives\<close>

text \<open>The contract of the two JSON functions on the headers of a request: a non-empty text without a zero byte, read back as it was.\<close>

definition headers_readable :: "string \<Rightarrow> (frame_header \<Rightarrow> octets) \<Rightarrow> (octets \<Rightarrow> frame_header option) \<Rightarrow> bool" where
  "headers_readable i stringify parse_header \<longleftrightarrow>
     (\<forall>h. fh_requestId h = i \<longrightarrow> stringify h \<noteq> [] \<and> 0 \<notin> set (stringify h) \<and> parse_header (stringify h) = Some h)"

lemma payload_read:
  assumes "headers_readable i stringify parse_header" and "fh_requestId h = i"
  shows "handleRpcResponseStream parse_header parse_body (encodeResponseStreamPayload stringify h chunk) w =
    (if i \<notin> set (pendingCalls w) then (w, None)
        else (case jm_get (rpcResponseStreams w) i of
                None \<Rightarrow>
                  if fh_seq h \<noteq> 0 then (rejectResponseStream i ''response stream does not start at seq 0'' w, None)
                  else if RPC_STREAM_MAX_ACCUMULATED_BYTES < length chunk
                  then (rejectResponseStream i ''response stream chunk exceeds the accumulated cap'' w, None)
                  else accept_chunk parse_body h chunk [] 0 w
              | Some (chunks, len, seq) \<Rightarrow>
                  if fh_seq h \<noteq> Suc seq then (rejectResponseStream i ''response stream sequence gap'' w, None)
                  else if RPC_STREAM_MAX_ACCUMULATED_BYTES < len + length chunk
                  then (rejectResponseStream i ''response stream exceeded the accumulated cap'' w, None)
                  else accept_chunk parse_body h chunk chunks len w))"
proof -
  have h: "stringify h \<noteq> []" "0 \<notin> set (stringify h)" "parse_header (stringify h) = Some h"
    using assms by (simp_all add: headers_readable_def)
  then have "hd (stringify h) \<noteq> 0" by (metis hd_in_set)
  moreover have "takeWhile (\<lambda>b. b \<noteq> 0) (stringify h @ 0 # chunk) = stringify h"
    using h(2) by (subst takeWhile_append2) auto
  moreover have "dropWhile (\<lambda>b. b \<noteq> 0) (stringify h @ 0 # chunk) = 0 # chunk"
    using h(2) by (subst dropWhile_append2) auto
  ultimately show ?thesis
    using h assms(2) by (simp add: handleRpcResponseStream_def encodeResponseStreamPayload_def Let_def)
qed

text \<open>What the host and the worker hold of a stream after \<open>o\<close> bytes in \<open>q\<close> chunks.\<close>

definition host_at :: "nat \<Rightarrow> nat \<Rightarrow> string \<Rightarrow> octets \<Rightarrow> nat \<Rightarrow> nat \<Rightarrow> nat \<Rightarrow> streamer \<Rightarrow> bool" where
  "host_at wid ep i body sent q credit s \<longleftrightarrow> jm_get (streams s) i = Some
     \<lparr>ss_workerId = wid, ss_workerEpoch = ep, ss_body = body, ss_offset = sent, ss_credit = credit, ss_seq = q\<rparr>"

definition worker_at :: "string \<Rightarrow> octets \<Rightarrow> nat \<Rightarrow> nat \<Rightarrow> 'r caller \<Rightarrow> bool" where
  "worker_at i body got q w \<longleftrightarrow> i \<in> set (pendingCalls w)
     \<and> (if q = 0 then got = 0 \<and> jm_get (rpcResponseStreams w) i = None
        else \<exists>chunks. jm_get (rpcResponseStreams w) i = Some (chunks, got, q - 1) \<and> concat chunks = take got body)"

lemma jm_delete_after_set [simp]: "jm_delete k (jm_set k v m) = jm_delete k m"
  by (induction k v m rule: jm_set.induct) (auto simp: jm_delete_def)

lemma jm_delete_twice [simp]: "jm_delete k (jm_delete k m) = jm_delete k m"
  by (simp add: jm_delete_def)

text \<open>The pump: the next chunk, and the state behind it.\<close>

definition chunk_frame :: "(frame_header \<Rightarrow> octets) \<Rightarrow> nat \<Rightarrow> nat \<Rightarrow> nat \<Rightarrow> string \<Rightarrow> octets \<Rightarrow> nat \<Rightarrow> nat \<Rightarrow> stream_frame" where
  "chunk_frame stringify wid ep window i body sent q =
     (let chunk = take window (drop sent body);
          header = \<lparr>fh_requestId = i, fh_seq = q, fh_final = (length body \<le> sent + window)\<rparr>
      in \<lparr>fr_workerId = wid, fr_workerEpoch = ep, fr_header = header, fr_chunk = chunk,
          fr_payload = encodeResponseStreamPayload stringify header chunk\<rparr>)"

lemma pump_chunk:
  assumes "host_at wid ep i body sent q credit s" and "sent < length body" and "chunkBytes s \<le> credit"
  shows "pumpOne stringify i s = (Some (chunk_frame stringify wid ep (chunkBytes s) i body sent q),
    s\<lparr>streams := (if length body \<le> sent + chunkBytes s then jm_delete i (streams s)
       else jm_set i \<lparr>ss_workerId = wid, ss_workerEpoch = ep, ss_body = body, ss_offset = sent + chunkBytes s,
              ss_credit = credit - chunkBytes s, ss_seq = Suc q\<rparr> (streams s))\<rparr>)"
proof -
  have "take (min (sent + chunkBytes s) (length body) - sent) (drop sent body) = take (chunkBytes s) (drop sent body)"
    by (auto simp: min_def)
  moreover have "min (sent + chunkBytes s) (length body) = length body \<longleftrightarrow> length body \<le> sent + chunkBytes s" by auto
  moreover have "\<not> length body \<le> sent + chunkBytes s \<Longrightarrow> min (length body - sent) (chunkBytes s) = chunkBytes s" by auto
  ultimately show ?thesis
    using assms by (simp add: pumpOne_def host_at_def chunk_frame_def Let_def)
qed

text \<open>The worker takes the chunk that comes next.\<close>

lemma worker_takes:
  assumes hr: "headers_readable i stringify parse_header" and at: "worker_at i body sent q w"
    and cap: "length body \<le> RPC_STREAM_MAX_ACCUMULATED_BYTES" and more: "sent < length body"
  obtains chunks where "concat chunks = take sent body"
    "handleRpcResponseStream parse_header parse_body (fr_payload (chunk_frame stringify wid ep c i body sent q)) w
      = accept_chunk parse_body \<lparr>fh_requestId = i, fh_seq = q, fh_final = (length body \<le> sent + c)\<rparr> (take c (drop sent body)) chunks sent w"
proof -
  have small: "sent + length (take c (drop sent body)) \<le> RPC_STREAM_MAX_ACCUMULATED_BYTES"
    using cap more by simp
  then have low: "\<not> RPC_STREAM_MAX_ACCUMULATED_BYTES < sent + min (length body - sent) c" by simp
  show ?thesis
  proof (cases q)
    case 0
    then have "i \<in> set (pendingCalls w)" "sent = 0" "jm_get (rpcResponseStreams w) i = None" using at by (simp_all add: worker_at_def)
    then show ?thesis using that [of "[]"] 0 low by (simp add: chunk_frame_def Let_def payload_read [OF hr] del: min_less_iff_conj)
  next
    case (Suc k)
    then obtain chunks where "i \<in> set (pendingCalls w)" "jm_get (rpcResponseStreams w) i = Some (chunks, sent, k)" "concat chunks = take sent body"
      using at by (auto simp: worker_at_def)
    then show ?thesis using that [of chunks] Suc low by (simp add: chunk_frame_def Let_def payload_read [OF hr])
  qed
qed

lemma grant_next:
  assumes host: "host_at wid ep i body sent q credit s" and c: "chunkBytes s = c" "0 < c" and more: "sent < length body"
  obtains s' where "grant_credit stringify wid ep i (int c) s = (Some (chunk_frame stringify wid ep c i body sent q), s')"
    "chunkBytes s' = c" "\<And>x. s'\<lparr>streams := x\<rparr> = s\<lparr>streams := x\<rparr>" "jm_delete i (streams s') = jm_delete i (streams s)"
    "if length body \<le> sent + c then jm_delete i (streams s') = streams s' else host_at wid ep i body (sent + c) (Suc q) credit s'"
proof -
  let ?s = "s\<lparr>streams := jm_set i \<lparr>ss_workerId = wid, ss_workerEpoch = ep, ss_body = body, ss_offset = sent,
      ss_credit = credit + c, ss_seq = q\<rparr> (streams s)\<rparr>"
  have "host_at wid ep i body sent q (credit + c) ?s" by (simp add: host_at_def)
  from pump_chunk [OF this more, of stringify] c
  have pump: "pumpOne stringify i ?s = (Some (chunk_frame stringify wid ep c i body sent q),
    ?s\<lparr>streams := (if length body \<le> sent + c then jm_delete i (streams ?s)
       else jm_set i \<lparr>ss_workerId = wid, ss_workerEpoch = ep, ss_body = body, ss_offset = sent + c,
              ss_credit = credit, ss_seq = Suc q\<rparr> (streams ?s))\<rparr>)" by simp
  have grant: "grant_credit stringify wid ep i (int c) s = pumpOne stringify i ?s"
    using host c by (simp add: grant_credit_def host_at_def)
  show ?thesis
    using grant unfolding pump
    by (rule that) (auto simp: c host_at_def)
qed

lemma exchange_rest:
  assumes hr: "headers_readable i stringify parse_header" and cap: "length body \<le> RPC_STREAM_MAX_ACCUMULATED_BYTES"
    and c: "0 < c" and body: "parse_body body = Some (i, how)"
  shows "chunkBytes s = c \<Longrightarrow> sent < length body \<Longrightarrow> length body - sent \<le> n \<Longrightarrow> worker_at i body sent q w
    \<Longrightarrow> (if length body \<le> sent + c then jm_delete i (streams s) = streams s
        else host_at (wk_id w) (wk_epoch w) i body (sent + c) (Suc q) credit s)
    \<Longrightarrow> exchange stringify parse_header parse_body n (Some (chunk_frame stringify (wk_id w) (wk_epoch w) c i body sent q)) s w
      = (s\<lparr>streams := jm_delete i (streams s)\<rparr>,
         w\<lparr>pendingCalls := removeAll i (pendingCalls w), rpcResponseStreams := jm_delete i (rpcResponseStreams w),
           ended := ended w @ [(i, how)]\<rparr>)"
proof (induction n arbitrary: sent q credit s w)
  case 0
  then show ?case by simp
next
  case (Suc n)
  let ?f = "chunk_frame stringify (wk_id w) (wk_epoch w) c i body sent q"
  have pending: "i \<in> set (pendingCalls w)" using Suc.prems(4) by (simp add: worker_at_def)
  obtain chunks where chunks: "concat chunks = take sent body"
    "handleRpcResponseStream parse_header parse_body (fr_payload ?f) w
      = accept_chunk parse_body \<lparr>fh_requestId = i, fh_seq = q, fh_final = (length body \<le> sent + c)\<rparr> (take c (drop sent body)) chunks sent w"
    by (rule worker_takes [OF hr Suc.prems(4) cap Suc.prems(2)])
  show ?case
  proof (cases "length body \<le> sent + c")
    case True
    then have "concat chunks @ take c (drop sent body) = body" using chunks(1) by (metis append_take_drop_id drop_all length_drop le_diff_conv
          add.commute take_all diff_le_mono)
    then show ?thesis
      using True chunks(2) Suc.prems(5) pending body by (cases w) (simp add: accept_chunk_def Let_def handleRpcResponse_def end_call_def)
  next
    case False
    let ?w = "w\<lparr>rpcResponseStreams := jm_set i (chunks @ [take c (drop sent body)], sent + c, q) (rpcResponseStreams w)\<rparr>"
    have taken: "handleRpcResponseStream parse_header parse_body (fr_payload ?f) w = (?w, Some c)"
      using False chunks(2) by (simp add: accept_chunk_def Let_def min_absorb2)
    have host: "host_at (wk_id w) (wk_epoch w) i body (sent + c) (Suc q) credit s" using Suc.prems(5) False by simp
    have "sent + c < length body" using False by simp
    from grant_next [OF host Suc.prems(1) c this, of stringify]
    obtain s' where s': "grant_credit stringify (wk_id w) (wk_epoch w) i (int c) s
        = (Some (chunk_frame stringify (wk_id w) (wk_epoch w) c i body (sent + c) (Suc q)), s')"
      "chunkBytes s' = c" "\<And>x. s'\<lparr>streams := x\<rparr> = s\<lparr>streams := x\<rparr>" "jm_delete i (streams s') = jm_delete i (streams s)"
      "if length body \<le> sent + c + c then jm_delete i (streams s') = streams s'
       else host_at (wk_id w) (wk_epoch w) i body (sent + c + c) (Suc (Suc q)) credit s'" by blast
    have "worker_at i body (sent + c) (Suc q) ?w"
      using pending chunks(1) by (simp add: worker_at_def take_add)
    moreover have "fh_requestId (fr_header ?f) = i" by (simp add: chunk_frame_def Let_def)
    ultimately show ?thesis
      using Suc.IH [of s' "sent + c" "Suc q" ?w credit] taken s' Suc.prems(2,3) c False
      by (cases "length body \<le> sent + c + c") simp_all
  qed
qed

text \<open>C19: a response that is streamed settles its call with exactly the body the host encoded, in order, within as
  many frames as it has bytes, and leaves nothing behind on either side.\<close>

theorem streamed_response_settles:
  assumes "headers_readable i stringify parse_header"
    and "0 < chunkBytes s" and "chunkBytes s \<le> initialCreditBytes s"
    and "body \<noteq> []" and "length body \<le> maxAccumulatedBytes s" and "length body \<le> RPC_STREAM_MAX_ACCUMULATED_BYTES"
    and "\<not> jm_has (streams s) i" and "length (streams s) < maxConcurrent s"
    and "i \<in> set (pendingCalls w)" and "\<not> jm_has (rpcResponseStreams w) i"
    and "parse_body body = Some (i, how)" and "length body \<le> n"
  shows "\<exists>f s1. begin_stream stringify (wk_id w) (wk_epoch w) i body s = (Framed f, s1)
    \<and> exchange stringify parse_header parse_body n (Some f) s1 w
      = (s, w\<lparr>pendingCalls := removeAll i (pendingCalls w), ended := ended w @ [(i, how)]\<rparr>)"
proof -
  let ?c = "chunkBytes s" and ?rest = "initialCreditBytes s - chunkBytes s"
  let ?s = "s\<lparr>streams := jm_set i \<lparr>ss_workerId = wk_id w, ss_workerEpoch = wk_epoch w, ss_body = body, ss_offset = 0,
      ss_credit = initialCreditBytes s, ss_seq = 0\<rparr> (streams s)\<rparr>"
  let ?f = "chunk_frame stringify (wk_id w) (wk_epoch w) ?c i body 0 0"
  define s1 where "s1 = ?s\<lparr>streams := (if length body \<le> ?c then jm_delete i (streams ?s)
       else jm_set i \<lparr>ss_workerId = wk_id w, ss_workerEpoch = wk_epoch w, ss_body = body, ss_offset = ?c,
              ss_credit = ?rest, ss_seq = Suc 0\<rparr> (streams ?s))\<rparr>"
  have absent: "i \<notin> set (jm_keys (streams s))" "i \<notin> set (jm_keys (rpcResponseStreams w))" using assms(7,10) by simp_all
  have "host_at (wk_id w) (wk_epoch w) i body 0 0 (initialCreditBytes s) ?s" by (simp add: host_at_def)
  from pump_chunk [OF this, of stringify] assms(3,4)
  have "pumpOne stringify i ?s = (Some ?f, s1)" by (simp add: s1_def)
  then have started: "begin_stream stringify (wk_id w) (wk_epoch w) i body s = (Framed ?f, s1)"
    using assms(5,7,8) by (simp add: begin_stream_def Let_def)
  have "worker_at i body 0 0 w" using assms(9) absent(2) by (simp add: worker_at_def jm_get_None_iff)
  moreover have "if length body \<le> 0 + ?c then jm_delete i (streams s1) = streams s1
      else host_at (wk_id w) (wk_epoch w) i body (0 + ?c) (Suc 0) ?rest s1"
    by (simp add: s1_def host_at_def)
  ultimately have "exchange stringify parse_header parse_body n (Some ?f) s1 w
      = (s1\<lparr>streams := jm_delete i (streams s1)\<rparr>,
         w\<lparr>pendingCalls := removeAll i (pendingCalls w), rpcResponseStreams := jm_delete i (rpcResponseStreams w),
           ended := ended w @ [(i, how)]\<rparr>)"
    using assms(2,4,12) by (intro exchange_rest [where parse_body = parse_body, OF assms(1,6,2,11)]) (simp_all add: s1_def)
  moreover have "s1\<lparr>streams := jm_delete i (streams s1)\<rparr> = s" using absent(1) by (simp add: s1_def)
  ultimately show ?thesis using started absent(2) by (intro exI [of _ ?f] exI [of _ s1]) simp
qed

definition demo_stringify :: "frame_header \<Rightarrow> octets" where
  "demo_stringify h = (if fh_final h then 2 else 1) # replicate (fh_seq h) 1"

definition demo_header :: "octets \<Rightarrow> frame_header option" where
  "demo_header bs = Some \<lparr>fh_requestId = ''r'', fh_seq = length bs - 1, fh_final = (hd bs = 2)\<rparr>"

definition demo_streamer :: streamer where
  "demo_streamer = new_streamer \<lparr>opt_chunkBytes = Some 2, opt_initialCreditBytes = None, opt_maxConcurrent = Some 1,
     opt_maxAccumulatedBytes = None\<rparr>"

definition demo_caller :: "nat caller" where
  "demo_caller = \<lparr>wk_id = 1, wk_epoch = 1, pendingCalls = [''r''], rpcResponseStreams = [], ended = []\<rparr>"

lemma demo_headers: "headers_readable ''r'' demo_stringify demo_header"
  by (auto simp: headers_readable_def demo_stringify_def demo_header_def)

lemma streamed_response_settles_witness:
  "\<exists>f s1. begin_stream demo_stringify (wk_id demo_caller) (wk_epoch demo_caller) ''r'' [7, 0, 8, 9, 7] demo_streamer = (Framed f, s1)
    \<and> exchange demo_stringify demo_header (\<lambda>b. Some (''r'', Resolved (length b))) 5 (Some f) s1 demo_caller
      = (demo_streamer, demo_caller\<lparr>pendingCalls := removeAll ''r'' (pendingCalls demo_caller),
           ended := ended demo_caller @ [(''r'', Resolved 5)]\<rparr>)"
  by (rule streamed_response_settles [OF demo_headers])
    (simp_all add: demo_streamer_def demo_caller_def new_streamer_def RPC_STREAM_MAX_ACCUMULATED_BYTES_def)

text \<open>The caller that aborts a call stops granting credit for it: the frame that arrives is dropped without a
  word to the host, and the stream stays in the host's registry.\<close>

theorem aborted_stream_stays:
  assumes "headers_readable i stringify parse_header" and "0 < chunkBytes s" and "chunkBytes s \<le> initialCreditBytes s"
    and "chunkBytes s < length body" and "length body \<le> maxAccumulatedBytes s"
    and "\<not> jm_has (streams s) i" and "length (streams s) < maxConcurrent s"
  shows "\<exists>f s1. begin_stream stringify (wk_id w) (wk_epoch w) i body s = (Framed f, s1)
    \<and> exchange stringify parse_header parse_body n (Some f) s1 (abort_broker_call i w) = (s1, abort_broker_call i w)
    \<and> activeCount s1 = Suc (activeCount s)"
proof -
  let ?s = "s\<lparr>streams := jm_set i \<lparr>ss_workerId = wk_id w, ss_workerEpoch = wk_epoch w, ss_body = body, ss_offset = 0,
      ss_credit = initialCreditBytes s, ss_seq = 0\<rparr> (streams s)\<rparr>"
  let ?f = "chunk_frame stringify (wk_id w) (wk_epoch w) (chunkBytes s) i body 0 0"
  have "host_at (wk_id w) (wk_epoch w) i body 0 0 (initialCreditBytes s) ?s" by (simp add: host_at_def)
  moreover have "0 < length body" using assms(4) by linarith
  ultimately obtain s1 where s1: "pumpOne stringify i ?s = (Some ?f, s1)" "length (streams s1) = length (streams ?s)"
    using pump_chunk [of "wk_id w" "wk_epoch w" i body 0 0 "initialCreditBytes s" ?s stringify] assms(3,4) by (simp add: jm_length_set jm_set_twice)
  have "begin_stream stringify (wk_id w) (wk_epoch w) i body s = (Framed ?f, s1)"
    using assms(5,6,7) s1(1) by (simp add: begin_stream_def Let_def)
  moreover have "i \<notin> set (pendingCalls (abort_broker_call i w))" by (simp add: abort_broker_call_def end_call_def)
  then have "exchange stringify parse_header parse_body n (Some ?f) s1 (abort_broker_call i w) = (s1, abort_broker_call i w)"
    by (cases n) (simp_all add: chunk_frame_def Let_def payload_read [OF assms(1)])
  moreover have "activeCount s1 = Suc (activeCount s)" using s1(2) assms(6) by (simp add: activeCount_def jm_set_absent)
  ultimately show ?thesis by blast
qed

lemma aborted_stream_stays_witness:
  "\<exists>f s1. begin_stream demo_stringify (wk_id demo_caller) (wk_epoch demo_caller) ''r'' [7, 0, 8] demo_streamer = (Framed f, s1)
    \<and> exchange demo_stringify demo_header (\<lambda>b. Some (''r'', Resolved (length b))) 9 (Some f) s1 (abort_broker_call ''r'' demo_caller)
      = (s1, abort_broker_call ''r'' demo_caller)
    \<and> activeCount s1 = Suc (activeCount demo_streamer)"
  by (rule aborted_stream_stays [OF demo_headers])
    (simp_all add: demo_streamer_def new_streamer_def RPC_STREAM_MAX_ACCUMULATED_BYTES_def)

text \<open>What reaches the host's streams, and the results of the responses that begin.\<close>

datatype stream_op = Begins nat nat string octets | Grants nat nat string int

fun stream_ops :: "(frame_header \<Rightarrow> octets) \<Rightarrow> stream_op list \<Rightarrow> streamer \<Rightarrow> begin_result list \<times> streamer" where
  "stream_ops stringify [] s = ([], s)"
| "stream_ops stringify (Begins w e i body # ops) s =
     (let (r, s1) = begin_stream stringify w e i body s; (rs, s2) = stream_ops stringify ops s1 in (r # rs, s2))"
| "stream_ops stringify (Grants w e i n # ops) s = stream_ops stringify ops (snd (grant_credit stringify w e i n s))"

definition refused_begin :: "begin_result \<Rightarrow> bool" where
  "refused_begin r \<longleftrightarrow> (case r of BeginError _ \<Rightarrow> True | Framed _ \<Rightarrow> False)"

lemma begin_full:
  assumes "maxConcurrent s \<le> activeCount s"
  shows "snd (begin_stream stringify w e i body s) = s \<and> refused_begin (fst (begin_stream stringify w e i body s))"
  using assms by (auto simp: begin_stream_def activeCount_def refused_begin_def)

text \<open>C37: once as many streams are abandoned as the host keeps, no large response of any worker is ever sent again:
  whatever begins and whatever other streams are granted, every response that would be streamed fails.\<close>

theorem abandoned_streams_exhaust:
  assumes "maxConcurrent s \<le> activeCount s"
    and "\<And>w e i n. Grants w e i n \<in> set ops \<Longrightarrow> \<not> isActive i s"
  shows "snd (stream_ops stringify ops s) = s \<and> list_all refused_begin (fst (stream_ops stringify ops s))"
  using assms(2)
proof (induction ops)
  case (Cons op ops)
  have "\<not> isActive i s" if "Grants w e i n \<in> set ops" for w e i n using Cons.prems that by (meson list.set_intros(2))
  then have rest: "snd (stream_ops stringify ops s) = s \<and> list_all refused_begin (fst (stream_ops stringify ops s))" by (rule Cons.IH)
  show ?case
  proof (cases op)
    case (Begins w e i body)
    then show ?thesis
      using rest begin_full [OF assms(1), of stringify w e i body] by (auto simp: split_beta)
  next
    case (Grants w e i n)
    then have "\<not> isActive i s" using Cons.prems [of w e i n] by simp
    then have "jm_get (streams s) i = None" by (simp add: isActive_def jm_get_None_iff)
    with Grants rest show ?thesis by (simp add: grant_credit_def)
  qed
qed simp

lemma abandoned_streams_exhaust_witness:
  "snd (stream_ops demo_stringify [Begins 2 1 ''x'' [1, 2, 3], Grants 2 1 ''x'' 2, Begins 3 1 ''y'' [1, 2, 3]]
      (snd (begin_stream demo_stringify 1 1 ''r'' [7, 0, 8] demo_streamer)))
    = snd (begin_stream demo_stringify 1 1 ''r'' [7, 0, 8] demo_streamer)
   \<and> list_all refused_begin (fst (stream_ops demo_stringify [Begins 2 1 ''x'' [1, 2, 3], Grants 2 1 ''x'' 2, Begins 3 1 ''y'' [1, 2, 3]]
      (snd (begin_stream demo_stringify 1 1 ''r'' [7, 0, 8] demo_streamer))))"
  by (rule abandoned_streams_exhaust)
    (auto simp: demo_streamer_def new_streamer_def begin_stream_def pumpOne_def Let_def activeCount_def isActive_def
      RPC_STREAM_MAX_ACCUMULATED_BYTES_def)

end
