(* ===== verification/Base64.thy ===== *)
theory Base64
  imports Prelude "HOL-Library.Word"
begin

text \<open>
  The encodings of Node's \<open>Buffer\<close> that the modelled code uses: bytes as \<open>latin1\<close> and \<open>ascii\<close> text, 32-bit
  integers with the high byte first, and base64. Decoding reads well-formed base64 only, which is what the
  callers have checked before.
\<close>

type_synonym octets = "8 word list"

section \<open>Text and integers\<close>

definition latin1_bytes :: "string \<Rightarrow> octets" where
  "latin1_bytes s = map (\<lambda>c. of_nat (of_char c)) s"

definition latin1_text :: "octets \<Rightarrow> string" where
  "latin1_text bs = map (\<lambda>b. char_of (unat b)) bs"

text \<open>Decoding \<open>ascii\<close> clears the highest bit.\<close>

definition ascii_text :: "octets \<Rightarrow> string" where
  "ascii_text bs = map (\<lambda>b. char_of (unat b mod 128)) bs"

definition readUInt32BE :: "octets \<Rightarrow> nat" where
  "readUInt32BE bs = foldl (\<lambda>n b. 256 * n + unat b) 0 (take 4 bs)"

definition writeUInt32BE :: "nat \<Rightarrow> octets" where
  "writeUInt32BE n = [of_nat (n div 16777216), of_nat (n div 65536), of_nat (n div 256), of_nat n]"

section \<open>Base64\<close>

definition B64 :: "char list" where
  "B64 = ''ABCDEFGHIJKLMNOPQRSTUVWXYZabcdefghijklmnopqrstuvwxyz0123456789+/''"

definition sextet_char :: "nat \<Rightarrow> char" where
  "sextet_char n = B64 ! (n mod 64)"

text \<open>The 24 bits of three bytes in four characters.\<close>

definition quartet :: "nat \<Rightarrow> string" where
  "quartet n = [sextet_char (n div 262144), sextet_char (n div 4096), sextet_char (n div 64), sextet_char n]"

fun b64_encode :: "octets \<Rightarrow> string" where
  "b64_encode [] = []"
| "b64_encode [a] = take 2 (quartet (unat a * 65536)) @ ''==''"
| "b64_encode [a, b] = take 3 (quartet (unat a * 65536 + unat b * 256)) @ ''=''"
| "b64_encode (a # b # c # r) = quartet (unat a * 65536 + unat b * 256 + unat c) @ b64_encode r"

fun index_of :: "char \<Rightarrow> char list \<Rightarrow> nat" where
  "index_of c [] = 0"
| "index_of c (d # ds) = (if c = d then 0 else Suc (index_of c ds))"

definition sextet :: "char \<Rightarrow> nat" where
  "sextet c = index_of c B64"

fun b64_decode :: "string \<Rightarrow> octets" where
  "b64_decode (p # q # r # s # t) =
     (let n = sextet p * 262144 + sextet q * 4096 + (if r = CHR ''='' then 0 else sextet r * 64) + (if s = CHR ''='' then 0 else sextet s);
          bs = [of_nat (n div 65536), of_nat (n div 256), of_nat n]
      in (if r = CHR ''='' then take 1 bs else if s = CHR ''='' then take 2 bs else bs) @ b64_decode t)"
| "b64_decode _ = []"

section \<open>Round trips\<close>

lemma latin1_round [simp]: "latin1_text (latin1_bytes s) = s" "length (latin1_bytes s) = length s" "length (latin1_text bs) = length bs"
  by (induction s) (simp_all add: latin1_text_def latin1_bytes_def unat_of_nat)

lemma latin1_append: "latin1_text (a @ b) = latin1_text a @ latin1_text b" "latin1_bytes (s @ t) = latin1_bytes s @ latin1_bytes t"
  by (simp_all add: latin1_text_def latin1_bytes_def)

text \<open>A number is its digits in a base.\<close>

lemma three_digits: "b * (b * (b * (n div (b * b * b)) + n div (b * b) mod b) + n div b mod b) + n mod b = n" for n b :: nat
proof -
  have "n div (b * b * b) = n div b div b div b" "n div (b * b) = n div b div b" by (simp_all add: div_mult2_eq)
  then show ?thesis by (simp add: mult_div_mod_eq)
qed

lemma uint32_round: "n < 2 ^ 32 \<Longrightarrow> readUInt32BE (writeUInt32BE n @ r) = n"
  using three_digits [of 256 n] by (simp add: readUInt32BE_def writeUInt32BE_def unat_of_nat)

lemma length_writeUInt32BE [simp]: "length (writeUInt32BE n) = 4"
  by (simp add: writeUInt32BE_def)

lemma B64_distinct: "distinct B64" "length B64 = 64" "CHR ''='' \<notin> set B64"
  by code_simp+

lemma index_of_nth: "distinct ds \<Longrightarrow> n < length ds \<Longrightarrow> index_of (ds ! n) ds = n"
  by (induction ds arbitrary: n) (auto simp: nth_Cons split: nat.split)

lemma sextet_round [simp]: "sextet (sextet_char n) = n mod 64"
  by (simp add: sextet_def sextet_char_def index_of_nth B64_distinct)

lemma sextet_char_in [simp]: "sextet_char n \<in> set B64" "sextet_char n \<noteq> CHR ''=''"
proof -
  show "sextet_char n \<in> set B64" by (simp add: sextet_char_def B64_distinct)
  with B64_distinct(3) show "sextet_char n \<noteq> CHR ''=''" by metis
qed

lemma sextets: "(n div 262144 mod 64) * 262144 + (n div 4096 mod 64) * 4096 + (n div 64 mod 64) * 64 + n mod 64 = n"
  if "n < 16777216" for n :: nat
  using three_digits [of 64 n] that by simp

lemma byte_bound: "unat (a :: 8 word) < 256"
proof -
  have "unat a < 2 ^ LENGTH(8)" by (rule unsigned_less)
  then show ?thesis by simp
qed

text \<open>Three bytes as one number, and back.\<close>

definition three_byte_nat :: "8 word \<Rightarrow> 8 word \<Rightarrow> 8 word \<Rightarrow> nat" where
  "three_byte_nat a b c = unat a * 65536 + unat b * 256 + unat c"

lemma three_byte_nat_bound: "three_byte_nat a b c < 16777216"
  using byte_bound [of a] byte_bound [of b] byte_bound [of c] by (simp add: three_byte_nat_def)

lemma bytes_wrap: "x * 256 = (0 :: 8 word)" "x * 65536 = (0 :: 8 word)"
proof -
  have "(256 :: 8 word) = 0" "(65536 :: 8 word) = 0" by simp_all
  then show "x * 256 = 0" "x * 65536 = 0" by (metis mult_zero_right)+
qed

lemma three_byte_nat_bytes [simp]:
  "of_nat (three_byte_nat a b c div 65536) = a" "of_nat (three_byte_nat a b c div 256) = b" "of_nat (three_byte_nat a b c) = c"
proof -
  have "three_byte_nat a b c div 65536 = unat a"
    using byte_bound [of b] byte_bound [of c] by (simp add: three_byte_nat_def)
  then show "of_nat (three_byte_nat a b c div 65536) = a" by simp
  have "three_byte_nat a b c div 256 = unat a * 256 + unat b" using byte_bound [of c] by (simp add: three_byte_nat_def)
  then show "of_nat (three_byte_nat a b c div 256) = b" by (simp add: bytes_wrap)
  show "of_nat (three_byte_nat a b c) = c" by (simp add: three_byte_nat_def bytes_wrap)
qed

lemma three_byte_nat_low: "three_byte_nat a b 0 mod 64 = 0" "three_byte_nat a 0 0 mod 64 = 0" "three_byte_nat a 0 0 div 64 mod 64 = 0"
proof -
  have "three_byte_nat a b 0 = 64 * (unat a * 1024 + unat b * 4)" by (simp add: three_byte_nat_def)
  then show "three_byte_nat a b 0 mod 64 = 0" by (metis mod_mult_self1_is_0)
  have eq: "three_byte_nat a 0 0 = 64 * (64 * (unat a * 16))" by (simp add: three_byte_nat_def)
  then show "three_byte_nat a 0 0 mod 64 = 0" by (metis mod_mult_self1_is_0)
  have "three_byte_nat a 0 0 div 64 = 64 * (unat a * 16)" unfolding eq by simp
  then show "three_byte_nat a 0 0 div 64 mod 64 = 0" by (metis mod_mult_self1_is_0)
qed

lemma quartet_prefixes:
  "take 3 (quartet n) = [sextet_char (n div 262144), sextet_char (n div 4096), sextet_char (n div 64)]"
  "take 2 (quartet n) = [sextet_char (n div 262144), sextet_char (n div 4096)]"
  by (simp_all add: quartet_def)

lemma decode_four:
  assumes "sextet p * 262144 + sextet q * 4096 + sextet r * 64 + sextet s = n" and "r \<noteq> CHR ''=''" "s \<noteq> CHR ''=''"
  shows "b64_decode (p # q # r # s # t) = [of_nat (n div 65536), of_nat (n div 256), of_nat n] @ b64_decode t"
  using assms by (simp add: Let_def)

lemma decode_padded:
  assumes "sextet p * 262144 + sextet q * 4096 + sextet r * 64 = n" and "r \<noteq> CHR ''=''"
  shows "b64_decode [p, q, r, CHR ''=''] = [of_nat (n div 65536), of_nat (n div 256)]"
  using assms by (simp add: Let_def)

lemma decode_padded_twice:
  assumes "sextet p * 262144 + sextet q * 4096 = n"
  shows "b64_decode [p, q, CHR ''='', CHR ''=''] = [of_nat (n div 65536)]"
  using assms by (simp add: Let_def)

lemma decode_quartet:
  assumes "n < 16777216"
  shows "b64_decode (quartet n @ t) = [of_nat (n div 65536), of_nat (n div 256), of_nat n] @ b64_decode t"
proof -
  have "sextet (sextet_char (n div 262144)) * 262144 + sextet (sextet_char (n div 4096)) * 4096
      + sextet (sextet_char (n div 64)) * 64 + sextet (sextet_char n) = n"
    unfolding sextet_round by (rule sextets [OF assms])
  from decode_four [OF this sextet_char_in(2) sextet_char_in(2)] show ?thesis unfolding quartet_def append.simps .
qed

lemma decode_three:
  assumes "n < 16777216" and "n mod 64 = 0"
  shows "b64_decode (take 3 (quartet n) @ ''='') = [of_nat (n div 65536), of_nat (n div 256)]"
proof -
  have "sextet (sextet_char (n div 262144)) * 262144 + sextet (sextet_char (n div 4096)) * 4096
      + sextet (sextet_char (n div 64)) * 64 = n"
    unfolding sextet_round using sextets [OF assms(1)] assms(2) by (simp only: add_0_right)
  from decode_padded [OF this sextet_char_in(2)] show ?thesis unfolding quartet_prefixes append.simps .
qed

lemma decode_two:
  assumes "n < 16777216" and "n mod 64 = 0" and "n div 64 mod 64 = 0"
  shows "b64_decode (take 2 (quartet n) @ ''=='') = [of_nat (n div 65536)]"
proof -
  have "sextet (sextet_char (n div 262144)) * 262144 + sextet (sextet_char (n div 4096)) * 4096 = n"
    unfolding sextet_round using sextets [OF assms(1)] assms(2,3) by (simp only: add_0_right mult_0)
  from decode_padded_twice [OF this] show ?thesis unfolding quartet_prefixes append.simps .
qed

lemma b64_encode_cases:
  "b64_encode [a] = take 2 (quartet (three_byte_nat a 0 0)) @ ''==''"
  "b64_encode [a, b] = take 3 (quartet (three_byte_nat a b 0)) @ ''=''"
  "b64_encode (a # b # c # r) = quartet (three_byte_nat a b c) @ b64_encode r"
  by (simp_all add: three_byte_nat_def)

lemma b64_round [simp]: "b64_decode (b64_encode bs) = bs"
proof (induction bs rule: b64_encode.induct)
  case (2 a)
  show ?case unfolding b64_encode_cases
    by (simp only: decode_two [OF three_byte_nat_bound three_byte_nat_low(2,3)] three_byte_nat_bytes)
next
  case (3 a b)
  show ?case unfolding b64_encode_cases
    by (simp only: decode_three [OF three_byte_nat_bound three_byte_nat_low(1)] three_byte_nat_bytes)
next
  case (4 a b c r)
  then show ?case unfolding b64_encode_cases
    by (simp only: decode_quartet [OF three_byte_nat_bound] three_byte_nat_bytes append.simps)
qed simp

text \<open>The shape of encoded text: letters of the alphabet, then at most two equality signs, in groups of four.\<close>

definition b64_shape :: "string \<Rightarrow> bool" where
  "b64_shape s \<longleftrightarrow> dropWhile (\<lambda>c. c \<in> set B64) s \<in> {[], ''='', ''==''}"

lemma quartet_letters: "c \<in> set (quartet n) \<Longrightarrow> c \<in> set B64" "length (quartet n) = 4"
  by (auto simp: quartet_def)

lemma shape_letters: "\<forall>c \<in> set s. c \<in> set B64 \<Longrightarrow> b64_shape (s @ t) = b64_shape t"
  by (simp add: b64_shape_def)

lemma padding_shape: "b64_shape ''=''" "b64_shape ''==''" "b64_shape []"
  using B64_distinct(3) by (simp_all add: b64_shape_def)

lemma take_letters: "\<forall>c \<in> set (take k (quartet n)). c \<in> set B64" "\<forall>c \<in> set (quartet n). c \<in> set B64"
  using quartet_letters(1) by (auto dest: in_set_takeD)

lemma b64_encode_shape: "b64_shape (b64_encode bs)"
proof (induction bs rule: b64_encode.induct)
  case 1
  show ?case by (simp add: padding_shape)
next
  case (2 a)
  show ?case unfolding b64_encode_cases shape_letters [OF take_letters(1)] by (rule padding_shape)
next
  case (3 a b)
  show ?case unfolding b64_encode_cases shape_letters [OF take_letters(1)] by (rule padding_shape)
next
  case (4 a b c r)
  then show ?case unfolding b64_encode_cases shape_letters [OF take_letters(2)] .
qed

lemma b64_encode_length: "length (b64_encode bs) mod 4 = 0"
  by (induction bs rule: b64_encode.induct) (simp_all add: quartet_letters(2) del: take_eq_Nil)

lemma b64_encode_empty: "b64_encode bs = [] \<longleftrightarrow> bs = []"
  by (cases bs rule: b64_encode.cases) (simp_all add: quartet_def)

lemma b64_encode_chars: "set (b64_encode bs) \<subseteq> insert (CHR ''='') (set B64)"
proof (induction bs rule: b64_encode.induct)
  case (2 a)
  show ?case unfolding b64_encode_cases set_append using take_letters(1) by auto
next
  case (3 a b)
  show ?case unfolding b64_encode_cases set_append using take_letters(1) by auto
next
  case (4 a b c r)
  then show ?case unfolding b64_encode_cases set_append using take_letters(2) by auto
qed simp

end
