(* ===== verification/Character_Cards.thy ===== *)
theory Character_Cards
  imports Base64
begin

unbundle bit_operations_syntax

text \<open>
  Character cards (\<open>apps/server/src/lib/characterCards.ts\<close>): the card of a character as JSON, and as a text
  chunk inside a PNG image. \<open>JSON.parse\<close> of a decoded text and \<open>JSON.stringify\<close> are arguments. A thrown
  \<open>CHARACTER_CARD_INVALID\<close> is \<open>Inl\<close> of its reason. Objects keep the order of insertion; keys that
  look like array indices, which an engine lists first, are not moved.
\<close>

section \<open>Chunks\<close>

definition PNG_SIGNATURE :: octets where
  "PNG_SIGNATURE = [137, 80, 78, 71, 13, 10, 26, 10]"

definition crc_bit :: "32 word \<Rightarrow> 32 word" where
  "crc_bit crc = drop_bit 1 crc XOR (if crc AND 1 \<noteq> 0 then 0xedb88320 else 0)"

definition crc_byte :: "8 word \<Rightarrow> 32 word \<Rightarrow> 32 word" where
  "crc_byte b crc = (crc_bit ^^ 8) (crc XOR ucast b)"

definition crc32 :: "octets \<Rightarrow> 32 word" where
  "crc32 bs = fold crc_byte bs 0xffffffff XOR 0xffffffff"

definition pngChunk :: "string \<Rightarrow> octets \<Rightarrow> octets" where
  "pngChunk t d = writeUInt32BE (length d) @ latin1_bytes t @ d @ writeUInt32BE (unat (crc32 (latin1_bytes t @ d)))"

definition subarray :: "nat \<Rightarrow> nat \<Rightarrow> octets \<Rightarrow> octets" where
  "subarray a b bs = take (b - a) (drop a bs)"

text \<open>The card in a text chunk, when the chunk has the keyword \<open>chara\<close>.\<close>

definition chara_text :: "octets \<Rightarrow> (string + octets) option" where
  "chara_text d = (case find_index (\<lambda>b. b = 0) d of
       None \<Rightarrow> None
     | Some separator \<Rightarrow>
         if 0 < separator \<and> latin1_text (take separator d) = ''chara'' then
           (let encoded = trim (latin1_text (drop (Suc separator) d))
            in Some (if encoded = [] \<or> length encoded mod 4 \<noteq> 0 \<or> \<not> b64_shape encoded
                     then Inl ''INVALID_PNG_CARD_ENCODING'' else Inr (b64_decode encoded)))
         else None)"

function extract_from :: "octets \<Rightarrow> nat \<Rightarrow> string + octets" where
  "extract_from bytes offset =
     (if length bytes < offset + 12 then Inl ''PNG_CARD_METADATA_MISSING''
      else (let len = readUInt32BE (drop offset bytes); typeStart = offset + 4; dataStart = typeStart + 4;
                dataEnd = dataStart + len; chunkEnd = dataEnd + 4
            in if length bytes < chunkEnd then Inl ''TRUNCATED_PNG_CHUNK''
               else (let kind = ascii_text (subarray typeStart dataStart bytes)
                     in case (if kind = ''tEXt'' then chara_text (subarray dataStart dataEnd bytes) else None) of
                          Some r \<Rightarrow> r
                        | None \<Rightarrow> if kind = ''IEND'' then Inl ''PNG_CARD_METADATA_MISSING'' else extract_from bytes chunkEnd)))"
  by pat_completeness auto
termination by (relation "measure (\<lambda>(bytes, offset). Suc (length bytes) - offset)") auto

declare extract_from.simps [simp del]

definition extractPngCharacterJson :: "octets \<Rightarrow> string + octets" where
  "extractPngCharacterJson bytes =
     (if length bytes < length PNG_SIGNATURE \<or> subarray 0 8 bytes \<noteq> PNG_SIGNATURE then Inl ''INVALID_PNG_SIGNATURE''
      else extract_from bytes 8)"

function iend_from :: "octets \<Rightarrow> nat \<Rightarrow> nat option" where
  "iend_from png offset =
     (if length png < offset + 12 then None
      else (let stop = offset + readUInt32BE (drop offset png) + 12
            in if length png < stop then None
               else if latin1_text (subarray (offset + 4) (offset + 8) png) = ''IEND'' then Some offset
               else iend_from png stop))"
  by pat_completeness auto
termination by (relation "measure (\<lambda>(png, offset). Suc (length png) - offset)") auto

declare iend_from.simps [simp del]

section \<open>Cards\<close>

record character_card =
  cc_name :: string
  cc_description :: string
  cc_personality :: string
  cc_scenario :: string
  cc_firstMessage :: string
  cc_exampleDialogues :: string
  cc_systemPrompt :: "string option"
  cc_postHistoryInstructions :: "string option"
  cc_creator :: "string option"
  cc_creatorNotes :: "string option"
  cc_tags :: "string list"
  cc_ext :: "(string, json) jmap"

datatype card_kind = JsonFile | PngFile

record parsed_card =
  pc_character :: character_card
  pc_sourceFormat :: string
  pc_warnings :: "string list"

definition stringValue :: "(string, json) jmap \<Rightarrow> string \<Rightarrow> string" where
  "stringValue r k = (case jm_get r k of Some (JString s) \<Rightarrow> s | _ \<Rightarrow> [])"

definition nullableString :: "(string, json) jmap \<Rightarrow> string \<Rightarrow> string option" where
  "nullableString r k = (case jm_get r k of Some (JString s) \<Rightarrow> if s \<noteq> [] then Some s else None | _ \<Rightarrow> None)"

fun strings_of :: "json list \<Rightarrow> string list" where
  "strings_of [] = []"
| "strings_of (JString s # vs) = s # strings_of vs"
| "strings_of (_ # vs) = strings_of vs"

definition stringArray :: "(string, json) jmap \<Rightarrow> string \<Rightarrow> string list" where
  "stringArray r k = (case jm_get r k of Some (JArray vs) \<Rightarrow> strings_of vs | _ \<Rightarrow> [])"

definition unknownFields :: "(string, json) jmap \<Rightarrow> string list \<Rightarrow> (string, json) jmap" where
  "unknownFields r known = filter (\<lambda>(k, _). k \<notin> set known) r"

text \<open>\<open>{...a, ...b}\<close>.\<close>

definition spread :: "(string, json) jmap \<Rightarrow> (string, json) jmap \<Rightarrow> (string, json) jmap" where
  "spread a b = fold (\<lambda>(k, v). jm_set k v) b a"

definition V2_KNOWN :: "string list" where
  "V2_KNOWN = [''name'', ''description'', ''personality'', ''scenario'', ''first_mes'', ''mes_example'', ''creator_notes'',
     ''system_prompt'', ''post_history_instructions'', ''alternate_greetings'', ''tags'', ''creator'', ''character_version'',
     ''extensions'']"

definition V1_KNOWN :: "string list" where
  "V1_KNOWN = [''name'', ''description'', ''personality'', ''scenario'', ''first_mes'', ''mes_example'', ''creatorcomment'',
     ''avatar'', ''chat'', ''talkativeness'', ''fav'', ''tags'']"

text \<open>A field that is \<open>undefined\<close> is not written: the store serializes the object.\<close>

definition legacy_fields :: "(string, json) jmap \<Rightarrow> json" where
  "legacy_fields data = JObject ((''creatorComment'', JString (stringValue data ''creatorcomment''))
     # (case jm_get data ''talkativeness'' of Some v \<Rightarrow> [(''talkativeness'', v)] | None \<Rightarrow> [])
     @ (case jm_get data ''fav'' of Some v \<Rightarrow> [(''favorite'', v)] | None \<Rightarrow> []))"

definition structured_ext :: "(string, json) jmap \<Rightarrow> (string, json) jmap \<Rightarrow> (string, json) jmap" where
  "structured_ext base data =
     jm_set ''sourceRoot'' (JObject (unknownFields base [''spec'', ''spec_version'', ''data'']))
      (jm_set ''alternateGreetings'' (JArray (map JString (stringArray data ''alternate_greetings'')))
        (jm_set ''characterVersion'' (JString (stringValue data ''character_version''))
          (spread (unknownFields data V2_KNOWN)
            (case jm_get data ''extensions'' of Some (JObject fs) \<Rightarrow> fs | _ \<Rightarrow> []))))"

definition legacy_ext :: "(string, json) jmap \<Rightarrow> (string, json) jmap" where
  "legacy_ext data = jm_set ''legacy'' (legacy_fields data) (unknownFields data V1_KNOWN)"

text \<open>A card from the root object of its JSON.\<close>

definition card_of_root :: "(string, json) jmap \<Rightarrow> card_kind \<Rightarrow> string + parsed_card" where
  "card_of_root base kind =
     (let nested = (case jm_get base ''data'' of Some (JObject fs) \<Rightarrow> Some fs | _ \<Rightarrow> None);
          isV3 = (nested \<noteq> None \<and> (jm_get base ''spec'' = Some (JString ''chara_card_v3'')
                                      \<or> jm_get base ''spec_version'' = Some (JString ''3.0'')));
          isV2 = (nested \<noteq> None \<and> jm_get base ''spec'' = Some (JString ''chara_card_v2''));
          isStructured = (isV2 \<or> isV3);
          data = (if isStructured then the nested else base);
          name = trim (stringValue data ''name'')
      in if name = [] then Inl ''NAME_REQUIRED''
         else Inr \<lparr>pc_character = \<lparr>cc_name = name,
                     cc_description = stringValue data ''description'',
                     cc_personality = stringValue data ''personality'',
                     cc_scenario = stringValue data ''scenario'',
                     cc_firstMessage = stringValue data ''first_mes'',
                     cc_exampleDialogues = stringValue data ''mes_example'',
                     cc_systemPrompt = nullableString data ''system_prompt'',
                     cc_postHistoryInstructions = nullableString data ''post_history_instructions'',
                     cc_creator = nullableString data ''creator'',
                     cc_creatorNotes = nullableString data (if isStructured then ''creator_notes'' else ''creatorcomment''),
                     cc_tags = stringArray data ''tags'',
                     cc_ext = (if isStructured then structured_ext base data else legacy_ext data)\<rparr>,
                   pc_sourceFormat = (case kind of JsonFile \<Rightarrow> ''json'' | PngFile \<Rightarrow> ''png'')
                     @ (if isV3 then ''-v3'' else if isV2 then ''-v2'' else ''-v1''),
                   pc_warnings = (if isStructured then [] else [''LEGACY_CHARACTER_CARD_V1''])\<rparr>)"

definition parseJson :: "(octets \<Rightarrow> json option) \<Rightarrow> octets \<Rightarrow> string + (string, json) jmap" where
  "parseJson parse bytes = (case parse bytes of Some (JObject fs) \<Rightarrow> Inr fs | _ \<Rightarrow> Inl ''INVALID_JSON'')"

definition parseCharacterCard :: "(octets \<Rightarrow> json option) \<Rightarrow> octets \<Rightarrow> card_kind \<Rightarrow> string + parsed_card" where
  "parseCharacterCard parse sourceBytes kind =
     (case (case kind of PngFile \<Rightarrow> extractPngCharacterJson sourceBytes | JsonFile \<Rightarrow> Inr sourceBytes) of
        Inl e \<Rightarrow> Inl e
      | Inr bytes \<Rightarrow> (case parseJson parse bytes of Inl e \<Rightarrow> Inl e | Inr base \<Rightarrow> card_of_root base kind))"

section \<open>Export\<close>

definition exported_extensions :: "(string, json) jmap \<Rightarrow> (string, json) jmap" where
  "exported_extensions ext =
     filter (\<lambda>(k, _). k \<noteq> ''_st2'' \<and> k \<noteq> ''alternateGreetings'' \<and> k \<noteq> ''characterVersion'' \<and> k \<noteq> ''sourceRoot'' \<and> k \<noteq> ''legacy'') ext"

definition or_empty :: "string option \<Rightarrow> string" where
  "or_empty v = (case v of Some s \<Rightarrow> s | None \<Rightarrow> [])"

definition exported_data :: "character_card \<Rightarrow> (string, json) jmap" where
  "exported_data c =
     [(''name'', JString (cc_name c)),
      (''description'', JString (cc_description c)),
      (''personality'', JString (cc_personality c)),
      (''scenario'', JString (cc_scenario c)),
      (''first_mes'', JString (cc_firstMessage c)),
      (''mes_example'', JString (cc_exampleDialogues c)),
      (''creator_notes'', JString (or_empty (cc_creatorNotes c))),
      (''system_prompt'', JString (or_empty (cc_systemPrompt c))),
      (''post_history_instructions'', JString (or_empty (cc_postHistoryInstructions c))),
      (''alternate_greetings'', JArray (map JString (stringArray (cc_ext c) ''alternateGreetings''))),
      (''tags'', JArray (map JString (cc_tags c))),
      (''creator'', JString (or_empty (cc_creator c))),
      (''character_version'', JString (stringValue (cc_ext c) ''characterVersion'')),
      (''extensions'', JObject (exported_extensions (cc_ext c)))]"

definition exportCharacterCard :: "character_card \<Rightarrow> (string, json) jmap" where
  "exportCharacterCard c =
     [(''spec'', JString ''chara_card_v2''), (''spec_version'', JString ''2.0''), (''data'', JObject (exported_data c))]"

definition embedCharacterCardInPng :: "(json \<Rightarrow> octets) \<Rightarrow> octets \<Rightarrow> character_card \<Rightarrow> string + octets" where
  "embedCharacterCardInPng stringify png c =
     (if subarray 0 (length PNG_SIGNATURE) png \<noteq> PNG_SIGNATURE then Inl ''INVALID_EXPORT_AVATAR''
      else (case iend_from png (length PNG_SIGNATURE) of
              None \<Rightarrow> Inl ''INVALID_EXPORT_AVATAR''
            | Some iendOffset \<Rightarrow>
                (let encoded = b64_encode (stringify (JObject (exportCharacterCard c)));
                     chunk_text = latin1_bytes ''chara'' @ [0] @ latin1_bytes encoded
                 in Inr (take iendOffset png @ pngChunk ''tEXt'' chunk_text @ drop iendOffset png))))"


section \<open>Images are lists of chunks\<close>

text \<open>A file of chunks, as \<open>pngChunk\<close> writes them; the types have four \<open>ascii\<close> letters.\<close>

definition png_file :: "(string \<times> octets) list \<Rightarrow> octets" where
  "png_file cs = PNG_SIGNATURE @ concat (map (\<lambda>(t, d). pngChunk t d) cs)"

definition wf_chunk :: "string \<times> octets \<Rightarrow> bool" where
  "wf_chunk c \<longleftrightarrow> length (fst c) = 4 \<and> (\<forall>x \<in> set (fst c). (of_char x :: nat) < 128) \<and> length (snd c) < 2 ^ 32"

definition IEND :: "string \<times> octets" where
  "IEND = (''IEND'', [])"

lemma latin1_ascii: "\<forall>x \<in> set t. (of_char x :: nat) < 128 \<Longrightarrow> ascii_text (latin1_bytes t) = t"
  by (induction t) (simp_all add: ascii_text_def latin1_bytes_def unat_of_nat)

lemma pngChunk_length [simp]: "length (pngChunk t d) = length t + length d + 8"
  by (simp add: pngChunk_def)

text \<open>What both readers see at the start of a chunk.\<close>

lemma chunk_header:
  assumes "wf_chunk (t, d)" and "bytes = pre @ pngChunk t d @ post"
  shows "readUInt32BE (drop (length pre) bytes) = length d"
    and "subarray (length pre + 4) (length pre + 8) bytes = latin1_bytes t"
    and "subarray (length pre + 8) (length pre + 8 + length d) bytes = d"
    and "length bytes = length pre + length d + 12 + length post"
  using assms by (simp_all add: wf_chunk_def pngChunk_def uint32_round subarray_def)

lemma extract_chunk:
  assumes "wf_chunk (t, d)" and "bytes = pre @ pngChunk t d @ post"
  shows "extract_from bytes (length pre) =
    (case (if t = ''tEXt'' then chara_text d else None) of
       Some r \<Rightarrow> r
     | None \<Rightarrow> if t = ''IEND'' then Inl ''PNG_CARD_METADATA_MISSING'' else extract_from bytes (length (pre @ pngChunk t d)))"
proof -
  have "ascii_text (latin1_bytes t) = t" using assms(1) by (intro latin1_ascii) (simp add: wf_chunk_def)
  moreover have "length t = 4" using assms(1) by (simp add: wf_chunk_def)
  ultimately show ?thesis using chunk_header [OF assms]
    by (subst extract_from.simps) (simp add: Let_def add.assoc cong: option.case_cong if_cong)
qed

lemma iend_chunk:
  assumes "wf_chunk (t, d)" and "png = pre @ pngChunk t d @ post"
  shows "iend_from png (length pre) = (if t = ''IEND'' then Some (length pre) else iend_from png (length (pre @ pngChunk t d)))"
proof -
  have "length t = 4" using assms(1) by (simp add: wf_chunk_def)
  then show ?thesis using chunk_header [OF assms]
    by (subst iend_from.simps) (simp add: Let_def ac_simps)
qed

text \<open>The card of a list of chunks: that of the first text chunk with the keyword, before the end.\<close>

fun card_in :: "(string \<times> octets) list \<Rightarrow> string + octets" where
  "card_in [] = Inl ''PNG_CARD_METADATA_MISSING''"
| "card_in ((t, d) # cs) = (case (if t = ''tEXt'' then chara_text d else None) of
       Some r \<Rightarrow> r
     | None \<Rightarrow> if t = ''IEND'' then Inl ''PNG_CARD_METADATA_MISSING'' else card_in cs)"

lemma extract_from_chunks:
  assumes "list_all wf_chunk cs" and "bytes = pre @ concat (map (\<lambda>(t, d). pngChunk t d) cs)"
  shows "extract_from bytes (length pre) = card_in cs"
  using assms
proof (induction cs arbitrary: pre)
  case Nil
  then show ?case by (subst extract_from.simps) simp
next
  case (Cons c cs)
  obtain t d where c: "c = (t, d)" by (cases c)
  have wf: "wf_chunk (t, d)" and cs: "list_all wf_chunk cs" using Cons.prems(1) c by simp_all
  have bytes: "bytes = pre @ pngChunk t d @ concat (map (\<lambda>(t, d). pngChunk t d) cs)" using Cons.prems(2) c by simp
  have "extract_from bytes (length (pre @ pngChunk t d)) = card_in cs"
    using Cons.IH [OF cs, of "pre @ pngChunk t d"] bytes by simp
  then show ?case unfolding c extract_chunk [OF wf bytes] card_in.simps by (simp only:)
qed

lemma iend_from_chunks:
  assumes "list_all wf_chunk cs" and "\<forall>(t, d) \<in> set cs. t \<noteq> ''IEND''"
    and "png = pre @ concat (map (\<lambda>(t, d). pngChunk t d) cs) @ pngChunk ''IEND'' []"
  shows "iend_from png (length pre) = Some (length pre + length (concat (map (\<lambda>(t, d). pngChunk t d) cs)))"
  using assms
proof (induction cs arbitrary: pre)
  case Nil
  have "wf_chunk (''IEND'', [])" by (simp add: wf_chunk_def)
  then show ?case using iend_chunk [of "''IEND''" "[]" png pre "[]"] Nil by simp
next
  case (Cons c cs)
  obtain t d where c: "c = (t, d)" by (cases c)
  have wf: "wf_chunk (t, d)" and cs: "list_all wf_chunk cs" and t: "t \<noteq> ''IEND''" "\<forall>(t, d) \<in> set cs. t \<noteq> ''IEND''"
    using Cons.prems(1,2) c by simp_all
  have png: "png = pre @ pngChunk t d @ concat (map (\<lambda>(t, d). pngChunk t d) cs) @ pngChunk ''IEND'' []"
    using Cons.prems(3) c by simp
  have "iend_from png (length (pre @ pngChunk t d)) = Some (length (pre @ pngChunk t d) + length (concat (map (\<lambda>(t, d). pngChunk t d) cs)))"
    by (rule Cons.IH [OF cs t(2)]) (simp add: png)
  then show ?case using iend_chunk [OF wf png] t(1) c by simp
qed


lemma png_file_append: "png_file (cs @ ds) = png_file cs @ concat (map (\<lambda>(t, d). pngChunk t d) ds)"
  by (simp add: png_file_def)

lemma png_file_signature: "subarray 0 8 (png_file cs) = PNG_SIGNATURE" "length PNG_SIGNATURE = 8" "\<not> length (png_file cs) < 8"
  by (simp_all add: png_file_def subarray_def PNG_SIGNATURE_def)

lemma extract_chunks: "list_all wf_chunk cs \<Longrightarrow> extractPngCharacterJson (png_file cs) = card_in cs"
  using extract_from_chunks [of cs "png_file cs" PNG_SIGNATURE]
  by (simp add: extractPngCharacterJson_def png_file_signature png_file_def [symmetric])

definition card_chunk :: "(json \<Rightarrow> octets) \<Rightarrow> character_card \<Rightarrow> octets" where
  "card_chunk stringify c = latin1_bytes ''chara'' @ [0] @ latin1_bytes (b64_encode (stringify (JObject (exportCharacterCard c))))"

text \<open>Embedding a card in an image leaves its chunks as they are and puts one text chunk with the card, with a
  valid length and checksum, in front of the end.\<close>

theorem embed_adds_chunk:
  assumes "list_all wf_chunk cs" and "\<forall>c \<in> set cs. fst c \<noteq> ''IEND''"
  shows "embedCharacterCardInPng stringify (png_file (cs @ [IEND])) c
    = Inr (png_file (cs @ [(''tEXt'', card_chunk stringify c), IEND]))"
proof -
  let ?png = "png_file (cs @ [IEND])"
  have png: "?png = png_file cs @ pngChunk ''IEND'' []" by (simp add: png_file_append IEND_def)
  have "iend_from ?png (length PNG_SIGNATURE) = Some (length PNG_SIGNATURE + length (concat (map (\<lambda>(t, d). pngChunk t d) cs)))"
    by (rule iend_from_chunks) (use assms in \<open>auto simp: png_file_def IEND_def\<close>)
  also have "\<dots> = Some (length (png_file cs))" by (simp add: png_file_def)
  finally have "iend_from ?png 8 = Some (length (png_file cs))" by (simp only: png_file_signature)
  moreover have "take (length (png_file cs)) ?png = png_file cs" "drop (length (png_file cs)) ?png = pngChunk ''IEND'' []"
    by (simp_all add: png)
  ultimately show ?thesis
    by (simp add: embedCharacterCardInPng_def png_file_signature Let_def card_chunk_def)
      (simp add: png_file_append IEND_def)
qed

section \<open>Round trips\<close>

lemma trim_plain: "\<forall>x \<in> set s. \<not> is_ws x \<Longrightarrow> trim s = s"
proof -
  assume s: "\<forall>x \<in> set s. \<not> is_ws x"
  then have "dropWhile is_ws s = s" "dropWhile is_ws (rev s) = rev s"
    by (metis dropWhile_eq_self_iff hd_in_set set_rev)+
  then show ?thesis by (simp add: trim_def trimStart_def trimEnd_def)
qed

lemma alphabet_plain: "list_all (\<lambda>x. \<not> is_ws x) (CHR ''='' # B64)"
  by code_simp

lemma b64_plain: "trim (b64_encode bs) = b64_encode bs"
  using alphabet_plain b64_encode_chars [of bs] by (intro trim_plain) (auto simp: list_all_iff)

lemma keyword_bytes: "latin1_bytes ''chara'' = [99, 104, 97, 114, 97]"
  by (simp add: latin1_bytes_def)

lemma chara_text_card:
  assumes "bs \<noteq> []"
  shows "chara_text (latin1_bytes ''chara'' @ [0] @ latin1_bytes (b64_encode bs)) = Some (Inr bs)"
proof -
  have "latin1_text [99, 104, 97, 114, 97] = ''chara''" by (simp add: keyword_bytes [symmetric])
  then show ?thesis
    using assms b64_encode_empty [of bs] b64_encode_length [of bs] b64_encode_shape [of bs]
    by (simp add: chara_text_def keyword_bytes b64_plain Let_def)
qed

lemma spread_fresh: "jm_wf (a @ b) \<Longrightarrow> spread a b = a @ b"
proof (induction b arbitrary: a)
  case (Cons kv b)
  obtain k v where kv: "kv = (k, v)" by (cases kv)
  then have "jm_set k v a = a @ [(k, v)]" using Cons.prems by (intro jm_set_absent) auto
  with Cons.IH [of "a @ [(k, v)]"] Cons.prems kv show ?case by (simp add: spread_def)
qed (simp add: spread_def)

lemma strings_of_map [simp]: "strings_of (map JString ss) = ss"
  by (induction ss) simp_all


text \<open>A character after export and import: a trimmed name, no empty optional texts, no alternatives to strings among
  the greetings, and of \<open>ext\<close> what the export writes and the import adds.\<close>

definition nonempty :: "string option \<Rightarrow> string option" where
  "nonempty v = (if or_empty v = [] then None else v)"

definition reimported :: "character_card \<Rightarrow> character_card" where
  "reimported c = c\<lparr>cc_name := trim (cc_name c), cc_systemPrompt := nonempty (cc_systemPrompt c),
     cc_postHistoryInstructions := nonempty (cc_postHistoryInstructions c), cc_creator := nonempty (cc_creator c),
     cc_creatorNotes := nonempty (cc_creatorNotes c),
     cc_ext := exported_extensions (cc_ext c) @ [(''characterVersion'', JString (stringValue (cc_ext c) ''characterVersion'')),
       (''alternateGreetings'', JArray (map JString (stringArray (cc_ext c) ''alternateGreetings''))), (''sourceRoot'', JObject [])]\<rparr>"

lemma data_strings:
  "stringValue (exported_data c) ''name'' = cc_name c"
  "stringValue (exported_data c) ''description'' = cc_description c"
  "stringValue (exported_data c) ''personality'' = cc_personality c"
  "stringValue (exported_data c) ''scenario'' = cc_scenario c"
  "stringValue (exported_data c) ''first_mes'' = cc_firstMessage c"
  "stringValue (exported_data c) ''mes_example'' = cc_exampleDialogues c"
  "stringValue (exported_data c) ''character_version'' = stringValue (cc_ext c) ''characterVersion''"
  by (simp_all add: stringValue_def exported_data_def)

lemma nonempty_or_empty: "(if or_empty v \<noteq> [] then Some (or_empty v) else None) = nonempty v"
  by (cases v) (simp_all add: nonempty_def or_empty_def)

lemma data_nullables:
  "nullableString (exported_data c) ''system_prompt'' = nonempty (cc_systemPrompt c)"
  "nullableString (exported_data c) ''post_history_instructions'' = nonempty (cc_postHistoryInstructions c)"
  "nullableString (exported_data c) ''creator'' = nonempty (cc_creator c)"
  "nullableString (exported_data c) ''creator_notes'' = nonempty (cc_creatorNotes c)"
  by (simp_all add: nullableString_def exported_data_def nonempty_or_empty [symmetric])

lemma data_lists:
  "stringArray (exported_data c) ''tags'' = cc_tags c"
  "stringArray (exported_data c) ''alternate_greetings'' = stringArray (cc_ext c) ''alternateGreetings''"
  "jm_get (exported_data c) ''extensions'' = Some (JObject (exported_extensions (cc_ext c)))"
  by (simp_all add: stringArray_def exported_data_def)

lemma no_unknown_data: "unknownFields (exported_data c) V2_KNOWN = []"
  by (simp add: unknownFields_def exported_data_def V2_KNOWN_def)

lemma export_root:
  "jm_get (exportCharacterCard c) ''data'' = Some (JObject (exported_data c))"
  "jm_get (exportCharacterCard c) ''spec'' = Some (JString ''chara_card_v2'')"
  "jm_get (exportCharacterCard c) ''spec_version'' = Some (JString ''2.0'')"
  "unknownFields (exportCharacterCard c) [''spec'', ''spec_version'', ''data''] = []"
  by (simp_all add: exportCharacterCard_def unknownFields_def)

lemma exported_keys:
  "k \<in> set (jm_keys (exported_extensions e)) \<Longrightarrow> k \<notin> {''_st2'', ''alternateGreetings'', ''characterVersion'', ''sourceRoot'', ''legacy''}"
  "jm_wf e \<Longrightarrow> jm_wf (exported_extensions e)"
  by (auto simp: exported_extensions_def distinct_map_filter)

lemma exported_ext:
  assumes "jm_wf (cc_ext c)"
  shows "structured_ext (exportCharacterCard c) (exported_data c) = cc_ext (reimported c)"
proof -
  let ?e = "exported_extensions (cc_ext c)"
  have "spread [] ?e = ?e" using spread_fresh [of "[]" ?e] exported_keys(2) [OF assms] by simp
  moreover have "''characterVersion'' \<notin> set (jm_keys ?e)" "''alternateGreetings'' \<notin> set (jm_keys ?e)" "''sourceRoot'' \<notin> set (jm_keys ?e)"
    using exported_keys(1) by blast+
  ultimately show ?thesis
    by (simp add: structured_ext_def no_unknown_data export_root data_lists data_strings jm_set_absent reimported_def)
qed

lemma card_of_exported:
  assumes "jm_wf (cc_ext c)" and "trim (cc_name c) \<noteq> []"
  shows "card_of_root (exportCharacterCard c) kind = Inr \<lparr>pc_character = reimported c,
    pc_sourceFormat = (case kind of JsonFile \<Rightarrow> ''json'' | PngFile \<Rightarrow> ''png'') @ ''-v2'', pc_warnings = []\<rparr>"
  using assms(2) exported_ext [OF assms(1)]
  by (simp add: card_of_root_def export_root data_strings data_nullables data_lists Let_def) (simp add: reimported_def)


lemma exported_again:
  "exported_extensions (cc_ext (reimported c)) = exported_extensions (cc_ext c)"
  "stringArray (cc_ext (reimported c)) ''alternateGreetings'' = stringArray (cc_ext c) ''alternateGreetings''"
  "stringValue (cc_ext (reimported c)) ''characterVersion'' = stringValue (cc_ext c) ''characterVersion''"
proof -
  let ?e = "exported_extensions (cc_ext c)"
  have absent: "jm_get ?e ''alternateGreetings'' = None" "jm_get ?e ''characterVersion'' = None"
    using exported_keys(1) by (auto simp: jm_get_def map_of_eq_None_iff)
  have append: "jm_get (?e @ m) k = (case jm_get ?e k of Some v \<Rightarrow> Some v | None \<Rightarrow> jm_get m k)" for m k
    by (simp add: jm_get_def map_add_def split: option.split)
  show "exported_extensions (cc_ext (reimported c)) = ?e" by (simp add: reimported_def exported_extensions_def)
  show "stringArray (cc_ext (reimported c)) ''alternateGreetings'' = stringArray (cc_ext c) ''alternateGreetings''"
    by (simp add: reimported_def stringArray_def [of "_ @ _"] append absent)
  show "stringValue (cc_ext (reimported c)) ''characterVersion'' = stringValue (cc_ext c) ''characterVersion''"
    by (simp add: reimported_def stringValue_def [of "_ @ _"] append absent)
qed

lemma or_empty_nonempty [simp]: "or_empty (nonempty v) = or_empty v"
  by (cases v) (simp_all add: nonempty_def or_empty_def)

lemma export_reimported: "exportCharacterCard (reimported c) = exportCharacterCard (c\<lparr>cc_name := trim (cc_name c)\<rparr>)"
proof -
  have "exported_data (reimported c) = exported_data (c\<lparr>cc_name := trim (cc_name c)\<rparr>)"
    unfolding exported_data_def exported_again by (simp add: reimported_def)
  then show ?thesis by (simp add: exportCharacterCard_def)
qed

text \<open>The contract of the two JSON functions on one value.\<close>

definition json_contract :: "(octets \<Rightarrow> json option) \<Rightarrow> (json \<Rightarrow> octets) \<Rightarrow> json \<Rightarrow> bool" where
  "json_contract parse stringify v \<longleftrightarrow> stringify v \<noteq> [] \<and> parse (stringify v) = Some v"

lemma card_in_before:
  "\<forall>c \<in> set cs. fst c \<noteq> ''IEND'' \<and> (fst c = ''tEXt'' \<longrightarrow> chara_text (snd c) = None) \<Longrightarrow> card_in (cs @ ds) = card_in ds"
  by (induction cs rule: card_in.induct) auto

text \<open>C16: the card that an export puts into an image is the card an import of that image finds, and it makes the same
  character, up to white space around the name, empty optional texts and what an export leaves out of \<open>ext\<close>.\<close>

theorem exported_image_imports:
  assumes "list_all wf_chunk cs"
    and "\<forall>c \<in> set cs. fst c \<noteq> ''IEND'' \<and> (fst c = ''tEXt'' \<longrightarrow> chara_text (snd c) = None)"
    and "json_contract parse stringify (JObject (exportCharacterCard c))" and "length (card_chunk stringify c) < 2 ^ 32"
    and "jm_wf (cc_ext c)" and "trim (cc_name c) \<noteq> []"
  shows "\<exists>png. embedCharacterCardInPng stringify (png_file (cs @ [IEND])) c = Inr png
    \<and> parseCharacterCard parse png PngFile
      = Inr \<lparr>pc_character = reimported c, pc_sourceFormat = ''png-v2'', pc_warnings = []\<rparr>"
proof -
  let ?chunks = "cs @ [(''tEXt'', card_chunk stringify c), IEND]" and ?json = "stringify (JObject (exportCharacterCard c))"
  have "embedCharacterCardInPng stringify (png_file (cs @ [IEND])) c = Inr (png_file ?chunks)"
    using assms(1,2) by (intro embed_adds_chunk) auto
  moreover have "list_all wf_chunk ?chunks" using assms(1,4) by (simp add: wf_chunk_def IEND_def)
  then have "extractPngCharacterJson (png_file ?chunks) = card_in ?chunks" by (rule extract_chunks)
  then have "extractPngCharacterJson (png_file ?chunks) = Inr ?json"
    using card_in_before [OF assms(2)] chara_text_card [of ?json] assms(3) by (simp add: json_contract_def card_chunk_def)
  then have "parseCharacterCard parse (png_file ?chunks) PngFile
      = Inr \<lparr>pc_character = reimported c, pc_sourceFormat = ''png-v2'', pc_warnings = []\<rparr>"
    using assms(3) card_of_exported [OF assms(5,6), of PngFile] by (simp add: parseCharacterCard_def parseJson_def json_contract_def)
  ultimately show ?thesis by blast
qed

definition demo_card :: character_card where
  "demo_card = \<lparr>cc_name = ''Ada '', cc_description = ''d'', cc_personality = [], cc_scenario = [], cc_firstMessage = ''Hi'',
     cc_exampleDialogues = [], cc_systemPrompt = None, cc_postHistoryInstructions = Some [], cc_creator = Some ''me'',
     cc_creatorNotes = None, cc_tags = [''x''], cc_ext = [(''favorite'', JBool True), (''sourceRoot'', JNull)]\<rparr>"

definition demo_parse :: "octets \<Rightarrow> json option" where
  "demo_parse bs = (if bs = [1, 2] then Some (JObject (exportCharacterCard demo_card)) else None)"

lemma demo_card_facts: "jm_wf (cc_ext demo_card)" "trim (cc_name demo_card) \<noteq> []"
  by (code_simp, code_simp)

lemma demo_contract: "json_contract demo_parse (\<lambda>_. [1, 2]) (JObject (exportCharacterCard demo_card))"
  by (simp add: json_contract_def demo_parse_def)

lemma embed_adds_chunk_witness:
  "embedCharacterCardInPng (\<lambda>_. [1, 2]) (png_file ([(''IHDR'', [7])] @ [IEND])) demo_card
    = Inr (png_file ([(''IHDR'', [7])] @ [(''tEXt'', card_chunk (\<lambda>_. [1, 2]) demo_card), IEND]))"
  by (rule embed_adds_chunk) (simp_all add: wf_chunk_def)

lemma exported_image_imports_witness:
  "\<exists>png. embedCharacterCardInPng (\<lambda>_. [1, 2]) (png_file ([(''IHDR'', [7])] @ [IEND])) demo_card = Inr png
    \<and> parseCharacterCard demo_parse png PngFile
      = Inr \<lparr>pc_character = reimported demo_card, pc_sourceFormat = ''png-v2'', pc_warnings = []\<rparr>"
  by (rule exported_image_imports) (simp_all add: wf_chunk_def demo_contract demo_card_facts card_chunk_def quartet_def)

text \<open>Nothing more is lost the second time: the character an import makes of an exported card exports as the same
  card, under the trimmed name.\<close>

theorem export_import_export:
  assumes "json_contract parse stringify (JObject (exportCharacterCard c))" and "jm_wf (cc_ext c)" and "trim (cc_name c) \<noteq> []"
  shows "\<exists>p. parseCharacterCard parse (stringify (JObject (exportCharacterCard c))) JsonFile = Inr p
    \<and> exportCharacterCard (pc_character p) = exportCharacterCard (c\<lparr>cc_name := trim (cc_name c)\<rparr>)"
  using assms(1) card_of_exported [OF assms(2,3), of JsonFile] export_reimported
  by (simp add: parseCharacterCard_def parseJson_def json_contract_def)

lemma export_import_export_witness:
  "\<exists>p. parseCharacterCard demo_parse [1, 2] JsonFile = Inr p
    \<and> exportCharacterCard (pc_character p) = exportCharacterCard (demo_card\<lparr>cc_name := trim (cc_name demo_card)\<rparr>)"
  using export_import_export [OF demo_contract demo_card_facts] by simp

text \<open>A character with a blank name, which the schema of characters allows, exports as a card that no import takes.\<close>

theorem blank_name_not_imported:
  assumes "json_contract parse stringify (JObject (exportCharacterCard c))" and "trim (cc_name c) = []"
  shows "parseCharacterCard parse (stringify (JObject (exportCharacterCard c))) JsonFile = Inl ''NAME_REQUIRED''"
  using assms by (simp add: parseCharacterCard_def parseJson_def json_contract_def card_of_root_def export_root data_strings Let_def)

lemma blank_name_not_imported_witness:
  "parseCharacterCard (\<lambda>_. Some (JObject (exportCharacterCard (demo_card\<lparr>cc_name := '' ''\<rparr>)))) [1, 2] JsonFile = Inl ''NAME_REQUIRED''"
proof -
  have "trim '' '' = []" by code_simp
  then show ?thesis
    using blank_name_not_imported [of "\<lambda>_. Some (JObject (exportCharacterCard (demo_card\<lparr>cc_name := '' ''\<rparr>)))" "\<lambda>_. [1, 2]"
      "demo_card\<lparr>cc_name := '' ''\<rparr>"]
    by (simp add: json_contract_def)
qed

section \<open>What an export leaves out\<close>

lemma unknown_of_set: "k \<in> set known \<Longrightarrow> unknownFields (jm_set k v r) known = unknownFields r known"
  by (induction k v r rule: jm_set.induct) (auto simp: unknownFields_def)

lemma exported_legacy: "exported_extensions (jm_set ''legacy'' v e) = exported_extensions e"
  by (induction "''legacy''" v e rule: jm_set.induct) (auto simp: exported_extensions_def)

lemma card_of_legacy:
  assumes "jm_get base ''data'' = None" and "card_of_root base kind = Inr p"
  shows "pc_character p = \<lparr>cc_name = trim (stringValue base ''name''), cc_description = stringValue base ''description'',
    cc_personality = stringValue base ''personality'', cc_scenario = stringValue base ''scenario'',
    cc_firstMessage = stringValue base ''first_mes'', cc_exampleDialogues = stringValue base ''mes_example'',
    cc_systemPrompt = nullableString base ''system_prompt'',
    cc_postHistoryInstructions = nullableString base ''post_history_instructions'',
    cc_creator = nullableString base ''creator'', cc_creatorNotes = nullableString base ''creatorcomment'',
    cc_tags = stringArray base ''tags'', cc_ext = legacy_ext base\<rparr>"
proof (cases "trim (stringValue base ''name'') = []")
  case True
  with assms show ?thesis by (simp add: card_of_root_def Let_def)
next
  case False
  with assms show ?thesis by (auto simp add: card_of_root_def Let_def)
qed

text \<open>The talkativeness and the favourite mark of a first-version card, which an import keeps, are in no export:
  cards that differ in them make characters with the same exported card.\<close>

theorem legacy_fields_not_exported:
  assumes "jm_get base ''data'' = None" and "k = ''talkativeness'' \<or> k = ''fav''"
    and "card_of_root base kind = Inr p" and "card_of_root (jm_set k v base) kind = Inr q"
  shows "exportCharacterCard (pc_character p) = exportCharacterCard (pc_character q)"
proof -
  have k: "k \<in> set V1_KNOWN" using assms(2) by (auto simp: V1_KNOWN_def)
  have same: "jm_get (jm_set k v base) i = jm_get base i" if "i \<noteq> ''talkativeness''" "i \<noteq> ''fav''" for i
    using assms(2) that by auto
  have strings: "stringValue (jm_set k v base) i = stringValue base i" "nullableString (jm_set k v base) i = nullableString base i"
    "stringArray (jm_set k v base) i = stringArray base i" if "i \<noteq> ''talkativeness''" "i \<noteq> ''fav''" for i
    using same [OF that] by (simp_all add: stringValue_def nullableString_def stringArray_def)
  have ext: "exported_extensions (legacy_ext (jm_set k v base)) = exported_extensions (legacy_ext base)"
    by (simp add: legacy_ext_def unknown_of_set [OF k] exported_legacy)
  have other: "stringValue (legacy_ext (jm_set k v base)) i = stringValue (legacy_ext base) i"
    "stringArray (legacy_ext (jm_set k v base)) i = stringArray (legacy_ext base) i" if "i \<noteq> ''legacy''" for i
    using that by (simp_all add: legacy_ext_def unknown_of_set [OF k] stringValue_def stringArray_def)
  have none: "jm_get (jm_set k v base) ''data'' = None" using assms(1) same by simp
  show ?thesis
    unfolding exportCharacterCard_def exported_data_def card_of_legacy [OF assms(1,3)] card_of_legacy [OF none assms(4)]
    by (simp add: strings ext other)
qed

lemma legacy_fields_not_exported_witness:
  "\<exists>p q. card_of_root [(''name'', JString ''Ada''), (''fav'', JBool False)] JsonFile = Inr p
    \<and> card_of_root [(''name'', JString ''Ada''), (''fav'', JBool True)] JsonFile = Inr q
    \<and> p \<noteq> q \<and> exportCharacterCard (pc_character p) = exportCharacterCard (pc_character q)"
proof -
  let ?base = "[(''name'', JString ''Ada''), (''fav'', JBool False)]" and ?other = "[(''name'', JString ''Ada''), (''fav'', JBool True)]"
  have other: "?other = jm_set ''fav'' (JBool True) ?base" by simp
  have name: "trim ''Ada'' = ''Ada''" by code_simp
  obtain p where p: "card_of_root ?base JsonFile = Inr p"
    by (simp add: card_of_root_def Let_def stringValue_def name)
  obtain q where q: "card_of_root ?other JsonFile = Inr q"
    by (simp add: card_of_root_def Let_def stringValue_def name)
  have "exportCharacterCard (pc_character p) = exportCharacterCard (pc_character q)"
    by (rule legacy_fields_not_exported [OF _ _ p q [unfolded other]]) simp_all
  moreover have "card_of_root ?base JsonFile \<noteq> card_of_root ?other JsonFile"
    by (simp add: card_of_root_def Let_def stringValue_def name legacy_ext_def legacy_fields_def unknownFields_def V1_KNOWN_def)
  then have "p \<noteq> q" using p q by auto
  ultimately show ?thesis using p q by blast
qed


section \<open>The checksum\<close>

lemma crc_step: "crc_byte b crc = crc_bit (crc_bit (crc_bit (crc_bit (crc_bit (crc_bit (crc_bit (crc_bit (crc XOR ucast b))))))))"
  by (simp add: crc_byte_def eval_nat_numeral)

text \<open>The checksum of the last chunk, which every PNG file ends with.\<close>

lemma end_chunk_crc: "crc32 [73, 69, 78, 68] = 0xAE426082"
  by (simp add: crc32_def crc_step) (simp add: crc_bit_def drop_bit_eq_div)

lemma end_chunk_bytes: "pngChunk ''IEND'' [] = [0, 0, 0, 0, 73, 69, 78, 68, 174, 66, 96, 130]"
proof -
  have "latin1_bytes ''IEND'' = [73, 69, 78, 68]" by (simp add: latin1_bytes_def)
  then show ?thesis by (simp add: pngChunk_def end_chunk_crc writeUInt32BE_def)
qed

end
