(* ===== verification/Character_Store.thy ===== *)
theory Character_Store
  imports Character_Cards
begin

text \<open>
  The table of characters and their versions (\<open>packages/db/src/repositories/characters.ts\<close>), the import of cards
  (\<open>apps/server/src/plugins/characterTransfer.ts\<close>) and the draft of the character editor
  (\<open>apps/web/src/components/CharacterManagementPanel.tsx\<close>). A row holds the names of its tags as they are read back: the code keeps them in a table of tags and a table of
  links and joins the two on reading, along the index of the links, so that they come in the order of the ids of
  the tags, which is the order in which the tags were first used; \<open>ext\<close> is the value of its JSON text. Reading
  a row and writing it are separate steps where the code awaits in between.
\<close>

section \<open>Rows\<close>

record char_row =
  cr_id :: string
  cr_card :: character_card
  cr_avatar :: "string option"
  cr_favorite :: bool
  cr_createdAt :: int
  cr_updatedAt :: int
  cr_lastUsedAt :: "int option"
  cr_deletedAt :: "int option"

record version_row =
  vr_id :: string
  vr_character :: string
  vr_version :: nat
  vr_card :: character_card
  vr_avatar :: "string option"
  vr_createdAt :: int

record character_db =
  char_rows :: "char_row list"
  version_rows :: "version_row list"
  tag_rows :: "string list"

text \<open>\<open>ext.favorite\<close> or \<open>ext.legacy.favorite\<close>.\<close>

definition isFavoriteExt :: "(string, json) jmap \<Rightarrow> bool" where
  "isFavoriteExt ext \<longleftrightarrow> jm_get ext ''favorite'' = Some (JBool True)
     \<or> (case jm_get ext ''legacy'' of Some v \<Rightarrow> json_field v ''favorite'' = Some (JBool True) | None \<Rightarrow> False)"

text \<open>The names \<open>replaceTags\<close> links: trimmed, not empty, each once. It adds those the table of tags (\<open>tag_rows\<close>, by
  id) does not have, and links the rows with these names: the names as they are then read back, and the table.\<close>

definition tag_names :: "string list \<Rightarrow> string list" where
  "tag_names ts = rev (remdups (rev (filter (\<lambda>t. t \<noteq> []) (map trim ts))))"

definition replaceTags :: "string list \<Rightarrow> string list \<Rightarrow> string list \<times> string list" where
  "replaceTags ts rows =
     (let names = tag_names ts; rows' = rows @ filter (\<lambda>t. t \<notin> set rows) names
      in (filter (\<lambda>t. t \<in> set names) rows', rows'))"

definition get_character :: "string \<Rightarrow> character_db \<Rightarrow> char_row option" where
  "get_character i db = List.find (\<lambda>r. cr_id r = i) (char_rows db)"

definition create_character :: "int \<Rightarrow> string \<Rightarrow> character_card \<Rightarrow> string option \<Rightarrow> character_db \<Rightarrow> char_row \<times> character_db" where
  "create_character t i cc avatar db =
     (let row = \<lparr>cr_id = i, cr_card = cc, cr_avatar = avatar,
                 cr_favorite = isFavoriteExt (cc_ext cc), cr_createdAt = t, cr_updatedAt = t, cr_lastUsedAt = None, cr_deletedAt = None\<rparr>;
          (links, rows) = (if cc_tags cc \<noteq> [] then replaceTags (cc_tags cc) (tag_rows db) else ([], tag_rows db))
      in (row, db\<lparr>char_rows := char_rows db @ [row\<lparr>cr_card := cc\<lparr>cc_tags := links\<rparr>\<rparr>], tag_rows := rows\<rparr>))"

definition import_hash :: "char_row \<Rightarrow> json option" where
  "import_hash r = (case jm_get (cc_ext (cr_card r)) ''_st2'' of Some v \<Rightarrow> json_field v ''importHash'' | None \<Rightarrow> None)"

definition findByImportHash :: "string \<Rightarrow> character_db \<Rightarrow> char_row option" where
  "findByImportHash h db = List.find (\<lambda>r. import_hash r = Some (JString h)) (char_rows db)"

section \<open>Updates and versions\<close>

record character_patch =
  cp_name :: "string option"
  cp_avatar :: "string option option"
  cp_description :: "string option"
  cp_personality :: "string option"
  cp_scenario :: "string option"
  cp_firstMessage :: "string option"
  cp_exampleDialogues :: "string option"
  cp_systemPrompt :: "string option option"
  cp_postHistoryInstructions :: "string option option"
  cp_creator :: "string option option"
  cp_creatorNotes :: "string option option"
  cp_tags :: "string list option"
  cp_ext :: "(string, json) jmap option"

definition given :: "'a option \<Rightarrow> 'a \<Rightarrow> 'a" where
  "given v old = (case v of Some x \<Rightarrow> x | None \<Rightarrow> old)"

text \<open>The row after the write; \<open>existing\<close> is the row as it was read, from which \<open>ext\<close> is merged, \<open>rows\<close> the table of
  tags before the write.\<close>

definition patched_row :: "int \<Rightarrow> string list \<Rightarrow> char_row \<Rightarrow> character_patch \<Rightarrow> char_row \<Rightarrow> char_row" where
  "patched_row t rows existing p r =
     (let c = cr_card r;
          ext = (case cp_ext p of Some e \<Rightarrow> Some (spread (cc_ext (cr_card existing)) e) | None \<Rightarrow> None)
      in r\<lparr>cr_card := \<lparr>cc_name = given (cp_name p) (cc_name c),
            cc_description = given (cp_description p) (cc_description c),
            cc_personality = given (cp_personality p) (cc_personality c),
            cc_scenario = given (cp_scenario p) (cc_scenario c),
            cc_firstMessage = given (cp_firstMessage p) (cc_firstMessage c),
            cc_exampleDialogues = given (cp_exampleDialogues p) (cc_exampleDialogues c),
            cc_systemPrompt = given (cp_systemPrompt p) (cc_systemPrompt c),
            cc_postHistoryInstructions = given (cp_postHistoryInstructions p) (cc_postHistoryInstructions c),
            cc_creator = given (cp_creator p) (cc_creator c),
            cc_creatorNotes = given (cp_creatorNotes p) (cc_creatorNotes c),
            cc_tags = (case cp_tags p of Some ts \<Rightarrow> fst (replaceTags ts rows) | None \<Rightarrow> cc_tags c),
            cc_ext = given ext (cc_ext c)\<rparr>,
          cr_avatar := given (cp_avatar p) (cr_avatar r),
          cr_favorite := (case ext of Some e \<Rightarrow> isFavoriteExt e | None \<Rightarrow> cr_favorite r),
          cr_updatedAt := t\<rparr>)"

definition versions_of :: "string \<Rightarrow> character_db \<Rightarrow> nat list" where
  "versions_of i db = map vr_version (filter (\<lambda>v. vr_character v = i) (version_rows db))"

definition snapshotVersion :: "int \<Rightarrow> string \<Rightarrow> char_row \<Rightarrow> string list \<Rightarrow> character_db \<Rightarrow> character_db" where
  "snapshotVersion t vid row tags db = db\<lparr>version_rows := version_rows db @
     [\<lparr>vr_id = vid, vr_character = cr_id row, vr_version = Suc (fold max (versions_of (cr_id row) db) 0),
       vr_card = (cr_card row)\<lparr>cc_tags := tags\<rparr>, vr_avatar = cr_avatar row, vr_createdAt = t\<rparr>]\<rparr>"

definition write_char :: "string \<Rightarrow> (char_row \<Rightarrow> char_row) \<Rightarrow> character_db \<Rightarrow> character_db" where
  "write_char i f db = db\<lparr>char_rows := map (\<lambda>r. if cr_id r = i then f r else r) (char_rows db)\<rparr>"

text \<open>The transaction of an update, for a row and tags read before. A version of a character that has been deleted meanwhile
  violates its foreign key, and the transaction fails.\<close>

definition update_tx ::
  "int \<Rightarrow> string \<Rightarrow> string \<Rightarrow> char_row \<Rightarrow> string list \<Rightarrow> character_patch \<Rightarrow> character_db \<Rightarrow> character_db option" where
  "update_tx t vid i existing tags p db = (case get_character i db of
       None \<Rightarrow> None
     | Some _ \<Rightarrow> Some ((write_char i (patched_row t (tag_rows db) existing p) (snapshotVersion t vid existing tags db))
         \<lparr>tag_rows := (case cp_tags p of Some ts \<Rightarrow> snd (replaceTags ts (tag_rows db)) | None \<Rightarrow> tag_rows db)\<rparr>))"

definition update_character :: "int \<Rightarrow> string \<Rightarrow> string \<Rightarrow> character_patch \<Rightarrow> character_db \<Rightarrow> character_db" where
  "update_character t vid i p db = (case get_character i db of
       None \<Rightarrow> db
     | Some existing \<Rightarrow> (case update_tx t vid i existing (cc_tags (cr_card existing)) p db of Some db' \<Rightarrow> db' | None \<Rightarrow> db))"

definition softDelete :: "int \<Rightarrow> string \<Rightarrow> character_db \<Rightarrow> character_db" where
  "softDelete t i db = write_char i (\<lambda>r. r\<lparr>cr_deletedAt := Some t, cr_updatedAt := t\<rparr>) db"

definition restore_character :: "int \<Rightarrow> string \<Rightarrow> character_db \<Rightarrow> character_db" where
  "restore_character t i db = write_char i (\<lambda>r. r\<lparr>cr_deletedAt := None, cr_updatedAt := t\<rparr>) db"

definition hardDelete :: "string \<Rightarrow> character_db \<Rightarrow> character_db" where
  "hardDelete i db = db\<lparr>char_rows := filter (\<lambda>r. cr_id r \<noteq> i) (char_rows db),
     version_rows := filter (\<lambda>v. vr_character v \<noteq> i) (version_rows db)\<rparr>"

definition touchUsage :: "int \<Rightarrow> string \<Rightarrow> character_db \<Rightarrow> character_db" where
  "touchUsage t i db = write_char i (\<lambda>r. r\<lparr>cr_lastUsedAt := Some t\<rparr>) db"

text \<open>A stored version has every field, since \<open>rowToSnapshot\<close> writes them all.\<close>

definition restored_row :: "int \<Rightarrow> string list \<Rightarrow> version_row \<Rightarrow> char_row \<Rightarrow> char_row" where
  "restored_row t rows v r = r\<lparr>cr_card := (vr_card v)\<lparr>cc_tags := fst (replaceTags (cc_tags (vr_card v)) rows)\<rparr>, cr_avatar := vr_avatar v, cr_updatedAt := t\<rparr>"

definition restoreVersion :: "int \<Rightarrow> string \<Rightarrow> string \<Rightarrow> string \<Rightarrow> character_db \<Rightarrow> character_db" where
  "restoreVersion t vid i v db = (case List.find (\<lambda>r. vr_id r = v \<and> vr_character r = i) (version_rows db) of
       None \<Rightarrow> db
     | Some version \<Rightarrow> (case get_character i db of
           None \<Rightarrow> db
         | Some current \<Rightarrow> (write_char i (restored_row t (tag_rows db) version) (snapshotVersion t vid current (cc_tags (cr_card current)) db))
             \<lparr>tag_rows := snd (replaceTags (cc_tags (vr_card version)) (tag_rows db))\<rparr>))"

datatype char_op =
  Creates int string character_card "string option" | Updates int string string character_patch
  | SoftDeletes int string | Restores int string | HardDeletes string | Touches int string
  | RestoresVersion int string string string

fun char_step :: "char_op \<Rightarrow> character_db \<Rightarrow> character_db" where
  "char_step (Creates t i cc avatar) db = snd (create_character t i cc avatar db)"
| "char_step (Updates t vid i p) db = update_character t vid i p db"
| "char_step (SoftDeletes t i) db = softDelete t i db"
| "char_step (Restores t i) db = restore_character t i db"
| "char_step (HardDeletes i) db = hardDelete i db"
| "char_step (Touches t i) db = touchUsage t i db"
| "char_step (RestoresVersion t vid i v) db = restoreVersion t vid i v db"


section \<open>The history of a character\<close>

text \<open>Versions are numbered from 1 without gaps; the table of tags has trimmed names, each once, and the tags of
  a row come in its order.\<close>

definition counts_up :: "nat list \<Rightarrow> bool" where
  "counts_up ns \<longleftrightarrow> ns = [1..<Suc (length ns)]"

definition versions_numbered :: "character_db \<Rightarrow> bool" where
  "versions_numbered db \<longleftrightarrow> (\<forall>i. counts_up (versions_of i db))"

definition in_table :: "string list \<Rightarrow> string list \<Rightarrow> bool" where
  "in_table rows ts \<longleftrightarrow> filter (\<lambda>t. t \<in> set ts) rows = ts"

definition tags_normal :: "character_db \<Rightarrow> bool" where
  "tags_normal db \<longleftrightarrow> distinct (tag_rows db) \<and> (\<forall>t \<in> set (tag_rows db). trim t = t \<and> t \<noteq> [])
     \<and> (\<forall>r \<in> set (char_rows db). in_table (tag_rows db) (cc_tags (cr_card r)))"

lemma dropWhile_idem: "dropWhile P (dropWhile P xs) = dropWhile P xs"
  by (induction xs) auto

lemma trim_head: "trimEnd (trimStart s) = [] \<or> \<not> is_ws (hd (trimEnd (trimStart s)))"
proof -
  let ?u = "trimStart s"
  have u: "?u = [] \<or> \<not> is_ws (hd ?u)" by (metis hd_dropWhile trimStart_def)
  obtain w where w: "?u = trimEnd ?u @ w"
    by (metis rev_append rev_rev_ident takeWhile_dropWhile_id trimEnd_def)
  show ?thesis
  proof (cases "trimEnd ?u = []")
    case False
    then have "hd ?u = hd (trimEnd ?u)" using w by (metis hd_append2)
    then show ?thesis using u False w by auto
  qed simp
qed

lemma trim_trim [simp]: "trim (trim s) = trim s"
proof -
  have "trimStart (trim s) = trim s" using trim_head [of s] by (metis dropWhile_eq_self_iff trimStart_def trim_def)
  moreover have "trimEnd (trim s) = trim s" by (simp add: trim_def trimEnd_def dropWhile_idem)
  ultimately show ?thesis by (metis trim_def)
qed

lemma tag_names_props: "distinct (tag_names ts)" "tag \<in> set (tag_names ts) \<Longrightarrow> trim tag = tag \<and> tag \<noteq> []"
  by (auto simp: tag_names_def)

lemma tag_names_id:
  assumes "distinct ts" and "\<forall>t \<in> set ts. trim t = t \<and> t \<noteq> []"
  shows "tag_names ts = ts"
proof -
  have "map trim ts = ts" by (rule map_idI) (use assms(2) in blast)
  moreover have "filter (\<lambda>t. t \<noteq> []) ts = ts" by (rule filter_True) (use assms(2) in blast)
  ultimately show ?thesis using assms(1) by (simp add: tag_names_def distinct_remdups_id)
qed

definition table_ok :: "string list \<Rightarrow> bool" where
  "table_ok rows \<longleftrightarrow> distinct rows \<and> (\<forall>t \<in> set rows. trim t = t \<and> t \<noteq> [])"

lemma tags_normal_table:
  "tags_normal db \<longleftrightarrow> table_ok (tag_rows db) \<and> (\<forall>r \<in> set (char_rows db). in_table (tag_rows db) (cc_tags (cr_card r)))"
  by (simp add: tags_normal_def table_ok_def)

text \<open>The table only grows, at its end, and what is linked comes in its order and is what was asked for.\<close>

lemma replaceTags_props:
  assumes "table_ok rows"
  shows "table_ok (snd (replaceTags ts rows))"
    and "in_table rows us \<Longrightarrow> in_table (snd (replaceTags ts rows)) us"
    and "in_table (snd (replaceTags ts rows)) (fst (replaceTags ts rows))"
    and "mset (fst (replaceTags ts rows)) = mset (tag_names ts)"
    and "fst (replaceTags ts rows) = filter (\<lambda>t. t \<in> set (tag_names ts)) (snd (replaceTags ts rows))"
proof -
  let ?new = "filter (\<lambda>t. t \<notin> set rows) (tag_names ts)"
  have eq: "snd (replaceTags ts rows) = rows @ ?new"
    "fst (replaceTags ts rows) = filter (\<lambda>t. t \<in> set (tag_names ts)) (rows @ ?new)"
    by (simp_all add: replaceTags_def Let_def)
  show ok: "table_ok (snd (replaceTags ts rows))"
    using assms tag_names_props(1) [of ts] tag_names_props(2) [of _ ts] unfolding eq table_ok_def by auto
  show "in_table (snd (replaceTags ts rows)) us" if "in_table rows us"
  proof -
    have "set us \<subseteq> set rows" using that unfolding in_table_def by (metis filter_is_subset)
    then have "filter (\<lambda>t. t \<in> set us) ?new = []" by (auto simp: filter_empty_conv)
    with that show ?thesis by (simp add: in_table_def eq)
  qed
  show "in_table (snd (replaceTags ts rows)) (fst (replaceTags ts rows))"
    unfolding eq in_table_def by (rule filter_cong) auto
  have "distinct (fst (replaceTags ts rows))" using ok unfolding table_ok_def eq(1) unfolding eq(2) by (blast intro: distinct_filter)
  moreover have "set (fst (replaceTags ts rows)) = set (tag_names ts)" by (auto simp: eq)
  ultimately show "mset (fst (replaceTags ts rows)) = mset (tag_names ts)"
    using tag_names_props(1) set_eq_iff_mset_eq_distinct by blast
  show "fst (replaceTags ts rows) = filter (\<lambda>t. t \<in> set (tag_names ts)) (snd (replaceTags ts rows))"
    by (simp add: eq)
qed

text \<open>Linking the tags a row had already gives them back in the same order.\<close>

lemma replaceTags_again:
  assumes "table_ok rows" and "in_table rows ts"
  shows "replaceTags ts rows = (ts, rows)"
proof -
  have sub: "set ts \<subseteq> set rows" using assms(2) unfolding in_table_def by (metis filter_is_subset)
  have "distinct ts" using assms unfolding in_table_def table_ok_def by (metis distinct_filter)
  then have "tag_names ts = ts" using sub assms(1) by (intro tag_names_id) (auto simp: table_ok_def)
  moreover have "filter (\<lambda>t. t \<notin> set rows) ts = []" using sub by (auto simp: filter_empty_conv)
  ultimately show ?thesis using assms(2) unfolding replaceTags_def Let_def in_table_def by (simp only: append_Nil2)
qed

lemma versions_write [simp]: "versions_of i (write_char j f db) = versions_of i db" "version_rows (write_char j f db) = version_rows db"
  by (simp_all add: write_char_def versions_of_def)

lemma versions_tags [simp]: "versions_of i (db\<lparr>tag_rows := rows\<rparr>) = versions_of i db"
  "versions_numbered (db\<lparr>tag_rows := rows\<rparr>) = versions_numbered db"
  "get_character i (db\<lparr>tag_rows := rows\<rparr>) = get_character i db"
  by (simp_all add: versions_of_def versions_numbered_def get_character_def)

lemma counts_up_Nil [simp]: "counts_up []"
  by (simp add: counts_up_def)

lemma counts_up_snoc: "counts_up ns \<Longrightarrow> counts_up (ns @ [Suc (length ns)])"
  by (simp add: counts_up_def)

lemma fold_max_upt: "fold max [1..<Suc n] 0 = n" for n :: nat
  by (induction n) simp_all

lemma counts_up_max: "counts_up ns \<Longrightarrow> fold max ns 0 = length ns"
  by (metis counts_up_def fold_max_upt)

lemma versions_snapshot: "versions_of i (snapshotVersion t vid row tags db)
    = versions_of i db @ (if i = cr_id row then [Suc (fold max (versions_of i db) 0)] else [])"
  by (auto simp: snapshotVersion_def versions_of_def)

lemma snapshot_numbered: "versions_numbered db \<Longrightarrow> versions_numbered (snapshotVersion t vid row tags db)"
  by (simp add: versions_numbered_def versions_snapshot counts_up_max counts_up_snoc)

lemma numbered_write [simp]: "versions_numbered (write_char j f db) = versions_numbered db"
  by (simp add: versions_numbered_def)

lemma versions_step: "versions_numbered db \<Longrightarrow> versions_numbered (char_step e db)"
proof (cases e)
  case (Creates t i cc avatar)
  assume "versions_numbered db"
  then show ?thesis using Creates by (simp add: create_character_def Let_def versions_numbered_def versions_of_def split_beta)
next
  case (HardDeletes i)
  assume v: "versions_numbered db"
  have "versions_of j (hardDelete i db) = (if j = i then [] else versions_of j db)" for j
    by (auto simp: hardDelete_def versions_of_def filter_empty_conv intro!: arg_cong [of _ _ "map vr_version"] filter_cong)
  then show ?thesis using v HardDeletes by (auto simp: versions_numbered_def)
next
  case (Updates t vid i p)
  assume "versions_numbered db"
  then show ?thesis using Updates
    by (auto simp: update_character_def update_tx_def snapshot_numbered split: option.split)
next
  case (RestoresVersion t vid i v)
  assume "versions_numbered db"
  then show ?thesis using RestoresVersion by (auto simp: restoreVersion_def snapshot_numbered split: option.split)
qed (auto simp: softDelete_def restore_character_def touchUsage_def)

interpretation histories: event_system char_step versions_numbered
  by unfold_locales (rule versions_step)

lemma rows_write: "r \<in> set (char_rows (write_char i f db)) \<Longrightarrow> r \<in> set (char_rows db) \<or> (\<exists>r' \<in> set (char_rows db). r = f r')"
  by (auto simp: write_char_def split: if_splits)

lemma rows_snapshot [simp]: "char_rows (snapshotVersion t vid row tags db) = char_rows db"
  by (simp add: snapshotVersion_def)

lemma tables_write [simp]: "tag_rows (write_char i f db) = tag_rows db" "tag_rows (snapshotVersion t vid row tags db) = tag_rows db"
  by (simp_all add: write_char_def snapshotVersion_def)

text \<open>A write that may grow the table and rewrites the tags of one row.\<close>

lemma tags_rewritten:
  assumes "tags_normal db" and "char_rows db' = char_rows db" and "table_ok rows"
    and "\<And>us. in_table (tag_rows db) us \<Longrightarrow> in_table rows us"
    and "\<And>r. in_table (tag_rows db) (cc_tags (cr_card r)) \<Longrightarrow> in_table rows (cc_tags (cr_card (f r)))"
  shows "tags_normal ((write_char i f db')\<lparr>tag_rows := rows\<rparr>)"
  using assms by (auto simp: tags_normal_table write_char_def)

lemma tags_same_table:
  assumes "tags_normal db" and "\<And>r. cc_tags (cr_card (f r)) = cc_tags (cr_card r)"
  shows "tags_normal (write_char i f db)"
  using assms by (auto simp: tags_normal_table write_char_def)

lemma tags_step: "tags_normal db \<Longrightarrow> tags_normal (char_step e db)"
proof -
  assume n: "tags_normal db"
  then have ok: "table_ok (tag_rows db)" by (simp add: tags_normal_table)
  note props = replaceTags_props [OF ok]
  show ?thesis
  proof (cases e)
    case (Creates t i cc avatar)
    have "in_table rows [] " for rows by (simp add: in_table_def)
    then show ?thesis using Creates n props by (auto simp: create_character_def Let_def split_beta tags_normal_table)
  next
    case (Updates t vid i p)
    show ?thesis
    proof (cases "get_character i db")
      case None
      then show ?thesis using n Updates by (simp add: update_character_def)
    next
      case (Some r)
      let ?rows = "case cp_tags p of Some ts \<Rightarrow> snd (replaceTags ts (tag_rows db)) | None \<Rightarrow> tag_rows db"
      have grows: "table_ok ?rows" "\<And>us. in_table (tag_rows db) us \<Longrightarrow> in_table ?rows us"
        using ok props by (auto split: option.split)
      have "tags_normal ((write_char i (patched_row t (tag_rows db) r p) (snapshotVersion t vid r (cc_tags (cr_card r)) db))
          \<lparr>tag_rows := ?rows\<rparr>)"
        by (rule tags_rewritten [OF n _ grows])
          (use props(3) in \<open>simp_all add: patched_row_def Let_def split: option.split\<close>)
      then show ?thesis using Some Updates by (simp add: update_character_def update_tx_def)
    qed
  next
    case (RestoresVersion t vid i v)
    have "tags_normal ((write_char i (restored_row t (tag_rows db) ver) (snapshotVersion t vid r tags db))
        \<lparr>tag_rows := snd (replaceTags (cc_tags (vr_card ver)) (tag_rows db))\<rparr>)" for ver r tags
      by (rule tags_rewritten [OF n _ props(1,2)]) (simp_all add: restored_row_def props(3))
    then show ?thesis using n RestoresVersion by (simp add: restoreVersion_def split: option.split)
  next
    case (HardDeletes i)
    then show ?thesis using n by (simp add: hardDelete_def tags_normal_table)
  qed (use n in \<open>simp_all add: softDelete_def restore_character_def touchUsage_def tags_same_table\<close>)
qed

interpretation tagged: event_system char_step tags_normal
  by unfold_locales (rule tags_step)


definition empty_db :: character_db where
  "empty_db = \<lparr>char_rows = [], version_rows = [], tag_rows = []\<rparr>"

text \<open>Whatever is written, the versions of every character are numbered from 1 upwards in the order they were made,
  without a gap, also after the character was deleted for good and its identifier used again.\<close>

theorem history_numbered:
  "\<exists>n. versions_of i (run_events char_step ops empty_db) = [1..<Suc n]"
proof -
  have "versions_numbered empty_db" by (simp add: versions_numbered_def versions_of_def empty_db_def)
  then have "versions_numbered (run_events char_step ops empty_db)" by (rule histories.inv_run)
  then have "counts_up (versions_of i (run_events char_step ops empty_db))" by (simp only: versions_numbered_def)
  then show ?thesis unfolding counts_up_def by blast
qed

lemma get_write_same:
  assumes "get_character i db = Some r" and "cr_id (f r) = i"
  shows "get_character i (write_char i f db) = Some (f r)"
proof -
  have "List.find (\<lambda>r. cr_id r = i) (map (\<lambda>r. if cr_id r = i then f r else r) rs) = Some (f r)"
    if "List.find (\<lambda>r. cr_id r = i) rs = Some r" for rs
    using that by (induction rs) (auto simp: assms(2) split: if_splits)
  then show ?thesis using assms(1) by (simp add: get_character_def write_char_def)
qed

lemma get_snapshot [simp]: "get_character i (snapshotVersion t vid row tags db) = get_character i db"
  by (simp add: get_character_def)

lemma get_write_other: "i \<noteq> j \<Longrightarrow> (\<And>r. cr_id (f r) = cr_id r) \<Longrightarrow> get_character i (write_char j f db) = get_character i db"
proof -
  assume ij: "i \<noteq> j" and f: "\<And>r. cr_id (f r) = cr_id r"
  have "List.find (\<lambda>r. cr_id r = i) (map (\<lambda>r. if cr_id r = j then f r else r) rs) = List.find (\<lambda>r. cr_id r = i) rs" for rs
    using ij by (induction rs) (auto simp: f)
  then show ?thesis by (simp add: get_character_def write_char_def)
qed

lemma get_character_id: "get_character i db = Some r \<Longrightarrow> cr_id r = i \<and> r \<in> set (char_rows db)"
  by (auto simp: get_character_def find_Some_iff)

lemma patched_id [simp]: "cr_id (patched_row t rows e p r) = cr_id r" "cr_id (restored_row t rows v r) = cr_id r"
  by (simp_all add: patched_row_def restored_row_def Let_def)

lemma update_gives:
  assumes "get_character i db = Some r"
  shows "get_character i (update_character t vid i p db) = Some (patched_row t (tag_rows db) r p r)"
    and "version_rows (update_character t vid i p db) = version_rows db @
      [\<lparr>vr_id = vid, vr_character = i, vr_version = Suc (fold max (versions_of i db) 0), vr_card = cr_card r,
        vr_avatar = cr_avatar r, vr_createdAt = t\<rparr>]"
    and "tag_rows (update_character t vid i p db) = (case cp_tags p of Some ts \<Rightarrow> snd (replaceTags ts (tag_rows db)) | None \<Rightarrow> tag_rows db)"
proof -
  let ?db = "snapshotVersion t vid r (cc_tags (cr_card r)) db"
  let ?rows = "case cp_tags p of Some ts \<Rightarrow> snd (replaceTags ts (tag_rows db)) | None \<Rightarrow> tag_rows db"
  have db: "update_character t vid i p db = (write_char i (patched_row t (tag_rows db) r p) ?db)\<lparr>tag_rows := ?rows\<rparr>"
    using assms by (simp add: update_character_def update_tx_def)
  show "get_character i (update_character t vid i p db) = Some (patched_row t (tag_rows db) r p r)"
    unfolding db versions_tags by (rule get_write_same) (use assms get_character_id [OF assms] in simp_all)
  show "tag_rows (update_character t vid i p db) = ?rows" by (simp add: db)
  show "version_rows (update_character t vid i p db) = version_rows db @
      [\<lparr>vr_id = vid, vr_character = i, vr_version = Suc (fold max (versions_of i db) 0), vr_card = cr_card r,
        vr_avatar = cr_avatar r, vr_createdAt = t\<rparr>]"
    using get_character_id [OF assms] by (simp add: db snapshotVersion_def)
qed

text \<open>The version an update leaves, and the row after it has been restored.\<close>

definition left_version :: "int \<Rightarrow> string \<Rightarrow> char_row \<Rightarrow> nat \<Rightarrow> version_row" where
  "left_version t vid r n = \<lparr>vr_id = vid, vr_character = cr_id r, vr_version = n, vr_card = cr_card r, vr_avatar = cr_avatar r, vr_createdAt = t\<rparr>"

lemma restored_after_update:
  assumes "get_character i db = Some r" and "\<forall>v \<in> set (version_rows db). vr_id v \<noteq> vid"
  shows "\<exists>n. get_character i (restoreVersion t' vid' i vid (update_character t vid i p db))
    = Some (restored_row t' (tag_rows (update_character t vid i p db)) (left_version t vid r n) (patched_row t (tag_rows db) r p r))"
proof -
  let ?db = "update_character t vid i p db" and ?v = "left_version t vid r (Suc (fold max (versions_of i db) 0))"
  have i: "cr_id r = i" using get_character_id [OF assms(1)] by simp
  have "List.find (\<lambda>v. vr_id v = vid \<and> vr_character v = i) (vs @ [?v]) = Some ?v" if "\<forall>v \<in> set vs. vr_id v \<noteq> vid" for vs
    using that by (induction vs) (auto simp: left_version_def i)
  then have found: "List.find (\<lambda>v. vr_id v = vid \<and> vr_character v = i) (version_rows ?db) = Some ?v"
    using assms(2) by (simp add: update_gives(2) [OF assms(1)] left_version_def i)
  let ?r = "patched_row t (tag_rows db) r p r"
  have r: "get_character i ?db = Some ?r" by (rule update_gives(1) [OF assms(1)])
  have "get_character i (restoreVersion t' vid' i vid ?db) = Some (restored_row t' (tag_rows ?db) ?v ?r)"
    using found r get_character_id [OF r] by (simp add: restoreVersion_def get_write_same)
  then show ?thesis by blast
qed

text \<open>C22: an edit can be taken back: restoring the version it left brings back every text, the avatar, the tags and all
  of \<open>ext\<close> as they were before it, whatever the edit changed.\<close>

theorem edit_taken_back:
  assumes "get_character i db = Some r" and "tags_normal db" and "\<forall>v \<in> set (version_rows db). vr_id v \<noteq> vid"
  shows "\<exists>r'. get_character i (restoreVersion t' vid' i vid (update_character t vid i p db)) = Some r'
    \<and> cr_card r' = cr_card r \<and> cr_avatar r' = cr_avatar r"
proof -
  let ?rows = "tag_rows (update_character t vid i p db)"
  have ok: "table_ok (tag_rows db)" and mine: "in_table (tag_rows db) (cc_tags (cr_card r))"
    using assms(2) get_character_id [OF assms(1)] by (simp_all add: tags_normal_table)
  have "table_ok ?rows" "in_table ?rows (cc_tags (cr_card r))"
    unfolding update_gives(3) [OF assms(1)] using ok mine replaceTags_props(1,2) [OF ok] by (auto split: option.split)
  then have "replaceTags (cc_tags (cr_card r)) ?rows = (cc_tags (cr_card r), ?rows)" by (rule replaceTags_again)
  with restored_after_update [OF assms(1,3)] show ?thesis by (force simp: restored_row_def left_version_def)
qed

definition demo_row :: char_row where
  "demo_row = \<lparr>cr_id = ''a'', cr_card = \<lparr>cc_name = ''Ada'', cc_description = ''d'', cc_personality = [], cc_scenario = [],
       cc_firstMessage = ''Hi'', cc_exampleDialogues = [], cc_systemPrompt = None, cc_postHistoryInstructions = None,
       cc_creator = None, cc_creatorNotes = None, cc_tags = [], cc_ext = []\<rparr>,
     cr_avatar = None, cr_favorite = False, cr_createdAt = 0, cr_updatedAt = 0, cr_lastUsedAt = None, cr_deletedAt = None\<rparr>"

definition demo_db :: character_db where
  "demo_db = \<lparr>char_rows = [demo_row], version_rows = [], tag_rows = []\<rparr>"

definition empty_patch :: character_patch where
  "empty_patch = \<lparr>cp_name = None, cp_avatar = None, cp_description = None, cp_personality = None, cp_scenario = None,
     cp_firstMessage = None, cp_exampleDialogues = None, cp_systemPrompt = None, cp_postHistoryInstructions = None,
     cp_creator = None, cp_creatorNotes = None, cp_tags = None, cp_ext = None\<rparr>"

lemma demo_db_facts: "get_character ''a'' demo_db = Some demo_row" "\<forall>v \<in> set (version_rows demo_db). vr_id v \<noteq> vid" "tags_normal demo_db"
  by (simp_all add: get_character_def demo_db_def demo_row_def tags_normal_def in_table_def)

lemma edit_taken_back_witness:
  "\<exists>r'. get_character ''a'' (restoreVersion 2 ''w'' ''a'' ''v'' (update_character 1 ''v'' ''a'' (empty_patch\<lparr>cp_name := Some ''B''\<rparr>) demo_db)) = Some r'
    \<and> cr_card r' = cr_card demo_row \<and> cr_avatar r' = cr_avatar demo_row"
  by (rule edit_taken_back [OF demo_db_facts(1,3,2)])

section \<open>The favourite column\<close>

definition mirrors :: "char_row \<Rightarrow> bool" where
  "mirrors r \<longleftrightarrow> cr_favorite r = isFavoriteExt (cc_ext (cr_card r))"

definition favorites_mirrored :: "character_db \<Rightarrow> bool" where
  "favorites_mirrored db \<longleftrightarrow> (\<forall>r \<in> set (char_rows db). mirrors r)"

fun restores_version :: "char_op \<Rightarrow> bool" where
  "restores_version (RestoresVersion _ _ _ _) = True"
| "restores_version _ = False"

lemma mirrors_patched: "mirrors r \<Longrightarrow> mirrors (patched_row t rows e p r)"
  by (simp add: mirrors_def patched_row_def given_def Let_def split: option.split)

lemma mirrored_write:
  assumes "favorites_mirrored db" and "\<And>r. mirrors r \<Longrightarrow> mirrors (f r)"
  shows "favorites_mirrored (write_char i f db)"
  using assms by (auto simp: favorites_mirrored_def dest!: rows_write)

lemma mirrored_tags [simp]: "favorites_mirrored (db\<lparr>tag_rows := rows\<rparr>) = favorites_mirrored db"
  by (simp add: favorites_mirrored_def)

lemma mirrored_snapshot [simp]: "favorites_mirrored (snapshotVersion t vid row tags db) = favorites_mirrored db"
  by (simp add: favorites_mirrored_def)

lemma mirrored_step: "favorites_mirrored db \<Longrightarrow> \<not> restores_version e \<Longrightarrow> favorites_mirrored (char_step e db)"
proof (cases e)
  case (Updates t vid i p)
  assume "favorites_mirrored db"
  then show ?thesis using Updates mirrors_patched
    by (auto simp: update_character_def update_tx_def intro!: mirrored_write split: option.split)
qed (auto simp: softDelete_def restore_character_def touchUsage_def create_character_def hardDelete_def Let_def split_beta
       favorites_mirrored_def mirrors_def write_char_def)

text \<open>The indexed column \<open>favorite\<close> says what \<open>ext\<close> says after every sequence of writes in which no
  version is restored.\<close>

theorem favorite_column_mirrors:
  assumes "\<forall>e \<in> set ops. \<not> restores_version e" and "r \<in> set (char_rows (run_events char_step ops empty_db))"
  shows "cr_favorite r = isFavoriteExt (cc_ext (cr_card r))"
proof -
  have "favorites_mirrored (run_events char_step ops db)" if "favorites_mirrored db" "\<forall>e \<in> set ops. \<not> restores_version e" for db ops
    using that by (induction ops arbitrary: db) (simp_all add: run_events_def mirrored_step)
  moreover have "favorites_mirrored empty_db" by (simp add: favorites_mirrored_def empty_db_def)
  ultimately show ?thesis using assms by (auto simp: favorites_mirrored_def mirrors_def)
qed

lemma favorite_column_mirrors_witness:
  "\<exists>r. r \<in> set (char_rows (run_events char_step [Creates 0 ''a'' (cr_card demo_row) None, Touches 1 ''a''] empty_db))
    \<and> cr_favorite r = isFavoriteExt (cc_ext (cr_card r))"
proof -
  let ?ops = "[Creates 0 ''a'' (cr_card demo_row) None, Touches 1 ''a'']"
  have "char_rows (run_events char_step ?ops empty_db) \<noteq> []"
    by (simp add: run_events_def create_character_def touchUsage_def write_char_def empty_db_def Let_def split_beta)
  then obtain r where r: "r \<in> set (char_rows (run_events char_step ?ops empty_db))" by (metis hd_in_set)
  have "cr_favorite r = isFavoriteExt (cc_ext (cr_card r))" by (rule favorite_column_mirrors [OF _ r]) simp
  with r show ?thesis by blast
qed

text \<open>C36: restoring a version brings back \<open>ext\<close> and leaves the column: a character whose favourite mark was set
  by the edit that is taken back is listed among the favourites, and its \<open>ext\<close> says it is none.\<close>

theorem restored_favorite_stale:
  assumes "get_character i db = Some r" and "\<forall>v \<in> set (version_rows db). vr_id v \<noteq> vid"
    and "cp_ext p = Some e" and "isFavoriteExt (spread (cc_ext (cr_card r)) e) \<noteq> isFavoriteExt (cc_ext (cr_card r))"
  shows "\<exists>r'. get_character i (restoreVersion t' vid' i vid (update_character t vid i p db)) = Some r' \<and> \<not> mirrors r'"
proof -
  have "cr_favorite (patched_row t (tag_rows db) r p r) = isFavoriteExt (spread (cc_ext (cr_card r)) e)"
    using assms(3) by (simp add: patched_row_def Let_def)
  with restored_after_update [OF assms(1,2)] assms(4) show ?thesis
    by (force simp: restored_row_def left_version_def mirrors_def)
qed


lemma restored_favorite_stale_witness:
  "\<exists>r'. get_character ''a'' (restoreVersion 2 ''w'' ''a'' ''v''
      (update_character 1 ''v'' ''a'' (empty_patch\<lparr>cp_ext := Some [(''favorite'', JBool True)]\<rparr>) demo_db)) = Some r' \<and> \<not> mirrors r'"
  by (rule restored_favorite_stale [OF demo_db_facts(1,2)]) (auto simp: empty_patch_def spread_def demo_row_def isFavoriteExt_def)

section \<open>Edits that overlap\<close>

lemma jm_get_spread_other: "k \<notin> set (jm_keys b) \<Longrightarrow> jm_get (spread a b) k = jm_get a k"
  by (induction b arbitrary: a) (auto simp: spread_def)

text \<open>An edit that read the row before another one was committed writes \<open>ext\<close> as it read it: what the other
  edit set there, under a name the later edit does not mention, is gone. (The driver is synchronous, so the other edit is
  one of another process on the same database.)\<close>

theorem overlapping_edit_lost:
  assumes "get_character i db = Some r" and "cp_ext p = Some e" and "k \<notin> set (jm_keys e)"
  shows "\<exists>db' r'. update_tx t vid i r (cc_tags (cr_card r)) p (update_character t2 vid2 i p2 db) = Some db'
    \<and> get_character i db' = Some r' \<and> jm_get (cc_ext (cr_card r')) k = jm_get (cc_ext (cr_card r)) k"
proof -
  let ?db = "update_character t2 vid2 i p2 db" and ?r = "patched_row t2 (tag_rows db) r p2 r"
  have r: "get_character i ?db = Some ?r" by (rule update_gives(1) [OF assms(1)])
  let ?db' = "(write_char i (patched_row t (tag_rows ?db) r p) (snapshotVersion t vid r (cc_tags (cr_card r)) ?db))
    \<lparr>tag_rows := (case cp_tags p of Some ts \<Rightarrow> snd (replaceTags ts (tag_rows ?db)) | None \<Rightarrow> tag_rows ?db)\<rparr>"
  have "update_tx t vid i r (cc_tags (cr_card r)) p ?db = Some ?db'" using r by (simp add: update_tx_def)
  moreover have "get_character i ?db' = Some (patched_row t (tag_rows ?db) r p ?r)"
    unfolding versions_tags by (rule get_write_same) (use r get_character_id [OF assms(1)] in simp_all)
  moreover have "jm_get (cc_ext (cr_card (patched_row t (tag_rows ?db) r p ?r))) k = jm_get (cc_ext (cr_card r)) k"
    using assms(2) jm_get_spread_other [OF assms(3)] by (simp add: patched_row_def Let_def given_def)
  ultimately show ?thesis by blast
qed

lemma overlapping_edit_lost_witness:
  "\<exists>db' r'. update_tx 2 ''w'' ''a'' demo_row [] (empty_patch\<lparr>cp_ext := Some [(''x'', JNull)]\<rparr>)
      (update_character 1 ''v'' ''a'' (empty_patch\<lparr>cp_ext := Some [(''y'', JNull)]\<rparr>) demo_db) = Some db'
    \<and> get_character ''a'' db' = Some r' \<and> jm_get (cc_ext (cr_card r')) ''y'' = None"
  using overlapping_edit_lost [OF demo_db_facts(1), of "empty_patch\<lparr>cp_ext := Some [(''x'', JNull)]\<rparr>" "[(''x'', JNull)]" "''y''"
      2 "''w''" 1 "''v''" "empty_patch\<lparr>cp_ext := Some [(''y'', JNull)]\<rparr>"]
  by (simp add: demo_row_def empty_patch_def)

section \<open>The editor's draft\<close>

record character_draft =
  cd_name :: string
  cd_avatar :: string
  cd_description :: string
  cd_personality :: string
  cd_scenario :: string
  cd_firstMessage :: string
  cd_exampleDialogues :: string
  cd_systemPrompt :: string
  cd_postHistoryInstructions :: string
  cd_creator :: string
  cd_creatorNotes :: string
  cd_tags :: "string list"
  cd_favorite :: bool
  cd_alternateGreetings :: "string list"
  cd_characterVersion :: string
  cd_characterNote :: string
  cd_characterNoteDepth :: rat
  cd_characterNoteRole :: string
  cd_talkativeness :: rat

definition or_null :: "string \<Rightarrow> string option" where
  "or_null s = (if s = [] then None else Some s)"

definition objectValue :: "json option \<Rightarrow> (string, json) jmap option" where
  "objectValue v = (case v of Some (JObject fs) \<Rightarrow> Some fs | _ \<Rightarrow> None)"

text \<open>Every number of a JSON text is finite.\<close>

definition numberValue :: "json option \<Rightarrow> rat \<Rightarrow> rat" where
  "numberValue v fallback = (case v of Some (JNum x) \<Rightarrow> x | _ \<Rightarrow> fallback)"

definition member :: "(string, json) jmap option \<Rightarrow> string \<Rightarrow> json option" where
  "member m k = (case m of Some fs \<Rightarrow> jm_get fs k | None \<Rightarrow> None)"

definition draftToPatch :: "character_draft \<Rightarrow> character_patch" where
  "draftToPatch d = \<lparr>cp_name = Some (trim (cd_name d)), cp_avatar = Some (or_null (trim (cd_avatar d))),
     cp_description = Some (cd_description d), cp_personality = Some (cd_personality d), cp_scenario = Some (cd_scenario d),
     cp_firstMessage = Some (cd_firstMessage d), cp_exampleDialogues = Some (cd_exampleDialogues d),
     cp_systemPrompt = Some (or_null (cd_systemPrompt d)),
     cp_postHistoryInstructions = Some (or_null (cd_postHistoryInstructions d)),
     cp_creator = Some (or_null (cd_creator d)), cp_creatorNotes = Some (or_null (cd_creatorNotes d)),
     cp_tags = Some (cd_tags d),
     cp_ext = Some [(''favorite'', JBool (cd_favorite d)),
       (''alternateGreetings'', JArray (map JString (cd_alternateGreetings d))),
       (''characterVersion'', JString (cd_characterVersion d)),
       (''depthPrompt'', JObject [(''prompt'', JString (cd_characterNote d)), (''depth'', JNum (cd_characterNoteDepth d)),
          (''role'', JString (cd_characterNoteRole d))]),
       (''talkativeness'', JNum (cd_talkativeness d))]\<rparr>"

definition characterToDraft :: "char_row \<Rightarrow> character_draft" where
  "characterToDraft r =
     (let c = cr_card r; ext = cc_ext c; depthPrompt = objectValue (jm_get ext ''depthPrompt''); legacy = objectValue (jm_get ext ''legacy'')
      in \<lparr>cd_name = cc_name c, cd_avatar = or_empty (cr_avatar r), cd_description = cc_description c,
          cd_personality = cc_personality c, cd_scenario = cc_scenario c, cd_firstMessage = cc_firstMessage c,
          cd_exampleDialogues = cc_exampleDialogues c, cd_systemPrompt = or_empty (cc_systemPrompt c),
          cd_postHistoryInstructions = or_empty (cc_postHistoryInstructions c), cd_creator = or_empty (cc_creator c),
          cd_creatorNotes = or_empty (cc_creatorNotes c), cd_tags = cc_tags c,
          cd_favorite = (jm_get ext ''favorite'' = Some (JBool True) \<or> member legacy ''favorite'' = Some (JBool True)),
          cd_alternateGreetings = stringArray ext ''alternateGreetings'',
          cd_characterVersion = stringValue ext ''characterVersion'',
          cd_characterNote = (case member depthPrompt ''prompt'' of Some (JString s) \<Rightarrow> s | _ \<Rightarrow> []),
          cd_characterNoteDepth = max 0 (js_round (numberValue (member depthPrompt ''depth'') 4)),
          cd_characterNoteRole = (case member depthPrompt ''role'' of
             Some (JString s) \<Rightarrow> if s = ''user'' \<or> s = ''assistant'' \<or> s = ''system'' then s else ''system'' | _ \<Rightarrow> ''system''),
          cd_talkativeness = min 1 (max 0 (numberValue (jm_get ext ''talkativeness'') (numberValue (member legacy ''talkativeness'') (1 / 2))))\<rparr>)"

text \<open>A draft the editor can show: trimmed texts, linked tags, a depth that is a count, a role, and a share.\<close>

definition wf_draft :: "character_draft \<Rightarrow> bool" where
  "wf_draft d \<longleftrightarrow> trim (cd_name d) = cd_name d \<and> trim (cd_avatar d) = cd_avatar d \<and> tag_names (cd_tags d) = cd_tags d
     \<and> 0 \<le> cd_characterNoteDepth d \<and> js_round (cd_characterNoteDepth d) = cd_characterNoteDepth d
     \<and> cd_characterNoteRole d \<in> {''user'', ''assistant'', ''system''} \<and> 0 \<le> cd_talkativeness d \<and> cd_talkativeness d \<le> 1"

lemma or_empty_or_null [simp]: "or_empty (or_null s) = s"
  by (simp add: or_empty_def or_null_def)

definition draft_ext :: "(string, json) jmap \<Rightarrow> character_draft \<Rightarrow> (string, json) jmap" where
  "draft_ext ext d = spread ext (case cp_ext (draftToPatch d) of Some e \<Rightarrow> e | None \<Rightarrow> [])"

lemma draft_ext_get:
  "jm_get (draft_ext ext d) ''favorite'' = Some (JBool (cd_favorite d))"
  "stringArray (draft_ext ext d) ''alternateGreetings'' = cd_alternateGreetings d"
  "stringValue (draft_ext ext d) ''characterVersion'' = cd_characterVersion d"
  "jm_get (draft_ext ext d) ''depthPrompt'' = Some (JObject [(''prompt'', JString (cd_characterNote d)),
     (''depth'', JNum (cd_characterNoteDepth d)), (''role'', JString (cd_characterNoteRole d))])"
  "jm_get (draft_ext ext d) ''talkativeness'' = Some (JNum (cd_talkativeness d))"
  "jm_get (draft_ext ext d) ''legacy'' = jm_get ext ''legacy''"
  by (simp_all add: draft_ext_def draftToPatch_def spread_def stringArray_def stringValue_def)

lemma draft_saved:
  "cr_card (patched_row t rows r (draftToPatch d) r) = \<lparr>cc_name = trim (cd_name d), cc_description = cd_description d,
     cc_personality = cd_personality d, cc_scenario = cd_scenario d, cc_firstMessage = cd_firstMessage d,
     cc_exampleDialogues = cd_exampleDialogues d, cc_systemPrompt = or_null (cd_systemPrompt d),
     cc_postHistoryInstructions = or_null (cd_postHistoryInstructions d), cc_creator = or_null (cd_creator d),
     cc_creatorNotes = or_null (cd_creatorNotes d), cc_tags = fst (replaceTags (cd_tags d) rows), cc_ext = draft_ext (cc_ext (cr_card r)) d\<rparr>"
  "cr_avatar (patched_row t rows r (draftToPatch d) r) = or_null (trim (cd_avatar d))"
  by (simp_all add: patched_row_def draft_ext_def Let_def) (simp_all add: draftToPatch_def given_def)

text \<open>C35: what the editor saves is what it shows afterwards, field by field, the tags in the order of the table of
  tags and otherwise the same, unless the card was imported from a first-version card that is marked as a
  favourite.\<close>

theorem saved_draft_shown:
  assumes "get_character i db = Some r" and "tags_normal db" and "wf_draft d"
    and "member (objectValue (jm_get (cc_ext (cr_card r)) ''legacy'')) ''favorite'' \<noteq> Some (JBool True)"
  shows "\<exists>r'. get_character i (update_character t vid i (draftToPatch d) db) = Some r'
    \<and> characterToDraft r' = d\<lparr>cd_tags := filter (\<lambda>tag. tag \<in> set (cd_tags d))
        (tag_rows (update_character t vid i (draftToPatch d) db))\<rparr>
    \<and> mset (cd_tags (characterToDraft r')) = mset (cd_tags d)"
proof -
  let ?r = "patched_row t (tag_rows db) r (draftToPatch d) r"
  have ok: "table_ok (tag_rows db)" using assms(2) by (simp add: tags_normal_table)
  have names: "tag_names (cd_tags d) = cd_tags d" using assms(3) by (simp add: wf_draft_def)
  have shown: "characterToDraft ?r = d\<lparr>cd_tags := fst (replaceTags (cd_tags d) (tag_rows db))\<rparr>"
    using assms(3,4) unfolding characterToDraft_def Let_def draft_saved
    by (cases d) (auto simp: draft_ext_get wf_draft_def objectValue_def [of "Some _"] member_def [of "Some _"] numberValue_def [of "Some _"])
  have "tag_rows (update_character t vid i (draftToPatch d) db) = snd (replaceTags (cd_tags d) (tag_rows db))"
    unfolding update_gives(3) [OF assms(1)] by (simp add: draftToPatch_def)
  then have "fst (replaceTags (cd_tags d) (tag_rows db))
      = filter (\<lambda>tag. tag \<in> set (cd_tags d)) (tag_rows (update_character t vid i (draftToPatch d) db))"
    using replaceTags_props(5) [OF ok, of "cd_tags d"] names by simp
  moreover have "mset (cd_tags (characterToDraft ?r)) = mset (cd_tags d)"
    using replaceTags_props(4) [OF ok, of "cd_tags d"] names by (simp add: shown)
  ultimately show ?thesis using update_gives(1) [OF assms(1)] shown by metis
qed

definition demo_draft :: character_draft where
  "demo_draft = \<lparr>cd_name = ''Eve'', cd_avatar = [], cd_description = ''d'', cd_personality = [], cd_scenario = [], cd_firstMessage = ''Hi'',
     cd_exampleDialogues = [], cd_systemPrompt = ''s'', cd_postHistoryInstructions = [], cd_creator = [], cd_creatorNotes = [],
     cd_tags = [''x''], cd_favorite = True, cd_alternateGreetings = [''Ho''], cd_characterVersion = ''1'', cd_characterNote = ''n'',
     cd_characterNoteDepth = 4, cd_characterNoteRole = ''user'', cd_talkativeness = 1 / 2\<rparr>"

lemma demo_draft_wf: "wf_draft demo_draft"
proof -
  have "trim ''Eve'' = ''Eve''" "tag_names [''x''] = [''x'']" by (code_simp, code_simp)
  moreover have "js_round 4 = 4" using js_round_of_int [of 4] by simp
  ultimately show ?thesis by (simp add: wf_draft_def demo_draft_def)
qed

lemma saved_draft_shown_witness:
  "\<exists>r'. get_character ''a'' (update_character 1 ''v'' ''a'' (draftToPatch demo_draft) demo_db) = Some r' \<and> characterToDraft r' = demo_draft"
proof -
  have legacy: "member (objectValue (jm_get (cc_ext (cr_card demo_row)) ''legacy'')) ''favorite'' \<noteq> Some (JBool True)"
    by (simp add: demo_row_def objectValue_def member_def)
  let ?rows = "tag_rows (update_character 1 ''v'' ''a'' (draftToPatch demo_draft) demo_db)"
  have "filter (\<lambda>tag. tag \<in> set (cd_tags demo_draft)) ?rows = cd_tags demo_draft" by code_simp
  then have "demo_draft\<lparr>cd_tags := filter (\<lambda>tag. tag \<in> set (cd_tags demo_draft)) ?rows\<rparr> = demo_draft" by simp
  with saved_draft_shown [OF demo_db_facts(1,3) demo_draft_wf legacy, of 1 "''v''"] show ?thesis by metis
qed

text \<open>The order of the tags is not the editor's: a tag that another character used before comes first, whatever
  order was saved, and the saved draft is not the one the editor shows.\<close>

theorem saved_tags_reordered:
  "let db = snd (create_character 0 ''b'' ((cr_card demo_row)\<lparr>cc_tags := [''y'']\<rparr>) None demo_db);
       r' = get_character ''a'' (update_character 1 ''v'' ''a'' (draftToPatch (demo_draft\<lparr>cd_tags := [''x'', ''y'']\<rparr>)) db)
   in map_option (\<lambda>r'. cd_tags (characterToDraft r')) r' = Some [''y'', ''x'']"
  by code_simp

text \<open>The favourite mark of an imported first-version card cannot be removed: the editor writes \<open>favorite\<close>
  next to \<open>legacy\<close>, which the merge keeps, and shows the mark again.\<close>

theorem legacy_favorite_stays:
  assumes "get_character i db = Some r"
    and "member (objectValue (jm_get (cc_ext (cr_card r)) ''legacy'')) ''favorite'' = Some (JBool True)"
  shows "\<exists>r'. get_character i (update_character t vid i (draftToPatch (d\<lparr>cd_favorite := False\<rparr>)) db) = Some r'
    \<and> cd_favorite (characterToDraft r')"
proof -
  let ?d = "d\<lparr>cd_favorite := False\<rparr>"
  have "cd_favorite (characterToDraft (patched_row t (tag_rows db) r (draftToPatch ?d) r))"
    unfolding characterToDraft_def Let_def draft_saved using assms(2) by (simp add: draft_ext_get)
  then show ?thesis using update_gives(1) [OF assms(1)] by blast
qed


lemma legacy_favorite_stays_witness:
  "\<exists>r'. get_character ''a'' (update_character 1 ''v'' ''a'' (draftToPatch (demo_draft\<lparr>cd_favorite := False\<rparr>))
      \<lparr>char_rows = [demo_row\<lparr>cr_card := (cr_card demo_row)\<lparr>cc_ext := [(''legacy'', JObject [(''favorite'', JBool True)])]\<rparr>\<rparr>],
        version_rows = [], tag_rows = []\<rparr>) = Some r'
    \<and> cd_favorite (characterToDraft r')"
  by (rule legacy_favorite_stays) (auto simp: get_character_def demo_row_def objectValue_def member_def)

section \<open>Importing cards\<close>

text \<open>\<open>utf8\<close> decodes bytes, \<open>sha\<close> is the digest of a file.\<close>

definition detectCardKind :: "(octets \<Rightarrow> string) \<Rightarrow> octets \<Rightarrow> string + card_kind" where
  "detectCardKind utf8 bytes =
     (if subarray 0 (length PNG_SIGNATURE) bytes = PNG_SIGNATURE then Inr PngFile
      else (case trimStart (utf8 (take 256 bytes)) of
              c # _ \<Rightarrow> if c = CHR ''{'' then Inr JsonFile else Inl ''FILE_TYPE_NOT_ALLOWED''
            | [] \<Rightarrow> Inl ''FILE_TYPE_NOT_ALLOWED''))"

definition withImportMetadata :: "character_card \<Rightarrow> string \<Rightarrow> string \<Rightarrow> character_card" where
  "withImportMetadata c h form = c\<lparr>cc_ext :=
     jm_set ''_st2'' (JObject [(''importHash'', JString h), (''sourceFormat'', JString form)]) (cc_ext c)\<rparr>"

record import_source =
  im_hash :: string
  im_kind :: card_kind
  im_parsed :: parsed_card
  im_existing :: "char_row option"

text \<open>The route up to the look-up of an earlier import, and from there; an image has its avatar stored under
  \<open>thumb\<close> in between.\<close>

definition import_read ::
  "(octets \<Rightarrow> string) \<Rightarrow> (octets \<Rightarrow> string) \<Rightarrow> (octets \<Rightarrow> json option) \<Rightarrow> octets \<Rightarrow> character_db \<Rightarrow> string + import_source" where
  "import_read sha utf8 parse bytes db = (case detectCardKind utf8 bytes of
       Inl e \<Rightarrow> Inl e
     | Inr kind \<Rightarrow> (case parseCharacterCard parse bytes kind of
           Inl e \<Rightarrow> Inl e
         | Inr p \<Rightarrow> Inr \<lparr>im_hash = sha bytes, im_kind = kind, im_parsed = p, im_existing = findByImportHash (sha bytes) db\<rparr>))"

definition import_write :: "int \<Rightarrow> string \<Rightarrow> string \<Rightarrow> import_source \<Rightarrow> character_db \<Rightarrow> (char_row \<times> bool) \<times> character_db" where
  "import_write t i thumb m db = (case im_existing m of
       Some r \<Rightarrow> ((r, False), db)
     | None \<Rightarrow> (let (r, db') = create_character t i
            (withImportMetadata (pc_character (im_parsed m)) (im_hash m) (pc_sourceFormat (im_parsed m)))
            (case im_kind m of PngFile \<Rightarrow> Some thumb | JsonFile \<Rightarrow> None) db
          in ((r, True), db')))"

definition import_card ::
  "(octets \<Rightarrow> string) \<Rightarrow> (octets \<Rightarrow> string) \<Rightarrow> (octets \<Rightarrow> json option) \<Rightarrow> int \<Rightarrow> string \<Rightarrow> string \<Rightarrow> octets \<Rightarrow> character_db
    \<Rightarrow> string + (char_row \<times> bool) \<times> character_db" where
  "import_card sha utf8 parse t i thumb bytes db = (case import_read sha utf8 parse bytes db of
       Inl e \<Rightarrow> Inl e | Inr m \<Rightarrow> Inr (import_write t i thumb m db))"

definition import_step ::
  "(octets \<Rightarrow> string) \<Rightarrow> (octets \<Rightarrow> string) \<Rightarrow> (octets \<Rightarrow> json option) \<Rightarrow> int \<times> string \<times> string \<times> octets \<Rightarrow> character_db \<Rightarrow> character_db" where
  "import_step sha utf8 parse e db = (case e of (t, i, thumb, bytes) \<Rightarrow>
     (case import_card sha utf8 parse t i thumb bytes db of Inl _ \<Rightarrow> db | Inr (_, db') \<Rightarrow> db'))"

definition imported_as :: "string \<Rightarrow> character_db \<Rightarrow> char_row list" where
  "imported_as h db = filter (\<lambda>r. import_hash r = Some (JString h)) (char_rows db)"

definition imported_once :: "character_db \<Rightarrow> bool" where
  "imported_once db \<longleftrightarrow> (\<forall>h. length (imported_as h db) \<le> 1)"

lemma found_or_not: "findByImportHash h db = None \<longleftrightarrow> imported_as h db = []"
  by (auto simp: findByImportHash_def imported_as_def find_None_iff filter_empty_conv)

lemma import_write_new:
  assumes "im_existing m = None"
  shows "length (imported_as h (snd (import_write t i thumb m db))) = length (imported_as h db) + (if h = im_hash m then 1 else 0)"
  using assms
  by (simp add: import_write_def imported_as_def create_character_def withImportMetadata_def import_hash_def Let_def split_beta)

lemma import_once_step: "imported_once db \<Longrightarrow> imported_once (import_step sha utf8 parse e db)"
proof -
  assume inv: "imported_once db"
  obtain t i thumb bytes where e: "e = (t, i, thumb, bytes)" by (cases e) auto
  show ?thesis
  proof (cases "import_read sha utf8 parse bytes db")
    case (Inl x)
    then show ?thesis using inv by (simp add: import_step_def import_card_def e)
  next
    case (Inr m)
    then have step: "import_step sha utf8 parse e db = snd (import_write t i thumb m db)"
      by (simp add: import_step_def import_card_def e split: prod.split)
    have m: "im_existing m = findByImportHash (im_hash m) db" using Inr by (auto simp: import_read_def split: sum.splits)
    show ?thesis
    proof (cases "im_existing m")
      case None
      have "imported_as (im_hash m) db = []" using m None found_or_not by metis
      then show ?thesis using inv import_write_new [OF None] by (simp add: imported_once_def step)
    next
      case (Some r)
      then show ?thesis using inv by (simp add: step import_write_def)
    qed
  qed
qed

interpretation card_imports: event_system "import_step sha utf8 parse" imported_once for sha utf8 parse
  by unfold_locales (rule import_once_step)

text \<open>Imports one after the other make at most one character of a file, however often and in whatever order
  files are imported.\<close>

theorem imports_once:
  "length (imported_as h (run_events (import_step sha utf8 parse) files empty_db)) \<le> 1"
proof -
  have "imported_once empty_db" by (simp add: imported_once_def imported_as_def empty_db_def)
  then have "imported_once (run_events (import_step sha utf8 parse) files empty_db)" by (rule card_imports.inv_run)
  then show ?thesis by (simp add: imported_once_def)
qed

text \<open>Two imports of a file that overlap make two characters: both look for an earlier import before either has
  written its own, and no index forbids the second row. (As above, this takes a second process.)\<close>

theorem overlapping_imports_duplicate:
  assumes "import_read sha utf8 parse bytes db = Inr m" and "im_existing m = None"
  shows "length (imported_as (sha bytes) (snd (import_write t2 i2 thumb2 m (snd (import_write t1 i1 thumb1 m db))))) = 2"
proof -
  have m: "im_hash m = sha bytes" "im_existing m = findByImportHash (sha bytes) db"
    using assms(1) by (auto simp: import_read_def split: sum.splits)
  then have "imported_as (sha bytes) db = []" using assms(2) found_or_not by metis
  then show ?thesis by (simp add: import_write_new [OF assms(2)] m(1))
qed

definition demo_json :: "octets \<Rightarrow> json option" where
  "demo_json bs = Some (JObject [(''name'', JString ''Ada'')])"

lemma demo_import:
  "\<exists>m. import_read (\<lambda>_. ''h'') (\<lambda>_. ''{}'') demo_json [123, 125] db = Inr m \<and> im_existing m = findByImportHash ''h'' db"
proof -
  have "trimStart ''{}'' = ''{}''" "trim ''Ada'' = ''Ada''" by (code_simp, code_simp)
  then show ?thesis
    by (simp add: import_read_def detectCardKind_def subarray_def PNG_SIGNATURE_def parseCharacterCard_def parseJson_def demo_json_def
        card_of_root_def stringValue_def Let_def)
qed

lemma overlapping_imports_duplicate_witness:
  "\<exists>m. import_read (\<lambda>_. ''h'') (\<lambda>_. ''{}'') demo_json [123, 125] demo_db = Inr m
    \<and> length (imported_as ''h'' (snd (import_write 2 ''c'' [] m (snd (import_write 1 ''b'' [] m demo_db))))) = 2"
proof -
  obtain m where m: "import_read (\<lambda>_. ''h'') (\<lambda>_. ''{}'') demo_json [123, 125] demo_db = Inr m"
      "im_existing m = findByImportHash ''h'' demo_db" using demo_import by blast
  then have "im_existing m = None" by (simp add: findByImportHash_def demo_db_def demo_row_def import_hash_def)
  from overlapping_imports_duplicate [OF m(1) this] m(1) show ?thesis by blast
qed

text \<open>A file whose character is in the trash cannot be imported again: the import answers with the deleted
  character and changes nothing.\<close>

theorem deleted_character_not_reimported:
  assumes "import_read sha utf8 parse bytes db = Inr m" and "imported_as (sha bytes) db = [r]" and "cr_deletedAt r = Some d"
  shows "\<exists>r'. import_card sha utf8 parse t i thumb bytes db = Inr ((r', False), db) \<and> cr_deletedAt r' \<noteq> None"
proof -
  have "findByImportHash (sha bytes) db \<noteq> None" using found_or_not assms(2) by (metis list.distinct(1))
  then obtain r' where r': "findByImportHash (sha bytes) db = Some r'" by auto
  then have "r' \<in> set (imported_as (sha bytes) db)" by (auto simp: findByImportHash_def imported_as_def find_Some_iff)
  then have "r' = r" using assms(2) by simp
  have "im_existing m = Some r'" using assms(1) r' by (auto simp: import_read_def split: sum.splits)
  then show ?thesis using assms(1,3) \<open>r' = r\<close> by (simp add: import_card_def import_write_def)
qed

lemma deleted_character_not_reimported_witness:
  "\<exists>r'. import_card (\<lambda>_. ''h'') (\<lambda>_. ''{}'') demo_json 9 ''b'' [] [123, 125]
      \<lparr>char_rows = [demo_row\<lparr>cr_card := withImportMetadata (cr_card demo_row) ''h'' ''json-v1'', cr_deletedAt := Some 5\<rparr>], version_rows = [], tag_rows = []\<rparr>
    = Inr ((r', False), \<lparr>char_rows = [demo_row\<lparr>cr_card := withImportMetadata (cr_card demo_row) ''h'' ''json-v1'', cr_deletedAt := Some 5\<rparr>],
        version_rows = [], tag_rows = []\<rparr>) \<and> cr_deletedAt r' \<noteq> None"
proof -
  let ?r = "demo_row\<lparr>cr_card := withImportMetadata (cr_card demo_row) ''h'' ''json-v1'', cr_deletedAt := Some 5\<rparr>"
  let ?db = "\<lparr>char_rows = [?r], version_rows = [], tag_rows = []\<rparr>"
  obtain m where m: "import_read (\<lambda>_. ''h'') (\<lambda>_. ''{}'') demo_json [123, 125] ?db = Inr m" using demo_import by blast
  have "imported_as ''h'' ?db = [?r]" by (simp add: imported_as_def import_hash_def withImportMetadata_def demo_row_def)
  from deleted_character_not_reimported [OF m this, where d = 5] show ?thesis by simp
qed

end
