(* ===== verification/Store_Writes.thy ===== *)
theory Store_Writes
  imports Message_Drafts
begin

text \<open>
  The writers of the message tables together: the message repository (\<open>Message_Rows\<close>), the drafts
  (\<open>Message_Drafts\<close>) and the chat repository (\<open>Chat_Store\<close>), interleaved in any order, starting from empty
  tables. Each operation is one transaction. Copies of a chat (\<open>Chat_Snapshots\<close>) and imported archives write
  whole chats of their own and are not among them.

  The theorems describe the swipes and the edit history of a message of such a store. The authored greeting
  of a chat is left out of the first: it is inserted without a variant count
  (\<open>Chat_Store.greeting_regenerates_once\<close> shows what follows).
\<close>

section \<open>Writes\<close>

datatype store_op =
  Written draft_op
| NewChat chat_create greeting string string string int
| PatchChat string chat_update int
| TouchChat string int
| CountChat string nat int
| ClearBackground string
| TrashChat string int
| UntrashChat string int
| PurgeChat string
| NewBranch string string string int
| ReorderChats string "string list"

fun store_step :: "store_op \<Rightarrow> db \<Rightarrow> db" where
  "store_step (Written e) s = draft_step e s"
| "store_step (NewChat input g ch br msg_id now) s = snd (create_chat input g ch br msg_id now s)"
| "store_step (PatchChat i p now) s = snd (transaction (update_chat_tx i p now) s)"
| "store_step (TouchChat i now) s = touch i now s"
| "store_step (CountChat i n now) s = setMessageCount i n now s"
| "store_step (ClearBackground b) s = clearBackgroundReference b s"
| "store_step (TrashChat i now) s = snd (softDelete i now s)"
| "store_step (UntrashChat i now) s = snd (restore_chat i now s)"
| "store_step (PurgeChat i) s = snd (hardDelete i s)"
| "store_step (NewBranch ch name new_id now) s = (case createBranch ch name new_id now s of Inl e \<Rightarrow> s | Inr s' \<Rightarrow> s')"
| "store_step (ReorderChats character ids) s = snd (reorder character ids s)"

text \<open>The ids given to authored greetings.\<close>

fun greeting_ids :: "store_op \<Rightarrow> string set" where
  "greeting_ids (NewChat input g ch br msg_id now) = greeted g msg_id"
| "greeting_ids _ = {}"

definition greetings :: "store_op list \<Rightarrow> string set" where
  "greetings es = (\<Union>e \<in> set es. greeting_ids e)"

section \<open>The invariant of the tables\<close>

lemma store_ok_draft_step:
  assumes "store_ok G s"
  shows "store_ok G (draft_step e s)"
proof (cases e)
  case (CommitDraft i msg_id now)
  show ?thesis
  proof (cases rule: commit_cases [of i msg_id now s])
    case unchanged
    then show ?thesis using assms CommitDraft by simp
  next
    case (committed d s1)
    have "store_ok G s1"
      by (rule store_ok_new_message [OF assms committed(2)]) (simp_all add: committed_row_def)
    then have "store_ok G (rewrite_draft i f s1)" for f
      by (rule store_ok_same) (simp_all add: rewrite_draft_def)
    then show ?thesis using committed(3) CommitDraft by simp
  qed
next
  case (OtherWrite x)
  then show ?thesis using store_ok_step [OF assms] by simp
qed (use store_ok_same [OF assms] in \<open>auto simp: create_draft_def transaction_def Let_def update_draft_def
    rewrite_draft_def abort_draft_def sweep_def split: option.splits\<close>)

lemma store_ok_store_step:
  assumes "store_ok G s" and "greeting_ids e \<subseteq> G"
  shows "store_ok G (store_step e s)"
proof (cases e)
  case (Written x)
  then show ?thesis using store_ok_draft_step [OF assms(1)] by simp
next
  case (NewChat input g ch br msg_id now)
  then show ?thesis using store_ok_create_chat [OF assms(1)] assms(2) by simp
next
  case (PurgeChat i)
  then show ?thesis using store_ok_hard_delete [OF assms(1)] by simp
qed (use store_ok_same [OF assms(1)] in \<open>auto simp: transaction_def update_chat_tx_def Let_def update_chats_def touch_def
    setMessageCount_def clearBackgroundReference_def softDelete_def restore_chat_def createBranch_def insert_branch_def
    reorder_def split: sum.splits if_splits\<close>)

definition bare :: "db \<Rightarrow> bool" where
  "bare s \<longleftrightarrow> messages s = [] \<and> messageVariants s = [] \<and> messageContentRevisions s = []"

lemma store_ok_reached:
  assumes "bare s"
  shows "store_ok (greetings es) (run_events store_step es s)"
proof -
  have "store_ok (greetings es) s" using assms by (simp add: bare_def store_ok_def archived_ok_def)
  then have "set es' \<subseteq> set es \<Longrightarrow> store_ok (greetings es) (run_events store_step es' s)" for es'
  proof (induction es' arbitrary: s)
    case (Cons e es')
    then have "greeting_ids e \<subseteq> greetings es" by (auto simp: greetings_def)
    with Cons show ?case by (simp add: store_ok_store_step)
  qed simp
  then show ?thesis by simp
qed

text \<open>The positions of the texts archived for a message, as a list.\<close>

lemma archived_positions:
  assumes "archived_ok ids ts"
  shows "distinct (map a_position (filter (\<lambda>t. a_messageId t = i) ts))"
    and "set (map a_position (filter (\<lambda>t. a_messageId t = i) ts)) = positions ts i"
proof -
  have "distinct (map (\<lambda>t. (a_messageId t, a_position t)) (filter (\<lambda>t. a_messageId t = i) ts))"
    using assms unfolding archived_ok_def by (blast intro: distinct_map_filter)
  then show "distinct (map a_position (filter (\<lambda>t. a_messageId t = i) ts))" by (auto simp: distinct_map inj_on_def)
qed (auto simp: positions_def)

section \<open>Properties\<close>

text \<open>C6: the variants of a message stay a permutation with one hole: after any writes of the message, draft and
  chat repositories, in any order, from empty tables on, a message that is not the authored greeting of a
  chat has an active position below its count, and its stored variants take the other positions below the
  count, each exactly once. The archived edits of every message are numbered from zero without gaps.\<close>

theorem variants_stay_permutation:
  assumes "bare s" and "m \<in> set (messages (run_events store_step es s))"
  shows "let s' = run_events store_step es s; archived = (\<lambda>ts. map a_position (filter (\<lambda>t. a_messageId t = m_id m) ts))
    in (m_id m \<in> greetings es
        \<or> (\<exists>p < m_variantCount m. m_activeVariantPosition m = Some p
             \<and> mset (p # archived (messageVariants s')) = mset [0..<m_variantCount m]))
      \<and> mset (archived (messageContentRevisions s')) = mset [0..<m_contentRevisionCount m]"
proof -
  let ?s = "run_events store_step es s"
  note ok = store_okD [OF store_ok_reached [OF assms(1), of es]]
  have same: "mset xs = mset ys" if "distinct xs" "distinct ys" "set xs = set ys" for xs ys :: "nat list"
    using that set_eq_iff_mset_eq_distinct by blast
  have swipe: "\<exists>p < m_variantCount m. m_activeVariantPosition m = Some p
      \<and> mset (p # map a_position (filter (\<lambda>t. a_messageId t = m_id m) (messageVariants ?s))) = mset [0..<m_variantCount m]"
    if out: "m_id m \<notin> greetings es"
  proof -
    have shape: "swipe_ok (messageVariants ?s) m" using ok(4) [OF assms(2) out] .
    then obtain p where p: "m_activeVariantPosition m = Some p" "p < m_variantCount m"
      "positions (messageVariants ?s) (m_id m) = set [0..<m_variantCount m] - {p}"
      by (auto simp: swipe_ok_def activePosition_def)
    have "mset (p # map a_position (filter (\<lambda>t. a_messageId t = m_id m) (messageVariants ?s))) = mset [0..<m_variantCount m]"
      by (rule same) (use archived_positions [OF ok(2), of "m_id m"] p in auto)
    with p show ?thesis by blast
  qed
  have "history_ok (messageContentRevisions ?s) m" using ok(5) [OF assms(2)] .
  then have "mset (map a_position (filter (\<lambda>t. a_messageId t = m_id m) (messageContentRevisions ?s)))
      = mset [0..<m_contentRevisionCount m]"
    by (intro same) (use archived_positions [OF ok(3), of "m_id m"] in \<open>simp_all add: history_ok_def\<close>)
  with swipe show ?thesis unfolding Let_def by blast
qed

text \<open>A chat with a greeting, and a second message that was regenerated and edited.\<close>

definition demo_writes :: "store_op list" where
  "demo_writes = NewChat plain_chat (GreetingText ''Hello'') ''chat'' ''main'' ''g'' 1
     # map (\<lambda>e. Written (OtherWrite e)) demo_ops"

lemma demo_bare: "bare demo_db"
  by (simp add: bare_def demo_db_def)

lemma demo_greetings: "greetings demo_writes = {''g''}"
proof -
  have "greetingContent (GreetingText ''Hello'') \<noteq> None" by code_simp
  then show ?thesis by (auto simp: greetings_def demo_writes_def greeted_def)
qed

lemma variants_stay_permutation_witness:
  "\<exists>m \<in> set (messages (run_events store_step demo_writes demo_db)). m_variantCount m = 2
    \<and> (\<exists>p < 2. mset (p # map a_position (filter (\<lambda>t. a_messageId t = ''m'')
          (messageVariants (run_events store_step demo_writes demo_db)))) = {#0, 1#})"
proof -
  let ?s = "run_events store_step demo_writes demo_db"
  have "list_ex (\<lambda>m. m_id m = ''m'' \<and> m_variantCount m = 2) (messages ?s)" by code_simp
  then obtain m where m: "m \<in> set (messages ?s)" "m_id m = ''m''" "m_variantCount m = 2" by (auto simp: list_ex_iff)
  have out: "m_id m \<notin> greetings demo_writes" by (simp add: demo_greetings m(2))
  from variants_stay_permutation [OF demo_bare m(1)] out
  have "\<exists>p < 2. mset (p # map a_position (filter (\<lambda>t. a_messageId t = ''m'') (messageVariants ?s))) = mset [0..<2]"
    unfolding Let_def m(2,3) by blast
  moreover have "mset [0..<2] = {#0, 1 :: nat#}" by (simp add: numeral_2_eq_2 add_mset_commute)
  ultimately show ?thesis using m(1,3) by metis
qed

text \<open>C7: to its user a message is a list of texts with a cursor: activating a variant moves the cursor and
  changes no text, and a regeneration appends the new text and shows it, keeping every earlier one. Refused
  activations change nothing. This holds in every store reached from empty tables by writes of the message,
  draft and chat repositories, for every message that is not the authored greeting of a chat.\<close>

theorem swipes_refine_list:
  assumes "bare s0" and "s = run_events store_step es s0" and "i \<notin> greetings es"
    and "new_id \<notin> set (map a_id (messageVariants s))"
  shows "swipes i (message_step (SetActiveVariant i p expected new_id now) s) = map_option (show_swipe p expected) (swipes i s)
    \<and> swipes i (message_step (ReplaceAsVariant i archived text meta new_id now) s)
        = map_option (add_swipe archived text) (swipes i s)"
proof -
  have ok: "store_ok (greetings es) s" unfolding assms(2) by (rule store_ok_reached [OF assms(1)])
  show ?thesis using show_swipe_refines [OF ok assms(3,4)] add_swipe_refines [OF ok assms(3,4)] by simp
qed

lemma swipes_refine_list_witness:
  "swipes ''m'' (message_step (SetActiveVariant ''m'' 0 None ''v1'' 4) (run_events store_step demo_writes demo_db))
    = Some \<lparr>texts = [''first'', ''third''], cursor = 0, version = 4\<rparr>"
proof -
  have "''m'' \<notin> greetings demo_writes" by (simp add: demo_greetings)
  moreover have "''v1'' \<notin> set (map a_id (messageVariants (run_events store_step demo_writes demo_db)))" by code_simp
  moreover have "map_option (show_swipe 0 None) (swipes ''m'' (run_events store_step demo_writes demo_db))
    = Some \<lparr>texts = [''first'', ''third''], cursor = 0, version = 4\<rparr>" by code_simp
  ultimately show ?thesis
    using swipes_refine_list [OF demo_bare refl, of "''m''" demo_writes "''v1''" 0 None 4] by simp
qed

end
