(* ===== verification/Archives.thy ===== *)
theory Archives
  imports Prelude "HOL-Library.Word"
begin

unbundle bit_operations_syntax

text \<open>
  The extraction of packages (\<open>apps/server/src/lib/packageArchive.ts\<close>, \<open>tarballArchive.ts\<close>): ZIP and tar archives of
  plugins, themes and imported data, unpacked into a staging directory. The file system is a map from absolute
  paths, as lists of names, to folders and contents. What the archive libraries deliver is an argument: a list of
  events, each an entry or a failure. An entry carries what its stream yields and whether the signal has been
  aborted when it is handled. A file is written under a temporary name and renamed, which is one step here.
\<close>

section \<open>Paths and files\<close>

type_synonym path = "string list"

datatype node = Folder | Content "8 word list"

type_synonym files = "path \<Rightarrow> node option"

definition below :: "path \<Rightarrow> path \<Rightarrow> bool" where
  "below d p \<longleftrightarrow> take (length d) p = d"

text \<open>\<open>path.resolve\<close> on the names of an entry: each is taken apart at its slashes.\<close>

definition resolve_step :: "path \<Rightarrow> string \<Rightarrow> path" where
  "resolve_step p s = (if s = '''' \<or> s = ''.'' then p else if s = ''..'' then butlast p else p @ [s])"

definition resolve_path :: "path \<Rightarrow> string list \<Rightarrow> path" where
  "resolve_path base ss = foldl (\<lambda>p s. foldl resolve_step (if startsWith s ''/'' then [] else p) (split_char (CHR ''/'') s)) base ss"

text \<open>\<open>mkdir\<close> with \<open>recursive\<close>, and the write of a file; \<open>None\<close> is an error of the system.\<close>

fun make_folders :: "path list \<Rightarrow> files \<Rightarrow> files option" where
  "make_folders [] fs = Some fs"
| "make_folders (p # ps) fs = (case fs p of
       None \<Rightarrow> make_folders ps (fs(p := Some Folder))
     | Some Folder \<Rightarrow> make_folders ps fs
     | Some (Content _) \<Rightarrow> None)"

definition ancestors :: "path \<Rightarrow> path list" where
  "ancestors p = map (\<lambda>n. take n p) [1..<Suc (length p)]"

definition mkdir :: "path \<Rightarrow> files \<Rightarrow> files option" where
  "mkdir p fs = make_folders (ancestors p) fs"

definition write_file :: "path \<Rightarrow> 8 word list \<Rightarrow> files \<Rightarrow> files option" where
  "write_file p c fs = (if fs p = Some Folder then None else Some (fs(p := Some (Content c))))"

definition rm_recursive :: "path \<Rightarrow> files \<Rightarrow> files" where
  "rm_recursive d fs = (\<lambda>p. if below d p then None else fs p)"

section \<open>Names of entries\<close>

record archive_limits =
  maxArchiveBytes :: nat
  maxEntries :: nat
  maxEntryBytes :: nat
  maxExpandedBytes :: nat

definition DEFAULT_PACKAGE_ARCHIVE_LIMITS :: archive_limits where
  "DEFAULT_PACKAGE_ARCHIVE_LIMITS = \<lparr>maxArchiveBytes = 25 * 1024 * 1024, maxEntries = 2000,
     maxEntryBytes = 32 * 1024 * 1024, maxExpandedBytes = 100 * 1024 * 1024\<rparr>"

definition drive_letter :: "string \<Rightarrow> bool" where
  "drive_letter s \<longleftrightarrow> (case s of c # d # _ \<Rightarrow> d = CHR '':'' \<and> (of_char c \<in> {65..90 :: nat} \<or> of_char c \<in> {97..122 :: nat}) | _ \<Rightarrow> False)"

definition unsafe_segment :: "string \<Rightarrow> bool" where
  "unsafe_segment s \<longleftrightarrow> s = '''' \<or> s = ''.'' \<or> s = ''..''"

definition validatePackageEntryPath :: "string \<Rightarrow> string + string list" where
  "validatePackageEntryPath fileName =
     (if fileName = [] \<or> 1024 < length fileName \<or> CHR 0x00 \<in> set fileName \<or> CHR 0x5C \<in> set fileName
         \<or> startsWith fileName ''/'' \<or> drive_letter fileName then Inl ''unsafe entry path''
      else (let segments = (if endsWith fileName ''/'' then butlast (split_char (CHR ''/'') fileName) else split_char (CHR ''/'') fileName)
            in if segments = [] \<or> list_ex unsafe_segment segments then Inl ''unsafe entry path'' else Inr segments))"

section \<open>ZIP\<close>

record zip_entry =
  ze_fileName :: string
  ze_generalPurposeBitFlag :: "16 word"
  ze_externalFileAttributes :: "32 word"
  ze_uncompressedSize :: nat
  ze_stream :: "8 word list option"
  ze_aborted :: bool

datatype 'e archive_event = Entry 'e | Broken string

record extraction =
  ex_entries :: nat
  ex_bytes :: nat
  ex_files :: files

definition unixFileType :: "zip_entry \<Rightarrow> 32 word" where
  "unixFileType e = drop_bit 16 (ze_externalFileAttributes e) AND 61440"

text \<open>A folder or a file of the archive at its place; on an error the files as they are then.\<close>

definition place_folder :: "path \<Rightarrow> extraction \<Rightarrow> (string \<times> files) + extraction" where
  "place_folder target st = (case mkdir target (ex_files st) of
       None \<Rightarrow> Inl (''mkdir'', ex_files st) | Some fs \<Rightarrow> Inr (st\<lparr>ex_files := fs\<rparr>))"

definition place_file :: "path \<Rightarrow> 8 word list option \<Rightarrow> extraction \<Rightarrow> (string \<times> files) + extraction" where
  "place_file target content st = (case mkdir (butlast target) (ex_files st) of
       None \<Rightarrow> Inl (''mkdir'', ex_files st)
     | Some fs \<Rightarrow> (case content of
           None \<Rightarrow> Inl (''stream'', fs)
         | Some c \<Rightarrow> (case write_file target c fs of None \<Rightarrow> Inl (''rename'', fs) | Some fs' \<Rightarrow> Inr (st\<lparr>ex_files := fs'\<rparr>))))"

definition zip_step :: "archive_limits \<Rightarrow> path \<Rightarrow> zip_entry \<Rightarrow> extraction \<Rightarrow> (string \<times> files) + extraction" where
  "zip_step limits destination e st =
     (if ze_aborted e then Inl (''ABORTED'', ex_files st)
      else if maxEntries limits < Suc (ex_entries st) then Inl (''archive contains too many entries'', ex_files st)
      else if ze_generalPurposeBitFlag e AND 1 \<noteq> 0 then Inl (''encrypted entries are not supported'', ex_files st)
      else if unixFileType e = 40960 then Inl (''symbolic links are not allowed'', ex_files st)
      else (case validatePackageEntryPath (ze_fileName e) of
              Inl r \<Rightarrow> Inl (r, ex_files st)
            | Inr segments \<Rightarrow>
                (let expanded = ex_bytes st + ze_uncompressedSize e;
                     st1 = st\<lparr>ex_entries := Suc (ex_entries st), ex_bytes := expanded\<rparr>;
                     target = resolve_path destination segments
                 in if maxEntryBytes limits < ze_uncompressedSize e \<or> maxExpandedBytes limits < expanded
                    then Inl (''archive exceeds the expanded size limit'', ex_files st)
                    else if endsWith (ze_fileName e) ''/'' then place_folder target st1
                    else place_file target (ze_stream e) st1)))"

section \<open>Tar\<close>

record tar_entry =
  te_type :: string
  te_path :: string
  te_size :: nat
  te_stream :: "8 word list option"
  te_aborted :: bool

definition FILE_TYPES :: "string list" where
  "FILE_TYPES = [''File'', ''OldFile'', ''ContiguousFile'']"

definition normalizeDirPath :: "string \<Rightarrow> string" where
  "normalizeDirPath p = (if endsWith p ''/'' then p else p @ ''/'')"

definition handleEntry :: "archive_limits \<Rightarrow> path \<Rightarrow> tar_entry \<Rightarrow> extraction \<Rightarrow> (string \<times> files) + extraction" where
  "handleEntry limits destination e st =
     (if te_aborted e then Inl (''ABORTED'', ex_files st)
      else if maxEntries limits < Suc (ex_entries st) then Inl (''archive contains too many entries'', ex_files st)
      else (let st1 = st\<lparr>ex_entries := Suc (ex_entries st)\<rparr>
            in if te_type e = ''Directory'' then
                 (case validatePackageEntryPath (normalizeDirPath (te_path e)) of
                    Inl r \<Rightarrow> Inl (r, ex_files st)
                  | Inr segments \<Rightarrow> place_folder (resolve_path destination segments) st1)
               else if te_type e \<in> set FILE_TYPES then
                 (let expanded = ex_bytes st + te_size e
                  in if maxEntryBytes limits < te_size e \<or> maxExpandedBytes limits < expanded
                     then Inl (''archive exceeds the expanded size limit'', ex_files st)
                     else (case validatePackageEntryPath (te_path e) of
                             Inl r \<Rightarrow> Inl (r, ex_files st)
                           | Inr segments \<Rightarrow>
                               place_file (resolve_path destination segments) (te_stream e) (st1\<lparr>ex_bytes := expanded\<rparr>)))
               else Inl (''unsupported archive entry type'', ex_files st)))"

section \<open>The whole archive\<close>

text \<open>Entries one after the other, up to the first failure.\<close>

fun extract_entries ::
  "('e \<Rightarrow> extraction \<Rightarrow> (string \<times> files) + extraction) \<Rightarrow> 'e archive_event list \<Rightarrow> extraction \<Rightarrow> (string \<times> files) + extraction" where
  "extract_entries step [] st = Inr st"
| "extract_entries step (Broken r # es) st = Inl (r, ex_files st)"
| "extract_entries step (Entry e # es) st = (case step e st of Inl f \<Rightarrow> Inl f | Inr st' \<Rightarrow> extract_entries step es st')"

text \<open>What both do with the result: after a failure the destination is removed.\<close>

definition conclude :: "path \<Rightarrow> (string \<times> files) + extraction \<Rightarrow> (string + nat \<times> nat) \<times> files" where
  "conclude destination r = (case r of
       Inl (e, fs) \<Rightarrow> (Inl e, rm_recursive destination fs)
     | Inr st \<Rightarrow> (Inr (ex_entries st, ex_bytes st), ex_files st))"

text \<open>An archive on disk: whether it is a file, its size, and its events when it could be opened.\<close>

record 'e archive =
  ar_isFile :: bool
  ar_size :: nat
  ar_events :: "'e archive_event list option"

definition extractPackageArchive ::
  "archive_limits \<Rightarrow> path \<Rightarrow> bool \<Rightarrow> zip_entry archive \<Rightarrow> files \<Rightarrow> (string + nat \<times> nat) \<times> files" where
  "extractPackageArchive limits destination aborted archive fs =
     (if aborted then (Inl ''ABORTED'', fs)
      else if \<not> ar_isFile archive \<or> maxArchiveBytes limits < ar_size archive
      then (Inl ''archive exceeds the compressed size limit'', fs)
      else (case mkdir destination fs of
              None \<Rightarrow> (Inl ''mkdir'', fs)
            | Some fs1 \<Rightarrow> (case ar_events archive of
                  None \<Rightarrow> (Inl ''archive could not be opened'', fs1)
                | Some es \<Rightarrow> conclude destination
                    (extract_entries (zip_step limits destination) es \<lparr>ex_entries = 0, ex_bytes = 0, ex_files = fs1\<rparr>))))"

text \<open>The tar reader has no separate opening: \<open>None\<close> stands for a file that is not compressed by \<open>gzip\<close>, found
  before the destination is made. \<open>aborted_after\<close> is the signal at the end of the archive.\<close>

definition extractTarGzArchive ::
  "archive_limits \<Rightarrow> path \<Rightarrow> bool \<Rightarrow> bool \<Rightarrow> tar_entry archive \<Rightarrow> files \<Rightarrow> (string + nat \<times> nat) \<times> files" where
  "extractTarGzArchive limits destination aborted aborted_after archive fs =
     (if aborted then (Inl ''ABORTED'', fs)
      else if \<not> ar_isFile archive \<or> maxArchiveBytes limits < ar_size archive
      then (Inl ''archive exceeds the compressed size limit'', fs)
      else (case ar_events archive of
              None \<Rightarrow> (Inl ''archive is not gzip-compressed'', fs)
            | Some es \<Rightarrow> (case mkdir destination fs of
                  None \<Rightarrow> (Inl ''mkdir'', fs)
                | Some fs1 \<Rightarrow> conclude destination
                    (case extract_entries (handleEntry limits destination) es \<lparr>ex_entries = 0, ex_bytes = 0, ex_files = fs1\<rparr> of
                       Inl f \<Rightarrow> Inl f
                     | Inr st \<Rightarrow> if aborted_after then Inl (''ABORTED'', ex_files st) else Inr st))))"


section \<open>Names cannot leave the destination\<close>

lemma split_char_parts: "s \<in> set (split_char c x) \<Longrightarrow> c \<notin> set s"
  by (induction c x arbitrary: s rule: split_char.induct) (auto split: if_splits list.splits)

lemma split_char_whole: "c \<notin> set s \<Longrightarrow> split_char c s = [s]"
  by (induction s) auto

definition safe_segment :: "string \<Rightarrow> bool" where
  "safe_segment s \<longleftrightarrow> \<not> unsafe_segment s \<and> CHR ''/'' \<notin> set s"

lemma resolve_safe: "\<forall>s \<in> set ss. safe_segment s \<Longrightarrow> resolve_path base ss = base @ ss"
proof (induction ss arbitrary: base)
  case (Cons s ss)
  then have s: "\<not> unsafe_segment s" "CHR ''/'' \<notin> set s" by (simp_all add: safe_segment_def)
  then have "\<not> startsWith s ''/''" by (cases s) (auto simp: startsWith_def)
  with s have "resolve_path base (s # ss) = resolve_path (base @ [s]) ss"
    by (simp add: resolve_path_def split_char_whole resolve_step_def unsafe_segment_def)
  with Cons show ?case by simp
qed (simp add: resolve_path_def)

lemma validated_safe:
  assumes "validatePackageEntryPath name = Inr segments"
  shows "segments \<noteq> []" and "\<forall>s \<in> set segments. safe_segment s"
proof -
  let ?all = "split_char (CHR ''/'') name"
  have segs: "segments = (if endsWith name ''/'' then butlast ?all else ?all)" "segments \<noteq> []" "\<not> list_ex unsafe_segment segments"
    using assms by (auto simp: validatePackageEntryPath_def Let_def split: if_splits)
  show "segments \<noteq> []" by (rule segs(2))
  have "s \<in> set ?all" if "s \<in> set segments" for s using segs(1) that by (auto split: if_splits dest: in_set_butlastD)
  then show "\<forall>s \<in> set segments. safe_segment s"
    using segs(3) split_char_parts by (fastforce simp: safe_segment_def list_ex_iff)
qed

lemma validated_target: "validatePackageEntryPath name = Inr segments \<Longrightarrow> resolve_path destination segments = destination @ segments"
  by (rule resolve_safe) (rule validated_safe)

section \<open>Confinement\<close>

definition rooted :: "path \<Rightarrow> files \<Rightarrow> bool" where
  "rooted d fs \<longleftrightarrow> (\<forall>q \<in> set (ancestors d). fs q = Some Folder)"

text \<open>Only paths strictly below the destination differ.\<close>

definition confined :: "path \<Rightarrow> files \<Rightarrow> files \<Rightarrow> bool" where
  "confined d fs fs' \<longleftrightarrow> (\<forall>p. p = d \<or> \<not> below d p \<longrightarrow> fs' p = fs p)"

lemma confined_refl [simp]: "confined d fs fs"
  by (simp add: confined_def)

lemma confined_trans [trans]: "confined d a b \<Longrightarrow> confined d b c \<Longrightarrow> confined d a c"
  by (simp add: confined_def)

lemma ancestors_set: "q \<in> set (ancestors p) \<longleftrightarrow> (\<exists>n. 1 \<le> n \<and> n \<le> length p \<and> q = take n p)"
  by (auto simp: ancestors_def)

lemma rooted_confined: "rooted d fs \<Longrightarrow> confined d fs fs' \<Longrightarrow> rooted d fs'"
proof -
  assume r: "rooted d fs" and c: "confined d fs fs'"
  have "q = d \<or> \<not> below d q" if "q \<in> set (ancestors d)" for q
    using that by (auto simp: ancestors_set below_def)
  with r c show ?thesis unfolding rooted_def confined_def by metis
qed

lemma make_folders_keeps:
  "make_folders ps fs = Some fs' \<Longrightarrow> fs' p = (if fs p = None \<and> p \<in> set ps then Some Folder else fs p)"
  by (induction ps fs rule: make_folders.induct) (auto split: option.splits node.splits if_splits)

lemma ancestor_inside:
  assumes "rooted d fs" and "p \<in> set (ancestors (d @ ss))" and "p = d \<or> \<not> below d p"
  shows "fs p = Some Folder"
proof -
  from assms(2) obtain n where n: "1 \<le> n" "n \<le> length (d @ ss)" "p = take n (d @ ss)" unfolding ancestors_set by (elim exE conjE)
  then have "n \<le> length d" using assms(3) by (cases "n \<le> length d") (auto simp: below_def dest: arg_cong [of _ _ length])
  then have "p \<in> set (ancestors d)" using n by (auto simp: ancestors_set)
  then show ?thesis using assms(1) by (simp add: rooted_def)
qed

lemma mkdir_confined:
  assumes "rooted d fs" and "mkdir (d @ ss) fs = Some fs'"
  shows "confined d fs fs'"
  unfolding confined_def
proof (intro allI impI)
  fix p
  assume p: "p = d \<or> \<not> below d p"
  have "fs' p = (if fs p = None \<and> p \<in> set (ancestors (d @ ss)) then Some Folder else fs p)"
    using assms(2) unfolding mkdir_def by (rule make_folders_keeps)
  then show "fs' p = fs p" using ancestor_inside [OF assms(1) _ p, of ss] by (auto split: if_splits)
qed

definition files_after :: "(string \<times> files) + extraction \<Rightarrow> files" where
  "files_after r = (case r of Inl (_, fs) \<Rightarrow> fs | Inr st \<Rightarrow> ex_files st)"

lemma place_folder_confined: "rooted d (ex_files st) \<Longrightarrow> confined d (ex_files st) (files_after (place_folder (d @ ss) st))"
  by (auto simp: place_folder_def files_after_def mkdir_confined split: option.split)

lemma place_file_confined:
  assumes "rooted d (ex_files st)" and "ss \<noteq> []"
  shows "confined d (ex_files st) (files_after (place_file (d @ ss) content st))"
proof -
  have parent: "butlast (d @ ss) = d @ butlast ss" using assms(2) by (simp add: butlast_append)
  have placed: "confined d fs fs'" if "write_file (d @ ss) c fs = Some fs'" for c fs fs'
    using that assms(2) by (auto simp: write_file_def confined_def below_def split: if_splits)
  show ?thesis
    using mkdir_confined [OF assms(1), of "butlast ss"]
    by (auto simp: place_file_def files_after_def parent split: option.split dest!: placed intro: confined_trans)
qed

section \<open>What an extraction guarantees\<close>

text \<open>The contract of a handler of entries: it stays below the destination, it counts within the limits, and it
  leaves no file above the limit, if the library delivers at most the bytes it has declared (\<open>sound\<close>).\<close>

locale entry_extractor =
  fixes step :: "'e \<Rightarrow> extraction \<Rightarrow> (string \<times> files) + extraction"
    and limits :: archive_limits and destination :: path
    and sound :: "'e \<Rightarrow> bool"
  assumes step_confined: "rooted destination (ex_files st) \<Longrightarrow> confined destination (ex_files st) (files_after (step e st))"
    and step_counts: "step e st = Inr st' \<Longrightarrow> ex_entries st' \<le> maxEntries limits \<and> ex_bytes st' \<le> max (ex_bytes st) (maxExpandedBytes limits)"
    and step_sizes: "sound e \<Longrightarrow> step e st = Inr st' \<Longrightarrow> ex_files st' p = Some (Content c)
      \<Longrightarrow> ex_files st p = Some (Content c) \<or> length c \<le> maxEntryBytes limits"
begin

lemma run_confined:
  "rooted destination (ex_files st) \<Longrightarrow> confined destination (ex_files st) (files_after (extract_entries step es st))"
proof (induction es arbitrary: st)
  case (Cons ev es)
  show ?case
  proof (cases ev)
    case (Entry e)
    have c: "confined destination (ex_files st) (files_after (step e st))" using Cons.prems by (rule step_confined)
    show ?thesis
    proof (cases "step e st")
      case (Inr st')
      then have c': "confined destination (ex_files st) (ex_files st')" using c by (simp add: files_after_def)
      with Cons.IH [OF rooted_confined [OF Cons.prems c']] show ?thesis
        using Entry Inr by (auto intro: confined_trans)
    qed (use c Entry in simp)
  qed (simp add: files_after_def)
qed (simp add: files_after_def)

lemma run_counts:
  assumes "extract_entries step es st = Inr st'" and "ex_entries st \<le> maxEntries limits" and "ex_bytes st \<le> maxExpandedBytes limits"
  shows "ex_entries st' \<le> maxEntries limits \<and> ex_bytes st' \<le> maxExpandedBytes limits"
  using assms
proof (induction es arbitrary: st)
  case (Cons ev es)
  then obtain e st1 where e: "ev = Entry e" "step e st = Inr st1" "extract_entries step es st1 = Inr st'"
    by (cases ev) (auto split: sum.splits)
  show ?case using Cons.IH [OF e(3)] step_counts [OF e(2)] Cons.prems(3) by simp
qed simp

lemma run_sizes:
  assumes "extract_entries step es st = Inr st'" and "\<forall>e. Entry e \<in> set es \<longrightarrow> sound e" and "ex_files st' p = Some (Content c)"
  shows "ex_files st p = Some (Content c) \<or> length c \<le> maxEntryBytes limits"
  using assms
proof (induction es arbitrary: st)
  case (Cons ev es)
  then obtain e st1 where e: "ev = Entry e" "step e st = Inr st1" "extract_entries step es st1 = Inr st'"
    by (cases ev) (auto split: sum.splits)
  have "sound e" using Cons.prems(2) e(1) by simp
  then show ?case using Cons.IH [OF e(3)] Cons.prems(2,3) step_sizes [OF _ e(2)] by auto
qed simp

end


lemma placed_counts:
  "place_folder target st = Inr st' \<Longrightarrow> ex_entries st' = ex_entries st \<and> ex_bytes st' = ex_bytes st"
  "place_file target content st = Inr st' \<Longrightarrow> ex_entries st' = ex_entries st \<and> ex_bytes st' = ex_bytes st"
  by (auto simp: place_folder_def place_file_def split: option.splits)

lemma mkdir_contents: "mkdir p fs = Some fs' \<Longrightarrow> fs' q = Some (Content c) \<Longrightarrow> fs q = Some (Content c)"
  using make_folders_keeps [of "ancestors p" fs fs' q] by (auto simp: mkdir_def split: if_splits)

lemma placed_contents:
  "place_folder target st = Inr st' \<Longrightarrow> ex_files st' p = Some (Content c) \<Longrightarrow> ex_files st p = Some (Content c)"
  "place_file target content st = Inr st' \<Longrightarrow> ex_files st' p = Some (Content c)
    \<Longrightarrow> ex_files st p = Some (Content c) \<or> content = Some c"
  by (auto simp: place_folder_def place_file_def write_file_def split: option.splits if_splits dest: mkdir_contents)

lemma zip_confined:
  assumes "rooted d (ex_files st)"
  shows "confined d (ex_files st) (files_after (zip_step limits d e st))"
proof (cases "validatePackageEntryPath (ze_fileName e)")
  case (Inr segments)
  have "segments \<noteq> []" "resolve_path d segments = d @ segments" using validated_safe(1) [OF Inr] validated_target [OF Inr] by simp_all
  then show ?thesis
    using place_folder_confined [of d "st\<lparr>ex_entries := Suc (ex_entries st), ex_bytes := ex_bytes st + ze_uncompressedSize e\<rparr>" segments]
      place_file_confined [of d "st\<lparr>ex_entries := Suc (ex_entries st), ex_bytes := ex_bytes st + ze_uncompressedSize e\<rparr>" segments "ze_stream e"] assms
    by (simp add: zip_step_def Inr Let_def files_after_def [of "Inl _"])
qed (simp add: zip_step_def files_after_def)

lemma zip_counts:
  assumes "zip_step limits d e st = Inr st'"
  shows "ex_entries st' \<le> maxEntries limits \<and> ex_bytes st' \<le> max (ex_bytes st) (maxExpandedBytes limits)"
  using assms by (auto simp: zip_step_def Let_def split: if_splits sum.splits dest!: placed_counts)

definition zip_sound :: "zip_entry \<Rightarrow> bool" where
  "zip_sound e \<longleftrightarrow> (\<forall>c. ze_stream e = Some c \<longrightarrow> length c \<le> ze_uncompressedSize e)"

lemma zip_sizes:
  assumes "zip_sound e" and "zip_step limits d e st = Inr st'" and "ex_files st' p = Some (Content c)"
  shows "ex_files st p = Some (Content c) \<or> length c \<le> maxEntryBytes limits"
proof -
  obtain segments where "place_folder (resolve_path d segments)
        (st\<lparr>ex_entries := Suc (ex_entries st), ex_bytes := ex_bytes st + ze_uncompressedSize e\<rparr>) = Inr st'
      \<or> place_file (resolve_path d segments) (ze_stream e)
        (st\<lparr>ex_entries := Suc (ex_entries st), ex_bytes := ex_bytes st + ze_uncompressedSize e\<rparr>) = Inr st'"
    and "ze_uncompressedSize e \<le> maxEntryBytes limits"
    using assms(2) by (auto simp: zip_step_def Let_def split: if_splits sum.splits)
  then show ?thesis using assms(1,3) by (auto simp: zip_sound_def dest!: placed_contents)
qed

interpretation zip: entry_extractor "zip_step limits destination" limits destination zip_sound for limits destination
  by unfold_locales (fact zip_confined, fact zip_counts, fact zip_sizes)

lemma tar_confined:
  assumes "rooted d (ex_files st)"
  shows "confined d (ex_files st) (files_after (handleEntry limits d e st))"
proof -
  have folder: "confined d (ex_files st) (files_after (place_folder (resolve_path d segments) (st\<lparr>ex_entries := n\<rparr>)))"
    if "validatePackageEntryPath name = Inr segments" for name segments n
    using place_folder_confined [of d "st\<lparr>ex_entries := n\<rparr>" segments] assms validated_target [OF that] by simp
  have contents: "confined d (ex_files st) (files_after (place_file (resolve_path d segments) content (st\<lparr>ex_entries := n, ex_bytes := m\<rparr>)))"
    if "validatePackageEntryPath name = Inr segments" for name segments content n m
    using place_file_confined [of d "st\<lparr>ex_entries := n, ex_bytes := m\<rparr>" segments content] assms
      validated_target [OF that] validated_safe(1) [OF that] by simp
  show ?thesis
    using folder contents by (auto simp: handleEntry_def Let_def files_after_def [of "Inl _"] split: sum.split)
qed

lemma tar_counts:
  assumes "handleEntry limits d e st = Inr st'"
  shows "ex_entries st' \<le> maxEntries limits \<and> ex_bytes st' \<le> max (ex_bytes st) (maxExpandedBytes limits)"
  using assms by (auto simp: handleEntry_def Let_def split: if_splits sum.splits dest!: placed_counts)

definition tar_sound :: "tar_entry \<Rightarrow> bool" where
  "tar_sound e \<longleftrightarrow> (\<forall>c. te_stream e = Some c \<longrightarrow> length c \<le> te_size e)"

lemma tar_sizes:
  assumes "tar_sound e" and "handleEntry limits d e st = Inr st'" and "ex_files st' p = Some (Content c)"
  shows "ex_files st p = Some (Content c) \<or> length c \<le> maxEntryBytes limits"
  using assms by (auto simp: handleEntry_def Let_def tar_sound_def split: if_splits sum.splits dest!: placed_contents)

interpretation tar: entry_extractor "handleEntry limits destination" limits destination tar_sound for limits destination
  by unfold_locales (fact tar_confined, fact tar_counts, fact tar_sizes)


section \<open>Archives\<close>

lemma make_folders_done: "make_folders ps fs = Some fs' \<Longrightarrow> p \<in> set ps \<or> fs p = Some Folder \<Longrightarrow> fs' p = Some Folder"
  by (induction ps fs rule: make_folders.induct) (auto split: option.splits node.splits if_splits)

lemma mkdir_rooted: "mkdir d fs = Some fs' \<Longrightarrow> rooted d fs'"
  by (simp add: rooted_def mkdir_def make_folders_done)

lemma mkdir_elsewhere: "mkdir d fs = Some fs' \<Longrightarrow> p \<notin> set (ancestors d) \<Longrightarrow> fs' p = fs p"
  using make_folders_keeps [of "ancestors d" fs fs' p] by (simp add: mkdir_def)

lemma concluded: "\<not> below d p \<Longrightarrow> snd (conclude d r) p = files_after r p"
  by (auto simp: conclude_def files_after_def rm_recursive_def split: sum.split)

abbreviation opened :: "files \<Rightarrow> extraction" where
  "opened fs \<equiv> \<lparr>ex_entries = 0, ex_bytes = 0, ex_files = fs\<rparr>"

lemma outside_unchanged:
  assumes "mkdir d fs = Some fs1" and "confined d fs1 (files_after r)" and "\<not> below d p" and "p \<notin> set (ancestors d)"
  shows "snd (conclude d r) p = fs p"
  using assms by (simp add: concluded confined_def mkdir_elsewhere)

text \<open>Whatever an uploaded ZIP archive holds, its extraction changes no path outside the staging directory, whether it
  succeeds or fails: no name with dots, slashes, or a drive leads out of it.\<close>

theorem zip_extraction_confined:
  assumes "\<not> below destination p" and "p \<notin> set (ancestors destination)"
  shows "snd (extractPackageArchive limits destination aborted archive fs) p = fs p"
proof (cases "mkdir destination fs")
  case (Some fs1)
  have "confined destination fs1 (files_after (extract_entries (zip_step limits destination) es (opened fs1)))" for es
    using zip.run_confined [of destination "opened fs1"] mkdir_rooted [OF Some] by simp
  then show ?thesis
    using Some outside_unchanged [OF Some _ assms] mkdir_elsewhere [OF Some assms(2)]
    by (auto simp: extractPackageArchive_def split: option.split)
qed (simp add: extractPackageArchive_def)

lemma zip_extraction_confined_witness:
  "snd (extractPackageArchive DEFAULT_PACKAGE_ARCHIVE_LIMITS [''tmp'', ''x''] False
      \<lparr>ar_isFile = True, ar_size = 9, ar_events = Some [Entry \<lparr>ze_fileName = ''../evil'', ze_generalPurposeBitFlag = 0,
        ze_externalFileAttributes = 0, ze_uncompressedSize = 1, ze_stream = Some [1], ze_aborted = False\<rparr>]\<rparr> (\<lambda>_. None)) [''tmp'', ''evil''] = None"
  using zip_extraction_confined [of "[''tmp'', ''x'']" "[''tmp'', ''evil'']"] by (simp add: below_def ancestors_def)

text \<open>The same for the tar archive of a repository.\<close>

theorem tar_extraction_confined:
  assumes "\<not> below destination p" and "p \<notin> set (ancestors destination)"
  shows "snd (extractTarGzArchive limits destination aborted aborted_after archive fs) p = fs p"
proof (cases "mkdir destination fs")
  case (Some fs1)
  let ?r = "\<lambda>es. extract_entries (handleEntry limits destination) es (opened fs1)"
  have c: "confined destination fs1 (files_after (?r es))" for es
    using tar.run_confined [of destination "opened fs1"] mkdir_rooted [OF Some] by simp
  have "confined destination fs1 (files_after (case ?r es of Inl f \<Rightarrow> Inl f
      | Inr st \<Rightarrow> if aborted_after then Inl (''ABORTED'', ex_files st) else Inr st))" for es
    using c [of es] by (cases "?r es") (auto simp: files_after_def)
  then show ?thesis
    using Some outside_unchanged [OF Some _ assms]
    by (auto simp: extractTarGzArchive_def split: option.split)
qed (simp add: extractTarGzArchive_def split: option.split)

lemma tar_extraction_confined_witness:
  "snd (extractTarGzArchive DEFAULT_PACKAGE_ARCHIVE_LIMITS [''tmp'', ''x''] False False
      \<lparr>ar_isFile = True, ar_size = 9, ar_events = Some [Entry \<lparr>te_type = ''File'', te_path = ''/etc/p'', te_size = 1,
        te_stream = Some [1], te_aborted = False\<rparr>]\<rparr> (\<lambda>_. None)) [''etc'', ''p''] = None"
  using tar_extraction_confined [of "[''tmp'', ''x'']" "[''etc'', ''p'']"] by (simp add: below_def ancestors_def)

text \<open>An archive that is extracted has at most as many entries and bytes as the limits say, and leaves no file
  above the limit, if the library checks the sizes the archive declares.\<close>

theorem zip_within_limits:
  assumes "fst (extractPackageArchive limits destination aborted archive fs) = Inr (n, b)"
    and "\<forall>es e. ar_events archive = Some es \<longrightarrow> Entry e \<in> set es \<longrightarrow> zip_sound e"
    and "\<forall>p c. fs p \<noteq> Some (Content c)"
  shows "n \<le> maxEntries limits \<and> b \<le> maxExpandedBytes limits
    \<and> (\<forall>p c. snd (extractPackageArchive limits destination aborted archive fs) p = Some (Content c) \<longrightarrow> length c \<le> maxEntryBytes limits)"
proof -
  obtain fs1 es st where run: "mkdir destination fs = Some fs1" "ar_events archive = Some es"
      "extract_entries (zip_step limits destination) es (opened fs1) = Inr st" "n = ex_entries st" "b = ex_bytes st"
      "snd (extractPackageArchive limits destination aborted archive fs) = ex_files st"
    using assms(1) by (auto simp: extractPackageArchive_def conclude_def split: if_splits option.splits sum.splits)
  have none: "fs1 p \<noteq> Some (Content c)" for p c using mkdir_contents [OF run(1)] assms(3) by blast
  have "ex_entries st \<le> maxEntries limits \<and> ex_bytes st \<le> maxExpandedBytes limits"
    using zip.run_counts [OF run(3)] by simp
  moreover have "length c \<le> maxEntryBytes limits" if "ex_files st p = Some (Content c)" for p c
    using zip.run_sizes [OF run(3) _ that] assms(2) run(2) none by simp
  ultimately show ?thesis using run(4-6) by simp
qed

definition demo_entry :: zip_entry where
  "demo_entry = \<lparr>ze_fileName = ''a/b'', ze_generalPurposeBitFlag = 0, ze_externalFileAttributes = 0, ze_uncompressedSize = 1,
     ze_stream = Some [7], ze_aborted = False\<rparr>"

definition demo_archive :: "zip_entry archive" where
  "demo_archive = \<lparr>ar_isFile = True, ar_size = 9, ar_events = Some [Entry demo_entry]\<rparr>"

lemma demo_name: "validatePackageEntryPath ''a/b'' = Inr [''a'', ''b'']" "\<not> endsWith ''a/b'' ''/''"
  by (code_simp, code_simp)

lemma demo_extracted:
  "fst (extractPackageArchive DEFAULT_PACKAGE_ARCHIVE_LIMITS [''x''] False demo_archive (\<lambda>_. None)) = Inr (1, 1)"
  using demo_name validated_target [OF demo_name(1), of "[''x'']"]
  by (simp add: extractPackageArchive_def demo_archive_def demo_entry_def DEFAULT_PACKAGE_ARCHIVE_LIMITS_def mkdir_def ancestors_def
      zip_step_def unixFileType_def Let_def place_file_def write_file_def conclude_def upt_rec)

lemma zip_within_limits_witness:
  "(1 :: nat) \<le> maxEntries DEFAULT_PACKAGE_ARCHIVE_LIMITS \<and> 1 \<le> maxExpandedBytes DEFAULT_PACKAGE_ARCHIVE_LIMITS
    \<and> (\<forall>p c. snd (extractPackageArchive DEFAULT_PACKAGE_ARCHIVE_LIMITS [''x''] False demo_archive (\<lambda>_. None)) p = Some (Content c)
        \<longrightarrow> length c \<le> maxEntryBytes DEFAULT_PACKAGE_ARCHIVE_LIMITS)"
  by (rule zip_within_limits [OF demo_extracted]) (simp_all add: demo_archive_def demo_entry_def zip_sound_def)

text \<open>A failed extraction leaves nothing in the staging directory, neither files nor folders, once the archive could be opened.\<close>

theorem failed_extraction_removed:
  assumes "fst (extractPackageArchive limits destination False archive fs) = Inl r" and "ar_events archive = Some es"
    and "ar_isFile archive" and "ar_size archive \<le> maxArchiveBytes limits" and "mkdir destination fs = Some fs1"
    and "below destination p"
  shows "snd (extractPackageArchive limits destination False archive fs) p = None"
  using assms by (auto simp: extractPackageArchive_def conclude_def rm_recursive_def split: sum.splits)

lemma failed_extraction_removed_witness:
  "\<exists>fs1. mkdir [''x''] (\<lambda>_. None) = Some fs1
    \<and> snd (extractPackageArchive DEFAULT_PACKAGE_ARCHIVE_LIMITS [''x''] False
        \<lparr>ar_isFile = True, ar_size = 9, ar_events = Some [Entry demo_entry, Broken ''crc'']\<rparr> (\<lambda>_. None)) [''x'', ''a''] = None"
proof -
  let ?archive = "\<lparr>ar_isFile = True, ar_size = 9, ar_events = Some [Entry demo_entry, Broken ''crc'']\<rparr>"
  obtain fs1 where fs1: "mkdir [''x''] (\<lambda>_. None) = Some fs1" by (simp add: mkdir_def ancestors_def)
  have "\<exists>r. fst (extractPackageArchive DEFAULT_PACKAGE_ARCHIVE_LIMITS [''x''] False ?archive (\<lambda>_. None)) = Inl r"
    by (simp add: extractPackageArchive_def conclude_def DEFAULT_PACKAGE_ARCHIVE_LIMITS_def fs1 split: sum.split)
  then obtain r where "fst (extractPackageArchive DEFAULT_PACKAGE_ARCHIVE_LIMITS [''x''] False ?archive (\<lambda>_. None)) = Inl r" by blast
  from failed_extraction_removed [OF this _ _ _ fs1, of _ "[''x'', ''a'']"] fs1 show ?thesis
    by (simp add: DEFAULT_PACKAGE_ARCHIVE_LIMITS_def below_def)
qed

lemma mkdir_keeps: "mkdir q fs = Some fs' \<Longrightarrow> fs p = Some x \<Longrightarrow> fs' p = Some x"
  using make_folders_keeps [of "ancestors q" fs fs' p] by (simp add: mkdir_def)

lemma zip_step_keeps:
  assumes "zip_step limits d e st = Inr st'" and "validatePackageEntryPath (ze_fileName e) \<noteq> Inr segments"
    and "ex_files st (d @ segments) = Some x"
  shows "ex_files st' (d @ segments) = Some x"
proof -
  obtain segs where segs: "validatePackageEntryPath (ze_fileName e) = Inr segs"
    using assms(1) by (auto simp: zip_step_def split: if_splits sum.splits)
  then have "d @ segs \<noteq> d @ segments" using assms(2) by auto
  then show ?thesis
    using assms(1,3) segs by (auto simp: zip_step_def validated_target [OF segs] Let_def place_folder_def place_file_def write_file_def
        split: if_splits option.splits dest: mkdir_keeps)
qed

lemma zip_run_keeps:
  assumes "extract_entries (zip_step limits d) es st = Inr st'"
    and "\<forall>e. Entry e \<in> set es \<longrightarrow> validatePackageEntryPath (ze_fileName e) \<noteq> Inr segments"
    and "ex_files st (d @ segments) = Some x"
  shows "ex_files st' (d @ segments) = Some x"
  using assms
proof (induction es arbitrary: st)
  case (Cons ev es)
  then obtain e st1 where e: "ev = Entry e" "zip_step limits d e st = Inr st1" "extract_entries (zip_step limits d) es st1 = Inr st'"
    by (cases ev) (auto split: sum.splits)
  have "ex_files st1 (d @ segments) = Some x" using zip_step_keeps [OF e(2) _ Cons.prems(3)] Cons.prems(2) e(1) by simp
  then show ?case using Cons.IH [OF e(3)] Cons.prems(2) by simp
qed simp

lemma extract_split:
  "extract_entries step (es @ fs) st = (case extract_entries step es st of Inl f \<Rightarrow> Inl f | Inr st' \<Rightarrow> extract_entries step fs st')"
  by (induction step es st rule: extract_entries.induct) (auto split: sum.split)

text \<open>Of an archive that is extracted every file is at its place with the bytes its stream yielded, unless a later
  entry has the same name.\<close>

theorem zip_files_present:
  assumes "fst (extractPackageArchive limits destination aborted archive fs) = Inr (n, b)"
    and "ar_events archive = Some (before @ Entry e # after)" and "validatePackageEntryPath (ze_fileName e) = Inr segments"
    and "\<not> endsWith (ze_fileName e) ''/''"
    and "\<forall>e'. Entry e' \<in> set after \<longrightarrow> validatePackageEntryPath (ze_fileName e') \<noteq> Inr segments"
  shows "\<exists>c. ze_stream e = Some c
    \<and> snd (extractPackageArchive limits destination aborted archive fs) (destination @ segments) = Some (Content c)"
proof -
  let ?step = "zip_step limits destination"
  obtain fs1 st where run: "extract_entries ?step (before @ Entry e # after) (opened fs1) = Inr st"
      "snd (extractPackageArchive limits destination aborted archive fs) = ex_files st"
    using assms(1,2) by (auto simp: extractPackageArchive_def conclude_def split: if_splits option.splits sum.splits)
  then obtain st1 st2 where step: "?step e st1 = Inr st2" "extract_entries ?step after st2 = Inr st"
    by (auto simp: extract_split split: sum.splits)
  then obtain c where c: "ze_stream e = Some c" "ex_files st2 (destination @ segments) = Some (Content c)"
    using assms(3,4) by (auto simp: zip_step_def validated_target [OF assms(3)] Let_def place_file_def write_file_def
        split: if_splits option.splits)
  then show ?thesis using zip_run_keeps [OF step(2) assms(5) c(2)] run(2) by auto
qed

lemma zip_files_present_witness:
  "\<exists>c. ze_stream demo_entry = Some c
    \<and> snd (extractPackageArchive DEFAULT_PACKAGE_ARCHIVE_LIMITS [''x''] False demo_archive (\<lambda>_. None)) ([''x''] @ [''a'', ''b'']) = Some (Content c)"
  by (rule zip_files_present [OF demo_extracted, of "[]" _ "[]"])
    (use demo_name in \<open>simp_all add: demo_archive_def demo_entry_def\<close>)

end
