(* ===== verification/Spec2Isabelle.thy ===== *)
theory Spec2Isabelle
  imports Lru_Cache Semver Cron Pipeline_Safety Gestures Supervisor Capabilities Session_Rpc Session_Streams
    Broker_Gateway Broker_Forwarding Governor Chat_Routes App_Events Chat_Snapshots Tokenizers Generation Intercepts
    Response_Streams Character_Store Store_Writes Archives
begin

text \<open>
  A verification development of NeoTavern, a chat front end for language models: a web client, a server
  that keeps characters, chats and messages in SQLite and turns them into provider requests, and a runtime
  that executes plugins in isolated workers under capability control. The development models the logic these
  parts rest on, in TypeScript under \<open>apps/\<close> and \<open>packages/\<close>, and proves what makes it correct, or shows
  on a concrete run where it is not.

  \<^bold>\<open>The parts and how they interact.\<close> A posted message becomes a row of the message store; a generation
  assembles a prompt from the template, the character and the stored history, lets plugins act on it, fits it
  to the context window and sends it. The answer streams into a draft or a message, and regenerations are kept
  as variants of it. Plugins run in workers: a supervisor starts and stops them, a kernel session carries their
  calls and streams over a message port, a broker decides with the granted capabilities which calls reach the
  host, and the resource governor stops workers over their budget.

  \<^bold>\<open>Theories.\<close>
  \<^item> \<open>Prelude\<close>: JavaScript strings, numbers, truthiness, insertion-ordered maps and sorting as HOL functions;
    the interfaces several components share: \<open>event_system\<close> (every event preserves an invariant, so every
    schedule does), \<open>monotone_event_system\<close>, \<open>js_comparator\<close> and \<open>cleanup_registry\<close>.
  \<^item> \<open>Lru_Cache\<close> (\<open>packages/shared/src/cache.ts\<close>): the bounded cache with its single-flight asynchronous
    computations, split at its suspension points. Bounds, order of eviction, single flight.
  \<^item> \<open>Semver\<close> (\<open>apps/server/src/plugin/semver.ts\<close>): parsing, precedence and ranges of plugin versions.
  \<^item> \<open>Cron\<close> (\<open>apps/server/src/lib/cron.ts\<close>): schedules and the search for the next fire time.
  \<^item> \<open>Token_Estimate\<close>, \<open>Prompt_Template\<close>, \<open>Context_Shift\<close>, \<open>Post_Processing\<close>, \<open>Prompt_Pipeline\<close>,
    \<open>Pipeline_Safety\<close> (\<open>apps/server/src/pipeline/\<close>, \<open>packages/shared/src/macros.ts\<close>,
    \<open>packages/contracts/src/promptTemplate.ts\<close>): from template to provider request. The first five follow the
    files; \<open>Pipeline_Safety\<close> composes them: the messages handed to the provider fit the context when nothing
    lengthens them after the fitting (no rendering to one text, no post-processing mode, no prefill), protected
    messages reach the provider whatever plugins do, the audit adds up, in-chat prompts stand at their depth. The
    budget of a summary is the product of doubles the code computes, rounded to binary64.
  \<^item> \<open>Gestures\<close> (\<open>packages/gestures/src/index.ts\<close>): the drag and long-press recogniser as a machine of
    browser events and timers.
  \<^item> \<open>Supervisor\<close> (\<open>apps/plugin-runtime/src/supervisor.ts\<close>, \<open>emergencyLimits.ts\<close>): workers, epochs,
    two-phase termination; a refinement of an abstract registry of running threads, which says
    when a thread may start and not how the registry of the supervisor is kept.
  \<^item> \<open>Kernel_Wire\<close>, \<open>Kernel_Session\<close>, \<open>Session_Rpc\<close>, \<open>Session_Streams\<close> (\<open>packages/plugin-sdk/src/kernel/\<close>
    \<open>errors.ts\<close>, \<open>protocol.ts\<close>, \<open>bootstrap.ts\<close>, \<open>session.ts\<close>): envelopes and errors on the wire, the session
    as a step function of port events, settlement of calls, credit streams between two sessions. The port is the
    browser's: once closed it takes no message (\<open>portOpen\<close>), which silences the one place that posts without
    looking at \<open>disposed\<close>.
  \<^item> \<open>Capabilities\<close> (\<open>packages/plugin-sdk/src/kernel/capabilities.ts\<close>, \<open>manifest.ts\<close>,
    \<open>packages/db/src/repositories/pluginCapabilities.ts\<close>, \<open>apps/server/src/plugin/capabilityBroker.ts\<close>):
    capability names and scopes, the grant table, consent and revocation; the locale \<open>grant_repository\<close> is the
    contract between broker and table, and the broker refines an abstract authority relation.
  \<^item> \<open>Broker_Core\<close>, \<open>Broker_Gateway\<close>, \<open>Broker_Forwarding\<close> (\<open>apps/plugin-runtime/src/broker/\<close>): the broker
    inside the runtime, its gateway to the worker port and the core that forwards to the host; the locale
    \<open>revocable_broker\<close> is what both cores promise about revocation.
  \<^item> \<open>Governor\<close> (\<open>apps/server/src/plugin/resourceGovernor.ts\<close>): ledger, admission, sampling pass, the
    pressure ladder and the terminations it asks for.
  \<^item> \<open>Message_Rows\<close> (\<open>packages/db/src/repositories/messages.ts\<close>, the tables of \<open>schema/tables.ts\<close>): every
    write of the message store as a transaction on lists of rows with the unique indexes and cascades of the
    schema; variants, edit history, guarded edits, idempotent creates.
  \<^item> \<open>Message_Pages\<close> (\<open>packages/db/src/cursor.ts\<close> and the reads of \<open>messages.ts\<close>): keyset pagination as the
    locale \<open>keyset\<close>, interpreted for both orders of messages, for edits and, in \<open>Chat_Store\<close>, for the two
    orders of the catalogue.
  \<^item> \<open>Chat_Store\<close>, \<open>Message_Drafts\<close>, \<open>Chat_Routes\<close> (\<open>repositories/chats.ts\<close>, \<open>messageDrafts.ts\<close>,
    \<open>apps/server/src/plugins/chats.ts\<close>): chats and their order, drafts that become messages, and the routes
    that write several tables.
  \<^item> \<open>Store_Writes\<close>: the operations of the three repositories interleaved, from empty tables on; variants and
    edit history of the messages in every store they reach. The authored greeting of a chat is left out of the
    statements on variants, since it is inserted without a variant count.
  \<^item> \<open>App_Events\<close> (\<open>apps/web/src/plugins/runtime.ts\<close>, \<open>apps/web/src/plugins/kernel/events.ts\<close>): the replay
    buffer of application events in the frontend and the events slice of a plugin session, which resumes,
    pauses and acknowledges deliveries.
  \<^item> \<open>Identifiers\<close> (\<open>packages/shared/src/id.ts\<close>): the monotonic UUIDs that identify rows and requests.
  \<^item> \<open>Chat_Snapshots\<close> (\<open>packages/db/src/repositories/snapshots.ts\<close>): the copy of a chat up to a message, with
    its variants, edits and blocks, in batches of one transaction; the locale \<open>attachment\<close> is what the three
    copied tables share.
  \<^item> \<open>Event_Streams\<close> (\<open>packages/provider-sdk/src/sse.ts\<close>, \<open>apps/server/src/lib/sse.ts\<close>,
    \<open>apps/web/src/api/generate.ts\<close>, \<open>packages/client-sdk/src/http.ts\<close>): the parsers of streamed text. The locale
    \<open>chunk_reader\<close> shows once that a reader of records does not see where the network cut the text; lines and
    frames are its interpretations.
  \<^item> \<open>Provider_Adapter\<close> (\<open>packages/provider-sdk/src/adapters/openaiCompatible.ts\<close>, \<open>additionalParams.ts\<close>,
    \<open>errors.ts\<close>): the request of a generation and the events its answer becomes.
  \<^item> \<open>Generation\<close>, \<open>Intercepts\<close> (\<open>apps/server/src/plugins/generate.ts\<close>, \<open>repositories/promptContextAudits.ts\<close>):
    the generation route from the opened stream to the saved message, composed with the adapter, the message
    store and the browser's reader of the stream, and the rendezvous with the interceptors of the browser.
  \<^item> \<open>Tokenizers\<close> (\<open>packages/provider-sdk/src/tokenizer.ts\<close>): the tokenizer registry and its memoized counter.
  \<^item> \<open>Response_Streams\<close> (\<open>apps/plugin-runtime/src/host/responseStreamer.ts\<close>,
    \<open>apps/plugin-runtime/worker-bootstrap.mjs\<close>): large responses to plugin calls, cut into chunks that the
    worker pays for with credit and puts together.
  \<^item> \<open>Base64\<close>: the encodings of Node buffers. \<open>Character_Cards\<close> (\<open>apps/server/src/lib/characterCards.ts\<close>): cards as
    JSON and inside PNG images, read and written as lists of chunks. \<open>Character_Store\<close>
    (\<open>packages/db/src/repositories/characters.ts\<close>, \<open>apps/server/src/plugins/characterTransfer.ts\<close>,
    \<open>apps/web/src/components/CharacterManagementPanel.tsx\<close>): characters, their versions, imports and the editor's draft;
    the table of tags, whose order a character's tags are read in.
  \<^item> \<open>Archives\<close> (\<open>apps/server/src/lib/packageArchive.ts\<close>, \<open>tarballArchive.ts\<close>): plugin packages unpacked from
    zip files and tarballs onto a tree of files; nothing is written outside the destination, and the limits hold.

  \<^bold>\<open>How state and effects are modelled.\<close> A class is a \<open>record\<close> of its fields and a function per method that
  returns the new state; an asynchronous method is cut at its suspension points, and the schedule of what runs
  between them is a list of events of a step function, over which the invariants quantify. Database writes are
  functions from the tables to an error or a result with new tables; a failing statement rolls the transaction
  back. A method that awaits between a read and a write of the same table (\<open>MessageDraftRepository.update\<close>) is one
  step, except where overlapping requests are the point (\<open>Character_Store\<close>); the store a generation sees is written
  by nothing else while its stream is suspended. Fresh identifiers, clock readings, random draws and the outcomes of plugin code are arguments. Numbers
  are \<open>int\<close> or \<open>nat\<close> where the code stays among integers below \<open>2 ^ 53\<close>, \<open>rat\<close> where it computes with
  fractions and rounding of doubles does not enter; where it does, the product is rounded as binary64 rounds it.

  \<^bold>\<open>Bounds and fuel.\<close> Loops the code may not leave are \<open>partial_function (option)\<close> (\<open>walk_pages\<close>, the
  shortening of a summary in \<open>Context_Shift\<close>), and their termination is a property of its own or refuted by a
  run that diverges. The search of \<open>Cron\<close> is bounded by the window the code itself gives it. Every other
  recursion is structural or has a measure.

  \<^bold>\<open>Defects shown.\<close> Several properties record behaviour that contradicts the code's own comments or its
  purpose, each on a run of the model: an authored greeting can be regenerated only once
  (\<open>Chat_Store\<close>), a waiting stream write never resolves (\<open>Session_Streams\<close>), the tree memory the governor acts
  on is the one of its first pass (\<open>Governor\<close>), a reused request id escapes revocation (\<open>Broker_Core\<close>),
  malformed calls are answered as internal errors (\<open>Broker_Gateway\<close>), a refused reorder has been carried out
  (\<open>Chat_Routes\<close>), a summary can be shortened for ever (\<open>Context_Shift\<close>), a slow event consumer loses
  events without being told and a revoked one is still served on an acknowledgement (\<open>App_Events\<close>), a chunk
  \<open>null\<close> of a provider fails the generation (\<open>Provider_Adapter\<close>), a burst of short lines counts as one long
  line (\<open>Event_Streams\<close>), an empty reply is saved as its prefill (\<open>Generation\<close>), of two overlapping token counts one may be
  rejected (\<open>Tokenizers\<close>), and sixteen abandoned response streams block all later ones (\<open>Response_Streams\<close>),
  restoring a version leaves a stale favourite column, the favourite mark of an old card cannot be removed and a
  deleted character cannot be imported again, and saved tags come back in another order (\<open>Character_Store\<close>), and a blank name exports as a card no import
  takes (\<open>Character_Cards\<close>).

  \<^bold>\<open>Not modelled.\<close> The web client (\<open>apps/web\<close>: React components and hooks, but for the editor's draft, and, but for its events, the browser
  side of the plugin kernel) and \<open>packages/ui\<close>, whose behaviour is rendering; the provider adapters of \<open>packages/provider-sdk\<close> other than the
  OpenAI-compatible one and the request side of \<open>packages/client-sdk\<close>, which translate to HTTP of services that
  are not in the repository; the host that
  serves plugin calls (\<open>apps/plugin-runtime/src/host/memoryHost.ts\<close>), the rest of the worker bootstrap, the sandbox and
  backend hosts of the server and the dependency installer, which drive Node workers, child processes, sockets
  and the file system; imports of other applications' data; schemas of \<open>packages/contracts\<close> beyond the types
  the modelled code uses, since TypeBox checks them; translations, themes, build tools, documentation, the
  Rust crates and the Android and desktop shells, which are outside the TypeScript program.
\<close>

end
